(* ===== verification/Pb_Prelude.thy ===== *)
theory Pb_Prelude
  imports Main "HOL-Library.Word" "HOL-Library.Monad_Syntax"
begin

unbundle bit_operations_syntax

text \<open>
  Shared vocabulary of the development: the C integer types of the 64-bit Apple targets the
  repository is built for, the named theorem collections, and the generic facts on options,
  lists and words that the component theories use.

  Conventions.  A C function that can run into undefined behaviour (an access outside an object,
  a call through a null function pointer) or that exceeds its fuel returns \<^const>\<open>None\<close>; a
  defined run returns \<^const>\<open>Some\<close> of its C result together with the objects it has changed.  A
  theorem of the form \<open>\<exists>r. f x = Some r\<close> therefore states at once that the run ends and that
  nothing undefined happens on the way.
\<close>

type_synonym byte = "8 word"
type_synonym uint16 = "16 word"
type_synonym uint32 = "32 word"
type_synonym uint64 = "64 word"
type_synonym size_t = "64 word"

named_theorems stream_simps \<open>field equations of the stream operations\<close>
named_theorems consume_intros \<open>facts about how far a stream operation moves the stream\<close>

subsection \<open>Options\<close>

lemma bind_Some_iff [simp]:
  "(Option.bind x f = Some y) \<longleftrightarrow> (\<exists>z. x = Some z \<and> f z = Some y)"
  by (cases x) auto

lemma bind_None_iff:
  "(Option.bind x f = None) \<longleftrightarrow> (x = None \<or> (\<exists>z. x = Some z \<and> f z = None))"
  by (cases x) auto

lemma bind_total:
  assumes "\<exists>z. x = Some z \<and> P z" and "\<And>z. P z \<Longrightarrow> \<exists>y. f z = Some y \<and> Q y"
  shows "\<exists>y. Option.bind x f = Some y \<and> Q y"
  using assms by auto

definition is_ok :: "'a option \<Rightarrow> bool" where
  "is_ok r \<longleftrightarrow> r \<noteq> None"

lemma is_ok_simps [simp]: "is_ok (Some x)" "\<not> is_ok None"
  by (simp_all add: is_ok_def)

lemma is_okE: "is_ok r \<Longrightarrow> (\<And>x. r = Some x \<Longrightarrow> P) \<Longrightarrow> P"
  by (auto simp: is_ok_def)

lemma not_is_ok [simp]: "\<not> is_ok r \<longleftrightarrow> r = None"
  by (simp add: is_ok_def)

subsection \<open>Lists\<close>

definition nth_opt :: "'a list \<Rightarrow> nat \<Rightarrow> 'a option" where
  "nth_opt xs i = (if i < length xs then Some (xs ! i) else None)"

lemma nth_opt_Some_iff: "nth_opt xs i = Some x \<longleftrightarrow> i < length xs \<and> xs ! i = x"
  by (simp add: nth_opt_def)

lemma list_update_snoc [simp]: "(xs @ [x])[length xs := y] = xs @ [y]"
  by (simp add: list_update_append)

subsection \<open>Words\<close>

lemma unat_less_2p: "unat (w :: 'a::len word) < 2 ^ LENGTH('a)"
  by (rule unsigned_less)

lemma unat_add_no_overflow:
  fixes a b :: "'a::len word"
  assumes "unat a + unat b < 2 ^ LENGTH('a)"
  shows "unat (a + b) = unat a + unat b"
  using assms by (simp add: unat_word_ariths)

lemma unat_sub_le:
  fixes a b :: "'a::len word"
  assumes "b \<le> a"
  shows "unat (a - b) = unat a - unat b"
  using assms by (rule unat_sub)

lemma unat_pred: "Suc 0 \<le> unat w \<Longrightarrow> unat (w - 1) = unat w - 1"
  by (rule unat_minus_one) (auto simp: unat_gt_0)

lemma unat_of_nat_small [simp]:
  "n < 2 ^ LENGTH('a) \<Longrightarrow> unat (of_nat n :: 'a::len word) = n"
  by (simp add: unat_of_nat take_bit_nat_eq_self)

lemma unat_ucast_u32 [simp]: "unat (ucast (w :: uint32) :: uint64) = unat w"
  by (simp add: unsigned_ucast_eq take_bit_nat_eq_self order_less_trans [OF unat_less_2p])

lemma ucast_u32_eq_0: "(ucast (w :: uint32) :: uint64) = 0 \<longleftrightarrow> w = 0"
  by (simp add: unat_eq_zero [symmetric] del: unsigned_eq_0_iff)

lemma of_nat_eq_0_small:
  "n < 2 ^ LENGTH('a) \<Longrightarrow> (of_nat n :: 'a::len word) = 0 \<longleftrightarrow> n = 0"
  by (auto simp: word_of_nat_eq_0_iff dest: nat_dvd_not_less)

lemma and_7F_eq_take_bit: "(v :: 'a::len word) AND 0x7F = take_bit 7 v"
  by (simp add: take_bit_eq_mask mask_eq_exp_minus_1)

lemma unat_and_7F: "unat ((v :: 'a::len word) AND 0x7F) = unat v mod 128"
  unfolding and_7F_eq_take_bit unsigned_take_bit_eq by (simp add: take_bit_eq_mod)

lemma unat_drop_bit_7: "unat (drop_bit 7 (v :: 'a::len word)) = unat v div 128"
  unfolding unsigned_drop_bit_eq by (simp add: drop_bit_eq_div take_bit_nat_eq_self)

lemma byte_bit_ge [simp]: "8 \<le> n \<Longrightarrow> \<not> bit (w :: byte) n"
  using bit_imp_le_length [of w n] by auto

lemma u32_bit_ge [simp]: "32 \<le> n \<Longrightarrow> \<not> bit (w :: uint32) n"
  using bit_imp_le_length [of w n] by auto

lemma u64_bit_ge [simp]: "64 \<le> n \<Longrightarrow> \<not> bit (w :: uint64) n"
  using bit_imp_le_length [of w n] by auto

lemma sint_neg_iff: "sint (v :: 'a::len word) < 0 \<longleftrightarrow> bit v (LENGTH('a) - Suc 0)"
  by (rule bit_last_iff [symmetric])

subsection \<open>Little-endian bytes\<close>

text \<open>The \<open>k\<close> low bytes of a word, least significant first, and the word they make up.\<close>

primrec bytes_of :: "nat \<Rightarrow> 'a::len word \<Rightarrow> byte list" where
  "bytes_of 0 v = []"
| "bytes_of (Suc k) v = ucast v # bytes_of k (drop_bit 8 v)"

primrec word_of :: "byte list \<Rightarrow> 'a::len word" where
  "word_of [] = 0"
| "word_of (b # bs) = ucast b OR push_bit 8 (word_of bs)"

lemma length_bytes_of [simp]: "length (bytes_of k v) = k"
  by (induction k arbitrary: v) simp_all

lemma word_of_bytes_of: "word_of (bytes_of k v) = take_bit (8 * k) v"
proof (induction k arbitrary: v)
  case (Suc k)
  show ?case
    unfolding bytes_of.simps word_of.simps Suc.IH
    by (rule bit_word_eqI) (auto simp: bit_simps)
qed simp

lemma word_of_bytes_of_full: "8 * k = LENGTH('a::len) \<Longrightarrow> word_of (bytes_of k (v :: 'a word)) = v"
  by (simp add: word_of_bytes_of take_bit_word_eq_self)

lemma bytes_of_take_bit: "8 * k \<le> m \<Longrightarrow> bytes_of k (take_bit m w) = bytes_of k w"
proof (induction k arbitrary: m w)
  case (Suc k)
  have "ucast (take_bit m w) = (ucast w :: byte)"
    using Suc.prems by (intro bit_word_eqI) (auto simp: bit_simps)
  moreover have "drop_bit 8 (take_bit m w) = take_bit (m - 8) (drop_bit 8 w)"
    by (simp add: drop_bit_take_bit)
  ultimately show ?case
    using Suc by simp
qed simp

lemma bytes_of_word_of:
  "8 * length bs \<le> LENGTH('a::len) \<Longrightarrow> bytes_of (length bs) (word_of bs :: 'a word) = bs"
proof (induction bs)
  case (Cons b bs)
  have "ucast (word_of (b # bs) :: 'a word) = b"
    using Cons.prems by (intro bit_word_eqI) (auto simp: bit_simps)
  moreover have "drop_bit 8 (word_of (b # bs) :: 'a word) = take_bit (LENGTH('a) - 8) (word_of bs)"
    using Cons.prems by (intro bit_word_eqI) (auto simp: bit_simps)
  ultimately show ?case
    using Cons by (simp add: bytes_of_take_bit)
qed simp

lemma bytes_of_4: "bytes_of 4 v = [ucast v, ucast (drop_bit 8 v), ucast (drop_bit 16 v), ucast (drop_bit 24 v)]"
proof -
  have 4: "(4 :: nat) = Suc (Suc (Suc (Suc 0)))" by simp
  show ?thesis unfolding 4 by (simp del: drop_bit_Suc)
qed

lemma bytes_of_8:
  "bytes_of 8 v = [ucast v, ucast (drop_bit 8 v), ucast (drop_bit 16 v), ucast (drop_bit 24 v),
     ucast (drop_bit 32 v), ucast (drop_bit 40 v), ucast (drop_bit 48 v), ucast (drop_bit 56 v)]"
proof -
  have "bytes_of 8 v = bytes_of (Suc (Suc (Suc (Suc 4)))) v" by simp
  also have "\<dots> = [ucast v, ucast (drop_bit 8 v), ucast (drop_bit 16 v), ucast (drop_bit 24 v),
     ucast (drop_bit 32 v), ucast (drop_bit 40 v), ucast (drop_bit 48 v), ucast (drop_bit 56 v)]"
    unfolding bytes_of.simps bytes_of_4 by (simp del: drop_bit_Suc)
  finally show ?thesis .
qed

end
