(* ===== verification/Varint.thy ===== *)
theory Varint
  imports Pb_Prelude
begin

text \<open>
  The variable-length format of integers that protocol buffers and LevelDB share: seven bits per
  byte, least significant group first, the top bit set on every byte but the last.  It is stated over
  the natural numbers and is the reference for the encoders and decoders of both libraries.
\<close>

fun varint_bytes :: "nat \<Rightarrow> byte list" where
  "varint_bytes n = (if n < 128 then [of_nat n] else of_nat (128 + n mod 128) # varint_bytes (n div 128))"

declare varint_bytes.simps [simp del]

fun varint_open :: "nat \<Rightarrow> byte list" where
  "varint_open n = (if n = 0 then [] else of_nat (128 + n mod 128) # varint_open (n div 128))"

declare varint_open.simps [simp del]

lemma varint_bytes_small: "n < 128 \<Longrightarrow> varint_bytes n = [of_nat n]"
  by (subst varint_bytes.simps) simp

lemma varint_bytes_big: "128 \<le> n \<Longrightarrow> varint_bytes n = of_nat (128 + n mod 128) # varint_bytes (n div 128)"
  by (subst varint_bytes.simps) simp

lemma varint_open_0 [simp]: "varint_open 0 = []"
  by (simp add: varint_open.simps)

lemma varint_open_pos: "0 < n \<Longrightarrow> varint_open n = of_nat (128 + n mod 128) # varint_open (n div 128)"
  by (subst varint_open.simps) simp

lemma length_varint_open: "n < 128 ^ k \<Longrightarrow> length (varint_open n) \<le> k"
proof (induction k arbitrary: n)
  case 0
  then show ?case by simp
next
  case (Suc k)
  show ?case
  proof (cases "n = 0")
    case False
    have "n div 128 < 128 ^ k"
      using Suc.prems by (simp add: less_mult_imp_div_less mult.commute)
    then show ?thesis
      using Suc.IH False by (simp add: varint_open_pos)
  qed simp
qed

lemma length_varint_open_u64: "length (varint_open (unat (v :: uint64))) \<le> 10"
  by (rule length_varint_open) (rule order_less_le_trans [OF unat_less_2p], simp)

lemma varint_open_eq_Nil: "varint_open n = [] \<longleftrightarrow> n = 0"
  by (subst varint_open.simps) simp

lemma length_varint_bytes: "0 < n \<Longrightarrow> length (varint_bytes n) = length (varint_open n)"
proof (induction n rule: varint_bytes.induct)
  case (1 n)
  show ?case
  proof (cases "n < 128")
    case True
    with 1 show ?thesis by (simp add: varint_bytes_small varint_open_pos)
  next
    case False
    with 1 have "length (varint_bytes (n div 128)) = length (varint_open (n div 128))" by simp
    with 1 False show ?thesis by (simp add: varint_bytes_big varint_open_pos)
  qed
qed

lemma length_varint_bytes_u64: "length (varint_bytes (unat (v :: uint64))) \<le> 10"
proof (cases "unat v = 0")
  case True
  then show ?thesis by (simp add: varint_bytes_small)
next
  case False
  then show ?thesis using length_varint_open_u64 [of v] by (simp add: length_varint_bytes)
qed

lemma varint_digit_low: "ucast (v AND 0x7F :: uint64) = (of_nat (unat v mod 128) :: byte)"
  by (simp add: word_unat_eq_iff unsigned_ucast_eq unat_and_7F unat_of_nat take_bit_nat_eq_self)

lemma byte_clear_top: "n < 128 \<Longrightarrow> (of_nat (128 + n) :: byte) AND 0x7F = of_nat n"
  by (simp add: word_unat_eq_iff unat_and_7F unat_of_nat del: of_nat_add)

lemma byte_set_top:
  assumes "m < 128"
  shows "of_nat m OR 0x80 = (of_nat (128 + m) :: byte)"
proof -
  have "(of_nat m :: byte) = of_nat m AND 0x7F"
    using assms by (simp add: word_unat_eq_iff unat_and_7F unat_of_nat)
  then have "(of_nat m :: byte) AND 0x80 = (of_nat m AND 0x7F) AND 0x80" by simp
  also have "\<dots> = 0" by (simp add: and.assoc)
  finally show ?thesis by (simp add: disjunctive_add_eq_or [symmetric])
qed

subsection \<open>Digits\<close>

lemma of_nat_digits:
  "(of_nat n :: 'a::len word) = of_nat (n mod 128) OR push_bit 7 (of_nat (n div 128))"
proof -
  have "n mod 128 = take_bit 7 n" by (simp add: take_bit_eq_mod)
  then have "(of_nat (n mod 128) :: 'a word) AND push_bit 7 (of_nat (n div 128)) = 0"
    by (auto simp: bit_eq_iff bit_simps)
  then have "of_nat (n mod 128) OR push_bit 7 (of_nat (n div 128)) =
      (of_nat (n mod 128) :: 'a word) + push_bit 7 (of_nat (n div 128))"
    by (simp add: disjunctive_add_eq_or)
  also have "\<dots> = of_nat (n mod 128 + 128 * (n div 128))"
    by (simp only: push_bit_eq_mult of_nat_add of_nat_mult mult.commute) simp
  finally show ?thesis by simp
qed

lemma push_digits:
  "push_bit p (of_nat n :: 'a::len word) =
   push_bit p (of_nat (n mod 128)) OR push_bit (p + 7) (of_nat (n div 128))"
  by (subst of_nat_digits) (simp add: push_bit_or push_bit_push_bit add.commute)

lemma byte_and_80: "(b :: byte) AND 0x80 = 0 \<longleftrightarrow> unat b < 128"
proof -
  have "b AND 0x80 = 0 \<longleftrightarrow> \<not> bit b 7"
    using and_exp_eq_0_iff_not_bit [of b 7] by simp
  also have "\<dots> \<longleftrightarrow> even (unat b div 128)"
    using bit_unsigned_iff [of b 7, where 'a = nat] by (simp add: bit_iff_odd)
  also have "\<dots> \<longleftrightarrow> unat b < 128"
  proof -
    have "unat b < 256" using unat_less_2p [of b] by simp
    then have "unat b div 128 = 1" if "128 \<le> unat b"
      using that by (intro div_nat_eqI) simp_all
    then show ?thesis by (cases "unat b < 128") simp_all
  qed
  finally show ?thesis .
qed

lemma digit_byte:
  assumes "n < 128"
  shows "(of_nat n :: byte) AND 0x80 = 0" "(of_nat n :: byte) AND 0x7F = of_nat n"
    "ucast (of_nat n :: byte) = (of_nat n :: 'a::len word)"
proof -
  show "(of_nat n :: byte) AND 0x80 = 0" using assms by (simp add: byte_and_80)
  show "(of_nat n :: byte) AND 0x7F = of_nat n"
    using assms by (simp add: word_unat_eq_iff unat_and_7F)
  show "ucast (of_nat n :: byte) = (of_nat n :: 'a::len word)"
    using assms by (simp add: unsigned_of_nat take_bit_nat_eq_self)
qed

lemma cont_byte:
  assumes "n < 128"
  shows "(of_nat (128 + n) :: byte) AND 0x80 \<noteq> 0" "(of_nat (128 + n) :: byte) AND 0x7F = of_nat n"
  using assms byte_clear_top [of n] by (simp_all add: byte_and_80 del: of_nat_add)

end
