(* ===== verification/Ldb_Coding.thy ===== *)
theory Ldb_Coding
  imports Varint
begin

text \<open>
  The integer and string encodings of LevelDB (\<^verbatim>\<open>util/coding.cc\<close>, \<^verbatim>\<open>util/coding.h\<close>).  A C++ string and
  the bytes between a pointer and its limit are byte lists; \<^verbatim>\<open>*value\<close> and the moved pointer of a reader
  are its result, \<^const>\<open>None\<close> stands for \<^verbatim>\<open>nullptr\<close>.  The routines over a \<^verbatim>\<open>Slice*\<close> return the slice as they
  leave it.
\<close>

subsection \<open>Fixed-width integers\<close>

definition kLittleEndian :: bool where "kLittleEndian = True"

definition encode_fixed32 :: "bool \<Rightarrow> uint32 \<Rightarrow> byte list" where
  "encode_fixed32 little_endian v =
     (if little_endian then bytes_of 4 v
      else [ucast (v AND 0xff), ucast (drop_bit 8 v AND 0xff), ucast (drop_bit 16 v AND 0xff),
            ucast (drop_bit 24 v AND 0xff)])"

definition encode_fixed64 :: "bool \<Rightarrow> uint64 \<Rightarrow> byte list" where
  "encode_fixed64 little_endian v =
     (if little_endian then bytes_of 8 v
      else [ucast (v AND 0xff), ucast (drop_bit 8 v AND 0xff), ucast (drop_bit 16 v AND 0xff),
            ucast (drop_bit 24 v AND 0xff), ucast (drop_bit 32 v AND 0xff), ucast (drop_bit 40 v AND 0xff),
            ucast (drop_bit 48 v AND 0xff), ucast (drop_bit 56 v AND 0xff)])"

definition EncodeFixed32 :: "uint32 \<Rightarrow> byte list" where
  "EncodeFixed32 v = encode_fixed32 kLittleEndian v"

definition EncodeFixed64 :: "uint64 \<Rightarrow> byte list" where
  "EncodeFixed64 v = encode_fixed64 kLittleEndian v"

definition PutFixed32 :: "byte list \<Rightarrow> uint32 \<Rightarrow> byte list" where
  "PutFixed32 dst v = dst @ EncodeFixed32 v"

definition PutFixed64 :: "byte list \<Rightarrow> uint64 \<Rightarrow> byte list" where
  "PutFixed64 dst v = dst @ EncodeFixed64 v"

text \<open>Reading does not check bounds; reading behind the bytes is undefined.\<close>

definition decode_fixed32 :: "bool \<Rightarrow> byte list \<Rightarrow> uint32 option" where
  "decode_fixed32 little_endian p =
     (if length p < 4 then None
      else if little_endian then Some (word_of (take 4 p))
      else Some (ucast (p ! 0) OR push_bit 8 (ucast (p ! 1)) OR push_bit 16 (ucast (p ! 2)) OR
                 push_bit 24 (ucast (p ! 3))))"

definition decode_fixed64 :: "bool \<Rightarrow> byte list \<Rightarrow> uint64 option" where
  "decode_fixed64 little_endian p =
     (if length p < 8 then None
      else if little_endian then Some (word_of (take 8 p))
      else do {
        lo \<leftarrow> decode_fixed32 little_endian p;
        hi \<leftarrow> decode_fixed32 little_endian (drop 4 p);
        Some (push_bit 32 (ucast hi) OR ucast lo)
      })"

definition DecodeFixed32 :: "byte list \<Rightarrow> uint32 option" where
  "DecodeFixed32 p = decode_fixed32 kLittleEndian p"

definition DecodeFixed64 :: "byte list \<Rightarrow> uint64 option" where
  "DecodeFixed64 p = decode_fixed64 kLittleEndian p"

subsection \<open>Varints\<close>

definition EncodeVarint32 :: "uint32 \<Rightarrow> byte list" where
  "EncodeVarint32 v =
     (if v < 2 ^ 7 then [ucast v]
      else if v < 2 ^ 14 then [ucast (v OR 128), ucast (drop_bit 7 v)]
      else if v < 2 ^ 21 then [ucast (v OR 128), ucast (drop_bit 7 v OR 128), ucast (drop_bit 14 v)]
      else if v < 2 ^ 28
      then [ucast (v OR 128), ucast (drop_bit 7 v OR 128), ucast (drop_bit 14 v OR 128), ucast (drop_bit 21 v)]
      else [ucast (v OR 128), ucast (drop_bit 7 v OR 128), ucast (drop_bit 14 v OR 128),
            ucast (drop_bit 21 v OR 128), ucast (drop_bit 28 v)])"

definition PutVarint32 :: "byte list \<Rightarrow> uint32 \<Rightarrow> byte list" where
  "PutVarint32 dst v = dst @ EncodeVarint32 v"

lemma drop_bit_7_less: "128 \<le> v \<Longrightarrow> unat (drop_bit 7 v) < unat v" for v :: uint64
  by (simp add: unat_drop_bit_7 word_le_nat_alt)

function EncodeVarint64 :: "uint64 \<Rightarrow> byte list" where
  "EncodeVarint64 v = (if v \<ge> 128 then ucast (v OR 128) # EncodeVarint64 (drop_bit 7 v) else [ucast v])"
  by pat_completeness auto
termination by (relation "measure unat") (simp_all add: drop_bit_7_less)

declare EncodeVarint64.simps [simp del]

definition PutVarint64 :: "byte list \<Rightarrow> uint64 \<Rightarrow> byte list" where
  "PutVarint64 dst v = dst @ EncodeVarint64 v"

definition PutLengthPrefixedSlice :: "byte list \<Rightarrow> byte list \<Rightarrow> byte list" where
  "PutLengthPrefixedSlice dst s = PutVarint32 dst (of_nat (length s)) @ s"

function varint_length_loop :: "uint64 \<Rightarrow> nat \<Rightarrow> nat" where
  "varint_length_loop v len = (if v \<ge> 128 then varint_length_loop (drop_bit 7 v) (len + 1) else len)"
  by pat_completeness auto
termination by (relation "measure (unat \<circ> fst)") (simp_all add: drop_bit_7_less)

declare varint_length_loop.simps [simp del]

definition VarintLength :: "uint64 \<Rightarrow> nat" where
  "VarintLength v = varint_length_loop v 1"

primrec fallback_loop :: "byte list \<Rightarrow> nat \<Rightarrow> uint32 \<Rightarrow> (uint32 \<times> byte list) option" where
  "fallback_loop [] shift result = None"
| "fallback_loop (b # p) shift result =
     (if shift \<le> 28
      then (if b AND 128 \<noteq> 0 then fallback_loop p (shift + 7) (result OR push_bit shift (ucast (b AND 127)))
            else Some (result OR push_bit shift (ucast b), p))
      else None)"

definition GetVarint32PtrFallback :: "byte list \<Rightarrow> (uint32 \<times> byte list) option" where
  "GetVarint32PtrFallback p = fallback_loop p 0 0"

definition GetVarint32Ptr :: "byte list \<Rightarrow> (uint32 \<times> byte list) option" where
  "GetVarint32Ptr p =
     (case p of
        b # q \<Rightarrow> (if b AND 128 = 0 then Some (ucast b, q) else GetVarint32PtrFallback p)
      | [] \<Rightarrow> GetVarint32PtrFallback p)"

primrec varint64_loop :: "byte list \<Rightarrow> nat \<Rightarrow> uint64 \<Rightarrow> (uint64 \<times> byte list) option" where
  "varint64_loop [] shift result = None"
| "varint64_loop (b # p) shift result =
     (if shift \<le> 63
      then (if b AND 128 \<noteq> 0 then varint64_loop p (shift + 7) (result OR push_bit shift (ucast (b AND 127)))
            else Some (result OR push_bit shift (ucast b), p))
      else None)"

definition GetVarint64Ptr :: "byte list \<Rightarrow> (uint64 \<times> byte list) option" where
  "GetVarint64Ptr p = varint64_loop p 0 0"

definition GetVarint32 :: "byte list \<Rightarrow> uint32 option \<times> byte list" where
  "GetVarint32 input = (case GetVarint32Ptr input of None \<Rightarrow> (None, input) | Some (v, q) \<Rightarrow> (Some v, q))"

definition GetVarint64 :: "byte list \<Rightarrow> uint64 option \<times> byte list" where
  "GetVarint64 input = (case GetVarint64Ptr input of None \<Rightarrow> (None, input) | Some (v, q) \<Rightarrow> (Some v, q))"

subsection \<open>Length-prefixed strings\<close>

definition GetLengthPrefixedSlicePtr :: "byte list \<Rightarrow> (byte list \<times> byte list) option" where
  "GetLengthPrefixedSlicePtr p = do {
     (len, p) \<leftarrow> GetVarint32Ptr p;
     if unat len > length p then None else Some (take (unat len) p, drop (unat len) p)
   }"

definition GetLengthPrefixedSlice :: "byte list \<Rightarrow> byte list option \<times> byte list" where
  "GetLengthPrefixedSlice input =
     (case GetVarint32 input of
        (None, input) \<Rightarrow> (None, input)
      | (Some len, input) \<Rightarrow>
          (if length input \<ge> unat len then (Some (take (unat len) input), drop (unat len) input)
           else (None, input)))"

subsection \<open>Agreement with the reference format\<close>

lemma unat_drop_bit: "unat (drop_bit n (v :: 'a::len word)) = unat v div 2 ^ n"
  unfolding unsigned_drop_bit_eq by (simp add: drop_bit_eq_div take_bit_nat_eq_self)

lemma byte_or_128: "(b :: byte) OR 128 = of_nat (128 + unat b mod 128)"
proof -
  have m: "(127 :: byte) OR 128 = - 1" by simp
  have "b = b AND (127 OR 128)" unfolding m by simp
  then have "b OR 128 = ((b AND 127) OR (b AND 128)) OR 128" by (simp only: bit.conj_disj_distrib)
  also have "\<dots> = (b AND 127) OR 128" by (simp add: or.assoc bit.disj_conj_distrib2)
  also have "b AND 127 = of_nat (unat b mod 128)" by (simp add: word_unat_eq_iff unat_and_7F)
  finally show ?thesis using byte_set_top [of "unat b mod 128"] by simp
qed

lemma byte_cont:
  assumes "8 \<le> LENGTH('a::len)"
  shows "ucast ((v :: 'a word) OR 128) = (of_nat (128 + unat v mod 128) :: byte)"
proof -
  have "ucast (v OR 128) = (ucast v OR ucast (128 :: 'a word) :: byte)" by (simp add: unsigned_or_eq)
  moreover have "ucast (128 :: 'a word) = (128 :: byte)"
  proof -
    have "(2 :: nat) ^ 7 < 2 ^ LENGTH('a)" using assms by (intro power_strict_increasing) simp_all
    then have "unat (of_nat 128 :: 'a word) = 128" by (intro unat_of_nat_small) simp
    then show ?thesis by (simp add: word_unat_eq_iff unsigned_ucast_eq)
  qed
  moreover have "unat (ucast v :: byte) mod 128 = unat v mod 128"
    by (simp add: unsigned_ucast_eq take_bit_eq_mod mod_mod_cancel)
  ultimately show ?thesis by (simp only: byte_or_128)
qed

text \<open>One step of the reference format on a machine word.\<close>

lemma varint_bytes_word:
  assumes "8 \<le> LENGTH('a::len)"
  shows "varint_bytes (unat (v :: 'a word)) =
    (if unat v < 128 then [ucast v] else ucast (v OR 128) # varint_bytes (unat (drop_bit 7 v)))"
  by (simp add: varint_bytes.simps [of "unat v"] byte_cont [OF assms] unat_drop_bit_7 del: of_nat_add)

lemma EncodeVarint64_bytes: "EncodeVarint64 v = varint_bytes (unat v)"
proof (induction v rule: EncodeVarint64.induct)
  case (1 v)
  then show ?case
    unfolding EncodeVarint64.simps [of v] varint_bytes_word [of v, simplified]
    by (simp add: word_le_nat_alt)
qed

lemma unat_less_pow: "unat (drop_bit n v) < 128 \<longleftrightarrow> v < 2 ^ (n + 7)" if "n \<le> 21" for v :: uint32
proof -
  have "(2 :: nat) ^ (n + 7) < 2 ^ 32" using that by (intro power_strict_increasing) simp_all
  then have "unat (of_nat (2 ^ (n + 7)) :: uint32) = 2 ^ (n + 7)" by (intro unat_of_nat_small) simp
  then show ?thesis
    unfolding word_less_nat_alt unat_drop_bit by (simp add: div_less_iff_less_mult power_add mult.commute)
qed

text \<open>The unrolled encoder of 32-bit values writes the same format.\<close>

lemma EncodeVarint32_bytes: "EncodeVarint32 v = varint_bytes (unat v)"
proof -
  have d: "drop_bit 7 (drop_bit n v) = drop_bit (n + 7) v" for n by (simp add: drop_bit_drop_bit add.commute)
  have w: "varint_bytes (unat x) =
    (if unat x < 128 then [ucast x] else ucast (x OR 128) # varint_bytes (unat (drop_bit 7 x)))" for x :: uint32
    by (rule varint_bytes_word) simp
  have l: "unat v < 128 \<longleftrightarrow> v < 2 ^ 7" using unat_less_pow [of 0 v] by simp
  have l28: "unat (drop_bit 28 v) < 128"
    unfolding unat_drop_bit using unat_less_2p [of v] by (simp add: less_mult_imp_div_less)
  have "varint_bytes (unat (drop_bit 28 v)) = [ucast (drop_bit 28 v)]" by (subst w) (simp only: l28 if_True)
  then have e4: "varint_bytes (unat (drop_bit 21 v)) =
      (if v < 2 ^ 28 then [ucast (drop_bit 21 v)] else [ucast (drop_bit 21 v OR 128), ucast (drop_bit 28 v)])"
    using unat_less_pow [of 21 v] d [of 21] by (subst w) simp
  then have e3: "varint_bytes (unat (drop_bit 14 v)) =
      (if v < 2 ^ 21 then [ucast (drop_bit 14 v)] else ucast (drop_bit 14 v OR 128) # varint_bytes (unat (drop_bit 21 v)))"
    using unat_less_pow [of 14 v] d [of 14] by (subst w) simp
  have e2: "varint_bytes (unat (drop_bit 7 v)) =
      (if v < 2 ^ 14 then [ucast (drop_bit 7 v)] else ucast (drop_bit 7 v OR 128) # varint_bytes (unat (drop_bit 14 v)))"
    using unat_less_pow [of 7 v] d [of 7] by (subst w) simp
  show ?thesis
    unfolding EncodeVarint32_def by (subst w) (simp add: l e2 e3 e4)
qed

lemma VarintLength_bytes: "VarintLength v = length (EncodeVarint64 v)"
proof -
  have "varint_length_loop v k + 1 = length (EncodeVarint64 v) + k" for k
  proof (induction v k rule: varint_length_loop.induct)
    case (1 v k)
    then show ?case by (simp add: varint_length_loop.simps [of v] EncodeVarint64.simps [of v])
  qed
  from this [of 1] show ?thesis by (simp add: VarintLength_def)
qed

text \<open>Both decoding loops on the reference format, at any bit position.\<close>

lemma varint_bytes_neq_Nil [simp]: "varint_bytes n \<noteq> []"
  by (subst varint_bytes.simps) simp

lemma fallback_loop_bytes:
  assumes "shift + 7 * (length (varint_bytes n) - 1) \<le> 28"
  shows "fallback_loop (varint_bytes n @ q) shift r = Some (r OR push_bit shift (of_nat n), q)"
  using assms
proof (induction n arbitrary: shift r rule: varint_bytes.induct)
  case (1 n)
  show ?case
  proof (cases "n < 128")
    case True
    then show ?thesis using 1(2) by (simp add: varint_bytes_small digit_byte)
  next
    case False
    obtain k where k: "length (varint_bytes (n div 128)) = Suc k" by (cases "length (varint_bytes (n div 128))") simp_all
    have eq: "varint_bytes n = of_nat (128 + n mod 128) # varint_bytes (n div 128)"
      using False by (simp add: varint_bytes_big del: of_nat_add)
    show ?thesis
      using 1(1) [OF False, of "shift + 7" "r OR push_bit shift (of_nat (n mod 128))"] 1(2) unfolding eq
      by (simp add: k cont_byte digit_byte push_digits [of shift n] or.assoc del: of_nat_add)
  qed
qed

lemma varint64_loop_bytes:
  assumes "shift + 7 * (length (varint_bytes n) - 1) \<le> 63"
  shows "varint64_loop (varint_bytes n @ q) shift r = Some (r OR push_bit shift (of_nat n), q)"
  using assms
proof (induction n arbitrary: shift r rule: varint_bytes.induct)
  case (1 n)
  show ?case
  proof (cases "n < 128")
    case True
    then show ?thesis using 1(2) by (simp add: varint_bytes_small digit_byte)
  next
    case False
    obtain k where k: "length (varint_bytes (n div 128)) = Suc k" by (cases "length (varint_bytes (n div 128))") simp_all
    have eq: "varint_bytes n = of_nat (128 + n mod 128) # varint_bytes (n div 128)"
      using False by (simp add: varint_bytes_big del: of_nat_add)
    show ?thesis
      using 1(1) [OF False, of "shift + 7" "r OR push_bit shift (of_nat (n mod 128))"] 1(2) unfolding eq
      by (simp add: k cont_byte digit_byte push_digits [of shift n] or.assoc del: of_nat_add)
  qed
qed

lemma length_varint_bytes_le: "n < 128 ^ k \<Longrightarrow> 0 < k \<Longrightarrow> length (varint_bytes n) \<le> k"
  using length_varint_open [of n k] length_varint_bytes [of n] by (cases "n = 0") (simp_all add: varint_bytes_small)

lemma GetVarint32Ptr_bytes: "GetVarint32Ptr (EncodeVarint32 v @ q) = Some (v, q)"
proof -
  have "unat v < 128 ^ 5" using unat_less_2p [of v] by simp
  then have "length (varint_bytes (unat v)) \<le> 5" by (intro length_varint_bytes_le) simp_all
  then have fb: "GetVarint32PtrFallback (varint_bytes (unat v) @ q) = Some (v, q)"
    by (simp add: GetVarint32PtrFallback_def fallback_loop_bytes)
  show ?thesis
  proof (cases "unat v < 128")
    case True
    then have "varint_bytes (unat v) = [of_nat (unat v)]" by (rule varint_bytes_small)
    moreover have "ucast (of_nat (unat v) :: byte) = v" unfolding digit_byte(3) [OF True] by simp
    ultimately show ?thesis
      using digit_byte(1) [OF True] by (simp add: GetVarint32Ptr_def EncodeVarint32_bytes del: of_nat_unat)
  next
    case False
    then have "varint_bytes (unat v) = of_nat (128 + unat v mod 128) # varint_bytes (unat v div 128)"
      by (simp add: varint_bytes_big del: of_nat_add)
    with cont_byte [of "unat v mod 128"] fb show ?thesis
      by (simp add: GetVarint32Ptr_def EncodeVarint32_bytes)
  qed
qed

lemma GetVarint64Ptr_bytes: "GetVarint64Ptr (EncodeVarint64 v @ q) = Some (v, q)"
  using length_varint_bytes_u64 [of v]
  by (simp add: GetVarint64Ptr_def EncodeVarint64_bytes varint64_loop_bytes)

lemma EncodeFixed32_bytes: "EncodeFixed32 v = bytes_of 4 v" "encode_fixed32 little_endian v = bytes_of 4 v"
proof -
  have "ucast (x AND 0xff) = (ucast x :: byte)" for x :: uint32
  proof -
    have "x AND 0xff = take_bit 8 x" by (simp add: take_bit_eq_mask mask_eq_exp_minus_1)
    then show ?thesis by (simp only:) (rule bit_word_eqI, auto simp: bit_simps)
  qed
  then show "encode_fixed32 little_endian v = bytes_of 4 v" by (simp add: encode_fixed32_def bytes_of_4)
  then show "EncodeFixed32 v = bytes_of 4 v" by (simp add: EncodeFixed32_def encode_fixed32_def kLittleEndian_def)
qed


lemma EncodeFixed64_bytes: "EncodeFixed64 v = bytes_of 8 v" "encode_fixed64 little_endian v = bytes_of 8 v"
proof -
  have "ucast (x AND 0xff) = (ucast x :: byte)" for x :: uint64
  proof -
    have "x AND 0xff = take_bit 8 x" by (simp add: take_bit_eq_mask mask_eq_exp_minus_1)
    then show ?thesis by (simp only:) (rule bit_word_eqI, auto simp: bit_simps)
  qed
  then show "encode_fixed64 little_endian v = bytes_of 8 v" by (simp add: encode_fixed64_def bytes_of_8)
  then show "EncodeFixed64 v = bytes_of 8 v" by (simp add: EncodeFixed64_def encode_fixed64_def kLittleEndian_def)
qed

lemma list_of_4: "4 \<le> length p \<Longrightarrow> take 4 p = [p ! 0, p ! 1, p ! 2, p ! 3]"
  by (intro nth_equalityI) (auto simp: less_Suc_eq numeral_eq_Suc)

lemma decode_fixed32_any: "decode_fixed32 little_endian p = (if length p < 4 then None else Some (word_of (take 4 p)))"
  by (auto simp: decode_fixed32_def list_of_4 push_bit_or push_bit_push_bit or.assoc)

lemma bit_word_of:
  "bit (word_of xs :: 'a::len word) n \<longleftrightarrow> n < LENGTH('a) \<and> n div 8 < length xs \<and> bit (xs ! (n div 8)) (n mod 8)"
proof (induction xs arbitrary: n)
  case (Cons b xs)
  show ?case
  proof (cases "n < 8")
    case True
    then show ?thesis by (auto simp: bit_simps)
  next
    case False
    then have d: "n div 8 = Suc ((n - 8) div 8)" "n mod 8 = (n - 8) mod 8"
      by (simp_all add: le_div_geq le_mod_geq)
    show ?thesis
      using False Cons [of "n - 8"] by (auto simp: bit_simps d)
  qed
qed simp

lemma ucast_word_of: "8 * length xs \<le> LENGTH('a::len) \<Longrightarrow> ucast (word_of xs :: 'a word) = (word_of xs :: 'b::len word)"
  by (rule bit_word_eqI) (auto simp: bit_simps bit_word_of)

lemma word_of_append: "(word_of (xs @ ys) :: 'a::len word) = word_of xs OR push_bit (8 * length xs) (word_of ys)"
  by (induction xs) (simp_all add: push_bit_or push_bit_push_bit or.assoc add.commute)

lemma decode_fixed64_any: "decode_fixed64 little_endian p = (if length p < 8 then None else Some (word_of (take 8 p)))"
proof -
  have t: "take 8 p = take 4 p @ take 4 (drop 4 p)" by (simp add: take_add [of 4 4 p, simplified])
  have "push_bit 32 (ucast (word_of (take 4 (drop 4 p)) :: uint32)) OR ucast (word_of (take 4 p) :: uint32) =
      (word_of (take 8 p) :: uint64)" if "8 \<le> length p"
    using that unfolding t by (simp add: ucast_word_of word_of_append or.commute)
  then show ?thesis by (auto simp: decode_fixed64_def decode_fixed32_any)
qed

subsection \<open>Codecs\<close>

text \<open>
  What a format promises to the components that store values one behind the other: reading takes
  exactly one value off the front and leaves the rest.  \<open>ok\<close> holds for the values the format can hold.
\<close>

locale codec =
  fixes enc :: "'a \<Rightarrow> byte list"
    and dec :: "byte list \<Rightarrow> ('a \<times> byte list) option"
    and ok :: "'a \<Rightarrow> bool"
  assumes dec_enc: "ok x \<Longrightarrow> dec (enc x @ q) = Some (x, q)"
begin

lemma enc_prefix_free:
  assumes "ok x" "ok y" "enc x @ p = enc y @ q"
  shows "x = y \<and> p = q"
proof -
  have "Some (x, p) = dec (enc x @ p)" by (rule dec_enc [OF assms(1), symmetric])
  also have "\<dots> = dec (enc y @ q)" by (simp only: assms(3))
  also have "\<dots> = Some (y, q)" by (rule dec_enc [OF assms(2)])
  finally show ?thesis by simp
qed

primrec dec_many :: "nat \<Rightarrow> byte list \<Rightarrow> ('a list \<times> byte list) option" where
  "dec_many 0 p = Some ([], p)"
| "dec_many (Suc n) p = do { (x, p) \<leftarrow> dec p; (xs, p) \<leftarrow> dec_many n p; Some (x # xs, p) }"

lemma dec_many_enc: "list_all ok xs \<Longrightarrow> dec_many (length xs) (concat (map enc xs) @ q) = Some (xs, q)"
proof (induction xs)
  case (Cons x xs)
  then have "dec (enc x @ concat (map enc xs) @ q) = Some (x, concat (map enc xs) @ q)" by (intro dec_enc) simp
  with Cons show ?case by (simp del: bind_Some_iff)
qed simp

end

definition dec_fixed32 :: "byte list \<Rightarrow> (uint32 \<times> byte list) option" where
  "dec_fixed32 p = map_option (\<lambda>v. (v, drop 4 p)) (DecodeFixed32 p)"

definition dec_fixed64 :: "byte list \<Rightarrow> (uint64 \<times> byte list) option" where
  "dec_fixed64 p = map_option (\<lambda>v. (v, drop 8 p)) (DecodeFixed64 p)"

interpretation fixed32: codec EncodeFixed32 dec_fixed32 "\<lambda>_. True"
  by unfold_locales
    (simp add: dec_fixed32_def DecodeFixed32_def decode_fixed32_any EncodeFixed32_bytes word_of_bytes_of_full)

interpretation fixed64: codec EncodeFixed64 dec_fixed64 "\<lambda>_. True"
  by unfold_locales
    (simp add: dec_fixed64_def DecodeFixed64_def decode_fixed64_any EncodeFixed64_bytes word_of_bytes_of_full)

lemma DecodeFixed32_Encode: "DecodeFixed32 (EncodeFixed32 v @ q) = Some v"
  using fixed32.dec_enc [of v q] by (auto simp: dec_fixed32_def)

interpretation varint32: codec EncodeVarint32 GetVarint32Ptr "\<lambda>_. True"
  by unfold_locales (rule GetVarint32Ptr_bytes)

interpretation varint64: codec EncodeVarint64 GetVarint64Ptr "\<lambda>_. True"
  by unfold_locales (rule GetVarint64Ptr_bytes)

definition slice_fits :: "byte list \<Rightarrow> bool" where
  "slice_fits s \<longleftrightarrow> length s < 2 ^ 32"

interpretation slices: codec "PutLengthPrefixedSlice []" GetLengthPrefixedSlicePtr slice_fits
  by unfold_locales
    (simp add: PutLengthPrefixedSlice_def PutVarint32_def GetLengthPrefixedSlicePtr_def varint32.dec_enc slice_fits_def)

lemma GetVarint32_codec: "GetVarint32 (EncodeVarint32 v @ q) = (Some v, q)"
  by (simp add: GetVarint32_def varint32.dec_enc)

lemma GetVarint64_codec: "GetVarint64 (EncodeVarint64 v @ q) = (Some v, q)"
  by (simp add: GetVarint64_def varint64.dec_enc)

lemma GetLengthPrefixedSlice_codec:
  "slice_fits s \<Longrightarrow> GetLengthPrefixedSlice (PutLengthPrefixedSlice [] s @ q) = (Some s, q)"
  by (simp add: PutLengthPrefixedSlice_def PutVarint32_def GetLengthPrefixedSlice_def GetVarint32_codec slice_fits_def)

lemma fallback_loop_shorter: "fallback_loop p shift r = Some (v, q) \<Longrightarrow> length q < length p"
  by (induction p arbitrary: shift r) (auto split: if_splits dest: less_SucI)

lemma GetVarint32Ptr_shorter: "GetVarint32Ptr p = Some (v, q) \<Longrightarrow> length q < length p"
  by (auto simp: GetVarint32Ptr_def GetVarint32PtrFallback_def split: list.splits if_splits dest!: fallback_loop_shorter)

lemma GetLengthPrefixedSlice_le: "GetLengthPrefixedSlice p = (r, q) \<Longrightarrow> length q \<le> length p"
  by (auto simp: GetLengthPrefixedSlice_def GetVarint32_def split: option.splits if_splits prod.splits
      dest!: GetVarint32Ptr_shorter)

lemma varint64_loop_shorter: "varint64_loop p shift r = Some (v, q) \<Longrightarrow> length q < length p"
  by (induction p arbitrary: shift r) (auto split: if_splits dest: less_SucI)

lemma drop_fixed32: "r \<le> length R \<Longrightarrow> drop (r * 4) (concat (map (\<lambda>r. EncodeFixed32 (f r)) R) @ q) = concat (map (\<lambda>r. EncodeFixed32 (f r)) (drop r R)) @ q"
proof (induction r arbitrary: R)
  case (Suc r)
  then obtain x xs where R: "R = x # xs" by (cases R) auto
  have "length (EncodeFixed32 (f x)) = 4" by (simp add: EncodeFixed32_bytes)
  then have "drop (Suc r * 4) (EncodeFixed32 (f x) @ p) = drop (r * 4) p" for p by (simp add: drop_append)
  moreover have "concat (map (\<lambda>r. EncodeFixed32 (f r)) R) @ q = EncodeFixed32 (f x) @ concat (map (\<lambda>r. EncodeFixed32 (f r)) xs) @ q" using R by simp
  ultimately show ?case using Suc.IH [of xs] Suc.prems R by (simp only: length_Cons Suc_le_mono drop_Suc_Cons)
qed simp

lemma foldl_PutFixed32: "foldl PutFixed32 p rs = p @ concat (map EncodeFixed32 rs)"
  by (induction rs arbitrary: p) (simp_all add: PutFixed32_def)

subsection \<open>Properties\<close>

text \<open>
  The encoders agree with each other and with the format: the unrolled 32-bit encoder and the 64-bit
  loop write the base-128 digits of the value, \<^verbatim>\<open>VarintLength\<close> is the length they write, and the
  branches for little-endian and big-endian machines write and read the same bytes.
\<close>

theorem encoders_agree:
  "EncodeVarint32 v = varint_bytes (unat v) \<and> EncodeVarint64 w = varint_bytes (unat w) \<and>
   VarintLength w = length (EncodeVarint64 w) \<and> VarintLength (ucast v) = length (EncodeVarint32 v) \<and>
   VarintLength w \<le> 10 \<and> VarintLength (ucast v) \<le> 5 \<and>
   encode_fixed32 False v = encode_fixed32 True v \<and> encode_fixed64 False w = encode_fixed64 True w \<and>
   decode_fixed32 False p = decode_fixed32 True p \<and> decode_fixed64 False p = decode_fixed64 True p"
proof -
  have "unat v < 128 ^ 5" using unat_less_2p [of v] by simp
  then have "length (varint_bytes (unat v)) \<le> 5" by (intro length_varint_bytes_le) simp_all
  then show ?thesis
    using length_varint_bytes_u64 [of w]
    by (simp add: EncodeVarint32_bytes EncodeVarint64_bytes VarintLength_bytes EncodeFixed32_bytes(2)
        EncodeFixed64_bytes(2) decode_fixed32_any decode_fixed64_any)
qed

text \<open>
  Every format reads back what was written, whatever follows it: fixed-width integers, varints and
  strings, also when a sequence of strings is read one after the other.
\<close>

theorem coding_roundtrip:
  assumes "list_all slice_fits ss"
  shows "DecodeFixed32 (PutFixed32 [] v @ q) = Some v \<and> DecodeFixed64 (PutFixed64 [] w @ q) = Some w \<and>
    GetVarint32 (PutVarint32 [] v @ q) = (Some v, q) \<and> GetVarint64 (PutVarint64 [] w @ q) = (Some w, q) \<and>
    (\<forall>s \<in> set ss. GetLengthPrefixedSlice (PutLengthPrefixedSlice [] s @ q) = (Some s, q)) \<and>
    slices.dec_many (length ss) (concat (map (PutLengthPrefixedSlice []) ss) @ q) = Some (ss, q)"
  using fixed32.dec_enc [of v q] fixed64.dec_enc [of w q] slices.dec_many_enc [OF assms, of q] assms
  by (auto simp: PutFixed32_def PutFixed64_def PutVarint32_def PutVarint64_def dec_fixed32_def dec_fixed64_def
      GetVarint32_codec GetVarint64_codec GetLengthPrefixedSlice_codec list_all_iff)

theorem coding_roundtrip_witness:
  "GetVarint32 (PutVarint32 [] 300 @ [7]) = (Some 300, [7]) \<and>
   slices.dec_many (length [[1, 2], [] :: byte list]) (concat (map (PutLengthPrefixedSlice []) [[1, 2], []]) @ [7]) = Some ([[1, 2], []], [7])"
  using coding_roundtrip [of "[[1, 2], []]" 300 "[7]" 0] by (simp add: slice_fits_def)

lemma fallback_loop_None:
  "fallback_loop p (7 * k) r = None \<longleftrightarrow> (\<forall>i < 5 - k. i < length p \<longrightarrow> p ! i AND 128 \<noteq> 0)" if "k \<le> 5"
  using that
proof (induction p arbitrary: k r)
  case (Cons b p)
  show ?case
  proof (cases "k = 5")
    case False
    with Cons.prems obtain j where j: "5 - k = Suc j" "5 - Suc k = j" by (cases "5 - k") auto
    have "fallback_loop p (7 * k + 7) r' = None \<longleftrightarrow> (\<forall>i < j. i < length p \<longrightarrow> p ! i AND 128 \<noteq> 0)" for r'
      using Cons.IH [of "Suc k" r'] Cons.prems False j by (simp add: add.commute)
    then show ?thesis using False Cons.prems by (simp add: j All_less_Suc2)
  qed simp
qed simp

text \<open>
  Malformed input is reported: \<^verbatim>\<open>GetVarint32\<close> fails exactly when none of the first five bytes (of
  those there are) ends the varint, and then the input stays where it was.
\<close>

theorem GetVarint32_rejects:
  "fst (GetVarint32 p) = None \<longleftrightarrow> (\<forall>i < 5. i < length p \<longrightarrow> p ! i AND 128 \<noteq> 0)"
proof -
  have "GetVarint32Ptr p = None \<longleftrightarrow> (\<forall>i < 5. i < length p \<longrightarrow> p ! i AND 128 \<noteq> 0)"
    using fallback_loop_None [of 0 p 0]
    by (cases p) (auto simp: GetVarint32Ptr_def GetVarint32PtrFallback_def)
  then show ?thesis by (auto simp: GetVarint32_def split: option.splits)
qed

theorem GetVarint32_rejects_witness: "fst (GetVarint32 [0x80, 0xFF]) = None"
  using GetVarint32_rejects [of "[0x80, 0xFF]"] by (auto simp: less_Suc_eq)

text \<open>
  The length of a string is cut to 32 bits in its prefix: what comes back are the first \<open>length mod 2^32\<close>
  bytes, so a string of 4 GiB or more is not read back.
\<close>

theorem length_prefix_wraps:
  "GetLengthPrefixedSlice (PutLengthPrefixedSlice [] s @ q) =
     (Some (take (length s mod 2 ^ 32) (s @ q)), drop (length s mod 2 ^ 32) (s @ q))"
proof -
  have "unat (of_nat (length s) :: uint32) = length s mod 2 ^ 32"
    by (simp add: unat_of_nat take_bit_eq_mod)
  moreover have "length s mod 2 ^ 32 \<le> length (s @ q)"
    using mod_less_eq_dividend [of "length s" "2 ^ 32"] by simp
  ultimately show ?thesis
    by (simp add: PutLengthPrefixedSlice_def PutVarint32_def GetLengthPrefixedSlice_def GetVarint32_codec del: length_append)
qed

end
