(* ===== verification/Ldb_Env.thy ===== *)
theory Ldb_Env
  imports Pb_Prelude
begin

text \<open>
  What the log of LevelDB needs of its environment: the status codes of \<^verbatim>\<open>include/leveldb/status.h\<close> and the
  sequential and writable files of \<^verbatim>\<open>include/leveldb/env.h\<close>.  A file handle is a record with its contents and the
  outcome of every call on it, so that I/O errors and short reads are part of the model.
\<close>

subsection \<open>Status and files\<close>

datatype Status =
    OK
  | NotFound string
  | Corruption string
  | NotSupported string
  | InvalidArgument string
  | IOError string

text \<open>
  \<open>append_outcome i\<close> is \<^const>\<open>None\<close> when the \<open>i\<close>-th append succeeds and \<open>Some k\<close> when it fails after \<open>k\<close> bytes.
\<close>

record WritableFile =
  contents :: "byte list"
  append_outcome :: "nat \<Rightarrow> nat option"
  flush_fails :: "nat \<Rightarrow> bool"
  file_calls :: nat

definition file_Append :: "WritableFile \<Rightarrow> byte list \<Rightarrow> Status \<times> WritableFile" where
  "file_Append f data =
     (let f' = f\<lparr>file_calls := Suc (file_calls f)\<rparr> in
      case append_outcome f (file_calls f) of
        None \<Rightarrow> (OK, f'\<lparr>contents := contents f @ data\<rparr>)
      | Some k \<Rightarrow> (IOError ''append'', f'\<lparr>contents := contents f @ take k data\<rparr>))"

definition file_Flush :: "WritableFile \<Rightarrow> Status \<times> WritableFile" where
  "file_Flush f =
     (if flush_fails f (file_calls f) then IOError ''flush'' else OK, f\<lparr>file_calls := Suc (file_calls f)\<rparr>)"

text \<open>
  \<open>read_outcome i\<close> is \<^const>\<open>None\<close> when the \<open>i\<close>-th read fails and \<open>Some k\<close> when it returns at most \<open>k\<close> bytes.
\<close>

record SequentialFile =
  unread :: "byte list"
  read_outcome :: "nat \<Rightarrow> nat option"
  skip_fails :: bool
  read_calls :: nat

definition file_Read :: "SequentialFile \<Rightarrow> nat \<Rightarrow> Status \<times> byte list \<times> SequentialFile" where
  "file_Read f n =
     (let f' = f\<lparr>read_calls := Suc (read_calls f)\<rparr> in
      case read_outcome f (read_calls f) of
        None \<Rightarrow> (IOError ''read'', [], f')
      | Some k \<Rightarrow> (OK, take (min n k) (unread f), f'\<lparr>unread := drop (min n k) (unread f)\<rparr>))"

definition file_Skip :: "SequentialFile \<Rightarrow> nat \<Rightarrow> Status \<times> SequentialFile" where
  "file_Skip f n = (if skip_fails f then (IOError ''skip'', f) else (OK, f\<lparr>unread := drop n (unread f)\<rparr>))"

end
