(* ===== verification/Ldb_Log.thy ===== *)
theory Ldb_Log
  imports Ldb_Crc32c Ldb_Env
begin

text \<open>
  The write-ahead log of LevelDB: the record format of \<^verbatim>\<open>db/log_format.h\<close>, the writer of
  \<^verbatim>\<open>db/log_writer.cc\<close> and the reader of \<^verbatim>\<open>db/log_reader.cc\<close>.  Calls to the reporter are collected in the
  reader.
\<close>

subsection \<open>Format\<close>

definition kZeroType :: uint32 where "kZeroType = 0"
definition kFullType :: uint32 where "kFullType = 1"
definition kFirstType :: uint32 where "kFirstType = 2"
definition kMiddleType :: uint32 where "kMiddleType = 3"
definition kLastType :: uint32 where "kLastType = 4"
definition kMaxRecordType :: uint32 where "kMaxRecordType = kLastType"
definition kBlockSize :: nat where "kBlockSize = 32768"
definition kHeaderSize :: nat where "kHeaderSize = 4 + 2 + 1"

text \<open>The special results of the reader.\<close>

definition kEof :: uint32 where "kEof = kMaxRecordType + 1"
definition kBadRecord :: uint32 where "kBadRecord = kMaxRecordType + 2"

lemmas record_types = kZeroType_def kFullType_def kFirstType_def kMiddleType_def kLastType_def kMaxRecordType_def
  kEof_def kBadRecord_def

text \<open>\<^verbatim>\<open>Extend\<close> gives the same value at every address and never fails.\<close>

definition crc_extend :: "uint32 \<Rightarrow> byte list \<Rightarrow> uint32" where
  "crc_extend crc data = (case Extend 0 crc data of Some c \<Rightarrow> c | None \<Rightarrow> 0)"

subsection \<open>Writer\<close>

record Writer =
  dest :: WritableFile
  block_offset :: nat
  type_crc :: "uint32 list"

definition InitTypeCrc :: "uint32 list" where
  "InitTypeCrc = map (\<lambda>i. crc_extend 0 [of_nat i]) [0..<Suc (unat kMaxRecordType)]"

definition new_Writer :: "WritableFile \<Rightarrow> nat \<Rightarrow> Writer" where
  "new_Writer f dest_length = \<lparr>dest = f, block_offset = dest_length mod kBlockSize, type_crc = InitTypeCrc\<rparr>"

definition EmitPhysicalRecord :: "Writer \<Rightarrow> uint32 \<Rightarrow> byte list \<Rightarrow> Status \<times> Writer" where
  "EmitPhysicalRecord w t ptr =
     (let len = length ptr;
          crc = Mask (crc_extend (type_crc w ! unat t) ptr);
          buf = EncodeFixed32 crc @ [of_nat (len mod 256), of_nat (len div 256), ucast t];
          (s, f) = file_Append (dest w) buf;
          (s, f) = (if s = OK
                    then (case file_Append f ptr of
                            (s, f) \<Rightarrow> (if s = OK then file_Flush f else (s, f)))
                    else (s, f))
      in (s, w\<lparr>dest := f, block_offset := block_offset w + kHeaderSize + len\<rparr>))"

text \<open>Fill the trailer of a block that has no room for a header; its status is not looked at.\<close>

definition switch_block :: "Writer \<Rightarrow> Writer" where
  "switch_block w =
     (let leftover = kBlockSize - block_offset w in
      if leftover < kHeaderSize
      then (if leftover > 0
            then w\<lparr>dest := snd (file_Append (dest w) (replicate leftover 0)), block_offset := 0\<rparr>
            else w\<lparr>block_offset := 0\<rparr>)
      else w)"

definition record_type :: "bool \<Rightarrow> bool \<Rightarrow> uint32" where
  "record_type bgn fin =
     (if bgn \<and> fin then kFullType else if bgn then kFirstType
      else if fin then kLastType else kMiddleType)"

definition fragment_length :: "nat \<Rightarrow> nat \<Rightarrow> nat" where
  "fragment_length offset left =
     (let avail = kBlockSize - offset - kHeaderSize in if left < avail then left else avail)"

lemma switch_block_offset:
  "block_offset (switch_block w) = (if kBlockSize - block_offset w < kHeaderSize then 0 else block_offset w)"
  by (simp add: switch_block_def Let_def)

lemma EmitPhysicalRecord_offset:
  "EmitPhysicalRecord w t ptr = (s, w') \<Longrightarrow> block_offset w' = block_offset w + kHeaderSize + length ptr"
  by (auto simp: EmitPhysicalRecord_def Let_def split: prod.splits if_splits)

text \<open>
  The fragments of a record.  A block may have room for a header only; the empty fragment in it is
  followed by a switch to a new block.
\<close>

function add_loop :: "Writer \<Rightarrow> byte list \<Rightarrow> bool \<Rightarrow> Status \<times> Writer" where
  "add_loop w ptr bgn =
     (let w = switch_block w;
          n = fragment_length (block_offset w) (length ptr);
          (s, w) = EmitPhysicalRecord w (record_type bgn (length ptr = n)) (take n ptr)
      in if s = OK \<and> length ptr - n > 0 then add_loop w (drop n ptr) False else (s, w))"
  by pat_completeness auto
termination
proof (relation "measure (\<lambda>(w, ptr, bgn). 2 * length ptr + (if block_offset w = kBlockSize - kHeaderSize then 1 else 0))")
  fix w :: Writer and ptr bgn v n y s u
  assume v: "v = switch_block w" and n: "n = fragment_length (block_offset v) (length ptr)"
    and y: "y = EmitPhysicalRecord v (record_type bgn (length ptr = n)) (take n ptr)" "(s, u) = y"
    and more: "s = OK \<and> 0 < length ptr - n"
  have u: "block_offset u = block_offset v + kHeaderSize + length (take n ptr)"
    using EmitPhysicalRecord_offset [of v _ "take n ptr" s u] y by simp
  have "n = kBlockSize - block_offset v - kHeaderSize"
    using more unfolding n fragment_length_def Let_def by (auto split: if_splits)
  then show "((u, drop n ptr, False), w, ptr, bgn)
      \<in> measure (\<lambda>(w, ptr, bgn). 2 * length ptr + (if block_offset w = kBlockSize - kHeaderSize then 1 else 0))"
    using more u unfolding v switch_block_offset
    by (auto simp: kBlockSize_def kHeaderSize_def split: if_splits)
qed simp

declare add_loop.simps [simp del]

definition AddRecord :: "Writer \<Rightarrow> byte list \<Rightarrow> Status \<times> Writer" where
  "AddRecord w data = add_loop w data True"

subsection \<open>Reader\<close>

record Reader =
  src_file :: SequentialFile
  reporter :: bool
  checksum :: bool
  buffer :: "byte list"
  at_eof :: bool
  last_record_offset :: uint64
  end_of_buffer_offset :: uint64
  initial_offset :: uint64
  resyncing :: bool
  reports :: "(uint64 \<times> Status) list"

definition new_Reader :: "SequentialFile \<Rightarrow> bool \<Rightarrow> bool \<Rightarrow> uint64 \<Rightarrow> Reader" where
  "new_Reader f rep check init =
     \<lparr>src_file = f, reporter = rep, checksum = check, buffer = [], at_eof = False, last_record_offset = 0,
      end_of_buffer_offset = 0, initial_offset = init, resyncing = (init > 0), reports = []\<rparr>"

definition buffer_size :: "Reader \<Rightarrow> uint64" where
  "buffer_size r = of_nat (length (buffer r))"

definition ReportDrop :: "Reader \<Rightarrow> uint64 \<Rightarrow> Status \<Rightarrow> Reader" where
  "ReportDrop r bytes reason =
     (if reporter r \<and> end_of_buffer_offset r - buffer_size r - bytes \<ge> initial_offset r
      then r\<lparr>reports := reports r @ [(bytes, reason)]\<rparr> else r)"

definition ReportCorruption :: "Reader \<Rightarrow> uint64 \<Rightarrow> string \<Rightarrow> Reader" where
  "ReportCorruption r bytes reason = ReportDrop r bytes (Corruption reason)"

definition SkipToInitialBlock :: "Reader \<Rightarrow> bool \<times> Reader" where
  "SkipToInitialBlock r =
     (let offset_in_block = unat (initial_offset r) mod kBlockSize;
          start = initial_offset r - of_nat offset_in_block;
          start = (if offset_in_block > kBlockSize - 6 then start + of_nat kBlockSize else start);
          r = r\<lparr>end_of_buffer_offset := start\<rparr>
      in if start > 0
         then (case file_Skip (src_file r) (unat start) of
                 (s, f) \<Rightarrow> (if s \<noteq> OK then (False, ReportDrop (r\<lparr>src_file := f\<rparr>) start s) else (True, r\<lparr>src_file := f\<rparr>)))
         else (True, r))"

text \<open>
  The part of \<^verbatim>\<open>ReadPhysicalRecord\<close> behind the refill loop, for a buffer with a whole header.  A type byte
  is a signed character, so values from 128 on are sign-extended.  The slice \<open>res\<close> keeps its old value
  on the paths that do not set it.
\<close>

definition parse_record :: "Reader \<Rightarrow> byte list \<Rightarrow> uint32 \<times> byte list \<times> Reader" where
  "parse_record r res =
     (let header = buffer r;
          len = unat (header ! 4) + 256 * unat (header ! 5);
          type = scast (header ! 6) :: uint32
      in if kHeaderSize + len > length (buffer r)
         then (let drop_size = buffer_size r; r = r\<lparr>buffer := []\<rparr>
               in if \<not> at_eof r then (kBadRecord, res, ReportCorruption r drop_size ''bad record length'')
                  else (kEof, res, r))
         else if type = kZeroType \<and> len = 0 then (kBadRecord, res, r\<lparr>buffer := []\<rparr>)
         else if checksum r \<and>
           crc_extend 0 (take (1 + len) (drop 6 header)) \<noteq> Unmask (word_of (take 4 header))
         then (let drop_size = buffer_size r; r = r\<lparr>buffer := []\<rparr>
               in (kBadRecord, res, ReportCorruption r drop_size ''checksum mismatch''))
         else (let r = r\<lparr>buffer := drop (kHeaderSize + len) (buffer r)\<rparr>
               in if end_of_buffer_offset r - buffer_size r - of_nat kHeaderSize - of_nat len < initial_offset r
                  then (kBadRecord, [], r)
                  else (type, take len (drop kHeaderSize header), r)))"

function ReadPhysicalRecord :: "Reader \<Rightarrow> byte list \<Rightarrow> uint32 \<times> byte list \<times> Reader" where
  "ReadPhysicalRecord r res =
     (if length (buffer r) < kHeaderSize
      then (if \<not> at_eof r
            then (case file_Read (src_file r) kBlockSize of
                    (s, b, f) \<Rightarrow>
                      (let r = r\<lparr>src_file := f, buffer := b, end_of_buffer_offset := end_of_buffer_offset r + of_nat (length b)\<rparr>
                       in if s \<noteq> OK
                          then (kEof, res, (ReportDrop (r\<lparr>buffer := []\<rparr>) (of_nat kBlockSize) s)\<lparr>at_eof := True\<rparr>)
                          else ReadPhysicalRecord (if length b < kBlockSize then r\<lparr>at_eof := True\<rparr> else r) res))
            else (kEof, res, r\<lparr>buffer := []\<rparr>))
      else parse_record r res)"
  by pat_completeness auto
termination
  by (relation "measure (\<lambda>(r, res). if at_eof r then 0 else if length (buffer r) < kHeaderSize then 2 else 1)")
    (auto simp: Let_def kHeaderSize_def kBlockSize_def)

declare ReadPhysicalRecord.simps [simp del]

text \<open>The bytes that are not consumed yet; every result but the end of the file consumes some.\<close>

definition remaining :: "Reader \<Rightarrow> nat" where
  "remaining r = length (buffer r) + length (unread (src_file r))"

lemma ReportDrop_frame [simp]:
  "src_file (ReportDrop r b s) = src_file r" "buffer (ReportDrop r b s) = buffer r" "at_eof (ReportDrop r b s) = at_eof r"
  by (simp_all add: ReportDrop_def)

lemma ReportCorruption_frame [simp]:
  "src_file (ReportCorruption r b s) = src_file r" "buffer (ReportCorruption r b s) = buffer r"
  "at_eof (ReportCorruption r b s) = at_eof r"
  by (simp_all add: ReportCorruption_def)

lemma parse_record_consumes:
  assumes "parse_record r res = (t, res', r')" "t \<noteq> kEof" "kHeaderSize \<le> length (buffer r)"
  shows "remaining r' < remaining r"
proof -
  have "0 < length (buffer r)" using assms(3) unfolding kHeaderSize_def by linarith
  with assms show ?thesis
    by (auto simp: parse_record_def Let_def remaining_def kHeaderSize_def split: if_splits)
qed

lemma file_Read_remaining: "file_Read f n = (s, b, f') \<Longrightarrow> length b + length (unread f') \<le> length (unread f)"
  by (auto simp: file_Read_def Let_def split: option.splits)

lemma ReadPhysicalRecord_consumes:
  "ReadPhysicalRecord r res = (t, res', r') \<Longrightarrow> t \<noteq> kEof \<Longrightarrow> remaining r' < remaining r"
proof (induction r res rule: ReadPhysicalRecord.induct)
  case (1 r res)
  show ?case
  proof (cases "length (buffer r) < kHeaderSize")
    case False
    with 1(2,3) show ?thesis
      by (intro parse_record_consumes) (auto simp: ReadPhysicalRecord.simps [of r])
  next
    case True
    then have ne: "\<not> at_eof r" using 1(2,3) by (auto simp: ReadPhysicalRecord.simps [of r])
    obtain s b f where rd: "file_Read (src_file r) kBlockSize = (s, b, f)" by (cases "file_Read (src_file r) kBlockSize") auto
    let ?r = "r\<lparr>src_file := f, buffer := b, end_of_buffer_offset := end_of_buffer_offset r + of_nat (length b)\<rparr>"
    let ?q = "if length b < kBlockSize then ?r\<lparr>at_eof := True\<rparr> else ?r"
    have ok: "s = OK" using 1(2,3) True ne rd by (auto simp: ReadPhysicalRecord.simps [of r] Let_def split: if_splits)
    then have "ReadPhysicalRecord ?q res = (t, res', r')"
      using 1(2) True ne rd by (simp add: ReadPhysicalRecord.simps [of r] Let_def)
    then have "remaining r' < remaining ?q"
      using 1(1) [OF True ne rd [symmetric] refl refl] 1(3) ok by simp
    also have "remaining ?q \<le> remaining r" using file_Read_remaining [OF rd] by (simp add: remaining_def)
    finally show ?thesis .
  qed
qed

text \<open>\<^verbatim>\<open>snprintf(buf, sizeof(buf), "unknown record type %u", record_type)\<close>\<close>

fun decimal :: "nat \<Rightarrow> string" where
  "decimal n = (if n < 10 then [char_of (48 + n)] else decimal (n div 10) @ [char_of (48 + n mod 10)])"

declare decimal.simps [simp del]

record read_state =
  in_fragmented_record :: bool
  scratch :: "byte list"
  prospective_record_offset :: uint64
  fragment :: "byte list"

datatype read_step = Return "byte list option" | Continue

text \<open>What one round of \<^verbatim>\<open>ReadRecord\<close> does with the physical record it has read.\<close>

definition dispatch :: "Reader \<Rightarrow> read_state \<Rightarrow> uint32 \<Rightarrow> uint64 \<Rightarrow> read_step \<times> Reader \<times> read_state" where
  "dispatch r st t physical_record_offset =
     (let partial = (\<lambda>msg. if in_fragmented_record st \<and> scratch st \<noteq> []
                       then ReportCorruption r (of_nat (length (scratch st))) msg else r)
      in if t = kFullType
         then (Return (Some (fragment st)),
               (partial ''partial record without end(1)'')\<lparr>last_record_offset := physical_record_offset\<rparr>,
               st\<lparr>scratch := [], prospective_record_offset := physical_record_offset\<rparr>)
         else if t = kFirstType
         then (Continue, partial ''partial record without end(2)'',
               st\<lparr>prospective_record_offset := physical_record_offset, scratch := fragment st,
                  in_fragmented_record := True\<rparr>)
         else if t = kMiddleType
         then (if \<not> in_fragmented_record st
               then (Continue, ReportCorruption r (of_nat (length (fragment st))) ''missing start of fragmented record(1)'', st)
               else (Continue, r, st\<lparr>scratch := scratch st @ fragment st\<rparr>))
         else if t = kLastType
         then (if \<not> in_fragmented_record st
               then (Continue, ReportCorruption r (of_nat (length (fragment st))) ''missing start of fragmented record(2)'', st)
               else (Return (Some (scratch st @ fragment st)),
                     r\<lparr>last_record_offset := prospective_record_offset st\<rparr>, st\<lparr>scratch := scratch st @ fragment st\<rparr>))
         else if t = kEof
         then (Return None, r, if in_fragmented_record st then st\<lparr>scratch := []\<rparr> else st)
         else if t = kBadRecord
         then (if in_fragmented_record st
               then (Continue, ReportCorruption r (of_nat (length (scratch st))) ''error in middle of record'',
                     st\<lparr>in_fragmented_record := False, scratch := []\<rparr>)
               else (Continue, r, st))
         else (Continue,
               ReportCorruption r
                 (of_nat (length (fragment st) + (if in_fragmented_record st then length (scratch st) else 0)))
                 (''unknown record type '' @ decimal (unat t)),
               st\<lparr>in_fragmented_record := False, scratch := []\<rparr>))"

definition resync :: "Reader \<Rightarrow> uint32 \<Rightarrow> bool \<times> Reader" where
  "resync r t =
     (if resyncing r
      then (if t = kMiddleType then (True, r)
            else if t = kLastType then (True, r\<lparr>resyncing := False\<rparr>)
            else (False, r\<lparr>resyncing := False\<rparr>))
      else (False, r))"

lemma dispatch_frame:
  "dispatch r st t off = (a, r', st') \<Longrightarrow> remaining r' = remaining r \<and> (t = kEof \<longrightarrow> a = Return None)"
  by (auto simp: dispatch_def Let_def remaining_def record_types split: if_splits)

lemma resync_frame: "resync r t = (c, r') \<Longrightarrow> remaining r' = remaining r \<and> (c \<longrightarrow> t \<noteq> kEof)"
  by (auto simp: resync_def remaining_def record_types split: if_splits)

function read_loop :: "Reader \<Rightarrow> read_state \<Rightarrow> byte list option \<times> Reader" where
  "read_loop r st =
     (case ReadPhysicalRecord r (fragment st) of
        (t, frag, r) \<Rightarrow>
          (let st = st\<lparr>fragment := frag\<rparr>;
               off = end_of_buffer_offset r - buffer_size r - of_nat kHeaderSize - of_nat (length frag)
           in case resync r t of
                (True, r) \<Rightarrow> read_loop r st
              | (False, r) \<Rightarrow>
                  (case dispatch r st t off of
                     (Return res, r, st) \<Rightarrow> (res, r)
                   | (Continue, r, st) \<Rightarrow> read_loop r st)))"
  by pat_completeness auto
termination
proof (relation "measure (\<lambda>(r, st). remaining r)", goal_cases)
  case (2 r st t y frag r1 st1 off c r2)
  then show ?case
    using ReadPhysicalRecord_consumes [of r "fragment st" t frag r1] resync_frame [of r1 t c r2] by auto
next
  case (3 r st t y frag r1 st1 off c r2 a y' r3 st3)
  then show ?case
    using ReadPhysicalRecord_consumes [of r "fragment st" t frag r1] resync_frame [of r1 t c r2]
      dispatch_frame [of r2 st1 t off a r3 st3] by auto
qed simp

declare read_loop.simps [simp del]

definition ReadRecord :: "Reader \<Rightarrow> byte list option \<times> Reader" where
  "ReadRecord r =
     (let (ok, r) = (if last_record_offset r < initial_offset r then SkipToInitialBlock r else (True, r))
      in if \<not> ok then (None, r)
         else read_loop r \<lparr>in_fragmented_record = False, scratch = [], prospective_record_offset = 0, fragment = []\<rparr>)"

definition LastRecordOffset :: "Reader \<Rightarrow> uint64" where
  "LastRecordOffset r = last_record_offset r"

subsection \<open>Reading consumes\<close>

lemma read_loop_consumes: "read_loop r st = (Some x, r') \<Longrightarrow> remaining r' < remaining r"
proof (induction r st rule: read_loop.induct)
  case (1 r st)
  obtain t frag r1 where p: "ReadPhysicalRecord r (fragment st) = (t, frag, r1)" by (metis prod_cases3)
  obtain c r2 where c: "resync r1 t = (c, r2)" by fastforce
  let ?st = "st\<lparr>fragment := frag\<rparr>"
  let ?off = "end_of_buffer_offset r1 - buffer_size r1 - of_nat kHeaderSize - of_nat (length frag)"
  obtain a r3 st3 where d: "dispatch r2 ?st t ?off = (a, r3, st3)" by (metis prod_cases3)
  note fr = resync_frame [OF c] dispatch_frame [OF d]
  have "t \<noteq> kEof" using "1.prems" p c d fr by (auto simp: read_loop.simps [of r] Let_def split: bool.splits)
  then have lt: "remaining r1 < remaining r" using ReadPhysicalRecord_consumes [OF p] by blast
  show ?case
  proof (cases c)
    case True
    then have "read_loop r2 ?st = (Some x, r')" using "1.prems" p c by (simp add: read_loop.simps [of r] Let_def)
    then show ?thesis using "1.IH"(1) [OF p [symmetric] refl refl refl c [symmetric]] True fr lt by auto
  next
    case False
    show ?thesis
    proof (cases a)
      case (Return res)
      then show ?thesis using "1.prems" p c d fr lt False by (simp add: read_loop.simps [of r] Let_def)
    next
      case Continue
      then have "read_loop r3 st3 = (Some x, r')" using "1.prems" p c d False by (simp add: read_loop.simps [of r] Let_def)
      then show ?thesis using "1.IH"(2) [OF p [symmetric] refl refl refl c [symmetric]] d False Continue fr lt by (fastforce dest: less_trans)
    qed
  qed
qed

lemma file_Skip_unread: "file_Skip f n = (s, f') \<Longrightarrow> length (unread f') \<le> length (unread f)"
  by (auto simp: file_Skip_def split: if_splits)

lemma ReadRecord_consumes:
  assumes "ReadRecord r = (Some x, r')"
  shows "remaining r' < remaining r"
proof -
  obtain ok r1 where r1: "(if last_record_offset r < initial_offset r then SkipToInitialBlock r else (True, r)) = (ok, r1)" by fastforce
  then have "remaining r1 \<le> remaining r"
    by (auto simp: SkipToInitialBlock_def Let_def remaining_def split: if_splits prod.splits dest!: file_Skip_unread)
  moreover have "remaining r' < remaining r1"
    using assms r1 read_loop_consumes by (auto simp: ReadRecord_def split: if_splits)
  ultimately show ?thesis by linarith
qed

end
