(* ===== verification/Ldb_Log_Spec.thy ===== *)
theory Ldb_Log_Spec
  imports Ldb_Log
begin

text \<open>
  The log as a format: what the writer appends for a record, as a function of the block offset; that
  the reader takes exactly these records off the file again; and what it does with a file that ends
  in the middle of a record.
\<close>

subsection \<open>What the writer appends\<close>

definition phys :: "uint32 \<Rightarrow> byte list \<Rightarrow> byte list" where
  "phys t d = EncodeFixed32 (Mask (crc32c 0 (ucast t # d))) @
     [of_nat (length d mod 256), of_nat (length d div 256), ucast t] @ d"

definition pad :: "nat \<Rightarrow> byte list" where
  "pad bo = (if kBlockSize - bo < kHeaderSize then replicate (kBlockSize - bo) 0 else [])"

definition start_at :: "nat \<Rightarrow> nat" where
  "start_at bo = (if kBlockSize - bo < kHeaderSize then 0 else bo)"

lemma fragment_step:
  assumes "n = fragment_length (start_at bo) k" "0 < k - n"
  shows "2 * (k - n) + (if start_at bo + kHeaderSize + n = kBlockSize - kHeaderSize then 1 else 0 :: nat) <
    2 * k + (if bo = kBlockSize - kHeaderSize then 1 else 0)"
  using assms
  by (auto simp: fragment_length_def start_at_def Let_def kBlockSize_def kHeaderSize_def split: if_splits)

function emit :: "nat \<Rightarrow> byte list \<Rightarrow> bool \<Rightarrow> byte list \<times> nat" where
  "emit bo ptr bgn =
     (let n = fragment_length (start_at bo) (length ptr);
          now = pad bo @ phys (record_type bgn (length ptr = n)) (take n ptr);
          bo' = start_at bo + kHeaderSize + n
      in if length ptr - n > 0
         then (case emit bo' (drop n ptr) False of (later, off) \<Rightarrow> (now @ later, off))
         else (now, bo'))"
  by pat_completeness auto
termination
proof (relation "measure (\<lambda>(bo, ptr, bgn). 2 * length ptr + (if bo = kBlockSize - kHeaderSize then 1 else 0))", goal_cases)
  case (2 bo ptr bgn n now bo')
  then show ?case using fragment_step [of n bo "length ptr"] by simp
qed simp

declare emit.simps [simp del]

lemma fragment_le: "fragment_length bo k \<le> k"
  by (simp add: fragment_length_def Let_def)

lemma start_fits: "bo \<le> kBlockSize \<Longrightarrow> start_at bo + kHeaderSize + fragment_length (start_at bo) k \<le> kBlockSize"
  by (auto simp: start_at_def fragment_length_def Let_def kBlockSize_def kHeaderSize_def)

lemma crc_extend_eq [simp]: "crc_extend crc data = crc32c crc data"
  by (simp add: crc_extend_def Extend_eq)

lemma InitTypeCrc_nth: "unat t \<le> 4 \<Longrightarrow> InitTypeCrc ! unat t = crc32c 0 [ucast t]"
  by (simp add: InitTypeCrc_def record_types nth_append del: upt_Suc)

text \<open>A file on which no call fails from now on.\<close>

definition reliable :: "WritableFile \<Rightarrow> bool" where
  "reliable f \<longleftrightarrow> (\<forall>i \<ge> file_calls f. append_outcome f i = None \<and> \<not> flush_fails f i)"

definition writing :: "Writer \<Rightarrow> bool" where
  "writing w \<longleftrightarrow> reliable (dest w) \<and> type_crc w = InitTypeCrc \<and> block_offset w \<le> kBlockSize"

lemma file_Append_reliable:
  "reliable f \<Longrightarrow> \<exists>f'. file_Append f data = (OK, f') \<and> contents f' = contents f @ data \<and> reliable f'"
  by (simp add: file_Append_def reliable_def Let_def)

lemma file_Flush_reliable:
  "reliable f \<Longrightarrow> \<exists>f'. file_Flush f = (OK, f') \<and> contents f' = contents f \<and> reliable f'"
  by (simp add: file_Flush_def reliable_def)

lemma record_type_le: "unat (record_type bgn fin) \<le> 4" "0 < record_type bgn fin"
  by (simp_all add: record_type_def record_types)

lemma EmitPhysicalRecord_phys:
  assumes "writing w" "unat t \<le> 4"
  shows "\<exists>w'. EmitPhysicalRecord w t d = (OK, w') \<and> contents (dest w') = contents (dest w) @ phys t d \<and>
    reliable (dest w') \<and> type_crc w' = InitTypeCrc \<and> block_offset w' = block_offset w + kHeaderSize + length d"
proof -
  let ?buf = "EncodeFixed32 (Mask (crc_extend (type_crc w ! unat t) d)) @ [of_nat (length d mod 256), of_nat (length d div 256), ucast t]"
  obtain f1 where 1: "file_Append (dest w) ?buf = (OK, f1)" "contents f1 = contents (dest w) @ ?buf" "reliable f1"
    using file_Append_reliable assms(1) by (auto simp: writing_def)
  obtain f2 where 2: "file_Append f1 d = (OK, f2)" "contents f2 = contents f1 @ d" "reliable f2"
    using file_Append_reliable 1(3) by blast
  obtain f3 where 3: "file_Flush f2 = (OK, f3)" "contents f3 = contents f2" "reliable f3"
    using file_Flush_reliable 2(3) by blast
  have "phys t d = ?buf @ d"
    using assms by (simp add: phys_def writing_def InitTypeCrc_nth crc32c_append)
  with 1 2 3 assms(1) show ?thesis
    by (simp add: EmitPhysicalRecord_def Let_def writing_def)
qed

lemma switch_block_pad:
  assumes "writing w"
  shows "contents (dest (switch_block w)) = contents (dest w) @ pad (block_offset w) \<and>
    writing (switch_block w) \<and> block_offset (switch_block w) = start_at (block_offset w)"
proof -
  obtain f where "file_Append (dest w) (replicate (kBlockSize - block_offset w) 0) = (OK, f)"
      "contents f = contents (dest w) @ replicate (kBlockSize - block_offset w) 0" "reliable f"
    using file_Append_reliable assms by (auto simp: writing_def)
  with assms show ?thesis by (auto simp: switch_block_def pad_def start_at_def writing_def Let_def)
qed

lemma add_loop_emit:
  assumes "writing w"
  shows "\<exists>w'. add_loop w ptr bgn = (OK, w') \<and> contents (dest w') = contents (dest w) @ fst (emit (block_offset w) ptr bgn) \<and>
    writing w' \<and> block_offset w' = snd (emit (block_offset w) ptr bgn)"
  using assms
proof (induction w ptr bgn rule: add_loop.induct)
  case (1 w ptr bgn)
  let ?v = "switch_block w"
  let ?n = "fragment_length (block_offset ?v) (length ptr)"
  note sw = switch_block_pad [OF 1(2)]
  obtain u where u: "EmitPhysicalRecord ?v (record_type bgn (length ptr = ?n)) (take ?n ptr) = (OK, u)"
      "contents (dest u) = contents (dest ?v) @ phys (record_type bgn (length ptr = ?n)) (take ?n ptr)"
      "reliable (dest u)" "type_crc u = InitTypeCrc" "block_offset u = block_offset ?v + kHeaderSize + ?n"
    using EmitPhysicalRecord_phys [of ?v "record_type bgn (length ptr = ?n)" "take ?n ptr"] sw
      record_type_le [of bgn "length ptr = ?n"] fragment_le [of "block_offset ?v" "length ptr"] by (auto simp: min_absorb2)
  have "block_offset u \<le> kBlockSize"
    using start_fits [of "block_offset w" "length ptr"] 1(2) sw u(5) by (simp add: writing_def)
  then have wu: "writing u" using u by (simp add: writing_def)
  show ?case
  proof (cases "0 < length ptr - ?n")
    case True
    obtain w' where w': "add_loop u (drop ?n ptr) False = (OK, w')"
        "contents (dest w') = contents (dest u) @ fst (emit (block_offset u) (drop ?n ptr) False)"
        "writing w'" "block_offset w' = snd (emit (block_offset u) (drop ?n ptr) False)"
      using 1(1) [OF refl refl u(1) [symmetric] refl] True wu by auto
    moreover have "add_loop w ptr bgn = add_loop u (drop ?n ptr) False"
      using u(1) True by (simp add: add_loop.simps [of w] Let_def)
    ultimately show ?thesis
      using True sw u by (auto simp: emit.simps [of "block_offset w"] Let_def split: prod.splits)
  next
    case False
    then have "add_loop w ptr bgn = (OK, u)" using u(1) by (simp add: add_loop.simps [of w] Let_def)
    with False sw u wu show ?thesis by (simp add: emit.simps [of "block_offset w"] Let_def)
  qed
qed

subsection \<open>Reading one physical record\<close>

definition full_reads :: "SequentialFile \<Rightarrow> bool" where
  "full_reads f \<longleftrightarrow> (\<forall>i. \<exists>k \<ge> kBlockSize. read_outcome f i = Some k)"

text \<open>
  \<open>ready r bo S\<close>: the bytes \<open>S\<close> are still to come, the first of them stands at offset \<open>bo\<close> of its block, and the
  buffer reaches to the end of the block or of the file.
\<close>

definition ready :: "Reader \<Rightarrow> nat \<Rightarrow> byte list \<Rightarrow> bool" where
  "ready r bo S \<longleftrightarrow>
     buffer r @ unread (src_file r) = S \<and> full_reads (src_file r) \<and> bo \<le> kBlockSize \<and>
     initial_offset r = 0 \<and> \<not> resyncing r \<and>
     (if at_eof r then unread (src_file r) = [] \<and> length (buffer r) < kBlockSize - bo
      else length (buffer r) = kBlockSize - bo \<or> buffer r = [] \<and> bo = 0)"

lemma length_phys [simp]: "length (phys t d) = kHeaderSize + length d"
  by (simp add: phys_def EncodeFixed32_bytes kHeaderSize_def)

lemma phys_neq_Nil [simp]: "phys t d \<noteq> []"
  using length_phys [of t d] by (auto simp: kHeaderSize_def simp del: length_phys)

lemma phys_header:
  assumes "length d < 65536" "7 \<le> n"
  shows "unat ((take n (phys t d) @ B) ! 4) + 256 * unat ((take n (phys t d) @ B) ! 5) = length d"
proof -
  have e: "phys t d = bytes_of 4 (Mask (crc32c 0 (ucast t # d))) @ of_nat (length d mod 256) # of_nat (length d div 256) # ucast t # d"
    by (simp add: phys_def EncodeFixed32_bytes)
  have "(take n (phys t d) @ B) ! 4 = phys t d ! 4" "(take n (phys t d) @ B) ! 5 = phys t d ! 5"
    using assms(2) by (simp_all add: nth_append kHeaderSize_def)
  moreover have "phys t d ! 4 = of_nat (length d mod 256)" "phys t d ! 5 = of_nat (length d div 256)"
    unfolding e by (simp_all add: nth_append)
  moreover have "unat (of_nat (length d div 256) :: byte) = length d div 256"
    using assms(1) by (intro unat_of_nat_small) (simp add: less_mult_imp_div_less)
  moreover have "unat (of_nat (length d mod 256) :: byte) = length d mod 256"
    by (intro unat_of_nat_small) simp
  ultimately show ?thesis by (simp del: of_nat_mod)
qed

lemma parse_record_phys:
  assumes "buffer r = phys t d @ B" "length d < 65536" "unat t \<le> 5" "t \<noteq> 0" "initial_offset r = 0"
  shows "parse_record r res = (t, d, r\<lparr>buffer := B\<rparr>)"
proof -
  have e: "buffer r = bytes_of 4 (Mask (crc32c 0 (ucast t # d))) @ of_nat (length d mod 256) # of_nat (length d div 256) # ucast t # d @ B"
    using assms(1) by (simp add: phys_def EncodeFixed32_bytes)
  have len: "unat (buffer r ! 4) + 256 * unat (buffer r ! 5) = length d"
    using phys_header [OF assms(2), of "length (phys t d)" t B] assms(1) by (simp add: kHeaderSize_def)
  have "scast (ucast t :: byte) = t"
  proof -
    have "t = 1 \<or> t = 2 \<or> t = 3 \<or> t = 4 \<or> t = 5"
      using assms(3,4) by (simp add: word_unat_eq_iff) linarith
    then show ?thesis by auto
  qed
  moreover have "buffer r ! 6 = ucast t" unfolding e by (simp add: nth_append)
  ultimately have ty: "scast (buffer r ! 6) = t" by simp
  have "drop 6 (buffer r) = ucast t # d @ B" unfolding e by simp
  then have c: "take (1 + length d) (drop 6 (buffer r)) = ucast t # d" by simp
  have h: "word_of (take 4 (buffer r)) = Mask (crc32c 0 (ucast t # d))"
    unfolding e by (simp add: word_of_bytes_of_full)
  have pl: "drop kHeaderSize (buffer r) = d @ B"
    unfolding e by (simp add: kHeaderSize_def)
  moreover have "drop (kHeaderSize + length d) (buffer r) = drop (length d) (drop kHeaderSize (buffer r))"
    by (simp add: add.commute)
  ultimately have pl2: "drop (kHeaderSize + length d) (buffer r) = B" by simp
  have "kHeaderSize + length d \<le> length (buffer r)" using assms(1) by simp
  then show ?thesis
    unfolding parse_record_def Let_def len ty
    using assms(4,5) c h pl pl2 by (simp add: kZeroType_def)
qed

text \<open>A record that the end of the file cuts off, in its header or in its payload.\<close>

lemma short_record:
  assumes "buffer r = take n (phys t d)" "n < length (phys t d)" "length d < 65536" "at_eof r"
  shows "ReadPhysicalRecord r res = (kEof, res, r\<lparr>buffer := []\<rparr>)"
proof (cases "n < kHeaderSize")
  case True
  then show ?thesis using assms by (simp add: ReadPhysicalRecord.simps [of r])
next
  case False
  have "unat (buffer r ! 4) + 256 * unat (buffer r ! 5) = length d"
    using phys_header [OF assms(3), of n t "[]"] False assms(1) by (simp add: kHeaderSize_def)
  moreover have "length (buffer r) = n" using assms(1,2) by simp
  ultimately show ?thesis
    using False assms(2,4) by (simp add: ReadPhysicalRecord.simps [of r] parse_record_def Let_def)
qed

definition refilled :: "Reader \<Rightarrow> Reader" where
  "refilled r =
     (let b = take kBlockSize (unread (src_file r));
          q = r\<lparr>src_file := (src_file r)\<lparr>read_calls := Suc (read_calls (src_file r)), unread := drop kBlockSize (unread (src_file r))\<rparr>,
                buffer := b, end_of_buffer_offset := end_of_buffer_offset r + of_nat (length b)\<rparr>
      in if length b < kBlockSize then q\<lparr>at_eof := True\<rparr> else q)"

lemma refill:
  assumes "length (buffer r) < kHeaderSize" "\<not> at_eof r" "full_reads (src_file r)"
  shows "ReadPhysicalRecord r res = ReadPhysicalRecord (refilled r) res"
proof -
  obtain k where "read_outcome (src_file r) (read_calls (src_file r)) = Some k" "kBlockSize \<le> k"
    using assms(3) by (auto simp: full_reads_def)
  then have "file_Read (src_file r) kBlockSize = (OK, take kBlockSize (unread (src_file r)),
      (src_file r)\<lparr>read_calls := Suc (read_calls (src_file r)), unread := drop kBlockSize (unread (src_file r))\<rparr>)"
    by (simp add: file_Read_def Let_def min_absorb1)
  then show ?thesis using assms(1,2) by (simp add: ReadPhysicalRecord.simps [of r] refilled_def Let_def)
qed

lemma ready_refilled:
  assumes "full_reads (src_file r)" "initial_offset r = 0" "\<not> resyncing r" "\<not> at_eof r"
  shows "ready (refilled r) 0 (unread (src_file r))" "reports (refilled r) = reports r"
  using assms by (auto simp: ready_def refilled_def Let_def full_reads_def min_def split: if_splits)

lemma ready_parse:
  assumes "ready r bo (phys t d @ S)" "unat t \<le> 4" "t \<noteq> 0" "bo + kHeaderSize + length d \<le> kBlockSize" "buffer r \<noteq> [] \<or> at_eof r"
  shows "\<exists>r'. ReadPhysicalRecord r res = (t, d, r') \<and> ready r' (bo + kHeaderSize + length d) S \<and> reports r' = reports r"
proof -
  have bu: "buffer r @ unread (src_file r) = phys t d @ S" using assms(1) by (simp add: ready_def)
  have len: "kHeaderSize + length d \<le> length (buffer r)"
  proof (cases "at_eof r")
    case True
    then have "buffer r = phys t d @ S" using assms(1) bu by (simp add: ready_def)
    then show ?thesis by simp
  next
    case False
    then have "length (buffer r) = kBlockSize - bo" using assms(1,5) by (auto simp: ready_def)
    then show ?thesis using assms(4) by linarith
  qed
  then obtain B where B: "buffer r = phys t d @ B" "B @ unread (src_file r) = S"
    using bu by (metis append_eq_append_conv_if append_take_drop_id length_phys append_eq_append_conv2 append.assoc append_take_drop_id)
  have "length d < 65536" using assms(4) by (simp add: kBlockSize_def)
  then have "ReadPhysicalRecord r res = (t, d, r\<lparr>buffer := B\<rparr>)"
    using parse_record_phys [OF B(1) _ _ assms(3)] assms(1,2) len
    by (simp add: ReadPhysicalRecord.simps [of r] ready_def)
  moreover have "ready (r\<lparr>buffer := B\<rparr>) (bo + kHeaderSize + length d) S"
    using assms(1,4,5) B by (auto simp: ready_def split: if_splits)
  ultimately show ?thesis by simp
qed

lemma at_eof_short: "ready r bo S \<Longrightarrow> at_eof r \<Longrightarrow> length S < kBlockSize - bo"
  by (auto simp: ready_def)

lemma length_pad: "kBlockSize - bo < kHeaderSize \<Longrightarrow> length (pad bo) = kBlockSize - bo"
  by (simp add: pad_def)

lemma read_record:
  assumes "ready r bo (pad bo @ phys t d @ S)" "unat t \<le> 4" "t \<noteq> 0" "start_at bo + kHeaderSize + length d \<le> kBlockSize"
  shows "\<exists>r'. ReadPhysicalRecord r res = (t, d, r') \<and> ready r' (start_at bo + kHeaderSize + length d) S \<and> reports r' = reports r"
proof (cases "length (buffer r) < kHeaderSize \<and> \<not> at_eof r")
  case True
  have fr: "full_reads (src_file r)" "initial_offset r = 0" "\<not> resyncing r" using assms(1) by (simp_all add: ready_def)
  have un: "unread (src_file r) = phys t d @ S \<and> start_at bo = 0"
  proof (cases "kBlockSize - bo < kHeaderSize")
    case sw: True
    then have "bo \<noteq> 0" by (auto simp: kBlockSize_def kHeaderSize_def)
    then have "length (buffer r) = length (pad bo)"
      using assms(1) True length_pad [OF sw] by (auto simp: ready_def)
    moreover have "buffer r @ unread (src_file r) = pad bo @ phys t d @ S" using assms(1) by (simp add: ready_def)
    ultimately show ?thesis using sw by (simp add: start_at_def)
  next
    case False
    then have "buffer r = [] \<and> bo = 0" using assms(1) True by (auto simp: ready_def)
    with False assms(1) show ?thesis by (simp add: ready_def pad_def start_at_def)
  qed
  note rf = ready_refilled [OF fr] 
  have "ready (refilled r) 0 (phys t d @ S)" "reports (refilled r) = reports r" using rf True un by simp_all
  moreover have "buffer (refilled r) \<noteq> [] \<or> at_eof (refilled r)"
    by (auto simp: refilled_def Let_def kBlockSize_def)
  ultimately show ?thesis
    using ready_parse [of "refilled r" 0 t d S res] assms(2-4) refill [OF _ _ fr(1), of res] True un by simp
next
  case False
  have np: "\<not> kBlockSize - bo < kHeaderSize"
  proof
    assume sw: "kBlockSize - bo < kHeaderSize"
    have "\<not> at_eof r"
      using at_eof_short [OF assms(1)] sw length_pad [OF sw] by auto
    moreover have "bo \<noteq> 0" using sw by (auto simp: kBlockSize_def kHeaderSize_def)
    ultimately have "length (buffer r) = kBlockSize - bo" using assms(1) by (auto simp: ready_def)
    with sw False \<open>\<not> at_eof r\<close> show False by simp
  qed
  then have "ready r bo (phys t d @ S)" "start_at bo = bo" using assms(1) by (simp_all add: pad_def start_at_def)
  moreover have "buffer r \<noteq> [] \<or> at_eof r" using False by (auto simp: kHeaderSize_def)
  ultimately show ?thesis using ready_parse [of r bo t d S res] assms(2-4) by simp
qed

text \<open>A file that ends in the middle of a record, or in the padding in front of it.\<close>

lemma read_truncated:
  assumes "ready r bo (take n (pad bo @ phys t d))" "n < length (pad bo @ phys t d)" "start_at bo + kHeaderSize + length d \<le> kBlockSize"
  shows "\<exists>r'. ReadPhysicalRecord r res = (kEof, res, r') \<and> reports r' = reports r \<and> resyncing r' = resyncing r"
proof (cases "length (buffer r) < kHeaderSize \<and> \<not> at_eof r")
  case True
  have fr: "full_reads (src_file r)" "initial_offset r = 0" "\<not> resyncing r" using assms(1) by (simp_all add: ready_def)
  have "\<exists>k < length (phys t d). unread (src_file r) = take k (phys t d) \<and> start_at bo = 0"
  proof (cases "kBlockSize - bo < kHeaderSize")
    case sw: True
    then have "bo \<noteq> 0" by (auto simp: kBlockSize_def kHeaderSize_def)
    then have l: "length (buffer r) = length (pad bo)"
      using assms(1) True length_pad [OF sw] by (auto simp: ready_def)
    have b: "buffer r @ unread (src_file r) = take n (pad bo) @ take (n - length (pad bo)) (phys t d)"
      using assms(1) by (simp add: ready_def)
    have "length (pad bo) \<le> n"
    proof (rule ccontr)
      assume "\<not> length (pad bo) \<le> n"
      then have "length (buffer r @ unread (src_file r)) < length (pad bo)" unfolding b by simp
      with l show False by simp
    qed
    with b l have "unread (src_file r) = take (n - length (pad bo)) (phys t d)" by simp
    moreover have "n - length (pad bo) < length (phys t d)" using assms(2) \<open>length (pad bo) \<le> n\<close> by simp
    ultimately show ?thesis using sw by (auto simp: start_at_def)
  next
    case False
    then have "buffer r = [] \<and> bo = 0" using assms(1) True by (auto simp: ready_def)
    with False assms(1,2) show ?thesis by (auto simp: ready_def pad_def start_at_def)
  qed
  then obtain k where k: "k < length (phys t d)" "unread (src_file r) = take k (phys t d)" "start_at bo = 0" by blast
  have "k < kBlockSize" using k(1,3) assms(3) by simp
  then have "buffer (refilled r) = take k (phys t d)" "at_eof (refilled r)" "reports (refilled r) = reports r"
    "resyncing (refilled r) = resyncing r"
    using k(2) by (auto simp: refilled_def Let_def)
  moreover have "length d < 65536" using assms(3) by (simp add: kBlockSize_def)
  ultimately show ?thesis
    using short_record [of "refilled r" k t d res] refill [OF _ _ fr(1), of res] True k(1) by simp
next
  case False
  have np: "\<not> kBlockSize - bo < kHeaderSize" if "\<not> at_eof r"
    using that False assms(1) by (auto simp: ready_def kHeaderSize_def)
  show ?thesis
  proof (cases "at_eof r")
    case True
    show ?thesis
    proof (cases "kBlockSize - bo < kHeaderSize")
      case sw: True
      then have "length (buffer r) < kHeaderSize" using assms(1) True by (auto simp: ready_def)
      then show ?thesis using True by (simp add: ReadPhysicalRecord.simps [of r])
    next
      case False
      then have "buffer r = take n (phys t d)" "n < length (phys t d)"
        using assms(1,2) True by (auto simp: ready_def pad_def)
      moreover have "length d < 65536" using assms(3) by (simp add: kBlockSize_def)
      ultimately show ?thesis using short_record [of r n t d res] True by simp
    qed
  next
    case ne: False
    then have "length (buffer r) = kBlockSize - bo" using assms(1) False np by (auto simp: ready_def kHeaderSize_def)
    moreover have "length (buffer r) \<le> n"
    proof -
      have "length (buffer r @ unread (src_file r)) = length (take n (pad bo @ phys t d))"
        using assms(1) by (simp only: ready_def)
      then show ?thesis by simp
    qed
    ultimately have False
      using assms(2,3) np [OF ne] by (simp add: pad_def start_at_def)
    then show ?thesis ..
  qed
qed

subsection \<open>Reading one record\<close>

lemma ready_fields: "ready r bo S \<Longrightarrow> \<not> resyncing r" "ready r bo S \<Longrightarrow> initial_offset r = 0"
    "ready r bo S \<Longrightarrow> bo \<le> kBlockSize"
  by (simp_all add: ready_def)

lemma ready_last_offset: "ready (r\<lparr>last_record_offset := o1\<rparr>) bo S = ready r bo S"
  by (simp add: ready_def)

text \<open>One round of the loop, when the reader is not resynchronizing.\<close>

lemma read_loop_step:
  assumes "ReadPhysicalRecord r (fragment st) = (t, frag, r')" "\<not> resyncing r'"
  shows "read_loop r st =
    (case dispatch r' (st\<lparr>fragment := frag\<rparr>) t
        (end_of_buffer_offset r' - buffer_size r' - of_nat kHeaderSize - of_nat (length frag)) of
       (Return res, r, st) \<Rightarrow> (res, r) | (Continue, r, st) \<Rightarrow> read_loop r st)"
  using assms by (subst read_loop.simps) (simp add: resync_def Let_def)

definition record_so_far :: "bool \<Rightarrow> read_state \<Rightarrow> bool" where
  "record_so_far bgn st \<longleftrightarrow> in_fragmented_record st = (\<not> bgn) \<and> (bgn \<longrightarrow> scratch st = [])"

lemma read_loop_emit:
  assumes "ready r bo (fst (emit bo ptr bgn) @ S)" "record_so_far bgn st"
  shows "\<exists>r'. read_loop r st = (Some (scratch st @ ptr), r') \<and> ready r' (snd (emit bo ptr bgn)) S \<and> reports r' = reports r"
  using assms
proof (induction bo ptr bgn arbitrary: r st rule: emit.induct)
  case (1 bo ptr bgn)
  define n where "n = fragment_length (start_at bo) (length ptr)"
  let ?t = "record_type bgn (length ptr = n)"
  have le: "n \<le> length ptr" by (simp add: n_def fragment_le)
  have fits: "start_at bo + kHeaderSize + length (take n ptr) \<le> kBlockSize"
    using start_fits [of bo "length ptr"] ready_fields(3) [OF "1.prems"(1)] le by (simp add: n_def min_absorb2)
  have t: "unat ?t \<le> 4" "?t \<noteq> 0" using record_type_le [of bgn "length ptr = n"] by auto
  show ?case
  proof (cases "0 < length ptr - n")
    case True
    obtain later off where lo: "emit (start_at bo + kHeaderSize + n) (drop n ptr) False = (later, off)" by fastforce
    have em: "emit bo ptr bgn = ((pad bo @ phys ?t (take n ptr)) @ later, off)"
      using True lo by (simp add: emit.simps [of bo] Let_def n_def)
    have "ready r bo (pad bo @ phys ?t (take n ptr) @ later @ S)" using "1.prems"(1) em by simp
    from read_record [OF this t fits, of "fragment st"] obtain r1 where
      r1: "ReadPhysicalRecord r (fragment st) = (?t, take n ptr, r1)"
        "ready r1 (start_at bo + kHeaderSize + n) (later @ S)" "reports r1 = reports r"
      using le by (auto simp: min_absorb2)
    define st1 where "st1 = (if bgn then st\<lparr>fragment := take n ptr, prospective_record_offset :=
          end_of_buffer_offset r1 - buffer_size r1 - of_nat kHeaderSize - of_nat (length (take n ptr)),
          scratch := take n ptr, in_fragmented_record := True\<rparr>
        else st\<lparr>fragment := take n ptr, scratch := scratch st @ take n ptr\<rparr>)"
    have ty: "?t = (if bgn then kFirstType else kMiddleType)" using True by (auto simp: record_type_def)
    have "dispatch r1 (st\<lparr>fragment := take n ptr\<rparr>) ?t
        (end_of_buffer_offset r1 - buffer_size r1 - of_nat kHeaderSize - of_nat (length (take n ptr))) = (Continue, r1, st1)"
      using "1.prems"(2) unfolding ty by (auto simp: dispatch_def Let_def record_so_far_def st1_def record_types)
    then have "read_loop r st = read_loop r1 st1"
      using read_loop_step [OF r1(1) ready_fields(1) [OF r1(2)]] by simp
    moreover have "scratch st1 @ drop n ptr = scratch st @ ptr" "record_so_far False st1"
      using "1.prems"(2) by (auto simp: st1_def record_so_far_def)
    moreover have "\<exists>r'. read_loop r1 st1 = (Some (scratch st1 @ drop n ptr), r') \<and> ready r' off S \<and> reports r' = reports r1"
      using "1.IH" [OF n_def refl refl True, of r1 st1] r1(2) lo \<open>record_so_far False st1\<close> by simp
    ultimately show ?thesis using r1(3) em by simp
  next
    case False
    then have n: "n = length ptr" using le by simp
    have em: "emit bo ptr bgn = (pad bo @ phys ?t ptr, start_at bo + kHeaderSize + length ptr)"
      using False n by (simp add: emit.simps [of bo] Let_def n_def [symmetric])
    have "ready r bo (pad bo @ phys ?t ptr @ S)" using "1.prems"(1) em by simp
    from read_record [OF this t, of "fragment st"] fits n obtain r1 where
      r1: "ReadPhysicalRecord r (fragment st) = (?t, ptr, r1)"
        "ready r1 (start_at bo + kHeaderSize + length ptr) S" "reports r1 = reports r"
      by auto
    have ty: "?t = (if bgn then kFullType else kLastType)" using n by (auto simp: record_type_def)
    let ?off = "end_of_buffer_offset r1 - buffer_size r1 - of_nat kHeaderSize - of_nat (length ptr)"
    have "\<exists>st1. dispatch r1 (st\<lparr>fragment := ptr\<rparr>) ?t ?off =
        (Return (Some (scratch st @ ptr)),
         r1\<lparr>last_record_offset := (if bgn then ?off else prospective_record_offset st)\<rparr>, st1)"
      using "1.prems"(2) unfolding ty by (auto simp: dispatch_def Let_def record_so_far_def record_types)
    then show ?thesis
      using read_loop_step [OF r1(1) ready_fields(1) [OF r1(2)]] r1(2,3) em by (auto simp: ready_last_offset)
  qed
qed

lemma read_loop_truncated:
  assumes "ready r bo (take k (fst (emit bo ptr bgn)))" "k < length (fst (emit bo ptr bgn))" "record_so_far bgn st"
  shows "\<exists>r'. read_loop r st = (None, r') \<and> reports r' = reports r"
  using assms
proof (induction bo ptr bgn arbitrary: r st k rule: emit.induct)
  case (1 bo ptr bgn)
  define n where "n = fragment_length (start_at bo) (length ptr)"
  let ?t = "record_type bgn (length ptr = n)"
  let ?now = "pad bo @ phys ?t (take n ptr)"
  have le: "n \<le> length ptr" by (simp add: n_def fragment_le)
  have fits: "start_at bo + kHeaderSize + length (take n ptr) \<le> kBlockSize"
    using start_fits [of bo "length ptr"] ready_fields(3) [OF "1.prems"(1)] le by (simp add: n_def min_absorb2)
  have t: "unat ?t \<le> 4" "?t \<noteq> 0" using record_type_le [of bgn "length ptr = n"] by auto
  obtain later off where em: "emit bo ptr bgn = (?now @ later, off)"
    and lo: "0 < length ptr - n \<Longrightarrow> emit (start_at bo + kHeaderSize + n) (drop n ptr) False = (later, off)"
    and la: "\<not> 0 < length ptr - n \<Longrightarrow> later = []"
    by (cases "emit (start_at bo + kHeaderSize + n) (drop n ptr) False"; cases "0 < length ptr - n")
      (auto simp: emit.simps [of bo] Let_def n_def)
  show ?case
  proof (cases "k < length ?now")
    case True
    then have "ready r bo (take k ?now)" using "1.prems"(1) em by simp
    from read_truncated [OF this True fits, of "fragment st"] obtain r1 where
      r1: "ReadPhysicalRecord r (fragment st) = (kEof, fragment st, r1)" "reports r1 = reports r" "\<not> resyncing r1"
      using ready_fields(1) [OF "1.prems"(1)] by auto
    then show ?thesis
      using read_loop_step [OF r1(1,3)] by (auto simp: dispatch_def Let_def record_types)
  next
    case False
    have more: "0 < length ptr - n" using False la "1.prems"(2) em by (cases "0 < length ptr - n") auto
    let ?k = "k - length ?now"
    have "ready r bo (pad bo @ phys ?t (take n ptr) @ take ?k later)" using "1.prems"(1) em False by simp
    from read_record [OF this t fits, of "fragment st"] obtain r1 where
      r1: "ReadPhysicalRecord r (fragment st) = (?t, take n ptr, r1)"
        "ready r1 (start_at bo + kHeaderSize + n) (take ?k later)" "reports r1 = reports r"
      using le by (auto simp: min_absorb2)
    have ty: "?t = (if bgn then kFirstType else kMiddleType)" using more by (auto simp: record_type_def)
    obtain st1 where st1: "dispatch r1 (st\<lparr>fragment := take n ptr\<rparr>) ?t
        (end_of_buffer_offset r1 - buffer_size r1 - of_nat kHeaderSize - of_nat (length (take n ptr))) = (Continue, r1, st1)"
        "record_so_far False st1"
      using "1.prems"(3) unfolding ty by (auto simp: dispatch_def Let_def record_so_far_def record_types)
    have "?k < length later" using "1.prems"(2) em False by simp
    then have "\<exists>r'. read_loop r1 st1 = (None, r') \<and> reports r' = reports r1"
      using "1.IH" [OF n_def refl refl more, of r1 ?k st1] r1(2) lo [OF more] st1(2) by simp
    then show ?thesis
      using read_loop_step [OF r1(1) ready_fields(1) [OF r1(2)]] st1(1) r1(3) by simp
  qed
qed

subsection \<open>Whole logs\<close>

primrec AddRecords :: "Writer \<Rightarrow> byte list list \<Rightarrow> Status \<times> Writer" where
  "AddRecords w [] = (OK, w)"
| "AddRecords w (x # xs) = (case AddRecord w x of (s, w) \<Rightarrow> if s = OK then AddRecords w xs else (s, w))"

primrec ReadRecords :: "nat \<Rightarrow> Reader \<Rightarrow> byte list option list \<times> Reader" where
  "ReadRecords 0 r = ([], r)"
| "ReadRecords (Suc n) r = (case ReadRecord r of (x, r) \<Rightarrow> (case ReadRecords n r of (xs, r) \<Rightarrow> (x # xs, r)))"

primrec emit_all :: "nat \<Rightarrow> byte list list \<Rightarrow> byte list \<times> nat" where
  "emit_all bo [] = ([], bo)"
| "emit_all bo (x # xs) = (case emit bo x True of (b, bo) \<Rightarrow> (case emit_all bo xs of (bs, bo) \<Rightarrow> (b @ bs, bo)))"

lemma AddRecords_emit:
  assumes "writing w"
  shows "\<exists>w'. AddRecords w xs = (OK, w') \<and> contents (dest w') = contents (dest w) @ fst (emit_all (block_offset w) xs) \<and>
    writing w' \<and> block_offset w' = snd (emit_all (block_offset w) xs)"
  using assms
proof (induction xs arbitrary: w)
  case (Cons x xs)
  obtain w1 where w1: "AddRecord w x = (OK, w1)" "contents (dest w1) = contents (dest w) @ fst (emit (block_offset w) x True)"
      "writing w1" "block_offset w1 = snd (emit (block_offset w) x True)"
    using add_loop_emit [OF Cons.prems] by (auto simp: AddRecord_def)
  from Cons.IH [OF w1(3)] w1 show ?case by (auto split: prod.splits)
qed simp

lemma ReadRecord_ready:
  assumes "ready r bo S"
  shows "ReadRecord r = read_loop r \<lparr>in_fragmented_record = False, scratch = [], prospective_record_offset = 0, fragment = []\<rparr>"
  using assms by (simp add: ReadRecord_def ready_def)

lemma ReadRecord_emit:
  assumes "ready r bo (fst (emit bo x True) @ S)"
  shows "\<exists>r'. ReadRecord r = (Some x, r') \<and> ready r' (snd (emit bo x True)) S \<and> reports r' = reports r"
  unfolding ReadRecord_ready [OF assms] using read_loop_emit [OF assms] by (simp add: record_so_far_def)

lemma ReadRecord_truncated:
  assumes "ready r bo (take k (fst (emit bo x True)))" "k < length (fst (emit bo x True))"
  shows "\<exists>r'. ReadRecord r = (None, r') \<and> reports r' = reports r"
  unfolding ReadRecord_ready [OF assms(1)] using read_loop_truncated [OF assms] by (simp add: record_so_far_def)

lemma emit_nonempty: "0 < length (fst (emit bo x bgn))"
  by (auto simp: emit.simps [of bo] Let_def kHeaderSize_def split: prod.splits)

text \<open>At the end of the log there is nothing to cut off.\<close>

lemma ReadRecord_end: "ready r bo [] \<Longrightarrow> \<exists>r'. ReadRecord r = (None, r') \<and> reports r' = reports r"
  using ReadRecord_truncated [of r bo 0 "[]"] emit_nonempty [of bo "[]" True] by simp

lemma ReadRecords_emit_all:
  assumes "ready r bo (fst (emit_all bo xs) @ S)"
  shows "\<exists>r'. ReadRecords (length xs) r = (map Some xs, r') \<and> ready r' (snd (emit_all bo xs)) S \<and> reports r' = reports r"
  using assms
proof (induction xs arbitrary: r bo)
  case (Cons x xs)
  obtain b bo1 bs bo2 where e: "emit bo x True = (b, bo1)" "emit_all bo1 xs = (bs, bo2)" by fastforce
  with Cons.prems have "ready r bo (fst (emit bo x True) @ bs @ S)" by simp
  from ReadRecord_emit [OF this] e obtain r1 where r1: "ReadRecord r = (Some x, r1)" "ready r1 bo1 (bs @ S)" "reports r1 = reports r"
    by auto
  from Cons.IH [of r1 bo1] r1 e show ?case by auto
qed simp

lemma ReadRecords_snoc:
  "ReadRecords n r = (xs, r1) \<Longrightarrow> ReadRecord r1 = (x, r2) \<Longrightarrow> ReadRecords (Suc n) r = (xs @ [x], r2)"
proof (induction n arbitrary: r xs)
  case (Suc n)
  obtain y r0 ys where "ReadRecord r = (y, r0)" "ReadRecords n r0 = (ys, r1)" "xs = y # ys"
    using Suc.prems(1) by (auto split: prod.splits)
  with Suc.IH [of r0 ys] Suc.prems(2) show ?case by simp
qed simp

lemma ready_new_Reader: "full_reads g \<Longrightarrow> ready (new_Reader g rep check 0) 0 (unread g)"
  by (simp add: ready_def new_Reader_def)

lemma writing_new_Writer: "reliable f \<Longrightarrow> writing (new_Writer f n)"
  by (simp add: writing_def new_Writer_def kBlockSize_def)

text \<open>
  (C8) The log round trip: on a file that takes every append, all records are accepted, and a reader of that
  file returns exactly these records, in order and unchanged, then the end of the log, and reports no
  corruption.  Records may be empty and of any size; they are split over blocks of 32 KiB.
\<close>

theorem log_roundtrip:
  assumes "reliable f" "contents f = []" "AddRecords (new_Writer f 0) xs = (s, w)"
    and "full_reads g" "unread g = contents (dest w)"
  shows "s = OK \<and> (\<exists>r. ReadRecords (Suc (length xs)) (new_Reader g rep check 0) = (map Some xs @ [None], r) \<and> reports r = [])"
proof -
  let ?r = "new_Reader g rep check 0"
  have w: "s = OK" "contents (dest w) = fst (emit_all 0 xs)"
    using AddRecords_emit [OF writing_new_Writer [OF assms(1), of 0], of xs] assms(2,3) by (auto simp: new_Writer_def)
  have "ready ?r 0 (fst (emit_all 0 xs) @ [])" using ready_new_Reader [OF assms(4), of rep check] assms(5) w(2) by simp
  then obtain r1 where r1: "ReadRecords (length xs) ?r = (map Some xs, r1)" "ready r1 (snd (emit_all 0 xs)) []" "reports r1 = reports ?r"
    using ReadRecords_emit_all by blast
  obtain r2 where "ReadRecord r1 = (None, r2)" "reports r2 = reports r1" using ReadRecord_end [OF r1(2)] by blast
  with r1 have "ReadRecords (Suc (length xs)) ?r = (map Some xs @ [None], r2) \<and> reports r2 = []"
    using ReadRecords_snoc by (simp add: new_Reader_def)
  then show ?thesis using w(1) by blast
qed

text \<open>
  (C15) Crash safety: when the writer dies while it appends a record, at any byte and also in the middle of a
  header, a payload or the padding of a block, the reader of what has reached the file returns every
  record that was completely written before, nothing of the unfinished one, and reports no corruption.
\<close>

theorem log_crash_safe:
  assumes "reliable f" "contents f = []" "AddRecords (new_Writer f 0) xs = (s, w)" "AddRecord w x = (s', w')"
    and "full_reads g" "unread g = take n (contents (dest w'))"
    and "length (contents (dest w)) \<le> n" "n < length (contents (dest w'))"
  shows "\<exists>r. ReadRecords (Suc (length xs)) (new_Reader g rep check 0) = (map Some xs @ [None], r) \<and> reports r = []"
proof -
  let ?r = "new_Reader g rep check 0"
  let ?bo = "snd (emit_all 0 xs)"
  have w: "contents (dest w) = fst (emit_all 0 xs)" "writing w" "block_offset w = ?bo"
    using AddRecords_emit [OF writing_new_Writer [OF assms(1), of 0], of xs] assms(2,3) by (auto simp: new_Writer_def)
  have w': "contents (dest w') = contents (dest w) @ fst (emit ?bo x True)"
    using add_loop_emit [OF w(2), of x True] assms(4) w(3) by (auto simp: AddRecord_def)
  let ?k = "n - length (contents (dest w))"
  have "ready ?r 0 (fst (emit_all 0 xs) @ take ?k (fst (emit ?bo x True)))"
    using ready_new_Reader [OF assms(5), of rep check] assms(6,7) w' w(1) by simp
  then obtain r1 where r1: "ReadRecords (length xs) ?r = (map Some xs, r1)" "ready r1 ?bo (take ?k (fst (emit ?bo x True)))"
      "reports r1 = reports ?r"
    using ReadRecords_emit_all by blast
  have "?k < length (fst (emit ?bo x True))" using assms(7,8) w' by simp
  from ReadRecord_truncated [OF r1(2) this] obtain r2 where "ReadRecord r1 = (None, r2)" "reports r2 = reports r1" by blast
  with r1 have "ReadRecords (Suc (length xs)) ?r = (map Some xs @ [None], r2) \<and> reports r2 = []"
    using ReadRecords_snoc by (simp add: new_Reader_def)
  then show ?thesis by blast
qed

subsection \<open>Opening an existing log\<close>

lemma emit_wrap: "emit kBlockSize ptr bgn = emit 0 ptr bgn"
proof -
  have "pad kBlockSize = pad 0" "start_at kBlockSize = start_at 0"
    by (simp_all add: pad_def start_at_def kBlockSize_def kHeaderSize_def)
  then show ?thesis by (simp add: emit.simps [of kBlockSize] emit.simps [of 0])
qed

lemma emit_mod: "bo \<le> kBlockSize \<Longrightarrow> emit (bo mod kBlockSize) ptr bgn = emit bo ptr bgn"
  by (cases "bo = kBlockSize") (simp_all add: emit_wrap)

lemma pad_start: "bo \<le> kBlockSize \<Longrightarrow> (bo + length (pad bo)) mod kBlockSize = start_at bo mod kBlockSize"
  by (auto simp: pad_def start_at_def)

lemma emit_offset:
  "bo \<le> kBlockSize \<Longrightarrow> snd (emit bo ptr bgn) \<le> kBlockSize \<and>
     (bo + length (fst (emit bo ptr bgn))) mod kBlockSize = snd (emit bo ptr bgn) mod kBlockSize"
proof (induction bo ptr bgn rule: emit.induct)
  case (1 bo ptr bgn)
  define n where "n = fragment_length (start_at bo) (length ptr)"
  let ?bo = "start_at bo + kHeaderSize + n"
  have le: "n \<le> length ptr" by (simp add: n_def fragment_le)
  have fits: "?bo \<le> kBlockSize" using start_fits [OF "1.prems"] by (simp add: n_def)
  have now: "(bo + (length (pad bo) + (kHeaderSize + n) + k)) mod kBlockSize = (?bo + k) mod kBlockSize" for k
    using pad_start [OF "1.prems"] by (metis add.assoc mod_add_left_eq)
  show ?case
  proof (cases "0 < length ptr - n")
    case True
    obtain later off where lo: "emit ?bo (drop n ptr) False = (later, off)" by fastforce
    then have "off \<le> kBlockSize \<and> (?bo + length later) mod kBlockSize = off mod kBlockSize"
      using "1.IH" [OF n_def refl refl True fits] by simp
    moreover have "emit bo ptr bgn = ((pad bo @ phys (record_type bgn (length ptr = n)) (take n ptr)) @ later, off)"
      using True lo by (simp add: emit.simps [of bo] Let_def n_def)
    ultimately show ?thesis using now [of "length later"] le by (simp add: min_absorb2 add.assoc)
  next
    case False
    then have "emit bo ptr bgn = (pad bo @ phys (record_type bgn (length ptr = n)) (take n ptr), ?bo)"
      by (simp add: emit.simps [of bo] Let_def n_def)
    then show ?thesis using now [of 0] le fits by (simp add: min_absorb2 add.assoc)
  qed
qed

lemma emit_all_mod:
  assumes "bo \<le> kBlockSize"
  shows "fst (emit_all (bo mod kBlockSize) xs) = fst (emit_all bo xs)"
  using emit_mod [OF assms] by (cases xs) (simp_all split: prod.split)

lemma emit_all_offset:
  "bo \<le> kBlockSize \<Longrightarrow> (bo + length (fst (emit_all bo xs))) mod kBlockSize = snd (emit_all bo xs) mod kBlockSize"
proof (induction xs arbitrary: bo)
  case (Cons x xs)
  obtain b bo1 bs bo2 where e: "emit bo x True = (b, bo1)" "emit_all bo1 xs = (bs, bo2)" by fastforce
  then have "bo1 \<le> kBlockSize" "(bo + length b) mod kBlockSize = bo1 mod kBlockSize"
    using emit_offset [OF Cons.prems, of x True] by simp_all
  moreover from this have "(bo1 + length bs) mod kBlockSize = bo2 mod kBlockSize" using Cons.IH [of bo1] e by simp
  ultimately have "(bo + length b + length bs) mod kBlockSize = bo2 mod kBlockSize"
    by (metis mod_add_left_eq)
  then show ?case using e by (simp add: add.assoc)
qed simp

text \<open>
  Reopening a log: a writer that is created for a file with some records in it, from the length of the
  file alone, appends exactly what the writer that wrote them would have appended.
\<close>

theorem log_reopen:
  assumes "reliable f" "contents f = []" "AddRecords (new_Writer f 0) xs = (s, w)"
  shows "contents (dest (snd (AddRecords (new_Writer (dest w) (length (contents (dest w)))) ys))) =
    contents (dest (snd (AddRecords w ys)))"
proof -
  have w: "contents (dest w) = fst (emit_all 0 xs)" "writing w" "block_offset w = snd (emit_all 0 xs)"
    using AddRecords_emit [OF writing_new_Writer [OF assms(1), of 0], of xs] assms(2,3) by (auto simp: new_Writer_def)
  have rel: "reliable (dest w)" and bo: "block_offset w \<le> kBlockSize" using w(2) by (simp_all add: writing_def)
  have "length (contents (dest w)) mod kBlockSize = block_offset w mod kBlockSize"
    using emit_all_offset [of 0 xs] w(1,3) by simp
  then show ?thesis
    using AddRecords_emit [OF w(2), of ys] AddRecords_emit [OF writing_new_Writer [OF rel], of "length (contents (dest w))" ys]
      emit_all_mod [OF bo, of ys] by (auto simp: new_Writer_def)
qed

text \<open>Concrete files for the examples.\<close>

definition empty_file :: WritableFile where
  "empty_file = \<lparr>contents = [], append_outcome = (\<lambda>_. None), flush_fails = (\<lambda>_. False), file_calls = 0\<rparr>"

definition file_with :: "byte list \<Rightarrow> SequentialFile" where
  "file_with bs = \<lparr>unread = bs, read_outcome = (\<lambda>_. Some kBlockSize), skip_fails = False, read_calls = 0\<rparr>"

lemma empty_file: "reliable empty_file" "contents empty_file = []"
  by (simp_all add: empty_file_def reliable_def)

lemma file_with: "full_reads (file_with bs)" "unread (file_with bs) = bs"
  by (simp_all add: file_with_def full_reads_def)

theorem log_roundtrip_witness:
  "\<exists>r. ReadRecords (Suc (length [[1, 2], [] :: byte list]))
      (new_Reader (file_with (contents (dest (snd (AddRecords (new_Writer empty_file 0) [[1, 2], []]))))) True True 0) =
      (map Some [[1, 2], []] @ [None], r) \<and> reports r = []"
  using log_roundtrip [OF empty_file prod.collapse [symmetric, of "AddRecords (new_Writer empty_file 0) [[1, 2], []]"] file_with]
  by blast

theorem log_reopen_witness:
  "let w = snd (AddRecords (new_Writer empty_file 0) [[1, 2]])
   in contents (dest (snd (AddRecords (new_Writer (dest w) (length (contents (dest w)))) [[3]]))) =
      contents (dest (snd (AddRecords w [[3]])))"
  unfolding Let_def
  by (rule log_reopen [OF empty_file prod.collapse [symmetric, of "AddRecords (new_Writer empty_file 0) [[1, 2]]"]])

lemma emit_one_block:
  assumes "length x \<le> 100" "bo \<le> 100"
  shows "emit bo x True = (phys kFullType x, bo + kHeaderSize + length x)"
proof -
  have "\<not> kBlockSize - bo < kHeaderSize" using assms(2) unfolding kBlockSize_def kHeaderSize_def by linarith
  then have "start_at bo = bo" "pad bo = []" by (simp_all add: start_at_def pad_def)
  moreover have "length x < kBlockSize - bo - kHeaderSize"
    using assms unfolding kBlockSize_def kHeaderSize_def by linarith
  then have "fragment_length bo (length x) = length x" by (simp add: fragment_length_def)
  ultimately show ?thesis by (subst emit.simps) (simp add: record_type_def)
qed

lemma two_records:
  "length (contents (dest (snd (AddRecords (new_Writer empty_file 0) [[1]])))) = 8"
  "length (contents (dest (snd (AddRecord (snd (AddRecords (new_Writer empty_file 0) [[1]])) [2, 3])))) = 17"
proof -
  obtain w where w: "AddRecords (new_Writer empty_file 0) [[1]] = (OK, w)" "length (contents (dest w)) = 8" "writing w" "block_offset w = 8"
    using AddRecords_emit [OF writing_new_Writer [OF empty_file(1), of 0], of "[[1]]"]
    by (auto simp: new_Writer_def empty_file emit_one_block kHeaderSize_def)
  obtain w' where "AddRecord w [2, 3] = (OK, w')" "length (contents (dest w')) = 17"
    using add_loop_emit [OF w(3), of "[2, 3]" True] w(2,4) by (auto simp: AddRecord_def emit_one_block kHeaderSize_def)
  with w show "length (contents (dest (snd (AddRecords (new_Writer empty_file 0) [[1]])))) = 8"
    "length (contents (dest (snd (AddRecord (snd (AddRecords (new_Writer empty_file 0) [[1]])) [2, 3])))) = 17" by simp_all
qed

theorem log_crash_safe_witness:
  "let w = snd (AddRecords (new_Writer empty_file 0) [[1]]); w' = snd (AddRecord w [2, 3])
   in \<exists>r. ReadRecords (Suc (length [[1 :: byte]])) (new_Reader (file_with (take 12 (contents (dest w')))) True True 0) =
      (map Some [[1]] @ [None], r) \<and> reports r = []"
  unfolding Let_def
  by (rule log_crash_safe [OF empty_file prod.collapse [symmetric, of "AddRecords (new_Writer empty_file 0) [[1]]"]
      prod.collapse [symmetric, of "AddRecord (snd (AddRecords (new_Writer empty_file 0) [[1]])) [2, 3]"] file_with])
    (simp_all only: two_records)

subsection \<open>Damaged and foreign records\<close>

text \<open>
  (C35) Damage is detected: with checksums on, a record whose type and length are intact but whose payload was
  changed within four consecutive bytes is never returned; the rest of the buffer is dropped and, when
  there is a reporter, the drop is reported.
\<close>

theorem damaged_payload_rejected:
  assumes "buffer r = EncodeFixed32 (Mask (crc32c 0 (ucast t # a @ x @ c))) @
      [of_nat (length (a @ x @ c) mod 256), of_nat (length (a @ x @ c) div 256), ucast t] @ (a @ y @ c) @ B"
    and "length x = length y" "length x \<le> 4" "x \<noteq> y" "length (a @ x @ c) < 65536"
    and "checksum r" "reporter r" "initial_offset r = 0"
  shows "\<exists>r'. ReadPhysicalRecord r res = (kBadRecord, res, r') \<and> buffer r' = [] \<and>
    reports r' = reports r @ [(buffer_size r, Corruption ''checksum mismatch'')]"
proof -
  let ?d = "a @ x @ c" and ?e = "a @ y @ c"
  have b: "buffer r = bytes_of 4 (Mask (crc32c 0 (ucast t # ?d))) @ of_nat (length ?d mod 256) # of_nat (length ?d div 256) # ucast t # ?e @ B"
    using assms(1) by (simp only: EncodeFixed32_bytes append.simps append_assoc)
  have le: "length ?e = length ?d" using assms(2) by simp
  have "unat (buffer r ! 4) + 256 * unat (buffer r ! 5) = length ?d"
  proof -
    have "unat (of_nat (length ?d div 256) :: byte) = length ?d div 256"
      using assms(5) by (intro unat_of_nat_small) (simp add: less_mult_imp_div_less)
    moreover have "unat (of_nat (length ?d mod 256) :: byte) = length ?d mod 256"
      by (intro unat_of_nat_small) simp
    moreover have "buffer r ! 4 = of_nat (length ?d mod 256)" "buffer r ! 5 = of_nat (length ?d div 256)"
      unfolding b by (simp_all add: nth_append del: of_nat_mod length_append)
    ultimately show ?thesis by (simp only:) simp
  qed
  note len = this
  have "drop 6 (buffer r) = ucast t # ?e @ B" unfolding b by simp
  then have cb: "take (1 + length ?d) (drop 6 (buffer r)) = ucast t # ?e" using le by simp
  have hb: "word_of (take 4 (buffer r)) = Mask (crc32c 0 (ucast t # ?d))"
    unfolding b by (simp add: word_of_bytes_of_full)
  have "crc32c 0 (ucast t # ?d) \<noteq> crc32c 0 (ucast t # ?e)"
    using burst_changes [OF assms(2-4), of 0 "ucast t # a" c] by simp
  moreover have "kHeaderSize + length ?d \<le> length (buffer r)" unfolding b using le by (simp add: kHeaderSize_def)
  moreover have "buffer r ! 6 = ucast t" unfolding b by (simp add: nth_append)
  moreover have "length ?d \<noteq> 0" using assms(2,4) by auto
  ultimately show ?thesis
    using assms(6-8) cb hb len
    by (simp add: ReadPhysicalRecord.simps [of r] parse_record_def Let_def kZeroType_def ReportCorruption_def ReportDrop_def
        del: length_append)
qed

theorem damaged_payload_rejected_witness:
  "let r = (new_Reader (file_with []) True True 0)\<lparr>buffer :=
       EncodeFixed32 (Mask (crc32c 0 (ucast kFullType # [7] @ [1] @ [8]))) @
       [of_nat (length [7, 1, 8 :: byte] mod 256), of_nat (length [7, 1, 8 :: byte] div 256), ucast kFullType] @ ([7] @ [2] @ [8]) @ []\<rparr>
   in \<exists>r'. ReadPhysicalRecord r [] = (kBadRecord, [], r') \<and> buffer r' = [] \<and>
     reports r' = reports r @ [(buffer_size r, Corruption ''checksum mismatch'')]"
  unfolding Let_def
  by (rule damaged_payload_rejected [where a = "[7]" and x = "[1]" and y = "[2]" and c = "[8]" and B = "[]" and t = kFullType])
    (simp_all add: new_Reader_def)

text \<open>
  The type byte of a record is not checked against the values the reader uses for its own results: a
  record of type 5 with a right checksum ends the log without a report, whatever follows it, although
  an unknown type is otherwise reported and skipped.
\<close>

theorem type_five_ends_log:
  assumes "buffer r = phys 5 d @ B" "length d < 65536" "initial_offset r = 0" "\<not> resyncing r"
  shows "ReadRecord r = (None, r\<lparr>buffer := B\<rparr>)"
proof -
  have "parse_record r res = (5, d, r\<lparr>buffer := B\<rparr>)" for res
    using parse_record_phys [OF assms(1,2) _ _ assms(3)] by simp
  moreover have "kHeaderSize \<le> length (buffer r)" using assms(1) by simp
  ultimately have "ReadPhysicalRecord r res = (5, d, r\<lparr>buffer := B\<rparr>)" for res
    by (simp add: ReadPhysicalRecord.simps [of r])
  from read_loop_step [OF this] assms(3,4) show ?thesis
    by (simp add: ReadRecord_def dispatch_def Let_def record_types)
qed

theorem type_five_ends_log_witness:
  "let r = (new_Reader (file_with []) True True 0)\<lparr>buffer := phys 5 [1] @ phys kFullType [2]\<rparr>
   in ReadRecord r = (None, r\<lparr>buffer := phys kFullType [2]\<rparr>)"
  unfolding Let_def by (rule type_five_ends_log [where d = "[1]"]) (simp_all add: new_Reader_def)

text \<open>
  (C38) The outcome of writing the trailer of a block is not looked at: when that append fails and the later ones
  succeed, the record is acknowledged although it stands where the reader takes it for the trailer.
\<close>

theorem lost_trailer_is_acknowledged:
  assumes "block_offset w = kBlockSize - k" "0 < k" "k < kHeaderSize" "length data \<le> 100" "type_crc w = InitTypeCrc"
    and "append_outcome (dest w) (file_calls (dest w)) = Some 0"
    and "reliable ((dest w)\<lparr>file_calls := Suc (file_calls (dest w))\<rparr>)"
  shows "\<exists>w'. AddRecord w data = (OK, w') \<and> contents (dest w') = contents (dest w) @ phys kFullType data"
proof -
  let ?v = "switch_block w"
  have k: "kBlockSize - block_offset w = k"
    using assms(1,3) by (simp add: kBlockSize_def kHeaderSize_def)
  then have v: "?v = w\<lparr>dest := (dest w)\<lparr>file_calls := Suc (file_calls (dest w))\<rparr>, block_offset := 0\<rparr>"
    using assms(2,3,6) by (simp add: switch_block_def file_Append_def)
  then have "writing ?v" "block_offset ?v = 0" using assms(5,7) by (simp_all add: writing_def)
  moreover from this(2) have "switch_block ?v = ?v"
    by (simp add: switch_block_def [of ?v] kBlockSize_def kHeaderSize_def)
  then have "add_loop w data True = add_loop ?v data True"
    by (simp only: add_loop.simps [of w] add_loop.simps [of ?v])
  ultimately show ?thesis
    using add_loop_emit [of ?v data True] v assms(4) by (auto simp: AddRecord_def emit_one_block)
qed

theorem lost_trailer_is_acknowledged_witness:
  "let w = (new_Writer (empty_file\<lparr>append_outcome := (\<lambda>i. if i = 0 then Some 0 else None)\<rparr>) 0)\<lparr>block_offset := kBlockSize - 3\<rparr>
   in \<exists>w'. AddRecord w [9] = (OK, w') \<and> contents (dest w') = contents (dest w) @ phys kFullType [9]"
  unfolding Let_def
  by (rule lost_trailer_is_acknowledged [where k = 3])
    (simp_all add: new_Writer_def empty_file_def reliable_def kHeaderSize_def)

end
