(* ===== verification/Ldb_Format.thy ===== *)
theory Ldb_Format
  imports Ldb_Coding "HOL-Library.List_Lexorder"
begin

text \<open>
  Keys of LevelDB: the bytewise comparator (\<^verbatim>\<open>util/comparator.cc\<close>, \<^verbatim>\<open>Slice::compare\<close>) and the internal keys
  of \<^verbatim>\<open>db/dbformat.cc\<close>, which append a sequence number and a value type to a user key.  What the
  documentation promises of a comparator is a locale; it is interpreted by the bytewise comparator, and
  from every user comparator it follows for the comparator of internal keys.
\<close>

subsection \<open>Bytewise comparison\<close>

text \<open>Only the sign of \<^verbatim>\<open>memcmp\<close> is specified and used.\<close>

fun memcmp :: "byte list \<Rightarrow> byte list \<Rightarrow> nat \<Rightarrow> int" where
  "memcmp (a # as) (b # bs) (Suc n) = (if a < b then -1 else if a > b then 1 else memcmp as bs n)"
| "memcmp _ _ _ = 0"

definition Slice_compare :: "byte list \<Rightarrow> byte list \<Rightarrow> int" where
  "Slice_compare a b =
     (let min_len = (if length a < length b then length a else length b);
          r = memcmp a b min_len
      in if r = 0
         then (if length a < length b then -1 else if length a > length b then 1 else r)
         else r)"

definition BytewiseCompare :: "byte list \<Rightarrow> byte list \<Rightarrow> int" where
  "BytewiseCompare a b = Slice_compare a b"

fun common_prefix :: "byte list \<Rightarrow> byte list \<Rightarrow> nat" where
  "common_prefix (a # as) (b # bs) = (if a = b then Suc (common_prefix as bs) else 0)"
| "common_prefix _ _ = 0"

definition BytewiseFindShortestSeparator :: "byte list \<Rightarrow> byte list \<Rightarrow> byte list" where
  "BytewiseFindShortestSeparator start limit =
     (let min_length = min (length start) (length limit);
          diff_index = common_prefix start limit
      in if diff_index \<ge> min_length then start
         else (let diff_byte = start ! diff_index in
               if diff_byte < 0xff \<and> unat diff_byte + 1 < unat (limit ! diff_index)
               then take (diff_index + 1) (start[diff_index := diff_byte + 1])
               else start))"

fun BytewiseFindShortSuccessor :: "byte list \<Rightarrow> byte list" where
  "BytewiseFindShortSuccessor [] = []"
| "BytewiseFindShortSuccessor (b # key) =
     (if b \<noteq> 0xff then [b + 1] else b # BytewiseFindShortSuccessor key)"

subsection \<open>What a comparator promises\<close>

text \<open>A total preorder on the valid keys, as a three-way comparison.\<close>

locale comparator =
  fixes valid :: "'k \<Rightarrow> bool" and cmp :: "'k \<Rightarrow> 'k \<Rightarrow> int"
  assumes cmp_refl: "valid a \<Longrightarrow> cmp a a = 0"
    and cmp_swap: "valid a \<Longrightarrow> valid b \<Longrightarrow> cmp b a < 0 \<longleftrightarrow> cmp a b > 0"
    and cmp_trans: "valid a \<Longrightarrow> valid b \<Longrightarrow> valid c \<Longrightarrow> cmp a b \<le> 0 \<Longrightarrow> cmp b c \<le> 0 \<Longrightarrow> cmp a c \<le> 0"
begin

lemma cmp_flip: "valid a \<Longrightarrow> valid b \<Longrightarrow> cmp a b \<ge> 0 \<longleftrightarrow> cmp b a \<le> 0"
  using cmp_swap [of b a] cmp_swap [of a b] by linarith

lemma le_less_trans: "valid a \<Longrightarrow> valid b \<Longrightarrow> valid c \<Longrightarrow> cmp a b \<le> 0 \<Longrightarrow> cmp b c < 0 \<Longrightarrow> cmp a c < 0"
  using cmp_trans [of c a b] cmp_flip [of a c] cmp_swap [of c b] by linarith

lemma less_le_trans: "valid a \<Longrightarrow> valid b \<Longrightarrow> valid c \<Longrightarrow> cmp a b < 0 \<Longrightarrow> cmp b c \<le> 0 \<Longrightarrow> cmp a c < 0"
  using cmp_trans [of b c a] cmp_flip [of a c] cmp_swap [of b a] by linarith

lemma less_trans: "valid a \<Longrightarrow> valid b \<Longrightarrow> valid c \<Longrightarrow> cmp a b < 0 \<Longrightarrow> cmp b c < 0 \<Longrightarrow> cmp a c < 0"
  using le_less_trans [of a b c] by simp

end

text \<open>
  A user comparator is a total order, and shortens keys as documented: a separator of \<open>start < limit\<close> lies
  in \<open>[start, limit)\<close>, any other \<open>start\<close> stays as it is, and a successor is not less than its key.
\<close>

locale user_comparator = comparator "\<lambda>_. True" cmp
  for cmp :: "byte list \<Rightarrow> byte list \<Rightarrow> int" +
  fixes separator :: "byte list \<Rightarrow> byte list \<Rightarrow> byte list" and successor :: "byte list \<Rightarrow> byte list"
  assumes cmp_eq: "cmp a b = 0 \<Longrightarrow> a = b"
    and separator_between: "cmp start limit < 0 \<Longrightarrow> cmp start (separator start limit) \<le> 0 \<and> cmp (separator start limit) limit < 0"
    and separator_same: "\<not> cmp start limit < 0 \<Longrightarrow> separator start limit = start"
    and successor_ge: "cmp key (successor key) \<le> 0"

subsection \<open>The bytewise comparator\<close>

lemma memcmp_order:
  "memcmp a b (min (length a) (length b)) = 0 \<and> length a < length b \<or> memcmp a b (min (length a) (length b)) < 0 \<longleftrightarrow> a < b"
  "memcmp a b (min (length a) (length b)) = 0 \<and> length a = length b \<longleftrightarrow> a = b"
  by (induction a b rule: list_induct2') auto

lemma BytewiseCompare_order:
  "BytewiseCompare a b < 0 \<longleftrightarrow> a < b" "BytewiseCompare a b = 0 \<longleftrightarrow> a = b" "BytewiseCompare a b > 0 \<longleftrightarrow> b < a"
    "BytewiseCompare a b \<le> 0 \<longleftrightarrow> a \<le> b"
proof -
  show lt: "BytewiseCompare a b < 0 \<longleftrightarrow> a < b" and eq: "BytewiseCompare a b = 0 \<longleftrightarrow> a = b" for a b
    using memcmp_order [of a b] by (auto simp: BytewiseCompare_def Slice_compare_def Let_def min_def not_less split: if_splits)
  show "BytewiseCompare a b > 0 \<longleftrightarrow> b < a" "BytewiseCompare a b \<le> 0 \<longleftrightarrow> a \<le> b"
    using lt [of a b] eq [of a b] by (auto simp: not_less)
qed

text \<open>The position where two strings differ splits both of them.\<close>

lemma common_prefix_split:
  assumes "common_prefix a b < min (length a) (length b)"
  obtains p x y as bs where "a = p @ x # as" "b = p @ y # bs" "length p = common_prefix a b" "x \<noteq> y"
  using assms
proof (induction a b arbitrary: thesis rule: common_prefix.induct)
  case (1 a as b bs)
  show ?case
  proof (cases "a = b")
    case True
    then have less: "common_prefix as bs < min (length as) (length bs)" using "1.prems"(2) by simp
    show ?thesis
    proof (rule "1.IH" [OF True _ less])
      fix p x cs y ds
      assume "as = p @ x # cs" "bs = p @ y # ds" "length p = common_prefix as bs" "x \<noteq> y"
      then show thesis using "1.prems"(1) [of "a # p" x cs y ds] True by simp
    qed
  next
    case False
    then show ?thesis using "1.prems"(1) [of "[]" a as b bs] by simp
  qed
qed simp_all

lemma less_append_same [simp]: "(p @ a < p @ b) = (a < b)" "(p @ a \<le> p @ b) = (a \<le> b)" for p :: "byte list"
  by (induction p) auto

lemma next_byte: "x < 0xff \<Longrightarrow> unat (x + 1) = unat x + 1" for x :: byte
  by (rule unat_plus_simple [THEN iffD1, THEN trans]) (auto simp: word_le_nat_alt word_less_nat_alt unat_word_ariths)

lemma BytewiseFindShortestSeparator_cases:
  "BytewiseFindShortestSeparator start limit = start \<or>
   (\<exists>p x y as bs. start = p @ x # as \<and> limit = p @ y # bs \<and> x < x + 1 \<and> x + 1 < y \<and>
      BytewiseFindShortestSeparator start limit = p @ [x + 1])"
proof (cases "common_prefix start limit < min (length start) (length limit)")
  case True
  then obtain p x y as bs where s: "start = p @ x # as" "limit = p @ y # bs" "length p = common_prefix start limit" "x \<noteq> y"
    by (rule common_prefix_split)
  show ?thesis
  proof (cases "x < 0xff \<and> unat x + 1 < unat y")
    case t: True
    have "BytewiseFindShortestSeparator start limit = p @ [x + 1]"
      using True t s by (simp add: BytewiseFindShortestSeparator_def Let_def nth_append list_update_append)
    moreover have "x < x + 1" "x + 1 < y" using t next_byte [of x] by (simp_all add: word_less_nat_alt)
    ultimately show ?thesis using s by blast
  next
    case False
    then have "BytewiseFindShortestSeparator start limit = start"
      using s True by (auto simp: BytewiseFindShortestSeparator_def Let_def nth_append)
    then show ?thesis ..
  qed
next
  case False
  then have "BytewiseFindShortestSeparator start limit = start"
    by (simp add: BytewiseFindShortestSeparator_def Let_def del: min_less_iff_conj)
  then show ?thesis ..
qed

lemma BytewiseFindShortSuccessor_ge: "key \<le> BytewiseFindShortSuccessor key"
proof (induction key)
  case (Cons b key)
  have "b < b + 1" if "b \<noteq> 0xff"
  proof -
    have "unat b \<noteq> unat (0xff :: byte)" using that by (metis word_unat_eq_iff)
    then have "b < 0xff" using unat_less_2p [of b] by (simp add: word_less_nat_alt)
    then show ?thesis using next_byte [of b] by (simp add: word_less_nat_alt)
  qed
  then show ?case using Cons by auto
qed simp

interpretation bytewise: user_comparator BytewiseCompare BytewiseFindShortestSeparator BytewiseFindShortSuccessor
proof (unfold_locales, unfold BytewiseCompare_order, goal_cases)
  case (5 start limit)
  then show ?case using BytewiseFindShortestSeparator_cases [of start limit] by auto
next
  case (6 start limit)
  then show ?case using BytewiseFindShortestSeparator_cases [of start limit] by auto
qed (auto simp: BytewiseFindShortSuccessor_ge)

subsection \<open>Internal keys\<close>

datatype ValueType = kTypeDeletion | kTypeValue

definition value_type_code :: "ValueType \<Rightarrow> byte" where
  "value_type_code t = (case t of kTypeDeletion \<Rightarrow> 0 | kTypeValue \<Rightarrow> 1)"

definition kValueTypeForSeek :: ValueType where "kValueTypeForSeek = kTypeValue"

type_synonym SequenceNumber = uint64

definition kMaxSequenceNumber :: SequenceNumber where "kMaxSequenceNumber = push_bit 56 1 - 1"

record ParsedInternalKey =
  user_key :: "byte list"
  sequence :: SequenceNumber
  key_type :: ValueType

definition PackSequenceAndType :: "SequenceNumber \<Rightarrow> ValueType \<Rightarrow> uint64" where
  "PackSequenceAndType seq t = push_bit 8 seq OR ucast (value_type_code t)"

definition InternalKeyEncodingLength :: "ParsedInternalKey \<Rightarrow> nat" where
  "InternalKeyEncodingLength key = length (user_key key) + 8"

definition AppendInternalKey :: "byte list \<Rightarrow> ParsedInternalKey \<Rightarrow> byte list" where
  "AppendInternalKey result key =
     PutFixed64 (result @ user_key key) (PackSequenceAndType (sequence key) (key_type key))"

definition ExtractUserKey :: "byte list \<Rightarrow> byte list" where
  "ExtractUserKey internal_key = take (length internal_key - 8) internal_key"

text \<open>\<^verbatim>\<open>DecodeFixed64\<close> at the last eight bytes, which every internal key has.\<close>

definition key_number :: "byte list \<Rightarrow> uint64" where
  "key_number internal_key =
     (case DecodeFixed64 (drop (length internal_key - 8) internal_key) of Some num \<Rightarrow> num | None \<Rightarrow> 0)"

definition ParseInternalKey :: "byte list \<Rightarrow> ParsedInternalKey option" where
  "ParseInternalKey internal_key =
     (if length internal_key < 8 then None
      else (let num = key_number internal_key; c = ucast (num AND 0xff) :: byte in
            if c = value_type_code kTypeDeletion
            then Some \<lparr>user_key = ExtractUserKey internal_key, sequence = drop_bit 8 num, key_type = kTypeDeletion\<rparr>
            else if c = value_type_code kTypeValue
            then Some \<lparr>user_key = ExtractUserKey internal_key, sequence = drop_bit 8 num, key_type = kTypeValue\<rparr>
            else None))"

definition InternalCompare :: "(byte list \<Rightarrow> byte list \<Rightarrow> int) \<Rightarrow> byte list \<Rightarrow> byte list \<Rightarrow> int" where
  "InternalCompare cmp akey bkey =
     (let r = cmp (ExtractUserKey akey) (ExtractUserKey bkey) in
      if r = 0
      then (let anum = key_number akey; bnum = key_number bkey in
            if anum > bnum then -1 else if anum < bnum then 1 else r)
      else r)"

definition InternalFindShortestSeparator ::
  "(byte list \<Rightarrow> byte list \<Rightarrow> int) \<Rightarrow> (byte list \<Rightarrow> byte list \<Rightarrow> byte list) \<Rightarrow> byte list \<Rightarrow> byte list \<Rightarrow> byte list" where
  "InternalFindShortestSeparator cmp sep start limit =
     (let user_start = ExtractUserKey start; user_limit = ExtractUserKey limit; tmp = sep user_start user_limit in
      if length tmp < length user_start \<and> cmp user_start tmp < 0
      then PutFixed64 tmp (PackSequenceAndType kMaxSequenceNumber kValueTypeForSeek)
      else start)"

definition InternalFindShortSuccessor ::
  "(byte list \<Rightarrow> byte list \<Rightarrow> int) \<Rightarrow> (byte list \<Rightarrow> byte list) \<Rightarrow> byte list \<Rightarrow> byte list" where
  "InternalFindShortSuccessor cmp succ key =
     (let user_key = ExtractUserKey key; tmp = succ user_key in
      if length tmp < length user_key \<and> cmp user_key tmp < 0
      then PutFixed64 tmp (PackSequenceAndType kMaxSequenceNumber kValueTypeForSeek)
      else key)"

text \<open>The array of a \<^verbatim>\<open>LookupKey\<close>, with the position of \<^verbatim>\<open>kstart_\<close> in it.\<close>

record LookupKey =
  start_bytes :: "byte list"
  kstart :: nat

definition new_LookupKey :: "byte list \<Rightarrow> SequenceNumber \<Rightarrow> LookupKey" where
  "new_LookupKey ukey s =
     (let klength = EncodeVarint32 (of_nat (length ukey + 8)) in
      \<lparr>start_bytes = klength @ ukey @ EncodeFixed64 (PackSequenceAndType s kValueTypeForSeek), kstart = length klength\<rparr>)"

definition lookup_memtable_key :: "LookupKey \<Rightarrow> byte list" where
  "lookup_memtable_key k = start_bytes k"

definition lookup_internal_key :: "LookupKey \<Rightarrow> byte list" where
  "lookup_internal_key k = drop (kstart k) (start_bytes k)"

definition lookup_user_key :: "LookupKey \<Rightarrow> byte list" where
  "lookup_user_key k = take (length (start_bytes k) - kstart k - 8) (drop (kstart k) (start_bytes k))"

subsection \<open>The order of internal keys\<close>

lemma length_EncodeFixed64 [simp]: "length (EncodeFixed64 v) = 8"
  by (simp add: EncodeFixed64_bytes)

lemma DecodeFixed64_Encode: "DecodeFixed64 (EncodeFixed64 v @ q) = Some v"
  using fixed64.dec_enc [of v q] by (auto simp: dec_fixed64_def)

lemma internal_key_parts:
  "ExtractUserKey (u @ EncodeFixed64 n) = u" "key_number (u @ EncodeFixed64 n) = n"
  using DecodeFixed64_Encode [of n "[]"] by (simp_all add: ExtractUserKey_def key_number_def)

lemma AppendInternalKey_parts:
  "ExtractUserKey (AppendInternalKey [] k) = user_key k"
  "key_number (AppendInternalKey [] k) = PackSequenceAndType (sequence k) (key_type k)"
  "8 \<le> length (AppendInternalKey [] k)"
  by (simp_all add: AppendInternalKey_def PutFixed64_def internal_key_parts)

lemma PackSequenceAndType_unat:
  assumes "seq \<le> kMaxSequenceNumber"
  shows "unat (PackSequenceAndType seq t) = 256 * unat seq + unat (value_type_code t)"
proof -
  have s: "unat seq < 2 ^ 56" using assms by (simp add: kMaxSequenceNumber_def word_le_nat_alt push_bit_eq_mult)
  have "push_bit 8 seq OR ucast (value_type_code t) = push_bit 8 seq + ucast (value_type_code t)"
    by (rule disjunctive_add [symmetric]) (auto simp: bit_simps dest: bit_imp_le_length)
  moreover have "unat (push_bit 8 seq) = 256 * unat seq"
    using s by (simp add: push_bit_eq_mult unat_word_ariths)
  moreover have "unat (ucast (value_type_code t) :: uint64) = unat (value_type_code t)"
    by (cases t) (simp_all add: value_type_code_def)
  moreover have "256 * unat seq + unat (value_type_code t) < 2 ^ 64"
    using s unat_less_2p [of "value_type_code t"] by simp
  ultimately show ?thesis by (simp add: PackSequenceAndType_def unat_word_ariths)
qed

lemma value_type_code_less: "value_type_code t = value_type_code t' \<longleftrightarrow> t = t'" "unat (value_type_code t) < 2"
  by (cases t; cases t'; simp add: value_type_code_def) (cases t; simp add: value_type_code_def)

lemma PackSequenceAndType_less:
  assumes "seq \<le> kMaxSequenceNumber" "seq' \<le> kMaxSequenceNumber"
  shows "PackSequenceAndType seq t < PackSequenceAndType seq' t' \<longleftrightarrow>
    seq < seq' \<or> seq = seq' \<and> value_type_code t < value_type_code t'"
  using value_type_code_less(2) [of t] value_type_code_less(2) [of t']
  by (auto simp: word_less_nat_alt PackSequenceAndType_unat [OF assms(1)] PackSequenceAndType_unat [OF assms(2)]
      word_unat_eq_iff)

lemma PackSequenceAndType_parts:
  assumes "seq \<le> kMaxSequenceNumber"
  shows "drop_bit 8 (PackSequenceAndType seq t) = seq"
    "(ucast (PackSequenceAndType seq t AND 0xff) :: byte) = value_type_code t"
proof -
  note u = PackSequenceAndType_unat [OF assms, of t]
  have "unat (drop_bit 8 (PackSequenceAndType seq t)) = unat seq"
    using unat_less_2p [of "value_type_code t"] by (simp add: unat_drop_bit u)
  then show "drop_bit 8 (PackSequenceAndType seq t) = seq" by (simp add: word_unat_eq_iff)
  show "(ucast (PackSequenceAndType seq t AND 0xff) :: byte) = value_type_code t"
  proof (rule bit_word_eqI)
    fix n assume "n < LENGTH(8)"
    moreover have "bit (value_type_code t) n \<Longrightarrow> n = 0"
      by (cases t) (simp_all add: value_type_code_def bit_1_iff)
    ultimately show "bit (ucast (PackSequenceAndType seq t AND 0xff) :: byte) n = bit (value_type_code t) n"
      by (auto simp: PackSequenceAndType_def bit_simps)
  qed
qed

lemma ParseInternalKey_Append:
  assumes "sequence k \<le> kMaxSequenceNumber"
  shows "ParseInternalKey (AppendInternalKey [] k) = Some k"
  using AppendInternalKey_parts [of k] PackSequenceAndType_parts [OF assms] value_type_code_less(1)
  by (cases "key_type k") (simp_all add: ParseInternalKey_def Let_def)

context user_comparator
begin

lemma InternalCompare_less:
  "InternalCompare cmp a b < 0 \<longleftrightarrow>
     cmp (ExtractUserKey a) (ExtractUserKey b) < 0 \<or> ExtractUserKey a = ExtractUserKey b \<and> key_number b < key_number a"
  using cmp_eq cmp_refl by (auto simp: InternalCompare_def Let_def)

lemma InternalCompare_greater:
  "InternalCompare cmp a b > 0 \<longleftrightarrow>
     cmp (ExtractUserKey a) (ExtractUserKey b) > 0 \<or> ExtractUserKey a = ExtractUserKey b \<and> key_number a < key_number b"
  using cmp_eq cmp_refl by (auto simp: InternalCompare_def Let_def)

lemma InternalCompare_le:
  "InternalCompare cmp a b \<le> 0 \<longleftrightarrow>
     cmp (ExtractUserKey a) (ExtractUserKey b) < 0 \<or> ExtractUserKey a = ExtractUserKey b \<and> key_number b \<le> key_number a"
  using InternalCompare_greater [of a b] cmp_eq cmp_refl
  by (metis linorder_not_less order_le_less not_less_iff_gr_or_eq)

end

sublocale user_comparator \<subseteq> internal: comparator "\<lambda>k. 8 \<le> length k" "InternalCompare cmp"
proof (unfold_locales, goal_cases)
  case (1 a)
  then show ?case by (simp add: InternalCompare_def cmp_refl)
next
  case (2 a b)
  then show ?case using cmp_swap [where a = "ExtractUserKey a" and b = "ExtractUserKey b"]
    by (auto simp only: InternalCompare_less InternalCompare_greater)
next
  case (3 a b c)
  then show ?case using less_trans [of "ExtractUserKey a" "ExtractUserKey b" "ExtractUserKey c"]
    by (auto simp: InternalCompare_le)
qed

context user_comparator
begin

lemma internal_separator:
  assumes "8 \<le> length start" "8 \<le> length limit" "InternalCompare cmp start limit < 0"
  shows "InternalCompare cmp start (InternalFindShortestSeparator cmp separator start limit) \<le> 0 \<and>
    InternalCompare cmp (InternalFindShortestSeparator cmp separator start limit) limit < 0"
proof -
  let ?us = "ExtractUserKey start" and ?ul = "ExtractUserKey limit"
  let ?tmp = "separator ?us ?ul"
  show ?thesis
  proof (cases "length ?tmp < length ?us \<and> cmp ?us ?tmp < 0")
    case True
    then have "cmp ?us ?ul < 0" using separator_same [of ?us ?ul] by fastforce
    then have "cmp ?tmp ?ul < 0" using separator_between by blast
    with True show ?thesis
      by (simp add: InternalFindShortestSeparator_def Let_def PutFixed64_def InternalCompare_le InternalCompare_less
          internal_key_parts)
  next
    case False
    then have "InternalFindShortestSeparator cmp separator start limit = start"
      by (auto simp: InternalFindShortestSeparator_def Let_def)
    then show ?thesis using assms internal.cmp_refl [of start] by simp
  qed
qed

lemma internal_successor:
  assumes "8 \<le> length key"
  shows "InternalCompare cmp key (InternalFindShortSuccessor cmp successor key) \<le> 0"
  using internal.cmp_refl [OF assms]
  by (auto simp: InternalFindShortSuccessor_def Let_def PutFixed64_def InternalCompare_le internal_key_parts)

end

subsection \<open>Properties\<close>

text \<open>
  Internal keys: a parsed key is what was appended, and the comparator orders internal keys by ascending
  user key and, for the same user key, from the newest to the oldest sequence number, values before
  deletions.
\<close>

theorem internal_keys_ordered:
  assumes "sequence a \<le> kMaxSequenceNumber" "sequence b \<le> kMaxSequenceNumber"
  shows "ParseInternalKey (AppendInternalKey [] a) = Some a \<and>
    length (AppendInternalKey [] a) = InternalKeyEncodingLength a \<and>
    (InternalCompare BytewiseCompare (AppendInternalKey [] a) (AppendInternalKey [] b) < 0 \<longleftrightarrow>
      user_key a < user_key b \<or>
      user_key a = user_key b \<and>
        (sequence a > sequence b \<or>
         sequence a = sequence b \<and> key_type a = kTypeValue \<and> key_type b = kTypeDeletion))"
proof -
  have "value_type_code (key_type b) < value_type_code (key_type a) \<longleftrightarrow> key_type a = kTypeValue \<and> key_type b = kTypeDeletion"
    by (cases "key_type a"; cases "key_type b") (simp_all add: value_type_code_def)
  moreover have "length (AppendInternalKey [] a) = InternalKeyEncodingLength a"
    by (simp add: AppendInternalKey_def PutFixed64_def InternalKeyEncodingLength_def)
  ultimately show ?thesis
    using ParseInternalKey_Append [OF assms(1)]
    by (simp add: bytewise.InternalCompare_less AppendInternalKey_parts PackSequenceAndType_less [OF assms(2,1)]
        BytewiseCompare_order eq_commute [of "sequence b"])
qed

theorem internal_keys_ordered_witness:
  "let a = \<lparr>user_key = [1], sequence = 7, key_type = kTypeDeletion\<rparr>; b = \<lparr>user_key = [1], sequence = 5, key_type = kTypeValue\<rparr>
   in ParseInternalKey (AppendInternalKey [] a) = Some a \<and>
      InternalCompare BytewiseCompare (AppendInternalKey [] a) (AppendInternalKey [] b) < 0"
  using internal_keys_ordered [of "\<lparr>user_key = [1], sequence = 7, key_type = kTypeDeletion\<rparr>"
      "\<lparr>user_key = [1], sequence = 5, key_type = kTypeValue\<rparr>"]
  by (simp add: kMaxSequenceNumber_def push_bit_eq_mult)

text \<open>
  Shortened keys keep their place: between two internal keys \<open>start < limit\<close>, the separator that goes into an
  index lies in \<open>[start, limit)\<close>, and the successor of a key is not less than the key.
\<close>

theorem separators_between:
  assumes "8 \<le> length start" "8 \<le> length limit" "InternalCompare BytewiseCompare start limit < 0"
  shows "InternalCompare BytewiseCompare start
        (InternalFindShortestSeparator BytewiseCompare BytewiseFindShortestSeparator start limit) \<le> 0 \<and>
      InternalCompare BytewiseCompare
        (InternalFindShortestSeparator BytewiseCompare BytewiseFindShortestSeparator start limit) limit < 0 \<and>
      InternalCompare BytewiseCompare start
        (InternalFindShortSuccessor BytewiseCompare BytewiseFindShortSuccessor start) \<le> 0"
  using bytewise.internal_separator [OF assms] bytewise.internal_successor [OF assms(1)] by blast

theorem separators_between_witness:
  "let start = PutFixed64 [1, 2, 3] 9; limit = PutFixed64 [1, 7] 9;
       sep = InternalFindShortestSeparator BytewiseCompare BytewiseFindShortestSeparator start limit
   in InternalCompare BytewiseCompare start sep \<le> 0 \<and> InternalCompare BytewiseCompare sep limit < 0"
  using separators_between [of "PutFixed64 [1, 2, 3] 9" "PutFixed64 [1, 7] 9"]
  by (simp add: PutFixed64_def bytewise.InternalCompare_less internal_key_parts(1) [of "[1, 2, 3]", simplified]
      internal_key_parts(1) [of "[1, 7]", simplified] BytewiseCompare_order)

end
