(* ===== verification/Ldb_Batch.thy ===== *)
theory Ldb_Batch
  imports Ldb_Format Ldb_Env
begin

text \<open>
  Write batches (\<^verbatim>\<open>db/write_batch.cc\<close>): a batch is its string \<^verbatim>\<open>rep_\<close>, a header with a sequence number and a count
  and one record per operation.  The handler of \<^verbatim>\<open>Iterate\<close> is a pair of functions on a state; they give
  \<^const>\<open>None\<close> when the behaviour of the handler is undefined.  The \<^verbatim>\<open>int\<close>s that count operations are 32-bit words.
\<close>

subsection \<open>Batches\<close>

definition kHeader :: nat where "kHeader = 12"

type_synonym WriteBatch = "byte list"

definition Batch_Clear :: WriteBatch where
  "Batch_Clear = replicate kHeader 0"

definition ApproximateSize :: "WriteBatch \<Rightarrow> nat" where
  "ApproximateSize b = length b"

text \<open>
  The count is an \<^verbatim>\<open>int\<close> in the code and is stored as 32 bits; here it is the 32-bit word.  The two agree for fewer than \<open>2^31\<close> operations;
  beyond that the signed sums of the code are undefined, and the wrapping ones of the model are one of their possible outcomes.
\<close>

definition Batch_Count :: "WriteBatch \<Rightarrow> uint32" where
  "Batch_Count b = (case DecodeFixed32 (drop 8 b) of Some n \<Rightarrow> n | None \<Rightarrow> 0)"

definition SetCount :: "WriteBatch \<Rightarrow> uint32 \<Rightarrow> WriteBatch" where
  "SetCount b n = take 8 b @ EncodeFixed32 n @ drop (8 + 4) b"

definition Batch_Sequence :: "WriteBatch \<Rightarrow> SequenceNumber" where
  "Batch_Sequence b = (case DecodeFixed64 b of Some s \<Rightarrow> s | None \<Rightarrow> 0)"

definition SetSequence :: "WriteBatch \<Rightarrow> SequenceNumber \<Rightarrow> WriteBatch" where
  "SetSequence b seq = EncodeFixed64 seq @ drop 8 b"

definition Batch_Put :: "WriteBatch \<Rightarrow> byte list \<Rightarrow> byte list \<Rightarrow> WriteBatch" where
  "Batch_Put b key val =
     (let b = SetCount b (Batch_Count b + 1);
          b = b @ [value_type_code kTypeValue];
          b = PutLengthPrefixedSlice b key
      in PutLengthPrefixedSlice b val)"

definition Batch_Delete :: "WriteBatch \<Rightarrow> byte list \<Rightarrow> WriteBatch" where
  "Batch_Delete b key =
     (let b = SetCount b (Batch_Count b + 1);
          b = b @ [value_type_code kTypeDeletion]
      in PutLengthPrefixedSlice b key)"

definition Batch_Append :: "WriteBatch \<Rightarrow> WriteBatch \<Rightarrow> WriteBatch" where
  "Batch_Append dst src = SetCount dst (Batch_Count dst + Batch_Count src) @ drop kHeader src"

definition SetContents :: "byte list \<Rightarrow> WriteBatch" where
  "SetContents rep = rep"

subsection \<open>Iteration\<close>

function iterate_loop ::
  "('s \<Rightarrow> byte list \<Rightarrow> byte list \<Rightarrow> 's option) \<Rightarrow> ('s \<Rightarrow> byte list \<Rightarrow> 's option) \<Rightarrow>
   byte list \<Rightarrow> uint32 \<Rightarrow> 's \<Rightarrow> (Status \<times> uint32 \<times> 's) option" where
  "iterate_loop put del input found st =
     (case input of
        [] \<Rightarrow> Some (OK, found, st)
      | tag # input \<Rightarrow>
          (let found = found + 1 in
           if tag = value_type_code kTypeValue
           then (case GetLengthPrefixedSlice input of
                   (Some key, input) \<Rightarrow>
                     (case GetLengthPrefixedSlice input of
                        (Some val, input) \<Rightarrow> do { st \<leftarrow> put st key val; iterate_loop put del input found st }
                      | (None, _) \<Rightarrow> Some (Corruption ''bad WriteBatch Put'', found, st))
                 | (None, _) \<Rightarrow> Some (Corruption ''bad WriteBatch Put'', found, st))
           else if tag = value_type_code kTypeDeletion
           then (case GetLengthPrefixedSlice input of
                   (Some key, input) \<Rightarrow> do { st \<leftarrow> del st key; iterate_loop put del input found st }
                 | (None, _) \<Rightarrow> Some (Corruption ''bad WriteBatch Delete'', found, st))
           else Some (Corruption ''unknown WriteBatch tag'', found, st)))"
  by pat_completeness auto
termination
  by (relation "measure (\<lambda>(put, del, input, found, st). length input)")
    (auto simp: le_imp_less_Suc dest!: sym [where t = "GetLengthPrefixedSlice _"] GetLengthPrefixedSlice_le)

declare iterate_loop.simps [simp del]

definition Iterate ::
  "('s \<Rightarrow> byte list \<Rightarrow> byte list \<Rightarrow> 's option) \<Rightarrow> ('s \<Rightarrow> byte list \<Rightarrow> 's option) \<Rightarrow> WriteBatch \<Rightarrow> 's \<Rightarrow>
   (Status \<times> 's) option" where
  "Iterate put del b st =
     (if length b < kHeader then Some (Corruption ''malformed WriteBatch (too small)'', st)
      else do {
        (s, found, st) \<leftarrow> iterate_loop put del (drop kHeader b) 0 st;
        if s \<noteq> OK then Some (s, st)
        else if found \<noteq> Batch_Count b then Some (Corruption ''WriteBatch has wrong count'', st)
        else Some (OK, st)
      })"

subsection \<open>The operations of a batch\<close>

datatype batch_op = PutOp "byte list" "byte list" | DeleteOp "byte list"

fun op_fits :: "batch_op \<Rightarrow> bool" where
  "op_fits (PutOp k v) \<longleftrightarrow> slice_fits k \<and> slice_fits v"
| "op_fits (DeleteOp k) \<longleftrightarrow> slice_fits k"

fun op_bytes :: "batch_op \<Rightarrow> byte list" where
  "op_bytes (PutOp k v) = value_type_code kTypeValue # PutLengthPrefixedSlice [] k @ PutLengthPrefixedSlice [] v"
| "op_bytes (DeleteOp k) = value_type_code kTypeDeletion # PutLengthPrefixedSlice [] k"

definition batch_of :: "SequenceNumber \<Rightarrow> batch_op list \<Rightarrow> WriteBatch" where
  "batch_of seq ops = EncodeFixed64 seq @ EncodeFixed32 (of_nat (length ops)) @ concat (map op_bytes ops)"

fun add_op :: "WriteBatch \<Rightarrow> batch_op \<Rightarrow> WriteBatch" where
  "add_op b (PutOp k v) = Batch_Put b k v"
| "add_op b (DeleteOp k) = Batch_Delete b k"

fun handle ::
  "('s \<Rightarrow> byte list \<Rightarrow> byte list \<Rightarrow> 's option) \<Rightarrow> ('s \<Rightarrow> byte list \<Rightarrow> 's option) \<Rightarrow> 's \<Rightarrow> batch_op \<Rightarrow> 's option" where
  "handle put del st (PutOp k v) = put st k v"
| "handle put del st (DeleteOp k) = del st k"

primrec handle_all ::
  "('s \<Rightarrow> byte list \<Rightarrow> byte list \<Rightarrow> 's option) \<Rightarrow> ('s \<Rightarrow> byte list \<Rightarrow> 's option) \<Rightarrow> batch_op list \<Rightarrow> 's \<Rightarrow> 's option" where
  "handle_all put del [] st = Some st"
| "handle_all put del (x # xs) st = do { st \<leftarrow> handle put del st x; handle_all put del xs st }"

lemma length_EncodeFixed32 [simp]: "length (EncodeFixed32 v) = 4"
  by (simp add: EncodeFixed32_bytes)

lemma batch_header:
  "Batch_Sequence (batch_of seq ops) = seq" "Batch_Count (batch_of seq ops) = of_nat (length ops)"
  "SetCount (batch_of seq ops) n = EncodeFixed64 seq @ EncodeFixed32 n @ concat (map op_bytes ops)"
  "SetSequence (batch_of seq ops) seq' = batch_of seq' ops" "kHeader \<le> length (batch_of seq ops)"
  "drop kHeader (batch_of seq ops) = concat (map op_bytes ops)"
  by (simp_all add: batch_of_def Batch_Sequence_def Batch_Count_def SetCount_def SetSequence_def kHeader_def
      DecodeFixed64_Encode DecodeFixed32_Encode)

lemma PutLengthPrefixedSlice_append: "PutLengthPrefixedSlice b s = b @ PutLengthPrefixedSlice [] s"
  by (simp add: PutLengthPrefixedSlice_def PutVarint32_def)

lemma batch_add: "add_op (batch_of seq ops) x = batch_of seq (ops @ [x])"
  by (cases x) (simp_all add: Batch_Put_def Batch_Delete_def Let_def batch_header PutLengthPrefixedSlice_append [of "_ @ _"]
      PutLengthPrefixedSlice_append [of "_ # _"] batch_of_def [of seq "_ @ _"] add.commute)

lemma batch_Clear: "Batch_Clear = batch_of 0 []"
  by (simp add: Batch_Clear_def batch_of_def kHeader_def EncodeFixed64_bytes EncodeFixed32_bytes numeral_eq_Suc)

lemma batch_build: "foldl add_op (batch_of seq ops) ops' = batch_of seq (ops @ ops')"
  by (induction ops' arbitrary: ops) (simp_all add: batch_add)

lemma batch_append: "Batch_Append (batch_of seq ops) (batch_of seq' ops') = batch_of seq (ops @ ops')"
  by (simp add: Batch_Append_def batch_header batch_of_def [of seq "_ @ _"])

text \<open>Well-formed records are handled one after the other, whatever follows them.\<close>

lemma iterate_loop_ops:
  assumes "list_all op_fits ops"
  shows "iterate_loop put del (concat (map op_bytes ops) @ q) found st =
    do { st \<leftarrow> handle_all put del ops st; iterate_loop put del q (found + of_nat (length ops)) st }"
  using assms
proof (induction ops arbitrary: found st)
  case (Cons x xs)
  have "iterate_loop put del (op_bytes x @ p) found st =
      do { st \<leftarrow> handle put del st x; iterate_loop put del p (found + 1) st }" for p
    using Cons.prems
    by (cases x; subst iterate_loop.simps) (simp_all add: value_type_code_def GetLengthPrefixedSlice_codec)
  with Cons show ?case by (simp add: add.assoc)
qed simp

lemma Iterate_batch:
  assumes "list_all op_fits ops"
  shows "Iterate put del (EncodeFixed64 seq @ EncodeFixed32 n @ concat (map op_bytes ops) @ q) st =
    do { st \<leftarrow> handle_all put del ops st;
         (s, found, st) \<leftarrow> iterate_loop put del q (of_nat (length ops)) st;
         Some (if s \<noteq> OK then (s, st) else if found \<noteq> n then (Corruption ''WriteBatch has wrong count'', st) else (OK, st)) }"
proof -
  let ?b = "EncodeFixed64 seq @ EncodeFixed32 n @ concat (map op_bytes ops) @ q"
  have "Batch_Count ?b = n" "\<not> length ?b < kHeader" "drop kHeader ?b = concat (map op_bytes ops) @ q"
    by (simp_all add: Batch_Count_def kHeader_def DecodeFixed32_Encode)
  then show ?thesis
    unfolding Iterate_def using iterate_loop_ops [OF assms, of put del q 0 st]
    by (cases "handle_all put del ops st") (auto intro!: arg_cong [where f = "Option.bind _"])
qed

lemma Iterate_batch_of:
  assumes "list_all op_fits ops"
  shows "Iterate put del (batch_of seq ops) st = map_option (Pair OK) (handle_all put del ops st)"
  using Iterate_batch [OF assms, of put del seq "of_nat (length ops)" "[]" st]
  by (cases "handle_all put del ops st") (simp_all add: batch_of_def iterate_loop.simps)

subsection \<open>Properties\<close>

text \<open>
  (C33) A batch keeps its operations: \<^verbatim>\<open>Iterate\<close> calls the handler once for every operation that was put into the batch, in
  that order, and succeeds; appending a batch appends its operations.
\<close>

theorem batch_roundtrip:
  assumes "list_all op_fits ops" "list_all op_fits ops'"
  shows "let b = SetSequence (foldl add_op Batch_Clear ops) seq; c = foldl add_op Batch_Clear ops' in
    Batch_Sequence b = seq \<and> Batch_Count b = of_nat (length ops) \<and>
    Iterate put del b st = map_option (Pair OK) (handle_all put del ops st) \<and>
    Iterate put del (Batch_Append b c) st = map_option (Pair OK) (handle_all put del (ops @ ops') st)"
proof -
  have "list_all op_fits (ops @ ops')" using assms by simp
  from Iterate_batch_of [OF this, of put del seq st] Iterate_batch_of [OF assms(1), of put del seq st]
  show ?thesis by (simp add: Let_def batch_Clear batch_build batch_append batch_header)
qed

theorem batch_roundtrip_witness:
  "Iterate (\<lambda>st k v. Some (st @ [PutOp k v])) (\<lambda>st k. Some (st @ [DeleteOp k]))
     (SetSequence (foldl add_op Batch_Clear [PutOp [1] [2, 3], DeleteOp [4]]) 5) [] = Some (OK, [PutOp [1] [2, 3], DeleteOp [4]])"
  using batch_roundtrip [of "[PutOp [1] [2, 3], DeleteOp [4]]" "[]" 5 "\<lambda>st k v. Some (st @ [PutOp k v])" "\<lambda>st k. Some (st @ [DeleteOp k])" "[]"]
  by (simp add: Let_def slice_fits_def)

text \<open>
  Damaged batches are reported, but only after the operations in front of the damage were handled: a
  wrong count, an unknown tag, or a key that is cut off.
\<close>

theorem batch_damage_reported:
  assumes "list_all op_fits ops" "handle_all put del ops st = Some st'" "n \<noteq> of_nat (length ops)"
    and "tag \<noteq> 0" "tag \<noteq> 1" "fst (GetLengthPrefixedSlice q) = None"
  shows "let b = (\<lambda>n q. EncodeFixed64 seq @ EncodeFixed32 n @ concat (map op_bytes ops) @ q) in
    Iterate put del (b n []) st = Some (Corruption ''WriteBatch has wrong count'', st') \<and>
    Iterate put del (b m (tag # q)) st = Some (Corruption ''unknown WriteBatch tag'', st') \<and>
    Iterate put del (b m (1 # q)) st = Some (Corruption ''bad WriteBatch Put'', st') \<and>
    Iterate put del (b m (0 # q)) st = Some (Corruption ''bad WriteBatch Delete'', st')"
proof -
  obtain p where "GetLengthPrefixedSlice q = (None, p)" using assms(6) by (cases "GetLengthPrefixedSlice q") auto
  then have "iterate_loop put del [] c st' = Some (OK, c, st')"
    "iterate_loop put del (tag # q) c st' = Some (Corruption ''unknown WriteBatch tag'', c + 1, st')"
    "iterate_loop put del (1 # q) c st' = Some (Corruption ''bad WriteBatch Put'', c + 1, st')"
    "iterate_loop put del (0 # q) c st' = Some (Corruption ''bad WriteBatch Delete'', c + 1, st')" for c
    using assms(4,5) by (simp_all add: iterate_loop.simps value_type_code_def)
  then show ?thesis
    using assms(2,3) unfolding Let_def Iterate_batch [OF assms(1)] by simp
qed

theorem batch_damage_reported_witness:
  "Iterate (\<lambda>st k v. Some (Suc st)) (\<lambda>st k. Some (Suc st)) (EncodeFixed64 7 @ EncodeFixed32 5 @ concat (map op_bytes [DeleteOp [9]]) @ [3, 0x80]) 0 =
     Some (Corruption ''unknown WriteBatch tag'', 1)"
  using batch_damage_reported [of "[DeleteOp [9]]" "\<lambda>st k v. Some (Suc st)" "\<lambda>st k. Some (Suc st)" 0 1 5 3 "[0x80]" 7 5]
  by (simp add: slice_fits_def GetLengthPrefixedSlice_def GetVarint32_def GetVarint32Ptr_def GetVarint32PtrFallback_def)

end
