(* ===== verification/Ldb_Skiplist.thy ===== *)
theory Ldb_Skiplist
  imports Ldb_Format
begin

text \<open>
  The skip list of \<^verbatim>\<open>db/skiplist.h\<close>, with the generator of \<^verbatim>\<open>util/random.h\<close> that chooses the heights.  The nodes live in
  an arena that only grows: a pointer to a node is its index there, the head is node 0.  The loops follow
  links and need not end in an arbitrary arena, so they are partial functions; \<^const>\<open>None\<close> is also the
  result of an access outside a node or of reading a local that was never set.
\<close>

subsection \<open>Random numbers\<close>

definition new_Random :: "uint32 \<Rightarrow> uint32" where
  "new_Random s = (let seed = s AND 0x7fffffff in if seed = 0 \<or> seed = 2147483647 then 1 else seed)"

text \<open>\<^verbatim>\<open>Next\<close> returns the seed that it leaves.\<close>

definition Random_Next :: "uint32 \<Rightarrow> uint32" where
  "Random_Next seed =
     (let product = ucast seed * 16807 :: uint64;
          seed = ucast (drop_bit 31 product + (product AND 2147483647)) :: uint32
      in if seed > 2147483647 then seed - 2147483647 else seed)"

subsection \<open>Nodes\<close>

definition kMaxHeight :: nat where "kMaxHeight = 12"

record 'k Node =
  node_key :: 'k
  node_next :: "nat option list"

record 'k SkipList =
  nodes :: "'k Node list"
  max_height :: nat
  rnd :: uint32

definition node_Next :: "'k SkipList \<Rightarrow> nat \<Rightarrow> nat \<Rightarrow> nat option option" where
  "node_Next l x n = do { nd \<leftarrow> nth_opt (nodes l) x; nth_opt (node_next nd) n }"

definition node_SetNext :: "'k SkipList \<Rightarrow> nat \<Rightarrow> nat \<Rightarrow> nat option \<Rightarrow> 'k SkipList option" where
  "node_SetNext l x n y = do {
     nd \<leftarrow> nth_opt (nodes l) x;
     if n < length (node_next nd)
     then Some (l\<lparr>nodes := (nodes l)[x := nd\<lparr>node_next := (node_next nd)[n := y]\<rparr>]\<rparr>)
     else None
   }"

text \<open>The links of a new node are not initialized; they are set before the node can be reached.\<close>

definition NewNode :: "'k SkipList \<Rightarrow> 'k \<Rightarrow> nat \<Rightarrow> nat \<times> 'k SkipList" where
  "NewNode l key height =
     (length (nodes l), l\<lparr>nodes := nodes l @ [\<lparr>node_key = key, node_next = replicate height None\<rparr>]\<rparr>)"

definition new_SkipList :: "'k \<Rightarrow> 'k SkipList" where
  "new_SkipList any_key =
     \<lparr>nodes = [\<lparr>node_key = any_key, node_next = replicate kMaxHeight None\<rparr>], max_height = 1, rnd = new_Random 0xdeadbeef\<rparr>"

function random_height_loop :: "nat \<Rightarrow> uint32 \<Rightarrow> nat \<times> uint32" where
  "random_height_loop height seed =
     (if height < kMaxHeight
      then (let seed = Random_Next seed in
            if seed mod 4 = 0 then random_height_loop (height + 1) seed else (height, seed))
      else (height, seed))"
  by pat_completeness auto
termination by (relation "measure (\<lambda>(height, seed). kMaxHeight - height)") auto

declare random_height_loop.simps [simp del]

definition RandomHeight :: "uint32 \<Rightarrow> nat \<times> uint32" where
  "RandomHeight seed = random_height_loop 1 seed"

subsection \<open>Searching\<close>

definition KeyIsAfterNode :: "('k \<Rightarrow> 'k \<Rightarrow> int) \<Rightarrow> 'k SkipList \<Rightarrow> 'k \<Rightarrow> nat option \<Rightarrow> bool option" where
  "KeyIsAfterNode cmp l key n =
     (case n of None \<Rightarrow> Some False
      | Some y \<Rightarrow> do { nd \<leftarrow> nth_opt (nodes l) y; Some (cmp (node_key nd) key < 0) })"

partial_function (option) find_ge_loop ::
  "('k \<Rightarrow> 'k \<Rightarrow> int) \<Rightarrow> 'k SkipList \<Rightarrow> 'k \<Rightarrow> nat \<Rightarrow> nat \<Rightarrow> nat option list \<Rightarrow> (nat option \<times> nat option list) option" where
  "find_ge_loop cmp l key x level prev = do {
     next \<leftarrow> node_Next l x level;
     after \<leftarrow> KeyIsAfterNode cmp l key next;
     if after then find_ge_loop cmp l key (the next) level prev
     else (let prev = prev[level := Some x] in
           if level = 0 then Some (next, prev) else find_ge_loop cmp l key x (level - 1) prev)
   }"

definition FindGreaterOrEqual ::
  "('k \<Rightarrow> 'k \<Rightarrow> int) \<Rightarrow> 'k SkipList \<Rightarrow> 'k \<Rightarrow> (nat option \<times> nat option list) option" where
  "FindGreaterOrEqual cmp l key = find_ge_loop cmp l key 0 (max_height l - 1) (replicate kMaxHeight None)"

partial_function (option) find_lt_loop :: "('k \<Rightarrow> 'k \<Rightarrow> int) \<Rightarrow> 'k SkipList \<Rightarrow> 'k \<Rightarrow> nat \<Rightarrow> nat \<Rightarrow> nat option" where
  "find_lt_loop cmp l key x level = do {
     next \<leftarrow> node_Next l x level;
     stop \<leftarrow> (case next of None \<Rightarrow> Some True
              | Some y \<Rightarrow> do { nd \<leftarrow> nth_opt (nodes l) y; Some (cmp (node_key nd) key \<ge> 0) });
     if stop then (if level = 0 then Some x else find_lt_loop cmp l key x (level - 1))
     else find_lt_loop cmp l key (the next) level
   }"

definition FindLessThan :: "('k \<Rightarrow> 'k \<Rightarrow> int) \<Rightarrow> 'k SkipList \<Rightarrow> 'k \<Rightarrow> nat option" where
  "FindLessThan cmp l key = find_lt_loop cmp l key 0 (max_height l - 1)"

partial_function (option) find_last_loop :: "'k SkipList \<Rightarrow> nat \<Rightarrow> nat \<Rightarrow> nat option" where
  "find_last_loop l x level = do {
     next \<leftarrow> node_Next l x level;
     if next = None then (if level = 0 then Some x else find_last_loop l x (level - 1))
     else find_last_loop l (the next) level
   }"

definition FindLast :: "'k SkipList \<Rightarrow> nat option" where
  "FindLast l = find_last_loop l 0 (max_height l - 1)"

subsection \<open>Inserting\<close>

function link_loop :: "'k SkipList \<Rightarrow> nat \<Rightarrow> nat option list \<Rightarrow> nat \<Rightarrow> nat \<Rightarrow> 'k SkipList option" where
  "link_loop l x prev i height =
     (if i < height
      then do {
        slot \<leftarrow> nth_opt prev i;
        p \<leftarrow> slot;
        next \<leftarrow> node_Next l p i;
        l \<leftarrow> node_SetNext l x i next;
        l \<leftarrow> node_SetNext l p i (Some x);
        link_loop l x prev (i + 1) height
      }
      else Some l)"
  by pat_completeness auto
termination by (relation "measure (\<lambda>(l, x, prev, i, height). height - i)") auto

declare link_loop.simps [simp del]

definition Insert :: "('k \<Rightarrow> 'k \<Rightarrow> int) \<Rightarrow> 'k SkipList \<Rightarrow> 'k \<Rightarrow> 'k SkipList option" where
  "Insert cmp l key = do {
     (_, prev) \<leftarrow> FindGreaterOrEqual cmp l key;
     let (height, seed) = RandomHeight (rnd l);
     let l = l\<lparr>rnd := seed\<rparr>;
     let (prev, l) =
       (if height > max_height l
        then (take (max_height l) prev @ replicate (height - max_height l) (Some 0) @ drop height prev,
              l\<lparr>max_height := height\<rparr>)
        else (prev, l));
     let (x, l) = NewNode l key height;
     link_loop l x prev 0 height
   }"

definition Contains :: "('k \<Rightarrow> 'k \<Rightarrow> int) \<Rightarrow> 'k SkipList \<Rightarrow> 'k \<Rightarrow> bool option" where
  "Contains cmp l key = do {
     (x, _) \<leftarrow> FindGreaterOrEqual cmp l key;
     case x of None \<Rightarrow> Some False
     | Some y \<Rightarrow> do { nd \<leftarrow> nth_opt (nodes l) y; Some (cmp key (node_key nd) = 0) }
   }"

subsection \<open>Iterators\<close>

text \<open>An iterator is the node it stands at, \<^const>\<open>None\<close> when it is not valid.\<close>

definition Iter_key :: "'k SkipList \<Rightarrow> nat option \<Rightarrow> 'k option" where
  "Iter_key l it = do { y \<leftarrow> it; nd \<leftarrow> nth_opt (nodes l) y; Some (node_key nd) }"

definition Iter_Next :: "'k SkipList \<Rightarrow> nat option \<Rightarrow> nat option option" where
  "Iter_Next l it = do { y \<leftarrow> it; node_Next l y 0 }"

definition Iter_Prev :: "('k \<Rightarrow> 'k \<Rightarrow> int) \<Rightarrow> 'k SkipList \<Rightarrow> nat option \<Rightarrow> nat option option" where
  "Iter_Prev cmp l it = do {
     key \<leftarrow> Iter_key l it;
     x \<leftarrow> FindLessThan cmp l key;
     Some (if x = 0 then None else Some x)
   }"

definition Iter_Seek :: "('k \<Rightarrow> 'k \<Rightarrow> int) \<Rightarrow> 'k SkipList \<Rightarrow> 'k \<Rightarrow> nat option option" where
  "Iter_Seek cmp l target = map_option fst (FindGreaterOrEqual cmp l target)"

definition Iter_SeekToFirst :: "'k SkipList \<Rightarrow> nat option option" where
  "Iter_SeekToFirst l = node_Next l 0 0"

definition Iter_SeekToLast :: "'k SkipList \<Rightarrow> nat option option" where
  "Iter_SeekToLast l = do { x \<leftarrow> FindLast l; Some (if x = 0 then None else Some x) }"

end
