(* ===== verification/Ldb_Skiplist_Spec.thy ===== *)
theory Ldb_Skiplist_Spec
  imports Ldb_Skiplist "HOL-Library.Multiset"
begin

text \<open>
  The skip list holds its keys in order: the invariant of its links, that every search ends at the right
  node and that insertion keeps the invariant; and the interface of an ordered table that it provides.
\<close>

subsection \<open>Chains\<close>

text \<open>\<open>path l n x ys\<close>: following the links of level \<open>n\<close> from node \<open>x\<close> visits \<open>ys\<close> and then ends.\<close>

primrec path :: "'k SkipList \<Rightarrow> nat \<Rightarrow> nat \<Rightarrow> nat list \<Rightarrow> bool" where
  "path l n x [] \<longleftrightarrow> node_Next l x n = Some None"
| "path l n x (y # ys) \<longleftrightarrow> node_Next l x n = Some (Some y) \<and> path l n y ys"

lemma path_cong:
  "(\<And>y. y \<in> set (x # ys) \<Longrightarrow> node_Next l' y n = node_Next l y n) \<Longrightarrow> path l' n x ys = path l n x ys"
  by (induction ys arbitrary: x) auto

lemma path_suffix: "path l n x (us @ vs) \<Longrightarrow> path l n (last (x # us)) vs"
  by (induction us arbitrary: x) auto

lemma path_first: "path l n x vs \<Longrightarrow> node_Next l x n = Some (case vs of [] \<Rightarrow> None | y # _ \<Rightarrow> Some y)"
  by (cases vs) auto

lemma path_append:
  assumes "path l n (last (x # us)) vs"
    and "\<And>a b ys zs. x # us = ys @ a # b # zs \<Longrightarrow> node_Next l a n = Some (Some b)"
  shows "path l n x (us @ vs)"
  using assms
proof (induction us arbitrary: x)
  case (Cons u us)
  have "path l n u (us @ vs)"
  proof (rule Cons.IH)
    fix a b ys zs assume "u # us = ys @ a # b # zs"
    then show "node_Next l a n = Some (Some b)" using Cons.prems(2) [of "x # ys"] by simp
  qed (use Cons.prems(1) in simp)
  then show ?case using Cons.prems(2) [of "[]" x u us] by simp
qed simp

lemma node_SetNext_Next:
  assumes "node_SetNext l x n y = Some l'"
  shows "node_Next l' z m = (if z = x \<and> m = n then Some y else node_Next l z m)"
  using assms
  by (auto simp: node_SetNext_def node_Next_def nth_opt_def nth_list_update split: if_splits)

text \<open>Inserting \<open>x\<close> behind the last node of \<open>us\<close>.\<close>

lemma path_insert:
  assumes "path l n a (us @ vs)" "distinct (a # us @ vs)" "x \<notin> set (a # us @ vs)"
    and "node_SetNext l x n (case vs of [] \<Rightarrow> None | y # _ \<Rightarrow> Some y) = Some l1"
    and "node_SetNext l1 (last (a # us)) n (Some x) = Some l2"
  shows "path l2 n a (us @ x # vs)"
proof -
  let ?p = "last (a # us)"
  have nx: "node_Next l2 z n = (if z = ?p then Some (Some x) else if z = x then Some (case vs of [] \<Rightarrow> None | y # _ \<Rightarrow> Some y)
      else node_Next l z n)" for z
    using node_SetNext_Next [OF assms(4)] node_SetNext_Next [OF assms(5)] by simp
  have px: "?p \<noteq> x" using assms(3) by (cases us rule: rev_cases) auto
  have "path l2 n x vs"
  proof (cases vs)
    case Nil
    then show ?thesis using nx px by simp
  next
    case (Cons v ws)
    have p: "?p \<in> set (a # us)" using last_in_set [of "a # us"] by simp
    have "path l n v ws" using path_suffix [OF assms(1)] Cons by simp
    moreover have "?p \<notin> set vs" "x \<notin> set vs" using p assms(2,3) by auto
    then have "path l2 n v ws = path l n v ws" using Cons by (intro path_cong) (auto simp: nx)
    ultimately show ?thesis using nx px Cons by simp
  qed
  then have "path l2 n ?p (x # vs)" using nx by simp
  then show ?thesis
  proof (rule path_append)
    fix u b ys zs assume e: "a # us = ys @ u # b # zs"
    then have "?p \<in> set (b # zs)" by (metis last_appendR last_in_set list.distinct(1) last_ConsR)
    moreover have "distinct (ys @ u # b # zs)" using assms(2) e by (metis append_Cons distinct_append)
    ultimately have "u \<noteq> ?p" by auto
    moreover have "u \<noteq> x" using assms(3) e by (metis append_Cons in_set_conv_decomp Un_iff set_append)
    moreover have "path l n u ((b # zs) @ vs)"
    proof -
      have "us @ vs = tl (ys @ [u]) @ b # zs @ vs" using e by (cases ys) auto
      then show ?thesis
        using path_suffix [of l n a "tl (ys @ [u])" "b # zs @ vs"] assms(1) e
        by (cases ys) (auto simp: last_append)
    qed
    ultimately show "node_Next l2 u n = Some (Some b)" using nx by simp
  qed
qed

subsection \<open>The invariant\<close>

definition key_at :: "'k SkipList \<Rightarrow> nat \<Rightarrow> 'k" where
  "key_at l i = node_key (nodes l ! i)"

definition height_of :: "'k SkipList \<Rightarrow> nat \<Rightarrow> nat" where
  "height_of l i = length (node_next (nodes l ! i))"

text \<open>The nodes of \<open>xs\<close> that have a link at level \<open>n\<close>.\<close>

definition chain :: "'k SkipList \<Rightarrow> nat \<Rightarrow> nat list \<Rightarrow> nat list" where
  "chain l n xs = filter (\<lambda>i. n < height_of l i) xs"

text \<open>
  \<open>skiplist valid cmp l xs\<close>: the nodes of the list are \<open>xs\<close>, in ascending order of their keys, and level \<open>n\<close> links those of
  them that are higher than \<open>n\<close>.
\<close>

definition skiplist :: "('k \<Rightarrow> bool) \<Rightarrow> ('k \<Rightarrow> 'k \<Rightarrow> int) \<Rightarrow> 'k SkipList \<Rightarrow> nat list \<Rightarrow> bool" where
  "skiplist valid cmp l xs \<longleftrightarrow>
     0 < length (nodes l) \<and> height_of l 0 = kMaxHeight \<and> 1 \<le> max_height l \<and> max_height l \<le> kMaxHeight \<and>
     distinct xs \<and> set xs = {1..<length (nodes l)} \<and>
     (\<forall>i \<in> set xs. valid (key_at l i) \<and> 1 \<le> height_of l i \<and> height_of l i \<le> max_height l) \<and>
     sorted_wrt (\<lambda>i j. cmp (key_at l i) (key_at l j) < 0) xs \<and>
     (\<forall>n < kMaxHeight. path l n 0 (chain l n xs))"

lemma chain_append [simp]: "chain l n (xs @ ys) = chain l n xs @ chain l n ys"
  by (simp add: chain_def)

lemma chain_Nil [simp]: "chain l n [] = []"
  by (simp add: chain_def)

text \<open>The last node of a higher level is on the level below; what follows it there completes the chain.\<close>

lemma chain_below:
  assumes "path l n 0 (chain l n xs @ vs)"
  obtains us where "path l n (last (0 # chain l (Suc n) xs)) (us @ vs)"
    "last (last (0 # chain l (Suc n) xs) # us) = last (0 # chain l n xs)" "set us \<subseteq> set xs"
proof (cases "chain l (Suc n) xs" rule: rev_cases)
  case Nil
  then show ?thesis using that [of "chain l n xs"] assms by (auto simp: chain_def)
next
  case (snoc ys y)
  then have "\<exists>i \<in> set xs. Suc n < height_of l i" by (auto simp: chain_def dest: filter_eq_ConsD) (metis filter_False snoc_eq_iff_butlast)
  then obtain as z bs where z: "xs = as @ z # bs" "Suc n < height_of l z" "\<forall>i \<in> set bs. \<not> Suc n < height_of l i"
    using split_list_last_prop [of xs "\<lambda>i. Suc n < height_of l i"] by blast
  then have xs: "xs = as @ y # bs" "chain l (Suc n) as = ys" "Suc n < height_of l y" "chain l (Suc n) bs = []"
    using snoc by (auto simp: chain_def filter_empty_conv)
  then have "chain l n xs = (chain l n as @ [y]) @ chain l n bs" by (simp add: chain_def)
  with assms have "path l n y (chain l n bs @ vs)"
    using path_suffix [of l n 0 "chain l n as @ [y]" "chain l n bs @ vs"] by simp
  then show ?thesis
    by (intro that [of "chain l n bs"]) (use snoc xs in \<open>auto simp: chain_def\<close>)
qed

lemma path_chain_split:
  assumes "skiplist valid cmp l (xs @ ys)" "n < kMaxHeight"
  shows "path l n 0 (chain l n xs @ chain l n ys)"
  using assms by (simp add: skiplist_def)

text \<open>Searching passes the nodes in front of the key on one level, and then goes one level down.\<close>

definition bounds :: "('k \<Rightarrow> 'k \<Rightarrow> int) \<Rightarrow> 'k SkipList \<Rightarrow> 'k \<Rightarrow> nat list \<Rightarrow> nat list \<Rightarrow> bool" where
  "bounds cmp l key us vs \<longleftrightarrow>
     (\<forall>i \<in> set us. i < length (nodes l) \<and> cmp (key_at l i) key < 0) \<and>
     (\<forall>i \<in> set vs. i < length (nodes l) \<and> \<not> cmp (key_at l i) key < 0)"

lemma KeyIsAfterNode_Some: "y < length (nodes l) \<Longrightarrow> KeyIsAfterNode cmp l key (Some y) = Some (cmp (key_at l y) key < 0)"
  by (simp add: KeyIsAfterNode_def key_at_def nth_opt_def)

lemma find_ge_level:
  assumes "path l level x (us @ vs)" "bounds cmp l key us vs"
  shows "find_ge_loop cmp l key x level prev =
    (let x = last (x # us); prev = prev[level := Some x] in
     if level = 0 then Some (case vs of [] \<Rightarrow> None | y # _ \<Rightarrow> Some y, prev)
     else find_ge_loop cmp l key x (level - 1) prev)"
  using assms
proof (induction us arbitrary: x)
  case Nil
  then show ?case
    by (subst find_ge_loop.simps) (auto simp: KeyIsAfterNode_def bounds_def key_at_def nth_opt_def split: list.splits)
next
  case (Cons u us)
  then have "find_ge_loop cmp l key x level prev = find_ge_loop cmp l key u level prev"
    by (subst find_ge_loop.simps) (simp add: KeyIsAfterNode_Some bounds_def)
  with Cons show ?case by (simp add: bounds_def)
qed

lemma find_lt_level:
  assumes "path l level x (us @ vs)" "bounds cmp l key us vs"
  shows "find_lt_loop cmp l key x level =
    (if level = 0 then Some (last (x # us)) else find_lt_loop cmp l key (last (x # us)) (level - 1))"
  using assms
proof (induction us arbitrary: x)
  case Nil
  then show ?case
    by (subst find_lt_loop.simps) (cases vs; simp add: bounds_def key_at_def nth_opt_def)
next
  case (Cons u us)
  then have "find_lt_loop cmp l key x level = find_lt_loop cmp l key u level"
    by (subst find_lt_loop.simps) (simp add: bounds_def key_at_def nth_opt_def)
  with Cons show ?case by (simp add: bounds_def)
qed

lemma find_last_level:
  assumes "path l level x us"
  shows "find_last_loop l x level = (if level = 0 then Some (last (x # us)) else find_last_loop l (last (x # us)) (level - 1))"
  using assms
proof (induction us arbitrary: x)
  case (Cons u us)
  then have "find_last_loop l x level = find_last_loop l u level"
    by (subst find_last_loop.simps) simp
  with Cons show ?case by simp
qed (subst find_last_loop.simps, simp)

text \<open>The whole search, from level \<open>k\<close> down.\<close>

lemma chain_bounds:
  "bounds cmp l key xs ys \<Longrightarrow> set us \<subseteq> set xs \<Longrightarrow> bounds cmp l key us (chain l n ys)"
  by (auto simp: bounds_def chain_def)

lemma chain_0: "skiplist valid cmp l xs \<Longrightarrow> set ys \<subseteq> set xs \<Longrightarrow> chain l 0 ys = ys"
  unfolding chain_def skiplist_def by (intro filter_True) fastforce

lemma find_ge_down:
  assumes "skiplist valid cmp l (xs @ ys)" "bounds cmp l key xs ys" "k < kMaxHeight" "k < length prev"
    and "path l k x (us @ chain l k ys)" "last (x # us) = last (0 # chain l k xs)" "set us \<subseteq> set xs"
  shows "\<exists>prev'. find_ge_loop cmp l key x k prev = Some (case ys of [] \<Rightarrow> None | y # _ \<Rightarrow> Some y, prev') \<and>
    length prev' = length prev \<and> (\<forall>n \<le> k. prev' ! n = Some (last (0 # chain l n xs))) \<and> (\<forall>n > k. prev' ! n = prev ! n)"
  using assms(3-)
proof (induction k arbitrary: x us prev)
  case 0
  have "chain l 0 ys = ys" using chain_0 [OF assms(1), of ys] by simp
  then show ?case
    using find_ge_level [OF "0.prems"(3) chain_bounds [OF assms(2) "0.prems"(5)], of prev] "0.prems" by (simp add: Let_def)
next
  case (Suc k)
  let ?x = "last (0 # chain l (Suc k) xs)" and ?prev = "prev[Suc k := Some (last (0 # chain l (Suc k) xs))]"
  have "path l k 0 (chain l k xs @ chain l k ys)" using path_chain_split [OF assms(1), of k] Suc.prems(1) by simp
  then obtain vs where vs: "path l k ?x (vs @ chain l k ys)" "last (?x # vs) = last (0 # chain l k xs)" "set vs \<subseteq> set xs"
    by (rule chain_below)
  have step: "find_ge_loop cmp l key x (Suc k) prev = find_ge_loop cmp l key ?x k ?prev"
    using find_ge_level [OF Suc.prems(3) chain_bounds [OF assms(2) Suc.prems(5)], of prev] Suc.prems(4)
    by (simp add: Let_def)
  obtain prev' where prev': "find_ge_loop cmp l key ?x k ?prev = Some (case ys of [] \<Rightarrow> None | y # _ \<Rightarrow> Some y, prev')"
      "length prev' = length ?prev" "\<forall>n \<le> k. prev' ! n = Some (last (0 # chain l n xs))" "\<forall>n > k. prev' ! n = ?prev ! n"
    using Suc.IH [of ?prev ?x vs] Suc.prems(1,2) vs by auto
  have "prev' ! n = Some (last (0 # chain l n xs))" if "n \<le> Suc k" for n
    using that prev'(3,4) Suc.prems(2) by (cases "n = Suc k") auto
  with step prev' show ?case by auto
qed

lemma find_lt_down:
  assumes "skiplist valid cmp l (xs @ ys)" "bounds cmp l key xs ys" "k < kMaxHeight"
    and "path l k x (us @ chain l k ys)" "last (x # us) = last (0 # chain l k xs)" "set us \<subseteq> set xs"
  shows "find_lt_loop cmp l key x k = Some (last (0 # xs))"
  using assms(3-)
proof (induction k arbitrary: x us)
  case 0
  have "chain l 0 xs = xs" using chain_0 [OF assms(1), of xs] by simp
  then show ?case using find_lt_level [OF "0.prems"(2) chain_bounds [OF assms(2) "0.prems"(4)]] "0.prems" by simp
next
  case (Suc k)
  have "path l k 0 (chain l k xs @ chain l k ys)" using path_chain_split [OF assms(1), of k] Suc.prems(1) by simp
  then obtain vs where vs: "path l k (last (0 # chain l (Suc k) xs)) (vs @ chain l k ys)"
      "last (last (0 # chain l (Suc k) xs) # vs) = last (0 # chain l k xs)" "set vs \<subseteq> set xs"
    by (rule chain_below)
  show ?case
    using find_lt_level [OF Suc.prems(2) chain_bounds [OF assms(2) Suc.prems(4)]] Suc.IH [OF _ vs] Suc.prems by simp
qed

lemma find_last_down:
  assumes "skiplist valid cmp l xs" "k < kMaxHeight"
    and "path l k x us" "last (x # us) = last (0 # chain l k xs)"
  shows "find_last_loop l x k = Some (last (0 # xs))"
  using assms(2-)
proof (induction k arbitrary: x us)
  case 0
  have "chain l 0 xs = xs" using chain_0 [OF assms(1), of xs] by simp
  then show ?case using find_last_level [OF "0.prems"(2)] "0.prems"(3) by simp
next
  case (Suc k)
  have "path l k 0 (chain l k xs @ [])" using assms(1) Suc.prems(1) by (simp add: skiplist_def)
  then obtain vs where vs: "path l k (last (0 # chain l (Suc k) xs)) (vs @ [])"
      "last (last (0 # chain l (Suc k) xs) # vs) = last (0 # chain l k xs)"
    by (rule chain_below)
  show ?case using find_last_level [OF Suc.prems(2)] Suc.IH [of _ vs] vs Suc.prems by simp
qed

lemma FindGreaterOrEqual_correct:
  assumes "skiplist valid cmp l (xs @ ys)" "bounds cmp l key xs ys"
  shows "\<exists>prev. FindGreaterOrEqual cmp l key = Some (case ys of [] \<Rightarrow> None | y # _ \<Rightarrow> Some y, prev) \<and>
    length prev = kMaxHeight \<and> (\<forall>n < max_height l. prev ! n = Some (last (0 # chain l n xs)))"
proof -
  let ?k = "max_height l - 1"
  have k: "?k < kMaxHeight" "1 \<le> max_height l" using assms(1) by (auto simp: skiplist_def)
  then obtain prev where "find_ge_loop cmp l key 0 ?k (replicate kMaxHeight None) = Some (case ys of [] \<Rightarrow> None | y # _ \<Rightarrow> Some y, prev)"
      "length prev = kMaxHeight" "\<forall>n \<le> ?k. prev ! n = Some (last (0 # chain l n xs))"
    using find_ge_down [OF assms k(1), of "replicate kMaxHeight None" 0 "chain l ?k xs"] path_chain_split [OF assms(1) k(1)]
    by (auto simp: chain_def)
  with k show ?thesis by (auto simp: FindGreaterOrEqual_def)
qed

lemma FindLessThan_correct:
  assumes "skiplist valid cmp l (xs @ ys)" "bounds cmp l key xs ys"
  shows "FindLessThan cmp l key = Some (last (0 # xs))"
proof -
  have k: "max_height l - 1 < kMaxHeight" using assms(1) by (auto simp: skiplist_def)
  show ?thesis
    using find_lt_down [OF assms k path_chain_split [OF assms(1) k]] by (auto simp: FindLessThan_def chain_def)
qed

lemma FindLast_correct:
  assumes "skiplist valid cmp l xs"
  shows "FindLast l = Some (last (0 # xs))"
proof -
  have k: "max_height l - 1 < kMaxHeight" using assms(1) by (auto simp: skiplist_def)
  then have "path l (max_height l - 1) 0 (chain l (max_height l - 1) xs)" using assms by (simp add: skiplist_def)
  then show ?thesis using find_last_down [OF assms k] by (simp add: FindLast_def)
qed

subsection \<open>Insertion keeps the invariant\<close>

text \<open>Setting links changes neither the keys nor the heights.\<close>

definition same_shape :: "'k SkipList \<Rightarrow> 'k SkipList \<Rightarrow> bool" where
  "same_shape l l' \<longleftrightarrow> length (nodes l') = length (nodes l) \<and> key_at l' = key_at l \<and> height_of l' = height_of l \<and>
     max_height l' = max_height l \<and> rnd l' = rnd l"

lemma same_shape_trans: "same_shape a b \<Longrightarrow> same_shape b c \<Longrightarrow> same_shape a c"
  by (simp add: same_shape_def)

lemma node_SetNext_ok:
  assumes "x < length (nodes l)" "n < height_of l x"
  shows "\<exists>l'. node_SetNext l x n y = Some l' \<and> same_shape l l'"
  using assms
  by (auto simp: node_SetNext_def nth_opt_def same_shape_def key_at_def height_of_def fun_eq_iff nth_list_update)

lemma link_level:
  assumes "path l n 0 (us @ vs)" "distinct (0 # us @ vs)" "x \<notin> set (0 # us @ vs)" "x < length (nodes l)" "n < height_of l x"
    and "last (0 # us) < length (nodes l)" "n < height_of l (last (0 # us))"
  shows "\<exists>l1 l2. node_SetNext l x n (case vs of [] \<Rightarrow> None | y # _ \<Rightarrow> Some y) = Some l1 \<and>
    node_SetNext l1 (last (0 # us)) n (Some x) = Some l2 \<and> same_shape l l2 \<and> path l2 n 0 (us @ x # vs) \<and>
    (\<forall>m ws. m \<noteq> n \<longrightarrow> path l2 m 0 ws = path l m 0 ws)"
proof -
  obtain l1 where 1: "node_SetNext l x n (case vs of [] \<Rightarrow> None | y # _ \<Rightarrow> Some y) = Some l1" "same_shape l l1"
    using node_SetNext_ok [OF assms(4,5)] by blast
  then obtain l2 where 2: "node_SetNext l1 (last (0 # us)) n (Some x) = Some l2" "same_shape l1 l2"
    using node_SetNext_ok [of "last (0 # us)" l1 n "Some x"] assms(6,7) by (auto simp: same_shape_def)
  have "path l2 m 0 ws = path l m 0 ws" if "m \<noteq> n" for m ws
    using that node_SetNext_Next [OF 1(1)] node_SetNext_Next [OF 2(1)] by (intro path_cong) simp
  then show ?thesis
    using 1 2 path_insert [OF assms(1-3) 1(1) 2(1)] same_shape_trans by blast
qed

lemma link_loop_correct:
  assumes "distinct (0 # xs @ ys)" "set (xs @ ys) \<subseteq> {1..<x} \<and> 0 < x" "Suc x = length (nodes l)" "height_of l 0 = kMaxHeight"
    and "height_of l x = h" "h \<le> kMaxHeight" "length prev = kMaxHeight"
    and "\<And>n. n < h \<Longrightarrow> prev ! n = Some (last (0 # chain l n xs))"
    and "\<And>n. n < i \<Longrightarrow> path l n 0 (chain l n xs @ x # chain l n ys)"
    and "\<And>n. i \<le> n \<Longrightarrow> n < kMaxHeight \<Longrightarrow> path l n 0 (chain l n xs @ chain l n ys)"
    and "i \<le> h"
  shows "\<exists>l'. link_loop l x prev i h = Some l' \<and> same_shape l l' \<and>
    (\<forall>n < h. path l' n 0 (chain l n xs @ x # chain l n ys)) \<and>
    (\<forall>n. h \<le> n \<longrightarrow> n < kMaxHeight \<longrightarrow> path l' n 0 (chain l n xs @ chain l n ys))"
  using assms(3-)
proof (induction "h - i" arbitrary: i l)
  case 0
  then show ?case by (subst link_loop.simps) (auto simp: same_shape_def)
next
  case (Suc d)
  then have i: "i < h" "i < kMaxHeight" by auto
  let ?us = "chain l i xs" and ?vs = "chain l i ys"
  have pa: "path l i 0 (?us @ ?vs)" using Suc.prems(8) i by simp
  have di: "distinct (0 # ?us @ ?vs)" "x \<notin> set (0 # ?us @ ?vs)"
    using assms(1,2) Suc.prems(1) by (auto simp: chain_def)
  have la: "last (0 # ?us) = 0 \<or> last (0 # ?us) \<in> set ?us" by auto
  then have p: "last (0 # ?us) < length (nodes l)" "i < height_of l (last (0 # ?us))"
    using assms(2) Suc.prems(1,2) i by (auto simp: chain_def dest!: last_in_set)
  obtain l1 l2 where l2: "node_SetNext l x i (case ?vs of [] \<Rightarrow> None | y # _ \<Rightarrow> Some y) = Some l1"
      "node_SetNext l1 (last (0 # ?us)) i (Some x) = Some l2" "same_shape l l2" "path l2 i 0 (?us @ x # ?vs)"
      "\<And>m ws. m \<noteq> i \<Longrightarrow> path l2 m 0 ws = path l m 0 ws"
    using link_level [OF pa di _ _ p] Suc.prems(1,3) i by auto
  have nx: "node_Next l (last (0 # ?us)) i = Some (case ?vs of [] \<Rightarrow> None | y # _ \<Rightarrow> Some y)"
    using path_first [OF path_suffix [OF pa]] by simp
  have "link_loop l x prev i h = link_loop l2 x prev (Suc i) h"
    using i l2(1,2) nx Suc.prems(5,6) by (subst link_loop.simps) (simp add: nth_opt_def)
  moreover have ch: "chain l2 n zs = chain l n zs" for n zs using l2(3) by (simp add: chain_def same_shape_def)
  moreover have "\<exists>l'. link_loop l2 x prev (Suc i) h = Some l' \<and> same_shape l2 l' \<and>
      (\<forall>n < h. path l' n 0 (chain l2 n xs @ x # chain l2 n ys)) \<and>
      (\<forall>n. h \<le> n \<longrightarrow> n < kMaxHeight \<longrightarrow> path l' n 0 (chain l2 n xs @ chain l2 n ys))"
  proof (rule Suc.hyps(1))
    show "path l2 n 0 (chain l2 n xs @ x # chain l2 n ys)" if "n < Suc i" for n
      using that l2(4,5) Suc.prems(7) [of n] by (cases "n = i") (simp_all add: ch)
    show "path l2 n 0 (chain l2 n xs @ chain l2 n ys)" if "Suc i \<le> n" "n < kMaxHeight" for n
      using that l2(5) Suc.prems(8) [of n] by (simp add: ch)
  qed (use Suc.prems Suc.hyps(2) l2(3) i ch in \<open>auto simp: same_shape_def\<close>)
  ultimately show ?case using l2(3) same_shape_trans by fastforce
qed

lemma random_height_loop_range: "h \<le> kMaxHeight \<Longrightarrow> h \<le> fst (random_height_loop h seed) \<and> fst (random_height_loop h seed) \<le> kMaxHeight"
proof (induction h seed rule: random_height_loop.induct)
  case (1 h seed)
  show ?case
  proof (cases "h < kMaxHeight \<and> Random_Next seed mod 4 = 0")
    case True
    then have "random_height_loop h seed = random_height_loop (h + 1) (Random_Next seed)"
      by (subst random_height_loop.simps) simp
    then show ?thesis using "1.IH" [OF _ refl] True by simp
  next
    case False
    then have "random_height_loop h seed = (h, if h < kMaxHeight then Random_Next seed else seed)"
      unfolding random_height_loop.simps [of h seed] Let_def
      by (cases "h < kMaxHeight") (simp_all only: simp_thms if_True if_False)
    then show ?thesis using "1.prems" by simp
  qed
qed

lemma RandomHeight_range: "1 \<le> fst (RandomHeight seed)" "fst (RandomHeight seed) \<le> kMaxHeight"
  using random_height_loop_range [of 1 seed] by (simp_all add: RandomHeight_def kMaxHeight_def)

lemma NewNode_shape:
  assumes "l' = snd (NewNode l key h)" "i < length (nodes l)"
  shows "key_at l' i = key_at l i" "height_of l' i = height_of l i" "node_Next l' i n = node_Next l i n"
  using assms by (simp_all add: NewNode_def key_at_def height_of_def node_Next_def nth_opt_def nth_append)

text \<open>What \<^const>\<open>Insert\<close> hands to the loop: the new node and its predecessors at every level.\<close>

lemma chain_high:
  assumes "skiplist valid cmp l (xs @ ys)" "max_height l \<le> n"
  shows "chain l n xs = []"
proof -
  have "height_of l i \<le> n" if "i \<in> set xs" for i
    using assms that unfolding skiplist_def by (metis Un_iff le_trans set_append)
  then show ?thesis by (auto simp: chain_def filter_empty_conv not_less)
qed

lemma Insert_correct:
  assumes "skiplist valid cmp l (xs @ ys)" "bounds cmp l key xs ys" "valid key"
    and "\<And>i. i \<in> set ys \<Longrightarrow> cmp key (key_at l i) < 0"
  shows "\<exists>l'. Insert cmp l key = Some l' \<and> skiplist valid cmp l' (xs @ length (nodes l) # ys) \<and>
    key_at l' (length (nodes l)) = key \<and> (\<forall>i < length (nodes l). key_at l' i = key_at l i)"
proof -
  let ?x = "length (nodes l)"
  obtain h seed where hs: "RandomHeight (rnd l) = (h, seed)" by fastforce
  then have h: "1 \<le> h" "h \<le> kMaxHeight" using RandomHeight_range [of "rnd l"] by simp_all
  obtain prev where prev: "FindGreaterOrEqual cmp l key = Some (case ys of [] \<Rightarrow> None | y # _ \<Rightarrow> Some y, prev)"
      "length prev = kMaxHeight" "\<And>n. n < max_height l \<Longrightarrow> prev ! n = Some (last (0 # chain l n xs))"
    using FindGreaterOrEqual_correct [OF assms(1,2)] by blast
  note inv = assms(1) [unfolded skiplist_def]
  define m where "m = max h (max_height l)"
  define prev' where "prev' = (if h > max_height l
    then take (max_height l) prev @ replicate (h - max_height l) (Some 0) @ drop h prev else prev)"
  define l0 where "l0 = l\<lparr>rnd := seed, max_height := m\<rparr>"
  define l1 where "l1 = snd (NewNode l0 key h)"
  have ins: "Insert cmp l key = link_loop l1 ?x prev' 0 h"
    using prev(1) hs
    by (auto simp: Insert_def NewNode_def l1_def l0_def prev'_def m_def Let_def)
  have "nodes l0 = nodes l" by (simp add: l0_def)
  then have sh: "key_at l1 i = key_at l i" "height_of l1 i = height_of l i" "node_Next l1 i n = node_Next l i n" if "i < ?x" for i n
    using that NewNode_shape [OF l1_def, of i]
    by (simp_all add: key_at_def height_of_def node_Next_def)
  have nw: "length (nodes l1) = Suc ?x" "key_at l1 ?x = key" "height_of l1 ?x = h" "max_height l1 = m"
    by (simp_all add: l1_def l0_def NewNode_def key_at_def height_of_def)
  have sub: "set (xs @ ys) \<subseteq> {1..<?x}" "0 < ?x" using inv by auto
  have ch: "chain l1 n zs = chain l n zs" if "set zs \<subseteq> set (xs @ ys)" for n zs
    unfolding chain_def
  proof (rule filter_cong)
    fix i assume "i \<in> set zs"
    then have "i \<in> {1..<?x}" using that sub(1) by blast
    then show "(n < height_of l1 i) = (n < height_of l i)" using sh(2) by simp
  qed simp
  have chx: "chain l1 n xs = chain l n xs" "chain l1 n ys = chain l n ys" for n by (auto intro!: ch)
  have pa: "path l1 n 0 (chain l1 n xs @ chain l1 n ys)" if "n < kMaxHeight" for n
  proof -
    have "path l1 n 0 (chain l n xs @ chain l n ys) = path l n 0 (chain l n xs @ chain l n ys)"
      by (rule path_cong) (use sub sh in \<open>auto simp: chain_def\<close>)
    then show ?thesis using path_chain_split [OF assms(1) that] by (simp add: chx)
  qed
  have pv: "prev' ! n = Some (last (0 # chain l1 n xs))" if "n < h" for n
  proof (cases "n < max_height l")
    case True
    then show ?thesis using prev(2,3) inv h that by (simp add: prev'_def nth_append chx)
  next
    case False
    then have "chain l1 n xs = []" using chain_high [OF assms(1), of n] by (simp add: chx)
    moreover have "n - max_height l < h - max_height l" using False that by simp
    ultimately show ?thesis using False prev(2) inv h that by (simp add: prev'_def nth_append)
  qed
  have "distinct (0 # xs @ ys)" "height_of l1 0 = kMaxHeight" "length prev' = kMaxHeight"
    using inv sub sh prev(2) h by (auto simp: prev'_def)
  then obtain l2 where l2: "link_loop l1 ?x prev' 0 h = Some l2" "same_shape l1 l2"
      "\<And>n. n < h \<Longrightarrow> path l2 n 0 (chain l1 n xs @ ?x # chain l1 n ys)"
      "\<And>n. h \<le> n \<Longrightarrow> n < kMaxHeight \<Longrightarrow> path l2 n 0 (chain l1 n xs @ chain l1 n ys)"
    using link_loop_correct [of xs ys ?x l1 h prev' 0] sub nw h pv pa by auto
  have c2: "chain l2 n (xs @ ?x # ys) = (if n < h then chain l1 n xs @ ?x # chain l1 n ys else chain l1 n xs @ chain l1 n ys)" for n
    using l2(2) nw(3) by (simp add: chain_def same_shape_def)
  have "skiplist valid cmp l2 (xs @ ?x # ys)"
    unfolding skiplist_def
  proof (intro conjI)
    show "\<forall>n < kMaxHeight. path l2 n 0 (chain l2 n (xs @ ?x # ys))"
      unfolding c2 using l2(3,4) by auto
    show "sorted_wrt (\<lambda>i j. cmp (key_at l2 i) (key_at l2 j) < 0) (xs @ ?x # ys)"
    proof -
      have k: "key_at l2 i = key_at l i" if "i \<in> set (xs @ ys)" for i using that l2(2) sh sub by (auto simp: same_shape_def)
      have "sorted_wrt (\<lambda>i j. cmp (key_at l2 i) (key_at l2 j) < 0) (xs @ ys)"
        using inv by (auto simp: sorted_wrt_append k elim!: sorted_wrt_mono_rel [rotated])
      moreover have "key_at l2 ?x = key" using l2(2) nw(2) by (simp add: same_shape_def)
      ultimately show ?thesis using assms(2,4) by (auto simp: sorted_wrt_append k bounds_def)
    qed
    have s2: "length (nodes l2) = Suc ?x" "key_at l2 = key_at l1" "height_of l2 = height_of l1" "max_height l2 = m"
      using l2(2) nw by (simp_all add: same_shape_def)
    have "1 \<le> ?x" using sub(2) by linarith
    moreover have "set (xs @ ?x # ys) = insert ?x (set (xs @ ys))" by simp
    moreover have "set (xs @ ys) = {1..<?x}" using inv by blast
    ultimately show "set (xs @ ?x # ys) = {1..<length (nodes l2)}" unfolding s2(1) by (simp only: atLeastLessThanSuc if_True)
    show "\<forall>i \<in> set (xs @ ?x # ys). valid (key_at l2 i) \<and> 1 \<le> height_of l2 i \<and> height_of l2 i \<le> max_height l2"
    proof
      fix i assume "i \<in> set (xs @ ?x # ys)"
      then consider "i = ?x" | "i \<in> set (xs @ ys)" by auto
      then show "valid (key_at l2 i) \<and> 1 \<le> height_of l2 i \<and> height_of l2 i \<le> max_height l2"
      proof cases
        case 1
        then show ?thesis using nw h assms(3) unfolding s2 m_def by simp
      next
        case 2
        then have "i < ?x" using sub(1) by auto
        moreover have "valid (key_at l i) \<and> 1 \<le> height_of l i \<and> height_of l i \<le> max_height l" using inv 2 by blast
        ultimately show ?thesis unfolding s2 m_def using sh by auto
      qed
    qed
    show "distinct (xs @ ?x # ys)" using inv sub(1) by auto
    show "0 < length (nodes l2)" "height_of l2 0 = kMaxHeight" "1 \<le> max_height l2" "max_height l2 \<le> kMaxHeight"
      using inv h sub(2) sh(2) [of 0] unfolding s2 m_def by auto
  qed
  then show ?thesis using ins l2(1,2) nw(2) sh(1) by (auto simp: same_shape_def)
qed

lemma skiplist_new: "skiplist valid cmp (new_SkipList k0) []"
  by (simp add: skiplist_def new_SkipList_def height_of_def kMaxHeight_def node_Next_def nth_opt_def)

subsection \<open>The table of keys\<close>

text \<open>\<open>represents valid cmp l ks\<close>: the list holds the keys \<open>ks\<close>, in this order.\<close>

definition represents :: "('k \<Rightarrow> bool) \<Rightarrow> ('k \<Rightarrow> 'k \<Rightarrow> int) \<Rightarrow> 'k SkipList \<Rightarrow> 'k list \<Rightarrow> bool" where
  "represents valid cmp l ks \<longleftrightarrow> (\<exists>xs. skiplist valid cmp l xs \<and> ks = map (key_at l) xs)"

definition seek_key :: "('k \<Rightarrow> 'k \<Rightarrow> int) \<Rightarrow> 'k SkipList \<Rightarrow> 'k \<Rightarrow> 'k option option" where
  "seek_key cmp l target = do {
     it \<leftarrow> Iter_Seek cmp l target;
     case it of None \<Rightarrow> Some None | Some _ \<Rightarrow> map_option Some (Iter_key l it)
   }"

primrec insert_keys :: "('t \<Rightarrow> 'k \<Rightarrow> 't option) \<Rightarrow> 't \<Rightarrow> 'k list \<Rightarrow> 't option" where
  "insert_keys ins t [] = Some t"
| "insert_keys ins t (k # ks) = do { t \<leftarrow> ins t k; insert_keys ins t ks }"

text \<open>What the clients of an ordered table rely on.\<close>

locale key_table = comparator valid cmp
  for valid :: "'k \<Rightarrow> bool" and cmp :: "'k \<Rightarrow> 'k \<Rightarrow> int" +
  fixes rep :: "'t \<Rightarrow> 'k list \<Rightarrow> bool" and insert_key :: "'t \<Rightarrow> 'k \<Rightarrow> 't option" and seek :: "'t \<Rightarrow> 'k \<Rightarrow> 'k option option"
  assumes rep_sorted: "rep t ks \<Longrightarrow> sorted_wrt (\<lambda>a b. cmp a b < 0) ks \<and> list_all valid ks"
    and rep_insert: "rep t ks \<Longrightarrow> valid k \<Longrightarrow> list_all (\<lambda>a. cmp a k \<noteq> 0) ks \<Longrightarrow>
      \<exists>t'. insert_key t k = Some t' \<and> rep t' (takeWhile (\<lambda>a. cmp a k < 0) ks @ k # dropWhile (\<lambda>a. cmp a k < 0) ks)"
    and rep_seek: "rep t ks \<Longrightarrow> valid k \<Longrightarrow> seek t k = Some (find (\<lambda>a. \<not> cmp a k < 0) ks)"
begin

text \<open>Keys that differ pairwise can be inserted in any order.\<close>

lemma insert_keys_rep:
  assumes "rep t as" "list_all valid ks" "sorted_wrt (\<lambda>a b. cmp a b \<noteq> 0) (as @ ks)"
  shows "\<exists>t' bs. insert_keys insert_key t ks = Some t' \<and> rep t' bs \<and> mset bs = mset (as @ ks)"
  using assms
proof (induction ks arbitrary: t as)
  case (Cons k ks)
  let ?as = "takeWhile (\<lambda>a. cmp a k < 0) as @ k # dropWhile (\<lambda>a. cmp a k < 0) as"
  have "mset as = mset (takeWhile (\<lambda>a. cmp a k < 0) as) + mset (dropWhile (\<lambda>a. cmp a k < 0) as)"
    by (metis mset_append takeWhile_dropWhile_id)
  then have m: "mset ?as = mset (as @ [k])" by simp
  have v: "valid k" "list_all valid as" using Cons.prems(2) rep_sorted [OF Cons.prems(1)] by simp_all
  obtain t1 where t1: "insert_key t k = Some t1" "rep t1 ?as"
    using rep_insert [OF Cons.prems(1) v(1)] Cons.prems(3) by (auto simp: sorted_wrt_append list_all_iff)
  have "sorted_wrt (\<lambda>a b. cmp a b \<noteq> 0) ?as"
    using rep_sorted [OF t1(2), THEN conjunct1] by (rule sorted_wrt_mono_rel [rotated]) simp
  moreover have "set ?as = set (as @ [k])" using m by (metis set_mset_mset)
  ultimately have "sorted_wrt (\<lambda>a b. cmp a b \<noteq> 0) (?as @ ks)"
    using Cons.prems(3) by (fastforce simp: sorted_wrt_append)
  then obtain t' bs where "insert_keys insert_key t1 ks = Some t'" "rep t' bs" "mset bs = mset (?as @ ks)"
    using Cons.IH [OF t1(2)] Cons.prems(2) by auto
  moreover have "mset (?as @ ks) = mset (as @ k # ks)" using m unfolding mset_append by simp
  ultimately show ?case using t1(1) by auto
qed auto

end

context comparator
begin

lemma dropWhile_not_less:
  assumes "sorted_wrt (\<lambda>a b. cmp a b < 0) ks" "list_all valid ks" "valid k" "a \<in> set (dropWhile (\<lambda>a. cmp a k < 0) ks)"
  shows "\<not> cmp a k < 0"
  using assms
proof (induction ks)
  case (Cons b ks)
  then show ?case
    using less_trans [of b a k] by (auto simp: list_all_iff split: if_splits)
qed simp

lemma skiplist_split:
  assumes "skiplist valid cmp l xs" "valid k"
  obtains ys zs where "xs = ys @ zs" "bounds cmp l k ys zs"
    "map (key_at l) ys = takeWhile (\<lambda>a. cmp a k < 0) (map (key_at l) xs)"
    "map (key_at l) zs = dropWhile (\<lambda>a. cmp a k < 0) (map (key_at l) xs)"
proof
  let ?P = "\<lambda>i. cmp (key_at l i) k < 0"
  show "xs = takeWhile ?P xs @ dropWhile ?P xs" by simp
  show tw: "map (key_at l) (takeWhile ?P xs) = takeWhile (\<lambda>a. cmp a k < 0) (map (key_at l) xs)"
    and dw: "map (key_at l) (dropWhile ?P xs) = dropWhile (\<lambda>a. cmp a k < 0) (map (key_at l) xs)"
    by (simp_all add: takeWhile_map dropWhile_map comp_def)
  have s: "sorted_wrt (\<lambda>a b. cmp a b < 0) (map (key_at l) xs)" "list_all valid (map (key_at l) xs)"
    and r: "\<And>i. i \<in> set xs \<Longrightarrow> i < length (nodes l)"
    using assms(1) by (auto simp: skiplist_def sorted_wrt_map list_all_iff)
  have "\<not> ?P i" if "i \<in> set (dropWhile ?P xs)" for i
  proof (rule dropWhile_not_less [OF s assms(2)])
    show "key_at l i \<in> set (dropWhile (\<lambda>a. cmp a k < 0) (map (key_at l) xs))"
      using that unfolding dw [symmetric] by simp
  qed
  then show "bounds cmp l k (takeWhile ?P xs) (dropWhile ?P xs)"
    unfolding bounds_def using r set_takeWhileD [of _ ?P xs] set_dropWhileD [of _ ?P xs] by blast
qed

lemma represents_insert:
  assumes "represents valid cmp l ks" "valid k" "list_all (\<lambda>a. cmp a k \<noteq> 0) ks"
  shows "\<exists>l'. Insert cmp l k = Some l' \<and>
    represents valid cmp l' (takeWhile (\<lambda>a. cmp a k < 0) ks @ k # dropWhile (\<lambda>a. cmp a k < 0) ks)"
proof -
  obtain xs where xs: "skiplist valid cmp l xs" "ks = map (key_at l) xs" using assms(1) by (auto simp: represents_def)
  obtain ys zs where yz: "xs = ys @ zs" "bounds cmp l k ys zs" "map (key_at l) ys = takeWhile (\<lambda>a. cmp a k < 0) ks"
      "map (key_at l) zs = dropWhile (\<lambda>a. cmp a k < 0) ks"
    using skiplist_split [OF xs(1) assms(2)] unfolding xs(2) by blast
  have "cmp k (key_at l i) < 0" if "i \<in> set zs" for i
  proof -
    have "valid (key_at l i)" using xs(1) yz(1) that by (auto simp: skiplist_def)
    moreover have "cmp (key_at l i) k \<noteq> 0" "\<not> cmp (key_at l i) k < 0"
      using yz(1,2) that xs(2) assms(3) by (auto simp: bounds_def list_all_iff)
    then have "cmp (key_at l i) k > 0" by linarith
    ultimately show ?thesis using cmp_swap [of "key_at l i" k] assms(2) by simp
  qed
  then obtain l' where l': "Insert cmp l k = Some l'" "skiplist valid cmp l' (ys @ length (nodes l) # zs)"
      "key_at l' (length (nodes l)) = k" "\<And>i. i < length (nodes l) \<Longrightarrow> key_at l' i = key_at l i"
    using Insert_correct [of valid cmp l ys zs k] xs(1) yz(1,2) assms(2) by blast
  have "map (key_at l') ys = map (key_at l) ys" "map (key_at l') zs = map (key_at l) zs"
    using l'(4) yz(2) by (auto simp: bounds_def)
  then have "map (key_at l') (ys @ length (nodes l) # zs) = takeWhile (\<lambda>a. cmp a k < 0) ks @ k # dropWhile (\<lambda>a. cmp a k < 0) ks"
    using l'(3) yz(3,4) by simp
  with l'(1,2) show ?thesis unfolding represents_def by metis
qed

lemma find_dropWhile: "find (\<lambda>a. \<not> P a) ks = (case dropWhile P ks of [] \<Rightarrow> None | a # _ \<Rightarrow> Some a)"
  by (induction ks) auto

lemma FindGreaterOrEqual_key:
  assumes "skiplist valid cmp l xs" "valid k"
  shows "\<exists>x prev. FindGreaterOrEqual cmp l k = Some (x, prev) \<and>
    map_option (key_at l) x = find (\<lambda>a. \<not> cmp a k < 0) (map (key_at l) xs) \<and> (\<forall>i. x = Some i \<longrightarrow> i \<in> set xs)"
proof -
  obtain ys zs where yz: "xs = ys @ zs" "bounds cmp l k ys zs"
      "map (key_at l) zs = dropWhile (\<lambda>a. cmp a k < 0) (map (key_at l) xs)"
    using skiplist_split [OF assms] by blast
  obtain prev where "FindGreaterOrEqual cmp l k = Some (case zs of [] \<Rightarrow> None | y # _ \<Rightarrow> Some y, prev)"
    using FindGreaterOrEqual_correct [of valid cmp l ys zs k] assms(1) yz(1,2) by blast
  moreover have "map_option (key_at l) (case zs of [] \<Rightarrow> None | y # _ \<Rightarrow> Some y) = find (\<lambda>a. \<not> cmp a k < 0) (map (key_at l) xs)"
    unfolding find_dropWhile yz(3) [symmetric] by (cases zs) simp_all
  ultimately show ?thesis using yz(1) by (auto split: list.splits)
qed

lemma node_at: "skiplist valid cmp l xs \<Longrightarrow> i \<in> set xs \<Longrightarrow> nth_opt (nodes l) i = Some (nodes l ! i)"
  by (auto simp: skiplist_def nth_opt_def)

lemma represents_seek:
  assumes "represents valid cmp l ks" "valid k"
  shows "seek_key cmp l k = Some (find (\<lambda>a. \<not> cmp a k < 0) ks)"
proof -
  obtain xs where xs: "skiplist valid cmp l xs" "ks = map (key_at l) xs" using assms(1) by (auto simp: represents_def)
  obtain x prev where x: "FindGreaterOrEqual cmp l k = Some (x, prev)" "map_option (key_at l) x = find (\<lambda>a. \<not> cmp a k < 0) ks"
      "\<And>i. x = Some i \<Longrightarrow> i \<in> set xs"
    using FindGreaterOrEqual_key [OF xs(1) assms(2)] xs(2) by auto
  show ?thesis
  proof (cases x)
    case (Some i)
    then show ?thesis using x(1) x(2) [symmetric] node_at [OF xs(1) x(3) [OF Some]]
      by (simp add: seek_key_def Iter_Seek_def Iter_key_def key_at_def)
  qed (use x in \<open>simp add: seek_key_def Iter_Seek_def\<close>)
qed

lemma represents_sorted:
  "represents valid cmp l ks \<Longrightarrow> sorted_wrt (\<lambda>a b. cmp a b < 0) ks \<and> list_all valid ks"
  by (auto simp: represents_def skiplist_def sorted_wrt_map list_all_iff)

end

sublocale comparator \<subseteq> table: key_table valid cmp "represents valid cmp" "Insert cmp" "seek_key cmp"
  by unfold_locales (auto dest: represents_sorted intro: represents_insert represents_seek)

subsection \<open>Iterators\<close>

text \<open>Reading \<open>n\<close> keys with an iterator; the iterator where it stands afterwards.\<close>

primrec walk :: "'k SkipList \<Rightarrow> nat \<Rightarrow> nat option \<Rightarrow> ('k list \<times> nat option) option" where
  "walk l 0 it = Some ([], it)"
| "walk l (Suc n) it = do {
     k \<leftarrow> Iter_key l it;
     it \<leftarrow> Iter_Next l it;
     (ks, it) \<leftarrow> walk l n it;
     Some (k # ks, it)
   }"

lemma walk_path:
  assumes "path l 0 x xs" "\<And>i. i \<in> set xs \<Longrightarrow> i < length (nodes l)"
  shows "\<exists>it. node_Next l x 0 = Some it \<and> walk l (length xs) it = Some (map (key_at l) xs, None)"
  using assms
proof (induction xs arbitrary: x)
  case (Cons y ys)
  then obtain it where "node_Next l y 0 = Some it" "walk l (length ys) it = Some (map (key_at l) ys, None)" by force
  with Cons.prems show ?case by (simp add: Iter_key_def Iter_Next_def nth_opt_def key_at_def)
qed simp

context comparator
begin

lemma represents_walk:
  assumes "represents valid cmp l ks"
  shows "\<exists>it. Iter_SeekToFirst l = Some it \<and> walk l (length ks) it = Some (ks, None)"
proof -
  obtain xs where xs: "skiplist valid cmp l xs" "ks = map (key_at l) xs" using assms(1) by (auto simp: represents_def)
  have "path l 0 0 (chain l 0 xs)" using xs(1) by (simp add: skiplist_def kMaxHeight_def)
  then have "path l 0 0 xs" using chain_0 [OF xs(1)] by simp
  then show ?thesis
    using walk_path [of l 0 xs] xs by (auto simp: Iter_SeekToFirst_def skiplist_def)
qed

lemma represents_last:
  assumes "represents valid cmp l ks"
  shows "\<exists>it. Iter_SeekToLast l = Some it \<and> Iter_key l it = (if ks = [] then None else Some (last ks))"
proof -
  obtain xs where xs: "skiplist valid cmp l xs" "ks = map (key_at l) xs" using assms(1) by (auto simp: represents_def)
  have "0 \<notin> set xs" using xs(1) by (auto simp: skiplist_def)
  then have "last xs \<noteq> 0" if "xs \<noteq> []" using last_in_set [OF that] by metis
  then show ?thesis
    using FindLast_correct [OF xs(1)] xs(2) node_at [OF xs(1), of "last xs"] last_in_set [of xs]
    by (cases "xs = []") (auto simp: Iter_SeekToLast_def Iter_key_def key_at_def last_map)
qed

text \<open>From the position of a key, an iterator steps back to the key before it.\<close>

lemma represents_prev:
  assumes "represents valid cmp l (as @ k # bs)"
  shows "\<exists>it it'. Iter_Seek cmp l k = Some it \<and> Iter_key l it = Some k \<and> Iter_Prev cmp l it = Some it' \<and>
    Iter_key l it' = (if as = [] then None else Some (last as))"
proof -
  obtain xs where xs: "skiplist valid cmp l xs" "as @ k # bs = map (key_at l) xs" using assms(1) by (auto simp: represents_def)
  then obtain ys y zs where yz: "xs = ys @ y # zs" "as = map (key_at l) ys" "k = key_at l y" by (auto simp: append_eq_map_conv Cons_eq_map_conv)
  have v: "valid k" using represents_sorted [OF assms] by simp
  have srt: "sorted_wrt (\<lambda>a b. cmp a b < 0) (as @ k # bs)" "list_all valid (as @ k # bs)"
    using represents_sorted [OF assms] by simp_all
  have "\<not> cmp (key_at l i) k < 0" if "i \<in> set (y # zs)" for i
  proof (cases "i = y")
    case True
    then show ?thesis using yz(3) cmp_refl [OF v] by simp
  next
    case False
    then have "cmp k (key_at l i) < 0" "valid (key_at l i)"
      using that xs(1) yz by (auto simp: skiplist_def sorted_wrt_append)
    then show ?thesis using cmp_swap [of k "key_at l i"] v by simp
  qed
  moreover have "cmp (key_at l i) k < 0" if "i \<in> set ys" for i
    using that xs(1) yz by (auto simp: skiplist_def sorted_wrt_append)
  ultimately have b: "bounds cmp l k ys (y # zs)" using xs(1) yz(1) by (auto simp: bounds_def skiplist_def)
  have sk: "skiplist valid cmp l (ys @ y # zs)" using xs(1) yz(1) by simp
  obtain prev where "FindGreaterOrEqual cmp l k = Some (Some y, prev)" using FindGreaterOrEqual_correct [OF sk b] by auto
  moreover have "FindLessThan cmp l k = Some (last (0 # ys))" by (rule FindLessThan_correct [OF sk b])
  moreover have "Iter_key l (Some y) = Some k" using node_at [OF sk, of y] yz(3) by (simp add: Iter_key_def key_at_def)
  moreover have "last ys \<noteq> 0" if "ys \<noteq> []" using sk last_in_set [OF that] by (auto simp: skiplist_def)
  moreover have "Iter_key l (Some (last ys)) = Some (last as)" if "ys \<noteq> []"
    using that node_at [OF sk, of "last ys"] yz(2) last_in_set [OF that] by (simp add: Iter_key_def key_at_def last_map)
  ultimately show ?thesis
    using yz(2) last_in_set [of ys] by (cases "ys = []") (auto simp: Iter_Seek_def Iter_Prev_def, simp add: Iter_key_def)
qed

lemma represents_contains:
  assumes "represents valid cmp l ks" "valid k"
  shows "Contains cmp l k = Some (\<exists>a \<in> set ks. cmp a k = 0)"
proof -
  obtain xs where xs: "skiplist valid cmp l xs" "ks = map (key_at l) xs" using assms(1) by (auto simp: represents_def)
  obtain ys zs where yz: "xs = ys @ zs" "bounds cmp l k ys zs" using skiplist_split [OF xs(1) assms(2)] by blast
  then obtain prev where f: "FindGreaterOrEqual cmp l k = Some (case zs of [] \<Rightarrow> None | y # _ \<Rightarrow> Some y, prev)"
    using FindGreaterOrEqual_correct [of valid cmp l ys zs k] xs(1) by blast
  have lt: "\<And>i. i \<in> set ys \<Longrightarrow> cmp (key_at l i) k \<noteq> 0" using yz(2) by (fastforce simp: bounds_def)
  show ?thesis
  proof (cases zs)
    case Nil
    then show ?thesis using f lt xs(2) yz(1) by (auto simp: Contains_def)
  next
    case (Cons z ws)
    have vz: "valid (key_at l z)" "\<And>i. i \<in> set ws \<Longrightarrow> valid (key_at l i) \<and> cmp (key_at l z) (key_at l i) < 0"
      using xs(1) yz(1) Cons by (auto simp: skiplist_def sorted_wrt_append)
    have ge: "\<not> cmp (key_at l z) k < 0" using yz(2) Cons by (simp add: bounds_def)
    have "cmp (key_at l i) k \<noteq> 0" if "i \<in> set ws" for i
      using less_le_trans [of "key_at l z" "key_at l i" k] vz that assms(2) ge by auto
    then have "(\<exists>a \<in> set ks. cmp a k = 0) \<longleftrightarrow> cmp (key_at l z) k = 0" using lt xs(2) yz(1) Cons by auto
    also have "\<dots> \<longleftrightarrow> cmp k (key_at l z) = 0"
      using cmp_swap [of k "key_at l z"] cmp_swap [of "key_at l z" k] vz(1) assms(2) by linarith
    finally show ?thesis using f Cons node_at [OF xs(1), of z] yz(1) by (simp add: Contains_def key_at_def)
  qed
qed

end

subsection \<open>Properties\<close>

lemma represents_new: "represents valid cmp (new_SkipList k0) []"
  using skiplist_new [of valid cmp k0] by (auto simp: represents_def)

context comparator
begin

lemma represents_insert_keys:
  assumes "list_all valid ks" "sorted_wrt (\<lambda>a b. cmp a b \<noteq> 0) ks"
  shows "\<exists>l as. insert_keys (Insert cmp) (new_SkipList k0) ks = Some l \<and> represents valid cmp l as \<and> mset as = mset ks"
  using table.insert_keys_rep [OF represents_new assms(1), of k0] assms(2) by auto

end

text \<open>
  (C24) A skip list sorts: inserting keys that differ pairwise, in any order and whatever heights the generator
  gives them, always ends, and iterating from the first node reads exactly these keys in ascending order.
\<close>

theorem skiplist_sorts:
  assumes "comparator valid cmp" "list_all valid ks" "sorted_wrt (\<lambda>a b. cmp a b \<noteq> 0) ks"
  shows "\<exists>l it as. insert_keys (Insert cmp) (new_SkipList k0) ks = Some l \<and> Iter_SeekToFirst l = Some it \<and>
    walk l (length ks) it = Some (as, None) \<and> mset as = mset ks \<and> sorted_wrt (\<lambda>a b. cmp a b < 0) as"
proof -
  obtain l as where las: "insert_keys (Insert cmp) (new_SkipList k0) ks = Some l" "represents valid cmp l as" "mset as = mset ks"
    using comparator.represents_insert_keys [OF assms] by blast
  moreover have "length as = length ks" using las(3) by (metis size_mset)
  ultimately show ?thesis
    using comparator.represents_walk [OF assms(1) las(2)] comparator.represents_sorted [OF assms(1) las(2)] by auto
qed

theorem skiplist_sorts_witness:
  "\<exists>l it as. insert_keys (Insert BytewiseCompare) (new_SkipList []) [[3], [1, 2], [1]] = Some l \<and> Iter_SeekToFirst l = Some it \<and>
    walk l (length [[3], [1, 2], [1 :: byte]]) it = Some (as, None) \<and> mset as = mset [[3], [1, 2], [1]] \<and>
    sorted_wrt (\<lambda>a b. BytewiseCompare a b < 0) as"
  by (rule skiplist_sorts [OF bytewise.comparator_axioms]) (simp_all add: BytewiseCompare_order)

text \<open>
  Searches in a skip list agree with the sorted list of its keys: \<^verbatim>\<open>Contains\<close> tells whether an equal key is there,
  \<^verbatim>\<open>Seek\<close> stops at the first key that is not less, \<^verbatim>\<open>SeekToLast\<close> at the last one, and \<^verbatim>\<open>Prev\<close> steps back by one key.
\<close>

theorem skiplist_searches:
  assumes "comparator valid cmp" "represents valid cmp l ks" "valid k"
  shows "Contains cmp l k = Some (\<exists>a \<in> set ks. cmp a k = 0) \<and>
    seek_key cmp l k = Some (find (\<lambda>a. \<not> cmp a k < 0) ks) \<and>
    (\<exists>it. Iter_SeekToLast l = Some it \<and> Iter_key l it = (if ks = [] then None else Some (last ks))) \<and>
    (\<forall>as bs. ks = as @ k # bs \<longrightarrow>
       (\<exists>it it'. Iter_Seek cmp l k = Some it \<and> Iter_key l it = Some k \<and> Iter_Prev cmp l it = Some it' \<and>
          Iter_key l it' = (if as = [] then None else Some (last as))))"
  using comparator.represents_contains [OF assms] comparator.represents_seek [OF assms]
    comparator.represents_last [OF assms(1,2)] comparator.represents_prev [OF assms(1)] assms(2) by blast

theorem skiplist_searches_witness:
  "\<exists>l. Insert BytewiseCompare (new_SkipList []) [7] = Some l \<and> Contains BytewiseCompare l [7] = Some True \<and>
    Contains BytewiseCompare l [8] = Some False \<and> seek_key BytewiseCompare l [3] = Some (Some [7])"
proof -
  obtain l where l: "Insert BytewiseCompare (new_SkipList []) [7] = Some l" "represents (\<lambda>_. True) BytewiseCompare l [[7]]"
    using bytewise.represents_insert [OF represents_new, of "[7]"] by auto
  show ?thesis
    using l(1) skiplist_searches [OF bytewise.comparator_axioms l(2), of "[7]"]
      skiplist_searches [OF bytewise.comparator_axioms l(2), of "[8]"]
      skiplist_searches [OF bytewise.comparator_axioms l(2), of "[3]"]
    by (auto simp: BytewiseCompare_order)
qed

end
