(* ===== verification/Ldb_Memtable.thy ===== *)
theory Ldb_Memtable
  imports Ldb_Batch Ldb_Skiplist_Spec
begin

text \<open>
  The memtable (\<^verbatim>\<open>db/memtable.cc\<close>): a skip list of entries, each a string with an internal key and a value.  A pointer to an
  entry is the string itself.  \<^const>\<open>None\<close> is undefined behaviour: an entry that is not well-formed, or a skip
  list whose links do not end.
\<close>

subsection \<open>Entries\<close>

text \<open>\<^verbatim>\<open>GetLengthPrefixedSlice(const char*)\<close>: the string at a pointer, and what follows it.\<close>

definition prefixed_slice :: "byte list \<Rightarrow> (byte list \<times> byte list) option" where
  "prefixed_slice data = do {
     (len, q) \<leftarrow> GetVarint32Ptr (take 5 data);
     let p = drop (length (take 5 data) - length q) data;
     if unat len \<le> length p then Some (take (unat len) p, drop (unat len) p) else None
   }"

text \<open>
  The key of an entry.  The code trusts the prefix (\<^verbatim>\<open>+5: we assume "p" is not corrupted\<close>); an entry without a complete prefix, which
  \<^verbatim>\<open>Add\<close> never writes, has the empty key here.
\<close>

definition entry_key :: "byte list \<Rightarrow> byte list" where
  "entry_key entry = (case prefixed_slice entry of Some (k, _) \<Rightarrow> k | None \<Rightarrow> [])"

definition KeyComparator :: "(byte list \<Rightarrow> byte list \<Rightarrow> int) \<Rightarrow> byte list \<Rightarrow> byte list \<Rightarrow> int" where
  "KeyComparator cmp aptr bptr = InternalCompare cmp (entry_key aptr) (entry_key bptr)"

definition EncodeKey :: "byte list \<Rightarrow> byte list" where
  "EncodeKey target = PutVarint32 [] (of_nat (length target)) @ target"

subsection \<open>Operations\<close>

record MemTable =
  refs :: int
  mem_table :: "byte list SkipList"

definition new_MemTable :: MemTable where
  "new_MemTable = \<lparr>refs = 0, mem_table = new_SkipList []\<rparr>"

definition Mem_Ref :: "MemTable \<Rightarrow> MemTable" where
  "Mem_Ref m = m\<lparr>refs := refs m + 1\<rparr>"

text \<open>\<^verbatim>\<open>Unref\<close> deletes the table with the last reference.\<close>

definition Mem_Unref :: "MemTable \<Rightarrow> MemTable option" where
  "Mem_Unref m = (let m = m\<lparr>refs := refs m - 1\<rparr> in if refs m \<le> 0 then None else Some m)"

definition Mem_Add ::
  "(byte list \<Rightarrow> byte list \<Rightarrow> int) \<Rightarrow> MemTable \<Rightarrow> SequenceNumber \<Rightarrow> ValueType \<Rightarrow> byte list \<Rightarrow> byte list \<Rightarrow> MemTable option" where
  "Mem_Add cmp m s type key val = do {
     let key_size = length key;
     let val_size = length val;
     let internal_key_size = key_size + 8;
     let buf = EncodeVarint32 (of_nat internal_key_size) @ key @
           EncodeFixed64 (push_bit 8 s OR ucast (value_type_code type)) @ EncodeVarint32 (of_nat val_size) @ val;
     t \<leftarrow> Insert (KeyComparator cmp) (mem_table m) buf;
     Some (m\<lparr>mem_table := t\<rparr>)
   }"

text \<open>
  \<^verbatim>\<open>Get\<close> returns true with a value or with a status, or false.
\<close>

datatype mem_result = MemValue "byte list" | MemStatus Status | MemFalse

definition Mem_Get :: "(byte list \<Rightarrow> byte list \<Rightarrow> int) \<Rightarrow> MemTable \<Rightarrow> LookupKey \<Rightarrow> mem_result option" where
  "Mem_Get cmp m key = do {
     iter \<leftarrow> seek_key (KeyComparator cmp) (mem_table m) (lookup_memtable_key key);
     case iter of
       None \<Rightarrow> Some MemFalse
     | Some entry \<Rightarrow> do {
         (ikey, rest) \<leftarrow> prefixed_slice entry;
         if cmp (ExtractUserKey ikey) (lookup_user_key key) = 0
         then (let tag = ucast (key_number ikey AND 0xff) :: byte in
               if tag = value_type_code kTypeValue
               then do { (v, _) \<leftarrow> prefixed_slice rest; Some (MemValue v) }
               else if tag = value_type_code kTypeDeletion then Some (MemStatus (NotFound []))
               else Some MemFalse)
         else Some MemFalse
       }
   }"

subsection \<open>Iterator\<close>

definition MemIter_Seek :: "(byte list \<Rightarrow> byte list \<Rightarrow> int) \<Rightarrow> MemTable \<Rightarrow> byte list \<Rightarrow> nat option option" where
  "MemIter_Seek cmp m k = Iter_Seek (KeyComparator cmp) (mem_table m) (EncodeKey k)"

definition MemIter_SeekToFirst :: "MemTable \<Rightarrow> nat option option" where
  "MemIter_SeekToFirst m = Iter_SeekToFirst (mem_table m)"

definition MemIter_SeekToLast :: "MemTable \<Rightarrow> nat option option" where
  "MemIter_SeekToLast m = Iter_SeekToLast (mem_table m)"

definition MemIter_Next :: "MemTable \<Rightarrow> nat option \<Rightarrow> nat option option" where
  "MemIter_Next m it = Iter_Next (mem_table m) it"

definition MemIter_Prev :: "(byte list \<Rightarrow> byte list \<Rightarrow> int) \<Rightarrow> MemTable \<Rightarrow> nat option \<Rightarrow> nat option option" where
  "MemIter_Prev cmp m it = Iter_Prev (KeyComparator cmp) (mem_table m) it"

definition MemIter_key :: "MemTable \<Rightarrow> nat option \<Rightarrow> byte list option" where
  "MemIter_key m it = do { entry \<leftarrow> Iter_key (mem_table m) it; map_option fst (prefixed_slice entry) }"

definition MemIter_value :: "MemTable \<Rightarrow> nat option \<Rightarrow> byte list option" where
  "MemIter_value m it = do {
     entry \<leftarrow> Iter_key (mem_table m) it;
     (_, rest) \<leftarrow> prefixed_slice entry;
     map_option fst (prefixed_slice rest)
   }"

subsection \<open>Applying a batch\<close>

text \<open>\<^verbatim>\<open>MemTableInserter\<close>: the handler adds every operation with the next sequence number.\<close>

type_synonym inserter = "SequenceNumber \<times> MemTable"

fun inserter_Put :: "(byte list \<Rightarrow> byte list \<Rightarrow> int) \<Rightarrow> inserter \<Rightarrow> byte list \<Rightarrow> byte list \<Rightarrow> inserter option" where
  "inserter_Put cmp (seq, m) key val = do { m \<leftarrow> Mem_Add cmp m seq kTypeValue key val; Some (seq + 1, m) }"

fun inserter_Delete :: "(byte list \<Rightarrow> byte list \<Rightarrow> int) \<Rightarrow> inserter \<Rightarrow> byte list \<Rightarrow> inserter option" where
  "inserter_Delete cmp (seq, m) key = do { m \<leftarrow> Mem_Add cmp m seq kTypeDeletion key []; Some (seq + 1, m) }"

definition InsertInto :: "(byte list \<Rightarrow> byte list \<Rightarrow> int) \<Rightarrow> WriteBatch \<Rightarrow> MemTable \<Rightarrow> (Status \<times> MemTable) option" where
  "InsertInto cmp b m = do {
     (s, _, m) \<leftarrow> Iterate (inserter_Put cmp) (inserter_Delete cmp) b (Batch_Sequence b, m);
     Some (s, m)
   }"

subsection \<open>Entries read back\<close>

lemma length_EncodeVarint32: "length (EncodeVarint32 v) \<le> 5"
  by (auto simp: EncodeVarint32_def)

lemma prefixed_slice_Encode:
  assumes "slice_fits s"
  shows "prefixed_slice (EncodeVarint32 (of_nat (length s)) @ s @ q) = Some (s, q)"
proof -
  let ?v = "of_nat (length s) :: uint32" and ?d = "EncodeVarint32 (of_nat (length s)) @ s @ q"
  have t: "take 5 ?d = EncodeVarint32 ?v @ take (5 - length (EncodeVarint32 ?v)) (s @ q)"
    using length_EncodeVarint32 [of ?v] by simp
  have "GetVarint32Ptr (take 5 ?d) = Some (?v, take (5 - length (EncodeVarint32 ?v)) (s @ q))"
    unfolding t by (rule varint32.dec_enc) simp
  moreover have "length (take 5 ?d) - length (take (5 - length (EncodeVarint32 ?v)) (s @ q)) = length (EncodeVarint32 ?v)"
    unfolding t length_append by simp
  moreover have "unat ?v = length s" using assms by (simp add: slice_fits_def unat_of_nat_small)
  ultimately have "prefixed_slice ?d =
      (let p = s @ q in if unat ?v \<le> length p then Some (take (unat ?v) p, drop (unat ?v) p) else None)"
    by (simp add: prefixed_slice_def del: take_append length_append)
  also have "\<dots> = Some (s, q)" using \<open>unat ?v = length s\<close> by simp
  finally show ?thesis .
qed

type_synonym mem_entry = "ParsedInternalKey \<times> byte list"

fun entry_bytes :: "mem_entry \<Rightarrow> byte list" where
  "entry_bytes (k, v) = EncodeVarint32 (of_nat (length (user_key k) + 8)) @ AppendInternalKey [] k @
     EncodeVarint32 (of_nat (length v)) @ v"

fun entry_ok :: "mem_entry \<Rightarrow> bool" where
  "entry_ok (k, v) \<longleftrightarrow> sequence k \<le> kMaxSequenceNumber \<and> length (user_key k) + 8 < 2 ^ 32 \<and> slice_fits v"

lemma length_AppendInternalKey: "length (AppendInternalKey [] k) = length (user_key k) + 8"
  by (simp add: AppendInternalKey_def PutFixed64_def)

lemma prefixed_slice_entry:
  assumes "entry_ok (k, v)"
  shows "prefixed_slice (entry_bytes (k, v)) = Some (AppendInternalKey [] k, EncodeVarint32 (of_nat (length v)) @ v)"
    "prefixed_slice (EncodeVarint32 (of_nat (length v)) @ v) = Some (v, [])"
  using prefixed_slice_Encode [of "AppendInternalKey [] k" "EncodeVarint32 (of_nat (length v)) @ v"]
    prefixed_slice_Encode [of v "[]"] assms
  by (simp_all add: length_AppendInternalKey slice_fits_def del: of_nat_add)

lemma entry_key_bytes: "entry_ok e \<Longrightarrow> entry_key (entry_bytes e) = AppendInternalKey [] (fst e)"
  by (cases e) (simp add: entry_key_def prefixed_slice_entry del: entry_bytes.simps entry_ok.simps)

lemma lookup_key_parts:
  assumes "length u + 8 < 2 ^ 32"
  shows "entry_key (lookup_memtable_key (new_LookupKey u s)) = AppendInternalKey [] \<lparr>user_key = u, sequence = s, key_type = kTypeValue\<rparr>"
    "lookup_user_key (new_LookupKey u s) = u"
    "lookup_internal_key (new_LookupKey u s) = AppendInternalKey [] \<lparr>user_key = u, sequence = s, key_type = kTypeValue\<rparr>"
  using prefixed_slice_Encode [of "u @ EncodeFixed64 (PackSequenceAndType s kTypeValue)" "[]"] assms
  by (simp_all add: new_LookupKey_def lookup_memtable_key_def lookup_user_key_def lookup_internal_key_def entry_key_def
      AppendInternalKey_def PutFixed64_def slice_fits_def Let_def kValueTypeForSeek_def)

sublocale user_comparator \<subseteq> mem: comparator "\<lambda>e. 8 \<le> length (entry_key e)" "KeyComparator cmp"
  by unfold_locales
    (auto simp: KeyComparator_def internal.cmp_refl internal.cmp_swap intro: internal.cmp_trans)

subsection \<open>The memtable as a history of writes\<close>

text \<open>
  \<open>holds cmp m h\<close>: the table has exactly the entries of the history \<open>h\<close>, which was written with ascending sequence
  numbers.
\<close>

definition holds :: "(byte list \<Rightarrow> byte list \<Rightarrow> int) \<Rightarrow> MemTable \<Rightarrow> mem_entry list \<Rightarrow> bool" where
  "holds cmp m h \<longleftrightarrow>
     list_all entry_ok h \<and> sorted_wrt (<) (map (sequence \<circ> fst) h) \<and>
     (\<exists>es. represents (\<lambda>e. 8 \<le> length (entry_key e)) (KeyComparator cmp) (mem_table m) es \<and>
           mset es = mset (map entry_bytes h))"

definition visible :: "byte list \<Rightarrow> SequenceNumber \<Rightarrow> mem_entry \<Rightarrow> bool" where
  "visible u s e \<longleftrightarrow> user_key (fst e) = u \<and> sequence (fst e) \<le> s"

definition get_spec :: "mem_entry list \<Rightarrow> byte list \<Rightarrow> SequenceNumber \<Rightarrow> mem_result" where
  "get_spec h u s =
     (case find (visible u s) (rev h) of
        None \<Rightarrow> MemFalse
      | Some (k, v) \<Rightarrow> (case key_type k of kTypeValue \<Rightarrow> MemValue v | kTypeDeletion \<Rightarrow> MemStatus (NotFound [])))"

lemma holds_new: "holds cmp new_MemTable []"
  unfolding holds_def using represents_new by (auto simp: new_MemTable_def)

context user_comparator
begin

lemma KeyComparator_entries:
  assumes "entry_ok a" "entry_ok b"
  shows "KeyComparator cmp (entry_bytes a) (entry_bytes b) = InternalCompare cmp (AppendInternalKey [] (fst a)) (AppendInternalKey [] (fst b))"
  by (simp add: KeyComparator_def entry_key_bytes assms)

lemma entries_differ:
  assumes "entry_ok a" "entry_ok b" "sequence (fst a) < sequence (fst b)"
  shows "KeyComparator cmp (entry_bytes a) (entry_bytes b) \<noteq> 0"
proof -
  have ab: "sequence (fst a) \<le> kMaxSequenceNumber" "sequence (fst b) \<le> kMaxSequenceNumber"
    using assms(1,2) by (cases a; cases b; simp)+
  then have "PackSequenceAndType (sequence (fst a)) (key_type (fst a)) < PackSequenceAndType (sequence (fst b)) (key_type (fst b))"
    using assms(3) by (simp add: PackSequenceAndType_less)
  then show ?thesis
    using cmp_eq by (auto simp: KeyComparator_entries [OF assms(1,2)] InternalCompare_def Let_def AppendInternalKey_parts)
qed

lemma holds_add:
  assumes "holds cmp m h" "entry_ok (k, v)" "list_all (\<lambda>e. sequence (fst e) < sequence k) h"
  shows "\<exists>m'. Mem_Add cmp m (sequence k) (key_type k) (user_key k) v = Some m' \<and> holds cmp m' (h @ [(k, v)]) \<and> refs m' = refs m"
proof -
  obtain es where es: "represents (\<lambda>e. 8 \<le> length (entry_key e)) (KeyComparator cmp) (mem_table m) es" "mset es = mset (map entry_bytes h)"
    using assms(1) by (auto simp: holds_def)
  let ?e = "entry_bytes (k, v)"
  have v: "8 \<le> length (entry_key ?e)"
    using entry_key_bytes [OF assms(2)] AppendInternalKey_parts(3) [of k] by (simp del: entry_bytes.simps)
  have "KeyComparator cmp e ?e \<noteq> 0" if "e \<in> set es" for e
  proof -
    have "e \<in> set (map entry_bytes h)" using that es(2) by (metis set_mset_mset)
    then obtain a where "e = entry_bytes a" "a \<in> set h" by auto
    then show ?thesis
      using entries_differ [of a "(k, v)"] assms by (auto simp: holds_def list_all_iff simp del: entry_bytes.simps entry_ok.simps)
  qed
  then obtain t where t: "Insert (KeyComparator cmp) (mem_table m) ?e = Some t"
      "represents (\<lambda>e. 8 \<le> length (entry_key e)) (KeyComparator cmp) t
        (takeWhile (\<lambda>a. KeyComparator cmp a ?e < 0) es @ ?e # dropWhile (\<lambda>a. KeyComparator cmp a ?e < 0) es)" (is "represents _ _ _ ?es")
    using mem.represents_insert [OF es(1) v] by (auto simp: list_all_iff simp del: entry_bytes.simps)
  have "mset es = mset (takeWhile (\<lambda>a. KeyComparator cmp a ?e < 0) es) + mset (dropWhile (\<lambda>a. KeyComparator cmp a ?e < 0) es)"
    by (metis mset_append takeWhile_dropWhile_id)
  then have "mset ?es = mset (map entry_bytes (h @ [(k, v)]))" using es(2) by (simp del: entry_bytes.simps)
  then have "holds cmp (m\<lparr>mem_table := t\<rparr>) (h @ [(k, v)])"
    using assms t(2) by (auto simp: holds_def sorted_wrt_append list_all_iff simp del: entry_bytes.simps)
  moreover have "Mem_Add cmp m (sequence k) (key_type k) (user_key k) v = Some (m\<lparr>mem_table := t\<rparr>)"
    using t(1) by (simp add: Mem_Add_def AppendInternalKey_def PutFixed64_def PackSequenceAndType_def)
  ultimately show ?thesis by simp
qed

lemma find_first:
  assumes "sorted_wrt R es" "find P es = Some e"
  shows "e \<in> set es \<and> P e \<and> (\<forall>f \<in> set es. P f \<longrightarrow> f = e \<or> R e f)"
  using assms by (induction es) (auto split: if_splits)

lemma at_or_after_lookup:
  assumes "entry_ok a" "length u + 8 < 2 ^ 32" "s \<le> kMaxSequenceNumber"
  shows "KeyComparator cmp (entry_bytes a) (lookup_memtable_key (new_LookupKey u s)) < 0 \<longleftrightarrow>
    cmp (user_key (fst a)) u < 0 \<or> user_key (fst a) = u \<and> s < sequence (fst a)"
proof -
  have "sequence (fst a) \<le> kMaxSequenceNumber" using assms(1) by (cases a) simp
  then have "PackSequenceAndType s kTypeValue < PackSequenceAndType (sequence (fst a)) (key_type (fst a)) \<longleftrightarrow> s < sequence (fst a)"
    using assms(3) by (cases "key_type (fst a)") (simp_all add: PackSequenceAndType_less value_type_code_def)
  then show ?thesis
    by (simp add: KeyComparator_def entry_key_bytes [OF assms(1)] lookup_key_parts [OF assms(2)] InternalCompare_less
        AppendInternalKey_parts)
qed

lemma Mem_Get_entry:
  assumes "entry_ok (k, v)" "length u + 8 < 2 ^ 32"
    and "seek_key (KeyComparator cmp) (mem_table m) (lookup_memtable_key (new_LookupKey u s)) = Some (Some (entry_bytes (k, v)))"
  shows "Mem_Get cmp m (new_LookupKey u s) =
    Some (if user_key k = u then (case key_type k of kTypeValue \<Rightarrow> MemValue v | kTypeDeletion \<Rightarrow> MemStatus (NotFound []))
          else MemFalse)"
proof -
  have "cmp (user_key k) u = 0 \<longleftrightarrow> user_key k = u" using cmp_eq cmp_refl by auto
  moreover have "(ucast (PackSequenceAndType (sequence k) (key_type k) AND 0xff) :: byte) = value_type_code (key_type k)"
    using assms(1) by (intro PackSequenceAndType_parts) simp
  ultimately show ?thesis
    using assms(3) prefixed_slice_entry [OF assms(1)]
    by (cases "key_type k") (simp_all add: Mem_Get_def lookup_key_parts [OF assms(2)] AppendInternalKey_parts value_type_code_def
        del: entry_bytes.simps)
qed

lemma holds_get:
  assumes "holds cmp m h" "length u + 8 < 2 ^ 32" "s \<le> kMaxSequenceNumber"
  shows "Mem_Get cmp m (new_LookupKey u s) = Some (get_spec h u s)"
proof -
  let ?t = "lookup_memtable_key (new_LookupKey u s)"
  let ?P = "\<lambda>e. \<not> KeyComparator cmp e ?t < 0"
  obtain es where es: "represents (\<lambda>e. 8 \<le> length (entry_key e)) (KeyComparator cmp) (mem_table m) es" "mset es = mset (map entry_bytes h)"
    and ok: "\<And>a. a \<in> set h \<Longrightarrow> entry_ok a" and asc: "sorted_wrt (\<lambda>a b. sequence (fst a) < sequence (fst b)) h"
    using assms(1) by (auto simp: holds_def list_all_iff sorted_wrt_map)
  have set_es: "set es = entry_bytes ` set h" using es(2) by (metis set_map set_mset_mset)
  have seek: "seek_key (KeyComparator cmp) (mem_table m) ?t = Some (find ?P es)"
    using mem.represents_seek [OF es(1)] lookup_key_parts [OF assms(2)] AppendInternalKey_parts(3) by simp
  note P = at_or_after_lookup [OF ok assms(2,3)]
  show ?thesis
  proof (cases "find (visible u s) (rev h)")
    case None
    then have nv: "\<And>a. a \<in> set h \<Longrightarrow> \<not> visible u s a" by (auto simp: find_None_iff)
    show ?thesis
    proof (cases "find ?P es")
      case (Some e)
      then have "e \<in> set es" "?P e" by (auto simp: find_Some_iff)
      then obtain k v where kv: "e = entry_bytes (k, v)" "(k, v) \<in> set h" using set_es by auto
      then have "user_key k \<noteq> u" using nv [OF kv(2)] P [OF kv(2)] \<open>?P e\<close> by (auto simp: visible_def simp del: entry_bytes.simps)
      then show ?thesis using Mem_Get_entry [OF ok [OF kv(2)] assms(2)] seek Some kv(1) None by (simp add: get_spec_def del: entry_bytes.simps)
    qed (use seek None in \<open>simp add: Mem_Get_def get_spec_def\<close>)
  next
    case (Some a)
    have "sorted_wrt (\<lambda>a b. sequence (fst b) < sequence (fst a)) (rev h)" using asc by (simp add: sorted_wrt_rev)
    from find_first [OF this Some]
    have a: "a \<in> set h" "visible u s a" "\<And>b. b \<in> set h \<Longrightarrow> visible u s b \<Longrightarrow> b = a \<or> sequence (fst b) < sequence (fst a)" by auto
    have Pa: "?P (entry_bytes a)" using P [OF a(1)] a(2) cmp_refl by (auto simp: visible_def)
    then obtain e where e: "find ?P es = Some e" using a(1) set_es by (cases "find ?P es") (auto simp: find_None_iff)
    from find_first [OF mem.represents_sorted [OF es(1), THEN conjunct1] e]
    have e': "e \<in> set es" "?P e" "entry_bytes a = e \<or> KeyComparator cmp e (entry_bytes a) < 0" using Pa a(1) set_es by auto
    obtain b where b: "e = entry_bytes b" "b \<in> set h" using e'(1) set_es by auto
    have "entry_bytes a = e"
    proof (rule ccontr)
      assume ne: "entry_bytes a \<noteq> e"
      then have less: "KeyComparator cmp (entry_bytes b) (entry_bytes a) < 0" using e'(3) b(1) by simp
      have ub: "user_key (fst b) = u" using P [OF b(2)] e'(2) b(1) less a(2)
        by (auto simp: KeyComparator_entries [OF ok [OF b(2)] ok [OF a(1)]] InternalCompare_less AppendInternalKey_parts visible_def)
      then have "visible u s b" using P [OF b(2)] e'(2) b(1) by (auto simp: visible_def)
      then have sq: "sequence (fst b) < sequence (fst a)" using a(3) [OF b(2)] ne b(1) by auto
      have m: "sequence (fst a) \<le> kMaxSequenceNumber" "sequence (fst b) \<le> kMaxSequenceNumber"
        using ok [OF a(1)] ok [OF b(2)] by (cases a; cases b; simp)+
      have "PackSequenceAndType (sequence (fst a)) (key_type (fst a)) < PackSequenceAndType (sequence (fst b)) (key_type (fst b))"
        using less ub a(2) cmp_refl
        by (auto simp: KeyComparator_entries [OF ok [OF b(2)] ok [OF a(1)]] InternalCompare_less AppendInternalKey_parts visible_def)
      then show False using sq by (auto simp: PackSequenceAndType_less [OF m])
    qed
    moreover obtain k v where "a = (k, v)" by (cases a)
    ultimately show ?thesis
      using Mem_Get_entry [of k v u m s] ok [OF a(1)] assms(2) seek e a(2) Some
      by (simp add: get_spec_def visible_def del: entry_bytes.simps entry_ok.simps)
  qed
qed

end

subsection \<open>Applying batches\<close>

fun op_entry :: "SequenceNumber \<Rightarrow> batch_op \<Rightarrow> mem_entry" where
  "op_entry seq (PutOp k v) = (\<lparr>user_key = k, sequence = seq, key_type = kTypeValue\<rparr>, v)"
| "op_entry seq (DeleteOp k) = (\<lparr>user_key = k, sequence = seq, key_type = kTypeDeletion\<rparr>, [])"

primrec op_entries :: "SequenceNumber \<Rightarrow> batch_op list \<Rightarrow> mem_entry list" where
  "op_entries seq [] = []"
| "op_entries seq (x # xs) = op_entry seq x # op_entries (seq + 1) xs"

fun op_key :: "batch_op \<Rightarrow> byte list" where
  "op_key (PutOp k v) = k"
| "op_key (DeleteOp k) = k"

text \<open>An operation that the memtable can hold: its internal key and its value have 32-bit lengths.\<close>

definition mem_op_ok :: "batch_op \<Rightarrow> bool" where
  "mem_op_ok x \<longleftrightarrow> op_fits x \<and> length (op_key x) + 8 < 2 ^ 32"

definition before :: "mem_entry list \<Rightarrow> nat \<Rightarrow> bool" where
  "before h n \<longleftrightarrow> list_all (\<lambda>e. unat (sequence (fst e)) < n) h"

lemma op_entry_ok: "mem_op_ok x \<Longrightarrow> seq \<le> kMaxSequenceNumber \<Longrightarrow> entry_ok (op_entry seq x)"
  by (cases x) (auto simp: mem_op_ok_def slice_fits_def)

lemma op_entry_sequence [simp]: "sequence (fst (op_entry seq x)) = seq"
  by (cases x) simp_all

lemma unat_kMaxSequenceNumber: "unat kMaxSequenceNumber = 2 ^ 56 - 1"
  by (simp add: kMaxSequenceNumber_def push_bit_eq_mult)

lemma unat_next_sequence: "unat seq < 2 ^ 56 \<Longrightarrow> unat (seq + 1) = unat seq + 1" for seq :: SequenceNumber
  by (simp add: unat_word_ariths)

context user_comparator
begin

lemma holds_op:
  assumes "holds cmp m h" "mem_op_ok x" "unat seq < 2 ^ 56" "before h (unat seq)"
  shows "\<exists>m'. handle (inserter_Put cmp) (inserter_Delete cmp) (seq, m) x = Some (seq + 1, m') \<and>
    holds cmp m' (h @ [op_entry seq x]) \<and> refs m' = refs m"
proof -
  have "seq \<le> kMaxSequenceNumber" using assms(3) by (simp add: word_le_nat_alt unat_kMaxSequenceNumber)
  then have "entry_ok (op_entry seq x)" using op_entry_ok assms(2) by blast
  moreover have "list_all (\<lambda>e. sequence (fst e) < seq) h" using assms(4) by (simp add: before_def word_less_nat_alt)
  ultimately obtain m' where "Mem_Add cmp m (sequence (fst (op_entry seq x))) (key_type (fst (op_entry seq x)))
        (user_key (fst (op_entry seq x))) (snd (op_entry seq x)) = Some m'" "holds cmp m' (h @ [op_entry seq x])" "refs m' = refs m"
    using holds_add [OF assms(1), of "fst (op_entry seq x)" "snd (op_entry seq x)"] by (simp del: entry_ok.simps) blast
  then show ?thesis by (cases x) simp_all
qed

lemma holds_ops:
  assumes "holds cmp m h" "list_all mem_op_ok ops" "unat seq + length ops \<le> 2 ^ 56" "before h (unat seq)"
  shows "\<exists>seq' m'. handle_all (inserter_Put cmp) (inserter_Delete cmp) ops (seq, m) = Some (seq', m') \<and>
    holds cmp m' (h @ op_entries seq ops) \<and> refs m' = refs m \<and> before (h @ op_entries seq ops) (unat seq + length ops)"
  using assms
proof (induction ops arbitrary: m h seq)
  case (Cons x xs)
  have lt: "unat seq < 2 ^ 56" using Cons.prems(3) by simp
  obtain m1 where m1: "handle (inserter_Put cmp) (inserter_Delete cmp) (seq, m) x = Some (seq + 1, m1)"
      "holds cmp m1 (h @ [op_entry seq x])" "refs m1 = refs m"
    using holds_op [OF Cons.prems(1) _ lt Cons.prems(4), of x] Cons.prems(2) by auto
  have "before (h @ [op_entry seq x]) (unat (seq + 1))"
    using Cons.prems(4) by (auto simp: before_def list_all_iff unat_next_sequence [OF lt])
  then obtain seq' m' where "handle_all (inserter_Put cmp) (inserter_Delete cmp) xs (seq + 1, m1) = Some (seq', m')"
      "holds cmp m' ((h @ [op_entry seq x]) @ op_entries (seq + 1) xs)" "refs m' = refs m1"
      "before ((h @ [op_entry seq x]) @ op_entries (seq + 1) xs) (unat (seq + 1) + length xs)"
    using Cons.IH [OF m1(2), of "seq + 1"] Cons.prems(2,3) unat_next_sequence [OF lt] by auto
  then show ?case using m1 unat_next_sequence [OF lt] by (auto simp del: entry_ok.simps)
qed simp

lemma holds_InsertInto:
  assumes "holds cmp m h" "list_all mem_op_ok ops" "unat seq + length ops \<le> 2 ^ 56" "before h (unat seq)"
  shows "\<exists>m'. InsertInto cmp (batch_of seq ops) m = Some (OK, m') \<and> holds cmp m' (h @ op_entries seq ops) \<and> refs m' = refs m \<and>
    before (h @ op_entries seq ops) (unat seq + length ops)"
proof -
  have "list_all op_fits ops" using assms(2) by (auto simp: list_all_iff mem_op_ok_def)
  then show ?thesis
    using holds_ops [OF assms] by (auto simp: InsertInto_def Iterate_batch_of batch_header)
qed

end

subsection \<open>Properties\<close>

text \<open>
  (C20) A memtable answers from the newest visible write: after any sequence of writes with ascending sequence numbers, looking
  up a key at a snapshot gives the value of the last write to that key up to the snapshot, the status \<^verbatim>\<open>NotFound\<close>
  when that write was a deletion, and false when there was none.
\<close>

theorem memtable_get_latest:
  assumes "list_all mem_op_ok ops" "unat seq + length ops \<le> 2 ^ 56" "length u + 8 < 2 ^ 32" "s \<le> kMaxSequenceNumber"
  shows "\<exists>m. InsertInto BytewiseCompare (SetSequence (foldl add_op Batch_Clear ops) seq) new_MemTable = Some (OK, m) \<and>
    Mem_Get BytewiseCompare m (new_LookupKey u s) = Some (get_spec (op_entries seq ops) u s)"
proof -
  have "before [] (unat seq)" by (simp add: before_def)
  from bytewise.holds_InsertInto [OF holds_new assms(1,2) this] obtain m where
    "InsertInto BytewiseCompare (batch_of seq ops) new_MemTable = Some (OK, m)" "holds BytewiseCompare m ([] @ op_entries seq ops)"
    by auto
  then show ?thesis
    using bytewise.holds_get [of m "op_entries seq ops" u s] assms(3,4) by (simp add: batch_Clear batch_build batch_header)
qed

theorem memtable_get_latest_witness:
  "\<exists>m. InsertInto BytewiseCompare (SetSequence (foldl add_op Batch_Clear [PutOp [1] [10], PutOp [1] [11], DeleteOp [1]]) 5) new_MemTable = Some (OK, m) \<and>
    Mem_Get BytewiseCompare m (new_LookupKey [1] 6) = Some (MemValue [11])"
  using memtable_get_latest [of "[PutOp [1] [10], PutOp [1] [11], DeleteOp [1]]" 5 "[1]" 6]
  by (simp add: mem_op_ok_def slice_fits_def get_spec_def visible_def kMaxSequenceNumber_def push_bit_eq_mult)

end
