(* ===== verification/Ldb_Db.thy ===== *)
theory Ldb_Db
  imports Ldb_Log_Spec Ldb_Memtable
begin

text \<open>
  The write path and the recovery of the database (\<^verbatim>\<open>db/db_impl.cc\<close>): how queued writers are joined into one batch, how a
  batch goes into the log and the memtable, how a lookup goes through the memtables, and how the records of a log are
  applied again when the database is opened.  Tables on disk are behind this interface: what they answer, when a
  memtable is full and what writing it to level 0 returns are arguments.
\<close>

subsection \<open>Group commit\<close>

record db_writer =
  w_batch :: "WriteBatch option"
  w_sync :: bool
  w_done :: bool
  w_status :: Status

text \<open>
  The loop of \<^verbatim>\<open>BuildBatchGroup\<close> over the writers behind the first one.  \<open>grp\<close> is \<^const>\<open>None\<close> as long as the result is the batch of
  the first writer, and then what is in \<^verbatim>\<open>tmp_batch_\<close>; \<open>fin\<close> is the position of the last writer in the group.
\<close>

fun group_loop ::
  "db_writer \<Rightarrow> WriteBatch \<Rightarrow> WriteBatch \<Rightarrow> nat \<Rightarrow> nat \<Rightarrow> WriteBatch option \<Rightarrow> nat \<Rightarrow> db_writer list \<Rightarrow> WriteBatch option \<times> nat" where
  "group_loop first fbatch tmp_batch max_size batch_size grp fin [] = (grp, fin)"
| "group_loop first fbatch tmp_batch max_size batch_size grp fin (w # ws) =
     (if w_sync w \<and> \<not> w_sync first then (grp, fin)
      else (case w_batch w of
              None \<Rightarrow> group_loop first fbatch tmp_batch max_size batch_size grp (fin + 1) ws
            | Some b \<Rightarrow>
                (let batch_size = batch_size + length b in
                 if batch_size > max_size then (grp, fin)
                 else (let grp = (case grp of None \<Rightarrow> Batch_Append tmp_batch fbatch | Some g \<Rightarrow> g)
                       in group_loop first fbatch tmp_batch max_size batch_size (Some (Batch_Append grp b)) (fin + 1) ws))))"

text \<open>The batch of the group, whether it is \<^verbatim>\<open>tmp_batch_\<close>, and the position of the last writer.\<close>

definition BuildBatchGroup :: "WriteBatch \<Rightarrow> db_writer list \<Rightarrow> (WriteBatch \<times> bool \<times> nat) option" where
  "BuildBatchGroup tmp_batch writers =
     (case writers of
        [] \<Rightarrow> None
      | first # ws \<Rightarrow>
          (case w_batch first of
             None \<Rightarrow> None
           | Some fbatch \<Rightarrow>
               (let batch_size = length fbatch;
                    max_size = (if batch_size \<le> 128 * 1024 then batch_size + 128 * 1024 else 1024 * 1024);
                    (grp, fin) = group_loop first fbatch tmp_batch max_size batch_size None 0 ws
                in Some (case grp of None \<Rightarrow> (fbatch, False, fin) | Some g \<Rightarrow> (g, True, fin)))))"

text \<open>Every writer of the group but the first is done, with the status of the group; the others stay in the queue.\<close>

fun finish_writers :: "Status \<Rightarrow> nat \<Rightarrow> db_writer list \<Rightarrow> db_writer list \<times> db_writer list" where
  "finish_writers status fin [] = ([], [])"
| "finish_writers status fin (w # ws) =
     (let group = take fin ws
      in (map (\<lambda>w. w\<lparr>w_status := status, w_done := True\<rparr>) group, drop fin ws))"

subsection \<open>Log and memtable\<close>

text \<open>
  The members of \<^verbatim>\<open>DBImpl\<close> the write path uses.  \<open>db_level0_files\<close>, \<open>db_other_score\<close>, \<open>db_next_file_number\<close> and \<open>db_last_sequence\<close> belong to
  \<^verbatim>\<open>versions_\<close>: the number of tables in level 0, whether a deeper level or a seek asks for a compaction, and the two counters.
  \<open>db_tables\<close> are the memtables that have been saved as tables, oldest first.
\<close>

record db_state =
  db_log :: Writer
  db_logfile_number :: uint64
  db_mem :: MemTable
  db_imm :: "MemTable option"
  db_tables :: "MemTable list"
  db_last_sequence :: SequenceNumber
  db_next_file_number :: uint64
  db_level0_files :: nat
  db_other_score :: bool
  db_bg_error :: Status
  db_bg_scheduled :: bool
  db_manual :: bool
  db_shutting_down :: bool

definition RecordBackgroundError :: "db_state \<Rightarrow> Status \<Rightarrow> db_state" where
  "RecordBackgroundError db s = (if db_bg_error db = OK then db\<lparr>db_bg_error := s\<rparr> else db)"

text \<open>
  The part of \<^verbatim>\<open>Write\<close> in which the first writer of the queue logs and applies the batch of its group.  A count is an \<^verbatim>\<open>int\<close>.  \<open>sync_status\<close>
  is what \<^verbatim>\<open>logfile_->Sync()\<close> returns.
\<close>

definition commit_group ::
  "(byte list \<Rightarrow> byte list \<Rightarrow> int) \<Rightarrow> Status \<Rightarrow> bool \<Rightarrow> db_state \<Rightarrow> WriteBatch \<Rightarrow> (Status \<times> db_state) option" where
  "commit_group cmp sync_status sync db updates = do {
     let updates = SetSequence updates (db_last_sequence db + 1);
     let last_sequence = db_last_sequence db + scast (Batch_Count updates);
     let (status, lg) = AddRecord (db_log db) updates;
     let db = db\<lparr>db_log := lg\<rparr>;
     let (status, sync_error) = (if status = OK \<and> sync then (sync_status, sync_status \<noteq> OK) else (status, False));
     (status, mem) \<leftarrow> (if status = OK then InsertInto cmp updates (db_mem db) else Some (status, db_mem db));
     let db = db\<lparr>db_mem := mem\<rparr>;
     let db = (if sync_error then RecordBackgroundError db status else db);
     Some (status, db\<lparr>db_last_sequence := last_sequence\<rparr>)
   }"

subsection \<open>Lookup\<close>

text \<open>
  \<^verbatim>\<open>Get\<close>: the memtable first, then the immutable one, then the tables of the current version, whose answer is \<open>tables\<close>.
\<close>

definition db_Get ::
  "(byte list \<Rightarrow> byte list \<Rightarrow> int) \<Rightarrow> (LookupKey \<Rightarrow> Status \<times> byte list) \<Rightarrow> MemTable \<Rightarrow> MemTable option \<Rightarrow> SequenceNumber \<Rightarrow>
   SequenceNumber option \<Rightarrow> byte list \<Rightarrow> (Status \<times> byte list option) option" where
  "db_Get cmp tables mem imm last_sequence snapshot key = do {
     let lkey = new_LookupKey key (case snapshot of Some s \<Rightarrow> s | None \<Rightarrow> last_sequence);
     r \<leftarrow> Mem_Get cmp mem lkey;
     r \<leftarrow> (case (r, imm) of (MemFalse, Some m) \<Rightarrow> Mem_Get cmp m lkey | _ \<Rightarrow> Some r);
     Some (case r of
             MemValue v \<Rightarrow> (OK, Some v)
           | MemStatus s \<Rightarrow> (s, None)
           | MemFalse \<Rightarrow> (case tables lkey of (s, v) \<Rightarrow> (s, if s = OK then Some v else None)))
   }"

subsection \<open>Recovery\<close>

definition MaybeIgnoreError :: "bool \<Rightarrow> Status \<Rightarrow> Status" where
  "MaybeIgnoreError paranoid s = (if s = OK \<or> paranoid then s else OK)"

record recovery =
  rec_status :: Status
  rec_mem :: "MemTable option"
  rec_max_sequence :: SequenceNumber
  rec_compactions :: nat
  rec_level0 :: "MemTable list"

text \<open>\<^verbatim>\<open>LogReporter::Corruption\<close>: with paranoid checks the first corruption becomes the status.\<close>

definition LogReporter_Corruption :: "bool \<Rightarrow> Status \<Rightarrow> recovery \<Rightarrow> recovery" where
  "LogReporter_Corruption paranoid s st = (if paranoid \<and> rec_status st = OK then st\<lparr>rec_status := s\<rparr> else st)"

definition note_reports :: "bool \<Rightarrow> (uint64 \<times> Status) list \<Rightarrow> recovery \<Rightarrow> recovery" where
  "note_reports paranoid rs st = fold (\<lambda>(_, s). LogReporter_Corruption paranoid s) rs st"

text \<open>
  One record.  \<open>full\<close> tells when the memory usage of a memtable is over the limit, \<open>level0 i\<close> is the status of the \<open>i\<close>-th
  \<^verbatim>\<open>WriteLevel0Table\<close>.
\<close>

definition replay_record ::
  "(byte list \<Rightarrow> byte list \<Rightarrow> int) \<Rightarrow> bool \<Rightarrow> (MemTable \<Rightarrow> bool) \<Rightarrow> (nat \<Rightarrow> Status) \<Rightarrow> byte list \<Rightarrow> recovery \<Rightarrow>
   (bool \<times> recovery) option" where
  "replay_record cmp paranoid full level0 record st =
     (if length record < 12
      then Some (True, LogReporter_Corruption paranoid (Corruption ''log record too small'') st)
      else do {
        let batch = SetContents record;
        let mem = (case rec_mem st of None \<Rightarrow> Mem_Ref new_MemTable | Some m \<Rightarrow> m);
        (s, mem) \<leftarrow> InsertInto cmp batch mem;
        let s = MaybeIgnoreError paranoid s;
        let st = st\<lparr>rec_status := s, rec_mem := Some mem\<rparr>;
        if s \<noteq> OK then Some (False, st)
        else (let last_seq = Batch_Sequence batch + scast (Batch_Count batch) - 1;
                  st = (if last_seq > rec_max_sequence st then st\<lparr>rec_max_sequence := last_seq\<rparr> else st)
              in if full mem
                 then (let s = level0 (rec_compactions st)
                       in Some (s = OK, st\<lparr>rec_status := s, rec_compactions := rec_compactions st + 1,
                                           rec_level0 := rec_level0 st @ [mem], rec_mem := None\<rparr>))
                 else Some (True, st))
      })"

function replay_loop ::
  "(byte list \<Rightarrow> byte list \<Rightarrow> int) \<Rightarrow> bool \<Rightarrow> (MemTable \<Rightarrow> bool) \<Rightarrow> (nat \<Rightarrow> Status) \<Rightarrow> Reader \<Rightarrow> recovery \<Rightarrow> recovery option" where
  "replay_loop cmp paranoid full level0 r st =
     (case ReadRecord r of
        (record, r') \<Rightarrow>
          (let st = note_reports paranoid (drop (length (reports r)) (reports r')) st
           in case record of
                None \<Rightarrow> Some st
              | Some data \<Rightarrow>
                  (if rec_status st \<noteq> OK then Some st
                   else do {
                     (more, st) \<leftarrow> replay_record cmp paranoid full level0 data st;
                     if more then replay_loop cmp paranoid full level0 r' st else Some st
                   })))"
  by pat_completeness auto
termination
  by (relation "measure (\<lambda>(cmp, paranoid, full, level0, r, st). remaining r)") (auto dest: ReadRecord_consumes [OF sym])

declare replay_loop.simps [simp del]

text \<open>
  \<^verbatim>\<open>RecoverLogFile\<close> for a log file that could be opened.  \<open>reuse\<close> is the appendable file and its size when the log may be used
  again and both calls for that succeed.  The result is the status, the largest sequence number, the memtables written to level
  0, and the log and memtable that stay in use.
\<close>

definition RecoverLogFile ::
  "(byte list \<Rightarrow> byte list \<Rightarrow> int) \<Rightarrow> bool \<Rightarrow> (MemTable \<Rightarrow> bool) \<Rightarrow> (nat \<Rightarrow> Status) \<Rightarrow> (WritableFile \<times> nat) option \<Rightarrow>
   SequentialFile \<Rightarrow> SequenceNumber \<Rightarrow>
   (Status \<times> SequenceNumber \<times> MemTable list \<times> (Writer \<times> MemTable) option) option" where
  "RecoverLogFile cmp paranoid full level0 reuse src max_sequence = do {
     let reader = new_Reader src True True 0;
     st \<leftarrow> replay_loop cmp paranoid full level0 reader
       \<lparr>rec_status = OK, rec_mem = None, rec_max_sequence = max_sequence, rec_compactions = 0, rec_level0 = []\<rparr>;
     Some (if rec_status st = OK \<and> reuse \<noteq> None \<and> rec_compactions st = 0
           then (case reuse of
                   Some (lfile, lfile_size) \<Rightarrow>
                     (OK, rec_max_sequence st, rec_level0 st,
                      Some (new_Writer lfile lfile_size,
                            case rec_mem st of Some m \<Rightarrow> m | None \<Rightarrow> Mem_Ref new_MemTable))
                 | None \<Rightarrow> (OK, rec_max_sequence st, rec_level0 st, None))
           else (case rec_mem st of
                   None \<Rightarrow> (rec_status st, rec_max_sequence st, rec_level0 st, None)
                 | Some m \<Rightarrow>
                     (if rec_status st = OK
                      then (level0 (rec_compactions st), rec_max_sequence st, rec_level0 st @ [m], None)
                      else (rec_status st, rec_max_sequence st, rec_level0 st, None))))
   }"

subsection \<open>Committing and replaying\<close>

primrec commit_all ::
  "(byte list \<Rightarrow> byte list \<Rightarrow> int) \<Rightarrow> db_state \<Rightarrow> batch_op list list \<Rightarrow> db_state option" where
  "commit_all cmp db [] = Some db"
| "commit_all cmp db (ops # groups) = do {
     (s, db) \<leftarrow> commit_group cmp OK True db (foldl add_op Batch_Clear ops);
     if s = OK then commit_all cmp db groups else None
   }"

text \<open>The batches that groups of operations become, numbered from \<open>seq\<close> on, and the history they write.\<close>

primrec numbered :: "SequenceNumber \<Rightarrow> batch_op list list \<Rightarrow> WriteBatch list" where
  "numbered seq [] = []"
| "numbered seq (ops # groups) = batch_of (seq + 1) ops # numbered (seq + of_nat (length ops)) groups"

primrec history :: "SequenceNumber \<Rightarrow> batch_op list list \<Rightarrow> mem_entry list" where
  "history seq [] = []"
| "history seq (ops # groups) = op_entries (seq + 1) ops @ history (seq + of_nat (length ops)) groups"

definition new_db :: "WritableFile \<Rightarrow> db_state" where
  "new_db f = \<lparr>db_log = new_Writer f 0, db_logfile_number = 3, db_mem = Mem_Ref new_MemTable, db_imm = None, db_tables = [],
     db_last_sequence = 0, db_next_file_number = 4, db_level0_files = 0, db_other_score = False, db_bg_error = OK,
     db_bg_scheduled = False, db_manual = False, db_shutting_down = False\<rparr>"

lemma holds_Ref: "holds cmp (Mem_Ref m) h = holds cmp m h"
  by (simp add: holds_def Mem_Ref_def)

lemma scast_count: "n < 2 ^ 31 \<Longrightarrow> scast (of_nat n :: uint32) = (of_nat n :: uint64)"
proof -
  assume n: "n < 2 ^ 31"
  have "sint (of_nat n :: uint32) = int n"
    using n by (simp add: signed_of_nat signed_take_bit_int_eq_self)
  then show ?thesis by (simp add: scast_eq)
qed

definition seq_room :: "SequenceNumber \<Rightarrow> nat \<Rightarrow> bool" where
  "seq_room seq n \<longleftrightarrow> unat seq + n < 2 ^ 31"

lemma seq_room_unat:
  assumes "seq_room seq (length ops + n)"
  shows "unat (seq + 1) = unat seq + 1" "unat (seq + of_nat (length ops)) = unat seq + length ops"
    "seq_room (seq + of_nat (length ops)) n" "unat (seq + 1) + length ops \<le> 2 ^ 56" "length ops < 2 ^ 31"
proof -
  show a: "unat (seq + 1) = unat seq + 1" using assms by (simp add: seq_room_def unat_word_ariths)
  have "unat (of_nat (length ops) :: uint64) = length ops" using assms by (intro unat_of_nat_small) (simp add: seq_room_def)
  then show b: "unat (seq + of_nat (length ops)) = unat seq + length ops"
    using assms by (simp add: seq_room_def unat_word_ariths)
  show "seq_room (seq + of_nat (length ops)) n" using assms b by (simp add: seq_room_def)
  show "unat (seq + 1) + length ops \<le> 2 ^ 56" using assms a by (simp add: seq_room_def)
  show "length ops < 2 ^ 31" using assms by (simp add: seq_room_def)
qed

context user_comparator
begin

lemma commit_group_ok:
  assumes "writing (db_log db)" "holds cmp (db_mem db) h" "before h (unat (db_last_sequence db) + 1)"
    and "list_all mem_op_ok ops" "seq_room (db_last_sequence db) (length ops + n)"
  shows "\<exists>db'. commit_group cmp OK sync db (foldl add_op Batch_Clear ops) = Some (OK, db') \<and>
    AddRecord (db_log db) (batch_of (db_last_sequence db + 1) ops) = (OK, db_log db') \<and> writing (db_log db') \<and>
    holds cmp (db_mem db') (h @ op_entries (db_last_sequence db + 1) ops) \<and>
    db_last_sequence db' = db_last_sequence db + of_nat (length ops) \<and>
    before (h @ op_entries (db_last_sequence db + 1) ops) (unat (db_last_sequence db') + 1)"
proof -
  note rm = seq_room_unat [OF assms(5)]
  let ?b = "batch_of (db_last_sequence db + 1) ops"
  obtain lg where lg: "AddRecord (db_log db) ?b = (OK, lg)" "writing lg"
    using add_loop_emit [OF assms(1), of ?b True] by (auto simp: AddRecord_def)
  obtain m where m: "InsertInto cmp ?b (db_mem db) = Some (OK, m)" "holds cmp m (h @ op_entries (db_last_sequence db + 1) ops)"
      "before (h @ op_entries (db_last_sequence db + 1) ops) (unat (db_last_sequence db + 1) + length ops)"
    using holds_InsertInto [OF assms(2,4) rm(4)] assms(3) rm(1) by auto
  have "commit_group cmp OK sync db (foldl add_op Batch_Clear ops) =
      Some (OK, db\<lparr>db_log := lg, db_mem := m, db_last_sequence := db_last_sequence db + of_nat (length ops)\<rparr>)"
    using lg(1) m(1) by (simp add: commit_group_def batch_Clear batch_build batch_header Let_def scast_count [OF rm(5)])
  then show ?thesis using lg m rm by simp
qed

lemma commit_all_ok:
  assumes "writing (db_log db)" "holds cmp (db_mem db) h" "before h (unat (db_last_sequence db) + 1)"
    and "list_all (list_all mem_op_ok) groups" "seq_room (db_last_sequence db) (length (concat groups) + n)"
  shows "\<exists>db'. commit_all cmp db groups = Some db' \<and>
    AddRecords (db_log db) (numbered (db_last_sequence db) groups) = (OK, db_log db') \<and> writing (db_log db') \<and>
    holds cmp (db_mem db') (h @ history (db_last_sequence db) groups) \<and>
    db_last_sequence db' = db_last_sequence db + of_nat (length (concat groups)) \<and>
    before (h @ history (db_last_sequence db) groups) (unat (db_last_sequence db') + 1) \<and> seq_room (db_last_sequence db') n"
  using assms
proof (induction groups arbitrary: db h)
  case (Cons ops groups)
  have sr: "seq_room (db_last_sequence db) (length ops + (length (concat groups) + n))"
    using Cons.prems(5) by (simp add: add.assoc)
  obtain db1 where db1: "commit_group cmp OK True db (foldl add_op Batch_Clear ops) = Some (OK, db1)"
      "AddRecord (db_log db) (batch_of (db_last_sequence db + 1) ops) = (OK, db_log db1)" "writing (db_log db1)"
      "holds cmp (db_mem db1) (h @ op_entries (db_last_sequence db + 1) ops)"
      "db_last_sequence db1 = db_last_sequence db + of_nat (length ops)"
      "before (h @ op_entries (db_last_sequence db + 1) ops) (unat (db_last_sequence db1) + 1)"
    using commit_group_ok [OF Cons.prems(1-3) _ sr, of True] Cons.prems(4) by auto
  have "seq_room (db_last_sequence db1) (length (concat groups) + n)" using seq_room_unat(3) [OF sr] db1(5) by simp
  from Cons.IH [OF db1(3,4,6) _ this] Cons.prems(4) db1 show ?case by (auto simp: add.assoc)
qed simp

end

definition mem_of :: "recovery \<Rightarrow> MemTable" where
  "mem_of st = (case rec_mem st of None \<Rightarrow> Mem_Ref new_MemTable | Some m \<Rightarrow> m)"

context user_comparator
begin

lemma replay_record_ok:
  assumes "rec_status st = OK" "holds cmp (mem_of st) h" "before h (unat seq + 1)" "rec_max_sequence st = seq"
    and "list_all mem_op_ok ops" "seq_room seq (length ops + n)"
  shows "\<exists>m. replay_record cmp paranoid (\<lambda>_. False) level0 (batch_of (seq + 1) ops) st =
      Some (True, st\<lparr>rec_mem := Some m, rec_max_sequence := seq + of_nat (length ops)\<rparr>) \<and>
    holds cmp m (h @ op_entries (seq + 1) ops) \<and> before (h @ op_entries (seq + 1) ops) (unat (seq + of_nat (length ops)) + 1)"
proof -
  note rm = seq_room_unat [OF assms(6)]
  obtain m where m: "InsertInto cmp (batch_of (seq + 1) ops) (mem_of st) = Some (OK, m)" "holds cmp m (h @ op_entries (seq + 1) ops)"
      "before (h @ op_entries (seq + 1) ops) (unat (seq + 1) + length ops)"
    using holds_InsertInto [OF assms(2,5) rm(4)] assms(3) rm(1) by auto
  have "\<not> length (batch_of (seq + 1) ops) < 12" using batch_header(5) [of "seq + 1" ops] by (simp add: kHeader_def)
  moreover have "seq + 1 + of_nat (length ops) - 1 = seq + of_nat (length ops)" by simp
  moreover have "seq < seq + of_nat (length ops) \<or> length ops = 0" using rm(2) by (auto simp: word_less_nat_alt)
  then have "(let st = st\<lparr>rec_status := OK, rec_mem := Some m\<rparr>; last_seq = seq + of_nat (length ops)
      in if last_seq > rec_max_sequence st then st\<lparr>rec_max_sequence := last_seq\<rparr> else st) =
      st\<lparr>rec_mem := Some m, rec_max_sequence := seq + of_nat (length ops)\<rparr>"
    using assms(1,4) by (cases st) auto
  ultimately have "replay_record cmp paranoid (\<lambda>_. False) level0 (batch_of (seq + 1) ops) st =
      Some (True, st\<lparr>rec_mem := Some m, rec_max_sequence := seq + of_nat (length ops)\<rparr>)"
    using m(1) batch_header(1,2) [of "seq + 1" ops]
    by (simp add: replay_record_def SetContents_def mem_of_def MaybeIgnoreError_def Let_def scast_count [OF rm(5)] split: if_splits)
  then show ?thesis using m(2,3) rm(1,2) by (intro exI [of _ m]) simp
qed

lemma replay_numbered:
  assumes "ready r bo (fst (emit_all bo (numbered seq groups)) @ S)" "rec_status st = OK" "holds cmp (mem_of st) h"
    and "before h (unat seq + 1)" "rec_max_sequence st = seq" "list_all (list_all mem_op_ok) groups"
    and "seq_room seq (length (concat groups) + n)"
  shows "\<exists>r' st'. replay_loop cmp paranoid (\<lambda>_. False) level0 r st = replay_loop cmp paranoid (\<lambda>_. False) level0 r' st' \<and>
    ready r' (snd (emit_all bo (numbered seq groups))) S \<and> rec_status st' = OK \<and>
    holds cmp (mem_of st') (h @ history seq groups) \<and> rec_max_sequence st' = seq + of_nat (length (concat groups)) \<and>
    rec_compactions st' = rec_compactions st \<and> rec_level0 st' = rec_level0 st"
  using assms
proof (induction groups arbitrary: r bo seq st h)
  case Nil
  then show ?case by (intro exI [of _ r] exI [of _ st]) simp
next
  case (Cons ops groups)
  let ?seq = "seq + of_nat (length ops)"
  have sr: "seq_room seq (length ops + (length (concat groups) + n))" using Cons.prems(7) by (simp add: add.assoc)
  obtain b bo1 bs bo2 where e: "emit bo (batch_of (seq + 1) ops) True = (b, bo1)" "emit_all bo1 (numbered ?seq groups) = (bs, bo2)"
    by fastforce
  with Cons.prems(1) have "ready r bo (fst (emit bo (batch_of (seq + 1) ops) True) @ bs @ S)" by simp
  from ReadRecord_emit [OF this] e obtain r1 where r1: "ReadRecord r = (Some (batch_of (seq + 1) ops), r1)" "ready r1 bo1 (bs @ S)"
      "reports r1 = reports r" by auto
  obtain m where m: "replay_record cmp paranoid (\<lambda>_. False) level0 (batch_of (seq + 1) ops) st =
      Some (True, st\<lparr>rec_mem := Some m, rec_max_sequence := ?seq\<rparr>)" "holds cmp m (h @ op_entries (seq + 1) ops)"
      "before (h @ op_entries (seq + 1) ops) (unat ?seq + 1)"
    using replay_record_ok [OF Cons.prems(2-5) _ sr] Cons.prems(6) by auto
  let ?st = "st\<lparr>rec_mem := Some m, rec_max_sequence := ?seq\<rparr>"
  have "replay_loop cmp paranoid (\<lambda>_. False) level0 r st = replay_loop cmp paranoid (\<lambda>_. False) level0 r1 ?st"
    using r1(1,3) m(1) Cons.prems(2) by (simp add: replay_loop.simps [of _ _ _ _ r] note_reports_def)
  moreover have "ready r1 bo1 (fst (emit_all bo1 (numbered ?seq groups)) @ S)" "holds cmp (mem_of ?st) (h @ op_entries (seq + 1) ops)"
      "seq_room ?seq (length (concat groups) + n)"
    using r1(2) e m(2) seq_room_unat(3) [OF sr] by (simp_all add: mem_of_def)
  moreover note Cons.IH [of r1 bo1 ?seq ?st "h @ op_entries (seq + 1) ops"]
  ultimately show ?case using Cons.prems(2,6) m(3) e by (auto simp: add.assoc)
qed

end

subsection \<open>Group commit is one batch\<close>

text \<open>Writers whose batches hold the operations \<open>opss\<close>; a writer without a batch has no operations.\<close>

definition writes :: "db_writer \<Rightarrow> batch_op list \<Rightarrow> bool" where
  "writes w ops \<longleftrightarrow> (case w_batch w of None \<Rightarrow> ops = [] | Some b \<Rightarrow> \<exists>seq. b = batch_of seq ops)"

lemma group_loop_correct:
  assumes "list_all2 writes ws opss" "fbatch = batch_of seq ops"
    and "case grp of None \<Rightarrow> pre = [] | Some g \<Rightarrow> g = batch_of 0 (ops @ pre)"
    and "group_loop first fbatch Batch_Clear max_size batch_size grp fin ws = (grp', fin')"
  shows "\<exists>n \<le> length ws. fin' = fin + n \<and>
    (case grp' of None \<Rightarrow> pre @ concat (take n opss) = [] | Some g \<Rightarrow> g = batch_of 0 (ops @ pre @ concat (take n opss))) \<and>
    (\<not> w_sync first \<longrightarrow> list_all (\<lambda>w. \<not> w_sync w) (take n ws))"
  using assms
proof (induction ws arbitrary: opss grp pre batch_size fin)
  case Nil
  then show ?case by (intro exI [of _ 0]) (auto split: option.splits)
next
  case (Cons w ws)
  then obtain ops1 opss1 where o: "opss = ops1 # opss1" "writes w ops1" "list_all2 writes ws opss1" by (auto simp: list_all2_Cons1)
  have stop: ?case if "group_loop first fbatch Batch_Clear max_size batch_size grp fin (w # ws) = (grp, fin)"
  proof -
    have "grp' = grp" "fin' = fin" using that Cons.prems(4) by (simp_all del: group_loop.simps)
    then show ?thesis using Cons.prems(3) by (intro exI [of _ 0]) (auto split: option.splits)
  qed
  have step: ?case if a: "group_loop first fbatch Batch_Clear max_size size1 grp1 (fin + 1) ws = (grp', fin')"
      "case grp1 of None \<Rightarrow> pre @ ops1 = [] | Some g \<Rightarrow> g = batch_of 0 (ops @ pre @ ops1)"
      "\<not> w_sync first \<longrightarrow> \<not> w_sync w" for size1 grp1
  proof -
    obtain n where "n \<le> length ws" "fin' = fin + 1 + n"
        "case grp' of None \<Rightarrow> (pre @ ops1) @ concat (take n opss1) = [] | Some g \<Rightarrow> g = batch_of 0 (ops @ (pre @ ops1) @ concat (take n opss1))"
        "\<not> w_sync first \<longrightarrow> list_all (\<lambda>w. \<not> w_sync w) (take n ws)"
      using Cons.IH [OF o(3) Cons.prems(2) _ a(1), of "pre @ ops1"] a(2) by (auto split: option.splits)
    then show ?thesis using a(3) o(1) by (intro exI [of _ "Suc n"]) (auto split: option.splits)
  qed
  show ?case
  proof (cases "w_sync w \<and> \<not> w_sync first")
    case True
    then show ?thesis using stop by simp
  next
    case False
    show ?thesis
    proof (cases "w_batch w")
      case None
      then show ?thesis using False Cons.prems(3,4) o(2) by (intro step [of batch_size grp]) (auto simp: writes_def split: option.splits)
    next
      case (Some b)
      then obtain seq1 where b: "b = batch_of seq1 ops1" using o(2) by (auto simp: writes_def)
      show ?thesis
      proof (cases "batch_size + length b > max_size")
        case True
        then show ?thesis using stop False Some by (simp add: Let_def)
      next
        case fits: False
        let ?g = "case grp of None \<Rightarrow> Batch_Append Batch_Clear fbatch | Some g \<Rightarrow> g"
        have "?g = batch_of 0 (ops @ pre)"
          using Cons.prems(2,3) by (cases grp) (simp_all add: batch_Clear batch_append)
        then have "Batch_Append ?g b = batch_of 0 (ops @ pre @ ops1)" by (simp add: b batch_append)
        then show ?thesis
          using False fits Some Cons.prems(4) by (intro step [of "batch_size + length b" "Some (Batch_Append ?g b)"]) (auto simp: Let_def)
      qed
    qed
  qed
qed

text \<open>
  Group commit: the batch that is written for the writers at the head of the queue holds the operations of these writers, in the order of the
  queue, from the first to the one reported as the last; a writer that does not ask for a sync never takes one along that does.
\<close>

lemma group_commit:
  assumes "list_all2 writes (first # ws) opss" "BuildBatchGroup Batch_Clear (first # ws) = Some (b, tmp, fin)"
  shows "fin \<le> length ws \<and> SetSequence b seq = batch_of seq (concat (take (Suc fin) opss)) \<and>
    (w_sync first \<or> list_all (\<lambda>w. w_sync w = False) (take fin ws))"
proof -
  obtain ops opss1 where o: "opss = ops # opss1" "writes first ops" "list_all2 writes ws opss1" using assms(1) by (auto simp: list_all2_Cons1)
  obtain fbatch where fb: "w_batch first = Some fbatch" using assms(2) by (auto simp: BuildBatchGroup_def split: option.splits)
  then obtain s where s: "fbatch = batch_of s ops" using o(2) by (auto simp: writes_def)
  obtain mx grp where gl: "group_loop first fbatch Batch_Clear mx (length fbatch) None 0 ws = (grp, fin)"
      "b = (case grp of None \<Rightarrow> fbatch | Some g \<Rightarrow> g)"
    using assms(2) fb by (auto simp: BuildBatchGroup_def Let_def split: option.splits prod.splits)
  obtain n where n: "n \<le> length ws" "fin = n"
      "case grp of None \<Rightarrow> concat (take n opss1) = [] | Some g \<Rightarrow> g = batch_of 0 (ops @ concat (take n opss1))"
      "\<not> w_sync first \<longrightarrow> list_all (\<lambda>w. \<not> w_sync w) (take n ws)"
    using group_loop_correct [OF o(3) s _ gl(1), of "[]", unfolded append_Nil] by auto
  from n(3) gl(2) s have "SetSequence b seq = batch_of seq (ops @ concat (take n opss1))"
    by (cases grp) (simp_all add: batch_header del: concat_eq_Nil_conv)
  then show ?thesis using n(1,2,4) o(1) by auto
qed

lemma committed:
  assumes "reliable f" "contents f = []" "list_all (list_all mem_op_ok) groups" "list_all mem_op_ok ops"
    and "length (concat groups) + length ops < 2 ^ 31"
  obtains db db' where "commit_all BytewiseCompare (new_db f) groups = Some db"
    "commit_group BytewiseCompare OK sync db (foldl add_op Batch_Clear ops) = Some (OK, db')"
    "db_last_sequence db = of_nat (length (concat groups))" "holds BytewiseCompare (db_mem db) (history 0 groups)"
    "contents (dest (db_log db)) = fst (emit_all 0 (numbered 0 groups))"
    "contents (dest (db_log db')) = contents (dest (db_log db)) @
       fst (emit (snd (emit_all 0 (numbered 0 groups))) (batch_of (db_last_sequence db + 1) ops) True)"
proof -
  have w: "writing (db_log (new_db f))" "holds BytewiseCompare (db_mem (new_db f)) []" "db_last_sequence (new_db f) = 0"
    using writing_new_Writer [OF assms(1)] holds_new by (simp_all add: new_db_def holds_Ref)
  have b0: "before [] (unat (db_last_sequence (new_db f)) + 1)" by (simp add: before_def)
  have sr: "seq_room 0 (length (concat groups) + length ops)" using assms(5) by (simp add: seq_room_def)
  obtain db where db: "commit_all BytewiseCompare (new_db f) groups = Some db"
      "AddRecords (db_log (new_db f)) (numbered 0 groups) = (OK, db_log db)" "writing (db_log db)"
      "holds BytewiseCompare (db_mem db) (history 0 groups)" "db_last_sequence db = of_nat (length (concat groups))"
      "before (history 0 groups) (unat (db_last_sequence db) + 1)" "seq_room (db_last_sequence db) (length ops + 0)"
    using bytewise.commit_all_ok [OF w(1,2) b0 assms(3), of "length ops"] sr unfolding w(3) by auto
  let ?x = "batch_of (db_last_sequence db + 1) ops"
  obtain db' where db': "commit_group BytewiseCompare OK sync db (foldl add_op Batch_Clear ops) = Some (OK, db')"
      "AddRecord (db_log db) ?x = (OK, db_log db')"
    using bytewise.commit_group_ok [OF db(3,4,6) assms(4) db(7), of sync] by auto
  have c: "contents (dest (db_log db)) = fst (emit_all 0 (numbered 0 groups))"
      "block_offset (db_log db) = snd (emit_all 0 (numbered 0 groups))"
    using AddRecords_emit [OF w(1), of "numbered 0 groups"] db(2) assms(2) by (auto simp: new_db_def new_Writer_def)
  have "contents (dest (db_log db')) = contents (dest (db_log db)) @ fst (emit (block_offset (db_log db)) ?x True)"
    using add_loop_emit [of "db_log db" ?x True] db(3) db'(2) by (auto simp: AddRecord_def)
  then show thesis using that [OF db(1) db'(1) db(5,4) c(1)] c(2) by simp
qed

subsection \<open>Properties\<close>



end
