(* ===== verification/Ldb_Room.thy ===== *)
theory Ldb_Room
  imports Ldb_Db
begin

text \<open>
  The background thread and the writer that waits for it (\<^verbatim>\<open>db/db_impl.cc\<close>): scheduling of background work, saving the immutable
  memtable, \<^verbatim>\<open>MakeRoomForWrite\<close>, and \<^verbatim>\<open>Write\<close> for the writer at the front of the queue.  A call of the background
  thread is one step; what it gets from the tables and the manifest is its outcome.
\<close>

subsection \<open>Background work\<close>

definition kL0_CompactionTrigger :: nat where "kL0_CompactionTrigger = 4"

definition kL0_SlowdownWritesTrigger :: nat where "kL0_SlowdownWritesTrigger = 8"

definition kL0_StopWritesTrigger :: nat where "kL0_StopWritesTrigger = 12"

definition NewFileNumber :: "db_state \<Rightarrow> uint64 \<times> db_state" where
  "NewFileNumber db = (db_next_file_number db, db\<lparr>db_next_file_number := db_next_file_number db + 1\<rparr>)"

definition ReuseFileNumber :: "uint64 \<Rightarrow> db_state \<Rightarrow> db_state" where
  "ReuseFileNumber file_number db =
     (if db_next_file_number db = file_number + 1 then db\<lparr>db_next_file_number := file_number\<rparr> else db)"

text \<open>The score of level 0 is the number of its files divided by the trigger (\<^verbatim>\<open>VersionSet::Finalize\<close>).\<close>

definition NeedsCompaction :: "db_state \<Rightarrow> bool" where
  "NeedsCompaction db \<longleftrightarrow> db_level0_files db \<ge> kL0_CompactionTrigger \<or> db_other_score db"

definition MaybeScheduleCompaction :: "db_state \<Rightarrow> db_state" where
  "MaybeScheduleCompaction db =
     (if db_bg_scheduled db then db
      else if db_shutting_down db then db
      else if db_bg_error db \<noteq> OK then db
      else if db_imm db = None \<and> \<not> db_manual db \<and> \<not> NeedsCompaction db then db
      else db\<lparr>db_bg_scheduled := True\<rparr>)"

text \<open>
  What a background call meets: the status of building a table, of \<^verbatim>\<open>LogAndApply\<close> and of a compaction of tables, and, when it
  succeeds, the number of files in level 0 and whether another level asks for a compaction afterwards.
\<close>

record bg_outcome =
  o_build :: Status
  o_apply :: Status
  o_compact :: Status
  o_level0_files :: nat
  o_other_score :: bool

definition new_version :: "bg_outcome \<Rightarrow> db_state \<Rightarrow> db_state" where
  "new_version out db = db\<lparr>db_level0_files := o_level0_files out, db_other_score := o_other_score out\<rparr>"

definition CompactMemTable :: "bg_outcome \<Rightarrow> MemTable \<Rightarrow> db_state \<Rightarrow> db_state" where
  "CompactMemTable out imm db =
     (let db = snd (NewFileNumber db);
          s = o_build out;
          s = (if s = OK \<and> db_shutting_down db then IOError ''Deleting DB during memtable compaction'' else s);
          s = (if s = OK then o_apply out else s)
      in if s = OK then (new_version out db)\<lparr>db_tables := db_tables db @ [imm], db_imm := None\<rparr>
         else RecordBackgroundError db s)"

definition BackgroundCompaction :: "bg_outcome \<Rightarrow> db_state \<Rightarrow> db_state" where
  "BackgroundCompaction out db =
     (case db_imm db of
        Some imm \<Rightarrow> CompactMemTable out imm db
      | None \<Rightarrow>
          (let db = (if o_compact out = OK then new_version out db else RecordBackgroundError db (o_compact out))
           in db\<lparr>db_manual := False\<rparr>))"

definition BackgroundCall :: "bg_outcome \<Rightarrow> db_state \<Rightarrow> db_state" where
  "BackgroundCall out db =
     (let db = (if db_shutting_down db then db
                else if db_bg_error db \<noteq> OK then db
                else BackgroundCompaction out db)
      in MaybeScheduleCompaction (db\<lparr>db_bg_scheduled := False\<rparr>))"

subsection \<open>Making room\<close>

text \<open>What the loop of \<^verbatim>\<open>MakeRoomForWrite\<close> finds to do.\<close>

datatype room_action = RoomDone Status | RoomDelay | RoomWait | RoomSwitch

record room_env =
  usage :: "MemTable \<Rightarrow> nat"
  write_buffer_size :: nat
  NewWritableFile :: "uint64 \<Rightarrow> Status \<times> WritableFile"

definition room_action :: "room_env \<Rightarrow> bool \<Rightarrow> bool \<Rightarrow> db_state \<Rightarrow> room_action" where
  "room_action env force allow_delay db =
     (if db_bg_error db \<noteq> OK then RoomDone (db_bg_error db)
      else if allow_delay \<and> db_level0_files db \<ge> kL0_SlowdownWritesTrigger then RoomDelay
      else if \<not> force \<and> usage env (db_mem db) \<le> write_buffer_size env then RoomDone OK
      else if db_imm db \<noteq> None then RoomWait
      else if db_level0_files db \<ge> kL0_StopWritesTrigger then RoomWait
      else RoomSwitch)"

definition switch_memtable :: "room_env \<Rightarrow> db_state \<Rightarrow> Status \<times> db_state" where
  "switch_memtable env db =
     (let (new_log_number, db) = NewFileNumber db;
          (s, lfile) = NewWritableFile env new_log_number
      in if s \<noteq> OK then (s, ReuseFileNumber new_log_number db)
         else (OK, MaybeScheduleCompaction
                (db\<lparr>db_log := new_Writer lfile 0, db_logfile_number := new_log_number,
                    db_imm := Some (db_mem db), db_mem := Mem_Ref new_MemTable\<rparr>)))"

lemma room_action_simps:
  "room_action env force allow_delay db = RoomDelay \<Longrightarrow> allow_delay"
  "room_action env force allow_delay db = RoomSwitch \<Longrightarrow> db_imm db = None"
  by (auto simp: room_action_def split: if_splits)

lemma MaybeScheduleCompaction_frame [simp]:
  "db_imm (MaybeScheduleCompaction db) = db_imm db" "db_mem (MaybeScheduleCompaction db) = db_mem db"
  "db_tables (MaybeScheduleCompaction db) = db_tables db" "db_log (MaybeScheduleCompaction db) = db_log db"
  "db_last_sequence (MaybeScheduleCompaction db) = db_last_sequence db" "db_bg_error (MaybeScheduleCompaction db) = db_bg_error db"
  "db_shutting_down (MaybeScheduleCompaction db) = db_shutting_down db" "db_manual (MaybeScheduleCompaction db) = db_manual db"
  "db_level0_files (MaybeScheduleCompaction db) = db_level0_files db" "NeedsCompaction (MaybeScheduleCompaction db) = NeedsCompaction db"
  by (simp_all add: MaybeScheduleCompaction_def NeedsCompaction_def)

lemma switch_memtable_imm: "switch_memtable env db = (OK, db') \<Longrightarrow> db_imm db' = Some (db_mem db)"
  by (auto simp: switch_memtable_def NewFileNumber_def split: prod.splits if_splits)

text \<open>Background calls that run while the writer sleeps: only a scheduled call runs.\<close>

primrec background_runs :: "bg_outcome list \<Rightarrow> db_state \<Rightarrow> db_state" where
  "background_runs [] db = db"
| "background_runs (out # outs) db =
     (if db_bg_scheduled db then background_runs outs (BackgroundCall out db) else db)"

text \<open>
  The loop.  A wait ends when a background call has finished; \<open>outs\<close> are the outcomes of the calls the writer waits for.  \<^const>\<open>None\<close> means that the
  writer still waits when they are used up, or waits although no call is scheduled.
\<close>

function room_loop ::
  "room_env \<Rightarrow> bg_outcome list \<Rightarrow> bool \<Rightarrow> bool \<Rightarrow> bg_outcome list \<Rightarrow> db_state \<Rightarrow> (Status \<times> bg_outcome list \<times> db_state) option" where
  "room_loop env asleep force allow_delay outs db =
     (case room_action env force allow_delay db of
        RoomDone s \<Rightarrow> Some (s, outs, db)
      | RoomDelay \<Rightarrow> room_loop env asleep force False outs (background_runs asleep db)
      | RoomWait \<Rightarrow>
          (case outs of
             [] \<Rightarrow> None
           | out # outs \<Rightarrow>
               (if db_bg_scheduled db then room_loop env asleep force allow_delay outs (BackgroundCall out db) else None))
      | RoomSwitch \<Rightarrow>
          (case switch_memtable env db of
             (s, db) \<Rightarrow> (if s \<noteq> OK then Some (s, outs, db) else room_loop env asleep False allow_delay outs db)))"
  by pat_completeness auto
termination
  by (relation "inv_image (less_than <*lex*> less_than <*lex*> less_than)
      (\<lambda>(env, asleep, force, allow_delay, outs, db). (if allow_delay then 1 else 0 :: nat, length outs, if db_imm db = None then 1 else 0 :: nat))")
    (auto dest: room_action_simps switch_memtable_imm [OF sym])

declare room_loop.simps [simp del]

definition MakeRoomForWrite ::
  "room_env \<Rightarrow> bg_outcome list \<Rightarrow> bool \<Rightarrow> bg_outcome list \<Rightarrow> db_state \<Rightarrow> (Status \<times> bg_outcome list \<times> db_state) option" where
  "MakeRoomForWrite env asleep force outs db = room_loop env asleep force (\<not> force) outs db"

subsection \<open>Writing\<close>

text \<open>
  \<^verbatim>\<open>Write\<close> for the writer at the front of the queue: its status, the writers it has finished, the queue that is left, and the database.
\<close>

definition db_Write ::
  "(byte list \<Rightarrow> byte list \<Rightarrow> int) \<Rightarrow> room_env \<Rightarrow> bg_outcome list \<Rightarrow> Status \<Rightarrow> bg_outcome list \<Rightarrow> db_writer list \<Rightarrow> db_state \<Rightarrow>
   (Status \<times> db_writer list \<times> db_writer list \<times> bg_outcome list \<times> db_state) option" where
  "db_Write cmp env asleep sync_status outs writers db =
     (case writers of
        [] \<Rightarrow> None
      | w # _ \<Rightarrow> do {
          (status, outs, db) \<leftarrow> MakeRoomForWrite env asleep (w_batch w = None) outs db;
          (status, last_writer, db) \<leftarrow>
            (if status = OK \<and> w_batch w \<noteq> None
             then do {
               (updates, is_tmp, last_writer) \<leftarrow> BuildBatchGroup Batch_Clear writers;
               (status, db) \<leftarrow> commit_group cmp sync_status (w_sync w) db updates;
               Some (status, last_writer, db)
             }
             else Some (status, 0, db));
          let (finished, writers) = finish_writers status last_writer writers;
          Some (status, finished, writers, outs, db)
        })"

subsection \<open>The threads\<close>

text \<open>
  The steps of the threads that share the state: a writer switches memtables or commits a batch, a scheduled background call runs, a reader
  charges a seek to a file, a manual compaction is asked for or given up, and the database is shut down.
\<close>

inductive db_step :: "db_state \<Rightarrow> db_state \<Rightarrow> bool" where
  switch: "room_action env force allow_delay db = RoomSwitch \<Longrightarrow> switch_memtable env db = (s, db') \<Longrightarrow> db_step db db'"
| commit: "commit_group cmp sync_status sync db updates = Some (s, db') \<Longrightarrow> db_step db db'"
| background: "db_bg_scheduled db \<Longrightarrow> db_step db (BackgroundCall out db)"
| seek: "db_step db (MaybeScheduleCompaction (db\<lparr>db_other_score := True\<rparr>))"
| manual: "\<not> db_manual db \<Longrightarrow> db_step db (MaybeScheduleCompaction (db\<lparr>db_manual := True\<rparr>))"
| cancel: "db_step db (db\<lparr>db_manual := False\<rparr>)"
| shutdown: "db_step db (db\<lparr>db_shutting_down := True\<rparr>)"

inductive_cases db_stepE: "db_step db db'"

definition wants_background :: "db_state \<Rightarrow> bool" where
  "wants_background db \<longleftrightarrow> db_imm db \<noteq> None \<or> db_manual db \<or> NeedsCompaction db"

definition sched_inv :: "db_state \<Rightarrow> bool" where
  "sched_inv db \<longleftrightarrow> (wants_background db \<and> db_bg_error db = OK \<and> \<not> db_shutting_down db \<longrightarrow> db_bg_scheduled db)"

lemma RecordBackgroundError_frame [simp]:
  "db_imm (RecordBackgroundError db s) = db_imm db" "db_mem (RecordBackgroundError db s) = db_mem db"
  "db_tables (RecordBackgroundError db s) = db_tables db" "db_log (RecordBackgroundError db s) = db_log db"
  "db_last_sequence (RecordBackgroundError db s) = db_last_sequence db" "db_manual (RecordBackgroundError db s) = db_manual db"
  "db_level0_files (RecordBackgroundError db s) = db_level0_files db" "db_shutting_down (RecordBackgroundError db s) = db_shutting_down db"
  "db_bg_scheduled (RecordBackgroundError db s) = db_bg_scheduled db" "db_other_score (RecordBackgroundError db s) = db_other_score db"
  by (simp_all add: RecordBackgroundError_def)

lemma RecordBackgroundError_OK [simp]: "db_bg_error (RecordBackgroundError db s) = OK \<longleftrightarrow> db_bg_error db = OK \<and> s = OK"
  by (simp add: RecordBackgroundError_def)

lemma MaybeScheduleCompaction_inv: "sched_inv (MaybeScheduleCompaction db)"
  by (auto simp: sched_inv_def wants_background_def MaybeScheduleCompaction_def NeedsCompaction_def)

lemma BackgroundCall_inv: "sched_inv (BackgroundCall out db)"
  by (simp add: BackgroundCall_def MaybeScheduleCompaction_inv Let_def)

lemma switch_memtable_inv:
  assumes "switch_memtable env db = (s, db')" "sched_inv db"
  shows "sched_inv db'"
proof (cases "s = OK")
  case True
  then show ?thesis using assms MaybeScheduleCompaction_inv
    by (auto simp: switch_memtable_def NewFileNumber_def split: prod.splits if_splits)
next
  case False
  then show ?thesis using assms
    by (auto simp: switch_memtable_def NewFileNumber_def ReuseFileNumber_def sched_inv_def wants_background_def NeedsCompaction_def
        split: prod.splits if_splits)
qed

lemma commit_group_frame:
  assumes "commit_group cmp sync_status sync db updates = Some (s, db')"
  shows "db_imm db' = db_imm db" "db_tables db' = db_tables db" "db_manual db' = db_manual db" "db_shutting_down db' = db_shutting_down db"
    "db_bg_scheduled db' = db_bg_scheduled db" "db_level0_files db' = db_level0_files db" "db_other_score db' = db_other_score db"
    "db_bg_error db' = OK \<Longrightarrow> db_bg_error db = OK"
  using assms by (auto simp: commit_group_def Let_def RecordBackgroundError_def split: prod.splits if_splits bind_splits)

lemma db_step_inv: "db_step db db' \<Longrightarrow> sched_inv db \<Longrightarrow> sched_inv db'"
proof (induction rule: db_step.induct)
  case (switch env force allow_delay db s db')
  then show ?case using switch_memtable_inv by blast
next
  case (commit cmp sync_status sync db updates s db')
  then show ?case using commit_group_frame [OF commit(1)] by (simp add: sched_inv_def wants_background_def NeedsCompaction_def)
next
  case (cancel db)
  then show ?case by (auto simp: sched_inv_def wants_background_def NeedsCompaction_def)
next
  case (shutdown db)
  then show ?case by (simp add: sched_inv_def)
qed (rule BackgroundCall_inv MaybeScheduleCompaction_inv)+

lemma reachable_inv: "db_step\<^sup>*\<^sup>* (new_db f) db \<Longrightarrow> sched_inv db"
proof (induction rule: rtranclp_induct)
  case base
  show ?case by (simp add: sched_inv_def wants_background_def NeedsCompaction_def new_db_def kL0_CompactionTrigger_def)
qed (rule db_step_inv)

lemma wait_wants_background: "room_action env force allow_delay db = RoomWait \<Longrightarrow> wants_background db \<and> db_bg_error db = OK"
  by (auto simp: room_action_def wants_background_def NeedsCompaction_def kL0_CompactionTrigger_def kL0_StopWritesTrigger_def
      kL0_SlowdownWritesTrigger_def split: if_splits)

lemma background_runs_frame:
  assumes "sched_inv db"
  shows "sched_inv (background_runs outs db)"
  using assms BackgroundCall_inv by (induction outs arbitrary: db) auto

subsection \<open>A waiting writer gets on\<close>

lemma BackgroundCall_frame [simp]:
  "db_shutting_down (BackgroundCall out db) = db_shutting_down db" "db_mem (BackgroundCall out db) = db_mem db"
  "db_log (BackgroundCall out db) = db_log db" "db_last_sequence (BackgroundCall out db) = db_last_sequence db"
  by (simp_all add: BackgroundCall_def BackgroundCompaction_def CompactMemTable_def new_version_def NewFileNumber_def Let_def split: option.split)

lemma background_runs_shutting_down [simp]: "db_shutting_down (background_runs outs db) = db_shutting_down db"
  by (induction outs arbitrary: db) simp_all

text \<open>A background call after which level 0 is small enough ends every wait.\<close>

lemma BackgroundCall_ends_wait:
  assumes "room_action env force allow_delay db = RoomWait" "\<not> db_shutting_down db" "o_level0_files out < kL0_StopWritesTrigger"
  shows "room_action env force allow_delay' (BackgroundCall out db) \<noteq> RoomWait"
  using assms
  by (auto simp: room_action_def BackgroundCall_def BackgroundCompaction_def CompactMemTable_def new_version_def NewFileNumber_def Let_def
      split: if_splits option.splits)

definition good :: "bg_outcome \<Rightarrow> bool" where
  "good out \<longleftrightarrow> o_level0_files out < kL0_StopWritesTrigger"

definition fresh_fits :: "room_env \<Rightarrow> bool" where
  "fresh_fits env \<longleftrightarrow> usage env (Mem_Ref new_MemTable) \<le> write_buffer_size env"

lemma room_action_switched:
  assumes "room_action env force allow_delay db = RoomSwitch" "switch_memtable env db = (OK, db')" "fresh_fits env"
  shows "room_action env False allow_delay db' = RoomDone OK"
  using assms by (auto simp: room_action_def switch_memtable_def NewFileNumber_def fresh_fits_def split: if_splits prod.splits)

lemma switch_memtable_shutting_down: "switch_memtable env db = (s, db') \<Longrightarrow> db_shutting_down db' = db_shutting_down db"
  by (auto simp: switch_memtable_def NewFileNumber_def ReuseFileNumber_def split: prod.splits if_splits)

text \<open>How many good outcomes are enough: one ends the wait for the memtable or for level 0, a second one a wait after a delay.\<close>

lemma one_good: "n \<le> length (filter good (out # outs)) \<Longrightarrow> n \<le> length (filter good outs) \<or> n = Suc (length (filter good outs)) \<and> good out"
  by (auto split: if_splits)

lemma room_loop_returns:
  assumes "sched_inv db" "\<not> db_shutting_down db" "fresh_fits env"
    and "(if allow_delay then 2 else 1) \<le> length (filter good outs) \<or>
      (if allow_delay then 2 else 1) = Suc (length (filter good outs)) \<and> room_action env force allow_delay db \<noteq> RoomWait"
  shows "\<exists>s outs' db'. room_loop env asleep force allow_delay outs db = Some (s, outs', db')"
  using assms
proof (induction env asleep force allow_delay outs db rule: room_loop.induct)
  case (1 env asleep force allow_delay outs db)
  show ?case
  proof (cases "room_action env force allow_delay db")
    case (RoomDone s)
    then show ?thesis by (simp add: room_loop.simps [of env])
  next
    case RoomDelay
    then have ad: "allow_delay" by (rule room_action_simps)
    have "\<exists>s outs' db'. room_loop env asleep force False outs (background_runs asleep db) = Some (s, outs', db')"
      using "1.prems" ad by (intro "1.IH"(1) [OF RoomDelay]) (auto simp: background_runs_frame)
    then show ?thesis using RoomDelay ad by (auto simp: room_loop.simps [of env _ _ True])
  next
    case RoomWait
    then obtain out outs1 where o: "outs = out # outs1" using "1.prems"(4) by (cases outs) (auto split: if_splits)
    have sch: "db_bg_scheduled db" using "1.prems"(1,2) wait_wants_background [OF RoomWait] by (simp add: sched_inv_def)
    have "room_action env force allow_delay (BackgroundCall out db) \<noteq> RoomWait" if "good out"
      using BackgroundCall_ends_wait [OF RoomWait "1.prems"(2)] that by (simp add: good_def)
    then have "(if allow_delay then 2 else 1) \<le> length (filter good outs1) \<or>
        (if allow_delay then 2 else 1) = Suc (length (filter good outs1)) \<and> room_action env force allow_delay (BackgroundCall out db) \<noteq> RoomWait"
      using "1.prems"(4) RoomWait one_good [of _ out outs1] unfolding o by blast
    then have "\<exists>s outs' db'. room_loop env asleep force allow_delay outs1 (BackgroundCall out db) = Some (s, outs', db')"
      using "1.prems"(2,3) by (intro "1.IH"(2) [OF RoomWait o sch]) (simp_all add: BackgroundCall_inv)
    then show ?thesis using RoomWait o sch by (auto simp: room_loop.simps [of env _ _ _ "out # outs1"])
  next
    case RoomSwitch
    obtain s db1 where sw: "switch_memtable env db = (s, db1)" by fastforce
    show ?thesis
    proof (cases "s = OK")
      case True
      then have "room_loop env asleep False allow_delay outs db1 = Some (OK, outs, db1)"
        using room_action_switched [OF RoomSwitch] sw "1.prems"(3) by (simp add: room_loop.simps [of env _ False])
      then show ?thesis using RoomSwitch sw True by (simp add: room_loop.simps [of env _ force])
    qed (use RoomSwitch sw in \<open>simp add: room_loop.simps [of env]\<close>)
  qed
qed

subsection \<open>The data of the database\<close>

text \<open>The memtables from the oldest saved one to the one that takes writes, and the writes they hold.\<close>

definition db_data :: "db_state \<Rightarrow> MemTable list" where
  "db_data db = db_tables db @ (case db_imm db of None \<Rightarrow> [] | Some m \<Rightarrow> [m]) @ [db_mem db]"

definition stores :: "(byte list \<Rightarrow> byte list \<Rightarrow> int) \<Rightarrow> db_state \<Rightarrow> mem_entry list \<Rightarrow> bool" where
  "stores cmp db h \<longleftrightarrow> (\<exists>hs. list_all2 (holds cmp) (db_data db) hs \<and> concat hs = h)"

lemma BackgroundCall_data [simp]: "db_data (BackgroundCall out db) = db_data db"
  by (simp add: db_data_def BackgroundCall_def BackgroundCompaction_def CompactMemTable_def new_version_def NewFileNumber_def Let_def
      split: option.split)

lemma background_runs_data [simp]:
  "db_data (background_runs outs db) = db_data db" "db_last_sequence (background_runs outs db) = db_last_sequence db"
  "db_log (background_runs outs db) = db_log db"
  by (induction outs arbitrary: db) simp_all

lemma switch_memtable_data:
  assumes "switch_memtable env db = (s, db')" "db_imm db = None"
  shows "db_data db' = (if s = OK then db_data db @ [Mem_Ref new_MemTable] else db_data db)" "db_last_sequence db' = db_last_sequence db"
  using assms by (auto simp: switch_memtable_def NewFileNumber_def ReuseFileNumber_def db_data_def split: prod.splits if_splits)

lemma stores_fresh:
  assumes "stores cmp db h" "db_data db' = db_data db @ [Mem_Ref new_MemTable]"
  shows "stores cmp db' h"
proof -
  obtain hs where "list_all2 (holds cmp) (db_data db) hs" "concat hs = h" using assms(1) by (auto simp: stores_def)
  then have "list_all2 (holds cmp) (db_data db') (hs @ [[]])" "concat (hs @ [[]]) = h"
    using assms(2) holds_new by (simp_all add: list_all2_appendI holds_Ref)
  then show ?thesis unfolding stores_def by blast
qed

lemma stores_cong: "db_data db' = db_data db \<Longrightarrow> stores cmp db' h = stores cmp db h"
  by (simp add: stores_def)

text \<open>Waiting for room loses nothing, whatever the background thread and the files do, and \<^verbatim>\<open>OK\<close> means that there is room.\<close>

lemma room_loop_keeps:
  assumes "room_loop env asleep force allow_delay outs db = Some (s, outs', db')" "stores cmp db h"
  shows "stores cmp db' h \<and> db_last_sequence db' = db_last_sequence db \<and>
    (s = OK \<longrightarrow> usage env (db_mem db') \<le> write_buffer_size env \<and> db_bg_error db' = OK)"
  using assms
proof (induction env asleep force allow_delay outs db rule: room_loop.induct)
  case (1 env asleep force allow_delay outs db)
  show ?case
  proof (cases "room_action env force allow_delay db")
    case (RoomDone s1)
    then show ?thesis using "1.prems" by (auto simp: room_loop.simps [of env] room_action_def split: if_splits)
  next
    case RoomDelay
    then show ?thesis
      using "1.IH"(1) [OF RoomDelay] "1.prems" by (simp add: room_loop.simps [of env _ _ allow_delay] stores_cong [of "background_runs asleep db" db])
  next
    case RoomWait
    then obtain out outs1 where o: "outs = out # outs1" "db_bg_scheduled db"
      using "1.prems"(1) by (auto simp: room_loop.simps [of env] split: list.splits if_splits)
    then show ?thesis
      using "1.IH"(2) [OF RoomWait o] "1.prems" RoomWait
      by (simp add: room_loop.simps [of env _ _ _ "out # outs1"] stores_cong [of "BackgroundCall out db" db])
  next
    case RoomSwitch
    obtain s1 db1 where sw: "switch_memtable env db = (s1, db1)" by fastforce
    note d = switch_memtable_data [OF sw room_action_simps(2) [OF RoomSwitch]]
    show ?thesis
    proof (cases "s1 = OK")
      case True
      then show ?thesis
        using "1.IH"(3) [OF RoomSwitch sw [symmetric]] "1.prems" RoomSwitch sw d stores_fresh [of cmp db h db1]
        by (simp add: room_loop.simps [of env _ force])
    next
      case False
      then have "s = s1" "db' = db1" using "1.prems"(1) RoomSwitch sw by (simp_all add: room_loop.simps [of env])
      then show ?thesis using False d "1.prems"(2) by (simp add: stores_cong [of db1 db])
    qed
  qed
qed

subsection \<open>Properties\<close>

text \<open>
  (C13) No lost wake-up: in every state the threads can reach from a new database, a writer that waits for the background thread waits for
  a call that is scheduled, unless the database is being shut down.
\<close>

theorem no_lost_wakeup:
  assumes "db_step\<^sup>*\<^sup>* (new_db f) db" "room_action env force allow_delay db = RoomWait" "\<not> db_shutting_down db"
  shows "db_bg_scheduled db"
  using reachable_inv [OF assms(1)] wait_wants_background [OF assms(2)] assms(3) by (simp add: sched_inv_def)

text \<open>
  (C14) A writer gets on: in every reachable state that is not shutting down, \<^verbatim>\<open>MakeRoomForWrite\<close> returns when two background calls leave level 0 below
  the stop trigger, whether they succeed or not and whatever happens during the delay; when it returns \<^verbatim>\<open>OK\<close> the
  memtable has room, and on every path the database still holds all the writes it held.
\<close>

theorem writer_gets_room:
  assumes "db_step\<^sup>*\<^sup>* (new_db f) db" "\<not> db_shutting_down db" "fresh_fits env" "2 \<le> length (filter good outs)" "stores cmp db h"
  shows "\<exists>s outs' db'. MakeRoomForWrite env asleep force outs db = Some (s, outs', db') \<and>
    stores cmp db' h \<and> (s = OK \<longrightarrow> usage env (db_mem db') \<le> write_buffer_size env)"
proof -
  have "(if \<not> force then 2 else 1) \<le> length (filter good outs)" using assms(4) by simp
  then obtain s outs' db' where r: "room_loop env asleep force (\<not> force) outs db = Some (s, outs', db')"
    using room_loop_returns [OF reachable_inv [OF assms(1)] assms(2,3)] by blast
  then show ?thesis using room_loop_keeps [OF r assms(5)] by (simp add: MakeRoomForWrite_def)
qed

definition small_env :: room_env where
  "small_env = \<lparr>usage = (\<lambda>m. 0), write_buffer_size = 10, NewWritableFile = (\<lambda>_. (OK, empty_file))\<rparr>"

definition calm_outcome :: bg_outcome where
  "calm_outcome = \<lparr>o_build = OK, o_apply = OK, o_compact = OK, o_level0_files = 1, o_other_score = False\<rparr>"

lemma reach_switched:
  "\<exists>db. switch_memtable small_env (new_db empty_file) = (OK, db) \<and> db_step\<^sup>*\<^sup>* (new_db empty_file) db \<and> db_imm db \<noteq> None \<and>
     db_bg_error db = OK \<and> db_level0_files db = 0 \<and> \<not> db_shutting_down db \<and> stores BytewiseCompare db []"
proof -
  obtain db where sw: "switch_memtable small_env (new_db empty_file) = (OK, db)" by (simp add: switch_memtable_def small_env_def NewFileNumber_def)
  have ra: "room_action small_env True False (new_db empty_file) = RoomSwitch"
    by (simp add: room_action_def new_db_def kL0_StopWritesTrigger_def)
  then have st: "db_step\<^sup>*\<^sup>* (new_db empty_file) db" using db_step.switch [OF _ sw] by blast
  have "db_data (new_db empty_file) = [Mem_Ref new_MemTable]" by (simp add: db_data_def new_db_def)
  then have "stores BytewiseCompare (new_db empty_file) []" unfolding stores_def by (intro exI [of _ "[[]]"]) (simp add: holds_Ref holds_new)
  then have "stores BytewiseCompare db []"
    using stores_fresh switch_memtable_data(1) [OF sw] by (simp add: new_db_def)
  then show ?thesis using sw st by (auto simp: switch_memtable_def small_env_def NewFileNumber_def new_db_def)
qed

theorem no_lost_wakeup_witness:
  "\<exists>db. switch_memtable small_env (new_db empty_file) = (OK, db) \<and> room_action small_env True False db = RoomWait \<and> db_bg_scheduled db"
proof -
  obtain db where db: "switch_memtable small_env (new_db empty_file) = (OK, db)" "db_step\<^sup>*\<^sup>* (new_db empty_file) db"
      "db_imm db \<noteq> None" "db_bg_error db = OK" "\<not> db_shutting_down db"
    using reach_switched by blast
  then have "room_action small_env True False db = RoomWait" by (simp add: room_action_def)
  then show ?thesis using no_lost_wakeup [OF db(2) _ db(5)] db(1) by blast
qed

theorem writer_gets_room_witness:
  "\<exists>db s outs' db'. switch_memtable small_env (new_db empty_file) = (OK, db) \<and>
     MakeRoomForWrite small_env [] True [calm_outcome, calm_outcome] db = Some (s, outs', db') \<and> stores BytewiseCompare db' []"
proof -
  obtain db where db: "switch_memtable small_env (new_db empty_file) = (OK, db)" "db_step\<^sup>*\<^sup>* (new_db empty_file) db"
      "\<not> db_shutting_down db" "stores BytewiseCompare db []"
    using reach_switched by blast
  moreover have "fresh_fits small_env" "2 \<le> length (filter good [calm_outcome, calm_outcome])"
    by (simp_all add: fresh_fits_def small_env_def good_def calm_outcome_def kL0_StopWritesTrigger_def)
  ultimately show ?thesis using writer_gets_room [OF db(2,3) _ _ db(4)] by blast
qed

end
