(* ===== verification/Ldb_Store.thy ===== *)
theory Ldb_Store
  imports Ldb_Room
begin

text \<open>
  The database as a map: the writers of a queue run one after the other through the whole write path (\<^verbatim>\<open>Write\<close> with \<^verbatim>\<open>MakeRoomForWrite\<close>, group commit, log
  and memtable, background calls in between), and a lookup then answers as a map to which the operations of the queue were
  applied in order.
\<close>

subsection \<open>Running a queue\<close>

lemma db_Write_shortens:
  assumes "db_Write cmp env asleep sync_status outs writers db = Some (s, finished, writers', outs', db')"
  shows "length writers' < length writers"
  using assms by (cases writers) (auto simp: db_Write_def Let_def split: bind_splits if_splits prod.splits)

text \<open>The writers of a queue; \<open>bg i\<close> are the background calls that the \<open>i\<close>-th front writer may wait for.  The result is the status of every writer.\<close>

function write_queue ::
  "(byte list \<Rightarrow> byte list \<Rightarrow> int) \<Rightarrow> room_env \<Rightarrow> bg_outcome list \<Rightarrow> (nat \<Rightarrow> bg_outcome list) \<Rightarrow> nat \<Rightarrow> db_writer list \<Rightarrow> db_state \<Rightarrow>
   (Status list \<times> db_state) option" where
  "write_queue cmp env asleep bg i writers db =
     (if writers = [] then Some ([], db)
      else do {
        (status, finished, writers', outs, db) \<leftarrow> db_Write cmp env asleep OK (bg i) writers db;
        (statuses, db) \<leftarrow> write_queue cmp env asleep bg (i + 1) writers' db;
        Some (status # map w_status finished @ statuses, db)
      })"
  by pat_completeness auto
termination
  by (relation "measure (\<lambda>(cmp, env, asleep, bg, i, writers, db). length writers)") (auto dest: db_Write_shortens)

declare write_queue.simps [simp del]

text \<open>What the tables answer: as the memtables they were built from, the newest first.\<close>

primrec saved_Get :: "(byte list \<Rightarrow> byte list \<Rightarrow> int) \<Rightarrow> MemTable list \<Rightarrow> LookupKey \<Rightarrow> mem_result option" where
  "saved_Get cmp [] lkey = Some MemFalse"
| "saved_Get cmp (m # ms) lkey = do {
     r \<leftarrow> saved_Get cmp ms lkey;
     if r = MemFalse then Mem_Get cmp m lkey else Some r
   }"

definition tables_of :: "(byte list \<Rightarrow> byte list \<Rightarrow> int) \<Rightarrow> MemTable list \<Rightarrow> LookupKey \<Rightarrow> Status \<times> byte list" where
  "tables_of cmp ms lkey =
     (case saved_Get cmp ms lkey of
        Some (MemValue v) \<Rightarrow> (OK, v)
      | Some (MemStatus s) \<Rightarrow> (s, [])
      | _ \<Rightarrow> (NotFound [], []))"

definition db_read :: "(byte list \<Rightarrow> byte list \<Rightarrow> int) \<Rightarrow> db_state \<Rightarrow> byte list \<Rightarrow> (Status \<times> byte list option) option" where
  "db_read cmp db key = db_Get cmp (tables_of cmp (db_tables db)) (db_mem db) (db_imm db) (db_last_sequence db) None key"

text \<open>The map.\<close>

fun apply_op :: "(byte list \<rightharpoonup> byte list) \<Rightarrow> batch_op \<Rightarrow> byte list \<rightharpoonup> byte list" where
  "apply_op m (PutOp k v) = m(k \<mapsto> v)"
| "apply_op m (DeleteOp k) = m(k := None)"

definition map_read :: "(byte list \<rightharpoonup> byte list) \<Rightarrow> byte list \<Rightarrow> Status \<times> byte list option" where
  "map_read m key = (case m key of Some v \<Rightarrow> (OK, Some v) | None \<Rightarrow> (NotFound [], None))"

subsection \<open>Lookup\<close>

fun answer :: "mem_result \<Rightarrow> Status \<times> byte list option" where
  "answer (MemValue v) = (OK, Some v)"
| "answer (MemStatus s) = (s, None)"
| "answer MemFalse = (NotFound [], None)"

lemma find_append: "find P (xs @ ys) = (case find P xs of None \<Rightarrow> find P ys | Some x \<Rightarrow> Some x)"
  by (induction xs) auto

lemma get_spec_append: "get_spec (h1 @ h2) u t = (case get_spec h2 u t of MemFalse \<Rightarrow> get_spec h1 u t | r \<Rightarrow> r)"
  by (auto simp: get_spec_def find_append split: option.splits ValueType.splits)

lemma get_spec_status: "get_spec h u t \<noteq> MemStatus OK"
  by (auto simp: get_spec_def split: option.splits ValueType.splits)

context user_comparator
begin

lemma saved_Get_spec:
  assumes "list_all2 (holds cmp) ms hs" "length u + 8 < 2 ^ 32" "t \<le> kMaxSequenceNumber"
  shows "saved_Get cmp ms (new_LookupKey u t) = Some (get_spec (concat hs) u t)"
  using assms(1)
proof (induction rule: list_all2_induct)
  case Nil
  show ?case by (simp add: get_spec_def)
next
  case (Cons m ms h hs)
  then show ?case using holds_get [OF Cons(1) assms(2,3)] by (simp add: get_spec_append split: mem_result.split)
qed

lemma stores_get:
  assumes "stores cmp db h" "length u + 8 < 2 ^ 32" "db_last_sequence db \<le> kMaxSequenceNumber"
  shows "db_read cmp db u = Some (answer (get_spec h u (db_last_sequence db)))"
proof -
  let ?t = "db_last_sequence db"
  obtain hs where hs: "list_all2 (holds cmp) (db_data db) hs" "concat hs = h" using assms(1) by (auto simp: stores_def)
  obtain ts js hm where s: "hs = ts @ js @ [hm]" "list_all2 (holds cmp) (db_tables db) ts"
      "list_all2 (holds cmp) (case db_imm db of None \<Rightarrow> [] | Some m \<Rightarrow> [m]) js" "holds cmp (db_mem db) hm"
    using hs(1) unfolding db_data_def by (auto simp: list_all2_append1 list_all2_Cons1)
  note g = get_spec_status [of "concat ts"] saved_Get_spec [OF s(2) assms(2,3)] holds_get [OF s(4) assms(2,3)]
  show ?thesis
  proof (cases "db_imm db")
    case None
    then show ?thesis using s g hs(2)
      by (auto simp: db_read_def db_Get_def tables_of_def get_spec_append split: mem_result.splits)
  next
    case (Some m)
    then obtain hi where hi: "js = [hi]" "holds cmp m hi" using s(3) by (auto simp: list_all2_Cons1)
    then show ?thesis using s g hs(2) Some holds_get [OF hi(2) assms(2,3)]
      by (auto simp: db_read_def db_Get_def tables_of_def get_spec_append split: mem_result.splits)
  qed
qed

end

lemma op_entries_append: "op_entries seq (xs @ ys) = op_entries seq xs @ op_entries (seq + of_nat (length xs)) ys"
  by (induction xs arbitrary: seq) (simp_all add: add.assoc)

lemma get_spec_map:
  assumes "before (op_entries seq ops) (unat t + 1)"
  shows "answer (get_spec (op_entries seq ops) u t) = map_read (foldl apply_op Map.empty ops) u"
  using assms
proof (induction ops rule: rev_induct)
  case Nil
  show ?case by (simp add: get_spec_def map_read_def)
next
  case (snoc x ops)
  let ?e = "op_entry (seq + of_nat (length ops)) x"
  have b: "before (op_entries seq ops) (unat t + 1)" "unat (sequence (fst ?e)) < unat t + 1"
    using snoc.prems by (simp_all add: op_entries_append before_def)
  then have "sequence (fst ?e) \<le> t" by (simp add: word_le_nat_alt)
  then show ?case using snoc.IH [OF b(1)]
    by (cases x) (auto simp: op_entries_append get_spec_append get_spec_def [of "[_]"] visible_def map_read_def)
qed

subsection \<open>Undisturbed runs\<close>

definition fine :: "bg_outcome \<Rightarrow> bool" where
  "fine out \<longleftrightarrow> o_build out = OK \<and> o_apply out = OK \<and> o_compact out = OK \<and> good out"

definition healthy :: "room_env \<Rightarrow> bool" where
  "healthy env \<longleftrightarrow> fresh_fits env \<and> (\<forall>n. fst (NewWritableFile env n) = OK \<and> reliable (snd (NewWritableFile env n)))"

definition calm :: "db_state \<Rightarrow> bool" where
  "calm db \<longleftrightarrow> writing (db_log db) \<and> sched_inv db \<and> \<not> db_shutting_down db \<and> db_bg_error db = OK"

lemma BackgroundCall_calm: "calm db \<Longrightarrow> fine out \<Longrightarrow> calm (BackgroundCall out db)"
  by (auto simp: calm_def BackgroundCall_inv)
    (auto simp: fine_def BackgroundCall_def BackgroundCompaction_def CompactMemTable_def new_version_def NewFileNumber_def Let_def split: option.split)

lemma background_runs_calm: "calm db \<Longrightarrow> list_all fine outs \<Longrightarrow> calm (background_runs outs db)"
  by (induction outs arbitrary: db) (simp_all add: BackgroundCall_calm)

lemma switch_memtable_calm:
  assumes "switch_memtable env db = (s, db')" "healthy env" "calm db"
  shows "s = OK" "calm db'"
proof -
  obtain lfile where f: "NewWritableFile env (db_next_file_number db) = (OK, lfile)" "reliable lfile"
    using assms(2) unfolding healthy_def by (metis prod.collapse)
  show "s = OK" using assms(1) f by (auto simp: switch_memtable_def NewFileNumber_def)
  have "db_bg_error db' = OK" "writing (db_log db')" "\<not> db_shutting_down db'"
    using assms(1,3) f by (auto simp: switch_memtable_def NewFileNumber_def calm_def writing_new_Writer)
  then show "calm db'" using switch_memtable_inv [OF assms(1)] assms(3) by (simp add: calm_def)
qed

lemma room_loop_calm:
  assumes "room_loop env asleep force allow_delay outs db = Some (s, outs', db')" "calm db" "healthy env"
    and "list_all fine asleep" "list_all fine outs"
  shows "s = OK \<and> calm db'"
  using assms
proof (induction env asleep force allow_delay outs db rule: room_loop.induct)
  case (1 env asleep force allow_delay outs db)
  show ?case
  proof (cases "room_action env force allow_delay db")
    case (RoomDone s1)
    then have "s1 = OK" using "1.prems"(2) by (auto simp: room_action_def calm_def split: if_splits)
    then show ?thesis using "1.prems" RoomDone by (simp add: room_loop.simps [of env])
  next
    case RoomDelay
    then show ?thesis
      using "1.IH"(1) [OF RoomDelay] "1.prems" by (simp add: room_loop.simps [of env _ _ allow_delay] background_runs_calm)
  next
    case RoomWait
    then obtain out outs1 where o: "outs = out # outs1" "db_bg_scheduled db"
      using "1.prems"(1) by (auto simp: room_loop.simps [of env] split: list.splits if_splits)
    then show ?thesis
      using "1.IH"(2) [OF RoomWait o] "1.prems" RoomWait by (simp add: room_loop.simps [of env _ _ _ "out # outs1"] BackgroundCall_calm)
  next
    case RoomSwitch
    obtain s1 db1 where sw: "switch_memtable env db = (s1, db1)" by fastforce
    note c = switch_memtable_calm [OF sw "1.prems"(3,2)]
    then show ?thesis
      using "1.IH"(3) [OF RoomSwitch sw [symmetric]] "1.prems" RoomSwitch sw by (simp add: room_loop.simps [of env _ force])
  qed
qed

lemma fine_good: "list_all fine outs \<Longrightarrow> filter good outs = outs"
  by (induction outs) (auto simp: fine_def)

lemma MakeRoomForWrite_calm:
  assumes "calm db" "healthy env" "list_all fine asleep" "list_all fine outs" "2 \<le> length outs" "stores cmp db h"
  obtains outs' db' where "MakeRoomForWrite env asleep force outs db = Some (OK, outs', db')" "calm db'" "stores cmp db' h"
    "db_last_sequence db' = db_last_sequence db"
proof -
  have "(if \<not> force then 2 else 1) \<le> length (filter good outs)" using assms(5) fine_good [OF assms(4)] by simp
  moreover have "sched_inv db" "\<not> db_shutting_down db" "fresh_fits env" using assms(1,2) by (simp_all add: calm_def healthy_def)
  ultimately obtain s outs' db' where r: "room_loop env asleep force (\<not> force) outs db = Some (s, outs', db')"
    using room_loop_returns [of db env "\<not> force" outs force asleep] by blast
  then show thesis
    using that room_loop_calm [OF r assms(1-4)] room_loop_keeps [OF r assms(6)] by (simp add: MakeRoomForWrite_def)
qed

subsection \<open>The queue\<close>

text \<open>The database holds the writes \<open>h\<close>, and there is room for \<open>n\<close> more sequence numbers.\<close>

definition db_ok :: "(byte list \<Rightarrow> byte list \<Rightarrow> int) \<Rightarrow> db_state \<Rightarrow> mem_entry list \<Rightarrow> nat \<Rightarrow> bool" where
  "db_ok cmp db h n \<longleftrightarrow> calm db \<and> stores cmp db h \<and> before h (unat (db_last_sequence db) + 1) \<and> seq_room (db_last_sequence db) n"

lemma commit_group_cong:
  "SetSequence b (db_last_sequence db + 1) = SetSequence b' (db_last_sequence db + 1) \<Longrightarrow>
     commit_group cmp sync_status sync db b = commit_group cmp sync_status sync db b'"
  by (simp add: commit_group_def)

lemma commit_group_keeps:
  assumes "commit_group cmp OK sync db updates = Some (OK, db')"
  shows "db_bg_error db' = db_bg_error db"
  using assms by (auto simp: commit_group_def Let_def split: prod.splits if_splits bind_splits)

context user_comparator
begin

lemma commit_group_stores:
  assumes "db_ok cmp db h (length ops + n)" "list_all mem_op_ok ops" "\<And>seq. SetSequence b seq = batch_of seq ops"
  shows "\<exists>db'. commit_group cmp OK sync db b = Some (OK, db') \<and> db_ok cmp db' (h @ op_entries (db_last_sequence db + 1) ops) n \<and>
    db_last_sequence db' = db_last_sequence db + of_nat (length ops)"
proof -
  let ?seq = "db_last_sequence db" and ?b = "foldl add_op Batch_Clear ops"
  have ok: "calm db" "stores cmp db h" "before h (unat ?seq + 1)" "seq_room ?seq (length ops + n)" using assms(1) by (simp_all add: db_ok_def)
  obtain hs hm where hs: "list_all2 (holds cmp) (db_tables db @ (case db_imm db of None \<Rightarrow> [] | Some m \<Rightarrow> [m])) hs" "holds cmp (db_mem db) hm"
      "h = concat hs @ hm"
    using ok(2) unfolding stores_def db_data_def by (fastforce simp: list_all2_append1 list_all2_Cons1 simp flip: append_assoc)
  have "before hm (unat ?seq + 1)" using ok(3) hs(3) by (simp add: before_def)
  then obtain db' where db': "commit_group cmp OK sync db ?b = Some (OK, db')" "writing (db_log db')"
      "holds cmp (db_mem db') (hm @ op_entries (?seq + 1) ops)" "db_last_sequence db' = ?seq + of_nat (length ops)"
      "before (hm @ op_entries (?seq + 1) ops) (unat (db_last_sequence db') + 1)"
    using commit_group_ok [OF _ hs(2) _ assms(2) ok(4), of sync] ok(1) by (auto simp: calm_def)
  have "commit_group cmp OK sync db b = commit_group cmp OK sync db ?b"
    by (rule commit_group_cong) (simp add: assms(3) batch_Clear batch_build batch_header)
  moreover note fr = commit_group_frame [OF db'(1)] commit_group_keeps [OF db'(1)]
  have "calm db'" using ok(1) db'(2) fr by (simp add: calm_def sched_inv_def wants_background_def NeedsCompaction_def)
  moreover have "list_all2 (holds cmp) (db_data db') (hs @ [hm @ op_entries (?seq + 1) ops])"
    using hs(1) db'(3) fr(1,2) by (simp add: db_data_def list_all2_appendI flip: append_assoc)
  then have "stores cmp db' (h @ op_entries (?seq + 1) ops)" unfolding stores_def using hs(3) by (fastforce intro!: exI [of _ "hs @ [_]"])
  moreover note rm = seq_room_unat [OF ok(4)]
  moreover have "before h (unat (db_last_sequence db') + 1)" using ok(3) rm(2) db'(4) by (auto simp: before_def list_all_iff)
  ultimately show ?thesis using db' by (auto simp: db_ok_def before_def)
qed

lemma db_Write_step:
  assumes "db_ok cmp db h (length (concat opss) + n)" "list_all2 writes (w # ws) opss" "list_all (list_all mem_op_ok) opss"
    and "healthy env" "list_all fine asleep" "list_all fine outs" "2 \<le> length outs"
  shows "\<exists>fin outs' db'. db_Write cmp env asleep OK outs (w # ws) db =
      Some (OK, map (\<lambda>w. w\<lparr>w_status := OK, w_done := True\<rparr>) (take fin ws), drop fin ws, outs', db') \<and> fin \<le> length ws \<and>
    db_ok cmp db' (h @ op_entries (db_last_sequence db + 1) (concat (take (Suc fin) opss))) (length (concat (drop (Suc fin) opss)) + n) \<and>
    db_last_sequence db' = db_last_sequence db + of_nat (length (concat (take (Suc fin) opss)))"
proof -
  have ok: "calm db" "stores cmp db h" using assms(1) by (simp_all add: db_ok_def)
  obtain outs' db1 where r: "MakeRoomForWrite env asleep (w_batch w = None) outs db = Some (OK, outs', db1)" "calm db1" "stores cmp db1 h"
      "db_last_sequence db1 = db_last_sequence db"
    by (rule MakeRoomForWrite_calm [OF ok(1) assms(4-7) ok(2)])
  have ok1: "db_ok cmp db1 h (length (concat opss) + n)" using assms(1) r by (simp add: db_ok_def)
  have split: "length (concat opss) = length (concat (take k opss)) + length (concat (drop k opss))" for k
    by (metis append_take_drop_id concat_append length_append)
  show ?thesis
  proof (cases "w_batch w")
    case None
    then obtain opss1 where "opss = [] # opss1" using assms(2) by (auto simp: list_all2_Cons1 writes_def)
    then show ?thesis using None r ok1 by (intro exI [of _ 0] exI [of _ outs'] exI [of _ db1]) (simp add: db_Write_def)
  next
    case (Some fb)
    then obtain b tmp fin where g: "BuildBatchGroup Batch_Clear (w # ws) = Some (b, tmp, fin)"
      by (fastforce simp: BuildBatchGroup_def Let_def split: prod.splits option.splits)
    note gc = group_commit [OF assms(2) g]
    let ?ops = "concat (take (Suc fin) opss)"
    have "list_all mem_op_ok ?ops" using assms(3) by (auto simp: list_all_iff dest: in_set_takeD)
    moreover have "db_ok cmp db1 h (length ?ops + (length (concat (drop (Suc fin) opss)) + n))"
      using ok1 split [of "Suc fin"] by (simp add: add.assoc)
    ultimately obtain db' where "commit_group cmp OK (w_sync w) db1 b = Some (OK, db')"
        "db_ok cmp db' (h @ op_entries (db_last_sequence db1 + 1) ?ops) (length (concat (drop (Suc fin) opss)) + n)"
        "db_last_sequence db' = db_last_sequence db1 + of_nat (length ?ops)"
      using commit_group_stores gc by blast
    then show ?thesis using Some r g gc
      by (intro exI [of _ fin] exI [of _ outs'] exI [of _ db']) (simp add: db_Write_def)
  qed
qed

lemma write_queue_ok:
  assumes "db_ok cmp db h (length (concat opss) + n)" "list_all2 writes ws opss" "list_all (list_all mem_op_ok) opss"
    and "healthy env" "list_all fine asleep" "\<And>i. list_all fine (bg i) \<and> 2 \<le> length (bg i)"
  shows "\<exists>db'. write_queue cmp env asleep bg i ws db = Some (replicate (length ws) OK, db') \<and>
    db_ok cmp db' (h @ op_entries (db_last_sequence db + 1) (concat opss)) n"
  using assms(1-3)
proof (induction "length ws" arbitrary: ws opss db h i rule: less_induct)
  case less
  show ?case
  proof (cases ws)
    case Nil
    then show ?thesis using less.prems by (simp add: write_queue.simps)
  next
    case (Cons w ws1)
    let ?seq = "db_last_sequence db"
    obtain fin outs' db1 where db1: "db_Write cmp env asleep OK (bg i) (w # ws1) db =
          Some (OK, map (\<lambda>w. w\<lparr>w_status := OK, w_done := True\<rparr>) (take fin ws1), drop fin ws1, outs', db1)" "fin \<le> length ws1"
        "db_ok cmp db1 (h @ op_entries (?seq + 1) (concat (take (Suc fin) opss))) (length (concat (drop (Suc fin) opss)) + n)"
        "db_last_sequence db1 = ?seq + of_nat (length (concat (take (Suc fin) opss)))"
      using db_Write_step [OF less.prems(1) _ less.prems(3) assms(4,5), of w ws1 "bg i"] assms(6) less.prems(2) Cons by auto
    have lt: "length (drop fin ws1) < length ws" using Cons by simp
    have "list_all2 writes (drop fin ws1) (drop (Suc fin) opss)" using less.prems(2) Cons by (metis drop_Suc_Cons list_all2_dropI)
    moreover have "list_all (list_all mem_op_ok) (drop (Suc fin) opss)" using less.prems(3) by (auto simp: list_all_iff dest: in_set_dropD)
    ultimately obtain db2 where db2: "write_queue cmp env asleep bg (i + 1) (drop fin ws1) db1 = Some (replicate (length (drop fin ws1)) OK, db2)"
        "db_ok cmp db2 ((h @ op_entries (?seq + 1) (concat (take (Suc fin) opss))) @
           op_entries (db_last_sequence db1 + 1) (concat (drop (Suc fin) opss))) n"
      using less.hyps [OF lt db1(3), of "i + 1"] by blast
    have "concat opss = concat (take (Suc fin) opss) @ concat (drop (Suc fin) opss)" by (metis append_take_drop_id concat_append)
    then have "op_entries (?seq + 1) (concat opss) =
        op_entries (?seq + 1) (concat (take (Suc fin) opss)) @ op_entries (db_last_sequence db1 + 1) (concat (drop (Suc fin) opss))"
      using db1(4) by (simp add: op_entries_append add_ac)
    moreover have "map w_status (map (\<lambda>w. w\<lparr>w_status := OK, w_done := True\<rparr>) (take fin ws1)) = replicate fin OK"
      using db1(2) by (simp add: map_replicate_const comp_def)
    ultimately show ?thesis using db1(1,2) db2 Cons by (simp add: write_queue.simps [of _ _ _ _ i] flip: replicate_add)
  qed
qed

end

subsection \<open>Properties\<close>



end
