(* ===== verification/Ldb_Block.thy ===== *)
theory Ldb_Block
  imports Ldb_Format Ldb_Env
begin

text \<open>
  Blocks of a table (\<^verbatim>\<open>table/block_builder.cc\<close>, \<^verbatim>\<open>table/block.cc\<close>): keys with shared prefixes, restart points, and the
  iterator that decodes them.  Offsets and lengths are numbers with the wrap-around of the 32-bit variables written out.  A read
  outside of the block is \<^const>\<open>None\<close>.
\<close>

subsection \<open>Builder\<close>

record BlockBuilder =
  bb_buffer :: "byte list"
  bb_restarts :: "uint32 list"
  bb_counter :: nat
  bb_finished :: bool
  bb_last_key :: "byte list"

definition new_BlockBuilder :: BlockBuilder where
  "new_BlockBuilder = \<lparr>bb_buffer = [], bb_restarts = [0], bb_counter = 0, bb_finished = False, bb_last_key = []\<rparr>"

definition Builder_Reset :: "BlockBuilder \<Rightarrow> BlockBuilder" where
  "Builder_Reset b = b\<lparr>bb_buffer := [], bb_restarts := [0], bb_counter := 0, bb_finished := False, bb_last_key := []\<rparr>"

definition CurrentSizeEstimate :: "BlockBuilder \<Rightarrow> nat" where
  "CurrentSizeEstimate b = length (bb_buffer b) + length (bb_restarts b) * 4 + 4"

definition Builder_Finish :: "BlockBuilder \<Rightarrow> byte list \<times> BlockBuilder" where
  "Builder_Finish b =
     (let buffer = foldl PutFixed32 (bb_buffer b) (bb_restarts b);
          buffer = PutFixed32 buffer (of_nat (length (bb_restarts b)))
      in (buffer, b\<lparr>bb_buffer := buffer, bb_finished := True\<rparr>))"

fun shared_loop :: "byte list \<Rightarrow> byte list \<Rightarrow> nat \<Rightarrow> nat" where
  "shared_loop (x # xs) (y # ys) shared = (if x = y then shared_loop xs ys (shared + 1) else shared)"
| "shared_loop _ _ shared = shared"

definition Builder_Add :: "nat \<Rightarrow> BlockBuilder \<Rightarrow> byte list \<Rightarrow> byte list \<Rightarrow> BlockBuilder" where
  "Builder_Add block_restart_interval b key val =
     (let (shared, b) =
            (if bb_counter b < block_restart_interval then (shared_loop (bb_last_key b) key 0, b)
             else (0, b\<lparr>bb_restarts := bb_restarts b @ [of_nat (length (bb_buffer b))], bb_counter := 0\<rparr>));
          non_shared = length key - shared;
          buffer = PutVarint32 (bb_buffer b) (of_nat shared);
          buffer = PutVarint32 buffer (of_nat non_shared);
          buffer = PutVarint32 buffer (of_nat (length val));
          buffer = buffer @ drop shared key;
          buffer = buffer @ val
      in b\<lparr>bb_buffer := buffer, bb_last_key := take shared (bb_last_key b) @ drop shared key, bb_counter := bb_counter b + 1\<rparr>)"

subsection \<open>Block\<close>

record Block =
  bl_data :: "byte list"
  bl_size :: nat
  bl_restart_offset :: nat

definition NumRestarts :: "byte list \<Rightarrow> nat \<Rightarrow> nat option" where
  "NumRestarts data sz = map_option unat (DecodeFixed32 (drop (sz - 4) (take sz data)))"

definition new_Block :: "byte list \<Rightarrow> Block option" where
  "new_Block str =
     (let sz = length str
      in if sz < 4 then Some \<lparr>bl_data = str, bl_size = 0, bl_restart_offset = 0\<rparr>
         else do {
           n \<leftarrow> NumRestarts str sz;
           if n > (sz - 4) div 4 then Some \<lparr>bl_data = str, bl_size = 0, bl_restart_offset = 0\<rparr>
           else Some \<lparr>bl_data = str, bl_size = sz, bl_restart_offset = (sz - (1 + n) mod 2 ^ 32 * 4) mod 2 ^ 32\<rparr>
         })"

text \<open>
  \<^verbatim>\<open>DecodeEntry\<close>: the number of shared and of new bytes of the key, the length of the value, and the position behind the three
  numbers.  The sum of the two lengths is a 32-bit number.
\<close>

definition DecodeEntry :: "byte list \<Rightarrow> nat \<Rightarrow> nat \<Rightarrow> (nat \<times> nat \<times> nat \<times> nat) option" where
  "DecodeEntry data p limit =
     (if limit < p + 3 then None
      else (let q = take (limit - p) (drop p data)
            in do {
              (shared, non_shared, value_length, q) \<leftarrow>
                (if (q ! 0 OR q ! 1 OR q ! 2) < 128
                 then Some (ucast (q ! 0), ucast (q ! 1), ucast (q ! 2), drop 3 q)
                 else do {
                   (shared, q) \<leftarrow> GetVarint32Ptr q;
                   (non_shared, q) \<leftarrow> GetVarint32Ptr q;
                   (value_length, q) \<leftarrow> GetVarint32Ptr q;
                   Some (shared, non_shared, value_length, q)
                 });
              if (of_nat (length q) :: uint32) < non_shared + value_length then None
              else Some (unat shared, unat non_shared, unat value_length, limit - length q)
            }))"

subsection \<open>Iterator\<close>

text \<open>The value is a slice of the data: its offset and its length.\<close>

record BlockIter =
  bi_data :: "byte list"
  bi_restarts :: nat
  bi_num_restarts :: nat
  bi_current :: nat
  bi_restart_index :: nat
  bi_key :: "byte list"
  bi_value :: "nat \<times> nat"
  bi_status :: Status

definition new_BlockIter :: "byte list \<Rightarrow> nat \<Rightarrow> nat \<Rightarrow> BlockIter" where
  "new_BlockIter data restarts num_restarts =
     \<lparr>bi_data = data, bi_restarts = restarts, bi_num_restarts = num_restarts, bi_current = restarts, bi_restart_index = num_restarts,
      bi_key = [], bi_value = (0, 0), bi_status = OK\<rparr>"

definition BI_Valid :: "BlockIter \<Rightarrow> bool" where
  "BI_Valid it \<longleftrightarrow> bi_current it < bi_restarts it"

definition read_at :: "byte list \<Rightarrow> nat \<Rightarrow> nat \<Rightarrow> byte list option" where
  "read_at data p n = (if p + n \<le> length data then Some (take n (drop p data)) else None)"

definition BI_value :: "BlockIter \<Rightarrow> byte list option" where
  "BI_value it = read_at (bi_data it) (fst (bi_value it)) (snd (bi_value it))"

definition NextEntryOffset :: "BlockIter \<Rightarrow> nat" where
  "NextEntryOffset it = (fst (bi_value it) + snd (bi_value it)) mod 2 ^ 32"

definition GetRestartPoint :: "BlockIter \<Rightarrow> nat \<Rightarrow> nat option" where
  "GetRestartPoint it index = map_option unat (DecodeFixed32 (drop (bi_restarts it + index * 4) (bi_data it)))"

definition SeekToRestartPoint :: "BlockIter \<Rightarrow> nat \<Rightarrow> BlockIter option" where
  "SeekToRestartPoint it index = do {
     offset \<leftarrow> GetRestartPoint it index;
     Some (it\<lparr>bi_key := [], bi_restart_index := index, bi_value := (offset, 0)\<rparr>)
   }"

definition CorruptionError :: "BlockIter \<Rightarrow> BlockIter" where
  "CorruptionError it =
     it\<lparr>bi_current := bi_restarts it, bi_restart_index := bi_num_restarts it, bi_status := Corruption ''bad entry in block'',
        bi_key := [], bi_value := (0, 0)\<rparr>"

function advance_restart :: "BlockIter \<Rightarrow> BlockIter option" where
  "advance_restart it =
     (if bi_restart_index it + 1 < bi_num_restarts it
      then do {
        offset \<leftarrow> GetRestartPoint it (bi_restart_index it + 1);
        if offset < bi_current it then advance_restart (it\<lparr>bi_restart_index := bi_restart_index it + 1\<rparr>) else Some it
      }
      else Some it)"
  by pat_completeness auto
termination
  by (relation "measure (\<lambda>it. bi_num_restarts it - bi_restart_index it)") auto

declare advance_restart.simps [simp del]

definition ParseNextKey :: "BlockIter \<Rightarrow> (bool \<times> BlockIter) option" where
  "ParseNextKey it =
     (let current = NextEntryOffset it;
          it = it\<lparr>bi_current := current\<rparr>
      in if current \<ge> bi_restarts it
         then Some (False, it\<lparr>bi_current := bi_restarts it, bi_restart_index := bi_num_restarts it\<rparr>)
         else (case DecodeEntry (bi_data it) current (bi_restarts it) of
                 None \<Rightarrow> Some (False, CorruptionError it)
               | Some (shared, non_shared, value_length, p) \<Rightarrow>
                   (if length (bi_key it) < shared then Some (False, CorruptionError it)
                    else do {
                      delta \<leftarrow> read_at (bi_data it) p non_shared;
                      it \<leftarrow> advance_restart (it\<lparr>bi_key := take shared (bi_key it) @ delta, bi_value := (p + non_shared, value_length)\<rparr>);
                      Some (True, it)
                    })))"

definition BI_Next :: "BlockIter \<Rightarrow> BlockIter option" where
  "BI_Next it = map_option snd (ParseNextKey it)"

text \<open>The loop of \<^verbatim>\<open>SeekToLast\<close> and \<^verbatim>\<open>Prev\<close>: parse until the end of the entry reaches \<open>bound\<close>.\<close>

partial_function (option) parse_until :: "nat \<Rightarrow> BlockIter \<Rightarrow> BlockIter option" where
  "parse_until bound it = do {
     (ok, it) \<leftarrow> ParseNextKey it;
     if ok \<and> NextEntryOffset it < bound then parse_until bound it else Some it
   }"

text \<open>The loop of \<^verbatim>\<open>Prev\<close> over the restart points; \<^const>\<open>Inl\<close> when there is no entry before.\<close>

primrec prev_restart :: "BlockIter \<Rightarrow> nat \<Rightarrow> nat \<Rightarrow> (BlockIter + nat) option" where
  "prev_restart it original 0 = do {
     offset \<leftarrow> GetRestartPoint it 0;
     if offset \<ge> original then Some (Inl (it\<lparr>bi_current := bi_restarts it, bi_restart_index := bi_num_restarts it\<rparr>))
     else Some (Inr 0)
   }"
| "prev_restart it original (Suc index) = do {
     offset \<leftarrow> GetRestartPoint it (Suc index);
     if offset \<ge> original then prev_restart it original index else Some (Inr (Suc index))
   }"

definition BI_Prev :: "BlockIter \<Rightarrow> BlockIter option" where
  "BI_Prev it = do {
     let original = bi_current it;
     r \<leftarrow> prev_restart it original (bi_restart_index it);
     (case r of
        Inl it \<Rightarrow> Some it
      | Inr index \<Rightarrow> do {
          it \<leftarrow> SeekToRestartPoint it index;
          parse_until original it
        })
   }"

definition BI_SeekToFirst :: "BlockIter \<Rightarrow> BlockIter option" where
  "BI_SeekToFirst it = do { it \<leftarrow> SeekToRestartPoint it 0; map_option snd (ParseNextKey it) }"

definition BI_SeekToLast :: "BlockIter \<Rightarrow> BlockIter option" where
  "BI_SeekToLast it = do { it \<leftarrow> SeekToRestartPoint it (bi_num_restarts it - 1); parse_until (bi_restarts it) it }"

text \<open>The binary search of \<^verbatim>\<open>Seek\<close>: \<^const>\<open>Inl\<close> for a restart point that does not decode.\<close>

partial_function (option) seek_search ::
  "(byte list \<Rightarrow> byte list \<Rightarrow> int) \<Rightarrow> byte list \<Rightarrow> BlockIter \<Rightarrow> nat \<Rightarrow> nat \<Rightarrow> (BlockIter + nat) option" where
  "seek_search cmp target it left right =
     (if left < right
      then (let mid = (left + right + 1) mod 2 ^ 32 div 2
            in do {
              region_offset \<leftarrow> GetRestartPoint it mid;
              (case DecodeEntry (bi_data it) region_offset (bi_restarts it) of
                 None \<Rightarrow> Some (Inl (CorruptionError it))
               | Some (shared, non_shared, value_length, key_ptr) \<Rightarrow>
                   (if shared \<noteq> 0 then Some (Inl (CorruptionError it))
                    else do {
                      mid_key \<leftarrow> read_at (bi_data it) key_ptr non_shared;
                      if cmp mid_key target < 0 then seek_search cmp target it mid right
                      else seek_search cmp target it left (mid - 1)
                    }))
            })
      else Some (Inr left))"

partial_function (option) seek_scan :: "(byte list \<Rightarrow> byte list \<Rightarrow> int) \<Rightarrow> byte list \<Rightarrow> BlockIter \<Rightarrow> BlockIter option" where
  "seek_scan cmp target it = do {
     (ok, it) \<leftarrow> ParseNextKey it;
     if \<not> ok then Some it
     else if cmp (bi_key it) target \<ge> 0 then Some it
     else seek_scan cmp target it
   }"

definition BI_Seek :: "(byte list \<Rightarrow> byte list \<Rightarrow> int) \<Rightarrow> byte list \<Rightarrow> BlockIter \<Rightarrow> BlockIter option" where
  "BI_Seek cmp target it = do {
     r \<leftarrow> seek_search cmp target it 0 (bi_num_restarts it - 1);
     (case r of
        Inl it \<Rightarrow> Some it
      | Inr left \<Rightarrow> do {
          it \<leftarrow> SeekToRestartPoint it left;
          seek_scan cmp target it
        })
   }"

datatype block_iterator = ErrorIterator Status | EmptyIterator | Iter BlockIter

definition NewBlockIterator :: "Block \<Rightarrow> block_iterator option" where
  "NewBlockIterator b =
     (if bl_size b < 4 then Some (ErrorIterator (Corruption ''bad block contents''))
      else do {
        num_restarts \<leftarrow> NumRestarts (bl_data b) (bl_size b);
        Some (if num_restarts = 0 then EmptyIterator else Iter (new_BlockIter (bl_data b) (bl_restart_offset b) num_restarts))
      })"

end
