(* ===== verification/Ldb_Block_Spec.thy ===== *)
theory Ldb_Block_Spec
  imports Ldb_Block
begin

text \<open>
  What the builder writes as a format, and that the iterator reads it: every entry back in order and in reverse, and the first entry at or after a
  target by binary search over the restart points.
\<close>

subsection \<open>Layout\<close>

text \<open>An entry with the number of bytes its key shares with the one before.\<close>

type_synonym shared_entry = "nat \<times> byte list \<times> byte list"

fun entry_enc :: "shared_entry \<Rightarrow> byte list" where
  "entry_enc (s, k, v) =
     EncodeVarint32 (of_nat s) @ EncodeVarint32 (of_nat (length k - s)) @ EncodeVarint32 (of_nat (length v)) @ drop s k @ v"

definition off :: "shared_entry list \<Rightarrow> nat \<Rightarrow> nat" where
  "off ss i = length (concat (map entry_enc (take i ss)))"

definition key_of :: "shared_entry list \<Rightarrow> nat \<Rightarrow> byte list" where
  "key_of ss i = fst (snd (ss ! i))"

definition val_of :: "shared_entry list \<Rightarrow> nat \<Rightarrow> byte list" where
  "val_of ss i = snd (snd (ss ! i))"

definition agrees :: "byte list \<Rightarrow> shared_entry \<Rightarrow> bool" where
  "agrees prev e \<longleftrightarrow> fst e \<le> length prev \<and> fst e \<le> length (fst (snd e)) \<and> take (fst e) prev = take (fst e) (fst (snd e))"

definition chain :: "shared_entry list \<Rightarrow> bool" where
  "chain ss \<longleftrightarrow> (\<forall>i < length ss. agrees (if i = 0 then [] else key_of ss (i - 1)) (ss ! i))"

definition block_data :: "shared_entry list \<Rightarrow> nat list \<Rightarrow> byte list" where
  "block_data ss R =
     concat (map entry_enc ss) @ concat (map (\<lambda>r. EncodeFixed32 (of_nat (off ss r))) R) @ EncodeFixed32 (of_nat (length R))"

definition restarts_ok :: "shared_entry list \<Rightarrow> nat list \<Rightarrow> bool" where
  "restarts_ok ss R \<longleftrightarrow>
     sorted_wrt (<) R \<and> R \<noteq> [] \<and> R ! 0 = 0 \<and> (if ss = [] then R = [0] else \<forall>r \<in> set R. r < length ss \<and> fst (ss ! r) = 0)"

definition block_ok :: "shared_entry list \<Rightarrow> nat list \<Rightarrow> bool" where
  "block_ok ss R \<longleftrightarrow> chain ss \<and> restarts_ok ss R \<and> length (block_data ss R) < 2 ^ 32"

lemma entry_enc_length: "3 \<le> length (entry_enc e)"
proof -
  obtain s k v where e: "e = (s, k, v)" by (metis prod_cases3)
  have "1 \<le> length (EncodeVarint32 x)" for x by (simp add: EncodeVarint32_bytes Suc_le_eq)
  from this [of "of_nat s"] this [of "of_nat (length k - s)"] this [of "of_nat (length v)"] show ?thesis unfolding e entry_enc.simps length_append by linarith
qed

lemma off_0 [simp]: "off ss 0 = 0"
  by (simp add: off_def)

lemma off_all: "length ss \<le> i \<Longrightarrow> off ss i = off ss (length ss)"
  by (simp add: off_def)

lemma length_entries: "length (concat (map entry_enc ss)) = off ss (length ss)"
  by (simp add: off_def)

lemma off_Suc: "i < length ss \<Longrightarrow> off ss (Suc i) = off ss i + length (entry_enc (ss ! i))"
  by (simp add: off_def take_Suc_conv_app_nth)

lemma off_less: "i < j \<Longrightarrow> j \<le> length ss \<Longrightarrow> off ss i < off ss j"
proof (induction j)
  case (Suc j)
  have "off ss j < off ss (Suc j)" using Suc.prems(2) entry_enc_length [of "ss ! j"] by (simp only: off_Suc Suc_le_eq)
  then show ?case using Suc by (cases "i = j") auto
qed simp

lemma off_less_iff: "i \<le> length ss \<Longrightarrow> j \<le> length ss \<Longrightarrow> off ss i < off ss j \<longleftrightarrow> i < j"
  by (metis less_not_sym linorder_neqE_nat nat_less_le off_less)

lemma off_le: "off ss i \<le> off ss (length ss)"
  using off_less [of i "length ss" ss] by (cases "i < length ss") (simp_all add: off_all [of ss i])

lemma off_append [simp]: "i \<le> length ss \<Longrightarrow> off (ss @ ts) i = off ss i"
  by (simp add: off_def)

lemma drop_off: "drop (off ss i) (concat (map entry_enc ss)) = concat (map entry_enc (drop i ss))"
proof -
  have "concat (map entry_enc ss) = concat (map entry_enc (take i ss)) @ concat (map entry_enc (drop i ss))"
    by (metis append_take_drop_id concat_append map_append)
  then show ?thesis by (simp add: off_def)
qed

subsection \<open>Decoding\<close>

lemma EncodeVarint32_small: "EncodeVarint32 v = x # xs \<Longrightarrow> x < 128 \<Longrightarrow> xs = [] \<and> ucast x = v"
proof -
  assume a: "EncodeVarint32 v = x # xs" "x < 128"
  have "unat v < 128"
  proof (rule ccontr)
    assume "\<not> unat v < 128"
    then have "x = of_nat (128 + unat v mod 128)" using a(1) by (simp add: EncodeVarint32_bytes varint_bytes.simps [of "unat v"])
    moreover have "unat (of_nat (128 + unat v mod 128) :: byte) = 128 + unat v mod 128" by (intro unat_of_nat_small) simp
    ultimately show False using a(2) by (simp only: word_less_nat_alt) simp
  qed
  then have x: "x = of_nat (unat v)" "xs = []" using a(1) by (simp_all add: EncodeVarint32_bytes varint_bytes.simps [of "unat v"])
  have "unat (of_nat (unat v) :: byte) = unat v" using \<open>unat v < 128\<close> by (intro unat_of_nat_small) simp
  then have "(of_nat (unat x) :: uint32) = of_nat (unat v)" unfolding x(1) by simp
  then show ?thesis using x(2) by simp
qed

lemma or_less_128: "(x OR y :: byte) < 128 \<Longrightarrow> x < 128 \<and> y < 128"
  by (metis le_word_or1 le_word_or2 order.strict_trans1)

text \<open>Both ways of \<^verbatim>\<open>DecodeEntry\<close> decode the three numbers.\<close>

lemma decode_three:
  fixes a b c :: uint32
  assumes "q = EncodeVarint32 a @ EncodeVarint32 b @ EncodeVarint32 c @ rest"
  shows "(if (q ! 0 OR q ! 1 OR q ! 2) < 128
      then Some (ucast (q ! 0), ucast (q ! 1), ucast (q ! 2), drop 3 q)
      else do { (shared, q) \<leftarrow> GetVarint32Ptr q; (non_shared, q) \<leftarrow> GetVarint32Ptr q; (value_length, q) \<leftarrow> GetVarint32Ptr q;
                Some (shared, non_shared, value_length, q) }) = Some (a, b, c, rest)"
proof (cases "(q ! 0 OR q ! 1 OR q ! 2) < 128")
  case True
  then have lt: "q ! 0 < 128" "q ! 1 < 128" "q ! 2 < 128" using or_less_128 by blast+
  have ne: "EncodeVarint32 v \<noteq> []" for v by (simp add: EncodeVarint32_bytes)
  obtain x xs where a: "EncodeVarint32 a = x # xs" using ne [of a] by (cases "EncodeVarint32 a") auto
  then have a1: "xs = []" "ucast x = a" using EncodeVarint32_small [OF a] lt(1) assms by auto
  obtain y ys where b: "EncodeVarint32 b = y # ys" using ne [of b] by (cases "EncodeVarint32 b") auto
  then have b1: "ys = []" "ucast y = b" using EncodeVarint32_small [OF b] lt(2) assms a a1 by auto
  obtain z zs where c: "EncodeVarint32 c = z # zs" using ne [of c] by (cases "EncodeVarint32 c") auto
  then have c1: "zs = []" "ucast z = c" using EncodeVarint32_small [OF c] lt(3) assms a a1 b b1 by (auto simp: numeral_2_eq_2)
  show ?thesis using True by (simp add: assms a b c a1 b1 c1 numeral_eq_Suc)
next
  case False
  then show ?thesis using assms by (simp add: GetVarint32Ptr_bytes)
qed

lemma length_drop_entries: "length (concat (map entry_enc (drop i ss))) = off ss (length ss) - off ss i"
  using arg_cong [OF drop_off [of ss i], of length] by (simp only: length_drop length_entries)

lemma take_entries:
  "take (off ss (length ss) - off ss i) (drop (off ss i) (block_data ss R)) = concat (map entry_enc (drop i ss))"
proof -
  have "drop (off ss i) (block_data ss R) = concat (map entry_enc (drop i ss)) @ drop (off ss (length ss)) (block_data ss R)"
    using off_le [of ss i] by (simp add: block_data_def drop_off length_entries)
  then show ?thesis by (simp add: length_drop_entries)
qed

lemma key_length:
  assumes "chain ss" "i < length ss"
  shows "length (key_of ss i) \<le> off ss (Suc i)"
  using assms(2)
proof (induction i)
  case 0
  then have "fst (ss ! 0) = 0" using assms(1) by (auto simp: chain_def agrees_def)
  then show ?case using 0 by (cases "ss ! 0") (simp add: off_Suc key_of_def)
next
  case (Suc i)
  obtain s k v where e: "ss ! Suc i = (s, k, v)" by (metis prod_cases3)
  have "agrees (key_of ss i) (ss ! Suc i)" using assms(1) Suc.prems by (auto simp: chain_def)
  then have "s \<le> off ss (Suc i)" using Suc e by (simp add: agrees_def)
  then show ?case using Suc.prems e by (simp add: off_Suc [of "Suc i"] key_of_def)
qed

lemma DecodeEntry_entry:
  assumes "chain ss" "length (block_data ss R) < 2 ^ 32" "i < length ss" "ss ! i = (s, k, v)"
  shows "DecodeEntry (block_data ss R) (off ss i) (off ss (length ss)) =
    Some (s, length k - s, length v, off ss (Suc i) - length v - (length k - s))"
proof -
  let ?rest = "concat (map entry_enc (drop (Suc i) ss))"
  have q: "concat (map entry_enc (drop i ss)) = EncodeVarint32 (of_nat s) @ EncodeVarint32 (of_nat (length k - s)) @
      EncodeVarint32 (of_nat (length v)) @ drop s k @ v @ ?rest"
    using assms(3,4) by (simp flip: Cons_nth_drop_Suc)
  have "s \<le> length k" using assms(1,3,4) by (auto simp: chain_def agrees_def)
  moreover have "length k \<le> off ss (Suc i)" using key_length [OF assms(1,3)] assms(4) by (simp add: key_of_def)
  moreover have "length k - s + length v \<le> off ss (Suc i)" using assms(3,4) by (simp add: off_Suc)
  moreover have "off ss (length ss) < 2 ^ 32" using assms(2) by (simp add: block_data_def length_entries)
  moreover note off_le [of ss "Suc i"]
  ultimately have b: "s < 2 ^ 32" "length k - s < 2 ^ 32" "length v < 2 ^ 32" "length k - s + length v + length ?rest < 2 ^ 32"
    by (simp_all add: length_drop_entries)
  have u: "unat (of_nat n :: uint32) = n" if "n < 2 ^ 32" for n using that by (simp add: unat_of_nat_small)
  have "off ss i + 3 \<le> off ss (length ss)"
    using off_le [of ss "Suc i"] entry_enc_length [of "ss ! i"] assms(3) by (simp add: off_Suc)
  moreover have "\<not> (of_nat (length (drop s k @ v @ ?rest)) :: uint32) < of_nat (length k - s) + of_nat (length v)"
    using b by (simp add: word_less_nat_alt u flip: of_nat_add del: of_nat_add)
  moreover have "off ss (length ss) - length (drop s k @ v @ ?rest) = off ss (Suc i) - length v - (length k - s)"
    using off_le [of ss "Suc i"] by (simp add: length_drop_entries)
  ultimately show ?thesis
    using decode_three [OF q] b(1-3) by (simp add: DecodeEntry_def take_entries Let_def u)
qed

subsection \<open>Positions of the iterator\<close>

text \<open>An iterator over a block, one that is in front of entry \<open>i\<close> and one that is at entry \<open>i\<close>.\<close>

definition iter_on :: "shared_entry list \<Rightarrow> nat list \<Rightarrow> BlockIter \<Rightarrow> bool" where
  "iter_on ss R it \<longleftrightarrow>
     bi_data it = block_data ss R \<and> bi_restarts it = off ss (length ss) \<and> bi_num_restarts it = length R \<and> bi_status it = OK"

definition in_front :: "shared_entry list \<Rightarrow> nat list \<Rightarrow> nat \<Rightarrow> BlockIter \<Rightarrow> bool" where
  "in_front ss R i it \<longleftrightarrow>
     iter_on ss R it \<and> i \<le> length ss \<and> NextEntryOffset it = off ss i \<and> (i < length ss \<longrightarrow> agrees (bi_key it) (ss ! i)) \<and>
     bi_restart_index it < length R \<and> R ! bi_restart_index it \<le> i"

definition at_entry :: "shared_entry list \<Rightarrow> nat list \<Rightarrow> nat \<Rightarrow> BlockIter \<Rightarrow> bool" where
  "at_entry ss R i it \<longleftrightarrow>
     iter_on ss R it \<and> i < length ss \<and> bi_current it = off ss i \<and> bi_key it = key_of ss i \<and>
     bi_value it = (off ss (Suc i) - length (val_of ss i), length (val_of ss i)) \<and>
     bi_restart_index it < length R \<and> R ! bi_restart_index it \<le> i \<and>
     (bi_restart_index it + 1 < length R \<longrightarrow> i \<le> R ! (bi_restart_index it + 1))"

definition at_end :: "shared_entry list \<Rightarrow> nat list \<Rightarrow> BlockIter \<Rightarrow> bool" where
  "at_end ss R it \<longleftrightarrow> iter_on ss R it \<and> bi_current it = off ss (length ss)"

lemma block_ok_less: "block_ok ss R \<Longrightarrow> off ss i < 2 ^ 32"
  using off_le [of ss i] by (simp add: block_ok_def block_data_def length_entries)

lemma restart_le: "restarts_ok ss R \<Longrightarrow> r < length R \<Longrightarrow> R ! r \<le> length ss"
  using nth_mem [of r R] by (cases "ss = []") (auto simp: restarts_ok_def intro: less_imp_le)

lemma GetRestartPoint_ok:
  assumes "block_ok ss R" "iter_on ss R it" "r < length R"
  shows "GetRestartPoint it r = Some (off ss (R ! r))"
proof -
  let ?f = "\<lambda>r. EncodeFixed32 (of_nat (off ss r))"
  have "drop (bi_restarts it + r * 4) (bi_data it) = drop (r * 4) (concat (map ?f R) @ EncodeFixed32 (of_nat (length R)))"
    using assms(2) by (simp add: iter_on_def block_data_def length_entries)
  also have "\<dots> = concat (map ?f (drop r R)) @ EncodeFixed32 (of_nat (length R))"
    using assms(3) by (intro drop_fixed32) simp
  also have "\<dots> = ?f (R ! r) @ concat (map ?f (drop (Suc r) R)) @ EncodeFixed32 (of_nat (length R))"
    using assms(3) by (simp flip: Cons_nth_drop_Suc)
  finally show ?thesis using block_ok_less [OF assms(1)]
    by (simp add: GetRestartPoint_def DecodeFixed32_Encode unat_of_nat_small)
qed

lemma iter_on_update [simp]:
  "iter_on ss R (it\<lparr>bi_restart_index := x\<rparr>) = iter_on ss R it" "iter_on ss R (it\<lparr>bi_current := y\<rparr>) = iter_on ss R it"
  "iter_on ss R (it\<lparr>bi_key := k\<rparr>) = iter_on ss R it" "iter_on ss R (it\<lparr>bi_value := v\<rparr>) = iter_on ss R it"
  by (simp_all add: iter_on_def)

lemma advance_restart_ok:
  assumes "block_ok ss R" "iter_on ss R it" "bi_current it = off ss i" "i < length ss" "bi_restart_index it < length R" "R ! bi_restart_index it \<le> i"
  shows "\<exists>r. advance_restart it = Some (it\<lparr>bi_restart_index := r\<rparr>) \<and> r < length R \<and> R ! r \<le> i \<and> (r + 1 < length R \<longrightarrow> i \<le> R ! (r + 1))"
  using assms(2-6)
proof (induction it rule: advance_restart.induct)
  case (1 it)
  let ?r = "bi_restart_index it"
  have n: "bi_num_restarts it = length R" using "1.prems"(1) by (simp add: iter_on_def)
  show ?case
  proof (cases "?r + 1 < length R")
    case True
    note g = GetRestartPoint_ok [OF assms(1) "1.prems"(1) True]
    have lt: "off ss (R ! (?r + 1)) < bi_current it \<longleftrightarrow> R ! (?r + 1) < i"
      using "1.prems"(2,3) restart_le [OF _ True] assms(1) by (simp add: off_less_iff block_ok_def)
    show ?thesis
    proof (cases "R ! (?r + 1) < i")
      case less: True
      then show ?thesis
        using "1.IH" [of "off ss (R ! (?r + 1))"] "1.prems" True g n lt by (simp add: advance_restart.simps [of it])
    next
      case False
      then show ?thesis
        using "1.prems"(4,5) True g n lt by (intro exI [of _ ?r]) (simp add: advance_restart.simps [of it])
    qed
  next
    case False
    then show ?thesis using "1.prems"(4,5) n by (intro exI [of _ ?r]) (simp add: advance_restart.simps [of it])
  qed
qed

lemma read_entry:
  assumes "i < length ss" "ss ! i = (s, k, v)"
  shows "read_at (block_data ss R) (off ss (Suc i) - length v - (length k - s)) (length k - s) = Some (drop s k)"
    "read_at (block_data ss R) (off ss (Suc i) - length v) (length v) = Some v"
proof -
  let ?pre = "EncodeVarint32 (of_nat s) @ EncodeVarint32 (of_nat (length k - s)) @ EncodeVarint32 (of_nat (length v))"
  define A where "A = concat (map entry_enc (take i ss)) @ ?pre"
  define Z where "Z = concat (map entry_enc (drop (Suc i) ss)) @
    concat (map (\<lambda>r. EncodeFixed32 (of_nat (off ss r))) R) @ EncodeFixed32 (of_nat (length R))"
  have "concat (map entry_enc ss) = concat (map entry_enc (take i ss @ ss ! i # drop (Suc i) ss))" using assms(1) by (simp add: id_take_nth_drop [symmetric])
  then have d: "block_data ss R = A @ drop s k @ v @ Z"
    using assms(2) by (simp add: block_data_def A_def Z_def)
  have "off ss (Suc i) = length A + (length k - s) + length v"
    using assms by (simp add: off_Suc A_def) (simp add: off_def)
  then show "read_at (block_data ss R) (off ss (Suc i) - length v - (length k - s)) (length k - s) = Some (drop s k)"
    "read_at (block_data ss R) (off ss (Suc i) - length v) (length v) = Some v"
    unfolding d by (simp_all add: read_at_def)
qed

lemma ParseNextKey_entry:
  assumes "block_ok ss R" "in_front ss R i it" "i < length ss"
  shows "\<exists>it'. ParseNextKey it = Some (True, it') \<and> at_entry ss R i it'"
proof -
  obtain s k v where e: "ss ! i = (s, k, v)" by (metis prod_cases3)
  have ok: "chain ss" "length (block_data ss R) < 2 ^ 32" using assms(1) by (simp_all add: block_ok_def)
  have it: "iter_on ss R it" "NextEntryOffset it = off ss i" "s \<le> length (bi_key it)" "s \<le> length k" "take s (bi_key it) = take s k"
      "bi_restart_index it < length R" "R ! bi_restart_index it \<le> i"
    using assms(2,3) e by (simp_all add: in_front_def agrees_def)
  let ?it = "it\<lparr>bi_current := off ss i, bi_key := k, bi_value := (off ss (Suc i) - length v, length v)\<rparr>"
  obtain r where r: "advance_restart ?it = Some (?it\<lparr>bi_restart_index := r\<rparr>)" "r < length R" "R ! r \<le> i" "r + 1 < length R \<longrightarrow> i \<le> R ! (r + 1)"
    using advance_restart_ok [OF assms(1), of ?it i] it assms(3) by auto
  have "off ss i < off ss (length ss)" using assms(3) by (simp add: off_less)
  moreover have "off ss (Suc i) - length v - (length k - s) + (length k - s) = off ss (Suc i) - length v"
    using assms(3) e by (simp add: off_Suc)
  moreover have "take s (bi_key it) @ drop s k = k" using it(5) by simp
  ultimately have "ParseNextKey it = Some (True, ?it\<lparr>bi_restart_index := r\<rparr>)"
    using DecodeEntry_entry [OF ok assms(3) e] read_entry(1) [OF assms(3) e] it r(1) by (simp add: ParseNextKey_def Let_def iter_on_def)
  then show ?thesis using r it(1) assms(3) e by (simp add: at_entry_def key_of_def val_of_def)
qed

lemma ParseNextKey_end:
  assumes "in_front ss R (length ss) it"
  shows "\<exists>it'. ParseNextKey it = Some (False, it') \<and> at_end ss R it'"
  using assms by (simp add: in_front_def ParseNextKey_def Let_def iter_on_def at_end_def)

lemma at_entry_in_front:
  assumes "block_ok ss R" "at_entry ss R i it"
  shows "in_front ss R (Suc i) it"
proof -
  have it: "iter_on ss R it" "i < length ss" "bi_key it = key_of ss i"
      "bi_value it = (off ss (Suc i) - length (val_of ss i), length (val_of ss i))" "bi_restart_index it < length R" "R ! bi_restart_index it \<le> i"
    using assms(2) by (simp_all add: at_entry_def)
  obtain s k v where e: "ss ! i = (s, k, v)" by (metis prod_cases3)
  have "length (val_of ss i) \<le> off ss (Suc i)" using it(2) e by (simp add: off_Suc val_of_def)
  then have "NextEntryOffset it = off ss (Suc i)" using it(4) block_ok_less [OF assms(1), of "Suc i"] by (simp add: NextEntryOffset_def)
  moreover have "agrees (key_of ss i) (ss ! Suc i)" if "Suc i < length ss"
    using assms(1) that by (fastforce simp: block_ok_def chain_def)
  ultimately show ?thesis using it by (simp add: in_front_def)
qed

lemma at_entry_value: "at_entry ss R i it \<Longrightarrow> BI_value it = Some (val_of ss i)"
  using read_entry(2) [of i ss "fst (ss ! i)" "key_of ss i" "val_of ss i" R]
  by (simp add: at_entry_def BI_value_def iter_on_def key_of_def val_of_def)

lemma at_entry_Valid: "at_entry ss R i it \<Longrightarrow> BI_Valid it"
  by (simp add: at_entry_def BI_Valid_def iter_on_def off_less)

lemma at_end_Valid: "at_end ss R it \<Longrightarrow> \<not> BI_Valid it"
  by (simp add: at_end_def BI_Valid_def iter_on_def)

lemma SeekToRestartPoint_ok:
  assumes "block_ok ss R" "iter_on ss R it" "r < length R"
  shows "\<exists>it'. SeekToRestartPoint it r = Some it' \<and> in_front ss R (R ! r) it'"
proof -
  have "agrees [] (ss ! (R ! r))" if "R ! r < length ss"
    using assms(1,3) that nth_mem [of r R] by (auto simp: block_ok_def restarts_ok_def agrees_def split: if_splits)
  moreover have "R ! r \<le> length ss" using assms(1,3) restart_le by (simp add: block_ok_def)
  ultimately show ?thesis
    using GetRestartPoint_ok [OF assms] block_ok_less [OF assms(1), of "R ! r"] assms(2,3)
    by (simp add: SeekToRestartPoint_def in_front_def NextEntryOffset_def)
qed

subsection \<open>Moving\<close>

lemma parse_until_ok:
  assumes "block_ok ss R" "in_front ss R i it" "i < j" "j \<le> length ss"
  shows "\<exists>it'. parse_until (off ss j) it = Some it' \<and> at_entry ss R (j - 1) it'"
  using assms(2,3)
proof (induction "j - i" arbitrary: i it)
  case (Suc n)
  obtain it1 where it1: "ParseNextKey it = Some (True, it1)" "at_entry ss R i it1"
    using ParseNextKey_entry [OF assms(1) Suc.prems(1)] Suc.prems(2) assms(4) by auto
  note f = at_entry_in_front [OF assms(1) it1(2)]
  have lt: "NextEntryOffset it1 < off ss j \<longleftrightarrow> Suc i < j"
    using f Suc.prems(2) assms(4) by (simp add: in_front_def off_less_iff)
  show ?case
  proof (cases "Suc i < j")
    case True
    then show ?thesis using Suc.hyps(1) [OF _ f] Suc.hyps(2) it1(1) lt by (simp add: parse_until.simps [of _ it])
  next
    case False
    then have "j - 1 = i" using Suc.prems(2) by simp
    then show ?thesis using it1 lt False by (simp add: parse_until.simps [of _ it])
  qed
qed simp

lemma prev_restart_ok:
  assumes "block_ok ss R" "iter_on ss R it" "r < length R" "i \<le> length ss"
  shows "if i = 0 then \<exists>it'. prev_restart it (off ss i) r = Some (Inl it') \<and> at_end ss R it'
    else \<exists>r'. prev_restart it (off ss i) r = Some (Inr r') \<and> r' < length R \<and> R ! r' < i"
  using assms(3)
proof (induction r)
  case 0
  have "R ! 0 = 0" using assms(1) by (simp add: block_ok_def restarts_ok_def)
  then show ?case using GetRestartPoint_ok [OF assms(1,2) 0] assms(2,4) off_less [of 0 i ss] 0
    by (cases "i = 0") (auto simp: at_end_def iter_on_def)
next
  case (Suc r)
  have "off ss (R ! Suc r) < off ss i \<longleftrightarrow> R ! Suc r < i"
    using restart_le [OF _ Suc.prems] assms(1,4) by (simp add: block_ok_def off_less_iff)
  then show ?case using GetRestartPoint_ok [OF assms(1,2) Suc.prems] Suc by (auto simp: not_le)
qed

lemma BI_Prev_ok:
  assumes "block_ok ss R" "at_entry ss R i it"
  shows "\<exists>it'. BI_Prev it = Some it' \<and> (if i = 0 then at_end ss R it' else at_entry ss R (i - 1) it')"
proof -
  have it: "iter_on ss R it" "i < length ss" "bi_current it = off ss i" "bi_restart_index it < length R" using assms(2) by (simp_all add: at_entry_def)
  note p = prev_restart_ok [OF assms(1) it(1,4), of i]
  show ?thesis
  proof (cases "i = 0")
    case True
    then show ?thesis using p it(3) by (auto simp: BI_Prev_def)
  next
    case False
    then obtain r where r: "prev_restart it (off ss i) (bi_restart_index it) = Some (Inr r)" "r < length R" "R ! r < i" using p it(2) by auto
    obtain it1 where it1: "SeekToRestartPoint it r = Some it1" "in_front ss R (R ! r) it1"
      using SeekToRestartPoint_ok [OF assms(1) it(1) r(2)] by blast
    then show ?thesis using parse_until_ok [OF assms(1) it1(2) r(3)] it(2,3) r(1) False by (simp add: BI_Prev_def)
  qed
qed

lemma BI_Next_ok:
  assumes "block_ok ss R" "at_entry ss R i it"
  shows "\<exists>it'. BI_Next it = Some it' \<and> (if Suc i = length ss then at_end ss R it' else at_entry ss R (Suc i) it')"
proof -
  note f = at_entry_in_front [OF assms]
  have "i < length ss" using assms(2) by (simp add: at_entry_def)
  then show ?thesis
    using ParseNextKey_end [of ss R it] ParseNextKey_entry [OF assms(1) f] f by (cases "Suc i = length ss") (auto simp: BI_Next_def)
qed

lemma BI_SeekToFirst_ok:
  assumes "block_ok ss R" "iter_on ss R it"
  shows "\<exists>it'. BI_SeekToFirst it = Some it' \<and> (if ss = [] then at_end ss R it' else at_entry ss R 0 it')"
proof -
  have R: "0 < length R" "R ! 0 = 0" using assms(1) by (simp_all add: block_ok_def restarts_ok_def)
  obtain it1 where it1: "SeekToRestartPoint it 0 = Some it1" "in_front ss R 0 it1"
    using SeekToRestartPoint_ok [OF assms R(1)] R(2) by auto
  show ?thesis
  proof (cases "ss = []")
    case True
    then show ?thesis using ParseNextKey_end [of ss R it1] it1 by (auto simp: BI_SeekToFirst_def)
  next
    case False
    then show ?thesis using ParseNextKey_entry [OF assms(1) it1(2)] it1(1) by (auto simp: BI_SeekToFirst_def)
  qed
qed

lemma BI_SeekToLast_ok:
  assumes "block_ok ss R" "iter_on ss R it"
  shows "\<exists>it'. BI_SeekToLast it = Some it' \<and> (if ss = [] then at_end ss R it' else at_entry ss R (length ss - 1) it')"
proof -
  let ?r = "length R - 1"
  have r: "?r < length R" using assms(1) by (simp add: block_ok_def restarts_ok_def)
  obtain it1 where it1: "SeekToRestartPoint it ?r = Some it1" "in_front ss R (R ! ?r) it1"
    using SeekToRestartPoint_ok [OF assms r] by blast
  have b: "bi_num_restarts it = length R" "bi_restarts it1 = off ss (length ss)" using assms(2) it1(2) by (simp_all add: iter_on_def in_front_def)
  show ?thesis
  proof (cases "ss = []")
    case True
    then have "in_front ss R (length ss) it1" using it1(2) by (simp add: in_front_def)
    then show ?thesis using ParseNextKey_end [of ss R it1] it1(1) b True by (auto simp: BI_SeekToLast_def parse_until.simps)
  next
    case False
    then have "R ! ?r < length ss" using assms(1) nth_mem [OF r] by (auto simp: block_ok_def restarts_ok_def)
    then show ?thesis using parse_until_ok [OF assms(1) it1(2) _ order_refl] it1(1) b False by (simp add: BI_SeekToLast_def)
  qed
qed

subsection \<open>Seeking\<close>

lemma seek_scan_ok:
  assumes "block_ok ss R" "in_front ss R i it" "\<forall>m < i. cmp (key_of ss m) target < 0"
  shows "\<exists>it'. seek_scan cmp target it = Some it' \<and>
    ((\<exists>j < length ss. at_entry ss R j it' \<and> cmp (key_of ss j) target \<ge> 0 \<and> (\<forall>m < j. cmp (key_of ss m) target < 0)) \<or>
     at_end ss R it' \<and> (\<forall>m < length ss. cmp (key_of ss m) target < 0))"
  using assms(2,3)
proof (induction "length ss - i" arbitrary: i it)
  case 0
  then have "i = length ss" by (simp add: in_front_def)
  then show ?case using ParseNextKey_end [of ss R it] "0.prems" by (auto simp: seek_scan.simps [of _ _ it])
next
  case (Suc n)
  then have i: "i < length ss" by simp
  obtain it1 where it1: "ParseNextKey it = Some (True, it1)" "at_entry ss R i it1"
    using ParseNextKey_entry [OF assms(1) Suc.prems(1) i] by auto
  have k: "bi_key it1 = key_of ss i" using it1(2) by (simp add: at_entry_def)
  show ?case
  proof (cases "cmp (key_of ss i) target \<ge> 0")
    case True
    then show ?thesis using it1 k i Suc.prems(2) by (auto simp: seek_scan.simps [of _ _ it])
  next
    case False
    then have "\<forall>m < Suc i. cmp (key_of ss m) target < 0" using Suc.prems(2) by (simp add: less_Suc_eq)
    then show ?thesis
      using Suc.hyps(1) [OF _ at_entry_in_front [OF assms(1) it1(2)]] Suc.hyps(2) it1(1) k False by (simp add: seek_scan.simps [of _ _ it])
  qed
qed

lemma seek_search_ok:
  assumes "block_ok ss R" "iter_on ss R it" "ss \<noteq> []" "left \<le> right" "right < length R" "left = 0 \<or> cmp (key_of ss (R ! left)) target < 0"
  shows "\<exists>l < length R. seek_search cmp target it left right = Some (Inr l) \<and> (l = 0 \<or> cmp (key_of ss (R ! l)) target < 0)"
  using assms(4-6)
proof (induction "right - left" arbitrary: left right rule: less_induct)
  case less
  show ?case
  proof (cases "left < right")
    case True
    let ?mid = "(left + right + 1) div 2"
    have "length R * 4 < 2 ^ 32"
    proof -
      have "length (concat (map (\<lambda>r. EncodeFixed32 (of_nat (off ss r))) R)) = length R * 4"
        by (induction R) (simp_all add: EncodeFixed32_bytes)
      then show ?thesis using assms(1) by (simp add: block_ok_def block_data_def)
    qed
    then have mid: "(left + right + 1) mod 2 ^ 32 div 2 = ?mid" "?mid < length R" "left < ?mid" "?mid \<le> right"
      using True less.prems(2) by simp_all
    let ?i = "R ! ?mid"
    have i: "?i < length ss" "fst (ss ! ?i) = 0"
      using assms(1,3) nth_mem [OF mid(2)] by (auto simp: block_ok_def restarts_ok_def)
    obtain k v where e: "ss ! ?i = (0, k, v)" using i(2) by (cases "ss ! ?i") auto
    have "DecodeEntry (bi_data it) (off ss ?i) (bi_restarts it) = Some (0, length k, length v, off ss (Suc ?i) - length v - length k)"
      "read_at (bi_data it) (off ss (Suc ?i) - length v - length k) (length k) = Some k"
      using DecodeEntry_entry [OF _ _ i(1) e] read_entry(1) [OF i(1) e] assms(1,2) by (auto simp: block_ok_def iter_on_def)
    then have step: "seek_search cmp target it left right =
        (if cmp k target < 0 then seek_search cmp target it ?mid right else seek_search cmp target it left (?mid - 1))"
      using GetRestartPoint_ok [OF assms(1,2) mid(2)] mid(1) True by (simp add: seek_search.simps [of _ _ _ left right])
    have "k = key_of ss ?i" using e by (simp add: key_of_def)
    then show ?thesis
      using less.hyps [of right ?mid] less.hyps [of "?mid - 1" left] less.prems mid step by auto
  next
    case False
    then have "seek_search cmp target it left right = Some (Inr left)" by (simp add: seek_search.simps [of _ _ _ left right])
    then show ?thesis using less.prems by auto
  qed
qed

subsection \<open>Building\<close>

definition build_block :: "nat \<Rightarrow> (byte list \<times> byte list) list \<Rightarrow> byte list" where
  "build_block interval es = fst (Builder_Finish (foldl (\<lambda>b (k, v). Builder_Add interval b k v) new_BlockBuilder es))"

definition building :: "BlockBuilder \<Rightarrow> shared_entry list \<Rightarrow> nat list \<Rightarrow> bool" where
  "building b ss R \<longleftrightarrow>
     bb_buffer b = concat (map entry_enc ss) \<and> bb_restarts b = map (\<lambda>r. of_nat (off ss r)) R \<and> chain ss \<and> restarts_ok ss R \<and>
     bb_last_key b = (if ss = [] then [] else key_of ss (length ss - 1)) \<and> (ss = [] \<longrightarrow> bb_counter b = 0)"

lemma shared_loop_prefix: "shared_loop a b n = n + common_prefix a b"
  by (induction a b n rule: shared_loop.induct) auto

lemma agrees_common_prefix: "agrees a (common_prefix a k, k, v)"
  by (induction a k rule: common_prefix.induct) (auto simp: agrees_def)

lemma chain_snoc: "chain ss \<Longrightarrow> agrees (if ss = [] then [] else key_of ss (length ss - 1)) e \<Longrightarrow> chain (ss @ [e])"
  by (auto simp: chain_def nth_append key_of_def less_Suc_eq)

lemma building_Add:
  assumes "building b ss R" "0 < interval"
  shows "\<exists>s R'. building (Builder_Add interval b k v) (ss @ [(s, k, v)]) R'"
proof -
  let ?last = "if ss = [] then [] else key_of ss (length ss - 1)"
  have b: "bb_buffer b = concat (map entry_enc ss)" "bb_restarts b = map (\<lambda>r. of_nat (off ss r)) R" "chain ss" "restarts_ok ss R"
      "bb_last_key b = ?last" "ss = [] \<longrightarrow> bb_counter b = 0"
    using assms(1) by (simp_all add: building_def)
  have le: "\<forall>r \<in> set R. r \<le> length ss" using b(4) by (auto simp: restarts_ok_def split: if_splits)
  show ?thesis
  proof (cases "bb_counter b < interval")
    case True
    let ?s = "common_prefix ?last k"
    have ag: "agrees ?last (?s, k, v)" by (rule agrees_common_prefix)
    then have "take ?s ?last @ drop ?s k = k" by (simp add: agrees_def)
    moreover have "restarts_ok (ss @ [(?s, k, v)]) R"
      using b(4) by (auto simp: restarts_ok_def nth_append split: if_splits)
    moreover have "map (\<lambda>r. of_nat (off (ss @ [(?s, k, v)]) r)) R = (map (\<lambda>r. of_nat (off ss r)) R :: uint32 list)" using le by simp
    ultimately have "building (Builder_Add interval b k v) (ss @ [(?s, k, v)]) R"
      using True b chain_snoc [OF b(3) ag]
      by (simp add: building_def Builder_Add_def Let_def shared_loop_prefix PutVarint32_def key_of_def nth_append)
    then show ?thesis by blast
  next
    case False
    then have ne: "ss \<noteq> []" using b(6) assms(2) by auto
    have "chain (ss @ [(0, k, v)])" by (rule chain_snoc [OF b(3)]) (simp add: agrees_def)
    moreover have "restarts_ok (ss @ [(0, k, v)]) (R @ [length ss])"
      using b(4) ne by (auto simp: restarts_ok_def nth_append sorted_wrt_append)
    moreover have "map (\<lambda>r. of_nat (off (ss @ [(0, k, v)]) r)) R = (map (\<lambda>r. of_nat (off ss r)) R :: uint32 list)" using le by simp
    ultimately have "building (Builder_Add interval b k v) (ss @ [(0, k, v)]) (R @ [length ss])"
      using False b ne by (simp add: building_def Builder_Add_def Let_def PutVarint32_def key_of_def nth_append length_entries)
    then show ?thesis by blast
  qed
qed

lemma building_all:
  assumes "building b ss R" "0 < interval"
  shows "\<exists>ss' R'. building (foldl (\<lambda>b (k, v). Builder_Add interval b k v) b es) (ss @ ss') R' \<and> map snd ss' = es"
  using assms(1)
proof (induction es arbitrary: b ss R)
  case Nil
  then show ?case by (intro exI [of _ "[]"] exI [of _ R]) simp
next
  case (Cons e es)
  obtain k v where e: "e = (k, v)" by fastforce
  obtain s R1 where "building (Builder_Add interval b k v) (ss @ [(s, k, v)]) R1" using building_Add [OF Cons.prems assms(2)] by blast
  from Cons.IH [OF this] obtain ss' R' where "building (foldl (\<lambda>b (k, v). Builder_Add interval b k v) (Builder_Add interval b k v) es) ((ss @ [(s, k, v)]) @ ss') R'"
      "map snd ss' = es" by blast
  then show ?case using e by (intro exI [of _ "(s, k, v) # ss'"]) auto
qed

lemma build_block_ok:
  assumes "0 < interval" "length (build_block interval es) < 2 ^ 32"
  obtains ss R where "block_ok ss R" "build_block interval es = block_data ss R" "map snd ss = es"
proof -
  have "building new_BlockBuilder [] [0]" by (simp add: building_def new_BlockBuilder_def chain_def restarts_ok_def)
  from building_all [OF this assms(1), of es] obtain ss R where b: "building (foldl (\<lambda>b (k, v). Builder_Add interval b k v) new_BlockBuilder es) ss R"
      "map snd ss = es" by auto
  have d: "build_block interval es = block_data ss R"
    using b(1) by (simp add: build_block_def Builder_Finish_def building_def block_data_def foldl_PutFixed32 PutFixed32_def Let_def comp_def)
  then show thesis using that [OF _ d b(2)] b(1) assms(2) by (simp add: block_ok_def building_def)
qed

definition open_block :: "byte list \<Rightarrow> BlockIter option" where
  "open_block str = do {
     b \<leftarrow> new_Block str;
     i \<leftarrow> NewBlockIterator b;
     (case i of Iter it \<Rightarrow> Some it | _ \<Rightarrow> None)
   }"

lemma open_block_ok:
  assumes "block_ok ss R"
  shows "\<exists>it. open_block (block_data ss R) = Some it \<and> iter_on ss R it"
proof -
  let ?d = "block_data ss R" and ?n = "length R"
  have "length (concat (map (\<lambda>r. EncodeFixed32 (of_nat (off ss r))) R)) = ?n * 4" by (induction R) (simp_all add: EncodeFixed32_bytes)
  then have l: "length ?d = off ss (length ss) + ?n * 4 + 4" by (simp add: block_data_def length_entries EncodeFixed32_bytes)
  have lt: "length ?d < 2 ^ 32" "0 < ?n" using assms by (simp_all add: block_ok_def restarts_ok_def)
  have "drop (length ?d - 4) ?d = EncodeFixed32 (of_nat ?n)" by (simp add: block_data_def EncodeFixed32_bytes)
  then have nr: "NumRestarts ?d (length ?d) = Some ?n"
    using DecodeFixed32_Encode [of "of_nat ?n" "[]"] l lt by (simp add: NumRestarts_def unat_of_nat_small)
  have "new_Block ?d = Some \<lparr>bl_data = ?d, bl_size = length ?d, bl_restart_offset = off ss (length ss)\<rparr>"
    using nr l lt by (simp add: new_Block_def Let_def)
  then have "open_block ?d = Some (new_BlockIter ?d (off ss (length ss)) ?n)"
    using nr l lt by (simp add: open_block_def NewBlockIterator_def)
  then show ?thesis by (simp add: iter_on_def new_BlockIter_def)
qed

subsection \<open>Properties\<close>

text \<open>The entries an iterator passes, with \<open>n\<close> steps at most.\<close>

primrec entries_by :: "(BlockIter \<Rightarrow> BlockIter option) \<Rightarrow> nat \<Rightarrow> BlockIter \<Rightarrow> (byte list \<times> byte list) list option" where
  "entries_by step 0 it = (if BI_Valid it then None else Some [])"
| "entries_by step (Suc n) it =
     (if \<not> BI_Valid it then Some []
      else do { v \<leftarrow> BI_value it; it' \<leftarrow> step it; es \<leftarrow> entries_by step n it'; Some ((bi_key it, v) # es) })"

lemma entry_at: "i < length ss \<Longrightarrow> (key_of ss i, val_of ss i) = map snd ss ! i"
  by (simp add: key_of_def val_of_def)

lemma entries_forward:
  assumes "block_ok ss R" "at_entry ss R i it"
  shows "entries_by BI_Next (length ss - i) it = Some (drop i (map snd ss))"
  using assms(2)
proof (induction "length ss - i" arbitrary: i it)
  case 0
  then show ?case by (simp add: at_entry_def)
next
  case (Suc n)
  have i: "i < length ss" "bi_key it = key_of ss i" using Suc.prems by (simp_all add: at_entry_def)
  note e = at_entry_value [OF Suc.prems] at_entry_Valid [OF Suc.prems]
  have d: "drop i (map snd ss) = (key_of ss i, val_of ss i) # drop (Suc i) (map snd ss)"
    using i(1) Cons_nth_drop_Suc [of i "map snd ss"] by (simp add: entry_at)
  obtain it1 where it1: "BI_Next it = Some it1" "if Suc i = length ss then at_end ss R it1 else at_entry ss R (Suc i) it1"
    using BI_Next_ok [OF assms(1) Suc.prems] by blast
  have "entries_by BI_Next n it1 = Some (drop (Suc i) (map snd ss))"
  proof (cases "Suc i = length ss")
    case True
    then have "n = 0" using Suc.hyps(2) by simp
    then show ?thesis using True it1(2) at_end_Valid by simp
  next
    case False
    have "n = length ss - Suc i" using Suc.hyps(2) by simp
    then show ?thesis using Suc.hyps(1) [of "Suc i" it1] it1(2) False by simp
  qed
  then show ?case unfolding Suc.hyps(2) [symmetric] using e i(2) it1(1) d by simp
qed

lemma entries_backward:
  assumes "block_ok ss R" "at_entry ss R i it"
  shows "entries_by BI_Prev (Suc i) it = Some (rev (take (Suc i) (map snd ss)))"
  using assms(2)
proof (induction i arbitrary: it)
  case 0
  have i: "0 < length ss" "bi_key it = key_of ss 0" using "0.prems" by (simp_all add: at_entry_def)
  obtain it1 where "BI_Prev it = Some it1" "at_end ss R it1" using BI_Prev_ok [OF assms(1) "0.prems"] by auto
  then show ?case using at_entry_value [OF "0.prems"] at_entry_Valid [OF "0.prems"] at_end_Valid i
    by (simp add: entry_at take_Suc_conv_app_nth)
next
  case (Suc i)
  have i: "Suc i < length ss" "bi_key it = key_of ss (Suc i)" using Suc.prems by (simp_all add: at_entry_def)
  obtain it1 where it1: "BI_Prev it = Some it1" "at_entry ss R i it1" using BI_Prev_ok [OF assms(1) Suc.prems] by auto
  have "rev (take (Suc (Suc i)) (map snd ss)) = (key_of ss (Suc i), val_of ss (Suc i)) # rev (take (Suc i) (map snd ss))"
    using i(1) by (simp add: entry_at take_Suc_conv_app_nth [of "Suc i"])
  then show ?case
    using at_entry_value [OF Suc.prems] at_entry_Valid [OF Suc.prems] Suc.IH [OF it1(2)] it1(1) i(2)
    by (simp only: entries_by.simps) simp
qed

text \<open>
  (C16) A block reads back: whatever entries are added to a block builder, with any restart interval, as long as the block stays below 4 GiB, an
  iterator over the finished block passes exactly these entries in order from the front, and in reverse order from the back.
\<close>

theorem block_roundtrip:
  assumes "0 < interval" "length (build_block interval es) < 2 ^ 32"
  shows "\<exists>it. open_block (build_block interval es) = Some it \<and>
    do { it \<leftarrow> BI_SeekToFirst it; entries_by BI_Next (length es) it } = Some es \<and>
    do { it \<leftarrow> BI_SeekToLast it; entries_by BI_Prev (length es) it } = Some (rev es)"
proof -
  obtain ss R where b: "block_ok ss R" "build_block interval es = block_data ss R" "map snd ss = es"
    by (rule build_block_ok [OF assms])
  obtain it where it: "open_block (block_data ss R) = Some it" "iter_on ss R it" using open_block_ok [OF b(1)] by blast
  obtain f where f: "BI_SeekToFirst it = Some f" "if ss = [] then at_end ss R f else at_entry ss R 0 f"
    using BI_SeekToFirst_ok [OF b(1) it(2)] by blast
  obtain l where l: "BI_SeekToLast it = Some l" "if ss = [] then at_end ss R l else at_entry ss R (length ss - 1) l"
    using BI_SeekToLast_ok [OF b(1) it(2)] by blast
  show ?thesis
  proof (cases "ss = []")
    case True
    then show ?thesis using b f l it at_end_Valid by auto
  next
    case False
    then have "entries_by BI_Next (length ss) f = Some es" "entries_by BI_Prev (length ss) l = Some (rev es)"
      using entries_forward [OF b(1), of 0 f] entries_backward [OF b(1), of "length ss - 1" l] f(2) l(2) b(3) by auto
    moreover have "length es = length ss" using b(3) by auto
    ultimately show ?thesis using b(2) f(1) l(1) it(1) by simp
  qed
qed

theorem block_roundtrip_witness:
  "\<exists>it. open_block (build_block 2 [([1, 2], [7]), ([1, 3], []), ([2], [8])]) = Some it \<and>
    do { it \<leftarrow> BI_SeekToLast it; entries_by BI_Prev 3 it } = Some [([2], [8]), ([1, 3], []), ([1, 2], [7])]"
proof -
  let ?es = "[([1, 2 :: byte], [7 :: byte]), ([1, 3], []), ([2], [8])]"
  have l: "length ?es = 3" "rev ?es = [([2], [8]), ([1, 3], []), ([1, 2], [7])]" by simp_all
  have "length (build_block 2 ?es) = 27" by code_simp
  then have "length (build_block 2 ?es) < 2 ^ 32" by simp
  from block_roundtrip [OF _ this] show ?thesis unfolding l by auto
qed

lemma BI_Seek_at:
  assumes "comparator ok cmp" "block_ok ss R" "iter_on ss R it"
    and "list_all (ok \<circ> fst) (map snd ss)" "ok target" "sorted_wrt (\<lambda>a b. cmp (fst a) (fst b) < 0) (map snd ss)"
  obtains it' where "BI_Seek cmp target it = Some it'"
    "(\<exists>j < length ss. at_entry ss R j it' \<and> cmp (key_of ss j) target \<ge> 0 \<and> (\<forall>m < j. cmp (key_of ss m) target < 0)) \<or>
     at_end ss R it' \<and> (\<forall>m < length ss. cmp (key_of ss m) target < 0)"
proof -
  have R: "0 < length R" "R ! 0 = 0" using assms(2) by (simp_all add: block_ok_def restarts_ok_def)
  obtain l where l: "l < length R" "seek_search cmp target it 0 (length R - 1) = Some (Inr l)" "l = 0 \<or> cmp (key_of ss (R ! l)) target < 0 \<and> ss \<noteq> []"
  proof (cases "ss = []")
    case True
    then have "R = [0]" using assms(2) by (simp add: block_ok_def restarts_ok_def)
    then show thesis using that [of 0] by (simp add: seek_search.simps)
  qed (use seek_search_ok [OF assms(2,3), of 0 "length R - 1" cmp target] R that in auto)
  have small: "cmp (key_of ss m) target < 0" if "m < R ! l" for m
  proof -
    have "l \<noteq> 0" using that R by (metis not_less_zero)
    then have lt: "cmp (key_of ss (R ! l)) target < 0" "R ! l < length ss"
      using l(1,3) assms(2) nth_mem [OF l(1)] by (auto simp: block_ok_def restarts_ok_def)
    have "cmp (key_of ss m) (key_of ss (R ! l)) < 0" "ok (key_of ss m)" "ok (key_of ss (R ! l))"
      using assms(4,6) that lt(2) by (auto simp: sorted_wrt_iff_nth_less list_all_length key_of_def)
    then show ?thesis using comparator.less_trans [OF assms(1)] lt(1) assms(5) by blast
  qed
  obtain it1 where it1: "SeekToRestartPoint it l = Some it1" "in_front ss R (R ! l) it1" using SeekToRestartPoint_ok [OF assms(2,3) l(1)] by blast
  obtain it2 where it2: "seek_scan cmp target it1 = Some it2" and r:
      "(\<exists>j < length ss. at_entry ss R j it2 \<and> cmp (key_of ss j) target \<ge> 0 \<and> (\<forall>m < j. cmp (key_of ss m) target < 0)) \<or>
       at_end ss R it2 \<and> (\<forall>m < length ss. cmp (key_of ss m) target < 0)"
    using seek_scan_ok [OF assms(2) it1(2), of cmp target] small by blast
  have "BI_Seek cmp target it = Some it2" using l(2) it1(1) it2 assms(3) by (simp add: BI_Seek_def iter_on_def)
  then show thesis using that r by blast
qed

lemma BI_Seek_first:
  assumes "comparator ok cmp" "0 < interval" "length (build_block interval es) < 2 ^ 32"
    and "list_all (ok \<circ> fst) es" "ok target" "sorted_wrt (\<lambda>a b. cmp (fst a) (fst b) < 0) es"
  shows "\<exists>it it'. open_block (build_block interval es) = Some it \<and> BI_Seek cmp target it = Some it' \<and> bi_status it' = OK \<and>
    (case find (\<lambda>e. cmp (fst e) target \<ge> 0) es of
       None \<Rightarrow> \<not> BI_Valid it'
     | Some (k, v) \<Rightarrow> BI_Valid it' \<and> bi_key it' = k \<and> BI_value it' = Some v)"
proof -
  obtain ss R where b: "block_ok ss R" "build_block interval es = block_data ss R" "map snd ss = es"
    by (rule build_block_ok [OF assms(2,3)])
  obtain it where it: "open_block (block_data ss R) = Some it" "iter_on ss R it" using open_block_ok [OF b(1)] by blast
  have len: "length es = length ss" using b(3) by auto
  have key: "key_of ss i = fst (es ! i)" "val_of ss i = snd (es ! i)" if "i < length ss" for i
    using b(3) that by (auto simp: key_of_def val_of_def)
  obtain it2 where bs: "BI_Seek cmp target it = Some it2" and r:
      "(\<exists>j < length ss. at_entry ss R j it2 \<and> cmp (key_of ss j) target \<ge> 0 \<and> (\<forall>m < j. cmp (key_of ss m) target < 0)) \<or>
       at_end ss R it2 \<and> (\<forall>m < length ss. cmp (key_of ss m) target < 0)"
    using BI_Seek_at [OF assms(1) b(1) it(2)] assms(4-6) b(3) by metis
  show ?thesis
    using r
  proof
    assume "\<exists>j < length ss. at_entry ss R j it2 \<and> cmp (key_of ss j) target \<ge> 0 \<and> (\<forall>m < j. cmp (key_of ss m) target < 0)"
    then obtain j where j: "j < length ss" "at_entry ss R j it2" "cmp (key_of ss j) target \<ge> 0" "\<forall>m < j. cmp (key_of ss m) target < 0" by blast
    have "find (\<lambda>e. cmp (fst e) target \<ge> 0) es = Some (es ! j)"
      unfolding find_Some_iff using j key len by (intro exI [of _ j]) (auto simp: not_le)
    then show ?thesis using bs it(1) b(2) j(1,2) key at_entry_Valid [OF j(2)] at_entry_value [OF j(2)]
      by (cases "es ! j") (auto simp: at_entry_def iter_on_def)
  next
    assume e: "at_end ss R it2 \<and> (\<forall>m < length ss. cmp (key_of ss m) target < 0)"
    then have "find (\<lambda>e. cmp (fst e) target \<ge> 0) es = None"
      using key len by (auto simp: find_None_iff in_set_conv_nth not_le)
    then show ?thesis using bs it(1) b(2) e at_end_Valid by (auto simp: at_end_def iter_on_def)
  qed
qed

text \<open>
  (C17) Seeking in a block: when the keys were added in ascending order of the comparator, \<^verbatim>\<open>Seek\<close> ends at the first entry whose key is not before
  the target, with its key and value, and is not valid, with status \<^verbatim>\<open>OK\<close>, when there is none.
\<close>

theorem block_seek_finds:
  assumes "comparator ok cmp" "0 < interval" "length (build_block interval es) < 2 ^ 32"
    and "list_all (ok \<circ> fst) es" "ok target" "sorted_wrt (\<lambda>a b. cmp (fst a) (fst b) < 0) es"
  shows "\<exists>it it'. open_block (build_block interval es) = Some it \<and> BI_Seek cmp target it = Some it' \<and> bi_status it' = OK \<and>
    (case find (\<lambda>e. cmp (fst e) target \<ge> 0) es of
       None \<Rightarrow> \<not> BI_Valid it'
     | Some (k, v) \<Rightarrow> BI_Valid it' \<and> bi_key it' = k \<and> BI_value it' = Some v)"
  using BI_Seek_first [OF assms] .

theorem block_seek_finds_witness:
  "\<exists>it it'. open_block (build_block 2 [([1, 2], [7]), ([1, 3], []), ([2], [8])]) = Some it \<and>
     BI_Seek BytewiseCompare [1, 4] it = Some it' \<and> BI_Valid it' \<and> bi_key it' = [2] \<and> BI_value it' = Some [8]"
proof -
  have "length (build_block 2 [([1, 2], [7]), ([1, 3], []), ([2], [8])]) = 27" by code_simp
  then have "length (build_block 2 [([1, 2], [7]), ([1, 3], []), ([2], [8])]) < 2 ^ 32" by simp
  moreover have "comparator (\<lambda>_. True) BytewiseCompare" by (rule bytewise.comparator_axioms)
  moreover have "sorted_wrt (\<lambda>a b. BytewiseCompare (fst a) (fst b) < 0) [([1, 2], [7 :: byte]), ([1, 3], []), ([2], [8])]" by code_simp
  moreover have "find (\<lambda>e. BytewiseCompare (fst e) [1, 4] \<ge> 0) [([1, 2], [7 :: byte]), ([1, 3], []), ([2], [8])] = Some ([2], [8])" by code_simp
  ultimately show ?thesis
    using block_seek_finds [of "\<lambda>_. True" BytewiseCompare 2 "[([1, 2], [7]), ([1, 3], []), ([2], [8])]" "[1, 4]"] by fastforce
qed

subsection \<open>Lengths that wrap\<close>

text \<open>
  A block with one restart point whose first entry is \<open>entry\<close>: opening it and going to the first entry parses \<open>entry\<close>, up to the
  restart array.
\<close>

lemma open_one_restart:
  assumes "0 < length entry" "length entry + 8 < 2 ^ 32"
  defines "b \<equiv> entry @ EncodeFixed32 0 @ EncodeFixed32 1"
  shows "open_block b = Some (new_BlockIter b (length entry) 1)"
    and "BI_SeekToFirst (new_BlockIter b (length entry) 1) =
      map_option snd (ParseNextKey ((new_BlockIter b (length entry) 1)\<lparr>bi_restart_index := 0\<rparr>))"
proof -
  have l: "length b = length entry + 8" by (simp add: b_def EncodeFixed32_bytes)
  have "drop (length b - 4) b = EncodeFixed32 1" by (simp add: b_def EncodeFixed32_bytes)
  then have nr: "NumRestarts b (length b) = Some 1"
    using DecodeFixed32_Encode [of 1 "[]"] by (simp add: NumRestarts_def)
  have "new_Block b = Some \<lparr>bl_data = b, bl_size = length b, bl_restart_offset = length entry\<rparr>"
    using nr l assms(2) by (simp add: new_Block_def Let_def)
  then show "open_block b = Some (new_BlockIter b (length entry) 1)"
    using nr l by (simp add: open_block_def NewBlockIterator_def)
  have "DecodeFixed32 (drop (length entry) b) = Some 0" by (simp add: b_def DecodeFixed32_Encode)
  then show "BI_SeekToFirst (new_BlockIter b (length entry) 1) =
      map_option snd (ParseNextKey ((new_BlockIter b (length entry) 1)\<lparr>bi_restart_index := 0\<rparr>))"
    by (simp add: BI_SeekToFirst_def SeekToRestartPoint_def GetRestartPoint_def new_BlockIter_def)
qed

text \<open>
  (C39) The check of \<^verbatim>\<open>DecodeEntry\<close> adds the two lengths as 32-bit numbers.  Take block contents with one entry that claims \<open>n\<close> bytes of
  key and \<open>2^32 - n\<close> bytes of value, followed by the restart array, where \<open>n\<close> is larger than all that is left of the contents: \<^verbatim>\<open>Block\<close> accepts
  them, \<^verbatim>\<open>DecodeEntry\<close> accepts the entry, and \<^verbatim>\<open>SeekToFirst\<close> reads behind the end of the contents (the model has no result).
\<close>

theorem entry_lengths_wrap:
  assumes "length rest + 8 < n" "n + 16 < 2 ^ 32"
  shows "let e = EncodeVarint32 0 @ EncodeVarint32 (of_nat n) @ EncodeVarint32 (of_nat (2 ^ 32 - n)) @ rest;
             b = e @ EncodeFixed32 0 @ EncodeFixed32 1
    in \<exists>it. open_block b = Some it \<and>
       DecodeEntry b 0 (bi_restarts it) = Some (0, n, 2 ^ 32 - n, bi_restarts it - length rest) \<and>
       length b < bi_restarts it - length rest + n \<and> BI_SeekToFirst it = None"
proof -
  define m where "m = 2 ^ 32 - n"
  define e where "e = EncodeVarint32 0 @ EncodeVarint32 (of_nat n) @ EncodeVarint32 (of_nat m) @ rest"
  define b where "b = e @ EncodeFixed32 0 @ EncodeFixed32 1"
  have v: "1 \<le> length (EncodeVarint32 x)" "length (EncodeVarint32 x) \<le> 5" for x
    by (simp add: EncodeVarint32_bytes Suc_le_eq) (auto simp: EncodeVarint32_def)
  have z0: "length (EncodeVarint32 0) = 1" by (simp add: EncodeVarint32_def)
  have l: "3 \<le> length e" "length e \<le> 11 + length rest"
    unfolding e_def length_append z0 using v [of "of_nat n"] v [of "of_nat m"] by linarith+
  have ne: "e \<noteq> []" using l(1) by auto
  have m: "m < 2 ^ 32" "n + m = 2 ^ 32" using assms by (simp_all add: m_def)
  have u: "unat (of_nat n :: uint32) = n" "unat (of_nat m :: uint32) = m"
    by (rule unat_of_nat_small, use assms(2) m(1) in simp)+
  have "(of_nat n + of_nat m :: uint32) = of_nat (n + m)" by (rule of_nat_add [symmetric])
  also have "\<dots> = of_nat (2 ^ 32)" by (rule arg_cong [OF m(2)])
  also have "\<dots> = 0" by simp
  finally have z: "(of_nat n + of_nat m :: uint32) = 0" .
  have q: "take (length e - 0) (drop 0 b) = EncodeVarint32 0 @ EncodeVarint32 (of_nat n) @ EncodeVarint32 (of_nat m) @ rest"
    by (simp add: b_def e_def)
  have de: "DecodeEntry b 0 (length e) = Some (0, n, m, length e - length rest)"
    using decode_three [OF q] l unfolding DecodeEntry_def Let_def by (simp add: z u)
  have out: "length b < length e - length rest + n" using assms(1) by (simp add: b_def e_def EncodeFixed32_bytes)
  have "ParseNextKey ((new_BlockIter b (length e) 1)\<lparr>bi_restart_index := 0\<rparr>) = None"
    using de out ne by (simp add: ParseNextKey_def new_BlockIter_def NextEntryOffset_def read_at_def Let_def)
  then have "open_block b = Some (new_BlockIter b (length e) 1)" "BI_SeekToFirst (new_BlockIter b (length e) 1) = None"
    using open_one_restart [of e] ne l assms unfolding b_def by simp_all
  moreover have "bi_restarts (new_BlockIter b (length e) 1) = length e" by (simp add: new_BlockIter_def)
  ultimately show ?thesis using de out unfolding Let_def e_def b_def m_def by metis
qed

theorem entry_lengths_wrap_witness:
  "\<exists>it. open_block ((EncodeVarint32 0 @ EncodeVarint32 (of_nat 20) @ EncodeVarint32 (of_nat (2 ^ 32 - 20)) @ [7, 8]) @
       EncodeFixed32 0 @ EncodeFixed32 1) = Some it \<and> BI_SeekToFirst it = None"
  using entry_lengths_wrap [of "[7, 8]" 20] unfolding Let_def by (auto simp del: of_nat_diff of_nat_numeral)

end
