(* ===== verification/Ldb_Bloom.thy ===== *)
theory Ldb_Bloom
  imports Ldb_Coding
begin

text \<open>
  The hash function (\<^verbatim>\<open>util/hash.cc\<close>) and the Bloom filter (\<^verbatim>\<open>util/bloom.cc\<close>) that a table keeps for its keys.
\<close>

subsection \<open>Hash\<close>

definition hash_m :: uint32 where "hash_m = 0xc6a4a793"

text \<open>The loop over four bytes at a time returns the hash and the bytes that are left.\<close>

fun hash_words :: "byte list \<Rightarrow> uint32 \<Rightarrow> uint32 \<times> byte list" where
  "hash_words (a # b # c # d # data) h =
     (let h = h + word_of [a, b, c, d];
          h = h * hash_m;
          h = h XOR drop_bit 16 h
      in hash_words data h)"
| "hash_words data h = (h, data)"

definition hash_rest :: "uint32 \<Rightarrow> byte list \<Rightarrow> uint32" where
  "hash_rest h data =
     (let h = (if length data = 3 then h + push_bit 16 (ucast (data ! 2)) else h);
          h = (if 2 \<le> length data \<and> length data \<le> 3 then h + push_bit 8 (ucast (data ! 1)) else h)
      in if 1 \<le> length data \<and> length data \<le> 3
         then (let h = h + ucast (data ! 0); h = h * hash_m in h XOR drop_bit 24 h)
         else h)"

definition Hash :: "byte list \<Rightarrow> uint32 \<Rightarrow> uint32" where
  "Hash data seed = (let (h, rest) = hash_words data (seed XOR (of_nat (length data) * hash_m)) in hash_rest h rest)"

definition BloomHash :: "byte list \<Rightarrow> uint32" where
  "BloomHash key = Hash key 0xbc9f1d34"

subsection \<open>Filter\<close>

record BloomFilterPolicy =
  bits_per_key :: nat
  num_probes :: nat

text \<open>The product with 0.69 is rounded down and is never within rounding distance of a whole number.\<close>

definition new_BloomFilterPolicy :: "nat \<Rightarrow> BloomFilterPolicy" where
  "new_BloomFilterPolicy bpk =
     (let k = bpk * 69 div 100;
          k = (if k < 1 then 1 else k);
          k = (if k > 30 then 30 else k)
      in \<lparr>bits_per_key = bpk, num_probes = k\<rparr>)"

definition probe_delta :: "uint32 \<Rightarrow> uint32" where
  "probe_delta h = drop_bit 17 h OR push_bit 15 h"

primrec set_probes :: "nat \<Rightarrow> nat \<Rightarrow> uint32 \<Rightarrow> uint32 \<Rightarrow> byte list \<Rightarrow> byte list" where
  "set_probes bits 0 h delta arr = arr"
| "set_probes bits (Suc j) h delta arr =
     (let bitpos = unat h mod bits
      in set_probes bits j (h + delta) delta (arr[bitpos div 8 := arr ! (bitpos div 8) OR push_bit (bitpos mod 8) 1]))"

definition CreateFilter :: "BloomFilterPolicy \<Rightarrow> byte list list \<Rightarrow> byte list \<Rightarrow> byte list" where
  "CreateFilter p keys dst =
     (let bits = length keys * bits_per_key p;
          bits = (if bits < 64 then 64 else bits);
          bytes = (bits + 7) div 8;
          bits = bytes * 8;
          arr = fold (\<lambda>key arr. let h = BloomHash key in set_probes bits (num_probes p) h (probe_delta h) arr) keys (replicate bytes 0)
      in dst @ arr @ [of_nat (num_probes p)])"

primrec test_probes :: "nat \<Rightarrow> nat \<Rightarrow> uint32 \<Rightarrow> uint32 \<Rightarrow> byte list \<Rightarrow> bool" where
  "test_probes bits 0 h delta arr = True"
| "test_probes bits (Suc j) h delta arr =
     (let bitpos = unat h mod bits
      in if arr ! (bitpos div 8) AND push_bit (bitpos mod 8) 1 = 0 then False else test_probes bits j (h + delta) delta arr)"

definition KeyMayMatch :: "byte list \<Rightarrow> byte list \<Rightarrow> bool" where
  "KeyMayMatch key bloom_filter =
     (let len = length bloom_filter
      in if len < 2 then False
         else (let bits = (len - 1) * 8;
                   k = unat (bloom_filter ! (len - 1))
               in if k > 30 then True
                  else (let h = BloomHash key in test_probes bits k h (probe_delta h) bloom_filter)))"

subsection \<open>Bits stay set\<close>

definition bit_at :: "byte list \<Rightarrow> nat \<Rightarrow> bool" where
  "bit_at arr pos \<longleftrightarrow> bit (arr ! (pos div 8)) (pos mod 8)"

lemma test_bit: "(b AND 2 ^ i = 0) \<longleftrightarrow> \<not> bit b i" if "i < 8" for b :: byte
proof
  assume "b AND 2 ^ i = 0"
  then have "\<not> bit (b AND 2 ^ i) i" by simp
  then show "\<not> bit b i" using that by (simp add: bit_simps)
next
  assume "\<not> bit b i"
  then show "b AND 2 ^ i = 0" by (intro bit_word_eqI) (auto simp: bit_simps)
qed

lemma set_bit_at:
  assumes "pos < 8 * length arr"
  shows "bit_at (arr[pos div 8 := arr ! (pos div 8) OR push_bit (pos mod 8) 1]) q \<longleftrightarrow> bit_at arr q \<or> q = pos"
proof (cases "q div 8 = pos div 8")
  case True
  have "pos div 8 < length arr" using assms by simp
  moreover have "q = pos \<longleftrightarrow> q mod 8 = pos mod 8" using True by (metis mod_mult_div_eq)
  ultimately show ?thesis using True by (auto simp: bit_at_def bit_simps)
next
  case False
  then show ?thesis by (auto simp: bit_at_def)
qed

primrec probes :: "nat \<Rightarrow> nat \<Rightarrow> uint32 \<Rightarrow> uint32 \<Rightarrow> nat list" where
  "probes bits 0 h delta = []"
| "probes bits (Suc j) h delta = unat h mod bits # probes bits j (h + delta) delta"

lemma test_probes_bits: "test_probes bits k h delta arr \<longleftrightarrow> list_all (bit_at arr) (probes bits k h delta)"
  by (induction k arbitrary: h) (simp_all add: Let_def test_bit bit_at_def)

lemma set_probes_bits:
  assumes "0 < bits" "bits = 8 * length arr"
  shows "length (set_probes bits k h delta arr) = length arr \<and>
    (\<forall>q. bit_at (set_probes bits k h delta arr) q \<longleftrightarrow> bit_at arr q \<or> q \<in> set (probes bits k h delta))"
  using assms(2)
proof (induction k arbitrary: h arr)
  case (Suc k)
  let ?p = "unat h mod bits"
  let ?arr = "arr[?p div 8 := arr ! (?p div 8) OR push_bit (?p mod 8) 1]"
  have "?p < 8 * length arr" using assms(1) Suc.prems by (metis mod_less_divisor)
  from set_bit_at [OF this] have "bit_at ?arr q \<longleftrightarrow> bit_at arr q \<or> q = ?p" for q .
  then show ?case using Suc.IH [of ?arr "h + delta"] Suc.prems by (auto simp: Let_def)
qed simp

lemma fold_probes:
  fixes k :: nat
  assumes "0 < bits" "bits = 8 * length arr"
  defines "step \<equiv> \<lambda>key arr. let h = BloomHash key in set_probes bits k h (probe_delta h) arr"
  shows "length (fold step keys arr) = length arr \<and>
    (\<forall>q. bit_at (fold step keys arr) q \<longleftrightarrow>
      bit_at arr q \<or> (\<exists>key \<in> set keys. q \<in> set (probes bits k (BloomHash key) (probe_delta (BloomHash key)))))"
  using assms(2)
proof (induction keys arbitrary: arr)
  case (Cons key keys)
  have "length (step key arr) = length arr"
      "bit_at (step key arr) q \<longleftrightarrow> bit_at arr q \<or> q \<in> set (probes bits k (BloomHash key) (probe_delta (BloomHash key)))" for q
    using set_probes_bits [OF assms(1) Cons.prems, of k] by (simp_all add: step_def Let_def)
  then show ?case using Cons.IH [of "step key arr"] Cons.prems by auto
qed simp

lemma probes_less: "0 < bits \<Longrightarrow> q \<in> set (probes bits k h delta) \<Longrightarrow> q < bits"
  by (induction k arbitrary: h) auto

lemma bit_at_append: "q < 8 * length arr \<Longrightarrow> bit_at (arr @ z) q = bit_at arr q"
proof -
  assume "q < 8 * length arr"
  then have "q div 8 < length arr" by simp
  then show ?thesis by (simp add: bit_at_def nth_append)
qed

subsection \<open>Filter policies\<close>

text \<open>What a table relies on (\<^verbatim>\<open>include/leveldb/filter_policy.h\<close>): a filter is appended to the destination, and every key it was created for may match.\<close>

locale filter_policy =
  fixes create :: "byte list list \<Rightarrow> byte list \<Rightarrow> byte list"
    and may_match :: "byte list \<Rightarrow> byte list \<Rightarrow> bool"
  assumes create_appends: "take (length dst) (create keys dst) = dst"
    and no_false_negatives: "key \<in> set keys \<Longrightarrow> may_match key (drop (length dst) (create keys dst))"

text \<open>Every key of a Bloom filter may match, whatever the number of bits per key, the other keys, and the string it was appended to.\<close>

lemma bloom_matches:
  assumes "key \<in> set keys"
  shows "KeyMayMatch key (drop (length dst) (CreateFilter (new_BloomFilterPolicy bpk) keys dst))"
proof -
  let ?p = "new_BloomFilterPolicy bpk"
  define bytes where "bytes = ((if length keys * bpk < 64 then 64 else length keys * bpk) + 7) div 8"
  define k where "k = num_probes ?p"
  let ?bits = "bytes * 8"
  let ?arr = "fold (\<lambda>key arr. let h = BloomHash key in set_probes ?bits k h (probe_delta h) arr) keys (replicate bytes 0)"
  have k: "k \<le> 30" by (simp add: k_def new_BloomFilterPolicy_def Let_def)
  have "8 \<le> (if n < 64 then 64 else n) + 7" for n :: nat by simp
  from div_le_mono [OF this [of "length keys * bpk"], of 8] have "8 div 8 \<le> bytes" by (simp only: bytes_def)
  then have pos: "0 < bytes" by simp
  have f: "length ?arr = bytes"
      "\<forall>q. bit_at ?arr q \<longleftrightarrow> bit_at (replicate bytes 0) q \<or> (\<exists>key \<in> set keys. q \<in> set (probes ?bits k (BloomHash key) (probe_delta (BloomHash key))))"
    using fold_probes [of ?bits "replicate bytes 0" k keys] pos by simp_all
  have d: "drop (length dst) (CreateFilter ?p keys dst) = ?arr @ [of_nat k]"
    by (simp add: CreateFilter_def Let_def bytes_def k_def) (simp add: new_BloomFilterPolicy_def Let_def)
  have "bit_at (?arr @ [of_nat k]) q" if q: "q \<in> set (probes ?bits k (BloomHash key) (probe_delta (BloomHash key)))" for q
  proof -
    have "q < 8 * length ?arr" using probes_less [OF _ q] pos f(1) by simp
    then show ?thesis using bit_at_append [of q ?arr] f(2) q assms by blast
  qed
  then have "list_all (bit_at (?arr @ [of_nat k])) (probes ?bits k (BloomHash key) (probe_delta (BloomHash key)))" by (simp add: list_all_iff)
  moreover have "unat (of_nat k :: byte) = k" using k by (intro unat_of_nat_small) simp
  ultimately show ?thesis
    unfolding d using f(1) k pos by (simp add: KeyMayMatch_def Let_def test_probes_bits nth_append)
qed

interpretation bloom: filter_policy "CreateFilter (new_BloomFilterPolicy bpk)" KeyMayMatch for bpk
  by unfold_locales (simp_all add: bloom_matches, simp add: CreateFilter_def Let_def)

end
