(* ===== verification/Ldb_Filter_Block.thy ===== *)
theory Ldb_Filter_Block
  imports Ldb_Bloom
begin

text \<open>
  The filter block of a table (\<^verbatim>\<open>table/filter_block.cc\<close>): one filter for every 2 KiB of data blocks.  The policy is an argument.
\<close>

subsection \<open>Builder\<close>

definition kFilterBaseLg :: nat where "kFilterBaseLg = 11"

definition kFilterBase :: nat where "kFilterBase = 2 ^ kFilterBaseLg"

record FilterBlockBuilder =
  fb_keys :: "byte list"
  fb_start :: "nat list"
  fb_result :: "byte list"
  fb_filter_offsets :: "uint32 list"

definition new_FilterBlockBuilder :: FilterBlockBuilder where
  "new_FilterBlockBuilder = \<lparr>fb_keys = [], fb_start = [], fb_result = [], fb_filter_offsets = []\<rparr>"

definition GenerateFilter :: "(byte list list \<Rightarrow> byte list \<Rightarrow> byte list) \<Rightarrow> FilterBlockBuilder \<Rightarrow> FilterBlockBuilder" where
  "GenerateFilter create fb =
     (let num_keys = length (fb_start fb)
      in if num_keys = 0
         then fb\<lparr>fb_filter_offsets := fb_filter_offsets fb @ [of_nat (length (fb_result fb))]\<rparr>
         else (let start = fb_start fb @ [length (fb_keys fb)];
                   tmp_keys = map (\<lambda>i. take (start ! (i + 1) - start ! i) (drop (start ! i) (fb_keys fb))) [0..<num_keys]
               in fb\<lparr>fb_filter_offsets := fb_filter_offsets fb @ [of_nat (length (fb_result fb))],
                     fb_result := create tmp_keys (fb_result fb), fb_keys := [], fb_start := []\<rparr>))"

function start_loop :: "(byte list list \<Rightarrow> byte list \<Rightarrow> byte list) \<Rightarrow> nat \<Rightarrow> FilterBlockBuilder \<Rightarrow> FilterBlockBuilder" where
  "start_loop create filter_index fb =
     (if filter_index > length (fb_filter_offsets fb) then start_loop create filter_index (GenerateFilter create fb) else fb)"
  by pat_completeness auto
termination
  by (relation "measure (\<lambda>(create, filter_index, fb). filter_index - length (fb_filter_offsets fb))") (auto simp: GenerateFilter_def Let_def)

declare start_loop.simps [simp del]

definition StartBlock :: "(byte list list \<Rightarrow> byte list \<Rightarrow> byte list) \<Rightarrow> nat \<Rightarrow> FilterBlockBuilder \<Rightarrow> FilterBlockBuilder" where
  "StartBlock create block_offset fb = start_loop create (block_offset div kFilterBase) fb"

definition AddKey :: "byte list \<Rightarrow> FilterBlockBuilder \<Rightarrow> FilterBlockBuilder" where
  "AddKey key fb = fb\<lparr>fb_start := fb_start fb @ [length (fb_keys fb)], fb_keys := fb_keys fb @ key\<rparr>"

definition Filter_Finish :: "(byte list list \<Rightarrow> byte list \<Rightarrow> byte list) \<Rightarrow> FilterBlockBuilder \<Rightarrow> byte list" where
  "Filter_Finish create fb =
     (let fb = (if fb_start fb \<noteq> [] then GenerateFilter create fb else fb);
          array_offset = of_nat (length (fb_result fb));
          result = foldl PutFixed32 (fb_result fb) (fb_filter_offsets fb);
          result = PutFixed32 result array_offset
      in result @ [of_nat kFilterBaseLg])"

subsection \<open>Reader\<close>

record FilterBlockReader =
  fr_data :: "byte list"
  fr_offset :: nat
  fr_num :: nat
  fr_base_lg :: nat

definition new_FilterBlockReader :: "byte list \<Rightarrow> FilterBlockReader option" where
  "new_FilterBlockReader str =
     (let n = length str
      in if n < 5 then Some \<lparr>fr_data = [], fr_offset = 0, fr_num = 0, fr_base_lg = 0\<rparr>
         else do {
           last_word \<leftarrow> DecodeFixed32 (drop (n - 5) str);
           let base_lg = unat (str ! (n - 1));
           Some (if unat last_word > n - 5 then \<lparr>fr_data = [], fr_offset = 0, fr_num = 0, fr_base_lg = base_lg\<rparr>
                 else \<lparr>fr_data = str, fr_offset = unat last_word, fr_num = (n - 5 - unat last_word) div 4, fr_base_lg = base_lg\<rparr>)
         })"

definition Reader_KeyMayMatch :: "(byte list \<Rightarrow> byte list \<Rightarrow> bool) \<Rightarrow> FilterBlockReader \<Rightarrow> nat \<Rightarrow> byte list \<Rightarrow> bool option" where
  "Reader_KeyMayMatch may_match r block_offset key =
     (let index = block_offset div 2 ^ fr_base_lg r
      in if index < fr_num r
         then do {
           start \<leftarrow> map_option unat (DecodeFixed32 (drop (fr_offset r + index * 4) (fr_data r)));
           limit \<leftarrow> map_option unat (DecodeFixed32 (drop (fr_offset r + index * 4 + 4) (fr_data r)));
           Some (if start \<le> limit \<and> limit \<le> fr_offset r then may_match key (take (limit - start) (drop start (fr_data r)))
                 else if start = limit then False
                 else True)
         }
         else Some True)"

subsection \<open>What the filters cover\<close>

text \<open>The keys that wait for the next filter.\<close>

definition waiting :: "FilterBlockBuilder \<Rightarrow> byte list list \<Rightarrow> bool" where
  "waiting fb ks \<longleftrightarrow> fb_keys fb = concat ks \<and> fb_start fb = map (\<lambda>i. length (concat (take i ks))) [0..<length ks]"

lemma waiting_AddKey: "waiting fb ks \<Longrightarrow> waiting (AddKey key fb) (ks @ [key])"
  by (simp add: waiting_def AddKey_def)

lemma slice_concat:
  assumes "i < length ks"
  shows "take (length (concat (take (Suc i) ks)) - length (concat (take i ks))) (drop (length (concat (take i ks))) (concat ks)) = ks ! i"
proof -
  have "concat ks = concat (take i ks) @ ks ! i @ concat (drop (Suc i) ks)"
    using arg_cong [OF id_take_nth_drop [OF assms], of concat] by simp
  then show ?thesis using assms by (simp add: take_Suc_conv_app_nth)
qed

lemma GenerateFilter_waiting:
  assumes "waiting fb ks"
  shows "GenerateFilter create fb =
    fb\<lparr>fb_filter_offsets := fb_filter_offsets fb @ [of_nat (length (fb_result fb))],
       fb_result := (if ks = [] then fb_result fb else create ks (fb_result fb)), fb_keys := [], fb_start := []\<rparr>"
proof (cases "ks = []")
  case True
  then show ?thesis using assms by (simp add: GenerateFilter_def waiting_def)
next
  case False
  let ?start = "fb_start fb @ [length (fb_keys fb)]"
  have "?start ! i = length (concat (take i ks))" if "i \<le> length ks" for i
    using assms that by (cases "i = length ks") (simp_all add: waiting_def nth_append)
  then have "map (\<lambda>i. take (?start ! (i + 1) - ?start ! i) (drop (?start ! i) (fb_keys fb))) [0..<length ks] = map (\<lambda>i. ks ! i) [0..<length ks]"
    using assms slice_concat by (intro map_cong) (auto simp: waiting_def)
  moreover have "length (fb_start fb) = length ks" using assms by (simp add: waiting_def)
  ultimately show ?thesis using False by (simp add: GenerateFilter_def Let_def map_nth)
qed

text \<open>The filter at an index, as the offsets say.\<close>

definition filter_at :: "uint32 list \<Rightarrow> byte list \<Rightarrow> nat \<Rightarrow> byte list" where
  "filter_at offs res i =
     (let bounds = map unat offs @ [length res] in take (bounds ! Suc i - bounds ! i) (drop (bounds ! i) res))"

type_synonym filter_block = "nat \<times> byte list list"

definition covered :: "(byte list \<Rightarrow> byte list \<Rightarrow> bool) \<Rightarrow> FilterBlockBuilder \<Rightarrow> byte list list \<Rightarrow> filter_block list \<Rightarrow> bool" where
  "covered may_match fb ks bs \<longleftrightarrow>
     waiting fb ks \<and> sorted (map unat (fb_filter_offsets fb) @ [length (fb_result fb)]) \<and>
     (\<forall>(pos, bk) \<in> set bs. \<forall>key \<in> set bk.
        (let i = pos div kFilterBase; m = length (fb_filter_offsets fb)
         in i < m \<and> may_match key (filter_at (fb_filter_offsets fb) (fb_result fb) i) \<or> i = m \<and> key \<in> set ks))"

definition add_block :: "(byte list list \<Rightarrow> byte list \<Rightarrow> byte list) \<Rightarrow> filter_block \<Rightarrow> FilterBlockBuilder \<Rightarrow> FilterBlockBuilder" where
  "add_block create b fb = fold AddKey (snd b) (StartBlock create (fst b) fb)"

lemma AddKeys:
  assumes "covered may_match fb ks bs" "pos div kFilterBase = length (fb_filter_offsets fb)"
  shows "covered may_match (fold AddKey bk fb) (ks @ bk) ((pos, bk) # bs) \<and>
    fb_filter_offsets (fold AddKey bk fb) = fb_filter_offsets fb \<and> fb_result (fold AddKey bk fb) = fb_result fb"
proof -
  have w: "waiting (fold AddKey bk fb) (ks @ bk)" if "waiting fb ks" for ks
    using that by (induction bk arbitrary: fb ks) (use waiting_AddKey in \<open>fastforce\<close>)+
  have "fb_filter_offsets (fold AddKey bk fb) = fb_filter_offsets fb" "fb_result (fold AddKey bk fb) = fb_result fb"
    by (induction bk arbitrary: fb) (simp_all add: AddKey_def)
  then show ?thesis using assms w by (auto simp: covered_def Let_def)
qed

lemma filter_at_prefix:
  assumes "i < length offs" "sorted (map unat offs @ [length res])" "length res < 2 ^ 32"
  shows "filter_at (offs @ [of_nat (length res)]) (res @ x) i = filter_at offs res i"
proof -
  let ?b = "map unat offs @ [length res]"
  have "?b ! Suc i \<le> ?b ! length offs" using assms(1,2) by (intro sorted_nth_mono) simp_all
  then have le: "?b ! Suc i \<le> length res" by (simp add: nth_append)
  have "(map unat (offs @ [of_nat (length res)]) @ [length (res @ x)]) ! j = ?b ! j" if "j \<le> length offs" for j
    using that assms(3) by (auto simp: nth_append unat_of_nat_small less_Suc_eq_le le_less)
  then have "filter_at (offs @ [of_nat (length res)]) (res @ x) i = take (?b ! Suc i - ?b ! i) (drop (?b ! i) (res @ x))"
    using assms(1) by (simp add: filter_at_def Let_def)
  also have "\<dots> = filter_at offs res i" using le by (simp add: filter_at_def Let_def)
  finally show ?thesis .
qed

context filter_policy
begin

lemma create_longer: "length dst \<le> length (create keys dst)"
  using create_appends [of dst keys] by (metis length_take min.cobounded1)

lemma Generate_longer: "length (fb_result fb) \<le> length (fb_result (GenerateFilter create fb))"
  by (simp add: GenerateFilter_def Let_def create_longer)

lemma Generate_offsets: "length (fb_filter_offsets (GenerateFilter create fb)) = Suc (length (fb_filter_offsets fb))"
  by (simp add: GenerateFilter_def Let_def)

lemma start_loop_longer: "length (fb_result fb) \<le> length (fb_result (start_loop create n fb))"
proof (induction "n - length (fb_filter_offsets fb)" arbitrary: fb rule: less_induct)
  case less
  have "length (fb_result (GenerateFilter create fb)) \<le> length (fb_result (start_loop create n (GenerateFilter create fb)))"
    if "length (fb_filter_offsets fb) < n"
    using that by (intro less) (simp add: Generate_offsets)
  then show ?case using Generate_longer [of fb] by (auto simp: start_loop.simps [of create n fb])
qed

lemma covered_Generate:
  assumes "covered may_match fb ks bs" "length (fb_result (GenerateFilter create fb)) < 2 ^ 32"
  shows "covered may_match (GenerateFilter create fb) [] bs"
proof -
  let ?offs = "fb_filter_offsets fb" and ?res = "fb_result fb"
  let ?res' = "if ks = [] then ?res else create ks ?res" and ?offs' = "?offs @ [of_nat (length ?res)]"
  have c: "waiting fb ks" "sorted (map unat ?offs @ [length ?res])" using assms(1) by (simp_all add: covered_def)
  note g = GenerateFilter_waiting [OF c(1), of create]
  have l: "length ?res < 2 ^ 32" "length ?res \<le> length ?res'" using Generate_longer [of fb] assms(2) g create_longer by auto
  obtain x where x: "?res' = ?res @ x" using create_appends [of ?res ks] by (metis append_Nil2 append_take_drop_id)
  have u: "unat (of_nat (length ?res) :: uint32) = length ?res" using l(1) by (simp add: unat_of_nat_small)
  have s: "sorted (map unat ?offs' @ [length ?res'])" using c(2) l(2) u by (auto simp: sorted_append)
  have "i < Suc (length ?offs) \<and> may_match key (filter_at ?offs' ?res' i)"
    if b: "(pos, bk) \<in> set bs" "key \<in> set bk" "i = pos div kFilterBase" for pos bk key i
  proof -
    have "i < length ?offs \<and> may_match key (filter_at ?offs ?res i) \<or> i = length ?offs \<and> key \<in> set ks"
      using assms(1) b unfolding covered_def by (fastforce simp: Let_def)
    then show ?thesis
    proof
      assume "i < length ?offs \<and> may_match key (filter_at ?offs ?res i)"
      then show ?thesis using filter_at_prefix [OF _ c(2) l(1), of i x] x by simp
    next
      assume i: "i = length ?offs \<and> key \<in> set ks"
      then have "filter_at ?offs' ?res' i = drop (length ?res) (create ks ?res)"
        using u by (auto simp: filter_at_def Let_def nth_append)
      then show ?thesis using i no_false_negatives by simp
    qed
  qed
  then show ?thesis using s by (fastforce simp: covered_def g waiting_def Let_def)
qed

lemma covered_start_loop:
  assumes "covered may_match fb ks bs" "length (fb_result (start_loop create n fb)) < 2 ^ 32" "length (fb_filter_offsets fb) \<le> n"
  shows "\<exists>ks'. covered may_match (start_loop create n fb) ks' bs \<and> length (fb_filter_offsets (start_loop create n fb)) = n"
  using assms
proof (induction "n - length (fb_filter_offsets fb)" arbitrary: fb ks rule: less_induct)
  case less
  show ?case
  proof (cases "length (fb_filter_offsets fb) < n")
    case True
    then have e: "start_loop create n fb = start_loop create n (GenerateFilter create fb)" by (simp add: start_loop.simps [of create n fb])
    have "length (fb_result (GenerateFilter create fb)) < 2 ^ 32"
      using start_loop_longer [of "GenerateFilter create fb" n] less.prems(2) e by simp
    from covered_Generate [OF less.prems(1) this] show ?thesis
      unfolding e using True less.prems(2) e by (intro less.hyps) (simp_all add: Generate_offsets)
  next
    case False
    then show ?thesis using less.prems by (auto simp: start_loop.simps [of create n fb])
  qed
qed

lemma add_block_longer: "length (fb_result fb) \<le> length (fb_result (fold (add_block create) bs fb))"
proof (induction bs arbitrary: fb)
  case (Cons b bs)
  have "fb_result (fold AddKey ks fb') = fb_result fb'" for ks fb' by (induction ks arbitrary: fb') (simp_all add: AddKey_def)
  then have "length (fb_result fb) \<le> length (fb_result (add_block create b fb))"
    by (simp add: add_block_def StartBlock_def start_loop_longer)
  then show ?case using Cons [of "add_block create b fb"] by simp
qed simp

lemma covered_blocks:
  assumes "covered may_match fb ks bs0" "sorted (map fst bs)" "list_all (\<lambda>b. length (fb_filter_offsets fb) \<le> fst b div kFilterBase) bs"
    and "length (fb_result (fold (add_block create) bs fb)) < 2 ^ 32"
  shows "\<exists>ks'. covered may_match (fold (add_block create) bs fb) ks' (rev bs @ bs0)"
  using assms
proof (induction bs arbitrary: fb ks bs0)
  case (Cons b bs)
  obtain pos bk where b: "b = (pos, bk)" by fastforce
  let ?fb = "StartBlock create pos fb"
  have res: "fb_result (fold AddKey bk fb') = fb_result fb'" for fb' by (induction bk arbitrary: fb') (simp_all add: AddKey_def)
  have "fb_result (add_block create b fb) = fb_result ?fb" by (simp add: add_block_def res b)
  then have "length (fb_result ?fb) < 2 ^ 32"
    using add_block_longer [of "add_block create b fb" bs] Cons.prems(4) by simp
  then obtain ks1 where "covered may_match ?fb ks1 bs0" "length (fb_filter_offsets ?fb) = pos div kFilterBase"
    using covered_start_loop [OF Cons.prems(1), of "pos div kFilterBase"] Cons.prems(3) b by (auto simp: StartBlock_def)
  from AddKeys [OF this(1) this(2) [symmetric], of bk] this(2)
  have "covered may_match (add_block create b fb) (ks1 @ bk) (b # bs0)" "length (fb_filter_offsets (add_block create b fb)) = pos div kFilterBase"
    by (simp_all add: add_block_def b)
  moreover have "list_all (\<lambda>b'. pos div kFilterBase \<le> fst b' div kFilterBase) bs"
    using Cons.prems(2) b by (auto simp: list_all_iff div_le_mono)
  ultimately show ?case using Cons.IH [of "add_block create b fb" "ks1 @ bk" "b # bs0"] Cons.prems(2,4) by simp
qed auto

lemma covered_Finish:
  assumes "covered may_match fb ks bs" "length (Filter_Finish create fb) < 2 ^ 32"
  obtains fb' where "covered may_match fb' [] bs" "length (fb_result fb') < 2 ^ 32"
    "Filter_Finish create fb = fb_result fb' @ concat (map EncodeFixed32 (fb_filter_offsets fb')) @
       EncodeFixed32 (of_nat (length (fb_result fb'))) @ [of_nat kFilterBaseLg]"
proof -
  define fb' where "fb' = (if fb_start fb \<noteq> [] then GenerateFilter create fb else fb)"
  have f: "Filter_Finish create fb = fb_result fb' @ concat (map EncodeFixed32 (fb_filter_offsets fb')) @
       EncodeFixed32 (of_nat (length (fb_result fb'))) @ [of_nat kFilterBaseLg]"
    by (simp add: Filter_Finish_def fb'_def Let_def foldl_PutFixed32 PutFixed32_def)
  then have l: "length (fb_result fb') < 2 ^ 32" using assms(2) by simp
  have "ks = []" if "fb_start fb = []" using assms(1) that by (simp add: covered_def waiting_def)
  then have "covered may_match fb' [] bs" using covered_Generate [OF assms(1)] assms(1) l by (auto simp: fb'_def)
  then show thesis using that f l by blast
qed

lemma reader_matches:
  assumes "covered may_match fb [] bs" "length (fb_result fb) < 2 ^ 32" "(pos, bk) \<in> set bs" "key \<in> set bk"
  defines "str \<equiv> fb_result fb @ concat (map EncodeFixed32 (fb_filter_offsets fb)) @ EncodeFixed32 (of_nat (length (fb_result fb))) @ [of_nat kFilterBaseLg]"
  shows "\<exists>r. new_FilterBlockReader str = Some r \<and> Reader_KeyMayMatch may_match r pos key = Some True"
proof -
  let ?res = "fb_result fb" and ?offs = "fb_filter_offsets fb"
  let ?m = "length ?offs" and ?i = "pos div kFilterBase" and ?b = "map unat ?offs @ [length ?res]"
  have l4: "length (EncodeFixed32 v) = 4" for v by (simp add: EncodeFixed32_bytes)
  have "length (concat (map EncodeFixed32 vs)) = length vs * 4" for vs by (induction vs) (simp_all add: l4)
  then have len: "length str = length ?res + ?m * 4 + 5" by (simp add: str_def l4)
  have u: "unat (of_nat (length ?res) :: uint32) = length ?res" using assms(2) by (simp add: unat_of_nat_small)
  have "drop (length str - 5) str = EncodeFixed32 (of_nat (length ?res)) @ [of_nat kFilterBaseLg]" "str ! (length str - 1) = of_nat kFilterBaseLg"
    by (simp_all add: str_def l4 nth_append)
  then have r: "new_FilterBlockReader str = Some \<lparr>fr_data = str, fr_offset = length ?res, fr_num = ?m, fr_base_lg = 11\<rparr>"
    using len u by (simp add: new_FilterBlockReader_def DecodeFixed32_Encode Let_def kFilterBaseLg_def)
  have c: "?i < ?m" "may_match key (filter_at ?offs ?res ?i)" "sorted ?b" using assms(1,3,4) by (fastforce simp: covered_def Let_def)+
  have d: "drop (length ?res + j * 4) str = concat (map EncodeFixed32 (drop j ?offs)) @ EncodeFixed32 (of_nat (length ?res)) @ [of_nat kFilterBaseLg]"
    if "j \<le> ?m" for j
  proof -
    let ?z = "EncodeFixed32 (of_nat (length ?res)) @ [of_nat kFilterBaseLg]"
    have "drop (length ?res + j * 4) str = drop (j * 4) (concat (map EncodeFixed32 ?offs) @ ?z)" by (simp add: str_def)
    also have "\<dots> = concat (map EncodeFixed32 (drop j ?offs)) @ ?z" using drop_fixed32 [OF that, of id ?z] by (simp only: id_apply)
    finally show ?thesis .
  qed
  have w: "map_option unat (DecodeFixed32 (drop (length ?res + j * 4) str)) = Some (?b ! j)" if "j \<le> ?m" for j
  proof (cases "j < ?m")
    case True
    then show ?thesis using d [OF that] DecodeFixed32_Encode by (simp add: nth_append flip: Cons_nth_drop_Suc)
  next
    case False
    then have "j = ?m" using that by simp
    then show ?thesis using d [OF that] u by (simp add: DecodeFixed32_Encode nth_append)
  qed
  have "?b ! ?i \<le> ?b ! Suc ?i" "?b ! Suc ?i \<le> ?b ! ?m" using c(1,3) by (auto intro!: sorted_nth_mono)
  then have b: "?b ! ?i \<le> ?b ! Suc ?i" "?b ! Suc ?i \<le> length ?res" by (simp_all add: nth_append)
  then have t: "take (?b ! Suc ?i - ?b ! ?i) (drop (?b ! ?i) str) = filter_at ?offs ?res ?i"
    by (simp add: filter_at_def Let_def str_def)
  have i: "pos div 2 ^ 11 = ?i" by (simp add: kFilterBase_def kFilterBaseLg_def)
  have w2: "map_option unat (DecodeFixed32 (drop (length ?res + ?i * 4 + 4) str)) = Some (?b ! Suc ?i)"
    using w [of "Suc ?i"] c(1) by (simp only: mult_Suc add.assoc add.commute [of 4] Suc_le_eq)
  have "Reader_KeyMayMatch may_match \<lparr>fr_data = str, fr_offset = length ?res, fr_num = ?m, fr_base_lg = 11\<rparr> pos key = Some True"
    unfolding Reader_KeyMayMatch_def Let_def FilterBlockReader.select_convs i w [OF less_imp_le [OF c(1)]] w2 Option.bind.simps t
    using c(1,2) b by simp
  then show ?thesis using r by blast
qed

lemma filter_block_matches:
  assumes "sorted (map fst bs)" "(pos, bk) \<in> set bs" "key \<in> set bk"
    and "length (Filter_Finish create (fold (add_block create) bs new_FilterBlockBuilder)) < 2 ^ 32"
  shows "\<exists>r. new_FilterBlockReader (Filter_Finish create (fold (add_block create) bs new_FilterBlockBuilder)) = Some r \<and>
    Reader_KeyMayMatch may_match r pos key = Some True"
proof -
  let ?fb = "fold (add_block create) bs new_FilterBlockBuilder"
  have "length (fb_result ?fb) \<le> length (Filter_Finish create ?fb)"
    using Generate_longer [of ?fb] by (simp add: Filter_Finish_def Let_def foldl_PutFixed32 PutFixed32_def)
  moreover have "covered may_match new_FilterBlockBuilder [] []" by (simp add: covered_def waiting_def new_FilterBlockBuilder_def)
  ultimately obtain ks where "covered may_match ?fb ks (rev bs @ [])"
    using covered_blocks [of new_FilterBlockBuilder "[]" "[]" bs] assms(1,4) by (auto simp: new_FilterBlockBuilder_def list_all_iff)
  from covered_Finish [OF this assms(4)] obtain fb' where f: "covered may_match fb' [] (rev bs @ [])" "length (fb_result fb') < 2 ^ 32"
      "Filter_Finish create ?fb = fb_result fb' @ concat (map EncodeFixed32 (fb_filter_offsets fb')) @
         EncodeFixed32 (of_nat (length (fb_result fb'))) @ [of_nat kFilterBaseLg]" by blast
  show ?thesis unfolding f(3) by (rule reader_matches [OF f(1,2)]) (use assms(2,3) in simp_all)
qed

end

subsection \<open>Properties\<close>

text \<open>
  (C19) The filter block never hides a key: with the Bloom policy, for blocks at ascending offsets, every key that was added between the start of a block and
  the start of the next one may match at the offset of its block, also when several blocks share a filter or some filters are empty.
\<close>

theorem filter_block_no_false_negatives:
  assumes "sorted (map fst bs)" "(pos, bk) \<in> set bs" "key \<in> set bk"
    and "length (Filter_Finish (CreateFilter (new_BloomFilterPolicy bpk)) (fold (add_block (CreateFilter (new_BloomFilterPolicy bpk))) bs new_FilterBlockBuilder)) < 2 ^ 32"
  shows "\<exists>r. new_FilterBlockReader (Filter_Finish (CreateFilter (new_BloomFilterPolicy bpk))
        (fold (add_block (CreateFilter (new_BloomFilterPolicy bpk))) bs new_FilterBlockBuilder)) = Some r \<and>
    Reader_KeyMayMatch KeyMayMatch r pos key = Some True"
  using bloom.filter_block_matches [OF assms] .

lemma length_CreateFilter:
  "length (CreateFilter p keys dst) = length dst + ((if length keys * bits_per_key p < 64 then 64 else length keys * bits_per_key p) + 7) div 8 + 1"
proof -
  have "length (set_probes bits k h delta arr) = length arr" for bits k h delta arr by (induction k arbitrary: h arr) (simp_all add: Let_def)
  then have "length (fold (\<lambda>key arr. let h = BloomHash key in set_probes bits k h (probe_delta h) arr) keys arr) = length arr" for bits k arr
    by (induction keys arbitrary: arr) (simp_all add: Let_def)
  then show ?thesis by (simp add: CreateFilter_def Let_def)
qed

theorem filter_block_no_false_negatives_witness:
  "let create = CreateFilter (new_BloomFilterPolicy 10)
   in \<exists>r. new_FilterBlockReader (Filter_Finish create (fold (add_block create) [(0, [[1]]), (100, [[2], [3]])] new_FilterBlockBuilder)) = Some r \<and>
     Reader_KeyMayMatch KeyMayMatch r 100 [3] = Some True"
proof -
  let ?create = "CreateFilter (new_BloomFilterPolicy 10)"
  have "length (Filter_Finish ?create (fold (add_block ?create) [(0, [[1]]), (100, [[2], [3]])] new_FilterBlockBuilder)) < 2 ^ 32"
    by (simp add: Filter_Finish_def foldl_PutFixed32 PutFixed32_def EncodeFixed32_bytes add_block_def AddKey_def StartBlock_def start_loop.simps
        new_FilterBlockBuilder_def GenerateFilter_def length_CreateFilter new_BloomFilterPolicy_def Let_def kFilterBase_def kFilterBaseLg_def)
  then show ?thesis unfolding Let_def by (intro filter_block_no_false_negatives [of _ 100 "[[2], [3]]"]) simp_all
qed

end
