(* ===== verification/Ldb_Iterator.thy ===== *)
theory Ldb_Iterator
  imports Ldb_Block_Spec
begin

text \<open>
  The iterator interface (\<^verbatim>\<open>include/leveldb/iterator.h\<close>): the operations of an implementation as a record, and what they promise as a locale.  An iterator
  runs over a list of entries with ascending keys and stands at one of them or at none.
\<close>

subsection \<open>Interface\<close>

record 'i iterator_ops =
  io_Valid :: "'i \<Rightarrow> bool"
  io_SeekToFirst :: "'i \<Rightarrow> 'i option"
  io_SeekToLast :: "'i \<Rightarrow> 'i option"
  io_Seek :: "byte list \<Rightarrow> 'i \<Rightarrow> 'i option"
  io_Next :: "'i \<Rightarrow> 'i option"
  io_Prev :: "'i \<Rightarrow> 'i option"
  io_key :: "'i \<Rightarrow> byte list option"
  io_value :: "'i \<Rightarrow> byte list option"
  io_status :: "'i \<Rightarrow> Status"

type_synonym record_list = "(byte list \<times> byte list) list"

text \<open>Positions: of a number of entries that are before, and right before that.\<close>

definition pos_of :: "'a list \<Rightarrow> nat \<Rightarrow> nat option" where
  "pos_of es n = (if n < length es then Some n else None)"

definition pos_before :: "nat \<Rightarrow> nat option" where
  "pos_before n = (if n = 0 then None else Some (n - 1))"

definition first_ge :: "('k \<Rightarrow> 'k \<Rightarrow> int) \<Rightarrow> ('k \<times> 'v) list \<Rightarrow> 'k \<Rightarrow> nat" where
  "first_ge cmp es k = length (takeWhile (\<lambda>e. cmp (fst e) k < 0) es)"

definition ascending :: "('k \<Rightarrow> 'k \<Rightarrow> int) \<Rightarrow> ('k \<times> 'v) list \<Rightarrow> bool" where
  "ascending cmp es \<longleftrightarrow> sorted_wrt (\<lambda>a b. cmp (fst a) (fst b) < 0) es"

lemma pos_of_simps [simp]: "pos_of es n = None \<longleftrightarrow> length es \<le> n" "pos_of es n = Some m \<longleftrightarrow> m = n \<and> n < length es"
  "n < length es \<Longrightarrow> pos_of es n = Some n" "length es \<le> n \<Longrightarrow> pos_of es n = None"
  by (auto simp: pos_of_def)

lemma pos_before_simps [simp]: "pos_before n = None \<longleftrightarrow> n = 0" "pos_before n = Some m \<longleftrightarrow> n = Suc m" "pos_before (Suc n) = Some n" "pos_before 0 = None"
  by (auto simp: pos_before_def)

locale iterator_over = comparator ok cmp
  for ok :: "byte list \<Rightarrow> bool" and cmp :: "byte list \<Rightarrow> byte list \<Rightarrow> int" +
  fixes ops :: "'i iterator_ops" and on :: "'i \<Rightarrow> record_list \<Rightarrow> nat option \<Rightarrow> bool"
  assumes on_list: "on i es p \<Longrightarrow> list_all (ok \<circ> fst) es \<and> ascending cmp es"
    and on_Valid: "on i es p \<Longrightarrow> io_Valid ops i \<longleftrightarrow> p \<noteq> None"
    and on_entry: "on i es (Some n) \<Longrightarrow> n < length es \<and> io_key ops i = Some (fst (es ! n)) \<and> io_value ops i = Some (snd (es ! n))"
    and on_status: "on i es p \<Longrightarrow> io_status ops i = OK"
    and on_SeekToFirst: "on i es p \<Longrightarrow> \<exists>i'. io_SeekToFirst ops i = Some i' \<and> on i' es (pos_of es 0)"
    and on_SeekToLast: "on i es p \<Longrightarrow> \<exists>i'. io_SeekToLast ops i = Some i' \<and> on i' es (pos_before (length es))"
    and on_Seek: "on i es p \<Longrightarrow> ok k \<Longrightarrow> \<exists>i'. io_Seek ops k i = Some i' \<and> on i' es (pos_of es (first_ge cmp es k))"
    and on_Next: "on i es (Some n) \<Longrightarrow> \<exists>i'. io_Next ops i = Some i' \<and> on i' es (pos_of es (Suc n))"
    and on_Prev: "on i es (Some n) \<Longrightarrow> \<exists>i'. io_Prev ops i = Some i' \<and> on i' es (pos_before n)"

subsection \<open>Sequences of moves\<close>

datatype move = ToFirst | ToLast | To "byte list" | Forward | Backward

fun move_iterator :: "'i iterator_ops \<Rightarrow> move \<Rightarrow> 'i \<Rightarrow> 'i option" where
  "move_iterator ops ToFirst i = io_SeekToFirst ops i"
| "move_iterator ops ToLast i = io_SeekToLast ops i"
| "move_iterator ops (To k) i = io_Seek ops k i"
| "move_iterator ops Forward i = io_Next ops i"
| "move_iterator ops Backward i = io_Prev ops i"

primrec move_all :: "'i iterator_ops \<Rightarrow> move list \<Rightarrow> 'i \<Rightarrow> 'i option" where
  "move_all ops [] i = Some i"
| "move_all ops (m # ms) i = do { i \<leftarrow> move_iterator ops m i; move_all ops ms i }"

text \<open>Where the moves lead in a list of entries: only an iterator that stands at an entry may be moved by one.\<close>

fun move_position :: "(byte list \<Rightarrow> byte list \<Rightarrow> int) \<Rightarrow> record_list \<Rightarrow> move \<Rightarrow> nat option \<Rightarrow> nat option option" where
  "move_position cmp es ToFirst p = Some (pos_of es 0)"
| "move_position cmp es ToLast p = Some (pos_before (length es))"
| "move_position cmp es (To k) p = Some (pos_of es (first_ge cmp es k))"
| "move_position cmp es Forward p = map_option (\<lambda>n. pos_of es (Suc n)) p"
| "move_position cmp es Backward p = map_option pos_before p"

primrec move_positions :: "(byte list \<Rightarrow> byte list \<Rightarrow> int) \<Rightarrow> record_list \<Rightarrow> move list \<Rightarrow> nat option \<Rightarrow> nat option option" where
  "move_positions cmp es [] p = Some p"
| "move_positions cmp es (m # ms) p = do { p \<leftarrow> move_position cmp es m p; move_positions cmp es ms p }"

fun move_ok :: "(byte list \<Rightarrow> bool) \<Rightarrow> move \<Rightarrow> bool" where
  "move_ok ok (To k) = ok k"
| "move_ok ok _ = True"

text \<open>What an iterator shows: nothing when it is not valid.\<close>

definition shows_entry :: "'i iterator_ops \<Rightarrow> 'i \<Rightarrow> (byte list \<times> byte list) option \<Rightarrow> bool" where
  "shows_entry ops i e \<longleftrightarrow> io_status ops i = OK \<and>
     (case e of None \<Rightarrow> \<not> io_Valid ops i | Some (k, v) \<Rightarrow> io_Valid ops i \<and> io_key ops i = Some k \<and> io_value ops i = Some v)"

context iterator_over
begin

lemma on_move:
  assumes "on i es p" "move_ok ok m" "move_position cmp es m p = Some q"
  shows "\<exists>i'. move_iterator ops m i = Some i' \<and> on i' es q"
  using assms on_SeekToFirst on_SeekToLast on_Seek on_Next on_Prev by (cases m) auto

lemma on_moves:
  assumes "on i es p" "list_all (move_ok ok) ms" "move_positions cmp es ms p = Some q"
  shows "\<exists>i'. move_all ops ms i = Some i' \<and> on i' es q"
  using assms
proof (induction ms arbitrary: i p)
  case (Cons m ms)
  then obtain p' where p': "move_position cmp es m p = Some p'" "move_positions cmp es ms p' = Some q" by (auto simp: bind_eq_Some_conv)
  obtain i' where "move_iterator ops m i = Some i'" "on i' es p'" using on_move [OF Cons.prems(1) _ p'(1)] Cons.prems(2) by auto
  then show ?case using Cons.IH [of i' p'] Cons.prems(2) p'(2) by auto
qed simp

lemma on_shows: "on i es p \<Longrightarrow> shows_entry ops i (map_option ((!) es) p)"
  using on_Valid [of i es p] on_entry [of i es] on_status [of i es p] by (cases p) (auto simp: shows_entry_def split: prod.splits)

lemma moves_show:
  assumes "on i es p" "list_all (move_ok ok) ms" "move_positions cmp es ms p = Some q"
  shows "\<exists>i'. move_all ops ms i = Some i' \<and> shows_entry ops i' (map_option ((!) es) q)"
  using on_moves [OF assms] on_shows by blast

end

subsection \<open>Ascending lists\<close>

lemma in_concat_nth: "x \<in> set (concat xss) \<longleftrightarrow> (\<exists>i < length xss. x \<in> set (xss ! i))"
  unfolding set_concat by (metis UN_iff in_set_conv_nth)

lemma distinct_concat_disjoint: "distinct (concat xss) \<Longrightarrow> i < j \<Longrightarrow> j < length xss \<Longrightarrow> set (xss ! i) \<inter> set (xss ! j) = {}"
proof (induction xss arbitrary: i j)
  case (Cons xs xss)
  obtain j' where j: "j = Suc j'" using Cons.prems(2) by (cases j) auto
  show ?case
  proof (cases i)
    case 0
    have "set (xss ! j') \<subseteq> set (concat xss)" using Cons.prems(3) j unfolding in_concat_nth subset_iff by auto
    then show ?thesis using Cons.prems(1) 0 j by auto
  next
    case (Suc i')
    then show ?thesis using Cons.IH [of i' j'] Cons.prems j by simp
  qed
qed simp

lemma ascending_filter: "ascending cmp es \<Longrightarrow> ascending cmp (filter P es)"
  by (simp add: ascending_def sorted_wrt_filter)

context comparator
begin

lemma ascending_distinct:
  assumes "ascending cmp es" "list_all (valid \<circ> fst) es"
  shows "distinct es"
proof (rule distinct_conv_nth [THEN iffD2], intro allI impI)
  fix i j assume ij: "i < length es" "j < length es" "i \<noteq> j"
  have "es ! a \<noteq> es ! b" if "a < b" "b < length es" for a b
  proof
    assume e: "es ! a = es ! b"
    have "cmp (fst (es ! a)) (fst (es ! b)) < 0" using assms(1) that by (simp add: ascending_def sorted_wrt_iff_nth_less)
    moreover have "valid (fst (es ! b))" using assms(2) that(2) by (simp add: list_all_length)
    ultimately show False using cmp_refl e by (metis less_irrefl)
  qed
  then show "es ! i \<noteq> es ! j" using ij by (metis linorder_neqE_nat)
qed

text \<open>The entries before a key are the first ones.\<close>

lemma first_ge_split:
  assumes "ascending cmp es" "list_all (valid \<circ> fst) es" "valid k"
  shows "\<forall>e \<in> set (take (first_ge cmp es k) es). cmp (fst e) k < 0" "\<forall>e \<in> set (drop (first_ge cmp es k) es). \<not> cmp (fst e) k < 0"
proof -
  let ?P = "\<lambda>e. cmp (fst e) k < 0"
  have t: "take (first_ge cmp es k) es = takeWhile ?P es" by (simp add: first_ge_def takeWhile_eq_take [symmetric])
  have d: "drop (first_ge cmp es k) es = dropWhile ?P es" by (simp add: first_ge_def dropWhile_eq_drop [symmetric])
  show "\<forall>e \<in> set (take (first_ge cmp es k) es). ?P e" unfolding t by (auto dest: set_takeWhileD)
  show "\<forall>e \<in> set (drop (first_ge cmp es k) es). \<not> ?P e"
  proof (cases "dropWhile ?P es")
    case Nil
    show ?thesis unfolding d Nil by simp
  next
    case (Cons x xs)
    have x: "\<not> ?P x" using Cons hd_dropWhile [of ?P es] by auto
    have s: "sorted_wrt (\<lambda>a b. cmp (fst a) (fst b) < 0) (x # xs)"
      using sorted_wrt_drop [OF assms(1) [unfolded ascending_def], of "first_ge cmp es k"] unfolding d Cons .
    have v: "valid (fst e)" if "e \<in> set (x # xs)" for e using that assms(2) set_dropWhileD [of e ?P es] Cons by (auto simp: list_all_iff)
    have "\<not> ?P e" if "e \<in> set xs" for e using x s v [of x] v [of e] that assms(3) less_trans [of "fst x" "fst e" k] by auto
    then show ?thesis unfolding d Cons using x by simp
  qed
qed

lemma first_ge_filter:
  assumes "ascending cmp es" "list_all (valid \<circ> fst) es" "valid k"
  shows "first_ge cmp (filter Q es) k = length (filter Q (take (first_ge cmp es k) es))"
proof -
  let ?n = "first_ge cmp es k" and ?P = "\<lambda>e. cmp (fst e) k < 0"
  have "filter Q es = filter Q (take ?n es) @ filter Q (drop ?n es)" by (metis append_take_drop_id filter_append)
  moreover have "takeWhile ?P (filter Q (take ?n es) @ filter Q (drop ?n es)) = filter Q (take ?n es)"
    using first_ge_split [OF assms] by (subst takeWhile_append2) (auto simp: takeWhile_eq_Nil_iff dest: hd_in_set)
  ultimately show ?thesis by (simp add: first_ge_def)
qed

lemma first_ge_nth:
  assumes "ascending cmp es" "list_all (valid \<circ> fst) es" "n < length es"
  shows "first_ge cmp es (fst (es ! n)) = n"
proof -
  have v: "valid (fst (es ! m))" if "m < length es" for m using assms(2) that by (simp add: list_all_length)
  have "cmp (fst (es ! m)) (fst (es ! n)) < 0" if "m < n" for m using assms(1,3) that by (simp add: ascending_def sorted_wrt_iff_nth_less)
  then have "takeWhile (\<lambda>e. cmp (fst e) (fst (es ! n)) < 0) es = take n es"
    using assms(3) cmp_refl [OF v [OF assms(3)]] by (intro takeWhile_eq_take_P_nth) auto
  then show ?thesis using assms(3) by (simp add: first_ge_def)
qed

end

end
