(* ===== verification/Ldb_Merger.thy ===== *)
theory Ldb_Merger
  imports Ldb_Iterator
begin

text \<open>
  \<^verbatim>\<open>table/iterator_wrapper.h\<close> and \<^verbatim>\<open>table/merger.cc\<close>: an iterator over the entries of several iterators, in the order of their keys.
\<close>

subsection \<open>Wrappers\<close>

record 'i IteratorWrapper =
  iw_iter :: 'i
  iw_valid :: bool
  iw_key :: "byte list"

definition IW_Update :: "'i iterator_ops \<Rightarrow> 'i IteratorWrapper \<Rightarrow> 'i IteratorWrapper option" where
  "IW_Update ops w = do {
     let w = w\<lparr>iw_valid := io_Valid ops (iw_iter w)\<rparr>;
     if iw_valid w then do { k \<leftarrow> io_key ops (iw_iter w); Some (w\<lparr>iw_key := k\<rparr>) } else Some w
   }"

definition IW_Set :: "'i iterator_ops \<Rightarrow> 'i \<Rightarrow> 'i IteratorWrapper option" where
  "IW_Set ops i = IW_Update ops \<lparr>iw_iter = i, iw_valid = False, iw_key = []\<rparr>"

definition IW_step :: "'i iterator_ops \<Rightarrow> ('i \<Rightarrow> 'i option) \<Rightarrow> 'i IteratorWrapper \<Rightarrow> 'i IteratorWrapper option" where
  "IW_step ops step w = do { i \<leftarrow> step (iw_iter w); IW_Update ops (w\<lparr>iw_iter := i\<rparr>) }"

definition IW_Next :: "'i iterator_ops \<Rightarrow> 'i IteratorWrapper \<Rightarrow> 'i IteratorWrapper option" where
  "IW_Next ops w = IW_step ops (io_Next ops) w"

definition IW_Prev :: "'i iterator_ops \<Rightarrow> 'i IteratorWrapper \<Rightarrow> 'i IteratorWrapper option" where
  "IW_Prev ops w = IW_step ops (io_Prev ops) w"

definition IW_Seek :: "'i iterator_ops \<Rightarrow> byte list \<Rightarrow> 'i IteratorWrapper \<Rightarrow> 'i IteratorWrapper option" where
  "IW_Seek ops k w = IW_step ops (io_Seek ops k) w"

definition IW_SeekToFirst :: "'i iterator_ops \<Rightarrow> 'i IteratorWrapper \<Rightarrow> 'i IteratorWrapper option" where
  "IW_SeekToFirst ops w = IW_step ops (io_SeekToFirst ops) w"

definition IW_SeekToLast :: "'i iterator_ops \<Rightarrow> 'i IteratorWrapper \<Rightarrow> 'i IteratorWrapper option" where
  "IW_SeekToLast ops w = IW_step ops (io_SeekToLast ops) w"

subsection \<open>The merging iterator\<close>

datatype Direction = kForward | kReverse

record 'i MergingIterator =
  mi_children :: "'i IteratorWrapper list"
  mi_current :: "nat option"
  mi_direction :: Direction

text \<open>The loops over the children: over all of them, and over all but the current one; \<open>i\<close> is the index of the first.\<close>

primrec each_child :: "('a \<Rightarrow> 'b option) \<Rightarrow> 'a list \<Rightarrow> 'b list option" where
  "each_child f [] = Some []"
| "each_child f (c # cs) = do { c \<leftarrow> f c; cs \<leftarrow> each_child f cs; Some (c # cs) }"

primrec each_other :: "('a \<Rightarrow> 'a option) \<Rightarrow> nat \<Rightarrow> nat \<Rightarrow> 'a list \<Rightarrow> 'a list option" where
  "each_other f current i [] = Some []"
| "each_other f current i (c # cs) = do { c \<leftarrow> (if i \<noteq> current then f c else Some c); cs \<leftarrow> each_other f current (Suc i) cs; Some (c # cs) }"

definition new_MergingIterator :: "'i iterator_ops \<Rightarrow> 'i list \<Rightarrow> 'i MergingIterator option" where
  "new_MergingIterator ops children = do {
     cs \<leftarrow> each_child (IW_Set ops) children;
     Some \<lparr>mi_children = cs, mi_current = None, mi_direction = kForward\<rparr>
   }"

definition MI_Valid :: "'i MergingIterator \<Rightarrow> bool" where
  "MI_Valid m \<longleftrightarrow> mi_current m \<noteq> None"

fun smallest_loop :: "(byte list \<Rightarrow> byte list \<Rightarrow> int) \<Rightarrow> 'i IteratorWrapper list \<Rightarrow> nat list \<Rightarrow> nat option \<Rightarrow> nat option" where
  "smallest_loop cmp cs [] smallest = smallest"
| "smallest_loop cmp cs (i # is) smallest =
     smallest_loop cmp cs is
       (if iw_valid (cs ! i)
        then (case smallest of
                None \<Rightarrow> Some i
              | Some s \<Rightarrow> if cmp (iw_key (cs ! i)) (iw_key (cs ! s)) < 0 then Some i else smallest)
        else smallest)"

fun largest_loop :: "(byte list \<Rightarrow> byte list \<Rightarrow> int) \<Rightarrow> 'i IteratorWrapper list \<Rightarrow> nat list \<Rightarrow> nat option \<Rightarrow> nat option" where
  "largest_loop cmp cs [] largest = largest"
| "largest_loop cmp cs (i # is) largest =
     largest_loop cmp cs is
       (if iw_valid (cs ! i)
        then (case largest of
                None \<Rightarrow> Some i
              | Some l \<Rightarrow> if cmp (iw_key (cs ! i)) (iw_key (cs ! l)) > 0 then Some i else largest)
        else largest)"

definition FindSmallest :: "(byte list \<Rightarrow> byte list \<Rightarrow> int) \<Rightarrow> 'i MergingIterator \<Rightarrow> 'i MergingIterator" where
  "FindSmallest cmp m = m\<lparr>mi_current := smallest_loop cmp (mi_children m) [0 ..< length (mi_children m)] None\<rparr>"

definition FindLargest :: "(byte list \<Rightarrow> byte list \<Rightarrow> int) \<Rightarrow> 'i MergingIterator \<Rightarrow> 'i MergingIterator" where
  "FindLargest cmp m = m\<lparr>mi_current := largest_loop cmp (mi_children m) (rev [0 ..< length (mi_children m)]) None\<rparr>"

definition MI_SeekToFirst :: "(byte list \<Rightarrow> byte list \<Rightarrow> int) \<Rightarrow> 'i iterator_ops \<Rightarrow> 'i MergingIterator \<Rightarrow> 'i MergingIterator option" where
  "MI_SeekToFirst cmp ops m = do {
     cs \<leftarrow> each_child (IW_SeekToFirst ops) (mi_children m);
     Some ((FindSmallest cmp (m\<lparr>mi_children := cs\<rparr>))\<lparr>mi_direction := kForward\<rparr>)
   }"

definition MI_SeekToLast :: "(byte list \<Rightarrow> byte list \<Rightarrow> int) \<Rightarrow> 'i iterator_ops \<Rightarrow> 'i MergingIterator \<Rightarrow> 'i MergingIterator option" where
  "MI_SeekToLast cmp ops m = do {
     cs \<leftarrow> each_child (IW_SeekToLast ops) (mi_children m);
     Some ((FindLargest cmp (m\<lparr>mi_children := cs\<rparr>))\<lparr>mi_direction := kReverse\<rparr>)
   }"

definition MI_Seek :: "(byte list \<Rightarrow> byte list \<Rightarrow> int) \<Rightarrow> 'i iterator_ops \<Rightarrow> byte list \<Rightarrow> 'i MergingIterator \<Rightarrow> 'i MergingIterator option" where
  "MI_Seek cmp ops target m = do {
     cs \<leftarrow> each_child (IW_Seek ops target) (mi_children m);
     Some ((FindSmallest cmp (m\<lparr>mi_children := cs\<rparr>))\<lparr>mi_direction := kForward\<rparr>)
   }"

text \<open>Putting another child behind or in front of the key.\<close>

definition seek_after :: "(byte list \<Rightarrow> byte list \<Rightarrow> int) \<Rightarrow> 'i iterator_ops \<Rightarrow> byte list \<Rightarrow> 'i IteratorWrapper \<Rightarrow> 'i IteratorWrapper option" where
  "seek_after cmp ops key child = do {
     child \<leftarrow> IW_Seek ops key child;
     if iw_valid child \<and> cmp key (iw_key child) = 0 then IW_Next ops child else Some child
   }"

definition seek_before :: "'i iterator_ops \<Rightarrow> byte list \<Rightarrow> 'i IteratorWrapper \<Rightarrow> 'i IteratorWrapper option" where
  "seek_before ops key child = do {
     child \<leftarrow> IW_Seek ops key child;
     if iw_valid child then IW_Prev ops child else IW_SeekToLast ops child
   }"

definition MI_Next :: "(byte list \<Rightarrow> byte list \<Rightarrow> int) \<Rightarrow> 'i iterator_ops \<Rightarrow> 'i MergingIterator \<Rightarrow> 'i MergingIterator option" where
  "MI_Next cmp ops m = do {
     current \<leftarrow> mi_current m;
     child \<leftarrow> nth_opt (mi_children m) current;
     cs \<leftarrow> (if mi_direction m \<noteq> kForward then each_other (seek_after cmp ops (iw_key child)) current 0 (mi_children m) else Some (mi_children m));
     child \<leftarrow> nth_opt cs current;
     child \<leftarrow> IW_Next ops child;
     Some (FindSmallest cmp (m\<lparr>mi_children := cs[current := child], mi_direction := kForward\<rparr>))
   }"

definition MI_Prev :: "(byte list \<Rightarrow> byte list \<Rightarrow> int) \<Rightarrow> 'i iterator_ops \<Rightarrow> 'i MergingIterator \<Rightarrow> 'i MergingIterator option" where
  "MI_Prev cmp ops m = do {
     current \<leftarrow> mi_current m;
     child \<leftarrow> nth_opt (mi_children m) current;
     cs \<leftarrow> (if mi_direction m \<noteq> kReverse then each_other (seek_before ops (iw_key child)) current 0 (mi_children m) else Some (mi_children m));
     child \<leftarrow> nth_opt cs current;
     child \<leftarrow> IW_Prev ops child;
     Some (FindLargest cmp (m\<lparr>mi_children := cs[current := child], mi_direction := kReverse\<rparr>))
   }"

definition MI_key :: "'i MergingIterator \<Rightarrow> byte list option" where
  "MI_key m = do { current \<leftarrow> mi_current m; child \<leftarrow> nth_opt (mi_children m) current; Some (iw_key child) }"

definition MI_value :: "'i iterator_ops \<Rightarrow> 'i MergingIterator \<Rightarrow> byte list option" where
  "MI_value ops m = do { current \<leftarrow> mi_current m; child \<leftarrow> nth_opt (mi_children m) current; io_value ops (iw_iter child) }"

fun status_loop :: "Status list \<Rightarrow> Status \<Rightarrow> Status" where
  "status_loop [] status = status"
| "status_loop (s # ss) status = (if s \<noteq> OK then s else status_loop ss s)"

definition MI_status :: "'i iterator_ops \<Rightarrow> 'i MergingIterator \<Rightarrow> Status" where
  "MI_status ops m = status_loop (map (io_status ops \<circ> iw_iter) (mi_children m)) OK"

text \<open>\<^verbatim>\<open>NewMergingIterator\<close>: without children an empty iterator, with one the child itself.\<close>

datatype 'i merged_iterator = MergedNone | MergedOne 'i | Merged "'i MergingIterator"

definition NewMergingIterator :: "'i iterator_ops \<Rightarrow> 'i list \<Rightarrow> 'i merged_iterator option" where
  "NewMergingIterator ops children =
     (case children of
        [] \<Rightarrow> Some MergedNone
      | [child] \<Rightarrow> Some (MergedOne child)
      | _ \<Rightarrow> map_option Merged (new_MergingIterator ops children))"

definition MergingIterator_ops :: "(byte list \<Rightarrow> byte list \<Rightarrow> int) \<Rightarrow> 'i iterator_ops \<Rightarrow> 'i MergingIterator iterator_ops" where
  "MergingIterator_ops cmp ops =
     \<lparr>io_Valid = MI_Valid, io_SeekToFirst = MI_SeekToFirst cmp ops, io_SeekToLast = MI_SeekToLast cmp ops, io_Seek = MI_Seek cmp ops,
      io_Next = MI_Next cmp ops, io_Prev = MI_Prev cmp ops, io_key = MI_key, io_value = MI_value ops, io_status = MI_status ops\<rparr>"

end
