(* ===== verification/Ldb_Db_Iter.thy ===== *)
theory Ldb_Db_Iter
  imports Ldb_Merger Ldb_Skiplist
begin

text \<open>
  \<^verbatim>\<open>db/db_iter.cc\<close>: the iterator of the database.  It runs over the internal keys of another iterator and shows for every user key the newest
  value that its snapshot sees.  Samples of the reads go to the database, here as the list of the sampled keys.
\<close>

subsection \<open>State\<close>

record 'i DBIter =
  di_iter :: 'i
  di_sequence :: SequenceNumber
  di_status :: Status
  di_saved_key :: "byte list"
  di_saved_value :: "byte list"
  di_direction :: Direction
  di_valid :: bool
  di_rnd :: uint32
  di_bytes_until_read_sampling :: nat
  di_samples :: "byte list list"

definition kReadBytesPeriod :: uint32 where "kReadBytesPeriod = 1048576"

text \<open>\<^verbatim>\<open>RandomCompactionPeriod\<close>: the period, and the state of the random numbers.\<close>

definition RandomCompactionPeriod :: "uint32 \<Rightarrow> nat \<times> uint32" where
  "RandomCompactionPeriod gen = (let r = Random_Next gen in (unat (r mod (2 * kReadBytesPeriod)), r))"

definition NewDBIterator :: "'i \<Rightarrow> SequenceNumber \<Rightarrow> uint32 \<Rightarrow> 'i DBIter" where
  "NewDBIterator internal_iter s seed =
     (case RandomCompactionPeriod (new_Random seed) of
        (period, gen) \<Rightarrow>
          \<lparr>di_iter = internal_iter, di_sequence = s, di_status = OK, di_saved_key = [], di_saved_value = [], di_direction = kForward, di_valid = False,
           di_rnd = gen, di_bytes_until_read_sampling = period, di_samples = []\<rparr>)"

definition DI_key :: "'i iterator_ops \<Rightarrow> 'i DBIter \<Rightarrow> byte list option" where
  "DI_key ops d = (if di_direction d = kForward then map_option ExtractUserKey (io_key ops (di_iter d)) else Some (di_saved_key d))"

definition DI_value :: "'i iterator_ops \<Rightarrow> 'i DBIter \<Rightarrow> byte list option" where
  "DI_value ops d = (if di_direction d = kForward then io_value ops (di_iter d) else Some (di_saved_value d))"

definition DI_status :: "'i iterator_ops \<Rightarrow> 'i DBIter \<Rightarrow> Status" where
  "DI_status ops d = (if di_status d = OK then io_status ops (di_iter d) else di_status d)"

definition ClearSavedValue :: "'i DBIter \<Rightarrow> 'i DBIter" where
  "ClearSavedValue d = d\<lparr>di_saved_value := []\<rparr>"

subsection \<open>Parsing keys\<close>

partial_function (option) sample_loop :: "nat \<Rightarrow> byte list \<Rightarrow> 'i DBIter \<Rightarrow> 'i DBIter option" where
  "sample_loop bytes_read k d =
     (if di_bytes_until_read_sampling d < bytes_read
      then (case RandomCompactionPeriod (di_rnd d) of
              (period, gen) \<Rightarrow>
                sample_loop bytes_read k
                  (d\<lparr>di_bytes_until_read_sampling := di_bytes_until_read_sampling d + period, di_rnd := gen, di_samples := di_samples d @ [k]\<rparr>))
      else Some d)"

definition ParseKey :: "'i iterator_ops \<Rightarrow> 'i DBIter \<Rightarrow> (ParsedInternalKey option \<times> 'i DBIter) option" where
  "ParseKey ops d = do {
     k \<leftarrow> io_key ops (di_iter d);
     v \<leftarrow> io_value ops (di_iter d);
     let bytes_read = length k + length v;
     d \<leftarrow> sample_loop bytes_read k d;
     let d = d\<lparr>di_bytes_until_read_sampling := di_bytes_until_read_sampling d - bytes_read\<rparr>;
     Some (case ParseInternalKey k of
             None \<Rightarrow> (None, d\<lparr>di_status := Corruption ''corrupted internal key in DBIter''\<rparr>)
           | Some parsed \<Rightarrow> (Some parsed, d))
   }"

text \<open>A parsed key that the snapshot sees.\<close>

definition seen :: "'i DBIter \<Rightarrow> ParsedInternalKey option \<Rightarrow> ParsedInternalKey option" where
  "seen d parsed = (case parsed of None \<Rightarrow> None | Some p \<Rightarrow> if sequence p \<le> di_sequence d then Some p else None)"

subsection \<open>Forward\<close>

text \<open>\<^verbatim>\<open>FindNextUserEntry\<close>, where \<^verbatim>\<open>skip\<close> is always \<^verbatim>\<open>saved_key_\<close>.\<close>

partial_function (option) FindNextUserEntry :: "'i iterator_ops \<Rightarrow> (byte list \<Rightarrow> byte list \<Rightarrow> int) \<Rightarrow> bool \<Rightarrow> 'i DBIter \<Rightarrow> 'i DBIter option" where
  "FindNextUserEntry ops cmp skipping d = do {
     (parsed, d) \<leftarrow> ParseKey ops d;
     (case seen d parsed of
        Some p \<Rightarrow>
          if key_type p = kTypeValue \<and> \<not> (skipping \<and> cmp (user_key p) (di_saved_key d) \<le> 0)
          then Some (d\<lparr>di_valid := True, di_saved_key := []\<rparr>)
          else do {
            let deletion = (key_type p = kTypeDeletion);
            let d = (if deletion then d\<lparr>di_saved_key := user_key p\<rparr> else d);
            i \<leftarrow> io_Next ops (di_iter d);
            let d = d\<lparr>di_iter := i\<rparr>;
            if io_Valid ops i then FindNextUserEntry ops cmp (skipping \<or> deletion) d
            else Some (d\<lparr>di_saved_key := [], di_valid := False\<rparr>)
          }
      | None \<Rightarrow> do {
          i \<leftarrow> io_Next ops (di_iter d);
          let d = d\<lparr>di_iter := i\<rparr>;
          if io_Valid ops i then FindNextUserEntry ops cmp skipping d
          else Some (d\<lparr>di_saved_key := [], di_valid := False\<rparr>)
        })
   }"

definition DI_Next :: "'i iterator_ops \<Rightarrow> (byte list \<Rightarrow> byte list \<Rightarrow> int) \<Rightarrow> 'i DBIter \<Rightarrow> 'i DBIter option" where
  "DI_Next ops cmp d =
     (if di_direction d = kReverse
      then do {
        let d = d\<lparr>di_direction := kForward\<rparr>;
        i \<leftarrow> (if \<not> io_Valid ops (di_iter d) then io_SeekToFirst ops (di_iter d) else io_Next ops (di_iter d));
        let d = d\<lparr>di_iter := i\<rparr>;
        if \<not> io_Valid ops i then Some (d\<lparr>di_valid := False, di_saved_key := []\<rparr>)
        else FindNextUserEntry ops cmp True d
      }
      else do {
        k \<leftarrow> io_key ops (di_iter d);
        FindNextUserEntry ops cmp True (d\<lparr>di_saved_key := ExtractUserKey k\<rparr>)
      })"

text \<open>
  The target of \<^verbatim>\<open>Seek\<close> is a value.  In the code it is a slice, and \<^verbatim>\<open>saved_key_\<close> is cleared before the target is read: a caller that passes the
  slice of \<^verbatim>\<open>key()\<close> of an iterator that moves backwards is outside of the model.
\<close>

definition DI_Seek :: "'i iterator_ops \<Rightarrow> (byte list \<Rightarrow> byte list \<Rightarrow> int) \<Rightarrow> byte list \<Rightarrow> 'i DBIter \<Rightarrow> 'i DBIter option" where
  "DI_Seek ops cmp target d = do {
     let d = ClearSavedValue (d\<lparr>di_direction := kForward\<rparr>);
     let d = d\<lparr>di_saved_key := AppendInternalKey [] \<lparr>user_key = target, sequence = di_sequence d, key_type = kValueTypeForSeek\<rparr>\<rparr>;
     i \<leftarrow> io_Seek ops (di_saved_key d) (di_iter d);
     let d = d\<lparr>di_iter := i\<rparr>;
     if io_Valid ops i then FindNextUserEntry ops cmp False d else Some (d\<lparr>di_valid := False\<rparr>)
   }"

definition DI_SeekToFirst :: "'i iterator_ops \<Rightarrow> (byte list \<Rightarrow> byte list \<Rightarrow> int) \<Rightarrow> 'i DBIter \<Rightarrow> 'i DBIter option" where
  "DI_SeekToFirst ops cmp d = do {
     let d = ClearSavedValue (d\<lparr>di_direction := kForward\<rparr>);
     i \<leftarrow> io_SeekToFirst ops (di_iter d);
     let d = d\<lparr>di_iter := i\<rparr>;
     if io_Valid ops i then FindNextUserEntry ops cmp False d else Some (d\<lparr>di_valid := False\<rparr>)
   }"

subsection \<open>Backward\<close>

text \<open>The loop of \<^verbatim>\<open>FindPrevUserEntry\<close>, which gives \<^verbatim>\<open>value_type\<close>.\<close>

partial_function (option) find_prev_loop ::
  "'i iterator_ops \<Rightarrow> (byte list \<Rightarrow> byte list \<Rightarrow> int) \<Rightarrow> ValueType \<Rightarrow> 'i DBIter \<Rightarrow> (ValueType \<times> 'i DBIter) option" where
  "find_prev_loop ops cmp value_type d = do {
     (parsed, d) \<leftarrow> ParseKey ops d;
     (case seen d parsed of
        Some p \<Rightarrow>
          if value_type \<noteq> kTypeDeletion \<and> cmp (user_key p) (di_saved_key d) < 0 then Some (value_type, d)
          else do {
            d \<leftarrow> (if key_type p = kTypeDeletion then Some (ClearSavedValue (d\<lparr>di_saved_key := []\<rparr>))
                  else do {
                    raw_value \<leftarrow> io_value ops (di_iter d);
                    k \<leftarrow> io_key ops (di_iter d);
                    Some (d\<lparr>di_saved_key := ExtractUserKey k, di_saved_value := raw_value\<rparr>)
                  });
            i \<leftarrow> io_Prev ops (di_iter d);
            let d = d\<lparr>di_iter := i\<rparr>;
            if io_Valid ops i then find_prev_loop ops cmp (key_type p) d else Some (key_type p, d)
          }
      | None \<Rightarrow> do {
          i \<leftarrow> io_Prev ops (di_iter d);
          let d = d\<lparr>di_iter := i\<rparr>;
          if io_Valid ops i then find_prev_loop ops cmp value_type d else Some (value_type, d)
        })
   }"

definition FindPrevUserEntry :: "'i iterator_ops \<Rightarrow> (byte list \<Rightarrow> byte list \<Rightarrow> int) \<Rightarrow> 'i DBIter \<Rightarrow> 'i DBIter option" where
  "FindPrevUserEntry ops cmp d = do {
     (value_type, d) \<leftarrow> (if io_Valid ops (di_iter d) then find_prev_loop ops cmp kTypeDeletion d else Some (kTypeDeletion, d));
     Some (if value_type = kTypeDeletion then ClearSavedValue (d\<lparr>di_valid := False, di_saved_key := []\<rparr>)\<lparr>di_direction := kForward\<rparr>
           else d\<lparr>di_valid := True\<rparr>)
   }"

text \<open>The loop of \<^verbatim>\<open>Prev\<close>: back to the keys before the current one; no such key gives \<^const>\<open>False\<close>.\<close>

partial_function (option) prev_key_loop :: "'i iterator_ops \<Rightarrow> (byte list \<Rightarrow> byte list \<Rightarrow> int) \<Rightarrow> 'i DBIter \<Rightarrow> (bool \<times> 'i DBIter) option" where
  "prev_key_loop ops cmp d = do {
     i \<leftarrow> io_Prev ops (di_iter d);
     let d = d\<lparr>di_iter := i\<rparr>;
     if \<not> io_Valid ops i then Some (False, ClearSavedValue (d\<lparr>di_valid := False, di_saved_key := []\<rparr>))
     else do {
       k \<leftarrow> io_key ops i;
       if cmp (ExtractUserKey k) (di_saved_key d) < 0 then Some (True, d) else prev_key_loop ops cmp d
     }
   }"

definition DI_Prev :: "'i iterator_ops \<Rightarrow> (byte list \<Rightarrow> byte list \<Rightarrow> int) \<Rightarrow> 'i DBIter \<Rightarrow> 'i DBIter option" where
  "DI_Prev ops cmp d =
     (if di_direction d = kForward
      then do {
        k \<leftarrow> io_key ops (di_iter d);
        (found, d) \<leftarrow> prev_key_loop ops cmp (d\<lparr>di_saved_key := ExtractUserKey k\<rparr>);
        if found then FindPrevUserEntry ops cmp (d\<lparr>di_direction := kReverse\<rparr>) else Some d
      }
      else FindPrevUserEntry ops cmp d)"

definition DI_SeekToLast :: "'i iterator_ops \<Rightarrow> (byte list \<Rightarrow> byte list \<Rightarrow> int) \<Rightarrow> 'i DBIter \<Rightarrow> 'i DBIter option" where
  "DI_SeekToLast ops cmp d = do {
     let d = ClearSavedValue (d\<lparr>di_direction := kReverse\<rparr>);
     i \<leftarrow> io_SeekToLast ops (di_iter d);
     FindPrevUserEntry ops cmp (d\<lparr>di_iter := i\<rparr>)
   }"

definition DBIter_ops :: "'i iterator_ops \<Rightarrow> (byte list \<Rightarrow> byte list \<Rightarrow> int) \<Rightarrow> 'i DBIter iterator_ops" where
  "DBIter_ops ops cmp =
     \<lparr>io_Valid = di_valid, io_SeekToFirst = DI_SeekToFirst ops cmp, io_SeekToLast = DI_SeekToLast ops cmp, io_Seek = DI_Seek ops cmp,
      io_Next = DI_Next ops cmp, io_Prev = DI_Prev ops cmp, io_key = DI_key ops, io_value = DI_value ops, io_status = DI_status ops\<rparr>"

end
