(* ===== verification/Ldb_Merger_Spec.thy ===== *)
theory Ldb_Merger_Spec
  imports Ldb_Merger "HOL-Library.Multiset"
begin

text \<open>
  The merging iterator is an iterator over the entries of all its children: \<open>own\<close> says for every entry which child has it, so that a child runs over its share of the list.
  Forward, every child is at its first entry that is not before the current one; backward, at its last entry that is not after it.
\<close>

subsection \<open>Shares of the children\<close>

definition share :: "('e \<Rightarrow> nat) \<Rightarrow> nat \<Rightarrow> 'e list \<Rightarrow> 'e list" where
  "share own l es = filter (\<lambda>e. own e = l) es"

definition share_before :: "('e \<Rightarrow> nat) \<Rightarrow> nat \<Rightarrow> nat \<Rightarrow> 'e list \<Rightarrow> nat" where
  "share_before own l n es = length (share own l (take n es))"

lemma share_split: "share own l es = share own l (take n es) @ share own l (drop n es)"
  by (metis append_take_drop_id filter_append share_def)

lemma share_before_0 [simp]: "share_before own l 0 es = 0"
  by (simp add: share_before_def share_def)

lemma share_before_all: "length es \<le> n \<Longrightarrow> share_before own l n es = length (share own l es)"
  by (simp add: share_before_def)

lemma share_before_Suc: "n < length es \<Longrightarrow> share_before own l (Suc n) es = share_before own l n es + (if own (es ! n) = l then 1 else 0)"
  by (simp add: share_before_def share_def take_Suc_conv_app_nth)

lemma share_before_le: "share_before own l n es \<le> length (share own l es)"
  unfolding share_before_def by (subst (2) share_split [of _ _ _ n]) simp

lemma share_nth:
  assumes "n < length es" "own (es ! n) = l"
  shows "share_before own l n es < length (share own l es)" "share own l es ! share_before own l n es = es ! n"
proof -
  have "share own l es = share own l (take n es) @ es ! n # share own l (drop (Suc n) es)"
    using assms by (subst share_split [of _ _ _ n]) (simp add: share_def flip: Cons_nth_drop_Suc)
  then show "share_before own l n es < length (share own l es)" "share own l es ! share_before own l n es = es ! n"
    by (simp_all add: share_before_def)
qed

lemma share_next:
  assumes "share_before own l n es < length (share own l es)"
  obtains m where "n \<le> m" "m < length es" "share own l es ! share_before own l n es = es ! m" "own (es ! m) = l"
proof -
  let ?x = "share own l es ! share_before own l n es"
  have "?x = share own l (drop n es) ! 0" "share own l (drop n es) \<noteq> []"
    using assms share_split [of own l es n] by (auto simp: share_before_def nth_append)
  then have "?x \<in> set (share own l (drop n es))" by (metis length_greater_0_conv nth_mem)
  then obtain i where "i < length (drop n es)" "drop n es ! i = ?x" "own ?x = l" by (auto simp: share_def in_set_conv_nth)
  then show thesis using that [of "n + i"] by simp
qed

lemma share_last:
  assumes "share_before own l n es = Suc q"
  obtains m where "m < n" "m < length es" "share own l es ! q = es ! m" "own (es ! m) = l"
proof -
  have "share own l es ! q = share own l (take n es) ! q" "q < length (share own l (take n es))"
    using assms share_split [of own l es n] by (auto simp: share_before_def nth_append)
  then have "share own l es ! q \<in> set (share own l (take n es))" by (metis nth_mem)
  then obtain i where "i < length (take n es)" "take n es ! i = share own l es ! q" "own (share own l es ! q) = l" by (auto simp: share_def in_set_conv_nth)
  then show thesis using that [of i] by simp
qed

subsection \<open>Loops over the children\<close>

lemma each_child_ok:
  assumes "\<forall>l < length cs. \<exists>c. f (cs ! l) = Some c \<and> Q l c"
  shows "\<exists>cs'. each_child f cs = Some cs' \<and> length cs' = length cs \<and> (\<forall>l < length cs. Q l (cs' ! l))"
  using assms
proof (induction cs arbitrary: Q)
  case (Cons c cs)
  obtain c' where c': "f c = Some c'" "Q 0 c'" using Cons.prems by fastforce
  have "\<forall>l < length cs. \<exists>c. f (cs ! l) = Some c \<and> Q (Suc l) c" using Cons.prems by fastforce
  then obtain cs' where cs': "each_child f cs = Some cs'" "length cs' = length cs" "\<forall>l < length cs. Q (Suc l) (cs' ! l)" using Cons.IH [of "\<lambda>l. Q (Suc l)"] by blast
  then have "\<forall>l < length (c # cs). Q l ((c' # cs') ! l)" using c'(2) by (auto simp: less_Suc_eq_0_disj)
  then show ?case using c' cs' by auto
qed simp

lemma each_other_ok:
  assumes "\<forall>l < length cs. if i + l = current then Q (i + l) (cs ! l) else \<exists>c. f (cs ! l) = Some c \<and> Q (i + l) c"
  shows "\<exists>cs'. each_other f current i cs = Some cs' \<and> length cs' = length cs \<and> (\<forall>l < length cs. Q (i + l) (cs' ! l))"
  using assms
proof (induction cs arbitrary: i)
  case (Cons c cs)
  obtain c' where c': "(if i \<noteq> current then f c else Some c) = Some c'" "Q i c'" using Cons.prems [rule_format, of 0] by (auto split: if_splits)
  have "\<forall>l < length cs. if Suc i + l = current then Q (Suc i + l) (cs ! l) else \<exists>c. f (cs ! l) = Some c \<and> Q (Suc i + l) c" using Cons.prems by fastforce
  then obtain cs' where cs': "each_other f current (Suc i) cs = Some cs'" "length cs' = length cs" "\<forall>l < length cs. Q (Suc i + l) (cs' ! l)" using Cons.IH by blast
  then have "\<forall>l < length (c # cs). Q (i + l) ((c' # cs') ! l)" using c'(2) by (auto simp: less_Suc_eq_0_disj)
  then show ?case using c' cs' by auto
qed simp

lemma smallest_none: "\<forall>l \<in> set is. \<not> iw_valid (cs ! l) \<Longrightarrow> smallest_loop cmp cs is s = s"
  by (induction "is" arbitrary: s) auto

lemma largest_none: "\<forall>l \<in> set is. \<not> iw_valid (cs ! l) \<Longrightarrow> largest_loop cmp cs is s = s"
  by (induction "is" arbitrary: s) auto

lemma smallest_found:
  assumes "iw_valid (cs ! j)"
    and "\<forall>l \<in> L. l \<noteq> j \<longrightarrow> iw_valid (cs ! l) \<longrightarrow> cmp (iw_key (cs ! j)) (iw_key (cs ! l)) < 0 \<and> \<not> cmp (iw_key (cs ! l)) (iw_key (cs ! j)) < 0"
    and "set is \<subseteq> L" "j \<in> set is \<and> (\<forall>x. s = Some x \<longrightarrow> x \<in> L \<and> iw_valid (cs ! x)) \<or> s = Some j"
  shows "smallest_loop cmp cs is s = Some j"
  using assms(3,4)
proof (induction "is" arbitrary: s)
  case (Cons i "is")
  show ?case
  proof (cases "s = Some j \<or> i = j")
    case True
    have "(if iw_valid (cs ! i) then case s of None \<Rightarrow> Some i | Some s' \<Rightarrow> if cmp (iw_key (cs ! i)) (iw_key (cs ! s')) < 0 then Some i else s else s) = Some j"
      using True Cons.prems assms(1,2) by (cases s; cases "i = j") auto
    then show ?thesis using Cons by simp
  next
    case False
    then have "j \<in> set is" "\<forall>x. s = Some x \<longrightarrow> x \<in> L \<and> iw_valid (cs ! x)" using Cons.prems(2) by auto
    then show ?thesis using Cons.prems(1) by (simp only: smallest_loop.simps, intro Cons.IH) (auto split: option.splits)
  qed
qed simp

lemma largest_found:
  assumes "iw_valid (cs ! j)"
    and "\<forall>l \<in> L. l \<noteq> j \<longrightarrow> iw_valid (cs ! l) \<longrightarrow> cmp (iw_key (cs ! j)) (iw_key (cs ! l)) > 0 \<and> \<not> cmp (iw_key (cs ! l)) (iw_key (cs ! j)) > 0"
    and "set is \<subseteq> L" "j \<in> set is \<and> (\<forall>x. s = Some x \<longrightarrow> x \<in> L \<and> iw_valid (cs ! x)) \<or> s = Some j"
  shows "largest_loop cmp cs is s = Some j"
  using assms(3,4)
proof (induction "is" arbitrary: s)
  case (Cons i "is")
  show ?case
  proof (cases "s = Some j \<or> i = j")
    case True
    have "(if iw_valid (cs ! i) then case s of None \<Rightarrow> Some i | Some s' \<Rightarrow> if cmp (iw_key (cs ! i)) (iw_key (cs ! s')) > 0 then Some i else s else s) = Some j"
      using True Cons.prems assms(1,2) by (cases s; cases "i = j") auto
    then show ?thesis using Cons by simp
  next
    case False
    then have "j \<in> set is" "\<forall>x. s = Some x \<longrightarrow> x \<in> L \<and> iw_valid (cs ! x)" using Cons.prems(2) by auto
    then show ?thesis using Cons.prems(1) by (simp only: largest_loop.simps, intro Cons.IH) (auto split: option.splits)
  qed
qed simp

subsection \<open>Wrappers\<close>

definition wrapper_on :: "('i \<Rightarrow> record_list \<Rightarrow> nat option \<Rightarrow> bool) \<Rightarrow> 'i IteratorWrapper \<Rightarrow> record_list \<Rightarrow> nat option \<Rightarrow> bool" where
  "wrapper_on on w es p \<longleftrightarrow> on (iw_iter w) es p \<and> (iw_valid w \<longleftrightarrow> p \<noteq> None) \<and> (\<forall>n. p = Some n \<longrightarrow> iw_key w = fst (es ! n))"

definition children_at ::
  "('i \<Rightarrow> record_list \<Rightarrow> nat option \<Rightarrow> bool) \<Rightarrow> (byte list \<times> byte list \<Rightarrow> nat) \<Rightarrow> record_list \<Rightarrow> (nat \<Rightarrow> nat option) \<Rightarrow> 'i IteratorWrapper list \<Rightarrow> bool" where
  "children_at on own es P cs \<longleftrightarrow> (\<forall>l < length cs. wrapper_on on (cs ! l) (share own l es) (P l))"

lemma each_child_at:
  assumes "children_at on own es P cs"
    and "\<And>l c. wrapper_on on c (share own l es) (P l) \<Longrightarrow> \<exists>c'. f c = Some c' \<and> wrapper_on on c' (share own l es) (P' l)"
  obtains cs' where "each_child f cs = Some cs'" "length cs' = length cs" "children_at on own es P' cs'"
  using each_child_ok [of cs f "\<lambda>l c. wrapper_on on c (share own l es) (P' l)"] assms unfolding children_at_def by metis

context iterator_over
begin

lemma IW_Update_on:
  assumes "on (iw_iter w) es p"
  shows "\<exists>w'. IW_Update ops w = Some w' \<and> wrapper_on on w' es p"
  using assms on_Valid [OF assms] on_entry [of "iw_iter w" es] by (cases p) (auto simp: IW_Update_def wrapper_on_def Let_def)

lemma IW_step_on:
  assumes "\<exists>i'. step (iw_iter w) = Some i' \<and> on i' es q"
  shows "\<exists>w'. IW_step ops step w = Some w' \<and> wrapper_on on w' es q"
proof -
  obtain i' where i': "step (iw_iter w) = Some i'" "on i' es q" using assms by blast
  then show ?thesis using IW_Update_on [of "w\<lparr>iw_iter := i'\<rparr>" es q] by (simp add: IW_step_def)
qed

lemma IW_on:
  assumes "wrapper_on on w es p"
  shows "\<exists>w'. IW_SeekToFirst ops w = Some w' \<and> wrapper_on on w' es (pos_of es 0)"
    "\<exists>w'. IW_SeekToLast ops w = Some w' \<and> wrapper_on on w' es (pos_before (length es))"
    "ok k \<Longrightarrow> \<exists>w'. IW_Seek ops k w = Some w' \<and> wrapper_on on w' es (pos_of es (first_ge cmp es k))"
    "p = Some n \<Longrightarrow> \<exists>w'. IW_Next ops w = Some w' \<and> wrapper_on on w' es (pos_of es (Suc n))"
    "p = Some n \<Longrightarrow> \<exists>w'. IW_Prev ops w = Some w' \<and> wrapper_on on w' es (pos_before n)"
proof -
  have w: "on (iw_iter w) es p" using assms by (simp add: wrapper_on_def)
  show "\<exists>w'. IW_SeekToFirst ops w = Some w' \<and> wrapper_on on w' es (pos_of es 0)" unfolding IW_SeekToFirst_def by (rule IW_step_on) (rule on_SeekToFirst [OF w])
  show "\<exists>w'. IW_SeekToLast ops w = Some w' \<and> wrapper_on on w' es (pos_before (length es))" unfolding IW_SeekToLast_def by (rule IW_step_on) (rule on_SeekToLast [OF w])
  show "ok k \<Longrightarrow> \<exists>w'. IW_Seek ops k w = Some w' \<and> wrapper_on on w' es (pos_of es (first_ge cmp es k))"
    unfolding IW_Seek_def by (rule IW_step_on) (rule on_Seek [OF w])
  show "p = Some n \<Longrightarrow> \<exists>w'. IW_Next ops w = Some w' \<and> wrapper_on on w' es (pos_of es (Suc n))"
    unfolding IW_Next_def by (rule IW_step_on) (use on_Next w in simp)
  show "p = Some n \<Longrightarrow> \<exists>w'. IW_Prev ops w = Some w' \<and> wrapper_on on w' es (pos_before n)"
    unfolding IW_Prev_def by (rule IW_step_on) (use on_Prev w in simp)
qed

text \<open>The current child after a search through all of them.\<close>

lemma later_key:
  assumes "ascending cmp es" "list_all (ok \<circ> fst) es" "n < m" "m < length es"
  shows "cmp (fst (es ! n)) (fst (es ! m)) < 0" "cmp (fst (es ! m)) (fst (es ! n)) > 0"
proof -
  show "cmp (fst (es ! n)) (fst (es ! m)) < 0" using assms by (simp add: ascending_def sorted_wrt_iff_nth_less)
  moreover have "ok (fst (es ! n))" "ok (fst (es ! m))" using assms(2-4) by (simp_all add: list_all_length)
  ultimately show "cmp (fst (es ! m)) (fst (es ! n)) > 0" using cmp_swap by blast
qed

lemma smallest_child:
  assumes "ascending cmp es" "list_all (ok \<circ> fst) es" "\<forall>e \<in> set es. own e < length cs"
    and "children_at on own es (\<lambda>l. pos_of (share own l es) (share_before own l n es)) cs"
  shows "smallest_loop cmp cs [0 ..< length cs] None = (if n < length es then Some (own (es ! n)) else None)"
proof (cases "n < length es")
  case True
  let ?j = "own (es ! n)"
  have at: "wrapper_on on (cs ! l) (share own l es) (pos_of (share own l es) (share_before own l n es))" if "l < length cs" for l
    using assms(4) that by (simp add: children_at_def)
  have j: "?j < length cs" using assms(3) True by simp
  note s = share_nth [OF True refl, of own]
  have kj: "iw_valid (cs ! ?j)" "iw_key (cs ! ?j) = fst (es ! n)" using at [OF j] s by (simp_all add: wrapper_on_def pos_of_def)
  have "smallest_loop cmp cs [0 ..< length cs] None = Some ?j"
  proof (rule smallest_found [OF kj(1), of "{..<length cs}"])
    show "\<forall>l \<in> {..<length cs}. l \<noteq> ?j \<longrightarrow> iw_valid (cs ! l) \<longrightarrow> cmp (iw_key (cs ! ?j)) (iw_key (cs ! l)) < 0 \<and> \<not> cmp (iw_key (cs ! l)) (iw_key (cs ! ?j)) < 0"
    proof (intro ballI impI)
      fix l assume l: "l \<in> {..<length cs}" "l \<noteq> ?j" "iw_valid (cs ! l)"
      then have lt: "share_before own l n es < length (share own l es)" using at [of l] by (simp add: wrapper_on_def)
      obtain m where m: "n \<le> m" "m < length es" "share own l es ! share_before own l n es = es ! m" "own (es ! m) = l" by (rule share_next [OF lt])
      then have "n < m" using l(2) by (metis le_neq_implies_less)
      moreover have "iw_key (cs ! l) = fst (es ! m)" using at [of l] l(1) lt m(3) by (simp add: wrapper_on_def pos_of_def)
      ultimately show "cmp (iw_key (cs ! ?j)) (iw_key (cs ! l)) < 0 \<and> \<not> cmp (iw_key (cs ! l)) (iw_key (cs ! ?j)) < 0"
        using later_key [OF assms(1,2) _ m(2)] kj(2) by fastforce
    qed
  qed (use j in auto)
  then show ?thesis using True by simp
next
  case False
  then have "\<forall>l < length cs. \<not> iw_valid (cs ! l)" using assms(4) by (simp add: children_at_def wrapper_on_def share_before_all)
  then show ?thesis using False by (simp add: smallest_none)
qed

lemma largest_child:
  assumes "ascending cmp es" "list_all (ok \<circ> fst) es" "\<forall>e \<in> set es. own e < length cs" "n \<le> length es"
    and "children_at on own es (\<lambda>l. pos_before (share_before own l n es)) cs"
  shows "largest_loop cmp cs (rev [0 ..< length cs]) None = (if n = 0 then None else Some (own (es ! (n - 1))))"
proof (cases n)
  case 0
  then have "\<forall>l < length cs. \<not> iw_valid (cs ! l)" using assms(5) by (simp add: children_at_def wrapper_on_def)
  then show ?thesis using 0 by (simp add: largest_none)
next
  case (Suc n')
  let ?j = "own (es ! n')"
  have n': "n' < length es" using assms(4) Suc by simp
  have at: "wrapper_on on (cs ! l) (share own l es) (pos_before (share_before own l n es))" if "l < length cs" for l
    using assms(5) that by (simp add: children_at_def)
  have j: "?j < length cs" using assms(3) n' by simp
  note s = share_nth [OF n' refl, of own]
  have kj: "iw_valid (cs ! ?j)" "iw_key (cs ! ?j) = fst (es ! n')" using at [OF j] s n' by (simp_all add: wrapper_on_def Suc share_before_Suc)
  have "largest_loop cmp cs (rev [0 ..< length cs]) None = Some ?j"
  proof (rule largest_found [OF kj(1), of "{..<length cs}"])
    show "\<forall>l \<in> {..<length cs}. l \<noteq> ?j \<longrightarrow> iw_valid (cs ! l) \<longrightarrow> cmp (iw_key (cs ! ?j)) (iw_key (cs ! l)) > 0 \<and> \<not> cmp (iw_key (cs ! l)) (iw_key (cs ! ?j)) > 0"
    proof (intro ballI impI)
      fix l assume l: "l \<in> {..<length cs}" "l \<noteq> ?j" "iw_valid (cs ! l)"
      then obtain q where q: "share_before own l n es = Suc q" using at [of l] by (auto simp: wrapper_on_def gr0_conv_Suc)
      obtain m where m: "m < n" "m < length es" "share own l es ! q = es ! m" "own (es ! m) = l" by (rule share_last [OF q])
      then have "m < n'" using l(2) Suc by (metis less_SucE)
      moreover have "iw_key (cs ! l) = fst (es ! m)" using at [of l] l(1) q m(3) by (simp add: wrapper_on_def)
      ultimately show "cmp (iw_key (cs ! ?j)) (iw_key (cs ! l)) > 0 \<and> \<not> cmp (iw_key (cs ! l)) (iw_key (cs ! ?j)) > 0"
        using later_key [OF assms(1,2) _ n'] kj(2) by fastforce
    qed
  qed (use j in auto)
  then show ?thesis using Suc by simp
qed

end

subsection \<open>The merging iterator as an iterator\<close>

definition merge_position :: "Direction \<Rightarrow> (byte list \<times> byte list \<Rightarrow> nat) \<Rightarrow> record_list \<Rightarrow> nat \<Rightarrow> nat \<Rightarrow> nat option" where
  "merge_position d own es n l =
     (if d = kForward then pos_of (share own l es) (share_before own l n es) else pos_before (share_before own l (Suc n) es))"

lemma merge_position_forward: "merge_position kForward own es n = (\<lambda>l. pos_of (share own l es) (share_before own l n es))"
  by (simp add: merge_position_def fun_eq_iff)

lemma merge_position_backward: "merge_position kReverse own es n = (\<lambda>l. pos_before (share_before own l (Suc n) es))"
  by (simp add: merge_position_def fun_eq_iff)

lemma merge_position_current: "n < length es \<Longrightarrow> merge_position d own es n (own (es ! n)) = Some (share_before own (own (es ! n)) n es)"
  using share_nth [of n es own] by (cases d) (simp_all add: merge_position_def share_before_Suc)

definition merge_on ::
  "(byte list \<Rightarrow> bool) \<Rightarrow> (byte list \<Rightarrow> byte list \<Rightarrow> int) \<Rightarrow> ('i \<Rightarrow> record_list \<Rightarrow> nat option \<Rightarrow> bool) \<Rightarrow> 'i MergingIterator \<Rightarrow> record_list \<Rightarrow> nat option \<Rightarrow> bool" where
  "merge_on ok cmp on m es p \<longleftrightarrow>
     list_all (ok \<circ> fst) es \<and> ascending cmp es \<and>
     (\<exists>own. (\<forall>e \<in> set es. own e < length (mi_children m)) \<and>
        (case p of
           None \<Rightarrow> mi_current m = None \<and> (\<exists>P. children_at on own es P (mi_children m))
         | Some n \<Rightarrow> n < length es \<and> mi_current m = Some (own (es ! n)) \<and> children_at on own es (merge_position (mi_direction m) own es n) (mi_children m)))"

context iterator_over
begin

lemma merge_children:
  assumes "merge_on ok cmp on m es p"
  obtains own P where "list_all (ok \<circ> fst) es" "ascending cmp es" "\<forall>e \<in> set es. own e < length (mi_children m)" "children_at on own es P (mi_children m)"
  using assms by (cases p) (auto simp: merge_on_def)

text \<open>When all children stand at the first entry from the \<open>n\<close>th on, or at the last one before it.\<close>

lemma merge_forward:
  assumes "list_all (ok \<circ> fst) es" "ascending cmp es" "\<forall>e \<in> set es. own e < length cs" "mi_children m = cs" "mi_direction m = kForward"
    and "children_at on own es (\<lambda>l. pos_of (share own l es) (share_before own l n es)) cs" "mi_current m = smallest_loop cmp cs [0 ..< length cs] None"
  shows "merge_on ok cmp on m es (pos_of es n)"
proof -
  have c: "mi_current m = (if n < length es then Some (own (es ! n)) else None)" unfolding assms(7) by (rule smallest_child [OF assms(2,1,3,6)])
  show ?thesis
  proof (cases "n < length es")
    case True
    then have "pos_of es n = Some n" by simp
    then show ?thesis unfolding merge_on_def using assms(1-6) c True by (auto simp: merge_position_forward intro!: exI [of _ own])
  next
    case False
    then have "pos_of es n = None" by simp
    then show ?thesis unfolding merge_on_def using assms(1-6) c False by (auto intro!: exI [of _ own])
  qed
qed

lemma merge_backward:
  assumes "list_all (ok \<circ> fst) es" "ascending cmp es" "\<forall>e \<in> set es. own e < length cs" "mi_children m = cs" "mi_direction m = kReverse" "n \<le> length es"
    and "children_at on own es (\<lambda>l. pos_before (share_before own l n es)) cs" "mi_current m = largest_loop cmp cs (rev [0 ..< length cs]) None"
  shows "merge_on ok cmp on m es (pos_before n)"
proof -
  have c: "mi_current m = (if n = 0 then None else Some (own (es ! (n - 1))))" unfolding assms(8) by (rule largest_child [OF assms(2,1,3,6,7)])
  show ?thesis
  proof (cases n)
    case 0
    then have "pos_before n = None" by simp
    then show ?thesis unfolding merge_on_def using assms(1-5,7) c 0 by (auto intro!: exI [of _ own])
  next
    case (Suc n')
    then show ?thesis unfolding merge_on_def using assms(1-7) c by (auto simp: merge_position_backward intro!: exI [of _ own])
  qed
qed

lemma seek_share:
  assumes "list_all (ok \<circ> fst) es" "ascending cmp es" "ok k"
  shows "first_ge cmp (share own l es) k = share_before own l (first_ge cmp es k) es"
  using first_ge_filter [OF assms(2,1,3), of "\<lambda>e. own e = l"] by (simp add: share_def share_before_def)

lemma MI_Seek_on:
  assumes "merge_on ok cmp on m es p" "ok k"
  shows "\<exists>m'. MI_Seek cmp ops k m = Some m' \<and> merge_on ok cmp on m' es (pos_of es (first_ge cmp es k))"
proof -
  obtain own P where o: "list_all (ok \<circ> fst) es" "ascending cmp es" "\<forall>e \<in> set es. own e < length (mi_children m)" "children_at on own es P (mi_children m)"
    by (rule merge_children [OF assms(1)])
  let ?n = "first_ge cmp es k"
  obtain cs where cs: "each_child (IW_Seek ops k) (mi_children m) = Some cs" "length cs = length (mi_children m)"
      "children_at on own es (\<lambda>l. pos_of (share own l es) (share_before own l ?n es)) cs"
    by (rule each_child_at [OF o(4), where P' = "\<lambda>l. pos_of (share own l es) (share_before own l ?n es)" and f = "IW_Seek ops k"]) (use IW_on(3) [OF _ assms(2)] in \<open>simp_all add: seek_share [OF o(1,2) assms(2), symmetric]\<close>)
  let ?m = "(FindSmallest cmp (m\<lparr>mi_children := cs\<rparr>))\<lparr>mi_direction := kForward\<rparr>"
  have "merge_on ok cmp on ?m es (pos_of es ?n)"
    by (rule merge_forward [OF o(1,2), of own cs]) (use o(3) cs in \<open>simp_all add: FindSmallest_def children_at_def\<close>)
  then show ?thesis using cs(1) by (simp add: MI_Seek_def)
qed

lemma MI_SeekToFirst_on:
  assumes "merge_on ok cmp on m es p"
  shows "\<exists>m'. MI_SeekToFirst cmp ops m = Some m' \<and> merge_on ok cmp on m' es (pos_of es 0)"
proof -
  obtain own P where o: "list_all (ok \<circ> fst) es" "ascending cmp es" "\<forall>e \<in> set es. own e < length (mi_children m)" "children_at on own es P (mi_children m)"
    by (rule merge_children [OF assms(1)])
  obtain cs where cs: "each_child (IW_SeekToFirst ops) (mi_children m) = Some cs" "length cs = length (mi_children m)"
      "children_at on own es (\<lambda>l. pos_of (share own l es) (share_before own l 0 es)) cs"
    by (rule each_child_at [OF o(4), where P' = "\<lambda>l. pos_of (share own l es) (share_before own l 0 es)" and f = "IW_SeekToFirst ops"]) (use IW_on(1) in \<open>simp_all\<close>)
  let ?m = "(FindSmallest cmp (m\<lparr>mi_children := cs\<rparr>))\<lparr>mi_direction := kForward\<rparr>"
  have "merge_on ok cmp on ?m es (pos_of es 0)"
    by (rule merge_forward [OF o(1,2), of own cs]) (use o(3) cs in \<open>simp_all add: FindSmallest_def children_at_def\<close>)
  then show ?thesis using cs(1) by (simp add: MI_SeekToFirst_def)
qed

lemma MI_SeekToLast_on:
  assumes "merge_on ok cmp on m es p"
  shows "\<exists>m'. MI_SeekToLast cmp ops m = Some m' \<and> merge_on ok cmp on m' es (pos_before (length es))"
proof -
  obtain own P where o: "list_all (ok \<circ> fst) es" "ascending cmp es" "\<forall>e \<in> set es. own e < length (mi_children m)" "children_at on own es P (mi_children m)"
    by (rule merge_children [OF assms(1)])
  obtain cs where cs: "each_child (IW_SeekToLast ops) (mi_children m) = Some cs" "length cs = length (mi_children m)"
      "children_at on own es (\<lambda>l. pos_before (share_before own l (length es) es)) cs"
    by (rule each_child_at [OF o(4), where P' = "\<lambda>l. pos_before (share_before own l (length es) es)" and f = "IW_SeekToLast ops"]) (use IW_on(2) in \<open>simp_all add: share_before_all\<close>)
  let ?m = "(FindLargest cmp (m\<lparr>mi_children := cs\<rparr>))\<lparr>mi_direction := kReverse\<rparr>"
  have "merge_on ok cmp on ?m es (pos_before (length es))"
    by (rule merge_backward [OF o(1,2), of own cs]) (use o(3) cs in \<open>simp_all add: FindLargest_def children_at_def\<close>)
  then show ?thesis using cs(1) by (simp add: MI_SeekToLast_def)
qed

text \<open>The state of a valid iterator.\<close>

lemma merge_at:
  assumes "merge_on ok cmp on m es (Some n)"
  obtains own where "list_all (ok \<circ> fst) es" "ascending cmp es" "\<forall>e \<in> set es. own e < length (mi_children m)" "n < length es" "mi_current m = Some (own (es ! n))"
    "own (es ! n) < length (mi_children m)" "ok (fst (es ! n))" "iw_key (mi_children m ! own (es ! n)) = fst (es ! n)"
    "children_at on own es (merge_position (mi_direction m) own es n) (mi_children m)"
proof -
  obtain own where o: "list_all (ok \<circ> fst) es" "ascending cmp es" "\<forall>e \<in> set es. own e < length (mi_children m)" "n < length es" "mi_current m = Some (own (es ! n))"
    "children_at on own es (merge_position (mi_direction m) own es n) (mi_children m)"
    using assms by (auto simp: merge_on_def)
  have j: "own (es ! n) < length (mi_children m)" "ok (fst (es ! n))" using o(1,3,4) by (simp_all add: list_all_length)
  have "iw_key (mi_children m ! own (es ! n)) = fst (es ! n)"
    using o(6) j(1) merge_position_current [OF o(4)] share_nth(2) [OF o(4) refl, of own] by (auto simp: children_at_def wrapper_on_def)
  then show thesis using that o j by blast
qed

text \<open>Turning around: the other children are put behind the current key, or before it.\<close>

lemma seek_after_on:
  assumes "list_all (ok \<circ> fst) es" "ascending cmp es" "n < length es" "own (es ! n) \<noteq> l" "wrapper_on on c (share own l es) p"
  shows "\<exists>c'. seek_after cmp ops (fst (es ! n)) c = Some c' \<and> wrapper_on on c' (share own l es) (pos_of (share own l es) (share_before own l n es))"
proof -
  have k: "ok (fst (es ! n))" using assms(1,3) by (simp add: list_all_length)
  have f: "first_ge cmp (share own l es) (fst (es ! n)) = share_before own l n es"
    using seek_share [OF assms(1,2) k] first_ge_nth [OF assms(2,1,3)] by simp
  obtain c' where c': "IW_Seek ops (fst (es ! n)) c = Some c'" "wrapper_on on c' (share own l es) (pos_of (share own l es) (share_before own l n es))"
    using IW_on(3) [OF assms(5) k] f by auto
  have "cmp (fst (es ! n)) (iw_key c') \<noteq> 0" if v: "iw_valid c'"
  proof -
    have lt: "share_before own l n es < length (share own l es)" using c'(2) v by (simp add: wrapper_on_def)
    obtain m where m: "n \<le> m" "m < length es" "share own l es ! share_before own l n es = es ! m" "own (es ! m) = l" by (rule share_next [OF lt])
    then have "n < m" using assms(4) by (metis le_neq_implies_less)
    then show ?thesis using later_key(1) [OF assms(2,1) _ m(2)] c'(2) lt m(3) by (fastforce simp: wrapper_on_def pos_of_def)
  qed
  then show ?thesis using c' by (auto simp: seek_after_def)
qed

lemma seek_before_on:
  assumes "list_all (ok \<circ> fst) es" "ascending cmp es" "n < length es" "own (es ! n) \<noteq> l" "wrapper_on on c (share own l es) p"
  shows "\<exists>c'. seek_before ops (fst (es ! n)) c = Some c' \<and> wrapper_on on c' (share own l es) (pos_before (share_before own l (Suc n) es))"
proof -
  have k: "ok (fst (es ! n))" using assms(1,3) by (simp add: list_all_length)
  have f: "first_ge cmp (share own l es) (fst (es ! n)) = share_before own l n es"
    using seek_share [OF assms(1,2) k] first_ge_nth [OF assms(2,1,3)] by simp
  obtain c' where c': "IW_Seek ops (fst (es ! n)) c = Some c'" "wrapper_on on c' (share own l es) (pos_of (share own l es) (share_before own l n es))"
    using IW_on(3) [OF assms(5) k] f by auto
  have s: "share_before own l (Suc n) es = share_before own l n es" using assms(3,4) by (simp add: share_before_Suc)
  show ?thesis
  proof (cases "share_before own l n es < length (share own l es)")
    case True
    then have p: "pos_of (share own l es) (share_before own l n es) = Some (share_before own l n es)" by simp
    then have "iw_valid c'" using c'(2) by (simp add: wrapper_on_def)
    then show ?thesis using c'(1) IW_on(5) [OF c'(2) p] s by (simp add: seek_before_def)
  next
    case False
    then have "\<not> iw_valid c'" "share_before own l n es = length (share own l es)" using c'(2) share_before_le [of own l n es] by (auto simp: wrapper_on_def)
    then show ?thesis using c'(1) IW_on(2) [OF c'(2)] s by (simp add: seek_before_def)
  qed
qed

text \<open>All children for one direction, whichever it was before.\<close>

lemma turn_forward:
  assumes "list_all (ok \<circ> fst) es" "ascending cmp es" "n < length es" "children_at on own es (merge_position d own es n) cs"
  shows "\<exists>cs'. (if d \<noteq> kForward then each_other (seek_after cmp ops (fst (es ! n))) (own (es ! n)) 0 cs else Some cs) = Some cs' \<and> length cs' = length cs \<and>
    children_at on own es (\<lambda>l. pos_of (share own l es) (share_before own l n es)) cs'"
proof (cases d)
  case kForward
  then show ?thesis using assms(4) by (simp add: merge_position_forward)
next
  case kReverse
  let ?Q = "\<lambda>l c. wrapper_on on c (share own l es) (pos_of (share own l es) (share_before own l n es))"
  have "\<forall>l < length cs. if 0 + l = own (es ! n) then ?Q (0 + l) (cs ! l) else \<exists>c. seek_after cmp ops (fst (es ! n)) (cs ! l) = Some c \<and> ?Q (0 + l) c"
  proof (intro allI impI)
    fix l assume l: "l < length cs"
    have w: "wrapper_on on (cs ! l) (share own l es) (merge_position d own es n l)" using assms(4) l by (simp add: children_at_def)
    show "if 0 + l = own (es ! n) then ?Q (0 + l) (cs ! l) else \<exists>c. seek_after cmp ops (fst (es ! n)) (cs ! l) = Some c \<and> ?Q (0 + l) c"
      using w seek_after_on [OF assms(1-3) _ w] merge_position_current [OF assms(3), of d own] share_nth(1) [OF assms(3) refl, of own] by auto
  qed
  from each_other_ok [OF this] kReverse show ?thesis by (auto simp: children_at_def)
qed

lemma turn_backward:
  assumes "list_all (ok \<circ> fst) es" "ascending cmp es" "n < length es" "children_at on own es (merge_position d own es n) cs"
  shows "\<exists>cs'. (if d \<noteq> kReverse then each_other (seek_before ops (fst (es ! n))) (own (es ! n)) 0 cs else Some cs) = Some cs' \<and> length cs' = length cs \<and>
    children_at on own es (\<lambda>l. pos_before (share_before own l (Suc n) es)) cs'"
proof (cases d)
  case kReverse
  then show ?thesis using assms(4) by (simp add: merge_position_backward)
next
  case kForward
  let ?Q = "\<lambda>l c. wrapper_on on c (share own l es) (pos_before (share_before own l (Suc n) es))"
  have "\<forall>l < length cs. if 0 + l = own (es ! n) then ?Q (0 + l) (cs ! l) else \<exists>c. seek_before ops (fst (es ! n)) (cs ! l) = Some c \<and> ?Q (0 + l) c"
  proof (intro allI impI)
    fix l assume l: "l < length cs"
    have w: "wrapper_on on (cs ! l) (share own l es) (merge_position d own es n l)" using assms(4) l by (simp add: children_at_def)
    show "if 0 + l = own (es ! n) then ?Q (0 + l) (cs ! l) else \<exists>c. seek_before ops (fst (es ! n)) (cs ! l) = Some c \<and> ?Q (0 + l) c"
      using w seek_before_on [OF assms(1-3) _ w] merge_position_current [OF assms(3), of d own] assms(3) by (auto simp: share_before_Suc)
  qed
  from each_other_ok [OF this] kForward show ?thesis by (auto simp: children_at_def)
qed

lemma MI_Next_on:
  assumes "merge_on ok cmp on m es (Some n)"
  shows "\<exists>m'. MI_Next cmp ops m = Some m' \<and> merge_on ok cmp on m' es (pos_of es (Suc n))"
proof -
  obtain own where o: "list_all (ok \<circ> fst) es" "ascending cmp es" "\<forall>e \<in> set es. own e < length (mi_children m)" "n < length es" "mi_current m = Some (own (es ! n))"
    "own (es ! n) < length (mi_children m)" "ok (fst (es ! n))" "iw_key (mi_children m ! own (es ! n)) = fst (es ! n)"
    "children_at on own es (merge_position (mi_direction m) own es n) (mi_children m)"
    by (rule merge_at [OF assms])
  let ?j = "own (es ! n)"
  obtain cs where cs: "(if mi_direction m \<noteq> kForward then each_other (seek_after cmp ops (fst (es ! n))) ?j 0 (mi_children m) else Some (mi_children m)) = Some cs"
      "length cs = length (mi_children m)" "children_at on own es (\<lambda>l. pos_of (share own l es) (share_before own l n es)) cs"
    using turn_forward [OF o(1,2,4,9)] by blast
  have w: "wrapper_on on (cs ! ?j) (share own ?j es) (Some (share_before own ?j n es))"
    using cs(2,3) o(6) share_nth(1) [OF o(4) refl, of own] by (auto simp: children_at_def)
  obtain c where c: "IW_Next ops (cs ! ?j) = Some c" "wrapper_on on c (share own ?j es) (pos_of (share own ?j es) (Suc (share_before own ?j n es)))"
    using IW_on(4) [OF w refl] by blast
  let ?m = "FindSmallest cmp (m\<lparr>mi_children := cs[?j := c], mi_direction := kForward\<rparr>)"
  have "children_at on own es (\<lambda>l. pos_of (share own l es) (share_before own l (Suc n) es)) (cs[?j := c])"
    using cs(3) c(2) o(4) by (auto simp: children_at_def share_before_Suc nth_list_update)
  then have "merge_on ok cmp on ?m es (pos_of es (Suc n))"
    by (intro merge_forward [OF o(1,2), of own "cs[?j := c]"]) (use o(3) cs(2) in \<open>simp_all add: FindSmallest_def\<close>)
  then show ?thesis using o(5,6,8) cs(1,2) c(1) by (cases "mi_direction m") (simp_all add: MI_Next_def nth_opt_def)
qed

lemma MI_Prev_on:
  assumes "merge_on ok cmp on m es (Some n)"
  shows "\<exists>m'. MI_Prev cmp ops m = Some m' \<and> merge_on ok cmp on m' es (pos_before n)"
proof -
  obtain own where o: "list_all (ok \<circ> fst) es" "ascending cmp es" "\<forall>e \<in> set es. own e < length (mi_children m)" "n < length es" "mi_current m = Some (own (es ! n))"
    "own (es ! n) < length (mi_children m)" "ok (fst (es ! n))" "iw_key (mi_children m ! own (es ! n)) = fst (es ! n)"
    "children_at on own es (merge_position (mi_direction m) own es n) (mi_children m)"
    by (rule merge_at [OF assms])
  let ?j = "own (es ! n)"
  obtain cs where cs: "(if mi_direction m \<noteq> kReverse then each_other (seek_before ops (fst (es ! n))) ?j 0 (mi_children m) else Some (mi_children m)) = Some cs"
      "length cs = length (mi_children m)" "children_at on own es (\<lambda>l. pos_before (share_before own l (Suc n) es)) cs"
    using turn_backward [OF o(1,2,4,9)] by blast
  have w: "wrapper_on on (cs ! ?j) (share own ?j es) (Some (share_before own ?j n es))"
    using cs(2,3) o(4,6) by (auto simp: children_at_def share_before_Suc)
  obtain c where c: "IW_Prev ops (cs ! ?j) = Some c" "wrapper_on on c (share own ?j es) (pos_before (share_before own ?j n es))"
    using IW_on(5) [OF w refl] by blast
  let ?m = "FindLargest cmp (m\<lparr>mi_children := cs[?j := c], mi_direction := kReverse\<rparr>)"
  have "wrapper_on on (cs[?j := c] ! l) (share own l es) (pos_before (share_before own l n es))" if "l < length cs" for l
    using cs(3) c(2) o(4) that by (cases "l = ?j") (auto simp: children_at_def share_before_Suc dest: spec [of _ l])
  then have "children_at on own es (\<lambda>l. pos_before (share_before own l n es)) (cs[?j := c])" by (simp add: children_at_def)
  then have "merge_on ok cmp on ?m es (pos_before n)"
    by (intro merge_backward [OF o(1,2), of own "cs[?j := c]"]) (use o(3,4) cs(2) in \<open>simp_all add: FindLargest_def\<close>)
  then show ?thesis using o(5,6,8) cs(1,2) c(1) by (cases "mi_direction m") (simp_all add: MI_Prev_def nth_opt_def)
qed

lemma status_loop_OK: "\<forall>s \<in> set ss. s = OK \<Longrightarrow> status_loop ss OK = OK"
  by (induction ss) auto

lemma MI_status_on:
  assumes "merge_on ok cmp on m es p"
  shows "MI_status ops m = OK"
proof -
  obtain own P where o: "children_at on own es P (mi_children m)" by (rule merge_children [OF assms])
  have "io_status ops (iw_iter c) = OK" if "c \<in> set (mi_children m)" for c
    using o that on_status by (fastforce simp: children_at_def wrapper_on_def in_set_conv_nth)
  then show ?thesis unfolding MI_status_def by (intro status_loop_OK) auto
qed

text \<open>So it is an iterator again.\<close>

lemma merging_iterator: "iterator_over ok cmp (MergingIterator_ops cmp ops) (merge_on ok cmp on)"
proof (unfold_locales, goal_cases)
  case (1 m es p)
  then show ?case by (simp add: merge_on_def)
next
  case (2 m es p)
  then show ?case by (cases p) (auto simp: merge_on_def MergingIterator_ops_def MI_Valid_def)
next
  case (3 m es n)
  then obtain own where o: "n < length es" "mi_current m = Some (own (es ! n))" "own (es ! n) < length (mi_children m)"
      "iw_key (mi_children m ! own (es ! n)) = fst (es ! n)" "children_at on own es (merge_position (mi_direction m) own es n) (mi_children m)"
    by (auto elim: merge_at)
  have "wrapper_on on (mi_children m ! own (es ! n)) (share own (own (es ! n)) es) (Some (share_before own (own (es ! n)) n es))"
    using o(3,5) merge_position_current [OF o(1)] by (auto simp: children_at_def)
  then have "io_value ops (iw_iter (mi_children m ! own (es ! n))) = Some (snd (es ! n))"
    using on_entry share_nth(2) [OF o(1) refl, of own] by (auto simp: wrapper_on_def)
  then show ?case using o by (simp add: MergingIterator_ops_def MI_key_def MI_value_def nth_opt_def)
next
  case (4 m es p)
  then show ?case by (simp add: MergingIterator_ops_def MI_status_on)
next
  case (5 m es p)
  then show ?case by (simp add: MergingIterator_ops_def MI_SeekToFirst_on)
next
  case (6 m es p)
  then show ?case by (simp add: MergingIterator_ops_def MI_SeekToLast_on)
next
  case (7 m es p k)
  then show ?case by (simp add: MergingIterator_ops_def MI_Seek_on)
next
  case (8 m es n)
  then show ?case by (simp add: MergingIterator_ops_def MI_Next_on)
next
  case (9 m es n)
  then show ?case by (simp add: MergingIterator_ops_def MI_Prev_on)
qed

text \<open>A new iterator over iterators that run over sorted lists, when no key is in two of them.\<close>

lemma ascending_unique:
  assumes "ascending cmp xs" "ascending cmp ys" "list_all (ok \<circ> fst) xs" "set xs = set ys"
  shows "xs = ys"
  using assms
proof (induction xs arbitrary: ys)
  case (Cons x xs)
  then obtain y ys' where y: "ys = y # ys'" by (cases ys) auto
  have v: "ok (fst e)" if "e \<in> insert y (set ys')" for e using Cons.prems(3,4) that unfolding y by (auto simp: list_all_iff)
  have less: "cmp (fst x) (fst e) < 0" if "e \<in> set xs" for e using Cons.prems(1) that by (simp add: ascending_def)
  have less': "cmp (fst y) (fst e) < 0" if "e \<in> set ys'" for e using Cons.prems(2) that by (simp add: ascending_def y)
  have x: "x \<in> insert y (set ys')" "y \<in> insert x (set xs)" using Cons.prems(4) y by auto
  have "x = y"
  proof (rule ccontr)
    assume "x \<noteq> y"
    then have "cmp (fst x) (fst y) < 0" "cmp (fst y) (fst x) < 0" using x less less' by auto
    then show False using cmp_swap [OF v [of x] v [of y]] x by auto
  qed
  have "x \<notin> set xs" "y \<notin> set ys'" using less less' cmp_refl v x(1) by (metis insertI1 less_irrefl)+
  then have "set xs = set ys'" using Cons.prems(4) \<open>x = y\<close> y by auto
  then show ?case using Cons.IH [of ys'] Cons.prems(1-3) y \<open>x = y\<close> by (simp add: ascending_def)
qed simp

lemma shares:
  assumes "ascending cmp es" "list_all (ok \<circ> fst) es" "mset es = mset (concat ess)" "list_all (ascending cmp) ess"
  shows "\<exists>own. (\<forall>e \<in> set es. own e < length ess) \<and> (\<forall>l < length ess. share own l es = ess ! l)"
proof -
  define own where "own e = (LEAST l. l < length ess \<and> e \<in> set (ess ! l))" for e
  have s: "set es = set (concat ess)" by (rule mset_eq_setD [OF assms(3)])
  have d: "distinct (concat ess)" using mset_eq_imp_distinct_iff [OF assms(3)] ascending_distinct [OF assms(1,2)] by simp
  have own: "own e < length ess \<and> e \<in> set (ess ! own e)" if e: "e \<in> set es" for e
  proof -
    have "\<exists>l. l < length ess \<and> e \<in> set (ess ! l)" using e unfolding s in_concat_nth by blast
    then show ?thesis unfolding own_def by (rule LeastI_ex)
  qed
  have one: "own e = l" if "e \<in> set es" "l < length ess" "e \<in> set (ess ! l)" for e l
    using own [OF that(1)] that(2,3) distinct_concat_disjoint [OF d] by (metis disjoint_iff linorder_neqE_nat)
  have "share own l es = ess ! l" if l: "l < length ess" for l
  proof (rule ascending_unique)
    show "ascending cmp (share own l es)" unfolding share_def by (rule ascending_filter [OF assms(1)])
    show "ascending cmp (ess ! l)" using assms(4) l by (simp add: list_all_length)
    show "list_all (ok \<circ> fst) (share own l es)" using assms(2) by (auto simp: share_def list_all_iff)
    have "e \<in> set es" if "e \<in> set (ess ! l)" for e using that l unfolding s in_concat_nth by blast
    then show "set (share own l es) = set (ess ! l)" using own one [OF _ l] unfolding share_def set_filter by blast
  qed
  then show ?thesis using own by blast
qed

lemma new_MergingIterator_on:
  assumes "list_all2 (\<lambda>i es. \<exists>p. on i es p) children ess" "ascending cmp es" "mset es = mset (concat ess)"
  shows "\<exists>m. new_MergingIterator ops children = Some m \<and> merge_on ok cmp on m es None"
proof -
  have on_l: "\<exists>p. on (children ! l) (ess ! l) p" if "l < length children" for l using assms(1) that by (simp add: list_all2_conv_all_nth)
  have len: "length children = length ess" using assms(1) by (rule list_all2_lengthD)
  have lists: "list_all (ok \<circ> fst) (ess ! l)" "ascending cmp (ess ! l)" if "l < length ess" for l using on_l [of l] on_list that len by auto
  have "list_all (ok \<circ> fst) es"
    using mset_eq_setD [OF assms(3)] lists(1) in_concat_nth [of _ ess] unfolding list_all_iff by fastforce
  then obtain own where own: "\<forall>e \<in> set es. own e < length ess" "\<forall>l < length ess. share own l es = ess ! l"
    using shares [OF assms(2) _ assms(3)] lists(2) by (auto simp: list_all_length)
  have "\<forall>l < length children. \<exists>w. IW_Set ops (children ! l) = Some w \<and> (\<exists>p. wrapper_on on w (share own l es) p)"
  proof (intro allI impI)
    fix l assume l: "l < length children"
    then obtain p where "on (children ! l) (ess ! l) p" using on_l by blast
    then show "\<exists>w. IW_Set ops (children ! l) = Some w \<and> (\<exists>p. wrapper_on on w (share own l es) p)"
      using IW_Update_on [of "\<lparr>iw_iter = children ! l, iw_valid = False, iw_key = []\<rparr>" "ess ! l" p] own(2) l len by (auto simp: IW_Set_def)
  qed
  then obtain cs where cs: "each_child (IW_Set ops) children = Some cs" "length cs = length children" "\<forall>l < length children. \<exists>p. wrapper_on on (cs ! l) (share own l es) p"
    using each_child_ok [of children "IW_Set ops" "\<lambda>l w. \<exists>p. wrapper_on on w (share own l es) p"] by blast
  then obtain P where "children_at on own es P cs" unfolding children_at_def by metis
  then show ?thesis using cs(1,2) own(1) len assms(2) \<open>list_all (ok \<circ> fst) es\<close> by (auto simp: new_MergingIterator_def merge_on_def)
qed

end

end
