(* ===== verification/Ldb_Version_Edit.thy ===== *)
theory Ldb_Version_Edit
  imports Ldb_Coding Ldb_Env
begin

text \<open>
  Version edits (\<^verbatim>\<open>db/version_edit.h\<close>, \<^verbatim>\<open>db/version_edit.cc\<close>): the records of the manifest, which say what tables a new version of the database
  has.  Internal keys are their byte strings; the ordered set of deleted files is its ascending list.
\<close>

subsection \<open>Edits\<close>

record FileMetaData =
  fm_refs :: int
  fm_allowed_seeks :: int
  fm_number :: uint64
  fm_file_size :: uint64
  fm_smallest :: "byte list"
  fm_largest :: "byte list"

definition new_FileMetaData :: "uint64 \<Rightarrow> uint64 \<Rightarrow> byte list \<Rightarrow> byte list \<Rightarrow> FileMetaData" where
  "new_FileMetaData number file_size smallest largest =
     \<lparr>fm_refs = 0, fm_allowed_seeks = 2 ^ 30, fm_number = number, fm_file_size = file_size, fm_smallest = smallest, fm_largest = largest\<rparr>"

record VersionEdit =
  ve_comparator :: "byte list"
  ve_log_number :: uint64
  ve_prev_log_number :: uint64
  ve_next_file_number :: uint64
  ve_last_sequence :: uint64
  ve_has_comparator :: bool
  ve_has_log_number :: bool
  ve_has_prev_log_number :: bool
  ve_has_next_file_number :: bool
  ve_has_last_sequence :: bool
  ve_compact_pointers :: "(nat \<times> byte list) list"
  ve_deleted_files :: "(nat \<times> uint64) list"
  ve_new_files :: "(nat \<times> FileMetaData) list"

definition Edit_Clear :: "VersionEdit \<Rightarrow> VersionEdit" where
  "Edit_Clear e =
     e\<lparr>ve_comparator := [], ve_log_number := 0, ve_prev_log_number := 0, ve_last_sequence := 0, ve_next_file_number := 0,
       ve_has_comparator := False, ve_has_log_number := False, ve_has_prev_log_number := False, ve_has_next_file_number := False,
       ve_has_last_sequence := False, ve_deleted_files := [], ve_new_files := []\<rparr>"

definition new_VersionEdit :: VersionEdit where
  "new_VersionEdit =
     \<lparr>ve_comparator = [], ve_log_number = 0, ve_prev_log_number = 0, ve_next_file_number = 0, ve_last_sequence = 0,
      ve_has_comparator = False, ve_has_log_number = False, ve_has_prev_log_number = False, ve_has_next_file_number = False,
      ve_has_last_sequence = False, ve_compact_pointers = [], ve_deleted_files = [], ve_new_files = []\<rparr>"

definition SetComparatorName :: "byte list \<Rightarrow> VersionEdit \<Rightarrow> VersionEdit" where
  "SetComparatorName name e = e\<lparr>ve_has_comparator := True, ve_comparator := name\<rparr>"

definition SetLogNumber :: "uint64 \<Rightarrow> VersionEdit \<Rightarrow> VersionEdit" where
  "SetLogNumber num e = e\<lparr>ve_has_log_number := True, ve_log_number := num\<rparr>"

definition SetPrevLogNumber :: "uint64 \<Rightarrow> VersionEdit \<Rightarrow> VersionEdit" where
  "SetPrevLogNumber num e = e\<lparr>ve_has_prev_log_number := True, ve_prev_log_number := num\<rparr>"

definition SetNextFile :: "uint64 \<Rightarrow> VersionEdit \<Rightarrow> VersionEdit" where
  "SetNextFile num e = e\<lparr>ve_has_next_file_number := True, ve_next_file_number := num\<rparr>"

definition SetLastSequence :: "uint64 \<Rightarrow> VersionEdit \<Rightarrow> VersionEdit" where
  "SetLastSequence seq e = e\<lparr>ve_has_last_sequence := True, ve_last_sequence := seq\<rparr>"

definition SetCompactPointer :: "nat \<Rightarrow> byte list \<Rightarrow> VersionEdit \<Rightarrow> VersionEdit" where
  "SetCompactPointer level key e = e\<lparr>ve_compact_pointers := ve_compact_pointers e @ [(level, key)]\<rparr>"

definition Edit_AddFile :: "nat \<Rightarrow> uint64 \<Rightarrow> uint64 \<Rightarrow> byte list \<Rightarrow> byte list \<Rightarrow> VersionEdit \<Rightarrow> VersionEdit" where
  "Edit_AddFile level number file_size smallest largest e =
     e\<lparr>ve_new_files := ve_new_files e @ [(level, new_FileMetaData number file_size smallest largest)]\<rparr>"

text \<open>The order of the set of deleted files, and insertion.\<close>

definition pair_less :: "nat \<times> uint64 \<Rightarrow> nat \<times> uint64 \<Rightarrow> bool" where
  "pair_less a b \<longleftrightarrow> fst a < fst b \<or> fst a = fst b \<and> snd a < snd b"

fun set_insert :: "nat \<times> uint64 \<Rightarrow> (nat \<times> uint64) list \<Rightarrow> (nat \<times> uint64) list" where
  "set_insert x [] = [x]"
| "set_insert x (y # ys) = (if pair_less x y then x # y # ys else if pair_less y x then y # set_insert x ys else y # ys)"

definition Edit_DeleteFile :: "nat \<Rightarrow> uint64 \<Rightarrow> VersionEdit \<Rightarrow> VersionEdit" where
  "Edit_DeleteFile level number e = e\<lparr>ve_deleted_files := set_insert (level, number) (ve_deleted_files e)\<rparr>"

subsection \<open>Encoding\<close>

definition kComparator :: uint32 where "kComparator = 1"

definition kLogNumber :: uint32 where "kLogNumber = 2"

definition kNextFileNumber :: uint32 where "kNextFileNumber = 3"

definition kLastSequence :: uint32 where "kLastSequence = 4"

definition kCompactPointer :: uint32 where "kCompactPointer = 5"

definition kDeletedFile :: uint32 where "kDeletedFile = 6"

definition kNewFile :: uint32 where "kNewFile = 7"

definition kPrevLogNumber :: uint32 where "kPrevLogNumber = 9"

lemmas edit_tags = kComparator_def kLogNumber_def kNextFileNumber_def kLastSequence_def kCompactPointer_def kDeletedFile_def kNewFile_def
  kPrevLogNumber_def

definition kNumLevels :: nat where "kNumLevels = 7"

definition EncodeTo :: "VersionEdit \<Rightarrow> byte list \<Rightarrow> byte list" where
  "EncodeTo e dst =
     (let dst = (if ve_has_comparator e then PutLengthPrefixedSlice (PutVarint32 dst kComparator) (ve_comparator e) else dst);
          dst = (if ve_has_log_number e then PutVarint64 (PutVarint32 dst kLogNumber) (ve_log_number e) else dst);
          dst = (if ve_has_prev_log_number e then PutVarint64 (PutVarint32 dst kPrevLogNumber) (ve_prev_log_number e) else dst);
          dst = (if ve_has_next_file_number e then PutVarint64 (PutVarint32 dst kNextFileNumber) (ve_next_file_number e) else dst);
          dst = (if ve_has_last_sequence e then PutVarint64 (PutVarint32 dst kLastSequence) (ve_last_sequence e) else dst);
          dst = foldl (\<lambda>dst (level, key).
                  PutLengthPrefixedSlice (PutVarint32 (PutVarint32 dst kCompactPointer) (of_nat level)) key) dst (ve_compact_pointers e);
          dst = foldl (\<lambda>dst (level, number). PutVarint64 (PutVarint32 (PutVarint32 dst kDeletedFile) (of_nat level)) number) dst
                  (ve_deleted_files e)
      in foldl (\<lambda>dst (level, f).
           PutLengthPrefixedSlice (PutLengthPrefixedSlice
             (PutVarint64 (PutVarint64 (PutVarint32 (PutVarint32 dst kNewFile) (of_nat level)) (fm_number f)) (fm_file_size f))
             (fm_smallest f)) (fm_largest f)) dst (ve_new_files e))"

subsection \<open>Decoding\<close>

definition GetInternalKey :: "byte list \<Rightarrow> (byte list \<times> byte list) option" where
  "GetInternalKey input = (case GetLengthPrefixedSlice input of (Some str, input) \<Rightarrow> Some (str, input) | _ \<Rightarrow> None)"

definition GetLevel :: "byte list \<Rightarrow> (nat \<times> byte list) option" where
  "GetLevel input = (case GetVarint32 input of (Some v, input) \<Rightarrow> if unat v < kNumLevels then Some (unat v, input) else None | _ \<Rightarrow> None)"

definition get_number :: "byte list \<Rightarrow> (uint64 \<times> byte list) option" where
  "get_number input = (case GetVarint64 input of (Some v, input) \<Rightarrow> Some (v, input) | _ \<Rightarrow> None)"

text \<open>One round of the loop of \<^verbatim>\<open>DecodeFrom\<close>: the message of the error, or the edit with the field and the rest of the input.\<close>

definition decode_edit_field :: "uint32 \<Rightarrow> VersionEdit \<Rightarrow> byte list \<Rightarrow> string + (VersionEdit \<times> byte list)" where
  "decode_edit_field tag e input =
     (if tag = kComparator
      then (case GetInternalKey input of
              Some (str, input) \<Rightarrow> Inr (e\<lparr>ve_comparator := str, ve_has_comparator := True\<rparr>, input)
            | None \<Rightarrow> Inl ''comparator name'')
      else if tag = kLogNumber
      then (case get_number input of
              Some (n, input) \<Rightarrow> Inr (e\<lparr>ve_log_number := n, ve_has_log_number := True\<rparr>, input)
            | None \<Rightarrow> Inl ''log number'')
      else if tag = kPrevLogNumber
      then (case get_number input of
              Some (n, input) \<Rightarrow> Inr (e\<lparr>ve_prev_log_number := n, ve_has_prev_log_number := True\<rparr>, input)
            | None \<Rightarrow> Inl ''previous log number'')
      else if tag = kNextFileNumber
      then (case get_number input of
              Some (n, input) \<Rightarrow> Inr (e\<lparr>ve_next_file_number := n, ve_has_next_file_number := True\<rparr>, input)
            | None \<Rightarrow> Inl ''next file number'')
      else if tag = kLastSequence
      then (case get_number input of
              Some (n, input) \<Rightarrow> Inr (e\<lparr>ve_last_sequence := n, ve_has_last_sequence := True\<rparr>, input)
            | None \<Rightarrow> Inl ''last sequence number'')
      else if tag = kCompactPointer
      then (case do { (level, input) \<leftarrow> GetLevel input; (key, input) \<leftarrow> GetInternalKey input; Some (level, key, input) } of
              Some (level, key, input) \<Rightarrow> Inr (e\<lparr>ve_compact_pointers := ve_compact_pointers e @ [(level, key)]\<rparr>, input)
            | None \<Rightarrow> Inl ''compaction pointer'')
      else if tag = kDeletedFile
      then (case do { (level, input) \<leftarrow> GetLevel input; (number, input) \<leftarrow> get_number input; Some (level, number, input) } of
              Some (level, number, input) \<Rightarrow> Inr (e\<lparr>ve_deleted_files := set_insert (level, number) (ve_deleted_files e)\<rparr>, input)
            | None \<Rightarrow> Inl ''deleted file'')
      else if tag = kNewFile
      then (case do { (level, input) \<leftarrow> GetLevel input; (number, input) \<leftarrow> get_number input; (sz, input) \<leftarrow> get_number input;
                      (smallest, input) \<leftarrow> GetInternalKey input; (largest, input) \<leftarrow> GetInternalKey input;
                      Some (level, new_FileMetaData number sz smallest largest, input) } of
              Some (level, f, input) \<Rightarrow> Inr (e\<lparr>ve_new_files := ve_new_files e @ [(level, f)]\<rparr>, input)
            | None \<Rightarrow> Inl ''new-file entry'')
      else Inl ''unknown tag'')"

lemma GetLevel_shorter: "GetLevel p = Some (v, q) \<Longrightarrow> length q \<le> length p"
  by (auto simp: GetLevel_def GetVarint32_def split: option.splits if_splits dest!: GetVarint32Ptr_shorter)

lemma get_number_shorter: "get_number p = Some (v, q) \<Longrightarrow> length q \<le> length p"
  by (auto simp: get_number_def GetVarint64_def GetVarint64Ptr_def split: option.splits dest!: varint64_loop_shorter)

lemma GetInternalKey_shorter: "GetInternalKey p = Some (v, q) \<Longrightarrow> length q \<le> length p"
  by (auto simp: GetInternalKey_def split: prod.splits option.splits dest!: GetLengthPrefixedSlice_le)

lemma decode_edit_field_shorter: "decode_edit_field tag e p = Inr (e', q) \<Longrightarrow> length q \<le> length p"
  by (auto simp: decode_edit_field_def split: if_splits option.splits bind_splits
      dest!: GetLevel_shorter get_number_shorter GetInternalKey_shorter)

function edit_loop :: "VersionEdit \<Rightarrow> byte list \<Rightarrow> string option \<times> VersionEdit \<times> byte list" where
  "edit_loop e input =
     (case GetVarint32 input of
        (None, input) \<Rightarrow> (None, e, input)
      | (Some tag, input) \<Rightarrow>
          (case decode_edit_field tag e input of
             Inl msg \<Rightarrow> (Some msg, e, input)
           | Inr (e, input) \<Rightarrow> edit_loop e input))"
  by pat_completeness auto
termination
  by (relation "measure (\<lambda>(e, input). length input)")
    (auto simp: GetVarint32_def split: option.splits dest!: GetVarint32Ptr_shorter decode_edit_field_shorter)

declare edit_loop.simps [simp del]

definition Edit_DecodeFrom :: "VersionEdit \<Rightarrow> byte list \<Rightarrow> Status \<times> VersionEdit" where
  "Edit_DecodeFrom e src =
     (let (msg, e, input) = edit_loop (Edit_Clear e) src;
          msg = (if msg = None \<and> input \<noteq> [] then Some ''invalid tag'' else msg)
      in (case msg of None \<Rightarrow> OK | Some m \<Rightarrow> Corruption (''VersionEdit: '' @ m), e))"

subsection \<open>Reading back\<close>

abbreviation slice_bytes :: "byte list \<Rightarrow> byte list" where
  "slice_bytes \<equiv> PutLengthPrefixedSlice []"

fun pointer_bytes :: "nat \<times> byte list \<Rightarrow> byte list" where
  "pointer_bytes (level, key) = EncodeVarint32 kCompactPointer @ EncodeVarint32 (of_nat level) @ slice_bytes key"

fun deleted_bytes :: "nat \<times> uint64 \<Rightarrow> byte list" where
  "deleted_bytes (level, number) = EncodeVarint32 kDeletedFile @ EncodeVarint32 (of_nat level) @ EncodeVarint64 number"

fun new_file_bytes :: "nat \<times> FileMetaData \<Rightarrow> byte list" where
  "new_file_bytes (level, f) =
     EncodeVarint32 kNewFile @ EncodeVarint32 (of_nat level) @ EncodeVarint64 (fm_number f) @ EncodeVarint64 (fm_file_size f) @
     slice_bytes (fm_smallest f) @ slice_bytes (fm_largest f)"

definition number_bytes :: "bool \<Rightarrow> uint32 \<Rightarrow> uint64 \<Rightarrow> byte list" where
  "number_bytes has tag n = (if has then EncodeVarint32 tag @ EncodeVarint64 n else [])"

lemma foldl_appends: "(\<And>dst x. g dst x = dst @ f x) \<Longrightarrow> foldl g dst xs = dst @ concat (map f xs)"
  by (induction xs arbitrary: dst) simp_all

lemma EncodeTo_bytes:
  "EncodeTo e [] =
     (if ve_has_comparator e then EncodeVarint32 kComparator @ slice_bytes (ve_comparator e) else []) @
     number_bytes (ve_has_log_number e) kLogNumber (ve_log_number e) @
     number_bytes (ve_has_prev_log_number e) kPrevLogNumber (ve_prev_log_number e) @
     number_bytes (ve_has_next_file_number e) kNextFileNumber (ve_next_file_number e) @
     number_bytes (ve_has_last_sequence e) kLastSequence (ve_last_sequence e) @
     concat (map pointer_bytes (ve_compact_pointers e)) @ concat (map deleted_bytes (ve_deleted_files e)) @
     concat (map new_file_bytes (ve_new_files e))"
proof -
  have p: "foldl (\<lambda>dst (level, key). PutLengthPrefixedSlice (PutVarint32 (PutVarint32 dst kCompactPointer) (of_nat level)) key) dst xs =
      dst @ concat (map pointer_bytes xs)" for dst xs
    by (rule foldl_appends) (auto simp: PutVarint32_def PutLengthPrefixedSlice_def)
  have d: "foldl (\<lambda>dst (level, number). PutVarint64 (PutVarint32 (PutVarint32 dst kDeletedFile) (of_nat level)) number) dst xs =
      dst @ concat (map deleted_bytes xs)" for dst xs
    by (rule foldl_appends) (auto simp: PutVarint32_def PutVarint64_def)
  have n: "foldl (\<lambda>dst (level, f). PutLengthPrefixedSlice (PutLengthPrefixedSlice
        (PutVarint64 (PutVarint64 (PutVarint32 (PutVarint32 dst kNewFile) (of_nat level)) (fm_number f)) (fm_file_size f))
        (fm_smallest f)) (fm_largest f)) dst xs = dst @ concat (map new_file_bytes xs)" for dst xs
    by (rule foldl_appends) (auto simp: PutVarint32_def PutVarint64_def PutLengthPrefixedSlice_def)
  show ?thesis
    unfolding EncodeTo_def Let_def p d n by (simp add: number_bytes_def PutVarint64_def PutVarint32_def PutLengthPrefixedSlice_def)
qed

lemma GetInternalKey_bytes: "slice_fits s \<Longrightarrow> GetInternalKey (slice_bytes s @ q) = Some (s, q)"
  by (simp add: GetInternalKey_def GetLengthPrefixedSlice_codec)

lemma get_number_bytes: "get_number (EncodeVarint64 n @ q) = Some (n, q)"
  by (simp add: get_number_def GetVarint64_codec)

lemma GetLevel_bytes: "level < kNumLevels \<Longrightarrow> GetLevel (EncodeVarint32 (of_nat level) @ q) = Some (level, q)"
  by (simp add: GetLevel_def GetVarint32_codec kNumLevels_def unat_of_nat_small)

lemma edit_loop_tag:
  "edit_loop e (EncodeVarint32 tag @ q) =
     (case decode_edit_field tag e q of Inl msg \<Rightarrow> (Some msg, e, q) | Inr (e, q) \<Rightarrow> edit_loop e q)"
  by (simp add: edit_loop.simps [of e] GetVarint32_codec)

lemmas edit_field_bytes = edit_loop_tag decode_edit_field_def edit_tags GetInternalKey_bytes get_number_bytes GetLevel_bytes

lemma edit_loop_numbers:
  "edit_loop e (number_bytes has kLogNumber n @ q) = edit_loop (if has then e\<lparr>ve_log_number := n, ve_has_log_number := True\<rparr> else e) q"
  "edit_loop e (number_bytes has kPrevLogNumber n @ q) = edit_loop (if has then e\<lparr>ve_prev_log_number := n, ve_has_prev_log_number := True\<rparr> else e) q"
  "edit_loop e (number_bytes has kNextFileNumber n @ q) = edit_loop (if has then e\<lparr>ve_next_file_number := n, ve_has_next_file_number := True\<rparr> else e) q"
  "edit_loop e (number_bytes has kLastSequence n @ q) = edit_loop (if has then e\<lparr>ve_last_sequence := n, ve_has_last_sequence := True\<rparr> else e) q"
  by (simp_all add: number_bytes_def edit_field_bytes)

lemma edit_loop_pointers:
  "list_all (\<lambda>(level, key). level < kNumLevels \<and> slice_fits key) ps \<Longrightarrow>
     edit_loop e (concat (map pointer_bytes ps) @ q) = edit_loop (e\<lparr>ve_compact_pointers := ve_compact_pointers e @ ps\<rparr>) q"
  by (induction ps arbitrary: e) (auto simp: edit_field_bytes)

lemma set_insert_last: "list_all (\<lambda>y. pair_less y x) ys \<Longrightarrow> set_insert x ys = ys @ [x]"
  by (induction ys) (auto simp: pair_less_def)

lemma edit_loop_deleted:
  "list_all (\<lambda>(level, _). level < kNumLevels) ds \<Longrightarrow> sorted_wrt pair_less (ve_deleted_files e @ ds) \<Longrightarrow>
     edit_loop e (concat (map deleted_bytes ds) @ q) = edit_loop (e\<lparr>ve_deleted_files := ve_deleted_files e @ ds\<rparr>) q"
proof (induction ds arbitrary: e)
  case (Cons d ds)
  obtain level number where d: "d = (level, number)" by fastforce
  have "set_insert d (ve_deleted_files e) = ve_deleted_files e @ [d]"
    using Cons.prems(2) by (intro set_insert_last) (auto simp: sorted_wrt_append list_all_iff)
  then show ?case using Cons.IH [of "e\<lparr>ve_deleted_files := ve_deleted_files e @ [d]\<rparr>"] Cons.prems d by (simp add: edit_field_bytes)
qed simp

definition file_ok :: "nat \<times> FileMetaData \<Rightarrow> bool" where
  "file_ok lf \<longleftrightarrow> fst lf < kNumLevels \<and> slice_fits (fm_smallest (snd lf)) \<and> slice_fits (fm_largest (snd lf)) \<and>
     fm_refs (snd lf) = 0 \<and> fm_allowed_seeks (snd lf) = 2 ^ 30"

lemma edit_loop_new_files:
  "list_all file_ok fs \<Longrightarrow>
     edit_loop e (concat (map new_file_bytes fs) @ q) = edit_loop (e\<lparr>ve_new_files := ve_new_files e @ fs\<rparr>) q"
proof (induction fs arbitrary: e)
  case (Cons f fs)
  obtain level m where f: "f = (level, m)" by fastforce
  have "new_FileMetaData (fm_number m) (fm_file_size m) (fm_smallest m) (fm_largest m) = m"
    using Cons.prems f by (simp add: file_ok_def new_FileMetaData_def)
  then show ?case using Cons.IH [of "e\<lparr>ve_new_files := ve_new_files e @ [f]\<rparr>"] Cons.prems f by (simp add: edit_field_bytes file_ok_def)
qed simp

text \<open>Edits as the setters make them.\<close>

definition edit_ok :: "VersionEdit \<Rightarrow> bool" where
  "edit_ok e \<longleftrightarrow>
     slice_fits (ve_comparator e) \<and> (ve_has_comparator e \<or> ve_comparator e = []) \<and>
     (ve_has_log_number e \<or> ve_log_number e = 0) \<and> (ve_has_prev_log_number e \<or> ve_prev_log_number e = 0) \<and>
     (ve_has_next_file_number e \<or> ve_next_file_number e = 0) \<and> (ve_has_last_sequence e \<or> ve_last_sequence e = 0) \<and>
     list_all (\<lambda>(level, key). level < kNumLevels \<and> slice_fits key) (ve_compact_pointers e) \<and>
     list_all (\<lambda>(level, _). level < kNumLevels) (ve_deleted_files e) \<and> sorted_wrt pair_less (ve_deleted_files e) \<and>
     list_all file_ok (ve_new_files e)"

lemma edit_roundtrip:
  assumes "edit_ok e"
  shows "Edit_DecodeFrom e0 (EncodeTo e []) = (OK, e\<lparr>ve_compact_pointers := ve_compact_pointers e0 @ ve_compact_pointers e\<rparr>)"
proof -
  have ok: "list_all (\<lambda>(level, key). level < kNumLevels \<and> slice_fits key) (ve_compact_pointers e)"
      "list_all (\<lambda>(level, _). level < kNumLevels) (ve_deleted_files e)" "sorted_wrt pair_less (ve_deleted_files e)" "list_all file_ok (ve_new_files e)"
    using assms by (simp_all add: edit_ok_def)
  have c: "edit_loop e1 ((if ve_has_comparator e then EncodeVarint32 kComparator @ slice_bytes (ve_comparator e) else []) @ q) =
      edit_loop (if ve_has_comparator e then e1\<lparr>ve_comparator := ve_comparator e, ve_has_comparator := True\<rparr> else e1) q" for e1 q
    using assms by (simp add: edit_field_bytes edit_ok_def)
  have nil: "edit_loop e1 [] = (None, e1, [])" for e1
    by (simp add: edit_loop.simps GetVarint32_def GetVarint32Ptr_def GetVarint32PtrFallback_def)
  have n: "edit_loop e1 (concat (map new_file_bytes (ve_new_files e))) = (None, e1\<lparr>ve_new_files := ve_new_files e1 @ ve_new_files e\<rparr>, [])" for e1
    using edit_loop_new_files [OF ok(4), of e1 "[]"] nil by simp
  have "edit_loop (Edit_Clear e0) (EncodeTo e []) = (None, e\<lparr>ve_compact_pointers := ve_compact_pointers e0 @ ve_compact_pointers e\<rparr>, [])"
    unfolding EncodeTo_bytes c edit_loop_numbers edit_loop_pointers [OF ok(1)]
    using assms ok(2,3)
    by (subst edit_loop_deleted) (auto simp: n Edit_Clear_def edit_ok_def intro: VersionEdit.equality)
  then show ?thesis by (simp add: Edit_DecodeFrom_def)
qed

datatype edit_op =
    OpComparator "byte list" | OpLog uint64 | OpPrevLog uint64 | OpNextFile uint64 | OpLastSequence uint64
  | OpPointer nat "byte list" | OpDelete nat uint64 | OpAdd nat uint64 uint64 "byte list" "byte list"

primrec run_op :: "edit_op \<Rightarrow> VersionEdit \<Rightarrow> VersionEdit" where
  "run_op (OpComparator s) = SetComparatorName s"
| "run_op (OpLog n) = SetLogNumber n"
| "run_op (OpPrevLog n) = SetPrevLogNumber n"
| "run_op (OpNextFile n) = SetNextFile n"
| "run_op (OpLastSequence n) = SetLastSequence n"
| "run_op (OpPointer l k) = SetCompactPointer l k"
| "run_op (OpDelete l n) = Edit_DeleteFile l n"
| "run_op (OpAdd l n sz a b) = Edit_AddFile l n sz a b"

fun op_ok :: "edit_op \<Rightarrow> bool" where
  "op_ok (OpComparator s) = slice_fits s"
| "op_ok (OpPointer l k) = (l < kNumLevels \<and> slice_fits k)"
| "op_ok (OpDelete l n) = (l < kNumLevels)"
| "op_ok (OpAdd l n sz a b) = (l < kNumLevels \<and> slice_fits a \<and> slice_fits b)"
| "op_ok _ = True"

lemma set_set_insert: "set (set_insert x ys) = insert x (set ys)"
  by (induction ys) (auto simp: pair_less_def)

lemma sorted_set_insert: "sorted_wrt pair_less ys \<Longrightarrow> sorted_wrt pair_less (set_insert x ys)"
  by (induction ys) (auto simp: set_set_insert pair_less_def)

lemma run_op_ok: "op_ok x \<Longrightarrow> edit_ok e \<Longrightarrow> edit_ok (run_op x e)"
  by (cases x)
    (auto simp: edit_ok_def SetComparatorName_def SetLogNumber_def SetPrevLogNumber_def SetNextFile_def SetLastSequence_def SetCompactPointer_def
      Edit_DeleteFile_def Edit_AddFile_def new_FileMetaData_def file_ok_def set_set_insert list_all_iff sorted_set_insert)

lemma run_ops_ok: "list_all op_ok xs \<Longrightarrow> edit_ok e \<Longrightarrow> edit_ok (fold run_op xs e)"
  by (induction xs arbitrary: e) (simp_all add: run_op_ok)

subsection \<open>Properties\<close>

text \<open>
  (C18) The manifest reads back: an edit that was made by any sequence of setters is decoded from its encoding exactly, with status \<^verbatim>\<open>OK\<close>.  Decoding into
  an edit that was used before gives the same, except that its compaction pointers stay in front of the decoded ones, since \<^verbatim>\<open>Clear\<close> does not reset them.
\<close>

theorem version_edit_roundtrip:
  assumes "list_all op_ok xs"
  shows "let e = fold run_op xs new_VersionEdit
    in Edit_DecodeFrom new_VersionEdit (EncodeTo e []) = (OK, e) \<and>
       Edit_DecodeFrom used (EncodeTo e []) = (OK, e\<lparr>ve_compact_pointers := ve_compact_pointers used @ ve_compact_pointers e\<rparr>)"
proof -
  have "edit_ok new_VersionEdit" by (simp add: edit_ok_def new_VersionEdit_def slice_fits_def)
  then have "edit_ok (fold run_op xs new_VersionEdit)" using run_ops_ok [OF assms] by blast
  from edit_roundtrip [OF this] show ?thesis by (simp add: Let_def new_VersionEdit_def)
qed

theorem version_edit_roundtrip_witness:
  "let e = SetCompactPointer 2 [9] (Edit_DeleteFile 1 4 (Edit_AddFile 2 5 100 [1] [2] (SetLogNumber 7 new_VersionEdit)))
   in Edit_DecodeFrom e (EncodeTo e []) = (OK, e\<lparr>ve_compact_pointers := [(2, [9]), (2, [9])]\<rparr>)"
  using version_edit_roundtrip [of "[OpLog 7, OpAdd 2 5 100 [1] [2], OpDelete 1 4, OpPointer 2 [9]]"
      "fold run_op [OpLog 7, OpAdd 2 5 100 [1] [2], OpDelete 1 4, OpPointer 2 [9]] new_VersionEdit"]
  by (simp add: Let_def kNumLevels_def slice_fits_def SetCompactPointer_def Edit_DeleteFile_def Edit_AddFile_def SetLogNumber_def new_VersionEdit_def)

end
