(* ===== verification/Ldb_Version.thy ===== *)
theory Ldb_Version
  imports Ldb_Version_Edit Ldb_Memtable
begin

text \<open>
  Versions (\<^verbatim>\<open>db/version_set.cc\<close>): the tables of each level, the search of a level, the overlap tests, and \<^verbatim>\<open>Version::Get\<close>.  \<open>cmp\<close> is the user
  comparator.  Pointers to \<^verbatim>\<open>FileMetaData\<close> are the records, a null pointer is \<open>None\<close>; positions in a level, of which there are far fewer
  than \<open>2 ^ 31\<close>, are natural numbers.  A lookup in one table is the parameter \<open>table_get\<close>: the status of \<^verbatim>\<open>TableCache::Get\<close>, and the
  entry that it passes to the callback.
\<close>

subsection \<open>Searching a level\<close>

function find_file_loop :: "(byte list \<Rightarrow> byte list \<Rightarrow> int) \<Rightarrow> FileMetaData list \<Rightarrow> byte list \<Rightarrow> nat \<Rightarrow> nat \<Rightarrow> nat" where
  "find_file_loop cmp files key left right =
     (if left < right
      then (let mid = (left + right) div 2 in
            if InternalCompare cmp (fm_largest (files ! mid)) key < 0
            then find_file_loop cmp files key (mid + 1) right
            else find_file_loop cmp files key left mid)
      else right)"
  by pat_completeness auto
termination
  by (relation "measure (\<lambda>(cmp, files, key, left, right). right - left)") auto

declare find_file_loop.simps [simp del]

definition FindFile :: "(byte list \<Rightarrow> byte list \<Rightarrow> int) \<Rightarrow> FileMetaData list \<Rightarrow> byte list \<Rightarrow> nat" where
  "FindFile cmp files key = find_file_loop cmp files key 0 (length files)"

abbreviation file_start :: "FileMetaData \<Rightarrow> byte list" where
  "file_start f \<equiv> ExtractUserKey (fm_smallest f)"

abbreviation file_limit :: "FileMetaData \<Rightarrow> byte list" where
  "file_limit f \<equiv> ExtractUserKey (fm_largest f)"

definition AfterFile :: "(byte list \<Rightarrow> byte list \<Rightarrow> int) \<Rightarrow> byte list option \<Rightarrow> FileMetaData \<Rightarrow> bool" where
  "AfterFile cmp ukey f = (case ukey of None \<Rightarrow> False | Some k \<Rightarrow> cmp k (file_limit f) > 0)"

definition BeforeFile :: "(byte list \<Rightarrow> byte list \<Rightarrow> int) \<Rightarrow> byte list option \<Rightarrow> FileMetaData \<Rightarrow> bool" where
  "BeforeFile cmp ukey f = (case ukey of None \<Rightarrow> False | Some k \<Rightarrow> cmp k (file_start f) < 0)"

definition start_key :: "byte list \<Rightarrow> byte list" where
  "start_key u = AppendInternalKey [] \<lparr>user_key = u, sequence = kMaxSequenceNumber, key_type = kValueTypeForSeek\<rparr>"

definition SomeFileOverlapsRange ::
  "(byte list \<Rightarrow> byte list \<Rightarrow> int) \<Rightarrow> bool \<Rightarrow> FileMetaData list \<Rightarrow> byte list option \<Rightarrow> byte list option \<Rightarrow> bool" where
  "SomeFileOverlapsRange cmp disjoint_sorted_files files smallest_user_key largest_user_key =
     (if \<not> disjoint_sorted_files
      then list_ex (\<lambda>f. \<not> (AfterFile cmp smallest_user_key f \<or> BeforeFile cmp largest_user_key f)) files
      else (let index = (case smallest_user_key of None \<Rightarrow> 0 | Some k \<Rightarrow> FindFile cmp files (start_key k)) in
            if index \<ge> length files then False
            else \<not> BeforeFile cmp largest_user_key (files ! index)))"

subsection \<open>Versions\<close>

record Version =
  v_files :: "FileMetaData list list"
  v_file_to_compact :: "FileMetaData option"
  v_file_to_compact_level :: int

definition new_Version :: Version where
  "new_Version = \<lparr>v_files = replicate kNumLevels [], v_file_to_compact = None, v_file_to_compact_level = -1\<rparr>"

definition OverlapInLevel :: "(byte list \<Rightarrow> byte list \<Rightarrow> int) \<Rightarrow> Version \<Rightarrow> nat \<Rightarrow> byte list option \<Rightarrow> byte list option \<Rightarrow> bool" where
  "OverlapInLevel cmp v level smallest_user_key largest_user_key =
     SomeFileOverlapsRange cmp (level > 0) (v_files v ! level) smallest_user_key largest_user_key"

text \<open>
  The loop of \<^verbatim>\<open>GetOverlappingInputs\<close>, which on level zero starts again with a wider range when a file sticks out of the range.
\<close>

partial_function (option) overlapping_loop ::
  "(byte list \<Rightarrow> byte list \<Rightarrow> int) \<Rightarrow> nat \<Rightarrow> FileMetaData list \<Rightarrow> nat \<Rightarrow> byte list option \<Rightarrow> byte list option \<Rightarrow> FileMetaData list \<Rightarrow>
   FileMetaData list option" where
  "overlapping_loop cmp level files i user_begin user_end inputs =
     (if i \<ge> length files then Some inputs
      else let f = files ! i in
        if (case user_begin of None \<Rightarrow> False | Some b \<Rightarrow> cmp (file_limit f) b < 0)
        then overlapping_loop cmp level files (i + 1) user_begin user_end inputs
        else if (case user_end of None \<Rightarrow> False | Some e \<Rightarrow> cmp (file_start f) e > 0)
        then overlapping_loop cmp level files (i + 1) user_begin user_end inputs
        else if level = 0 \<and> (case user_begin of None \<Rightarrow> False | Some b \<Rightarrow> cmp (file_start f) b < 0)
        then overlapping_loop cmp level files 0 (Some (file_start f)) user_end []
        else if level = 0 \<and> (case user_end of None \<Rightarrow> False | Some e \<Rightarrow> cmp (file_limit f) e > 0)
        then overlapping_loop cmp level files 0 user_begin (Some (file_limit f)) []
        else overlapping_loop cmp level files (i + 1) user_begin user_end (inputs @ [f]))"

definition GetOverlappingInputs ::
  "(byte list \<Rightarrow> byte list \<Rightarrow> int) \<Rightarrow> Version \<Rightarrow> nat \<Rightarrow> byte list option \<Rightarrow> byte list option \<Rightarrow> FileMetaData list option" where
  "GetOverlappingInputs cmp v level begin_key end_key =
     overlapping_loop cmp level (v_files v ! level) 0 (map_option ExtractUserKey begin_key) (map_option ExtractUserKey end_key) []"

definition TotalFileSize :: "FileMetaData list \<Rightarrow> int" where
  "TotalFileSize files = sint (foldl (\<lambda>sum f. sum + fm_file_size f) 0 files)"

definition MaxGrandParentOverlapBytes :: "uint64 \<Rightarrow> int" where
  "MaxGrandParentOverlapBytes max_file_size = sint (10 * max_file_size)"

definition kMaxMemCompactLevel :: nat where "kMaxMemCompactLevel = 2"

definition limit_key :: "byte list \<Rightarrow> byte list" where
  "limit_key u = AppendInternalKey [] \<lparr>user_key = u, sequence = 0, key_type = kTypeDeletion\<rparr>"

function pick_level_loop :: "(byte list \<Rightarrow> byte list \<Rightarrow> int) \<Rightarrow> uint64 \<Rightarrow> Version \<Rightarrow> byte list \<Rightarrow> byte list \<Rightarrow> nat \<Rightarrow> nat option" where
  "pick_level_loop cmp max_file_size v smallest_user_key largest_user_key level =
     (if level < kMaxMemCompactLevel
      then (if OverlapInLevel cmp v (level + 1) (Some smallest_user_key) (Some largest_user_key) then Some level
            else if level + 2 < kNumLevels
            then do {
              overlaps \<leftarrow> GetOverlappingInputs cmp v (level + 2) (Some (start_key smallest_user_key)) (Some (limit_key largest_user_key));
              if TotalFileSize overlaps > MaxGrandParentOverlapBytes max_file_size then Some level
              else pick_level_loop cmp max_file_size v smallest_user_key largest_user_key (level + 1)
            }
            else pick_level_loop cmp max_file_size v smallest_user_key largest_user_key (level + 1))
      else Some level)"
  by pat_completeness auto
termination
  by (relation "measure (\<lambda>(cmp, m, v, s, l, level). kMaxMemCompactLevel - level)") auto

declare pick_level_loop.simps [simp del]

definition PickLevelForMemTableOutput :: "(byte list \<Rightarrow> byte list \<Rightarrow> int) \<Rightarrow> uint64 \<Rightarrow> Version \<Rightarrow> byte list \<Rightarrow> byte list \<Rightarrow> nat option" where
  "PickLevelForMemTableOutput cmp max_file_size v smallest_user_key largest_user_key =
     (if \<not> OverlapInLevel cmp v 0 (Some smallest_user_key) (Some largest_user_key)
      then pick_level_loop cmp max_file_size v smallest_user_key largest_user_key 0
      else Some 0)"

subsection \<open>Lookup\<close>

datatype SaverState = kNotFound | kFound | kDeleted | kCorrupt

record Saver =
  sv_state :: SaverState
  sv_user_key :: "byte list"
  sv_value :: "byte list"

definition SaveValue :: "(byte list \<Rightarrow> byte list \<Rightarrow> int) \<Rightarrow> byte list \<Rightarrow> byte list \<Rightarrow> Saver \<Rightarrow> Saver" where
  "SaveValue cmp ikey v s =
     (case ParseInternalKey ikey of
        None \<Rightarrow> s\<lparr>sv_state := kCorrupt\<rparr>
      | Some parsed_key \<Rightarrow>
          if cmp (user_key parsed_key) (sv_user_key s) = 0
          then (let state = (if key_type parsed_key = kTypeValue then kFound else kDeleted) in
                s\<lparr>sv_state := state, sv_value := (if state = kFound then v else sv_value s)\<rparr>)
          else s)"

record GetStats =
  seek_file :: "FileMetaData option"
  seek_file_level :: int

definition level0_files :: "(byte list \<Rightarrow> byte list \<Rightarrow> int) \<Rightarrow> byte list \<Rightarrow> FileMetaData list \<Rightarrow> FileMetaData list" where
  "level0_files cmp ukey files =
     rev (sort_key fm_number (filter (\<lambda>f. cmp ukey (file_start f) \<ge> 0 \<and> cmp ukey (file_limit f) \<le> 0) files))"

definition level_files :: "(byte list \<Rightarrow> byte list \<Rightarrow> int) \<Rightarrow> byte list \<Rightarrow> byte list \<Rightarrow> FileMetaData list \<Rightarrow> FileMetaData list" where
  "level_files cmp ukey ikey files =
     (let index = FindFile cmp files ikey in
      if index \<ge> length files then []
      else if cmp ukey (file_start (files ! index)) < 0 then []
      else [files ! index])"

text \<open>The local variables of \<^verbatim>\<open>Version::Get\<close>.\<close>

record get_state =
  gs_stats :: GetStats
  gs_last_file :: "FileMetaData option"
  gs_last_level :: int
  gs_value :: "byte list"

definition charge_seek :: "get_state \<Rightarrow> get_state" where
  "charge_seek st =
     (if gs_last_file st \<noteq> None \<and> seek_file (gs_stats st) = None
      then st\<lparr>gs_stats := \<lparr>seek_file = gs_last_file st, seek_file_level = gs_last_level st\<rparr>\<rparr>
      else st)"

type_synonym table_reader = "FileMetaData \<Rightarrow> byte list \<Rightarrow> Status \<times> (byte list \<times> byte list) option"

text \<open>The inner loop: \<open>Inl\<close> when \<^verbatim>\<open>Get\<close> returns, \<open>Inr\<close> to search the next level.\<close>

primrec search_files ::
  "(byte list \<Rightarrow> byte list \<Rightarrow> int) \<Rightarrow> table_reader \<Rightarrow> byte list \<Rightarrow> byte list \<Rightarrow> nat \<Rightarrow> FileMetaData list \<Rightarrow> get_state \<Rightarrow>
   (Status \<times> get_state) + get_state" where
  "search_files cmp table_get ukey ikey level [] st = Inr st"
| "search_files cmp table_get ukey ikey level (f # fs) st =
     (let st = (charge_seek st)\<lparr>gs_last_file := Some f, gs_last_level := int level\<rparr>;
          saver = \<lparr>sv_state = kNotFound, sv_user_key = ukey, sv_value = gs_value st\<rparr>;
          (s, found) = table_get f ikey;
          saver = (case found of None \<Rightarrow> saver | Some (k, v) \<Rightarrow> SaveValue cmp k v saver);
          st = st\<lparr>gs_value := sv_value saver\<rparr>
      in if s \<noteq> OK then Inl (s, st)
         else case sv_state saver of
                kNotFound \<Rightarrow> search_files cmp table_get ukey ikey level fs st
              | kFound \<Rightarrow> Inl (s, st)
              | kDeleted \<Rightarrow> Inl (NotFound [], st)
              | kCorrupt \<Rightarrow> Inl (Corruption ''corrupted key for '', st))"

primrec search_levels ::
  "(byte list \<Rightarrow> byte list \<Rightarrow> int) \<Rightarrow> table_reader \<Rightarrow> byte list \<Rightarrow> byte list \<Rightarrow> nat \<Rightarrow> FileMetaData list list \<Rightarrow> get_state \<Rightarrow>
   Status \<times> get_state" where
  "search_levels cmp table_get ukey ikey level [] st = (NotFound [], st)"
| "search_levels cmp table_get ukey ikey level (files # rest) st =
     (case search_files cmp table_get ukey ikey level
             (if files = [] then [] else if level = 0 then level0_files cmp ukey files else level_files cmp ukey ikey files) st of
        Inl r \<Rightarrow> r
      | Inr st \<Rightarrow> search_levels cmp table_get ukey ikey (level + 1) rest st)"

definition Version_Get ::
  "(byte list \<Rightarrow> byte list \<Rightarrow> int) \<Rightarrow> table_reader \<Rightarrow> Version \<Rightarrow> LookupKey \<Rightarrow> byte list \<Rightarrow> Status \<times> byte list \<times> GetStats" where
  "Version_Get cmp table_get v k value =
     (let stats = \<lparr>seek_file = None, seek_file_level = -1\<rparr>;
          (s, st) = search_levels cmp table_get (lookup_user_key k) (lookup_internal_key k) 0 (v_files v)
                      \<lparr>gs_stats = stats, gs_last_file = None, gs_last_level = -1, gs_value = value\<rparr>
      in (s, gs_value st, gs_stats st))"

text \<open>\<^verbatim>\<open>UpdateStats\<close> counts a seek on the file; the same file is the same number in every list that holds it.\<close>

definition UpdateStats :: "GetStats \<Rightarrow> Version \<Rightarrow> bool \<times> Version" where
  "UpdateStats stats v =
     (case seek_file stats of
        None \<Rightarrow> (False, v)
      | Some f \<Rightarrow>
          (let f' = f\<lparr>fm_allowed_seeks := fm_allowed_seeks f - 1\<rparr>;
               v = v\<lparr>v_files := map (map (\<lambda>g. if fm_number g = fm_number f then f' else g)) (v_files v)\<rparr>
           in if fm_allowed_seeks f' \<le> 0 \<and> v_file_to_compact v = None
              then (True, v\<lparr>v_file_to_compact := Some f', v_file_to_compact_level := seek_file_level stats\<rparr>)
              else (False, v)))"

text \<open>The matches of \<^verbatim>\<open>ForEachOverlapping\<close>, in the order in which the callback gets them.\<close>

primrec overlapping_from :: "(byte list \<Rightarrow> byte list \<Rightarrow> int) \<Rightarrow> byte list \<Rightarrow> byte list \<Rightarrow> nat \<Rightarrow> FileMetaData list list \<Rightarrow> (nat \<times> FileMetaData) list" where
  "overlapping_from cmp ukey ikey level [] = []"
| "overlapping_from cmp ukey ikey level (files # rest) =
     map (Pair level) (if level = 0 then level0_files cmp ukey files else level_files cmp ukey ikey files) @
     overlapping_from cmp ukey ikey (level + 1) rest"

primrec for_each :: "('s \<Rightarrow> nat \<Rightarrow> FileMetaData \<Rightarrow> 's \<times> bool) \<Rightarrow> (nat \<times> FileMetaData) list \<Rightarrow> 's \<Rightarrow> 's" where
  "for_each func [] s = s"
| "for_each func (x # xs) s = (case func s (fst x) (snd x) of (s, continue) \<Rightarrow> if continue then for_each func xs s else s)"

definition ForEachOverlapping ::
  "(byte list \<Rightarrow> byte list \<Rightarrow> int) \<Rightarrow> Version \<Rightarrow> byte list \<Rightarrow> byte list \<Rightarrow> ('s \<Rightarrow> nat \<Rightarrow> FileMetaData \<Rightarrow> 's \<times> bool) \<Rightarrow> 's \<Rightarrow> 's" where
  "ForEachOverlapping cmp v ukey internal_key func s = for_each func (overlapping_from cmp ukey internal_key 0 (v_files v)) s"

definition sample_Match :: "GetStats \<times> nat \<Rightarrow> nat \<Rightarrow> FileMetaData \<Rightarrow> (GetStats \<times> nat) \<times> bool" where
  "sample_Match = (\<lambda>(stats, matches) level f.
     let matches = matches + 1;
         stats = (if matches = 1 then \<lparr>seek_file = Some f, seek_file_level = int level\<rparr> else stats)
     in ((stats, matches), matches < 2))"

definition RecordReadSample :: "(byte list \<Rightarrow> byte list \<Rightarrow> int) \<Rightarrow> byte list \<Rightarrow> Version \<Rightarrow> bool \<times> Version" where
  "RecordReadSample cmp internal_key v =
     (case ParseInternalKey internal_key of
        None \<Rightarrow> (False, v)
      | Some ikey \<Rightarrow>
          (let (stats, matches) = ForEachOverlapping cmp v (user_key ikey) internal_key sample_Match (\<lparr>seek_file = None, seek_file_level = 0\<rparr>, 0)
           in if matches \<ge> 2 then UpdateStats stats v else (False, v)))"

subsection \<open>Well-formed levels\<close>

definition valid_key :: "byte list \<Rightarrow> bool" where
  "valid_key k \<longleftrightarrow> ParseInternalKey k \<noteq> None"

definition file_wf :: "(byte list \<Rightarrow> byte list \<Rightarrow> int) \<Rightarrow> FileMetaData \<Rightarrow> bool" where
  "file_wf cmp f \<longleftrightarrow> valid_key (fm_smallest f) \<and> valid_key (fm_largest f) \<and> InternalCompare cmp (fm_smallest f) (fm_largest f) \<le> 0"

text \<open>What \<^verbatim>\<open>SaveTo\<close> asserts of the levels above zero: ascending ranges that do not overlap.\<close>

definition level_sorted :: "(byte list \<Rightarrow> byte list \<Rightarrow> int) \<Rightarrow> FileMetaData list \<Rightarrow> bool" where
  "level_sorted cmp files \<longleftrightarrow>
     list_all (file_wf cmp) files \<and> sorted_wrt (\<lambda>f g. InternalCompare cmp (fm_largest f) (fm_smallest g) < 0) files"

lemma length_takeWhile_iff:
  assumes "\<And>i j. i \<le> j \<Longrightarrow> j < length xs \<Longrightarrow> P (xs ! j) \<Longrightarrow> P (xs ! i)" "i < length xs"
  shows "P (xs ! i) \<longleftrightarrow> i < length (takeWhile P xs)"
proof
  assume P: "P (xs ! i)"
  show "i < length (takeWhile P xs)"
  proof (rule ccontr)
    assume n: "\<not> i < length (takeWhile P xs)"
    then have "length (takeWhile P xs) < length xs" using assms(2) by simp
    then have "\<not> P (xs ! length (takeWhile P xs))" by (rule nth_length_takeWhile)
    then show False using assms(1) [OF _ assms(2) P, of "length (takeWhile P xs)"] n by simp
  qed
qed (metis nth_mem set_takeWhileD takeWhile_nth)

lemma find_file_loop_spec:
  assumes "\<And>i. i < length files \<Longrightarrow> InternalCompare cmp (fm_largest (files ! i)) key < 0 \<longleftrightarrow> i < n"
    "left \<le> n" "n \<le> right" "right \<le> length files"
  shows "find_file_loop cmp files key left right = n"
  using assms
proof (induction cmp files key left right rule: find_file_loop.induct)
  case (1 cmp files key left right)
  let ?mid = "(left + right) div 2"
  show ?case
  proof (cases "left < right")
    case True
    then have m: "left \<le> ?mid" "?mid < right" by auto
    show ?thesis
    proof (cases "InternalCompare cmp (fm_largest (files ! ?mid)) key < 0")
      case t: True
      then have "?mid + 1 \<le> n" using "1.prems"(1) [of ?mid] "1.prems"(4) m by simp
      then show ?thesis using "1.IH"(1) [OF True refl t "1.prems"(1)] "1.prems" True t
        by (subst find_file_loop.simps) simp
    next
      case f: False
      then have "n \<le> ?mid" using "1.prems"(1) [of ?mid] "1.prems"(4) m by simp
      then show ?thesis using "1.IH"(2) [OF True refl f "1.prems"(1)] "1.prems" True f m
        by (subst find_file_loop.simps) simp
    qed
  next
    case False
    then show ?thesis using "1.prems" by (subst find_file_loop.simps) simp
  qed
qed

lemma valid_key_bounds:
  assumes "valid_key k"
  shows "8 \<le> length k" "key_number k \<le> PackSequenceAndType kMaxSequenceNumber kTypeValue"
proof -
  let ?n = "key_number k"
  from assms show "8 \<le> length k" by (auto simp: valid_key_def ParseInternalKey_def split: if_splits)
  from assms have "(ucast (?n AND 0xff) :: byte) = 0 \<or> (ucast (?n AND 0xff) :: byte) = 1"
    by (auto simp: valid_key_def ParseInternalKey_def Let_def value_type_code_def split: if_splits)
  then have "unat (ucast (?n AND 0xff) :: byte) \<le> 1" by auto
  moreover have "unat (ucast (?n AND 0xff) :: byte) = unat ?n mod 256"
  proof -
    have "?n AND 0xff = take_bit 8 ?n" by (simp add: take_bit_eq_mask mask_numeral)
    then show ?thesis by (simp add: unsigned_ucast_eq unsigned_take_bit_eq take_bit_eq_mod unat_mod_distrib)
  qed
  moreover have "unat ?n div 256 \<le> 2 ^ 56 - 1" using unat_less_2p [of ?n] by (simp add: div_less_iff_less_mult less_Suc_eq_le [symmetric])
  moreover have "unat ?n = 256 * (unat ?n div 256) + unat ?n mod 256" by simp
  ultimately have "unat ?n \<le> 256 * (2 ^ 56 - 1) + 1" by linarith
  then show "?n \<le> PackSequenceAndType kMaxSequenceNumber kTypeValue"
    by (simp add: word_le_nat_alt PackSequenceAndType_unat unat_kMaxSequenceNumber value_type_code_def)
qed

context user_comparator
begin

lemma FindFile_spec:
  assumes "level_sorted cmp files" "8 \<le> length key"
  shows "FindFile cmp files key = length (takeWhile (\<lambda>f. InternalCompare cmp (fm_largest f) key < 0) files)"
proof -
  let ?P = "\<lambda>f. InternalCompare cmp (fm_largest f) key < 0"
  have wf: "file_wf cmp f" if "f \<in> set files" for f using assms(1) that by (simp add: level_sorted_def list_all_iff)
  have mono: "?P (files ! i)" if ij: "i \<le> j" "j < length files" "?P (files ! j)" for i j
  proof (cases "i = j")
    case False
    let ?f = "files ! i" and ?g = "files ! j"
    have s: "InternalCompare cmp (fm_largest ?f) (fm_smallest ?g) < 0"
      using assms(1) ij False by (simp add: level_sorted_def sorted_wrt_iff_nth_less)
    have w: "file_wf cmp ?f" "file_wf cmp ?g" using ij wf by simp_all
    have v: "8 \<le> length (fm_largest ?f)" "8 \<le> length (fm_smallest ?g)" "8 \<le> length (fm_largest ?g)"
      using w valid_key_bounds(1) by (auto simp: file_wf_def)
    have "InternalCompare cmp (fm_largest ?f) (fm_largest ?g) < 0"
      using internal.less_le_trans [OF v s] w(2) by (simp add: file_wf_def)
    then show ?thesis using internal.less_trans [OF v(1,3) assms(2)] ij(3) by blast
  qed (use ij in simp)
  show ?thesis
    unfolding FindFile_def
    by (rule find_file_loop_spec) (use length_takeWhile_iff [of files ?P, OF mono] in \<open>auto simp: length_takeWhile_le\<close>)
qed

lemma AfterFile_seek:
  assumes "file_wf cmp f"
  shows "InternalCompare cmp (fm_largest f) (start_key u) < 0 \<longleftrightarrow> AfterFile cmp (Some u) f"
  using valid_key_bounds(2) [of "fm_largest f"] assms cmp_swap [where a = u and b = "file_limit f"] cmp_eq
  by (auto simp: InternalCompare_less AfterFile_def start_key_def AppendInternalKey_parts file_wf_def kValueTypeForSeek_def)

text \<open>On an ascending level a file before the range is followed by files before the range.\<close>

lemma BeforeFile_mono:
  assumes "level_sorted cmp files" "i \<le> j" "j < length files" "BeforeFile cmp u (files ! i)"
  shows "BeforeFile cmp u (files ! j)"
proof (cases "i = j")
  case False
  let ?f = "files ! i" and ?g = "files ! j"
  have w: "file_wf cmp ?f" "file_wf cmp ?g" and s: "InternalCompare cmp (fm_largest ?f) (fm_smallest ?g) < 0"
    using assms(1,2,3) False by (simp_all add: level_sorted_def list_all_iff sorted_wrt_iff_nth_less)
  have "cmp (file_start ?f) (file_limit ?f) \<le> 0" "cmp (file_limit ?f) (file_start ?g) \<le> 0"
    using w(1) s cmp_refl by (auto simp: file_wf_def InternalCompare_le InternalCompare_less)
  then have "cmp (file_start ?f) (file_start ?g) \<le> 0" using cmp_trans by blast
  then show ?thesis using assms(4) less_le_trans [of _ "file_start ?f" "file_start ?g"]
    by (auto simp: BeforeFile_def split: option.splits)
qed (use assms in simp)

lemma overlap_search:
  assumes "level_sorted cmp files"
  shows "SomeFileOverlapsRange cmp True files s l = SomeFileOverlapsRange cmp False files s l"
proof -
  let ?A = "AfterFile cmp s" and ?B = "BeforeFile cmp l"
  let ?index = "case s of None \<Rightarrow> 0 | Some k \<Rightarrow> FindFile cmp files (start_key k)"
  have index: "?index = length (takeWhile ?A files)"
  proof (cases s)
    case None
    then show ?thesis by (cases files) (simp_all add: AfterFile_def)
  next
    case (Some k)
    have "takeWhile (\<lambda>f. InternalCompare cmp (fm_largest f) (start_key k) < 0) files = takeWhile ?A files"
      by (rule takeWhile_cong) (use assms Some AfterFile_seek in \<open>auto simp: level_sorted_def list_all_iff\<close>)
    then show ?thesis using Some FindFile_spec [OF assms, of "start_key k"] by (simp add: start_key_def AppendInternalKey_parts)
  qed
  show ?thesis
  proof (cases "?index < length files")
    case False
    then have "takeWhile ?A files = files" using index length_takeWhile_le [of ?A files] by (metis not_less takeWhile_eq_take take_all)
    then have "list_all ?A files" by (metis list_all_iff takeWhile_eq_all_conv)
    then show ?thesis using False by (auto simp: SomeFileOverlapsRange_def Let_def list_ex_iff list_all_iff)
  next
    case True
    let ?f = "files ! ?index"
    have f: "\<not> ?A ?f" "?f \<in> set files" using True index nth_length_takeWhile [of ?A files] by simp_all
    have "?B g" if g: "?B ?f" "g \<in> set files" "\<not> ?A g" for g
    proof -
      obtain j where j: "g = files ! j" "j < length files" using g(2) by (auto simp: in_set_conv_nth)
      have "\<not> j < length (takeWhile ?A files)" using g(3) j by (metis nth_mem set_takeWhileD takeWhile_nth)
      then show ?thesis using BeforeFile_mono [OF assms _ j(2) g(1)] j(1) index by simp
    qed
    then show ?thesis using True f by (auto simp: SomeFileOverlapsRange_def Let_def list_ex_iff)
  qed
qed

end

subsection \<open>Overlapping inputs\<close>

definition overlaps :: "(byte list \<Rightarrow> byte list \<Rightarrow> int) \<Rightarrow> byte list option \<Rightarrow> byte list option \<Rightarrow> FileMetaData \<Rightarrow> bool" where
  "overlaps cmp b e f \<longleftrightarrow> \<not> AfterFile cmp b f \<and> \<not> BeforeFile cmp e f"

definition sticks_out :: "(byte list \<Rightarrow> byte list \<Rightarrow> int) \<Rightarrow> byte list option \<Rightarrow> byte list option \<Rightarrow> FileMetaData \<Rightarrow> bool" where
  "sticks_out cmp b e f \<longleftrightarrow>
     (case b of None \<Rightarrow> False | Some k \<Rightarrow> cmp (file_start f) k < 0) \<or> (case e of None \<Rightarrow> False | Some k \<Rightarrow> cmp (file_limit f) k > 0)"

text \<open>The files that a range reaches through files that overlap it or one another.\<close>

inductive connected :: "(byte list \<Rightarrow> byte list \<Rightarrow> int) \<Rightarrow> FileMetaData list \<Rightarrow> byte list option \<Rightarrow> byte list option \<Rightarrow> FileMetaData \<Rightarrow> bool"
  for cmp files b e where
  in_range: "f \<in> set files \<Longrightarrow> overlaps cmp b e f \<Longrightarrow> connected cmp files b e f"
| through: "connected cmp files b e f \<Longrightarrow> g \<in> set files \<Longrightarrow> overlaps cmp (Some (file_start f)) (Some (file_limit f)) g \<Longrightarrow>
    connected cmp files b e g"

definition outside :: "(byte list \<Rightarrow> byte list \<Rightarrow> int) \<Rightarrow> FileMetaData list \<Rightarrow> byte list option \<Rightarrow> byte list option \<Rightarrow> nat" where
  "outside cmp files b e =
     length (filter (\<lambda>f. case b of None \<Rightarrow> False | Some k \<Rightarrow> cmp (file_start f) k < 0) files) +
     length (filter (\<lambda>f. case e of None \<Rightarrow> False | Some k \<Rightarrow> cmp (file_limit f) k > 0) files)"

lemma length_filter_less:
  assumes "\<And>x. x \<in> set xs \<Longrightarrow> P x \<Longrightarrow> Q x" "x \<in> set xs" "Q x" "\<not> P x"
  shows "length (filter P xs) < length (filter Q xs)"
  using assms
proof (induction xs)
  case (Cons a xs)
  have le: "length (filter P xs) \<le> length (filter Q xs)"
    using Cons.prems(1) by (induction xs) (auto intro: le_SucI)
  show ?case using Cons le by (auto simp: less_Suc_eq_le)
qed simp

context user_comparator
begin

lemma file_range: "file_wf cmp f \<Longrightarrow> cmp (file_start f) (file_limit f) \<le> 0"
  using cmp_refl by (auto simp: file_wf_def InternalCompare_le)

lemma overlaps_iff:
  "overlaps cmp b e f \<longleftrightarrow>
     (case b of None \<Rightarrow> True | Some k \<Rightarrow> \<not> cmp (file_limit f) k < 0) \<and> (case e of None \<Rightarrow> True | Some k \<Rightarrow> \<not> cmp (file_start f) k > 0)"
  using cmp_swap by (auto simp: overlaps_def AfterFile_def BeforeFile_def split: option.splits)

lemma overlapping_loop_step:
  assumes "i < length files"
  shows "overlapping_loop cmp level files i b e inputs =
    (let f = files ! i in
     if \<not> overlaps cmp b e f then overlapping_loop cmp level files (i + 1) b e inputs
     else if level = 0 \<and> (case b of None \<Rightarrow> False | Some k \<Rightarrow> cmp (file_start f) k < 0)
     then overlapping_loop cmp level files 0 (Some (file_start f)) e []
     else if level = 0 \<and> (case e of None \<Rightarrow> False | Some k \<Rightarrow> cmp (file_limit f) k > 0)
     then overlapping_loop cmp level files 0 b (Some (file_limit f)) []
     else overlapping_loop cmp level files (i + 1) b e (inputs @ [f]))"
  using assms by (subst overlapping_loop.simps) (simp add: overlaps_iff Let_def split: option.split)

lemma overlapping_loop_sorted:
  assumes "level > 0"
  shows "overlapping_loop cmp level files i b e inputs = Some (inputs @ filter (overlaps cmp b e) (drop i files))"
proof (induction "length files - i" arbitrary: i inputs)
  case 0
  then show ?case by (subst overlapping_loop.simps) simp
next
  case (Suc n)
  then have i: "i < length files" "n = length files - (i + 1)" by simp_all
  show ?case using Suc(1) [OF i(2)] assms
    by (simp add: overlapping_loop_step [OF i(1)] Let_def Cons_nth_drop_Suc [OF i(1), symmetric])
qed

lemma outside_begin:
  assumes "f \<in> set files" "cmp (file_start f) k < 0"
  shows "outside cmp files (Some (file_start f)) e < outside cmp files (Some k) e"
proof -
  have "cmp (file_start g) k < 0" if "cmp (file_start g) (file_start f) < 0" for g
    using that assms(2) less_trans by blast
  then show ?thesis
    using length_filter_less [of files "\<lambda>g. cmp (file_start g) (file_start f) < 0" "\<lambda>g. cmp (file_start g) k < 0" f] assms cmp_refl
    by (simp add: outside_def)
qed

lemma outside_end:
  assumes "f \<in> set files" "cmp (file_limit f) k > 0"
  shows "outside cmp files b (Some (file_limit f)) < outside cmp files b (Some k)"
proof -
  have "cmp (file_limit g) k > 0" if "cmp (file_limit g) (file_limit f) > 0" for g
    using that assms(2) less_trans cmp_swap by metis
  then show ?thesis
    using length_filter_less [of files "\<lambda>g. cmp (file_limit g) (file_limit f) > 0" "\<lambda>g. cmp (file_limit g) k > 0" f] assms cmp_refl
    by (auto simp: outside_def)
qed

lemma overlaps_wider:
  assumes "file_wf cmp f" "overlaps cmp b e f"
  shows "b = Some k \<Longrightarrow> cmp (file_start f) k < 0 \<Longrightarrow> overlaps cmp b e g \<Longrightarrow> overlaps cmp (Some (file_start f)) e g"
    "e = Some k \<Longrightarrow> cmp (file_limit f) k > 0 \<Longrightarrow> overlaps cmp b e g \<Longrightarrow> overlaps cmp b (Some (file_limit f)) g"
proof -
  assume a: "b = Some k" "cmp (file_start f) k < 0" "overlaps cmp b e g"
  then have "\<not> cmp (file_limit g) (file_start f) < 0" using less_trans [of "file_limit g" "file_start f" k] by (auto simp: overlaps_iff)
  then show "overlaps cmp (Some (file_start f)) e g" using a(3) by (simp add: overlaps_iff)
next
  assume a: "e = Some k" "cmp (file_limit f) k > 0" "overlaps cmp b e g"
  then have "\<not> cmp (file_start g) (file_limit f) > 0"
    using less_trans [of k "file_limit f" "file_start g"] cmp_swap by (auto simp: overlaps_iff)
  then show "overlaps cmp b (Some (file_limit f)) g" using a(3) by (simp add: overlaps_iff)
qed

lemma overlaps_narrower:
  assumes "file_wf cmp f" "file_wf cmp g" "overlaps cmp b e f"
  shows "overlaps cmp (Some (file_start f)) e g \<Longrightarrow> overlaps cmp b e g \<or> overlaps cmp (Some (file_start f)) (Some (file_limit f)) g"
    "overlaps cmp b (Some (file_limit f)) g \<Longrightarrow> overlaps cmp b e g \<or> overlaps cmp (Some (file_start f)) (Some (file_limit f)) g"
proof -
  note r = file_range [OF assms(1)] file_range [OF assms(2)]
  assume o: "overlaps cmp (Some (file_start f)) e g"
  show "overlaps cmp b e g \<or> overlaps cmp (Some (file_start f)) (Some (file_limit f)) g"
  proof (cases "\<exists>k. b = Some k \<and> cmp (file_limit g) k < 0")
    case True
    then obtain k where k: "b = Some k" "cmp (file_limit g) k < 0" by blast
    then have "cmp k (file_limit f) \<le> 0" using assms(3) cmp_flip [of "file_limit f" k] by (auto simp: overlaps_iff)
    then have "cmp (file_start g) (file_limit f) \<le> 0"
      using k(2) r(2) less_le_trans [of "file_limit g" k "file_limit f"] le_less_trans [of "file_start g" "file_limit g" "file_limit f"] by fastforce
    then show ?thesis using o by (simp add: overlaps_iff)
  next
    case False
    then show ?thesis using o by (auto simp: overlaps_iff split: option.splits)
  qed
next
  note r = file_range [OF assms(1)] file_range [OF assms(2)]
  assume o: "overlaps cmp b (Some (file_limit f)) g"
  show "overlaps cmp b e g \<or> overlaps cmp (Some (file_start f)) (Some (file_limit f)) g"
  proof (cases "\<exists>k. e = Some k \<and> cmp (file_start g) k > 0")
    case True
    then obtain k where k: "e = Some k" "cmp k (file_start g) < 0" using cmp_swap by blast
    then have "cmp (file_start f) k \<le> 0" using assms(3) by (auto simp: overlaps_iff)
    then have "cmp (file_start f) (file_limit g) \<le> 0"
      using k(2) r(2) le_less_trans [of "file_start f" k "file_start g"] less_le_trans [of "file_start f" "file_start g" "file_limit g"] by fastforce
    then have "\<not> cmp (file_limit g) (file_start f) < 0" using cmp_flip [of "file_limit g" "file_start f"] by simp
    then show ?thesis using o by (simp add: overlaps_iff)
  next
    case False
    then show ?thesis using o by (auto simp: overlaps_iff split: option.splits)
  qed
qed

end

context user_comparator
begin

text \<open>A range that the loop may hold: it covers the files in the first range, and overlaps connected files only.\<close>

lemma overlapping_loop_level0:
  assumes wf: "list_all (file_wf cmp) files"
    and "i \<le> length files" "inputs = filter (overlaps cmp b e) (take i files)"
    "\<forall>f\<in>set (take i files). overlaps cmp b e f \<longrightarrow> \<not> sticks_out cmp b e f"
    "\<forall>g\<in>set files. overlaps cmp b e g \<longrightarrow> connected cmp files b0 e0 g" "\<forall>g\<in>set files. overlaps cmp b0 e0 g \<longrightarrow> overlaps cmp b e g"
  shows "\<exists>b' e'. overlapping_loop cmp 0 files i b e inputs = Some (filter (overlaps cmp b' e') files) \<and>
    (\<forall>f\<in>set files. overlaps cmp b' e' f \<longrightarrow> \<not> sticks_out cmp b' e' f) \<and>
    (\<forall>g\<in>set files. overlaps cmp b' e' g \<longrightarrow> connected cmp files b0 e0 g) \<and> (\<forall>g\<in>set files. overlaps cmp b0 e0 g \<longrightarrow> overlaps cmp b' e' g)"
  using assms(2-)
proof (induction "outside cmp files b e * (length files + 1) + (length files - i)" arbitrary: i b e inputs rule: less_induct)
  case less
  show ?case
  proof (cases "i < length files")
    case False
    then show ?thesis using less.prems by (subst overlapping_loop.simps) auto
  next
    case i: True
    let ?f = "files ! i"
    have f: "?f \<in> set files" "file_wf cmp ?f" using i wf by (simp_all add: list_all_iff)
    note step = overlapping_loop_step [OF i, of 0 b e inputs]
    have take: "take (Suc i) files = take i files @ [?f]" using i by (simp add: take_Suc_conv_app_nth)
    have m: "outside cmp files b e * (length files + 1) + (length files - Suc i) < outside cmp files b e * (length files + 1) + (length files - i)"
      using i by simp
    have restart: "outside cmp files b' e' * (length files + 1) + length files < outside cmp files b e * (length files + 1) + (length files - i)"
      if "outside cmp files b' e' < outside cmp files b e" for b' e'
    proof -
      have "(outside cmp files b' e' + 1) * (length files + 1) \<le> outside cmp files b e * (length files + 1)"
        using that by (intro mult_le_mono1) simp
      then show ?thesis by simp
    qed
    consider "\<not> overlaps cmp b e ?f" | "overlaps cmp b e ?f" "\<not> sticks_out cmp b e ?f"
      | k where "overlaps cmp b e ?f" "b = Some k" "cmp (file_start ?f) k < 0"
      | k where "overlaps cmp b e ?f" "\<not> (case b of None \<Rightarrow> False | Some k \<Rightarrow> cmp (file_start ?f) k < 0)" "e = Some k" "cmp (file_limit ?f) k > 0"
      by (fastforce simp: sticks_out_def split: option.splits)
    then show ?thesis
    proof cases
      case 1
      then show ?thesis using less.hyps [OF m, of inputs] less.prems i step by (simp add: take ball_Un)
    next
      case 2
      then show ?thesis using less.hyps [OF m, of "inputs @ [?f]"] less.prems i step
        by (simp add: take ball_Un sticks_out_def)
    next
      case 3
      have "connected cmp files b0 e0 g" if g: "g \<in> set files" "overlaps cmp (Some (file_start ?f)) e g" for g
        using overlaps_narrower(1) [OF f(2) _ 3(1) g(2)] wf g(1) less.prems(4) f(1) 3(1) connected.through [OF _ g(1)]
        by (auto simp: list_all_iff)
      moreover have "overlaps cmp (Some (file_start ?f)) e g" if "g \<in> set files" "overlaps cmp b0 e0 g" for g
        using overlaps_wider(1) [OF f(2) 3(1,2,3)] less.prems(5) that by blast
      ultimately show ?thesis
        using less.hyps [of "Some (file_start ?f)" e 0 "[]"] restart [OF outside_begin [OF f(1) 3(3), of e, folded 3(2)]] step 3 by simp
    next
      case 4
      have "connected cmp files b0 e0 g" if g: "g \<in> set files" "overlaps cmp b (Some (file_limit ?f)) g" for g
        using overlaps_narrower(2) [OF f(2) _ 4(1) g(2)] wf g(1) less.prems(4) f(1) 4(1) connected.through [OF _ g(1)]
        by (auto simp: list_all_iff)
      moreover have "overlaps cmp b (Some (file_limit ?f)) g" if "g \<in> set files" "overlaps cmp b0 e0 g" for g
        using overlaps_wider(2) [OF f(2) 4(1,3,4)] less.prems(5) that by blast
      ultimately show ?thesis
        using less.hyps [of b "Some (file_limit ?f)" 0 "[]"] restart [OF outside_end [OF f(1) 4(4), of b, folded 4(3)]] step 4 by simp
    qed
  qed
qed

lemma connected_covered:
  assumes "connected cmp files b0 e0 g" "\<forall>f\<in>set files. overlaps cmp b e f \<longrightarrow> \<not> sticks_out cmp b e f"
    "\<forall>f\<in>set files. overlaps cmp b0 e0 f \<longrightarrow> overlaps cmp b e f"
  shows "g \<in> set files \<and> overlaps cmp b e g"
  using assms(1)
proof induction
  case (in_range f)
  then show ?case using assms(3) by blast
next
  case (through f g)
  then have n: "\<not> sticks_out cmp b e f" using assms(2) by blast
  have "\<not> cmp (file_limit g) k < 0" if k: "b = Some k" for k
  proof -
    have "cmp k (file_start f) \<le> 0" using n k cmp_flip [of "file_start f" k] by (simp add: sticks_out_def)
    then show ?thesis using through(3) less_le_trans [of "file_limit g" k "file_start f"] by (auto simp: overlaps_iff)
  qed
  moreover have "\<not> cmp (file_start g) k > 0" if k: "e = Some k" for k
  proof -
    have "cmp (file_limit f) k \<le> 0" using n k by (simp add: sticks_out_def)
    then show ?thesis using through(3) cmp_trans [of "file_start g" "file_limit f" k] by (simp add: overlaps_iff)
  qed
  ultimately show ?case using through(2) by (auto simp: overlaps_iff split: option.split)
qed

lemma GetOverlappingInputs_level0:
  assumes "list_all (file_wf cmp) (v_files v ! 0)"
  shows "GetOverlappingInputs cmp v 0 b e =
    Some (filter (connected cmp (v_files v ! 0) (map_option ExtractUserKey b) (map_option ExtractUserKey e)) (v_files v ! 0))"
proof -
  let ?files = "v_files v ! 0" and ?b = "map_option ExtractUserKey b" and ?e = "map_option ExtractUserKey e"
  obtain b' e' where r: "overlapping_loop cmp 0 ?files 0 ?b ?e [] = Some (filter (overlaps cmp b' e') ?files)"
      "\<forall>f\<in>set ?files. overlaps cmp b' e' f \<longrightarrow> \<not> sticks_out cmp b' e' f"
      "\<forall>g\<in>set ?files. overlaps cmp b' e' g \<longrightarrow> connected cmp ?files ?b ?e g"
      "\<forall>g\<in>set ?files. overlaps cmp ?b ?e g \<longrightarrow> overlaps cmp b' e' g"
    using overlapping_loop_level0 [OF assms, of 0 "[]" ?b ?e ?b ?e] connected.in_range by fastforce
  have "filter (overlaps cmp b' e') ?files = filter (connected cmp ?files ?b ?e) ?files"
    by (rule filter_cong [OF refl]) (use r(3) connected_covered [OF _ r(2,4)] in blast)
  then show ?thesis using r(1) by (simp add: GetOverlappingInputs_def)
qed

lemma GetOverlappingInputs_sorted:
  assumes "level > 0"
  shows "GetOverlappingInputs cmp v level b e =
    Some (filter (overlaps cmp (map_option ExtractUserKey b) (map_option ExtractUserKey e)) (v_files v ! level))"
  by (simp add: GetOverlappingInputs_def overlapping_loop_sorted [OF assms])

lemma pick_level_safe:
  assumes "list_all (level_sorted cmp) (drop 1 (v_files v))" "length (v_files v) = kNumLevels" "level \<le> kMaxMemCompactLevel"
  shows "\<exists>l. pick_level_loop cmp m v s e level = Some l \<and> level \<le> l \<and> l \<le> kMaxMemCompactLevel \<and>
    (\<forall>j f. level < j \<longrightarrow> j \<le> l \<longrightarrow> f \<in> set (v_files v ! j) \<longrightarrow> \<not> overlaps cmp (Some s) (Some e) f)"
  using assms(3)
proof (induction "kMaxMemCompactLevel - level" arbitrary: level)
  case 0
  then show ?case by (subst pick_level_loop.simps) auto
next
  case (Suc n)
  have l: "level < kMaxMemCompactLevel" "level + 1 < length (v_files v)" "level + 2 < kNumLevels"
    using Suc.hyps(2) Suc.prems assms(2) by (auto simp: kNumLevels_def kMaxMemCompactLevel_def)
  have "v_files v ! (level + 1) \<in> set (drop 1 (v_files v))" using l(2) by (metis add.commute in_set_conv_nth length_drop less_diff_conv nth_drop less_imp_le_nat add_leD2)
  then have "level_sorted cmp (v_files v ! (level + 1))" using assms(1) by (simp add: list_all_iff)
  note o = overlap_search [OF this, of "Some s" "Some e"]
  obtain r where r: "pick_level_loop cmp m v s e (level + 1) = Some r" "level + 1 \<le> r" "r \<le> kMaxMemCompactLevel"
      "\<forall>j f. level + 1 < j \<longrightarrow> j \<le> r \<longrightarrow> f \<in> set (v_files v ! j) \<longrightarrow> \<not> overlaps cmp (Some s) (Some e) f"
    using Suc.hyps(1) [of "level + 1"] Suc.hyps(2) l(1) by fastforce
  show ?case
  proof (cases "OverlapInLevel cmp v (level + 1) (Some s) (Some e)")
    case True
    then show ?thesis using l by (subst pick_level_loop.simps) auto
  next
    case False
    then have "\<forall>f\<in>set (v_files v ! (level + 1)). \<not> overlaps cmp (Some s) (Some e) f"
      using o by (auto simp: OverlapInLevel_def SomeFileOverlapsRange_def list_ex_iff overlaps_def)
    then have "\<forall>j f. level < j \<longrightarrow> j \<le> r \<longrightarrow> f \<in> set (v_files v ! j) \<longrightarrow> \<not> overlaps cmp (Some s) (Some e) f"
      using r(4) by (metis Suc_eq_plus1 Suc_lessI)
    then show ?thesis using l r(1-3) False
      by (subst pick_level_loop.simps) (auto simp: GetOverlappingInputs_sorted)
  qed
qed

end

subsection \<open>Properties\<close>

text \<open>
  On a level of ascending ranges that do not overlap, the binary search of \<^verbatim>\<open>SomeFileOverlapsRange\<close> answers as the scan of all files does:
  whether some file overlaps the range, whose ends may be open.
\<close>

theorem overlap_binary_search:
  assumes "level_sorted BytewiseCompare files"
  shows "SomeFileOverlapsRange BytewiseCompare True files smallest largest = list_ex (overlaps BytewiseCompare smallest largest) files \<and>
    SomeFileOverlapsRange BytewiseCompare False files smallest largest = list_ex (overlaps BytewiseCompare smallest largest) files"
  using bytewise.overlap_search [OF assms, of smallest largest] by (simp add: SomeFileOverlapsRange_def overlaps_def [abs_def])

definition sample_file :: "uint64 \<Rightarrow> byte list \<Rightarrow> SequenceNumber \<Rightarrow> byte list \<Rightarrow> SequenceNumber \<Rightarrow> FileMetaData" where
  "sample_file n s i l j = new_FileMetaData n 1000
     (AppendInternalKey [] \<lparr>user_key = s, sequence = i, key_type = kTypeValue\<rparr>)
     (AppendInternalKey [] \<lparr>user_key = l, sequence = j, key_type = kTypeValue\<rparr>)"

theorem overlap_binary_search_witness:
  "let files = [sample_file 4 [1] 9 [3] 5, sample_file 6 [3] 2 [7] 8] in
   SomeFileOverlapsRange BytewiseCompare True files (Some [2]) (Some [2, 1]) \<and> \<not> SomeFileOverlapsRange BytewiseCompare True files (Some [8]) None"
proof -
  have "level_sorted BytewiseCompare [sample_file 4 [1] 9 [3] 5, sample_file 6 [3] 2 [7] 8]" by code_simp
  then show ?thesis
    using overlap_binary_search [of "[sample_file 4 [1] 9 [3] 5, sample_file 6 [3] 2 [7] 8]" "Some [2]" "Some [2, 1]"]
      overlap_binary_search [of "[sample_file 4 [1] 9 [3] 5, sample_file 6 [3] 2 [7] 8]" "Some [8]" None]
    by (simp add: Let_def) code_simp
qed

text \<open>
  (C22) \<^verbatim>\<open>GetOverlappingInputs\<close> returns.  On level zero it gives, in the order of the level, the files that the range reaches through files that
  overlap it or one another, so that no file left behind overlaps a chosen one; on the other levels the files that overlap the range.
\<close>

theorem overlapping_inputs:
  assumes "list_all (file_wf BytewiseCompare) (v_files v ! level)"
  shows "GetOverlappingInputs BytewiseCompare v level b e =
    Some (filter (if level = 0 then connected BytewiseCompare (v_files v ! 0) (map_option ExtractUserKey b) (map_option ExtractUserKey e)
                  else overlaps BytewiseCompare (map_option ExtractUserKey b) (map_option ExtractUserKey e)) (v_files v ! level))"
  using bytewise.GetOverlappingInputs_level0 [of v b e] bytewise.GetOverlappingInputs_sorted [of level v b e] assms by auto

theorem overlapping_inputs_witness:
  "let a = sample_file 4 [1] 9 [3] 5; b = sample_file 6 [3] 12 [7] 8; c = sample_file 8 [9] 14 [9] 14;
       v = new_Version\<lparr>v_files := [[a, b, c]]\<rparr>
   in list_all (file_wf BytewiseCompare) (v_files v ! 0) \<and>
      (\<exists>r. GetOverlappingInputs BytewiseCompare v 0 (Some (start_key [6])) (Some (limit_key [6])) = Some r \<and> set r \<subseteq> {a, b, c})"
proof -
  have "list_all (file_wf BytewiseCompare)
      (v_files (new_Version\<lparr>v_files := [[sample_file 4 [1] 9 [3] 5, sample_file 6 [3] 12 [7] 8, sample_file 8 [9] 14 [9] 14]]\<rparr>) ! 0)"
    by code_simp
  then show ?thesis
    using overlapping_inputs [of "new_Version\<lparr>v_files := [[sample_file 4 [1] 9 [3] 5, sample_file 6 [3] 12 [7] 8, sample_file 8 [9] 14 [9] 14]]\<rparr>" 0
        "Some (start_key [6])" "Some (limit_key [6])"]
    by (auto simp: Let_def)
qed

text \<open>
  (C23) \<^verbatim>\<open>PickLevelForMemTableOutput\<close> returns a level of at most two: level zero when the range overlaps a table of level zero, and a level above
  zero only when the range overlaps no table of that level and of the levels before it, so that older entries of its keys can only lie deeper.
\<close>

theorem memtable_output_level:
  assumes "length (v_files v) = kNumLevels" "list_all (level_sorted BytewiseCompare) (drop 1 (v_files v))"
  shows "\<exists>level. PickLevelForMemTableOutput BytewiseCompare max_file_size v smallest largest = Some level \<and> level \<le> 2 \<and>
    ((\<exists>f\<in>set (v_files v ! 0). overlaps BytewiseCompare (Some smallest) (Some largest) f) \<longrightarrow> level = 0) \<and>
    (0 < level \<longrightarrow> (\<forall>j\<le>level. \<forall>f\<in>set (v_files v ! j). \<not> overlaps BytewiseCompare (Some smallest) (Some largest) f))"
proof -
  obtain l where l: "pick_level_loop BytewiseCompare max_file_size v smallest largest 0 = Some l" "l \<le> kMaxMemCompactLevel"
    "\<forall>j f. 0 < j \<longrightarrow> j \<le> l \<longrightarrow> f \<in> set (v_files v ! j) \<longrightarrow> \<not> overlaps BytewiseCompare (Some smallest) (Some largest) f"
    using bytewise.pick_level_safe [OF assms(2,1), of 0 max_file_size smallest largest] by auto
  have o: "OverlapInLevel BytewiseCompare v 0 (Some smallest) (Some largest) \<longleftrightarrow>
      (\<exists>f\<in>set (v_files v ! 0). overlaps BytewiseCompare (Some smallest) (Some largest) f)"
    by (auto simp: OverlapInLevel_def SomeFileOverlapsRange_def overlaps_def list_ex_iff)
  show ?thesis
  proof (cases "\<exists>f\<in>set (v_files v ! 0). overlaps BytewiseCompare (Some smallest) (Some largest) f")
    case True
    then show ?thesis using o by (auto simp: PickLevelForMemTableOutput_def)
  next
    case False
    then have "PickLevelForMemTableOutput BytewiseCompare max_file_size v smallest largest = Some l"
      using o l(1) by (simp add: PickLevelForMemTableOutput_def)
    moreover have "\<forall>j\<le>l. \<forall>f\<in>set (v_files v ! j). \<not> overlaps BytewiseCompare (Some smallest) (Some largest) f"
      using False l(3) by (metis gr0I)
    ultimately show ?thesis using False l(2) by (auto simp: kMaxMemCompactLevel_def)
  qed
qed

theorem memtable_output_level_witness:
  "let v = new_Version\<lparr>v_files := [[], [], [sample_file 4 [1] 9 [3] 5], [], [], [], []]\<rparr> in
   length (v_files v) = kNumLevels \<and> list_all (level_sorted BytewiseCompare) (drop 1 (v_files v)) \<and>
   (\<exists>level. PickLevelForMemTableOutput BytewiseCompare 2097152 v [2] [5] = Some level \<and> level \<le> 2)"
proof -
  let ?v = "new_Version\<lparr>v_files := [[], [], [sample_file 4 [1] 9 [3] 5], [], [], [], []]\<rparr>"
  have h: "length (v_files ?v) = kNumLevels" "list_all (level_sorted BytewiseCompare) (drop 1 (v_files ?v))" by code_simp+
  show ?thesis using h memtable_output_level [OF h, of 2097152 "[2]" "[5]"] by (auto simp: Let_def)
qed

end
