(* ===== verification/Ldb_Version_Get.thy ===== *)
theory Ldb_Version_Get
  imports Ldb_Version
begin

text \<open>
  \<^verbatim>\<open>Version::Get\<close> finds the newest visible entry of a key in all tables of the version: what the tables hold, how the levels relate, and what
  a lookup in one table answers are the assumptions of the search, which the code keeps as invariants.
\<close>

subsection \<open>What a version holds\<close>

abbreviation ikey :: "mem_entry \<Rightarrow> byte list" where
  "ikey e \<equiv> AppendInternalKey [] (fst e)"

abbreviation lookup_ikey :: "byte list \<Rightarrow> SequenceNumber \<Rightarrow> byte list" where
  "lookup_ikey u t \<equiv> AppendInternalKey [] \<lparr>user_key = u, sequence = t, key_type = kTypeValue\<rparr>"

definition entries_sorted :: "(byte list \<Rightarrow> byte list \<Rightarrow> int) \<Rightarrow> mem_entry list \<Rightarrow> bool" where
  "entries_sorted cmp es \<longleftrightarrow>
     list_all (\<lambda>e. sequence (fst e) \<le> kMaxSequenceNumber) es \<and>
     sorted_wrt (\<lambda>a b. InternalCompare cmp (ikey a) (ikey b) < 0 \<and>
       (user_key (fst a) = user_key (fst b) \<longrightarrow> sequence (fst b) < sequence (fst a))) es"

text \<open>A table has the entries \<open>es\<close>, and its bounds are its first and its last key.\<close>

definition file_holds :: "(byte list \<Rightarrow> byte list \<Rightarrow> int) \<Rightarrow> mem_entry list \<Rightarrow> FileMetaData \<Rightarrow> bool" where
  "file_holds cmp es f \<longleftrightarrow> es \<noteq> [] \<and> entries_sorted cmp es \<and> fm_smallest f = ikey (hd es) \<and> fm_largest f = ikey (last es)"

text \<open>The entries of one list overwrite those of the other.\<close>

definition newer :: "mem_entry list \<Rightarrow> mem_entry list \<Rightarrow> bool" where
  "newer as bs \<longleftrightarrow> list_all (\<lambda>a. list_all (\<lambda>b. user_key (fst a) = user_key (fst b) \<longrightarrow> sequence (fst b) < sequence (fst a)) bs) as"

definition level_entries :: "(FileMetaData \<Rightarrow> mem_entry list) \<Rightarrow> FileMetaData list \<Rightarrow> mem_entry list" where
  "level_entries ct files = concat (map ct files)"

definition levels_ok :: "(byte list \<Rightarrow> byte list \<Rightarrow> int) \<Rightarrow> (FileMetaData \<Rightarrow> mem_entry list) \<Rightarrow> FileMetaData list list \<Rightarrow> bool" where
  "levels_ok cmp ct levels \<longleftrightarrow>
     list_all (list_all (\<lambda>f. file_holds cmp (ct f) f)) levels \<and>
     list_all (\<lambda>files. entries_sorted cmp (level_entries ct files)) (drop 1 levels) \<and>
     (case levels of [] \<Rightarrow> True | l0 # _ \<Rightarrow>
        distinct (map fm_number l0) \<and> list_all (\<lambda>f. list_all (\<lambda>g. fm_number g < fm_number f \<longrightarrow> newer (ct f) (ct g)) l0) l0) \<and>
     sorted_wrt (\<lambda>as bs. newer (level_entries ct as) (level_entries ct bs)) levels"

definition version_ok :: "(byte list \<Rightarrow> byte list \<Rightarrow> int) \<Rightarrow> (FileMetaData \<Rightarrow> mem_entry list) \<Rightarrow> Version \<Rightarrow> bool" where
  "version_ok cmp ct v \<longleftrightarrow> length (v_files v) = kNumLevels \<and> levels_ok cmp ct (v_files v)"

definition version_entries :: "(FileMetaData \<Rightarrow> mem_entry list) \<Rightarrow> Version \<Rightarrow> mem_entry list" where
  "version_entries ct v = concat (map (level_entries ct) (v_files v))"

text \<open>
  What \<^verbatim>\<open>Table::InternalGet\<close> promises: the callback gets the first entry at or after the key, and may not be called when no such entry has
  the user key: a filter may tell so, and so may the index when the key is behind the last one of a block.
\<close>

definition reads :: "(byte list \<Rightarrow> byte list \<Rightarrow> int) \<Rightarrow> (FileMetaData \<Rightarrow> mem_entry list) \<Rightarrow> table_reader \<Rightarrow> byte list \<Rightarrow> FileMetaData \<Rightarrow> bool" where
  "reads cmp ct table_get key f \<longleftrightarrow>
     table_get f key = (OK, map_option (\<lambda>e. (ikey e, snd e)) (find (\<lambda>e. \<not> InternalCompare cmp (ikey e) key < 0) (ct f))) \<or>
     table_get f key = (OK, None) \<and> list_all (\<lambda>e. user_key (fst e) = ExtractUserKey key \<longrightarrow> InternalCompare cmp (ikey e) key < 0) (ct f)"

text \<open>The visible entry with the greatest sequence number.\<close>

definition newest_visible :: "mem_entry list \<Rightarrow> byte list \<Rightarrow> SequenceNumber \<Rightarrow> mem_entry option \<Rightarrow> bool" where
  "newest_visible es u t r \<longleftrightarrow>
     (case r of
        None \<Rightarrow> list_all (\<lambda>e. \<not> visible u t e) es
      | Some e \<Rightarrow> e \<in> set es \<and> visible u t e \<and> list_all (\<lambda>e'. visible u t e' \<longrightarrow> e' = e \<or> sequence (fst e') < sequence (fst e)) es)"

fun lookup_answer :: "byte list \<Rightarrow> mem_entry option \<Rightarrow> Status \<times> byte list" where
  "lookup_answer value None = (NotFound [], value)"
| "lookup_answer value (Some (k, v)) = (case key_type k of kTypeValue \<Rightarrow> (OK, v) | kTypeDeletion \<Rightarrow> (NotFound [], value))"

subsection \<open>Newest entries\<close>

lemma newest_visible_unique: "newest_visible es u t r \<Longrightarrow> newest_visible es u t r' \<Longrightarrow> r = r'"
  by (cases r; cases r') (auto simp: newest_visible_def list_all_iff simp del: split_paired_All dest: less_asym)

lemma newest_visible_None: "newest_visible es u t None \<longleftrightarrow> (\<forall>e\<in>set es. \<not> visible u t e)"
  by (simp add: newest_visible_def list_all_iff)

lemma newest_visible_Some:
  "newest_visible es u t (Some e) \<longleftrightarrow>
     e \<in> set es \<and> visible u t e \<and> (\<forall>e'\<in>set es. visible u t e' \<longrightarrow> e' = e \<or> sequence (fst e') < sequence (fst e))"
  by (simp add: newest_visible_def list_all_iff)

lemma newer_visible: "newer as bs \<Longrightarrow> a \<in> set as \<Longrightarrow> b \<in> set bs \<Longrightarrow> visible u t a \<Longrightarrow> visible u t b \<Longrightarrow> sequence (fst b) < sequence (fst a)"
  by (auto simp: newer_def list_all_iff visible_def)

lemma newest_visible_append:
  assumes "newest_visible as u t r" "newest_visible bs u t r'" "newer as bs"
  shows "newest_visible (as @ bs) u t (case r of None \<Rightarrow> r' | Some e \<Rightarrow> Some e)"
proof (cases r)
  case None
  then show ?thesis using assms(1,2) by (cases r') (auto simp: newest_visible_None newest_visible_Some)
next
  case (Some e)
  then have "e \<in> set as" "visible u t e" using assms(1) by (simp_all add: newest_visible_Some)
  then show ?thesis using Some assms(1) newer_visible [OF assms(3), of e] by (auto simp: newest_visible_Some)
qed

lemma newer_append: "newer as (bs @ cs) \<longleftrightarrow> newer as bs \<and> newer as cs" "newer (as @ bs) cs \<longleftrightarrow> newer as cs \<and> newer bs cs" "newer as []" "newer [] bs"
  by (auto simp: newer_def list_all_iff)

lemma newer_concat: "newer as (concat bss) \<longleftrightarrow> list_all (newer as) bss"
  by (induction bss) (auto simp: newer_append)

lemma find_append_case: "find P (xs @ ys) = (case find P xs of None \<Rightarrow> find P ys | Some x \<Rightarrow> Some x)"
  by (induction xs) auto

lemma newest_visible_concat:
  assumes "sorted_wrt newer ess" "\<And>es. es \<in> set ess \<Longrightarrow> newest_visible es u t (find (visible u t) es)"
  shows "newest_visible (concat ess) u t (find (visible u t) (concat ess))"
  using assms
proof (induction ess)
  case (Cons es ess)
  have "newer es (concat ess)" using Cons.prems(1) by (simp add: newer_concat list_all_iff)
  then show ?case using newest_visible_append [of es u t] Cons by (simp add: find_append_case)
qed (simp add: newest_visible_def)

lemma newest_visible_drop:
  assumes "newest_visible es u t r" "set es \<subseteq> set es'" "\<And>e. e \<in> set es' \<Longrightarrow> visible u t e \<Longrightarrow> e \<in> set es"
  shows "newest_visible es' u t r"
proof (cases r)
  case None
  then show ?thesis using assms(1,3) by (auto simp: newest_visible_None)
next
  case (Some e)
  then show ?thesis using assms(1,3) subsetD [OF assms(2), of e] by (simp add: newest_visible_Some)
qed

subsection \<open>One table\<close>

context user_comparator
begin

lemma ikey_less:
  assumes "sequence (fst a) \<le> kMaxSequenceNumber" "sequence (fst b) \<le> kMaxSequenceNumber"
  shows "InternalCompare cmp (ikey a) (ikey b) < 0 \<Longrightarrow>
    cmp (user_key (fst a)) (user_key (fst b)) < 0 \<or> user_key (fst a) = user_key (fst b) \<and> sequence (fst b) \<le> sequence (fst a)"
  using PackSequenceAndType_less [OF assms(2,1)] by (auto simp: InternalCompare_less AppendInternalKey_parts)

lemma at_or_after:
  assumes "sequence (fst e) \<le> kMaxSequenceNumber" "t \<le> kMaxSequenceNumber"
  shows "\<not> InternalCompare cmp (ikey e) (lookup_ikey u t) < 0 \<longleftrightarrow>
    cmp u (user_key (fst e)) < 0 \<or> visible u t e"
proof -
  have "value_type_code kTypeValue < value_type_code (key_type (fst e)) \<longleftrightarrow> False"
    by (cases "key_type (fst e)") (simp_all add: value_type_code_def)
  then have "PackSequenceAndType t kTypeValue < PackSequenceAndType (sequence (fst e)) (key_type (fst e)) \<longleftrightarrow> t < sequence (fst e)"
    using PackSequenceAndType_less [OF assms(2,1)] by simp
  moreover have "\<not> cmp (user_key (fst e)) u < 0 \<longleftrightarrow> cmp u (user_key (fst e)) < 0 \<or> user_key (fst e) = u"
    using cmp_swap [where a = "user_key (fst e)" and b = u] cmp_eq cmp_refl by (metis not_less_iff_gr_or_eq)
  ultimately show ?thesis using cmp_refl [of u] by (auto simp: InternalCompare_less AppendInternalKey_parts visible_def not_less)
qed

lemma sorted_find_visible:
  assumes "entries_sorted cmp es"
  shows "newest_visible es u t (find (visible u t) es)"
  using assms
proof (induction es)
  case (Cons e es)
  have s: "list_all (\<lambda>e. sequence (fst e) \<le> kMaxSequenceNumber) (e # es)" "\<forall>b\<in>set es. InternalCompare cmp (ikey e) (ikey b) < 0"
    "entries_sorted cmp es" "\<forall>b\<in>set es. user_key (fst e) = user_key (fst b) \<longrightarrow> sequence (fst b) < sequence (fst e)"
    using Cons.prems by (simp_all add: entries_sorted_def)
  show ?case
  proof (cases "visible u t e")
    case True
    then show ?thesis using s(4) by (auto simp: newest_visible_def list_all_iff visible_def)
  next
    case False
    then show ?thesis using Cons.IH [OF s(3)] by (auto simp: newest_visible_def split: option.splits)
  qed
qed (simp add: newest_visible_def)

end

context user_comparator
begin

text \<open>The first entry at or after the lookup key is the first visible one, or belongs to a later key.\<close>

lemma sorted_find_at_or_after:
  assumes "entries_sorted cmp es" "t \<le> kMaxSequenceNumber"
  shows "(case find (visible u t) es of
      Some e \<Rightarrow> find (\<lambda>e. \<not> InternalCompare cmp (ikey e) (lookup_ikey u t) < 0) es = Some e
    | None \<Rightarrow> (case find (\<lambda>e. \<not> InternalCompare cmp (ikey e) (lookup_ikey u t) < 0) es of
                 Some e \<Rightarrow> sequence (fst e) \<le> kMaxSequenceNumber \<and> cmp (user_key (fst e)) u \<noteq> 0 | None \<Rightarrow> True))"
  using assms(1)
proof (induction es)
  case (Cons e es)
  let ?k = "lookup_ikey u t"
  have s: "sequence (fst e) \<le> kMaxSequenceNumber" "\<And>b. b \<in> set es \<Longrightarrow> sequence (fst b) \<le> kMaxSequenceNumber"
    "\<And>b. b \<in> set es \<Longrightarrow> InternalCompare cmp (ikey e) (ikey b) < 0" "entries_sorted cmp es"
    using Cons.prems by (auto simp: entries_sorted_def list_all_iff)
  note a = at_or_after [OF s(1) assms(2), of u]
  show ?case
  proof (cases "visible u t e")
    case True
    then show ?thesis using a by simp
  next
    case nv: False
    show ?thesis
    proof (cases "cmp u (user_key (fst e)) < 0")
      case True
      have "\<not> visible u t b" if b: "b \<in> set es" for b
        using ikey_less [OF s(1) s(2) [OF b] s(3) [OF b]] True less_trans [of u "user_key (fst e)" "user_key (fst b)"] cmp_refl [of u]
        by (auto simp: visible_def)
      then have "find (visible u t) es = None" by (auto simp: find_None_iff)
      moreover have "cmp (user_key (fst e)) u \<noteq> 0" using True cmp_eq [of "user_key (fst e)" u] cmp_refl by fastforce
      ultimately show ?thesis using nv True a s(1) by simp
    next
      case False
      then show ?thesis using nv a Cons.IH [OF s(4)] by (auto split: option.splits)
    qed
  qed
qed simp

text \<open>One table of the search: it ends the search with its first visible entry, or is passed by.\<close>

lemma search_file:
  assumes "entries_sorted cmp (ct f)" "t \<le> kMaxSequenceNumber"
    and r: "reads cmp ct table_get (lookup_ikey u t) f"
  obtains st' where "gs_value st' = snd (lookup_answer (gs_value st) (find (visible u t) (ct f)))"
    "search_files cmp table_get u (lookup_ikey u t) level (f # fs) st =
       (case find (visible u t) (ct f) of
          None \<Rightarrow> search_files cmp table_get u (lookup_ikey u t) level fs st'
        | Some e \<Rightarrow> Inl (fst (lookup_answer (gs_value st) (Some e)), st'))"
proof -
  let ?k = "lookup_ikey u t"
  let ?st = "(charge_seek st)\<lparr>gs_last_file := Some f, gs_last_level := int level\<rparr>"
  have v [simp]: "gs_value (charge_seek st) = gs_value st" by (simp add: charge_seek_def)
  note s = sorted_find_at_or_after [OF assms(1,2), of u]
  show ?thesis
  proof (cases "find (visible u t) (ct f)")
    case None
    obtain found where t: "table_get f ?k = (OK, found)" using r by (auto simp: reads_def)
    have "(case found of None \<Rightarrow> \<lparr>sv_state = kNotFound, sv_user_key = u, sv_value = gs_value st\<rparr>
        | Some (k, v) \<Rightarrow> SaveValue cmp k v \<lparr>sv_state = kNotFound, sv_user_key = u, sv_value = gs_value st\<rparr>) =
        \<lparr>sv_state = kNotFound, sv_user_key = u, sv_value = gs_value st\<rparr>"
      using r s None t by (auto simp: reads_def SaveValue_def ParseInternalKey_Append split: option.splits)
    then show ?thesis using None t that [of "?st\<lparr>gs_value := gs_value st\<rparr>"] by simp
  next
    case (Some e)
    then have e: "e \<in> set (ct f)" "visible u t e" by (auto simp: find_Some_iff)
    have seq: "sequence (fst e) \<le> kMaxSequenceNumber" using assms(1) e(1) by (auto simp: entries_sorted_def list_all_iff)
    have "user_key (fst e) = ExtractUserKey ?k" using e(2) by (simp add: visible_def AppendInternalKey_parts)
    then have "table_get f ?k = (OK, Some (ikey e, snd e))" using r s Some e at_or_after [OF seq assms(2), of u]
      by (auto simp: reads_def list_all_iff)
    then show ?thesis using Some e(2) seq cmp_refl that [of "?st\<lparr>gs_value := snd (lookup_answer (gs_value st) (Some e))\<rparr>"]
      by (cases e; cases "key_type (fst e)") (simp_all add: SaveValue_def ParseInternalKey_Append visible_def)
  qed
qed

end

context user_comparator
begin

lemma search_files_spec:
  assumes "\<And>f. f \<in> set fs \<Longrightarrow> entries_sorted cmp (ct f) \<and> reads cmp ct table_get (lookup_ikey u t) f" "t \<le> kMaxSequenceNumber"
  obtains st' where "gs_value st' = snd (lookup_answer (gs_value st) (find (visible u t) (level_entries ct fs)))"
    "search_files cmp table_get u (lookup_ikey u t) level fs st =
       (case find (visible u t) (level_entries ct fs) of None \<Rightarrow> Inr st' | Some e \<Rightarrow> Inl (fst (lookup_answer (gs_value st) (Some e)), st'))"
  using assms(1)
proof (induction fs arbitrary: st thesis)
  case Nil
  then show ?case by (simp add: level_entries_def)
next
  case (Cons f fs)
  obtain st1 where f: "gs_value st1 = snd (lookup_answer (gs_value st) (find (visible u t) (ct f)))"
    "search_files cmp table_get u (lookup_ikey u t) level (f # fs) st =
       (case find (visible u t) (ct f) of None \<Rightarrow> search_files cmp table_get u (lookup_ikey u t) level fs st1
        | Some e \<Rightarrow> Inl (fst (lookup_answer (gs_value st) (Some e)), st1))"
    by (rule search_file [of ct f t table_get u st level fs]) (use Cons.prems(2) [of f] assms(2) in auto)
  show ?case
  proof (cases "find (visible u t) (ct f)")
    case None
    obtain st2 where "gs_value st2 = snd (lookup_answer (gs_value st1) (find (visible u t) (level_entries ct fs)))"
      "search_files cmp table_get u (lookup_ikey u t) level fs st1 =
       (case find (visible u t) (level_entries ct fs) of None \<Rightarrow> Inr st2 | Some e \<Rightarrow> Inl (fst (lookup_answer (gs_value st1) (Some e)), st2))"
      by (rule Cons.IH [of st1]) (use Cons.prems(2) in auto)
    then show ?thesis using None f Cons.prems(1) [of st2]
      by (simp add: level_entries_def find_append_case del: search_files.simps cong: option.case_cong)
  next
    case (Some e)
    then show ?thesis using f Cons.prems(1) [of st1] by (simp add: level_entries_def find_append_case del: search_files.simps)
  qed
qed

subsection \<open>One level\<close>

lemma file_holds_bounds:
  assumes "file_holds cmp es f" "e \<in> set es"
  shows "InternalCompare cmp (fm_smallest f) (ikey e) \<le> 0" "InternalCompare cmp (ikey e) (fm_largest f) \<le> 0"
proof -
  have len: "8 \<le> length (ikey x)" for x :: mem_entry by (rule AppendInternalKey_parts(3))
  have so: "sorted_wrt (\<lambda>a b. InternalCompare cmp (ikey a) (ikey b) < 0) es"
    using assms(1) by (auto simp: file_holds_def entries_sorted_def elim: sorted_wrt_mono_rel [rotated])
  obtain i where i: "i < length es" "e = es ! i" "es \<noteq> []" using assms(2) by (metis empty_iff in_set_conv_nth list.set(1))
  have "InternalCompare cmp (ikey (hd es)) (ikey e) \<le> 0"
    using so i internal.cmp_refl [OF len] by (cases "i = 0") (auto simp: hd_conv_nth sorted_wrt_iff_nth_less less_imp_le)
  then show "InternalCompare cmp (fm_smallest f) (ikey e) \<le> 0" using assms(1) by (simp add: file_holds_def)
  have "InternalCompare cmp (ikey e) (ikey (last es)) \<le> 0"
    using so i internal.cmp_refl [OF len] by (cases "i = length es - 1") (auto simp: last_conv_nth sorted_wrt_iff_nth_less less_imp_le)
  then show "InternalCompare cmp (ikey e) (fm_largest f) \<le> 0" using assms(1) by (simp add: file_holds_def)
qed

lemma file_holds_user_bounds:
  assumes "file_holds cmp es f" "e \<in> set es"
  shows "cmp (file_start f) (user_key (fst e)) \<le> 0" "cmp (user_key (fst e)) (file_limit f) \<le> 0"
  using file_holds_bounds [OF assms] cmp_refl by (auto simp: InternalCompare_le AppendInternalKey_parts)

lemma level0_newest:
  assumes "list_all (\<lambda>f. file_holds cmp (ct f) f) files" "distinct (map fm_number files)"
    "list_all (\<lambda>f. list_all (\<lambda>g. fm_number g < fm_number f \<longrightarrow> newer (ct f) (ct g)) files) files"
  shows "newest_visible (level_entries ct files) u t (find (visible u t) (level_entries ct (level0_files cmp u files)))"
proof -
  let ?P = "\<lambda>f. cmp u (file_start f) \<ge> 0 \<and> cmp u (file_limit f) \<le> 0"
  let ?fs = "level0_files cmp u files"
  have set_fs: "set ?fs = {f \<in> set files. ?P f}" by (simp add: level0_files_def)
  have d: "distinct (map fm_number ?fs)"
    using assms(2) by (auto simp: level0_files_def distinct_map inj_on_def)
  have "sorted (map fm_number (rev ?fs))" by (simp add: level0_files_def)
  then have "sorted_wrt (\<ge>) (map fm_number ?fs)" by (metis rev_map rev_rev_ident sorted_wrt_rev)
  then have "sorted_wrt (\<lambda>f g. fm_number g < fm_number f) ?fs"
    using d by (auto simp: sorted_wrt_iff_nth_less distinct_conv_nth le_less)
  then have "sorted_wrt (\<lambda>f g. newer (ct f) (ct g)) ?fs"
    by (rule sorted_wrt_mono_rel [rotated]) (use assms(3) set_fs in \<open>auto simp: list_all_iff\<close>)
  then have "newest_visible (concat (map ct ?fs)) u t (find (visible u t) (concat (map ct ?fs)))"
    by (intro newest_visible_concat) (use assms(1) set_fs sorted_find_visible in \<open>auto simp: sorted_wrt_map list_all_iff file_holds_def\<close>)
  then show ?thesis unfolding level_entries_def
  proof (rule newest_visible_drop)
    fix e assume e: "e \<in> set (concat (map ct files))" "visible u t e"
    then obtain f where f: "f \<in> set files" "e \<in> set (ct f)" by auto
    then have "?P f" using file_holds_user_bounds [of "ct f" f e] assms(1) e(2) cmp_flip by (auto simp: list_all_iff visible_def)
    then show "e \<in> set (concat (map ct ?fs))" using f set_fs by auto
  qed (use set_fs in auto)
qed

end

lemma entries_sorted_append:
  "entries_sorted cmp (as @ bs) \<longleftrightarrow> entries_sorted cmp as \<and> entries_sorted cmp bs \<and>
     (\<forall>a\<in>set as. \<forall>b\<in>set bs. InternalCompare cmp (ikey a) (ikey b) < 0 \<and>
       (user_key (fst a) = user_key (fst b) \<longrightarrow> sequence (fst b) < sequence (fst a)))"
  by (auto simp: entries_sorted_def sorted_wrt_append)

context user_comparator
begin

lemma file_holds_wf:
  assumes "file_holds cmp es f"
  shows "file_wf cmp f"
proof -
  have "hd es \<in> set es" "last es \<in> set es" using assms by (auto simp: file_holds_def)
  then show ?thesis using assms file_holds_bounds(2) [OF assms, of "hd es"]
    by (auto simp: file_wf_def valid_key_def file_holds_def ParseInternalKey_Append entries_sorted_def list_all_iff)
qed

lemma level_sorted_entries:
  assumes "list_all (\<lambda>f. file_holds cmp (ct f) f) files" "entries_sorted cmp (level_entries ct files)"
  shows "level_sorted cmp files"
  using assms
proof (induction files)
  case Nil
  show ?case by (simp add: level_sorted_def)
next
  case (Cons f files)
  then have f: "file_holds cmp (ct f) f" and IH: "level_sorted cmp files"
    and s: "\<forall>a\<in>set (ct f). \<forall>b\<in>set (level_entries ct files). InternalCompare cmp (ikey a) (ikey b) < 0"
    by (auto simp: level_entries_def entries_sorted_append)
  have "InternalCompare cmp (fm_largest f) (fm_smallest g) < 0" if g: "g \<in> set files" for g
  proof -
    have h: "file_holds cmp (ct g) g" using Cons.prems(1) g by (simp add: list_all_iff)
    then have "last (ct f) \<in> set (ct f)" "hd (ct g) \<in> set (ct g)" using f by (auto simp: file_holds_def)
    moreover have "set (ct g) \<subseteq> set (level_entries ct files)" using g by (auto simp: level_entries_def)
    ultimately have "last (ct f) \<in> set (ct f)" "hd (ct g) \<in> set (level_entries ct files)" by blast+
    then show ?thesis using s f h by (auto simp: file_holds_def)
  qed
  then show ?case using IH file_holds_wf [OF f] by (auto simp: level_sorted_def)
qed

text \<open>Above level zero the one file of the binary search has the first visible entry of the whole level.\<close>

lemma level_files_search:
  assumes "list_all (\<lambda>f. file_holds cmp (ct f) f) files" "entries_sorted cmp (level_entries ct files)" "t \<le> kMaxSequenceNumber"
  shows "find (visible u t) (level_entries ct (level_files cmp u (lookup_ikey u t) files)) = find (visible u t) (level_entries ct files)"
proof -
  let ?k = "lookup_ikey u t"
  let ?P = "\<lambda>f. InternalCompare cmp (fm_largest f) ?k < 0"
  have h: "file_holds cmp (ct f) f" if "f \<in> set files" for f using assms(1) that by (simp add: list_all_iff)
  have len: "8 \<le> length (AppendInternalKey [] x)" for x by (rule AppendInternalKey_parts(3))
  have e_ok: "sequence (fst e) \<le> kMaxSequenceNumber" if "e \<in> set (level_entries ct files)" for e
    using assms(2) that by (simp add: entries_sorted_def list_all_iff)
  have idx: "FindFile cmp files ?k = length (takeWhile ?P files)"
    by (rule FindFile_spec [OF level_sorted_entries [OF assms(1,2)] len])
  have early: "find (visible u t) (level_entries ct (takeWhile ?P files)) = None"
  proof -
    have "\<not> visible u t e" if e: "f \<in> set (takeWhile ?P files)" "e \<in> set (ct f)" for f e
    proof -
      have f: "f \<in> set files" "?P f" using e(1) set_takeWhileD by metis+
      have lf: "8 \<le> length (fm_largest f)" using file_holds_wf [OF h [OF f(1)]] valid_key_bounds(1) by (simp add: file_wf_def)
      have "InternalCompare cmp (ikey e) ?k < 0"
        using internal.le_less_trans [OF len lf len file_holds_bounds(2) [OF h [OF f(1)] e(2)] f(2)] .
      moreover have "e \<in> set (level_entries ct files)" using e(2) f(1) by (auto simp: level_entries_def)
      ultimately show ?thesis using at_or_after [OF e_ok assms(3)] by blast
    qed
    then show ?thesis by (auto simp: find_None_iff level_entries_def)
  qed
  have split: "find (visible u t) (level_entries ct files) = find (visible u t) (level_entries ct (dropWhile ?P files))"
    using early arg_cong [OF takeWhile_dropWhile_id [of ?P files], of "level_entries ct"]
    by (metis (no_types, lifting) level_entries_def map_append concat_append find_append_case option.case(1))
  show ?thesis
  proof (cases "dropWhile ?P files")
    case Nil
    then have "length files \<le> FindFile cmp files ?k" using idx takeWhile_dropWhile_id [of ?P files] by (metis append_Nil2 order_refl)
    then show ?thesis using split Nil by (simp add: level_files_def level_entries_def)
  next
    case (Cons g rest)
    have files: "files = takeWhile ?P files @ g # rest" using takeWhile_dropWhile_id [of ?P files] Cons by simp
    have g: "g \<in> set files" "files ! FindFile cmp files ?k = g" "FindFile cmp files ?k < length files" "\<not> ?P g"
      using files idx Cons by (metis in_set_conv_decomp, metis nth_append_length, metis length_append less_add_same_cancel1 length_greater_0_conv list.distinct(1), metis dropWhile_eq_Cons_conv)
    note hg = h [OF g(1)]
    have s: "InternalCompare cmp (ikey a) (ikey b) < 0" if "a \<in> set (ct g)" "b \<in> set (level_entries ct rest)" for a b
      using assms(2) that by (subst (asm) files) (auto simp: level_entries_def entries_sorted_append)
    have in_level: "e \<in> set (level_entries ct files)" if "e \<in> set (ct g) \<union> set (level_entries ct rest)" for e
      using that by (subst files) (auto simp: level_entries_def)
    have later: "\<not> visible u t b" if b: "a \<in> set (ct g)" "cmp u (user_key (fst a)) < 0" "b \<in> set (level_entries ct rest)" for a b
      using ikey_less [OF e_ok e_ok s [OF b(1,3)]] in_level b less_trans [of u "user_key (fst a)" "user_key (fst b)"] cmp_refl [of u]
      by (auto simp: visible_def)
    have last: "last (ct g) \<in> set (ct g)" "hd (ct g) \<in> set (ct g)" using hg by (auto simp: file_holds_def)
    show ?thesis
    proof (cases "cmp u (file_start g) < 0")
      case True
      have after: "cmp u (user_key (fst e)) < 0" if "e \<in> set (ct g)" for e
        using less_le_trans [of u "file_start g"] file_holds_user_bounds(1) [OF hg that] True by blast
      have "\<not> visible u t e" if e: "e \<in> set (ct g) \<union> set (level_entries ct rest)" for e
        using e after [of e] later [OF last(2) after [OF last(2)], of e] cmp_refl [of u] by (metis Un_iff visible_def less_irrefl)
      then have "find (visible u t) (level_entries ct (g # rest)) = None" by (auto simp: find_None_iff level_entries_def)
      then show ?thesis using split Cons True g by (simp add: level_files_def level_entries_def)
    next
      case False
      have "find (visible u t) (level_entries ct rest) = None" if none: "find (visible u t) (ct g) = None"
      proof -
        have "\<not> InternalCompare cmp (ikey (last (ct g))) ?k < 0" using g(4) hg by (simp add: file_holds_def)
        moreover have "\<not> visible u t (last (ct g))" using none last(1) by (metis find_None_iff)
        ultimately have "cmp u (user_key (fst (last (ct g)))) < 0" using at_or_after [OF e_ok assms(3)] in_level last(1) by blast
        then show ?thesis using later [OF last(1)] by (auto simp: find_None_iff)
      qed
      then show ?thesis using split Cons False g
        by (simp add: level_files_def Let_def) (auto simp: level_entries_def find_append_case split: option.split)
    qed
  qed
qed

end

subsection \<open>All levels\<close>

context user_comparator
begin

lemma search_levels_spec:
  assumes "t \<le> kMaxSequenceNumber" "levels_ok cmp ct ([] # levels) \<and> level > 0 \<or> levels_ok cmp ct levels \<and> level = 0"
    "\<And>f. f \<in> \<Union>(set (map set levels)) \<Longrightarrow> reads cmp ct table_get (lookup_ikey u t) f"
  shows "\<exists>r st'. newest_visible (concat (map (level_entries ct) levels)) u t r \<and>
    search_levels cmp table_get u (lookup_ikey u t) level levels st = (fst (lookup_answer (gs_value st) r), st') \<and>
    gs_value st' = snd (lookup_answer (gs_value st) r)"
  using assms(2-)
proof (induction levels arbitrary: level st)
  case Nil
  show ?case by (intro exI [of _ None] exI [of _ st]) (simp add: newest_visible_None)
next
  case (Cons files levels)
  let ?fs = "if files = [] then [] else if level = 0 then level0_files cmp u files else level_files cmp u (lookup_ikey u t) files"
  let ?r = "find (visible u t) (level_entries ct ?fs)"
  have h: "list_all (\<lambda>f. file_holds cmp (ct f) f) files" and rest: "levels_ok cmp ct ([] # levels)"
    and new: "newer (level_entries ct files) (concat (map (level_entries ct) levels))"
    using Cons.prems(1) by (auto simp: levels_ok_def newer_concat list_all_iff newer_append level_entries_def [of _ "[]"])
  have sub: "set ?fs \<subseteq> set files"
    by (auto simp: level0_files_def level_files_def Let_def split: if_splits)
  have newest: "newest_visible (level_entries ct files) u t ?r"
  proof (cases "level = 0")
    case True
    then show ?thesis using level0_newest [OF h, of u t] Cons.prems(1)
      by (auto simp: levels_ok_def level_entries_def newest_visible_None)
  next
    case False
    then have s: "entries_sorted cmp (level_entries ct files)" using Cons.prems(1) by (auto simp: levels_ok_def)
    then show ?thesis using False level_files_search [OF h s assms(1), of u] sorted_find_visible [OF s, of u t] by (auto simp: level_entries_def)
  qed
  obtain st1 where st1: "gs_value st1 = snd (lookup_answer (gs_value st) ?r)"
    "search_files cmp table_get u (lookup_ikey u t) level ?fs st =
       (case ?r of None \<Rightarrow> Inr st1 | Some e \<Rightarrow> Inl (fst (lookup_answer (gs_value st) (Some e)), st1))"
  proof (rule search_files_spec [of ?fs ct table_get u t st level, OF _ assms(1)])
    show "entries_sorted cmp (ct f) \<and> reads cmp ct table_get (lookup_ikey u t) f" if "f \<in> set ?fs" for f
      using subsetD [OF sub that] h Cons.prems(2) by (auto simp: list_all_iff file_holds_def)
  qed
  obtain r st2 where r: "newest_visible (concat (map (level_entries ct) levels)) u t r"
    "search_levels cmp table_get u (lookup_ikey u t) (level + 1) levels st1 = (fst (lookup_answer (gs_value st1) r), st2)"
    "gs_value st2 = snd (lookup_answer (gs_value st1) r)"
    using Cons.IH [of "level + 1" st1] rest Cons.prems(2) by auto
  have all: "newest_visible (concat (map (level_entries ct) (files # levels))) u t (case ?r of None \<Rightarrow> r | Some e \<Rightarrow> Some e)"
    using newest_visible_append [OF newest r(1) new] by simp
  show ?case
  proof (cases ?r)
    case None
    then show ?thesis using all st1 r by (intro exI [of _ r] exI [of _ st2]) (simp del: search_files.simps)
  next
    case (Some e)
    then show ?thesis using all st1 r by (intro exI [of _ "Some e"] exI [of _ st1]) (simp del: search_files.simps)
  qed
qed

lemma Version_Get_newest:
  assumes "version_ok cmp ct v" "length u + 8 < 2 ^ 32" "t \<le> kMaxSequenceNumber"
    "list_all (list_all (reads cmp ct table_get (lookup_ikey u t))) (v_files v)" "newest_visible (version_entries ct v) u t r"
  shows "\<exists>stats. Version_Get cmp table_get v (new_LookupKey u t) value = (fst (lookup_answer value r), snd (lookup_answer value r), stats)"
proof -
  let ?st = "\<lparr>gs_stats = \<lparr>seek_file = None, seek_file_level = -1\<rparr>, gs_last_file = None, gs_last_level = -1, gs_value = value\<rparr>"
  obtain r' st' where r': "newest_visible (version_entries ct v) u t r'"
    "search_levels cmp table_get u (lookup_ikey u t) 0 (v_files v) ?st = (fst (lookup_answer value r'), st')"
    "gs_value st' = snd (lookup_answer value r')"
    using search_levels_spec [OF assms(3), of ct "v_files v" 0 table_get u ?st] assms(1,4)
    by (auto simp: version_ok_def version_entries_def list_all_iff)
  then show ?thesis using newest_visible_unique [OF r'(1) assms(5)] lookup_key_parts(2,3) [OF assms(2)]
    by (simp add: Version_Get_def)
qed

end

subsection \<open>Properties\<close>

text \<open>
  (C9) \<^verbatim>\<open>Version::Get\<close> finds the newest visible entry of a user key among all tables of the version: its value, or not found for a deletion or when
  no entry is visible.  The tables of a version hold sorted entries between their bounds, the files of the levels above zero do not
  overlap, and of two tables of level zero the one with the greater number, and of two levels the first, has the newer entries; \<open>table_get\<close> is
  a lookup in one table.
\<close>

theorem version_get_newest:
  assumes "version_ok BytewiseCompare ct v" "length u + 8 < 2 ^ 32" "t \<le> kMaxSequenceNumber"
    "list_all (list_all (reads BytewiseCompare ct table_get (lookup_ikey u t))) (v_files v)" "newest_visible (version_entries ct v) u t r"
  shows "\<exists>stats. Version_Get BytewiseCompare table_get v (new_LookupKey u t) value = (fst (lookup_answer value r), snd (lookup_answer value r), stats)"
  using bytewise.Version_Get_newest [OF assms] .

definition sample_entries :: "FileMetaData \<Rightarrow> mem_entry list" where
  "sample_entries f =
     (if fm_number f = 9 then [(\<lparr>user_key = [1], sequence = 7, key_type = kTypeDeletion\<rparr>, []), (\<lparr>user_key = [4], sequence = 8, key_type = kTypeValue\<rparr>, [66])]
      else [(\<lparr>user_key = [1], sequence = 5, key_type = kTypeValue\<rparr>, [65]), (\<lparr>user_key = [3], sequence = 2, key_type = kTypeValue\<rparr>, [67])])"

definition sample_get :: table_reader where
  "sample_get f key = (OK, map_option (\<lambda>e. (ikey e, snd e)) (find (\<lambda>e. \<not> InternalCompare BytewiseCompare (ikey e) key < 0) (sample_entries f)))"

definition sample_version :: Version where
  "sample_version = new_Version\<lparr>v_files := [[new_FileMetaData 9 1000 (ikey (hd (sample_entries (sample_file 9 [] 0 [] 0)))) (ikey (last (sample_entries (sample_file 9 [] 0 [] 0))))],
     [sample_file 4 [1] 5 [3] 2], [], [], [], [], []]\<rparr>"

theorem version_get_newest_witness:
  "\<exists>stats. Version_Get BytewiseCompare sample_get sample_version (new_LookupKey [1] 6) [] = (OK, [65], stats)"
proof -
  let ?r = "Some (\<lparr>user_key = [1], sequence = 5, key_type = kTypeValue\<rparr>, [65])"
  have "version_ok BytewiseCompare sample_entries sample_version" "6 \<le> kMaxSequenceNumber"
    "list_all (list_all (reads BytewiseCompare sample_entries sample_get (lookup_ikey [1] 6))) (v_files sample_version)"
    "newest_visible (version_entries sample_entries sample_version) [1] 6 ?r"
    by code_simp+
  then show ?thesis
    using version_get_newest [of sample_entries sample_version "[1]" 6 sample_get ?r "[]"] by simp
qed

end
