(* ===== verification/Ldb_Db_Iter_Spec.thy ===== *)
theory Ldb_Db_Iter_Spec
  imports Ldb_Db_Iter Ldb_Merger_Spec Ldb_Version_Get
begin

text \<open>
  What the iterator of the database shows: the newest values that the snapshot sees, in the order of the user keys.
\<close>

subsection \<open>Sampling ends\<close>

definition good_seed :: "uint32 \<Rightarrow> bool" where
  "good_seed s \<longleftrightarrow> 0 < unat s \<and> unat s < 2147483647"

lemma new_Random_good: "good_seed (new_Random s)"
proof -
  let ?s = "s AND 0x7fffffff"
  have "unat ?s \<le> 2147483647" using word_and_le1 [of s "0x7fffffff"] by (simp add: word_le_nat_alt)
  moreover have "unat ?s \<noteq> 2147483647" if "?s \<noteq> 2147483647" using that by (auto simp: word_unat_eq_iff)
  ultimately show ?thesis by (auto simp: new_Random_def good_seed_def Let_def unat_gt_0)
qed

lemma coprime_lcg: "coprime (2147483647 :: nat) 16807" "coprime (2097152 :: nat) 2147483647"
  by (simp_all add: coprime_iff_gcd_eq_1 gcd_non_0_nat)

lemma Random_Next_mod:
  assumes "good_seed s"
  shows "unat (Random_Next s) = unat s * 16807 mod 2147483647" "good_seed (Random_Next s)"
proof -
  let ?P = "unat s * 16807" and ?M = "2147483647 :: nat"
  let ?p = "ucast s * 16807 :: uint64"
  have s: "0 < unat s" "unat s < ?M" using assms by (simp_all add: good_seed_def)
  have p: "unat ?p = ?P" using s by (simp add: unat_word_ariths unsigned_ucast_eq take_bit_nat_eq_self)
  have nd: "\<not> ?M dvd ?P" using s coprime_lcg(1) by (metis coprime_dvd_mult_left_iff dvd_imp_le not_le)
  define a b where "a = ?P div 2 ^ 31" and "b = ?P mod 2 ^ 31"
  have ab: "?P = 2 ^ 31 * a + b" "b < 2 ^ 31" "a < 2 ^ 15" using s by (auto simp: a_def b_def)
  have sum: "unat (drop_bit 31 ?p + (?p AND 2147483647)) = a + b"
  proof -
    have 1: "unat (drop_bit 31 ?p) = a" by (simp add: drop_bit_eq_div unat_div p a_def)
    have "?p AND 2147483647 = take_bit 31 ?p" by (simp add: take_bit_eq_mask mask_eq_exp_minus_1)
    then have 2: "unat (?p AND 2147483647) = b" by (simp add: unsigned_take_bit_eq take_bit_eq_mod unat_mod p b_def)
    show ?thesis using 1 2 ab by (simp add: unat_word_ariths)
  qed
  then have u: "unat (ucast (drop_bit 31 ?p + (?p AND 2147483647)) :: uint32) = a + b" using ab by (simp add: unsigned_ucast_eq take_bit_nat_eq_self)
  have m: "?P mod ?M = (a + b) mod ?M"
  proof -
    have "?P = (a + b) + ?M * a" using ab(1) by simp
    then show ?thesis by (simp only: mod_mult_self2)
  qed
  have ne: "(a + b) mod ?M \<noteq> 0" using nd m by (simp add: dvd_eq_mod_eq_0)
  show r: "unat (Random_Next s) = ?P mod ?M"
  proof (cases "a + b > ?M")
    case True
    then have "a + b - ?M < ?M" using ab by simp
    then have "(a + b) mod ?M = a + b - ?M" using True by (simp add: mod_if)
    then show ?thesis unfolding m using True u by (simp add: Random_Next_def Let_def word_less_nat_alt unat_sub_if')
  next
    case False
    then have "a + b < ?M" using ne by (cases "a + b = ?M") auto
    then show ?thesis unfolding m using False u by (simp add: Random_Next_def Let_def word_less_nat_alt)
  qed
  show "good_seed (Random_Next s)" unfolding good_seed_def r using ne m by simp
qed

text \<open>A period is never zero twice in a row.\<close>

lemma period_not_zero_twice:
  assumes "good_seed s" "unat s mod 2097152 = 0"
  shows "unat (Random_Next s) mod 2097152 \<noteq> 0"
proof
  assume z: "unat (Random_Next s) mod 2097152 = 0"
  let ?M = "2147483647 :: nat"
  define q where "q = unat s * 16807 div ?M"
  have s: "0 < unat s" "unat s < ?M" using assms by (simp_all add: good_seed_def)
  moreover have e: "unat s * 16807 = ?M * q + unat (Random_Next s)" unfolding q_def Random_Next_mod(1) [OF assms(1)] by simp
  moreover have "(2097152 :: nat) dvd ?M * q" using e assms(2) z by (metis dvd_add_left_iff dvd_eq_mod_eq_0 dvd_mult2)
  ultimately have "2097152 dvd q" using coprime_lcg(2) by (simp add: coprime_dvd_mult_right_iff)
  moreover have "q < 2097152" using s by (auto simp: q_def)
  ultimately have "q = 0" by (auto dest: dvd_imp_le)
  then have "unat s * 16807 < ?M" using Random_Next_mod [OF assms(1)] e by (auto simp: good_seed_def)
  moreover have "2097152 \<le> unat s" using s(1) assms(2) by (metis mod_less not_le less_irrefl)
  ultimately show False by simp
qed

lemma period: "RandomCompactionPeriod g = (unat (Random_Next g) mod 2097152, Random_Next g)"
  by (simp add: RandomCompactionPeriod_def Let_def kReadBytesPeriod_def unat_mod)

lemma sample_loop_ends:
  assumes "good_seed (di_rnd d)"
  shows "\<exists>g n samples. sample_loop bytes_read k d = Some (d\<lparr>di_bytes_until_read_sampling := n, di_rnd := g, di_samples := samples\<rparr>) \<and> good_seed g \<and> bytes_read \<le> n"
  using assms
proof (induction "bytes_read - di_bytes_until_read_sampling d" arbitrary: d rule: less_induct)
  case less
  let ?until = di_bytes_until_read_sampling
  define more_bytes where "more_bytes d = d\<lparr>di_bytes_until_read_sampling := ?until d + unat (Random_Next (di_rnd d)) mod 2097152,
     di_rnd := Random_Next (di_rnd d), di_samples := di_samples d @ [k]\<rparr>" for d :: "'a DBIter"
  have step: "sample_loop bytes_read k d = (if ?until d < bytes_read then sample_loop bytes_read k (more_bytes d) else Some d)" for d :: "'a DBIter"
    by (subst sample_loop.simps) (simp add: period more_bytes_def)
  have good: "good_seed (di_rnd (more_bytes d))" if "good_seed (di_rnd d)" for d using Random_Next_mod(2) [OF that] by (simp add: more_bytes_def)
  show ?case
  proof (cases "?until d < bytes_read")
    case False
    then show ?thesis using less.prems step [of d]
      by (intro exI [of _ "di_rnd d"] exI [of _ "?until d"] exI [of _ "di_samples d"]) simp
  next
    case True
    show ?thesis
    proof (cases "unat (Random_Next (di_rnd d)) mod 2097152 = 0")
      case False
      then have "bytes_read - ?until (more_bytes d) < bytes_read - ?until d" using True by (simp add: more_bytes_def)
      from less.hyps [OF this good [OF less.prems]] show ?thesis using True step [of d] by (simp add: more_bytes_def)
    next
      case zero: True
      let ?d = "more_bytes d"
      have "unat (Random_Next (di_rnd ?d)) mod 2097152 \<noteq> 0"
        using period_not_zero_twice [OF good [OF less.prems]] zero by (simp add: more_bytes_def)
      then have lt: "bytes_read - ?until (more_bytes ?d) < bytes_read - ?until d" using True zero by (simp add: more_bytes_def)
      have u: "?until ?d = ?until d" using zero by (simp add: more_bytes_def)
      have "\<exists>g n samples. sample_loop bytes_read k (more_bytes ?d) = Some ((more_bytes ?d)\<lparr>di_bytes_until_read_sampling := n, di_rnd := g, di_samples := samples\<rparr>) \<and>
          good_seed g \<and> bytes_read \<le> n"
        by (rule less.hyps [OF lt good [OF good [OF less.prems]]])
      then show ?thesis using True step [of d] step [of ?d] u by (simp add: more_bytes_def)
    qed
  qed
qed

subsection \<open>What is shown\<close>

text \<open>
  The entries \<open>ms\<close> are in the order of internal keys.  One of them is shown when it is a value that the snapshot sees and the snapshot sees no newer entry of the same
  user key.
\<close>

definition ukey :: "mem_entry list \<Rightarrow> nat \<Rightarrow> byte list" where
  "ukey ms i = user_key (fst (ms ! i))"

definition visible_at :: "SequenceNumber \<Rightarrow> mem_entry list \<Rightarrow> nat \<Rightarrow> bool" where
  "visible_at s ms i \<longleftrightarrow> sequence (fst (ms ! i)) \<le> s"

definition shown :: "SequenceNumber \<Rightarrow> mem_entry list \<Rightarrow> nat \<Rightarrow> bool" where
  "shown s ms i \<longleftrightarrow>
     visible_at s ms i \<and> key_type (fst (ms ! i)) = kTypeValue \<and> list_all (\<lambda>j. ukey ms j = ukey ms i \<longrightarrow> \<not> visible_at s ms j) [0 ..< i]"

definition db_view :: "SequenceNumber \<Rightarrow> mem_entry list \<Rightarrow> record_list" where
  "db_view s ms = map (\<lambda>i. (ukey ms i, snd (ms ! i))) (filter (shown s ms) [0 ..< length ms])"

definition rank :: "SequenceNumber \<Rightarrow> mem_entry list \<Rightarrow> nat \<Rightarrow> nat" where
  "rank s ms i = length (filter (shown s ms) [0 ..< i])"

lemma shown_iff:
  "shown s ms i \<longleftrightarrow> visible_at s ms i \<and> key_type (fst (ms ! i)) = kTypeValue \<and> (\<forall>j < i. ukey ms j = ukey ms i \<longrightarrow> \<not> visible_at s ms j)"
  by (auto simp: shown_def list_all_iff)

lemma rank_0 [simp]: "rank s ms 0 = 0"
  by (simp add: rank_def)

lemma rank_Suc: "rank s ms (Suc i) = rank s ms i + (if shown s ms i then 1 else 0)"
  by (simp add: rank_def)

lemma rank_all: "length (db_view s ms) = rank s ms (length ms)"
  by (simp add: db_view_def rank_def)

lemma db_view_split:
  assumes "i \<le> length ms"
  shows "db_view s ms = map (\<lambda>i. (ukey ms i, snd (ms ! i))) (filter (shown s ms) [0 ..< i]) @ map (\<lambda>i. (ukey ms i, snd (ms ! i))) (filter (shown s ms) [i ..< length ms])"
  using upt_add_eq_append [of 0 i "length ms - i"] assms by (simp add: db_view_def flip: map_append filter_append)

lemma db_view_nth:
  assumes "i < length ms" "shown s ms i"
  shows "rank s ms i < length (db_view s ms)" "db_view s ms ! rank s ms i = (ukey ms i, snd (ms ! i))"
  using db_view_split [of i ms s] assms by (simp_all add: rank_def upt_conv_Cons nth_append)

lemma rank_skip: "i \<le> j \<Longrightarrow> \<forall>x. i \<le> x \<longrightarrow> x < j \<longrightarrow> \<not> shown s ms x \<Longrightarrow> rank s ms j = rank s ms i"
proof (induction j)
  case (Suc j)
  then show ?case by (cases "i = Suc j") (auto simp: rank_Suc)
qed simp

subsection \<open>The order of the entries\<close>

abbreviation internal_list :: "mem_entry list \<Rightarrow> record_list" where
  "internal_list ms \<equiv> map (\<lambda>e. (ikey e, snd e)) ms"

locale db_iterator = user_comparator cmp separator successor + base: iterator_over "\<lambda>k. 8 \<le> length k" "InternalCompare cmp" ops on
  for cmp :: "byte list \<Rightarrow> byte list \<Rightarrow> int" and separator and successor and ops :: "'i iterator_ops" and on
begin

lemma ukey_mono:
  assumes "entries_sorted cmp ms" "i \<le> j" "j < length ms"
  shows "cmp (ukey ms i) (ukey ms j) \<le> 0"
proof (cases "i = j")
  case False
  then have "InternalCompare cmp (ikey (ms ! i)) (ikey (ms ! j)) < 0" using assms by (simp add: entries_sorted_def sorted_wrt_iff_nth_less)
  then show ?thesis unfolding InternalCompare_less AppendInternalKey_parts ukey_def using cmp_refl by auto
qed (simp add: cmp_refl)

lemma ukey_antisym: "cmp a b \<le> 0 \<Longrightarrow> cmp b a \<le> 0 \<Longrightarrow> a = b"
  using cmp_eq cmp_flip [of a b] by force

lemma ukey_less_trans: "cmp a b \<le> 0 \<Longrightarrow> cmp b c < 0 \<Longrightarrow> cmp a c < 0" "cmp a b < 0 \<Longrightarrow> cmp b c \<le> 0 \<Longrightarrow> cmp a c < 0"
  using le_less_trans [of a b c] less_le_trans [of a b c] by auto

end

text \<open>The state between two calls: the iterator below stands at \<open>ip\<close> in the entries.\<close>

definition base_at ::
  "(byte list \<Rightarrow> byte list \<Rightarrow> int) \<Rightarrow> ('i \<Rightarrow> record_list \<Rightarrow> nat option \<Rightarrow> bool) \<Rightarrow> SequenceNumber \<Rightarrow> mem_entry list \<Rightarrow> nat option \<Rightarrow> 'i DBIter \<Rightarrow> bool" where
  "base_at cmp on s ms ip d \<longleftrightarrow>
     on (di_iter d) (internal_list ms) ip \<and> di_sequence d = s \<and> di_status d = OK \<and> good_seed (di_rnd d) \<and> entries_sorted cmp ms \<and>
     s \<le> kMaxSequenceNumber"

lemma base_at_update [simp]:
  "base_at cmp on s ms ip (d\<lparr>di_saved_key := k\<rparr>) = base_at cmp on s ms ip d" "base_at cmp on s ms ip (d\<lparr>di_saved_value := v\<rparr>) = base_at cmp on s ms ip d"
  "base_at cmp on s ms ip (d\<lparr>di_direction := dir\<rparr>) = base_at cmp on s ms ip d" "base_at cmp on s ms ip (d\<lparr>di_valid := b\<rparr>) = base_at cmp on s ms ip d"
  by (simp_all add: base_at_def)

lemma base_at_move: "base_at cmp on s ms ip d \<Longrightarrow> on i (internal_list ms) ip' \<Longrightarrow> base_at cmp on s ms ip' (d\<lparr>di_iter := i\<rparr>)"
  by (simp add: base_at_def)

text \<open>Parsing a key changes the samples only.\<close>

definition same_entry_state :: "'i DBIter \<Rightarrow> 'i DBIter \<Rightarrow> bool" where
  "same_entry_state d d' \<longleftrightarrow> di_iter d' = di_iter d \<and> di_saved_key d' = di_saved_key d \<and> di_saved_value d' = di_saved_value d \<and>
     di_direction d' = di_direction d \<and> di_valid d' = di_valid d"

context db_iterator
begin

lemma ParseKey_ok:
  assumes "base_at cmp on s ms (Some i) d"
  obtains d' where "ParseKey ops d = Some (Some (fst (ms ! i)), d')" "base_at cmp on s ms (Some i) d'" "same_entry_state d d'"
    "seen d' (Some (fst (ms ! i))) = (if visible_at s ms i then Some (fst (ms ! i)) else None)" "i < length ms"
    "io_key ops (di_iter d) = Some (ikey (ms ! i))" "io_value ops (di_iter d) = Some (snd (ms ! i))"
proof -
  have on: "on (di_iter d) (internal_list ms) (Some i)" and b: "di_sequence d = s" "di_status d = OK" "good_seed (di_rnd d)" "entries_sorted cmp ms" "s \<le> kMaxSequenceNumber"
    using assms by (simp_all add: base_at_def)
  have e: "i < length ms" "io_key ops (di_iter d) = Some (ikey (ms ! i))" "io_value ops (di_iter d) = Some (snd (ms ! i))" using base.on_entry [OF on] by auto
  let ?n = "length (ikey (ms ! i)) + length (snd (ms ! i))"
  obtain g n x where l: "sample_loop ?n (ikey (ms ! i)) d = Some (d\<lparr>di_bytes_until_read_sampling := n, di_rnd := g, di_samples := x\<rparr>)" "good_seed g"
    using sample_loop_ends [OF b(3)] by blast
  have "sequence (fst (ms ! i)) \<le> kMaxSequenceNumber" using b(4) e(1) by (simp add: entries_sorted_def list_all_length)
  then have p: "ParseInternalKey (ikey (ms ! i)) = Some (fst (ms ! i))" by (rule ParseInternalKey_Append)
  let ?d = "d\<lparr>di_bytes_until_read_sampling := n - ?n, di_rnd := g, di_samples := x\<rparr>"
  have "ParseKey ops d = Some (Some (fst (ms ! i)), ?d)" using e(2,3) l(1) p by (simp add: ParseKey_def Let_def)
  then show thesis using that [of ?d] on b l(2) e by (simp add: base_at_def same_entry_state_def seen_def visible_at_def)
qed

lemma base_moves:
  assumes "base_at cmp on s ms ip d"
  shows "\<exists>i. io_SeekToFirst ops (di_iter d) = Some i \<and> base_at cmp on s ms (pos_of ms 0) (d\<lparr>di_iter := i\<rparr>) \<and> (io_Valid ops i \<longleftrightarrow> ms \<noteq> [])"
    "\<exists>i. io_SeekToLast ops (di_iter d) = Some i \<and> base_at cmp on s ms (pos_before (length ms)) (d\<lparr>di_iter := i\<rparr>) \<and> (io_Valid ops i \<longleftrightarrow> ms \<noteq> [])"
    "ip = Some n \<Longrightarrow> \<exists>i. io_Next ops (di_iter d) = Some i \<and> base_at cmp on s ms (pos_of ms (Suc n)) (d\<lparr>di_iter := i\<rparr>) \<and> (io_Valid ops i \<longleftrightarrow> Suc n < length ms)"
    "ip = Some n \<Longrightarrow> \<exists>i. io_Prev ops (di_iter d) = Some i \<and> base_at cmp on s ms (pos_before n) (d\<lparr>di_iter := i\<rparr>) \<and> (io_Valid ops i \<longleftrightarrow> n \<noteq> 0)"
proof -
  have on: "on (di_iter d) (internal_list ms) ip" using assms by (simp add: base_at_def)
  have p: "pos_of (internal_list ms) n = pos_of ms n" for n by (simp add: pos_of_def)
  have *: "\<exists>i. step = Some i \<and> base_at cmp on s ms q (d\<lparr>di_iter := i\<rparr>) \<and> (io_Valid ops i \<longleftrightarrow> q \<noteq> None)" if moved: "\<exists>i. step = Some i \<and> on i (internal_list ms) q" for step q
  proof -
    obtain i where i: "step = Some i" "on i (internal_list ms) q" using moved by blast
    then show ?thesis using base_at_move [OF assms i(2)] base.on_Valid [OF i(2)] by (intro exI [of _ i]) simp
  qed
  show "\<exists>i. io_SeekToFirst ops (di_iter d) = Some i \<and> base_at cmp on s ms (pos_of ms 0) (d\<lparr>di_iter := i\<rparr>) \<and> (io_Valid ops i \<longleftrightarrow> ms \<noteq> [])"
    using * [OF base.on_SeekToFirst [OF on]] by (simp add: p)
  show "\<exists>i. io_SeekToLast ops (di_iter d) = Some i \<and> base_at cmp on s ms (pos_before (length ms)) (d\<lparr>di_iter := i\<rparr>) \<and> (io_Valid ops i \<longleftrightarrow> ms \<noteq> [])"
    using * [OF base.on_SeekToLast [OF on]] by simp
  show "\<exists>i. io_Next ops (di_iter d) = Some i \<and> base_at cmp on s ms (pos_of ms (Suc n)) (d\<lparr>di_iter := i\<rparr>) \<and> (io_Valid ops i \<longleftrightarrow> Suc n < length ms)" if "ip = Some n"
    using * [OF base.on_Next [OF on [unfolded that]]] by (simp add: p not_le)
  show "\<exists>i. io_Prev ops (di_iter d) = Some i \<and> base_at cmp on s ms (pos_before n) (d\<lparr>di_iter := i\<rparr>) \<and> (io_Valid ops i \<longleftrightarrow> n \<noteq> 0)" if "ip = Some n"
    using * [OF base.on_Prev [OF on [unfolded that]]] by simp
qed

subsection \<open>The loop forward\<close>

text \<open>
  \<open>T\<close> are the entries that the loop may stop at: the values that are seen and not hidden, neither by the key to skip nor by an entry before them.  It stops at the first
  one of them.
\<close>

lemma FindNextUserEntry_ok:
  assumes "base_at cmp on s ms (Some i) d" "di_direction d = kForward"
    and "skipping \<Longrightarrow> \<forall>x. i \<le> x \<longrightarrow> x < length ms \<longrightarrow> visible_at s ms x \<longrightarrow> cmp (di_saved_key d) (ukey ms x) \<le> 0"
    and "\<forall>x. i \<le> x \<longrightarrow> x < length ms \<longrightarrow>
      (T x \<longleftrightarrow> visible_at s ms x \<and> key_type (fst (ms ! x)) = kTypeValue \<and> \<not> (skipping \<and> ukey ms x = di_saved_key d) \<and>
        (\<forall>j. i \<le> j \<longrightarrow> j < x \<longrightarrow> visible_at s ms j \<longrightarrow> ukey ms j \<noteq> ukey ms x))"
  shows "\<exists>d'. FindNextUserEntry ops cmp skipping d = Some d' \<and> di_direction d' = kForward \<and>
    ((\<exists>x. i \<le> x \<and> x < length ms \<and> T x \<and> (\<forall>y. i \<le> y \<longrightarrow> y < x \<longrightarrow> \<not> T y) \<and> di_valid d' \<and> base_at cmp on s ms (Some x) d') \<or>
     (\<forall>y. i \<le> y \<longrightarrow> y < length ms \<longrightarrow> \<not> T y) \<and> \<not> di_valid d' \<and> base_at cmp on s ms None d')"
  using assms
proof (induction "length ms - i" arbitrary: i d skipping rule: less_induct)
  case less
  obtain d1 where d1: "ParseKey ops d = Some (Some (fst (ms ! i)), d1)" "base_at cmp on s ms (Some i) d1" "same_entry_state d d1"
      "seen d1 (Some (fst (ms ! i))) = (if visible_at s ms i then Some (fst (ms ! i)) else None)" "i < length ms"
    by (rule ParseKey_ok [OF less.prems(1)])
  have sorted: "entries_sorted cmp ms" using less.prems(1) by (simp add: base_at_def)
  have same: "di_saved_key d1 = di_saved_key d" "di_direction d1 = kForward" using d1(3) less.prems(2) by (simp_all add: same_entry_state_def)
  define stop where "stop \<longleftrightarrow> visible_at s ms i \<and> key_type (fst (ms ! i)) = kTypeValue \<and> \<not> (skipping \<and> cmp (ukey ms i) (di_saved_key d) \<le> 0)"
  define del where "del \<longleftrightarrow> visible_at s ms i \<and> key_type (fst (ms ! i)) = kTypeDeletion"
  define d2 where "d2 = (if del then d1\<lparr>di_saved_key := ukey ms i\<rparr> else d1)"
  have d2: "base_at cmp on s ms (Some i) d2" "di_direction d2 = kForward" "di_saved_key d2 = (if del then ukey ms i else di_saved_key d)"
    using d1(2) same by (simp_all add: d2_def)
  obtain it where it: "io_Next ops (di_iter d2) = Some it" "base_at cmp on s ms (pos_of ms (Suc i)) (d2\<lparr>di_iter := it\<rparr>)" "io_Valid ops it \<longleftrightarrow> Suc i < length ms"
    using base_moves(3) [OF d2(1) refl] by blast
  have step: "FindNextUserEntry ops cmp skipping d =
    (if stop then Some (d1\<lparr>di_valid := True, di_saved_key := []\<rparr>)
     else if Suc i < length ms then FindNextUserEntry ops cmp (skipping \<or> del) (d2\<lparr>di_iter := it\<rparr>)
     else Some (d2\<lparr>di_iter := it, di_saved_key := [], di_valid := False\<rparr>))"
    using d1(1,4) it(1,3) same by (subst FindNextUserEntry.simps) (auto simp: d2_def stop_def del_def ukey_def Let_def)
  have hidden: "skipping \<and> cmp (ukey ms i) (di_saved_key d) \<le> 0 \<longleftrightarrow> skipping \<and> ukey ms i = di_saved_key d" if "visible_at s ms i"
    using less.prems(3) d1(5) that ukey_antisym cmp_refl by auto
  have Ti: "T i \<longleftrightarrow> stop" using less.prems(4) d1(5) hidden by (auto simp: stop_def)
  show ?case
  proof (cases stop)
    case True
    then show ?thesis using step Ti d1(2,5) same by (auto intro!: exI [of _ i])
  next
    case False
    have later: "Suc i \<le> y" if "i \<le> y" "T y" for y using that Ti False by (metis le_antisym not_less_eq_eq)
    show ?thesis
    proof (cases "Suc i < length ms")
      case end_: False
      then have "\<forall>y. i \<le> y \<longrightarrow> y < length ms \<longrightarrow> \<not> T y" using later by fastforce
      then show ?thesis using step False end_ it(2) d2(2) by simp
    next
      case more_left: True
      let ?d = "d2\<lparr>di_iter := it\<rparr>"
      have sk: "\<forall>x. Suc i \<le> x \<longrightarrow> x < length ms \<longrightarrow> visible_at s ms x \<longrightarrow> cmp (di_saved_key ?d) (ukey ms x) \<le> 0" if "skipping \<or> del"
        using that less.prems(3) ukey_mono [OF sorted, of i] d2(3) by (cases del) auto
      have T': "\<forall>x. Suc i \<le> x \<longrightarrow> x < length ms \<longrightarrow>
        (T x \<longleftrightarrow> visible_at s ms x \<and> key_type (fst (ms ! x)) = kTypeValue \<and> \<not> ((skipping \<or> del) \<and> ukey ms x = di_saved_key ?d) \<and>
          (\<forall>j. Suc i \<le> j \<longrightarrow> j < x \<longrightarrow> visible_at s ms j \<longrightarrow> ukey ms j \<noteq> ukey ms x))"
      proof (intro allI impI)
        fix x assume x: "Suc i \<le> x" "x < length ms"
        have j: "(\<forall>j. i \<le> j \<longrightarrow> j < x \<longrightarrow> visible_at s ms j \<longrightarrow> ukey ms j \<noteq> ukey ms x) \<longleftrightarrow>
            (visible_at s ms i \<longrightarrow> ukey ms i \<noteq> ukey ms x) \<and> (\<forall>j. Suc i \<le> j \<longrightarrow> j < x \<longrightarrow> visible_at s ms j \<longrightarrow> ukey ms j \<noteq> ukey ms x)"
          using x(1) by (metis Suc_le_eq le_eq_less_or_eq)
        have "\<not> (skipping \<and> ukey ms x = di_saved_key d) \<and> (visible_at s ms i \<longrightarrow> ukey ms i \<noteq> ukey ms x) \<longleftrightarrow> \<not> ((skipping \<or> del) \<and> ukey ms x = di_saved_key ?d)"
          if vx: "visible_at s ms x"
        proof (cases "visible_at s ms i")
          case nv: False
          then show ?thesis using d2(3) by (simp add: del_def)
        next
          case vi: True
          have m: "cmp (ukey ms i) (ukey ms x) \<le> 0" using ukey_mono [OF sorted, of i x] x by simp
          have lo: "cmp (di_saved_key d) (ukey ms i) \<le> 0" if skipping using less.prems(3) that vi d1(5) by auto
          have eq: "ukey ms i = ukey ms x" if skipping "ukey ms x = di_saved_key d" using lo m that ukey_antisym by metis
          show ?thesis
          proof (cases del)
            case True
            then show ?thesis using d2(3) vi eq by auto
          next
            case nd: False
            then have "skipping" "ukey ms i = di_saved_key d" using False vi hidden by (cases "key_type (fst (ms ! i))"; auto simp: stop_def del_def)+
            then show ?thesis using d2(3) nd vi by auto
          qed
        qed
        then show "T x \<longleftrightarrow> visible_at s ms x \<and> key_type (fst (ms ! x)) = kTypeValue \<and> \<not> ((skipping \<or> del) \<and> ukey ms x = di_saved_key ?d) \<and>
            (\<forall>j. Suc i \<le> j \<longrightarrow> j < x \<longrightarrow> visible_at s ms j \<longrightarrow> ukey ms j \<noteq> ukey ms x)"
          using less.prems(4) [rule_format, OF Suc_leD [OF x(1)] x(2)] unfolding j by blast
      qed
      have "length ms - Suc i < length ms - i" using d1(5) by simp
      from less.hyps [OF this _ _ sk T'] it(2) d2(2) more_left
      obtain d' where d': "FindNextUserEntry ops cmp (skipping \<or> del) ?d = Some d'" "di_direction d' = kForward"
        "(\<exists>x. Suc i \<le> x \<and> x < length ms \<and> T x \<and> (\<forall>y. Suc i \<le> y \<longrightarrow> y < x \<longrightarrow> \<not> T y) \<and> di_valid d' \<and> base_at cmp on s ms (Some x) d') \<or>
         (\<forall>y. Suc i \<le> y \<longrightarrow> y < length ms \<longrightarrow> \<not> T y) \<and> \<not> di_valid d' \<and> base_at cmp on s ms None d'" by auto
      have f: "FindNextUserEntry ops cmp skipping d = Some d'" using step False more_left d'(1) by simp
      show ?thesis using d'(3)
      proof (elim disjE exE conjE)
        fix x assume x: "Suc i \<le> x" "x < length ms" "T x" "\<forall>y. Suc i \<le> y \<longrightarrow> y < x \<longrightarrow> \<not> T y" "di_valid d'" "base_at cmp on s ms (Some x) d'"
        then have "\<forall>y. i \<le> y \<longrightarrow> y < x \<longrightarrow> \<not> T y" using later by blast
        then show ?thesis using f d'(2) x Suc_leD [OF x(1)] by blast
      next
        assume x: "\<forall>y. Suc i \<le> y \<longrightarrow> y < length ms \<longrightarrow> \<not> T y" "\<not> di_valid d'" "base_at cmp on s ms None d'"
        then have "\<forall>y. i \<le> y \<longrightarrow> y < length ms \<longrightarrow> \<not> T y" using later by blast
        then show ?thesis using f d'(2) x by (intro exI [of _ d']) auto
      qed
    qed
  qed
qed

end

subsection \<open>The loop backward\<close>

text \<open>
  The entries from \<open>lo\<close> to \<open>hi\<close> were passed: none of them is shown, or the last one that was seen is a value, which is saved.
\<close>

definition passed :: "SequenceNumber \<Rightarrow> mem_entry list \<Rightarrow> nat \<Rightarrow> nat \<Rightarrow> ValueType \<Rightarrow> 'i DBIter \<Rightarrow> bool" where
  "passed s ms lo hi value_type d \<longleftrightarrow>
     (if value_type = kTypeDeletion then \<forall>x. lo \<le> x \<longrightarrow> x \<le> hi \<longrightarrow> \<not> shown s ms x
      else \<exists>m. lo \<le> m \<and> m \<le> hi \<and> visible_at s ms m \<and> key_type (fst (ms ! m)) = kTypeValue \<and> di_saved_key d = ukey ms m \<and> di_saved_value d = snd (ms ! m) \<and>
        (\<forall>x. m < x \<longrightarrow> x \<le> hi \<longrightarrow> \<not> shown s ms x) \<and> (\<forall>x. lo \<le> x \<longrightarrow> x < m \<longrightarrow> \<not> visible_at s ms x))"

text \<open>The first entry behind a position, and an iterator that moves backward and shows the entry \<open>m\<close>.\<close>

definition after_pos :: "nat option \<Rightarrow> nat" where
  "after_pos ip = (case ip of None \<Rightarrow> 0 | Some r \<Rightarrow> Suc r)"

definition reverse_at ::
  "(byte list \<Rightarrow> byte list \<Rightarrow> int) \<Rightarrow> ('i \<Rightarrow> record_list \<Rightarrow> nat option \<Rightarrow> bool) \<Rightarrow> SequenceNumber \<Rightarrow> mem_entry list \<Rightarrow> nat \<Rightarrow> 'i DBIter \<Rightarrow> bool" where
  "reverse_at cmp on s ms m d \<longleftrightarrow>
     shown s ms m \<and> m < length ms \<and> di_saved_key d = ukey ms m \<and> di_saved_value d = snd (ms ! m) \<and>
     (\<exists>ip. base_at cmp on s ms ip d \<and> after_pos ip \<le> m \<and> (\<forall>x. after_pos ip \<le> x \<longrightarrow> x < m \<longrightarrow> \<not> visible_at s ms x))"

context db_iterator
begin

text \<open>A saved value is shown when the keys before it are smaller.\<close>

lemma passed_shown:
  assumes "entries_sorted cmp ms" "passed s ms lo hi kTypeValue d" "hi < length ms" "lo = 0 \<or> cmp (ukey ms (lo - 1)) (di_saved_key d) < 0"
    and "base_at cmp on s ms ip d" "after_pos ip = lo"
  shows "\<exists>m \<le> hi. reverse_at cmp on s ms m d \<and> (\<forall>x. m < x \<longrightarrow> x \<le> hi \<longrightarrow> \<not> shown s ms x)"
proof -
  obtain m where m: "lo \<le> m" "m \<le> hi" "visible_at s ms m" "key_type (fst (ms ! m)) = kTypeValue" "di_saved_key d = ukey ms m" "di_saved_value d = snd (ms ! m)"
      "\<forall>x. m < x \<longrightarrow> x \<le> hi \<longrightarrow> \<not> shown s ms x" "\<forall>x. lo \<le> x \<longrightarrow> x < m \<longrightarrow> \<not> visible_at s ms x"
    using assms(2) by (auto simp: passed_def)
  have "\<not> visible_at s ms j" if j: "j < m" "ukey ms j = ukey ms m" for j
  proof (cases "lo \<le> j")
    case True
    then show ?thesis using m(8) j(1) by blast
  next
    case False
    then have "cmp (ukey ms j) (ukey ms (lo - 1)) \<le> 0" "cmp (ukey ms (lo - 1)) (ukey ms m) < 0"
      using ukey_mono [OF assms(1), of j "lo - 1"] assms(3,4) m(1,2,5) by auto
    then have "cmp (ukey ms j) (ukey ms m) < 0" by (rule ukey_less_trans(1))
    then show ?thesis using j(2) cmp_refl by simp
  qed
  then have "shown s ms m" using m(3,4) by (simp add: shown_iff)
  then show ?thesis using m assms(3,5,6) by (auto simp: reverse_at_def)
qed

lemma passed_step:
  assumes "entries_sorted cmp ms" "passed s ms (Suc r) hi value_type d" "r \<le> hi" "hi < length ms"
    and "\<not> (visible_at s ms r \<and> value_type \<noteq> kTypeDeletion \<and> cmp (ukey ms r) (di_saved_key d) < 0)"
    and "t = (if visible_at s ms r then key_type (fst (ms ! r)) else value_type)"
    and "visible_at s ms r \<Longrightarrow> t = kTypeValue \<Longrightarrow> di_saved_key d' = ukey ms r \<and> di_saved_value d' = snd (ms ! r)"
    and "\<not> visible_at s ms r \<Longrightarrow> di_saved_key d' = di_saved_key d \<and> di_saved_value d' = di_saved_value d"
  shows "passed s ms r hi t d'"
proof (cases "visible_at s ms r")
  case False
  then have nr: "\<not> shown s ms r" by (simp add: shown_iff)
  have from_r: "x = r \<or> Suc r \<le> x" if "r \<le> x" for x using that by auto
  show ?thesis
  proof (cases value_type)
    case kTypeDeletion
    then show ?thesis using assms(2,6) False nr from_r by (auto simp: passed_def)
  next
    case kTypeValue
    then obtain m where m: "Suc r \<le> m" "m \<le> hi" "visible_at s ms m" "key_type (fst (ms ! m)) = kTypeValue" "di_saved_key d = ukey ms m" "di_saved_value d = snd (ms ! m)"
        "\<forall>x. m < x \<longrightarrow> x \<le> hi \<longrightarrow> \<not> shown s ms x" "\<forall>x. Suc r \<le> x \<longrightarrow> x < m \<longrightarrow> \<not> visible_at s ms x"
      using assms(2) by (auto simp: passed_def)
    then have "\<forall>x. r \<le> x \<longrightarrow> x < m \<longrightarrow> \<not> visible_at s ms x" using False from_r by blast
    then show ?thesis using m assms(6,8) False kTypeValue Suc_leD [OF m(1)] by (auto simp: passed_def intro!: exI [of _ m])
  qed
next
  case True
  have none: "\<not> shown s ms x" if x: "Suc r \<le> x" "x \<le> hi" for x
  proof (cases value_type)
    case kTypeDeletion
    then show ?thesis using assms(2) x by (simp add: passed_def)
  next
    case kTypeValue
    then obtain m where m: "Suc r \<le> m" "m \<le> hi" "di_saved_key d = ukey ms m" "\<forall>x. m < x \<longrightarrow> x \<le> hi \<longrightarrow> \<not> shown s ms x"
        "\<forall>x. Suc r \<le> x \<longrightarrow> x < m \<longrightarrow> \<not> visible_at s ms x"
      using assms(2) by (auto simp: passed_def)
    have "ukey ms r = ukey ms m"
      using assms(4,5) True kTypeValue m(1-3) ukey_mono [OF assms(1), of r m] cmp_eq [of "ukey ms r" "ukey ms m"] by auto
    then have "\<not> shown s ms m" using True Suc_le_lessD [OF m(1)] unfolding shown_iff by blast
    moreover have "\<not> shown s ms x" if "x < m" using m(5) x(1) that by (auto simp: shown_iff)
    ultimately show ?thesis using m(4) x(2) by (metis linorder_neqE_nat)
  qed
  show ?thesis
  proof (cases "key_type (fst (ms ! r))")
    case kTypeDeletion
    then have "\<not> shown s ms r" by (simp add: shown_iff)
    then have "\<forall>x. r \<le> x \<longrightarrow> x \<le> hi \<longrightarrow> \<not> shown s ms x" using none by (metis Suc_leI le_neq_implies_less)
    then show ?thesis using assms(6) True kTypeDeletion by (simp add: passed_def)
  next
    case kTypeValue
    then show ?thesis using assms(3,6,7) True none by (auto simp: passed_def Suc_le_eq intro!: exI [of _ r])
  qed
qed

lemma find_prev_loop_ok:
  assumes "base_at cmp on s ms (Some r) d" "r \<le> hi" "hi < length ms" "passed s ms (Suc r) hi value_type d"
  shows "\<exists>value_type' d'. find_prev_loop ops cmp value_type d = Some (value_type', d') \<and> di_direction d' = di_direction d \<and>
    (if value_type' = kTypeDeletion then (\<forall>x \<le> hi. \<not> shown s ms x) \<and> base_at cmp on s ms None d'
     else \<exists>m \<le> hi. reverse_at cmp on s ms m d' \<and> (\<forall>x. m < x \<longrightarrow> x \<le> hi \<longrightarrow> \<not> shown s ms x))"
  using assms
proof (induction r arbitrary: d value_type rule: less_induct)
  case (less r)
  obtain d1 where d1: "ParseKey ops d = Some (Some (fst (ms ! r)), d1)" "base_at cmp on s ms (Some r) d1" "same_entry_state d d1"
      "seen d1 (Some (fst (ms ! r))) = (if visible_at s ms r then Some (fst (ms ! r)) else None)" "r < length ms"
      "io_key ops (di_iter d) = Some (ikey (ms ! r))" "io_value ops (di_iter d) = Some (snd (ms ! r))"
    by (rule ParseKey_ok [OF less.prems(1)])
  have sorted: "entries_sorted cmp ms" using less.prems(1) by (simp add: base_at_def)
  have same: "di_saved_key d1 = di_saved_key d" "di_saved_value d1 = di_saved_value d" "di_direction d1 = di_direction d" "di_iter d1 = di_iter d"
    using d1(3) by (simp_all add: same_entry_state_def)
  have passed1: "passed s ms (Suc r) hi value_type d1" using less.prems(4) same by (simp add: passed_def)
  define stop where "stop \<longleftrightarrow> visible_at s ms r \<and> value_type \<noteq> kTypeDeletion \<and> cmp (ukey ms r) (di_saved_key d) < 0"
  define t where "t = (if visible_at s ms r then key_type (fst (ms ! r)) else value_type)"
  define d2 where "d2 = (if visible_at s ms r then if key_type (fst (ms ! r)) = kTypeDeletion then ClearSavedValue (d1\<lparr>di_saved_key := []\<rparr>)
     else d1\<lparr>di_saved_key := ukey ms r, di_saved_value := snd (ms ! r)\<rparr> else d1)"
  have d2: "base_at cmp on s ms (Some r) d2" "di_direction d2 = di_direction d" using d1(2) same by (simp_all add: d2_def ClearSavedValue_def)
  obtain it where it: "io_Prev ops (di_iter d2) = Some it" "base_at cmp on s ms (pos_before r) (d2\<lparr>di_iter := it\<rparr>)" "io_Valid ops it \<longleftrightarrow> r \<noteq> 0"
    using base_moves(4) [OF d2(1) refl] by blast
  have step: "find_prev_loop ops cmp value_type d =
    (if stop then Some (value_type, d1) else if r \<noteq> 0 then find_prev_loop ops cmp t (d2\<lparr>di_iter := it\<rparr>) else Some (t, d2\<lparr>di_iter := it\<rparr>))"
    using d1(1,4,6,7) it(1,3) same
    by (subst find_prev_loop.simps) (auto simp: d2_def stop_def t_def ukey_def Let_def ClearSavedValue_def AppendInternalKey_parts)
  show ?case
  proof (cases stop)
    case True
    then have "value_type = kTypeValue" by (cases value_type) (simp_all add: stop_def)
    then show ?thesis using passed_shown [OF sorted, of s "Suc r" hi d1 "Some r"] passed1 less.prems(3) True d1(2) same step
      by (auto simp: stop_def after_pos_def)
  next
    case False
    have p: "passed s ms r hi t (d2\<lparr>di_iter := it\<rparr>)"
      by (rule passed_step [OF sorted passed1 less.prems(2,3)]) (use False same in \<open>auto simp: stop_def t_def d2_def\<close>)
    show ?thesis
    proof (cases r)
      case 0
      show ?thesis
      proof (cases t)
        case kTypeDeletion
        then show ?thesis using step False 0 p it(2) d2(2) by (simp add: passed_def)
      next
        case kTypeValue
        then show ?thesis using step False 0 p it(2) d2(2) passed_shown [OF sorted, of s 0 hi "d2\<lparr>di_iter := it\<rparr>" None] less.prems(3)
          by (auto simp: after_pos_def)
      qed
    next
      case (Suc r')
      then show ?thesis using step False p it(2) d2(2) less.IH [of r' "d2\<lparr>di_iter := it\<rparr>" t] less.prems(2,3) by simp
    qed
  qed
qed

lemma FindPrevUserEntry_ok:
  assumes "base_at cmp on s ms (pos_before n) d" "di_direction d = kReverse" "n \<le> length ms"
  shows "\<exists>d'. FindPrevUserEntry ops cmp d = Some d' \<and>
    ((\<exists>m < n. reverse_at cmp on s ms m d' \<and> (\<forall>x. m < x \<longrightarrow> x < n \<longrightarrow> \<not> shown s ms x) \<and> di_valid d' \<and> di_direction d' = kReverse) \<or>
     (\<forall>x < n. \<not> shown s ms x) \<and> \<not> di_valid d' \<and> base_at cmp on s ms None d')"
proof -
  have on: "on (di_iter d) (internal_list ms) (pos_before n)" using assms(1) by (simp add: base_at_def)
  have v: "io_Valid ops (di_iter d) \<longleftrightarrow> n \<noteq> 0" using base.on_Valid [OF on] by simp
  show ?thesis
  proof (cases n)
    case 0
    then show ?thesis using v assms(1) by (simp add: FindPrevUserEntry_def ClearSavedValue_def)
  next
    case (Suc r)
    have b: "base_at cmp on s ms (Some r) d" "r < length ms" using assms(1,3) Suc by simp_all
    have "passed s ms (Suc r) r kTypeDeletion d" by (simp add: passed_def)
    from find_prev_loop_ok [OF b(1) order_refl b(2) this]
    obtain t d' where l: "find_prev_loop ops cmp kTypeDeletion d = Some (t, d')" "di_direction d' = di_direction d"
        "if t = kTypeDeletion then (\<forall>x \<le> r. \<not> shown s ms x) \<and> base_at cmp on s ms None d'
         else \<exists>m \<le> r. reverse_at cmp on s ms m d' \<and> (\<forall>x. m < x \<longrightarrow> x \<le> r \<longrightarrow> \<not> shown s ms x)" by blast
    have "reverse_at cmp on s ms m (d'\<lparr>di_valid := True\<rparr>)" if "reverse_at cmp on s ms m d'" for m using that by (simp add: reverse_at_def)
    then show ?thesis using l v Suc assms(2)
      by (cases t) (auto simp: FindPrevUserEntry_def ClearSavedValue_def less_Suc_eq_le)
  qed
qed

lemma prev_key_loop_ok:
  assumes "base_at cmp on s ms (Some i) d" "di_saved_key d = ukey ms m" "i \<le> m" "m < length ms" "\<forall>x. i \<le> x \<longrightarrow> x \<le> m \<longrightarrow> ukey ms x = ukey ms m"
  shows "\<exists>b n d'. prev_key_loop ops cmp d = Some (b, d') \<and> b = (n \<noteq> 0) \<and> n \<le> m \<and> base_at cmp on s ms (pos_before n) d' \<and> di_direction d' = di_direction d \<and>
    (b = False \<longrightarrow> \<not> di_valid d') \<and> (\<forall>x. n \<le> x \<longrightarrow> x \<le> m \<longrightarrow> ukey ms x = ukey ms m)"
  using assms
proof (induction i arbitrary: d)
  case 0
  obtain it where it: "io_Prev ops (di_iter d) = Some it" "base_at cmp on s ms (pos_before 0) (d\<lparr>di_iter := it\<rparr>)" "io_Valid ops it \<longleftrightarrow> (0 :: nat) \<noteq> 0"
    using base_moves(4) [OF "0.prems"(1) refl] by blast
  let ?d = "ClearSavedValue (d\<lparr>di_iter := it, di_valid := False, di_saved_key := []\<rparr>)"
  have "prev_key_loop ops cmp d = Some (False, ?d)" using it(1,3) by (subst prev_key_loop.simps) simp
  moreover have "False = ((0 :: nat) \<noteq> 0) \<and> 0 \<le> m \<and> base_at cmp on s ms (pos_before 0) ?d \<and> di_direction ?d = di_direction d \<and> (False = False \<longrightarrow> \<not> di_valid ?d)"
    using it(2) by (simp add: ClearSavedValue_def)
  ultimately show ?case using "0.prems"(5) by blast
next
  case (Suc i)
  obtain it where it: "io_Prev ops (di_iter d) = Some it" "base_at cmp on s ms (Some i) (d\<lparr>di_iter := it\<rparr>)" "io_Valid ops it"
    using base_moves(4) [OF Suc.prems(1) refl] by auto
  have sorted: "entries_sorted cmp ms" using it(2) by (simp add: base_at_def)
  have on: "on it (internal_list ms) (Some i)" using it(2) by (simp add: base_at_def)
  have k: "io_key ops it = Some (ikey (ms ! i))" using base.on_entry [OF on] by simp
  have step: "prev_key_loop ops cmp d = (if cmp (ukey ms i) (ukey ms m) < 0 then Some (True, d\<lparr>di_iter := it\<rparr>) else prev_key_loop ops cmp (d\<lparr>di_iter := it\<rparr>))"
    using it(1,3) k Suc.prems(2) by (subst prev_key_loop.simps) (simp add: AppendInternalKey_parts ukey_def)
  show ?case
  proof (cases "cmp (ukey ms i) (ukey ms m) < 0")
    case True
    then have "prev_key_loop ops cmp d = Some (True, d\<lparr>di_iter := it\<rparr>)" using step by simp
    moreover have "True = (Suc i \<noteq> 0) \<and> Suc i \<le> m \<and> base_at cmp on s ms (pos_before (Suc i)) (d\<lparr>di_iter := it\<rparr>) \<and> di_direction (d\<lparr>di_iter := it\<rparr>) = di_direction d \<and>
        (True = False \<longrightarrow> \<not> di_valid (d\<lparr>di_iter := it\<rparr>))" using it(2) Suc.prems(3) by simp
    ultimately show ?thesis using Suc.prems(5) by blast
  next
    case False
    have "ukey ms i = ukey ms m" using False ukey_mono [OF sorted, of i m] Suc.prems(3,4) cmp_eq by force
    then have "\<forall>x. i \<le> x \<longrightarrow> x \<le> m \<longrightarrow> ukey ms x = ukey ms m" using Suc.prems(5) by (metis Suc_leI le_neq_implies_less)
    from Suc.IH [OF it(2) _ _ Suc.prems(4) this] Suc.prems(2,3) step False show ?thesis by simp
  qed
qed

end

end
