(* ===== verification/Ldb_Table_Format.thy ===== *)
theory Ldb_Table_Format
  imports Ldb_Block_Spec Ldb_Filter_Block Ldb_Log_Spec
begin

text \<open>
  The frame of a table file (\<^verbatim>\<open>table/format.cc\<close>): handles of blocks, the footer, and \<^verbatim>\<open>ReadBlock\<close>; with what it uses of
  \<^verbatim>\<open>include/leveldb/options.h\<close>, \<^verbatim>\<open>include/leveldb/env.h\<close> and \<^verbatim>\<open>port/port_stdcxx.h\<close> (built without Snappy).
\<close>

subsection \<open>Block handles and footer\<close>

record BlockHandle =
  bh_offset :: uint64
  bh_size :: uint64

definition new_BlockHandle :: BlockHandle where
  "new_BlockHandle = \<lparr>bh_offset = NOT 0, bh_size = NOT 0\<rparr>"

definition kMaxEncodedLength :: nat where "kMaxEncodedLength = 10 + 10"

definition Handle_EncodeTo :: "BlockHandle \<Rightarrow> byte list \<Rightarrow> byte list" where
  "Handle_EncodeTo h dst =
     (let dst = PutVarint64 dst (bh_offset h)
      in PutVarint64 dst (bh_size h))"

definition Handle_DecodeFrom :: "BlockHandle \<Rightarrow> byte list \<Rightarrow> Status \<times> BlockHandle \<times> byte list" where
  "Handle_DecodeFrom h input =
     (case GetVarint64 input of
        (None, input) \<Rightarrow> (Corruption ''bad block handle'', h, input)
      | (Some offset, input) \<Rightarrow>
          (let h = h\<lparr>bh_offset := offset\<rparr>
           in case GetVarint64 input of
                (None, input) \<Rightarrow> (Corruption ''bad block handle'', h, input)
              | (Some sz, input) \<Rightarrow> (OK, h\<lparr>bh_size := sz\<rparr>, input)))"

record Footer =
  metaindex_handle :: BlockHandle
  index_handle :: BlockHandle

definition new_Footer :: Footer where
  "new_Footer = \<lparr>metaindex_handle = new_BlockHandle, index_handle = new_BlockHandle\<rparr>"

definition kEncodedLength :: nat where "kEncodedLength = 2 * kMaxEncodedLength + 8"

definition kTableMagicNumber :: uint64 where "kTableMagicNumber = 0xdb4775248b80fb57"

definition kBlockTrailerSize :: nat where "kBlockTrailerSize = 5"

text \<open>\<^verbatim>\<open>std::string::resize\<close> cuts off or appends zero bytes.\<close>

definition string_resize :: "nat \<Rightarrow> byte list \<Rightarrow> byte list" where
  "string_resize n s = take n s @ replicate (n - length s) 0"

definition Footer_EncodeTo :: "Footer \<Rightarrow> byte list \<Rightarrow> byte list" where
  "Footer_EncodeTo ft dst =
     (let dst = Handle_EncodeTo (metaindex_handle ft) dst;
          dst = Handle_EncodeTo (index_handle ft) dst;
          dst = string_resize (2 * kMaxEncodedLength) dst;
          dst = PutFixed32 dst (ucast (kTableMagicNumber AND 0xffffffff))
      in PutFixed32 dst (ucast (drop_bit 32 kTableMagicNumber)))"

text \<open>The magic number is read behind the input's start, whatever its length: a shorter input is \<^const>\<open>None\<close>.\<close>

definition Footer_DecodeFrom :: "Footer \<Rightarrow> byte list \<Rightarrow> (Status \<times> Footer \<times> byte list) option" where
  "Footer_DecodeFrom ft input = do {
     let magic_ptr = drop (kEncodedLength - 8) input;
     magic_lo \<leftarrow> DecodeFixed32 magic_ptr;
     magic_hi \<leftarrow> DecodeFixed32 (drop 4 magic_ptr);
     let magic = push_bit 32 (ucast magic_hi) OR (ucast magic_lo :: uint64);
     Some (if magic \<noteq> kTableMagicNumber then (Corruption ''not an sstable (bad magic number)'', ft, input)
           else (case Handle_DecodeFrom (metaindex_handle ft) input of
                   (s, h, rest) \<Rightarrow>
                     (let ft = ft\<lparr>metaindex_handle := h\<rparr>
                      in if s \<noteq> OK then (s, ft, rest)
                         else (case Handle_DecodeFrom (index_handle ft) rest of
                                 (s, h, rest) \<Rightarrow>
                                   (let ft = ft\<lparr>index_handle := h\<rparr>
                                    in if s \<noteq> OK then (s, ft, rest) else (OK, ft, drop kEncodedLength input))))))
   }"

subsection \<open>Options and random access files\<close>

text \<open>A comparator and a filter policy are objects of the client; comparators are compared by their address.\<close>

datatype CompressionType = kNoCompression | kSnappyCompression

definition compression_code :: "CompressionType \<Rightarrow> byte" where
  "compression_code c = (case c of kNoCompression \<Rightarrow> 0 | kSnappyCompression \<Rightarrow> 1)"

record Comparator =
  c_address :: nat
  c_Compare :: "byte list \<Rightarrow> byte list \<Rightarrow> int"
  c_FindShortestSeparator :: "byte list \<Rightarrow> byte list \<Rightarrow> byte list"
  c_FindShortSuccessor :: "byte list \<Rightarrow> byte list"

record FilterPolicy =
  fp_Name :: "byte list"
  fp_CreateFilter :: "byte list list \<Rightarrow> byte list \<Rightarrow> byte list"
  fp_KeyMayMatch :: "byte list \<Rightarrow> byte list \<Rightarrow> bool"

record Options =
  opt_comparator :: Comparator
  paranoid_checks :: bool
  block_size :: nat
  block_restart_interval :: nat
  compression :: CompressionType
  filter_policy_opt :: "FilterPolicy option"

definition string_bytes :: "string \<Rightarrow> byte list" where
  "string_bytes s = map of_char s"

record ReadOptions =
  verify_checksums :: bool
  fill_cache :: bool

definition new_ReadOptions :: ReadOptions where
  "new_ReadOptions = \<lparr>verify_checksums = False, fill_cache = True\<rparr>"

text \<open>
  What \<^verbatim>\<open>RandomAccessFile::Read\<close> returns for an offset and a number of bytes: the status, the bytes read, and whether they are in the buffer of the
  caller.
\<close>

type_synonym RandomAccessFile = "uint64 \<Rightarrow> nat \<Rightarrow> Status \<times> byte list \<times> bool"

subsection \<open>Snappy\<close>

definition Snappy_Compress :: "byte list \<Rightarrow> byte list \<Rightarrow> bool \<times> byte list" where
  "Snappy_Compress input dst = (False, dst)"

definition Snappy_GetUncompressedLength :: "byte list \<Rightarrow> nat option" where
  "Snappy_GetUncompressedLength input = None"

definition Snappy_Uncompress :: "byte list \<Rightarrow> nat \<Rightarrow> byte list option" where
  "Snappy_Uncompress input ulength = None"

subsection \<open>Reading a block\<close>

record BlockContents =
  bc_data :: "byte list"
  cachable :: bool
  heap_allocated :: bool

definition block_of_type :: "byte list \<Rightarrow> nat \<Rightarrow> byte \<Rightarrow> bool \<Rightarrow> Status \<times> BlockContents" where
  "block_of_type data n t in_buf =
     (let none = \<lparr>bc_data = [], cachable = False, heap_allocated = False\<rparr>
      in if t = compression_code kNoCompression
         then (OK, \<lparr>bc_data = take n data, cachable = in_buf, heap_allocated = in_buf\<rparr>)
         else if t = compression_code kSnappyCompression
         then (case Snappy_GetUncompressedLength (take n data) of
                 None \<Rightarrow> (Corruption ''corrupted compressed block contents'', none)
               | Some ulength \<Rightarrow>
                   (case Snappy_Uncompress (take n data) ulength of
                      None \<Rightarrow> (Corruption ''corrupted compressed block contents'', none)
                    | Some ubuf \<Rightarrow> (OK, \<lparr>bc_data = ubuf, cachable = True, heap_allocated = True\<rparr>)))
         else (Corruption ''bad block type'', none))"

text \<open>The number of bytes to read is a 64-bit number, and its sum with the size of the trailer may wrap around.\<close>

definition ReadBlock :: "RandomAccessFile \<Rightarrow> ReadOptions \<Rightarrow> BlockHandle \<Rightarrow> (Status \<times> BlockContents) option" where
  "ReadBlock file options handle =
     (let none = \<lparr>bc_data = [], cachable = False, heap_allocated = False\<rparr>;
          n = unat (bh_size handle);
          want = (n + kBlockTrailerSize) mod 2 ^ 64;
          (s, data, in_buf) = file (bh_offset handle) want
      in if s \<noteq> OK then Some (s, none)
         else if length data \<noteq> want then Some (Corruption ''truncated block read'', none)
         else do {
           crc_ok \<leftarrow>
             (if verify_checksums options
              then do {
                stored \<leftarrow> DecodeFixed32 (drop (n + 1) data);
                first \<leftarrow> read_at data 0 (n + 1);
                actual \<leftarrow> crc_Value 0 first;
                Some (actual = Unmask stored)
              }
              else Some True);
           if \<not> crc_ok then Some (Corruption ''block checksum mismatch'', none)
           else map_option (\<lambda>t. block_of_type data n t in_buf) (nth_opt data n)
         })"

subsection \<open>Handles and footer read back\<close>

lemma length_EncodeVarint64: "length (EncodeVarint64 v) \<le> 10"
  using length_varint_bytes_u64 [of v] by (simp add: EncodeVarint64_bytes)

lemma Handle_EncodeTo_append: "Handle_EncodeTo h dst = dst @ Handle_EncodeTo h []"
  by (simp add: Handle_EncodeTo_def PutVarint64_def Let_def)

lemma length_Handle: "length (Handle_EncodeTo h []) \<le> kMaxEncodedLength"
  using length_EncodeVarint64 [of "bh_offset h"] length_EncodeVarint64 [of "bh_size h"]
  by (simp add: Handle_EncodeTo_def PutVarint64_def kMaxEncodedLength_def Let_def)

lemma Handle_roundtrip: "Handle_DecodeFrom h' (Handle_EncodeTo h [] @ q) = (OK, h, q)"
  by (simp add: Handle_DecodeFrom_def Handle_EncodeTo_def PutVarint64_def GetVarint64_codec Let_def)

lemma Footer_bytes:
  "Footer_EncodeTo ft [] =
     (let hs = Handle_EncodeTo (metaindex_handle ft) [] @ Handle_EncodeTo (index_handle ft) []
      in hs @ replicate (40 - length hs) 0 @ EncodeFixed32 0x8b80fb57 @ EncodeFixed32 0xdb477524)"
  using length_Handle [of "metaindex_handle ft"] length_Handle [of "index_handle ft"]
  by (simp add: Footer_EncodeTo_def Let_def string_resize_def kMaxEncodedLength_def PutFixed32_def kTableMagicNumber_def
      Handle_EncodeTo_append [of "index_handle ft" "Handle_EncodeTo (metaindex_handle ft) []"])

lemma length_Footer: "length (Footer_EncodeTo ft []) = kEncodedLength"
  using length_Handle [of "metaindex_handle ft"] length_Handle [of "index_handle ft"]
  by (simp add: Footer_bytes Let_def kEncodedLength_def kMaxEncodedLength_def EncodeFixed32_bytes)

lemma Footer_roundtrip: "Footer_DecodeFrom ft' (Footer_EncodeTo ft [] @ q) = Some (OK, ft, q)"
proof -
  let ?hs = "Handle_EncodeTo (metaindex_handle ft) [] @ Handle_EncodeTo (index_handle ft) []"
  let ?pad = "replicate (40 - length ?hs) 0 :: byte list"
  have len: "length (?hs @ ?pad) = 40"
    using length_Handle [of "metaindex_handle ft"] length_Handle [of "index_handle ft"] by (simp add: kMaxEncodedLength_def)
  have f: "Footer_EncodeTo ft [] @ q = (?hs @ ?pad) @ EncodeFixed32 0x8b80fb57 @ EncodeFixed32 0xdb477524 @ q"
    by (simp add: Footer_bytes Let_def)
  have k: "kEncodedLength - 8 = 40" by (simp add: kEncodedLength_def kMaxEncodedLength_def)
  have "drop 40 (Footer_EncodeTo ft [] @ q) = EncodeFixed32 0x8b80fb57 @ EncodeFixed32 0xdb477524 @ q"
    unfolding f using len by (metis append_eq_conv_conj)
  moreover have "drop 4 (EncodeFixed32 0x8b80fb57 @ EncodeFixed32 0xdb477524 @ q) = EncodeFixed32 0xdb477524 @ q"
    by (simp add: EncodeFixed32_bytes)
  moreover have "drop kEncodedLength (Footer_EncodeTo ft [] @ q) = q" using length_Footer [of ft] by simp
  moreover have "Footer_EncodeTo ft [] @ q = Handle_EncodeTo (metaindex_handle ft) [] @ Handle_EncodeTo (index_handle ft) [] @ ?pad @
      EncodeFixed32 0x8b80fb57 @ EncodeFixed32 0xdb477524 @ q"
    using f by simp
  then have "Handle_DecodeFrom h (Footer_EncodeTo ft [] @ q) = (OK, metaindex_handle ft, Handle_EncodeTo (index_handle ft) [] @ ?pad @
      EncodeFixed32 0x8b80fb57 @ EncodeFixed32 0xdb477524 @ q)" for h
    by (simp only: Handle_roundtrip)
  ultimately show ?thesis
    unfolding Footer_DecodeFrom_def Let_def k
    by (simp add: DecodeFixed32_Encode Handle_roundtrip kTableMagicNumber_def)
qed

subsection \<open>Stored blocks\<close>

text \<open>A block as it is stored: the contents, the type and the masked checksum of both.\<close>

definition stored :: "byte list \<Rightarrow> byte list" where
  "stored raw = raw @ [0] @ EncodeFixed32 (Mask (crc32c 0 (raw @ [0])))"

lemma length_stored: "length (stored raw) = length raw + kBlockTrailerSize"
  by (simp add: stored_def kBlockTrailerSize_def EncodeFixed32_bytes)

text \<open>A file that answers every read inside of \<open>bytes\<close>.\<close>

definition serves :: "RandomAccessFile \<Rightarrow> byte list \<Rightarrow> bool" where
  "serves file bytes \<longleftrightarrow>
     (\<forall>offset n. unat offset + n \<le> length bytes \<longrightarrow> (\<exists>in_buf. file offset n = (OK, take n (drop (unat offset) bytes), in_buf)))"

definition handle_at :: "nat \<Rightarrow> byte list \<Rightarrow> BlockHandle" where
  "handle_at pos raw = \<lparr>bh_offset = of_nat pos, bh_size = of_nat (length raw)\<rparr>"

lemma ReadBlock_stored:
  assumes "serves file (pre @ stored raw @ post)" "length (pre @ stored raw @ post) < 2 ^ 64"
  shows "\<exists>c. ReadBlock file options (handle_at (length pre) raw) = Some (OK, c) \<and> bc_data c = raw"
proof -
  have len: "length pre + length raw + 5 + length post < 2 ^ 64" using assms(2) by (simp add: length_stored kBlockTrailerSize_def)
  have u: "unat (of_nat (length pre) :: uint64) = length pre" "unat (of_nat (length raw) :: uint64) = length raw"
    using len by (simp_all add: unat_of_nat_small)
  have want: "(length raw + kBlockTrailerSize) mod 2 ^ 64 = length (stored raw)"
    using len by (simp add: length_stored kBlockTrailerSize_def)
  obtain in_buf where f: "file (of_nat (length pre)) (length (stored raw)) = (OK, stored raw, in_buf)"
    using assms(1) u(1) unfolding serves_def
    by (metis (no_types, lifting) append_eq_conv_conj length_append add_le_cancel_left le_add1)
  have d: "drop (length raw + 1) (stored raw) = EncodeFixed32 (Mask (crc32c 0 (raw @ [0])))" by (simp add: stored_def)
  have r: "read_at (stored raw) 0 (length raw + 1) = Some (raw @ [0])"
    by (simp add: read_at_def stored_def)
  have n: "nth_opt (stored raw) (length raw) = Some 0" by (simp add: stored_def nth_opt_Some_iff nth_append)
  have t: "take (length raw) (stored raw) = raw" by (simp add: stored_def)
  have crc: "crc_Value 0 (raw @ [0]) = Some (crc32c 0 (raw @ [0]))" by (simp add: crc_Value_def Extend_eq)
  show ?thesis
    using DecodeFixed32_Encode [of "Mask (crc32c 0 (raw @ [0]))" "[]"]
    unfolding ReadBlock_def handle_at_def BlockHandle.select_convs u Let_def want f prod.case
    by (intro exI [of _ "\<lparr>bc_data = raw, cachable = in_buf, heap_allocated = in_buf\<rparr>"])
      (simp add: d [simplified] r [simplified] n crc block_of_type_def compression_code_def t, blast)
qed

subsection \<open>Properties\<close>

text \<open>
  (C40) The size in a block handle is not checked: with a size of \<open>2\<^sup>64 - 5\<close> or more, as a damaged index or footer may have, the length to
  read wraps around to at most four bytes, the read succeeds, and \<^verbatim>\<open>ReadBlock\<close> then accesses memory outside of its buffer.
\<close>

theorem oversized_handle_reads_outside:
  assumes "2 ^ 64 - 5 \<le> unat (bh_size h)" "f (bh_offset h) ((unat (bh_size h) + kBlockTrailerSize) mod 2 ^ 64) = (OK, data, in_buf)"
    and "length data = (unat (bh_size h) + kBlockTrailerSize) mod 2 ^ 64"
  shows "ReadBlock f options h = None"
proof -
  have "unat (bh_size h) < 2 ^ 64" using unat_less_2p [of "bh_size h"] by simp
  moreover obtain d where d: "unat (bh_size h) = 2 ^ 64 - 5 + d" using assms(1) le_Suc_ex by blast
  ultimately have "d < 5" by simp
  then have "length data \<le> 4" using assms(3) by (simp add: d kBlockTrailerSize_def)
  then have "length data \<le> unat (bh_size h)" using d by simp
  then have "nth_opt data (unat (bh_size h)) = None" "DecodeFixed32 (drop (unat (bh_size h) + 1) data) = None"
    by (simp_all add: nth_opt_def DecodeFixed32_def decode_fixed32_any)
  then show ?thesis unfolding ReadBlock_def Let_def assms(2) prod.case using assms(3) by simp
qed

theorem oversized_handle_reads_outside_witness:
  "ReadBlock (\<lambda>offset n. (OK, replicate n 0, True)) new_ReadOptions new_BlockHandle = None"
proof (rule oversized_handle_reads_outside [of _ _ "replicate 4 0" True])
  have u: "unat (bh_size new_BlockHandle) = 2 ^ 64 - 1" by (simp add: new_BlockHandle_def unsigned_minus_1_eq_mask mask_eq_exp_minus_1)
  have w: "(2 ^ 64 - 1 + kBlockTrailerSize) mod 2 ^ 64 = 4" by (simp add: kBlockTrailerSize_def)
  show "2 ^ 64 - 5 \<le> unat (bh_size new_BlockHandle)" unfolding u by simp
  show "(OK, replicate ((unat (bh_size new_BlockHandle) + kBlockTrailerSize) mod 2 ^ 64) 0, True) = (OK, replicate 4 0, True)" unfolding u w ..
  show "length (replicate 4 0) = (unat (bh_size new_BlockHandle) + kBlockTrailerSize) mod 2 ^ 64" unfolding u w by simp
qed

end
