(* ===== verification/Ldb_Table_Builder.thy ===== *)
theory Ldb_Table_Builder
  imports Ldb_Table_Format
begin

text \<open>
  \<^verbatim>\<open>table/table_builder.cc\<close>: the builder of table files, and the file that it writes as a function of the entries, their division into blocks, and the
  keys of the index.
\<close>

subsection \<open>Operations\<close>

record TableBuilder =
  tb_options :: Options
  tb_index_block_options :: Options
  tb_file :: WritableFile
  tb_offset :: uint64
  tb_status :: Status
  tb_data_block :: BlockBuilder
  tb_index_block :: BlockBuilder
  tb_last_key :: "byte list"
  tb_num_entries :: int
  tb_closed :: bool
  tb_filter_block :: "(FilterPolicy \<times> FilterBlockBuilder) option"
  tb_pending_index_entry :: bool
  tb_pending_handle :: BlockHandle
  tb_compressed_output :: "byte list"

definition filter_StartBlock :: "uint64 \<Rightarrow> FilterPolicy \<times> FilterBlockBuilder \<Rightarrow> FilterPolicy \<times> FilterBlockBuilder" where
  "filter_StartBlock offset pf = (fst pf, StartBlock (fp_CreateFilter (fst pf)) (unat offset) (snd pf))"

definition new_TableBuilder :: "Options \<Rightarrow> WritableFile \<Rightarrow> TableBuilder" where
  "new_TableBuilder options f =
     \<lparr>tb_options = options, tb_index_block_options = options\<lparr>block_restart_interval := 1\<rparr>, tb_file = f, tb_offset = 0, tb_status = OK,
      tb_data_block = new_BlockBuilder, tb_index_block = new_BlockBuilder, tb_last_key = [], tb_num_entries = 0, tb_closed = False,
      tb_filter_block = map_option (\<lambda>p. filter_StartBlock 0 (p, new_FilterBlockBuilder)) (filter_policy_opt options),
      tb_pending_index_entry = False, tb_pending_handle = new_BlockHandle, tb_compressed_output = []\<rparr>"

definition ChangeOptions :: "TableBuilder \<Rightarrow> Options \<Rightarrow> Status \<times> TableBuilder" where
  "ChangeOptions r options =
     (if c_address (opt_comparator options) \<noteq> c_address (opt_comparator (tb_options r))
      then (InvalidArgument ''changing comparator while building table'', r)
      else (OK, r\<lparr>tb_options := options, tb_index_block_options := options\<lparr>block_restart_interval := 1\<rparr>\<rparr>))"

definition WriteRawBlock :: "TableBuilder \<Rightarrow> byte list \<Rightarrow> CompressionType \<Rightarrow> BlockHandle \<Rightarrow> TableBuilder \<times> BlockHandle" where
  "WriteRawBlock r block_contents type handle =
     (let handle = handle\<lparr>bh_offset := tb_offset r, bh_size := of_nat (length block_contents)\<rparr>;
          (s, f) = file_Append (tb_file r) block_contents;
          r = r\<lparr>tb_file := f, tb_status := s\<rparr>
      in if s \<noteq> OK then (r, handle)
         else (let crc = crc_extend 0 block_contents;
                   crc = crc_extend crc [compression_code type];
                   trailer = compression_code type # EncodeFixed32 (Mask crc);
                   (s, f) = file_Append (tb_file r) trailer;
                   r = r\<lparr>tb_file := f, tb_status := s\<rparr>
               in if s \<noteq> OK then (r, handle)
                  else (r\<lparr>tb_offset := tb_offset r + of_nat (length block_contents + kBlockTrailerSize)\<rparr>, handle)))"

definition WriteBlock :: "TableBuilder \<Rightarrow> BlockBuilder \<Rightarrow> BlockHandle \<Rightarrow> TableBuilder \<times> BlockBuilder \<times> BlockHandle" where
  "WriteBlock r block handle =
     (let (raw, block) = Builder_Finish block;
          (block_contents, type, r) =
            (case compression (tb_options r) of
               kNoCompression \<Rightarrow> (raw, kNoCompression, r)
             | kSnappyCompression \<Rightarrow>
                 (let (ok, compressed) = Snappy_Compress raw (tb_compressed_output r);
                      r = r\<lparr>tb_compressed_output := compressed\<rparr>
                  in if ok \<and> length compressed < length raw - length raw div 8 then (compressed, kSnappyCompression, r)
                     else (raw, kNoCompression, r)));
          (r, handle) = WriteRawBlock r block_contents type handle
      in (r\<lparr>tb_compressed_output := []\<rparr>, Builder_Reset block, handle))"

definition Builder_Flush :: "TableBuilder \<Rightarrow> TableBuilder" where
  "Builder_Flush r =
     (if tb_status r \<noteq> OK then r
      else if bb_buffer (tb_data_block r) = [] then r
      else (let (r, block, handle) = WriteBlock r (tb_data_block r) (tb_pending_handle r);
                r = r\<lparr>tb_data_block := block, tb_pending_handle := handle\<rparr>;
                r = (if tb_status r = OK
                     then (let (s, f) = file_Flush (tb_file r) in r\<lparr>tb_pending_index_entry := True, tb_file := f, tb_status := s\<rparr>)
                     else r)
            in r\<lparr>tb_filter_block := map_option (filter_StartBlock (tb_offset r)) (tb_filter_block r)\<rparr>))"

text \<open>The entry of the index for the block that was written last, with the key it gets there.\<close>

definition add_index_entry :: "TableBuilder \<Rightarrow> byte list \<Rightarrow> TableBuilder" where
  "add_index_entry r key =
     r\<lparr>tb_last_key := key,
       tb_index_block := Builder_Add (block_restart_interval (tb_index_block_options r)) (tb_index_block r) key (Handle_EncodeTo (tb_pending_handle r) []),
       tb_pending_index_entry := False\<rparr>"

definition Table_Add :: "TableBuilder \<Rightarrow> byte list \<Rightarrow> byte list \<Rightarrow> TableBuilder" where
  "Table_Add r key val =
     (if tb_status r \<noteq> OK then r
      else (let r = (if tb_pending_index_entry r
                     then add_index_entry r (c_FindShortestSeparator (opt_comparator (tb_options r)) (tb_last_key r) key)
                     else r);
                r = r\<lparr>tb_filter_block := map_option (\<lambda>(p, fb). (p, AddKey key fb)) (tb_filter_block r)\<rparr>;
                r = r\<lparr>tb_last_key := key, tb_num_entries := tb_num_entries r + 1\<rparr>;
                r = r\<lparr>tb_data_block := Builder_Add (block_restart_interval (tb_options r)) (tb_data_block r) key val\<rparr>
            in if CurrentSizeEstimate (tb_data_block r) \<ge> block_size (tb_options r) then Builder_Flush r else r))"

text \<open>The parts of \<^verbatim>\<open>Finish\<close>.  A filter block without a policy in the options is a null pointer: \<^const>\<open>None\<close>.\<close>

definition write_metaindex :: "TableBuilder \<Rightarrow> BlockHandle \<Rightarrow> (TableBuilder \<times> BlockHandle) option" where
  "write_metaindex r filter_block_handle = do {
     meta_index_block \<leftarrow>
       (case tb_filter_block r of
          None \<Rightarrow> Some new_BlockBuilder
        | Some _ \<Rightarrow> do {
            policy \<leftarrow> filter_policy_opt (tb_options r);
            Some (Builder_Add (block_restart_interval (tb_options r)) new_BlockBuilder (string_bytes ''filter.'' @ fp_Name policy)
                    (Handle_EncodeTo filter_block_handle []))
          });
     let (r, _, handle) = WriteBlock r meta_index_block new_BlockHandle;
     Some (r, handle)
   }"

definition write_index :: "TableBuilder \<Rightarrow> TableBuilder \<times> BlockHandle" where
  "write_index r =
     (let r = (if tb_pending_index_entry r then add_index_entry r (c_FindShortSuccessor (opt_comparator (tb_options r)) (tb_last_key r)) else r);
          (r, block, handle) = WriteBlock r (tb_index_block r) new_BlockHandle
      in (r\<lparr>tb_index_block := block\<rparr>, handle))"

definition write_footer :: "TableBuilder \<Rightarrow> BlockHandle \<Rightarrow> BlockHandle \<Rightarrow> TableBuilder" where
  "write_footer r metaindex_block_handle index_block_handle =
     (let footer_encoding = Footer_EncodeTo \<lparr>metaindex_handle = metaindex_block_handle, index_handle = index_block_handle\<rparr> [];
          (s, f) = file_Append (tb_file r) footer_encoding;
          r = r\<lparr>tb_file := f, tb_status := s\<rparr>
      in if s = OK then r\<lparr>tb_offset := tb_offset r + of_nat (length footer_encoding)\<rparr> else r)"

definition Table_Finish :: "TableBuilder \<Rightarrow> (Status \<times> TableBuilder) option" where
  "Table_Finish r = do {
     let r = (Builder_Flush r)\<lparr>tb_closed := True\<rparr>;
     let (r, filter_block_handle) =
       (case tb_filter_block r of
          Some (p, fb) \<Rightarrow> (if tb_status r = OK then WriteRawBlock r (Filter_Finish (fp_CreateFilter p) fb) kNoCompression new_BlockHandle
                           else (r, new_BlockHandle))
        | None \<Rightarrow> (r, new_BlockHandle));
     (r, metaindex_block_handle) \<leftarrow> (if tb_status r = OK then write_metaindex r filter_block_handle else Some (r, new_BlockHandle));
     let (r, index_block_handle) = (if tb_status r = OK then write_index r else (r, new_BlockHandle));
     let r = (if tb_status r = OK then write_footer r metaindex_block_handle index_block_handle else r);
     Some (tb_status r, r)
   }"

definition Abandon :: "TableBuilder \<Rightarrow> TableBuilder" where
  "Abandon r = r\<lparr>tb_closed := True\<rparr>"

definition NumEntries :: "TableBuilder \<Rightarrow> uint64" where
  "NumEntries r = of_int (tb_num_entries r)"

definition FileSize :: "TableBuilder \<Rightarrow> uint64" where
  "FileSize r = tb_offset r"

end
