(* ===== verification/Ldb_Table_Layout.thy ===== *)
theory Ldb_Table_Layout
  imports Ldb_Table_Builder
begin

text \<open>
  What the table builder writes, as a function of the entries, how they are divided into blocks, and the keys of the index.
\<close>

subsection \<open>Layout\<close>

type_synonym entry = "byte list \<times> byte list"

abbreviation add_all :: "nat \<Rightarrow> entry list \<Rightarrow> BlockBuilder" where
  "add_all interval es \<equiv> foldl (\<lambda>b (k, v). Builder_Add interval b k v) new_BlockBuilder es"

definition data_area :: "nat \<Rightarrow> entry list list \<Rightarrow> byte list" where
  "data_area ri bs = concat (map (stored \<circ> build_block ri) bs)"

definition block_pos :: "nat \<Rightarrow> entry list list \<Rightarrow> nat \<Rightarrow> nat" where
  "block_pos ri bs i = length (data_area ri (take i bs))"

definition block_handle :: "nat \<Rightarrow> entry list list \<Rightarrow> nat \<Rightarrow> BlockHandle" where
  "block_handle ri bs i = handle_at (block_pos ri bs i) (build_block ri (bs ! i))"

definition index_entries :: "nat \<Rightarrow> entry list list \<Rightarrow> byte list list \<Rightarrow> entry list" where
  "index_entries ri bs seps = map (\<lambda>i. (seps ! i, Handle_EncodeTo (block_handle ri bs i) [])) [0..<length seps]"

text \<open>The offsets of blocks are 64-bit numbers.\<close>

definition wrap64 :: "nat \<Rightarrow> nat" where
  "wrap64 n = unat (of_nat n :: uint64)"

definition filter_blocks :: "nat \<Rightarrow> entry list list \<Rightarrow> filter_block list" where
  "filter_blocks ri bs = map (\<lambda>i. (wrap64 (block_pos ri bs i), map fst (bs ! i))) [0..<length bs]"

definition filter_state :: "nat \<Rightarrow> FilterPolicy \<Rightarrow> entry list list \<Rightarrow> entry list \<Rightarrow> FilterBlockBuilder" where
  "filter_state ri p bs cur =
     add_block (fp_CreateFilter p) (wrap64 (length (data_area ri bs)), map fst cur) (fold (add_block (fp_CreateFilter p)) (filter_blocks ri bs) new_FilterBlockBuilder)"

definition filter_bytes :: "nat \<Rightarrow> FilterPolicy \<Rightarrow> entry list list \<Rightarrow> byte list" where
  "filter_bytes ri p bs = Filter_Finish (fp_CreateFilter p) (filter_state ri p bs [])"

definition filter_area :: "Options \<Rightarrow> entry list list \<Rightarrow> byte list" where
  "filter_area opts bs = (case filter_policy_opt opts of None \<Rightarrow> [] | Some p \<Rightarrow> stored (filter_bytes (block_restart_interval opts) p bs))"

definition filter_key :: "FilterPolicy \<Rightarrow> byte list" where
  "filter_key p = string_bytes ''filter.'' @ fp_Name p"

definition filter_handle :: "Options \<Rightarrow> FilterPolicy \<Rightarrow> entry list list \<Rightarrow> BlockHandle" where
  "filter_handle opts p bs =
     handle_at (length (data_area (block_restart_interval opts) bs)) (filter_bytes (block_restart_interval opts) p bs)"

definition meta_block :: "Options \<Rightarrow> entry list list \<Rightarrow> byte list" where
  "meta_block opts bs =
     build_block (block_restart_interval opts)
       (case filter_policy_opt opts of None \<Rightarrow> [] | Some p \<Rightarrow> [(filter_key p, Handle_EncodeTo (filter_handle opts p bs) [])])"

definition index_block_bytes :: "Options \<Rightarrow> entry list list \<Rightarrow> byte list list \<Rightarrow> byte list" where
  "index_block_bytes opts bs seps = build_block 1 (index_entries (block_restart_interval opts) bs seps)"

definition meta_pos :: "Options \<Rightarrow> entry list list \<Rightarrow> nat" where
  "meta_pos opts bs = length (data_area (block_restart_interval opts) bs @ filter_area opts bs)"

definition table_footer :: "Options \<Rightarrow> entry list list \<Rightarrow> byte list list \<Rightarrow> Footer" where
  "table_footer opts bs seps =
     \<lparr>metaindex_handle = handle_at (meta_pos opts bs) (meta_block opts bs),
      index_handle = handle_at (meta_pos opts bs + length (stored (meta_block opts bs))) (index_block_bytes opts bs seps)\<rparr>"

definition table_bytes :: "Options \<Rightarrow> entry list list \<Rightarrow> byte list list \<Rightarrow> byte list" where
  "table_bytes opts bs seps =
     data_area (block_restart_interval opts) bs @ filter_area opts bs @ stored (meta_block opts bs) @ stored (index_block_bytes opts bs seps) @
     Footer_EncodeTo (table_footer opts bs seps) []"

text \<open>The keys of the index: a separator between two blocks, and a successor of the last key.\<close>

abbreviation first_key :: "('k \<times> 'v) list \<Rightarrow> 'k" where "first_key b \<equiv> fst (hd b)"
abbreviation last_key :: "('k \<times> 'v) list \<Rightarrow> 'k" where "last_key b \<equiv> fst (last b)"

definition separated :: "Options \<Rightarrow> entry list list \<Rightarrow> byte list list \<Rightarrow> bool" where
  "separated opts bs seps \<longleftrightarrow>
     (\<forall>i < length seps. Suc i < length bs \<longrightarrow> seps ! i = c_FindShortestSeparator (opt_comparator opts) (last_key (bs ! i)) (first_key (bs ! Suc i)))"

definition index_keys :: "Options \<Rightarrow> entry list list \<Rightarrow> byte list list \<Rightarrow> bool" where
  "index_keys opts bs seps \<longleftrightarrow>
     length seps = length bs \<and> separated opts bs seps \<and> (bs \<noteq> [] \<longrightarrow> last seps = c_FindShortSuccessor (opt_comparator opts) (last_key (last bs)))"

text \<open>Both as functions of the entries: a block is full when the estimate of its size reaches the limit.\<close>

fun split_blocks :: "Options \<Rightarrow> entry list \<Rightarrow> entry list \<Rightarrow> entry list list" where
  "split_blocks opts cur [] = (if cur = [] then [] else [cur])"
| "split_blocks opts cur (e # es) =
     (if block_size opts \<le> CurrentSizeEstimate (add_all (block_restart_interval opts) (cur @ [e]))
      then (cur @ [e]) # split_blocks opts [] es else split_blocks opts (cur @ [e]) es)"

definition index_seps :: "Options \<Rightarrow> entry list list \<Rightarrow> byte list list" where
  "index_seps opts bs =
     map (\<lambda>i. if Suc i < length bs then c_FindShortestSeparator (opt_comparator opts) (last_key (bs ! i)) (first_key (bs ! Suc i))
              else c_FindShortSuccessor (opt_comparator opts) (last_key (bs ! i))) [0..<length bs]"

definition table_file :: "Options \<Rightarrow> entry list \<Rightarrow> byte list" where
  "table_file opts es = (let bs = split_blocks opts [] es in table_bytes opts bs (index_seps opts bs))"

lemma index_keys_seps: "index_keys opts bs seps \<longleftrightarrow> seps = index_seps opts bs"
proof
  assume k: "index_keys opts bs seps"
  show "seps = index_seps opts bs"
  proof (rule nth_equalityI)
    fix i assume i: "i < length seps"
    show "seps ! i = index_seps opts bs ! i"
    proof (cases "Suc i < length bs")
      case True
      then show ?thesis using k i by (simp add: index_keys_def separated_def index_seps_def)
    next
      case False
      then have "i = length bs - 1" "bs \<noteq> []" "seps \<noteq> []" using k i by (auto simp: index_keys_def)
      then show ?thesis using k by (auto simp: index_keys_def index_seps_def last_conv_nth)
    qed
  qed (use k in \<open>simp add: index_keys_def index_seps_def\<close>)
next
  have "separated opts bs (index_seps opts bs)" by (simp add: separated_def index_seps_def)
  moreover have "last (index_seps opts bs) = c_FindShortSuccessor (opt_comparator opts) (last_key (last bs))" if "bs \<noteq> []"
    using that by (simp add: index_seps_def last_map last_conv_nth)
  moreover assume "seps = index_seps opts bs"
  ultimately show "index_keys opts bs seps" by (simp add: index_keys_def) (simp add: index_seps_def)
qed

lemma concat_split_blocks: "concat (split_blocks opts cur es) = cur @ es"
  by (induction opts cur es rule: split_blocks.induct) auto

lemma split_blocks_nonempty: "[] \<notin> set (split_blocks opts cur es)"
  by (induction opts cur es rule: split_blocks.induct) auto

subsection \<open>Writing one block\<close>

lemma WriteRawBlock_ok:
  assumes "reliable (tb_file r)" "tb_offset r = of_nat (length (contents (tb_file r)))"
  obtains f where "WriteRawBlock r raw kNoCompression h =
      (r\<lparr>tb_file := f, tb_status := OK, tb_offset := of_nat (length (contents f))\<rparr>, handle_at (length (contents (tb_file r))) raw)"
    "contents f = contents (tb_file r) @ stored raw" "reliable f"
proof -
  obtain f1 where f1: "file_Append (tb_file r) raw = (OK, f1)" "contents f1 = contents (tb_file r) @ raw" "reliable f1"
    using file_Append_reliable [OF assms(1)] by blast
  let ?t = "compression_code kNoCompression # EncodeFixed32 (Mask (crc32c (crc32c 0 raw) [compression_code kNoCompression]))"
  obtain f2 where f2: "file_Append f1 ?t = (OK, f2)" "contents f2 = contents f1 @ ?t" "reliable f2"
    using file_Append_reliable [OF f1(3)] by blast
  have "contents f2 = contents (tb_file r) @ stored raw"
    using f1(2) f2(2) by (simp add: stored_def compression_code_def crc32c_append)
  then show thesis using that [of f2] f1 f2 assms(2)
    by (simp add: WriteRawBlock_def Let_def handle_at_def length_stored add.assoc)
qed

lemma Builder_Reset_new: "Builder_Reset b = new_BlockBuilder"
  by (simp add: Builder_Reset_def new_BlockBuilder_def)

lemma WriteBlock_ok:
  assumes "reliable (tb_file r)" "tb_offset r = of_nat (length (contents (tb_file r)))"
  obtains f where "WriteBlock r (add_all ri es) h =
      (r\<lparr>tb_file := f, tb_status := OK, tb_offset := of_nat (length (contents f)), tb_compressed_output := []\<rparr>, new_BlockBuilder,
       handle_at (length (contents (tb_file r))) (build_block ri es))"
    "contents f = contents (tb_file r) @ stored (build_block ri es)" "reliable f"
proof -
  obtain f where f: "WriteRawBlock r (build_block ri es) kNoCompression h =
      (r\<lparr>tb_file := f, tb_status := OK, tb_offset := of_nat (length (contents f))\<rparr>, handle_at (length (contents (tb_file r))) (build_block ri es))"
    "contents f = contents (tb_file r) @ stored (build_block ri es)" "reliable f"
    using WriteRawBlock_ok [OF assms] by blast
  obtain b where b: "Builder_Finish (add_all ri es) = (build_block ri es, b)"
    by (cases "Builder_Finish (add_all ri es)") (simp add: build_block_def)
  have "r\<lparr>tb_compressed_output := tb_compressed_output r\<rparr> = r" by simp
  then show thesis using that [of f] f b
    by (simp add: WriteBlock_def Snappy_Compress_def Let_def Builder_Reset_new split: CompressionType.splits)
qed

subsection \<open>Adding entries\<close>

text \<open>The builder after blocks \<open>bs\<close> are written, with the entries \<open>cur\<close> in the block that is being filled.\<close>

definition building_table :: "Options \<Rightarrow> TableBuilder \<Rightarrow> entry list list \<Rightarrow> byte list list \<Rightarrow> entry list \<Rightarrow> bool" where
  "building_table opts r bs seps cur \<longleftrightarrow>
     tb_options r = opts \<and> tb_index_block_options r = opts\<lparr>block_restart_interval := 1\<rparr> \<and> tb_status r = OK \<and> reliable (tb_file r) \<and>
     contents (tb_file r) = data_area (block_restart_interval opts) bs \<and> tb_offset r = of_nat (length (contents (tb_file r))) \<and>
     tb_data_block r = add_all (block_restart_interval opts) cur \<and>
     tb_index_block r = add_all 1 (index_entries (block_restart_interval opts) bs seps) \<and>
     tb_filter_block r = map_option (\<lambda>p. (p, filter_state (block_restart_interval opts) p bs cur)) (filter_policy_opt opts) \<and>
     [] \<notin> set bs \<and> separated opts (if cur = [] then bs else bs @ [cur]) seps \<and>
     tb_last_key r = (if cur \<noteq> [] then last_key cur else if bs \<noteq> [] then last_key (last bs) else []) \<and>
     (if tb_pending_index_entry r
      then cur = [] \<and> length bs = Suc (length seps) \<and> tb_pending_handle r = block_handle (block_restart_interval opts) bs (length seps)
      else length bs = length seps \<and> (cur = [] \<longrightarrow> bs = []))"

lemma add_all_snoc: "add_all ri (es @ [(k, v)]) = Builder_Add ri (add_all ri es) k v"
  by simp

lemma add_all_empty:
  assumes "0 < ri"
  shows "bb_buffer (add_all ri es) = [] \<longleftrightarrow> es = []"
proof -
  have "building new_BlockBuilder [] [0]" by (simp add: building_def new_BlockBuilder_def chain_def restarts_ok_def)
  from building_all [OF this assms, of es] obtain ss R where b: "building (add_all ri es) ss R" "map snd ss = es" by auto
  show ?thesis
  proof (cases ss)
    case (Cons e ss')
    have "entry_enc e \<noteq> []" using entry_enc_length [of e] by auto
    then show ?thesis using b Cons by (auto simp: building_def)
  qed (use b in \<open>auto simp: building_def\<close>)
qed

lemma data_area_snoc: "data_area ri (bs @ [b]) = data_area ri bs @ stored (build_block ri b)"
  by (simp add: data_area_def)

lemma block_handle_append: "i < length bs \<Longrightarrow> block_handle ri (bs @ cs) i = block_handle ri bs i"
  by (simp add: block_handle_def block_pos_def nth_append)

lemma block_handle_last: "block_handle ri (bs @ [b]) (length bs) = handle_at (length (data_area ri bs)) (build_block ri b)"
  by (simp add: block_handle_def block_pos_def)

lemma index_entries_append: "length seps \<le> length bs \<Longrightarrow> index_entries ri (bs @ cs) seps = index_entries ri bs seps"
  by (simp add: index_entries_def block_handle_append)

lemma index_entries_snoc:
  "index_entries ri bs (seps @ [k]) = index_entries ri bs seps @ [(k, Handle_EncodeTo (block_handle ri bs (length seps)) [])]"
  by (simp add: index_entries_def nth_append)

lemma filter_blocks_snoc: "filter_blocks ri (bs @ [b]) = filter_blocks ri bs @ [(wrap64 (length (data_area ri bs)), map fst b)]"
  by (simp add: filter_blocks_def block_pos_def nth_append)

lemma filter_state_snoc: "filter_state ri p bs (cur @ [(k, v)]) = AddKey k (filter_state ri p bs cur)"
  by (simp add: filter_state_def add_block_def)

lemma filter_state_flush:
  "filter_state ri p (bs @ [cur]) [] = StartBlock (fp_CreateFilter p) (wrap64 (length (data_area ri (bs @ [cur])))) (filter_state ri p bs cur)"
  by (simp add: filter_state_def filter_blocks_snoc add_block_def)

lemma building_new:
  assumes "reliable f" "contents f = []"
  shows "building_table opts (new_TableBuilder opts f) [] [] []"
  using assms by (auto simp: building_table_def new_TableBuilder_def data_area_def index_entries_def separated_def filter_state_def
      filter_StartBlock_def filter_blocks_def add_block_def wrap64_def option.map_comp comp_def)

lemma Builder_Flush_ok:
  assumes "building_table opts r bs seps cur" "0 < block_restart_interval opts" "cur \<noteq> []"
  shows "building_table opts (Builder_Flush r) (bs @ [cur]) seps [] \<and> tb_pending_index_entry (Builder_Flush r)"
proof -
  let ?ri = "block_restart_interval opts"
  have r: "tb_options r = opts" "tb_index_block_options r = opts\<lparr>block_restart_interval := 1\<rparr>" "tb_status r = OK" "reliable (tb_file r)"
     "contents (tb_file r) = data_area ?ri bs" "tb_offset r = of_nat (length (contents (tb_file r)))" "tb_data_block r = add_all ?ri cur"
     "tb_index_block r = add_all 1 (index_entries ?ri bs seps)"
     "tb_filter_block r = map_option (\<lambda>p. (p, filter_state ?ri p bs cur)) (filter_policy_opt opts)"
     "[] \<notin> set bs" "separated opts (bs @ [cur]) seps" "tb_last_key r = last_key cur" "length bs = length seps"
    using assms(1,3) by (simp_all add: building_table_def split: if_splits)
  obtain f where f: "WriteBlock r (add_all ?ri cur) (tb_pending_handle r) =
      (r\<lparr>tb_file := f, tb_status := OK, tb_offset := of_nat (length (contents f)), tb_compressed_output := []\<rparr>, new_BlockBuilder,
       handle_at (length (contents (tb_file r))) (build_block ?ri cur))"
    "contents f = contents (tb_file r) @ stored (build_block ?ri cur)" "reliable f"
    using WriteBlock_ok [OF r(4,6)] by blast
  obtain f' where f': "file_Flush f = (OK, f')" "contents f' = contents f" "reliable f'" using file_Flush_reliable [OF f(3)] by blast
  have c: "contents f' = data_area ?ri (bs @ [cur])" using f(2) f'(2) r(5) by (simp add: data_area_snoc)
  have "bb_buffer (tb_data_block r) \<noteq> []" using add_all_empty [OF assms(2)] assms(3) r(7) by simp
  then have "Builder_Flush r = r\<lparr>tb_file := f', tb_status := OK, tb_offset := of_nat (length (contents f')), tb_compressed_output := [],
      tb_data_block := new_BlockBuilder, tb_pending_handle := handle_at (length (contents (tb_file r))) (build_block ?ri cur),
      tb_pending_index_entry := True, tb_filter_block := map_option (filter_StartBlock (of_nat (length (contents f')))) (tb_filter_block r)\<rparr>"
    using r(3,7) f(1) f' by (simp add: Builder_Flush_def)
  moreover have "map_option (filter_StartBlock (of_nat (length (contents f')))) (tb_filter_block r) =
      map_option (\<lambda>p. (p, filter_state ?ri p (bs @ [cur]) [])) (filter_policy_opt opts)"
    unfolding r(9) c by (simp add: option.map_comp comp_def filter_StartBlock_def filter_state_flush wrap64_def)
  ultimately show ?thesis
    using r f' c assms(3) block_handle_last [of ?ri bs cur]
    by (simp add: building_table_def index_entries_append)
qed

lemma Table_Add_ok:
  assumes "building_table opts r bs seps cur" "0 < block_restart_interval opts"
  shows "\<exists>seps'.
    if block_size opts \<le> CurrentSizeEstimate (add_all (block_restart_interval opts) (cur @ [(k, v)]))
    then building_table opts (Table_Add r k v) (bs @ [cur @ [(k, v)]]) seps' [] else building_table opts (Table_Add r k v) bs seps' (cur @ [(k, v)])"
proof -
  let ?ri = "block_restart_interval opts"
  define r1 where "r1 = (if tb_pending_index_entry r
      then add_index_entry r (c_FindShortestSeparator (opt_comparator (tb_options r)) (tb_last_key r) k) else r)"
  define r2 where "r2 = r1\<lparr>tb_filter_block := map_option (\<lambda>(p, fb). (p, AddKey k fb)) (tb_filter_block r1), tb_last_key := k,
     tb_num_entries := tb_num_entries r1 + 1, tb_data_block := Builder_Add ?ri (tb_data_block r1) k v\<rparr>"
  have r: "tb_options r = opts" "tb_status r = OK" using assms(1) by (simp_all add: building_table_def)
  obtain seps1 where s: "building_table opts r2 bs seps1 (cur @ [(k, v)])"
  proof (cases "tb_pending_index_entry r")
    case True
    let ?k = "c_FindShortestSeparator (opt_comparator opts) (tb_last_key r) k"
    have p: "cur = []" "length bs = Suc (length seps)" "tb_pending_handle r = block_handle ?ri bs (length seps)" "tb_last_key r = last_key (last bs)"
      "bs \<noteq> []" "separated opts bs seps"
      using assms(1) True by (auto simp: building_table_def)
    have "last bs = bs ! length seps" using p(2,5) by (simp add: last_conv_nth)
    then have "separated opts (bs @ [[(k, v)]]) (seps @ [?k])"
      using p(2,4,6) by (auto simp: separated_def nth_append less_Suc_eq)
    then have "building_table opts r2 bs (seps @ [?k]) (cur @ [(k, v)])"
      using assms(1) True p unfolding r2_def r1_def
      by (simp add: building_table_def add_index_entry_def index_entries_snoc option.map_comp comp_def filter_state_snoc [where cur = "[]", simplified])
    then show thesis using that by blast
  next
    case False
    then have "separated opts (bs @ [cur @ [(k, v)]]) seps" "length bs = length seps"
      using assms(1) by (cases "cur = []"; auto simp: building_table_def separated_def nth_append less_Suc_eq)+
    then have "building_table opts r2 bs seps (cur @ [(k, v)])"
      using assms(1) False unfolding r2_def r1_def by (simp add: building_table_def option.map_comp comp_def filter_state_snoc)
    then show thesis using that by blast
  qed
  have "tb_options r1 = opts" using r by (simp add: r1_def add_index_entry_def)
  then have "Table_Add r k v = (if CurrentSizeEstimate (tb_data_block r2) \<ge> block_size opts then Builder_Flush r2 else r2)"
    using r by (simp add: Table_Add_def Let_def r2_def r1_def [symmetric])
  moreover have "tb_data_block r2 = add_all ?ri (cur @ [(k, v)])" using s by (simp add: building_table_def)
  ultimately show ?thesis using Builder_Flush_ok [OF s assms(2)] s by auto
qed

lemma Table_Add_all:
  assumes "building_table opts r bs seps cur" "0 < block_restart_interval opts"
  shows "\<exists>bs' seps' cur'. building_table opts (foldl (\<lambda>r (k, v). Table_Add r k v) r es) bs' seps' cur' \<and>
    bs' @ split_blocks opts cur' [] = bs @ split_blocks opts cur es"
  using assms(1)
proof (induction es arbitrary: r bs seps cur)
  case (Cons e es)
  obtain k v where e: "e = (k, v)" by fastforce
  obtain seps1 where 1: "if block_size opts \<le> CurrentSizeEstimate (add_all (block_restart_interval opts) (cur @ [(k, v)]))
    then building_table opts (Table_Add r k v) (bs @ [cur @ [(k, v)]]) seps1 [] else building_table opts (Table_Add r k v) bs seps1 (cur @ [(k, v)])"
    using Table_Add_ok [OF Cons.prems assms(2)] by blast
  then show ?case unfolding e using Cons.IH by (fastforce split: if_splits)
qed auto

subsection \<open>Finishing\<close>

text \<open>The filter and the meta index.\<close>

lemma write_metaindex_ok:
  assumes "reliable (tb_file r)" "tb_offset r = of_nat (length (contents (tb_file r)))" "tb_options r = opts"
    and "tb_filter_block r = map_option (\<lambda>p. (p, fb p)) (filter_policy_opt opts)"
  obtains f where "write_metaindex r h =
      Some (r\<lparr>tb_file := f, tb_status := OK, tb_offset := of_nat (length (contents f)), tb_compressed_output := []\<rparr>,
        handle_at (length (contents (tb_file r)))
          (build_block (block_restart_interval opts) (case filter_policy_opt opts of None \<Rightarrow> [] | Some p \<Rightarrow> [(filter_key p, Handle_EncodeTo h [])])))"
    "contents f = contents (tb_file r) @ stored
          (build_block (block_restart_interval opts) (case filter_policy_opt opts of None \<Rightarrow> [] | Some p \<Rightarrow> [(filter_key p, Handle_EncodeTo h [])]))"
    "reliable f"
proof -
  let ?es = "case filter_policy_opt opts of None \<Rightarrow> [] | Some p \<Rightarrow> [(filter_key p, Handle_EncodeTo h [])]"
  obtain f where f: "WriteBlock r (add_all (block_restart_interval opts) ?es) new_BlockHandle =
      (r\<lparr>tb_file := f, tb_status := OK, tb_offset := of_nat (length (contents f)), tb_compressed_output := []\<rparr>, new_BlockBuilder,
       handle_at (length (contents (tb_file r))) (build_block (block_restart_interval opts) ?es))"
    "contents f = contents (tb_file r) @ stored (build_block (block_restart_interval opts) ?es)" "reliable f"
    using WriteBlock_ok [OF assms(1,2)] by blast
  then show thesis using that [of f] assms(3,4)
    by (cases "filter_policy_opt opts") (simp_all add: write_metaindex_def filter_key_def)
qed

lemma write_index_ok:
  assumes "reliable (tb_file r)" "tb_offset r = of_nat (length (contents (tb_file r)))" "tb_options r = opts"
    and "tb_index_block_options r = opts\<lparr>block_restart_interval := 1\<rparr>" "tb_index_block r = add_all 1 (index_entries ri bs seps)"
    and "if tb_pending_index_entry r
         then length bs = Suc (length seps) \<and> tb_pending_handle r = block_handle ri bs (length seps) \<and> tb_last_key r = last_key (last bs)
         else bs = [] \<and> seps = []"
    and "separated opts bs seps"
  shows "\<exists>f r' seps'. write_index r = (r'\<lparr>tb_file := f, tb_status := OK, tb_offset := of_nat (length (contents f))\<rparr>,
      handle_at (length (contents (tb_file r))) (build_block 1 (index_entries ri bs seps'))) \<and>
    contents f = contents (tb_file r) @ stored (build_block 1 (index_entries ri bs seps')) \<and> reliable f \<and> index_keys opts bs seps'"
proof -
  define r1 where "r1 = (if tb_pending_index_entry r then add_index_entry r (c_FindShortSuccessor (opt_comparator (tb_options r)) (tb_last_key r)) else r)"
  define seps' where "seps' = (if tb_pending_index_entry r then seps @ [c_FindShortSuccessor (opt_comparator opts) (tb_last_key r)] else seps)"
  have r1: "tb_file r1 = tb_file r" "tb_offset r1 = tb_offset r" by (simp_all add: r1_def add_index_entry_def)
  have "tb_index_block r1 = add_all 1 (index_entries ri bs seps')"
    using assms(3-6) by (simp add: r1_def seps'_def add_index_entry_def index_entries_snoc)
  moreover obtain f where "WriteBlock r1 (add_all 1 (index_entries ri bs seps')) new_BlockHandle =
      (r1\<lparr>tb_file := f, tb_status := OK, tb_offset := of_nat (length (contents f)), tb_compressed_output := []\<rparr>, new_BlockBuilder,
       handle_at (length (contents (tb_file r1))) (build_block 1 (index_entries ri bs seps')))"
    "contents f = contents (tb_file r1) @ stored (build_block 1 (index_entries ri bs seps'))" "reliable f"
    using WriteBlock_ok [of r1] assms(1,2) r1 by metis
  moreover have "index_keys opts bs seps'"
    using assms(6,7) by (auto simp: index_keys_def separated_def seps'_def nth_append split: if_splits)
  ultimately show ?thesis
    using r1 by (intro exI [of _ f] exI [of _ "r1\<lparr>tb_compressed_output := [], tb_index_block := new_BlockBuilder\<rparr>"] exI [of _ seps'])
      (simp add: write_index_def Let_def r1_def [symmetric])
qed

lemma building_closed: "building_table opts (r\<lparr>tb_closed := c\<rparr>) bs seps cur \<longleftrightarrow> building_table opts r bs seps cur"
  by (simp add: building_table_def cong: if_cong)

lemma Table_Finish_ok:
  assumes "building_table opts r bs seps cur" "0 < block_restart_interval opts"
  shows "\<exists>r' bs' seps'. Table_Finish r = Some (OK, r') \<and> contents (tb_file r') = table_bytes opts bs' seps' \<and>
    bs' = bs @ split_blocks opts cur [] \<and> index_keys opts bs' seps' \<and> FileSize r' = of_nat (length (table_bytes opts bs' seps'))"
proof -
  let ?ri = "block_restart_interval opts"
  define r1 where "r1 = (Builder_Flush r)\<lparr>tb_closed := True\<rparr>"
  obtain bs' where bs': "building_table opts r1 bs' seps []" "bs' = bs @ split_blocks opts cur []"
  proof (cases "cur = []")
    case True
    then have "Builder_Flush r = r" using assms(1) by (simp add: building_table_def Builder_Flush_def new_BlockBuilder_def)
    then show thesis using that [of bs] assms(1) True by (simp add: r1_def building_closed)
  next
    case False
    have "building_table opts r1 (bs @ [cur]) seps []" using Builder_Flush_ok [OF assms False] by (simp add: r1_def building_closed)
    then show thesis using that False by simp
  qed
  have r1: "tb_options r1 = opts" "tb_index_block_options r1 = opts\<lparr>block_restart_interval := 1\<rparr>" "tb_status r1 = OK" "reliable (tb_file r1)"
     "contents (tb_file r1) = data_area ?ri bs'" "tb_offset r1 = of_nat (length (contents (tb_file r1)))"
     "tb_index_block r1 = add_all 1 (index_entries ?ri bs' seps)"
     "tb_filter_block r1 = map_option (\<lambda>p. (p, filter_state ?ri p bs' [])) (filter_policy_opt opts)"
     "[] \<notin> set bs'" "separated opts bs' seps" "bs' \<noteq> [] \<longrightarrow> tb_last_key r1 = last_key (last bs')"
     "if tb_pending_index_entry r1 then length bs' = Suc (length seps) \<and> tb_pending_handle r1 = block_handle ?ri bs' (length seps)
      else length bs' = length seps \<and> bs' = []"
    using bs'(1) by (auto simp: building_table_def)
  let ?fh = "case filter_policy_opt opts of None \<Rightarrow> new_BlockHandle | Some p \<Rightarrow> filter_handle opts p bs'"
  obtain f2 where f2: "(case tb_filter_block r1 of
          Some (p, fb) \<Rightarrow> (if tb_status r1 = OK then WriteRawBlock r1 (Filter_Finish (fp_CreateFilter p) fb) kNoCompression new_BlockHandle
                           else (r1, new_BlockHandle))
        | None \<Rightarrow> (r1, new_BlockHandle)) = (r1\<lparr>tb_file := f2, tb_status := OK, tb_offset := of_nat (length (contents f2))\<rparr>, ?fh)"
    "contents f2 = data_area ?ri bs' @ filter_area opts bs'" "reliable f2"
  proof (cases "filter_policy_opt opts")
    case None
    then show thesis using r1(3,4,5,6,8) that [of "tb_file r1"] by (simp add: filter_area_def)
  next
    case (Some p)
    obtain f where "WriteRawBlock r1 (filter_bytes ?ri p bs') kNoCompression new_BlockHandle =
      (r1\<lparr>tb_file := f, tb_status := OK, tb_offset := of_nat (length (contents f))\<rparr>, handle_at (length (contents (tb_file r1))) (filter_bytes ?ri p bs'))"
      "contents f = contents (tb_file r1) @ stored (filter_bytes ?ri p bs')" "reliable f"
      using WriteRawBlock_ok [OF r1(4,6)] by blast
    then show thesis using Some r1(3,5,8) that [of f] by (simp add: filter_area_def filter_handle_def filter_bytes_def)
  qed
  define r2 where "r2 = r1\<lparr>tb_file := f2, tb_status := OK, tb_offset := of_nat (length (contents f2))\<rparr>"
  have meta: "build_block ?ri (case filter_policy_opt opts of None \<Rightarrow> [] | Some p \<Rightarrow> [(filter_key p, Handle_EncodeTo ?fh [])]) = meta_block opts bs'"
    by (auto simp: meta_block_def split: option.splits)
  obtain f3 where f3: "write_metaindex r2 ?fh =
      Some (r2\<lparr>tb_file := f3, tb_status := OK, tb_offset := of_nat (length (contents f3)), tb_compressed_output := []\<rparr>,
        handle_at (length (contents f2)) (meta_block opts bs'))"
    "contents f3 = contents f2 @ stored (meta_block opts bs')" "reliable f3"
    using write_metaindex_ok [of r2 opts "\<lambda>p. filter_state ?ri p bs' []" ?fh] f2(3) r1(1,8) unfolding meta by (auto simp: r2_def)
  define r3 where "r3 = r2\<lparr>tb_file := f3, tb_status := OK, tb_offset := of_nat (length (contents f3)), tb_compressed_output := []\<rparr>"
  obtain f4 r4 seps' where f4: "write_index r3 = (r4\<lparr>tb_file := f4, tb_status := OK, tb_offset := of_nat (length (contents f4))\<rparr>,
      handle_at (length (contents f3)) (index_block_bytes opts bs' seps'))"
    "contents f4 = contents f3 @ stored (index_block_bytes opts bs' seps')" "reliable f4" "index_keys opts bs' seps'"
    using write_index_ok [of r3 opts ?ri bs' seps] f3(3) r1 unfolding index_block_bytes_def by (auto simp: r3_def r2_def split: if_splits)
  let ?ft = "Footer_EncodeTo (table_footer opts bs' seps') []"
  obtain f5 where f5: "file_Append f4 ?ft = (OK, f5)" "contents f5 = contents f4 @ ?ft"
    using file_Append_reliable [OF f4(3)] by blast
  have ft: "table_footer opts bs' seps' = \<lparr>metaindex_handle = handle_at (length (contents f2)) (meta_block opts bs'),
      index_handle = handle_at (length (contents f3)) (index_block_bytes opts bs' seps')\<rparr>"
    using f2(2) f3(2) by (simp add: table_footer_def meta_pos_def add.assoc)
  have c: "contents f5 = table_bytes opts bs' seps'" using f2(2) f3(2) f4(2) f5(2) by (simp add: table_bytes_def)
  let ?r5 = "r4\<lparr>tb_file := f5, tb_status := OK, tb_offset := of_nat (length (contents f4)) + of_nat (length ?ft)\<rparr>"
  have off: "of_nat (length (contents f4)) + of_nat (length ?ft) = (of_nat (length (table_bytes opts bs' seps')) :: uint64)"
    using arg_cong [OF f5(2), of length] c by (simp flip: of_nat_add)
  have st: "(tb_status r2 = OK) = True" "(tb_status r3 = OK) = True" by (simp_all add: r2_def r3_def)
  note e = f2(1) [folded r2_def] f3(1) [folded r3_def]
  have "Table_Finish r = Some (OK, ?r5)"
    unfolding Table_Finish_def r1_def [symmetric] Let_def e(1) prod.case st if_True e(2) Option.bind.simps f4(1) TableBuilder.simps
    by (simp add: write_footer_def ft [symmetric] f5(1))
  then show ?thesis using c bs'(2) f4(4) off by (intro exI [of _ ?r5] exI [of _ bs'] exI [of _ seps']) (simp add: FileSize_def)
qed

text \<open>The table file of a list of entries.\<close>

definition build_table :: "Options \<Rightarrow> WritableFile \<Rightarrow> entry list \<Rightarrow> (Status \<times> TableBuilder) option" where
  "build_table opts f es = Table_Finish (foldl (\<lambda>r (k, v). Table_Add r k v) (new_TableBuilder opts f) es)"

lemma build_table_ok:
  assumes "reliable f" "contents f = []" "0 < block_restart_interval opts"
  obtains r where "build_table opts f es = Some (OK, r)" "contents (tb_file r) = table_file opts es" "FileSize r = of_nat (length (table_file opts es))"
proof -
  obtain bs seps cur where b: "building_table opts (foldl (\<lambda>r (k, v). Table_Add r k v) (new_TableBuilder opts f) es) bs seps cur"
      "bs @ split_blocks opts cur [] = split_blocks opts [] es"
    using Table_Add_all [OF building_new [OF assms(1,2)] assms(3), of es] by auto
  obtain r bs' seps' where r: "build_table opts f es = Some (OK, r)" "contents (tb_file r) = table_bytes opts bs' seps'"
      "bs' = bs @ split_blocks opts cur []" "index_keys opts bs' seps'" "FileSize r = of_nat (length (table_bytes opts bs' seps'))"
    using Table_Finish_ok [OF b(1) assms(3)] unfolding build_table_def by blast
  then have "table_bytes opts bs' seps' = table_file opts es" using b(2) by (simp add: table_file_def index_keys_seps Let_def)
  then show thesis using that r(1,2,5) by simp
qed

subsection \<open>Size of the file\<close>

text \<open>A block, and a table without filter, are bounded by the sizes of the keys and values.\<close>

definition entry_size :: "entry \<Rightarrow> nat" where
  "entry_size e = length (fst e) + length (snd e) + 19"

lemma length_build_block:
  assumes "0 < ri"
  shows "length (build_block ri es) \<le> sum_list (map entry_size es) + 8"
proof -
  have "building new_BlockBuilder [] [0]" by (simp add: building_def new_BlockBuilder_def chain_def restarts_ok_def)
  from building_all [OF this assms, of es] obtain ss R where b: "building (add_all ri es) ss R" "map snd ss = es" by auto
  have v: "length (EncodeVarint32 x) \<le> 5" for x
  proof -
    have "unat x < 128 ^ 5" using unat_less_2p [of x] by simp
    then show ?thesis unfolding EncodeVarint32_bytes by (intro length_varint_bytes_le) simp_all
  qed
  have e: "length (entry_enc s) + 4 \<le> entry_size (snd s)" for s
  proof -
    obtain n k w where s: "s = (n, k, w)" by (metis prod_cases3)
    show ?thesis unfolding s using v [of "of_nat n"] v [of "of_nat (length k - n)"] v [of "of_nat (length w)"] by (simp add: entry_size_def)
  qed
  have "length (concat (map entry_enc ss)) + 4 * length ss \<le> sum_list (map (entry_size \<circ> snd) ss)"
  proof (induction ss)
    case (Cons s ss)
    then show ?case using e [of s] by simp
  qed simp
  moreover have "length R \<le> Suc (length ss)"
  proof -
    have R: "restarts_ok ss R" using b(1) by (simp add: building_def)
    have "distinct R" using R by (auto simp: restarts_ok_def strict_sorted_iff)
    moreover have "set R \<subseteq> {0..length ss}" using R by (auto simp: restarts_ok_def split: if_splits)
    ultimately show ?thesis using card_mono [of "{0..length ss}" "set R"] distinct_card [of R] by simp
  qed
  moreover have "map entry_size es = map (entry_size \<circ> snd) ss" using b(2) by auto
  moreover have "length (concat (map EncodeFixed32 rs)) = 4 * length rs" for rs by (induction rs) (simp_all add: EncodeFixed32_bytes)
  then have "length (build_block ri es) = length (concat (map entry_enc ss)) + 4 * length R + 4"
    using b(1) by (simp add: build_block_def Builder_Finish_def Let_def foldl_PutFixed32 PutFixed32_def building_def EncodeFixed32_bytes del: map_map)
  ultimately show ?thesis by simp
qed

lemma length_data_area:
  assumes "0 < ri"
  shows "length (data_area ri bs) \<le> sum_list (map (\<lambda>b. sum_list (map entry_size b) + 13) bs)"
proof (induction bs)
  case (Cons b bs)
  then show ?case using length_build_block [OF assms, of b] by (simp add: data_area_def length_stored kBlockTrailerSize_def)
qed (simp add: data_area_def)

lemma length_table_bytes:
  assumes "0 < block_restart_interval opts" "filter_policy_opt opts = None"
  shows "length (table_bytes opts bs seps) \<le>
    sum_list (map (\<lambda>b. sum_list (map entry_size b) + 13) bs) + sum_list (map (\<lambda>s. length s + 39) seps) + 74"
proof -
  let ?ri = "block_restart_interval opts"
  have "sum_list (map entry_size (index_entries ?ri bs seps)) \<le> sum_list (map (\<lambda>i. length (seps ! i) + 39) [0..<length seps])"
    unfolding index_entries_def map_map by (rule sum_list_mono) (use length_Handle in \<open>auto simp: entry_size_def kMaxEncodedLength_def\<close>)
  also have "\<dots> = sum_list (map (\<lambda>s. length s + 39) seps)" by (rule arg_cong [of _ _ sum_list], rule nth_equalityI) simp_all
  finally have "length (index_block_bytes opts bs seps) \<le> sum_list (map (\<lambda>s. length s + 39) seps) + 8"
    using length_build_block [of 1 "index_entries ?ri bs seps"] by (simp add: index_block_bytes_def)
  then show ?thesis
    using length_data_area [OF assms(1), of bs] length_build_block [OF assms(1), of "[]"] assms(2) length_Footer [of "table_footer opts bs seps"]
    by (simp add: table_bytes_def filter_area_def meta_block_def length_stored kBlockTrailerSize_def kEncodedLength_def kMaxEncodedLength_def)
qed

end
