(* ===== verification/Ldb_Table.thy ===== *)
theory Ldb_Table
  imports Ldb_Table_Format
begin

text \<open>
  \<^verbatim>\<open>table/table.cc\<close>: opening a table file and lookups in it.  The operations of the block cache are an argument.
\<close>

subsection \<open>Iterators\<close>

text \<open>An iterator over a block, or one of the iterators without entries of \<^verbatim>\<open>table/iterator.cc\<close>.\<close>

definition Iter_Seek :: "(byte list \<Rightarrow> byte list \<Rightarrow> int) \<Rightarrow> byte list \<Rightarrow> block_iterator \<Rightarrow> block_iterator option" where
  "Iter_Seek cmp target i = (case i of Iter it \<Rightarrow> map_option Iter (BI_Seek cmp target it) | _ \<Rightarrow> Some i)"

definition Iter_Valid :: "block_iterator \<Rightarrow> bool" where
  "Iter_Valid i = (case i of Iter it \<Rightarrow> BI_Valid it | _ \<Rightarrow> False)"

definition Iter_status :: "block_iterator \<Rightarrow> Status" where
  "Iter_status i = (case i of Iter it \<Rightarrow> bi_status it | EmptyIterator \<Rightarrow> OK | ErrorIterator s \<Rightarrow> s)"

definition Iter_key :: "block_iterator \<Rightarrow> byte list option" where
  "Iter_key i = (case i of Iter it \<Rightarrow> Some (bi_key it) | _ \<Rightarrow> Some [])"

definition Iter_value :: "block_iterator \<Rightarrow> byte list option" where
  "Iter_value i = (case i of Iter it \<Rightarrow> BI_value it | _ \<Rightarrow> Some [])"

subsection \<open>Block cache\<close>

record 'c cache_ops =
  cache_Lookup :: "'c \<Rightarrow> byte list \<Rightarrow> Block option \<times> 'c"
  cache_Insert :: "'c \<Rightarrow> byte list \<Rightarrow> Block \<Rightarrow> nat \<Rightarrow> 'c"
  cache_NewId :: "'c \<Rightarrow> uint64 \<times> 'c"

text \<open>
  A lookup is the whole use of a block: the handle is looked up, its value read, and the handle released when the iterator over the block is deleted; and likewise for
  an insertion.  What the table relies on: a lookup only finds what was inserted under its key, and neither lookups nor insertions bring anything else, as long as the
  cache is in a state \<open>inv\<close> that they keep.
\<close>

definition all_cached :: "('c \<Rightarrow> byte list \<Rightarrow> Block option \<times> 'c) \<Rightarrow> (byte list \<Rightarrow> Block \<Rightarrow> bool) \<Rightarrow> 'c \<Rightarrow> bool" where
  "all_cached lookup P c \<longleftrightarrow> (\<forall>key b. fst (lookup c key) = Some b \<longrightarrow> P key b)"

locale block_cache =
  fixes inv :: "'c \<Rightarrow> bool" and lookup :: "'c \<Rightarrow> byte list \<Rightarrow> Block option \<times> 'c" and insert_block :: "'c \<Rightarrow> byte list \<Rightarrow> Block \<Rightarrow> nat \<Rightarrow> 'c"
  assumes lookup_inv: "inv c \<Longrightarrow> inv (snd (lookup c key))"
    and insert_inv: "inv c \<Longrightarrow> inv (insert_block c key b charge)"
    and lookup_keeps: "inv c \<Longrightarrow> fst (lookup (snd (lookup c key)) key') = Some b \<Longrightarrow> fst (lookup c key') = Some b"
    and insert_adds: "inv c \<Longrightarrow> fst (lookup (insert_block c key b charge) key') = Some b' \<Longrightarrow> key' = key \<and> b' = b \<or> fst (lookup c key') = Some b'"
begin

text \<open>So what holds of all cached blocks holds afterwards when it holds of the new one.\<close>

lemma all_cached_lookup: "inv c \<Longrightarrow> all_cached lookup P c \<Longrightarrow> all_cached lookup P (snd (lookup c key))"
  using lookup_keeps unfolding all_cached_def by blast

lemma all_cached_insert: "inv c \<Longrightarrow> all_cached lookup P c \<Longrightarrow> P key b \<Longrightarrow> all_cached lookup P (insert_block c key b charge)"
  using insert_adds unfolding all_cached_def by blast

end

subsection \<open>Opening a table\<close>

record Table =
  tr_options :: Options
  tr_file :: RandomAccessFile
  tr_cache_id :: uint64
  tr_filter :: "(FilterPolicy \<times> FilterBlockReader) option"
  tr_filter_data :: "byte list option"
  tr_metaindex_handle :: BlockHandle
  tr_index_block :: Block

definition paranoid_options :: "Options \<Rightarrow> ReadOptions" where
  "paranoid_options options = (if paranoid_checks options then new_ReadOptions\<lparr>verify_checksums := True\<rparr> else new_ReadOptions)"

definition ReadFilter :: "Table \<Rightarrow> FilterPolicy \<Rightarrow> byte list \<Rightarrow> Table option" where
  "ReadFilter t policy filter_handle_value =
     (case Handle_DecodeFrom new_BlockHandle filter_handle_value of
        (s, filter_handle, _) \<Rightarrow>
          (if s \<noteq> OK then Some t
           else do {
             (s, block) \<leftarrow> ReadBlock (tr_file t) (paranoid_options (tr_options t)) filter_handle;
             if s \<noteq> OK then Some t
             else do {
               let t = (if heap_allocated block then t\<lparr>tr_filter_data := Some (bc_data block)\<rparr> else t);
               reader \<leftarrow> new_FilterBlockReader (bc_data block);
               Some (t\<lparr>tr_filter := Some (policy, reader)\<rparr>)
             }
           }))"

definition ReadMeta :: "Table \<Rightarrow> Footer \<Rightarrow> Table option" where
  "ReadMeta t footer =
     (case filter_policy_opt (tr_options t) of
        None \<Rightarrow> Some t
      | Some policy \<Rightarrow> do {
          (s, contents) \<leftarrow> ReadBlock (tr_file t) (paranoid_options (tr_options t)) (metaindex_handle footer);
          if s \<noteq> OK then Some t
          else do {
            meta \<leftarrow> new_Block (bc_data contents);
            iter \<leftarrow> NewBlockIterator meta;
            let key = string_bytes ''filter.'' @ fp_Name policy;
            iter \<leftarrow> Iter_Seek BytewiseCompare key iter;
            if Iter_Valid iter \<and> Iter_key iter = Some key
            then do { v \<leftarrow> Iter_value iter; ReadFilter t policy v }
            else Some t
          }
        })"

definition Table_Open ::
  "'c cache_ops \<Rightarrow> Options \<Rightarrow> RandomAccessFile \<Rightarrow> uint64 \<Rightarrow> 'c option \<Rightarrow> (Status \<times> Table option \<times> 'c option) option" where
  "Table_Open ops options file sz cache =
     (if sz < of_nat kEncodedLength then Some (Corruption ''file is too short to be an sstable'', None, cache)
      else (case file (sz - of_nat kEncodedLength) kEncodedLength of
              (s, footer_input, _) \<Rightarrow>
                (if s \<noteq> OK then Some (s, None, cache)
                 else do {
                   (s, footer, _) \<leftarrow> Footer_DecodeFrom new_Footer footer_input;
                   if s \<noteq> OK then Some (s, None, cache)
                   else do {
                     (s, index_block_contents) \<leftarrow> ReadBlock file (paranoid_options options) (index_handle footer);
                     if s \<noteq> OK then Some (s, None, cache)
                     else do {
                       index_block \<leftarrow> new_Block (bc_data index_block_contents);
                       let (cache_id, cache) = (case cache of None \<Rightarrow> (0, None) | Some c \<Rightarrow> map_prod id Some (cache_NewId ops c));
                       t \<leftarrow> ReadMeta \<lparr>tr_options = options, tr_file = file, tr_cache_id = cache_id, tr_filter = None, tr_filter_data = None,
                               tr_metaindex_handle = metaindex_handle footer, tr_index_block = index_block\<rparr> footer;
                       Some (OK, Some t, cache)
                     }
                   }
                 })))"

subsection \<open>Lookup\<close>

text \<open>
  \<^verbatim>\<open>BlockReader\<close>: the block at the handle \<open>index_value\<close>, from the cache or from the file, and an iterator over it.  The handle of the cache is released with
  the iterator.
\<close>

definition cache_key :: "uint64 \<Rightarrow> uint64 \<Rightarrow> byte list" where
  "cache_key cache_id offset = EncodeFixed64 cache_id @ EncodeFixed64 offset"

definition read_new_block :: "Table \<Rightarrow> ReadOptions \<Rightarrow> BlockHandle \<Rightarrow> (Status \<times> (Block \<times> bool) option) option" where
  "read_new_block t options handle = do {
     (s, contents) \<leftarrow> ReadBlock (tr_file t) options handle;
     if s \<noteq> OK then Some (s, None)
     else do { block \<leftarrow> new_Block (bc_data contents); Some (OK, Some (block, cachable contents)) }
   }"

definition find_block ::
  "'c cache_ops \<Rightarrow> Table \<Rightarrow> ReadOptions \<Rightarrow> BlockHandle \<Rightarrow> 'c option \<Rightarrow> (Status \<times> Block option \<times> 'c option) option" where
  "find_block ops t options handle cache =
     (case cache of
        None \<Rightarrow> do { (s, b) \<leftarrow> read_new_block t options handle; Some (s, map_option fst b, None) }
      | Some c \<Rightarrow>
          (let key = cache_key (tr_cache_id t) (bh_offset handle)
           in case cache_Lookup ops c key of
                (Some block, c) \<Rightarrow> Some (OK, Some block, Some c)
              | (None, c) \<Rightarrow> do {
                  (s, b) \<leftarrow> read_new_block t options handle;
                  (case b of
                     None \<Rightarrow> Some (s, None, Some c)
                   | Some (block, cach) \<Rightarrow>
                       Some (s, Some block, Some (if cach \<and> fill_cache options then cache_Insert ops c key block (bl_size block) else c)))
                }))"

definition BlockReader ::
  "'c cache_ops \<Rightarrow> Table \<Rightarrow> ReadOptions \<Rightarrow> byte list \<Rightarrow> 'c option \<Rightarrow> (block_iterator \<times> 'c option) option" where
  "BlockReader ops t options index_value cache =
     (case Handle_DecodeFrom new_BlockHandle index_value of
        (s, handle, _) \<Rightarrow> do {
          (s, block, cache) \<leftarrow> (if s = OK then find_block ops t options handle cache else Some (s, None, cache));
          iter \<leftarrow> (case block of None \<Rightarrow> Some (ErrorIterator s) | Some b \<Rightarrow> NewBlockIterator b);
          Some (iter, cache)
        })"

text \<open>The filter's answer: true when the key cannot be in the block.\<close>

definition filtered_out :: "Table \<Rightarrow> byte list \<Rightarrow> byte list \<Rightarrow> bool option" where
  "filtered_out t handle_value k =
     (case tr_filter t of
        None \<Rightarrow> Some False
      | Some (p, reader) \<Rightarrow>
          (case Handle_DecodeFrom new_BlockHandle handle_value of
             (s, handle, _) \<Rightarrow>
               (if s \<noteq> OK then Some False else map_option Not (Reader_KeyMayMatch (fp_KeyMayMatch p) reader (unat (bh_offset handle)) k))))"

text \<open>\<^verbatim>\<open>InternalGet\<close>: the status, what \<^verbatim>\<open>handle_result\<close> was called with, and the cache.\<close>

definition InternalGet ::
  "'c cache_ops \<Rightarrow> Table \<Rightarrow> ReadOptions \<Rightarrow> byte list \<Rightarrow> 'c option \<Rightarrow> (Status \<times> (byte list \<times> byte list) option \<times> 'c option) option" where
  "InternalGet ops t options k cache = do {
     let cmp = c_Compare (opt_comparator (tr_options t));
     iiter \<leftarrow> NewBlockIterator (tr_index_block t);
     iiter \<leftarrow> Iter_Seek cmp k iiter;
     (s, found, cache) \<leftarrow>
       (if Iter_Valid iiter
        then do {
          handle_value \<leftarrow> Iter_value iiter;
          out \<leftarrow> filtered_out t handle_value k;
          if out then Some (OK, None, cache)
          else do {
            (block_iter, cache) \<leftarrow> BlockReader ops t options handle_value cache;
            block_iter \<leftarrow> Iter_Seek cmp k block_iter;
            found \<leftarrow> (if Iter_Valid block_iter
                      then do { key \<leftarrow> Iter_key block_iter; v \<leftarrow> Iter_value block_iter; Some (Some (key, v)) }
                      else Some None);
            Some (Iter_status block_iter, found, cache)
          }
        }
        else Some (OK, None, cache));
     Some (if s = OK then Iter_status iiter else s, found, cache)
   }"

definition ApproximateOffsetOf :: "Table \<Rightarrow> byte list \<Rightarrow> uint64 option" where
  "ApproximateOffsetOf t key = do {
     index_iter \<leftarrow> NewBlockIterator (tr_index_block t);
     index_iter \<leftarrow> Iter_Seek (c_Compare (opt_comparator (tr_options t))) key index_iter;
     if Iter_Valid index_iter
     then do {
       input \<leftarrow> Iter_value index_iter;
       Some (case Handle_DecodeFrom new_BlockHandle input of
               (s, handle, _) \<Rightarrow> if s = OK then bh_offset handle else bh_offset (tr_metaindex_handle t))
     }
     else Some (bh_offset (tr_metaindex_handle t))
   }"

end
