(* ===== verification/Ldb_Block_Iter.thy ===== *)
theory Ldb_Block_Iter
  imports Ldb_Merger_Spec Ldb_Table_Layout Ldb_Table
begin

text \<open>
  The iterators over a block (\<^verbatim>\<open>table/block.cc\<close>, with the empty ones of \<^verbatim>\<open>table/iterator.cc\<close>) implement the iterator interface, and merging them gives
  the entries of all blocks in order.
\<close>

subsection \<open>Operations\<close>

text \<open>On an iterator without entries the moves do nothing.\<close>

definition on_block :: "(BlockIter \<Rightarrow> BlockIter option) \<Rightarrow> block_iterator \<Rightarrow> block_iterator option" where
  "on_block f i = (case i of Iter it \<Rightarrow> map_option Iter (f it) | _ \<Rightarrow> Some i)"

definition block_iterator_ops :: "(byte list \<Rightarrow> byte list \<Rightarrow> int) \<Rightarrow> block_iterator iterator_ops" where
  "block_iterator_ops cmp =
     \<lparr>io_Valid = Iter_Valid, io_SeekToFirst = on_block BI_SeekToFirst, io_SeekToLast = on_block BI_SeekToLast, io_Seek = Iter_Seek cmp,
      io_Next = on_block BI_Next, io_Prev = on_block BI_Prev, io_key = Iter_key, io_value = Iter_value, io_status = Iter_status\<rparr>"

subsection \<open>Positions\<close>

definition block_iter_on :: "(byte list \<Rightarrow> bool) \<Rightarrow> (byte list \<Rightarrow> byte list \<Rightarrow> int) \<Rightarrow> block_iterator \<Rightarrow> record_list \<Rightarrow> nat option \<Rightarrow> bool" where
  "block_iter_on ok cmp i es p \<longleftrightarrow>
     list_all (ok \<circ> fst) es \<and> ascending cmp es \<and>
     (\<exists>it ss R. i = Iter it \<and> block_ok ss R \<and> map snd ss = es \<and> (case p of None \<Rightarrow> at_end ss R it | Some n \<Rightarrow> at_entry ss R n it))"

lemma block_iter_onE:
  assumes "block_iter_on ok cmp i es p"
  obtains it ss R where "i = Iter it" "block_ok ss R" "map snd ss = es" "iter_on ss R it" "length es = length ss" "list_all (ok \<circ> fst) es" "ascending cmp es"
    "case p of None \<Rightarrow> at_end ss R it | Some n \<Rightarrow> at_entry ss R n it"
  using assms by (cases p) (auto simp: block_iter_on_def at_end_def at_entry_def)

lemma block_iter_onI:
  assumes "list_all (ok \<circ> fst) es" "ascending cmp es" "block_ok ss R" "map snd ss = es" "case p of None \<Rightarrow> at_end ss R it | Some n \<Rightarrow> at_entry ss R n it"
  shows "block_iter_on ok cmp (Iter it) es p"
  using assms by (auto simp: block_iter_on_def)

lemma key_of_nth: "map snd ss = es \<Longrightarrow> n < length ss \<Longrightarrow> key_of ss n = fst (es ! n)" "map snd ss = es \<Longrightarrow> n < length ss \<Longrightarrow> val_of ss n = snd (es ! n)"
  by (auto simp: key_of_def val_of_def)

lemma block_iterator_Seek:
  assumes "comparator ok cmp" "block_iter_on ok cmp i es p" "ok k"
  shows "\<exists>i'. Iter_Seek cmp k i = Some i' \<and> block_iter_on ok cmp i' es (pos_of es (first_ge cmp es k))"
proof -
  obtain it ss R where i: "i = Iter it" "block_ok ss R" "map snd ss = es" "iter_on ss R it" "length es = length ss" "list_all (ok \<circ> fst) es" "ascending cmp es"
    by (rule block_iter_onE [OF assms(2)])
  obtain it' where it': "BI_Seek cmp k it = Some it'"
      "(\<exists>j < length ss. at_entry ss R j it' \<and> cmp (key_of ss j) k \<ge> 0 \<and> (\<forall>m < j. cmp (key_of ss m) k < 0)) \<or> at_end ss R it' \<and> (\<forall>m < length ss. cmp (key_of ss m) k < 0)"
    using BI_Seek_at [OF assms(1) i(2,4), of k] i(3,6,7) assms(3) unfolding ascending_def by metis
  have "case pos_of es (first_ge cmp es k) of None \<Rightarrow> at_end ss R it' | Some n \<Rightarrow> at_entry ss R n it'"
    using it'(2)
  proof
    assume "\<exists>j < length ss. at_entry ss R j it' \<and> cmp (key_of ss j) k \<ge> 0 \<and> (\<forall>m < j. cmp (key_of ss m) k < 0)"
    then obtain j where j: "j < length ss" "at_entry ss R j it'" "cmp (fst (es ! j)) k \<ge> 0" "\<forall>m < j. cmp (fst (es ! m)) k < 0"
      using key_of_nth(1) [OF i(3)] by fastforce
    then have "first_ge cmp es k = j" unfolding first_ge_def using i(5) by (subst takeWhile_eq_take_P_nth [of j]) auto
    then show ?thesis using j i(5) by simp
  next
    assume e: "at_end ss R it' \<and> (\<forall>m < length ss. cmp (key_of ss m) k < 0)"
    then have "\<forall>e \<in> set es. cmp (fst e) k < 0" using key_of_nth(1) [OF i(3)] i(5) by (metis in_set_conv_nth)
    then have "takeWhile (\<lambda>e. cmp (fst e) k < 0) es = es" by (rule takeWhile_eq_all_conv [THEN iffD2])
    then have "first_ge cmp es k = length es" by (simp only: first_ge_def)
    then show ?thesis using e by simp
  qed
  then show ?thesis using it'(1) i(1) block_iter_onI [OF i(6,7,2,3)] by (simp add: Iter_Seek_def)
qed

lemma block_iterator:
  assumes "comparator ok cmp"
  shows "iterator_over ok cmp (block_iterator_ops cmp) (block_iter_on ok cmp)"
proof -
  note defs = block_iterator_ops_def on_block_def Iter_Valid_def Iter_key_def Iter_value_def Iter_status_def
  show ?thesis
  proof (intro iterator_over.intro assms iterator_over_axioms.intro)
    fix i es p assume on: "block_iter_on ok cmp i es p"
    obtain it ss R where i: "i = Iter it" "block_ok ss R" "map snd ss = es" "iter_on ss R it" "length es = length ss" "list_all (ok \<circ> fst) es" "ascending cmp es"
        "case p of None \<Rightarrow> at_end ss R it | Some n \<Rightarrow> at_entry ss R n it"
      by (rule block_iter_onE [OF on])
    show "list_all (ok \<circ> fst) es \<and> ascending cmp es" using i by simp
    show "io_Valid (block_iterator_ops cmp) i \<longleftrightarrow> p \<noteq> None" using i(1,8) at_end_Valid at_entry_Valid by (cases p) (auto simp: defs)
    show "io_status (block_iterator_ops cmp) i = OK" using i(1,4) by (simp add: defs iter_on_def)
    show "\<exists>i'. io_SeekToFirst (block_iterator_ops cmp) i = Some i' \<and> block_iter_on ok cmp i' es (pos_of es 0)"
      using BI_SeekToFirst_ok [OF i(2,4)] block_iter_onI [OF i(6,7,2,3)] i(1,3) by (cases "ss = []") (auto simp: defs)
    show "\<exists>i'. io_SeekToLast (block_iterator_ops cmp) i = Some i' \<and> block_iter_on ok cmp i' es (pos_before (length es))"
      using BI_SeekToLast_ok [OF i(2,4)] block_iter_onI [OF i(6,7,2,3)] i(1,3,5) by (cases "ss = []") (auto simp: defs pos_before_def)
    show "\<exists>i'. io_Seek (block_iterator_ops cmp) k i = Some i' \<and> block_iter_on ok cmp i' es (pos_of es (first_ge cmp es k))" if "ok k" for k
      using block_iterator_Seek [OF assms on that] by (simp add: defs)
  next
    fix i es n assume on: "block_iter_on ok cmp i es (Some n)"
    obtain it ss R where i: "i = Iter it" "block_ok ss R" "map snd ss = es" "length es = length ss" "list_all (ok \<circ> fst) es" "ascending cmp es" "at_entry ss R n it"
      by (rule block_iter_onE [OF on]) simp
    have n: "n < length ss" "bi_key it = key_of ss n" using i(7) by (simp_all add: at_entry_def)
    show "n < length es \<and> io_key (block_iterator_ops cmp) i = Some (fst (es ! n)) \<and> io_value (block_iterator_ops cmp) i = Some (snd (es ! n))"
      using i n key_of_nth [OF i(3) n(1)] at_entry_value [OF i(7)] by (simp add: defs)
    show "\<exists>i'. io_Next (block_iterator_ops cmp) i = Some i' \<and> block_iter_on ok cmp i' es (pos_of es (Suc n))"
      using BI_Next_ok [OF i(2,7)] block_iter_onI [OF i(5,6,2,3)] i(1,4) n(1) by (cases "Suc n = length ss") (auto simp: defs)
    show "\<exists>i'. io_Prev (block_iterator_ops cmp) i = Some i' \<and> block_iter_on ok cmp i' es (pos_before n)"
      using BI_Prev_ok [OF i(2,7)] block_iter_onI [OF i(5,6,2,3)] i(1) by (cases "n = 0") (auto simp: defs pos_before_def)
  qed
qed

text \<open>A new iterator over a built block.\<close>

definition block_reader :: "nat \<Rightarrow> record_list \<Rightarrow> block_iterator option" where
  "block_reader interval es = do { b \<leftarrow> new_Block (build_block interval es); NewBlockIterator b }"

lemma block_reader_on:
  assumes "0 < interval" "length (build_block interval es) < 2 ^ 32" "list_all (ok \<circ> fst) es" "ascending cmp es"
  shows "\<exists>i. block_reader interval es = Some i \<and> block_iter_on ok cmp i es None"
proof -
  obtain ss R where b: "block_ok ss R" "build_block interval es = block_data ss R" "map snd ss = es" by (rule build_block_ok [OF assms(1,2)])
  obtain it where it: "open_block (block_data ss R) = Some it" "iter_on ss R it" using open_block_ok [OF b(1)] by blast
  then obtain bl i where bl: "new_Block (block_data ss R) = Some bl" "NewBlockIterator bl = Some i" "(case i of Iter it \<Rightarrow> Some it | _ \<Rightarrow> None) = Some it"
    by (auto simp: open_block_def bind_eq_Some_conv)
  then have bl: "new_Block (block_data ss R) = Some bl" "NewBlockIterator bl = Some (Iter it)" by (cases i; simp)+
  have r: "block_reader interval es = Some (Iter it)" using bl b(2) by (simp add: block_reader_def)
  have "bi_current it = bi_restarts it" using bl(2) by (auto simp: NewBlockIterator_def new_BlockIter_def bind_eq_Some_conv split: if_splits)
  have "at_end ss R it" using it(2) \<open>bi_current it = bi_restarts it\<close> by (simp add: at_end_def iter_on_def)
  then show ?thesis using r block_iter_onI [OF assms(3,4) b(1,3), where p = None and it = it] by simp
qed

end
