(* ===== verification/Ldb_Db_Iterator.thy ===== *)
theory Ldb_Db_Iterator
  imports Ldb_Db_Iter_Spec Ldb_Block_Iter
begin

text \<open>
  The iterator of the database implements the iterator interface over the view of its snapshot, on any iterator over the entries in the order of internal keys; and so it
  does on the merge of block iterators.
\<close>

subsection \<open>Positions in the view\<close>

definition db_at ::
  "(byte list \<Rightarrow> byte list \<Rightarrow> int) \<Rightarrow> ('i \<Rightarrow> record_list \<Rightarrow> nat option \<Rightarrow> bool) \<Rightarrow> SequenceNumber \<Rightarrow> mem_entry list \<Rightarrow> nat option \<Rightarrow> 'i DBIter \<Rightarrow> bool" where
  "db_at cmp on s ms p d \<longleftrightarrow>
     (case p of
        None \<Rightarrow> \<not> di_valid d \<and> (\<exists>ip. base_at cmp on s ms ip d)
      | Some q \<Rightarrow> di_valid d \<and> (\<exists>m < length ms. shown s ms m \<and> q = rank s ms m \<and>
          (if di_direction d = kForward then base_at cmp on s ms (Some m) d else reverse_at cmp on s ms m d)))"

definition db_on ::
  "(byte list \<Rightarrow> byte list \<Rightarrow> int) \<Rightarrow> ('i \<Rightarrow> record_list \<Rightarrow> nat option \<Rightarrow> bool) \<Rightarrow> SequenceNumber \<Rightarrow> 'i DBIter \<Rightarrow> record_list \<Rightarrow> nat option \<Rightarrow> bool" where
  "db_on cmp on s d vs p \<longleftrightarrow> (\<exists>ms. vs = db_view s ms \<and> db_at cmp on s ms p d)"

lemma db_at_base: "db_at cmp on s ms p d \<Longrightarrow> \<exists>ip. base_at cmp on s ms ip d"
  by (auto simp: db_at_def reverse_at_def split: option.splits if_splits)

context db_iterator
begin

lemma view_ascending:
  assumes "entries_sorted cmp ms"
  shows "ascending cmp (db_view s ms)"
proof -
  have "sorted_wrt (<) (filter (shown s ms) [0 ..< length ms])" by (simp add: sorted_wrt_filter)
  then have "sorted_wrt (\<lambda>i j. cmp (ukey ms i) (ukey ms j) < 0) (filter (shown s ms) [0 ..< length ms])"
  proof (rule sorted_wrt_mono_rel [rotated])
    fix i j assume ij: "i \<in> set (filter (shown s ms) [0 ..< length ms])" "j \<in> set (filter (shown s ms) [0 ..< length ms])" "i < j"
    then have "cmp (ukey ms i) (ukey ms j) \<le> 0" "ukey ms i \<noteq> ukey ms j" using ukey_mono [OF assms, of i j] by (auto simp: shown_iff)
    then show "cmp (ukey ms i) (ukey ms j) < 0" using cmp_eq by force
  qed
  then show ?thesis by (simp add: ascending_def db_view_def sorted_wrt_map)
qed

subsection \<open>Forward\<close>

lemma FindNextUserEntry_at:
  assumes "base_at cmp on s ms (Some i) d" "di_direction d = kForward" "i \<le> j" "j \<le> length ms"
    and "skipping \<Longrightarrow> \<forall>x. i \<le> x \<longrightarrow> x < length ms \<longrightarrow> visible_at s ms x \<longrightarrow> cmp (di_saved_key d) (ukey ms x) \<le> 0"
    and "\<And>x. i \<le> x \<Longrightarrow> x < length ms \<Longrightarrow> shown s ms x \<and> j \<le> x \<longleftrightarrow>
      visible_at s ms x \<and> key_type (fst (ms ! x)) = kTypeValue \<and> \<not> (skipping \<and> ukey ms x = di_saved_key d) \<and>
        (\<forall>j. i \<le> j \<longrightarrow> j < x \<longrightarrow> visible_at s ms j \<longrightarrow> ukey ms j \<noteq> ukey ms x)"
  shows "\<exists>d'. FindNextUserEntry ops cmp skipping d = Some d' \<and> db_at cmp on s ms (pos_of (db_view s ms) (rank s ms j)) d'"
proof -
  obtain d' where d': "FindNextUserEntry ops cmp skipping d = Some d'" "di_direction d' = kForward"
      "(\<exists>x. i \<le> x \<and> x < length ms \<and> (shown s ms x \<and> j \<le> x) \<and> (\<forall>y. i \<le> y \<longrightarrow> y < x \<longrightarrow> \<not> (shown s ms y \<and> j \<le> y)) \<and> di_valid d' \<and> base_at cmp on s ms (Some x) d') \<or>
       (\<forall>y. i \<le> y \<longrightarrow> y < length ms \<longrightarrow> \<not> (shown s ms y \<and> j \<le> y)) \<and> \<not> di_valid d' \<and> base_at cmp on s ms None d'"
    using FindNextUserEntry_ok [OF assms(1,2,5), where T = "\<lambda>x. shown s ms x \<and> j \<le> x"] assms(6) by blast
  show ?thesis using d'(3)
  proof
    assume "\<exists>x. i \<le> x \<and> x < length ms \<and> (shown s ms x \<and> j \<le> x) \<and> (\<forall>y. i \<le> y \<longrightarrow> y < x \<longrightarrow> \<not> (shown s ms y \<and> j \<le> y)) \<and> di_valid d' \<and> base_at cmp on s ms (Some x) d'"
    then obtain x where x: "x < length ms" "shown s ms x" "j \<le> x" "\<forall>y. i \<le> y \<longrightarrow> y < x \<longrightarrow> \<not> (shown s ms y \<and> j \<le> y)" "di_valid d'" "base_at cmp on s ms (Some x) d'" by blast
    have "\<forall>y. j \<le> y \<longrightarrow> y < x \<longrightarrow> \<not> shown s ms y" using x(4) assms(3) order_trans by blast
    then have "rank s ms x = rank s ms j" using x(3) by (intro rank_skip)
    then show ?thesis using d'(1,2) x db_view_nth(1) [OF x(1,2)] by (auto simp: db_at_def)
  next
    assume e: "(\<forall>y. i \<le> y \<longrightarrow> y < length ms \<longrightarrow> \<not> (shown s ms y \<and> j \<le> y)) \<and> \<not> di_valid d' \<and> base_at cmp on s ms None d'"
    then have "\<forall>y. j \<le> y \<longrightarrow> y < length ms \<longrightarrow> \<not> shown s ms y" using assms(3) order_trans by blast
    then have "rank s ms (length ms) = rank s ms j" using assms(4) by (intro rank_skip)
    then show ?thesis using d'(1) e by (auto simp: db_at_def rank_all)
  qed
qed

text \<open>From the first entries of the keys that are not yet passed.\<close>

lemma FindNextUserEntry_from:
  assumes "base_at cmp on s ms (Some i) d" "di_direction d = kForward" "i < length ms"
    and "\<And>x j. j < i \<Longrightarrow> i \<le> x \<Longrightarrow> x < length ms \<Longrightarrow> visible_at s ms j \<Longrightarrow> visible_at s ms x \<Longrightarrow> ukey ms j \<noteq> ukey ms x"
  shows "\<exists>d'. FindNextUserEntry ops cmp False d = Some d' \<and> db_at cmp on s ms (pos_of (db_view s ms) (rank s ms i)) d'"
proof (rule FindNextUserEntry_at [OF assms(1,2)])
  fix x assume x: "i \<le> x" "x < length ms"
  have "ukey ms j = ukey ms x \<longrightarrow> \<not> visible_at s ms j" if "j < i" "visible_at s ms x" for j using assms(4) [OF that(1) x] that(2) by blast
  then show "shown s ms x \<and> i \<le> x \<longleftrightarrow> visible_at s ms x \<and> key_type (fst (ms ! x)) = kTypeValue \<and> \<not> (False \<and> ukey ms x = di_saved_key d) \<and>
      (\<forall>j. i \<le> j \<longrightarrow> j < x \<longrightarrow> visible_at s ms j \<longrightarrow> ukey ms j \<noteq> ukey ms x)"
    using x(1) unfolding shown_iff by (metis not_le)
qed (use assms(3) in auto)

text \<open>Behind the entry \<open>m\<close>, from a position with no visible entry before it.\<close>

lemma FindNextUserEntry_behind:
  assumes "base_at cmp on s ms (Some i) d" "di_direction d = kForward" "i \<le> m" "m < length ms" "shown s ms m" "di_saved_key d = ukey ms m"
    and "\<forall>x. i \<le> x \<longrightarrow> x < m \<longrightarrow> \<not> visible_at s ms x"
  shows "\<exists>d'. FindNextUserEntry ops cmp True d = Some d' \<and> db_at cmp on s ms (pos_of (db_view s ms) (Suc (rank s ms m))) d'"
proof -
  have sorted: "entries_sorted cmp ms" using assms(1) by (simp add: base_at_def)
  have ge: "m \<le> x" if "i \<le> x" "visible_at s ms x" for x using assms(7) that by (meson not_le)
  have mono: "cmp (ukey ms m) (ukey ms x) \<le> 0" if "m \<le> x" "x < length ms" for x by (rule ukey_mono [OF sorted that])
  have "\<exists>d'. FindNextUserEntry ops cmp True d = Some d' \<and> db_at cmp on s ms (pos_of (db_view s ms) (rank s ms (Suc m))) d'"
  proof (rule FindNextUserEntry_at [OF assms(1,2)])
    show "\<forall>x. i \<le> x \<longrightarrow> x < length ms \<longrightarrow> visible_at s ms x \<longrightarrow> cmp (di_saved_key d) (ukey ms x) \<le> 0" using ge mono assms(6) by simp
    fix x assume x: "i \<le> x" "x < length ms"
    show "shown s ms x \<and> Suc m \<le> x \<longleftrightarrow> visible_at s ms x \<and> key_type (fst (ms ! x)) = kTypeValue \<and> \<not> (True \<and> ukey ms x = di_saved_key d) \<and>
        (\<forall>j. i \<le> j \<longrightarrow> j < x \<longrightarrow> visible_at s ms j \<longrightarrow> ukey ms j \<noteq> ukey ms x)" (is "_ \<longleftrightarrow> ?R")
    proof
      assume l: "shown s ms x \<and> Suc m \<le> x"
      moreover have "visible_at s ms m" using assms(5) by (simp add: shown_iff)
      ultimately show ?R unfolding assms(6) shown_iff by (metis Suc_le_lessD)
    next
      assume r: ?R
      then have "m \<le> x" "m \<noteq> x" using ge [OF x(1)] assms(6) by auto
      moreover have "\<not> visible_at s ms j" if j: "j < x" "ukey ms j = ukey ms x" for j
      proof (cases "i \<le> j")
        case True
        then show ?thesis using r j by blast
      next
        case False
        then have "cmp (ukey ms j) (ukey ms m) \<le> 0" using ukey_mono [OF sorted, of j m] assms(3,4) by simp
        then have "ukey ms m = ukey ms x" using mono [OF \<open>m \<le> x\<close> x(2)] j(2) ukey_antisym by metis
        then show ?thesis using r assms(6) by simp
      qed
      ultimately show "shown s ms x \<and> Suc m \<le> x" using r by (auto simp: shown_iff)
    qed
  qed (use assms(3,4) in auto)
  then show ?thesis using assms(5) by (simp add: rank_Suc)
qed

lemma DI_Next_on:
  assumes "db_at cmp on s ms (Some q) d"
  shows "\<exists>d'. DI_Next ops cmp d = Some d' \<and> db_at cmp on s ms (pos_of (db_view s ms) (Suc q)) d'"
proof -
  obtain m where m: "m < length ms" "shown s ms m" "q = rank s ms m"
      "if di_direction d = kForward then base_at cmp on s ms (Some m) d else reverse_at cmp on s ms m d"
    using assms by (auto simp: db_at_def)
  show ?thesis
  proof (cases "di_direction d")
    case kForward
    then have b: "base_at cmp on s ms (Some m) d" using m(4) by simp
    then have on: "on (di_iter d) (internal_list ms) (Some m)" by (simp add: base_at_def)
    have k: "io_key ops (di_iter d) = Some (ikey (ms ! m))" using base.on_entry [OF on] m(1) by simp
    show ?thesis using FindNextUserEntry_behind [of s ms m "d\<lparr>di_saved_key := ukey ms m\<rparr>" m] b m(1-3) kForward k
      by (simp add: DI_Next_def AppendInternalKey_parts ukey_def)
  next
    case kReverse
    then have "reverse_at cmp on s ms m d" using m(4) by simp
    then obtain ip where r: "di_saved_key d = ukey ms m" "base_at cmp on s ms ip d" "after_pos ip \<le> m" "\<forall>x. after_pos ip \<le> x \<longrightarrow> x < m \<longrightarrow> \<not> visible_at s ms x"
      by (auto simp: reverse_at_def)
    let ?d = "d\<lparr>di_direction := kForward\<rparr>"
    have on: "on (di_iter d) (internal_list ms) ip" using r(2) by (simp add: base_at_def)
    have "\<exists>i. (if \<not> io_Valid ops (di_iter d) then io_SeekToFirst ops (di_iter d) else io_Next ops (di_iter d)) = Some i \<and>
        base_at cmp on s ms (pos_of ms (after_pos ip)) (?d\<lparr>di_iter := i\<rparr>) \<and> io_Valid ops i"
    proof (cases ip)
      case None
      then show ?thesis using base_moves(1) [of s ms ip ?d] r(2) base.on_Valid [OF on] m(1) by (force simp: after_pos_def)
    next
      case (Some n)
      then show ?thesis using base_moves(3) [of s ms ip ?d n] r(2,3) base.on_Valid [OF on] m(1) by (force simp: after_pos_def)
    qed
    then obtain i where i: "(if \<not> io_Valid ops (di_iter d) then io_SeekToFirst ops (di_iter d) else io_Next ops (di_iter d)) = Some i"
      "base_at cmp on s ms (Some (after_pos ip)) (?d\<lparr>di_iter := i\<rparr>)" "io_Valid ops i" using r(3) m(1) by auto
    have "DI_Next ops cmp d = FindNextUserEntry ops cmp True (?d\<lparr>di_iter := i\<rparr>)" using kReverse i(1,3) by (auto simp: DI_Next_def Let_def split: if_splits)
    then show ?thesis using FindNextUserEntry_behind [OF i(2) _ r(3) m(1,2) _ r(4)] r(1) m(3) by simp
  qed
qed

lemma DI_SeekToFirst_on:
  assumes "db_at cmp on s ms p d"
  shows "\<exists>d'. DI_SeekToFirst ops cmp d = Some d' \<and> db_at cmp on s ms (pos_of (db_view s ms) 0) d'"
proof -
  let ?d = "ClearSavedValue (d\<lparr>di_direction := kForward\<rparr>)"
  obtain ip where "base_at cmp on s ms ip d" using db_at_base [OF assms] by blast
  then have "base_at cmp on s ms ip ?d" by (simp add: ClearSavedValue_def)
  from base_moves(1) [OF this] obtain i where i: "io_SeekToFirst ops (di_iter ?d) = Some i" "base_at cmp on s ms (pos_of ms 0) (?d\<lparr>di_iter := i\<rparr>)" "io_Valid ops i \<longleftrightarrow> ms \<noteq> []"
    by blast
  show ?thesis
  proof (cases "ms = []")
    case True
    then have "db_at cmp on s ms (pos_of (db_view s ms) 0) (?d\<lparr>di_iter := i, di_valid := False\<rparr>)" using i(2) by (auto simp: db_at_def db_view_def)
    then show ?thesis using i(1,3) True by (simp add: DI_SeekToFirst_def)
  next
    case False
    then have b: "base_at cmp on s ms (Some 0) (?d\<lparr>di_iter := i\<rparr>)" using i(2) by simp
    show ?thesis using FindNextUserEntry_from [OF b] i(1,3) False by (simp add: DI_SeekToFirst_def ClearSavedValue_def)
  qed
qed

text \<open>The first entry at or after the key of a seek: what is before it and seen belongs to smaller keys.\<close>

lemma seek_split:
  assumes "entries_sorted cmp ms" "s \<le> kMaxSequenceNumber" "n = first_ge (InternalCompare cmp) (internal_list ms) (lookup_ikey u s)"
  shows "n \<le> length ms" "j < n \<Longrightarrow> visible_at s ms j \<Longrightarrow> cmp (ukey ms j) u < 0" "n \<le> x \<Longrightarrow> x < length ms \<Longrightarrow> cmp u (ukey ms x) \<le> 0"
proof -
  have asc: "ascending (InternalCompare cmp) (internal_list ms)" using assms(1) by (auto simp: ascending_def entries_sorted_def sorted_wrt_map elim: sorted_wrt_mono_rel [rotated])
  have "list_all ((\<lambda>k. 8 \<le> length k) \<circ> fst) (internal_list ms)" by (simp add: list_all_iff AppendInternalKey_parts)
  from internal.first_ge_split [OF asc this AppendInternalKey_parts(3)]
  have split: "\<forall>e \<in> set (take n (internal_list ms)). InternalCompare cmp (fst e) (lookup_ikey u s) < 0"
    "\<forall>e \<in> set (drop n (internal_list ms)). \<not> InternalCompare cmp (fst e) (lookup_ikey u s) < 0" unfolding assms(3) by blast+
  show n: "n \<le> length ms" unfolding assms(3) first_ge_def using length_takeWhile_le [of _ "internal_list ms"] by (simp add: length_takeWhile_le [THEN order_trans])
  have seq: "sequence (fst (ms ! x)) \<le> kMaxSequenceNumber" if "x < length ms" for x using assms(1) that by (simp add: entries_sorted_def list_all_length)
  show "cmp (ukey ms j) u < 0" if j: "j < n" "visible_at s ms j"
  proof -
    have "take n (internal_list ms) ! j \<in> set (take n (internal_list ms))" using j(1) n by (intro nth_mem) simp
    then have "InternalCompare cmp (ikey (ms ! j)) (lookup_ikey u s) < 0" using split(1) j(1) n by auto
    then have "\<not> cmp u (ukey ms j) < 0" "ukey ms j \<noteq> u" using at_or_after [OF seq assms(2), of j u] j n by (auto simp: ukey_def visible_def visible_at_def)
    then show ?thesis using cmp_flip [of u "ukey ms j"] cmp_eq [of "ukey ms j" u] by force
  qed
  show "cmp u (ukey ms x) \<le> 0" if x: "n \<le> x" "x < length ms"
  proof -
    have "internal_list ms ! x \<in> set (drop n (internal_list ms))" using x by (auto simp: in_set_conv_nth intro!: exI [of _ "x - n"])
    then have "\<not> InternalCompare cmp (ikey (ms ! x)) (lookup_ikey u s) < 0" using split(2) x by auto
    then show ?thesis using at_or_after [OF seq [OF x(2)] assms(2), of u] cmp_refl by (auto simp: ukey_def visible_def)
  qed
qed

lemma first_ge_view:
  assumes "n \<le> length ms" "\<And>j. j < n \<Longrightarrow> visible_at s ms j \<Longrightarrow> cmp (ukey ms j) u < 0" "\<And>x. n \<le> x \<Longrightarrow> x < length ms \<Longrightarrow> cmp u (ukey ms x) \<le> 0"
  shows "first_ge cmp (db_view s ms) u = rank s ms n"
proof -
  let ?f = "\<lambda>i. (ukey ms i, snd (ms ! i))" and ?P = "\<lambda>e. cmp (fst e) u < 0"
  have 1: "\<forall>e \<in> set (map ?f (filter (shown s ms) [0 ..< n])). ?P e" using assms(2) by (auto simp: shown_iff)
  have 2: "\<forall>e \<in> set (map ?f (filter (shown s ms) [n ..< length ms])). \<not> ?P e" using assms(3) cmp_flip by (auto simp: not_less)
  have 3: "takeWhile ?P (map ?f (filter (shown s ms) [n ..< length ms])) = []" using 2 by (cases "map ?f (filter (shown s ms) [n ..< length ms])") auto
  have "takeWhile ?P (db_view s ms) = map ?f (filter (shown s ms) [0 ..< n])"
    unfolding db_view_split [OF assms(1)] using 1 3 by (subst takeWhile_append2) auto
  then show ?thesis by (simp add: first_ge_def rank_def)
qed

lemma DI_Seek_on:
  assumes "db_at cmp on s ms p d"
  shows "\<exists>d'. DI_Seek ops cmp u d = Some d' \<and> db_at cmp on s ms (pos_of (db_view s ms) (first_ge cmp (db_view s ms) u)) d'"
proof -
  let ?n = "first_ge (InternalCompare cmp) (internal_list ms) (lookup_ikey u s)"
  let ?d = "ClearSavedValue (d\<lparr>di_direction := kForward\<rparr>)\<lparr>di_saved_key := lookup_ikey u s\<rparr>"
  obtain ip where "base_at cmp on s ms ip d" using db_at_base [OF assms] by blast
  then have b: "base_at cmp on s ms ip ?d" "di_sequence d = s" "entries_sorted cmp ms" "s \<le> kMaxSequenceNumber" by (simp_all add: ClearSavedValue_def base_at_def)
  then have on: "on (di_iter ?d) (internal_list ms) ip" by (simp add: base_at_def)
  note split = seek_split [OF b(3,4) refl, where u = u]
  obtain i where i: "io_Seek ops (lookup_ikey u s) (di_iter ?d) = Some i" "on i (internal_list ms) (pos_of (internal_list ms) ?n)"
    using base.on_Seek [OF on AppendInternalKey_parts(3)] by blast
  have bi: "base_at cmp on s ms (pos_of ms ?n) (?d\<lparr>di_iter := i\<rparr>)" using base_at_move [OF b(1) i(2)] by (simp add: pos_of_def)
  have v: "io_Valid ops i \<longleftrightarrow> ?n < length ms" using base.on_Valid [OF i(2)] by (auto simp: pos_of_def)
  have step: "DI_Seek ops cmp u d = (if ?n < length ms then FindNextUserEntry ops cmp False (?d\<lparr>di_iter := i\<rparr>) else Some (?d\<lparr>di_iter := i, di_valid := False\<rparr>))"
    using i(1) v b(2) by (simp add: DI_Seek_def Let_def ClearSavedValue_def kValueTypeForSeek_def)
  have r: "first_ge cmp (db_view s ms) u = rank s ms ?n" by (rule first_ge_view [OF split(1)]) (use split in auto)
  show ?thesis
  proof (cases "?n < length ms")
    case True
    have "ukey ms j \<noteq> ukey ms x" if "j < ?n" "?n \<le> x" "x < length ms" "visible_at s ms j" for x j
      using ukey_less_trans(2) [OF split(2) [OF that(1,4)] split(3) [OF that(2,3)]] cmp_refl by auto
    then have "\<exists>d'. FindNextUserEntry ops cmp False (?d\<lparr>di_iter := i\<rparr>) = Some d' \<and> db_at cmp on s ms (pos_of (db_view s ms) (rank s ms ?n)) d'"
      by (intro FindNextUserEntry_from) (use bi True in \<open>auto simp: ClearSavedValue_def\<close>)
    then show ?thesis using step True r by simp
  next
    case False
    then have "?n = length ms" using split(1) by simp
    then have "db_at cmp on s ms (pos_of (db_view s ms) (rank s ms ?n)) (?d\<lparr>di_iter := i, di_valid := False\<rparr>)"
      using bi by (auto simp: db_at_def rank_all)
    then show ?thesis using step False r by simp
  qed
qed

subsection \<open>Backward\<close>

lemma FindPrevUserEntry_at:
  assumes "base_at cmp on s ms (pos_before n) d" "di_direction d = kReverse" "n \<le> length ms"
  shows "\<exists>d'. FindPrevUserEntry ops cmp d = Some d' \<and> db_at cmp on s ms (pos_before (rank s ms n)) d'"
proof -
  obtain d' where d': "FindPrevUserEntry ops cmp d = Some d'"
      "(\<exists>m < n. reverse_at cmp on s ms m d' \<and> (\<forall>x. m < x \<longrightarrow> x < n \<longrightarrow> \<not> shown s ms x) \<and> di_valid d' \<and> di_direction d' = kReverse) \<or>
       (\<forall>x < n. \<not> shown s ms x) \<and> \<not> di_valid d' \<and> base_at cmp on s ms None d'"
    using FindPrevUserEntry_ok [OF assms] by blast
  show ?thesis using d'(2)
  proof
    assume "\<exists>m < n. reverse_at cmp on s ms m d' \<and> (\<forall>x. m < x \<longrightarrow> x < n \<longrightarrow> \<not> shown s ms x) \<and> di_valid d' \<and> di_direction d' = kReverse"
    then obtain m where m: "m < n" "reverse_at cmp on s ms m d'" "\<forall>x. m < x \<longrightarrow> x < n \<longrightarrow> \<not> shown s ms x" "di_valid d'" "di_direction d' = kReverse" by blast
    then have sh: "shown s ms m" "m < length ms" by (simp_all add: reverse_at_def)
    have "rank s ms n = rank s ms (Suc m)" using m(1,3) by (intro rank_skip) auto
    then have "rank s ms n = Suc (rank s ms m)" using sh(1) by (simp add: rank_Suc)
    then show ?thesis using d'(1) m sh by (auto simp: db_at_def)
  next
    assume e: "(\<forall>x < n. \<not> shown s ms x) \<and> \<not> di_valid d' \<and> base_at cmp on s ms None d'"
    then have "rank s ms n = rank s ms 0" by (intro rank_skip) auto
    then show ?thesis using d'(1) e by (auto simp: db_at_def)
  qed
qed

lemma DI_SeekToLast_on:
  assumes "db_at cmp on s ms p d"
  shows "\<exists>d'. DI_SeekToLast ops cmp d = Some d' \<and> db_at cmp on s ms (pos_before (length (db_view s ms))) d'"
proof -
  let ?d = "ClearSavedValue (d\<lparr>di_direction := kReverse\<rparr>)"
  obtain ip where "base_at cmp on s ms ip d" using db_at_base [OF assms] by blast
  then have "base_at cmp on s ms ip ?d" by (simp add: ClearSavedValue_def)
  from base_moves(2) [OF this] obtain i where i: "io_SeekToLast ops (di_iter ?d) = Some i" "base_at cmp on s ms (pos_before (length ms)) (?d\<lparr>di_iter := i\<rparr>)" by blast
  then show ?thesis using FindPrevUserEntry_at [OF i(2)] by (simp add: DI_SeekToLast_def rank_all ClearSavedValue_def Let_def)
qed

lemma DI_Prev_on:
  assumes "db_at cmp on s ms (Some q) d"
  shows "\<exists>d'. DI_Prev ops cmp d = Some d' \<and> db_at cmp on s ms (pos_before q) d'"
proof -
  obtain m where m: "m < length ms" "shown s ms m" "q = rank s ms m"
      "if di_direction d = kForward then base_at cmp on s ms (Some m) d else reverse_at cmp on s ms m d"
    using assms by (auto simp: db_at_def)
  show ?thesis
  proof (cases "di_direction d")
    case kReverse
    then obtain ip where r: "base_at cmp on s ms ip d" "after_pos ip \<le> m" "\<forall>x. after_pos ip \<le> x \<longrightarrow> x < m \<longrightarrow> \<not> visible_at s ms x"
      using m(4) by (auto simp: reverse_at_def)
    then have "rank s ms m = rank s ms (after_pos ip)" by (intro rank_skip) (auto simp: shown_iff)
    moreover have "pos_before (after_pos ip) = ip" by (cases ip) (simp_all add: after_pos_def)
    ultimately show ?thesis using FindPrevUserEntry_at [of s ms "after_pos ip" d] r(1,2) m(1,3) kReverse by (simp add: DI_Prev_def)
  next
    case kForward
    then have b: "base_at cmp on s ms (Some m) d" using m(4) by simp
    then have on: "on (di_iter d) (internal_list ms) (Some m)" by (simp add: base_at_def)
    have k: "io_key ops (di_iter d) = Some (ikey (ms ! m))" using base.on_entry [OF on] m(1) by simp
    let ?d = "d\<lparr>di_saved_key := ukey ms m\<rparr>"
    obtain n d' where l: "prev_key_loop ops cmp ?d = Some (n \<noteq> 0, d')" "n \<le> m" "base_at cmp on s ms (pos_before n) d'" "n = 0 \<longrightarrow> \<not> di_valid d'"
        "\<forall>x. n \<le> x \<longrightarrow> x \<le> m \<longrightarrow> ukey ms x = ukey ms m"
    proof -
      have "base_at cmp on s ms (Some m) ?d" "di_saved_key ?d = ukey ms m" using b by simp_all
      moreover have "\<forall>x. m \<le> x \<longrightarrow> x \<le> m \<longrightarrow> ukey ms x = ukey ms m" by (metis le_antisym)
      ultimately show thesis using prev_key_loop_ok [of s ms m ?d m] m(1) that by (metis order_refl)
    qed
    have "\<not> shown s ms x" if "n \<le> x" "x < m" for x using l(5) that m(2) unfolding shown_iff by (metis less_imp_le)
    then have r: "rank s ms m = rank s ms n" using l(2) by (intro rank_skip) auto
    have step: "DI_Prev ops cmp d = (if n \<noteq> 0 then FindPrevUserEntry ops cmp (d'\<lparr>di_direction := kReverse\<rparr>) else Some d')"
      using kForward k l(1) by (simp add: DI_Prev_def AppendInternalKey_parts ukey_def)
    show ?thesis
    proof (cases "n = 0")
      case True
      then show ?thesis using step l(3,4) r m(3) by (auto simp: db_at_def)
    next
      case False
      then show ?thesis using step FindPrevUserEntry_at [of s ms n "d'\<lparr>di_direction := kReverse\<rparr>"] l(2,3) r m(1,3) by simp
    qed
  qed
qed

subsection \<open>The interface\<close>

lemma DI_entry_on:
  assumes "db_at cmp on s ms (Some q) d"
  shows "q < length (db_view s ms) \<and> DI_key ops d = Some (fst (db_view s ms ! q)) \<and> DI_value ops d = Some (snd (db_view s ms ! q))"
proof -
  obtain m where m: "m < length ms" "shown s ms m" "q = rank s ms m"
      "if di_direction d = kForward then base_at cmp on s ms (Some m) d else reverse_at cmp on s ms m d"
    using assms by (auto simp: db_at_def)
  note v = db_view_nth [OF m(1,2)]
  show ?thesis
  proof (cases "di_direction d")
    case kForward
    then have on: "on (di_iter d) (internal_list ms) (Some m)" using m(4) by (simp add: base_at_def)
    then show ?thesis using base.on_entry [OF on] v m(1,3) kForward by (simp add: DI_key_def DI_value_def AppendInternalKey_parts ukey_def)
  next
    case kReverse
    then show ?thesis using m(3,4) v by (simp add: DI_key_def DI_value_def reverse_at_def)
  qed
qed

lemma DI_status_on:
  assumes "db_at cmp on s ms p d"
  shows "DI_status ops d = OK"
proof -
  obtain ip where "base_at cmp on s ms ip d" using db_at_base [OF assms] by blast
  then have "di_status d = OK" and on: "on (di_iter d) (internal_list ms) ip" by (simp_all add: base_at_def)
  then show ?thesis using base.on_status [OF on] by (simp add: DI_status_def)
qed

lemma database_iterator: "iterator_over (\<lambda>_. True) cmp (DBIter_ops ops cmp) (db_on cmp on s)"
proof (intro iterator_over.intro comparator_axioms iterator_over_axioms.intro)
  fix d vs p assume "db_on cmp on s d vs p"
  then obtain ms where ms: "vs = db_view s ms" and at: "db_at cmp on s ms p d" by (auto simp: db_on_def)
  obtain ip where b: "base_at cmp on s ms ip d" using db_at_base [OF at] by blast
  show "list_all ((\<lambda>_. True) \<circ> fst) vs \<and> ascending cmp vs" using view_ascending b unfolding ms by (simp add: base_at_def list_all_iff)
  show "io_Valid (DBIter_ops ops cmp) d \<longleftrightarrow> p \<noteq> None" using at by (cases p) (auto simp: DBIter_ops_def db_at_def)
  show "io_status (DBIter_ops ops cmp) d = OK" using DI_status_on [OF at] by (simp add: DBIter_ops_def)
  show "\<exists>d'. io_SeekToFirst (DBIter_ops ops cmp) d = Some d' \<and> db_on cmp on s d' vs (pos_of vs 0)"
    using DI_SeekToFirst_on [OF at] ms by (auto simp: DBIter_ops_def db_on_def)
  show "\<exists>d'. io_SeekToLast (DBIter_ops ops cmp) d = Some d' \<and> db_on cmp on s d' vs (pos_before (length vs))"
    using DI_SeekToLast_on [OF at] ms by (auto simp: DBIter_ops_def db_on_def)
  show "\<exists>d'. io_Seek (DBIter_ops ops cmp) k d = Some d' \<and> db_on cmp on s d' vs (pos_of vs (first_ge cmp vs k))" for k
    using DI_Seek_on [OF at, of k] ms by (auto simp: DBIter_ops_def db_on_def)
next
  fix d vs q assume "db_on cmp on s d vs (Some q)"
  then obtain ms where ms: "vs = db_view s ms" and at: "db_at cmp on s ms (Some q) d" by (auto simp: db_on_def)
  show "q < length vs \<and> io_key (DBIter_ops ops cmp) d = Some (fst (vs ! q)) \<and> io_value (DBIter_ops ops cmp) d = Some (snd (vs ! q))"
    using DI_entry_on [OF at] ms by (simp add: DBIter_ops_def)
  show "\<exists>d'. io_Next (DBIter_ops ops cmp) d = Some d' \<and> db_on cmp on s d' vs (pos_of vs (Suc q))"
    using DI_Next_on [OF at] ms by (auto simp: DBIter_ops_def db_on_def)
  show "\<exists>d'. io_Prev (DBIter_ops ops cmp) d = Some d' \<and> db_on cmp on s d' vs (pos_before q)"
    using DI_Prev_on [OF at] ms by (auto simp: DBIter_ops_def db_on_def)
qed

lemma NewDBIterator_on:
  assumes "on i (internal_list ms) ip" "entries_sorted cmp ms" "s \<le> kMaxSequenceNumber"
  shows "db_on cmp on s (NewDBIterator i s seed) (db_view s ms) None"
  using assms new_Random_good [of seed] Random_Next_mod(2) [OF new_Random_good [of seed]]
  by (auto simp: db_on_def db_at_def base_at_def NewDBIterator_def period)

end

subsection \<open>On blocks\<close>

text \<open>The user keys of the view and their values are those that a lookup finds.\<close>

lemma db_view_lookup: "(u, v) \<in> set (db_view s ms) \<longleftrightarrow> (\<exists>e. find (visible u s) ms = Some e \<and> key_type (fst e) = kTypeValue \<and> snd e = v)"
proof -
  have "(u, v) \<in> set (db_view s ms) \<longleftrightarrow> (\<exists>i < length ms. shown s ms i \<and> user_key (fst (ms ! i)) = u \<and> snd (ms ! i) = v)" by (auto simp: db_view_def ukey_def)
  also have "\<dots> \<longleftrightarrow> (\<exists>i < length ms. visible u s (ms ! i) \<and> (\<forall>j < i. \<not> visible u s (ms ! j)) \<and> key_type (fst (ms ! i)) = kTypeValue \<and> snd (ms ! i) = v)"
    unfolding shown_iff visible_def visible_at_def ukey_def by blast
  finally show ?thesis unfolding find_Some_iff by blast
qed

lemma entries_ascending: "entries_sorted cmp ms \<Longrightarrow> ascending (InternalCompare cmp) (internal_list ms)"
  by (auto simp: ascending_def entries_sorted_def sorted_wrt_map elim: sorted_wrt_mono_rel [rotated])

lemma block_readers_on:
  assumes "0 < interval" "list_all (\<lambda>es. length (build_block interval es) < 2 ^ 32 \<and> list_all (ok \<circ> fst) es \<and> ascending cmp es) ess"
  shows "\<exists>children. map (block_reader interval) ess = map Some children \<and> list_all2 (\<lambda>i es. \<exists>p. block_iter_on ok cmp i es p) children ess"
  using assms(2)
proof (induction ess)
  case (Cons es ess)
  obtain i where i: "block_reader interval es = Some i" "block_iter_on ok cmp i es None" using block_reader_on [OF assms(1), of es ok cmp] Cons.prems by (auto simp: comp_def)
  obtain children where "map (block_reader interval) ess = map Some children" "list_all2 (\<lambda>i es. \<exists>p. block_iter_on ok cmp i es p) children ess" using Cons by auto
  then show ?case using i by (intro exI [of _ "i # children"]) auto
qed simp

interpretation block: iterator_over "\<lambda>k. 8 \<le> length k" "InternalCompare BytewiseCompare" "block_iterator_ops (InternalCompare BytewiseCompare)"
  "block_iter_on (\<lambda>k. 8 \<le> length k) (InternalCompare BytewiseCompare)"
  by (rule block_iterator [OF bytewise.internal.comparator_axioms])

interpretation merged: iterator_over "\<lambda>k. 8 \<le> length k" "InternalCompare BytewiseCompare"
  "MergingIterator_ops (InternalCompare BytewiseCompare) (block_iterator_ops (InternalCompare BytewiseCompare))"
  "merge_on (\<lambda>k. 8 \<le> length k) (InternalCompare BytewiseCompare) (block_iter_on (\<lambda>k. 8 \<le> length k) (InternalCompare BytewiseCompare))"
  by (rule block.merging_iterator)

interpretation database: db_iterator BytewiseCompare BytewiseFindShortestSeparator BytewiseFindShortSuccessor
  "MergingIterator_ops (InternalCompare BytewiseCompare) (block_iterator_ops (InternalCompare BytewiseCompare))"
  "merge_on (\<lambda>k. 8 \<le> length k) (InternalCompare BytewiseCompare) (block_iter_on (\<lambda>k. 8 \<le> length k) (InternalCompare BytewiseCompare))"
  by (intro db_iterator.intro bytewise.user_comparator_axioms merged.iterator_over_axioms)

interpretation view: iterator_over "\<lambda>_. True" BytewiseCompare
  "DBIter_ops (MergingIterator_ops (InternalCompare BytewiseCompare) (block_iterator_ops (InternalCompare BytewiseCompare))) BytewiseCompare"
  "db_on BytewiseCompare (merge_on (\<lambda>k. 8 \<le> length k) (InternalCompare BytewiseCompare) (block_iter_on (\<lambda>k. 8 \<le> length k) (InternalCompare BytewiseCompare))) s" for s
  by (rule database.database_iterator)

lemma merged_blocks_on:
  assumes "0 < interval" "ascending (InternalCompare BytewiseCompare) es" "mset es = mset (concat ess)"
    and "list_all (\<lambda>es. length (build_block interval es) < 2 ^ 32 \<and> list_all ((\<lambda>k. 8 \<le> length k) \<circ> fst) es \<and> ascending (InternalCompare BytewiseCompare) es) ess"
  shows "\<exists>children m. map (block_reader interval) ess = map Some children \<and>
    new_MergingIterator (block_iterator_ops (InternalCompare BytewiseCompare)) children = Some m \<and>
    merge_on (\<lambda>k. 8 \<le> length k) (InternalCompare BytewiseCompare) (block_iter_on (\<lambda>k. 8 \<le> length k) (InternalCompare BytewiseCompare)) m es None"
  using block_readers_on [OF assms(1,4)] block.new_MergingIterator_on [OF _ assms(2,3)] by blast

text \<open>
  (C10) The merging iterator: over iterators of blocks whose entries are together those of a list in the order of internal keys, every sequence of moves succeeds (\<^verbatim>\<open>Next\<close>
  and \<^verbatim>\<open>Prev\<close> only from a valid position), forward and backward mixed, and the iterator then shows the entry that the same moves reach in the list; it is not valid
  exactly when they leave the list.
\<close>

theorem merging_iterator_shows_merge:
  assumes "0 < interval" "ascending (InternalCompare BytewiseCompare) es" "mset es = mset (concat ess)"
    and "list_all (\<lambda>es. length (build_block interval es) < 2 ^ 32 \<and> list_all ((\<lambda>k. 8 \<le> length k) \<circ> fst) es \<and> ascending (InternalCompare BytewiseCompare) es) ess"
    and "list_all (move_ok (\<lambda>k. 8 \<le> length k)) moves" "move_positions (InternalCompare BytewiseCompare) es moves None = Some q"
  shows "\<exists>children m m'. map (block_reader interval) ess = map Some children \<and>
    new_MergingIterator (block_iterator_ops (InternalCompare BytewiseCompare)) children = Some m \<and>
    move_all (MergingIterator_ops (InternalCompare BytewiseCompare) (block_iterator_ops (InternalCompare BytewiseCompare))) moves m = Some m' \<and>
    shows_entry (MergingIterator_ops (InternalCompare BytewiseCompare) (block_iterator_ops (InternalCompare BytewiseCompare))) m' (map_option ((!) es) q)"
  using merged_blocks_on [OF assms(1-4)] merged.moves_show [OF _ assms(5,6)] by blast

text \<open>
  (C4) The iterator of the database on a merge of blocks: every sequence of moves succeeds, in both directions, and shows the entry that the same moves reach in the view of
  the snapshot, which has the user keys in order and for each the value that a lookup at the snapshot finds, no deleted and no overwritten one.
\<close>

theorem database_iterator_shows_view:
  assumes "0 < interval" "entries_sorted BytewiseCompare ms" "mset ms = mset (concat mss)" "s \<le> kMaxSequenceNumber"
    and "list_all (\<lambda>ms. entries_sorted BytewiseCompare ms \<and> length (build_block interval (internal_list ms)) < 2 ^ 32) mss"
    and "move_positions BytewiseCompare (db_view s ms) moves None = Some q"
  shows "(\<exists>children m d. map (\<lambda>ms. block_reader interval (internal_list ms)) mss = map Some children \<and>
    new_MergingIterator (block_iterator_ops (InternalCompare BytewiseCompare)) children = Some m \<and>
    move_all (DBIter_ops (MergingIterator_ops (InternalCompare BytewiseCompare) (block_iterator_ops (InternalCompare BytewiseCompare))) BytewiseCompare) moves
      (NewDBIterator m s seed) = Some d \<and>
    shows_entry (DBIter_ops (MergingIterator_ops (InternalCompare BytewiseCompare) (block_iterator_ops (InternalCompare BytewiseCompare))) BytewiseCompare) d
      (map_option ((!) (db_view s ms)) q)) \<and>
    ascending BytewiseCompare (db_view s ms) \<and>
    (\<forall>u v. (u, v) \<in> set (db_view s ms) \<longleftrightarrow> (\<exists>e. find (visible u s) ms = Some e \<and> key_type (fst e) = kTypeValue \<and> snd e = v))"
proof (intro conjI allI)
  have p: "mset (internal_list ms) = mset (concat (map internal_list mss))" unfolding map_concat [symmetric] mset_map assms(3) ..
  have c: "list_all (\<lambda>es. length (build_block interval es) < 2 ^ 32 \<and> list_all ((\<lambda>k. 8 \<le> length k) \<circ> fst) es \<and> ascending (InternalCompare BytewiseCompare) es)
      (map internal_list mss)" using assms(5) entries_ascending by (auto simp: list_all_iff AppendInternalKey_parts)
  obtain children m where m: "map (block_reader interval) (map internal_list mss) = map Some children"
      "new_MergingIterator (block_iterator_ops (InternalCompare BytewiseCompare)) children = Some m"
      "merge_on (\<lambda>k. 8 \<le> length k) (InternalCompare BytewiseCompare) (block_iter_on (\<lambda>k. 8 \<le> length k) (InternalCompare BytewiseCompare)) m (internal_list ms) None"
    using merged_blocks_on [OF assms(1) entries_ascending [OF assms(2)] p c] by blast
  have "move_ok (\<lambda>_. True) m" for m by (cases m) simp_all
  then have "list_all (move_ok (\<lambda>_. True)) moves" by (simp add: list_all_iff)
  from view.moves_show [OF database.NewDBIterator_on [OF m(3) assms(2,4), of seed] this assms(6)] m(1,2)
  show "\<exists>children m d. map (\<lambda>ms. block_reader interval (internal_list ms)) mss = map Some children \<and>
    new_MergingIterator (block_iterator_ops (InternalCompare BytewiseCompare)) children = Some m \<and>
    move_all (DBIter_ops (MergingIterator_ops (InternalCompare BytewiseCompare) (block_iterator_ops (InternalCompare BytewiseCompare))) BytewiseCompare) moves
      (NewDBIterator m s seed) = Some d \<and>
    shows_entry (DBIter_ops (MergingIterator_ops (InternalCompare BytewiseCompare) (block_iterator_ops (InternalCompare BytewiseCompare))) BytewiseCompare) d
      (map_option ((!) (db_view s ms)) q)" by (auto simp: comp_def)
  show "ascending BytewiseCompare (db_view s ms)" by (rule database.view_ascending [OF assms(2)])
  show "(u, v) \<in> set (db_view s ms) \<longleftrightarrow> (\<exists>e. find (visible u s) ms = Some e \<and> key_type (fst e) = kTypeValue \<and> snd e = v)" for u v by (rule db_view_lookup)
qed

definition sample_levels :: "mem_entry list list" where
  "sample_levels =
     [[(\<lparr>user_key = [1], sequence = 5, key_type = kTypeValue\<rparr>, [65]), (\<lparr>user_key = [2], sequence = 3, key_type = kTypeDeletion\<rparr>, [])],
      [(\<lparr>user_key = [1], sequence = 2, key_type = kTypeValue\<rparr>, [66]), (\<lparr>user_key = [2], sequence = 1, key_type = kTypeValue\<rparr>, [67]),
       (\<lparr>user_key = [3], sequence = 4, key_type = kTypeValue\<rparr>, [68])]]"

definition sample_merge :: "mem_entry list" where
  "sample_merge =
     [(\<lparr>user_key = [1], sequence = 5, key_type = kTypeValue\<rparr>, [65]), (\<lparr>user_key = [1], sequence = 2, key_type = kTypeValue\<rparr>, [66]),
      (\<lparr>user_key = [2], sequence = 3, key_type = kTypeDeletion\<rparr>, []), (\<lparr>user_key = [2], sequence = 1, key_type = kTypeValue\<rparr>, [67]),
      (\<lparr>user_key = [3], sequence = 4, key_type = kTypeValue\<rparr>, [68])]"

lemma sample_levels_ok:
  "entries_sorted BytewiseCompare sample_merge" "list_all (entries_sorted BytewiseCompare) sample_levels"
  "list_all (\<lambda>ms. length (build_block 2 (internal_list ms)) < 100) sample_levels"
  by code_simp+

lemma sample_levels_parts: "mset sample_merge = mset (concat sample_levels)"
  by (simp add: sample_merge_def sample_levels_def)

lemma sample_view: "db_view 6 sample_merge = [([1], [65]), ([3], [68])]"
  by code_simp

text \<open>Forward, back, and forward again: the deleted key between the two values is never shown.\<close>

theorem database_iterator_shows_view_witness:
  "\<exists>children m d. map (\<lambda>ms. block_reader 2 (internal_list ms)) sample_levels = map Some children \<and>
    new_MergingIterator (block_iterator_ops (InternalCompare BytewiseCompare)) children = Some m \<and>
    move_all (DBIter_ops (MergingIterator_ops (InternalCompare BytewiseCompare) (block_iterator_ops (InternalCompare BytewiseCompare))) BytewiseCompare)
      [To [2], Backward, Forward] (NewDBIterator m 6 301) = Some d \<and>
    shows_entry (DBIter_ops (MergingIterator_ops (InternalCompare BytewiseCompare) (block_iterator_ops (InternalCompare BytewiseCompare))) BytewiseCompare) d
      (Some ([3], [68]))"
proof -
  have "list_all (\<lambda>ms. entries_sorted BytewiseCompare ms \<and> length (build_block 2 (internal_list ms)) < 2 ^ 32) sample_levels"
    using sample_levels_ok(2,3) unfolding list_all_iff by fastforce
  moreover have "(6 :: SequenceNumber) \<le> kMaxSequenceNumber" by code_simp
  moreover have "move_positions BytewiseCompare (db_view 6 sample_merge) [To [2], Backward, Forward] None = Some (Some 1)" unfolding sample_view by code_simp
  ultimately show ?thesis
    using database_iterator_shows_view [of 2 sample_merge sample_levels 6 "[To [2], Backward, Forward]" "Some 1" 301] sample_levels_ok(1) sample_levels_parts
    by (simp add: sample_view)
qed

theorem merging_iterator_shows_merge_witness:
  "\<exists>children m m'. map (block_reader 2) (map internal_list sample_levels) = map Some children \<and>
    new_MergingIterator (block_iterator_ops (InternalCompare BytewiseCompare)) children = Some m \<and>
    move_all (MergingIterator_ops (InternalCompare BytewiseCompare) (block_iterator_ops (InternalCompare BytewiseCompare))) [ToLast, Backward, Forward, Backward] m = Some m' \<and>
    shows_entry (MergingIterator_ops (InternalCompare BytewiseCompare) (block_iterator_ops (InternalCompare BytewiseCompare))) m'
      (Some (internal_list sample_merge ! 3))"
proof -
  have "list_all (\<lambda>es. length (build_block 2 es) < 2 ^ 32 \<and> list_all ((\<lambda>k. 8 \<le> length k) \<circ> fst) es \<and> ascending (InternalCompare BytewiseCompare) es)
      (map internal_list sample_levels)"
    using sample_levels_ok(2,3) entries_ascending unfolding list_all_iff by (fastforce simp: AppendInternalKey_parts)
  moreover have "mset (internal_list sample_merge) = mset (concat (map internal_list sample_levels))"
    unfolding map_concat [symmetric] mset_map sample_levels_parts ..
  moreover have "move_positions (InternalCompare BytewiseCompare) (internal_list sample_merge) [ToLast, Backward, Forward, Backward] None = Some (Some 3)"
    by (simp add: sample_merge_def)
  ultimately show ?thesis
    using merging_iterator_shows_merge [of 2 "internal_list sample_merge" "map internal_list sample_levels" "[ToLast, Backward, Forward, Backward]" "Some 3"]
      entries_ascending [OF sample_levels_ok(1)] by simp
qed

end
