(* ===== verification/Ldb_Table_Spec.thy ===== *)
theory Ldb_Table_Spec
  imports Ldb_Table_Layout Ldb_Table
begin

text \<open>
  Tables read back: a file that the table builder wrote opens, and a lookup in it finds the first entry at or after the key.
\<close>

subsection \<open>Seeking in a built block\<close>

lemma find_map: "find P (map f xs) = map_option f (find (P \<circ> f) xs)"
  by (induction xs) auto

lemma new_Block_built:
  assumes "0 < interval" "length (build_block interval es) < 2 ^ 32"
  obtains b where "new_Block (build_block interval es) = Some b"
proof -
  obtain ss R where "block_ok ss R" "build_block interval es = block_data ss R" by (rule build_block_ok [OF assms])
  then show thesis using open_block_ok [of ss R] that by (auto simp: open_block_def)
qed

definition seek_found :: "block_iterator \<Rightarrow> entry option \<Rightarrow> bool" where
  "seek_found i r \<longleftrightarrow>
     Iter_status i = OK \<and>
     (case r of None \<Rightarrow> \<not> Iter_Valid i | Some (k, v) \<Rightarrow> Iter_Valid i \<and> Iter_key i = Some k \<and> Iter_value i = Some v)"

lemma seek_built:
  assumes "comparator ok cmp" "0 < interval" "length (build_block interval es) < 2 ^ 32"
    and "list_all (ok \<circ> fst) es" "ok target" "sorted_wrt (\<lambda>a b. cmp (fst a) (fst b) < 0) es" "new_Block (build_block interval es) = Some b"
  obtains i i' where "NewBlockIterator b = Some i" "Iter_Seek cmp target i = Some i'" "seek_found i' (find (\<lambda>e. cmp (fst e) target \<ge> 0) es)"
proof -
  obtain it it' where it: "open_block (build_block interval es) = Some it" "BI_Seek cmp target it = Some it'" "bi_status it' = OK"
    "case find (\<lambda>e. cmp (fst e) target \<ge> 0) es of None \<Rightarrow> \<not> BI_Valid it' | Some (k, v) \<Rightarrow> BI_Valid it' \<and> bi_key it' = k \<and> BI_value it' = Some v"
    using BI_Seek_first [OF assms(1-6)] by blast
  have "NewBlockIterator b = Some (Iter it)" using it(1) assms(7) by (cases "NewBlockIterator b") (auto simp: open_block_def split: block_iterator.split_asm)
  then show thesis using that [of "Iter it" "Iter it'"] it(2-4)
    by (auto simp: seek_found_def Iter_Seek_def Iter_status_def Iter_Valid_def Iter_key_def Iter_value_def split: option.splits)
qed

subsection \<open>The filter\<close>

lemma new_FilterBlockReader_total: "\<exists>r. new_FilterBlockReader str = Some r"
  by (auto simp: new_FilterBlockReader_def Let_def DecodeFixed32_def decode_fixed32_any)

text \<open>The reader of a filter block never reads outside of it, whatever its bytes are.\<close>

lemma Reader_KeyMayMatch_total:
  assumes "new_FilterBlockReader str = Some r"
  shows "\<exists>m. Reader_KeyMayMatch may_match r pos key = Some m"
proof (cases "pos div 2 ^ fr_base_lg r < fr_num r")
  case True
  let ?i = "pos div 2 ^ fr_base_lg r" and ?n = "length str"
  obtain lw where lw: "DecodeFixed32 (drop (?n - 5) str) = Some lw" "unat lw \<le> ?n - 5" "fr_data r = str" "fr_offset r = unat lw"
    "fr_num r = (?n - 5 - unat lw) div 4" "5 \<le> ?n"
    using assms True by (auto simp: new_FilterBlockReader_def Let_def bind_eq_Some_conv split: if_splits)
  have "Suc ?i * 4 \<le> ?n - 5 - unat lw" using True lw(5) by (simp add: less_eq_div_iff_mult_less_eq Suc_le_eq)
  then have "unat lw + ?i * 4 + 8 \<le> ?n" using lw(2,6) by simp
  then have "4 \<le> length (drop (fr_offset r + ?i * 4) (fr_data r))" "4 \<le> length (drop (fr_offset r + ?i * 4 + 4) (fr_data r))"
    using lw(3,4) by simp_all
  then show ?thesis using True by (simp add: Reader_KeyMayMatch_def Let_def DecodeFixed32_def decode_fixed32_any)
qed (simp add: Reader_KeyMayMatch_def Let_def, blast)

lemma Reader_KeyMayMatch_cong: "may_match k = may_match k' \<Longrightarrow> Reader_KeyMayMatch may_match r pos k = Reader_KeyMayMatch may_match r pos k'"
  by (simp only: Reader_KeyMayMatch_def)

lemma block_pos_mono: "i \<le> j \<Longrightarrow> block_pos ri bs i \<le> block_pos ri bs j"
  by (auto simp: block_pos_def data_area_def take_add dest!: le_Suc_ex)

lemma block_pos_less:
  assumes "i < j" "j \<le> length bs"
  shows "block_pos ri bs i < block_pos ri bs j"
proof -
  have "block_pos ri bs (Suc i) = block_pos ri bs i + length (stored (build_block ri (bs ! i)))"
    using assms by (simp add: block_pos_def data_area_def take_Suc_conv_app_nth)
  moreover have "block_pos ri bs (Suc i) \<le> block_pos ri bs j" using assms(1) by (intro block_pos_mono) simp
  ultimately show ?thesis by (simp add: length_stored kBlockTrailerSize_def)
qed

lemma filter_answer:
  assumes "filter_policy (fp_CreateFilter p) (fp_KeyMayMatch p)" "length (data_area ri bs) < 2 ^ 64" "length (filter_bytes ri p bs) < 2 ^ 32"
    and "new_FilterBlockReader (filter_bytes ri p bs) = Some r" "i < length bs" "e \<in> set (bs ! i)" "fp_KeyMayMatch p k = fp_KeyMayMatch p (fst e)"
  shows "Reader_KeyMayMatch (fp_KeyMayMatch p) r (block_pos ri bs i) k = Some True"
proof -
  have w: "wrap64 (block_pos ri bs j) = block_pos ri bs j" if "j \<le> length bs" for j
    using block_pos_mono [OF that, of ri bs] assms(2) by (simp add: wrap64_def unat_of_nat_small block_pos_def)
  let ?bs = "filter_blocks ri bs @ [(wrap64 (length (data_area ri bs)), [])]"
  have "length (data_area ri bs) = block_pos ri bs (length bs)" by (simp add: block_pos_def)
  then have fst_bs: "map fst ?bs = map (block_pos ri bs) [0..<Suc (length bs)]"
    using w by (simp add: filter_blocks_def)
  have "sorted (map fst ?bs)" unfolding fst_bs by (auto simp: sorted_iff_nth_mono simp del: upt_Suc intro!: block_pos_mono)
  moreover have "(block_pos ri bs i, map fst (bs ! i)) \<in> set ?bs" using assms(5) w by (auto simp: filter_blocks_def)
  moreover have "filter_bytes ri p bs = Filter_Finish (fp_CreateFilter p) (fold (add_block (fp_CreateFilter p)) ?bs new_FilterBlockBuilder)"
    by (simp add: filter_bytes_def filter_state_def)
  ultimately have "Reader_KeyMayMatch (fp_KeyMayMatch p) r (block_pos ri bs i) (fst e) = Some True"
    using filter_policy.filter_block_matches [OF assms(1), of ?bs "block_pos ri bs i" "map fst (bs ! i)" "fst e"] assms(3,4,6) by auto
  then show ?thesis using Reader_KeyMayMatch_cong [of "fp_KeyMayMatch p" k "fst e"] assms(7) by simp
qed

subsection \<open>Opening\<close>

text \<open>A table that was opened on the file of the blocks \<open>bs\<close>.\<close>

definition opened :: "Options \<Rightarrow> entry list list \<Rightarrow> byte list list \<Rightarrow> Table \<Rightarrow> bool" where
  "opened opts bs seps t \<longleftrightarrow>
     tr_options t = opts \<and> serves (tr_file t) (table_bytes opts bs seps) \<and>
     new_Block (index_block_bytes opts bs seps) = Some (tr_index_block t) \<and>
     tr_metaindex_handle t = metaindex_handle (table_footer opts bs seps) \<and>
     (case filter_policy_opt opts of
        None \<Rightarrow> tr_filter t = None
      | Some p \<Rightarrow> \<exists>r. tr_filter t = Some (p, r) \<and> new_FilterBlockReader (filter_bytes (block_restart_interval opts) p bs) = Some r)"

lemma table_bytes_block:
  assumes "i < length bs"
  obtains post where "table_bytes opts bs seps =
     data_area (block_restart_interval opts) (take i bs) @ stored (build_block (block_restart_interval opts) (bs ! i)) @ post"
proof -
  let ?ri = "block_restart_interval opts"
  have "data_area ?ri bs = data_area ?ri (take i bs) @ stored (build_block ?ri (bs ! i)) @ data_area ?ri (drop (Suc i) bs)"
    using arg_cong [OF id_take_nth_drop [OF assms], of "data_area ?ri"] by (simp add: data_area_def)
  then show thesis using that by (simp add: table_bytes_def)
qed

lemma length_parts:
  assumes "length (table_bytes opts bs seps) < 2 ^ 32"
  shows "length (data_area (block_restart_interval opts) bs) < 2 ^ 32" "length (meta_block opts bs) < 2 ^ 32"
    "length (index_block_bytes opts bs seps) < 2 ^ 32" "filter_policy_opt opts = Some p \<Longrightarrow> length (filter_bytes (block_restart_interval opts) p bs) < 2 ^ 32"
    "i < length bs \<Longrightarrow> length (build_block (block_restart_interval opts) (bs ! i)) < 2 ^ 32"
proof -
  let ?ri = "block_restart_interval opts"
  show "length (data_area ?ri bs) < 2 ^ 32" "length (meta_block opts bs) < 2 ^ 32" "length (index_block_bytes opts bs seps) < 2 ^ 32"
    using assms by (simp_all add: table_bytes_def length_stored)
  show "length (filter_bytes ?ri p bs) < 2 ^ 32" if "filter_policy_opt opts = Some p"
    using assms that by (simp add: table_bytes_def length_stored filter_area_def)
  assume i: "i < length bs"
  obtain post where "table_bytes opts bs seps = data_area ?ri (take i bs) @ stored (build_block ?ri (bs ! i)) @ post"
    by (rule table_bytes_block [OF i])
  then show "length (build_block ?ri (bs ! i)) < 2 ^ 32" using assms by (simp add: length_stored)
qed

lemma table_bytes_meta:
  "table_bytes opts bs seps =
     (data_area (block_restart_interval opts) bs @ filter_area opts bs) @ stored (meta_block opts bs) @
     stored (index_block_bytes opts bs seps) @ Footer_EncodeTo (table_footer opts bs seps) []"
  by (simp add: table_bytes_def)

lemma table_bytes_index:
  "table_bytes opts bs seps =
     (data_area (block_restart_interval opts) bs @ filter_area opts bs @ stored (meta_block opts bs)) @
     stored (index_block_bytes opts bs seps) @ Footer_EncodeTo (table_footer opts bs seps) []"
  by (simp add: table_bytes_def)

lemma table_bytes_filter:
  "filter_policy_opt opts = Some p \<Longrightarrow> table_bytes opts bs seps =
     data_area (block_restart_interval opts) bs @ stored (filter_bytes (block_restart_interval opts) p bs) @
     (stored (meta_block opts bs) @ stored (index_block_bytes opts bs seps) @ Footer_EncodeTo (table_footer opts bs seps) [])"
  by (simp add: table_bytes_def filter_area_def)

lemma read_meta_block:
  assumes "serves f (table_bytes opts bs seps)" "length (table_bytes opts bs seps) < 2 ^ 32"
  shows "\<exists>c. ReadBlock f options (metaindex_handle (table_footer opts bs seps)) = Some (OK, c) \<and> bc_data c = meta_block opts bs"
  using ReadBlock_stored [of f _ "meta_block opts bs"] assms unfolding table_bytes_meta
  by (fastforce simp: table_footer_def meta_pos_def)

lemma read_index_block:
  assumes "serves f (table_bytes opts bs seps)" "length (table_bytes opts bs seps) < 2 ^ 32"
  shows "\<exists>c. ReadBlock f options (index_handle (table_footer opts bs seps)) = Some (OK, c) \<and> bc_data c = index_block_bytes opts bs seps"
  using ReadBlock_stored [of f _ "index_block_bytes opts bs seps"] assms unfolding table_bytes_index
  by (fastforce simp: table_footer_def meta_pos_def add.assoc)

lemma read_filter_block:
  assumes "serves f (table_bytes opts bs seps)" "length (table_bytes opts bs seps) < 2 ^ 32" "filter_policy_opt opts = Some p"
  shows "\<exists>c. ReadBlock f options (filter_handle opts p bs) = Some (OK, c) \<and> bc_data c = filter_bytes (block_restart_interval opts) p bs"
  using ReadBlock_stored [of f _ "filter_bytes (block_restart_interval opts) p bs"] assms(1,2) unfolding table_bytes_filter [OF assms(3)]
  by (fastforce simp: filter_handle_def)

lemma read_data_block:
  assumes "serves f (table_bytes opts bs seps)" "length (table_bytes opts bs seps) < 2 ^ 32" "i < length bs"
  shows "\<exists>c. ReadBlock f options (block_handle (block_restart_interval opts) bs i) = Some (OK, c) \<and>
    bc_data c = build_block (block_restart_interval opts) (bs ! i)"
proof -
  obtain post where p: "table_bytes opts bs seps =
     data_area (block_restart_interval opts) (take i bs) @ stored (build_block (block_restart_interval opts) (bs ! i)) @ post"
    by (rule table_bytes_block [OF assms(3)])
  show ?thesis
    using ReadBlock_stored [of f "data_area (block_restart_interval opts) (take i bs)" _ post] assms(1,2) unfolding p
    by (fastforce simp: block_handle_def block_pos_def)
qed

lemma ReadMeta_ok:
  assumes "serves (tr_file t) (table_bytes opts bs seps)" "length (table_bytes opts bs seps) < 2 ^ 32" "0 < block_restart_interval opts"
    and "tr_options t = opts" "tr_filter t = None" "new_Block (index_block_bytes opts bs seps) = Some (tr_index_block t)"
    and "tr_metaindex_handle t = metaindex_handle (table_footer opts bs seps)"
  shows "\<exists>t'. ReadMeta t (table_footer opts bs seps) = Some t' \<and> opened opts bs seps t' \<and> tr_cache_id t' = tr_cache_id t"
proof (cases "filter_policy_opt opts")
  case None
  then show ?thesis using assms by (simp add: ReadMeta_def opened_def)
next
  case (Some p)
  let ?ri = "block_restart_interval opts" and ?o = "paranoid_options opts"
  let ?es = "[(filter_key p, Handle_EncodeTo (filter_handle opts p bs) [])]"
  have m: "meta_block opts bs = build_block ?ri ?es" using Some by (simp add: meta_block_def)
  obtain c where c: "ReadBlock (tr_file t) ?o (metaindex_handle (table_footer opts bs seps)) = Some (OK, c)" "bc_data c = meta_block opts bs"
    using read_meta_block [OF assms(1,2)] by blast
  obtain fc where fc: "ReadBlock (tr_file t) ?o (filter_handle opts p bs) = Some (OK, fc)" "bc_data fc = filter_bytes ?ri p bs"
    using read_filter_block [OF assms(1,2) Some] by blast
  have l: "length (build_block ?ri ?es) < 2 ^ 32" using length_parts(2) [OF assms(2)] m by simp
  obtain b where b: "new_Block (build_block ?ri ?es) = Some b" by (rule new_Block_built [OF assms(3) l])
  have "find (\<lambda>e. BytewiseCompare (fst e) (filter_key p) \<ge> 0) ?es = Some (hd ?es)" using bytewise.cmp_refl by simp
  moreover obtain i i' where i: "NewBlockIterator b = Some i" "Iter_Seek BytewiseCompare (filter_key p) i = Some i'"
      "seek_found i' (find (\<lambda>e. BytewiseCompare (fst e) (filter_key p) \<ge> 0) ?es)"
    by (rule seek_built [OF bytewise.comparator_axioms assms(3) l _ _ _ b, of "filter_key p"]) simp_all
  ultimately have v: "Iter_Valid i'" "Iter_key i' = Some (filter_key p)" "Iter_value i' = Some (Handle_EncodeTo (filter_handle opts p bs) [])"
    by (simp_all add: seek_found_def del: find.simps)
  obtain r where r: "new_FilterBlockReader (filter_bytes ?ri p bs) = Some r" using new_FilterBlockReader_total by blast
  have "ReadMeta t (table_footer opts bs seps) = ReadFilter t p (Handle_EncodeTo (filter_handle opts p bs) [])"
    using Some assms(4) c m b i(1,2) v by (simp add: ReadMeta_def filter_key_def [symmetric])
  also have "\<dots> = Some ((if heap_allocated fc then t\<lparr>tr_filter_data := Some (bc_data fc)\<rparr> else t)\<lparr>tr_filter := Some (p, r)\<rparr>)"
    using Handle_roundtrip [of new_BlockHandle "filter_handle opts p bs" "[]"] fc r assms(4) by (simp add: ReadFilter_def)
  finally show ?thesis using assms(1,4,6,7) Some r by (auto simp: opened_def)
qed

lemma Table_Open_ok:
  assumes "serves f (table_bytes opts bs seps)" "length (table_bytes opts bs seps) < 2 ^ 32" "0 < block_restart_interval opts"
  shows "\<exists>t cache'. Table_Open ops opts f (of_nat (length (table_bytes opts bs seps))) cache = Some (OK, Some t, cache') \<and> opened opts bs seps t \<and>
    (tr_cache_id t, cache') = (case cache of None \<Rightarrow> (0, None) | Some c \<Rightarrow> map_prod id Some (cache_NewId ops c))"
proof -
  let ?n = "length (table_bytes opts bs seps)" and ?ft = "Footer_EncodeTo (table_footer opts bs seps) []"
  obtain pre where pre: "table_bytes opts bs seps = pre @ ?ft" by (auto simp: table_bytes_def)
  then have n: "?n = length pre + 48" using length_Footer [of "table_footer opts bs seps"] by (simp add: kEncodedLength_def kMaxEncodedLength_def)
  have k: "kEncodedLength = 48" by (simp add: kEncodedLength_def kMaxEncodedLength_def)
  have pos: "of_nat ?n - of_nat 48 = (of_nat (length pre) :: uint64)" using n by simp
  have u: "unat (of_nat (length pre) :: uint64) = length pre" using n assms(2) by (simp add: unat_of_nat_small)
  have un: "unat (of_nat ?n :: uint64) = ?n" using assms(2) by (simp add: unat_of_nat_small)
  have "\<not> (of_nat ?n :: uint64) < of_nat 48" unfolding word_less_nat_alt un using n by simp
  moreover obtain in_buf where "f (of_nat (length pre)) 48 = (OK, ?ft, in_buf)"
    using assms(1) u n pre unfolding serves_def
    by (metis append_eq_conv_conj k le_refl length_Footer take_all)
  moreover have "Footer_DecodeFrom new_Footer ?ft = Some (OK, table_footer opts bs seps, [])" using Footer_roundtrip [of new_Footer _ "[]"] by simp
  moreover obtain c where "ReadBlock f (paranoid_options opts) (index_handle (table_footer opts bs seps)) = Some (OK, c)" "bc_data c = index_block_bytes opts bs seps"
    using read_index_block [OF assms(1,2)] by blast
  moreover obtain b where b: "new_Block (index_block_bytes opts bs seps) = Some b"
    using new_Block_built [of 1] length_parts(3) [OF assms(2)] unfolding index_block_bytes_def by auto
  moreover obtain cid cache' where ic: "(case cache of None \<Rightarrow> (0, None) | Some c \<Rightarrow> map_prod id Some (cache_NewId ops c)) = (cid, cache')" by fastforce
  moreover obtain t where "ReadMeta \<lparr>tr_options = opts, tr_file = f, tr_cache_id = cid, tr_filter = None, tr_filter_data = None,
       tr_metaindex_handle = metaindex_handle (table_footer opts bs seps), tr_index_block = b\<rparr> (table_footer opts bs seps) = Some t" "opened opts bs seps t"
    "tr_cache_id t = cid"
    using ReadMeta_ok [of "\<lparr>tr_options = opts, tr_file = f, tr_cache_id = cid, tr_filter = None, tr_filter_data = None,
       tr_metaindex_handle = metaindex_handle (table_footer opts bs seps), tr_index_block = b\<rparr>" opts bs seps] assms b by auto
  ultimately show ?thesis unfolding Table_Open_def k pos by simp
qed

subsection \<open>Looking up\<close>

text \<open>The block cache has only blocks of the table under the keys of the table.\<close>

definition block_at :: "nat \<Rightarrow> entry list list \<Rightarrow> uint64 \<Rightarrow> byte list \<Rightarrow> Block \<Rightarrow> bool" where
  "block_at ri bs cid key b \<longleftrightarrow> (\<forall>i < length bs. key = cache_key cid (of_nat (block_pos ri bs i)) \<longrightarrow> new_Block (build_block ri (bs ! i)) = Some b)"

definition blocks_cached :: "'c cache_ops \<Rightarrow> nat \<Rightarrow> entry list list \<Rightarrow> uint64 \<Rightarrow> 'c option \<Rightarrow> bool" where
  "blocks_cached ops ri bs cid cache \<longleftrightarrow>
     (case cache of
        None \<Rightarrow> True
      | Some c \<Rightarrow> \<exists>inv. block_cache inv (cache_Lookup ops) (cache_Insert ops) \<and> inv c \<and> all_cached (cache_Lookup ops) (block_at ri bs cid) c)"

lemma cache_key_eq: "cache_key a x = cache_key a y \<longleftrightarrow> x = y"
  unfolding cache_key_def by (metis DecodeFixed64_Encode append_Nil2 append_same_eq option.inject same_append_eq)

lemma block_at_own:
  assumes "length (data_area ri bs) < 2 ^ 32" "i < length bs" "new_Block (build_block ri (bs ! i)) = Some b"
  shows "block_at ri bs cid (cache_key cid (of_nat (block_pos ri bs i))) b"
proof -
  have "j = i" if "j < length bs" "(of_nat (block_pos ri bs j) :: uint64) = of_nat (block_pos ri bs i)" for j
  proof -
    have "block_pos ri bs k \<le> length (data_area ri bs)" if "k < length bs" for k
      using block_pos_mono [of k "length bs" ri bs] that by (simp add: block_pos_def)
    from this [of i] this [of j] have "unat (of_nat (block_pos ri bs i) :: uint64) = block_pos ri bs i" "unat (of_nat (block_pos ri bs j) :: uint64) = block_pos ri bs j"
      using assms(1,2) that(1) by (simp_all add: unat_of_nat_small)
    then have "block_pos ri bs j = block_pos ri bs i" using that(2) by metis
    then show ?thesis using block_pos_less [of i j bs ri] block_pos_less [of j i bs ri] that(1) assms(2) by (metis less_imp_le less_irrefl linorder_neqE_nat)
  qed
  then show ?thesis using assms(3) by (auto simp: block_at_def cache_key_eq)
qed

lemma find_block_ok:
  assumes "opened opts bs seps t" "length (table_bytes opts bs seps) < 2 ^ 32" "0 < block_restart_interval opts" "i < length bs"
    and "blocks_cached ops (block_restart_interval opts) bs (tr_cache_id t) cache"
  shows "\<exists>b cache'. find_block ops t options (block_handle (block_restart_interval opts) bs i) cache = Some (OK, Some b, cache') \<and>
    new_Block (build_block (block_restart_interval opts) (bs ! i)) = Some b \<and> blocks_cached ops (block_restart_interval opts) bs (tr_cache_id t) cache'"
proof -
  let ?ri = "block_restart_interval opts"
  let ?h = "block_handle ?ri bs i" and ?P = "block_at ?ri bs (tr_cache_id t)"
  have off: "bh_offset ?h = of_nat (block_pos ?ri bs i)" by (simp add: block_handle_def handle_at_def)
  let ?key = "cache_key (tr_cache_id t) (of_nat (block_pos ?ri bs i))"
  obtain b where b: "new_Block (build_block ?ri (bs ! i)) = Some b"
    by (rule new_Block_built [OF assms(3) length_parts(5) [OF assms(2,4)]])
  obtain c where c: "read_new_block t options ?h = Some (OK, Some (b, c))"
    using read_data_block [OF _ assms(2,4), of "tr_file t" options] assms(1) b by (auto simp: opened_def read_new_block_def)
  have own: "?P ?key b" by (rule block_at_own [OF length_parts(1) [OF assms(2)] assms(4) b])
  show ?thesis
  proof (cases cache)
    case None
    then show ?thesis using b c by (simp add: find_block_def blocks_cached_def)
  next
    case (Some s)
    obtain inv where bc: "block_cache inv (cache_Lookup ops) (cache_Insert ops)" "inv s" "all_cached (cache_Lookup ops) ?P s"
      using assms(5) Some by (auto simp: blocks_cached_def)
    obtain r s' where l: "cache_Lookup ops s ?key = (r, s')" by fastforce
    have s': "inv s'" "all_cached (cache_Lookup ops) ?P s'"
      using block_cache.lookup_inv [OF bc(1,2), of ?key] block_cache.all_cached_lookup [OF bc, of ?key] l by simp_all
    have kept: "blocks_cached ops ?ri bs (tr_cache_id t) (Some s')" "blocks_cached ops ?ri bs (tr_cache_id t) (Some (cache_Insert ops s' ?key b n))" for n
      using bc(1) s' block_cache.insert_inv [OF bc(1) s'(1)] block_cache.all_cached_insert [OF bc(1) s' own] by (auto simp: blocks_cached_def)
    show ?thesis
    proof (cases r)
      case None
      then show ?thesis using Some l b c kept off by (simp add: find_block_def)
    next
      case hit: (Some b')
      then have "?P ?key b'" using bc(3) l by (auto simp: all_cached_def)
      then show ?thesis using hit Some l kept(1) off assms(4) by (simp add: find_block_def block_at_def)
    qed
  qed
qed

lemma BlockReader_ok:
  assumes "opened opts bs seps t" "length (table_bytes opts bs seps) < 2 ^ 32" "0 < block_restart_interval opts" "i < length bs"
    and "blocks_cached ops (block_restart_interval opts) bs (tr_cache_id t) cache"
    and "comparator ok cmp" "list_all (ok \<circ> fst) (bs ! i)" "ok k" "sorted_wrt (\<lambda>a b. cmp (fst a) (fst b) < 0) (bs ! i)"
  shows "\<exists>it cache' it'. BlockReader ops t options (Handle_EncodeTo (block_handle (block_restart_interval opts) bs i) []) cache = Some (it, cache') \<and>
    Iter_Seek cmp k it = Some it' \<and> seek_found it' (find (\<lambda>e. cmp (fst e) k \<ge> 0) (bs ! i)) \<and>
    blocks_cached ops (block_restart_interval opts) bs (tr_cache_id t) cache'"
proof -
  let ?ri = "block_restart_interval opts"
  obtain b cache' where b: "find_block ops t options (block_handle ?ri bs i) cache = Some (OK, Some b, cache')"
      "new_Block (build_block ?ri (bs ! i)) = Some b" "blocks_cached ops ?ri bs (tr_cache_id t) cache'"
    using find_block_ok [OF assms(1-5)] by blast
  obtain it it' where "NewBlockIterator b = Some it" "Iter_Seek cmp k it = Some it'" "seek_found it' (find (\<lambda>e. cmp (fst e) k \<ge> 0) (bs ! i))"
    by (rule seek_built [OF assms(6,3) length_parts(5) [OF assms(2,4)] assms(7-9) b(2)])
  then show ?thesis using b(1,3) Handle_roundtrip [of new_BlockHandle "block_handle ?ri bs i" "[]"] by (simp add: BlockReader_def)
qed

text \<open>Sorted entries, with keys of the index between the blocks.\<close>

definition table_sorted :: "('k \<Rightarrow> bool) \<Rightarrow> ('k \<Rightarrow> 'k \<Rightarrow> int) \<Rightarrow> ('k \<times> 'v) list list \<Rightarrow> 'k list \<Rightarrow> bool" where
  "table_sorted ok cmp bs seps \<longleftrightarrow>
     sorted_wrt (\<lambda>a b. cmp (fst a) (fst b) < 0) (concat bs) \<and> list_all (ok \<circ> fst) (concat bs) \<and> list_all ok seps \<and> [] \<notin> set bs \<and>
     length seps = length bs \<and>
     (\<forall>i < length bs. cmp (last_key (bs ! i)) (seps ! i) \<le> 0 \<and> (Suc i < length bs \<longrightarrow> cmp (seps ! i) (first_key (bs ! Suc i)) < 0))"

lemma block_nonempty: "table_sorted ok cmp bs seps \<Longrightarrow> i < length bs \<Longrightarrow> bs ! i \<noteq> []"
  unfolding table_sorted_def by (metis nth_mem)

lemma sorted_concat_blocks:
  assumes "sorted_wrt P (concat bs)" "i < j" "j < length bs" "e \<in> set (bs ! i)" "e' \<in> set (bs ! j)"
  shows "P e e'"
proof -
  have "concat bs = concat (take j bs) @ bs ! j @ concat (drop (Suc j) bs)"
    using arg_cong [OF id_take_nth_drop [OF assms(3)], of concat] by simp
  moreover have "bs ! i \<in> set (take j bs)" using assms(2,3) by (auto simp: in_set_conv_nth)
  ultimately show ?thesis using assms(1,4,5) by (auto simp: sorted_wrt_append)
qed

lemma sorted_concat_block: "sorted_wrt P (concat bs) \<Longrightarrow> b \<in> set bs \<Longrightarrow> sorted_wrt P b"
  by (induction bs) (auto simp: sorted_wrt_append)

context comparator
begin

lemma block_keys:
  assumes "table_sorted valid cmp bs seps" "i < length bs" "e \<in> set (bs ! i)"
  shows "valid (fst e)" "valid (seps ! i)" "cmp (fst e) (seps ! i) \<le> 0"
proof -
  have ne: "bs ! i \<noteq> []" using block_nonempty [OF assms(1,2)] .
  have v: "valid (fst x)" if "x \<in> set (bs ! i)" for x
    using assms(1,2) that nth_mem [OF assms(2)] by (auto simp: table_sorted_def list_all_iff)
  then show "valid (fst e)" "valid (seps ! i)" using assms by (auto simp: table_sorted_def list_all_length)
  have s: "sorted_wrt (\<lambda>a b. cmp (fst a) (fst b) < 0) (bs ! i)" using sorted_concat_block [OF _ nth_mem [OF assms(2)]] assms(1) by (simp add: table_sorted_def)
  obtain as where as: "bs ! i = as @ [last (bs ! i)]" using ne by (metis append_butlast_last_id)
  have "cmp (fst e) (last_key (bs ! i)) \<le> 0"
  proof (cases "e = last (bs ! i)")
    case True
    then show ?thesis using cmp_refl v assms(3) by simp
  next
    case False
    then have "e \<in> set as" using as assms(3) by (metis Un_iff empty_iff empty_set insert_iff list.simps(15) set_append)
    then show ?thesis using s as by (metis less_imp_le list.set_intros(1) sorted_wrt_append)
  qed
  moreover have "cmp (last_key (bs ! i)) (seps ! i) \<le> 0" using assms(1,2) by (simp add: table_sorted_def)
  ultimately show "cmp (fst e) (seps ! i) \<le> 0"
    using cmp_trans v assms(3) last_in_set [OF ne] \<open>valid (seps ! i)\<close> by blast
qed

lemma sep_before_block:
  assumes "table_sorted valid cmp bs seps" "i < j" "j < length bs" "e \<in> set (bs ! j)"
  shows "cmp (seps ! i) (fst e) < 0"
proof -
  have i: "Suc i < length bs" "i < length bs" using assms(2,3) by simp_all
  have ne: "bs ! Suc i \<noteq> []" "bs ! j \<noteq> []" using block_nonempty [OF assms(1)] assms(3) i by blast+
  let ?f = "hd (bs ! Suc i)"
  have f: "?f \<in> set (bs ! Suc i)" using ne by simp
  have v: "valid (seps ! i)" "valid (fst ?f)" "valid (fst e)"
    using block_keys(1) [OF assms(1) i(1) f] block_keys(1) [OF assms(1,3,4)] assms(1) i by (auto simp: table_sorted_def list_all_length)
  have s: "sorted_wrt (\<lambda>a b. cmp (fst a) (fst b) < 0) (concat bs)" using assms(1) by (simp add: table_sorted_def)
  have "cmp (fst ?f) (fst e) \<le> 0"
  proof (cases "Suc i = j")
    case True
    then have "sorted_wrt (\<lambda>a b. cmp (fst a) (fst b) < 0) (?f # tl (bs ! j))" using sorted_concat_block [OF s nth_mem [OF assms(3)]] ne by simp
    moreover have "e = ?f \<or> e \<in> set (tl (bs ! j))" using assms(4) ne(2) True by (metis list.collapse set_ConsD)
    ultimately show ?thesis using cmp_refl v(2) by (auto simp: less_imp_le)
  next
    case False
    then show ?thesis using sorted_concat_blocks [OF s, of "Suc i" j ?f e] assms(2-4) f by simp
  qed
  moreover have "cmp (seps ! i) (fst ?f) < 0" using assms(1) i by (simp add: table_sorted_def)
  ultimately show ?thesis using less_le_trans v by blast
qed

lemma seps_sorted:
  assumes "table_sorted valid cmp bs seps"
  shows "sorted_wrt (\<lambda>a b. cmp a b < 0) seps"
proof -
  have "cmp (seps ! i) (seps ! j) < 0" if "i < j" "j < length seps" for i j
  proof -
    have j: "j < length bs" using assms that by (simp add: table_sorted_def)
    then have e: "hd (bs ! j) \<in> set (bs ! j)" using block_nonempty [OF assms] by simp
    have "valid (seps ! i)" using assms that by (auto simp: table_sorted_def list_all_length)
    then show ?thesis using sep_before_block [OF assms that(1) j e] block_keys [OF assms j e] less_le_trans by blast
  qed
  then show ?thesis by (simp add: sorted_wrt_iff_nth_less)
qed

end

text \<open>
  The lookup in a table: the index leads to the first block whose key in the index is not before \<open>k\<close>; the answer is the first entry at or after \<open>k\<close> in this block,
  or none when the filter rules out the key.
\<close>

definition block_for :: "('k \<Rightarrow> 'k \<Rightarrow> int) \<Rightarrow> 'k list \<Rightarrow> 'k \<Rightarrow> nat option" where
  "block_for cmp seps k = find (\<lambda>i. cmp (seps ! i) k \<ge> 0) [0..<length seps]"

definition rules_out :: "FilterPolicy option \<Rightarrow> byte list \<Rightarrow> entry list \<Rightarrow> bool" where
  "rules_out policy k es \<longleftrightarrow> (\<exists>p. policy = Some p \<and> (\<forall>e \<in> set es. fp_KeyMayMatch p k \<noteq> fp_KeyMayMatch p (fst e)))"

definition good_policy :: "FilterPolicy option \<Rightarrow> bool" where
  "good_policy policy \<longleftrightarrow> (case policy of None \<Rightarrow> True | Some p \<Rightarrow> filter_policy (fp_CreateFilter p) (fp_KeyMayMatch p))"

lemma filtered_out_ok:
  assumes "opened opts bs seps t" "length (table_bytes opts bs seps) < 2 ^ 32" "good_policy (filter_policy_opt opts)" "i < length bs"
  shows "\<exists>out. filtered_out t (Handle_EncodeTo (block_handle (block_restart_interval opts) bs i) []) k = Some out \<and>
    (out \<longrightarrow> rules_out (filter_policy_opt opts) k (bs ! i))"
proof (cases "filter_policy_opt opts")
  case None
  then show ?thesis using assms(1) by (auto simp: opened_def filtered_out_def)
next
  case (Some p)
  let ?ri = "block_restart_interval opts"
  obtain r where r: "tr_filter t = Some (p, r)" "new_FilterBlockReader (filter_bytes ?ri p bs) = Some r"
    using assms(1) Some by (auto simp: opened_def)
  have l: "length (data_area ?ri bs) < 2 ^ 32" by (rule length_parts(1) [OF assms(2)])
  have "block_pos ?ri bs i \<le> length (data_area ?ri bs)" using block_pos_mono [of i "length bs" ?ri bs] assms(4) by (simp add: block_pos_def)
  then have u: "unat (bh_offset (block_handle ?ri bs i)) = block_pos ?ri bs i"
    using l by (simp add: block_handle_def handle_at_def unat_of_nat_small)
  obtain m where m: "Reader_KeyMayMatch (fp_KeyMayMatch p) r (block_pos ?ri bs i) k = Some m" using Reader_KeyMayMatch_total [OF r(2)] by blast
  have "m" if "e \<in> set (bs ! i)" "fp_KeyMayMatch p k = fp_KeyMayMatch p (fst e)" for e
    using filter_answer [OF _ _ length_parts(4) [OF assms(2) Some] r(2) assms(4) that] assms(3) Some l m by (simp add: good_policy_def)
  then show ?thesis using r(1) m u Some Handle_roundtrip [of new_BlockHandle "block_handle ?ri bs i" "[]"]
    by (auto simp: filtered_out_def rules_out_def)
qed

lemma InternalGet_ok:
  assumes "opened opts bs seps t" "length (table_bytes opts bs seps) < 2 ^ 32" "0 < block_restart_interval opts" "good_policy (filter_policy_opt opts)"
    and "blocks_cached ops (block_restart_interval opts) bs (tr_cache_id t) cache"
    and "comparator ok cmp" "cmp = c_Compare (opt_comparator opts)" "table_sorted ok cmp bs seps" "ok k"
  shows "\<exists>found cache'. InternalGet ops t options k cache = Some (OK, found, cache') \<and>
    blocks_cached ops (block_restart_interval opts) bs (tr_cache_id t) cache' \<and>
    (case block_for cmp seps k of
       None \<Rightarrow> found = None
     | Some i \<Rightarrow> found = find (\<lambda>e. cmp (fst e) k \<ge> 0) (bs ! i) \<or> found = None \<and> rules_out (filter_policy_opt opts) k (bs ! i))"
proof -
  let ?ri = "block_restart_interval opts"
  let ?es = "index_entries ?ri bs seps"
  have cmp: "c_Compare (opt_comparator (tr_options t)) = cmp" using assms(1,7) by (simp add: opened_def)
  have len: "length seps = length bs" using assms(8) by (simp add: table_sorted_def)
  have l: "length (build_block 1 ?es) < 2 ^ 32" using length_parts(3) [OF assms(2)] by (simp add: index_block_bytes_def)
  have b: "new_Block (build_block 1 ?es) = Some (tr_index_block t)" using assms(1) by (simp add: opened_def index_block_bytes_def)
  have v: "list_all (ok \<circ> fst) ?es" using assms(8) by (simp add: table_sorted_def index_entries_def list_all_length)
  have s: "sorted_wrt (\<lambda>a b. cmp (fst a) (fst b) < 0) ?es"
    using comparator.seps_sorted [OF assms(6,8)] by (simp add: index_entries_def sorted_wrt_iff_nth_less)
  obtain ii ii' where ii: "NewBlockIterator (tr_index_block t) = Some ii" "Iter_Seek cmp k ii = Some ii'" "seek_found ii' (find (\<lambda>e. cmp (fst e) k \<ge> 0) ?es)"
    by (rule seek_built [OF assms(6) _ l v assms(9) s b]) simp
  have fd: "find (\<lambda>e. cmp (fst e) k \<ge> 0) ?es = map_option (\<lambda>i. (seps ! i, Handle_EncodeTo (block_handle ?ri bs i) [])) (block_for cmp seps k)"
    by (simp add: index_entries_def block_for_def find_map comp_def)
  show ?thesis
  proof (cases "block_for cmp seps k")
    case None
    then show ?thesis using ii fd assms(5) cmp by (simp add: InternalGet_def seek_found_def)
  next
    case (Some i)
    then have i: "i < length bs" using len by (auto simp: block_for_def find_Some_iff)
    have ii': "Iter_Valid ii'" "Iter_value ii' = Some (Handle_EncodeTo (block_handle ?ri bs i) [])" "Iter_status ii' = OK"
      using ii(3) fd Some by (simp_all add: seek_found_def)
    obtain out where out: "filtered_out t (Handle_EncodeTo (block_handle ?ri bs i) []) k = Some out" "out \<longrightarrow> rules_out (filter_policy_opt opts) k (bs ! i)"
      using filtered_out_ok [OF assms(1,2,4) i] by blast
    have bv: "list_all (ok \<circ> fst) (bs ! i)" "sorted_wrt (\<lambda>a b. cmp (fst a) (fst b) < 0) (bs ! i)"
      using assms(8) nth_mem [OF i] sorted_concat_block [OF _ nth_mem [OF i]] by (auto simp: table_sorted_def list_all_iff)
    obtain it cache' it' where it: "BlockReader ops t options (Handle_EncodeTo (block_handle ?ri bs i) []) cache = Some (it, cache')"
       "Iter_Seek cmp k it = Some it'" "seek_found it' (find (\<lambda>e. cmp (fst e) k \<ge> 0) (bs ! i))" "blocks_cached ops ?ri bs (tr_cache_id t) cache'"
      using BlockReader_ok [OF assms(1-3) i assms(5,6) bv(1) assms(9) bv(2)] by blast
    have "(if Iter_Valid it' then do { key \<leftarrow> Iter_key it'; v \<leftarrow> Iter_value it'; Some (Some (key, v)) } else Some None) =
        Some (find (\<lambda>e. cmp (fst e) k \<ge> 0) (bs ! i))" "Iter_status it' = OK"
      using it(3) by (auto simp: seek_found_def split: option.splits)
    then show ?thesis using Some ii(1,2) ii' cmp out it(1,2,4) assms(5) by (cases out) (simp_all add: InternalGet_def)
  qed
qed

end
