(* ===== verification/Ldb_Cache.thy ===== *)
theory Ldb_Cache
  imports Ldb_Bloom
begin

text \<open>
  \<^verbatim>\<open>util/cache.cc\<close>: the sharded cache of least recently used entries.  Handles are addresses of a store; a hash chain and a circular list are the list of
  the addresses on it.  An access to a handle that was freed is \<^const>\<open>None\<close>.  The counters of the hash table are numbers without bound.
\<close>

subsection \<open>Handles and the hash table\<close>

record 'v LRUHandle =
  lh_value :: 'v
  lh_charge :: uint64
  lh_key :: "byte list"
  lh_in_cache :: bool
  lh_refs :: uint32
  lh_hash :: uint32

type_synonym 'v handles = "nat \<Rightarrow> 'v LRUHandle option"

record HandleTable =
  ht_length :: nat
  ht_elems :: nat
  ht_list :: "nat list list"

definition bucket :: "nat \<Rightarrow> uint32 \<Rightarrow> nat" where
  "bucket len hash = unat (hash AND of_nat (len - 1))"

text \<open>\<^verbatim>\<open>FindPointer\<close>: the chain before the slot, and from the slot on.\<close>

fun find_pointer :: "'v handles \<Rightarrow> byte list \<Rightarrow> uint32 \<Rightarrow> nat list \<Rightarrow> (nat list \<times> nat list) option" where
  "find_pointer H key hash [] = Some ([], [])"
| "find_pointer H key hash (p # ps) = do {
     h \<leftarrow> H p;
     if lh_hash h \<noteq> hash \<or> key \<noteq> lh_key h
     then do { (before, slot) \<leftarrow> find_pointer H key hash ps; Some (p # before, slot) }
     else Some ([], p # ps)
   }"

definition FindPointer :: "'v handles \<Rightarrow> HandleTable \<Rightarrow> byte list \<Rightarrow> uint32 \<Rightarrow> (nat list \<times> nat list) option" where
  "FindPointer H t key hash = do {
     chain \<leftarrow> nth_opt (ht_list t) (bucket (ht_length t) hash);
     find_pointer H key hash chain
   }"

definition slot_handle :: "nat list \<Rightarrow> nat option" where
  "slot_handle slot = (case slot of [] \<Rightarrow> None | p # _ \<Rightarrow> Some p)"

definition Handle_Lookup :: "'v handles \<Rightarrow> HandleTable \<Rightarrow> byte list \<Rightarrow> uint32 \<Rightarrow> nat option option" where
  "Handle_Lookup H t key hash = do { (_, slot) \<leftarrow> FindPointer H t key hash; Some (slot_handle slot) }"

function new_length_loop :: "nat \<Rightarrow> nat \<Rightarrow> nat" where
  "new_length_loop elems n = (if 0 < n \<and> n < elems then new_length_loop elems (n * 2) else n)"
  by pat_completeness auto
termination
  by (relation "measure (\<lambda>(elems, n). elems - n)") auto

declare new_length_loop.simps [simp del]

fun rehash :: "'v handles \<Rightarrow> nat \<Rightarrow> nat list \<Rightarrow> nat list list \<Rightarrow> nat list list option" where
  "rehash H new_length [] new_list = Some new_list"
| "rehash H new_length (p # ps) new_list = do {
     h \<leftarrow> H p;
     let i = bucket new_length (lh_hash h);
     chain \<leftarrow> nth_opt new_list i;
     rehash H new_length ps (new_list[i := p # chain])
   }"

definition Resize :: "'v handles \<Rightarrow> HandleTable \<Rightarrow> HandleTable option" where
  "Resize H t = do {
     let new_length = new_length_loop (ht_elems t) 4;
     new_list \<leftarrow> rehash H new_length (concat (ht_list t)) (replicate new_length []);
     Some (t\<lparr>ht_list := new_list, ht_length := new_length\<rparr>)
   }"

definition new_HandleTable :: HandleTable where
  "new_HandleTable = \<lparr>ht_length = new_length_loop 0 4, ht_elems = 0, ht_list = replicate (new_length_loop 0 4) []\<rparr>"

definition Handle_Insert :: "'v handles \<Rightarrow> HandleTable \<Rightarrow> nat \<Rightarrow> (nat option \<times> HandleTable) option" where
  "Handle_Insert H t p = do {
     h \<leftarrow> H p;
     (before, slot) \<leftarrow> FindPointer H t (lh_key h) (lh_hash h);
     let old = slot_handle slot;
     let t = t\<lparr>ht_list := (ht_list t)[bucket (ht_length t) (lh_hash h) := before @ p # tl slot]\<rparr>;
     (case old of
        Some _ \<Rightarrow> Some (old, t)
      | None \<Rightarrow> do {
          let t = t\<lparr>ht_elems := ht_elems t + 1\<rparr>;
          t \<leftarrow> (if ht_elems t > ht_length t then Resize H t else Some t);
          Some (None, t)
        })
   }"

definition Handle_Remove :: "'v handles \<Rightarrow> HandleTable \<Rightarrow> byte list \<Rightarrow> uint32 \<Rightarrow> (nat option \<times> HandleTable) option" where
  "Handle_Remove H t key hash = do {
     (before, slot) \<leftarrow> FindPointer H t key hash;
     Some (case slot of
             [] \<Rightarrow> (None, t)
           | p # ps \<Rightarrow> (Some p, t\<lparr>ht_list := (ht_list t)[bucket (ht_length t) hash := before @ ps], ht_elems := ht_elems t - 1\<rparr>))
   }"

subsection \<open>One shard\<close>

record 'v LRUCache =
  lc_capacity :: uint64
  lc_usage :: uint64
  lc_lru :: "nat list"
  lc_in_use :: "nat list"
  lc_table :: HandleTable
  lc_handles :: "'v handles"
  lc_next :: nat
  lc_deleted :: "(byte list \<times> 'v) list"

definition new_LRUCache :: "'v LRUCache" where
  "new_LRUCache = \<lparr>lc_capacity = 0, lc_usage = 0, lc_lru = [], lc_in_use = [], lc_table = new_HandleTable, lc_handles = Map.empty, lc_next = 0, lc_deleted = []\<rparr>"

definition SetCapacity :: "uint64 \<Rightarrow> 'v LRUCache \<Rightarrow> 'v LRUCache" where
  "SetCapacity capacity c = c\<lparr>lc_capacity := capacity\<rparr>"

definition LRU_Remove :: "nat \<Rightarrow> 'v LRUCache \<Rightarrow> 'v LRUCache" where
  "LRU_Remove e c = c\<lparr>lc_lru := remove1 e (lc_lru c), lc_in_use := remove1 e (lc_in_use c)\<rparr>"

definition LRU_Append_lru :: "nat \<Rightarrow> 'v LRUCache \<Rightarrow> 'v LRUCache" where
  "LRU_Append_lru e c = c\<lparr>lc_lru := lc_lru c @ [e]\<rparr>"

definition LRU_Append_in_use :: "nat \<Rightarrow> 'v LRUCache \<Rightarrow> 'v LRUCache" where
  "LRU_Append_in_use e c = c\<lparr>lc_in_use := lc_in_use c @ [e]\<rparr>"

definition Cache_Ref :: "nat \<Rightarrow> 'v LRUCache \<Rightarrow> 'v LRUCache option" where
  "Cache_Ref e c = do {
     h \<leftarrow> lc_handles c e;
     let c = (if lh_refs h = 1 \<and> lh_in_cache h then LRU_Append_in_use e (LRU_Remove e c) else c);
     Some (c\<lparr>lc_handles := (lc_handles c)(e \<mapsto> h\<lparr>lh_refs := lh_refs h + 1\<rparr>)\<rparr>)
   }"

definition Cache_Unref :: "nat \<Rightarrow> 'v LRUCache \<Rightarrow> 'v LRUCache option" where
  "Cache_Unref e c = do {
     h \<leftarrow> lc_handles c e;
     let h = h\<lparr>lh_refs := lh_refs h - 1\<rparr>;
     let c = c\<lparr>lc_handles := (lc_handles c)(e \<mapsto> h)\<rparr>;
     Some (if lh_refs h = 0
           then c\<lparr>lc_deleted := lc_deleted c @ [(lh_key h, lh_value h)], lc_handles := (lc_handles c)(e := None)\<rparr>
           else if lh_in_cache h \<and> lh_refs h = 1 then LRU_Append_lru e (LRU_Remove e c)
           else c)
   }"

definition FinishErase :: "nat option \<Rightarrow> 'v LRUCache \<Rightarrow> (bool \<times> 'v LRUCache) option" where
  "FinishErase e c =
     (case e of
        None \<Rightarrow> Some (False, c)
      | Some e \<Rightarrow> do {
          let c = LRU_Remove e c;
          h \<leftarrow> lc_handles c e;
          let c = c\<lparr>lc_handles := (lc_handles c)(e \<mapsto> h\<lparr>lh_in_cache := False\<rparr>), lc_usage := lc_usage c - lh_charge h\<rparr>;
          c \<leftarrow> Cache_Unref e c;
          Some (True, c)
        })"

definition LRU_Lookup :: "byte list \<Rightarrow> uint32 \<Rightarrow> 'v LRUCache \<Rightarrow> (nat option \<times> 'v LRUCache) option" where
  "LRU_Lookup key hash c = do {
     e \<leftarrow> Handle_Lookup (lc_handles c) (lc_table c) key hash;
     c \<leftarrow> (case e of None \<Rightarrow> Some c | Some e \<Rightarrow> Cache_Ref e c);
     Some (e, c)
   }"

definition LRU_Release :: "nat \<Rightarrow> 'v LRUCache \<Rightarrow> 'v LRUCache option" where
  "LRU_Release e c = Cache_Unref e c"

definition LRU_Erase :: "byte list \<Rightarrow> uint32 \<Rightarrow> 'v LRUCache \<Rightarrow> 'v LRUCache option" where
  "LRU_Erase key hash c = do {
     (e, t) \<leftarrow> Handle_Remove (lc_handles c) (lc_table c) key hash;
     (_, c) \<leftarrow> FinishErase e (c\<lparr>lc_table := t\<rparr>);
     Some c
   }"

text \<open>The loops of \<^verbatim>\<open>Insert\<close> and \<^verbatim>\<open>Prune\<close>: the oldest entry is erased while the condition holds.\<close>

partial_function (option) evict_while :: "(uint64 \<Rightarrow> bool) \<Rightarrow> 'v LRUCache \<Rightarrow> 'v LRUCache option" where
  "evict_while keep_on c =
     (case lc_lru c of
        [] \<Rightarrow> Some c
      | old # _ \<Rightarrow>
          (if \<not> keep_on (lc_usage c) then Some c
           else do {
             h \<leftarrow> lc_handles c old;
             c \<leftarrow> LRU_Erase (lh_key h) (lh_hash h) c;
             evict_while keep_on c
           }))"

definition LRU_Insert :: "byte list \<Rightarrow> uint32 \<Rightarrow> 'v \<Rightarrow> uint64 \<Rightarrow> 'v LRUCache \<Rightarrow> (nat \<times> 'v LRUCache) option" where
  "LRU_Insert key hash v charge c = do {
     let e = lc_next c;
     let h = \<lparr>lh_value = v, lh_charge = charge, lh_key = key, lh_in_cache = False, lh_refs = 1, lh_hash = hash\<rparr>;
     let c = c\<lparr>lc_next := e + 1\<rparr>;
     c \<leftarrow>
       (if lc_capacity c > 0
        then do {
          let h = h\<lparr>lh_refs := lh_refs h + 1, lh_in_cache := True\<rparr>;
          let c = LRU_Append_in_use e (c\<lparr>lc_handles := (lc_handles c)(e \<mapsto> h)\<rparr>);
          let c = c\<lparr>lc_usage := lc_usage c + charge\<rparr>;
          (old, t) \<leftarrow> Handle_Insert (lc_handles c) (lc_table c) e;
          (_, c) \<leftarrow> FinishErase old (c\<lparr>lc_table := t\<rparr>);
          Some c
        }
        else Some (c\<lparr>lc_handles := (lc_handles c)(e \<mapsto> h)\<rparr>));
     c \<leftarrow> evict_while (\<lambda>usage. usage > lc_capacity c) c;
     Some (e, c)
   }"

definition LRU_Prune :: "'v LRUCache \<Rightarrow> 'v LRUCache option" where
  "LRU_Prune c = evict_while (\<lambda>_. True) c"

text \<open>The destructor.\<close>

fun destroy_loop :: "nat list \<Rightarrow> 'v LRUCache \<Rightarrow> 'v LRUCache option" where
  "destroy_loop [] c = Some c"
| "destroy_loop (e # es) c = do {
     h \<leftarrow> lc_handles c e;
     let c = c\<lparr>lc_handles := (lc_handles c)(e \<mapsto> h\<lparr>lh_in_cache := False\<rparr>)\<rparr>;
     c \<leftarrow> Cache_Unref e c;
     destroy_loop es c
   }"

definition LRU_destroy :: "'v LRUCache \<Rightarrow> 'v LRUCache option" where
  "LRU_destroy c = destroy_loop (lc_lru c) c"

subsection \<open>The sharded cache\<close>

definition kNumShardBits :: nat where "kNumShardBits = 4"

definition kNumShards :: nat where "kNumShards = 2 ^ kNumShardBits"

record 'v ShardedLRUCache =
  sc_shard :: "'v LRUCache list"
  sc_last_id :: uint64

definition HashSlice :: "byte list \<Rightarrow> uint32" where
  "HashSlice s = Hash s 0"

definition Shard :: "uint32 \<Rightarrow> nat" where
  "Shard hash = unat (drop_bit (32 - kNumShardBits) hash)"

definition new_ShardedLRUCache :: "uint64 \<Rightarrow> 'v ShardedLRUCache" where
  "new_ShardedLRUCache capacity =
     (let per_shard = (capacity + of_nat (kNumShards - 1)) div of_nat kNumShards
      in \<lparr>sc_shard = replicate kNumShards (SetCapacity per_shard new_LRUCache), sc_last_id = 0\<rparr>)"

definition Sharded_Insert :: "byte list \<Rightarrow> 'v \<Rightarrow> uint64 \<Rightarrow> 'v ShardedLRUCache \<Rightarrow> ((nat \<times> nat) \<times> 'v ShardedLRUCache) option" where
  "Sharded_Insert key v charge c = do {
     let hash = HashSlice key;
     s \<leftarrow> nth_opt (sc_shard c) (Shard hash);
     (e, s) \<leftarrow> LRU_Insert key hash v charge s;
     Some ((Shard hash, e), c\<lparr>sc_shard := (sc_shard c)[Shard hash := s]\<rparr>)
   }"

definition Sharded_Lookup :: "byte list \<Rightarrow> 'v ShardedLRUCache \<Rightarrow> ((nat \<times> nat) option \<times> 'v ShardedLRUCache) option" where
  "Sharded_Lookup key c = do {
     let hash = HashSlice key;
     s \<leftarrow> nth_opt (sc_shard c) (Shard hash);
     (e, s) \<leftarrow> LRU_Lookup key hash s;
     Some (map_option (Pair (Shard hash)) e, c\<lparr>sc_shard := (sc_shard c)[Shard hash := s]\<rparr>)
   }"

text \<open>A handle is the address of an entry; its first component says in which store the entry was allocated.\<close>

definition Sharded_Release :: "nat \<times> nat \<Rightarrow> 'v ShardedLRUCache \<Rightarrow> 'v ShardedLRUCache option" where
  "Sharded_Release handle c = do {
     owner \<leftarrow> nth_opt (sc_shard c) (fst handle);
     h \<leftarrow> lc_handles owner (snd handle);
     s \<leftarrow> nth_opt (sc_shard c) (Shard (lh_hash h));
     s \<leftarrow> LRU_Release (snd handle) s;
     Some (c\<lparr>sc_shard := (sc_shard c)[Shard (lh_hash h) := s]\<rparr>)
   }"

definition Sharded_Erase :: "byte list \<Rightarrow> 'v ShardedLRUCache \<Rightarrow> 'v ShardedLRUCache option" where
  "Sharded_Erase key c = do {
     let hash = HashSlice key;
     s \<leftarrow> nth_opt (sc_shard c) (Shard hash);
     s \<leftarrow> LRU_Erase key hash s;
     Some (c\<lparr>sc_shard := (sc_shard c)[Shard hash := s]\<rparr>)
   }"

definition Sharded_Value :: "nat \<times> nat \<Rightarrow> 'v ShardedLRUCache \<Rightarrow> 'v option" where
  "Sharded_Value handle c = do { s \<leftarrow> nth_opt (sc_shard c) (fst handle); map_option lh_value (lc_handles s (snd handle)) }"

definition NewId :: "'v ShardedLRUCache \<Rightarrow> uint64 \<times> 'v ShardedLRUCache" where
  "NewId c = (sc_last_id c + 1, c\<lparr>sc_last_id := sc_last_id c + 1\<rparr>)"

primrec prune_shards :: "'v LRUCache list \<Rightarrow> 'v LRUCache list option" where
  "prune_shards [] = Some []"
| "prune_shards (s # ss) = do { s \<leftarrow> LRU_Prune s; ss \<leftarrow> prune_shards ss; Some (s # ss) }"

definition Sharded_Prune :: "'v ShardedLRUCache \<Rightarrow> 'v ShardedLRUCache option" where
  "Sharded_Prune c = do { ss \<leftarrow> prune_shards (sc_shard c); Some (c\<lparr>sc_shard := ss\<rparr>) }"

definition TotalCharge :: "'v ShardedLRUCache \<Rightarrow> uint64" where
  "TotalCharge c = foldl (+) 0 (map lc_usage (sc_shard c))"

end
