(* ===== verification/Ldb_Cache_Spec.thy ===== *)
theory Ldb_Cache_Spec
  imports Ldb_Cache "HOL-Library.Multiset"
begin

text \<open>
  The cache as a map: the invariant of the hash table and of the two lists, what every operation does to the entries, and the bound on the memory.
\<close>

subsection \<open>Chains\<close>

text \<open>A handle with a key.\<close>

definition has_key :: "'v handles \<Rightarrow> byte list \<Rightarrow> uint32 \<Rightarrow> nat \<Rightarrow> bool" where
  "has_key H key hash p \<longleftrightarrow> (\<exists>h. H p = Some h \<and> lh_hash h = hash \<and> lh_key h = key)"

definition chains_ok :: "'v handles \<Rightarrow> nat list list \<Rightarrow> bool" where
  "chains_ok H cs \<longleftrightarrow> (\<forall>i < length cs. \<forall>p \<in> set (cs ! i). \<exists>h. H p = Some h \<and> bucket (length cs) (lh_hash h) = i)"

definition unique_keys :: "'v handles \<Rightarrow> nat set \<Rightarrow> bool" where
  "unique_keys H P \<longleftrightarrow> (\<forall>p \<in> P. \<forall>q \<in> P. \<forall>key hash. has_key H key hash p \<longrightarrow> has_key H key hash q \<longrightarrow> p = q)"

definition addresses :: "HandleTable \<Rightarrow> nat list" where
  "addresses t = concat (ht_list t)"

definition table_ok :: "'v handles \<Rightarrow> HandleTable \<Rightarrow> bool" where
  "table_ok H t \<longleftrightarrow>
     length (ht_list t) = ht_length t \<and> 0 < ht_length t \<and> ht_elems t = length (addresses t) \<and> distinct (addresses t) \<and>
     chains_ok H (ht_list t) \<and> unique_keys H (set (addresses t))"

lemma unique_keys_subset: "unique_keys H P \<Longrightarrow> Q \<subseteq> P \<Longrightarrow> unique_keys H Q"
  unfolding unique_keys_def by blast

lemma bucket_less: "0 < len \<Longrightarrow> bucket len hash < len"
proof -
  assume "0 < len"
  have "unat (hash AND of_nat (len - 1)) \<le> unat (of_nat (len - 1) :: uint32)" by (simp add: word_and_le1 flip: word_le_nat_alt)
  also have "\<dots> \<le> len - 1" by (simp add: unsigned_of_nat take_bit_nat_eq_self_iff take_bit_nat_less_eq_self)
  finally show ?thesis using \<open>0 < len\<close> by (simp add: bucket_def)
qed

lemma in_chain: "p \<in> set (concat cs) \<longleftrightarrow> (\<exists>i < length cs. p \<in> set (cs ! i))"
  unfolding set_concat by (metis UN_iff in_set_conv_nth)

lemma mset_concat_update: "i < length cs \<Longrightarrow> mset (concat (cs[i := c])) + mset (cs ! i) = mset (concat cs) + mset c"
proof (induction cs arbitrary: i)
  case (Cons x cs)
  then show ?case by (cases i) auto
qed simp

lemma mset_Cons_facts:
  assumes "mset xs + {#p#} = mset ys"
  shows "distinct ys \<longleftrightarrow> distinct xs \<and> p \<notin> set xs" "set ys = insert p (set xs)" "length ys = Suc (length xs)"
proof -
  have m: "mset (p # xs) = mset ys" using assms by simp
  show "distinct ys \<longleftrightarrow> distinct xs \<and> p \<notin> set xs" using mset_eq_imp_distinct_iff [OF m] by auto
  show "set ys = insert p (set xs)" using mset_eq_setD [OF m] by simp
  show "length ys = Suc (length xs)" using mset_eq_length [OF m] by simp
qed

lemma chains_ok_update:
  assumes "chains_ok H cs" "i < length cs" "\<And>p. p \<in> set c \<Longrightarrow> p \<in> set (cs ! i) \<or> (\<exists>h. H p = Some h \<and> bucket (length cs) (lh_hash h) = i)"
  shows "chains_ok H (cs[i := c])"
  using assms by (auto simp: chains_ok_def nth_list_update)

lemma find_pointer_ok:
  assumes "\<forall>p \<in> set ps. H p \<noteq> None"
  shows "\<exists>before slot. find_pointer H key hash ps = Some (before, slot) \<and> ps = before @ slot \<and>
    (\<forall>p \<in> set before. \<not> has_key H key hash p) \<and> (case slot of [] \<Rightarrow> True | p # _ \<Rightarrow> has_key H key hash p)"
  using assms
proof (induction ps)
  case (Cons p ps)
  obtain h where h: "H p = Some h" using Cons.prems by auto
  obtain before slot where r: "find_pointer H key hash ps = Some (before, slot)" "ps = before @ slot"
      "\<forall>p \<in> set before. \<not> has_key H key hash p" "case slot of [] \<Rightarrow> True | p # _ \<Rightarrow> has_key H key hash p"
    using Cons by auto
  show ?case
  proof (cases "lh_hash h \<noteq> hash \<or> key \<noteq> lh_key h")
    case True
    then show ?thesis using h r by (intro exI [of _ "p # before"] exI [of _ slot]) (auto simp: has_key_def)
  next
    case False
    then show ?thesis using h by (intro exI [of _ "[]"] exI [of _ "p # ps"]) (simp add: has_key_def)
  qed
qed simp

subsection \<open>Operations of the table\<close>

text \<open>The slot of a key: its entry is the head of the slot, and when there is none no entry has the key.\<close>

definition found_at :: "'v handles \<Rightarrow> HandleTable \<Rightarrow> byte list \<Rightarrow> uint32 \<Rightarrow> nat option \<Rightarrow> bool" where
  "found_at H t key hash r \<longleftrightarrow>
     (case r of None \<Rightarrow> \<forall>p \<in> set (addresses t). \<not> has_key H key hash p | Some p \<Rightarrow> p \<in> set (addresses t) \<and> has_key H key hash p)"

lemma FindPointer_ok:
  assumes "table_ok H t"
  obtains before slot where "FindPointer H t key hash = Some (before, slot)" "ht_list t ! bucket (ht_length t) hash = before @ slot"
    "found_at H t key hash (slot_handle slot)"
proof -
  let ?i = "bucket (ht_length t) hash"
  have i: "?i < length (ht_list t)" using assms bucket_less [of "ht_length t"] by (simp add: table_ok_def)
  have ch: "\<exists>h. H p = Some h \<and> bucket (ht_length t) (lh_hash h) = j" if "j < length (ht_list t)" "p \<in> set (ht_list t ! j)" for j p
    using assms that by (auto simp: table_ok_def chains_ok_def)
  then have H: "\<forall>p \<in> set (ht_list t ! ?i). H p \<noteq> None" using i by fastforce
  obtain before slot where r: "find_pointer H key hash (ht_list t ! ?i) = Some (before, slot)" "ht_list t ! ?i = before @ slot"
      "\<forall>p \<in> set before. \<not> has_key H key hash p" "case slot of [] \<Rightarrow> True | p # _ \<Rightarrow> has_key H key hash p"
    using find_pointer_ok [OF H] by blast
  have "found_at H t key hash (slot_handle slot)"
  proof (cases slot)
    case Nil
    have "\<not> has_key H key hash p" if p: "p \<in> set (addresses t)" for p
    proof
      assume k: "has_key H key hash p"
      obtain j where j: "j < length (ht_list t)" "p \<in> set (ht_list t ! j)" using p unfolding addresses_def in_chain by blast
      then have "j = ?i" using ch [OF j] k by (auto simp: has_key_def)
      then show False using k r(2,3) Nil j(2) by simp
    qed
    then show ?thesis using Nil by (simp add: found_at_def slot_handle_def)
  next
    case (Cons p ps)
    then have "p \<in> set (ht_list t ! ?i)" using r(2) by simp
    then have "p \<in> set (addresses t)" unfolding addresses_def in_chain using i by blast
    then show ?thesis using Cons r(4) by (simp add: found_at_def slot_handle_def)
  qed
  then show thesis using that r(1,2) i by (simp add: FindPointer_def nth_opt_def)
qed

lemma Handle_Lookup_ok:
  assumes "table_ok H t"
  obtains r where "Handle_Lookup H t key hash = Some r" "found_at H t key hash r"
proof -
  obtain before slot where "FindPointer H t key hash = Some (before, slot)" "found_at H t key hash (slot_handle slot)"
    by (rule FindPointer_ok [OF assms])
  then show thesis using that by (simp add: Handle_Lookup_def)
qed

lemma found_unique: "table_ok H t \<Longrightarrow> found_at H t key hash (Some p) \<Longrightarrow> found_at H t key hash r \<Longrightarrow> r = Some p"
  by (cases r) (auto simp: found_at_def table_ok_def unique_keys_def)

lemma Handle_Remove_ok:
  assumes "table_ok H t"
  obtains r t' where "Handle_Remove H t key hash = Some (r, t')" "table_ok H t'" "found_at H t key hash r"
    "set (addresses t') = set (addresses t) - set_option r"
proof -
  let ?i = "bucket (ht_length t) hash"
  have i: "?i < length (ht_list t)" using assms bucket_less [of "ht_length t"] by (simp add: table_ok_def)
  obtain before slot where f: "FindPointer H t key hash = Some (before, slot)" "ht_list t ! ?i = before @ slot" "found_at H t key hash (slot_handle slot)"
    by (rule FindPointer_ok [OF assms])
  show thesis
  proof (cases slot)
    case Nil
    then show thesis using that [of None t] f assms by (simp add: Handle_Remove_def slot_handle_def)
  next
    case (Cons p ps)
    define t' where "t' = t\<lparr>ht_list := (ht_list t)[?i := before @ ps], ht_elems := ht_elems t - 1\<rparr>"
    have t': "ht_list t' = (ht_list t)[?i := before @ ps]" "ht_length t' = ht_length t" "ht_elems t' = ht_elems t - 1" by (simp_all add: t'_def)
    have m: "mset (addresses t') + {#p#} = mset (addresses t)"
      using mset_concat_update [OF i, of "before @ ps"] f(2) Cons by (simp add: addresses_def t')
    note d = mset_Cons_facts [OF m]
    have c: "chains_ok H (ht_list t')" unfolding t' using assms f(2) Cons i by (intro chains_ok_update) (auto simp: table_ok_def)
    have u: "unique_keys H (set (addresses t'))" by (rule unique_keys_subset [of _ "set (addresses t)"]) (use assms d(2) in \<open>auto simp: table_ok_def\<close>)
    have "table_ok H t'" using assms c u d(1,3) by (auto simp: table_ok_def t')
    moreover have "set (addresses t') = set (addresses t) - {p}" using assms d(1,2) by (auto simp: table_ok_def)
    ultimately show thesis using that [of "Some p" t'] f Cons by (simp add: Handle_Remove_def slot_handle_def t'_def)
  qed
qed

lemma rehash_ok:
  assumes "\<forall>p \<in> set ps. H p \<noteq> None" "length new_list = n" "0 < n" "chains_ok H new_list"
  obtains cs where "rehash H n ps new_list = Some cs" "length cs = n" "chains_ok H cs" "mset (concat cs) = mset (concat new_list) + mset ps"
  using assms
proof (induction ps arbitrary: new_list thesis)
  case (Cons p ps)
  obtain h where h: "H p = Some h" using Cons.prems(2) by auto
  let ?i = "bucket n (lh_hash h)"
  have i: "?i < length new_list" using bucket_less [OF Cons.prems(4)] Cons.prems(3) by simp
  let ?l = "new_list[?i := p # new_list ! ?i]"
  have "chains_ok H ?l" using Cons.prems(3,5) i h by (intro chains_ok_update) auto
  from Cons.IH [OF _ _ _ Cons.prems(4) this] obtain cs where cs: "rehash H n ps ?l = Some cs" "length cs = n" "chains_ok H cs" "mset (concat cs) = mset (concat ?l) + mset ps"
    using Cons.prems(2,3) by auto
  have "mset (concat ?l) = mset (concat new_list) + {#p#}" using mset_concat_update [OF i, of "p # new_list ! ?i"] by simp
  then show ?case using Cons.prems(1) [of cs] cs h i by (simp add: nth_opt_def)
qed simp

lemma new_length_pos: "0 < n \<Longrightarrow> 0 < new_length_loop elems n"
proof (induction elems n rule: new_length_loop.induct)
  case (1 elems n)
  then show ?case by (subst new_length_loop.simps) simp
qed

lemma Resize_ok:
  assumes "table_ok H t"
  obtains t' where "Resize H t = Some t'" "table_ok H t'" "mset (addresses t') = mset (addresses t)"
proof -
  let ?n = "new_length_loop (ht_elems t) 4"
  have n: "0 < ?n" by (rule new_length_pos) simp
  have "H p \<noteq> None" if p: "p \<in> set (concat (ht_list t))" for p
  proof -
    obtain j where "j < length (ht_list t)" "p \<in> set (ht_list t ! j)" using p unfolding in_chain by blast
    then show ?thesis using assms by (fastforce simp: table_ok_def chains_ok_def)
  qed
  then have H: "\<forall>p \<in> set (concat (ht_list t)). H p \<noteq> None" by blast
  have "chains_ok H (replicate ?n [])" by (simp add: chains_ok_def)
  from rehash_ok [OF H _ n this] obtain cs where cs: "rehash H ?n (concat (ht_list t)) (replicate ?n []) = Some cs" "length cs = ?n" "chains_ok H cs"
      "mset (concat cs) = mset (concat (replicate ?n [])) + mset (concat (ht_list t))"
    by auto
  have m: "mset (concat cs) = mset (concat (ht_list t))" using cs(4) by simp
  then have "table_ok H (t\<lparr>ht_list := cs, ht_length := ?n\<rparr>)"
    using assms cs(2,3) n mset_eq_setD [OF m] mset_eq_length [OF m] mset_eq_imp_distinct_iff [OF m] unfolding table_ok_def addresses_def by simp
  then show thesis using that [of "t\<lparr>ht_list := cs, ht_length := ?n\<rparr>"] cs(1) m by (simp add: Resize_def addresses_def)
qed

lemma Handle_Insert_ok:
  assumes "table_ok H t" "H p = Some h" "p \<notin> set (addresses t)"
  obtains old t' where "Handle_Insert H t p = Some (old, t')" "table_ok H t'" "found_at H t (lh_key h) (lh_hash h) old"
    "set (addresses t') = insert p (set (addresses t) - set_option old)"
proof -
  let ?i = "bucket (ht_length t) (lh_hash h)"
  have i: "?i < length (ht_list t)" "length (ht_list t) = ht_length t" using assms(1) bucket_less [of "ht_length t"] by (simp_all add: table_ok_def)
  obtain before slot where f: "FindPointer H t (lh_key h) (lh_hash h) = Some (before, slot)" "ht_list t ! ?i = before @ slot"
      "found_at H t (lh_key h) (lh_hash h) (slot_handle slot)"
    by (rule FindPointer_ok [OF assms(1)])
  define t1 where "t1 = t\<lparr>ht_list := (ht_list t)[?i := before @ p # tl slot]\<rparr>"
  have set_tl: "set (tl slot) \<subseteq> set slot" by (cases slot) auto
  have c: "chains_ok H (ht_list t1)"
    using assms(1,2) f(2) i set_tl by (auto simp: table_ok_def t1_def intro!: chains_ok_update)
  have p: "has_key H key hash p \<longleftrightarrow> key = lh_key h \<and> hash = lh_hash h" for key hash using assms(2) by (auto simp: has_key_def)
  have u: "unique_keys H (insert p Q)" if "unique_keys H Q" "\<forall>q \<in> Q. \<not> has_key H (lh_key h) (lh_hash h) q" for Q
    using that by (auto simp: unique_keys_def p)
  show thesis
  proof (cases slot)
    case Nil
    define t2 where "t2 = t1\<lparr>ht_elems := ht_elems t1 + 1\<rparr>"
    have m: "mset (addresses t) + {#p#} = mset (addresses t2)"
      using mset_concat_update [OF i(1), of "before @ [p]"] f(2) Nil by (simp add: addresses_def t1_def t2_def)
    have nk: "\<forall>q \<in> set (addresses t). \<not> has_key H (lh_key h) (lh_hash h) q" using f(3) Nil by (simp add: found_at_def slot_handle_def)
    have ok: "table_ok H t2"
      using assms(1,3) c i mset_Cons_facts [OF m] u [OF _ nk] by (simp add: table_ok_def t1_def t2_def)
    obtain t' where t': "(if ht_elems t2 > ht_length t2 then Resize H t2 else Some t2) = Some t'" "table_ok H t'" "mset (addresses t') = mset (addresses t2)"
    proof (cases "ht_elems t2 > ht_length t2")
      case True
      obtain t' where "Resize H t2 = Some t'" "table_ok H t'" "mset (addresses t') = mset (addresses t2)" by (rule Resize_ok [OF ok])
      then show thesis using that True by simp
    next
      case False
      then show thesis using that [of t2] ok by simp
    qed
    have "set (addresses t') = insert p (set (addresses t))" using mset_eq_setD [OF t'(3)] mset_Cons_facts(2) [OF m] by simp
    then show thesis using that [of None t'] f Nil t'(2) assms(2) t'(1) [unfolded t2_def t1_def Nil list.sel] by (simp add: Handle_Insert_def slot_handle_def Let_def cong: if_cong)
  next
    case (Cons q qs)
    have q: "q \<in> set (addresses t)" "has_key H (lh_key h) (lh_hash h) q" using f(3) Cons by (simp_all add: found_at_def slot_handle_def)
    have m: "mset (addresses t1) + {#q#} = mset (addresses t) + {#p#}"
      using mset_concat_update [OF i(1), of "before @ p # qs"] f(2) Cons by (simp add: addresses_def t1_def)
    obtain R where R: "mset (addresses t) = mset R + {#q#}" using q(1) by (metis add_mset_add_single ex_mset mset_add set_mset_mset)
    have r: "mset R + {#p#} = mset (addresses t1)" using m R by simp
    note fr = mset_Cons_facts [OF R [symmetric]] and fp = mset_Cons_facts [OF r]
    have "\<not> has_key H (lh_key h) (lh_hash h) x" if "x \<in> set R" for x
      using assms(1) q that fr by (auto simp: table_ok_def unique_keys_def)
    then have "table_ok H t1"
      using assms(1,3) c i fr fp u [of "set R"] by (auto simp: table_ok_def t1_def unique_keys_def)
    moreover have "set (addresses t1) = insert p (set (addresses t) - {q})" using assms(1) fr(1,2) fp(2) by (auto simp: table_ok_def)
    ultimately show thesis using that [of "Some q" t1] f Cons assms(2) by (simp add: Handle_Insert_def slot_handle_def t1_def)
  qed
qed

lemma new_HandleTable_ok: "table_ok H new_HandleTable" "addresses new_HandleTable = []"
  using new_length_pos [of 4 0] by (simp_all add: table_ok_def new_HandleTable_def addresses_def chains_ok_def unique_keys_def)


text \<open>Only the keys and hashes of the handles matter to the table.\<close>

lemma table_ok_cong:
  assumes "table_ok H t" "\<And>p. p \<in> set (addresses t) \<Longrightarrow> map_option (\<lambda>h. (lh_hash h, lh_key h)) (H' p) = map_option (\<lambda>h. (lh_hash h, lh_key h)) (H p)"
  shows "table_ok H' t"
proof -
  have k: "has_key H' key hash p = has_key H key hash p" if "p \<in> set (addresses t)" for p key hash
    using assms(2) [OF that] by (cases "H p"; cases "H' p") (auto simp: has_key_def)
  have "chains_ok H' (ht_list t)"
  proof (unfold chains_ok_def, intro allI impI ballI)
    fix i p assume i: "i < length (ht_list t)" "p \<in> set (ht_list t ! i)"
    then have p: "p \<in> set (addresses t)" unfolding addresses_def in_chain by blast
    obtain h where "H p = Some h" "bucket (length (ht_list t)) (lh_hash h) = i" using assms(1) i unfolding table_ok_def chains_ok_def by blast
    then show "\<exists>h. H' p = Some h \<and> bucket (length (ht_list t)) (lh_hash h) = i" using assms(2) [OF p] by (cases "H' p") auto
  qed
  moreover have "unique_keys H' (set (addresses t))" using assms(1) k unfolding table_ok_def unique_keys_def by blast
  ultimately show ?thesis using assms(1) by (simp add: table_ok_def)
qed

subsection \<open>Invariant of a shard\<close>

declare count_eq_zero_iff [simp]

text \<open>
  \<open>held\<close> are the handles that clients have and did not release.  A handle is referenced by its clients, and by the cache as long as it is in the cache; it is on the list
  of the ones in use when it has clients, and on the other one when the cache alone has it; memory is kept exactly for handles with references.
\<close>

definition charge_of :: "'v handles \<Rightarrow> nat \<Rightarrow> uint64" where
  "charge_of H p = (case H p of None \<Rightarrow> 0 | Some h \<Rightarrow> lh_charge h)"

definition cached :: "'v LRUCache \<Rightarrow> nat set" where
  "cached c = set (lc_lru c) \<union> set (lc_in_use c)"

definition handle_ok :: "nat multiset \<Rightarrow> 'v LRUCache \<Rightarrow> nat \<Rightarrow> bool" where
  "handle_ok held c p \<longleftrightarrow>
     (case lc_handles c p of
        None \<Rightarrow> p \<notin> cached c \<and> count held p = 0
      | Some h \<Rightarrow>
          p < lc_next c \<and> lh_refs h \<noteq> 0 \<and> unat (lh_refs h) = count held p + (if lh_in_cache h then 1 else 0) \<and>
          (p \<in> set (lc_lru c) \<longleftrightarrow> lh_in_cache h \<and> count held p = 0) \<and> (p \<in> set (lc_in_use c) \<longleftrightarrow> lh_in_cache h \<and> count held p \<noteq> 0))"

definition lists_ok :: "nat multiset \<Rightarrow> 'v LRUCache \<Rightarrow> bool" where
  "lists_ok held c \<longleftrightarrow>
     distinct (lc_lru c) \<and> distinct (lc_in_use c) \<and> (\<forall>p. handle_ok held c p) \<and> lc_usage c = (\<Sum>p \<in> cached c. charge_of (lc_handles c) p)"

definition shard_ok :: "nat multiset \<Rightarrow> 'v LRUCache \<Rightarrow> bool" where
  "shard_ok held c \<longleftrightarrow> lists_ok held c \<and> table_ok (lc_handles c) (lc_table c) \<and> set (addresses (lc_table c)) = cached c"

lemma finite_cached [simp]: "finite (cached c)"
  by (simp add: cached_def)

lemma lists_ok_table: "lists_ok held (c\<lparr>lc_table := t\<rparr>) = lists_ok held c"
proof -
  have "handle_ok held (c\<lparr>lc_table := t\<rparr>) p = handle_ok held c p" for p by (cases "lc_handles c p") (simp_all add: handle_ok_def cached_def)
  then show ?thesis by (simp add: lists_ok_def cached_def)
qed

text \<open>An operation on one handle leaves all others as they are.\<close>

definition same_but :: "nat \<Rightarrow> nat multiset \<Rightarrow> 'v LRUCache \<Rightarrow> nat multiset \<Rightarrow> 'v LRUCache \<Rightarrow> bool" where
  "same_but p held c held' c' \<longleftrightarrow>
     (\<forall>q. q \<noteq> p \<longrightarrow> lc_handles c' q = lc_handles c q \<and> (q \<in> set (lc_lru c') \<longleftrightarrow> q \<in> set (lc_lru c)) \<and>
        (q \<in> set (lc_in_use c') \<longleftrightarrow> q \<in> set (lc_in_use c)) \<and> count held' q = count held q)"

definition own_charge :: "'v LRUCache \<Rightarrow> nat \<Rightarrow> uint64" where
  "own_charge c p = (if p \<in> cached c then charge_of (lc_handles c) p else 0)"

lemma lists_ok_change:
  assumes "lists_ok held c" "same_but p held c held' c'" "distinct (lc_lru c')" "distinct (lc_in_use c')" "lc_next c \<le> lc_next c'"
    and "handle_ok held' c' p" "lc_usage c' - own_charge c' p = lc_usage c - own_charge c p"
  shows "lists_ok held' c'"
proof -
  have s: "lc_handles c' q = lc_handles c q" "q \<in> set (lc_lru c') \<longleftrightarrow> q \<in> set (lc_lru c)" "q \<in> set (lc_in_use c') \<longleftrightarrow> q \<in> set (lc_in_use c)"
      "count held' q = count held q" if "q \<noteq> p" for q
    using assms(2) that by (auto simp: same_but_def)
  have "handle_ok held' c' q" for q
  proof (cases "q = p")
    case False
    have "handle_ok held c q" using assms(1) by (simp add: lists_ok_def)
    then show ?thesis using s [OF False] assms(5) by (auto simp: handle_ok_def cached_def split: option.splits)
  qed (use assms(6) in simp)
  moreover have "lc_usage c' = (\<Sum>q \<in> cached c'. charge_of (lc_handles c') q)"
  proof -
    have own: "(\<Sum>q \<in> cached x. charge_of (lc_handles x) q) = own_charge x p + (\<Sum>q \<in> cached x - {p}. charge_of (lc_handles x) q)" for x :: "'a LRUCache"
      by (simp add: own_charge_def sum.remove)
    have "cached c' - {p} = cached c - {p}" using s(2,3) by (auto simp: cached_def)
    then have "(\<Sum>q \<in> cached c' - {p}. charge_of (lc_handles c') q) = (\<Sum>q \<in> cached c - {p}. charge_of (lc_handles c) q)"
      using s(1) by (intro sum.cong) (auto simp: charge_of_def)
    then show ?thesis using assms(1,7) own [of c] own [of c'] by (simp add: lists_ok_def algebra_simps)
  qed
  ultimately show ?thesis using assms(3,4) by (simp add: lists_ok_def)
qed

lemma handle_okD: "shard_ok held c \<Longrightarrow> handle_ok held c p" "lists_ok held c \<Longrightarrow> handle_ok held c p"
  by (simp_all add: shard_ok_def lists_ok_def)

lemma lists_distinct: "lists_ok held c \<Longrightarrow> distinct (lc_lru c) \<and> distinct (lc_in_use c)"
  by (simp add: lists_ok_def)

lemma cached_handle:
  assumes "lists_ok held c" "p \<in> cached c"
  obtains h where "lc_handles c p = Some h" "lh_in_cache h" "p < lc_next c" "unat (lh_refs h) = count held p + 1"
    "p \<in> set (lc_lru c) \<longleftrightarrow> count held p = 0" "p \<in> set (lc_in_use c) \<longleftrightarrow> count held p \<noteq> 0"
  using handle_okD(2) [OF assms(1), of p] assms(2) by (auto simp: handle_ok_def cached_def split: option.splits if_splits)

lemma refs_one: "unat (x :: uint32) = n + 1 \<Longrightarrow> x = 1 \<longleftrightarrow> n = 0" "unat (x :: uint32) = n + 1 \<Longrightarrow> unat (x - 1) = n"
proof -
  assume a: "unat x = n + 1"
  have "x = 1 \<longleftrightarrow> unat x = 1" by (metis unat_1 unsigned_1 word_unat_eq_iff)
  then show "x = 1 \<longleftrightarrow> n = 0" using a by simp
  have "x \<noteq> 0" using a by auto
  then show "unat (x - 1) = n" using a unat_minus_one [of x] by simp
qed

subsection \<open>Operations of a shard\<close>

text \<open>An entry that was taken out of the table is taken off its list; its memory is freed when nobody uses it.\<close>

lemma FinishErase_ok:
  assumes "lists_ok held c" "p \<in> cached c"
  obtains c' where "FinishErase (Some p) c = Some (True, c')" "lists_ok held c'" "same_but p held c held c'" "cached c' = cached c - {p}"
    "lc_table c' = lc_table c" "lc_capacity c' = lc_capacity c" "lc_next c' = lc_next c" "lc_lru c' = remove1 p (lc_lru c)"
proof -
  obtain h where h: "lc_handles c p = Some h" "lh_in_cache h" "p < lc_next c" "unat (lh_refs h) = count held p + 1"
      "p \<in> set (lc_lru c) \<longleftrightarrow> count held p = 0" "p \<in> set (lc_in_use c) \<longleftrightarrow> count held p \<noteq> 0"
    by (rule cached_handle [OF assms])
  note d = lists_distinct [OF assms(1)] and refs = refs_one [OF h(4)]
  have z: "lh_refs h - 1 = 0 \<longleftrightarrow> count held p = 0" using refs(2) by (metis unat_eq_zero)
  obtain c' where c': "FinishErase (Some p) c = Some (True, c')" using h(1) by (auto simp: FinishErase_def LRU_Remove_def Cache_Unref_def Let_def)
  have e: "lc_lru c' = remove1 p (lc_lru c)" "lc_in_use c' = remove1 p (lc_in_use c)" "lc_usage c' = lc_usage c - lh_charge h" "lc_table c' = lc_table c"
      "lc_capacity c' = lc_capacity c" "lc_next c' = lc_next c"
      "lc_handles c' = (lc_handles c)(p := if count held p = 0 then None else Some (h\<lparr>lh_in_cache := False, lh_refs := lh_refs h - 1\<rparr>))"
    using c' h(1) z by (auto simp: FinishErase_def LRU_Remove_def Cache_Unref_def Let_def split: if_splits)
  have s: "same_but p held c held c'" using d by (auto simp: same_but_def e)
  have "lists_ok held c'"
  proof (rule lists_ok_change [OF assms(1) s])
    show "handle_ok held c' p" using d h(3) refs(2) z by (auto simp: handle_ok_def cached_def e)
    show "lc_usage c' - own_charge c' p = lc_usage c - own_charge c p"
      using assms(2) d h(1) by (simp add: own_charge_def charge_of_def cached_def e)
  qed (use d in \<open>simp_all add: e\<close>)
  then show thesis using that c' s d by (auto simp: e cached_def)
qed

text \<open>What a table sees of a handle, and the operations that keep it.\<close>

definition handle_ident :: "'v LRUHandle \<Rightarrow> byte list \<times> uint32 \<times> 'v" where
  "handle_ident h = (lh_key h, lh_hash h, lh_value h)"

definition cache_keeps :: "'v LRUCache \<Rightarrow> 'v LRUCache \<Rightarrow> bool" where
  "cache_keeps c c' \<longleftrightarrow> cached c' \<subseteq> cached c \<and> (\<forall>p \<in> cached c'. map_option handle_ident (lc_handles c' p) = map_option handle_ident (lc_handles c p)) \<and>
     lc_capacity c' = lc_capacity c \<and> lc_next c' = lc_next c"

lemma cache_keeps_refl [simp]: "cache_keeps c c"
  by (simp add: cache_keeps_def)

lemma cache_keeps_trans: "cache_keeps a b \<Longrightarrow> cache_keeps b c \<Longrightarrow> cache_keeps a c"
  by (fastforce simp: cache_keeps_def)

lemma table_ok_cache_keeps:
  assumes "table_ok (lc_handles c) t" "cache_keeps c c'" "set (addresses t) \<subseteq> cached c'"
  shows "table_ok (lc_handles c') t"
proof (rule table_ok_cong [OF assms(1)])
  fix p assume "p \<in> set (addresses t)"
  then have "map_option handle_ident (lc_handles c' p) = map_option handle_ident (lc_handles c p)" using assms(2,3) by (auto simp: cache_keeps_def)
  then show "map_option (\<lambda>h. (lh_hash h, lh_key h)) (lc_handles c' p) = map_option (\<lambda>h. (lh_hash h, lh_key h)) (lc_handles c p)"
    by (cases "lc_handles c' p"; cases "lc_handles c p") (auto simp: handle_ident_def)
qed

lemma shard_ok_cache_keeps:
  assumes "shard_ok held c" "lists_ok held' c'" "cache_keeps c c'" "cached c' = cached c" "lc_table c' = lc_table c"
  shows "shard_ok held' c'"
  using assms table_ok_cache_keeps [of c "lc_table c" c'] by (simp add: shard_ok_def)

lemma Cache_Ref_ok:
  assumes "shard_ok held c" "p \<in> cached c" "count held p + 2 < 2 ^ 32"
  obtains c' where "Cache_Ref p c = Some c'" "shard_ok (add_mset p held) c'" "cache_keeps c c'" "cached c' = cached c" "lc_table c' = lc_table c" "lc_usage c' = lc_usage c"
    "lc_lru c' = remove1 p (lc_lru c)"
proof -
  have l: "lists_ok held c" using assms(1) by (simp add: shard_ok_def)
  obtain h where h: "lc_handles c p = Some h" "lh_in_cache h" "p < lc_next c" "unat (lh_refs h) = count held p + 1"
      "p \<in> set (lc_lru c) \<longleftrightarrow> count held p = 0" "p \<in> set (lc_in_use c) \<longleftrightarrow> count held p \<noteq> 0"
    by (rule cached_handle [OF l assms(2)])
  note d = lists_distinct [OF l] and refs = refs_one(1) [OF h(4)]
  have u: "unat (lh_refs h + 1) = count held p + 2" using h(4) assms(3) by (simp add: unat_word_ariths(1))
  then have nz: "lh_refs h + 1 \<noteq> 0" by (metis add_2_eq_Suc' nat.distinct(1) unsigned_0)
  obtain c' where c': "Cache_Ref p c = Some c'" using h(1) by (simp add: Cache_Ref_def Let_def)
  have e: "lc_lru c' = remove1 p (lc_lru c)" "lc_in_use c' = (if count held p = 0 then lc_in_use c @ [p] else lc_in_use c)" "lc_usage c' = lc_usage c"
      "lc_table c' = lc_table c" "lc_capacity c' = lc_capacity c" "lc_next c' = lc_next c" "lc_handles c' = (lc_handles c)(p \<mapsto> h\<lparr>lh_refs := lh_refs h + 1\<rparr>)"
    using c' h(1,2,5,6) refs by (auto simp: Cache_Ref_def LRU_Remove_def LRU_Append_in_use_def Let_def remove1_idem split: if_splits)
  have s: "same_but p held c (add_mset p held) c'" using d by (auto simp: same_but_def e)
  have ca: "cached c' = cached c" using d h(5,6) assms(2) by (auto simp: cached_def e)
  have "lists_ok (add_mset p held) c'"
  proof (rule lists_ok_change [OF l s])
    show "handle_ok (add_mset p held) c' p" using d h(2,3,6) u nz by (auto simp: handle_ok_def e)
    show "lc_usage c' - own_charge c' p = lc_usage c - own_charge c p" using h(1) ca by (simp add: own_charge_def charge_of_def e)
  qed (use d h(6) in \<open>simp_all add: e\<close>)
  moreover have "cache_keeps c c'" using ca h(1) by (auto simp: cache_keeps_def e handle_ident_def)
  ultimately show thesis using that [OF c'] shard_ok_cache_keeps [OF assms(1)] ca e by blast
qed

lemma Cache_Unref_ok:
  assumes "shard_ok held c" "p \<in># held"
  obtains c' where "Cache_Unref p c = Some c'" "shard_ok (held - {#p#}) c'" "cache_keeps c c'" "cached c' = cached c" "lc_table c' = lc_table c" "lc_usage c' = lc_usage c"
    "lc_lru c' = (if p \<in> cached c \<and> count held p = 1 then lc_lru c @ [p] else lc_lru c)"
proof -
  have l: "lists_ok held c" using assms(1) by (simp add: shard_ok_def)
  obtain n where n: "count held p = Suc n" using assms(2) by (metis count_eq_zero_iff not0_implies_Suc)
  have cnt: "count held p \<noteq> 0" using n by simp
  obtain h where h: "lc_handles c p = Some h" "p < lc_next c" "unat (lh_refs h) = count held p + (if lh_in_cache h then 1 else 0)" "p \<notin> set (lc_lru c)"
      "p \<in> set (lc_in_use c) \<longleftrightarrow> lh_in_cache h"
    using handle_okD(2) [OF l, of p] cnt by (auto simp: handle_ok_def split: option.splits)
  note d = lists_distinct [OF l]
  have u: "unat (lh_refs h - 1) = count held p - 1 + (if lh_in_cache h then 1 else 0)"
    using refs_one(2) [of "lh_refs h" "count held p - 1 + (if lh_in_cache h then 1 else 0)"] h(3) cnt by simp
  then have z: "lh_refs h - 1 = 0 \<longleftrightarrow> \<not> lh_in_cache h \<and> count held p = 1" using n by (auto simp: unat_eq_zero split: if_splits)
  have o: "lh_refs h - 1 = 1 \<longleftrightarrow> unat (lh_refs h - 1) = 1" by (metis unat_1 word_unat_eq_iff)
  have o: "lh_in_cache h \<and> lh_refs h - 1 = 1 \<longleftrightarrow> lh_in_cache h \<and> count held p = 1" unfolding o using u cnt by auto
  have pc: "p \<in> cached c \<longleftrightarrow> lh_in_cache h" using h(4,5) by (simp add: cached_def)
  obtain c' where c': "Cache_Unref p c = Some c'" using h(1) by (simp add: Cache_Unref_def Let_def)
  have e: "lc_lru c' = (if p \<in> cached c \<and> count held p = 1 then lc_lru c @ [p] else lc_lru c)"
      "lc_in_use c' = (if p \<in> cached c \<and> count held p = 1 then remove1 p (lc_in_use c) else lc_in_use c)" "lc_usage c' = lc_usage c"
      "lc_table c' = lc_table c" "lc_capacity c' = lc_capacity c" "lc_next c' = lc_next c"
      "lc_handles c' = (lc_handles c)(p := if p \<notin> cached c \<and> count held p = 1 then None else Some (h\<lparr>lh_refs := lh_refs h - 1\<rparr>))"
    unfolding pc using c' h(1,4) z o by (auto simp: Cache_Unref_def LRU_Remove_def LRU_Append_lru_def Let_def remove1_idem split: if_splits)
  have s: "same_but p held c (held - {#p#}) c'" using d by (auto simp: same_but_def e)
  have ca: "cached c' = cached c" using d h(4,5) pc by (auto simp: cached_def e)
  have "lists_ok (held - {#p#}) c'"
  proof (rule lists_ok_change [OF l s])
    show "handle_ok (held - {#p#}) c' p" using d h n u z pc by (auto simp: handle_ok_def e ca)
    show "lc_usage c' - own_charge c' p = lc_usage c - own_charge c p" using h(1) ca by (simp add: own_charge_def charge_of_def e)
  qed (use d h in \<open>simp_all add: e\<close>)
  moreover have "cache_keeps c c'" using ca h(1) by (auto simp: cache_keeps_def e handle_ident_def)
  ultimately show thesis using that [OF c'] shard_ok_cache_keeps [OF assms(1)] ca e by blast
qed

subsection \<open>The cache as a map\<close>

text \<open>The value under a key, as a search through the two lists finds it.\<close>

definition entry_list :: "'v LRUCache \<Rightarrow> ((byte list \<times> uint32) \<times> 'v) list" where
  "entry_list c = List.map_filter (\<lambda>p. map_option (\<lambda>h. ((lh_key h, lh_hash h), lh_value h)) (lc_handles c p)) (lc_lru c @ lc_in_use c)"

definition entry_of :: "'v LRUCache \<Rightarrow> byte list \<times> uint32 \<Rightarrow> 'v option" where
  "entry_of c k = map_of (entry_list c) k"

lemma in_entry_list: "(k, v) \<in> set (entry_list c) \<longleftrightarrow> (\<exists>p \<in> cached c. map_option handle_ident (lc_handles c p) = Some (fst k, snd k, v))"
  by (cases k) (force simp: entry_list_def cached_def map_filter_def handle_ident_def split: option.splits)

lemma cached_unique:
  assumes "shard_ok held c" "p \<in> cached c" "q \<in> cached c" "map_option handle_ident (lc_handles c p) = Some (key, hash, v)"
    "map_option handle_ident (lc_handles c q) = Some (key, hash, w)"
  shows "p = q"
  using assms unfolding shard_ok_def table_ok_def unique_keys_def has_key_def handle_ident_def by auto

lemma entry_of_Some:
  assumes "shard_ok held c"
  shows "entry_of c k = Some v \<longleftrightarrow> (\<exists>p \<in> cached c. map_option handle_ident (lc_handles c p) = Some (fst k, snd k, v))"
proof -
  have "entry_of c k = Some v" if kv: "(k, v) \<in> set (entry_list c)"
  proof -
    obtain w where w: "entry_of c k = Some w" "(k, w) \<in> set (entry_list c)"
      using kv by (metis domIff entry_of_def map_of_SomeD map_of_eq_None_iff option.exhaust fst_conv image_eqI)
    then have "w = v" using kv cached_unique [OF assms] unfolding in_entry_list by (metis option.inject prod.inject)
    then show ?thesis using w by simp
  qed
  then show ?thesis unfolding in_entry_list [symmetric] by (auto simp: entry_of_def dest: map_of_SomeD)
qed

text \<open>The hash table finds what is there.\<close>

lemma found_entry:
  assumes "shard_ok held c" "found_at (lc_handles c) (lc_table c) key hash r"
  shows "case r of None \<Rightarrow> entry_of c (key, hash) = None
    | Some p \<Rightarrow> p \<in> cached c \<and> (\<exists>h. lc_handles c p = Some h \<and> lh_key h = key \<and> lh_hash h = hash \<and> entry_of c (key, hash) = Some (lh_value h))"
proof (cases r)
  case None
  have "entry_of c (key, hash) \<noteq> Some v" for v
    using assms None unfolding entry_of_Some [OF assms(1)] by (auto simp: shard_ok_def found_at_def has_key_def handle_ident_def)
  then show ?thesis using None by auto
next
  case (Some p)
  then obtain h where h: "p \<in> cached c" "lc_handles c p = Some h" "lh_key h = key" "lh_hash h = hash"
    using assms by (auto simp: shard_ok_def found_at_def has_key_def)
  then have "entry_of c (key, hash) = Some (lh_value h)" unfolding entry_of_Some [OF assms(1)] by (intro bexI [of _ p]) (simp_all add: handle_ident_def)
  then show ?thesis using Some h by simp
qed

lemma entry_of_cache_keeps: "shard_ok held c \<Longrightarrow> shard_ok held' c' \<Longrightarrow> cache_keeps c c' \<Longrightarrow> entry_of c' k = Some v \<Longrightarrow> entry_of c k = Some v"
  by (auto simp: entry_of_Some cache_keeps_def)

lemma entry_of_same:
  assumes "shard_ok held c" "shard_ok held' c'" "cache_keeps c c'" "cached c' = cached c"
  shows "entry_of c' = entry_of c"
proof
  fix k
  have "entry_of c' k = Some v \<longleftrightarrow> entry_of c k = Some v" for v using assms by (auto simp: entry_of_Some cache_keeps_def)
  then show "entry_of c' k = entry_of c k" by (metis option.exhaust)
qed

lemma found_cached:
  assumes "shard_ok held c" "p \<in> cached c" "lc_handles c p = Some h" "found_at (lc_handles c) (lc_table c) (lh_key h) (lh_hash h) r"
  shows "r = Some p"
  using assms by (intro found_unique [OF _ _ assms(4)]) (auto simp: shard_ok_def found_at_def has_key_def)

lemma LRU_Lookup_ok:
  assumes "shard_ok held c" "\<And>p. count held p + 2 < 2 ^ 32"
  obtains e c' where "LRU_Lookup key hash c = Some (e, c')" "shard_ok (held + mset_set (set_option e)) c'" "cache_keeps c c'" "cached c' = cached c"
    "lc_usage c' = lc_usage c" "case e of None \<Rightarrow> entry_of c (key, hash) = None
      | Some p \<Rightarrow> p \<in> cached c \<and> (\<exists>h. lc_handles c' p = Some h \<and> lh_key h = key \<and> lh_hash h = hash \<and> entry_of c (key, hash) = Some (lh_value h))"
proof -
  have t: "table_ok (lc_handles c) (lc_table c)" using assms(1) by (simp add: shard_ok_def)
  obtain r where r: "Handle_Lookup (lc_handles c) (lc_table c) key hash = Some r" "found_at (lc_handles c) (lc_table c) key hash r"
    by (rule Handle_Lookup_ok [OF t])
  note f = found_entry [OF assms(1) r(2)]
  show thesis
  proof (cases r)
    case None
    then show thesis using that [of None c] r f assms(1) by (simp add: LRU_Lookup_def)
  next
    case (Some p)
    then obtain h where h: "p \<in> cached c" "lc_handles c p = Some h" "lh_key h = key" "lh_hash h = hash" "entry_of c (key, hash) = Some (lh_value h)"
      using f by auto
    obtain c' where c': "Cache_Ref p c = Some c'" "shard_ok (add_mset p held) c'" "cache_keeps c c'" "cached c' = cached c" "lc_usage c' = lc_usage c"
      by (rule Cache_Ref_ok [OF assms(1) h(1) assms(2)])
    have "map_option handle_ident (lc_handles c' p) = map_option handle_ident (Some h)" using c'(3,4) h(1,2) by (auto simp: cache_keeps_def)
    then obtain h' where "lc_handles c' p = Some h'" "handle_ident h' = handle_ident h" by (cases "lc_handles c' p") auto
    then show thesis using that [of "Some p" c'] c' r(1) Some h by (simp add: LRU_Lookup_def handle_ident_def)
  qed
qed

lemma LRU_Erase_ok:
  assumes "shard_ok held c"
  obtains r c' where "LRU_Erase key hash c = Some c'" "found_at (lc_handles c) (lc_table c) key hash r" "shard_ok held c'" "cache_keeps c c'"
    "cached c' = cached c - set_option r" "lc_lru c' = (case r of None \<Rightarrow> lc_lru c | Some p \<Rightarrow> remove1 p (lc_lru c))" "\<forall>q. r \<noteq> Some q \<longrightarrow> lc_handles c' q = lc_handles c q"
proof -
  have l: "lists_ok held c" "table_ok (lc_handles c) (lc_table c)" "set (addresses (lc_table c)) = cached c" using assms(1) by (simp_all add: shard_ok_def)
  obtain r t where r: "Handle_Remove (lc_handles c) (lc_table c) key hash = Some (r, t)" "table_ok (lc_handles c) t"
      "found_at (lc_handles c) (lc_table c) key hash r" "set (addresses t) = cached c - set_option r"
    using Handle_Remove_ok [OF l(2)] l(3) by metis
  let ?c = "c\<lparr>lc_table := t\<rparr>"
  have c: "lists_ok held ?c" "cached ?c = cached c" using l(1) by (simp_all add: lists_ok_table cached_def)
  show thesis
  proof (cases r)
    case None
    then show thesis using that [of ?c None] r c l by (simp add: LRU_Erase_def FinishErase_def shard_ok_def cache_keeps_def)
  next
    case (Some p)
    have p: "p \<in> cached ?c" using r(3) Some l(3) c(2) by (simp add: found_at_def)
    obtain c' where c': "FinishErase (Some p) ?c = Some (True, c')" "lists_ok held c'" "same_but p held ?c held c'" "cached c' = cached ?c - {p}"
        "lc_table c' = t" "lc_capacity c' = lc_capacity c" "lc_next c' = lc_next c" "lc_lru c' = remove1 p (lc_lru c)"
      by (rule FinishErase_ok [OF c(1) p]) simp
    have H: "lc_handles c' q = lc_handles c q" if "q \<noteq> p" for q using c'(3) that by (simp add: same_but_def)
    have k: "cache_keeps c c'" using c'(4,6,7) H c(2) by (auto simp: cache_keeps_def)
    moreover have "table_ok (lc_handles c') t" using table_ok_cache_keeps [OF r(2) k] r(4) c'(4) c(2) Some by simp
    ultimately show thesis using that [of c' r] c' r c H Some by (simp add: LRU_Erase_def shard_ok_def)
  qed
qed

text \<open>The loop ends: every round takes the oldest entry off the list.  It evicts from the oldest on, and no more than it has to.\<close>

lemma evict_while_ok:
  assumes "shard_ok held c"
  shows "\<exists>n c'. evict_while keep_on c = Some c' \<and> shard_ok held c' \<and> cache_keeps c c' \<and> lc_lru c' = drop n (lc_lru c) \<and> cached c' = cached c - set (take n (lc_lru c)) \<and>
    (lc_lru c' = [] \<or> \<not> keep_on (lc_usage c')) \<and> (\<forall>q. q \<notin> set (take n (lc_lru c)) \<longrightarrow> lc_handles c' q = lc_handles c q)"
  using assms
proof (induction "length (lc_lru c)" arbitrary: c rule: less_induct)
  case less
  show ?case
  proof (cases "lc_lru c")
    case Nil
    then show ?thesis using less.prems by (intro exI [of _ 0] exI [of _ c]) (simp add: evict_while.simps [of _ c])
  next
    case (Cons old rest)
    show ?thesis
    proof (cases "keep_on (lc_usage c)")
      case False
      then show ?thesis using less.prems Cons by (intro exI [of _ 0] exI [of _ c]) (simp add: evict_while.simps [of _ c])
    next
      case True
      have old: "old \<in> cached c" "lists_ok held c" using Cons less.prems by (auto simp: cached_def shard_ok_def)
      then obtain h where h: "lc_handles c old = Some h" using cached_handle by metis
      obtain r c1 where c1: "LRU_Erase (lh_key h) (lh_hash h) c = Some c1" "found_at (lc_handles c) (lc_table c) (lh_key h) (lh_hash h) r" "shard_ok held c1" "cache_keeps c c1"
          "cached c1 = cached c - set_option r" "lc_lru c1 = (case r of None \<Rightarrow> lc_lru c | Some p \<Rightarrow> remove1 p (lc_lru c))"
          "\<forall>q. r \<noteq> Some q \<longrightarrow> lc_handles c1 q = lc_handles c q"
        by (rule LRU_Erase_ok [OF less.prems, where key = "lh_key h" and hash = "lh_hash h"])
      have r: "r = Some old" by (rule found_cached [OF less.prems old(1) h c1(2)])
      have l: "lc_lru c1 = rest" using c1(6) r Cons by simp
      then obtain n c' where c': "evict_while keep_on c1 = Some c'" "shard_ok held c'" "cache_keeps c1 c'" "lc_lru c' = drop n rest" "cached c' = cached c1 - set (take n rest)"
          "lc_lru c' = [] \<or> \<not> keep_on (lc_usage c')" "\<forall>q. q \<notin> set (take n rest) \<longrightarrow> lc_handles c' q = lc_handles c1 q"
        using less.hyps [OF _ c1(3)] Cons by auto
      have "evict_while keep_on c = Some c'" using Cons True h c1(1) c'(1) by (simp add: evict_while.simps [of _ c])
      then show ?thesis using c' c1(5,7) r Cons cache_keeps_trans [OF c1(4) c'(3)] by (intro exI [of _ "Suc n"] exI [of _ c']) auto
    qed
  qed
qed

text \<open>A new handle that is not in the cache, and one that is put into it.\<close>

lemma fresh_handle: "shard_ok held c \<Longrightarrow> lc_handles c (lc_next c) = None \<and> lc_next c \<notin> cached c \<and> count held (lc_next c) = 0"
  using handle_okD(1) [of held c "lc_next c"] by (auto simp: handle_ok_def split: option.splits)

definition new_handle :: "byte list \<Rightarrow> uint32 \<Rightarrow> 'v \<Rightarrow> uint64 \<Rightarrow> bool \<Rightarrow> 'v LRUHandle" where
  "new_handle key hash v charge cache = \<lparr>lh_value = v, lh_charge = charge, lh_key = key, lh_in_cache = cache, lh_refs = (if cache then 2 else 1), lh_hash = hash\<rparr>"

lemma uncached_ok:
  assumes "shard_ok held c"
  shows "shard_ok (add_mset (lc_next c) held) (c\<lparr>lc_next := lc_next c + 1, lc_handles := (lc_handles c)(lc_next c \<mapsto> new_handle key hash v charge False)\<rparr>)"
    (is "shard_ok ?held ?c")
proof -
  let ?e = "lc_next c"
  note f = fresh_handle [OF assms]
  have l: "lists_ok held c" using assms by (simp add: shard_ok_def)
  have ca: "cached ?c = cached c" by (simp add: cached_def)
  have "lists_ok ?held ?c"
  proof (rule lists_ok_change [OF l, of ?e])
    show "same_but ?e held c ?held ?c" by (simp add: same_but_def)
    show "handle_ok ?held ?c ?e" using f by (auto simp: handle_ok_def new_handle_def cached_def)
    show "lc_usage ?c - own_charge ?c ?e = lc_usage c - own_charge c ?e" using f ca by (simp add: own_charge_def)
  qed (use lists_distinct [OF l] in simp_all)
  moreover have "table_ok (lc_handles ?c) (lc_table c)"
    by (rule table_ok_cong [of "lc_handles c"]) (use assms f in \<open>auto simp: shard_ok_def\<close>)
  ultimately show ?thesis using assms ca by (simp add: shard_ok_def)
qed

definition put_in_use :: "byte list \<Rightarrow> uint32 \<Rightarrow> 'v \<Rightarrow> uint64 \<Rightarrow> 'v LRUCache \<Rightarrow> 'v LRUCache" where
  "put_in_use key hash v charge c =
     c\<lparr>lc_next := lc_next c + 1, lc_handles := (lc_handles c)(lc_next c \<mapsto> new_handle key hash v charge True), lc_in_use := lc_in_use c @ [lc_next c],
       lc_usage := lc_usage c + charge\<rparr>"

lemma put_in_use_ok:
  assumes "shard_ok held c"
  shows "lists_ok (add_mset (lc_next c) held) (put_in_use key hash v charge c)" (is "lists_ok ?held ?c")
    and "table_ok (lc_handles (put_in_use key hash v charge c)) (lc_table c)"
proof -
  let ?e = "lc_next c"
  note f = fresh_handle [OF assms]
  have l: "lists_ok held c" using assms by (simp add: shard_ok_def)
  show "lists_ok ?held ?c"
  proof (rule lists_ok_change [OF l, of ?e])
    show "same_but ?e held c ?held ?c" by (simp add: same_but_def put_in_use_def)
    show "handle_ok ?held ?c ?e" using f by (auto simp: handle_ok_def new_handle_def cached_def put_in_use_def)
    show "lc_usage ?c - own_charge ?c ?e = lc_usage c - own_charge c ?e"
      using f by (simp add: own_charge_def charge_of_def put_in_use_def cached_def new_handle_def)
  qed (use lists_distinct [OF l] f in \<open>simp_all add: put_in_use_def cached_def\<close>)
  show "table_ok (lc_handles ?c) (lc_table c)"
    by (rule table_ok_cong [of "lc_handles c"]) (use assms f in \<open>auto simp: shard_ok_def put_in_use_def\<close>)
qed

text \<open>The new entry is in the table under its key, in place of the one that was there.\<close>

lemma insert_handle_ok:
  assumes "shard_ok held c"
  obtains old t b c' where "Handle_Insert (lc_handles (put_in_use key hash v charge c)) (lc_table c) (lc_next c) = Some (old, t)"
    "FinishErase old ((put_in_use key hash v charge c)\<lparr>lc_table := t\<rparr>) = Some (b, c')" "shard_ok (add_mset (lc_next c) held) c'"
    "lc_capacity c' = lc_capacity c" "lc_next c' = lc_next c + 1" "lc_next c \<in> cached c'" "lc_handles c' (lc_next c) = Some (new_handle key hash v charge True)"
    "cached c' \<subseteq> insert (lc_next c) (cached c)" "\<forall>q \<in> cached c'. q \<noteq> lc_next c \<longrightarrow> lc_handles c' q = lc_handles c q"
    "\<forall>q \<in> cached c. \<forall>h. lc_handles c q = Some h \<longrightarrow> (lh_key h, lh_hash h) \<noteq> (key, hash) \<longrightarrow> q \<in> cached c'"
proof -
  let ?e = "lc_next c" and ?c = "put_in_use key hash v charge c" and ?h = "new_handle key hash v charge True"
  note f = fresh_handle [OF assms] and p = put_in_use_ok [OF assms, of key hash v charge]
  have a: "set (addresses (lc_table c)) = cached c" using assms by (simp add: shard_ok_def)
  have e: "lc_handles ?c ?e = Some ?h" "?e \<notin> set (addresses (lc_table c))" using f a by (simp_all add: put_in_use_def)
  obtain old t where i: "Handle_Insert (lc_handles ?c) (lc_table c) ?e = Some (old, t)" "table_ok (lc_handles ?c) t" "found_at (lc_handles ?c) (lc_table c) key hash old"
      "set (addresses t) = insert ?e (cached c - set_option old)"
    using Handle_Insert_ok [OF p(2) e] a by (auto simp: new_handle_def)
  let ?t = "?c\<lparr>lc_table := t\<rparr>"
  have l: "lists_ok (add_mset ?e held) ?t" "cached ?t = insert ?e (cached c)" "lc_handles ?t = lc_handles ?c" "lc_capacity ?t = lc_capacity c" "lc_next ?t = ?e + 1"
    using p(1) by (auto simp: lists_ok_table cached_def put_in_use_def)
  have H: "lc_handles ?c q = lc_handles c q" if "q \<noteq> ?e" for q using that by (simp add: put_in_use_def)
  show thesis
  proof (cases old)
    case None
    then show thesis using that [OF i(1), of False ?t] i l e(1) H by (auto simp: FinishErase_def shard_ok_def)
  next
    case (Some p)
    have p: "p \<in> cached c" "has_key (lc_handles ?c) key hash p" "p \<noteq> ?e" using i(3) Some a f by (auto simp: found_at_def)
    obtain c' where c': "FinishErase (Some p) ?t = Some (True, c')" "lists_ok (add_mset ?e held) c'" "same_but p (add_mset ?e held) ?t (add_mset ?e held) c'"
        "cached c' = cached ?t - {p}" "lc_table c' = t" "lc_capacity c' = lc_capacity c" "lc_next c' = ?e + 1"
      by (rule FinishErase_ok [OF l(1), of p]) (use p(1) l in simp_all)
    have H': "lc_handles c' q = lc_handles ?c q" if "q \<noteq> p" for q using c'(3) that l(3) by (simp add: same_but_def)
    have ca: "cached c' = insert ?e (cached c - {p})" using c'(4) l(2) p(3) by auto
    have "table_ok (lc_handles c') t" by (rule table_ok_cong [OF i(2)]) (use H' i(4) Some p(3) in auto)
    then have "shard_ok (add_mset ?e held) c'" using c'(2,5) ca i(4) Some by (simp add: shard_ok_def)
    moreover have "(lh_key h, lh_hash h) = (key, hash)" if "lc_handles c p = Some h" for h using p(2) that H [OF p(3)] by (auto simp: has_key_def)
    ultimately show thesis using that [OF i(1), of True c'] Some c'(1,6,7) ca H H' p e(1) by auto
  qed
qed

lemma LRU_Insert_ok:
  assumes "shard_ok held c"
  obtains c' where "LRU_Insert key hash v charge c = Some (lc_next c, c')" "shard_ok (add_mset (lc_next c) held) c'" "lc_capacity c' = lc_capacity c"
    "lc_next c' = lc_next c + 1" "lc_lru c' = [] \<or> lc_usage c' \<le> lc_capacity c" "map_option handle_ident (lc_handles c' (lc_next c)) = Some (key, hash, v)"
    "lc_next c \<in> cached c' \<longleftrightarrow> 0 < lc_capacity c" "cached c' \<subseteq> insert (lc_next c) (cached c)"
    "\<forall>q \<in> cached c'. q \<noteq> lc_next c \<longrightarrow> lc_handles c' q = lc_handles c q"
proof -
  let ?e = "lc_next c"
  have evict: "\<exists>c'. evict_while (\<lambda>usage. usage > lc_capacity c1) c1 = Some c' \<and> shard_ok held' c' \<and> lc_capacity c' = lc_capacity c1 \<and> lc_next c' = lc_next c1 \<and>
      (lc_lru c' = [] \<or> lc_usage c' \<le> lc_capacity c1) \<and> lc_handles c' ?e = lc_handles c1 ?e \<and> (?e \<in> cached c' \<longleftrightarrow> ?e \<in> cached c1) \<and> cached c' \<subseteq> cached c1 \<and>
      (\<forall>q \<in> cached c'. lc_handles c' q = lc_handles c1 q)" if ok: "shard_ok held' c1" and h: "?e \<in># held'" for held' c1
  proof -
    obtain n c' where c': "evict_while (\<lambda>usage. usage > lc_capacity c1) c1 = Some c'" "shard_ok held' c'" "cache_keeps c1 c'" "lc_lru c' = drop n (lc_lru c1)"
        "cached c' = cached c1 - set (take n (lc_lru c1))" "lc_lru c' = [] \<or> \<not> lc_usage c' > lc_capacity c1"
        "\<forall>q. q \<notin> set (take n (lc_lru c1)) \<longrightarrow> lc_handles c' q = lc_handles c1 q"
      using evict_while_ok [OF ok] by blast
    have "?e \<notin> set (lc_lru c1)" using handle_okD(1) [OF ok, of ?e] h by (auto simp: handle_ok_def cached_def split: option.splits)
    then have "?e \<notin> set (take n (lc_lru c1))" by (meson in_set_takeD)
    then show ?thesis using c' by (intro exI [of _ c']) (auto simp: cache_keeps_def)
  qed
  show thesis
  proof (cases "0 < lc_capacity c")
    case True
    obtain old t b c1 where i: "Handle_Insert (lc_handles (put_in_use key hash v charge c)) (lc_table c) ?e = Some (old, t)"
        "FinishErase old ((put_in_use key hash v charge c)\<lparr>lc_table := t\<rparr>) = Some (b, c1)" "shard_ok (add_mset ?e held) c1"
        "lc_capacity c1 = lc_capacity c" "lc_next c1 = ?e + 1" "?e \<in> cached c1" "lc_handles c1 ?e = Some (new_handle key hash v charge True)"
        "cached c1 \<subseteq> insert ?e (cached c)" "\<forall>q \<in> cached c1. q \<noteq> ?e \<longrightarrow> lc_handles c1 q = lc_handles c q"
      by (rule insert_handle_ok [OF assms, where key = key and hash = hash and v = v and charge = charge])
    obtain c' where c': "evict_while (\<lambda>usage. usage > lc_capacity c1) c1 = Some c'" "shard_ok (add_mset ?e held) c'" "lc_capacity c' = lc_capacity c1" "lc_next c' = lc_next c1"
      "lc_lru c' = [] \<or> lc_usage c' \<le> lc_capacity c1" "lc_handles c' ?e = lc_handles c1 ?e" "?e \<in> cached c' \<longleftrightarrow> ?e \<in> cached c1" "cached c' \<subseteq> cached c1"
      "\<forall>q \<in> cached c'. lc_handles c' q = lc_handles c1 q"
      using evict [OF i(3)] by auto
    have "LRU_Insert key hash v charge c = Some (?e, c')"
      using True i(1,2) c'(1) by (simp add: LRU_Insert_def put_in_use_def new_handle_def LRU_Append_in_use_def Let_def)
    then show thesis using that c' i True by (auto simp: handle_ident_def new_handle_def)
  next
    case False
    let ?c = "c\<lparr>lc_next := ?e + 1, lc_handles := (lc_handles c)(?e \<mapsto> new_handle key hash v charge False)\<rparr>"
    have c: "shard_ok (add_mset ?e held) ?c" "cached ?c = cached c" using uncached_ok [OF assms] by (simp_all add: cached_def)
    obtain c' where c': "evict_while (\<lambda>usage. usage > lc_capacity ?c) ?c = Some c'" "shard_ok (add_mset ?e held) c'" "lc_capacity c' = lc_capacity ?c" "lc_next c' = lc_next ?c"
      "lc_lru c' = [] \<or> lc_usage c' \<le> lc_capacity ?c" "lc_handles c' ?e = lc_handles ?c ?e" "?e \<in> cached c' \<longleftrightarrow> ?e \<in> cached ?c" "cached c' \<subseteq> cached ?c"
      "\<forall>q \<in> cached c'. lc_handles c' q = lc_handles ?c q"
      using evict [OF c(1)] by auto
    have "LRU_Insert key hash v charge c = Some (?e, c')"
      using False c'(1) by (simp add: LRU_Insert_def new_handle_def Let_def)
    then show thesis using that c' c(2) False fresh_handle [OF assms] by (auto simp: handle_ident_def new_handle_def)
  qed
qed

end
