(* ===== verification/Ldb_Cache_Client.thy ===== *)
theory Ldb_Cache_Client
  imports Ldb_Cache_Spec
begin

text \<open>
  Clients of a shard of the cache (\<^verbatim>\<open>util/cache.cc\<close>): any sequence of calls cache_keeps the invariant and touches no freed memory, and the calls work on the cache as on a map
  that may lose entries.  The shards together, for a client that gives its handle back before the next call.
\<close>

subsection \<open>Sequences of calls\<close>

text \<open>\<open>held\<close> are the handles that \<^verbatim>\<open>Insert\<close> and \<^verbatim>\<open>Lookup\<close> gave and that were not released; there are never so many that a reference count wraps around.\<close>

inductive clients :: "uint64 \<Rightarrow> 'v LRUCache \<Rightarrow> nat multiset \<Rightarrow> bool" for capacity where
  start: "clients capacity (SetCapacity capacity new_LRUCache) {#}"
| insert: "clients capacity c held \<Longrightarrow> LRU_Insert key hash v charge c = Some (e, c') \<Longrightarrow> clients capacity c' (add_mset e held)"
| lookup: "clients capacity c held \<Longrightarrow> size held + 2 < 2 ^ 32 \<Longrightarrow> LRU_Lookup key hash c = Some (e, c') \<Longrightarrow>
    clients capacity c' (held + mset_set (set_option e))"
| release: "clients capacity c held \<Longrightarrow> e \<in># held \<Longrightarrow> LRU_Release e c = Some c' \<Longrightarrow> clients capacity c' (held - {#e#})"
| erase: "clients capacity c held \<Longrightarrow> LRU_Erase key hash c = Some c' \<Longrightarrow> clients capacity c' held"
| prune: "clients capacity c held \<Longrightarrow> LRU_Prune c = Some c' \<Longrightarrow> clients capacity c' held"

lemma new_shard_ok: "shard_ok {#} (SetCapacity capacity new_LRUCache)"
  using new_HandleTable_ok by (simp add: shard_ok_def lists_ok_def handle_ok_def cached_def SetCapacity_def new_LRUCache_def)

lemma count_bound: "size held + 2 < 2 ^ 32 \<Longrightarrow> count held p + 2 < 2 ^ 32"
  using count_le_size [of held p] by linarith

lemma clients_ok: "clients capacity c held \<Longrightarrow> shard_ok held c \<and> lc_capacity c = capacity"
proof (induction rule: clients.induct)
  case start
  show ?case using new_shard_ok by (simp add: SetCapacity_def)
next
  case (insert c held key hash v charge e c')
  obtain c1 where "LRU_Insert key hash v charge c = Some (lc_next c, c1)" "shard_ok (add_mset (lc_next c) held) c1" "lc_capacity c1 = lc_capacity c"
    by (rule LRU_Insert_ok [of held c key hash v charge]) (use insert.IH in auto)
  then show ?case using insert by simp
next
  case (lookup c held key hash e c')
  obtain e1 c1 where "LRU_Lookup key hash c = Some (e1, c1)" "shard_ok (held + mset_set (set_option e1)) c1" "cache_keeps c c1"
    by (rule LRU_Lookup_ok [of held c key hash]) (use lookup.IH count_bound [OF lookup.hyps(2)] in auto)
  then show ?case using lookup by (simp add: cache_keeps_def)
next
  case (release c held e c')
  obtain c1 where "Cache_Unref e c = Some c1" "shard_ok (held - {#e#}) c1" "cache_keeps c c1"
    by (rule Cache_Unref_ok [of held c e]) (use release in auto)
  then show ?case using release by (simp add: cache_keeps_def LRU_Release_def)
next
  case (erase c held key hash c')
  obtain c1 where "LRU_Erase key hash c = Some c1" "shard_ok held c1" "cache_keeps c c1"
    by (rule LRU_Erase_ok [of held c key hash]) (use erase in auto)
  then show ?case using erase by (simp add: cache_keeps_def)
next
  case (prune c held c')
  then show ?case using evict_while_ok [of held c "\<lambda>_. True"] by (auto simp: LRU_Prune_def cache_keeps_def)
qed

lemma destroy_loop_frees:
  assumes "distinct es" "\<forall>p. case lc_handles c p of None \<Rightarrow> p \<notin> set es | Some h \<Rightarrow> p \<in> set es \<and> lh_refs h = 1"
  shows "\<exists>c'. destroy_loop es c = Some c' \<and> lc_handles c' = Map.empty"
  using assms
proof (induction es arbitrary: c)
  case Nil
  then show ?case by (auto split: option.splits)
next
  case (Cons e es)
  obtain h where h: "lc_handles c e = Some h" "lh_refs h = 1" using Cons.prems(2) [rule_format, of e] by (auto split: option.splits)
  let ?c = "c\<lparr>lc_deleted := lc_deleted c @ [(lh_key h, lh_value h)], lc_handles := (lc_handles c)(e := None)\<rparr>"
  have "\<exists>c'. destroy_loop es ?c = Some c' \<and> lc_handles c' = Map.empty"
  proof (rule Cons.IH)
    show "distinct es" using Cons.prems(1) by simp
    show "\<forall>p. case lc_handles ?c p of None \<Rightarrow> p \<notin> set es | Some h \<Rightarrow> p \<in> set es \<and> lh_refs h = 1"
    proof
      fix p
      show "case lc_handles ?c p of None \<Rightarrow> p \<notin> set es | Some h \<Rightarrow> p \<in> set es \<and> lh_refs h = 1"
        using Cons.prems(1) Cons.prems(2) [rule_format, of p] by (auto split: option.splits)
    qed
  qed
  then show ?case using h by (simp add: Cache_Unref_def Let_def)
qed

lemma LRU_destroy_frees:
  assumes "shard_ok {#} c"
  shows "\<exists>c'. LRU_destroy c = Some c' \<and> lc_handles c' = Map.empty"
proof (unfold LRU_destroy_def, rule destroy_loop_frees)
  show "distinct (lc_lru c)" using assms by (simp add: shard_ok_def lists_ok_def)
  show "\<forall>p. case lc_handles c p of None \<Rightarrow> p \<notin> set (lc_lru c) | Some h \<Rightarrow> p \<in> set (lc_lru c) \<and> lh_refs h = 1"
  proof
    fix p
    show "case lc_handles c p of None \<Rightarrow> p \<notin> set (lc_lru c) | Some h \<Rightarrow> p \<in> set (lc_lru c) \<and> lh_refs h = 1"
      using handle_okD(1) [OF assms, of p] refs_one(1) [of "lh_refs (the (lc_handles c p))" 0] 
      by (auto simp: handle_ok_def cached_def unat_eq_zero split: option.splits if_splits)
  qed
qed

subsection \<open>The calls on the map\<close>

lemma entry_of_Erase:
  assumes "shard_ok held c" "shard_ok held c'" "cache_keeps c c'" "cached c' = cached c - set_option r" "found_at (lc_handles c) (lc_table c) key hash r"
  shows "entry_of c' = (entry_of c)((key, hash) := None)"
proof
  fix k
  note f = found_entry [OF assms(1,5)]
  have gone: "map_option handle_ident (lc_handles c p) \<noteq> Some (key, hash, v)" if p: "p \<in> cached c'" for p v
  proof (cases r)
    case None
    then show ?thesis using f p assms(4) entry_of_Some [OF assms(1), of "(key, hash)" v] by auto
  next
    case (Some q)
    then show ?thesis using f p assms(4) cached_unique [OF assms(1), of q p key hash _ v] by (auto simp: handle_ident_def)
  qed
  have other: "r \<noteq> Some p" if "map_option handle_ident (lc_handles c p) = Some (fst k, snd k, v)" "k \<noteq> (key, hash)" for p v
    using that f by (cases k) (auto simp: handle_ident_def)
  have "entry_of c' k = Some v \<longleftrightarrow> ((entry_of c)((key, hash) := None)) k = Some v" for v
  proof (cases "k = (key, hash)")
    case True
    then show ?thesis using gone assms(3) unfolding entry_of_Some [OF assms(2)] by (auto simp: cache_keeps_def)
  next
    case False
    have "p \<in> cached c'" if "p \<in> cached c" "map_option handle_ident (lc_handles c p) = Some (fst k, snd k, v)" for p using other [OF that(2) False] that(1) assms(4) by (cases r) auto
    then show ?thesis using False assms(3,4) by (auto simp: entry_of_Some [OF assms(1)] entry_of_Some [OF assms(2)] cache_keeps_def)
  qed
  then show "entry_of c' k = ((entry_of c)((key, hash) := None)) k" by (metis option.exhaust)
qed

lemma entry_of_Insert:
  assumes "shard_ok held c" "LRU_Insert key hash v charge c = Some (e, c')"
  shows "entry_of c' \<subseteq>\<^sub>m (if 0 < lc_capacity c then (entry_of c)((key, hash) \<mapsto> v) else entry_of c)" "0 < lc_capacity c \<Longrightarrow> entry_of c' (key, hash) = Some v"
    "lc_lru c' = [] \<or> lc_usage c' \<le> lc_capacity c"
proof -
  obtain c1 where "LRU_Insert key hash v charge c = Some (lc_next c, c1)" "shard_ok (add_mset (lc_next c) held) c1"
      "lc_lru c1 = [] \<or> lc_usage c1 \<le> lc_capacity c" "map_option handle_ident (lc_handles c1 (lc_next c)) = Some (key, hash, v)"
      "lc_next c \<in> cached c1 \<longleftrightarrow> 0 < lc_capacity c" "cached c1 \<subseteq> insert (lc_next c) (cached c)" "\<forall>q \<in> cached c1. q \<noteq> lc_next c \<longrightarrow> lc_handles c1 q = lc_handles c q"
    by (rule LRU_Insert_ok [OF assms(1)])
  then have i: "shard_ok (add_mset e held) c'" "lc_lru c' = [] \<or> lc_usage c' \<le> lc_capacity c" "map_option handle_ident (lc_handles c' e) = Some (key, hash, v)"
      "e \<in> cached c' \<longleftrightarrow> 0 < lc_capacity c" "cached c' \<subseteq> insert e (cached c)" "\<forall>q \<in> cached c'. q \<noteq> e \<longrightarrow> lc_handles c' q = lc_handles c q"
    using assms(2) by auto
  show "lc_lru c' = [] \<or> lc_usage c' \<le> lc_capacity c" by (rule i(2))
  show "entry_of c' (key, hash) = Some v" if "0 < lc_capacity c"
    unfolding entry_of_Some [OF i(1)] using i(3,4) that by auto
  show "entry_of c' \<subseteq>\<^sub>m (if 0 < lc_capacity c then (entry_of c)((key, hash) \<mapsto> v) else entry_of c)"
  proof (unfold map_le_def, intro ballI)
    fix k assume "k \<in> dom (entry_of c')"
    then obtain w p where w: "entry_of c' k = Some w" "p \<in> cached c'" "map_option handle_ident (lc_handles c' p) = Some (fst k, snd k, w)"
      using entry_of_Some [OF i(1), of k] by blast
    show "entry_of c' k = (if 0 < lc_capacity c then (entry_of c)((key, hash) \<mapsto> v) else entry_of c) k"
    proof (cases "p = e")
      case True
      then show ?thesis using w i(3,4) by (cases k) auto
    next
      case False
      then have "entry_of c k = Some w" unfolding entry_of_Some [OF assms(1)] using w i(5,6) by (intro bexI [of _ p]) auto
      moreover have "\<not> (0 < lc_capacity c \<and> k = (key, hash))" using w(2,3) False cached_unique [OF i(1) w(2), of e] i(3,4) by auto
      ultimately show ?thesis using w(1) by auto
    qed
  qed
qed

lemma LRU_Prune_ok:
  assumes "shard_ok held c"
  obtains c' where "LRU_Prune c = Some c'" "shard_ok held c'" "lc_lru c' = []" "entry_of c' \<subseteq>\<^sub>m entry_of c" "lc_capacity c' = lc_capacity c"
proof -
  obtain c' where c': "LRU_Prune c = Some c'" "shard_ok held c'" "lc_lru c' = []" "cache_keeps c c'"
    using evict_while_ok [OF assms, of "\<lambda>_. True"] by (auto simp: LRU_Prune_def)
  then have "entry_of c' \<subseteq>\<^sub>m entry_of c" using entry_of_cache_keeps [OF assms c'(2,4)] by (auto simp: map_le_def)
  then show thesis using that c' by (simp add: cache_keeps_def)
qed

subsection \<open>The shards together\<close>

text \<open>All handles are released.\<close>

definition idle :: "'v ShardedLRUCache \<Rightarrow> bool" where
  "idle c \<longleftrightarrow> length (sc_shard c) = kNumShards \<and> list_all (shard_ok {#}) (sc_shard c)"

definition sharded_entry :: "'v ShardedLRUCache \<Rightarrow> byte list \<Rightarrow> 'v option" where
  "sharded_entry c key = entry_of (sc_shard c ! Shard (HashSlice key)) (key, HashSlice key)"

text \<open>What a client does that looks a block up, uses it and releases it, or inserts it, uses it and releases it.\<close>

definition use_cached :: "'v ShardedLRUCache \<Rightarrow> byte list \<Rightarrow> ('v option \<times> 'v ShardedLRUCache) option" where
  "use_cached c key = do {
     (handle, c) \<leftarrow> Sharded_Lookup key c;
     (case handle of
        None \<Rightarrow> Some (None, c)
      | Some handle \<Rightarrow> do { v \<leftarrow> Sharded_Value handle c; c \<leftarrow> Sharded_Release handle c; Some (Some v, c) })
   }"

definition insert_cached :: "'v ShardedLRUCache \<Rightarrow> byte list \<Rightarrow> 'v \<Rightarrow> uint64 \<Rightarrow> 'v ShardedLRUCache option" where
  "insert_cached c key v charge = do { (handle, c) \<leftarrow> Sharded_Insert key v charge c; Sharded_Release handle c }"

lemma Shard_less: "Shard hash < kNumShards"
proof -
  have "unat hash < 2 ^ 32" using unsigned_less [of hash] by simp
  then show ?thesis by (simp add: Shard_def kNumShards_def kNumShardBits_def unat_drop_bit_eq drop_bit_eq_div unat_div less_mult_imp_div_less)
qed

lemma new_idle: "idle (new_ShardedLRUCache capacity)" "sharded_entry (new_ShardedLRUCache capacity) key = None"
proof -
  show "idle (new_ShardedLRUCache capacity)" by (simp add: idle_def new_ShardedLRUCache_def Let_def new_shard_ok list_all_iff)
  have "entry_of (SetCapacity n new_LRUCache) k = None" for n k by (simp add: entry_of_def entry_list_def SetCapacity_def new_LRUCache_def map_filter_def)
  then show "sharded_entry (new_ShardedLRUCache capacity) key = None"
    using Shard_less [of "HashSlice key"] by (simp add: sharded_entry_def new_ShardedLRUCache_def Let_def)
qed

lemma idle_shard:
  assumes "idle c"
  shows "nth_opt (sc_shard c) (Shard hash) = Some (sc_shard c ! Shard hash)" "shard_ok {#} (sc_shard c ! Shard hash)" "Shard hash < length (sc_shard c)"
  using assms Shard_less [of hash] by (auto simp: idle_def nth_opt_def list_all_iff)

lemma idle_update: "idle c \<Longrightarrow> shard_ok {#} s \<Longrightarrow> idle (c\<lparr>sc_shard := (sc_shard c)[i := s]\<rparr>)"
  by (auto simp: idle_def list_all_iff dest: set_update_subset_insert [THEN subsetD])

text \<open>A handle of the shard of a key is released there.\<close>

lemma Sharded_Release_ok:
  assumes "idle c" "shard_ok {#e#} s" "map_option handle_ident (lc_handles s e) = Some (key, HashSlice key, v)"
  defines "i \<equiv> Shard (HashSlice key)"
  shows "Sharded_Value (i, e) (c\<lparr>sc_shard := (sc_shard c)[i := s]\<rparr>) = Some v"
    and "\<exists>s'. Sharded_Release (i, e) (c\<lparr>sc_shard := (sc_shard c)[i := s]\<rparr>) = Some (c\<lparr>sc_shard := (sc_shard c)[i := s']\<rparr>) \<and> shard_ok {#} s' \<and> entry_of s' = entry_of s"
proof -
  obtain h where h: "lc_handles s e = Some h" "lh_hash h = HashSlice key" "lh_value h = v" using assms(3) by (auto simp: handle_ident_def)
  have i: "nth_opt ((sc_shard c)[i := s]) i = Some s" using idle_shard(3) [OF assms(1)] by (simp add: i_def nth_opt_def)
  show "Sharded_Value (i, e) (c\<lparr>sc_shard := (sc_shard c)[i := s]\<rparr>) = Some v" using i h by (simp add: Sharded_Value_def)
  obtain s' where s': "Cache_Unref e s = Some s'" "shard_ok ({#e#} - {#e#}) s'" "cache_keeps s s'" "cached s' = cached s"
    by (rule Cache_Unref_ok [OF assms(2), of e]) simp_all
  then show "\<exists>s'. Sharded_Release (i, e) (c\<lparr>sc_shard := (sc_shard c)[i := s]\<rparr>) = Some (c\<lparr>sc_shard := (sc_shard c)[i := s']\<rparr>) \<and> shard_ok {#} s' \<and> entry_of s' = entry_of s"
    using i h entry_of_same [OF assms(2) s'(2-4)] by (auto simp: Sharded_Release_def LRU_Release_def i_def)
qed

lemma sharded_entry_update:
  assumes "idle c"
  shows "sharded_entry (c\<lparr>sc_shard := (sc_shard c)[Shard (HashSlice key) := s]\<rparr>) key' =
    (if Shard (HashSlice key') = Shard (HashSlice key) then entry_of s (key', HashSlice key') else sharded_entry c key')"
  using idle_shard(3) [OF assms, of "HashSlice key"] by (simp add: sharded_entry_def)

lemma use_cached_ok:
  assumes "idle c"
  shows "\<exists>c'. use_cached c key = Some (sharded_entry c key, c') \<and> idle c' \<and> sharded_entry c' = sharded_entry c"
proof -
  let ?hash = "HashSlice key" let ?i = "Shard ?hash" let ?s = "sc_shard c ! ?i"
  note i = idle_shard [OF assms, of ?hash]
  obtain e s where l: "LRU_Lookup key ?hash ?s = Some (e, s)" "shard_ok ({#} + mset_set (set_option e)) s" "cache_keeps ?s s" "cached s = cached ?s"
      "case e of None \<Rightarrow> entry_of ?s (key, ?hash) = None
        | Some p \<Rightarrow> p \<in> cached ?s \<and> (\<exists>h. lc_handles s p = Some h \<and> lh_key h = key \<and> lh_hash h = ?hash \<and> entry_of ?s (key, ?hash) = Some (lh_value h))"
    by (rule LRU_Lookup_ok [OF i(2), of key ?hash]) simp_all
  have en: "entry_of s = entry_of ?s" by (rule entry_of_same [OF i(2) l(2-4)])
  have same: "sharded_entry (c\<lparr>sc_shard := (sc_shard c)[?i := s']\<rparr>) = sharded_entry c" if "entry_of s' = entry_of ?s" for s'
    unfolding fun_eq_iff sharded_entry_update [OF assms] using that by (simp add: sharded_entry_def)
  show ?thesis
  proof (cases e)
    case None
    then show ?thesis using l(1,2,5) i(1) en idle_update [OF assms, of s ?i] same [of s] by (simp add: use_cached_def Sharded_Lookup_def sharded_entry_def Let_def)
  next
    case (Some p)
    then obtain h where h: "lc_handles s p = Some h" "lh_key h = key" "lh_hash h = ?hash" "entry_of ?s (key, ?hash) = Some (lh_value h)" using l(5) by auto
    have p: "shard_ok {#p#} s" "map_option handle_ident (lc_handles s p) = Some (key, ?hash, lh_value h)" using l(2) Some h by (simp_all add: handle_ident_def)
    note r = Sharded_Release_ok [OF assms p]
    obtain s' where s': "Sharded_Release (?i, p) (c\<lparr>sc_shard := (sc_shard c)[?i := s]\<rparr>) = Some (c\<lparr>sc_shard := (sc_shard c)[?i := s']\<rparr>)" "shard_ok {#} s'"
        "entry_of s' = entry_of s" using r(2) by blast
    show ?thesis
      using l(1) i(1) Some r(1) s' h(4) en idle_update [OF assms s'(2), of ?i] same [of s']
      by (simp add: use_cached_def Sharded_Lookup_def sharded_entry_def Let_def)
  qed
qed

lemma insert_cached_ok:
  assumes "idle c"
  shows "\<exists>c'. insert_cached c key v charge = Some c' \<and> idle c' \<and>
    (\<forall>key' v'. sharded_entry c' key' = Some v' \<longrightarrow> key' = key \<and> v' = v \<or> sharded_entry c key' = Some v')"
proof -
  let ?hash = "HashSlice key" let ?i = "Shard ?hash" let ?s = "sc_shard c ! ?i"
  note i = idle_shard [OF assms, of ?hash]
  obtain s where s: "LRU_Insert key ?hash v charge ?s = Some (lc_next ?s, s)" "shard_ok {#lc_next ?s#} s"
      "map_option handle_ident (lc_handles s (lc_next ?s)) = Some (key, ?hash, v)"
    by (rule LRU_Insert_ok [OF i(2), of key ?hash v charge])
  obtain s' where s': "Sharded_Release (?i, lc_next ?s) (c\<lparr>sc_shard := (sc_shard c)[?i := s]\<rparr>) = Some (c\<lparr>sc_shard := (sc_shard c)[?i := s']\<rparr>)" "shard_ok {#} s'"
      "entry_of s' = entry_of s" using Sharded_Release_ok(2) [OF assms s(2,3)] by blast
  let ?c = "c\<lparr>sc_shard := (sc_shard c)[?i := s']\<rparr>"
  have e: "key' = key \<and> v' = v \<or> entry_of ?s (key', HashSlice key') = Some v'" if "entry_of s (key', HashSlice key') = Some v'" for key' v'
    using entry_of_Insert(1) [OF i(2) s(1), unfolded map_le_def, rule_format, of "(key', HashSlice key')", OF domI, OF that] that by (auto split: if_splits)
  have "key' = key \<and> v' = v \<or> sharded_entry c key' = Some v'" if "sharded_entry ?c key' = Some v'" for key' v'
    using that e [of key' v'] s'(3) by (auto simp: sharded_entry_update [OF assms] split: if_splits) (simp_all add: sharded_entry_def)
  then show ?thesis using s(1) s'(1) i(1) idle_update [OF assms s'(2)] by (simp add: insert_cached_def Sharded_Insert_def Let_def)
qed

subsection \<open>Properties of a shard\<close>

text \<open>
  (C12) The cache is memory safe: after any calls by clients that release only handles they hold, reference counts and lists are consistent, no
  call reads or frees memory that was freed, and a handle that a client holds stays readable; the loops that evict entries end; and when all handles are released,
  the destructor frees every entry.
\<close>

theorem lru_cache_safe:
  assumes "clients capacity c held" "size held + 2 < 2 ^ 32"
  shows "shard_ok held c \<and> LRU_Insert key hash v charge c \<noteq> None \<and> LRU_Lookup key hash c \<noteq> None \<and> LRU_Erase key hash c \<noteq> None \<and> LRU_Prune c \<noteq> None \<and>
    (\<forall>e. e \<in># held \<longrightarrow> lc_handles c e \<noteq> None \<and> LRU_Release e c \<noteq> None) \<and>
    (held = {#} \<longrightarrow> (\<exists>c'. LRU_destroy c = Some c' \<and> lc_handles c' = Map.empty))"
proof (intro conjI allI impI)
  show ok: "shard_ok held c" using clients_ok [OF assms(1)] by simp
  show "LRU_Insert key hash v charge c \<noteq> None" by (rule LRU_Insert_ok [OF ok, of key hash v charge]) simp
  show "LRU_Lookup key hash c \<noteq> None" by (rule LRU_Lookup_ok [OF ok count_bound [OF assms(2)], of key hash]) simp
  show "LRU_Erase key hash c \<noteq> None" by (rule LRU_Erase_ok [OF ok, of key hash]) simp
  show "LRU_Prune c \<noteq> None" by (rule LRU_Prune_ok [OF ok]) simp
  show "lc_handles c e \<noteq> None" if "e \<in># held" for e using handle_okD(1) [OF ok, of e] that by (auto simp: handle_ok_def split: option.splits)
  show "LRU_Release e c \<noteq> None" if "e \<in># held" for e by (rule Cache_Unref_ok [OF ok that]) (simp add: LRU_Release_def)
  show "\<exists>c'. LRU_destroy c = Some c' \<and> lc_handles c' = Map.empty" if "held = {#}" using LRU_destroy_frees ok that by simp
qed

theorem lru_cache_safe_witness:
  "\<exists>c e. clients 1 (c :: nat LRUCache) {#e#} \<and> lc_handles c e \<noteq> None \<and> LRU_Insert [1] 7 (5 :: nat) 1 c \<noteq> None \<and> LRU_Release e c \<noteq> None"
proof -
  obtain c :: "nat LRUCache" and e where "LRU_Insert [1] 7 4 1 (SetCapacity 1 new_LRUCache) = Some (e, c)"
    using LRU_Insert_ok [OF new_shard_ok, of "[1]" 7 4 1 1] by metis
  then have c: "clients 1 c (add_mset e {#})" by (rule clients.insert [OF clients.start])
  then show ?thesis using lru_cache_safe [OF c, of "[1]" 7 5 1] by auto
qed

text \<open>
  (C11) The hash table, the two lists and the eviction implement a map from keys to values that may lose entries: the lookup of a key finds what a search through all
  entries finds and changes nothing; an insertion replaces the value of its key and leaves the others or evicts them, until the charges fit or all entries are in
  use; erasing removes exactly one key; and pruning removes the entries that are not in use.
\<close>

theorem lru_cache_refines_map:
  assumes "clients capacity c held" "size held + 2 < 2 ^ 32"
  shows "(\<exists>e c'. LRU_Lookup key hash c = Some (e, c') \<and> entry_of c' = entry_of c \<and>
      map_option lh_value (Option.bind e (lc_handles c')) = entry_of c (key, hash) \<and> (e = None \<longleftrightarrow> entry_of c (key, hash) = None)) \<and>
    (\<exists>e c'. LRU_Insert key hash v charge c = Some (e, c') \<and> (0 < capacity \<longrightarrow> entry_of c' (key, hash) = Some v) \<and>
      entry_of c' \<subseteq>\<^sub>m (if 0 < capacity then (entry_of c)((key, hash) \<mapsto> v) else entry_of c) \<and> (lc_lru c' = [] \<or> lc_usage c' \<le> capacity)) \<and>
    (\<exists>c'. LRU_Erase key hash c = Some c' \<and> entry_of c' = (entry_of c)((key, hash) := None)) \<and>
    (\<exists>c'. LRU_Prune c = Some c' \<and> lc_lru c' = [] \<and> entry_of c' \<subseteq>\<^sub>m entry_of c) \<and>
    (\<forall>e. e \<in># held \<longrightarrow> (\<exists>c'. LRU_Release e c = Some c' \<and> entry_of c' = entry_of c))"
proof (intro conjI allI impI)
  have ok: "shard_ok held c" "lc_capacity c = capacity" using clients_ok [OF assms(1)] by simp_all
  obtain e c' where l: "LRU_Lookup key hash c = Some (e, c')" "shard_ok (held + mset_set (set_option e)) c'" "cache_keeps c c'" "cached c' = cached c"
      "case e of None \<Rightarrow> entry_of c (key, hash) = None
        | Some p \<Rightarrow> p \<in> cached c \<and> (\<exists>h. lc_handles c' p = Some h \<and> lh_key h = key \<and> lh_hash h = hash \<and> entry_of c (key, hash) = Some (lh_value h))"
    by (rule LRU_Lookup_ok [OF ok(1) count_bound [OF assms(2)]])
  show "\<exists>e c'. LRU_Lookup key hash c = Some (e, c') \<and> entry_of c' = entry_of c \<and>
      map_option lh_value (Option.bind e (lc_handles c')) = entry_of c (key, hash) \<and> (e = None \<longleftrightarrow> entry_of c (key, hash) = None)"
    using l(1,5) entry_of_same [OF ok(1) l(2-4)] by (intro exI [of _ e] exI [of _ c']) (auto split: option.splits)
  obtain ei ci where "LRU_Insert key hash v charge c = Some (ei, ci)" by (rule LRU_Insert_ok [OF ok(1), of key hash v charge])
  then show "\<exists>e c'. LRU_Insert key hash v charge c = Some (e, c') \<and> (0 < capacity \<longrightarrow> entry_of c' (key, hash) = Some v) \<and>
      entry_of c' \<subseteq>\<^sub>m (if 0 < capacity then (entry_of c)((key, hash) \<mapsto> v) else entry_of c) \<and> (lc_lru c' = [] \<or> lc_usage c' \<le> capacity)"
    using entry_of_Insert [OF ok(1)] unfolding ok(2) by blast
  obtain r ce where e: "LRU_Erase key hash c = Some ce" "found_at (lc_handles c) (lc_table c) key hash r" "shard_ok held ce" "cache_keeps c ce" "cached ce = cached c - set_option r"
    by (rule LRU_Erase_ok [OF ok(1)])
  then show "\<exists>c'. LRU_Erase key hash c = Some c' \<and> entry_of c' = (entry_of c)((key, hash) := None)" using entry_of_Erase [OF ok(1) e(3-5,2)] by blast
  show "\<exists>c'. LRU_Prune c = Some c' \<and> lc_lru c' = [] \<and> entry_of c' \<subseteq>\<^sub>m entry_of c" by (rule LRU_Prune_ok [OF ok(1)]) blast
  fix p assume p: "p \<in># held"
  obtain cr where r: "Cache_Unref p c = Some cr" "shard_ok (held - {#p#}) cr" "cache_keeps c cr" "cached cr = cached c" by (rule Cache_Unref_ok [OF ok(1) p])
  then show "\<exists>c'. LRU_Release p c = Some c' \<and> entry_of c' = entry_of c" using entry_of_same [OF ok(1) r(2-4)] by (simp add: LRU_Release_def)
qed

theorem lru_cache_refines_map_witness:
  "\<exists>c c' e. clients 1 (c :: nat LRUCache) {#} \<and> LRU_Insert [1] 7 4 1 c = Some (e, c') \<and> entry_of c' ([1], 7) = Some 4"
  using lru_cache_refines_map [OF clients.start, of "[1]" 7 1 "4 :: nat" 1] clients.start [of 1] by auto

end
