(* ===== verification/Ldb_Block_Cache.thy ===== *)
theory Ldb_Block_Cache
  imports Ldb_Table Ldb_Cache_Client
begin

text \<open>
  The cache of \<^verbatim>\<open>util/cache.cc\<close> as the block cache of \<^verbatim>\<open>table/table.cc\<close>.
\<close>

definition lru_block_cache :: "Block ShardedLRUCache cache_ops" where
  "lru_block_cache =
     \<lparr>cache_Lookup = (\<lambda>c key. case use_cached c key of Some r \<Rightarrow> r | None \<Rightarrow> (None, c)),
      cache_Insert = (\<lambda>c key b charge. case insert_cached c key b (of_nat charge) of Some c' \<Rightarrow> c' | None \<Rightarrow> c),
      cache_NewId = NewId\<rparr>"

lemma lru_Lookup:
  assumes "idle c"
  shows "fst (cache_Lookup lru_block_cache c key) = sharded_entry c key" "idle (snd (cache_Lookup lru_block_cache c key))"
    "sharded_entry (snd (cache_Lookup lru_block_cache c key)) = sharded_entry c"
  using use_cached_ok [OF assms, of key] by (auto simp: lru_block_cache_def)

lemma lru_Insert:
  assumes "idle c"
  shows "idle (cache_Insert lru_block_cache c key b charge)"
    "sharded_entry (cache_Insert lru_block_cache c key b charge) key' = Some b' \<Longrightarrow> key' = key \<and> b' = b \<or> sharded_entry c key' = Some b'"
proof -
  obtain c' where "insert_cached c key b (of_nat charge) = Some c'" "idle c'"
      "\<forall>key' v'. sharded_entry c' key' = Some v' \<longrightarrow> key' = key \<and> v' = b \<or> sharded_entry c key' = Some v'"
    using insert_cached_ok [OF assms] by blast
  then show "idle (cache_Insert lru_block_cache c key b charge)"
    "sharded_entry (cache_Insert lru_block_cache c key b charge) key' = Some b' \<Longrightarrow> key' = key \<and> b' = b \<or> sharded_entry c key' = Some b'"
    by (simp_all add: lru_block_cache_def)
qed

interpretation lru: block_cache idle "cache_Lookup lru_block_cache" "cache_Insert lru_block_cache"
proof (unfold_locales, goal_cases)
  case (3 c key key' b)
  then show ?case using lru_Lookup [OF 3(1)] lru_Lookup(1) [OF lru_Lookup(2) [OF 3(1)]] by simp
next
  case (4 c key b charge key' b')
  then show ?case using lru_Insert [OF 4(1), of key b charge] lru_Lookup(1) by simp
qed (auto intro: lru_Lookup(2) lru_Insert(1))

text \<open>A new cache has no blocks.\<close>

lemma lru_new: "idle (snd (NewId (new_ShardedLRUCache capacity)))"
  "fst (cache_Lookup lru_block_cache (snd (NewId (new_ShardedLRUCache capacity))) key) = None"
proof -
  have s: "idle (snd (NewId c)) = idle c" "sharded_entry (snd (NewId c)) = sharded_entry c" for c :: "'v ShardedLRUCache"
    by (simp_all add: idle_def sharded_entry_def NewId_def fun_eq_iff)
  show i: "idle (snd (NewId (new_ShardedLRUCache capacity)))" unfolding s by (rule new_idle(1))
  show "fst (cache_Lookup lru_block_cache (snd (NewId (new_ShardedLRUCache capacity))) key) = None"
    unfolding lru_Lookup(1) [OF i] s by (rule new_idle(2))
qed

end
