(* ===== verification/Ldb_Table_Get.thy ===== *)
theory Ldb_Table_Get
  imports Ldb_Table_Spec Ldb_Block_Cache Ldb_Version_Get
begin

text \<open>
  Tables of internal keys: a lookup in a table that was built from sorted entries is the lookup that \<^verbatim>\<open>Version::Get\<close> relies on.
\<close>

subsection \<open>Options of the database\<close>

definition InternalKeyComparator ::
  "nat \<Rightarrow> (byte list \<Rightarrow> byte list \<Rightarrow> int) \<Rightarrow> (byte list \<Rightarrow> byte list \<Rightarrow> byte list) \<Rightarrow> (byte list \<Rightarrow> byte list) \<Rightarrow> Comparator" where
  "InternalKeyComparator address cmp sep succ =
     \<lparr>c_address = address, c_Compare = InternalCompare cmp, c_FindShortestSeparator = InternalFindShortestSeparator cmp sep,
      c_FindShortSuccessor = InternalFindShortSuccessor cmp succ\<rparr>"

definition InternalFilterPolicy :: "FilterPolicy \<Rightarrow> FilterPolicy" where
  "InternalFilterPolicy user_policy =
     \<lparr>fp_Name = fp_Name user_policy,
      fp_CreateFilter = (\<lambda>keys dst. fp_CreateFilter user_policy (map ExtractUserKey keys) dst),
      fp_KeyMayMatch = (\<lambda>key f. fp_KeyMayMatch user_policy (ExtractUserKey key) f)\<rparr>"

lemma internal_policy:
  assumes "filter_policy (fp_CreateFilter p) (fp_KeyMayMatch p)"
  shows "filter_policy (fp_CreateFilter (InternalFilterPolicy p)) (fp_KeyMayMatch (InternalFilterPolicy p))"
proof (unfold_locales, goal_cases)
  case (1 dst keys)
  then show ?case using filter_policy.create_appends [OF assms] by (simp add: InternalFilterPolicy_def)
next
  case (2 key keys dst)
  then show ?case using filter_policy.no_false_negatives [OF assms, of "ExtractUserKey key"] by (simp add: InternalFilterPolicy_def)
qed

abbreviation kv :: "mem_entry \<Rightarrow> entry" where
  "kv e \<equiv> (ikey e, snd e)"

lemma ikey_length: "8 \<le> length (ikey e)"
  by (simp add: AppendInternalKey_def PutFixed64_def)

subsection \<open>Keys of the index\<close>

context user_comparator
begin

lemma separator_user_key:
  "InternalFindShortestSeparator cmp separator start limit = start \<or>
   cmp (ExtractUserKey (InternalFindShortestSeparator cmp separator start limit)) (ExtractUserKey limit) < 0"
proof -
  let ?us = "ExtractUserKey start" and ?ul = "ExtractUserKey limit"
  have "cmp (separator ?us ?ul) ?ul < 0" if "cmp ?us (separator ?us ?ul) < 0"
    using that separator_same [of ?us ?ul] separator_between [of ?us ?ul] cmp_refl [of ?us] by fastforce
  then show ?thesis by (auto simp: InternalFindShortestSeparator_def Let_def PutFixed64_def internal_key_parts)
qed

lemma separator_length: "8 \<le> length start \<Longrightarrow> 8 \<le> length (InternalFindShortestSeparator cmp separator start limit)"
  by (simp add: InternalFindShortestSeparator_def Let_def PutFixed64_def)

lemma successor_length: "8 \<le> length key \<Longrightarrow> 8 \<le> length (InternalFindShortSuccessor cmp successor key)"
  by (simp add: InternalFindShortSuccessor_def Let_def PutFixed64_def)

lemma internal_table_sorted:
  assumes "entries_sorted cmp es" "concat bs = map kv es" "[] \<notin> set bs" "index_keys opts bs seps"
    and "opt_comparator opts = InternalKeyComparator address cmp separator successor"
  shows "table_sorted (\<lambda>k. 8 \<le> length k) (InternalCompare cmp) bs seps"
proof -
  have len: "length seps = length bs" using assms(4) by (simp add: index_keys_def)
  have s: "sorted_wrt (\<lambda>a b. InternalCompare cmp (fst a) (fst b) < 0) (concat bs)"
    using assms(1) unfolding assms(2) by (auto simp: entries_sorted_def sorted_wrt_map elim: sorted_wrt_mono_rel [rotated])
  have v: "8 \<le> length (fst x)" if "x \<in> set (concat bs)" for x using that ikey_length unfolding assms(2) by auto
  have ends: "8 \<le> length (last_key (bs ! i))" "8 \<le> length (first_key (bs ! i))" if "i < length bs" for i
  proof -
    have "bs ! i \<in> set bs" "bs ! i \<noteq> []" using that assms(3) by (auto, metis nth_mem)
    then show "8 \<le> length (last_key (bs ! i))" "8 \<le> length (first_key (bs ! i))" by (auto intro!: v bexI [of _ "bs ! i"])
  qed
  have step: "8 \<le> length (seps ! i) \<and> InternalCompare cmp (last_key (bs ! i)) (seps ! i) \<le> 0 \<and>
      (Suc i < length bs \<longrightarrow> InternalCompare cmp (seps ! i) (first_key (bs ! Suc i)) < 0)" if i: "i < length bs" for i
  proof (cases "Suc i < length bs")
    case True
    then have "seps ! i = InternalFindShortestSeparator cmp separator (last_key (bs ! i)) (first_key (bs ! Suc i))"
      using assms(4,5) len by (simp add: index_keys_def separated_def InternalKeyComparator_def)
    moreover have "InternalCompare cmp (last_key (bs ! i)) (first_key (bs ! Suc i)) < 0"
    proof -
      have "bs ! i \<noteq> []" "bs ! Suc i \<noteq> []" using True i assms(3) by (metis nth_mem)+
      then show ?thesis using sorted_concat_blocks [OF s, of i "Suc i" "last (bs ! i)" "hd (bs ! Suc i)"] True by simp
    qed
    ultimately show ?thesis using internal_separator ends [OF i] ends [OF True] separator_length by simp
  next
    case False
    then have "i = length bs - 1" "bs \<noteq> []" "seps \<noteq> []" using i len by auto
    then have "seps ! i = InternalFindShortSuccessor cmp successor (last_key (bs ! i))"
      using assms(4,5) len by (auto simp: index_keys_def InternalKeyComparator_def last_conv_nth)
    then show ?thesis using internal_successor ends [OF i] successor_length False by simp
  qed
  then have "list_all (\<lambda>k. 8 \<le> length k) seps" using len by (simp add: list_all_length)
  moreover have "list_all ((\<lambda>k. 8 \<le> length k) \<circ> fst) (concat bs)" unfolding list_all_iff comp_apply using v by blast
  ultimately show ?thesis using s step assms(3) len by (simp add: table_sorted_def)
qed

text \<open>An entry of a later block with the user key that was looked up: then the key in the index is the last of its block, with the same user key.\<close>

lemma later_user_key:
  assumes "table_sorted (\<lambda>k. 8 \<le> length k) (InternalCompare cmp) bs seps" "index_keys opts bs seps"
    and "opt_comparator opts = InternalKeyComparator address cmp separator successor"
    and "i < j" "j < length bs" "e \<in> set (bs ! j)" "\<not> InternalCompare cmp (seps ! i) k < 0" "8 \<le> length k" "ExtractUserKey (fst e) = ExtractUserKey k"
  shows "seps ! i = last_key (bs ! i) \<and> ExtractUserKey (seps ! i) = ExtractUserKey k"
proof -
  have i: "Suc i < length bs" using assms(4,5) by simp
  let ?f = "first_key (bs ! Suc i)"
  have sep: "seps ! i = InternalFindShortestSeparator cmp separator (last_key (bs ! i)) ?f"
    using assms(2,3) i by (simp add: index_keys_def separated_def InternalKeyComparator_def)
  have f: "hd (bs ! Suc i) \<in> set (bs ! Suc i)" using block_nonempty [OF assms(1) i] by simp
  have "InternalCompare cmp (seps ! i) (fst e) < 0" by (rule internal.sep_before_block [OF assms(1,4,5,6)])
  moreover have v: "8 \<le> length (seps ! i)" using assms(1) i by (simp add: table_sorted_def list_all_length)
  then have "InternalCompare cmp k (seps ! i) \<le> 0" using assms(7,8) internal.cmp_flip [of "seps ! i" k] by (simp add: not_less)
  ultimately have u: "ExtractUserKey (seps ! i) = ExtractUserKey k"
    using assms(9) less_trans [of "ExtractUserKey k" "ExtractUserKey (seps ! i)" "ExtractUserKey k"] cmp_refl [of "ExtractUserKey k"]
    by (auto simp: InternalCompare_le InternalCompare_less)
  have "InternalCompare cmp ?f (fst e) \<le> 0"
  proof (cases "Suc i = j")
    case True
    have "sorted_wrt (\<lambda>a b. InternalCompare cmp (fst a) (fst b) < 0) (bs ! j)"
      using sorted_concat_block [OF _ nth_mem [OF assms(5)]] assms(1) by (simp add: table_sorted_def)
    moreover obtain x xs where x: "bs ! j = x # xs" using assms(6) by (cases "bs ! j") auto
    ultimately show ?thesis using True assms(6) internal.cmp_refl [of ?f] internal.block_keys(1) [OF assms(1) i f] by auto
  next
    case False
    then show ?thesis using sorted_concat_blocks [of _ bs "Suc i" j "hd (bs ! Suc i)" e] assms(1,4,5,6) f by (fastforce simp: table_sorted_def)
  qed
  then have "\<not> cmp (ExtractUserKey k) (ExtractUserKey ?f) < 0"
    using assms(9) less_trans [of "ExtractUserKey k" "ExtractUserKey ?f" "ExtractUserKey k"] cmp_refl [of "ExtractUserKey k"]
    by (auto simp: InternalCompare_le)
  then show ?thesis using separator_user_key [of "last_key (bs ! i)" ?f] sep u by auto
qed

end

subsection \<open>One lookup\<close>

lemma block_for_before:
  "block_for cmp seps k = Some i \<Longrightarrow> i < length seps \<and> \<not> cmp (seps ! i) k < 0 \<and> (\<forall>j < i. cmp (seps ! j) k < 0)"
  "block_for cmp seps k = None \<Longrightarrow> \<forall>j < length seps. cmp (seps ! j) k < 0"
  by (fastforce simp: block_for_def find_Some_iff not_le) (auto simp: block_for_def find_None_iff not_le)

lemma find_none_before:
  assumes "concat bs = xs @ ys" "\<And>e. e \<in> set xs \<Longrightarrow> \<not> P e" "find P ys = Some e"
  shows "find P (concat bs) = Some e"
proof -
  have "find P xs = None" using assms(2) by (auto simp: find_None_iff)
  then show ?thesis using assms(1,3) by (simp add: find_append_case)
qed

lemma in_concatE:
  assumes "e \<in> set (concat bs)"
  obtains j where "j < length bs" "e \<in> set (bs ! j)"
proof -
  obtain b where "b \<in> set bs" "e \<in> set b" using assms by auto
  then show thesis using that by (metis in_set_conv_nth)
qed

context user_comparator
begin

lemma entry_before_sep:
  assumes "table_sorted (\<lambda>k. 8 \<le> length k) (InternalCompare cmp) bs seps" "j < length bs" "e \<in> set (bs ! j)" "InternalCompare cmp (seps ! j) k < 0" "8 \<le> length k"
  shows "InternalCompare cmp (fst e) k < 0"
  using internal.block_keys [OF assms(1-3)] internal.le_less_trans assms(4,5) by blast

text \<open>The answer of the block that the index leads to is the answer of the table.\<close>

lemma block_answer:
  assumes "table_sorted (\<lambda>k. 8 \<le> length k) (InternalCompare cmp) bs seps" "index_keys opts bs seps"
    and "opt_comparator opts = InternalKeyComparator address cmp separator successor" "filter_policy_opt opts = map_option InternalFilterPolicy policy"
    and "8 \<le> length k"
    and r: "case block_for (InternalCompare cmp) seps k of
       None \<Rightarrow> found = None
     | Some i \<Rightarrow> found = find (\<lambda>e. InternalCompare cmp (fst e) k \<ge> 0) (bs ! i) \<or> found = None \<and> rules_out (filter_policy_opt opts) k (bs ! i)"
  shows "found = find (\<lambda>e. \<not> InternalCompare cmp (fst e) k < 0) (concat bs) \<or>
    found = None \<and> (\<forall>e \<in> set (concat bs). ExtractUserKey (fst e) = ExtractUserKey k \<longrightarrow> InternalCompare cmp (fst e) k < 0)"
proof (cases "block_for (InternalCompare cmp) seps k")
  case None
  have "InternalCompare cmp (fst e) k < 0" if e: "e \<in> set (concat bs)" for e
  proof -
    obtain j where "j < length bs" "e \<in> set (bs ! j)" using in_concatE [OF e] .
    then show ?thesis using entry_before_sep [OF assms(1) _ _ _ assms(5)] block_for_before(2) [OF None] assms(2) by (auto simp: index_keys_def)
  qed
  then show ?thesis using r None by auto
next
  case (Some i)
  note i = block_for_before(1) [OF Some]
  have il: "i < length bs" using i assms(2) by (simp add: index_keys_def)
  have early: "InternalCompare cmp (fst e) k < 0" if "j < i" "e \<in> set (bs ! j)" for e j
    using entry_before_sep [OF assms(1) _ that(2) _ assms(5)] that(1) i il by simp
  show ?thesis
  proof (cases found)
    case None
    have "InternalCompare cmp (fst e) k < 0" if e: "e \<in> set (concat bs)" "ExtractUserKey (fst e) = ExtractUserKey k" for e
    proof -
      obtain j where j: "j < length bs" "e \<in> set (bs ! j)" using in_concatE [OF e(1)] .
      have own: "(\<forall>x \<in> set (bs ! i). InternalCompare cmp (fst x) k < 0) \<or> (\<forall>x \<in> set (bs ! i). ExtractUserKey (fst x) \<noteq> ExtractUserKey k)"
        using r Some None assms(4) by (auto simp: find_None_iff find_None_iff2 rules_out_def InternalFilterPolicy_def not_le)
      have "last (bs ! i) \<in> set (bs ! i)" using block_nonempty [OF assms(1) il] by simp
      then have "False" if "i < j"
        using later_user_key [OF assms(1-3) that j(1,2) _ assms(5) e(2)] own i by metis
      then show ?thesis using early j own e(2) by (cases "j < i"; cases "j = i") auto
    qed
    then show ?thesis using None by blast
  next
    case found: (Some e)
    have c: "concat bs = concat (take i bs) @ bs ! i @ concat (drop (Suc i) bs)"
      using arg_cong [OF id_take_nth_drop [OF il], of concat] by simp
    have "find (\<lambda>e. \<not> InternalCompare cmp (fst e) k < 0) (bs ! i) = Some e" using r Some found by (simp add: not_less)
    then have "find (\<lambda>e. \<not> InternalCompare cmp (fst e) k < 0) (bs ! i @ concat (drop (Suc i) bs)) = Some e" by (simp add: find_append_case)
    moreover have "InternalCompare cmp (fst x) k < 0" if x: "x \<in> set (concat (take i bs))" for x
    proof -
      obtain j where "j < length (take i bs)" "x \<in> set (take i bs ! j)" using in_concatE [OF x] .
      then show ?thesis using early [of j x] by simp
    qed
    ultimately show ?thesis using find_none_before [OF c] found by auto
  qed
qed

end

text \<open>A table that was built from the entries \<open>es\<close> and opened.\<close>

definition opened_from :: "mem_entry list \<Rightarrow> Options \<Rightarrow> entry list list \<Rightarrow> byte list list \<Rightarrow> Table \<Rightarrow> bool" where
  "opened_from es opts bs seps t \<longleftrightarrow>
     opened opts bs seps t \<and> length (table_bytes opts bs seps) < 2 ^ 32 \<and> concat bs = map kv es \<and> [] \<notin> set bs \<and> index_keys opts bs seps"

lemma table_opened:
  assumes "0 < block_restart_interval opts" "reliable f" "contents f = []"
    and "build_table opts f (map kv es) = Some (s, r)" "serves raf (contents (tb_file r))" "length (contents (tb_file r)) < 2 ^ 32"
    and "Table_Open ops opts raf (FileSize r) cache = Some (s', t, cache')"
  obtains t' bs seps where "s = OK" "s' = OK" "t = Some t'" "opened_from es opts bs seps t'"
    "(tr_cache_id t', cache') = (case cache of None \<Rightarrow> (0, None) | Some c \<Rightarrow> map_prod id Some (cache_NewId ops c))"
proof -
  let ?bs = "split_blocks opts [] (map kv es)"
  obtain r' where b: "build_table opts f (map kv es) = Some (OK, r')" "contents (tb_file r') = table_bytes opts ?bs (index_seps opts ?bs)"
      "FileSize r' = of_nat (length (table_bytes opts ?bs (index_seps opts ?bs)))"
    by (rule build_table_ok [OF assms(2,3,1)]) (simp add: table_file_def Let_def)
  have r: "s = OK" "r' = r" using assms(4) b(1) by simp_all
  have "concat ?bs = map kv es" "[] \<notin> set ?bs" "index_keys opts ?bs (index_seps opts ?bs)"
    by (simp_all add: concat_split_blocks split_blocks_nonempty index_keys_seps)
  then show thesis
    using Table_Open_ok [OF assms(5) [folded r(2), unfolded b(2)] assms(6) [folded r(2), unfolded b(2)] assms(1), of ops cache] assms(6,7) b(2,3) r that
    by (auto simp: opened_from_def)
qed

context user_comparator
begin

lemma InternalGet_reads:
  assumes "entries_sorted cmp es" "opened_from es opts bs seps t" "8 \<le> length k" "0 < block_restart_interval opts"
    and "opt_comparator opts = InternalKeyComparator address cmp separator successor" "filter_policy_opt opts = map_option InternalFilterPolicy policy"
    and "good_policy policy" "blocks_cached ops (block_restart_interval opts) bs (tr_cache_id t) cache"
  shows "\<exists>found cache'. InternalGet ops t options k cache = Some (OK, found, cache') \<and>
    blocks_cached ops (block_restart_interval opts) bs (tr_cache_id t) cache' \<and> reads cmp (\<lambda>_. es) (\<lambda>_ _. (OK, found)) k fm"
proof -
  let ?ri = "block_restart_interval opts"
  have b: "opened opts bs seps t" "length (table_bytes opts bs seps) < 2 ^ 32" "concat bs = map kv es" "[] \<notin> set bs" "index_keys opts bs seps"
    using assms(2) by (simp_all add: opened_from_def)
  note s = internal_table_sorted [OF assms(1) b(3,4,5) assms(5)]
  have g: "good_policy (filter_policy_opt opts)" using assms(6,7) internal_policy by (auto simp: good_policy_def split: option.splits)
  have c: "InternalCompare cmp = c_Compare (opt_comparator opts)" using assms(5) by (simp add: InternalKeyComparator_def)
  have rd: "reads cmp (\<lambda>_. es) (\<lambda>_ _. (OK, found)) k fm"
    if "found = find (\<lambda>e. \<not> InternalCompare cmp (fst e) k < 0) (concat bs) \<or>
      found = None \<and> (\<forall>e \<in> set (concat bs). ExtractUserKey (fst e) = ExtractUserKey k \<longrightarrow> InternalCompare cmp (fst e) k < 0)" for found
    using that unfolding b(3) by (auto simp: reads_def find_map comp_def list_all_iff AppendInternalKey_parts)
  obtain found cache' where "InternalGet ops t options k cache = Some (OK, found, cache')" "blocks_cached ops ?ri bs (tr_cache_id t) cache'"
    and a: "case block_for (InternalCompare cmp) seps k of None \<Rightarrow> found = None
      | Some i \<Rightarrow> found = find (\<lambda>e. InternalCompare cmp (fst e) k \<ge> 0) (bs ! i) \<or> found = None \<and> rules_out (filter_policy_opt opts) k (bs ! i)"
    using InternalGet_ok [OF b(1,2) assms(4) g assms(8) internal.comparator_axioms c s assms(3), of options] by blast
  moreover have "reads cmp (\<lambda>_. es) (\<lambda>_ _. (OK, found)) k fm" by (rule rd [OF block_answer [OF s b(5) assms(5,6,3) a]])
  ultimately show ?thesis by blast
qed

end

subsection \<open>Many lookups\<close>

text \<open>Lookups one after the other, with the cache as the ones before left it.\<close>

primrec get_all :: "'c cache_ops \<Rightarrow> Table \<Rightarrow> ReadOptions \<Rightarrow> byte list list \<Rightarrow> 'c option \<Rightarrow> (Status \<times> entry option) list option" where
  "get_all ops t options [] cache = Some []"
| "get_all ops t options (k # ks) cache = do {
     (s, found, cache) \<leftarrow> InternalGet ops t options k cache;
     rest \<leftarrow> get_all ops t options ks cache;
     Some ((s, found) # rest)
   }"

text \<open>No block of the table is in the cache yet.\<close>

definition unused_id :: "'c cache_ops \<Rightarrow> uint64 \<Rightarrow> 'c option \<Rightarrow> bool" where
  "unused_id ops cid cache \<longleftrightarrow>
     (case cache of
        None \<Rightarrow> True
      | Some c \<Rightarrow> \<exists>inv. block_cache inv (cache_Lookup ops) (cache_Insert ops) \<and> inv c \<and>
          all_cached (cache_Lookup ops) (\<lambda>key b. \<forall>offset. key \<noteq> cache_key cid offset) c)"

lemma unused_blocks_cached: "unused_id ops cid cache \<Longrightarrow> blocks_cached ops ri bs cid cache"
  unfolding unused_id_def blocks_cached_def block_at_def all_cached_def by (cases cache) (simp, fastforce)

context user_comparator
begin

lemma get_all_reads:
  assumes "entries_sorted cmp es" "opened_from es opts bs seps t" "0 < block_restart_interval opts"
    and "opt_comparator opts = InternalKeyComparator address cmp separator successor" "filter_policy_opt opts = map_option InternalFilterPolicy policy"
    and "good_policy policy" "blocks_cached ops (block_restart_interval opts) bs (tr_cache_id t) cache" "list_all (\<lambda>k. 8 \<le> length k) ks"
  shows "\<exists>rs. get_all ops t options ks cache = Some rs \<and> list_all2 (\<lambda>k r. reads cmp (\<lambda>_. es) (\<lambda>_ _. r) k fm) ks rs"
  using assms(7,8)
proof (induction ks arbitrary: cache)
  case (Cons k ks)
  have k: "8 \<le> length k" using Cons.prems(2) by simp
  obtain found cache' where g: "InternalGet ops t options k cache = Some (OK, found, cache')"
      "blocks_cached ops (block_restart_interval opts) bs (tr_cache_id t) cache'" "reads cmp (\<lambda>_. es) (\<lambda>_ _. (OK, found)) k fm"
    using InternalGet_reads [OF assms(1,2) k assms(3-6) Cons.prems(1), of options fm] by blast
  then show ?case using Cons.IH [OF g(2)] Cons.prems(2) by auto
qed simp

lemma table_lookups:
  assumes "entries_sorted cmp es" "0 < block_restart_interval opts" "reliable f" "contents f = []"
    and "opt_comparator opts = InternalKeyComparator address cmp separator successor" "filter_policy_opt opts = map_option InternalFilterPolicy policy"
    and "good_policy policy"
    and "build_table opts f (map kv es) = Some (s, r)" "serves raf (contents (tb_file r))" "length (contents (tb_file r)) < 2 ^ 32"
    and "Table_Open ops opts raf (FileSize r) cache = Some (s', t, cache')" "list_all (\<lambda>k. 8 \<le> length k) ks"
    and "\<And>t'. t = Some t' \<Longrightarrow> unused_id ops (tr_cache_id t') cache'"
  shows "s = OK \<and> s' = OK \<and> (\<exists>t' rs. t = Some t' \<and> get_all ops t' options ks cache' = Some rs \<and>
    list_all2 (\<lambda>k r. reads cmp (\<lambda>_. es) (\<lambda>_ _. r) k fm) ks rs)"
proof -
  obtain t' bs seps where t: "s = OK" "s' = OK" "t = Some t'" "opened_from es opts bs seps t'"
    using table_opened [OF assms(2-4,8-11)] by blast
  show ?thesis
    using t(1-3) get_all_reads [OF assms(1) t(4) assms(2,5-7) unused_blocks_cached [OF assms(13) [OF t(3)]] assms(12)] by blast
qed

end

subsection \<open>Tables of a version\<close>

text \<open>A file in memory, tables without block cache, and the lookup of a version in the tables that were built from the entries \<open>ct f\<close>.\<close>

definition file_of :: "byte list \<Rightarrow> RandomAccessFile" where
  "file_of bytes = (\<lambda>offset n. (OK, take n (drop (unat offset) bytes), True))"

definition no_cache :: "unit cache_ops" where
  "no_cache = \<lparr>cache_Lookup = (\<lambda>c key. (None, c)), cache_Insert = (\<lambda>c key b charge. c), cache_NewId = (\<lambda>c. (0, c))\<rparr>"

definition built_get :: "Options \<Rightarrow> ReadOptions \<Rightarrow> (FileMetaData \<Rightarrow> mem_entry list) \<Rightarrow> table_reader" where
  "built_get opts options ct f key =
     (case do {
        (_, r) \<leftarrow> build_table opts empty_file (map kv (ct f));
        (_, t, _) \<leftarrow> Table_Open no_cache opts (file_of (contents (tb_file r))) (FileSize r) None;
        t \<leftarrow> t;
        (s, found, _) \<leftarrow> InternalGet no_cache t options key None;
        Some (s, found)
      } of Some a \<Rightarrow> a | None \<Rightarrow> (IOError [], None))"

lemma serves_file_of: "serves (file_of bytes) bytes"
  by (auto simp: serves_def file_of_def)

context user_comparator
begin

lemma built_get_reads:
  assumes "entries_sorted cmp (ct f)" "8 \<le> length k" "0 < block_restart_interval opts"
    and "opt_comparator opts = InternalKeyComparator address cmp separator successor" "filter_policy_opt opts = map_option InternalFilterPolicy policy"
    and "good_policy policy" "length (table_file opts (map kv (ct f))) < 2 ^ 32"
  shows "reads cmp ct (built_get opts options ct) k f"
proof -
  let ?es = "map kv (ct f)"
  let ?bs = "split_blocks opts [] ?es"
  have tf: "table_file opts ?es = table_bytes opts ?bs (index_seps opts ?bs)" by (simp add: table_file_def Let_def)
  obtain r where r: "build_table opts empty_file ?es = Some (OK, r)" "contents (tb_file r) = table_file opts ?es" "FileSize r = of_nat (length (table_file opts ?es))"
    by (rule build_table_ok [OF empty_file assms(3)])
  obtain t cache where t: "Table_Open no_cache opts (file_of (table_file opts ?es)) (FileSize r) None = Some (OK, Some t, cache)" "opened opts ?bs (index_seps opts ?bs) t"
    using Table_Open_ok [OF serves_file_of [of "table_bytes opts ?bs (index_seps opts ?bs)"] assms(7) [unfolded tf] assms(3), of no_cache None] r(3) unfolding tf by auto
  have o: "opened_from (ct f) opts ?bs (index_seps opts ?bs) t"
    using t(2) assms(7) by (simp add: opened_from_def tf concat_split_blocks split_blocks_nonempty index_keys_seps)
  obtain found cache' where g: "InternalGet no_cache t options k None = Some (OK, found, cache')" "reads cmp (\<lambda>_. ct f) (\<lambda>_ _. (OK, found)) k f"
    using InternalGet_reads [OF assms(1) o assms(2-6), of no_cache None options f] by (auto simp: blocks_cached_def)
  have "built_get opts options ct f k = (OK, found)" using r(1,2) t(1) g(1) by (simp add: built_get_def)
  then show ?thesis using g(2) by (simp add: reads_def)
qed

lemma Version_Get_tables:
  assumes "version_ok cmp ct v" "length u + 8 < 2 ^ 32" "t \<le> kMaxSequenceNumber" "newest_visible (version_entries ct v) u t r"
    and "0 < block_restart_interval opts" "opt_comparator opts = InternalKeyComparator address cmp separator successor"
    and "filter_policy_opt opts = map_option InternalFilterPolicy policy" "good_policy policy"
    and "list_all (list_all (\<lambda>f. length (table_file opts (map kv (ct f))) < 2 ^ 32)) (v_files v)"
  shows "\<exists>stats. Version_Get cmp (built_get opts options ct) v (new_LookupKey u t) value = (fst (lookup_answer value r), snd (lookup_answer value r), stats)"
proof -
  have k: "8 \<le> length (lookup_ikey u t)" by (simp add: AppendInternalKey_def PutFixed64_def)
  have "entries_sorted cmp (ct f)" if "fs \<in> set (v_files v)" "f \<in> set fs" for f fs
    using assms(1) that by (auto simp: version_ok_def levels_ok_def file_holds_def list_all_iff)
  then have "list_all (list_all (reads cmp ct (built_get opts options ct) (lookup_ikey u t))) (v_files v)"
    using assms(9) built_get_reads [OF _ k assms(5-8)] unfolding list_all_iff by blast
  then show ?thesis using Version_Get_newest [OF assms(1-3) _ assms(4)] by blast
qed

end

subsection \<open>Properties\<close>

text \<open>
  (C7) A table reads back: for the table that \<^verbatim>\<open>TableBuilder\<close> writes for sorted entries, of any block size, restart interval and compression, with or
  without a filter, \<^verbatim>\<open>Table::Open\<close> succeeds on every file that returns its bytes, and any sequence of lookups with a block
  cache that has no block of this table before gives for each key the first entry at or after it; only when no such entry has the user key of the lookup may a lookup
  find nothing.
\<close>

theorem table_lookups_read:
  assumes "entries_sorted BytewiseCompare es" "0 < block_restart_interval opts" "reliable f" "contents f = []"
    and "opt_comparator opts = InternalKeyComparator address BytewiseCompare BytewiseFindShortestSeparator BytewiseFindShortSuccessor"
    and "filter_policy_opt opts = map_option InternalFilterPolicy policy" "good_policy policy"
    and "build_table opts f (map kv es) = Some (s, r)" "serves raf (contents (tb_file r))" "length (contents (tb_file r)) < 2 ^ 32"
    and "Table_Open ops opts raf (FileSize r) cache = Some (s', t, cache')" "list_all (\<lambda>k. 8 \<le> length k) ks"
    and "case t of None \<Rightarrow> True | Some t' \<Rightarrow> unused_id ops (tr_cache_id t') cache'"
  shows "s = OK \<and> s' = OK \<and> (\<exists>t' rs. t = Some t' \<and> get_all ops t' options ks cache' = Some rs \<and>
    list_all2 (\<lambda>k r. reads BytewiseCompare (\<lambda>_. es) (\<lambda>_ _. r) k fm) ks rs)"
  by (rule bytewise.table_lookups [OF assms(1-12)]) (use assms(13) in simp)

definition sample_options :: Options where
  "sample_options =
     \<lparr>opt_comparator = InternalKeyComparator 0 BytewiseCompare BytewiseFindShortestSeparator BytewiseFindShortSuccessor, paranoid_checks = True,
      block_size = 10, block_restart_interval = 16, compression = kSnappyCompression, filter_policy_opt = None\<rparr>"

lemma sample_size: "length (table_file sample_options (map kv (sample_entries f))) < 2 ^ 32"
proof -
  let ?es = "map kv (sample_entries f)"
  let ?bs = "split_blocks sample_options [] ?es"
  have o: "0 < block_restart_interval sample_options" "filter_policy_opt sample_options = None" by (simp_all add: sample_options_def)
  have "sum_list (map (\<lambda>b. sum_list (map entry_size b) + 13) ?bs) + sum_list (map (\<lambda>s. length s + 39) (index_seps sample_options ?bs)) < 1000"
  proof (cases "fm_number f = 9")
    case True
    then have e: "sample_entries f = sample_entries (sample_file 9 [] 0 [] 0)" by (simp add: sample_entries_def sample_file_def new_FileMetaData_def)
    show ?thesis unfolding e by code_simp
  next
    case False
    then have e: "sample_entries f = sample_entries (sample_file 4 [] 0 [] 0)" by (simp add: sample_entries_def sample_file_def new_FileMetaData_def)
    show ?thesis unfolding e by code_simp
  qed
  then show ?thesis using length_table_bytes [OF o, of ?bs "index_seps sample_options ?bs"] by (simp add: table_file_def Let_def)
qed

theorem table_lookups_read_witness:
  "let es = sample_entries (sample_file 9 [] 0 [] 0); cache = new_ShardedLRUCache 1000
   in \<exists>r t rs. build_table sample_options empty_file (map kv es) = Some (OK, r) \<and>
     Table_Open lru_block_cache sample_options (file_of (contents (tb_file r))) (FileSize r) (Some cache) = Some (OK, Some t, Some (snd (NewId cache))) \<and>
     get_all lru_block_cache t new_ReadOptions [lookup_ikey [1] 9, lookup_ikey [2] 9] (Some (snd (NewId cache))) = Some rs \<and>
     list_all2 (\<lambda>k r. reads BytewiseCompare (\<lambda>_. es) (\<lambda>_ _. r) k (sample_file 9 [] 0 [] 0)) [lookup_ikey [1] 9, lookup_ikey [2] 9] rs"
proof -
  let ?es = "sample_entries (sample_file 9 [] 0 [] 0)" and ?ks = "[lookup_ikey [1] 9, lookup_ikey [2] 9]"
  let ?c = "new_ShardedLRUCache 1000" let ?c' = "snd (NewId ?c)"
  have o: "0 < block_restart_interval sample_options" by (simp add: sample_options_def)
  obtain r where r: "build_table sample_options empty_file (map kv ?es) = Some (OK, r)" "contents (tb_file r) = table_file sample_options (map kv ?es)"
      "FileSize r = of_nat (length (table_file sample_options (map kv ?es)))"
    by (rule build_table_ok [OF empty_file o])
  have f: "serves (file_of (contents (tb_file r))) (contents (tb_file r))" "length (contents (tb_file r)) < 2 ^ 32"
    using serves_file_of sample_size by (simp_all add: r(2))
  obtain t where t: "Table_Open lru_block_cache sample_options (file_of (contents (tb_file r))) (FileSize r) (Some ?c) = Some (OK, Some t, Some ?c')"
    using Table_Open_ok [of "file_of (contents (tb_file r))" sample_options "split_blocks sample_options [] (map kv ?es)"
        "index_seps sample_options (split_blocks sample_options [] (map kv ?es))" lru_block_cache "Some ?c"] f o r(2,3)
    by (auto simp: table_file_def Let_def lru_block_cache_def NewId_def)
  have c: "entries_sorted BytewiseCompare ?es" "list_all (\<lambda>k. 8 \<le> length k) ?ks" by code_simp+
  have p: "opt_comparator sample_options = InternalKeyComparator 0 BytewiseCompare BytewiseFindShortestSeparator BytewiseFindShortSuccessor"
    "filter_policy_opt sample_options = map_option InternalFilterPolicy None" "good_policy None"
    by (simp_all add: sample_options_def good_policy_def)
  have "case Some t of None \<Rightarrow> True | Some t' \<Rightarrow> unused_id lru_block_cache (tr_cache_id t') (Some ?c')"
    using lru.block_cache_axioms lru_new by (auto simp: unused_id_def all_cached_def)
  from table_lookups_read [OF c(1) o empty_file p r(1) f t c(2) this] show ?thesis
    unfolding Let_def using r(1) t by blast
qed

text \<open>
  (C3) Versions and tables together: a lookup in a version whose tables are the files that \<^verbatim>\<open>TableBuilder\<close> writes for their entries, opened
  by \<^verbatim>\<open>Table::Open\<close> and searched by \<^verbatim>\<open>Table::InternalGet\<close>, gives the newest visible entry of the key: its value, or not found for a deletion or when there
  is none.
\<close>

theorem version_reads_tables:
  assumes "version_ok BytewiseCompare ct v" "length u + 8 < 2 ^ 32" "t \<le> kMaxSequenceNumber" "newest_visible (version_entries ct v) u t r"
    and "0 < block_restart_interval opts"
    and "opt_comparator opts = InternalKeyComparator address BytewiseCompare BytewiseFindShortestSeparator BytewiseFindShortSuccessor"
    and "filter_policy_opt opts = map_option InternalFilterPolicy policy" "good_policy policy"
    and "list_all (list_all (\<lambda>f. length (table_file opts (map kv (ct f))) < 2 ^ 32)) (v_files v)"
  shows "\<exists>stats. Version_Get BytewiseCompare (built_get opts options ct) v (new_LookupKey u t) value =
    (fst (lookup_answer value r), snd (lookup_answer value r), stats)"
  using bytewise.Version_Get_tables [OF assms] .

theorem version_reads_tables_witness:
  "\<exists>stats. Version_Get BytewiseCompare (built_get sample_options new_ReadOptions sample_entries) sample_version (new_LookupKey [1] 6) [] = (OK, [65], stats)"
proof -
  let ?r = "Some (\<lparr>user_key = [1], sequence = 5, key_type = kTypeValue\<rparr>, [65])"
  have "version_ok BytewiseCompare sample_entries sample_version" "6 \<le> kMaxSequenceNumber"
    "newest_visible (version_entries sample_entries sample_version) [1] 6 ?r"
    by code_simp+
  moreover have "opt_comparator sample_options = InternalKeyComparator 0 BytewiseCompare BytewiseFindShortestSeparator BytewiseFindShortSuccessor"
    "filter_policy_opt sample_options = map_option InternalFilterPolicy None" "good_policy None" "0 < block_restart_interval sample_options"
    by (simp_all add: sample_options_def good_policy_def)
  ultimately show ?thesis
    using version_reads_tables [of sample_entries sample_version "[1]" 6 ?r sample_options 0 None new_ReadOptions "[]"] sample_size
    by (simp add: list_all_iff)
qed

end
