(* ===== verification/Ldb_Version_Set.thy ===== *)
theory Ldb_Version_Set
  imports Ldb_Version Ldb_Log_Spec
begin

text \<open>
  The set of versions (\<^verbatim>\<open>db/version_set.cc\<close>): the builder that applies edits to a version, and \<^verbatim>\<open>LogAndApply\<close>, \<^verbatim>\<open>WriteSnapshot\<close> and \<^verbatim>\<open>Recover\<close>, which
  keep the version in the manifest.  The ordered set of added files is its ascending list.  Reference counts, which decide only when a
  record is freed, and the compaction score are left out.
\<close>

subsection \<open>The builder\<close>

definition BySmallestKey :: "(byte list \<Rightarrow> byte list \<Rightarrow> int) \<Rightarrow> FileMetaData \<Rightarrow> FileMetaData \<Rightarrow> bool" where
  "BySmallestKey cmp f1 f2 =
     (let r = InternalCompare cmp (fm_smallest f1) (fm_smallest f2) in
      if r \<noteq> 0 then r < 0 else fm_number f1 < fm_number f2)"

fun file_insert :: "(byte list \<Rightarrow> byte list \<Rightarrow> int) \<Rightarrow> FileMetaData \<Rightarrow> FileMetaData list \<Rightarrow> FileMetaData list" where
  "file_insert cmp f [] = [f]"
| "file_insert cmp f (g # gs) =
     (if BySmallestKey cmp f g then f # g # gs
      else if BySmallestKey cmp g f then g # file_insert cmp f gs
      else g # gs)"

record LevelState =
  deleted_files :: "uint64 list"
  added_files :: "FileMetaData list"

record Builder =
  b_base :: Version
  b_levels :: "LevelState list"

definition new_Builder :: "Version \<Rightarrow> Builder" where
  "new_Builder base = \<lparr>b_base = base, b_levels = replicate kNumLevels \<lparr>deleted_files = [], added_files = []\<rparr>\<rparr>"

definition set_pointers :: "(nat \<times> byte list) list \<Rightarrow> byte list list \<Rightarrow> byte list list" where
  "set_pointers ps compact_pointer = foldl (\<lambda>c (level, key). c[level := key]) compact_pointer ps"

definition delete_file :: "LevelState list \<Rightarrow> nat \<times> uint64 \<Rightarrow> LevelState list" where
  "delete_file levels = (\<lambda>(level, number).
     let ls = levels ! level in levels[level := ls\<lparr>deleted_files := List.insert number (deleted_files ls)\<rparr>])"

text \<open>The seeks that a new table allows; the quotient is cast to a 32-bit integer.\<close>

definition seeks_for :: "uint64 \<Rightarrow> int" where
  "seeks_for file_size = (let n = sint (ucast (file_size div 16384) :: 32 word) in if n < 100 then 100 else n)"

definition prepared :: "FileMetaData \<Rightarrow> FileMetaData" where
  "prepared f = f\<lparr>fm_refs := 1, fm_allowed_seeks := seeks_for (fm_file_size f)\<rparr>"

definition add_file :: "(byte list \<Rightarrow> byte list \<Rightarrow> int) \<Rightarrow> LevelState list \<Rightarrow> nat \<times> FileMetaData \<Rightarrow> LevelState list" where
  "add_file cmp levels = (\<lambda>(level, f).
     let ls = levels ! level
     in levels[level := ls\<lparr>deleted_files := removeAll (fm_number f) (deleted_files ls),
                           added_files := file_insert cmp (prepared f) (added_files ls)\<rparr>])"

definition Builder_Apply ::
  "(byte list \<Rightarrow> byte list \<Rightarrow> int) \<Rightarrow> VersionEdit \<Rightarrow> byte list list \<times> Builder \<Rightarrow> byte list list \<times> Builder" where
  "Builder_Apply cmp e = (\<lambda>(compact_pointer, b).
     (set_pointers (ve_compact_pointers e) compact_pointer,
      b\<lparr>b_levels := foldl (add_file cmp) (foldl delete_file (b_levels b) (ve_deleted_files e)) (ve_new_files e)\<rparr>))"

definition MaybeAddFile :: "uint64 list \<Rightarrow> FileMetaData list \<Rightarrow> FileMetaData \<Rightarrow> FileMetaData list" where
  "MaybeAddFile deleted files f = (if fm_number f \<in> set deleted then files else files @ [f])"

text \<open>\<^verbatim>\<open>std::upper_bound\<close> on the ascending base files is the first one that is greater than the added file.\<close>

primrec save_level ::
  "(byte list \<Rightarrow> byte list \<Rightarrow> int) \<Rightarrow> uint64 list \<Rightarrow> FileMetaData list \<Rightarrow> FileMetaData list \<Rightarrow> FileMetaData list \<Rightarrow> FileMetaData list" where
  "save_level cmp deleted [] base files = foldl (MaybeAddFile deleted) files base"
| "save_level cmp deleted (a # added) base files =
     save_level cmp deleted added (dropWhile (\<lambda>b. \<not> BySmallestKey cmp a b) base)
       (MaybeAddFile deleted (foldl (MaybeAddFile deleted) files (takeWhile (\<lambda>b. \<not> BySmallestKey cmp a b) base)) a)"

definition SaveTo :: "(byte list \<Rightarrow> byte list \<Rightarrow> int) \<Rightarrow> Builder \<Rightarrow> Version \<Rightarrow> Version" where
  "SaveTo cmp b v =
     v\<lparr>v_files := map (\<lambda>(files, base, ls). save_level cmp (deleted_files ls) (added_files ls) base files)
                   (zip (v_files v) (zip (v_files (b_base b)) (b_levels b)))\<rparr>"

subsection \<open>The set of versions\<close>

record VersionSet =
  vs_next_file_number :: uint64
  vs_manifest_file_number :: uint64
  vs_last_sequence :: SequenceNumber
  vs_log_number :: uint64
  vs_prev_log_number :: uint64
  vs_descriptor_log :: "Writer option"
  vs_compact_pointer :: "byte list list"
  vs_current :: Version

definition new_VersionSet :: VersionSet where
  "new_VersionSet =
     \<lparr>vs_next_file_number = 2, vs_manifest_file_number = 0, vs_last_sequence = 0, vs_log_number = 0, vs_prev_log_number = 0,
      vs_descriptor_log = None, vs_compact_pointer = replicate kNumLevels [], vs_current = new_Version\<rparr>"

definition MarkFileNumberUsed :: "uint64 \<Rightarrow> VersionSet \<Rightarrow> VersionSet" where
  "MarkFileNumberUsed number vs =
     (if vs_next_file_number vs \<le> number then vs\<lparr>vs_next_file_number := number + 1\<rparr> else vs)"

definition NewFileNumber :: "VersionSet \<Rightarrow> uint64 \<times> VersionSet" where
  "NewFileNumber vs = (vs_next_file_number vs, vs\<lparr>vs_next_file_number := vs_next_file_number vs + 1\<rparr>)"

definition ReuseFileNumber :: "uint64 \<Rightarrow> VersionSet \<Rightarrow> VersionSet" where
  "ReuseFileNumber file_number vs =
     (if vs_next_file_number vs = file_number + 1 then vs\<lparr>vs_next_file_number := file_number\<rparr> else vs)"

text \<open>The edit that says all of the current version; \<open>name\<close> is the name of the user comparator.\<close>

definition snapshot_edit :: "byte list \<Rightarrow> VersionSet \<Rightarrow> VersionEdit" where
  "snapshot_edit name vs =
     (let edit = SetComparatorName name new_VersionEdit;
          edit = foldl (\<lambda>e (level, key). if key \<noteq> [] then SetCompactPointer level key e else e) edit (enumerate 0 (vs_compact_pointer vs))
      in foldl (\<lambda>e (level, files). foldl (\<lambda>e f. Edit_AddFile level (fm_number f) (fm_file_size f) (fm_smallest f) (fm_largest f) e) e files)
           edit (enumerate 0 (v_files (vs_current vs))))"

definition WriteSnapshot :: "byte list \<Rightarrow> VersionSet \<Rightarrow> Writer \<Rightarrow> Status \<times> Writer" where
  "WriteSnapshot name vs log = AddRecord log (EncodeTo (snapshot_edit name vs) [])"

text \<open>What the environment does in \<^verbatim>\<open>LogAndApply\<close>: the new manifest file, its \<^verbatim>\<open>Sync\<close>, and \<^verbatim>\<open>SetCurrentFile\<close>.\<close>

record manifest_env =
  new_manifest :: "Status \<times> WritableFile"
  manifest_sync :: Status
  set_current :: Status

definition complete_edit :: "VersionSet \<Rightarrow> VersionEdit \<Rightarrow> VersionEdit" where
  "complete_edit vs edit =
     (let edit = (if ve_has_log_number edit then edit else SetLogNumber (vs_log_number vs) edit);
          edit = (if ve_has_prev_log_number edit then edit else SetPrevLogNumber (vs_prev_log_number vs) edit)
      in SetLastSequence (vs_last_sequence vs) (SetNextFile (vs_next_file_number vs) edit))"

definition open_manifest :: "byte list \<Rightarrow> manifest_env \<Rightarrow> VersionSet \<Rightarrow> Status \<times> Writer option" where
  "open_manifest name env vs =
     (case vs_descriptor_log vs of
        Some log \<Rightarrow> (OK, Some log)
      | None \<Rightarrow>
          (case new_manifest env of (s, f) \<Rightarrow>
             if s = OK then (case WriteSnapshot name vs (new_Writer f 0) of (s, log) \<Rightarrow> (s, Some log)) else (s, None)))"

definition write_edit :: "manifest_env \<Rightarrow> VersionEdit \<Rightarrow> Status \<times> Writer option \<Rightarrow> Status \<times> Writer option" where
  "write_edit env edit = (\<lambda>(s, log).
     case (s, log) of
       (OK, Some w) \<Rightarrow> (case AddRecord w (EncodeTo edit []) of (s, w) \<Rightarrow> (if s = OK then manifest_sync env else s, Some w))
     | _ \<Rightarrow> (s, log))"

definition LogAndApply ::
  "(byte list \<Rightarrow> byte list \<Rightarrow> int) \<Rightarrow> byte list \<Rightarrow> manifest_env \<Rightarrow> VersionEdit \<Rightarrow> VersionSet \<Rightarrow> Status \<times> VersionEdit \<times> VersionSet" where
  "LogAndApply cmp name env edit vs =
     (let edit = complete_edit vs edit;
          (compact_pointer, b) = Builder_Apply cmp edit (vs_compact_pointer vs, new_Builder (vs_current vs));
          v = SaveTo cmp b new_Version;
          vs = vs\<lparr>vs_compact_pointer := compact_pointer\<rparr>;
          fresh = (vs_descriptor_log vs = None);
          (s, log) = write_edit env edit (open_manifest name env vs);
          s = (if s = OK \<and> fresh then set_current env else s)
      in if s = OK
         then (s, edit, vs\<lparr>vs_descriptor_log := log, vs_current := v, vs_log_number := ve_log_number edit, vs_prev_log_number := ve_prev_log_number edit\<rparr>)
         else (s, edit, vs\<lparr>vs_descriptor_log := (if fresh then None else log)\<rparr>))"

subsection \<open>Recovery of the manifest\<close>

record manifest_state =
  ms_status :: Status
  ms_pointers :: "byte list list"
  ms_builder :: Builder
  ms_log_number :: "uint64 option"
  ms_prev_log_number :: "uint64 option"
  ms_next_file :: "uint64 option"
  ms_last_sequence :: "uint64 option"

definition manifest_reports :: "(uint64 \<times> Status) list \<Rightarrow> manifest_state \<Rightarrow> manifest_state" where
  "manifest_reports rs st = fold (\<lambda>(_, s) st. if ms_status st = OK then st\<lparr>ms_status := s\<rparr> else st) rs st"

definition note_number :: "bool \<Rightarrow> uint64 \<Rightarrow> uint64 option \<Rightarrow> uint64 option" where
  "note_number has n old = (if has then Some n else old)"

definition recover_edit :: "(byte list \<Rightarrow> byte list \<Rightarrow> int) \<Rightarrow> byte list \<Rightarrow> byte list \<Rightarrow> manifest_state \<Rightarrow> manifest_state" where
  "recover_edit cmp name record st =
     (let (s, edit) = Edit_DecodeFrom new_VersionEdit record;
          s = (if s = OK \<and> ve_has_comparator edit \<and> ve_comparator edit \<noteq> name then InvalidArgument '' does not match existing comparator '' else s);
          (compact_pointer, b) = (if s = OK then Builder_Apply cmp edit (ms_pointers st, ms_builder st) else (ms_pointers st, ms_builder st))
      in st\<lparr>ms_status := s, ms_pointers := compact_pointer, ms_builder := b,
            ms_log_number := note_number (ve_has_log_number edit) (ve_log_number edit) (ms_log_number st),
            ms_prev_log_number := note_number (ve_has_prev_log_number edit) (ve_prev_log_number edit) (ms_prev_log_number st),
            ms_next_file := note_number (ve_has_next_file_number edit) (ve_next_file_number edit) (ms_next_file st),
            ms_last_sequence := note_number (ve_has_last_sequence edit) (ve_last_sequence edit) (ms_last_sequence st)\<rparr>)"

function recover_loop :: "(byte list \<Rightarrow> byte list \<Rightarrow> int) \<Rightarrow> byte list \<Rightarrow> Reader \<Rightarrow> manifest_state \<Rightarrow> manifest_state" where
  "recover_loop cmp name r st =
     (case ReadRecord r of
        (record, r') \<Rightarrow>
          (let st = manifest_reports (drop (length (reports r)) (reports r')) st
           in case record of
                None \<Rightarrow> st
              | Some data \<Rightarrow> if ms_status st = OK then recover_loop cmp name r' (recover_edit cmp name data st) else st))"
  by pat_completeness auto
termination
  by (relation "measure (\<lambda>(cmp, name, r, st). remaining r)") (auto dest: ReadRecord_consumes [OF sym])

declare recover_loop.simps [simp del]

definition descriptor_checks :: "manifest_state \<Rightarrow> Status" where
  "descriptor_checks st =
     (if ms_status st \<noteq> OK then ms_status st
      else if ms_next_file st = None then Corruption ''no meta-nextfile entry in descriptor''
      else if ms_log_number st = None then Corruption ''no meta-lognumber entry in descriptor''
      else if ms_last_sequence st = None then Corruption ''no last-sequence-number entry in descriptor''
      else OK)"

text \<open>
  \<^verbatim>\<open>Recover\<close>: \<open>current\<close> is what reading \<^verbatim>\<open>CURRENT\<close> gives, \<open>open_file\<close> opens the manifest of a name, and \<open>reuse\<close> is what \<^verbatim>\<open>ReuseManifest\<close> finds: the number,
  the appendable file and the size of a manifest that may be used again.  The result is the status, \<^verbatim>\<open>save_manifest\<close> and the set.
\<close>

definition VersionSet_Recover ::
  "(byte list \<Rightarrow> byte list \<Rightarrow> int) \<Rightarrow> byte list \<Rightarrow> Status \<times> byte list \<Rightarrow> (byte list \<Rightarrow> Status \<times> SequentialFile) \<Rightarrow>
   (uint64 \<times> WritableFile \<times> nat) option \<Rightarrow> bool \<Rightarrow> VersionSet \<Rightarrow> Status \<times> bool \<times> VersionSet" where
  "VersionSet_Recover cmp name current open_file reuse save_manifest vs =
     (case current of (s, cur) \<Rightarrow>
        if s \<noteq> OK then (s, save_manifest, vs)
        else if cur = [] \<or> last cur \<noteq> 10 then (Corruption ''CURRENT file does not end with newline'', save_manifest, vs)
        else (case open_file (butlast cur) of (s, src) \<Rightarrow>
          if s \<noteq> OK
          then ((case s of NotFound _ \<Rightarrow> Corruption ''CURRENT points to a non-existent file'' | _ \<Rightarrow> s), save_manifest, vs)
          else
            (let st = recover_loop cmp name (new_Reader src True True 0)
                 \<lparr>ms_status = OK, ms_pointers = vs_compact_pointer vs, ms_builder = new_Builder (vs_current vs),
                  ms_log_number = None, ms_prev_log_number = None, ms_next_file = None, ms_last_sequence = None\<rparr>;
               s = descriptor_checks st;
               vs = vs\<lparr>vs_compact_pointer := ms_pointers st\<rparr>;
               log_number = (case ms_log_number st of Some n \<Rightarrow> n | None \<Rightarrow> 0);
               prev_log_number = (case ms_prev_log_number st of Some n \<Rightarrow> n | None \<Rightarrow> 0);
               next_file = (case ms_next_file st of Some n \<Rightarrow> n | None \<Rightarrow> 0);
               vs = (if ms_status st = OK then MarkFileNumberUsed log_number (MarkFileNumberUsed prev_log_number vs) else vs)
             in if s \<noteq> OK then (s, save_manifest, vs)
                else
                  (let vs = vs\<lparr>vs_current := SaveTo cmp (ms_builder st) new_Version, vs_manifest_file_number := next_file,
                               vs_next_file_number := next_file + 1,
                               vs_last_sequence := (case ms_last_sequence st of Some n \<Rightarrow> n | None \<Rightarrow> 0),
                               vs_log_number := log_number, vs_prev_log_number := prev_log_number\<rparr>
                   in case reuse of
                        Some (number, f, sz) \<Rightarrow> (OK, save_manifest, vs\<lparr>vs_descriptor_log := Some (new_Writer f sz), vs_manifest_file_number := number\<rparr>)
                      | None \<Rightarrow> (OK, True, vs)))))"

subsection \<open>Edits of one level\<close>

definition level_dels :: "nat \<Rightarrow> VersionEdit \<Rightarrow> uint64 list" where
  "level_dels l e = map snd (filter (\<lambda>p. fst p = l) (ve_deleted_files e))"

definition level_adds :: "nat \<Rightarrow> VersionEdit \<Rightarrow> FileMetaData list" where
  "level_adds l e = map snd (filter (\<lambda>p. fst p = l) (ve_new_files e))"

definition level_apply :: "(byte list \<Rightarrow> byte list \<Rightarrow> int) \<Rightarrow> nat \<Rightarrow> LevelState \<Rightarrow> VersionEdit \<Rightarrow> LevelState" where
  "level_apply cmp l ls e =
     \<lparr>deleted_files = foldl (\<lambda>d f. removeAll (fm_number f) d) (foldl (\<lambda>d n. List.insert n d) (deleted_files ls) (level_dels l e)) (level_adds l e),
      added_files = foldl (\<lambda>a f. file_insert cmp (prepared f) a) (added_files ls) (level_adds l e)\<rparr>"

lemma foldl_delete_file:
  assumes "l < length levels"
  shows "foldl delete_file levels ds ! l =
      (levels ! l)\<lparr>deleted_files := foldl (\<lambda>d n. List.insert n d) (deleted_files (levels ! l)) (map snd (filter (\<lambda>p. fst p = l) ds))\<rparr> \<and>
    length (foldl delete_file levels ds) = length levels"
  using assms
  by (induction ds arbitrary: levels) (auto simp: delete_file_def Let_def split: prod.splits)

lemma foldl_add_file:
  assumes "l < length levels"
  shows "foldl (add_file cmp) levels fs ! l =
      (levels ! l)\<lparr>deleted_files := foldl (\<lambda>d f. removeAll (fm_number f) d) (deleted_files (levels ! l)) (map snd (filter (\<lambda>p. fst p = l) fs)),
        added_files := foldl (\<lambda>a f. file_insert cmp (prepared f) a) (added_files (levels ! l)) (map snd (filter (\<lambda>p. fst p = l) fs))\<rparr> \<and>
    length (foldl (add_file cmp) levels fs) = length levels"
  using assms
  by (induction fs arbitrary: levels) (auto simp: add_file_def Let_def split: prod.splits)

lemma Builder_Apply_level:
  assumes "l < length (b_levels b)"
  shows "b_levels (snd (Builder_Apply cmp e (c, b))) ! l = level_apply cmp l (b_levels b ! l) e"
    "length (b_levels (snd (Builder_Apply cmp e (c, b)))) = length (b_levels b)" "b_base (snd (Builder_Apply cmp e (c, b))) = b_base b"
  using foldl_delete_file [OF assms, of "ve_deleted_files e"]
    foldl_add_file [of l "foldl delete_file (b_levels b) (ve_deleted_files e)" cmp "ve_new_files e"] assms
  by (simp_all add: Builder_Apply_def level_apply_def level_dels_def level_adds_def)

lemma Builder_Apply_fold:
  assumes "l < length (b_levels b)"
  shows "b_levels (snd (foldl (\<lambda>cb e. Builder_Apply cmp e cb) (c, b) es)) ! l = foldl (level_apply cmp l) (b_levels b ! l) es \<and>
    length (b_levels (snd (foldl (\<lambda>cb e. Builder_Apply cmp e cb) (c, b) es))) = length (b_levels b) \<and>
    b_base (snd (foldl (\<lambda>cb e. Builder_Apply cmp e cb) (c, b) es)) = b_base b"
  using assms
proof (induction es arbitrary: c b)
  case (Cons e es)
  obtain c1 b1 where a: "Builder_Apply cmp e (c, b) = (c1, b1)" by fastforce
  show ?case using Cons.IH [of b1 c1] Builder_Apply_level [OF Cons.prems, of cmp e c] Cons.prems by (simp add: a)
qed simp

subsection \<open>Merging the added files\<close>

primrec merged :: "(byte list \<Rightarrow> byte list \<Rightarrow> int) \<Rightarrow> FileMetaData list \<Rightarrow> FileMetaData list \<Rightarrow> FileMetaData list" where
  "merged cmp [] base = base"
| "merged cmp (a # added) base =
     takeWhile (\<lambda>b. \<not> BySmallestKey cmp a b) base @ a # merged cmp added (dropWhile (\<lambda>b. \<not> BySmallestKey cmp a b) base)"

definition save_files :: "(byte list \<Rightarrow> byte list \<Rightarrow> int) \<Rightarrow> LevelState \<Rightarrow> FileMetaData list \<Rightarrow> FileMetaData list" where
  "save_files cmp ls base = filter (\<lambda>f. fm_number f \<notin> set (deleted_files ls)) (merged cmp (added_files ls) base)"

lemma foldl_MaybeAddFile: "foldl (MaybeAddFile d) files xs = files @ filter (\<lambda>f. fm_number f \<notin> set d) xs"
  by (induction xs arbitrary: files) (simp_all add: MaybeAddFile_def)

lemma save_level_merged: "save_level cmp d added base files = files @ filter (\<lambda>f. fm_number f \<notin> set d) (merged cmp added base)"
  by (induction added arbitrary: base files) (simp_all add: foldl_MaybeAddFile MaybeAddFile_def)

lemma set_merged: "set (merged cmp added base) = set added \<union> set base"
proof (induction added arbitrary: base)
  case (Cons a added)
  have "set base = set (takeWhile (\<lambda>b. \<not> BySmallestKey cmp a b) base) \<union> set (dropWhile (\<lambda>b. \<not> BySmallestKey cmp a b) base)"
    by (metis set_append takeWhile_dropWhile_id)
  then show ?case using Cons by auto
qed simp

lemma set_deleted:
  "set (deleted_files (level_apply cmp l ls e)) = (set (deleted_files ls) \<union> set (level_dels l e)) - fm_number ` set (level_adds l e)"
proof -
  have i: "set (foldl (\<lambda>d n. List.insert n d) d xs) = set d \<union> set xs" for d xs by (induction xs arbitrary: d) auto
  have r: "set (foldl (\<lambda>d f. removeAll (fm_number f) d) d fs) = set d - fm_number ` set fs" for d and fs :: "FileMetaData list"
    by (induction fs arbitrary: d) auto
  show ?thesis by (simp add: level_apply_def i r)
qed

text \<open>The order of the files of a level, for keys that are long enough to be compared.\<close>

definition files_sorted :: "(byte list \<Rightarrow> byte list \<Rightarrow> int) \<Rightarrow> FileMetaData list \<Rightarrow> bool" where
  "files_sorted cmp fs \<longleftrightarrow> list_all (\<lambda>f. 8 \<le> length (fm_smallest f)) fs \<and> sorted_wrt (BySmallestKey cmp) fs"

lemma prepared_simps [simp]:
  "fm_number (prepared f) = fm_number f" "fm_smallest (prepared f) = fm_smallest f" "fm_largest (prepared f) = fm_largest f"
  "fm_file_size (prepared f) = fm_file_size f" "prepared (prepared f) = prepared f"
  by (simp_all add: prepared_def)

lemma sorted_wrt_unique:
  assumes "sorted_wrt R xs" "sorted_wrt R ys" "set xs = set ys" "\<And>x y. x \<in> set xs \<Longrightarrow> y \<in> set xs \<Longrightarrow> R x y \<Longrightarrow> \<not> R y x"
  shows "xs = ys"
  using assms
proof (induction xs arbitrary: ys)
  case (Cons x xs)
  obtain y ys' where y: "ys = y # ys'" using Cons.prems(3) by (cases ys) auto
  have xy: "x = y"
  proof (rule ccontr)
    assume ne: "x \<noteq> y"
    then have "y \<in> set xs" "x \<in> set ys'" using Cons.prems(3) y by auto
    then have "R x y" "R y x" using Cons.prems(1,2) y by simp_all
    then show False using Cons.prems(4) [of x y] \<open>y \<in> set xs\<close> by simp
  qed
  have "\<not> R x x" using Cons.prems(4) [of x x] by auto
  then have "x \<notin> set xs" "x \<notin> set ys'" using Cons.prems(1,2) y xy by auto
  then have set_eq: "set xs = set ys'" using Cons.prems(3) y xy by auto
  have "xs = ys'"
  proof (rule Cons.IH)
    show "\<not> R b a" if "a \<in> set xs" "b \<in> set xs" "R a b" for a b using Cons.prems(4) [of a b] that by simp
  qed (use Cons.prems(1,2) y set_eq in simp_all)
  then show ?case using y xy by simp
qed simp

context user_comparator
begin

lemma BySmallestKey_order:
  assumes "8 \<le> length (fm_smallest f)" "8 \<le> length (fm_smallest g)"
  shows "BySmallestKey cmp f g \<Longrightarrow> \<not> BySmallestKey cmp g f"
    "fm_number f \<noteq> fm_number g \<Longrightarrow> BySmallestKey cmp f g \<or> BySmallestKey cmp g f"
    "8 \<le> length (fm_smallest h) \<Longrightarrow> BySmallestKey cmp f g \<Longrightarrow> BySmallestKey cmp g h \<Longrightarrow> BySmallestKey cmp f h"
proof -
  note s = internal.cmp_swap [OF assms] internal.cmp_swap [OF assms(2,1)]
  show "BySmallestKey cmp f g \<Longrightarrow> \<not> BySmallestKey cmp g f"
    using s by (auto simp: BySmallestKey_def Let_def split: if_splits)
  show "fm_number f \<noteq> fm_number g \<Longrightarrow> BySmallestKey cmp f g \<or> BySmallestKey cmp g f"
    using s by (auto simp: BySmallestKey_def Let_def split: if_splits)
  assume h: "8 \<le> length (fm_smallest h)" and fg: "BySmallestKey cmp f g" and gh: "BySmallestKey cmp g h"
  let ?c = "\<lambda>a b. InternalCompare cmp (fm_smallest a) (fm_smallest b)"
  consider "?c f g < 0" "?c g h < 0" | "?c f g < 0" "?c g h = 0" | "?c f g = 0" "?c g h < 0" | "?c f g = 0" "?c g h = 0"
    using fg gh by (auto simp: BySmallestKey_def Let_def split: if_splits)
  then show "BySmallestKey cmp f h"
  proof cases
    case 4
    then have "?c f h \<le> 0" "?c h f \<le> 0"
      using internal.cmp_trans [OF assms h] internal.cmp_trans [OF h assms(2,1)] s internal.cmp_swap [OF assms(2) h] internal.cmp_swap [OF h assms(2)] by auto
    then have "?c f h = 0" using internal.cmp_swap [OF assms(1) h] internal.cmp_swap [OF h assms(1)] by auto
    then show ?thesis using 4 fg gh by (auto simp: BySmallestKey_def)
  qed (use internal.less_trans [OF assms h] internal.less_le_trans [OF assms h] internal.le_less_trans [OF assms h] in
      \<open>auto simp: BySmallestKey_def Let_def\<close>)
qed

end

context user_comparator
begin

lemma set_file_insert:
  assumes "8 \<le> length (fm_smallest f)" "\<forall>g\<in>set gs. 8 \<le> length (fm_smallest g) \<and> fm_number g \<noteq> fm_number f"
  shows "set (file_insert cmp f gs) = insert f (set gs)"
  using assms(2)
proof (induction gs)
  case (Cons g gs)
  then have "BySmallestKey cmp f g \<or> BySmallestKey cmp g f" using BySmallestKey_order(2) [OF assms(1), of g] by auto
  then show ?case using Cons by auto
qed simp

lemma sorted_file_insert:
  assumes "8 \<le> length (fm_smallest f)" "files_sorted cmp gs" "\<forall>g\<in>set gs. fm_number g \<noteq> fm_number f"
  shows "files_sorted cmp (file_insert cmp f gs)"
  using assms(2,3)
proof (induction gs)
  case Nil
  then show ?case using assms(1) by (simp add: files_sorted_def)
next
  case (Cons g gs)
  have v: "8 \<le> length (fm_smallest g)" "\<forall>h\<in>set gs. 8 \<le> length (fm_smallest h) \<and> BySmallestKey cmp g h"
    using Cons.prems by (auto simp: files_sorted_def list_all_iff)
  show ?case
  proof (cases "BySmallestKey cmp f g")
    case True
    have "BySmallestKey cmp f h" if "h \<in> set gs" for h
      using BySmallestKey_order(3) [OF assms(1) v(1) _ True] v(2) that by blast
    then show ?thesis using True Cons.prems assms(1) by (simp add: files_sorted_def)
  next
    case False
    then have "BySmallestKey cmp g f" using BySmallestKey_order(2) [OF assms(1) v(1)] Cons.prems by auto
    moreover have "set (file_insert cmp f gs) = insert f (set gs)"
      using set_file_insert [OF assms(1), of gs] Cons.prems v(2) by auto
    ultimately show ?thesis using False Cons v by (auto simp: files_sorted_def)
  qed
qed

lemma files_sorted_append:
  "files_sorted cmp (xs @ ys) \<longleftrightarrow> files_sorted cmp xs \<and> files_sorted cmp ys \<and> (\<forall>x\<in>set xs. \<forall>y\<in>set ys. BySmallestKey cmp x y)"
  by (auto simp: files_sorted_def sorted_wrt_append)

lemma files_sorted_Cons:
  "files_sorted cmp (x # ys) \<longleftrightarrow> 8 \<le> length (fm_smallest x) \<and> files_sorted cmp ys \<and> (\<forall>y\<in>set ys. BySmallestKey cmp x y)"
  by (auto simp: files_sorted_def)

lemma files_sorted_valid: "files_sorted cmp xs \<Longrightarrow> x \<in> set xs \<Longrightarrow> 8 \<le> length (fm_smallest x)"
  by (simp add: files_sorted_def list_all_iff)

lemma sorted_merged:
  assumes "files_sorted cmp added" "files_sorted cmp base" "\<forall>f\<in>set added. \<forall>g\<in>set base. fm_number f \<noteq> fm_number g"
  shows "files_sorted cmp (merged cmp added base)"
  using assms
proof (induction added arbitrary: base)
  case (Cons a added)
  let ?P = "\<lambda>b. \<not> BySmallestKey cmp a b"
  let ?T = "takeWhile ?P base" and ?D = "dropWhile ?P base"
  have td: "files_sorted cmp ?T" "files_sorted cmp ?D" "\<forall>x\<in>set ?T. \<forall>y\<in>set ?D. BySmallestKey cmp x y"
    using Cons.prems(2) files_sorted_append [of ?T ?D] by simp_all
  have va: "8 \<le> length (fm_smallest a)" and a: "\<forall>x\<in>set added. BySmallestKey cmp a x" using Cons.prems(1) by (simp_all add: files_sorted_Cons)
  note sub = set_takeWhileD [of _ ?P base] set_dropWhileD [of _ ?P base]
  have va': "8 \<le> length (fm_smallest x)" if "x \<in> set added" for x using Cons.prems(1) that by (auto simp: files_sorted_def list_all_iff)
  have before: "BySmallestKey cmp x a" if x: "x \<in> set ?T" for x
    using BySmallestKey_order(2) [OF va files_sorted_valid [OF td(1) x]] sub(1) [OF x] Cons.prems(3) by auto
  have after: "BySmallestKey cmp a y" if y: "y \<in> set ?D" for y
  proof -
    obtain d ds where d: "?D = d # ds" using y by (cases ?D) auto
    then have "BySmallestKey cmp a d" by (metis dropWhile_eq_Cons_conv)
    then show ?thesis
      using d y td(2) BySmallestKey_order(3) [OF va _ files_sorted_valid [OF td(2) y], of d] by (auto simp: files_sorted_Cons)
  qed
  have IH: "files_sorted cmp (merged cmp added ?D)"
    using Cons.IH [OF _ td(2)] Cons.prems sub(2) by (auto simp: files_sorted_Cons)
  have "BySmallestKey cmp x y" if x: "x \<in> set ?T" and y: "y \<in> insert a (set added \<union> set ?D)" for x y
  proof -
    consider "y = a" | "y \<in> set added" | "y \<in> set ?D" using y by blast
    then show ?thesis
    proof cases
      case 2
      then show ?thesis using BySmallestKey_order(3) [OF files_sorted_valid [OF td(1) x] va va' [OF 2] before [OF x]] a by blast
    qed (use before [OF x] td(3) x in auto)
  qed
  then have front: "\<forall>x\<in>set ?T. \<forall>y\<in>set (a # merged cmp added ?D). BySmallestKey cmp x y" by (simp add: set_merged)
  have "\<forall>y\<in>set (merged cmp added ?D). BySmallestKey cmp a y" using a after unfolding set_merged by blast
  then have "files_sorted cmp (a # merged cmp added ?D)" using IH va by (simp only: files_sorted_Cons simp_thms)
  then show ?case using front td(1) by (simp only: merged.simps files_sorted_append simp_thms)
qed simp

lemma files_sorted_filter: "files_sorted cmp xs \<Longrightarrow> files_sorted cmp (filter P xs)"
  by (auto simp: files_sorted_def list_all_iff sorted_wrt_filter)

lemma files_sorted_unique: "files_sorted cmp xs \<Longrightarrow> files_sorted cmp ys \<Longrightarrow> set xs = set ys \<Longrightarrow> xs = ys"
  by (rule sorted_wrt_unique [of "BySmallestKey cmp"])
    (use BySmallestKey_order(1) in \<open>auto simp: files_sorted_def list_all_iff\<close>)

end

subsection \<open>One edit and many\<close>

text \<open>The files of a level after an edit: those that it does not delete, and its new files.\<close>

definition edited :: "nat \<Rightarrow> VersionEdit \<Rightarrow> FileMetaData set \<Rightarrow> FileMetaData set" where
  "edited l e S = {f \<in> S. fm_number f \<notin> set (level_dels l e)} \<union> prepared ` set (level_adds l e)"

definition fresh_adds :: "nat \<Rightarrow> VersionEdit \<Rightarrow> uint64 set \<Rightarrow> bool" where
  "fresh_adds l e N \<longleftrightarrow> distinct (map fm_number (level_adds l e)) \<and> 
     (\<forall>f\<in>set (level_adds l e). fm_number f \<notin> N \<and> 8 \<le> length (fm_smallest f))"

text \<open>A builder on the files \<open>base\<close> of a level, and the files that it would save.\<close>

definition building :: "(byte list \<Rightarrow> byte list \<Rightarrow> int) \<Rightarrow> FileMetaData list \<Rightarrow> LevelState \<Rightarrow> bool" where
  "building cmp base ls \<longleftrightarrow> files_sorted cmp base \<and> files_sorted cmp (added_files ls) \<and> (\<forall>f\<in>set (added_files ls). \<forall>g\<in>set base. fm_number f \<noteq> fm_number g)"

definition live :: "FileMetaData list \<Rightarrow> LevelState \<Rightarrow> FileMetaData set" where
  "live base ls = {f \<in> set base \<union> set (added_files ls). fm_number f \<notin> set (deleted_files ls)}"

context user_comparator
begin

lemma building_saves:
  assumes "building cmp base ls"
  shows "files_sorted cmp (save_files cmp ls base)" "set (save_files cmp ls base) = live base ls"
  using assms sorted_merged [of "added_files ls" base]
  by (auto simp: building_def save_files_def live_def set_merged intro: files_sorted_filter)

lemma insert_added:
  assumes "files_sorted cmp as" "distinct (map fm_number fs)" "\<forall>f\<in>set fs. \<forall>g\<in>set as. fm_number f \<noteq> fm_number g"
    "\<forall>f\<in>set fs. 8 \<le> length (fm_smallest f)"
  shows "files_sorted cmp (foldl (\<lambda>a f. file_insert cmp (prepared f) a) as fs) \<and>
    set (foldl (\<lambda>a f. file_insert cmp (prepared f) a) as fs) = set as \<union> prepared ` set fs"
  using assms
proof (induction fs arbitrary: as)
  case (Cons f fs)
  have f: "8 \<le> length (fm_smallest (prepared f))" "\<forall>g\<in>set as. fm_number g \<noteq> fm_number (prepared f)" using Cons.prems(3,4) by auto
  have i: "set (file_insert cmp (prepared f) as) = insert (prepared f) (set as)"
    by (rule set_file_insert [OF f(1)]) (use f(2) files_sorted_valid [OF Cons.prems(1)] in blast)
  have "\<forall>h\<in>set fs. \<forall>g\<in>set (file_insert cmp (prepared f) as). fm_number h \<noteq> fm_number g"
    using Cons.prems(2,3) i by (auto simp: image_iff eq_commute [of "fm_number f"])
  then show ?case using Cons.IH [OF sorted_file_insert [OF f(1) Cons.prems(1) f(2)]] Cons.prems(2,4) i by auto
qed simp

lemma building_apply:
  assumes "building cmp base ls" "fresh_adds l e (fm_number ` (set base \<union> set (added_files ls)))"
  shows "building cmp base (level_apply cmp l ls e)" "live base (level_apply cmp l ls e) = edited l e (live base ls)"
    "fm_number ` set (added_files (level_apply cmp l ls e)) = fm_number ` set (added_files ls) \<union> fm_number ` set (level_adds l e)"
proof -
  let ?fs = "level_adds l e"
  have a: "files_sorted cmp (added_files (level_apply cmp l ls e))" "set (added_files (level_apply cmp l ls e)) = set (added_files ls) \<union> prepared ` set ?fs"
    using insert_added [of "added_files ls" ?fs] assms by (simp_all add: building_def fresh_adds_def level_apply_def image_Un disjoint_iff) blast+
  show "building cmp base (level_apply cmp l ls e)" using assms a by (auto simp: building_def fresh_adds_def)
  show "fm_number ` set (added_files (level_apply cmp l ls e)) = fm_number ` set (added_files ls) \<union> fm_number ` set ?fs"
    by (simp add: a(2) image_Un image_image)
  have n: "fm_number f \<notin> fm_number ` set ?fs" if "f \<in> set base \<union> set (added_files ls)" for f
    using assms(2) that unfolding fresh_adds_def by (metis imageE imageI)
  have "f \<in> live base (level_apply cmp l ls e) \<longleftrightarrow> f \<in> edited l e (live base ls)" for f
    using n [of f] by (auto simp: live_def edited_def a(2) set_deleted)
  then show "live base (level_apply cmp l ls e) = edited l e (live base ls)" by blast
qed

end

primrec fresh_all :: "nat \<Rightarrow> uint64 set \<Rightarrow> VersionEdit list \<Rightarrow> bool" where
  "fresh_all l N [] \<longleftrightarrow> True"
| "fresh_all l N (e # es) \<longleftrightarrow> fresh_adds l e N \<and> fresh_all l (N \<union> fm_number ` set (level_adds l e)) es"

abbreviation empty_level :: LevelState where
  "empty_level \<equiv> \<lparr>deleted_files = [], added_files = []\<rparr>"

definition level_step :: "(byte list \<Rightarrow> byte list \<Rightarrow> int) \<Rightarrow> nat \<Rightarrow> FileMetaData list \<Rightarrow> VersionEdit \<Rightarrow> FileMetaData list" where
  "level_step cmp l base e = save_files cmp (level_apply cmp l empty_level e) base"

lemma fresh_adds_subset: "fresh_adds l e N \<Longrightarrow> M \<subseteq> N \<Longrightarrow> fresh_adds l e M"
  by (auto simp: fresh_adds_def)

lemma edited_numbers: "fm_number ` edited l e S \<subseteq> fm_number ` S \<union> fm_number ` set (level_adds l e)"
  by (auto simp: edited_def)

context user_comparator
begin

lemma building_empty: "files_sorted cmp base \<Longrightarrow> building cmp base empty_level" "live base empty_level = set base"
  by (auto simp: building_def live_def files_sorted_def)

lemma level_step_spec:
  assumes "files_sorted cmp base" "fresh_adds l e (fm_number ` set base)"
  shows "files_sorted cmp (level_step cmp l base e)" "set (level_step cmp l base e) = edited l e (set base)"
  using building_saves [OF building_apply(1) [OF building_empty(1) [OF assms(1)], of l e]]
    building_apply(2) [OF building_empty(1) [OF assms(1)], of l e] building_empty(2) [of base] assms(2)
  by (simp_all add: level_step_def)

lemma level_steps_spec:
  assumes "files_sorted cmp base" "fm_number ` set base \<subseteq> N" "fresh_all l N es"
  shows "files_sorted cmp (foldl (level_step cmp l) base es) \<and> set (foldl (level_step cmp l) base es) = fold (edited l) es (set base)"
  using assms
proof (induction es arbitrary: base N)
  case (Cons e es)
  note s = level_step_spec [OF Cons.prems(1) fresh_adds_subset [OF _ Cons.prems(2)], of l e]
  have "fm_number ` set (level_step cmp l base e) \<subseteq> N \<union> fm_number ` set (level_adds l e)"
    using s(2) Cons.prems(2,3) edited_numbers [of l e "set base"] by (simp add: subset_iff) blast
  then show ?case using Cons.IH [OF s(1)] s(2) Cons.prems(3) by simp
qed simp

lemma builder_steps_spec:
  assumes "building cmp base ls" "fresh_all l (fm_number ` (set base \<union> set (added_files ls))) es"
  shows "building cmp base (foldl (level_apply cmp l) ls es) \<and> live base (foldl (level_apply cmp l) ls es) = fold (edited l) es (live base ls)"
  using assms
proof (induction es arbitrary: ls)
  case (Cons e es)
  note a = building_apply [OF Cons.prems(1), of l e]
  have f: "fresh_adds l e (fm_number ` (set base \<union> set (added_files ls)))" using Cons.prems(2) by simp
  have "fresh_all l (fm_number ` (set base \<union> set (added_files (level_apply cmp l ls e)))) es"
    using Cons.prems(2) a(3) [OF f] by (simp add: image_Un Un_assoc)
  then show ?case using Cons.IH [OF a(1) [OF f]] a(2) [OF f] by simp
qed simp

lemma builder_steps:
  assumes "files_sorted cmp base" "fresh_all l (fm_number ` set base) es"
  shows "save_files cmp (foldl (level_apply cmp l) empty_level es) base = foldl (level_step cmp l) base es"
  using builder_steps_spec [OF building_empty(1) [OF assms(1)], of l es] building_saves [of base "foldl (level_apply cmp l) empty_level es"]
    level_steps_spec [OF assms(1) subset_refl assms(2)] building_empty(2) [of base] assms(2)
  by (intro files_sorted_unique) simp_all

end

subsection \<open>Whole versions\<close>

definition edit_step :: "(byte list \<Rightarrow> byte list \<Rightarrow> int) \<Rightarrow> Version \<Rightarrow> VersionEdit \<Rightarrow> Version" where
  "edit_step cmp v e = SaveTo cmp (snd (Builder_Apply cmp e ([], new_Builder v))) new_Version"

text \<open>The levels are ordered as \<^verbatim>\<open>SaveTo\<close> leaves them, and no edit adds a file number to a level that had it before.\<close>

definition fresh_edits :: "(byte list \<Rightarrow> byte list \<Rightarrow> int) \<Rightarrow> Version \<Rightarrow> VersionEdit list \<Rightarrow> bool" where
  "fresh_edits cmp v es \<longleftrightarrow> length (v_files v) = kNumLevels \<and>
     (\<forall>l\<in>{..<kNumLevels}. files_sorted cmp (v_files v ! l) \<and> fresh_all l (fm_number ` set (v_files v ! l)) es)"

lemma SaveTo_level:
  assumes "length (v_files (b_base b)) = kNumLevels" "length (b_levels b) = kNumLevels"
  shows "length (v_files (SaveTo cmp b new_Version)) = kNumLevels"
    "l < kNumLevels \<Longrightarrow> v_files (SaveTo cmp b new_Version) ! l = save_files cmp (b_levels b ! l) (v_files (b_base b) ! l)"
  using assms by (simp_all add: SaveTo_def new_Version_def save_level_merged save_files_def)

lemma new_Builder_simps [simp]:
  "b_base (new_Builder v) = v" "length (b_levels (new_Builder v)) = kNumLevels" "l < kNumLevels \<Longrightarrow> b_levels (new_Builder v) ! l = empty_level"
  by (simp_all add: new_Builder_def)

lemma builder_levels:
  assumes "length (v_files v) = kNumLevels" "l < kNumLevels"
  shows "v_files (SaveTo cmp (snd (foldl (\<lambda>cb e. Builder_Apply cmp e cb) (c, new_Builder v) es)) new_Version) ! l =
      save_files cmp (foldl (level_apply cmp l) empty_level es) (v_files v ! l)"
    "length (v_files (SaveTo cmp (snd (foldl (\<lambda>cb e. Builder_Apply cmp e cb) (c, new_Builder v) es)) new_Version)) = kNumLevels"
  using Builder_Apply_fold [of l "new_Builder v" cmp c es] assms SaveTo_level by auto

lemma edit_step_level:
  assumes "length (v_files v) = kNumLevels"
  shows "length (v_files (edit_step cmp v e)) = kNumLevels" "l < kNumLevels \<Longrightarrow> v_files (edit_step cmp v e) ! l = level_step cmp l (v_files v ! l) e"
  using builder_levels(1) [OF assms, of l cmp "[]" "[e]"] builder_levels(2) [OF assms, of 0 cmp "[]" "[e]"]
  by (simp_all add: edit_step_def level_step_def) (simp add: kNumLevels_def)

lemma edit_steps_level:
  assumes "length (v_files v) = kNumLevels"
  shows "length (v_files (foldl (edit_step cmp) v es)) = kNumLevels \<and>
    (l < kNumLevels \<longrightarrow> v_files (foldl (edit_step cmp) v es) ! l = foldl (level_step cmp l) (v_files v ! l) es)"
  using assms by (induction es arbitrary: v) (simp_all add: edit_step_level)

context user_comparator
begin

lemma builder_batch:
  assumes "fresh_edits cmp v es"
  shows "v_files (SaveTo cmp (snd (foldl (\<lambda>cb e. Builder_Apply cmp e cb) (c, new_Builder v) es)) new_Version) =
    v_files (foldl (edit_step cmp) v es)"
proof (rule nth_equalityI)
  have l: "length (v_files v) = kNumLevels" using assms by (simp add: fresh_edits_def)
  show "length (v_files (SaveTo cmp (snd (foldl (\<lambda>cb e. Builder_Apply cmp e cb) (c, new_Builder v) es)) new_Version)) =
      length (v_files (foldl (edit_step cmp) v es))"
    using builder_levels(2) [OF l, of 0] edit_steps_level [OF l, of cmp es] by (simp add: kNumLevels_def)
  fix i assume "i < length (v_files (SaveTo cmp (snd (foldl (\<lambda>cb e. Builder_Apply cmp e cb) (c, new_Builder v) es)) new_Version))"
  then have i: "i < kNumLevels" using builder_levels(2) [OF l, of 0 cmp c es] by (simp add: kNumLevels_def)
  then show "v_files (SaveTo cmp (snd (foldl (\<lambda>cb e. Builder_Apply cmp e cb) (c, new_Builder v) es)) new_Version) ! i =
      v_files (foldl (edit_step cmp) v es) ! i"
    using builder_levels(1) [OF l i] edit_steps_level [OF l, of cmp es i] builder_steps assms by (simp add: fresh_edits_def)
qed

end

subsection \<open>Properties\<close>

text \<open>
  (C21) The builder may apply a whole sequence of edits at once: saving it gives the files that saving a version after every single edit gives, level by
  level and in the same order.  The edits name files that their level did not have before.
\<close>

theorem builder_applies_all:
  assumes "fresh_edits BytewiseCompare v es"
  shows "v_files (SaveTo BytewiseCompare (snd (foldl (\<lambda>cb e. Builder_Apply BytewiseCompare e cb) (c, new_Builder v) es)) new_Version) =
    v_files (foldl (edit_step BytewiseCompare) v es)"
  by (rule bytewise.builder_batch [OF assms])

theorem builder_applies_all_witness:
  "let v = new_Version\<lparr>v_files := [[sample_file 4 [1] 9 [3] 5, sample_file 7 [1] 8 [2] 3], [], [], [], [], [], []]\<rparr>;
       es = [Edit_DeleteFile 0 4 (Edit_AddFile 1 9 50 (start_key [1]) (limit_key [3]) new_VersionEdit), Edit_AddFile 0 11 50 (start_key [0]) (limit_key [9]) new_VersionEdit]
   in v_files (SaveTo BytewiseCompare (snd (foldl (\<lambda>cb e. Builder_Apply BytewiseCompare e cb) ([], new_Builder v) es)) new_Version) =
      v_files (foldl (edit_step BytewiseCompare) v es)"
  unfolding Let_def by (rule builder_applies_all) code_simp

end
