(* ===== verification/Ldb_Manifest.thy ===== *)
theory Ldb_Manifest
  imports Ldb_Version_Set
begin

text \<open>
  The manifest: what \<^verbatim>\<open>LogAndApply\<close> has written is what \<^verbatim>\<open>Recover\<close> reads.  The log of version edits is the write-ahead log, its records are encoded edits,
  and the builder applies all of them at once.
\<close>

subsection \<open>Files but for their bookkeeping\<close>

definition core :: "FileMetaData \<Rightarrow> FileMetaData" where
  "core f = f\<lparr>fm_refs := 0, fm_allowed_seeks := 0\<rparr>"

lemma core_simps [simp]:
  "fm_number (core f) = fm_number f" "fm_smallest (core f) = fm_smallest f" "fm_largest (core f) = fm_largest f"
  "fm_file_size (core f) = fm_file_size f" "core (prepared f) = core f" "BySmallestKey cmp (core f) (core g) = BySmallestKey cmp f g"
  "core (new_FileMetaData (fm_number f) (fm_file_size f) (fm_smallest f) (fm_largest f)) = core f"
  by (simp_all add: core_def prepared_def BySmallestKey_def new_FileMetaData_def)

lemma files_sorted_core: "files_sorted cmp (map core fs) = files_sorted cmp fs"
  by (simp add: files_sorted_def sorted_wrt_map list_all_iff)

lemma core_edited: "core ` edited l e S = {c \<in> core ` S. fm_number c \<notin> set (level_dels l e)} \<union> core ` set (level_adds l e)"
  by (auto simp: edited_def image_Un image_image)

lemma core_fold_edited: "core ` S = core ` T \<Longrightarrow> core ` fold (edited l) es S = core ` fold (edited l) es T"
  by (induction es arbitrary: S T) (simp_all add: core_edited)

context user_comparator
begin

lemma level_steps_core:
  assumes "files_sorted cmp as" "files_sorted cmp bs" "map core as = map core bs" "fresh_all l (fm_number ` set as) es"
  shows "map core (foldl (level_step cmp l) as es) = map core (foldl (level_step cmp l) bs es)"
proof -
  have c: "core ` set as = core ` set bs" using arg_cong [OF assms(3), of set] by simp
  have "fm_number ` core ` set as = fm_number ` core ` set bs" using c by simp
  then have n: "fm_number ` set bs = fm_number ` set as" by (simp add: image_image)
  note a = level_steps_spec [OF assms(1) subset_refl assms(4)] level_steps_spec [OF assms(2) _ assms(4)]
  show ?thesis
  proof (rule files_sorted_unique)
    show "set (map core (foldl (level_step cmp l) as es)) = set (map core (foldl (level_step cmp l) bs es))"
      using a n core_fold_edited [OF c, of l es] by simp
  qed (use a n in \<open>simp_all add: files_sorted_core\<close>)
qed

end

subsection \<open>The snapshot\<close>

definition snapshot_files :: "FileMetaData list list \<Rightarrow> (nat \<times> FileMetaData) list" where
  "snapshot_files levels =
     concat (map (\<lambda>(level, files). map (\<lambda>f. (level, new_FileMetaData (fm_number f) (fm_file_size f) (fm_smallest f) (fm_largest f))) files) (enumerate 0 levels))"

definition snapshot_pointers :: "byte list list \<Rightarrow> (nat \<times> byte list) list" where
  "snapshot_pointers ps = filter (\<lambda>(level, key). key \<noteq> []) (enumerate 0 ps)"

lemma foldl_AddFile:
  "foldl (\<lambda>e f. Edit_AddFile level (fm_number f) (fm_file_size f) (fm_smallest f) (fm_largest f) e) e files =
     e\<lparr>ve_new_files := ve_new_files e @ map (\<lambda>f. (level, new_FileMetaData (fm_number f) (fm_file_size f) (fm_smallest f) (fm_largest f))) files\<rparr>"
  by (induction files arbitrary: e) (simp_all add: Edit_AddFile_def)

lemma snapshot_edit_fields:
  "snapshot_edit name vs = new_VersionEdit\<lparr>ve_has_comparator := True, ve_comparator := name,
     ve_compact_pointers := snapshot_pointers (vs_compact_pointer vs), ve_new_files := snapshot_files (v_files (vs_current vs))\<rparr>"
proof -
  have p: "foldl (\<lambda>e (level, key). if key \<noteq> [] then SetCompactPointer level key e else e) e xs =
      e\<lparr>ve_compact_pointers := ve_compact_pointers e @ filter (\<lambda>(level, key). key \<noteq> []) xs\<rparr>" for e xs
    by (induction xs arbitrary: e) (auto simp: SetCompactPointer_def)
  have f: "foldl (\<lambda>e (level, files). foldl (\<lambda>e f. Edit_AddFile level (fm_number f) (fm_file_size f) (fm_smallest f) (fm_largest f) e) e files) e xs =
      e\<lparr>ve_new_files := ve_new_files e @ concat (map (\<lambda>(level, files). map (\<lambda>f. (level, new_FileMetaData (fm_number f) (fm_file_size f) (fm_smallest f) (fm_largest f))) files) xs)\<rparr>"
    for e xs
    by (induction xs arbitrary: e) (auto simp: foldl_AddFile)
  show ?thesis
    unfolding snapshot_edit_def Let_def p f by (simp add: SetComparatorName_def new_VersionEdit_def snapshot_pointers_def snapshot_files_def)
qed

lemma snapshot_level:
  assumes "l < length levels"
  shows "map snd (filter (\<lambda>p. fst p = l) (snapshot_files levels)) =
    map (\<lambda>f. new_FileMetaData (fm_number f) (fm_file_size f) (fm_smallest f) (fm_largest f)) (levels ! l)"
proof -
  let ?g = "\<lambda>f. new_FileMetaData (fm_number f) (fm_file_size f) (fm_smallest f) (fm_largest f)"
  have "map snd (filter (\<lambda>p. fst p = l) (concat (map (\<lambda>(level, files). map (\<lambda>f. (level, ?g f)) files) (enumerate n levels)))) =
      (if n \<le> l \<and> l - n < length levels then map ?g (levels ! (l - n)) else [])" for n
  proof (induction levels arbitrary: n)
    case (Cons files levels)
    have "filter (\<lambda>p. fst p = l) (map (\<lambda>f. (n, ?g f)) files) = (if n = l then map (\<lambda>f. (n, ?g f)) files else [])"
      by (simp add: filter_map comp_def)
    moreover have "Suc n \<le> l \<and> l - Suc n < length levels \<longleftrightarrow> n \<le> l \<and> l \<noteq> n \<and> l - n < Suc (length levels)" by auto
    moreover have "n < l \<Longrightarrow> (files # levels) ! (l - n) = levels ! (l - Suc n)" by (simp add: nth_Cons' Suc_diff_Suc)
    ultimately show ?case using Cons.IH [of "Suc n"] by (auto simp: comp_def)
  qed simp
  from this [of 0] show ?thesis using assms by (simp add: snapshot_files_def)
qed

lemma length_set_pointers [simp]: "length (set_pointers ps c) = length c"
  unfolding set_pointers_def by (induction ps arbitrary: c) (auto split: prod.splits)

lemma set_pointers_nth:
  assumes "l < length c"
  shows "set_pointers ps c ! l = (case find (\<lambda>p. fst p = l) (rev ps) of Some p \<Rightarrow> snd p | None \<Rightarrow> c ! l)"
  using assms
proof (induction ps rule: rev_induct)
  case (snoc p ps)
  have "set_pointers (ps @ [p]) c = (set_pointers ps c)[fst p := snd p]" by (simp add: set_pointers_def split: prod.splits)
  then show ?case using snoc length_set_pointers [of ps c] by (auto simp: nth_list_update)
qed (simp add: set_pointers_def)

lemma set_pointers_again: "set_pointers ps (set_pointers ps c) = set_pointers ps c"
  by (rule nth_equalityI) (auto simp: set_pointers_nth split: option.splits)

lemma set_pointers_snapshot: "set_pointers (snapshot_pointers c) (replicate (length c) []) = c"
proof (rule nth_equalityI)
  fix l assume "l < length (set_pointers (snapshot_pointers c) (replicate (length c) []))"
  then have l: "l < length c" by simp
  have d: "p \<in> set (snapshot_pointers c) \<Longrightarrow> snd p = c ! fst p \<and> snd p \<noteq> []" for p
    by (auto simp: snapshot_pointers_def in_set_enumerate_eq)
  show "set_pointers (snapshot_pointers c) (replicate (length c) []) ! l = c ! l"
  proof (cases "find (\<lambda>p. fst p = l) (rev (snapshot_pointers c))")
    case None
    then have "(l, c ! l) \<notin> set (snapshot_pointers c)" by (auto simp: find_None_iff)
    then have "c ! l = []" using l by (auto simp: snapshot_pointers_def in_set_enumerate_eq)
    then show ?thesis using None l by (simp add: set_pointers_nth)
  next
    case (Some p)
    then have "p \<in> set (snapshot_pointers c)" "fst p = l" by (auto simp: find_Some_iff) (metis nth_mem set_rev length_rev)
    then show ?thesis using Some l d by (simp add: set_pointers_nth)
  qed
qed simp

subsection \<open>Writing the manifest\<close>

text \<open>
  A run of \<^verbatim>\<open>LogAndApply\<close>: between the calls the database takes file and sequence numbers, so each edit comes with the counters it meets.
\<close>

type_synonym manifest_op = "VersionEdit \<times> uint64 \<times> SequenceNumber"

primrec apply_edits ::
  "(byte list \<Rightarrow> byte list \<Rightarrow> int) \<Rightarrow> byte list \<Rightarrow> manifest_env \<Rightarrow> manifest_op list \<Rightarrow> VersionSet \<Rightarrow> Status \<times> VersionSet" where
  "apply_edits cmp name env [] vs = (OK, vs)"
| "apply_edits cmp name env (x # xs) vs =
     (case x of (e, next_file, last_seq) \<Rightarrow>
        case LogAndApply cmp name env e (vs\<lparr>vs_next_file_number := next_file, vs_last_sequence := last_seq\<rparr>) of
          (s, _, vs) \<Rightarrow> if s = OK then apply_edits cmp name env xs vs else (s, vs))"

text \<open>The edits as they are written, with all numbers set.\<close>

fun completed :: "VersionSet \<Rightarrow> manifest_op list \<Rightarrow> VersionEdit list" where
  "completed vs [] = []"
| "completed vs ((e, next_file, last_seq) # xs) =
     (let e = complete_edit (vs\<lparr>vs_next_file_number := next_file, vs_last_sequence := last_seq\<rparr>) e
      in e # completed (vs\<lparr>vs_log_number := ve_log_number e, vs_prev_log_number := ve_prev_log_number e\<rparr>) xs)"

definition all_numbers :: "VersionEdit \<Rightarrow> bool" where
  "all_numbers e \<longleftrightarrow> ve_has_log_number e \<and> ve_has_prev_log_number e \<and> ve_has_next_file_number e \<and> ve_has_last_sequence e \<and> \<not> ve_has_comparator e"

lemma completed_cong:
  "vs_log_number vs = vs_log_number vs' \<Longrightarrow> vs_prev_log_number vs = vs_prev_log_number vs' \<Longrightarrow> completed vs xs = completed vs' xs"
proof (induction vs xs arbitrary: vs' rule: completed.induct)
  case (2 vs e nf ls xs)
  let ?e = "complete_edit (vs\<lparr>vs_next_file_number := nf, vs_last_sequence := ls\<rparr>) e"
  have eq: "complete_edit (vs'\<lparr>vs_next_file_number := nf, vs_last_sequence := ls\<rparr>) e = ?e"
    using "2.prems" by (simp add: complete_edit_def Let_def)
  have "completed (vs\<lparr>vs_log_number := ve_log_number ?e, vs_prev_log_number := ve_prev_log_number ?e\<rparr>) xs =
      completed (vs'\<lparr>vs_log_number := ve_log_number ?e, vs_prev_log_number := ve_prev_log_number ?e\<rparr>) xs"
    by (rule "2.IH" [OF refl]) simp_all
  then show ?case by (simp add: Let_def eq)
qed simp

lemma complete_edit_fields [simp]:
  "ve_compact_pointers (complete_edit vs e) = ve_compact_pointers e" "ve_deleted_files (complete_edit vs e) = ve_deleted_files e"
  "ve_new_files (complete_edit vs e) = ve_new_files e" "ve_next_file_number (complete_edit vs e) = vs_next_file_number vs"
  "ve_last_sequence (complete_edit vs e) = vs_last_sequence vs" "ve_has_comparator (complete_edit vs e) = ve_has_comparator e"
  by (simp_all add: complete_edit_def SetLogNumber_def SetPrevLogNumber_def SetLastSequence_def SetNextFile_def Let_def)

lemma complete_edit_numbers: "\<not> ve_has_comparator e \<Longrightarrow> all_numbers (complete_edit vs e)"
  by (simp add: all_numbers_def complete_edit_def SetLogNumber_def SetPrevLogNumber_def SetLastSequence_def SetNextFile_def Let_def)

lemma complete_edit_ok: "edit_ok e \<Longrightarrow> edit_ok (complete_edit vs e)"
  by (auto simp: edit_ok_def complete_edit_def SetLogNumber_def SetPrevLogNumber_def SetLastSequence_def SetNextFile_def Let_def)

lemma Builder_Apply_same:
  "ve_compact_pointers e = ve_compact_pointers e' \<Longrightarrow> ve_deleted_files e = ve_deleted_files e' \<Longrightarrow> ve_new_files e = ve_new_files e' \<Longrightarrow>
    Builder_Apply cmp e = Builder_Apply cmp e'"
  by (simp add: Builder_Apply_def)

lemma Builder_Apply_pointers: "fst (Builder_Apply cmp e (c, b)) = set_pointers (ve_compact_pointers e) c"
  by (simp add: Builder_Apply_def)

lemma Builder_Apply_builder: "snd (Builder_Apply cmp e (c, b)) = snd (Builder_Apply cmp e (c', b))"
  by (simp add: Builder_Apply_def)

text \<open>What a call on an open manifest does, and the first call, which writes the snapshot.\<close>

lemma LogAndApply_ok:
  assumes "write_edit env (complete_edit vs e) (open_manifest name env (vs\<lparr>vs_compact_pointer := set_pointers (ve_compact_pointers e) (vs_compact_pointer vs)\<rparr>)) = (OK, Some w)"
    "set_current env = OK"
  shows "LogAndApply cmp name env e vs = (OK, complete_edit vs e,
    vs\<lparr>vs_compact_pointer := set_pointers (ve_compact_pointers e) (vs_compact_pointer vs), vs_descriptor_log := Some w,
      vs_current := edit_step cmp (vs_current vs) e, vs_log_number := ve_log_number (complete_edit vs e),
      vs_prev_log_number := ve_prev_log_number (complete_edit vs e)\<rparr>)"
proof -
  obtain c b where a: "Builder_Apply cmp (complete_edit vs e) (vs_compact_pointer vs, new_Builder (vs_current vs)) = (c, b)" by fastforce
  have "c = set_pointers (ve_compact_pointers e) (vs_compact_pointer vs)"
    using a Builder_Apply_pointers [of cmp "complete_edit vs e" "vs_compact_pointer vs" "new_Builder (vs_current vs)"] by simp
  moreover have "SaveTo cmp b new_Version = edit_step cmp (vs_current vs) e"
    using a Builder_Apply_builder [of cmp e "vs_compact_pointer vs" "new_Builder (vs_current vs)" "[]"]
      Builder_Apply_same [of "complete_edit vs e" e cmp] by (simp add: edit_step_def)
  ultimately show ?thesis using assms a by (simp add: LogAndApply_def Let_def)
qed

lemma apply_edits_open:
  assumes "vs_descriptor_log vs = Some w" "writing w" "manifest_sync env = OK" "set_current env = OK"
  shows "\<exists>vs' w'. apply_edits cmp name env xs vs = (OK, vs') \<and> vs_descriptor_log vs' = Some w' \<and>
    contents (dest w') = contents (dest w) @ fst (emit_all (block_offset w) (map (\<lambda>e. EncodeTo e []) (completed vs xs))) \<and>
    vs_current vs' = foldl (edit_step cmp) (vs_current vs) (map fst xs) \<and>
    vs_compact_pointer vs' = foldl (\<lambda>c e. set_pointers (ve_compact_pointers e) c) (vs_compact_pointer vs) (map fst xs) \<and>
    (xs \<noteq> [] \<longrightarrow> vs_next_file_number vs' = ve_next_file_number (last (completed vs xs)) \<and>
      vs_last_sequence vs' = ve_last_sequence (last (completed vs xs)) \<and> vs_log_number vs' = ve_log_number (last (completed vs xs)) \<and>
      vs_prev_log_number vs' = ve_prev_log_number (last (completed vs xs)))"
  using assms(1,2)
proof (induction xs arbitrary: vs w)
  case Nil
  then show ?case by simp
next
  case (Cons x xs)
  obtain e nf ls where x: "x = (e, nf, ls)" by (metis prod_cases3)
  let ?vs = "vs\<lparr>vs_next_file_number := nf, vs_last_sequence := ls\<rparr>"
  let ?e = "complete_edit ?vs e"
  obtain w1 where w1: "AddRecord w (EncodeTo ?e []) = (OK, w1)" "writing w1"
      "contents (dest w1) = contents (dest w) @ fst (emit (block_offset w) (EncodeTo ?e []) True)" "block_offset w1 = snd (emit (block_offset w) (EncodeTo ?e []) True)"
    using add_loop_emit [OF Cons.prems(2), of "EncodeTo ?e []" True] by (auto simp: AddRecord_def)
  let ?vs1 = "?vs\<lparr>vs_compact_pointer := set_pointers (ve_compact_pointers e) (vs_compact_pointer vs), vs_descriptor_log := Some w1,
      vs_current := edit_step cmp (vs_current vs) e, vs_log_number := ve_log_number ?e, vs_prev_log_number := ve_prev_log_number ?e\<rparr>"
  have l: "LogAndApply cmp name env e ?vs = (OK, ?e, ?vs1)"
    using LogAndApply_ok [of env ?vs e name w1 cmp] Cons.prems(1) w1(1) assms(3,4) by (simp add: open_manifest_def write_edit_def)
  have cong: "completed ?vs1 xs = completed (vs\<lparr>vs_log_number := ve_log_number ?e, vs_prev_log_number := ve_prev_log_number ?e\<rparr>) xs"
    by (rule completed_cong) simp_all
  have comp: "completed vs (x # xs) = ?e # completed ?vs1 xs" unfolding x cong by (simp add: Let_def)
  obtain vs' w' where r: "apply_edits cmp name env xs ?vs1 = (OK, vs')" "vs_descriptor_log vs' = Some w'"
    "contents (dest w') = contents (dest w1) @ fst (emit_all (block_offset w1) (map (\<lambda>e. EncodeTo e []) (completed ?vs1 xs)))"
    "vs_current vs' = foldl (edit_step cmp) (edit_step cmp (vs_current vs) e) (map fst xs)"
    "vs_compact_pointer vs' = foldl (\<lambda>c e. set_pointers (ve_compact_pointers e) c) (set_pointers (ve_compact_pointers e) (vs_compact_pointer vs)) (map fst xs)"
    "xs \<noteq> [] \<longrightarrow> vs_next_file_number vs' = ve_next_file_number (last (completed ?vs1 xs)) \<and>
      vs_last_sequence vs' = ve_last_sequence (last (completed ?vs1 xs)) \<and> vs_log_number vs' = ve_log_number (last (completed ?vs1 xs)) \<and>
      vs_prev_log_number vs' = ve_prev_log_number (last (completed ?vs1 xs))"
    using Cons.IH [of ?vs1 w1] w1(2) by auto
  have ne: "xs \<noteq> [] \<longleftrightarrow> completed ?vs1 xs \<noteq> []" by (cases xs) (auto simp: Let_def)
  have last: "vs_next_file_number vs' = ve_next_file_number (last (completed vs (x # xs))) \<and>
      vs_last_sequence vs' = ve_last_sequence (last (completed vs (x # xs))) \<and> vs_log_number vs' = ve_log_number (last (completed vs (x # xs))) \<and>
      vs_prev_log_number vs' = ve_prev_log_number (last (completed vs (x # xs)))"
  proof (cases "xs = []")
    case True
    then have "vs' = ?vs1" using r(1) by simp
    then show ?thesis using True comp by simp
  next
    case False
    then show ?thesis using r(6) ne comp by simp
  qed
  show ?case
    by (intro exI [of _ vs'] exI [of _ w'] conjI)
      (use r(1-5) last l x comp w1(3,4) in \<open>auto split: prod.split\<close>)
qed

subsection \<open>Reading the manifest\<close>

text \<open>A recovery in progress that has read no damage.\<close>

definition recover_ok :: "byte list \<Rightarrow> VersionEdit \<Rightarrow> bool" where
  "recover_ok name e \<longleftrightarrow> edit_ok e \<and> (ve_has_comparator e \<longrightarrow> ve_comparator e = name)"

definition absorb :: "(byte list \<Rightarrow> byte list \<Rightarrow> int) \<Rightarrow> VersionEdit \<Rightarrow> manifest_state \<Rightarrow> manifest_state" where
  "absorb cmp e st =
     st\<lparr>ms_pointers := fst (Builder_Apply cmp e (ms_pointers st, ms_builder st)), ms_builder := snd (Builder_Apply cmp e (ms_pointers st, ms_builder st)),
        ms_log_number := note_number (ve_has_log_number e) (ve_log_number e) (ms_log_number st),
        ms_prev_log_number := note_number (ve_has_prev_log_number e) (ve_prev_log_number e) (ms_prev_log_number st),
        ms_next_file := note_number (ve_has_next_file_number e) (ve_next_file_number e) (ms_next_file st),
        ms_last_sequence := note_number (ve_has_last_sequence e) (ve_last_sequence e) (ms_last_sequence st)\<rparr>"

lemma recover_edit_absorb:
  assumes "recover_ok name e" "ms_status st = OK"
  shows "recover_edit cmp name (EncodeTo e []) st = absorb cmp e st"
proof -
  have "Edit_DecodeFrom new_VersionEdit (EncodeTo e []) = (OK, e)"
    using edit_roundtrip [of e new_VersionEdit] assms(1) by (simp add: recover_ok_def new_VersionEdit_def)
  then show ?thesis
    using assms by (cases "Builder_Apply cmp e (ms_pointers st, ms_builder st)") (auto simp: recover_edit_def recover_ok_def absorb_def)
qed

lemma absorb_status [simp]: "ms_status (absorb cmp e st) = ms_status st"
  by (simp add: absorb_def)

lemma recover_loop_edits:
  assumes "ready r bo (fst (emit_all bo (map (\<lambda>e. EncodeTo e []) es)))" "ms_status st = OK" "list_all (recover_ok name) es"
  shows "recover_loop cmp name r st = fold (absorb cmp) es st"
  using assms
proof (induction es arbitrary: r bo st)
  case Nil
  then obtain r' where "ReadRecord r = (None, r')" "reports r' = reports r" using ReadRecord_end [of r bo] by auto
  then show ?case by (simp add: recover_loop.simps [of _ _ r] manifest_reports_def)
next
  case (Cons e es)
  obtain b bo1 bs bo2 where em: "emit bo (EncodeTo e []) True = (b, bo1)" "emit_all bo1 (map (\<lambda>e. EncodeTo e []) es) = (bs, bo2)" by fastforce
  then have "ready r bo (fst (emit bo (EncodeTo e []) True) @ bs)" using Cons.prems(1) by simp
  from ReadRecord_emit [OF this] em obtain r1 where r1: "ReadRecord r = (Some (EncodeTo e []), r1)" "ready r1 bo1 bs" "reports r1 = reports r" by auto
  have "recover_loop cmp name r1 (absorb cmp e st) = fold (absorb cmp) es (absorb cmp e st)"
    using Cons.IH [of r1 bo1 "absorb cmp e st"] r1(2) em(2) Cons.prems(2,3) by simp
  then show ?case
    using r1(1,3) Cons.prems(2,3) recover_edit_absorb [of name e st cmp]
    by (simp add: recover_loop.simps [of _ _ r] manifest_reports_def)
qed

lemma Builder_Apply_pair: "(set_pointers (ve_compact_pointers e) c, snd (Builder_Apply cmp e (c, b))) = Builder_Apply cmp e (c, b)"
  by (simp add: Builder_Apply_def)

lemma fold_absorb_builder:
  "ms_builder (fold (absorb cmp) es st) = snd (foldl (\<lambda>cb e. Builder_Apply cmp e cb) (ms_pointers st, ms_builder st) es) \<and>
   ms_pointers (fold (absorb cmp) es st) = foldl (\<lambda>c e. set_pointers (ve_compact_pointers e) c) (ms_pointers st) es"
  by (induction es arbitrary: st) (simp_all add: absorb_def Builder_Apply_pointers Builder_Apply_pair)

lemma fold_absorb_numbers:
  assumes "es \<noteq> []" "all_numbers (last es)"
  shows "ms_log_number (fold (absorb cmp) es st) = Some (ve_log_number (last es))"
    "ms_prev_log_number (fold (absorb cmp) es st) = Some (ve_prev_log_number (last es))"
    "ms_next_file (fold (absorb cmp) es st) = Some (ve_next_file_number (last es))"
    "ms_last_sequence (fold (absorb cmp) es st) = Some (ve_last_sequence (last es))" "ms_status (fold (absorb cmp) es st) = ms_status st"
proof -
  have s: "ms_status (fold (absorb cmp) xs st) = ms_status st" for xs by (induction xs arbitrary: st) simp_all
  obtain xs where "es = xs @ [last es]" using assms(1) by (metis append_butlast_last_id)
  then have "fold (absorb cmp) es st = absorb cmp (last es) (fold (absorb cmp) xs st)" by (metis fold_append fold_simps comp_apply)
  then show "ms_log_number (fold (absorb cmp) es st) = Some (ve_log_number (last es))"
    "ms_prev_log_number (fold (absorb cmp) es st) = Some (ve_prev_log_number (last es))"
    "ms_next_file (fold (absorb cmp) es st) = Some (ve_next_file_number (last es))"
    "ms_last_sequence (fold (absorb cmp) es st) = Some (ve_last_sequence (last es))"
    using assms(2) by (simp_all add: absorb_def note_number_def all_numbers_def)
  show "ms_status (fold (absorb cmp) es st) = ms_status st" by (rule s)
qed

lemma Recover_installs:
  assumes "recover_loop cmp name (new_Reader g True True 0)
      \<lparr>ms_status = OK, ms_pointers = vs_compact_pointer vs, ms_builder = new_Builder (vs_current vs),
       ms_log_number = None, ms_prev_log_number = None, ms_next_file = None, ms_last_sequence = None\<rparr> = st"
    "ms_status st = OK" "ms_log_number st = Some log" "ms_prev_log_number st = Some prev" "ms_next_file st = Some n" "ms_last_sequence st = Some seq"
  shows "\<exists>r. VersionSet_Recover cmp name (OK, cur @ [10]) (\<lambda>_. (OK, g)) None save vs = (OK, True, r) \<and>
    vs_current r = SaveTo cmp (ms_builder st) new_Version \<and> vs_compact_pointer r = ms_pointers st \<and> vs_last_sequence r = seq \<and>
    vs_log_number r = log \<and> vs_prev_log_number r = prev \<and> vs_manifest_file_number r = n \<and> vs_next_file_number r = n + 1"
  using assms(2-) unfolding VersionSet_Recover_def by (simp add: assms(1) descriptor_checks_def MarkFileNumberUsed_def Let_def)

subsection \<open>From one set of versions to the next\<close>

text \<open>A set of versions before its manifest is written, and edits that the database may make.\<close>

definition set_ok :: "(byte list \<Rightarrow> byte list \<Rightarrow> int) \<Rightarrow> byte list \<Rightarrow> VersionSet \<Rightarrow> bool" where
  "set_ok cmp name vs \<longleftrightarrow> slice_fits name \<and> length (vs_compact_pointer vs) = kNumLevels \<and> list_all slice_fits (vs_compact_pointer vs) \<and>
     length (v_files (vs_current vs)) = kNumLevels \<and>
     list_all (\<lambda>fs. files_sorted cmp fs \<and> distinct (map fm_number fs) \<and> list_all (\<lambda>f. slice_fits (fm_smallest f) \<and> slice_fits (fm_largest f)) fs)
       (v_files (vs_current vs))"

definition edits_ok :: "manifest_op list \<Rightarrow> bool" where
  "edits_ok xs \<longleftrightarrow> list_all (\<lambda>x. edit_ok (fst x) \<and> \<not> ve_has_comparator (fst x)) xs"

lemma completed_ok: "edits_ok xs \<Longrightarrow> list_all (\<lambda>e. recover_ok name e \<and> all_numbers e) (completed vs xs)"
  by (induction vs xs rule: completed.induct)
    (auto simp: edits_ok_def Let_def recover_ok_def complete_edit_ok complete_edit_numbers)

lemma completed_same:
  "map ve_compact_pointers (completed vs xs) = map (ve_compact_pointers \<circ> fst) xs"
  "map ve_deleted_files (completed vs xs) = map (ve_deleted_files \<circ> fst) xs" "map ve_new_files (completed vs xs) = map (ve_new_files \<circ> fst) xs"
  by (induction vs xs rule: completed.induct) (auto simp: Let_def)

lemma level_edit_cong:
  assumes "map ve_deleted_files es = map ve_deleted_files es'" "map ve_new_files es = map ve_new_files es'"
  shows "fresh_all l N es = fresh_all l N es'" "foldl (level_step cmp l) base es = foldl (level_step cmp l) base es'"
proof -
  have len: "length es = length es'" using assms(1) by (metis length_map)
  show "fresh_all l N es = fresh_all l N es'" using len assms
    by (induction es es' arbitrary: N rule: list_induct2) (simp_all add: fresh_adds_def level_adds_def)
  show "foldl (level_step cmp l) base es = foldl (level_step cmp l) base es'" using len assms
    by (induction es es' arbitrary: base rule: list_induct2) (simp_all add: level_step_def level_apply_def level_adds_def level_dels_def)
qed

lemma pointer_edits_map:
  "foldl (\<lambda>c e. set_pointers (ve_compact_pointers e) c) c es = foldl (\<lambda>c p. set_pointers p c) c (map ve_compact_pointers es)"
  by (induction es arbitrary: c) simp_all

lemma pointer_edits_cong:
  "map ve_compact_pointers es = map ve_compact_pointers es' \<Longrightarrow>
    foldl (\<lambda>c e. set_pointers (ve_compact_pointers e) c) c es = foldl (\<lambda>c e. set_pointers (ve_compact_pointers e) c) c es'"
  by (simp add: pointer_edits_map)

lemma list_all_update: "list_all P c \<Longrightarrow> P k \<Longrightarrow> list_all P (c[l := k])"
  using set_update_subset_insert [of c l k] by (auto simp: list_all_iff)

lemma slice_fits_pointers:
  "list_all slice_fits c \<Longrightarrow> list_all (\<lambda>(level, key). level < kNumLevels \<and> slice_fits key) ps \<Longrightarrow> list_all slice_fits (set_pointers ps c)"
  unfolding set_pointers_def by (induction ps arbitrary: c) (simp_all add: list_all_update split: prod.splits)

lemma snapshot_edit_ok:
  assumes "set_ok cmp name vs" "length c = kNumLevels" "list_all slice_fits c"
  shows "recover_ok name (snapshot_edit name (vs\<lparr>vs_compact_pointer := c\<rparr>))"
proof -
  have "list_all file_ok (snapshot_files (v_files (vs_current vs)))"
    using assms(1) by (auto simp: set_ok_def snapshot_files_def list_all_iff in_set_enumerate_eq file_ok_def new_FileMetaData_def) (metis nth_mem)+
  moreover have "list_all (\<lambda>(level, key). level < kNumLevels \<and> slice_fits key) (snapshot_pointers c)"
    using assms(2,3) by (auto simp: snapshot_pointers_def list_all_iff in_set_enumerate_eq)
  ultimately show ?thesis using assms(1)
    by (simp add: recover_ok_def snapshot_edit_fields edit_ok_def new_VersionEdit_def set_ok_def)
qed

text \<open>The first call, on a set without an open manifest, is a call on the manifest that has the snapshot.\<close>

lemma apply_edits_first:
  assumes "vs_descriptor_log vs = None" "new_manifest env = (OK, f)" "reliable f" "contents f = []" "manifest_sync env = OK" "set_current env = OK"
  shows "\<exists>w. apply_edits cmp name env (x # xs) vs = apply_edits cmp name env (x # xs) (vs\<lparr>vs_descriptor_log := Some w\<rparr>) \<and> writing w \<and>
    contents (dest w) = fst (emit 0 (EncodeTo (snapshot_edit name (vs\<lparr>vs_compact_pointer := set_pointers (ve_compact_pointers (fst x)) (vs_compact_pointer vs)\<rparr>)) []) True) \<and>
    block_offset w = snd (emit 0 (EncodeTo (snapshot_edit name (vs\<lparr>vs_compact_pointer := set_pointers (ve_compact_pointers (fst x)) (vs_compact_pointer vs)\<rparr>)) []) True)"
proof -
  obtain e nf ls where x: "x = (e, nf, ls)" by (metis prod_cases3)
  let ?vs = "vs\<lparr>vs_next_file_number := nf, vs_last_sequence := ls\<rparr>"
  let ?c = "set_pointers (ve_compact_pointers e) (vs_compact_pointer vs)"
  let ?snap = "EncodeTo (snapshot_edit name (vs\<lparr>vs_compact_pointer := ?c\<rparr>)) []"
  have n: "writing (new_Writer f 0)" "block_offset (new_Writer f 0) = 0" "contents (dest (new_Writer f 0)) = []"
    using writing_new_Writer [OF assms(3), of 0] assms(4) by (simp_all add: new_Writer_def)
  obtain w where w: "AddRecord (new_Writer f 0) ?snap = (OK, w)" "writing w" "contents (dest w) = fst (emit 0 ?snap True)" "block_offset w = snd (emit 0 ?snap True)"
    using add_loop_emit [OF n(1), of ?snap True] n(2,3) by (auto simp: AddRecord_def)
  obtain w1 where w1: "AddRecord w (EncodeTo (complete_edit ?vs e) []) = (OK, w1)"
    using add_loop_emit [OF w(2), of "EncodeTo (complete_edit ?vs e) []" True] by (auto simp: AddRecord_def)
  have s: "snapshot_edit name (?vs\<lparr>vs_compact_pointer := ?c\<rparr>) = snapshot_edit name (vs\<lparr>vs_compact_pointer := ?c\<rparr>)"
    by (simp add: snapshot_edit_fields)
  have ce: "complete_edit (?vs\<lparr>vs_descriptor_log := Some w\<rparr>) e = complete_edit ?vs e" by (simp add: complete_edit_def Let_def)
  have "LogAndApply cmp name env e ?vs = LogAndApply cmp name env e (?vs\<lparr>vs_descriptor_log := Some w\<rparr>)"
    using LogAndApply_ok [of env ?vs e name w1 cmp] LogAndApply_ok [of env "?vs\<lparr>vs_descriptor_log := Some w\<rparr>" e name w1 cmp] assms w(1) w1
    by (simp add: open_manifest_def write_edit_def WriteSnapshot_def s ce)
  then have "apply_edits cmp name env (x # xs) vs = apply_edits cmp name env (x # xs) (vs\<lparr>vs_descriptor_log := Some w\<rparr>)"
    using x by (cases vs) simp
  then show ?thesis using w x by auto
qed

context user_comparator
begin

lemma snapshot_restores:
  assumes "set_ok cmp name vs" "l < kNumLevels"
  shows "fresh_adds l (snapshot_edit name (vs\<lparr>vs_compact_pointer := c\<rparr>)) {}"
    "fm_number ` set (level_adds l (snapshot_edit name (vs\<lparr>vs_compact_pointer := c\<rparr>))) = fm_number ` set (v_files (vs_current vs) ! l)"
    "files_sorted cmp (level_step cmp l [] (snapshot_edit name (vs\<lparr>vs_compact_pointer := c\<rparr>)))"
    "map core (level_step cmp l [] (snapshot_edit name (vs\<lparr>vs_compact_pointer := c\<rparr>))) = map core (v_files (vs_current vs) ! l)"
proof -
  let ?e = "snapshot_edit name (vs\<lparr>vs_compact_pointer := c\<rparr>)" and ?fs = "v_files (vs_current vs) ! l"
  have fs: "?fs \<in> set (v_files (vs_current vs))" "l < length (v_files (vs_current vs))" using assms by (auto simp: set_ok_def)
  then have ok: "files_sorted cmp ?fs" "distinct (map fm_number ?fs)" using assms(1) by (auto simp: set_ok_def list_all_iff)
  have adds: "level_adds l ?e = map (\<lambda>f. new_FileMetaData (fm_number f) (fm_file_size f) (fm_smallest f) (fm_largest f)) ?fs"
    using snapshot_level [OF fs(2)] by (simp add: level_adds_def snapshot_edit_fields)
  show fresh: "fresh_adds l ?e {}" and "fm_number ` set (level_adds l ?e) = fm_number ` set ?fs"
    using ok by (auto simp: fresh_adds_def adds new_FileMetaData_def comp_def files_sorted_def list_all_iff image_iff)
  have nil: "files_sorted cmp []" by (simp add: files_sorted_def)
  note s = level_step_spec [OF nil, of l ?e]
  show sorted: "files_sorted cmp (level_step cmp l [] ?e)" using s(1) fresh by simp
  show "map core (level_step cmp l [] ?e) = map core ?fs"
  proof (rule files_sorted_unique)
    show "set (map core (level_step cmp l [] ?e)) = set (map core ?fs)"
      using s(2) fresh core_edited [of l ?e "{}"] by (simp add: adds image_image)
  qed (use sorted ok in \<open>simp_all add: files_sorted_core\<close>)
qed

lemma recovered_files:
  assumes "set_ok cmp name vs" "fresh_edits cmp (vs_current vs) (map fst xs)"
  shows "map (map core) (v_files (SaveTo cmp (snd (foldl (\<lambda>cb e. Builder_Apply cmp e cb) (c', new_Builder new_Version)
      (snapshot_edit name (vs\<lparr>vs_compact_pointer := c\<rparr>) # completed vs xs))) new_Version)) =
    map (map core) (v_files (foldl (edit_step cmp) (vs_current vs) (map fst xs)))"
proof -
  let ?snap = "snapshot_edit name (vs\<lparr>vs_compact_pointer := c\<rparr>)" and ?es = "completed vs xs"
  have new: "length (v_files new_Version) = kNumLevels" "\<And>l. l < kNumLevels \<Longrightarrow> v_files new_Version ! l = []" by (simp_all add: new_Version_def)
  have len: "length (v_files (vs_current vs)) = kNumLevels" using assms(1) by (simp add: set_ok_def)
  note same = level_edit_cong [of ?es "map fst xs"] completed_same(2,3) [of vs xs]
  have fr: "fresh_all l (fm_number ` set (v_files (vs_current vs) ! l)) ?es" if "l < kNumLevels" for l
    using assms(2) that same by (simp add: fresh_edits_def)
  have "fresh_edits cmp new_Version (?snap # ?es)"
    using new fr snapshot_restores(1,2) [OF assms(1)] by (simp add: fresh_edits_def files_sorted_def)
  note b = builder_batch [OF this, of c']
  show ?thesis
  proof (rule nth_equalityI)
    show "length (map (map core) (v_files (SaveTo cmp (snd (foldl (\<lambda>cb e. Builder_Apply cmp e cb) (c', new_Builder new_Version) (?snap # ?es))) new_Version))) =
        length (map (map core) (v_files (foldl (edit_step cmp) (vs_current vs) (map fst xs))))"
      unfolding b using edit_steps_level [OF new(1), of cmp "?snap # ?es" 0] edit_steps_level [OF len, of cmp "map fst xs" 0] by simp
    fix l assume "l < length (map (map core) (v_files (SaveTo cmp (snd (foldl (\<lambda>cb e. Builder_Apply cmp e cb) (c', new_Builder new_Version) (?snap # ?es))) new_Version)))"
    then have l: "l < kNumLevels" unfolding b using edit_steps_level [OF new(1), of cmp "?snap # ?es" 0] by simp
    have "map core (foldl (level_step cmp l) (level_step cmp l [] ?snap) ?es) = map core (foldl (level_step cmp l) (v_files (vs_current vs) ! l) ?es)"
    proof (rule level_steps_core [symmetric])
      show "files_sorted cmp (v_files (vs_current vs) ! l)" using assms(2) l by (simp add: fresh_edits_def)
    qed (use snapshot_restores(3,4) [OF assms(1) l, of c] fr [OF l] in simp_all)
    then show "map (map core) (v_files (SaveTo cmp (snd (foldl (\<lambda>cb e. Builder_Apply cmp e cb) (c', new_Builder new_Version) (?snap # ?es))) new_Version)) ! l =
        map (map core) (v_files (foldl (edit_step cmp) (vs_current vs) (map fst xs))) ! l"
      unfolding b using edit_steps_level [OF new(1), of cmp "?snap # ?es" l] edit_steps_level [OF len, of cmp "map fst xs" l] l new(2) same by simp
  qed
qed

lemma manifest_recovers:
  assumes "set_ok cmp name vs" "vs_descriptor_log vs = None" "edits_ok xs" "xs \<noteq> []" "fresh_edits cmp (vs_current vs) (map fst xs)"
    and "new_manifest env = (OK, f)" "reliable f" "contents f = []" "manifest_sync env = OK" "set_current env = OK"
    and "apply_edits cmp name env xs vs = (s, vs')" "full_reads g" "unread g = contents (dest (the (vs_descriptor_log vs')))"
  shows "s = OK \<and> (\<exists>r. VersionSet_Recover cmp name (OK, cur @ [10]) (\<lambda>_. (OK, g)) None save new_VersionSet = (OK, True, r) \<and>
    map (map core) (v_files (vs_current r)) = map (map core) (v_files (vs_current vs')) \<and> vs_compact_pointer r = vs_compact_pointer vs' \<and>
    vs_last_sequence r = vs_last_sequence vs' \<and> vs_log_number r = vs_log_number vs' \<and> vs_prev_log_number r = vs_prev_log_number vs' \<and>
    vs_manifest_file_number r = vs_next_file_number vs' \<and> vs_next_file_number r = vs_next_file_number vs' + 1)"
proof -
  obtain x xs' where xs: "xs = x # xs'" using assms(4) by (cases xs) auto
  let ?c = "set_pointers (ve_compact_pointers (fst x)) (vs_compact_pointer vs)"
  let ?snap = "snapshot_edit name (vs\<lparr>vs_compact_pointer := ?c\<rparr>)"
  let ?es = "completed vs xs"
  obtain w0 where w0: "apply_edits cmp name env xs vs = apply_edits cmp name env xs (vs\<lparr>vs_descriptor_log := Some w0\<rparr>)" "writing w0"
      "contents (dest w0) = fst (emit 0 (EncodeTo ?snap []) True)" "block_offset w0 = snd (emit 0 (EncodeTo ?snap []) True)"
    using apply_edits_first [OF assms(2,6,7,8,9,10), of cmp name x xs'] xs by blast
  have comp: "completed (vs\<lparr>vs_descriptor_log := Some w0\<rparr>) xs = ?es" by (rule completed_cong) simp_all
  have live: "s = OK" "unread g = fst (emit_all 0 (map (\<lambda>e. EncodeTo e []) (?snap # ?es)))"
      "vs_current vs' = foldl (edit_step cmp) (vs_current vs) (map fst xs)"
      "vs_compact_pointer vs' = foldl (\<lambda>c e. set_pointers (ve_compact_pointers e) c) (vs_compact_pointer vs) (map fst xs)"
      "vs_next_file_number vs' = ve_next_file_number (last ?es)" "vs_last_sequence vs' = ve_last_sequence (last ?es)"
      "vs_log_number vs' = ve_log_number (last ?es)" "vs_prev_log_number vs' = ve_prev_log_number (last ?es)"
    using apply_edits_open [of "vs\<lparr>vs_descriptor_log := Some w0\<rparr>" w0 env cmp name xs, OF _ w0(2) assms(9,10)] assms(4,11,13) w0(1,3,4) comp
    by (auto split: prod.splits)
  have c: "length ?c = kNumLevels" "list_all slice_fits ?c"
    using assms(1,3) xs by (auto simp: set_ok_def edits_ok_def edit_ok_def intro: slice_fits_pointers)
  note ok = completed_ok [OF assms(3), of name vs]
  have ne: "?es \<noteq> []" "all_numbers (last (?snap # ?es))" using ok assms(4) by (cases xs rule: list.exhaust; auto simp: xs Let_def list_all_iff split: prod.splits)+
  let ?st = "\<lparr>ms_status = OK, ms_pointers = replicate kNumLevels [], ms_builder = new_Builder new_Version,
      ms_log_number = None, ms_prev_log_number = None, ms_next_file = None, ms_last_sequence = None\<rparr>"
  have loop: "recover_loop cmp name (new_Reader g True True 0) ?st = fold (absorb cmp) (?snap # ?es) ?st"
    using ready_new_Reader [OF assms(12), of True True] live(2) snapshot_edit_ok [OF assms(1) c] ok
    by (intro recover_loop_edits [of _ 0]) (simp_all add: list_all_iff)
  note num = fold_absorb_numbers [of "?snap # ?es", OF _ ne(2), of cmp ?st, simplified list.distinct simp_thms last_ConsR [OF ne(1)] if_False]
  note bld = fold_absorb_builder [of cmp "?snap # ?es" ?st]
  have files: "map (map core) (v_files (SaveTo cmp (ms_builder (fold (absorb cmp) (?snap # ?es) ?st)) new_Version)) =
      map (map core) (v_files (vs_current vs'))"
    using recovered_files [OF assms(1,5), of "replicate kNumLevels []" ?c] bld live(3) by simp
  have pointers: "ms_pointers (fold (absorb cmp) (?snap # ?es) ?st) = vs_compact_pointer vs'"
  proof -
    have p: "map ve_compact_pointers ?es = map ve_compact_pointers (map fst xs)" using completed_same(1) [of vs xs] by simp
    have "ms_pointers (fold (absorb cmp) (?snap # ?es) ?st) = foldl (\<lambda>c e. set_pointers (ve_compact_pointers e) c) ?c (map fst xs)"
      using bld pointer_edits_cong [OF p, of ?c] set_pointers_snapshot [of ?c] c(1) by (simp add: snapshot_edit_fields)
    then show ?thesis using live(4) xs by (simp add: set_pointers_again)
  qed
  have init: "vs_compact_pointer new_VersionSet = replicate kNumLevels []" "vs_current new_VersionSet = new_Version"
    by (simp_all add: new_VersionSet_def)
  obtain r where r: "VersionSet_Recover cmp name (OK, cur @ [10]) (\<lambda>_. (OK, g)) None save new_VersionSet = (OK, True, r)"
    "vs_current r = SaveTo cmp (ms_builder (fold (absorb cmp) (?snap # ?es) ?st)) new_Version"
    "vs_compact_pointer r = ms_pointers (fold (absorb cmp) (?snap # ?es) ?st)"
    "vs_last_sequence r = ve_last_sequence (last ?es)" "vs_log_number r = ve_log_number (last ?es)" "vs_prev_log_number r = ve_prev_log_number (last ?es)"
    "vs_manifest_file_number r = ve_next_file_number (last ?es)" "vs_next_file_number r = ve_next_file_number (last ?es) + 1"
    using Recover_installs [of cmp name g new_VersionSet, unfolded init, OF loop _ num(1-4)] num(5) by auto
  show ?thesis using r(1) files pointers live unfolding r(2,3)
    by (intro conjI exI [of _ r]) (simp_all only: r(2-8))
qed

end

subsection \<open>Properties\<close>

text \<open>
  (C6) The manifest brings the database back: after any calls of \<^verbatim>\<open>LogAndApply\<close> on a set of versions, the first of which writes a snapshot to a new
  manifest, \<^verbatim>\<open>Recover\<close> from that manifest ends with \<^verbatim>\<open>OK\<close> and with the tables of every level in the same order, the same compaction pointers, log numbers
  and sequence number, and the next file number behind the one of the manifest itself.  The edits name files that their level did not have before.
\<close>

theorem manifest_recovery:
  assumes "set_ok BytewiseCompare name vs" "vs_descriptor_log vs = None" "edits_ok xs" "xs \<noteq> []" "fresh_edits BytewiseCompare (vs_current vs) (map fst xs)"
    and "new_manifest env = (OK, f)" "reliable f" "contents f = []" "manifest_sync env = OK" "set_current env = OK"
    and "apply_edits BytewiseCompare name env xs vs = (s, vs')" "full_reads g" "unread g = contents (dest (the (vs_descriptor_log vs')))"
  shows "s = OK \<and> (\<exists>r. VersionSet_Recover BytewiseCompare name (OK, cur @ [10]) (\<lambda>_. (OK, g)) None save new_VersionSet = (OK, True, r) \<and>
    map (map core) (v_files (vs_current r)) = map (map core) (v_files (vs_current vs')) \<and> vs_compact_pointer r = vs_compact_pointer vs' \<and>
    vs_last_sequence r = vs_last_sequence vs' \<and> vs_log_number r = vs_log_number vs' \<and> vs_prev_log_number r = vs_prev_log_number vs' \<and>
    vs_manifest_file_number r = vs_next_file_number vs' \<and> vs_next_file_number r = vs_next_file_number vs' + 1)"
  by (rule bytewise.manifest_recovers [OF assms])

definition sample_env :: manifest_env where
  "sample_env = \<lparr>new_manifest = (OK, empty_file), manifest_sync = OK, set_current = OK\<rparr>"

definition sample_edits :: "manifest_op list" where
  "sample_edits =
     [(Edit_AddFile 0 5 100 (start_key [1]) (limit_key [3]) (SetLogNumber 4 new_VersionEdit), 6, 10),
      (SetCompactPointer 1 (start_key [3]) (Edit_DeleteFile 0 5 (Edit_AddFile 1 6 90 (start_key [1]) (limit_key [3]) new_VersionEdit)), 7, 12)]"

theorem manifest_recovery_witness:
  "\<exists>r. VersionSet_Recover BytewiseCompare [120] (OK, [77, 10])
      (\<lambda>_. (OK, file_with (contents (dest (the (vs_descriptor_log (snd (apply_edits BytewiseCompare [120] sample_env sample_edits new_VersionSet)))))))) None False new_VersionSet =
      (OK, True, r)"
proof -
  have key: "slice_fits (start_key u)" "slice_fits (limit_key u)" if "length u = 1" for u
    using that by (simp_all add: start_key_def limit_key_def slice_fits_def length_AppendInternalKey)
  have "set_ok BytewiseCompare [120] new_VersionSet" "vs_descriptor_log new_VersionSet = None" "sample_edits \<noteq> []"
    by (simp_all add: set_ok_def new_VersionSet_def new_Version_def slice_fits_def files_sorted_def sample_edits_def list_all_iff)
  moreover have "edits_ok sample_edits"
    by (simp add: edits_ok_def sample_edits_def edit_ok_def file_ok_def Edit_AddFile_def Edit_DeleteFile_def SetCompactPointer_def SetLogNumber_def
        new_VersionEdit_def new_FileMetaData_def slice_fits_def [of "[]"] kNumLevels_def key)
  moreover have "fresh_edits BytewiseCompare (vs_current new_VersionSet) (map fst sample_edits)" by code_simp
  ultimately have h: "set_ok BytewiseCompare [120] new_VersionSet" "vs_descriptor_log new_VersionSet = None" "edits_ok sample_edits" "sample_edits \<noteq> []"
    "fresh_edits BytewiseCompare (vs_current new_VersionSet) (map fst sample_edits)" by blast+
  have e: "new_manifest sample_env = (OK, empty_file)" "reliable empty_file" "contents empty_file = []" "manifest_sync sample_env = OK" "set_current sample_env = OK"
    using empty_file by (simp_all add: sample_env_def)
  show ?thesis
    using manifest_recovery [OF h e prod.collapse [symmetric] file_with, of "[77]" False] by auto
qed

end
