(* ===== verification/Pb_Types.thy ===== *)
theory Pb_Types
  imports Pb_Prelude
begin

text \<open>
  The types and constants of \<^verbatim>\<open>pb.h\<close> in the configuration the build gives nanopb
  (\<^verbatim>\<open>PB_FIELD_32BIT\<close>, \<^verbatim>\<open>PB_ENABLE_MALLOC\<close>, \<^verbatim>\<open>PB_NO_PACKED_STRUCTS\<close>, 64-bit integers and error
  messages enabled): field types, repetition rules, allocation types, wire types and the field
  descriptor \<^verbatim>\<open>pb_field_t\<close>.
\<close>

type_synonym pb_type_t = "8 word"
type_synonym pb_size_t = "32 word"
type_synonym pb_ssize_t = "32 word"  \<comment> \<open>two's complement, read with \<^const>\<open>sint\<close>\<close>
type_synonym pb_byte_t = "8 word"

subsection \<open>Field data types\<close>

definition PB_LTYPE_BOOL :: pb_type_t where "PB_LTYPE_BOOL = 0x00"
definition PB_LTYPE_VARINT :: pb_type_t where "PB_LTYPE_VARINT = 0x01"
definition PB_LTYPE_UVARINT :: pb_type_t where "PB_LTYPE_UVARINT = 0x02"
definition PB_LTYPE_SVARINT :: pb_type_t where "PB_LTYPE_SVARINT = 0x03"
definition PB_LTYPE_FIXED32 :: pb_type_t where "PB_LTYPE_FIXED32 = 0x04"
definition PB_LTYPE_FIXED64 :: pb_type_t where "PB_LTYPE_FIXED64 = 0x05"
definition PB_LTYPE_LAST_PACKABLE :: pb_type_t where "PB_LTYPE_LAST_PACKABLE = 0x05"
definition PB_LTYPE_BYTES :: pb_type_t where "PB_LTYPE_BYTES = 0x06"
definition PB_LTYPE_STRING :: pb_type_t where "PB_LTYPE_STRING = 0x07"
definition PB_LTYPE_SUBMESSAGE :: pb_type_t where "PB_LTYPE_SUBMESSAGE = 0x08"
definition PB_LTYPE_EXTENSION :: pb_type_t where "PB_LTYPE_EXTENSION = 0x09"
definition PB_LTYPE_FIXED_LENGTH_BYTES :: pb_type_t where "PB_LTYPE_FIXED_LENGTH_BYTES = 0x0A"
definition PB_LTYPE_MASK :: pb_type_t where "PB_LTYPE_MASK = 0x0F"

subsection \<open>Repetition rules and allocation types\<close>

definition PB_HTYPE_REQUIRED :: pb_type_t where "PB_HTYPE_REQUIRED = 0x00"
definition PB_HTYPE_OPTIONAL :: pb_type_t where "PB_HTYPE_OPTIONAL = 0x10"
definition PB_HTYPE_REPEATED :: pb_type_t where "PB_HTYPE_REPEATED = 0x20"
definition PB_HTYPE_ONEOF :: pb_type_t where "PB_HTYPE_ONEOF = 0x30"
definition PB_HTYPE_MASK :: pb_type_t where "PB_HTYPE_MASK = 0x30"

definition PB_ATYPE_STATIC :: pb_type_t where "PB_ATYPE_STATIC = 0x00"
definition PB_ATYPE_POINTER :: pb_type_t where "PB_ATYPE_POINTER = 0x80"
definition PB_ATYPE_CALLBACK :: pb_type_t where "PB_ATYPE_CALLBACK = 0x40"
definition PB_ATYPE_MASK :: pb_type_t where "PB_ATYPE_MASK = 0xC0"

definition PB_ATYPE :: "pb_type_t \<Rightarrow> pb_type_t" where "PB_ATYPE x = x AND PB_ATYPE_MASK"
definition PB_HTYPE :: "pb_type_t \<Rightarrow> pb_type_t" where "PB_HTYPE x = x AND PB_HTYPE_MASK"
definition PB_LTYPE :: "pb_type_t \<Rightarrow> pb_type_t" where "PB_LTYPE x = x AND PB_LTYPE_MASK"

definition PB_SIZE_MAX :: pb_size_t where "PB_SIZE_MAX = - 1"
definition PB_MAX_REQUIRED_FIELDS :: nat where "PB_MAX_REQUIRED_FIELDS = 64"

lemmas pb_ltype_defs =
  PB_LTYPE_BOOL_def PB_LTYPE_VARINT_def PB_LTYPE_UVARINT_def PB_LTYPE_SVARINT_def
  PB_LTYPE_FIXED32_def PB_LTYPE_FIXED64_def PB_LTYPE_LAST_PACKABLE_def PB_LTYPE_BYTES_def
  PB_LTYPE_STRING_def PB_LTYPE_SUBMESSAGE_def PB_LTYPE_EXTENSION_def
  PB_LTYPE_FIXED_LENGTH_BYTES_def PB_LTYPE_MASK_def

lemmas pb_htype_defs =
  PB_HTYPE_REQUIRED_def PB_HTYPE_OPTIONAL_def PB_HTYPE_REPEATED_def PB_HTYPE_ONEOF_def
  PB_HTYPE_MASK_def

lemmas pb_atype_defs =
  PB_ATYPE_STATIC_def PB_ATYPE_POINTER_def PB_ATYPE_CALLBACK_def PB_ATYPE_MASK_def

lemmas pb_type_defs = pb_ltype_defs pb_htype_defs pb_atype_defs PB_ATYPE_def PB_HTYPE_def PB_LTYPE_def

subsection \<open>Wire types\<close>

text \<open>
  The C enumeration names the wire types 0, 1, 2 and 5; the decoder casts the low three bits of a
  tag to it, so the remaining values can occur as well and are kept with their number.
\<close>

datatype pb_wire_type_t =
    PB_WT_VARINT
  | PB_WT_64BIT
  | PB_WT_STRING
  | PB_WT_32BIT
  | PB_WT_invalid uint32

definition wire_type_of :: "uint32 \<Rightarrow> pb_wire_type_t" where
  "wire_type_of w =
     (if w = 0 then PB_WT_VARINT else if w = 1 then PB_WT_64BIT
      else if w = 2 then PB_WT_STRING else if w = 5 then PB_WT_32BIT else PB_WT_invalid w)"

primrec wire_type_code :: "pb_wire_type_t \<Rightarrow> uint64" where
  "wire_type_code PB_WT_VARINT = 0"
| "wire_type_code PB_WT_64BIT = 1"
| "wire_type_code PB_WT_STRING = 2"
| "wire_type_code PB_WT_32BIT = 5"
| "wire_type_code (PB_WT_invalid w) = ucast w"

subsection \<open>Field descriptors\<close>

text \<open>
  \<^verbatim>\<open>pb_field_t\<close>.  The member \<^verbatim>\<open>ptr\<close> points to the descriptor array of a submessage, to the bytes of
  a default value, or is null.  Descriptor arrays are constant data; a descriptor is a finite tree
  here, which covers every message type that does not contain itself.
\<close>

datatype pb_field_t =
  Pb_field (tag: pb_size_t) (ftype: pb_type_t) (data_offset: pb_size_t) (size_offset: pb_ssize_t)
    (data_size: pb_size_t) (array_size: pb_size_t) (fptr: field_ptr)
and field_ptr =
    Ptr_null
  | Ptr_fields "pb_field_t list"
  | Ptr_default "byte list"

definition PB_LAST_FIELD :: pb_field_t where
  "PB_LAST_FIELD = Pb_field 0 0 0 0 0 0 Ptr_null"

subsection \<open>Error messages\<close>

text \<open>\<^verbatim>\<open>PB_SET_ERROR\<close> keeps the first message; \<^verbatim>\<open>PB_GET_ERROR\<close> has a text for the empty slot.\<close>

definition PB_SET_ERROR :: "string option \<Rightarrow> string \<Rightarrow> string option" where
  "PB_SET_ERROR e msg = (case e of None \<Rightarrow> Some msg | Some m \<Rightarrow> Some m)"

definition PB_GET_ERROR :: "string option \<Rightarrow> string" where
  "PB_GET_ERROR e = (case e of None \<Rightarrow> ''(none)'' | Some m \<Rightarrow> m)"

lemma PB_SET_ERROR_Some [simp]: "PB_SET_ERROR (Some m) msg = Some m"
  by (simp add: PB_SET_ERROR_def)

lemma PB_SET_ERROR_None [simp]: "PB_SET_ERROR None msg = Some msg"
  by (simp add: PB_SET_ERROR_def)

lemma PB_SET_ERROR_neq_None [simp]: "PB_SET_ERROR e msg \<noteq> None"
  by (simp add: PB_SET_ERROR_def split: option.split)

lemma wire_type_of_code: "w < 8 \<Longrightarrow> wire_type_code (wire_type_of w) = ucast w"
  by (auto simp: wire_type_of_def)

end
