(* ===== verification/Pb_Memory.thy ===== *)
theory Pb_Memory
  imports Pb_Types
begin

text \<open>
  The memory the encoder reads and the decoder fills: message structures, dynamically allocated
  fields, extension lists.  An object is a block of bytes; a pointer is a block and an offset.  A
  cell holds an indeterminate value, a plain byte or one byte of a stored pointer.  The C library
  functions \<^verbatim>\<open>realloc\<close> and \<^verbatim>\<open>free\<close>, which \<^verbatim>\<open>pb.h\<close> names as \<^verbatim>\<open>pb_realloc\<close> and \<^verbatim>\<open>pb_free\<close>, work on heap
  blocks.

  Every access is checked: outside a live block, or at an indeterminate cell, the result is
  \<^const>\<open>None\<close>.  Offsets are integers, so a pointer may run out of its object as long as it is not
  used.  Alignment is not checked.
\<close>

subsection \<open>Pointers, cells and blocks\<close>

text \<open>
  \<open>Sym\<close> is a pointer to something that is not part of this memory: a callback function or a
  constant extension type, by its number.  \<open>Wild\<close> is a null or symbolic pointer with an offset.
\<close>

datatype ptr = NULL | Ptr nat int | Sym nat | Wild

datatype memval = Undef | Byte byte | Frag ptr nat

record block =
  on_heap :: bool
  live :: bool
  cells :: "memval list"

record mem =
  blocks :: "block list"
  addr_of :: "ptr \<Rightarrow> uint64"
  malloc_fails :: "nat \<Rightarrow> bool"
  malloc_calls :: nat

definition padd :: "ptr \<Rightarrow> int \<Rightarrow> ptr" where
  "padd p k = (case p of Ptr b i \<Rightarrow> Ptr b (i + k) | _ \<Rightarrow> if k = 0 then p else Wild)"

definition live_block :: "mem \<Rightarrow> nat \<Rightarrow> block option" where
  "live_block m b = do { k \<leftarrow> nth_opt (blocks m) b; if live k then Some k else None }"

subsection \<open>Reading and writing\<close>

definition in_block :: "int \<Rightarrow> nat \<Rightarrow> nat \<Rightarrow> bool" where
  "in_block i n len \<longleftrightarrow> 0 \<le> i \<and> nat i + n \<le> len"

definition load_cells :: "mem \<Rightarrow> ptr \<Rightarrow> nat \<Rightarrow> memval list option" where
  "load_cells m p n =
     (case p of
        Ptr b i \<Rightarrow> do {
          k \<leftarrow> live_block m b;
          if in_block i n (length (cells k)) then Some (take n (drop (nat i) (cells k))) else None
        }
      | _ \<Rightarrow> None)"

definition store_cells :: "mem \<Rightarrow> ptr \<Rightarrow> memval list \<Rightarrow> mem option" where
  "store_cells m p cs =
     (case p of
        Ptr b i \<Rightarrow> do {
          k \<leftarrow> live_block m b;
          if in_block i (length cs) (length (cells k))
          then Some (m\<lparr>blocks := (blocks m)[b := k\<lparr>cells := take (nat i) (cells k) @ cs @
                        drop (nat i + length cs) (cells k)\<rparr>]\<rparr>)
          else None
        }
      | _ \<Rightarrow> None)"

fun byte_view :: "(ptr \<Rightarrow> uint64) \<Rightarrow> memval \<Rightarrow> byte option" where
  "byte_view ad Undef = None"
| "byte_view ad (Byte b) = Some b"
| "byte_view ad (Frag p i) = Some (ucast (drop_bit (8 * i) (ad p)))"

primrec bytes_view :: "(ptr \<Rightarrow> uint64) \<Rightarrow> memval list \<Rightarrow> byte list option" where
  "bytes_view ad [] = Some []"
| "bytes_view ad (c # cs) = do { b \<leftarrow> byte_view ad c; bs \<leftarrow> bytes_view ad cs; Some (b # bs) }"

definition load_bytes :: "mem \<Rightarrow> ptr \<Rightarrow> nat \<Rightarrow> byte list option" where
  "load_bytes m p n = do { cs \<leftarrow> load_cells m p n; bytes_view (addr_of m) cs }"

definition store_bytes :: "mem \<Rightarrow> ptr \<Rightarrow> byte list \<Rightarrow> mem option" where
  "store_bytes m p bs = store_cells m p (map Byte bs)"

definition load_u8 :: "mem \<Rightarrow> ptr \<Rightarrow> byte option" where
  "load_u8 m p = map_option word_of (load_bytes m p 1)"

definition load_u16 :: "mem \<Rightarrow> ptr \<Rightarrow> uint16 option" where
  "load_u16 m p = map_option word_of (load_bytes m p 2)"

definition load_u32 :: "mem \<Rightarrow> ptr \<Rightarrow> uint32 option" where
  "load_u32 m p = map_option word_of (load_bytes m p 4)"

definition load_u64 :: "mem \<Rightarrow> ptr \<Rightarrow> uint64 option" where
  "load_u64 m p = map_option word_of (load_bytes m p 8)"

definition store_u8 :: "mem \<Rightarrow> ptr \<Rightarrow> byte \<Rightarrow> mem option" where
  "store_u8 m p v = store_bytes m p (bytes_of 1 v)"

definition store_u16 :: "mem \<Rightarrow> ptr \<Rightarrow> uint16 \<Rightarrow> mem option" where
  "store_u16 m p v = store_bytes m p (bytes_of 2 v)"

definition store_u32 :: "mem \<Rightarrow> ptr \<Rightarrow> uint32 \<Rightarrow> mem option" where
  "store_u32 m p v = store_bytes m p (bytes_of 4 v)"

definition store_u64 :: "mem \<Rightarrow> ptr \<Rightarrow> uint64 \<Rightarrow> mem option" where
  "store_u64 m p v = store_bytes m p (bytes_of 8 v)"

text \<open>A pointer occupies eight bytes; the null pointer is eight zero bytes.\<close>

definition ptr_cells :: "ptr \<Rightarrow> memval list" where
  "ptr_cells q = (if q = NULL then replicate 8 (Byte 0) else map (Frag q) [0..<8])"

definition cells_ptr :: "memval list \<Rightarrow> ptr option" where
  "cells_ptr cs =
     (if cs = replicate 8 (Byte 0) then Some NULL
      else case cs of
        Frag q i # _ \<Rightarrow> (if q \<noteq> NULL \<and> cs = map (Frag q) [0..<8] then Some q else None)
      | _ \<Rightarrow> None)"

definition load_ptr :: "mem \<Rightarrow> ptr \<Rightarrow> ptr option" where
  "load_ptr m p = do { cs \<leftarrow> load_cells m p 8; cells_ptr cs }"

definition store_ptr :: "mem \<Rightarrow> ptr \<Rightarrow> ptr \<Rightarrow> mem option" where
  "store_ptr m p q = store_cells m p (ptr_cells q)"

subsection \<open>Allocation\<close>

definition new_block :: "mem \<Rightarrow> bool \<Rightarrow> nat \<Rightarrow> ptr \<times> mem" where
  "new_block m heap n =
     (Ptr (length (blocks m)) 0,
      m\<lparr>blocks := blocks m @ [\<lparr>on_heap = heap, live = True, cells = replicate n Undef\<rparr>]\<rparr>)"

definition kill_block :: "mem \<Rightarrow> nat \<Rightarrow> mem" where
  "kill_block m b =
     (case nth_opt (blocks m) b of
        None \<Rightarrow> m
      | Some k \<Rightarrow> m\<lparr>blocks := (blocks m)[b := k\<lparr>live := False\<rparr>]\<rparr>)"

definition heap_base :: "mem \<Rightarrow> ptr \<Rightarrow> nat option" where
  "heap_base m p =
     (case p of
        Ptr b i \<Rightarrow> do { k \<leftarrow> live_block m b; if on_heap k \<and> i = 0 then Some b else None }
      | _ \<Rightarrow> None)"

text \<open>\<^verbatim>\<open>pb_free\<close>: null is ignored; anything but the start of a live heap block is undefined.\<close>

definition pb_free :: "mem \<Rightarrow> ptr \<Rightarrow> mem option" where
  "pb_free m p =
     (if p = NULL then Some m else do { b \<leftarrow> heap_base m p; Some (kill_block m b) })"

text \<open>
  \<^verbatim>\<open>pb_realloc\<close> returns null and leaves the old block alone when the allocator refuses; otherwise it
  moves the content to a new block.  A request that stays in place is a special case for a program
  that does not keep the old pointer.
\<close>

definition pb_realloc :: "mem \<Rightarrow> ptr \<Rightarrow> nat \<Rightarrow> (ptr \<times> mem) option" where
  "pb_realloc m p n =
     (let m' = m\<lparr>malloc_calls := Suc (malloc_calls m)\<rparr> in
      if malloc_fails m (malloc_calls m)
      then (if p = NULL then Some (NULL, m') else do { b \<leftarrow> heap_base m p; Some (NULL, m') })
      else if p = NULL then Some (new_block m' True n)
      else do {
        b \<leftarrow> heap_base m p;
        k \<leftarrow> live_block m b;
        let old = cells k;
        Some (Ptr (length (blocks m)) 0,
              (kill_block m' b)\<lparr>blocks := blocks (kill_block m' b) @
                 [\<lparr>on_heap = True, live = True,
                   cells = take n old @ replicate (n - length old) Undef\<rparr>]\<rparr>)
      })"

subsection \<open>Laws\<close>

lemma padd_0 [simp]: "padd p 0 = p"
  by (cases p) (simp_all add: padd_def)

lemma padd_Ptr [simp]: "padd (Ptr b i) k = Ptr b (i + k)"
  by (simp add: padd_def)

lemma load_cells_Ptr:
  "load_cells m (Ptr b i) n = Some cs \<longleftrightarrow>
   (\<exists>k. live_block m b = Some k \<and> in_block i n (length (cells k)) \<and> cs = take n (drop (nat i) (cells k)))"
  by (auto simp: load_cells_def)

lemma length_load_cells: "load_cells m p n = Some cs \<Longrightarrow> length cs = n"
  by (cases p) (auto simp: load_cells_def in_block_def split: if_splits)

lemma length_bytes_view: "bytes_view ad cs = Some bs \<Longrightarrow> length bs = length cs"
  by (induction cs arbitrary: bs) auto

lemma length_load_bytes: "load_bytes m p n = Some bs \<Longrightarrow> length bs = n"
  by (auto simp: load_bytes_def dest!: length_load_cells length_bytes_view)

lemma bytes_view_Byte [simp]: "bytes_view ad (map Byte bs) = Some bs"
  by (induction bs) simp_all

lemma cells_ptr_cells [simp]: "cells_ptr (ptr_cells q) = Some q"
proof (cases "q = NULL")
  case False
  have u: "[0..<8] = 0 # [1..<8 :: nat]" by (simp add: upt_rec)
  have r: "replicate 8 (Byte 0) = Byte 0 # replicate 7 (Byte 0)" by (simp add: numeral_eq_Suc)
  show ?thesis
    using False by (simp add: cells_ptr_def ptr_cells_def u r)
qed (simp add: cells_ptr_def ptr_cells_def)

lemma length_ptr_cells [simp]: "length (ptr_cells q) = 8"
  by (simp add: ptr_cells_def)

text \<open>
  \<open>apart p n q k\<close>: the \<open>n\<close> bytes at \<open>p\<close> and the \<open>k\<close> bytes at \<open>q\<close> do not overlap.
\<close>

fun apart :: "ptr \<Rightarrow> nat \<Rightarrow> ptr \<Rightarrow> nat \<Rightarrow> bool" where
  "apart (Ptr b i) n (Ptr c j) k \<longleftrightarrow> b \<noteq> c \<or> i + int n \<le> j \<or> j + int k \<le> i"
| "apart p n q k \<longleftrightarrow> True"

lemma live_block_store:
  assumes "store_cells m (Ptr b i) cs = Some m'"
  shows "live_block m' c =
    (if c = b then map_option (\<lambda>k. k\<lparr>cells := take (nat i) (cells k) @ cs @ drop (nat i + length cs) (cells k)\<rparr>)
       (live_block m b) else live_block m c)"
  using assms
  by (cases "c = b") (auto simp: store_cells_def live_block_def nth_opt_def split: if_splits)

lemma addr_of_store: "store_cells m p cs = Some m' \<Longrightarrow> addr_of m' = addr_of m"
  by (cases p) (auto simp: store_cells_def split: if_splits)

lemma load_store_same:
  assumes "store_cells m p cs = Some m'"
  shows "load_cells m' p (length cs) = Some cs"
  using assms
  by (cases p) (auto simp: store_cells_def load_cells_def live_block_def nth_opt_def in_block_def split: if_splits)

lemma take_drop_splice_before:
  "j + k \<le> i \<Longrightarrow> i \<le> length xs \<Longrightarrow> take k (drop j (take i xs @ ys)) = take k (drop j xs)"
  by (simp add: take_drop min_def)

lemma take_drop_splice_after:
  assumes "i + length cs \<le> j" "j + k \<le> length xs"
  shows "take k (drop j (take i xs @ cs @ drop (i + length cs) xs)) = take k (drop j xs)"
  using assms by (cases "i \<le> length xs") (auto simp: min_def simp flip: length_0_conv)

lemma load_store_apart:
  assumes st: "store_cells m p cs = Some m'" and ap: "apart p (length cs) q n"
  shows "load_cells m' q n = load_cells m q n"
proof (cases q)
  case q: (Ptr c j)
  obtain b i where p: "p = Ptr b i"
    using st by (cases p) (simp_all add: store_cells_def)
  obtain k where k: "live_block m b = Some k" "in_block i (length cs) (length (cells k))"
    using st by (auto simp: p store_cells_def split: if_splits)
  let ?xs = "take (nat i) (cells k) @ cs @ drop (nat i + length cs) (cells k)"
  have len: "length ?xs = length (cells k)"
    using k(2) by (simp add: in_block_def)
  have "take n (drop (nat j) ?xs) = take n (drop (nat j) (cells k))"
    if "c = b" "in_block j n (length (cells k))"
  proof (cases "i + int (length cs) \<le> j")
    case True
    with that k(2) show ?thesis
      by (intro take_drop_splice_after) (auto simp: in_block_def)
  next
    case False
    with ap that p q have "j + int n \<le> i" by auto
    with that k(2) show ?thesis
      by (intro take_drop_splice_before) (auto simp: in_block_def)
  qed
  then show ?thesis
    using live_block_store [OF st [unfolded p], of c] k len
    by (auto simp: q load_cells_def)
qed (simp_all add: load_cells_def)

lemma store_total: "load_cells m p n = Some old \<Longrightarrow> length cs = n \<Longrightarrow> \<exists>m'. store_cells m p cs = Some m'"
  by (cases p) (auto simp: load_cells_def store_cells_def split: if_splits)

lemma store_keeps_extent:
  assumes "store_cells m p cs = Some m'"
  shows "load_cells m' q n = None \<longleftrightarrow> load_cells m q n = None"
proof (cases q)
  case (Ptr c j)
  obtain b i where p: "p = Ptr b i"
    using assms by (cases p) (simp_all add: store_cells_def)
  obtain k where k: "live_block m b = Some k" "in_block i (length cs) (length (cells k))"
    using assms by (auto simp: p store_cells_def split: if_splits)
  then have "length (take (nat i) (cells k) @ cs @ drop (nat i + length cs) (cells k)) = length (cells k)"
    by (simp add: in_block_def)
  then show ?thesis
    using live_block_store [OF assms [unfolded p], of c] k
    by (cases "c = b") (auto simp: Ptr load_cells_def bind_None_iff)
qed (simp_all add: load_cells_def)

subsection \<open>Typed access\<close>

text \<open>
  A C object type of \<open>width\<close> bytes: how a value is laid out in cells and read back.  Storing a
  value changes exactly its own bytes.
\<close>

locale object_type =
  fixes ld :: "mem \<Rightarrow> ptr \<Rightarrow> 'v option"
    and st :: "mem \<Rightarrow> ptr \<Rightarrow> 'v \<Rightarrow> mem option"
    and width :: nat
    and lay :: "'v \<Rightarrow> memval list"
    and parse :: "(ptr \<Rightarrow> uint64) \<Rightarrow> memval list \<Rightarrow> 'v option"
  assumes st_cells: "st m p v = store_cells m p (lay v)"
    and ld_cells: "ld m p = Option.bind (load_cells m p width) (parse (addr_of m))"
    and length_lay: "length (lay v) = width"
    and parse_lay: "parse ad (lay v) = Some v"
begin

lemma ld_st: "st m p v = Some m' \<Longrightarrow> ld m' p = Some v"
  using load_store_same [of m p "lay v" m'] by (simp add: st_cells ld_cells length_lay parse_lay)

lemma load_cells_st: "st m p v = Some m' \<Longrightarrow> apart p width q n \<Longrightarrow> load_cells m' q n = load_cells m q n"
  using load_store_apart [of m p "lay v" m' q n] by (simp add: st_cells length_lay)

lemma ld_apart: "store_cells m q cs = Some m' \<Longrightarrow> apart q (length cs) p width \<Longrightarrow> ld m' p = ld m p"
  using load_store_apart [of m q cs m' p width] addr_of_store [of m q cs m'] by (simp add: ld_cells)

lemma st_total: "load_cells m p width = Some old \<Longrightarrow> \<exists>m'. st m p v = Some m'"
  using store_total [of m p width old "lay v"] by (simp add: st_cells length_lay)

end

lemma map_bind: "map_option f (Option.bind x g) = Option.bind x (\<lambda>y. map_option f (g y))"
  by (cases x) simp_all

interpretation u8: object_type load_u8 store_u8 1 "\<lambda>v. map Byte (bytes_of 1 v)"
    "\<lambda>ad cs. map_option word_of (bytes_view ad cs)"
  by unfold_locales (simp_all only: load_u8_def store_u8_def store_bytes_def load_bytes_def map_bind
      length_map length_bytes_of bytes_view_Byte option.map word_of_bytes_of_full, simp_all add: word_of_bytes_of_full)

interpretation u16: object_type load_u16 store_u16 2 "\<lambda>v. map Byte (bytes_of 2 v)"
    "\<lambda>ad cs. map_option word_of (bytes_view ad cs)"
  by unfold_locales (simp_all add: load_u16_def store_u16_def store_bytes_def load_bytes_def map_bind
      word_of_bytes_of_full)

interpretation u32: object_type load_u32 store_u32 4 "\<lambda>v. map Byte (bytes_of 4 v)"
    "\<lambda>ad cs. map_option word_of (bytes_view ad cs)"
  by unfold_locales (simp_all add: load_u32_def store_u32_def store_bytes_def load_bytes_def map_bind
      word_of_bytes_of_full)

interpretation u64: object_type load_u64 store_u64 8 "\<lambda>v. map Byte (bytes_of 8 v)"
    "\<lambda>ad cs. map_option word_of (bytes_view ad cs)"
  by unfold_locales (simp_all add: load_u64_def store_u64_def store_bytes_def load_bytes_def map_bind
      word_of_bytes_of_full)

interpretation pointer: object_type load_ptr store_ptr 8 ptr_cells "\<lambda>ad cs. cells_ptr cs"
  by unfold_locales (simp_all add: load_ptr_def store_ptr_def)

end
