(* ===== verification/Pb_Common.thy ===== *)
theory Pb_Common
  imports Pb_Memory
begin

text \<open>
  The field iterator of \<^verbatim>\<open>pb_common.c\<close>, which walks a descriptor array and the message structure it
  describes side by side, and the list of positions it visits.
\<close>

subsection \<open>The iterator\<close>

text \<open>
  \<^verbatim>\<open>pb_field_iter_t\<close>.  The member \<^verbatim>\<open>pos\<close> is an index into the descriptor array \<^verbatim>\<open>start\<close>; reading a
  descriptor behind the array is undefined.
\<close>

record pb_field_iter_t =
  start :: "pb_field_t list"
  pos :: nat
  required_field_index :: nat
  dest_struct :: ptr
  pData :: ptr
  pSize :: ptr

definition field_at :: "pb_field_iter_t \<Rightarrow> pb_field_t option" where
  "field_at it = nth_opt (start it) (pos it)"

definition pb_field_iter_begin :: "pb_field_t list \<Rightarrow> ptr \<Rightarrow> (bool \<times> pb_field_iter_t) option" where
  "pb_field_iter_begin flds dest = do {
     f \<leftarrow> nth_opt flds 0;
     let pd = padd dest (uint (data_offset f));
     Some (tag f \<noteq> 0,
       \<lparr>start = flds, pos = 0, required_field_index = 0, dest_struct = dest,
        pData = pd, pSize = padd pd (sint (size_offset f))\<rparr>)
   }"

text \<open>
  The number of bytes between the starts of a field and of the field behind it, not counting
  padding; \<^verbatim>\<open>size_t\<close> holds the product of two 32-bit sizes.
\<close>

definition prev_size :: "pb_field_t \<Rightarrow> int" where
  "prev_size f =
     (if PB_ATYPE (ftype f) = PB_ATYPE_STATIC \<and> PB_HTYPE (ftype f) = PB_HTYPE_REPEATED
      then uint (data_size f) * uint (array_size f)
      else if PB_ATYPE (ftype f) = PB_ATYPE_POINTER then 8
      else uint (data_size f))"

definition in_union :: "pb_field_t \<Rightarrow> pb_field_t \<Rightarrow> bool" where
  "in_union prev f \<longleftrightarrow>
     PB_HTYPE (ftype prev) = PB_HTYPE_ONEOF \<and> PB_HTYPE (ftype f) = PB_HTYPE_ONEOF \<and>
     data_offset f = PB_SIZE_MAX"

definition pb_field_iter_next :: "pb_field_iter_t \<Rightarrow> (bool \<times> pb_field_iter_t) option" where
  "pb_field_iter_next it = do {
     prev \<leftarrow> field_at it;
     if tag prev = 0 then Some (False, it)
     else do {
       let it = it\<lparr>pos := Suc (pos it)\<rparr>;
       f \<leftarrow> field_at it;
       if tag f = 0
       then do { (ne, it) \<leftarrow> pb_field_iter_begin (start it) (dest_struct it); Some (False, it) }
       else if in_union prev f then Some (True, it)
       else (let rfi = (if PB_HTYPE (ftype prev) = PB_HTYPE_REQUIRED
                        then Suc (required_field_index it) else required_field_index it);
                 pd = padd (pData it) (prev_size prev + uint (data_offset f))
             in Some (True, it\<lparr>required_field_index := rfi, pData := pd,
                              pSize := padd pd (sint (size_offset f))\<rparr>))
     }
   }"

text \<open>
  The search loop of \<^verbatim>\<open>pb_field_iter_find\<close>; the array has as many positions as descriptors, so the
  loop is back at its start position after at most that many rounds.
\<close>

primrec find_loop :: "nat \<Rightarrow> nat \<Rightarrow> uint32 \<Rightarrow> pb_field_iter_t \<Rightarrow> (bool \<times> pb_field_iter_t) option" where
  "find_loop 0 st t it = None"
| "find_loop (Suc n) st t it = do {
     f \<leftarrow> field_at it;
     if tag f = t \<and> PB_LTYPE (ftype f) \<noteq> PB_LTYPE_EXTENSION then Some (True, it)
     else do {
       (more, it) \<leftarrow> pb_field_iter_next it;
       if pos it \<noteq> st then find_loop n st t it else Some (False, it)
     }
   }"

definition pb_field_iter_find :: "pb_field_iter_t \<Rightarrow> uint32 \<Rightarrow> (bool \<times> pb_field_iter_t) option" where
  "pb_field_iter_find it t = find_loop (length (start it)) (pos it) t it"

subsection \<open>The loop over all fields\<close>

text \<open>
  \<^verbatim>\<open>do { body } while (pb_field_iter_next(&iter))\<close>, with early return when the body says \<^const>\<open>False\<close>.  The
  descriptor array bounds the number of rounds.
\<close>

primrec iter_do ::
  "nat \<Rightarrow> (pb_field_iter_t \<Rightarrow> 's \<Rightarrow> (bool \<times> 's) option) \<Rightarrow> pb_field_iter_t \<Rightarrow> 's \<Rightarrow> (bool \<times> 's) option" where
  "iter_do 0 body it s = None"
| "iter_do (Suc n) body it s = do {
     (ok, s) \<leftarrow> body it s;
     if \<not> ok then Some (False, s)
     else do {
       (more, it) \<leftarrow> pb_field_iter_next it;
       if more then iter_do n body it s else Some (True, s)
     }
   }"

definition for_fields ::
  "pb_field_t list \<Rightarrow> ptr \<Rightarrow> (pb_field_iter_t \<Rightarrow> 's \<Rightarrow> (bool \<times> 's) option) \<Rightarrow> 's \<Rightarrow> (bool \<times> 's) option" where
  "for_fields flds base body s = do {
     (ne, it) \<leftarrow> pb_field_iter_begin flds base;
     if \<not> ne then Some (True, s) else iter_do (length flds) body it s
   }"

subsection \<open>The positions of a walk\<close>

text \<open>
  The fields in front of the terminator, and the iterator positions a walk from the first of them
  visits, computed from the list alone.
\<close>

definition live_fields :: "pb_field_t list \<Rightarrow> pb_field_t list" where
  "live_fields flds = takeWhile (\<lambda>f. tag f \<noteq> 0) flds"

definition terminated :: "pb_field_t list \<Rightarrow> bool" where
  "terminated flds \<longleftrightarrow> (\<exists>f \<in> set flds. tag f = 0)"

definition step_iter :: "pb_field_iter_t \<Rightarrow> pb_field_t \<Rightarrow> pb_field_t \<Rightarrow> pb_field_iter_t" where
  "step_iter it prev f =
     (if in_union prev f then it\<lparr>pos := Suc (pos it)\<rparr>
      else let pd = padd (pData it) (prev_size prev + uint (data_offset f))
           in it\<lparr>pos := Suc (pos it),
                 required_field_index := (if PB_HTYPE (ftype prev) = PB_HTYPE_REQUIRED
                   then Suc (required_field_index it) else required_field_index it),
                 pData := pd, pSize := padd pd (sint (size_offset f))\<rparr>)"

fun walk_from :: "pb_field_iter_t \<Rightarrow> pb_field_t list \<Rightarrow> pb_field_iter_t list" where
  "walk_from it [] = []"
| "walk_from it [f] = [it]"
| "walk_from it (f # g # fs) = it # walk_from (step_iter it f g) (g # fs)"

definition walk :: "pb_field_t list \<Rightarrow> ptr \<Rightarrow> pb_field_iter_t list" where
  "walk flds base =
     (case pb_field_iter_begin flds base of
        Some (True, it) \<Rightarrow> walk_from it (live_fields flds)
      | _ \<Rightarrow> [])"

primrec each :: "('a \<Rightarrow> 's \<Rightarrow> (bool \<times> 's) option) \<Rightarrow> 'a list \<Rightarrow> 's \<Rightarrow> (bool \<times> 's) option" where
  "each body [] s = Some (True, s)"
| "each body (x # xs) s = do { (ok, s) \<leftarrow> body x s; if \<not> ok then Some (False, s) else each body xs s }"

lemma walk_from_pos: "i < length fs \<Longrightarrow> pos (walk_from it fs ! i) = pos it + i"
proof (induction it fs arbitrary: i rule: walk_from.induct)
  case (3 it f g fs)
  then show ?case by (cases i) (simp_all add: step_iter_def Let_def)
qed auto

lemma step_iter_frame [simp]:
  "start (step_iter it f g) = start it" "dest_struct (step_iter it f g) = dest_struct it"
  "pos (step_iter it f g) = Suc (pos it)"
  by (simp_all add: step_iter_def Let_def)

lemma walk_from_frame:
  "i < length fs \<Longrightarrow> start (walk_from it fs ! i) = start it \<and> dest_struct (walk_from it fs ! i) = dest_struct it"
proof (induction it fs arbitrary: i rule: walk_from.induct)
  case (3 it f g fs)
  then show ?case by (cases i) simp_all
qed auto

lemma length_walk_from [simp]: "length (walk_from it fs) = length fs"
  by (induction it fs rule: walk_from.induct) simp_all

lemma walk_from_0 [simp]: "fs \<noteq> [] \<Longrightarrow> walk_from it fs ! 0 = it"
  by (induction it fs rule: walk_from.induct) simp_all

lemma walk_from_Suc:
  "Suc i < length fs \<Longrightarrow> walk_from it fs ! Suc i = step_iter (walk_from it fs ! i) (fs ! i) (fs ! Suc i)"
proof (induction it fs arbitrary: i rule: walk_from.induct)
  case (3 it f g fs)
  then show ?case by (cases i) simp_all
qed auto

lemma live_fields_terminated:
  assumes "terminated flds"
  obtains f rest where "flds = live_fields flds @ f # rest" "tag f = 0"
proof -
  have "dropWhile (\<lambda>f. tag f \<noteq> 0) flds \<noteq> []"
    using assms by (auto simp: terminated_def)
  then obtain f rest where d: "dropWhile (\<lambda>f. tag f \<noteq> 0) flds = f # rest"
    by (cases "dropWhile (\<lambda>f. tag f \<noteq> 0) flds") auto
  then have "tag f = 0" using hd_dropWhile [of "\<lambda>f. tag f \<noteq> 0" flds] by simp
  moreover have "flds = live_fields flds @ f # rest"
    using takeWhile_dropWhile_id [of "\<lambda>f. tag f \<noteq> 0" flds] d by (simp add: live_fields_def)
  ultimately show ?thesis using that by blast
qed

lemma live_fields_tag: "f \<in> set (live_fields flds) \<Longrightarrow> tag f \<noteq> 0"
  by (auto simp: live_fields_def dest: set_takeWhileD)

lemma live_fields_nth: "i < length (live_fields flds) \<Longrightarrow> flds ! i = live_fields flds ! i"
  by (simp add: live_fields_def takeWhile_nth)

lemma length_live_fields: "length (live_fields flds) \<le> length flds"
  by (simp add: live_fields_def length_takeWhile_le)

lemma begin_terminated:
  assumes "terminated flds"
  shows "\<exists>it. pb_field_iter_begin flds base = Some (live_fields flds \<noteq> [], it) \<and>
    start it = flds \<and> pos it = 0 \<and> dest_struct it = base \<and> required_field_index it = 0"
proof -
  obtain f rest where "flds = live_fields flds @ f # rest" "tag f = 0"
    using assms by (rule live_fields_terminated)
  then obtain g gs where g: "flds = g # gs" by (cases flds) auto
  then have "live_fields flds \<noteq> [] \<longleftrightarrow> tag g \<noteq> 0" by (simp add: live_fields_def)
  with g show ?thesis by (simp add: pb_field_iter_begin_def nth_opt_def Let_def)
qed

lemma walk_nth:
  assumes "terminated flds" "i < length (live_fields flds)"
  obtains it0 where "pb_field_iter_begin flds base = Some (True, it0)" "walk flds base ! i = walk_from it0 (live_fields flds) ! i"
    "start (walk flds base ! i) = flds" "pos (walk flds base ! i) = i" "dest_struct (walk flds base ! i) = base"
proof -
  have ne: "live_fields flds \<noteq> []" using assms(2) by auto
  with begin_terminated [OF assms(1), of base] obtain it0
    where it0: "pb_field_iter_begin flds base = Some (True, it0)" "start it0 = flds" "pos it0 = 0" "dest_struct it0 = base"
    by auto
  then have w: "walk flds base = walk_from it0 (live_fields flds)" by (simp add: walk_def)
  show ?thesis
    using that [OF it0(1)] walk_from_frame [OF assms(2), of it0] walk_from_pos [OF assms(2), of it0] it0 w by simp
qed

lemma walk_sel:
  assumes "terminated flds" "i < length (live_fields flds)"
  shows "start (walk flds base ! i) = flds" "pos (walk flds base ! i) = i"
    "dest_struct (walk flds base ! i) = base"
proof -
  show "start (walk flds base ! i) = flds" using assms by (rule walk_nth) assumption
  show "pos (walk flds base ! i) = i" using assms by (rule walk_nth) assumption
  show "dest_struct (walk flds base ! i) = base" using assms by (rule walk_nth) assumption
qed

lemma length_walk [simp]: "terminated flds \<Longrightarrow> length (walk flds base) = length (live_fields flds)"
  using begin_terminated [of flds base] by (auto simp: walk_def split: bool.splits)

lemma iter_next_step:
  assumes "field_at it = Some prev" "tag prev \<noteq> 0" "nth_opt (start it) (Suc (pos it)) = Some f" "tag f \<noteq> 0"
  shows "pb_field_iter_next it = Some (True, step_iter it prev f)"
  using assms by (simp add: pb_field_iter_next_def step_iter_def Let_def field_at_def)

text \<open>A step of the iterator goes to the next position of the walk, or back to the first.\<close>

lemma iter_next_walk:
  assumes t: "terminated flds" and i: "i < length (live_fields flds)"
  shows "pb_field_iter_next (walk flds base ! i) =
    Some (if Suc i < length (live_fields flds) then (True, walk flds base ! Suc i) else (False, walk flds base ! 0))"
proof -
  obtain it0 where it0: "pb_field_iter_begin flds base = Some (True, it0)"
    "walk flds base ! i = walk_from it0 (live_fields flds) ! i"
    "start (walk flds base ! i) = flds" "pos (walk flds base ! i) = i" "dest_struct (walk flds base ! i) = base"
    using t i by (rule walk_nth)
  have w: "walk flds base = walk_from it0 (live_fields flds)" using it0(1) by (simp add: walk_def)
  obtain f rest where f: "flds = live_fields flds @ f # rest" "tag f = 0"
    using t by (rule live_fields_terminated)
  have here: "field_at (walk flds base ! i) = Some (live_fields flds ! i)"
    using i length_live_fields [of flds] by (simp add: field_at_def it0(3,4) nth_opt_def live_fields_nth)
  have "tag (live_fields flds ! i) \<noteq> 0" using i by (intro live_fields_tag) (rule nth_mem)
  note 1 = here this
  show ?thesis
  proof (cases "Suc i < length (live_fields flds)")
    case True
    have "nth_opt (start (walk flds base ! i)) (Suc (pos (walk flds base ! i))) = Some (live_fields flds ! Suc i)"
      using True length_live_fields [of flds] by (simp add: it0(3,4) nth_opt_def live_fields_nth)
    then have "pb_field_iter_next (walk flds base ! i) =
        Some (True, step_iter (walk flds base ! i) (live_fields flds ! i) (live_fields flds ! Suc i))"
      using 1 live_fields_tag [OF nth_mem [OF True]] by (intro iter_next_step)
    then show ?thesis
      using True walk_from_Suc [OF True, of it0] by (simp add: w)
  next
    case False
    with i have "Suc i = length (live_fields flds)" by simp
    then have nx: "nth_opt flds (Suc i) = Some f" by (subst f(1)) (simp add: nth_opt_def)
    have "walk flds base ! 0 = it0" using i w walk_from_0 [of "live_fields flds" it0] by (cases "live_fields flds") auto
    with False nx f(2) 1 it0 show ?thesis
      by (simp add: pb_field_iter_next_def Let_def field_at_def)
  qed
qed

lemma field_at_walk:
  assumes "terminated flds" "i < length (live_fields flds)"
  shows "field_at (walk flds base ! i) = Some (live_fields flds ! i)"
  using walk_sel [OF assms, of base] length_live_fields [of flds] assms(2)
  by (simp add: field_at_def nth_opt_def live_fields_nth)

lemma iter_do_walk:
  assumes "terminated flds" "i < length (live_fields flds)" "length (live_fields flds) - i \<le> n"
  shows "iter_do n body (walk flds base ! i) s = each body (drop i (walk flds base)) s"
  using assms(2,3)
proof (induction n arbitrary: i s)
  case (Suc n)
  let ?w = "walk flds base" and ?n = "length (live_fields flds)"
  have d: "drop i ?w = ?w ! i # drop (Suc i) ?w"
    using Suc.prems assms(1) by (simp add: Cons_nth_drop_Suc)
  have "each body (drop (Suc i) ?w) s' = Some (True, s')" if "\<not> Suc i < ?n" for s'
    using that assms(1) by simp
  with Suc show ?case
    unfolding d by (auto simp: iter_next_walk [OF assms(1)] intro!: bind_option_cong)
qed simp

text \<open>The loop over the fields does its body at every position of the walk, in order.\<close>

lemma for_fields_walk:
  assumes "terminated flds"
  shows "for_fields flds base body s = each body (walk flds base) s"
proof -
  obtain it where it: "pb_field_iter_begin flds base = Some (live_fields flds \<noteq> [], it)" "start it = flds" "pos it = 0"
    using begin_terminated [OF assms, of base] by blast
  show ?thesis
  proof (cases "live_fields flds = []")
    case True
    with it show ?thesis by (simp add: for_fields_def walk_def)
  next
    case False
    then have w: "walk flds base = walk_from it (live_fields flds)" using it by (simp add: walk_def)
    with False have "it = walk flds base ! 0" by simp
    with False it show ?thesis
      using iter_do_walk [OF assms, of 0 "length flds" body base s] length_live_fields [of flds]
      by (simp add: for_fields_def)
  qed
qed

text \<open>
  The search: from position \<open>i\<close> it looks at the \<open>d\<close> positions up to the start position \<open>st\<close>, wrapping
  around once.
\<close>

definition wanted :: "uint32 \<Rightarrow> pb_field_t \<Rightarrow> bool" where
  "wanted t f \<longleftrightarrow> tag f = t \<and> PB_LTYPE (ftype f) \<noteq> PB_LTYPE_EXTENSION"

lemma mod_Suc_wrap: "i < n \<Longrightarrow> Suc i mod n = (if Suc i < n then Suc i else 0)" for i n :: nat
  by (cases "Suc i = n") auto

lemma find_loop_walk:
  assumes t: "terminated flds" and "i < length (live_fields flds)" "(i + d) mod length (live_fields flds) = st"
    "0 < d" "d \<le> length (live_fields flds)" "d \<le> k"
  shows "\<exists>j<length (live_fields flds). find_loop k st tg (walk flds base ! i) =
      Some (if \<exists>e<d. wanted tg (live_fields flds ! ((i + e) mod length (live_fields flds)))
        then (True, walk flds base ! j) else (False, walk flds base ! st)) \<and>
      ((\<exists>e<d. wanted tg (live_fields flds ! ((i + e) mod length (live_fields flds)))) \<longrightarrow>
         wanted tg (live_fields flds ! j))"
  using assms(2-)
proof (induction d arbitrary: i k)
  case (Suc d)
  let ?n = "length (live_fields flds)" and ?w = "walk flds base"
  obtain k' where k': "k = Suc k'" "d \<le> k'" using Suc.prems(5) by (cases k) simp_all
  define i' where "i' = Suc i mod ?n"
  have i': "i' < ?n" using Suc.prems(1) by (auto simp: i'_def intro: mod_less_divisor)
  have nx: "\<exists>more. pb_field_iter_next (?w ! i) = Some (more, ?w ! i')"
    using iter_next_walk [OF t Suc.prems(1), of base] mod_Suc_wrap [OF Suc.prems(1)]
    by (auto simp: i'_def)
  have shift: "(i' + e) mod ?n = (i + Suc e) mod ?n" for e
    by (simp add: i'_def mod_simps)
  have posi': "pos (?w ! i') = i'" using t i' by (rule walk_nth) simp
  have ex: "(\<exists>e<Suc d. wanted tg (live_fields flds ! ((i + e) mod ?n))) \<longleftrightarrow>
      wanted tg (live_fields flds ! i) \<or> (\<exists>e<d. wanted tg (live_fields flds ! ((i' + e) mod ?n)))"
    using Suc.prems(1) unfolding shift Ex_less_Suc2 by simp
  show ?case
  proof (cases "wanted tg (live_fields flds ! i)")
    case True
    with Suc.prems(1) k' show ?thesis
      by (intro exI [of _ i]) (auto simp: field_at_walk [OF t] wanted_def ex [unfolded wanted_def])
  next
    case nw: False
    show ?thesis
    proof (cases "d = 0")
      case True
      with Suc.prems have "i' = st" by (simp add: i'_def)
      with nw nx k' True posi' Suc.prems(1) show ?thesis
        unfolding ex by (auto simp: field_at_walk [OF t] wanted_def)
    next
      case False
      have "i' \<noteq> st"
      proof
        assume "i' = st"
        then have "(i' + d) mod ?n = i' mod ?n" using Suc.prems(2) i' shift [of d] by simp
        then have "d mod ?n = 0" by (metis add.commute add_diff_cancel_right' le_add2 mod_eq_dvd_iff_nat mod_eq_0_iff_dvd)
        with False Suc.prems(4) show False by simp
      qed
      moreover have "(i' + d) mod ?n = st" using Suc.prems(2) by (simp add: shift)
      moreover have "find_loop k st tg (?w ! i) = find_loop k' st tg (?w ! i')" if "i' \<noteq> st"
        using that nw nx posi' Suc.prems(1) by (auto simp: k' field_at_walk [OF t] wanted_def)
      ultimately show ?thesis
        using Suc.IH [OF i', of k'] False Suc.prems(4) nw k' unfolding ex by simp
    qed
  qed
qed simp

lemma pb_field_iter_find_walk:
  assumes t: "terminated flds" and i: "i < length (live_fields flds)"
  shows "\<exists>j<length (live_fields flds). pb_field_iter_find (walk flds base ! i) tg =
      Some (if \<exists>f \<in> set (live_fields flds). wanted tg f then (True, walk flds base ! j) else (False, walk flds base ! i)) \<and>
      ((\<exists>f \<in> set (live_fields flds). wanted tg f) \<longrightarrow> wanted tg (live_fields flds ! j))"
proof -
  let ?n = "length (live_fields flds)"
  have eq: "(\<exists>e<?n. wanted tg (live_fields flds ! ((i + e) mod ?n))) \<longleftrightarrow> (\<exists>f \<in> set (live_fields flds). wanted tg f)"
  proof
    assume "\<exists>f \<in> set (live_fields flds). wanted tg f"
    then obtain j where j: "j < ?n" "wanted tg (live_fields flds ! j)" by (auto simp: in_set_conv_nth)
    have "(i + (j + ?n - i) mod ?n) mod ?n = j"
      using i j by (simp add: mod_simps)
    moreover have "(j + ?n - i) mod ?n < ?n" using i by (intro mod_less_divisor) auto
    ultimately show "\<exists>e<?n. wanted tg (live_fields flds ! ((i + e) mod ?n))" using j by metis
  next
    assume "\<exists>e<?n. wanted tg (live_fields flds ! ((i + e) mod ?n))"
    then show "\<exists>f \<in> set (live_fields flds). wanted tg f"
      using i by (meson mod_less_divisor nth_mem order.strict_trans1 zero_le)
  qed
  have n: "(i + ?n) mod ?n = i" "0 < ?n" using i by auto
  show ?thesis
    unfolding pb_field_iter_find_def walk_sel [OF t i] eq [symmetric]
    using t i n order_refl length_live_fields by (rule find_loop_walk)
qed

text \<open>Two loops over the same array agree when their bodies agree at the fields of the array.\<close>

lemma iter_next_start: "pb_field_iter_next it = Some (ne, it') \<Longrightarrow> start it' = start it"
  by (auto simp: pb_field_iter_next_def pb_field_iter_begin_def Let_def split: if_splits)

lemma iter_do_cong:
  assumes "\<And>it s. start it = flds \<Longrightarrow> body it s = body' it s"
  shows "start it = flds \<Longrightarrow> iter_do n body it s = iter_do n body' it s"
proof (induction n arbitrary: it s)
  case (Suc n)
  have "iter_do n body it' s = iter_do n body' it' s" if "pb_field_iter_next it = Some (ne, it')" for ne it' s
    using Suc iter_next_start [OF that] by simp
  then show ?case
    using Suc.prems by (auto simp: assms intro!: bind_option_cong)
qed simp

lemma for_fields_cong:
  assumes "\<And>it f s. field_at it = Some f \<Longrightarrow> f \<in> set flds \<Longrightarrow> body it s = body' it s"
    and "\<And>it s. field_at it = None \<Longrightarrow> body it s = None" "\<And>it s. field_at it = None \<Longrightarrow> body' it s = None"
  shows "for_fields flds base body s = for_fields flds base body' s"
proof -
  have eq: "body it s = body' it s" if "start it = flds" for it s
    using that assms(1) [of it] assms(2,3) [of it]
    by (cases "field_at it") (auto simp: field_at_def nth_opt_Some_iff dest!: nth_mem)
  have "iter_do n body it s = iter_do n body' it s" if "start it = flds" for n it s
    using eq that by (rule iter_do_cong)
  then show ?thesis
    by (auto simp: for_fields_def pb_field_iter_begin_def Let_def intro!: bind_option_cong)
qed

subsection \<open>Properties of the iterator\<close>

text \<open>
  (C34) The loop \<^verbatim>\<open>do ... while (pb_field_iter_next(&iter))\<close> over a descriptor array with a terminator
  ends: it runs its body once per described field, in order, with the iterator at the position
  that the field's offsets determine, and stops early only when the body asks for it.
\<close>

theorem field_loop_visits_all:
  assumes "terminated flds"
  shows "for_fields flds base body s = each body (walk flds base) s \<and>
    map field_at (walk flds base) = map Some (takeWhile (\<lambda>f. tag f \<noteq> 0) flds)"
proof
  show "for_fields flds base body s = each body (walk flds base) s"
    using assms by (rule for_fields_walk)
  show "map field_at (walk flds base) = map Some (takeWhile (\<lambda>f. tag f \<noteq> 0) flds)"
    using assms by (intro nth_equalityI) (simp_all add: field_at_walk live_fields_def [symmetric])
qed

theorem field_loop_visits_all_witness:
  "for_fields [Pb_field 1 0x10 0 0 4 0 Ptr_null, PB_LAST_FIELD] (Ptr 0 0)
      (\<lambda>it s. Some (True, s @ [pData it])) [] =
    each (\<lambda>it s. Some (True, s @ [pData it])) (walk [Pb_field 1 0x10 0 0 4 0 Ptr_null, PB_LAST_FIELD] (Ptr 0 0)) [] \<and>
    map field_at (walk [Pb_field 1 0x10 0 0 4 0 Ptr_null, PB_LAST_FIELD] (Ptr 0 0)) =
      map Some (takeWhile (\<lambda>f. tag f \<noteq> 0) [Pb_field 1 0x10 0 0 4 0 Ptr_null, PB_LAST_FIELD])"
  by (rule field_loop_visits_all) (simp add: terminated_def PB_LAST_FIELD_def)

text \<open>
  \<^verbatim>\<open>pb_field_iter_find\<close> ends from every position of the walk.  It answers true exactly when a
  field with the tag exists that is not an extension placeholder, and then stands on such a
  field; otherwise it is back where it started.
\<close>

theorem iter_find_correct:
  assumes "terminated flds" "i < length (live_fields flds)"
  shows "case pb_field_iter_find (walk flds base ! i) tg of
      None \<Rightarrow> False
    | Some (True, it) \<Rightarrow> \<exists>j<length (live_fields flds). it = walk flds base ! j \<and> wanted tg (live_fields flds ! j)
    | Some (False, it) \<Rightarrow> it = walk flds base ! i \<and> \<not> (\<exists>f \<in> set (live_fields flds). wanted tg f)"
  using pb_field_iter_find_walk [OF assms, of base tg] by (auto split: if_splits)

theorem iter_find_correct_witness:
  "case pb_field_iter_find (walk [Pb_field 1 0x10 0 0 4 0 Ptr_null, Pb_field 2 0x10 4 0 4 0 Ptr_null, PB_LAST_FIELD] (Ptr 0 0) ! 1) 1 of
      None \<Rightarrow> False
    | Some (True, it) \<Rightarrow> \<exists>j<length (live_fields [Pb_field 1 0x10 0 0 4 0 Ptr_null, Pb_field 2 0x10 4 0 4 0 Ptr_null, PB_LAST_FIELD]).
        it = walk [Pb_field 1 0x10 0 0 4 0 Ptr_null, Pb_field 2 0x10 4 0 4 0 Ptr_null, PB_LAST_FIELD] (Ptr 0 0) ! j \<and>
        wanted 1 (live_fields [Pb_field 1 0x10 0 0 4 0 Ptr_null, Pb_field 2 0x10 4 0 4 0 Ptr_null, PB_LAST_FIELD] ! j)
    | Some (False, it) \<Rightarrow> it = walk [Pb_field 1 0x10 0 0 4 0 Ptr_null, Pb_field 2 0x10 4 0 4 0 Ptr_null, PB_LAST_FIELD] (Ptr 0 0) ! 1 \<and>
        \<not> (\<exists>f \<in> set (live_fields [Pb_field 1 0x10 0 0 4 0 Ptr_null, Pb_field 2 0x10 4 0 4 0 Ptr_null, PB_LAST_FIELD]). wanted 1 f)"
  by (rule iter_find_correct) (simp_all add: terminated_def PB_LAST_FIELD_def live_fields_def)

end
