(* ===== verification/Pb_Layout.thy ===== *)
theory Pb_Layout
  imports Pb_Common
begin

text \<open>
  The layout of C structures on the 64-bit target and the macros of \<^verbatim>\<open>pb.h\<close> that turn a structure into
  field descriptors: \<^verbatim>\<open>pb_membersize\<close>, \<^verbatim>\<open>pb_arraysize\<close>, \<^verbatim>\<open>pb_delta\<close>, \<^verbatim>\<open>PB_DATAOFFSET_*\<close>, one macro per
  repetition rule and allocation, and \<^verbatim>\<open>PB_FIELD\<close> itself.
\<close>

subsection \<open>C types\<close>

datatype ctype =
    C_bool
  | C_u8
  | C_int32
  | C_uint32
  | C_int64
  | C_enum
  | C_callback
  | C_array ctype nat
  | C_ptr ctype
  | C_struct members
and members = No_members | Member string ctype members

definition align_up :: "nat \<Rightarrow> nat \<Rightarrow> nat" where
  "align_up n a = (n + (a - 1)) div a * a"

primrec alignof :: "ctype \<Rightarrow> nat" and members_align :: "members \<Rightarrow> nat" where
  "alignof C_bool = 1"
| "alignof C_u8 = 1"
| "alignof C_int32 = 4"
| "alignof C_uint32 = 4"
| "alignof C_int64 = 8"
| "alignof C_enum = 4"
| "alignof C_callback = 8"
| "alignof (C_array t n) = alignof t"
| "alignof (C_ptr t) = 8"
| "alignof (C_struct ms) = members_align ms"
| "members_align No_members = 1"
| "members_align (Member m t ms) = max (alignof t) (members_align ms)"

text \<open>\<open>members_end ms n\<close> is where the members end when the first of them may start at \<open>n\<close>.\<close>

primrec sizeof :: "ctype \<Rightarrow> nat" and members_end :: "members \<Rightarrow> nat \<Rightarrow> nat" where
  "sizeof C_bool = 1"
| "sizeof C_u8 = 1"
| "sizeof C_int32 = 4"
| "sizeof C_uint32 = 4"
| "sizeof C_int64 = 8"
| "sizeof C_enum = 4"
| "sizeof C_callback = 16"
| "sizeof (C_array t n) = sizeof t * n"
| "sizeof (C_ptr t) = 8"
| "sizeof (C_struct ms) = align_up (members_end ms 0) (members_align ms)"
| "members_end No_members n = n"
| "members_end (Member m t ms) n = members_end ms (align_up n (alignof t) + sizeof t)"

primrec offset_from :: "members \<Rightarrow> nat \<Rightarrow> string \<Rightarrow> nat" where
  "offset_from No_members n x = n"
| "offset_from (Member m t ms) n x =
     (if m = x then align_up n (alignof t) else offset_from ms (align_up n (alignof t) + sizeof t) x)"

definition offsetof :: "members \<Rightarrow> string \<Rightarrow> nat" where
  "offsetof st x = offset_from st 0 x"

primrec member_type :: "members \<Rightarrow> string \<Rightarrow> ctype option" where
  "member_type No_members x = None"
| "member_type (Member m t ms) x = (if m = x then Some t else member_type ms x)"

subsection \<open>Macros\<close>

definition pb_membersize :: "members \<Rightarrow> string \<Rightarrow> nat" where
  "pb_membersize st m = (case member_type st m of Some t \<Rightarrow> sizeof t | None \<Rightarrow> 0)"

text \<open>\<open>pb_membersize(st, m[0])\<close>: an entry of an array or what a pointer points to.\<close>

definition itemsize :: "members \<Rightarrow> string \<Rightarrow> nat" where
  "itemsize st m =
     (case member_type st m of Some (C_array t n) \<Rightarrow> sizeof t | Some (C_ptr t) \<Rightarrow> sizeof t | _ \<Rightarrow> 0)"

definition pb_arraysize :: "members \<Rightarrow> string \<Rightarrow> nat" where
  "pb_arraysize st m = pb_membersize st m div itemsize st m"

definition pb_delta :: "members \<Rightarrow> string \<Rightarrow> string \<Rightarrow> pb_ssize_t" where
  "pb_delta st m1 m2 = of_nat (offsetof st m1) - of_nat (offsetof st m2)"

definition PB_DATAOFFSET_FIRST :: "members \<Rightarrow> string \<Rightarrow> string \<Rightarrow> pb_size_t" where
  "PB_DATAOFFSET_FIRST st m1 m2 = of_nat (offsetof st m1)"

definition PB_DATAOFFSET_OTHER :: "members \<Rightarrow> string \<Rightarrow> string \<Rightarrow> pb_size_t" where
  "PB_DATAOFFSET_OTHER st m1 m2 =
     of_nat (offsetof st m1) - of_nat (offsetof st m2) - of_nat (pb_membersize st m2)"

definition PB_DATAOFFSET_UNION :: "members \<Rightarrow> string \<Rightarrow> string \<Rightarrow> pb_size_t" where
  "PB_DATAOFFSET_UNION st m1 m2 = PB_SIZE_MAX"

type_synonym field_macro = "pb_size_t \<Rightarrow> members \<Rightarrow> string \<Rightarrow> pb_size_t \<Rightarrow> pb_type_t \<Rightarrow> field_ptr \<Rightarrow> pb_field_t"

definition PB_REQUIRED_STATIC :: field_macro where
  "PB_REQUIRED_STATIC tg st m fd ltype p =
     Pb_field tg (PB_ATYPE_STATIC OR PB_HTYPE_REQUIRED OR ltype) fd 0 (of_nat (pb_membersize st m)) 0 p"

definition PB_OPTIONAL_STATIC :: field_macro where
  "PB_OPTIONAL_STATIC tg st m fd ltype p =
     Pb_field tg (PB_ATYPE_STATIC OR PB_HTYPE_OPTIONAL OR ltype) fd (pb_delta st (''has_'' @ m) m)
       (of_nat (pb_membersize st m)) 0 p"

definition PB_SINGULAR_STATIC :: field_macro where
  "PB_SINGULAR_STATIC tg st m fd ltype p =
     Pb_field tg (PB_ATYPE_STATIC OR PB_HTYPE_OPTIONAL OR ltype) fd 0 (of_nat (pb_membersize st m)) 0 p"

definition PB_REPEATED_STATIC :: field_macro where
  "PB_REPEATED_STATIC tg st m fd ltype p =
     Pb_field tg (PB_ATYPE_STATIC OR PB_HTYPE_REPEATED OR ltype) fd (pb_delta st (m @ ''_count'') m)
       (of_nat (itemsize st m)) (of_nat (pb_arraysize st m)) p"

definition PB_REQUIRED_POINTER :: field_macro where
  "PB_REQUIRED_POINTER tg st m fd ltype p =
     Pb_field tg (PB_ATYPE_POINTER OR PB_HTYPE_REQUIRED OR ltype) fd 0 (of_nat (itemsize st m)) 0 p"

definition PB_OPTIONAL_POINTER :: field_macro where
  "PB_OPTIONAL_POINTER tg st m fd ltype p =
     Pb_field tg (PB_ATYPE_POINTER OR PB_HTYPE_OPTIONAL OR ltype) fd 0 (of_nat (itemsize st m)) 0 p"

definition PB_SINGULAR_POINTER :: field_macro where
  "PB_SINGULAR_POINTER tg st m fd ltype p =
     Pb_field tg (PB_ATYPE_POINTER OR PB_HTYPE_OPTIONAL OR ltype) fd 0 (of_nat (itemsize st m)) 0 p"

definition PB_REPEATED_POINTER :: field_macro where
  "PB_REPEATED_POINTER tg st m fd ltype p =
     Pb_field tg (PB_ATYPE_POINTER OR PB_HTYPE_REPEATED OR ltype) fd (pb_delta st (m @ ''_count'') m)
       (of_nat (itemsize st m)) 0 p"

definition PB_REQUIRED_CALLBACK :: field_macro where
  "PB_REQUIRED_CALLBACK tg st m fd ltype p =
     Pb_field tg (PB_ATYPE_CALLBACK OR PB_HTYPE_REQUIRED OR ltype) fd 0 (of_nat (pb_membersize st m)) 0 p"

definition PB_OPTIONAL_CALLBACK :: field_macro where
  "PB_OPTIONAL_CALLBACK tg st m fd ltype p =
     Pb_field tg (PB_ATYPE_CALLBACK OR PB_HTYPE_OPTIONAL OR ltype) fd 0 (of_nat (pb_membersize st m)) 0 p"

definition PB_SINGULAR_CALLBACK :: field_macro where
  "PB_SINGULAR_CALLBACK tg st m fd ltype p =
     Pb_field tg (PB_ATYPE_CALLBACK OR PB_HTYPE_OPTIONAL OR ltype) fd 0 (of_nat (pb_membersize st m)) 0 p"

definition PB_REPEATED_CALLBACK :: field_macro where
  "PB_REPEATED_CALLBACK tg st m fd ltype p =
     Pb_field tg (PB_ATYPE_CALLBACK OR PB_HTYPE_REPEATED OR ltype) fd 0 (of_nat (pb_membersize st m)) 0 p"

text \<open>Extensions are marked as required.\<close>

definition PB_OPTEXT_STATIC :: field_macro where
  "PB_OPTEXT_STATIC tg st m fd ltype p =
     Pb_field tg (PB_ATYPE_STATIC OR PB_HTYPE_REQUIRED OR ltype) 0 0 (of_nat (pb_membersize st m)) 0 p"

definition PB_OPTEXT_POINTER :: field_macro where
  "PB_OPTEXT_POINTER = PB_OPTIONAL_POINTER"

definition PB_OPTEXT_CALLBACK :: field_macro where
  "PB_OPTEXT_CALLBACK = PB_OPTIONAL_CALLBACK"

subsection \<open>PB_FIELD\<close>

datatype proto_type =
    T_BOOL | T_BYTES | T_DOUBLE | T_ENUM | T_UENUM | T_FIXED32 | T_FIXED64 | T_FLOAT | T_INT32 | T_INT64
  | T_MESSAGE | T_SFIXED32 | T_SFIXED64 | T_SINT32 | T_SINT64 | T_STRING | T_UINT32 | T_UINT64
  | T_EXTENSION | T_FIXED_LENGTH_BYTES

primrec PB_LTYPE_MAP :: "proto_type \<Rightarrow> pb_type_t" where
  "PB_LTYPE_MAP T_BOOL = PB_LTYPE_BOOL"
| "PB_LTYPE_MAP T_BYTES = PB_LTYPE_BYTES"
| "PB_LTYPE_MAP T_DOUBLE = PB_LTYPE_FIXED64"
| "PB_LTYPE_MAP T_ENUM = PB_LTYPE_VARINT"
| "PB_LTYPE_MAP T_UENUM = PB_LTYPE_UVARINT"
| "PB_LTYPE_MAP T_FIXED32 = PB_LTYPE_FIXED32"
| "PB_LTYPE_MAP T_FIXED64 = PB_LTYPE_FIXED64"
| "PB_LTYPE_MAP T_FLOAT = PB_LTYPE_FIXED32"
| "PB_LTYPE_MAP T_INT32 = PB_LTYPE_VARINT"
| "PB_LTYPE_MAP T_INT64 = PB_LTYPE_VARINT"
| "PB_LTYPE_MAP T_MESSAGE = PB_LTYPE_SUBMESSAGE"
| "PB_LTYPE_MAP T_SFIXED32 = PB_LTYPE_FIXED32"
| "PB_LTYPE_MAP T_SFIXED64 = PB_LTYPE_FIXED64"
| "PB_LTYPE_MAP T_SINT32 = PB_LTYPE_SVARINT"
| "PB_LTYPE_MAP T_SINT64 = PB_LTYPE_SVARINT"
| "PB_LTYPE_MAP T_STRING = PB_LTYPE_STRING"
| "PB_LTYPE_MAP T_UINT32 = PB_LTYPE_UVARINT"
| "PB_LTYPE_MAP T_UINT64 = PB_LTYPE_UVARINT"
| "PB_LTYPE_MAP T_EXTENSION = PB_LTYPE_EXTENSION"
| "PB_LTYPE_MAP T_FIXED_LENGTH_BYTES = PB_LTYPE_FIXED_LENGTH_BYTES"

datatype field_rules = REQUIRED | OPTIONAL | SINGULAR | REPEATED | OPTEXT
datatype allocation = STATIC | POINTER | CALLBACK
datatype placement = FIRST | OTHER | UNION

fun rules_macro :: "field_rules \<Rightarrow> allocation \<Rightarrow> field_macro" where
  "rules_macro REQUIRED STATIC = PB_REQUIRED_STATIC"
| "rules_macro OPTIONAL STATIC = PB_OPTIONAL_STATIC"
| "rules_macro SINGULAR STATIC = PB_SINGULAR_STATIC"
| "rules_macro REPEATED STATIC = PB_REPEATED_STATIC"
| "rules_macro OPTEXT STATIC = PB_OPTEXT_STATIC"
| "rules_macro REQUIRED POINTER = PB_REQUIRED_POINTER"
| "rules_macro OPTIONAL POINTER = PB_OPTIONAL_POINTER"
| "rules_macro SINGULAR POINTER = PB_SINGULAR_POINTER"
| "rules_macro REPEATED POINTER = PB_REPEATED_POINTER"
| "rules_macro OPTEXT POINTER = PB_OPTEXT_POINTER"
| "rules_macro REQUIRED CALLBACK = PB_REQUIRED_CALLBACK"
| "rules_macro OPTIONAL CALLBACK = PB_OPTIONAL_CALLBACK"
| "rules_macro SINGULAR CALLBACK = PB_SINGULAR_CALLBACK"
| "rules_macro REPEATED CALLBACK = PB_REPEATED_CALLBACK"
| "rules_macro OPTEXT CALLBACK = PB_OPTEXT_CALLBACK"

definition PB_FIELD ::
  "pb_size_t \<Rightarrow> proto_type \<Rightarrow> field_rules \<Rightarrow> allocation \<Rightarrow> placement \<Rightarrow> members \<Rightarrow> string \<Rightarrow> string \<Rightarrow> field_ptr \<Rightarrow> pb_field_t" where
  "PB_FIELD tg ty rules al pl message field prevfield p =
     rules_macro rules al tg message field
       (case pl of FIRST \<Rightarrow> PB_DATAOFFSET_FIRST message field prevfield
        | OTHER \<Rightarrow> PB_DATAOFFSET_OTHER message field prevfield
        | UNION \<Rightarrow> PB_DATAOFFSET_UNION message field prevfield)
       (PB_LTYPE_MAP ty) p"

definition PB_REPEATED_FIXED_COUNT ::
  "pb_size_t \<Rightarrow> proto_type \<Rightarrow> placement \<Rightarrow> members \<Rightarrow> string \<Rightarrow> string \<Rightarrow> field_ptr \<Rightarrow> pb_field_t" where
  "PB_REPEATED_FIXED_COUNT tg ty pl message field prevfield p =
     Pb_field tg (PB_ATYPE_STATIC OR PB_HTYPE_REPEATED OR PB_LTYPE_MAP ty)
       (case pl of FIRST \<Rightarrow> PB_DATAOFFSET_FIRST message field prevfield
        | OTHER \<Rightarrow> PB_DATAOFFSET_OTHER message field prevfield
        | UNION \<Rightarrow> PB_DATAOFFSET_UNION message field prevfield)
       0 (of_nat (itemsize message field)) (of_nat (pb_arraysize message field)) p"

subsection \<open>Descriptor arrays of whole structures\<close>

text \<open>
  A generated array lists the fields of a structure with \<^verbatim>\<open>FIRST\<close> for the first field and
  \<^verbatim>\<open>OTHER\<close>, together with the previous field, for the rest.
\<close>

record field_spec =
  sp_tag :: pb_size_t
  sp_type :: proto_type
  sp_rules :: field_rules
  sp_alloc :: allocation
  sp_name :: string
  sp_ptr :: field_ptr

definition spec_field :: "members \<Rightarrow> placement \<Rightarrow> string \<Rightarrow> field_spec \<Rightarrow> pb_field_t" where
  "spec_field st pl prev s = PB_FIELD (sp_tag s) (sp_type s) (sp_rules s) (sp_alloc s) pl st (sp_name s) prev (sp_ptr s)"

primrec chain :: "members \<Rightarrow> string \<Rightarrow> field_spec list \<Rightarrow> pb_field_t list" where
  "chain st prev [] = []"
| "chain st prev (s # ss) = spec_field st OTHER prev s # chain st (sp_name s) ss"

fun fields_of :: "members \<Rightarrow> field_spec list \<Rightarrow> pb_field_t list" where
  "fields_of st [] = []"
| "fields_of st (s # ss) = spec_field st FIRST (sp_name s) s # chain st (sp_name s) ss"

text \<open>The member that holds the presence flag or the count, or the field itself.\<close>

definition companion :: "field_spec \<Rightarrow> string" where
  "companion s =
     (if sp_rules s = OPTIONAL \<and> sp_alloc s = STATIC then ''has_'' @ sp_name s
      else if sp_rules s = REPEATED \<and> sp_alloc s \<noteq> CALLBACK then sp_name s @ ''_count''
      else sp_name s)"

definition placed :: "members \<Rightarrow> field_spec \<Rightarrow> bool" where
  "placed st s \<longleftrightarrow>
     sp_tag s \<noteq> 0 \<and> sp_rules s \<noteq> OPTEXT \<and> offsetof st (sp_name s) + pb_membersize st (sp_name s) < 2 ^ 31 \<and>
     offsetof st (companion s) < 2 ^ 31 \<and>
     (case member_type st (sp_name s) of
        None \<Rightarrow> False
      | Some (C_ptr t) \<Rightarrow> sp_alloc s = POINTER
      | Some (C_array t n) \<Rightarrow> sp_alloc s \<noteq> POINTER \<and> (sp_rules s = REPEATED \<and> sp_alloc s = STATIC \<longrightarrow> 0 < sizeof t)
      | Some t \<Rightarrow> sp_alloc s \<noteq> POINTER \<and> \<not> (sp_rules s = REPEATED \<and> sp_alloc s = STATIC))"

fun in_order :: "members \<Rightarrow> field_spec list \<Rightarrow> bool" where
  "in_order st (s # s' # ss) \<longleftrightarrow>
     offsetof st (sp_name s) + pb_membersize st (sp_name s) \<le> offsetof st (sp_name s') \<and> in_order st (s' # ss)"
| "in_order st ss \<longleftrightarrow> True"

lemma PB_LTYPE_MAP_masks [simp]:
  "PB_LTYPE_MAP ty AND PB_ATYPE_MASK = 0" "PB_LTYPE_MAP ty AND PB_HTYPE_MASK = 0" "PB_LTYPE_MAP ty AND PB_LTYPE_MASK = PB_LTYPE_MAP ty"
  by (cases ty; simp add: pb_type_defs)+

primrec rules_htype :: "field_rules \<Rightarrow> pb_type_t" where
  "rules_htype REQUIRED = PB_HTYPE_REQUIRED"
| "rules_htype OPTIONAL = PB_HTYPE_OPTIONAL"
| "rules_htype SINGULAR = PB_HTYPE_OPTIONAL"
| "rules_htype REPEATED = PB_HTYPE_REPEATED"
| "rules_htype OPTEXT = PB_HTYPE_REQUIRED"

primrec alloc_atype :: "allocation \<Rightarrow> pb_type_t" where
  "alloc_atype STATIC = PB_ATYPE_STATIC"
| "alloc_atype POINTER = PB_ATYPE_POINTER"
| "alloc_atype CALLBACK = PB_ATYPE_CALLBACK"

lemma alloc_atype_masks [simp]:
  "alloc_atype al AND PB_ATYPE_MASK = alloc_atype al" "alloc_atype al AND PB_HTYPE_MASK = 0" "alloc_atype al AND PB_LTYPE_MASK = 0"
  by (cases al; simp add: pb_atype_defs PB_HTYPE_MASK_def PB_LTYPE_MASK_def)+

lemma rules_htype_masks [simp]:
  "rules_htype r AND PB_ATYPE_MASK = 0" "rules_htype r AND PB_HTYPE_MASK = rules_htype r" "rules_htype r AND PB_LTYPE_MASK = 0"
  by (cases r; simp add: pb_htype_defs PB_ATYPE_MASK_def PB_LTYPE_MASK_def)+

lemma alloc_atype_eq [simp]:
  "alloc_atype al = PB_ATYPE_STATIC \<longleftrightarrow> al = STATIC" "alloc_atype al = PB_ATYPE_POINTER \<longleftrightarrow> al = POINTER"
  "alloc_atype al = PB_ATYPE_CALLBACK \<longleftrightarrow> al = CALLBACK"
  by (cases al; simp add: pb_atype_defs)+

lemma rules_htype_eq [simp]:
  "rules_htype r = PB_HTYPE_REPEATED \<longleftrightarrow> r = REPEATED" "rules_htype r \<noteq> PB_HTYPE_ONEOF"
  by (cases r; simp add: pb_htype_defs)+

lemmas macro_defs = PB_REQUIRED_STATIC_def PB_OPTIONAL_STATIC_def PB_SINGULAR_STATIC_def PB_REPEATED_STATIC_def
  PB_REQUIRED_POINTER_def PB_OPTIONAL_POINTER_def PB_SINGULAR_POINTER_def PB_REPEATED_POINTER_def
  PB_REQUIRED_CALLBACK_def PB_OPTIONAL_CALLBACK_def PB_SINGULAR_CALLBACK_def PB_REPEATED_CALLBACK_def

text \<open>Every combination of rule and allocation packs its three type parts, the offsets and the sizes.\<close>

lemma spec_field_eq:
  assumes "sp_rules s \<noteq> OPTEXT"
  shows "spec_field st pl prev s =
    Pb_field (sp_tag s) (alloc_atype (sp_alloc s) OR rules_htype (sp_rules s) OR PB_LTYPE_MAP (sp_type s))
      (case pl of FIRST \<Rightarrow> PB_DATAOFFSET_FIRST st (sp_name s) prev | OTHER \<Rightarrow> PB_DATAOFFSET_OTHER st (sp_name s) prev
       | UNION \<Rightarrow> PB_DATAOFFSET_UNION st (sp_name s) prev)
      (pb_delta st (companion s) (sp_name s))
      (of_nat (if sp_alloc s = POINTER \<or> sp_rules s = REPEATED \<and> sp_alloc s = STATIC
         then itemsize st (sp_name s) else pb_membersize st (sp_name s)))
      (of_nat (if sp_rules s = REPEATED \<and> sp_alloc s = STATIC then pb_arraysize st (sp_name s) else 0))
      (sp_ptr s)"
  using assms unfolding spec_field_def PB_FIELD_def
  by (cases "sp_rules s"; cases "sp_alloc s"; simp add: macro_defs companion_def pb_delta_def)

lemma spec_field_parts:
  assumes "sp_rules s \<noteq> OPTEXT"
  shows "tag (spec_field st pl prev s) = sp_tag s"
    "PB_ATYPE (ftype (spec_field st pl prev s)) = alloc_atype (sp_alloc s)"
    "PB_HTYPE (ftype (spec_field st pl prev s)) = rules_htype (sp_rules s)"
    "PB_LTYPE (ftype (spec_field st pl prev s)) = PB_LTYPE_MAP (sp_type s)"
    "size_offset (spec_field st pl prev s) = pb_delta st (companion s) (sp_name s)"
    "data_offset (spec_field st FIRST prev s) = PB_DATAOFFSET_FIRST st (sp_name s) prev"
    "data_offset (spec_field st OTHER prev s) = PB_DATAOFFSET_OTHER st (sp_name s) prev"
  by (simp_all add: spec_field_eq [OF assms] PB_ATYPE_def PB_HTYPE_def PB_LTYPE_def bit.conj_disj_distrib2)


lemma uint_of_nat_small: "n < 2 ^ 31 \<Longrightarrow> uint (of_nat n :: 32 word) = int n"
  by (simp add: unsigned_of_nat take_bit_nat_eq_self)

lemma pb_arraysize_array:
  assumes "member_type st m = Some (C_array t n)" "0 < sizeof t"
  shows "pb_arraysize st m = n" "itemsize st m = sizeof t" "pb_membersize st m = sizeof t * n"
  using assms by (simp_all add: pb_arraysize_def itemsize_def pb_membersize_def)

lemma prev_size_spec:
  assumes "placed st s"
  shows "prev_size (spec_field st pl prev s) = int (pb_membersize st (sp_name s))"
proof -
  have r: "sp_rules s \<noteq> OPTEXT" and lt: "pb_membersize st (sp_name s) < 2 ^ 31"
    using assms by (auto simp: placed_def)
  obtain t where t: "member_type st (sp_name s) = Some t" using assms by (auto simp: placed_def split: option.splits)
  consider (arr) n u where "t = C_array u n" "sp_rules s = REPEATED" "sp_alloc s = STATIC" "0 < sizeof u"
    | (ptr) u where "t = C_ptr u" "sp_alloc s = POINTER"
    | (plain) "\<not> (sp_rules s = REPEATED \<and> sp_alloc s = STATIC)" "sp_alloc s \<noteq> POINTER"
    using assms t by (cases t) (auto simp: placed_def)
  then show ?thesis
  proof cases
    case arr
    note a = pb_arraysize_array [OF t [unfolded arr(1)] arr(4)]
    have "n < 2 ^ 31" "sizeof u < 2 ^ 31 \<or> n = 0"
    proof -
      show "n < 2 ^ 31" using arr(4) lt unfolding a by (metis One_nat_def Suc_leI le_less_trans mult_le_mono1 nat_mult_1)
      show "sizeof u < 2 ^ 31 \<or> n = 0" using lt unfolding a by (cases n) auto
    qed
    then show ?thesis
      using arr a spec_field_parts [OF r] by (auto simp: prev_size_def spec_field_eq [OF r] uint_of_nat_small)
  next
    case ptr
    then show ?thesis using t spec_field_parts [OF r] by (simp add: prev_size_def pb_membersize_def pb_atype_defs)
  next
    case plain
    then show ?thesis using lt spec_field_parts [OF r]
      by (auto simp: prev_size_def spec_field_eq [OF r] uint_of_nat_small)
  qed
qed


lemma sint_word_of_int_small: "- (2 ^ 31) \<le> k \<Longrightarrow> k < 2 ^ 31 \<Longrightarrow> sint (word_of_int k :: 32 word) = k"
  by (simp add: signed_of_int signed_take_bit_int_eq_self)

lemma sint_pb_delta:
  assumes "offsetof st a < 2 ^ 31" "offsetof st b < 2 ^ 31"
  shows "sint (pb_delta st a b) = int (offsetof st a) - int (offsetof st b)"
proof -
  have "pb_delta st a b = word_of_int (int (offsetof st a) - int (offsetof st b))"
    by (simp add: pb_delta_def)
  moreover have "sint (word_of_int (int (offsetof st a) - int (offsetof st b)) :: 32 word) = int (offsetof st a) - int (offsetof st b)"
    using assms by (intro sint_word_of_int_small) simp_all
  ultimately show ?thesis by (simp only:)
qed

lemma uint_PB_DATAOFFSET_OTHER:
  assumes "offsetof st p + pb_membersize st p \<le> offsetof st m" "offsetof st m < 2 ^ 31"
  shows "uint (PB_DATAOFFSET_OTHER st m p) = int (offsetof st m) - int (offsetof st p) - int (pb_membersize st p)"
proof -
  have "PB_DATAOFFSET_OTHER st m p = of_nat (offsetof st m - (offsetof st p + pb_membersize st p))"
    using assms(1) by (simp add: PB_DATAOFFSET_OTHER_def of_nat_diff)
  moreover have "offsetof st m - (offsetof st p + pb_membersize st p) < 2 ^ 31" using assms(2) by linarith
  ultimately have "uint (PB_DATAOFFSET_OTHER st m p) = int (offsetof st m - (offsetof st p + pb_membersize st p))"
    by (simp only: uint_of_nat_small)
  then show ?thesis using assms(1) by linarith
qed

text \<open>Where the iterator has to stand for a field of a structure at \<open>Ptr b i\<close>.\<close>

definition stands :: "members \<Rightarrow> nat \<Rightarrow> int \<Rightarrow> field_spec \<Rightarrow> pb_field_iter_t \<Rightarrow> bool" where
  "stands st b i s it \<longleftrightarrow>
     pData it = Ptr b (i + int (offsetof st (sp_name s))) \<and>
     pSize it = Ptr b (i + int (offsetof st (companion s)))"

lemma placedD:
  assumes "placed st s"
  shows "sp_rules s \<noteq> OPTEXT" "sp_tag s \<noteq> 0" "offsetof st (sp_name s) < 2 ^ 31" "offsetof st (companion s) < 2 ^ 31"
  using assms by (auto simp: placed_def)

lemma step_stands:
  assumes "placed st s" "placed st s'" "stands st b i s it"
    and "offsetof st (sp_name s) + pb_membersize st (sp_name s) \<le> offsetof st (sp_name s')"
  shows "stands st b i s' (step_iter it (spec_field st pl prev s) (spec_field st OTHER (sp_name s) s'))"
proof -
  note p = placedD [OF assms(1)] and p' = placedD [OF assms(2)]
  show ?thesis
    using assms(3,4)
    by (simp add: stands_def step_iter_def in_union_def spec_field_parts [OF p(1)] spec_field_parts [OF p'(1)]
        prev_size_spec [OF assms(1)] uint_PB_DATAOFFSET_OTHER [OF assms(4) p'(3)] sint_pb_delta [OF p'(4,3)])
qed

lemma walk_chain_stands:
  assumes "\<forall>s \<in> set (s # ss). placed st s" "in_order st (s # ss)" "stands st b i s it"
  shows "list_all2 (stands st b i) (s # ss) (walk_from it (spec_field st pl prev s # chain st (sp_name s) ss))"
  using assms
proof (induction ss arbitrary: s it pl prev)
  case (Cons s' ss)
  have "stands st b i s' (step_iter it (spec_field st pl prev s) (spec_field st OTHER (sp_name s) s'))"
    using Cons.prems by (intro step_stands) simp_all
  then have "list_all2 (stands st b i) (s' # ss)
      (walk_from (step_iter it (spec_field st pl prev s) (spec_field st OTHER (sp_name s) s'))
        (spec_field st OTHER (sp_name s) s' # chain st (sp_name s') ss))"
    using Cons.prems by (intro Cons.IH) simp_all
  with Cons.prems(3) show ?case by simp
qed simp

lemma chain_tags: "\<forall>s \<in> set ss. placed st s \<Longrightarrow> \<forall>f \<in> set (chain st prev ss). tag f \<noteq> 0"
  by (induction ss arbitrary: prev) (auto simp: spec_field_parts placedD)

lemma live_fields_of:
  assumes "\<forall>s \<in> set ss. placed st s"
  shows "live_fields (fields_of st ss @ [PB_LAST_FIELD]) = fields_of st ss"
proof -
  have "\<forall>f \<in> set (fields_of st ss). tag f \<noteq> 0"
    using assms chain_tags [of "List.tl ss" st "sp_name (hd ss)"]
    by (cases ss) (auto simp: spec_field_parts placedD)
  then show ?thesis by (simp add: live_fields_def takeWhile_append2 PB_LAST_FIELD_def)
qed

lemma walk_fields_of:
  assumes "\<forall>s \<in> set ss. placed st s" "in_order st ss"
  shows "list_all2 (stands st b i) ss (walk (fields_of st ss @ [PB_LAST_FIELD]) (Ptr b i))"
proof (cases ss)
  case Nil
  then show ?thesis by (simp add: walk_def pb_field_iter_begin_def nth_opt_def PB_LAST_FIELD_def)
next
  case (Cons s rest)
  then have s: "placed st s" using assms by simp
  note p = placedD [OF s]
  let ?f = "spec_field st FIRST (sp_name s) s"
  let ?fl = "fields_of st ss @ [PB_LAST_FIELD]"
  obtain it where it: "pb_field_iter_begin ?fl (Ptr b i) = Some (True, it)"
    "pData it = padd (Ptr b i) (uint (data_offset ?f))" "pSize it = padd (pData it) (sint (size_offset ?f))"
    using p(2) by (auto simp: pb_field_iter_begin_def Cons nth_opt_def spec_field_parts [OF p(1)] Let_def)
  have "stands st b i s it"
    unfolding stands_def it(2,3) using p
    by (simp add: spec_field_parts [OF p(1)] PB_DATAOFFSET_FIRST_def uint_of_nat_small sint_pb_delta)
  moreover have "walk ?fl (Ptr b i) = walk_from it (?f # chain st (sp_name s) rest)"
    using it(1) live_fields_of [OF assms(1)] unfolding Cons by (simp add: walk_def)
  ultimately show ?thesis
    using walk_chain_stands [of s rest st b i it FIRST "sp_name s"] assms unfolding Cons by simp
qed

definition field_spec_of ::
  "pb_size_t \<Rightarrow> proto_type \<Rightarrow> field_rules \<Rightarrow> allocation \<Rightarrow> string \<Rightarrow> field_ptr \<Rightarrow> field_spec" where
  "field_spec_of tg ty r al nm p =
     \<lparr>sp_tag = tg, sp_type = ty, sp_rules = r, sp_alloc = al, sp_name = nm, sp_ptr = p\<rparr>"

lemma spec_field_of [simp]: "spec_field st pl prev (field_spec_of tg ty r al nm p) = PB_FIELD tg ty r al pl st nm prev p"
  by (simp add: spec_field_def field_spec_of_def)

lemma sp_name_of [simp]: "sp_name (field_spec_of tg ty r al nm p) = nm"
  by (simp add: field_spec_of_def)

text \<open>
  \<open>describes st ss flds\<close>: the array \<open>flds\<close> has one descriptor for each field of \<open>ss\<close> in this order, the
  terminator behind them, every field lies in the structure and no two of them overlap.
\<close>

definition describes :: "members \<Rightarrow> field_spec list \<Rightarrow> pb_field_t list \<Rightarrow> bool" where
  "describes st ss flds \<longleftrightarrow>
     flds = fields_of st ss @ [PB_LAST_FIELD] \<and> list_all (placed st) ss \<and> in_order st ss \<and>
     list_all (\<lambda>s. offsetof st (sp_name s) + pb_membersize st (sp_name s) \<le> sizeof (C_struct st)) ss"

lemma describes_walk:
  assumes "describes st ss flds"
  shows "list_all2 (stands st b i) ss (walk flds (Ptr b i))"
  using assms by (simp add: describes_def walk_fields_of list_all_iff)

subsection \<open>Initialized structures\<close>

text \<open>\<^verbatim>\<open>pb_bytes_array_t\<close>, the target of a pointer to bytes.\<close>

definition pb_bytes_array_t :: members where
  "pb_bytes_array_t = Member ''size'' C_uint32 (Member ''bytes'' (C_array C_u8 1) No_members)"

text \<open>The values of an initializer, and the cells of an object it initializes; padding is indeterminate.\<close>

datatype init = I_int int | I_NULL | I_struct "init list"

definition int_cells :: "nat \<Rightarrow> init \<Rightarrow> memval list" where
  "int_cells n v = (case v of I_int k \<Rightarrow> map Byte (bytes_of n (word_of_int k :: uint64)) | _ \<Rightarrow> replicate n Undef)"

primrec init_cells :: "ctype \<Rightarrow> init \<Rightarrow> memval list" and members_cells :: "members \<Rightarrow> nat \<Rightarrow> init list \<Rightarrow> memval list" where
  "init_cells C_bool v = int_cells 1 v"
| "init_cells C_u8 v = int_cells 1 v"
| "init_cells C_int32 v = int_cells 4 v"
| "init_cells C_uint32 v = int_cells 4 v"
| "init_cells C_int64 v = int_cells 8 v"
| "init_cells C_enum v = int_cells 4 v"
| "init_cells C_callback v = replicate 16 Undef"
| "init_cells (C_array t n) v = replicate (sizeof t * n) Undef"
| "init_cells (C_ptr t) v = ptr_cells NULL"
| "init_cells (C_struct ms) v =
     (let cs = members_cells ms 0 (case v of I_struct vs \<Rightarrow> vs | _ \<Rightarrow> [])
      in cs @ replicate (sizeof (C_struct ms) - length cs) Undef)"
| "members_cells No_members n vs = []"
| "members_cells (Member x t ms) n vs =
     replicate (align_up n (alignof t) - n) Undef @ init_cells t (case vs of v # _ \<Rightarrow> v | [] \<Rightarrow> I_NULL) @
     members_cells ms (align_up n (alignof t) + sizeof t) (drop 1 vs)"

text \<open>A memory with one object of the given cells.\<close>

definition one_object :: "(ptr \<Rightarrow> uint64) \<Rightarrow> (nat \<Rightarrow> bool) \<Rightarrow> nat \<Rightarrow> memval list \<Rightarrow> mem" where
  "one_object ad fails calls cs =
     \<lparr>blocks = [\<lparr>on_heap = False, live = True, cells = cs\<rparr>], addr_of = ad, malloc_fails = fails, malloc_calls = calls\<rparr>"

subsection \<open>Evaluating a layout\<close>

lemma bytes_array_layout [simp]: "members_align pb_bytes_array_t = 4" "members_end pb_bytes_array_t 0 = 5"
  by (simp_all add: pb_bytes_array_t_def align_up_def)

lemmas placed_simps =
  spec_field_def placed_def field_spec_of_def companion_def pb_membersize_def align_up_def

lemmas PB_FIELD_simps =
  PB_FIELD_def macro_defs PB_DATAOFFSET_FIRST_def PB_DATAOFFSET_OTHER_def pb_delta_def
  itemsize_def pb_membersize_def align_up_def pb_type_defs

end
