(* ===== verification/Pb_Ostream.thy ===== *)
theory Pb_Ostream
  imports Pb_Types Varint
begin

text \<open>
  Output streams and the scalar encoders of \<^verbatim>\<open>pb_encode.c\<close>: \<^verbatim>\<open>pb_ostream_t\<close>, \<^verbatim>\<open>buf_write\<close>,
  \<^verbatim>\<open>pb_write\<close>, the varint, zig-zag and fixed-width encoders, tags and strings; then the accounting
  of written bytes and the reference encodings the encoders are shown to produce.
\<close>

subsection \<open>Streams\<close>

text \<open>
  A stream either has no callback (a sizing stream), writes into a memory buffer, or calls a user
  callback.  The member \<^verbatim>\<open>state\<close> of a buffer stream points into the buffer: \<open>owritten\<close> holds the
  bytes in front of the pointer that were written through the stream, \<open>oroom\<close> the bytes of the
  buffer from the pointer on.  A user callback sees what was written through it so far and the new
  bytes, and fails or returns the new content.
\<close>

datatype out_callback =
    No_write
  | Buf_write
  | User_write "byte list \<Rightarrow> byte list \<Rightarrow> byte list option"

record pb_ostream_t =
  ocallback :: out_callback
  owritten :: "byte list"
  oroom :: "byte list"
  max_size :: size_t
  bytes_written :: size_t
  oerrmsg :: "string option"

primrec is_No_write :: "out_callback \<Rightarrow> bool" where
  "is_No_write No_write = True"
| "is_No_write Buf_write = False"
| "is_No_write (User_write f) = False"

definition oset_error :: "pb_ostream_t \<Rightarrow> string \<Rightarrow> pb_ostream_t" where
  "oset_error s msg = s\<lparr>oerrmsg := PB_SET_ERROR (oerrmsg s) msg\<rparr>"

definition pb_ostream_from_buffer :: "byte list \<Rightarrow> size_t \<Rightarrow> pb_ostream_t" where
  "pb_ostream_from_buffer buf bufsize =
     \<lparr>ocallback = Buf_write, owritten = [], oroom = buf, max_size = bufsize,
      bytes_written = 0, oerrmsg = None\<rparr>"

definition PB_OSTREAM_SIZING :: pb_ostream_t where
  "PB_OSTREAM_SIZING =
     \<lparr>ocallback = No_write, owritten = [], oroom = [], max_size = 0,
      bytes_written = 0, oerrmsg = None\<rparr>"

text \<open>
  The source of a write is \<^const>\<open>None\<close> for a null or unreadable pointer.  The copy loop of
  \<^verbatim>\<open>buf_write\<close> is undefined when it leaves the destination buffer or the source.
\<close>

definition buf_write :: "pb_ostream_t \<Rightarrow> byte list \<Rightarrow> nat \<Rightarrow> (bool \<times> pb_ostream_t) option" where
  "buf_write s buf count =
     (if count \<le> length buf \<and> count \<le> length (oroom s)
      then Some (True, s\<lparr>owritten := owritten s @ take count buf, oroom := drop count (oroom s)\<rparr>)
      else None)"

definition call_write :: "pb_ostream_t \<Rightarrow> byte list option \<Rightarrow> nat \<Rightarrow> (bool \<times> pb_ostream_t) option" where
  "call_write s buf count =
     (case buf of None \<Rightarrow> None
      | Some bs \<Rightarrow>
          (case ocallback s of
             No_write \<Rightarrow> None
           | Buf_write \<Rightarrow> buf_write s bs count
           | User_write f \<Rightarrow>
               (if count \<le> length bs
                then (case f (owritten s) (take count bs) of
                        None \<Rightarrow> Some (False, s)
                      | Some out \<Rightarrow> Some (True, s\<lparr>owritten := out\<rparr>))
                else None)))"

definition pb_write :: "pb_ostream_t \<Rightarrow> byte list option \<Rightarrow> size_t \<Rightarrow> (bool \<times> pb_ostream_t) option" where
  "pb_write s buf count =
     (if count > 0 \<and> \<not> is_No_write (ocallback s)
      then (if bytes_written s + count > max_size s
            then Some (False, oset_error s ''stream full'')
            else do {
              (ok, s') \<leftarrow> call_write s buf (unat count);
              if \<not> ok then Some (False, oset_error s' ''io error'')
              else Some (True, s'\<lparr>bytes_written := bytes_written s' + count\<rparr>)
            })
      else Some (True, s\<lparr>bytes_written := bytes_written s + count\<rparr>))"

subsection \<open>Scalar encoders\<close>

text \<open>
  The loop of \<^verbatim>\<open>pb_encode_varint\<close> fills the ten bytes of the local \<^verbatim>\<open>buffer\<close>; an eleventh store
  would be undefined.
\<close>

function varint_fill :: "uint64 \<Rightarrow> byte list \<Rightarrow> byte list option" where
  "varint_fill value buffer =
     (if value = 0 then Some buffer
      else if length buffer < 10
      then varint_fill (drop_bit 7 value) (buffer @ [ucast (value AND 0x7F) OR 0x80])
      else None)"
  by pat_completeness auto
termination
  by (relation "measure (\<lambda>(v, b). 10 - length b)") auto

declare varint_fill.simps [simp del]

definition pb_encode_varint :: "pb_ostream_t \<Rightarrow> uint64 \<Rightarrow> (bool \<times> pb_ostream_t) option" where
  "pb_encode_varint s value =
     (if value \<le> 0x7F then pb_write s (Some [ucast value]) 1
      else do {
        buffer \<leftarrow> varint_fill value [];
        let i = length buffer;
        b \<leftarrow> nth_opt buffer (i - 1);
        pb_write s (Some (buffer[i - 1 := b AND 0x7F])) (of_nat i)
      })"

definition pb_encode_svarint :: "pb_ostream_t \<Rightarrow> uint64 \<Rightarrow> (bool \<times> pb_ostream_t) option" where
  "pb_encode_svarint s value =
     (let zigzagged = (if sint value < 0 then NOT (push_bit 1 value) else push_bit 1 value)
      in pb_encode_varint s zigzagged)"

definition pb_encode_fixed32 :: "pb_ostream_t \<Rightarrow> uint32 \<Rightarrow> (bool \<times> pb_ostream_t) option" where
  "pb_encode_fixed32 s val =
     pb_write s (Some [ucast (val AND 0xFF), ucast (drop_bit 8 val AND 0xFF),
                       ucast (drop_bit 16 val AND 0xFF), ucast (drop_bit 24 val AND 0xFF)]) 4"

definition pb_encode_fixed64 :: "pb_ostream_t \<Rightarrow> uint64 \<Rightarrow> (bool \<times> pb_ostream_t) option" where
  "pb_encode_fixed64 s val =
     pb_write s (Some [ucast (val AND 0xFF), ucast (drop_bit 8 val AND 0xFF),
                       ucast (drop_bit 16 val AND 0xFF), ucast (drop_bit 24 val AND 0xFF),
                       ucast (drop_bit 32 val AND 0xFF), ucast (drop_bit 40 val AND 0xFF),
                       ucast (drop_bit 48 val AND 0xFF), ucast (drop_bit 56 val AND 0xFF)]) 8"

definition pb_encode_tag :: "pb_ostream_t \<Rightarrow> pb_wire_type_t \<Rightarrow> uint32 \<Rightarrow> (bool \<times> pb_ostream_t) option" where
  "pb_encode_tag s wiretype field_number =
     pb_encode_varint s (push_bit 3 (ucast field_number) OR wire_type_code wiretype)"

definition pb_encode_tag_for_field :: "pb_ostream_t \<Rightarrow> pb_field_t \<Rightarrow> (bool \<times> pb_ostream_t) option" where
  "pb_encode_tag_for_field s field =
     (let l = PB_LTYPE (ftype field) in
      if l = PB_LTYPE_BOOL \<or> l = PB_LTYPE_VARINT \<or> l = PB_LTYPE_UVARINT \<or> l = PB_LTYPE_SVARINT
      then pb_encode_tag s PB_WT_VARINT (tag field)
      else if l = PB_LTYPE_FIXED32 then pb_encode_tag s PB_WT_32BIT (tag field)
      else if l = PB_LTYPE_FIXED64 then pb_encode_tag s PB_WT_64BIT (tag field)
      else if l = PB_LTYPE_BYTES \<or> l = PB_LTYPE_STRING \<or> l = PB_LTYPE_SUBMESSAGE
              \<or> l = PB_LTYPE_FIXED_LENGTH_BYTES
      then pb_encode_tag s PB_WT_STRING (tag field)
      else Some (False, oset_error s ''invalid field type''))"

definition pb_encode_string :: "pb_ostream_t \<Rightarrow> byte list option \<Rightarrow> size_t \<Rightarrow> (bool \<times> pb_ostream_t) option" where
  "pb_encode_string s buffer sz = do {
     (ok, s) \<leftarrow> pb_encode_varint s sz;
     if \<not> ok then Some (False, s) else pb_write s buffer sz
   }"

subsection \<open>What an output operation emits\<close>

text \<open>
  \<open>put s bs\<close> is the stream after the bytes \<open>bs\<close> went into its buffer, \<open>tally s n\<close> a sizing stream
  after \<open>n\<close> more bytes were counted.  \<open>ostream_ok\<close> says that the size limit of a buffer stream
  does not promise more room than its buffer has; \<open>fits\<close> that the limit admits \<open>n\<close> more bytes.
\<close>

definition put :: "pb_ostream_t \<Rightarrow> byte list \<Rightarrow> pb_ostream_t" where
  "put s bs = s\<lparr>owritten := owritten s @ bs, oroom := drop (length bs) (oroom s),
               bytes_written := bytes_written s + of_nat (length bs)\<rparr>"

definition tally :: "pb_ostream_t \<Rightarrow> nat \<Rightarrow> pb_ostream_t" where
  "tally s n = s\<lparr>bytes_written := bytes_written s + of_nat n\<rparr>"

definition ostream_ok :: "pb_ostream_t \<Rightarrow> bool" where
  "ostream_ok s \<longleftrightarrow> ocallback s = Buf_write \<and> oerrmsg s = None \<and>
     unat (bytes_written s) \<le> unat (max_size s) \<and>
     unat (max_size s) \<le> unat (bytes_written s) + length (oroom s)"

definition sizing_ok :: "pb_ostream_t \<Rightarrow> bool" where
  "sizing_ok s \<longleftrightarrow> ocallback s = No_write \<and> oerrmsg s = None"

definition fits :: "pb_ostream_t \<Rightarrow> nat \<Rightarrow> bool" where
  "fits s n \<longleftrightarrow> unat (bytes_written s) + n \<le> unat (max_size s)"

definition no_wrap :: "pb_ostream_t \<Rightarrow> nat \<Rightarrow> bool" where
  "no_wrap s n \<longleftrightarrow> unat (bytes_written s) + n < 2 ^ 64"

text \<open>
  An operation emits \<open>bs\<close> when a sizing stream counts the length of \<open>bs\<close>, a buffer stream with
  enough room stores exactly \<open>bs\<close>, and a buffer stream without enough room reports an error after
  storing a prefix of \<open>bs\<close>, as long as the total stays below \<open>2^64\<close> (see \<open>pb_write\<close>, whose
  check adds two \<^verbatim>\<open>size_t\<close> values).  No case is undefined.
\<close>

definition emits :: "(pb_ostream_t \<Rightarrow> (bool \<times> pb_ostream_t) option) \<Rightarrow> byte list \<Rightarrow> bool" where
  "emits f bs \<longleftrightarrow> length bs < 2 ^ 64 \<and>
     (\<forall>s. sizing_ok s \<longrightarrow> f s = Some (True, tally s (length bs))) \<and>
     (\<forall>s. ostream_ok s \<longrightarrow> fits s (length bs) \<longrightarrow> f s = Some (True, put s bs)) \<and>
     (\<forall>s. ostream_ok s \<longrightarrow> \<not> fits s (length bs) \<longrightarrow> no_wrap s (length bs) \<longrightarrow>
        (\<exists>k e. k \<le> length bs \<and> fits s k \<and> f s = Some (False, (put s (take k bs))\<lparr>oerrmsg := Some e\<rparr>)))"

definition and_then ::
  "(pb_ostream_t \<Rightarrow> (bool \<times> pb_ostream_t) option) \<Rightarrow> (pb_ostream_t \<Rightarrow> (bool \<times> pb_ostream_t) option)
   \<Rightarrow> pb_ostream_t \<Rightarrow> (bool \<times> pb_ostream_t) option" where
  "and_then f g s = do { (ok, s) \<leftarrow> f s; if \<not> ok then Some (False, s) else g s }"

lemma put_sel [simp, stream_simps]:
  "ocallback (put s bs) = ocallback s" "owritten (put s bs) = owritten s @ bs"
  "oroom (put s bs) = drop (length bs) (oroom s)" "max_size (put s bs) = max_size s"
  "bytes_written (put s bs) = bytes_written s + of_nat (length bs)" "oerrmsg (put s bs) = oerrmsg s"
  by (simp_all add: put_def)

lemma tally_sel [simp, stream_simps]:
  "ocallback (tally s n) = ocallback s" "owritten (tally s n) = owritten s"
  "oroom (tally s n) = oroom s" "max_size (tally s n) = max_size s"
  "bytes_written (tally s n) = bytes_written s + of_nat n" "oerrmsg (tally s n) = oerrmsg s"
  by (simp_all add: tally_def)

lemma put_Nil [simp]: "put s [] = s"
  by (simp add: put_def)

lemma tally_0 [simp]: "tally s 0 = s"
  by (simp add: tally_def)

lemma put_put [simp]: "put (put s bs) cs = put s (bs @ cs)"
  by (simp add: put_def add_ac)

lemma tally_tally [simp]: "tally (tally s a) b = tally s (a + b)"
  by (simp add: tally_def add_ac)

lemma fits_less: "fits s n \<Longrightarrow> unat (bytes_written s) + n < 2 ^ 64"
  using unat_less_2p [of "max_size s"] by (simp add: fits_def)

lemma unat_bytes_written_put:
  "fits s (length bs) \<Longrightarrow> unat (bytes_written s + of_nat (length bs)) = unat (bytes_written s) + length bs"
  using fits_less [of s "length bs"] by (subst unat_add_no_overflow) simp_all

lemma fits_put: "fits s (length bs) \<Longrightarrow> fits (put s bs) n \<longleftrightarrow> fits s (length bs + n)"
  unfolding fits_def by (simp add: unat_bytes_written_put [unfolded fits_def] add.assoc)

lemma fits_mono: "fits s n \<Longrightarrow> k \<le> n \<Longrightarrow> fits s k"
  by (simp add: fits_def)

lemma ostream_ok_put:
  "ostream_ok s \<Longrightarrow> fits s (length bs) \<Longrightarrow> ostream_ok (put s bs)"
  using unat_bytes_written_put [of s bs] by (auto simp: ostream_ok_def fits_def)

lemma sizing_ok_tally [simp]: "sizing_ok (tally s n) = sizing_ok s"
  by (simp add: sizing_ok_def)

lemma ostream_ok_room: "ostream_ok s \<Longrightarrow> fits s n \<Longrightarrow> n \<le> length (oroom s)"
  by (auto simp: ostream_ok_def fits_def)

lemma ostream_ok_from_buffer:
  "unat n \<le> length buf \<Longrightarrow> ostream_ok (pb_ostream_from_buffer buf n)"
  by (simp add: ostream_ok_def pb_ostream_from_buffer_def)

lemma sizing_ok_PB_OSTREAM_SIZING [simp]: "sizing_ok PB_OSTREAM_SIZING"
  by (simp add: sizing_ok_def PB_OSTREAM_SIZING_def)

lemma emits_length: "emits f bs \<Longrightarrow> length bs < 2 ^ 64"
  by (simp add: emits_def)

lemma emits_sizing: "emits f bs \<Longrightarrow> sizing_ok s \<Longrightarrow> f s = Some (True, tally s (length bs))"
  by (simp add: emits_def)

lemma emits_buffer: "emits f bs \<Longrightarrow> ostream_ok s \<Longrightarrow> fits s (length bs) \<Longrightarrow> f s = Some (True, put s bs)"
  by (simp add: emits_def)

lemma emits_full:
  assumes "emits f bs" "ostream_ok s" "\<not> fits s (length bs)" "no_wrap s (length bs)"
  obtains k e where "k \<le> length bs" "fits s k" "f s = Some (False, (put s (take k bs))\<lparr>oerrmsg := Some e\<rparr>)"
  using assms by (auto simp: emits_def)

lemma pb_write_emits:
  assumes len: "length bs < 2 ^ 64"
  shows "emits (\<lambda>s. pb_write s (Some bs) (of_nat (length bs))) bs"
proof -
  have un: "unat (of_nat (length bs) :: size_t) = length bs"
    using len by simp
  have zero: "(of_nat (length bs) :: size_t) = 0 \<longleftrightarrow> bs = []"
    using len by (simp add: of_nat_eq_0_small)
  show ?thesis
    unfolding emits_def
  proof (intro conjI allI impI)
    fix s assume "sizing_ok s"
    then show "pb_write s (Some bs) (of_nat (length bs)) = Some (True, tally s (length bs))"
      by (simp add: pb_write_def sizing_ok_def tally_def)
  next
    fix s assume ok: "ostream_ok s" and fit: "fits s (length bs)"
    have "\<not> bytes_written s + of_nat (length bs) > max_size s"
      using fit by (simp add: word_less_nat_alt unat_bytes_written_put [OF fit]) (simp add: fits_def)
    moreover have "length bs \<le> length (oroom s)"
      using ok fit by (rule ostream_ok_room)
    ultimately show "pb_write s (Some bs) (of_nat (length bs)) = Some (True, put s bs)"
      using ok zero un
      by (auto simp: pb_write_def call_write_def buf_write_def put_def ostream_ok_def word_gt_0)
  next
    fix s assume ok: "ostream_ok s" and full: "\<not> fits s (length bs)" and nw: "no_wrap s (length bs)"
    have "unat (bytes_written s + of_nat (length bs)) = unat (bytes_written s) + length bs"
      using nw un by (subst unat_add_no_overflow) (simp_all add: no_wrap_def)
    then have "bytes_written s + of_nat (length bs) > max_size s"
      using full by (simp add: word_less_nat_alt fits_def)
    moreover have "bs \<noteq> []"
      using ok full by (auto simp: ostream_ok_def fits_def)
    ultimately have "pb_write s (Some bs) (of_nat (length bs)) =
        Some (False, (put s (take 0 bs))\<lparr>oerrmsg := Some ''stream full''\<rparr>)"
      using ok zero by (simp add: pb_write_def oset_error_def ostream_ok_def word_gt_0)
    moreover have "fits s 0"
      using ok by (simp add: ostream_ok_def fits_def)
    ultimately show "\<exists>k e. k \<le> length bs \<and> fits s k \<and> pb_write s (Some bs) (of_nat (length bs)) =
            Some (False, (put s (take k bs))\<lparr>oerrmsg := Some e\<rparr>)"
      by blast
  qed (use len in simp)
qed

lemma emits_Nil: "emits (\<lambda>s. Some (True, s)) []"
  by (auto simp: emits_def ostream_ok_def fits_def)

lemma emits_and_then:
  assumes f: "emits f bs" and g: "emits g cs" and len: "length bs + length cs < 2 ^ 64"
  shows "emits (and_then f g) (bs @ cs)"
  unfolding emits_def
proof (intro conjI allI impI)
  show "length (bs @ cs) < 2 ^ 64" using len by simp
next
  fix s assume "sizing_ok s"
  then show "and_then f g s = Some (True, tally s (length (bs @ cs)))"
    by (simp add: and_then_def emits_sizing [OF f] emits_sizing [OF g])
next
  fix s assume ok: "ostream_ok s" and fit: "fits s (length (bs @ cs))"
  have fb: "fits s (length bs)"
    using fit by (rule fits_mono) simp
  have "fits (put s bs) (length cs)"
    using fit by (simp add: fits_put [OF fb])
  then show "and_then f g s = Some (True, put s (bs @ cs))"
    using ok fb by (simp add: and_then_def emits_buffer [OF f] emits_buffer [OF g] ostream_ok_put)
next
  fix s
  assume ok: "ostream_ok s" and full: "\<not> fits s (length (bs @ cs))" and nw: "no_wrap s (length (bs @ cs))"
  show "\<exists>k e. k \<le> length (bs @ cs) \<and> fits s k \<and>
      and_then f g s = Some (False, (put s (take k (bs @ cs)))\<lparr>oerrmsg := Some e\<rparr>)"
  proof (cases "fits s (length bs)")
    case fb: True
    have "\<not> fits (put s bs) (length cs)" "no_wrap (put s bs) (length cs)"
      using full nw by (simp_all add: fits_put [OF fb] no_wrap_def unat_bytes_written_put [OF fb])
    with ostream_ok_put [OF ok fb] obtain k e where k: "k \<le> length cs" "fits (put s bs) k"
        "g (put s bs) = Some (False, (put (put s bs) (take k cs))\<lparr>oerrmsg := Some e\<rparr>)"
      by (rule emits_full [OF g])
    have "length bs + k \<le> length (bs @ cs)" "fits s (length bs + k)"
      using k by (simp_all add: fits_put [OF fb])
    moreover have "and_then f g s = Some (False, (put s (take (length bs + k) (bs @ cs)))\<lparr>oerrmsg := Some e\<rparr>)"
      using k ok fb by (simp add: and_then_def emits_buffer [OF f])
    ultimately show ?thesis by blast
  next
    case False
    have "no_wrap s (length bs)" using nw by (simp add: no_wrap_def)
    with ok False obtain k e where k: "k \<le> length bs" "fits s k"
        "f s = Some (False, (put s (take k bs))\<lparr>oerrmsg := Some e\<rparr>)"
      by (rule emits_full [OF f])
    then have "and_then f g s = Some (False, (put s (take k (bs @ cs)))\<lparr>oerrmsg := Some e\<rparr>)"
      by (simp add: and_then_def)
    moreover have "k \<le> length (bs @ cs)" using k by simp
    ultimately show ?thesis using k(2) by blast
  qed
qed

subsection \<open>Reference encodings\<close>

text \<open>Zig-zag numbers and field tags on top of the varint format.\<close>

definition zigzag :: "uint64 \<Rightarrow> uint64" where
  "zigzag v = (if sint v < 0 then NOT (push_bit 1 v) else push_bit 1 v)"

definition tag_bytes :: "pb_wire_type_t \<Rightarrow> uint32 \<Rightarrow> byte list" where
  "tag_bytes wt t = varint_bytes (unat (push_bit 3 (ucast t) OR wire_type_code wt :: uint64))"

lemma varint_digit: "ucast (v AND 0x7F :: uint64) OR 0x80 = (of_nat (128 + unat v mod 128) :: byte)"
  by (simp add: varint_digit_low byte_set_top del: of_nat_add)

lemma varint_fill_open:
  "length buffer + length (varint_open (unat v)) \<le> 10 \<Longrightarrow>
   varint_fill v buffer = Some (buffer @ varint_open (unat v))"
proof (induction v buffer rule: varint_fill.induct)
  case (1 v buffer)
  show ?case
  proof (cases "v = 0")
    case True
    then show ?thesis by (simp add: varint_fill.simps)
  next
    case False
    then have pos: "0 < unat v" by (simp add: unat_gt_0)
    then have step: "varint_open (unat v) =
        of_nat (128 + unat v mod 128) # varint_open (unat (drop_bit 7 v))"
      by (simp add: varint_open_pos unat_drop_bit_7)
    with 1 False show ?thesis
      by (subst varint_fill.simps) (simp add: varint_digit del: of_nat_add)
  qed
qed

lemma varint_open_close:
  "0 < n \<Longrightarrow> (varint_open n)[length (varint_open n) - 1 := last (varint_open n) AND 0x7F] = varint_bytes n"
proof (induction n rule: varint_bytes.induct)
  case (1 n)
  show ?case
  proof (cases "n < 128")
    case True
    with 1 show ?thesis
      by (simp add: varint_bytes_small varint_open_pos byte_clear_top del: of_nat_add)
  next
    case False
    then have d: "0 < n div 128" by (simp add: div_greater_zero_iff)
    define xs where "xs = varint_open (n div 128)"
    have ne: "xs \<noteq> []" using d by (simp add: xs_def varint_open_eq_Nil)
    have "xs[length xs - 1 := last xs AND 0x7F] = varint_bytes (n div 128)"
      using 1 False d by (simp add: xs_def)
    moreover have "varint_open n = of_nat (128 + n mod 128) # xs"
      using 1 by (simp add: varint_open_pos xs_def del: of_nat_add)
    moreover obtain k where "length xs = Suc k" using ne by (cases "length xs") auto
    ultimately show ?thesis
      using ne False varint_bytes_big [of n] by (simp del: of_nat_add)
  qed
qed

lemma pb_encode_varint_eq:
  "pb_encode_varint s v =
     pb_write s (Some (varint_bytes (unat v))) (of_nat (length (varint_bytes (unat v))))"
proof (cases "v \<le> 0x7F")
  case True
  then have lt: "unat v < 128" by (simp add: word_le_nat_alt)
  then have "ucast v = (of_nat (unat v) :: byte)"
    by (simp add: word_unat_eq_iff unsigned_ucast_eq unat_of_nat take_bit_nat_eq_self)
  with True lt show ?thesis
    by (simp add: pb_encode_varint_def varint_bytes_small)
next
  case False
  then have pos: "0 < unat v" by (auto simp: word_le_nat_alt)
  define xs where "xs = varint_open (unat v)"
  have ne: "xs \<noteq> []" using pos by (simp add: xs_def varint_open_eq_Nil)
  have "varint_fill v [] = Some xs"
    using varint_fill_open [of "[]" v] length_varint_open_u64 [of v] by (simp add: xs_def)
  moreover have "nth_opt xs (length xs - 1) = Some (last xs)"
    using ne by (simp add: nth_opt_def last_conv_nth)
  moreover have "xs[length xs - 1 := last xs AND 0x7F] = varint_bytes (unat v)"
    using pos unfolding xs_def by (rule varint_open_close)
  moreover have "length xs = length (varint_bytes (unat v))"
    using pos by (simp add: xs_def length_varint_bytes)
  ultimately show ?thesis
    using False by (simp add: pb_encode_varint_def)
qed

lemma length_varint_bytes_small: "length (varint_bytes (unat (v :: uint64))) < 2 ^ 64"
  using length_varint_bytes_u64 [of v] by simp

lemma pb_encode_varint_emits: "emits (\<lambda>s. pb_encode_varint s v) (varint_bytes (unat v))"
  unfolding pb_encode_varint_eq by (rule pb_write_emits) (rule length_varint_bytes_small)

lemma pb_encode_svarint_emits: "emits (\<lambda>s. pb_encode_svarint s v) (varint_bytes (unat (zigzag v)))"
  using pb_encode_varint_emits [of "zigzag v"] by (simp add: pb_encode_svarint_def zigzag_def)

lemma pb_encode_tag_emits: "emits (\<lambda>s. pb_encode_tag s wt t) (tag_bytes wt t)"
  unfolding pb_encode_tag_def tag_bytes_def by (rule pb_encode_varint_emits)

subsection \<open>Properties of the output stream\<close>

text \<open>
  \<^verbatim>\<open>pb_write\<close> to a memory buffer, for a count that does not overflow the byte counter: the bytes go
  right behind those already written when the limit admits them; otherwise nothing is written and
  the stream reports that it is full.  In no case is the buffer exceeded.
\<close>

theorem pb_write_bounds:
  assumes "ostream_ok s" "unat count \<le> length bs" "no_wrap s (unat count)"
  shows "pb_write s (Some bs) count =
    (if fits s (unat count) then Some (True, put s (take (unat count) bs))
     else Some (False, s\<lparr>oerrmsg := Some ''stream full''\<rparr>))"
proof -
  have sum: "unat (bytes_written s + count) = unat (bytes_written s) + unat count"
    using assms(3) by (intro unat_add_no_overflow) (simp add: no_wrap_def)
  then have lim: "bytes_written s + count > max_size s \<longleftrightarrow> \<not> fits s (unat count)"
    by (auto simp: word_less_nat_alt fits_def)
  show ?thesis
  proof (cases "fits s (unat count)")
    case True
    with assms(1) have "unat count \<le> length (oroom s)" by (rule ostream_ok_room)
    with True lim assms show ?thesis
      by (auto simp: pb_write_def call_write_def buf_write_def put_def ostream_ok_def word_gt_0 min_absorb2)
  next
    case False
    then have "count \<noteq> 0" using assms(1) by (auto simp: fits_def ostream_ok_def)
    with False lim assms show ?thesis
      by (simp add: pb_write_def ostream_ok_def oset_error_def word_gt_0)
  qed
qed

theorem pb_write_bounds_witness:
  "pb_write (pb_ostream_from_buffer [0, 0] 2) (Some [1, 2, 3]) 3 =
     Some (False, (pb_ostream_from_buffer [0, 0] 2)\<lparr>oerrmsg := Some ''stream full''\<rparr>)"
  using pb_write_bounds [of "pb_ostream_from_buffer [0, 0] 2" 3 "[1, 2, 3]"]
  by (simp add: ostream_ok_def no_wrap_def fits_def pb_ostream_from_buffer_def)

text \<open>
  (C36) The limit check of \<^verbatim>\<open>pb_write\<close> adds two \<^verbatim>\<open>size_t\<close> values.  When the sum wraps around to a value
  within the limit, the check passes although the bytes do not fit, and the copy loop leaves the
  buffer.
\<close>

theorem pb_write_wraps:
  assumes "ostream_ok s" "\<not> no_wrap s (unat count)" "bytes_written s + count \<le> max_size s"
    "length (oroom s) < unat count"
  shows "pb_write s (Some bs) count = None"
proof -
  have "count \<noteq> 0" using assms(4) by auto
  then show ?thesis
    using assms by (simp add: pb_write_def call_write_def buf_write_def ostream_ok_def word_gt_0 not_less)
qed

theorem pb_write_wraps_witness:
  "pb_write ((pb_ostream_from_buffer [0, 0, 0] 4)\<lparr>bytes_written := 1\<rparr>) (Some [7]) 0xFFFFFFFFFFFFFFFF = None"
  by (rule pb_write_wraps) (simp_all add: ostream_ok_def no_wrap_def pb_ostream_from_buffer_def)

end
