(* ===== verification/Pb_Istream.thy ===== *)
theory Pb_Istream
  imports Pb_Types
begin

text \<open>
  Input streams and the scalar decoders of \<^verbatim>\<open>pb_decode.c\<close>: \<^verbatim>\<open>pb_istream_t\<close>, \<^verbatim>\<open>pb_read\<close>,
  \<^verbatim>\<open>pb_readbyte\<close>, varints, tags, skipping of fields, substreams and the fixed-width decoders; then
  how far each of them moves the stream and that none reads outside the input buffer.
\<close>

subsection \<open>Streams\<close>

text \<open>
  A stream reads from a memory buffer or through a user callback.  For a buffer stream \<open>istate\<close>
  is the content of the buffer from the \<^verbatim>\<open>state\<close> pointer on; for a user stream it is the state the
  callback keeps.  A user callback gets that state and a count; it fails or delivers bytes and a
  new state.
\<close>

datatype in_callback =
    Buf_read
  | User_read "byte list \<Rightarrow> nat \<Rightarrow> (byte list \<times> byte list) option"

record pb_istream_t =
  icallback :: in_callback
  istate :: "byte list"
  bytes_left :: size_t
  ierrmsg :: "string option"

primrec is_Buf_read :: "in_callback \<Rightarrow> bool" where
  "is_Buf_read Buf_read = True"
| "is_Buf_read (User_read f) = False"

definition iset_error :: "pb_istream_t \<Rightarrow> string \<Rightarrow> pb_istream_t" where
  "iset_error s msg = s\<lparr>ierrmsg := PB_SET_ERROR (ierrmsg s) msg\<rparr>"

text \<open>Both readers return the bytes stored at \<^verbatim>\<open>buf\<close>; reading past the buffer is undefined.\<close>

definition buf_read :: "pb_istream_t \<Rightarrow> nat \<Rightarrow> (byte list option \<times> pb_istream_t) option" where
  "buf_read s count =
     (if count \<le> length (istate s)
      then Some (Some (take count (istate s)), s\<lparr>istate := drop count (istate s)\<rparr>)
      else None)"

definition call_read :: "pb_istream_t \<Rightarrow> nat \<Rightarrow> (byte list option \<times> pb_istream_t) option" where
  "call_read s count =
     (case icallback s of
        Buf_read \<Rightarrow> buf_read s count
      | User_read f \<Rightarrow>
          (case f (istate s) count of
             None \<Rightarrow> Some (None, s)
           | Some (bs, st) \<Rightarrow> (if length bs = count then Some (Some bs, s\<lparr>istate := st\<rparr>) else None)))"

text \<open>
  \<^verbatim>\<open>pb_read\<close> past its null-buffer branch; the result is \<open>None\<close> for \<^verbatim>\<open>false\<close> and the bytes stored at
  \<^verbatim>\<open>buf\<close> for \<^verbatim>\<open>true\<close>.
\<close>

definition pb_read_buf :: "pb_istream_t \<Rightarrow> size_t \<Rightarrow> (byte list option \<times> pb_istream_t) option" where
  "pb_read_buf s count =
     (if count = 0 then Some (Some [], s)
      else if bytes_left s < count then Some (None, iset_error s ''end-of-stream'')
      else do {
        (r, s') \<leftarrow> call_read s (unat count);
        case r of
          None \<Rightarrow> Some (None, iset_error s' ''io error'')
        | Some bs \<Rightarrow> Some (Some bs, s'\<lparr>bytes_left := bytes_left s' - count\<rparr>)
      })"

text \<open>The loop that skips the input of a user stream in pieces of at most sixteen bytes.\<close>

function pb_read_skip :: "pb_istream_t \<Rightarrow> size_t \<Rightarrow> (bool \<times> pb_istream_t) option" where
  "pb_read_skip s count =
     (if count > 16
      then do {
        (r, s) \<leftarrow> pb_read_buf s 16;
        if r = None then Some (False, s) else pb_read_skip s (count - 16)
      }
      else do { (r, s) \<leftarrow> pb_read_buf s count; Some (r \<noteq> None, s) })"
  by pat_completeness auto
termination
proof (relation "measure (\<lambda>(s, c). unat c)", goal_cases)
  case (2 s count z r s')
  then have "16 < unat count" by (simp add: word_less_nat_alt)
  moreover from 2 have "unat (count - 16) = unat count - 16"
    by (subst unat_sub) (auto simp: word_less_nat_alt word_le_nat_alt)
  ultimately show ?case by simp
qed simp

declare pb_read_skip.simps [simp del]

text \<open>\<^verbatim>\<open>pb_read\<close> with a null buffer, which only moves the stream.\<close>

definition pb_read_null :: "pb_istream_t \<Rightarrow> size_t \<Rightarrow> (bool \<times> pb_istream_t) option" where
  "pb_read_null s count =
     (if count = 0 then Some (True, s)
      else if \<not> is_Buf_read (icallback s) then pb_read_skip s count
      else do { (r, s) \<leftarrow> pb_read_buf s count; Some (r \<noteq> None, s) })"

definition pb_readbyte :: "pb_istream_t \<Rightarrow> (byte option \<times> pb_istream_t) option" where
  "pb_readbyte s =
     (if bytes_left s = 0 then Some (None, iset_error s ''end-of-stream'')
      else do {
        (r, s') \<leftarrow> call_read s 1;
        case r of
          None \<Rightarrow> Some (None, iset_error s' ''io error'')
        | Some bs \<Rightarrow> Some (Some (hd bs), s'\<lparr>bytes_left := bytes_left s' - 1\<rparr>)
      })"

definition pb_istream_from_buffer :: "byte list \<Rightarrow> size_t \<Rightarrow> pb_istream_t" where
  "pb_istream_from_buffer buf bufsize =
     \<lparr>icallback = Buf_read, istate = buf, bytes_left = bufsize, ierrmsg = None\<rparr>"

lemma call_read_frame:
  assumes "call_read s n = Some (r, s')"
  shows "bytes_left s' = bytes_left s \<and> icallback s' = icallback s \<and> ierrmsg s' = ierrmsg s"
  using assms
  by (auto simp: call_read_def buf_read_def split: in_callback.splits option.splits if_splits prod.splits)

lemma pb_read_buf_cases:
  assumes "pb_read_buf s n = Some (r, s')"
  obtains (zero) "n = 0" "r = Some []" "s' = s"
  | (short) "n \<noteq> 0" "bytes_left s < n" "r = None" "s' = iset_error s ''end-of-stream''"
  | (io) s'' where "n \<noteq> 0" "n \<le> bytes_left s" "call_read s (unat n) = Some (None, s'')"
      "r = None" "s' = iset_error s'' ''io error''"
  | (ok) bs s'' where "n \<noteq> 0" "n \<le> bytes_left s" "call_read s (unat n) = Some (Some bs, s'')"
      "r = Some bs" "s' = s''\<lparr>bytes_left := bytes_left s - n\<rparr>"
proof -
  consider (z) "n = 0" | (sh) "n \<noteq> 0" "bytes_left s < n" | (rd) "\<not> (n = 0 \<or> bytes_left s < n)"
    by blast
  then show ?thesis
  proof cases
    case z
    with assms show ?thesis by (intro zero) (simp_all add: pb_read_buf_def)
  next
    case sh
    with assms show ?thesis by (intro short) (simp_all add: pb_read_buf_def)
  next
    case rd
    then have le: "n \<noteq> 0" "n \<le> bytes_left s" by (simp_all add: not_less)
    obtain q s'' where q: "call_read s (unat n) = Some (q, s'')"
      using assms rd by (cases "call_read s (unat n)") (auto simp: pb_read_buf_def)
    show ?thesis
    proof (cases q)
      case None
      with assms rd q show ?thesis by (intro io [OF le]) (auto simp: pb_read_buf_def)
    next
      case (Some bs)
      with assms rd q call_read_frame [OF q] show ?thesis
        by (intro ok [OF le]) (auto simp: pb_read_buf_def)
    qed
  qed
qed

lemma pb_readbyte_cases:
  assumes "pb_readbyte s = Some (r, s')"
  obtains (short) "bytes_left s = 0" "r = None" "s' = iset_error s ''end-of-stream''"
  | (io) s'' where "bytes_left s \<noteq> 0" "call_read s 1 = Some (None, s'')" "r = None"
      "s' = iset_error s'' ''io error''"
  | (ok) bs s'' where "bytes_left s \<noteq> 0" "call_read s 1 = Some (Some bs, s'')" "r = Some (hd bs)"
      "s' = s''\<lparr>bytes_left := bytes_left s - 1\<rparr>"
proof (cases "bytes_left s = 0")
  case True
  with assms show ?thesis by (intro short) (simp_all add: pb_readbyte_def)
next
  case False
  obtain q s'' where q: "call_read s 1 = Some (q, s'')"
    using assms False by (cases "call_read s 1") (auto simp: pb_readbyte_def)
  show ?thesis
  proof (cases q)
    case None
    with assms False q show ?thesis by (intro io [OF False]) (auto simp: pb_readbyte_def)
  next
    case (Some bs)
    with assms False q call_read_frame [OF q] show ?thesis
      by (intro ok [OF False]) (auto simp: pb_readbyte_def)
  qed
qed

lemma pb_readbyte_less:
  assumes "pb_readbyte s = Some (Some b, s')"
  shows "unat (bytes_left s') < unat (bytes_left s)"
  using assms by (cases rule: pb_readbyte_cases) (simp_all add: unat_minus_one unat_gt_0)

lemma pb_read_buf_less:
  assumes "pb_read_buf s n = Some (Some bs, s')" and "n \<noteq> 0"
  shows "unat (bytes_left s') < unat (bytes_left s)"
  using assms(1)
proof (cases rule: pb_read_buf_cases)
  case (ok bs s'')
  then have "0 < unat n" "unat n \<le> unat (bytes_left s)"
    using assms(2) by (simp_all add: unat_gt_0 word_le_nat_alt)
  then show ?thesis
    using ok by (simp add: unat_sub)
qed (use assms in simp_all)

subsection \<open>Varints, tags and skipping\<close>

text \<open>
  The loop of \<^verbatim>\<open>pb_decode_varint32_eof\<close> after its first byte.  \<^verbatim>\<open>uint_fast8_t\<close> has eight bits on
  the targets of the build, so \<^verbatim>\<open>bitpos\<close> is an 8-bit word and its increment wraps.  The result pairs
  the accumulated value with the final \<^verbatim>\<open>bitpos\<close> and the last byte.
\<close>

function varint32_loop ::
  "pb_istream_t \<Rightarrow> uint32 \<Rightarrow> 8 word \<Rightarrow> ((uint32 \<times> 8 word \<times> byte) option \<times> pb_istream_t) option" where
  "varint32_loop s result bitpos = do {
     (r, s) \<leftarrow> pb_readbyte s;
     case r of
       None \<Rightarrow> Some (None, s)
     | Some b \<Rightarrow>
         (let sign_extension = (if bitpos < 63 then 0xFF else 0x01);
              overflow = (bitpos \<ge> 32 \<and> b AND 0x7F \<noteq> 0 \<and>
                          (drop_bit 31 result = 0 \<or> b \<noteq> sign_extension));
              result' = (if bitpos \<ge> 32 then result
                         else result OR push_bit (unat bitpos) (ucast (b AND 0x7F)))
          in if overflow then Some (None, iset_error s ''varint overflow'')
             else if b AND 0x80 \<noteq> 0 then varint32_loop s result' (bitpos + 7)
             else Some (Some (result', bitpos + 7, b), s))
   }"
  by pat_completeness auto
termination
  by (relation "measure (\<lambda>(s, r, p). unat (bytes_left s))") (auto dest: pb_readbyte_less)

declare varint32_loop.simps [simp del]

text \<open>
  \<^verbatim>\<open>pb_decode_varint32_eof\<close>: the boolean component says whether \<^verbatim>\<open>*eof\<close> was set; the value is
  \<open>None\<close> when the function returns \<^verbatim>\<open>false\<close>.
\<close>

definition pb_decode_varint32_eof :: "pb_istream_t \<Rightarrow> (uint32 option \<times> bool \<times> pb_istream_t) option" where
  "pb_decode_varint32_eof s = do {
     (r, s) \<leftarrow> pb_readbyte s;
     case r of
       None \<Rightarrow> Some (None, bytes_left s = 0, s)
     | Some b \<Rightarrow>
         (if b AND 0x80 = 0 then Some (Some (ucast b), False, s)
          else do {
            (q, s) \<leftarrow> varint32_loop s (ucast (b AND 0x7F)) 7;
            case q of
              None \<Rightarrow> Some (None, False, s)
            | Some (result, bitpos, last_byte) \<Rightarrow>
                (if bitpos = 35 \<and> last_byte AND 0x70 \<noteq> 0
                 then Some (None, False, iset_error s ''varint overflow'')
                 else Some (Some result, False, s))
          })
   }"

definition pb_decode_varint32 :: "pb_istream_t \<Rightarrow> (uint32 option \<times> pb_istream_t) option" where
  "pb_decode_varint32 s = do { (r, eof, s) \<leftarrow> pb_decode_varint32_eof s; Some (r, s) }"

function varint_loop :: "pb_istream_t \<Rightarrow> uint64 \<Rightarrow> 8 word \<Rightarrow> (uint64 option \<times> pb_istream_t) option" where
  "varint_loop s result bitpos =
     (if bitpos \<ge> 64 then Some (None, iset_error s ''varint overflow'')
      else do {
        (r, s) \<leftarrow> pb_readbyte s;
        case r of
          None \<Rightarrow> Some (None, s)
        | Some b \<Rightarrow>
            (let result' = result OR push_bit (unat bitpos) (ucast (b AND 0x7F))
             in if b AND 0x80 \<noteq> 0 then varint_loop s result' (bitpos + 7)
                else Some (Some result', s))
      })"
  by pat_completeness auto
termination
  by (relation "measure (\<lambda>(s, r, p). unat (bytes_left s))") (auto dest: pb_readbyte_less)

declare varint_loop.simps [simp del]

definition pb_decode_varint :: "pb_istream_t \<Rightarrow> (uint64 option \<times> pb_istream_t) option" where
  "pb_decode_varint s = varint_loop s 0 0"

function pb_skip_varint :: "pb_istream_t \<Rightarrow> (bool \<times> pb_istream_t) option" where
  "pb_skip_varint s = do {
     (r, s) \<leftarrow> pb_read_buf s 1;
     case r of
       None \<Rightarrow> Some (False, s)
     | Some bs \<Rightarrow> (if hd bs AND 0x80 \<noteq> 0 then pb_skip_varint s else Some (True, s))
   }"
  by pat_completeness auto
termination
  by (relation "measure (\<lambda>s. unat (bytes_left s))") (auto dest: pb_read_buf_less)

declare pb_skip_varint.simps [simp del]

definition pb_skip_string :: "pb_istream_t \<Rightarrow> (bool \<times> pb_istream_t) option" where
  "pb_skip_string s = do {
     (r, s) \<leftarrow> pb_decode_varint32 s;
     case r of
       None \<Rightarrow> Some (False, s)
     | Some len \<Rightarrow> pb_read_null s (ucast len)
   }"

text \<open>
  \<^verbatim>\<open>pb_decode_tag\<close>: the wire type and the tag for \<^verbatim>\<open>true\<close>, and the final value of \<^verbatim>\<open>*eof\<close>.
\<close>

definition pb_decode_tag ::
  "pb_istream_t \<Rightarrow> ((pb_wire_type_t \<times> uint32) option \<times> bool \<times> pb_istream_t) option" where
  "pb_decode_tag s = do {
     (r, eof, s) \<leftarrow> pb_decode_varint32_eof s;
     case r of
       None \<Rightarrow> Some (None, eof, s)
     | Some temp \<Rightarrow>
         (if temp = 0 then Some (None, True, s)
          else Some (Some (wire_type_of (temp AND 7), drop_bit 3 temp), eof, s))
   }"

definition pb_skip_field :: "pb_istream_t \<Rightarrow> pb_wire_type_t \<Rightarrow> (bool \<times> pb_istream_t) option" where
  "pb_skip_field s wire_type =
     (case wire_type of
        PB_WT_VARINT \<Rightarrow> pb_skip_varint s
      | PB_WT_64BIT \<Rightarrow> pb_read_null s 8
      | PB_WT_STRING \<Rightarrow> pb_skip_string s
      | PB_WT_32BIT \<Rightarrow> pb_read_null s 4
      | PB_WT_invalid w \<Rightarrow> Some (False, iset_error s ''invalid wire_type''))"

text \<open>
  \<^verbatim>\<open>read_raw_value\<close> with its buffer of \<^verbatim>\<open>max_size\<close> bytes; the result is the content of the buffer up
  to the size it reports.  The varint case returns \<^verbatim>\<open>false\<close> without a message when the buffer is
  full.
\<close>

fun raw_varint :: "nat \<Rightarrow> pb_istream_t \<Rightarrow> byte list \<Rightarrow> (byte list option \<times> pb_istream_t) option" where
  "raw_varint 0 s buf = Some (None, s)"
| "raw_varint (Suc room) s buf = do {
     (r, s) \<leftarrow> pb_read_buf s 1;
     case r of
       None \<Rightarrow> Some (None, s)
     | Some bs \<Rightarrow>
         (if hd bs AND 0x80 \<noteq> 0 then raw_varint room s (buf @ bs) else Some (Some (buf @ bs), s))
   }"

definition read_raw_value ::
  "pb_istream_t \<Rightarrow> pb_wire_type_t \<Rightarrow> nat \<Rightarrow> (byte list option \<times> pb_istream_t) option" where
  "read_raw_value s wire_type max_sz =
     (case wire_type of
        PB_WT_VARINT \<Rightarrow> raw_varint max_sz s []
      | PB_WT_64BIT \<Rightarrow> pb_read_buf s 8
      | PB_WT_32BIT \<Rightarrow> pb_read_buf s 4
      | PB_WT_STRING \<Rightarrow> Some (None, iset_error s ''invalid wire_type'')
      | PB_WT_invalid w \<Rightarrow> Some (None, iset_error s ''invalid wire_type''))"

subsection \<open>Substreams\<close>

text \<open>\<^verbatim>\<open>pb_make_string_substream\<close>: for \<^verbatim>\<open>true\<close>, the parent stream and the substream.\<close>

definition pb_make_string_substream ::
  "pb_istream_t \<Rightarrow> (pb_istream_t option \<times> pb_istream_t) option" where
  "pb_make_string_substream s = do {
     (r, s) \<leftarrow> pb_decode_varint32 s;
     case r of
       None \<Rightarrow> Some (None, s)
     | Some sz \<Rightarrow>
         (if bytes_left s < ucast sz
          then Some (None, iset_error s ''parent stream too short'')
          else Some (Some (s\<lparr>bytes_left := ucast sz\<rparr>), s\<lparr>bytes_left := bytes_left s - ucast sz\<rparr>))
   }"

text \<open>
  \<^verbatim>\<open>pb_close_string_substream\<close> returns the parent stream; the substream is a local variable of every
  caller and is not used afterwards.
\<close>

definition pb_close_string_substream ::
  "pb_istream_t \<Rightarrow> pb_istream_t \<Rightarrow> (bool \<times> pb_istream_t) option" where
  "pb_close_string_substream s sub =
     (if bytes_left sub \<noteq> 0
      then do {
        (ok, sub) \<leftarrow> pb_read_null sub (bytes_left sub);
        if \<not> ok then Some (False, s)
        else Some (True, s\<lparr>istate := istate sub, ierrmsg := ierrmsg sub\<rparr>)
      }
      else Some (True, s\<lparr>istate := istate sub, ierrmsg := ierrmsg sub\<rparr>))"

subsection \<open>Scalar decoders\<close>

definition pb_decode_svarint :: "pb_istream_t \<Rightarrow> (uint64 option \<times> pb_istream_t) option" where
  "pb_decode_svarint s = do {
     (r, s) \<leftarrow> pb_decode_varint s;
     case r of
       None \<Rightarrow> Some (None, s)
     | Some v \<Rightarrow> Some (Some (if v AND 1 \<noteq> 0 then NOT (drop_bit 1 v) else drop_bit 1 v), s)
   }"

definition pb_decode_fixed32 :: "pb_istream_t \<Rightarrow> (uint32 option \<times> pb_istream_t) option" where
  "pb_decode_fixed32 s = do {
     (r, s) \<leftarrow> pb_read_buf s 4;
     case r of
       None \<Rightarrow> Some (None, s)
     | Some bs \<Rightarrow>
         Some (Some (push_bit 0 (ucast (bs ! 0)) OR push_bit 8 (ucast (bs ! 1)) OR
                     push_bit 16 (ucast (bs ! 2)) OR push_bit 24 (ucast (bs ! 3))), s)
   }"

definition pb_decode_fixed64 :: "pb_istream_t \<Rightarrow> (uint64 option \<times> pb_istream_t) option" where
  "pb_decode_fixed64 s = do {
     (r, s) \<leftarrow> pb_read_buf s 8;
     case r of
       None \<Rightarrow> Some (None, s)
     | Some bs \<Rightarrow>
         Some (Some (push_bit 0 (ucast (bs ! 0)) OR push_bit 8 (ucast (bs ! 1)) OR
                     push_bit 16 (ucast (bs ! 2)) OR push_bit 24 (ucast (bs ! 3)) OR
                     push_bit 32 (ucast (bs ! 4)) OR push_bit 40 (ucast (bs ! 5)) OR
                     push_bit 48 (ucast (bs ! 6)) OR push_bit 56 (ucast (bs ! 7))), s)
   }"

subsection \<open>Moving along a buffer\<close>

text \<open>
  \<open>istream_ok\<close>: the stream reads from a buffer that has at least \<^verbatim>\<open>bytes_left\<close> bytes behind the state
  pointer.  \<open>adv s n\<close> is the stream \<open>n\<close> bytes further on.  \<open>skips s k s'\<close> says the same of a result
  up to its error message, \<open>settled s s'\<close> is what holds of every result, also of a failed one: the
  stream is sound, promises no more bytes than before, and has consumed no more than it accounts for.
\<close>

definition istream_ok :: "pb_istream_t \<Rightarrow> bool" where
  "istream_ok s \<longleftrightarrow> icallback s = Buf_read \<and> unat (bytes_left s) \<le> length (istate s)"

definition adv :: "pb_istream_t \<Rightarrow> nat \<Rightarrow> pb_istream_t" where
  "adv s n = s\<lparr>istate := drop n (istate s), bytes_left := bytes_left s - of_nat n\<rparr>"

definition skips :: "pb_istream_t \<Rightarrow> nat \<Rightarrow> pb_istream_t \<Rightarrow> bool" where
  "skips s k s' \<longleftrightarrow> k \<le> unat (bytes_left s) \<and> (\<exists>e. s' = (adv s k)\<lparr>ierrmsg := e\<rparr>)"

definition settled :: "pb_istream_t \<Rightarrow> pb_istream_t \<Rightarrow> bool" where
  "settled s s' \<longleftrightarrow> istream_ok s' \<and> unat (bytes_left s') \<le> unat (bytes_left s) \<and>
     length (istate s) + unat (bytes_left s') \<le> length (istate s') + unat (bytes_left s)"

definition holds :: "pb_istream_t \<Rightarrow> byte list \<Rightarrow> bool" where
  "holds s bs \<longleftrightarrow> istream_ok s \<and> length bs \<le> unat (bytes_left s) \<and> take (length bs) (istate s) = bs"

lemma adv_sel [simp, stream_simps]:
  "icallback (adv s n) = icallback s" "istate (adv s n) = drop n (istate s)"
  "bytes_left (adv s n) = bytes_left s - of_nat n" "ierrmsg (adv s n) = ierrmsg s"
  by (simp_all add: adv_def)

lemma adv_0 [simp]: "adv s 0 = s"
  by (simp add: adv_def)

lemma adv_adv [simp]: "adv (adv s a) b = adv s (a + b)"
  by (simp add: adv_def add.commute diff_diff_eq)

lemma adv_err [simp]: "adv (s\<lparr>ierrmsg := e\<rparr>) n = (adv s n)\<lparr>ierrmsg := e\<rparr>"
  by (simp add: adv_def)

lemma iset_error_sel [simp, stream_simps]:
  "icallback (iset_error s m) = icallback s" "istate (iset_error s m) = istate s"
  "bytes_left (iset_error s m) = bytes_left s" "ierrmsg (iset_error s m) = PB_SET_ERROR (ierrmsg s) m"
  by (simp_all add: iset_error_def)

lemma unat_bytes_left_adv:
  "n \<le> unat (bytes_left s) \<Longrightarrow> unat (bytes_left s - of_nat n) = unat (bytes_left s) - n"
  using unat_less_2p [of "bytes_left s"]
  by (subst unat_sub) (simp_all add: word_le_nat_alt)

lemma istream_ok_adv: "istream_ok s \<Longrightarrow> n \<le> unat (bytes_left s) \<Longrightarrow> istream_ok (adv s n)"
  by (auto simp: istream_ok_def unat_bytes_left_adv)

lemma istream_ok_err [simp]: "istream_ok (s\<lparr>ierrmsg := e\<rparr>) = istream_ok s"
  by (simp add: istream_ok_def)

lemma istream_ok_iset_error [simp]: "istream_ok (iset_error s m) = istream_ok s"
  by (simp add: istream_ok_def)

lemma istream_ok_from_buffer: "unat n \<le> length buf \<Longrightarrow> istream_ok (pb_istream_from_buffer buf n)"
  by (simp add: istream_ok_def pb_istream_from_buffer_def)

lemma skips_0 [simp]: "skips s 0 s"
  by (auto simp: skips_def intro: exI [of _ "ierrmsg s"])

lemma skips_adv: "n \<le> unat (bytes_left s) \<Longrightarrow> skips s n (adv s n)"
  by (auto simp: skips_def intro!: exI [of _ "ierrmsg s"])

lemma skips_trans: "skips s a t \<Longrightarrow> skips t b u \<Longrightarrow> skips s (a + b) u"
  by (auto simp: skips_def unat_bytes_left_adv)

lemma skips_settled: "istream_ok s \<Longrightarrow> skips s k s' \<Longrightarrow> settled s s'"
  by (auto simp: skips_def settled_def istream_ok_adv unat_bytes_left_adv)

lemma skips_istate: "skips s k s' \<Longrightarrow> istate s' = drop k (istate s)"
  by (auto simp: skips_def)

lemma skips_bytes_left: "skips s k s' \<Longrightarrow> unat (bytes_left s') + k = unat (bytes_left s)"
  by (auto simp: skips_def unat_bytes_left_adv)

lemma settled_refl [simp]: "settled s s \<longleftrightarrow> istream_ok s"
  by (simp add: settled_def)

lemma settled_iset_error [simp]: "settled s (iset_error s' m) \<longleftrightarrow> settled s s'"
  by (simp add: settled_def)

lemma settled_adv [simp]: "istream_ok s \<Longrightarrow> n \<le> unat (bytes_left s) \<Longrightarrow> settled s (adv s n)"
  by (simp add: settled_def istream_ok_adv unat_bytes_left_adv)

lemma settled_trans: "settled s t \<Longrightarrow> settled t u \<Longrightarrow> settled s u"
  by (simp add: settled_def)

lemma settled_istream_ok: "settled s s' \<Longrightarrow> istream_ok s'"
  by (simp add: settled_def)

lemma holds_append: "holds s (bs @ cs) \<longleftrightarrow> holds s bs \<and> holds (adv s (length bs)) cs"
proof -
  have "take (length bs + length cs) (istate s) = bs @ cs \<longleftrightarrow>
      take (length bs) (istate s) = bs \<and> take (length cs) (drop (length bs) (istate s)) = cs"
    if "length bs \<le> length (istate s)"
    using that by (simp add: take_add append_eq_append_conv min_absorb2)
  then show ?thesis
    by (auto simp: holds_def istream_ok_adv unat_bytes_left_adv) (auto simp: istream_ok_def)
qed

lemma holds_Nil [simp]: "holds s [] \<longleftrightarrow> istream_ok s"
  by (simp add: holds_def)

lemma holds_Cons: "holds s (b # bs) \<longleftrightarrow> holds s [b] \<and> holds (adv s 1) bs"
  using holds_append [of s "[b]" bs] by simp

lemma holds_istream_ok: "holds s bs \<Longrightarrow> istream_ok s"
  by (simp add: holds_def)

lemma holds_from_buffer:
  "length bs + length rest < 2 ^ 64 \<Longrightarrow>
   holds (pb_istream_from_buffer (bs @ rest) (of_nat (length bs + length rest))) bs"
  by (simp add: holds_def istream_ok_def pb_istream_from_buffer_def del: of_nat_add)

subsection \<open>Reading from a buffer\<close>

lemma pb_read_buf_ok:
  assumes "istream_ok s" "n \<le> bytes_left s"
  shows "pb_read_buf s n = Some (Some (take (unat n) (istate s)), adv s (unat n))"
proof -
  have "unat n \<le> length (istate s)"
    using assms by (simp add: istream_ok_def word_le_nat_alt)
  moreover have "\<not> bytes_left s < n"
    using assms(2) by simp
  ultimately show ?thesis
    using assms by (simp add: pb_read_buf_def call_read_def buf_read_def istream_ok_def adv_def)
qed

lemma pb_read_buf_short:
  "bytes_left s < n \<Longrightarrow> pb_read_buf s n = Some (None, iset_error s ''end-of-stream'')"
  by (auto simp: pb_read_buf_def)

lemma pb_read_null_ok:
  assumes "istream_ok s" "n \<le> bytes_left s"
  shows "pb_read_null s n = Some (True, adv s (unat n))"
  using assms by (simp add: pb_read_null_def pb_read_buf_ok istream_ok_def)

lemma pb_read_null_short:
  assumes "istream_ok s" "bytes_left s < n"
  shows "pb_read_null s n = Some (False, iset_error s ''end-of-stream'')"
  using assms by (auto simp: pb_read_null_def pb_read_buf_short istream_ok_def)

lemma pb_readbyte_ok:
  assumes "istream_ok s" "bytes_left s \<noteq> 0"
  shows "pb_readbyte s = Some (Some (hd (istate s)), adv s 1)"
proof -
  have "1 \<le> length (istate s)"
    using assms unat_gt_0 [of "bytes_left s"] by (simp add: istream_ok_def)
  then have "take 1 (istate s) = [hd (istate s)]"
    by (cases "istate s") simp_all
  with \<open>1 \<le> length (istate s)\<close> show ?thesis
    using assms by (simp add: pb_readbyte_def call_read_def buf_read_def istream_ok_def adv_def)
qed

lemma pb_readbyte_eof: "bytes_left s = 0 \<Longrightarrow> pb_readbyte s = Some (None, iset_error s ''end-of-stream'')"
  by (simp add: pb_readbyte_def)

lemma pb_readbyte_holds:
  assumes "holds s [b]"
  shows "pb_readbyte s = Some (Some b, adv s 1)"
proof -
  have "bytes_left s \<noteq> 0" "istream_ok s"
    using assms by (auto simp: holds_def)
  moreover have "hd (istate s) = b"
    using assms by (cases "istate s") (auto simp: holds_def)
  ultimately show ?thesis
    by (simp add: pb_readbyte_ok)
qed

lemma pb_read_buf_holds:
  assumes "holds s bs"
  shows "pb_read_buf s (of_nat (length bs)) = Some (Some bs, adv s (length bs))"
proof -
  have len: "length bs < 2 ^ 64"
    using assms unat_less_2p [of "bytes_left s"] by (simp add: holds_def)
  then have "of_nat (length bs) \<le> bytes_left s"
    using assms by (simp add: holds_def word_le_nat_alt)
  with assms len show ?thesis
    by (simp add: pb_read_buf_ok holds_def)
qed

subsection \<open>Every reader stays inside the buffer\<close>

text \<open>
  \<open>reads succ x s\<close>: the run \<open>x\<close> of a reader on \<open>s\<close> is defined, leaves a sound stream that promises
  no more bytes than before, and when it succeeds it has consumed at least one byte and changed
  nothing else.
\<close>

definition reads :: "('r \<Rightarrow> bool) \<Rightarrow> ('r \<times> pb_istream_t) option \<Rightarrow> pb_istream_t \<Rightarrow> bool" where
  "reads succ x s \<longleftrightarrow>
     (\<exists>r s'. x = Some (r, s') \<and> settled s s' \<and>
        (succ r \<longrightarrow> (\<exists>k. 0 < k \<and> k \<le> unat (bytes_left s) \<and> s' = adv s k)))"

locale reader =
  fixes rd :: "pb_istream_t \<Rightarrow> ('r \<times> pb_istream_t) option"
    and succ :: "'r \<Rightarrow> bool"
  assumes rd_reads: "istream_ok s \<Longrightarrow> reads succ (rd s) s"
begin

lemma rd_total: "istream_ok s \<Longrightarrow> \<exists>r s'. rd s = Some (r, s') \<and> settled s s'"
  using rd_reads [of s] by (auto simp: reads_def)

lemma rd_settled: "istream_ok s \<Longrightarrow> rd s = Some (r, s') \<Longrightarrow> settled s s'"
  using rd_reads [of s] by (auto simp: reads_def)

lemma rd_success:
  assumes "istream_ok s" "rd s = Some (r, s')" "succ r"
  obtains k where "0 < k" "k \<le> unat (bytes_left s)" "s' = adv s k"
  using assms rd_reads [of s] by (auto simp: reads_def)

lemma rd_progress:
  assumes "istream_ok s" "rd s = Some (r, s')" "succ r"
  shows "unat (bytes_left s') < unat (bytes_left s)"
  using assms by (rule rd_success) (simp add: unat_bytes_left_adv)

lemma rd_prefix:
  assumes "istream_ok s" "rd s = Some (r, s')" "succ r"
  shows "\<exists>bs. bs \<noteq> [] \<and> istate s = bs @ istate s' \<and> length bs + unat (bytes_left s') = unat (bytes_left s)"
proof -
  from assms obtain k where k: "0 < k" "k \<le> unat (bytes_left s)" "s' = adv s k"
    by (rule rd_success)
  moreover have "k \<le> length (istate s)"
    using assms(1) k by (simp add: istream_ok_def)
  ultimately show ?thesis
    by (intro exI [of _ "take k (istate s)"]) (auto simp: unat_bytes_left_adv)
qed

end

lemma reads_fail [simp]: "\<not> succ r \<Longrightarrow> reads succ (Some (r, s')) s \<longleftrightarrow> settled s s'"
  by (simp add: reads_def)

lemma reads_done: "istream_ok s \<Longrightarrow> 0 < k \<Longrightarrow> k \<le> unat (bytes_left s) \<Longrightarrow> reads succ (Some (r, adv s k)) s"
  by (auto simp: reads_def intro: skips_settled skips_adv)

lemma reads_more:
  assumes "istream_ok s" "k \<le> unat (bytes_left s)" "reads succ x (adv s k)"
  shows "reads succ x s"
proof -
  obtain r s' where x: "x = Some (r, s')" "settled (adv s k) s'"
      "succ r \<Longrightarrow> \<exists>j. 0 < j \<and> j \<le> unat (bytes_left s - of_nat k) \<and> s' = adv s (k + j)"
    using assms(3) by (auto simp: reads_def)
  have "settled s s'"
    using x(2) assms by (auto intro: settled_trans skips_settled skips_adv)
  moreover have "\<exists>j. 0 < j \<and> j \<le> unat (bytes_left s) \<and> s' = adv s j" if sr: "succ r"
  proof -
    obtain j where "0 < j" "j \<le> unat (bytes_left s) - k" "s' = adv s (k + j)"
      using x(3) [OF sr] assms(2) by (auto simp: unat_bytes_left_adv)
    then show ?thesis using assms(2) by (intro exI [of _ "k + j"]) simp
  qed
  ultimately show ?thesis using x(1) by (auto simp: reads_def)
qed

lemma readsE:
  assumes "reads succ x s" "istream_ok s"
  obtains (fail) r s' where "x = Some (r, s')" "\<not> succ r" "settled s s'"
  | (ok) r k where "x = Some (r, adv s k)" "succ r" "0 < k" "k \<le> unat (bytes_left s)" "istream_ok (adv s k)"
proof -
  from assms(1) obtain r s' where "x = Some (r, s')" "settled s s'"
      "succ r \<Longrightarrow> \<exists>k. 0 < k \<and> k \<le> unat (bytes_left s) \<and> s' = adv s k"
    by (auto simp: reads_def)
  with assms(2) fail ok show ?thesis by (cases "succ r") (blast intro: istream_ok_adv)+
qed

lemma pb_readbyte_reads: "istream_ok s \<Longrightarrow> reads is_ok (pb_readbyte s) s"
proof (cases "bytes_left s = 0")
  case True
  then show "istream_ok s \<Longrightarrow> ?thesis"
    by (auto simp: pb_readbyte_eof)
next
  case False
  then have "1 \<le> unat (bytes_left s)" using unat_gt_0 [of "bytes_left s"] by simp
  then show "istream_ok s \<Longrightarrow> ?thesis"
    using False by (simp add: pb_readbyte_ok reads_done)
qed

lemma pb_read_buf_reads:
  assumes "istream_ok s" "n \<noteq> 0"
  shows "reads is_ok (pb_read_buf s n) s"
proof (cases "bytes_left s < n")
  case True
  then show ?thesis
    using assms by (auto simp: pb_read_buf_short)
next
  case False
  then have "n \<le> bytes_left s" by simp
  then show ?thesis
    using assms by (simp add: pb_read_buf_ok reads_done unat_gt_0 word_le_nat_alt)
qed

lemma pb_readbyte_istream_ok:
  assumes "istream_ok s"
  obtains (eof) "bytes_left s = 0" "pb_readbyte s = Some (None, iset_error s ''end-of-stream'')"
  | (byte) "pb_readbyte s = Some (Some (hd (istate s)), adv s 1)" "1 \<le> unat (bytes_left s)"
      "istream_ok (adv s 1)"
proof (cases "bytes_left s = 0")
  case False
  then have "1 \<le> unat (bytes_left s)" using unat_gt_0 [of "bytes_left s"] by simp
  with False show ?thesis
    using assms byte pb_readbyte_ok istream_ok_adv by blast
qed (use eof pb_readbyte_eof in blast)

lemma pb_read_null_reads:
  assumes "istream_ok s" "n \<noteq> 0"
  shows "reads (\<lambda>ok. ok) (pb_read_null s n) s"
proof (cases "bytes_left s < n")
  case True
  then show ?thesis
    using assms by (auto simp: pb_read_null_short)
next
  case False
  then have "n \<le> bytes_left s" by simp
  then show ?thesis
    using assms by (simp add: pb_read_null_ok reads_done unat_gt_0 word_le_nat_alt)
qed

lemma varint_loop_reads: "istream_ok s \<Longrightarrow> reads is_ok (varint_loop s result bitpos) s"
proof (induction "unat (bytes_left s)" arbitrary: s result bitpos rule: less_induct)
  case less
  from less.prems show ?case
  proof (cases rule: pb_readbyte_istream_ok)
    case eof
    with less.prems show ?thesis
      by (simp add: varint_loop.simps [of s])
  next
    case byte
    have "reads is_ok (varint_loop (adv s 1) x y) s" for x y
      using byte less by (intro reads_more [of s 1] less.hyps) (simp_all add: unat_pred)
    with byte less.prems show ?thesis
      by (simp add: varint_loop.simps [of s] Let_def reads_done)
  qed
qed

lemma varint32_loop_reads: "istream_ok s \<Longrightarrow> reads is_ok (varint32_loop s result bitpos) s"
proof (induction "unat (bytes_left s)" arbitrary: s result bitpos rule: less_induct)
  case less
  from less.prems show ?case
  proof (cases rule: pb_readbyte_istream_ok)
    case eof
    with less.prems show ?thesis
      by (simp add: varint32_loop.simps [of s])
  next
    case byte
    have "reads is_ok (varint32_loop (adv s 1) x y) s" for x y
      using byte less by (intro reads_more [of s 1] less.hyps) (simp_all add: unat_pred)
    with byte less.prems show ?thesis
      by (simp add: varint32_loop.simps [of s] Let_def reads_done)
  qed
qed

lemma pb_decode_varint_reads: "istream_ok s \<Longrightarrow> reads is_ok (pb_decode_varint s) s"
  unfolding pb_decode_varint_def by (rule varint_loop_reads)

lemma pb_decode_varint32_eof_reads:
  assumes ok: "istream_ok s"
  shows "reads (\<lambda>(r, eof). is_ok r)
      (map_option (\<lambda>(r, eof, s'). ((r, eof), s')) (pb_decode_varint32_eof s)) s"
  using ok
proof (cases rule: pb_readbyte_istream_ok)
  case eof
  with ok show ?thesis
    by (auto simp: pb_decode_varint32_eof_def)
next
  case byte
  let ?b = "hd (istate s)"
  have stl: "settled s s'" if "settled (adv s 1) s'" for s'
    using settled_trans [OF settled_adv that] ok byte by simp
  show ?thesis
  proof (cases "?b AND 0x80 = 0")
    case True
    with byte ok show ?thesis
      by (simp add: pb_decode_varint32_eof_def reads_done)
  next
    case False
    from varint32_loop_reads [OF byte(3)] byte(3) show ?thesis
    proof (cases rule: readsE [where x = "varint32_loop (adv s 1) (ucast (?b AND 0x7F)) 7"])
      case (fail r s')
      with False byte show ?thesis
        by (simp add: pb_decode_varint32_eof_def stl)
    next
      case (ok r k)
      then obtain result bitpos lb where r: "r = Some (result, bitpos, lb)"
        by (auto elim: is_okE)
      have *: "reads (\<lambda>(r, eof). is_ok r) (Some ((Some q, False), adv s (1 + k))) s" for q :: uint32
        using byte ok assms by (intro reads_done) (simp_all add: unat_pred)
      have "settled s (iset_error (adv s (1 + k)) m)" for m
        using ok byte stl [of "adv s (1 + k)"] settled_adv [of "adv s 1" k] by simp
      with ok r False byte * show ?thesis
        by (simp add: pb_decode_varint32_eof_def)
    qed
  qed
qed


lemma pb_decode_varint32_reads: "istream_ok s \<Longrightarrow> reads is_ok (pb_decode_varint32 s) s"
  using pb_decode_varint32_eof_reads [of s]
  by (auto simp: pb_decode_varint32_def reads_def split: prod.splits)

lemma pb_decode_tag_reads:
  assumes ok: "istream_ok s"
  shows "reads (\<lambda>(r, eof). is_ok r)
      (map_option (\<lambda>(r, eof, s'). ((r, eof), s')) (pb_decode_tag s)) s"
proof -
  obtain r eof s' where x: "pb_decode_varint32_eof s = Some (r, eof, s')" "settled s s'"
      "is_ok r \<Longrightarrow> \<exists>k. 0 < k \<and> k \<le> unat (bytes_left s) \<and> s' = adv s k"
    using pb_decode_varint32_eof_reads [OF ok] by (auto simp: reads_def)
  then show ?thesis
    by (cases r) (auto simp: pb_decode_tag_def intro: reads_done [OF ok])
qed

lemma pb_skip_varint_reads: "istream_ok s \<Longrightarrow> reads (\<lambda>ok. ok) (pb_skip_varint s) s"
proof (induction "unat (bytes_left s)" arbitrary: s rule: less_induct)
  case less
  have "reads is_ok (pb_read_buf s 1) s"
    using less.prems by (rule pb_read_buf_reads) simp
  from this less.prems show ?case
  proof (cases rule: readsE)
    case (ok r k)
    have "reads (\<lambda>ok. ok) (pb_skip_varint (adv s k)) s"
      using ok less by (intro reads_more [of s k] less.hyps) (simp_all add: unat_bytes_left_adv)
    with ok less.prems show ?thesis
      by (auto simp: pb_skip_varint.simps [of s] reads_done elim!: is_okE)
  qed (simp_all add: pb_skip_varint.simps [of s])
qed

lemma pb_skip_string_reads:
  assumes ok: "istream_ok s"
  shows "reads (\<lambda>ok. ok) (pb_skip_string s) s"
  using pb_decode_varint32_reads [OF ok] ok
proof (cases rule: readsE)
  case (fail r s')
  then show ?thesis by (simp add: pb_skip_string_def)
next
  case oks: (ok r k)
  then obtain len where r: "r = Some len" by (auto elim: is_okE)
  show ?thesis
  proof (cases "len = 0")
    case True
    with oks r ok show ?thesis
      by (simp add: pb_skip_string_def pb_read_null_def reads_done)
  next
    case False
    then have "(ucast len :: size_t) \<noteq> 0" by (simp add: ucast_u32_eq_0)
    then have "reads (\<lambda>ok. ok) (pb_read_null (adv s k) (ucast len)) s"
      using oks ok by (intro reads_more [of s k] pb_read_null_reads) simp_all
    with oks r show ?thesis by (simp add: pb_skip_string_def)
  qed
qed

lemma pb_skip_field_reads: "istream_ok s \<Longrightarrow> reads (\<lambda>ok. ok) (pb_skip_field s wt) s"
  by (cases wt) (simp_all add: pb_skip_field_def pb_skip_varint_reads pb_skip_string_reads pb_read_null_reads)

lemma pb_decode_svarint_reads:
  assumes "istream_ok s"
  shows "reads is_ok (pb_decode_svarint s) s"
  using pb_decode_varint_reads [OF assms] assms
  by (cases rule: readsE) (auto simp: pb_decode_svarint_def reads_done [OF assms] elim!: is_okE)

lemma pb_decode_fixed32_reads:
  assumes "istream_ok s"
  shows "reads is_ok (pb_decode_fixed32 s) s"
  using pb_read_buf_reads [OF assms, of 4] assms
  by (cases rule: readsE [where x = "pb_read_buf s 4"])
     (auto simp: pb_decode_fixed32_def reads_done [OF assms] elim!: is_okE)

lemma pb_decode_fixed64_reads:
  assumes "istream_ok s"
  shows "reads is_ok (pb_decode_fixed64 s) s"
  using pb_read_buf_reads [OF assms, of 8] assms
  by (cases rule: readsE [where x = "pb_read_buf s 8"])
     (auto simp: pb_decode_fixed64_def reads_done [OF assms] elim!: is_okE)

interpretation rd_byte: reader pb_readbyte is_ok
  by unfold_locales (rule pb_readbyte_reads)

interpretation rd_varint: reader pb_decode_varint is_ok
  by unfold_locales (rule pb_decode_varint_reads)

interpretation rd_varint32: reader pb_decode_varint32 is_ok
  by unfold_locales (rule pb_decode_varint32_reads)

interpretation rd_svarint: reader pb_decode_svarint is_ok
  by unfold_locales (rule pb_decode_svarint_reads)

interpretation rd_fixed32: reader pb_decode_fixed32 is_ok
  by unfold_locales (rule pb_decode_fixed32_reads)

interpretation rd_fixed64: reader pb_decode_fixed64 is_ok
  by unfold_locales (rule pb_decode_fixed64_reads)

interpretation rd_skip: reader "\<lambda>s. pb_skip_field s wt" "\<lambda>ok. ok" for wt
  by unfold_locales (rule pb_skip_field_reads)

end
