(* ===== verification/Pb_Callbacks.thy ===== *)
theory Pb_Callbacks
  imports Pb_Common Pb_Ostream Pb_Istream
begin

text \<open>
  What a program that uses the library supplies: callback functions of callback fields and the
  constant extension types (\<^verbatim>\<open>pb_callback_t\<close>, \<^verbatim>\<open>pb_extension_type_t\<close> and \<^verbatim>\<open>pb_extension_t\<close> of
  \<^verbatim>\<open>pb.h\<close>).  They are parameters of the model, collected in one environment; memory refers to them by
  number.  An encoding callback sees the memory but cannot change it, since the library encodes a
  submessage twice and rejects a callback that does not write the same bytes both times.
\<close>

type_synonym enc_result = "(bool \<times> pb_ostream_t) option"
type_synonym dec_result = "(bool \<times> pb_istream_t \<times> mem) option"

text \<open>The pointer a field callback receives is the address of the member \<^verbatim>\<open>arg\<close>.\<close>

type_synonym encode_callback = "mem \<Rightarrow> pb_ostream_t \<Rightarrow> pb_field_t \<Rightarrow> ptr \<Rightarrow> enc_result"
type_synonym decode_callback = "mem \<Rightarrow> pb_istream_t \<Rightarrow> pb_field_t \<Rightarrow> ptr \<Rightarrow> dec_result"

record pb_extension_type_t =
  ext_decode :: "(mem \<Rightarrow> pb_istream_t \<Rightarrow> ptr \<Rightarrow> uint32 \<Rightarrow> pb_wire_type_t \<Rightarrow> dec_result) option"
  ext_encode :: "(mem \<Rightarrow> pb_ostream_t \<Rightarrow> ptr \<Rightarrow> enc_result) option"
  ext_arg :: "pb_field_t option"

record env =
  encode_cb :: "nat \<Rightarrow> encode_callback option"
  decode_cb :: "nat \<Rightarrow> decode_callback option"
  ext_type :: "nat \<Rightarrow> pb_extension_type_t option"

text \<open>An environment without callbacks and extensions.\<close>

definition no_env :: env where
  "no_env = \<lparr>encode_cb = (\<lambda>_. None), decode_cb = (\<lambda>_. None), ext_type = (\<lambda>_. None)\<rparr>"

text \<open>
  Member offsets on the 64-bit target: \<^verbatim>\<open>pb_callback_t\<close> has \<^verbatim>\<open>funcs\<close> and \<^verbatim>\<open>arg\<close>; \<^verbatim>\<open>pb_extension_t\<close> has
  \<^verbatim>\<open>type\<close>, \<^verbatim>\<open>dest\<close>, \<^verbatim>\<open>next\<close> and \<^verbatim>\<open>found\<close>; \<^verbatim>\<open>pb_bytes_array_t\<close> has \<^verbatim>\<open>size\<close> and \<^verbatim>\<open>bytes\<close>.
\<close>

definition callback_funcs :: "ptr \<Rightarrow> ptr" where "callback_funcs p = p"
definition callback_arg :: "ptr \<Rightarrow> ptr" where "callback_arg p = padd p 8"

definition ext_type_member :: "ptr \<Rightarrow> ptr" where "ext_type_member p = p"
definition ext_dest_member :: "ptr \<Rightarrow> ptr" where "ext_dest_member p = padd p 8"
definition ext_next_member :: "ptr \<Rightarrow> ptr" where "ext_next_member p = padd p 16"
definition ext_found_member :: "ptr \<Rightarrow> ptr" where "ext_found_member p = padd p 24"

definition bytes_size_member :: "ptr \<Rightarrow> ptr" where "bytes_size_member p = p"
definition bytes_bytes_member :: "ptr \<Rightarrow> ptr" where "bytes_bytes_member p = padd p 4"

definition PB_BYTES_ARRAY_T_ALLOCSIZE :: "size_t \<Rightarrow> size_t" where
  "PB_BYTES_ARRAY_T_ALLOCSIZE n = n + 4"

definition load_ext_type :: "env \<Rightarrow> mem \<Rightarrow> ptr \<Rightarrow> pb_extension_type_t option" where
  "load_ext_type e m ext = do {
     q \<leftarrow> load_ptr m (ext_type_member ext);
     case q of Sym k \<Rightarrow> ext_type e k | _ \<Rightarrow> None
   }"

text \<open>The descriptor array a field points to; \<^const>\<open>None\<close> when \<^verbatim>\<open>ptr\<close> is not one.\<close>

definition sub_fields :: "pb_field_t \<Rightarrow> pb_field_t list option" where
  "sub_fields f = (case fptr f of Ptr_fields fs \<Rightarrow> Some fs | _ \<Rightarrow> None)"

text \<open>How deep the submessages of a descriptor nest.\<close>

primrec field_depth :: "pb_field_t \<Rightarrow> nat" and ptr_depth :: "field_ptr \<Rightarrow> nat" where
  "field_depth (Pb_field t ty d so ds a p) = ptr_depth p"
| "ptr_depth Ptr_null = 0"
| "ptr_depth (Ptr_fields fs) = Suc (foldr max (map field_depth fs) 0)"
| "ptr_depth (Ptr_default bs) = 0"

definition fields_depth :: "pb_field_t list \<Rightarrow> nat" where
  "fields_depth fs = foldr max (map field_depth fs) 0"

lemma foldr_max_le: "x \<in> set xs \<Longrightarrow> x \<le> foldr max xs (0 :: nat)"
  by (induction xs) auto

lemma field_depth_le: "f \<in> set fs \<Longrightarrow> field_depth f \<le> fields_depth fs"
  unfolding fields_depth_def by (intro foldr_max_le) simp

lemma sub_fields_depth: "sub_fields f = Some fs \<Longrightarrow> field_depth f = Suc (fields_depth fs)"
  by (cases f) (auto simp: sub_fields_def fields_depth_def split: field_ptr.splits)

end
