(* ===== verification/Pb_Decode.thy ===== *)
theory Pb_Decode
  imports Pb_Callbacks
begin

text \<open>
  The message decoder of \<^verbatim>\<open>pb_decode.c\<close>: default values, the release of allocated fields, static,
  pointer and callback fields, extensions, the main loop with its required-field check, and the
  entry points.  Functions that call each other through \<^verbatim>\<open>pb_decode_noinit\<close> take it as their
  argument \<open>dec\<close>; one fuel bounds the nesting of messages, the rounds of the main loop and of
  callback loops, and the length of extension lists.
\<close>

type_synonym message_decoder = "pb_istream_t \<Rightarrow> mem \<Rightarrow> pb_field_t list \<Rightarrow> ptr \<Rightarrow> dec_result"
type_synonym pb_decoder_t = "pb_istream_t \<Rightarrow> mem \<Rightarrow> pb_field_t \<Rightarrow> ptr \<Rightarrow> dec_result"

definition fail_with :: "pb_istream_t \<Rightarrow> mem \<Rightarrow> string \<Rightarrow> dec_result" where
  "fail_with s m msg = Some (False, iset_error s msg, m)"

subsection \<open>Reading into memory\<close>

text \<open>\<^verbatim>\<open>pb_read\<close>: a null destination only moves the stream.\<close>

definition pb_read :: "pb_istream_t \<Rightarrow> mem \<Rightarrow> ptr \<Rightarrow> size_t \<Rightarrow> dec_result" where
  "pb_read s m p n =
     (if n = 0 then Some (True, s, m)
      else if p = NULL then do { (ok, s) \<leftarrow> pb_read_null s n; Some (ok, s, m) }
      else do {
        (r, s) \<leftarrow> pb_read_buf s n;
        case r of
          None \<Rightarrow> Some (False, s, m)
        | Some bs \<Rightarrow> do { m \<leftarrow> store_bytes m p bs; Some (True, s, m) }
      })"

definition memset_0 :: "mem \<Rightarrow> ptr \<Rightarrow> nat \<Rightarrow> mem option" where
  "memset_0 m p n = store_bytes m p (replicate n 0)"

definition memcpy :: "mem \<Rightarrow> ptr \<Rightarrow> byte list \<Rightarrow> nat \<Rightarrow> mem option" where
  "memcpy m p bs n = (if n \<le> length bs then store_bytes m p (take n bs) else None)"

subsection \<open>Extensions as iterators\<close>

definition iter_from_extension :: "env \<Rightarrow> mem \<Rightarrow> ptr \<Rightarrow> pb_field_iter_t option" where
  "iter_from_extension e m ext = do {
     ty \<leftarrow> load_ext_type e m ext;
     f \<leftarrow> ext_arg ty;
     d \<leftarrow> load_ptr m (ext_dest_member ext);
     (ne, it) \<leftarrow> pb_field_iter_begin [f] d;
     Some (it\<lparr>pData := (if PB_ATYPE (ftype f) = PB_ATYPE_POINTER then ext_dest_member ext else d),
              pSize := ext_found_member ext\<rparr>)
   }"

text \<open>A loop over the extension list that starts at \<open>ext\<close>.\<close>

primrec ext_do :: "nat \<Rightarrow> (ptr \<Rightarrow> mem \<Rightarrow> mem option) \<Rightarrow> ptr \<Rightarrow> mem \<Rightarrow> mem option" where
  "ext_do 0 body ext m = None"
| "ext_do (Suc n) body ext m =
     (if ext = NULL then Some m
      else do { m \<leftarrow> body ext m; nx \<leftarrow> load_ptr m (ext_next_member ext); ext_do n body nx m })"

definition mem_fields ::
  "pb_field_t list \<Rightarrow> ptr \<Rightarrow> (pb_field_iter_t \<Rightarrow> mem \<Rightarrow> mem option) \<Rightarrow> mem \<Rightarrow> mem option" where
  "mem_fields flds base body m =
     map_option snd (for_fields flds base (\<lambda>it m. map_option (Pair True) (body it m)) m)"

subsection \<open>Default values\<close>

definition default_data ::
  "(pb_field_iter_t \<Rightarrow> mem \<Rightarrow> mem option) \<Rightarrow> pb_field_t \<Rightarrow> ptr \<Rightarrow> mem \<Rightarrow> mem option" where
  "default_data fd f pd m =
     (if PB_LTYPE (ftype f) = PB_LTYPE_SUBMESSAGE
      then do { flds \<leftarrow> sub_fields f; mem_fields flds pd fd m }
      else case fptr f of
        Ptr_default bs \<Rightarrow> memcpy m pd bs (unat (data_size f))
      | Ptr_null \<Rightarrow> memset_0 m pd (unat (data_size f))
      | Ptr_fields fs \<Rightarrow> None)"

primrec pb_field_set_to_default :: "nat \<Rightarrow> env \<Rightarrow> pb_field_iter_t \<Rightarrow> mem \<Rightarrow> mem option" where
  "pb_field_set_to_default 0 e it m = None"
| "pb_field_set_to_default (Suc n) e it m = do {
     f \<leftarrow> field_at it;
     let ty = ftype f;
     if PB_LTYPE ty = PB_LTYPE_EXTENSION
     then do {
       ext \<leftarrow> load_ptr m (pData it);
       ext_do n (\<lambda>ext m. do {
           m \<leftarrow> store_u8 m (ext_found_member ext) 0;
           ei \<leftarrow> iter_from_extension e m ext;
           pb_field_set_to_default n e ei m
         }) ext m
     }
     else if PB_ATYPE ty = PB_ATYPE_STATIC
     then (if PB_HTYPE ty = PB_HTYPE_OPTIONAL \<and> pSize it \<noteq> pData it
           then do { m \<leftarrow> store_u8 m (pSize it) 0; default_data (pb_field_set_to_default n e) f (pData it) m }
           else if PB_HTYPE ty = PB_HTYPE_REPEATED \<or> PB_HTYPE ty = PB_HTYPE_ONEOF
           then store_u32 m (pSize it) 0
           else default_data (pb_field_set_to_default n e) f (pData it) m)
     else if PB_ATYPE ty = PB_ATYPE_POINTER
     then do {
       m \<leftarrow> store_ptr m (pData it) NULL;
       if PB_HTYPE ty = PB_HTYPE_REPEATED \<or> PB_HTYPE ty = PB_HTYPE_ONEOF
       then store_u32 m (pSize it) 0 else Some m
     }
     else Some m
   }"

definition pb_message_set_to_defaults :: "nat \<Rightarrow> env \<Rightarrow> pb_field_t list \<Rightarrow> ptr \<Rightarrow> mem \<Rightarrow> mem option" where
  "pb_message_set_to_defaults n e flds dest m = mem_fields flds dest (pb_field_set_to_default n e) m"

subsection \<open>Releasing\<close>

primrec release_items :: "nat \<Rightarrow> (ptr \<Rightarrow> mem \<Rightarrow> mem option) \<Rightarrow> int \<Rightarrow> ptr \<Rightarrow> mem \<Rightarrow> mem option" where
  "release_items 0 rel w p m = Some m"
| "release_items (Suc n) rel w p m = do { m \<leftarrow> rel p m; release_items n rel w (padd p w) m }"

primrec free_items :: "nat \<Rightarrow> ptr \<Rightarrow> mem \<Rightarrow> mem option" where
  "free_items 0 p m = Some m"
| "free_items (Suc n) p m = do {
     q \<leftarrow> load_ptr m p;
     m \<leftarrow> pb_free m q;
     m \<leftarrow> store_ptr m p NULL;
     free_items n (padd p 8) m
   }"

text \<open>The number of submessages in a field; a corrupted count of a static array is cut off.\<close>

definition release_count :: "mem \<Rightarrow> pb_field_t \<Rightarrow> pb_field_iter_t \<Rightarrow> pb_size_t option" where
  "release_count m f it =
     (if PB_HTYPE (ftype f) \<noteq> PB_HTYPE_REPEATED then Some 1
      else do {
        count \<leftarrow> (if PB_ATYPE (ftype f) = PB_ATYPE_STATIC \<and> pSize it = pData it
                 then Some (array_size f) else load_u32 m (pSize it));
        Some (if PB_ATYPE (ftype f) = PB_ATYPE_STATIC \<and> count > array_size f then array_size f else count)
      })"

definition release_pointer :: "pb_field_t \<Rightarrow> pb_field_iter_t \<Rightarrow> mem \<Rightarrow> mem option" where
  "release_pointer f it m =
     (let ty = ftype f in
      if PB_ATYPE ty \<noteq> PB_ATYPE_POINTER then Some m
      else do {
        m \<leftarrow> (if PB_HTYPE ty = PB_HTYPE_REPEATED \<and>
                (PB_LTYPE ty = PB_LTYPE_STRING \<or> PB_LTYPE ty = PB_LTYPE_BYTES)
             then do {
               p \<leftarrow> load_ptr m (pData it);
               count \<leftarrow> load_u32 m (pSize it);
               free_items (unat count) p m
             }
             else Some m);
        m \<leftarrow> (if PB_HTYPE ty = PB_HTYPE_REPEATED then store_u32 m (pSize it) 0 else Some m);
        q \<leftarrow> load_ptr m (pData it);
        m \<leftarrow> pb_free m q;
        store_ptr m (pData it) NULL
      })"

text \<open>
  \<^verbatim>\<open>pb_release\<close> over the release of a single field; a null structure is ignored.
\<close>

definition release_message ::
  "(pb_field_iter_t \<Rightarrow> mem \<Rightarrow> mem option) \<Rightarrow> pb_field_t list \<Rightarrow> ptr \<Rightarrow> mem \<Rightarrow> mem option" where
  "release_message rel flds dest m = (if dest = NULL then Some m else mem_fields flds dest rel m)"

primrec pb_release_single_field :: "nat \<Rightarrow> env \<Rightarrow> pb_field_iter_t \<Rightarrow> mem \<Rightarrow> mem option" where
  "pb_release_single_field 0 e it m = None"
| "pb_release_single_field (Suc n) e it m = do {
     f \<leftarrow> field_at it;
     let ty = ftype f;
     current \<leftarrow> (if PB_HTYPE ty = PB_HTYPE_ONEOF
                then map_option (\<lambda>w. w = tag f) (load_u32 m (pSize it)) else Some True);
     if \<not> current then Some m
     else do {
       m \<leftarrow> (if PB_LTYPE ty = PB_LTYPE_EXTENSION
            then do {
              ext \<leftarrow> load_ptr m (pData it);
              ext_do n (\<lambda>ext m. do {
                  ei \<leftarrow> iter_from_extension e m ext;
                  pb_release_single_field n e ei m
                }) ext m
            }
            else if PB_LTYPE ty = PB_LTYPE_SUBMESSAGE \<and> PB_ATYPE ty \<noteq> PB_ATYPE_CALLBACK
            then do {
              item \<leftarrow> (if PB_ATYPE ty = PB_ATYPE_POINTER then load_ptr m (pData it) else Some (pData it));
              count \<leftarrow> release_count m f it;
              if item = NULL \<or> count = 0 then Some m
              else do {
                flds \<leftarrow> sub_fields f;
                release_items (unat count) (release_message (pb_release_single_field n e) flds)
                  (uint (data_size f)) item m
              }
            }
            else Some m);
       release_pointer f it m
     }
   }"

definition pb_release :: "nat \<Rightarrow> env \<Rightarrow> pb_field_t list \<Rightarrow> ptr \<Rightarrow> mem \<Rightarrow> mem option" where
  "pb_release n e flds dest m = release_message (pb_release_single_field n e) flds dest m"

text \<open>
  \<^verbatim>\<open>pb_release_union_field\<close> walks the iterator to the old field of the union and back.
\<close>

definition pb_release_union_field ::
  "nat \<Rightarrow> env \<Rightarrow> pb_istream_t \<Rightarrow> mem \<Rightarrow> pb_field_iter_t \<Rightarrow> (bool \<times> pb_istream_t \<times> mem \<times> pb_field_iter_t) option" where
  "pb_release_union_field n e s m it = do {
     f \<leftarrow> field_at it;
     old_tag \<leftarrow> load_u32 m (pSize it);
     let new_tag = tag f;
     if old_tag = 0 \<or> old_tag = new_tag then Some (True, s, m, it)
     else do {
       (found, it) \<leftarrow> pb_field_iter_find it old_tag;
       if \<not> found then Some (False, iset_error s ''invalid union tag'', m, it)
       else do {
         m \<leftarrow> pb_release_single_field n e it m;
         (found, it) \<leftarrow> pb_field_iter_find it new_tag;
         if \<not> found then Some (False, iset_error s ''iterator error'', m, it)
         else Some (True, s, m, it)
       }
     }
   }"

subsection \<open>Allocation\<close>

definition allocate_field :: "pb_istream_t \<Rightarrow> mem \<Rightarrow> ptr \<Rightarrow> size_t \<Rightarrow> size_t \<Rightarrow> dec_result" where
  "allocate_field s m pd dsize asize = do {
     p \<leftarrow> load_ptr m pd;
     if dsize = 0 \<or> asize = 0 then fail_with s m ''invalid size''
     else if (dsize \<ge> 2 ^ 32 \<or> asize \<ge> 2 ^ 32) \<and> (- 1) div asize < dsize
     then fail_with s m ''size too large''
     else do {
       (q, m) \<leftarrow> pb_realloc m p (unat (asize * dsize));
       if q = NULL then fail_with s m ''realloc failed''
       else do { m \<leftarrow> store_ptr m pd q; Some (True, s, m) }
     }
   }"

definition initialize_pointer_field :: "nat \<Rightarrow> env \<Rightarrow> pb_field_t \<Rightarrow> ptr \<Rightarrow> mem \<Rightarrow> mem option" where
  "initialize_pointer_field n e f item m =
     (if PB_LTYPE (ftype f) = PB_LTYPE_STRING \<or> PB_LTYPE (ftype f) = PB_LTYPE_BYTES
      then store_ptr m item NULL
      else if PB_LTYPE (ftype f) = PB_LTYPE_SUBMESSAGE
      then do {
        m \<leftarrow> memset_0 m item (unat (data_size f));
        flds \<leftarrow> sub_fields f;
        pb_message_set_to_defaults n e flds item m
      }
      else Some m)"

subsection \<open>Field decoders\<close>

definition pb_dec_bool :: pb_decoder_t where
  "pb_dec_bool s m f dest = do {
     (r, s) \<leftarrow> pb_decode_varint32 s;
     case r of
       None \<Rightarrow> Some (False, s, m)
     | Some v \<Rightarrow> do { m \<leftarrow> store_u8 m dest (if v \<noteq> 0 then 1 else 0); Some (True, s, m) }
   }"

text \<open>
  A store of the low bytes of a value, with the value that reads back; \<open>Some None\<close> for a size that
  is not 1, 2, 4 or 8.
\<close>

definition store_signed :: "mem \<Rightarrow> pb_size_t \<Rightarrow> ptr \<Rightarrow> uint64 \<Rightarrow> (uint64 \<times> mem) option option" where
  "store_signed m sz dest v =
     (if sz = 8 then map_option (\<lambda>m. Some (v, m)) (store_u64 m dest v)
      else if sz = 4 then map_option (\<lambda>m. Some (scast (ucast v :: uint32), m)) (store_u32 m dest (ucast v))
      else if sz = 2 then map_option (\<lambda>m. Some (scast (ucast v :: uint16), m)) (store_u16 m dest (ucast v))
      else if sz = 1 then map_option (\<lambda>m. Some (scast (ucast v :: byte), m)) (store_u8 m dest (ucast v))
      else Some None)"

definition store_unsigned :: "mem \<Rightarrow> pb_size_t \<Rightarrow> ptr \<Rightarrow> uint64 \<Rightarrow> (uint64 \<times> mem) option option" where
  "store_unsigned m sz dest v =
     (if sz = 8 then map_option (\<lambda>m. Some (v, m)) (store_u64 m dest v)
      else if sz = 4 then map_option (\<lambda>m. Some (ucast (ucast v :: uint32), m)) (store_u32 m dest (ucast v))
      else if sz = 2 then map_option (\<lambda>m. Some (ucast (ucast v :: uint16), m)) (store_u16 m dest (ucast v))
      else if sz = 1 then map_option (\<lambda>m. Some (ucast (ucast v :: byte), m)) (store_u8 m dest (ucast v))
      else Some None)"

definition check_clamped :: "pb_istream_t \<Rightarrow> mem \<Rightarrow> uint64 \<Rightarrow> (uint64 \<times> mem) option option \<Rightarrow> dec_result" where
  "check_clamped s m v st = do {
     r \<leftarrow> st;
     case r of
       None \<Rightarrow> fail_with s m ''invalid data_size''
     | Some (clamped, m) \<Rightarrow>
         (if clamped \<noteq> v then fail_with s m ''integer too large'' else Some (True, s, m))
   }"

definition pb_dec_varint :: pb_decoder_t where
  "pb_dec_varint s m f dest = do {
     (r, s) \<leftarrow> pb_decode_varint s;
     case r of
       None \<Rightarrow> Some (False, s, m)
     | Some v \<Rightarrow>
         (let sv = (if data_size f = 8 then v else scast (ucast v :: uint32))
          in check_clamped s m sv (store_signed m (data_size f) dest sv))
   }"

definition pb_dec_uvarint :: pb_decoder_t where
  "pb_dec_uvarint s m f dest = do {
     (r, s) \<leftarrow> pb_decode_varint s;
     case r of
       None \<Rightarrow> Some (False, s, m)
     | Some v \<Rightarrow> check_clamped s m v (store_unsigned m (data_size f) dest v)
   }"

definition pb_dec_svarint :: pb_decoder_t where
  "pb_dec_svarint s m f dest = do {
     (r, s) \<leftarrow> pb_decode_svarint s;
     case r of
       None \<Rightarrow> Some (False, s, m)
     | Some v \<Rightarrow> check_clamped s m v (store_signed m (data_size f) dest v)
   }"

definition pb_dec_fixed32 :: pb_decoder_t where
  "pb_dec_fixed32 s m f dest = do {
     (r, s) \<leftarrow> pb_decode_fixed32 s;
     case r of None \<Rightarrow> Some (False, s, m) | Some v \<Rightarrow> do { m \<leftarrow> store_u32 m dest v; Some (True, s, m) }
   }"

definition pb_dec_fixed64 :: pb_decoder_t where
  "pb_dec_fixed64 s m f dest = do {
     (r, s) \<leftarrow> pb_decode_fixed64 s;
     case r of None \<Rightarrow> Some (False, s, m) | Some v \<Rightarrow> do { m \<leftarrow> store_u64 m dest v; Some (True, s, m) }
   }"

definition pb_dec_bytes :: pb_decoder_t where
  "pb_dec_bytes s m f dest = do {
     (r, s) \<leftarrow> pb_decode_varint32 s;
     case r of
       None \<Rightarrow> Some (False, s, m)
     | Some sz \<Rightarrow>
         (let alloc_size = PB_BYTES_ARRAY_T_ALLOCSIZE (ucast sz) in
          if sz > PB_SIZE_MAX then fail_with s m ''bytes overflow''
          else if ucast sz > alloc_size then fail_with s m ''size too large''
          else do {
            (ok, s, m) \<leftarrow>
              (if PB_ATYPE (ftype f) = PB_ATYPE_POINTER then allocate_field s m dest alloc_size 1
               else if alloc_size > ucast (data_size f) then fail_with s m ''bytes overflow''
               else Some (True, s, m));
            if \<not> ok then Some (False, s, m)
            else do {
              bdest \<leftarrow> (if PB_ATYPE (ftype f) = PB_ATYPE_POINTER then load_ptr m dest else Some dest);
              m \<leftarrow> store_u32 m (bytes_size_member bdest) sz;
              pb_read s m (bytes_bytes_member bdest) (ucast sz)
            }
          })
   }"

text \<open>The terminator of a string is written even when its bytes could not be read.\<close>

definition pb_dec_string :: pb_decoder_t where
  "pb_dec_string s m f dest = do {
     (r, s) \<leftarrow> pb_decode_varint32 s;
     case r of
       None \<Rightarrow> Some (False, s, m)
     | Some sz \<Rightarrow>
         (let alloc_size = (ucast (sz + 1) :: size_t) in
          if alloc_size < ucast sz then fail_with s m ''size too large''
          else do {
            (ok, s, m) \<leftarrow>
              (if PB_ATYPE (ftype f) = PB_ATYPE_POINTER then allocate_field s m dest alloc_size 1
               else if alloc_size > ucast (data_size f) then fail_with s m ''string overflow''
               else Some (True, s, m));
            if \<not> ok then Some (False, s, m)
            else do {
              dest \<leftarrow> (if PB_ATYPE (ftype f) = PB_ATYPE_POINTER then load_ptr m dest else Some dest);
              (status, s, m) \<leftarrow> pb_read s m dest (ucast sz);
              m \<leftarrow> store_u8 m (padd dest (uint sz)) 0;
              Some (status, s, m)
            }
          })
   }"

definition pb_dec_fixed_length_bytes :: pb_decoder_t where
  "pb_dec_fixed_length_bytes s m f dest = do {
     (r, s) \<leftarrow> pb_decode_varint32 s;
     case r of
       None \<Rightarrow> Some (False, s, m)
     | Some sz \<Rightarrow>
         (if sz > PB_SIZE_MAX then fail_with s m ''bytes overflow''
          else if sz = 0 then do { m \<leftarrow> memset_0 m dest (unat (data_size f)); Some (True, s, m) }
          else if sz \<noteq> data_size f then fail_with s m ''incorrect fixed length bytes size''
          else pb_read s m dest (ucast (data_size f)))
   }"

text \<open>
  \<open>decode_with\<close> is \<^verbatim>\<open>pb_decode\<close> over the decoder \<open>dec\<close> of messages that are already initialized.
\<close>

definition decode_with :: "nat \<Rightarrow> env \<Rightarrow> message_decoder \<Rightarrow> message_decoder" where
  "decode_with n e dec s m flds dest = do {
     m \<leftarrow> pb_message_set_to_defaults n e flds dest m;
     (status, s, m) \<leftarrow> dec s m flds dest;
     if status then Some (True, s, m)
     else do { m \<leftarrow> pb_release n e flds dest m; Some (False, s, m) }
   }"

definition pb_dec_submessage :: "nat \<Rightarrow> env \<Rightarrow> message_decoder \<Rightarrow> pb_decoder_t" where
  "pb_dec_submessage n e dec s m f dest = do {
     (r, s) \<leftarrow> pb_make_string_substream s;
     case r of
       None \<Rightarrow> Some (False, s, m)
     | Some sub \<Rightarrow>
         (case fptr f of
            Ptr_null \<Rightarrow> fail_with s m ''invalid field descriptor''
          | Ptr_default bs \<Rightarrow> None
          | Ptr_fields flds \<Rightarrow> do {
              (status, sub, m) \<leftarrow>
                (if PB_HTYPE (ftype f) = PB_HTYPE_REPEATED then decode_with n e dec sub m flds dest
                 else dec sub m flds dest);
              (ok, s) \<leftarrow> pb_close_string_substream s sub;
              if \<not> ok then Some (False, s, m) else Some (status, s, m)
            })
   }"

definition PB_DECODERS :: "nat \<Rightarrow> env \<Rightarrow> message_decoder \<Rightarrow> pb_decoder_t option list" where
  "PB_DECODERS n e dec =
     [Some pb_dec_bool, Some pb_dec_varint, Some pb_dec_uvarint, Some pb_dec_svarint,
      Some pb_dec_fixed32, Some pb_dec_fixed64, Some pb_dec_bytes, Some pb_dec_string,
      Some (pb_dec_submessage n e dec), None, Some pb_dec_fixed_length_bytes]"

definition call_decoder :: "pb_decoder_t option \<Rightarrow> pb_decoder_t" where
  "call_decoder func s m f dest = (case func of None \<Rightarrow> None | Some g \<Rightarrow> g s m f dest)"

text \<open>The entry point for a single boolean.\<close>

definition pb_decode_bool :: "pb_istream_t \<Rightarrow> mem \<Rightarrow> ptr \<Rightarrow> dec_result" where
  "pb_decode_bool s m dest = pb_dec_bool s m PB_LAST_FIELD dest"

subsection \<open>Static fields\<close>

text \<open>The address of an array entry; the product is computed with 32 bits.\<close>

definition item_address :: "pb_field_t \<Rightarrow> ptr \<Rightarrow> pb_size_t \<Rightarrow> ptr" where
  "item_address f base i = padd base (uint (data_size f * i))"

primrec packed_static ::
  "nat \<Rightarrow> pb_decoder_t option \<Rightarrow> pb_istream_t \<Rightarrow> mem \<Rightarrow> pb_field_t \<Rightarrow> ptr \<Rightarrow> ptr \<Rightarrow> dec_result" where
  "packed_static 0 func sub m f pd ps = None"
| "packed_static (Suc n) func sub m f pd ps =
     (if bytes_left sub = 0 then Some (True, sub, m)
      else do {
        size \<leftarrow> load_u32 m ps;
        if \<not> size < array_size f then Some (True, sub, m)
        else do {
          (ok, sub, m) \<leftarrow> call_decoder func sub m f (item_address f pd size);
          if \<not> ok then Some (False, sub, m)
          else do {
            size \<leftarrow> load_u32 m ps;
            m \<leftarrow> store_u32 m ps (size + 1);
            packed_static n func sub m f pd ps
          }
        }
      })"

definition decode_static_field ::
  "nat \<Rightarrow> env \<Rightarrow> message_decoder \<Rightarrow> pb_istream_t \<Rightarrow> mem \<Rightarrow> pb_wire_type_t \<Rightarrow> pb_field_iter_t \<Rightarrow> dec_result" where
  "decode_static_field n e dec s m wt it = do {
     f \<leftarrow> field_at it;
     let ty = ftype f;
     func \<leftarrow> nth_opt (PB_DECODERS n e dec) (unat (PB_LTYPE ty));
     if PB_HTYPE ty = PB_HTYPE_REQUIRED then call_decoder func s m f (pData it)
     else if PB_HTYPE ty = PB_HTYPE_OPTIONAL
     then do {
       m \<leftarrow> (if pSize it \<noteq> pData it then store_u8 m (pSize it) 1 else Some m);
       call_decoder func s m f (pData it)
     }
     else if PB_HTYPE ty = PB_HTYPE_REPEATED
     then (if wt = PB_WT_STRING \<and> PB_LTYPE ty \<le> PB_LTYPE_LAST_PACKABLE
           then do {
             (r, s) \<leftarrow> pb_make_string_substream s;
             case r of
               None \<Rightarrow> Some (False, s, m)
             | Some sub \<Rightarrow> do {
                 (status, sub, m) \<leftarrow> packed_static n func sub m f (pData it) (pSize it);
                 if bytes_left sub \<noteq> 0 then fail_with s m ''array overflow''
                 else do {
                   (ok, s) \<leftarrow> pb_close_string_substream s sub;
                   if \<not> ok then Some (False, s, m) else Some (status, s, m)
                 }
               }
           }
           else do {
             size \<leftarrow> load_u32 m (pSize it);
             m \<leftarrow> store_u32 m (pSize it) (size + 1);
             if size \<ge> array_size f then fail_with s m ''array overflow''
             else call_decoder func s m f (item_address f (pData it) size)
           })
     else do {
       m \<leftarrow> store_u32 m (pSize it) (tag f);
       m \<leftarrow> (if PB_LTYPE ty = PB_LTYPE_SUBMESSAGE
            then do {
              m \<leftarrow> memset_0 m (pData it) (unat (data_size f));
              flds \<leftarrow> sub_fields f;
              pb_message_set_to_defaults n e flds (pData it) m
            }
            else Some m);
       call_decoder func s m f (pData it)
     }
   }"

subsection \<open>Pointer fields\<close>

text \<open>
  The loop over a packed array behind a pointer.  \<open>allocated\<close> is the number of entries the array has
  room for.  The message for too many entries goes to the parent stream; the result pairs the
  substream with the parent.
\<close>

primrec packed_pointer ::
  "nat \<Rightarrow> nat \<Rightarrow> env \<Rightarrow> pb_decoder_t option \<Rightarrow> pb_istream_t \<Rightarrow> pb_istream_t \<Rightarrow> mem \<Rightarrow> pb_field_t \<Rightarrow> ptr \<Rightarrow> ptr \<Rightarrow> size_t \<Rightarrow>
   (bool \<times> pb_istream_t \<times> pb_istream_t \<times> mem) option" where
  "packed_pointer 0 k e func s sub m f pd ps allocated = None"
| "packed_pointer (Suc n) k e func s sub m f pd ps allocated =
     (if bytes_left sub = 0 then Some (True, sub, s, m)
      else do {
        size \<leftarrow> load_u32 m ps;
        if size = PB_SIZE_MAX
        then Some (False, sub, s\<lparr>ierrmsg := Some ''too many array entries''\<rparr>, m)
        else do {
          (ok, sub, m, allocated) \<leftarrow>
            (if ucast size + 1 > allocated
             then (if data_size f = 0 then None
                   else do {
                     let remain = (bytes_left sub - 1) div ucast (data_size f) + 1;
                     let allocated = (if remain < ucast PB_SIZE_MAX - allocated
                                      then allocated + remain else allocated + 1);
                     (ok, sub, m) \<leftarrow> allocate_field sub m pd (ucast (data_size f)) allocated;
                     Some (ok, sub, m, allocated)
                   })
             else Some (True, sub, m, allocated));
          if \<not> ok then Some (False, sub, s, m)
          else do {
            base \<leftarrow> load_ptr m pd;
            let item = item_address f base size;
            m \<leftarrow> initialize_pointer_field k e f item m;
            (ok, sub, m) \<leftarrow> call_decoder func sub m f item;
            if \<not> ok then Some (False, sub, s, m)
            else do {
              size \<leftarrow> load_u32 m ps;
              m \<leftarrow> store_u32 m ps (size + 1);
              packed_pointer n k e func s sub m f pd ps allocated
            }
          }
        }
      })"

definition decode_pointer_field ::
  "nat \<Rightarrow> env \<Rightarrow> message_decoder \<Rightarrow> pb_istream_t \<Rightarrow> mem \<Rightarrow> pb_wire_type_t \<Rightarrow> pb_field_iter_t \<Rightarrow> dec_result" where
  "decode_pointer_field n e dec s m wt it = do {
     f \<leftarrow> field_at it;
     let ty = ftype f;
     func \<leftarrow> nth_opt (PB_DECODERS n e dec) (unat (PB_LTYPE ty));
     if PB_HTYPE ty \<noteq> PB_HTYPE_REPEATED
     then do {
       old \<leftarrow> (if PB_LTYPE ty = PB_LTYPE_SUBMESSAGE then load_ptr m (pData it) else Some NULL);
       m \<leftarrow> (if old \<noteq> NULL then pb_release_single_field n e it m else Some m);
       m \<leftarrow> (if PB_HTYPE ty = PB_HTYPE_ONEOF then store_u32 m (pSize it) (tag f) else Some m);
       if PB_LTYPE ty = PB_LTYPE_STRING \<or> PB_LTYPE ty = PB_LTYPE_BYTES
       then call_decoder func s m f (pData it)
       else do {
         (ok, s, m) \<leftarrow> allocate_field s m (pData it) (ucast (data_size f)) 1;
         if \<not> ok then Some (False, s, m)
         else do {
           p \<leftarrow> load_ptr m (pData it);
           m \<leftarrow> initialize_pointer_field n e f p m;
           p \<leftarrow> load_ptr m (pData it);
           call_decoder func s m f p
         }
       }
     }
     else if wt = PB_WT_STRING \<and> PB_LTYPE ty \<le> PB_LTYPE_LAST_PACKABLE
     then do {
       size \<leftarrow> load_u32 m (pSize it);
       (r, s) \<leftarrow> pb_make_string_substream s;
       case r of
         None \<Rightarrow> Some (False, s, m)
       | Some sub \<Rightarrow> do {
           (status, sub, s, m) \<leftarrow> packed_pointer n n e func s sub m f (pData it) (pSize it) (ucast size);
           (ok, s) \<leftarrow> pb_close_string_substream s sub;
           if \<not> ok then Some (False, s, m) else Some (status, s, m)
         }
     }
     else do {
       size \<leftarrow> load_u32 m (pSize it);
       if size = PB_SIZE_MAX then fail_with s m ''too many array entries''
       else do {
         (ok, s, m) \<leftarrow> allocate_field s m (pData it) (ucast (data_size f)) (ucast (size + 1));
         if \<not> ok then Some (False, s, m)
         else do {
           base \<leftarrow> load_ptr m (pData it);
           let item = item_address f base size;
           m \<leftarrow> store_u32 m (pSize it) (size + 1);
           m \<leftarrow> initialize_pointer_field n e f item m;
           call_decoder func s m f item
         }
       }
     }
   }"

subsection \<open>Callback fields\<close>

primrec callback_loop ::
  "nat \<Rightarrow> decode_callback \<Rightarrow> pb_istream_t \<Rightarrow> mem \<Rightarrow> pb_field_t \<Rightarrow> ptr \<Rightarrow> dec_result" where
  "callback_loop 0 g sub m f arg = None"
| "callback_loop (Suc n) g sub m f arg = do {
     (ok, sub, m) \<leftarrow> g m sub f arg;
     if \<not> ok then Some (False, sub, m)
     else if bytes_left sub = 0 then Some (True, sub, m)
     else callback_loop n g sub m f arg
   }"

definition decode_callback_field ::
  "nat \<Rightarrow> env \<Rightarrow> pb_istream_t \<Rightarrow> mem \<Rightarrow> pb_wire_type_t \<Rightarrow> pb_field_iter_t \<Rightarrow> dec_result" where
  "decode_callback_field n e s m wt it = do {
     f \<leftarrow> field_at it;
     q \<leftarrow> (if pData it = NULL then Some NULL else load_ptr m (callback_funcs (pData it)));
     case q of
       NULL \<Rightarrow> do { (ok, s) \<leftarrow> pb_skip_field s wt; Some (ok, s, m) }
     | Sym k \<Rightarrow> do {
         g \<leftarrow> decode_cb e k;
         let arg = callback_arg (pData it);
         if wt = PB_WT_STRING
         then do {
           (r, s) \<leftarrow> pb_make_string_substream s;
           case r of
             None \<Rightarrow> Some (False, s, m)
           | Some sub \<Rightarrow> do {
               (ok, sub, m) \<leftarrow> callback_loop n g sub m f arg;
               if \<not> ok then fail_with s m ''callback failed''
               else do {
                 (ok, s) \<leftarrow> pb_close_string_substream s sub;
                 Some (ok, s, m)
               }
             }
         }
         else do {
           (r, s) \<leftarrow> read_raw_value s wt 10;
           case r of
             None \<Rightarrow> Some (False, s, m)
           | Some buf \<Rightarrow> do {
               (ok, sub, m) \<leftarrow> g m (pb_istream_from_buffer buf (of_nat (length buf))) f arg;
               Some (ok, s, m)
             }
         }
       }
     | _ \<Rightarrow> None
   }"

subsection \<open>Any field\<close>

definition decode_field ::
  "nat \<Rightarrow> env \<Rightarrow> message_decoder \<Rightarrow> pb_istream_t \<Rightarrow> mem \<Rightarrow> pb_wire_type_t \<Rightarrow> pb_field_iter_t \<Rightarrow>
   (bool \<times> pb_istream_t \<times> mem \<times> pb_field_iter_t) option" where
  "decode_field n e dec s m wt it = do {
     f \<leftarrow> field_at it;
     (ok, s, m, it) \<leftarrow>
       (if PB_HTYPE (ftype f) = PB_HTYPE_ONEOF then pb_release_union_field n e s m it
        else Some (True, s, m, it));
     if \<not> ok then Some (False, s, m, it)
     else do {
       f \<leftarrow> field_at it;
       (ok, s, m) \<leftarrow>
         (if PB_ATYPE (ftype f) = PB_ATYPE_STATIC then decode_static_field n e dec s m wt it
          else if PB_ATYPE (ftype f) = PB_ATYPE_POINTER then decode_pointer_field n e dec s m wt it
          else if PB_ATYPE (ftype f) = PB_ATYPE_CALLBACK then decode_callback_field n e s m wt it
          else fail_with s m ''invalid field type'');
       Some (ok, s, m, it)
     }
   }"

subsection \<open>Extensions\<close>

definition default_extension_decoder ::
  "nat \<Rightarrow> env \<Rightarrow> message_decoder \<Rightarrow> pb_istream_t \<Rightarrow> mem \<Rightarrow> ptr \<Rightarrow> uint32 \<Rightarrow> pb_wire_type_t \<Rightarrow> dec_result" where
  "default_extension_decoder n e dec s m ext t wt = do {
     ty \<leftarrow> load_ext_type e m ext;
     f \<leftarrow> ext_arg ty;
     if tag f \<noteq> t then Some (True, s, m)
     else do {
       it \<leftarrow> iter_from_extension e m ext;
       m \<leftarrow> store_u8 m (ext_found_member ext) 1;
       (ok, s, m, it) \<leftarrow> decode_field n e dec s m wt it;
       Some (ok, s, m)
     }
   }"

primrec decode_extension_loop ::
  "nat \<Rightarrow> nat \<Rightarrow> env \<Rightarrow> message_decoder \<Rightarrow> size_t \<Rightarrow> pb_istream_t \<Rightarrow> mem \<Rightarrow> ptr \<Rightarrow> uint32 \<Rightarrow> pb_wire_type_t \<Rightarrow> dec_result" where
  "decode_extension_loop 0 k e dec p s m ext t wt = None"
| "decode_extension_loop (Suc n) k e dec p s m ext t wt =
     (if ext = NULL \<or> p \<noteq> bytes_left s then Some (True, s, m)
      else do {
        ty \<leftarrow> load_ext_type e m ext;
        (status, s, m) \<leftarrow>
          (case ext_decode ty of
             Some g \<Rightarrow> g m s ext t wt
           | None \<Rightarrow> default_extension_decoder k e dec s m ext t wt);
        if \<not> status then Some (False, s, m)
        else do {
          nx \<leftarrow> load_ptr m (ext_next_member ext);
          decode_extension_loop n k e dec p s m nx t wt
        }
      })"

definition decode_extension ::
  "nat \<Rightarrow> env \<Rightarrow> message_decoder \<Rightarrow> pb_istream_t \<Rightarrow> mem \<Rightarrow> uint32 \<Rightarrow> pb_wire_type_t \<Rightarrow> pb_field_iter_t \<Rightarrow> dec_result" where
  "decode_extension n e dec s m t wt it = do {
     ext \<leftarrow> load_ptr m (pData it);
     decode_extension_loop n n e dec (bytes_left s) s m ext t wt
   }"

primrec find_extension_loop :: "nat \<Rightarrow> nat \<Rightarrow> pb_field_iter_t \<Rightarrow> (bool \<times> pb_field_iter_t) option" where
  "find_extension_loop 0 st it = None"
| "find_extension_loop (Suc n) st it = do {
     f \<leftarrow> field_at it;
     if PB_LTYPE (ftype f) = PB_LTYPE_EXTENSION then Some (True, it)
     else do {
       (ne, it) \<leftarrow> pb_field_iter_next it;
       if pos it \<noteq> st then find_extension_loop n st it else Some (False, it)
     }
   }"

definition find_extension_field :: "pb_field_iter_t \<Rightarrow> (bool \<times> pb_field_iter_t) option" where
  "find_extension_field it = find_extension_loop (length (start it)) (pos it) it"

subsection \<open>The main loop\<close>

text \<open>
  The local variables of \<^verbatim>\<open>pb_decode_noinit\<close>.  \<open>fixed_count_size\<close> has its address taken and lives in a
  block of its own; \<open>fixed_count_field\<close> is a position in the descriptor array.
\<close>

record decode_state =
  stream :: pb_istream_t
  memory :: mem
  iter :: pb_field_iter_t
  fields_seen :: "uint32 list"
  extension_range_start :: uint32
  fixed_count_field :: "nat option"

datatype flow = Next | Break | Return_false

definition with_sm :: "decode_state \<Rightarrow> pb_istream_t \<Rightarrow> mem \<Rightarrow> decode_state" where
  "with_sm st s m = st\<lparr>stream := s, memory := m\<rparr>"

text \<open>The branch for a tag that no field has.\<close>

definition decode_unknown ::
  "nat \<Rightarrow> env \<Rightarrow> message_decoder \<Rightarrow> decode_state \<Rightarrow> uint32 \<Rightarrow> pb_wire_type_t \<Rightarrow> (flow \<times> decode_state) option" where
  "decode_unknown n e dec st t wt = do {
     let skip = (\<lambda>st. do {
           (ok, s) \<leftarrow> pb_skip_field (stream st) wt;
           Some (if ok then Next else Return_false, st\<lparr>stream := s\<rparr>)
         });
     if t \<ge> extension_range_start st
     then do {
       (found, it) \<leftarrow> find_extension_field (iter st);
       f \<leftarrow> field_at it;
       let st = st\<lparr>iter := it, extension_range_start := (if found then tag f else - 1)\<rparr>;
       if t \<ge> extension_range_start st
       then do {
         (ok, s, m) \<leftarrow> decode_extension n e dec (stream st) (memory st) t wt (iter st);
         let left0 = bytes_left (stream st);
         let st = with_sm st s m;
         if \<not> ok then Some (Return_false, st)
         else if left0 \<noteq> bytes_left s then Some (Next, st)
         else skip st
       }
       else skip st
     }
     else skip st
   }"

definition fixed_count_complete :: "decode_state \<Rightarrow> ptr \<Rightarrow> bool option" where
  "fixed_count_complete st fcs =
     (case fixed_count_field st of
        None \<Rightarrow> Some True
      | Some i \<Rightarrow> do {
          g \<leftarrow> nth_opt (start (iter st)) i;
          size \<leftarrow> load_u32 (memory st) fcs;
          Some (size = array_size g)
        })"

text \<open>Repeated fields with a fixed count have no counter in the structure.\<close>

definition enter_fixed_count :: "decode_state \<Rightarrow> ptr \<Rightarrow> pb_field_t \<Rightarrow> (bool \<times> decode_state) option" where
  "enter_fixed_count st fcs f =
     (if PB_HTYPE (ftype f) = PB_HTYPE_REPEATED \<and> pSize (iter st) = pData (iter st)
      then do {
        (ok, st) \<leftarrow>
          (if fixed_count_field st \<noteq> Some (pos (iter st))
           then do {
             complete \<leftarrow> fixed_count_complete st fcs;
             if \<not> complete
             then Some (False, st\<lparr>stream := iset_error (stream st) ''wrong size for fixed count field''\<rparr>)
             else do {
               m \<leftarrow> store_u32 (memory st) fcs 0;
               Some (True, st\<lparr>memory := m, fixed_count_field := Some (pos (iter st))\<rparr>)
             }
           }
           else Some (True, st));
        Some (ok, if ok then st\<lparr>iter := (iter st)\<lparr>pSize := fcs\<rparr>\<rparr> else st)
      }
      else Some (True, st))"

definition mark_seen :: "decode_state \<Rightarrow> pb_field_t \<Rightarrow> decode_state" where
  "mark_seen st f =
     (let i = required_field_index (iter st) in
      if PB_HTYPE (ftype f) = PB_HTYPE_REQUIRED \<and> i < PB_MAX_REQUIRED_FIELDS
      then st\<lparr>fields_seen := (fields_seen st)[i div 32 := fields_seen st ! (i div 32) OR push_bit (i mod 32) 1]\<rparr>
      else st)"

definition decode_one ::
  "nat \<Rightarrow> env \<Rightarrow> message_decoder \<Rightarrow> ptr \<Rightarrow> decode_state \<Rightarrow> (flow \<times> decode_state) option" where
  "decode_one n e dec fcs st = do {
     (r, eof, s) \<leftarrow> pb_decode_tag (stream st);
     let st = st\<lparr>stream := s\<rparr>;
     case r of
       None \<Rightarrow> Some (if eof then Break else Return_false, st)
     | Some (wt, t) \<Rightarrow> do {
         (found, it) \<leftarrow> pb_field_iter_find (iter st) t;
         let st = st\<lparr>iter := it\<rparr>;
         if \<not> found then decode_unknown n e dec st t wt
         else do {
           f \<leftarrow> field_at it;
           (ok, st) \<leftarrow> enter_fixed_count st fcs f;
           if \<not> ok then Some (Return_false, st)
           else do {
             let st = mark_seen st f;
             (ok, s, m, it) \<leftarrow> decode_field n e dec (stream st) (memory st) wt (iter st);
             Some (if ok then Next else Return_false, (with_sm st s m)\<lparr>iter := it\<rparr>)
           }
         }
       }
   }"

primrec decode_loop ::
  "nat \<Rightarrow> nat \<Rightarrow> env \<Rightarrow> message_decoder \<Rightarrow> ptr \<Rightarrow> decode_state \<Rightarrow> (bool \<times> decode_state) option" where
  "decode_loop 0 k e dec fcs st = None"
| "decode_loop (Suc n) k e dec fcs st =
     (if bytes_left (stream st) = 0 then Some (True, st)
      else do {
        (fl, st) \<leftarrow> decode_one k e dec fcs st;
        case fl of
          Next \<Rightarrow> decode_loop n k e dec fcs st
        | Break \<Rightarrow> Some (True, st)
        | Return_false \<Rightarrow> Some (False, st)
      })"

text \<open>
  The number of required fields, found by seeking from the current position to the end of the
  array; then the check of the seen bits, word by word.
\<close>

primrec seek_end :: "nat \<Rightarrow> pb_field_iter_t \<Rightarrow> (nat \<times> pb_type_t \<times> pb_field_iter_t) option" where
  "seek_end 0 it = None"
| "seek_end (Suc n) it = do {
     f \<leftarrow> field_at it;
     (ne, it') \<leftarrow> pb_field_iter_next it;
     if ne then seek_end n it' else Some (required_field_index it, ftype f, it')
   }"

definition required_count :: "pb_field_iter_t \<Rightarrow> nat option" where
  "required_count it = do {
     (req, last_type, it) \<leftarrow> seek_end (length (start it)) it;
     f \<leftarrow> field_at it;
     let req = (if PB_HTYPE last_type = PB_HTYPE_REQUIRED \<and> tag f \<noteq> 0 then req + 1 else req);
     Some (min req PB_MAX_REQUIRED_FIELDS)
   }"

definition all_seen :: "uint32 list \<Rightarrow> nat \<Rightarrow> bool" where
  "all_seen seen req \<longleftrightarrow>
     req = 0 \<or>
     ((\<forall>i \<in> set [0..<req div 32]. seen ! i = - 1) \<and>
      (req mod 32 \<noteq> 0 \<longrightarrow> seen ! (req div 32) = drop_bit (32 - req mod 32) (- 1)))"

definition decode_checks :: "decode_state \<Rightarrow> ptr \<Rightarrow> (bool \<times> decode_state) option" where
  "decode_checks st fcs = do {
     complete \<leftarrow> fixed_count_complete st fcs;
     if \<not> complete
     then Some (False, st\<lparr>stream := iset_error (stream st) ''wrong size for fixed count field''\<rparr>)
     else do {
       req \<leftarrow> required_count (iter st);
       if all_seen (fields_seen st) req then Some (True, st)
       else Some (False, st\<lparr>stream := iset_error (stream st) ''missing required field''\<rparr>)
     }
   }"

definition noinit_body ::
  "nat \<Rightarrow> env \<Rightarrow> message_decoder \<Rightarrow> message_decoder" where
  "noinit_body n e dec s m flds dest = do {
     let b = length (blocks m);
     let (fcs, m) = new_block m False 4;
     m \<leftarrow> store_u32 m fcs 0;
     (ne, it) \<leftarrow> pb_field_iter_begin flds dest;
     (ok, st) \<leftarrow> decode_loop n n e dec fcs
       \<lparr>stream = s, memory = m, iter = it, fields_seen = [0, 0], extension_range_start = 0,
        fixed_count_field = None\<rparr>;
     (ok, st) \<leftarrow> (if ok then decode_checks st fcs else Some (False, st));
     Some (ok, stream st, kill_block (memory st) b)
   }"

primrec pb_decode_noinit :: "nat \<Rightarrow> env \<Rightarrow> message_decoder" where
  "pb_decode_noinit 0 e s m flds dest = None"
| "pb_decode_noinit (Suc n) e s m flds dest = noinit_body n e (pb_decode_noinit n e) s m flds dest"

subsection \<open>Entry points\<close>

definition pb_decode :: "nat \<Rightarrow> env \<Rightarrow> message_decoder" where
  "pb_decode n e s m flds dest = decode_with n e (pb_decode_noinit n e) s m flds dest"

definition pb_decode_delimited_noinit :: "nat \<Rightarrow> env \<Rightarrow> message_decoder" where
  "pb_decode_delimited_noinit n e s m flds dest = do {
     (r, s) \<leftarrow> pb_make_string_substream s;
     case r of
       None \<Rightarrow> Some (False, s, m)
     | Some sub \<Rightarrow> do {
         (status, sub, m) \<leftarrow> pb_decode_noinit n e sub m flds dest;
         (ok, s) \<leftarrow> pb_close_string_substream s sub;
         if \<not> ok then Some (False, s, m) else Some (status, s, m)
       }
   }"

definition pb_decode_delimited :: "nat \<Rightarrow> env \<Rightarrow> message_decoder" where
  "pb_decode_delimited n e s m flds dest = do {
     (r, s) \<leftarrow> pb_make_string_substream s;
     case r of
       None \<Rightarrow> Some (False, s, m)
     | Some sub \<Rightarrow> do {
         (status, sub, m) \<leftarrow> pb_decode n e sub m flds dest;
         (ok, s) \<leftarrow> pb_close_string_substream s sub;
         if \<not> ok then Some (False, s, m) else Some (status, s, m)
       }
   }"

definition pb_decode_nullterminated :: "nat \<Rightarrow> env \<Rightarrow> message_decoder" where
  "pb_decode_nullterminated n e s m flds dest = pb_decode n e s m flds dest"

end
