(* ===== verification/Cct.thy ===== *)
theory Cct
  imports Pb_Layout Pb_Decode
begin

text \<open>
  The messages of the log transport, generated from its protocol buffer file into \<^verbatim>\<open>cct.nanopb.h\<close> and
  \<^verbatim>\<open>cct.nanopb.c\<close>: enumerations, structures, initializers, field tags and descriptor arrays.  Behind
  them, the layout of every structure on the 64-bit target, the values of the descriptors, and that
  setting a message to its defaults gives the cells of its initializer.
\<close>

subsection \<open>Enumerations\<close>

datatype gdt_cct_NetworkConnectionInfo_NetworkType =
    gdt_cct_NetworkConnectionInfo_NetworkType_NONE
  | gdt_cct_NetworkConnectionInfo_NetworkType_MOBILE
  | gdt_cct_NetworkConnectionInfo_NetworkType_WIFI
  | gdt_cct_NetworkConnectionInfo_NetworkType_MOBILE_MMS
  | gdt_cct_NetworkConnectionInfo_NetworkType_MOBILE_SUPL
  | gdt_cct_NetworkConnectionInfo_NetworkType_MOBILE_DUN
  | gdt_cct_NetworkConnectionInfo_NetworkType_MOBILE_HIPRI
  | gdt_cct_NetworkConnectionInfo_NetworkType_WIMAX
  | gdt_cct_NetworkConnectionInfo_NetworkType_BLUETOOTH
  | gdt_cct_NetworkConnectionInfo_NetworkType_DUMMY
  | gdt_cct_NetworkConnectionInfo_NetworkType_ETHERNET
  | gdt_cct_NetworkConnectionInfo_NetworkType_MOBILE_FOTA
  | gdt_cct_NetworkConnectionInfo_NetworkType_MOBILE_IMS
  | gdt_cct_NetworkConnectionInfo_NetworkType_MOBILE_CBS
  | gdt_cct_NetworkConnectionInfo_NetworkType_WIFI_P2P
  | gdt_cct_NetworkConnectionInfo_NetworkType_MOBILE_IA
  | gdt_cct_NetworkConnectionInfo_NetworkType_MOBILE_EMERGENCY
  | gdt_cct_NetworkConnectionInfo_NetworkType_PROXY
  | gdt_cct_NetworkConnectionInfo_NetworkType_VPN

primrec gdt_cct_NetworkConnectionInfo_NetworkType_value :: "gdt_cct_NetworkConnectionInfo_NetworkType \<Rightarrow> int" where
  "gdt_cct_NetworkConnectionInfo_NetworkType_value gdt_cct_NetworkConnectionInfo_NetworkType_NONE = - 1"
| "gdt_cct_NetworkConnectionInfo_NetworkType_value gdt_cct_NetworkConnectionInfo_NetworkType_MOBILE = 0"
| "gdt_cct_NetworkConnectionInfo_NetworkType_value gdt_cct_NetworkConnectionInfo_NetworkType_WIFI = 1"
| "gdt_cct_NetworkConnectionInfo_NetworkType_value gdt_cct_NetworkConnectionInfo_NetworkType_MOBILE_MMS = 2"
| "gdt_cct_NetworkConnectionInfo_NetworkType_value gdt_cct_NetworkConnectionInfo_NetworkType_MOBILE_SUPL = 3"
| "gdt_cct_NetworkConnectionInfo_NetworkType_value gdt_cct_NetworkConnectionInfo_NetworkType_MOBILE_DUN = 4"
| "gdt_cct_NetworkConnectionInfo_NetworkType_value gdt_cct_NetworkConnectionInfo_NetworkType_MOBILE_HIPRI = 5"
| "gdt_cct_NetworkConnectionInfo_NetworkType_value gdt_cct_NetworkConnectionInfo_NetworkType_WIMAX = 6"
| "gdt_cct_NetworkConnectionInfo_NetworkType_value gdt_cct_NetworkConnectionInfo_NetworkType_BLUETOOTH = 7"
| "gdt_cct_NetworkConnectionInfo_NetworkType_value gdt_cct_NetworkConnectionInfo_NetworkType_DUMMY = 8"
| "gdt_cct_NetworkConnectionInfo_NetworkType_value gdt_cct_NetworkConnectionInfo_NetworkType_ETHERNET = 9"
| "gdt_cct_NetworkConnectionInfo_NetworkType_value gdt_cct_NetworkConnectionInfo_NetworkType_MOBILE_FOTA = 10"
| "gdt_cct_NetworkConnectionInfo_NetworkType_value gdt_cct_NetworkConnectionInfo_NetworkType_MOBILE_IMS = 11"
| "gdt_cct_NetworkConnectionInfo_NetworkType_value gdt_cct_NetworkConnectionInfo_NetworkType_MOBILE_CBS = 12"
| "gdt_cct_NetworkConnectionInfo_NetworkType_value gdt_cct_NetworkConnectionInfo_NetworkType_WIFI_P2P = 13"
| "gdt_cct_NetworkConnectionInfo_NetworkType_value gdt_cct_NetworkConnectionInfo_NetworkType_MOBILE_IA = 14"
| "gdt_cct_NetworkConnectionInfo_NetworkType_value gdt_cct_NetworkConnectionInfo_NetworkType_MOBILE_EMERGENCY = 15"
| "gdt_cct_NetworkConnectionInfo_NetworkType_value gdt_cct_NetworkConnectionInfo_NetworkType_PROXY = 16"
| "gdt_cct_NetworkConnectionInfo_NetworkType_value gdt_cct_NetworkConnectionInfo_NetworkType_VPN = 17"

definition gdt_cct_NetworkConnectionInfo_NetworkType_MIN :: gdt_cct_NetworkConnectionInfo_NetworkType where "gdt_cct_NetworkConnectionInfo_NetworkType_MIN = gdt_cct_NetworkConnectionInfo_NetworkType_NONE"

definition gdt_cct_NetworkConnectionInfo_NetworkType_MAX :: gdt_cct_NetworkConnectionInfo_NetworkType where "gdt_cct_NetworkConnectionInfo_NetworkType_MAX = gdt_cct_NetworkConnectionInfo_NetworkType_VPN"

definition gdt_cct_NetworkConnectionInfo_NetworkType_ARRAYSIZE :: int where "gdt_cct_NetworkConnectionInfo_NetworkType_ARRAYSIZE = gdt_cct_NetworkConnectionInfo_NetworkType_value gdt_cct_NetworkConnectionInfo_NetworkType_VPN + 1"

datatype gdt_cct_NetworkConnectionInfo_MobileSubtype =
    gdt_cct_NetworkConnectionInfo_MobileSubtype_UNKNOWN_MOBILE_SUBTYPE
  | gdt_cct_NetworkConnectionInfo_MobileSubtype_GPRS
  | gdt_cct_NetworkConnectionInfo_MobileSubtype_EDGE
  | gdt_cct_NetworkConnectionInfo_MobileSubtype_UMTS
  | gdt_cct_NetworkConnectionInfo_MobileSubtype_CDMA
  | gdt_cct_NetworkConnectionInfo_MobileSubtype_EVDO_0
  | gdt_cct_NetworkConnectionInfo_MobileSubtype_EVDO_A
  | gdt_cct_NetworkConnectionInfo_MobileSubtype_RTT
  | gdt_cct_NetworkConnectionInfo_MobileSubtype_HSDPA
  | gdt_cct_NetworkConnectionInfo_MobileSubtype_HSUPA
  | gdt_cct_NetworkConnectionInfo_MobileSubtype_HSPA
  | gdt_cct_NetworkConnectionInfo_MobileSubtype_IDEN
  | gdt_cct_NetworkConnectionInfo_MobileSubtype_EVDO_B
  | gdt_cct_NetworkConnectionInfo_MobileSubtype_LTE
  | gdt_cct_NetworkConnectionInfo_MobileSubtype_EHRPD
  | gdt_cct_NetworkConnectionInfo_MobileSubtype_HSPAP
  | gdt_cct_NetworkConnectionInfo_MobileSubtype_GSM
  | gdt_cct_NetworkConnectionInfo_MobileSubtype_TD_SCDMA
  | gdt_cct_NetworkConnectionInfo_MobileSubtype_IWLAN
  | gdt_cct_NetworkConnectionInfo_MobileSubtype_LTE_CA
  | gdt_cct_NetworkConnectionInfo_MobileSubtype_COMBINED

primrec gdt_cct_NetworkConnectionInfo_MobileSubtype_value :: "gdt_cct_NetworkConnectionInfo_MobileSubtype \<Rightarrow> int" where
  "gdt_cct_NetworkConnectionInfo_MobileSubtype_value gdt_cct_NetworkConnectionInfo_MobileSubtype_UNKNOWN_MOBILE_SUBTYPE = 0"
| "gdt_cct_NetworkConnectionInfo_MobileSubtype_value gdt_cct_NetworkConnectionInfo_MobileSubtype_GPRS = 1"
| "gdt_cct_NetworkConnectionInfo_MobileSubtype_value gdt_cct_NetworkConnectionInfo_MobileSubtype_EDGE = 2"
| "gdt_cct_NetworkConnectionInfo_MobileSubtype_value gdt_cct_NetworkConnectionInfo_MobileSubtype_UMTS = 3"
| "gdt_cct_NetworkConnectionInfo_MobileSubtype_value gdt_cct_NetworkConnectionInfo_MobileSubtype_CDMA = 4"
| "gdt_cct_NetworkConnectionInfo_MobileSubtype_value gdt_cct_NetworkConnectionInfo_MobileSubtype_EVDO_0 = 5"
| "gdt_cct_NetworkConnectionInfo_MobileSubtype_value gdt_cct_NetworkConnectionInfo_MobileSubtype_EVDO_A = 6"
| "gdt_cct_NetworkConnectionInfo_MobileSubtype_value gdt_cct_NetworkConnectionInfo_MobileSubtype_RTT = 7"
| "gdt_cct_NetworkConnectionInfo_MobileSubtype_value gdt_cct_NetworkConnectionInfo_MobileSubtype_HSDPA = 8"
| "gdt_cct_NetworkConnectionInfo_MobileSubtype_value gdt_cct_NetworkConnectionInfo_MobileSubtype_HSUPA = 9"
| "gdt_cct_NetworkConnectionInfo_MobileSubtype_value gdt_cct_NetworkConnectionInfo_MobileSubtype_HSPA = 10"
| "gdt_cct_NetworkConnectionInfo_MobileSubtype_value gdt_cct_NetworkConnectionInfo_MobileSubtype_IDEN = 11"
| "gdt_cct_NetworkConnectionInfo_MobileSubtype_value gdt_cct_NetworkConnectionInfo_MobileSubtype_EVDO_B = 12"
| "gdt_cct_NetworkConnectionInfo_MobileSubtype_value gdt_cct_NetworkConnectionInfo_MobileSubtype_LTE = 13"
| "gdt_cct_NetworkConnectionInfo_MobileSubtype_value gdt_cct_NetworkConnectionInfo_MobileSubtype_EHRPD = 14"
| "gdt_cct_NetworkConnectionInfo_MobileSubtype_value gdt_cct_NetworkConnectionInfo_MobileSubtype_HSPAP = 15"
| "gdt_cct_NetworkConnectionInfo_MobileSubtype_value gdt_cct_NetworkConnectionInfo_MobileSubtype_GSM = 16"
| "gdt_cct_NetworkConnectionInfo_MobileSubtype_value gdt_cct_NetworkConnectionInfo_MobileSubtype_TD_SCDMA = 17"
| "gdt_cct_NetworkConnectionInfo_MobileSubtype_value gdt_cct_NetworkConnectionInfo_MobileSubtype_IWLAN = 18"
| "gdt_cct_NetworkConnectionInfo_MobileSubtype_value gdt_cct_NetworkConnectionInfo_MobileSubtype_LTE_CA = 19"
| "gdt_cct_NetworkConnectionInfo_MobileSubtype_value gdt_cct_NetworkConnectionInfo_MobileSubtype_COMBINED = 100"

definition gdt_cct_NetworkConnectionInfo_MobileSubtype_MIN :: gdt_cct_NetworkConnectionInfo_MobileSubtype where "gdt_cct_NetworkConnectionInfo_MobileSubtype_MIN = gdt_cct_NetworkConnectionInfo_MobileSubtype_UNKNOWN_MOBILE_SUBTYPE"

definition gdt_cct_NetworkConnectionInfo_MobileSubtype_MAX :: gdt_cct_NetworkConnectionInfo_MobileSubtype where "gdt_cct_NetworkConnectionInfo_MobileSubtype_MAX = gdt_cct_NetworkConnectionInfo_MobileSubtype_COMBINED"

definition gdt_cct_NetworkConnectionInfo_MobileSubtype_ARRAYSIZE :: int where "gdt_cct_NetworkConnectionInfo_MobileSubtype_ARRAYSIZE = gdt_cct_NetworkConnectionInfo_MobileSubtype_value gdt_cct_NetworkConnectionInfo_MobileSubtype_COMBINED + 1"

datatype gdt_cct_ClientInfo_ClientType =
    gdt_cct_ClientInfo_ClientType_CLIENT_UNKNOWN
  | gdt_cct_ClientInfo_ClientType_IOS_FIREBASE

primrec gdt_cct_ClientInfo_ClientType_value :: "gdt_cct_ClientInfo_ClientType \<Rightarrow> int" where
  "gdt_cct_ClientInfo_ClientType_value gdt_cct_ClientInfo_ClientType_CLIENT_UNKNOWN = 0"
| "gdt_cct_ClientInfo_ClientType_value gdt_cct_ClientInfo_ClientType_IOS_FIREBASE = 15"

definition gdt_cct_ClientInfo_ClientType_MIN :: gdt_cct_ClientInfo_ClientType where "gdt_cct_ClientInfo_ClientType_MIN = gdt_cct_ClientInfo_ClientType_CLIENT_UNKNOWN"

definition gdt_cct_ClientInfo_ClientType_MAX :: gdt_cct_ClientInfo_ClientType where "gdt_cct_ClientInfo_ClientType_MAX = gdt_cct_ClientInfo_ClientType_IOS_FIREBASE"

definition gdt_cct_ClientInfo_ClientType_ARRAYSIZE :: int where "gdt_cct_ClientInfo_ClientType_ARRAYSIZE = gdt_cct_ClientInfo_ClientType_value gdt_cct_ClientInfo_ClientType_IOS_FIREBASE + 1"

datatype gdt_cct_QosTierConfiguration_QosTier =
    gdt_cct_QosTierConfiguration_QosTier_DEFAULT
  | gdt_cct_QosTierConfiguration_QosTier_UNMETERED_ONLY
  | gdt_cct_QosTierConfiguration_QosTier_UNMETERED_OR_DAILY
  | gdt_cct_QosTierConfiguration_QosTier_FAST_IF_RADIO_AWAKE
  | gdt_cct_QosTierConfiguration_QosTier_NEVER

primrec gdt_cct_QosTierConfiguration_QosTier_value :: "gdt_cct_QosTierConfiguration_QosTier \<Rightarrow> int" where
  "gdt_cct_QosTierConfiguration_QosTier_value gdt_cct_QosTierConfiguration_QosTier_DEFAULT = 0"
| "gdt_cct_QosTierConfiguration_QosTier_value gdt_cct_QosTierConfiguration_QosTier_UNMETERED_ONLY = 1"
| "gdt_cct_QosTierConfiguration_QosTier_value gdt_cct_QosTierConfiguration_QosTier_UNMETERED_OR_DAILY = 2"
| "gdt_cct_QosTierConfiguration_QosTier_value gdt_cct_QosTierConfiguration_QosTier_FAST_IF_RADIO_AWAKE = 3"
| "gdt_cct_QosTierConfiguration_QosTier_value gdt_cct_QosTierConfiguration_QosTier_NEVER = 4"

definition gdt_cct_QosTierConfiguration_QosTier_MIN :: gdt_cct_QosTierConfiguration_QosTier where "gdt_cct_QosTierConfiguration_QosTier_MIN = gdt_cct_QosTierConfiguration_QosTier_DEFAULT"

definition gdt_cct_QosTierConfiguration_QosTier_MAX :: gdt_cct_QosTierConfiguration_QosTier where "gdt_cct_QosTierConfiguration_QosTier_MAX = gdt_cct_QosTierConfiguration_QosTier_NEVER"

definition gdt_cct_QosTierConfiguration_QosTier_ARRAYSIZE :: int where "gdt_cct_QosTierConfiguration_QosTier_ARRAYSIZE = gdt_cct_QosTierConfiguration_QosTier_value gdt_cct_QosTierConfiguration_QosTier_NEVER + 1"

subsection \<open>Structures\<close>

definition gdt_cct_IosClientInfo :: members where
  "gdt_cct_IosClientInfo =
    (Member ''os_major_version'' (C_ptr (C_struct pb_bytes_array_t))
    (Member ''os_full_version'' (C_ptr (C_struct pb_bytes_array_t))
    (Member ''application_build'' (C_ptr (C_struct pb_bytes_array_t))
    (Member ''country'' (C_ptr (C_struct pb_bytes_array_t))
    (Member ''model'' (C_ptr (C_struct pb_bytes_array_t))
    (Member ''language_code'' (C_ptr (C_struct pb_bytes_array_t))
    (Member ''application_bundle_id'' (C_ptr (C_struct pb_bytes_array_t)) No_members)))))))"

definition gdt_cct_ClientInfo :: members where
  "gdt_cct_ClientInfo =
    (Member ''has_client_type'' C_bool
    (Member ''client_type'' C_enum
    (Member ''has_ios_client_info'' C_bool
    (Member ''ios_client_info'' (C_struct gdt_cct_IosClientInfo) No_members))))"

definition gdt_cct_NetworkConnectionInfo :: members where
  "gdt_cct_NetworkConnectionInfo =
    (Member ''has_network_type'' C_bool
    (Member ''network_type'' C_enum
    (Member ''has_mobile_subtype'' C_bool
    (Member ''mobile_subtype'' C_enum No_members))))"

definition gdt_cct_LogEvent :: members where
  "gdt_cct_LogEvent =
    (Member ''has_event_time_ms'' C_bool
    (Member ''event_time_ms'' C_int64
    (Member ''source_extension'' (C_ptr (C_struct pb_bytes_array_t))
    (Member ''has_event_code'' C_bool
    (Member ''event_code'' C_int32
    (Member ''has_timezone_offset_seconds'' C_bool
    (Member ''timezone_offset_seconds'' C_int64
    (Member ''has_event_uptime_ms'' C_bool
    (Member ''event_uptime_ms'' C_int64
    (Member ''has_network_connection_info'' C_bool
    (Member ''network_connection_info'' (C_struct gdt_cct_NetworkConnectionInfo) No_members)))))))))))"

definition gdt_cct_LogRequest :: members where
  "gdt_cct_LogRequest =
    (Member ''has_client_info'' C_bool
    (Member ''client_info'' (C_struct gdt_cct_ClientInfo)
    (Member ''has_log_source'' C_bool
    (Member ''log_source'' C_int32
    (Member ''log_event_count'' C_uint32
    (Member ''log_event'' (C_ptr (C_struct gdt_cct_LogEvent))
    (Member ''has_request_time_ms'' C_bool
    (Member ''request_time_ms'' C_int64
    (Member ''has_request_uptime_ms'' C_bool
    (Member ''request_uptime_ms'' C_int64
    (Member ''has_qos_tier'' C_bool
    (Member ''qos_tier'' C_enum No_members))))))))))))"

definition gdt_cct_BatchedLogRequest :: members where
  "gdt_cct_BatchedLogRequest =
    (Member ''log_request_count'' C_uint32
    (Member ''log_request'' (C_ptr (C_struct gdt_cct_LogRequest)) No_members))"

definition gdt_cct_QosTierConfiguration :: members where
  "gdt_cct_QosTierConfiguration =
    (Member ''has_qos_tier'' C_bool
    (Member ''qos_tier'' C_enum
    (Member ''has_log_source'' C_bool
    (Member ''log_source'' C_int32 No_members))))"

definition gdt_cct_QosTiersOverride :: members where
  "gdt_cct_QosTiersOverride =
    (Member ''qos_tier_configuration_count'' C_uint32
    (Member ''qos_tier_configuration'' (C_ptr (C_struct gdt_cct_QosTierConfiguration))
    (Member ''has_qos_tier_fingerprint'' C_bool
    (Member ''qos_tier_fingerprint'' C_int64 No_members))))"

definition gdt_cct_LogResponse :: members where
  "gdt_cct_LogResponse =
    (Member ''has_next_request_wait_millis'' C_bool
    (Member ''next_request_wait_millis'' C_int64
    (Member ''has_qos_tier'' C_bool
    (Member ''qos_tier'' (C_struct gdt_cct_QosTiersOverride) No_members))))"

subsection \<open>Default values\<close>

definition gdt_cct_NetworkConnectionInfo_network_type_default :: "byte list" where
  "gdt_cct_NetworkConnectionInfo_network_type_default = bytes_of 4 (word_of_int (gdt_cct_NetworkConnectionInfo_NetworkType_value gdt_cct_NetworkConnectionInfo_NetworkType_NONE) :: uint32)"

definition gdt_cct_NetworkConnectionInfo_mobile_subtype_default :: "byte list" where
  "gdt_cct_NetworkConnectionInfo_mobile_subtype_default = bytes_of 4 (word_of_int (gdt_cct_NetworkConnectionInfo_MobileSubtype_value gdt_cct_NetworkConnectionInfo_MobileSubtype_UNKNOWN_MOBILE_SUBTYPE) :: uint32)"

definition gdt_cct_LogRequest_qos_tier_default :: "byte list" where
  "gdt_cct_LogRequest_qos_tier_default = bytes_of 4 (word_of_int (gdt_cct_QosTierConfiguration_QosTier_value gdt_cct_QosTierConfiguration_QosTier_DEFAULT) :: uint32)"

definition gdt_cct_QosTierConfiguration_log_source_default :: "byte list" where
  "gdt_cct_QosTierConfiguration_log_source_default = bytes_of 4 (word_of_int (0) :: uint32)"

subsection \<open>Field tags\<close>

definition gdt_cct_BatchedLogRequest_log_request_tag :: pb_size_t where "gdt_cct_BatchedLogRequest_log_request_tag = 1"
definition gdt_cct_IosClientInfo_os_major_version_tag :: pb_size_t where "gdt_cct_IosClientInfo_os_major_version_tag = 3"
definition gdt_cct_IosClientInfo_os_full_version_tag :: pb_size_t where "gdt_cct_IosClientInfo_os_full_version_tag = 4"
definition gdt_cct_IosClientInfo_application_build_tag :: pb_size_t where "gdt_cct_IosClientInfo_application_build_tag = 5"
definition gdt_cct_IosClientInfo_country_tag :: pb_size_t where "gdt_cct_IosClientInfo_country_tag = 6"
definition gdt_cct_IosClientInfo_model_tag :: pb_size_t where "gdt_cct_IosClientInfo_model_tag = 7"
definition gdt_cct_IosClientInfo_language_code_tag :: pb_size_t where "gdt_cct_IosClientInfo_language_code_tag = 8"
definition gdt_cct_IosClientInfo_application_bundle_id_tag :: pb_size_t where "gdt_cct_IosClientInfo_application_bundle_id_tag = 11"
definition gdt_cct_ClientInfo_client_type_tag :: pb_size_t where "gdt_cct_ClientInfo_client_type_tag = 1"
definition gdt_cct_ClientInfo_ios_client_info_tag :: pb_size_t where "gdt_cct_ClientInfo_ios_client_info_tag = 4"
definition gdt_cct_NetworkConnectionInfo_network_type_tag :: pb_size_t where "gdt_cct_NetworkConnectionInfo_network_type_tag = 1"
definition gdt_cct_NetworkConnectionInfo_mobile_subtype_tag :: pb_size_t where "gdt_cct_NetworkConnectionInfo_mobile_subtype_tag = 2"
definition gdt_cct_QosTierConfiguration_qos_tier_tag :: pb_size_t where "gdt_cct_QosTierConfiguration_qos_tier_tag = 2"
definition gdt_cct_QosTierConfiguration_log_source_tag :: pb_size_t where "gdt_cct_QosTierConfiguration_log_source_tag = 3"
definition gdt_cct_QosTiersOverride_qos_tier_configuration_tag :: pb_size_t where "gdt_cct_QosTiersOverride_qos_tier_configuration_tag = 1"
definition gdt_cct_QosTiersOverride_qos_tier_fingerprint_tag :: pb_size_t where "gdt_cct_QosTiersOverride_qos_tier_fingerprint_tag = 2"
definition gdt_cct_LogEvent_event_time_ms_tag :: pb_size_t where "gdt_cct_LogEvent_event_time_ms_tag = 1"
definition gdt_cct_LogEvent_event_code_tag :: pb_size_t where "gdt_cct_LogEvent_event_code_tag = 11"
definition gdt_cct_LogEvent_event_uptime_ms_tag :: pb_size_t where "gdt_cct_LogEvent_event_uptime_ms_tag = 17"
definition gdt_cct_LogEvent_source_extension_tag :: pb_size_t where "gdt_cct_LogEvent_source_extension_tag = 6"
definition gdt_cct_LogEvent_timezone_offset_seconds_tag :: pb_size_t where "gdt_cct_LogEvent_timezone_offset_seconds_tag = 15"
definition gdt_cct_LogEvent_network_connection_info_tag :: pb_size_t where "gdt_cct_LogEvent_network_connection_info_tag = 23"
definition gdt_cct_LogRequest_request_time_ms_tag :: pb_size_t where "gdt_cct_LogRequest_request_time_ms_tag = 4"
definition gdt_cct_LogRequest_request_uptime_ms_tag :: pb_size_t where "gdt_cct_LogRequest_request_uptime_ms_tag = 8"
definition gdt_cct_LogRequest_client_info_tag :: pb_size_t where "gdt_cct_LogRequest_client_info_tag = 1"
definition gdt_cct_LogRequest_log_source_tag :: pb_size_t where "gdt_cct_LogRequest_log_source_tag = 2"
definition gdt_cct_LogRequest_log_event_tag :: pb_size_t where "gdt_cct_LogRequest_log_event_tag = 3"
definition gdt_cct_LogRequest_qos_tier_tag :: pb_size_t where "gdt_cct_LogRequest_qos_tier_tag = 9"
definition gdt_cct_LogResponse_next_request_wait_millis_tag :: pb_size_t where "gdt_cct_LogResponse_next_request_wait_millis_tag = 1"
definition gdt_cct_LogResponse_qos_tier_tag :: pb_size_t where "gdt_cct_LogResponse_qos_tier_tag = 3"

subsection \<open>Descriptors\<close>

definition gdt_cct_NetworkConnectionInfo_fields :: "pb_field_t list" where
  "gdt_cct_NetworkConnectionInfo_fields = [
     PB_FIELD 1 T_ENUM OPTIONAL STATIC FIRST gdt_cct_NetworkConnectionInfo ''network_type'' ''network_type'' (Ptr_default gdt_cct_NetworkConnectionInfo_network_type_default),
     PB_FIELD 2 T_UENUM OPTIONAL STATIC OTHER gdt_cct_NetworkConnectionInfo ''mobile_subtype'' ''network_type'' (Ptr_default gdt_cct_NetworkConnectionInfo_mobile_subtype_default),
     PB_LAST_FIELD]"

definition gdt_cct_LogEvent_fields :: "pb_field_t list" where
  "gdt_cct_LogEvent_fields = [
     PB_FIELD 1 T_INT64 OPTIONAL STATIC FIRST gdt_cct_LogEvent ''event_time_ms'' ''event_time_ms'' Ptr_null,
     PB_FIELD 6 T_BYTES OPTIONAL POINTER OTHER gdt_cct_LogEvent ''source_extension'' ''event_time_ms'' Ptr_null,
     PB_FIELD 11 T_INT32 OPTIONAL STATIC OTHER gdt_cct_LogEvent ''event_code'' ''source_extension'' Ptr_null,
     PB_FIELD 15 T_SINT64 OPTIONAL STATIC OTHER gdt_cct_LogEvent ''timezone_offset_seconds'' ''event_code'' Ptr_null,
     PB_FIELD 17 T_INT64 OPTIONAL STATIC OTHER gdt_cct_LogEvent ''event_uptime_ms'' ''timezone_offset_seconds'' Ptr_null,
     PB_FIELD 23 T_MESSAGE OPTIONAL STATIC OTHER gdt_cct_LogEvent ''network_connection_info'' ''event_uptime_ms'' (Ptr_fields gdt_cct_NetworkConnectionInfo_fields),
     PB_LAST_FIELD]"

definition gdt_cct_IosClientInfo_fields :: "pb_field_t list" where
  "gdt_cct_IosClientInfo_fields = [
     PB_FIELD 3 T_BYTES OPTIONAL POINTER FIRST gdt_cct_IosClientInfo ''os_major_version'' ''os_major_version'' Ptr_null,
     PB_FIELD 4 T_BYTES OPTIONAL POINTER OTHER gdt_cct_IosClientInfo ''os_full_version'' ''os_major_version'' Ptr_null,
     PB_FIELD 5 T_BYTES OPTIONAL POINTER OTHER gdt_cct_IosClientInfo ''application_build'' ''os_full_version'' Ptr_null,
     PB_FIELD 6 T_BYTES OPTIONAL POINTER OTHER gdt_cct_IosClientInfo ''country'' ''application_build'' Ptr_null,
     PB_FIELD 7 T_BYTES OPTIONAL POINTER OTHER gdt_cct_IosClientInfo ''model'' ''country'' Ptr_null,
     PB_FIELD 8 T_BYTES OPTIONAL POINTER OTHER gdt_cct_IosClientInfo ''language_code'' ''model'' Ptr_null,
     PB_FIELD 11 T_BYTES OPTIONAL POINTER OTHER gdt_cct_IosClientInfo ''application_bundle_id'' ''language_code'' Ptr_null,
     PB_LAST_FIELD]"

definition gdt_cct_ClientInfo_fields :: "pb_field_t list" where
  "gdt_cct_ClientInfo_fields = [
     PB_FIELD 1 T_UENUM OPTIONAL STATIC FIRST gdt_cct_ClientInfo ''client_type'' ''client_type'' Ptr_null,
     PB_FIELD 4 T_MESSAGE OPTIONAL STATIC OTHER gdt_cct_ClientInfo ''ios_client_info'' ''client_type'' (Ptr_fields gdt_cct_IosClientInfo_fields),
     PB_LAST_FIELD]"

definition gdt_cct_LogRequest_fields :: "pb_field_t list" where
  "gdt_cct_LogRequest_fields = [
     PB_FIELD 1 T_MESSAGE OPTIONAL STATIC FIRST gdt_cct_LogRequest ''client_info'' ''client_info'' (Ptr_fields gdt_cct_ClientInfo_fields),
     PB_FIELD 2 T_INT32 OPTIONAL STATIC OTHER gdt_cct_LogRequest ''log_source'' ''client_info'' Ptr_null,
     PB_FIELD 3 T_MESSAGE REPEATED POINTER OTHER gdt_cct_LogRequest ''log_event'' ''log_source'' (Ptr_fields gdt_cct_LogEvent_fields),
     PB_FIELD 4 T_INT64 OPTIONAL STATIC OTHER gdt_cct_LogRequest ''request_time_ms'' ''log_event'' Ptr_null,
     PB_FIELD 8 T_INT64 OPTIONAL STATIC OTHER gdt_cct_LogRequest ''request_uptime_ms'' ''request_time_ms'' Ptr_null,
     PB_FIELD 9 T_UENUM OPTIONAL STATIC OTHER gdt_cct_LogRequest ''qos_tier'' ''request_uptime_ms'' (Ptr_default gdt_cct_LogRequest_qos_tier_default),
     PB_LAST_FIELD]"

definition gdt_cct_BatchedLogRequest_fields :: "pb_field_t list" where
  "gdt_cct_BatchedLogRequest_fields = [
     PB_FIELD 1 T_MESSAGE REPEATED POINTER FIRST gdt_cct_BatchedLogRequest ''log_request'' ''log_request'' (Ptr_fields gdt_cct_LogRequest_fields),
     PB_LAST_FIELD]"

definition gdt_cct_QosTierConfiguration_fields :: "pb_field_t list" where
  "gdt_cct_QosTierConfiguration_fields = [
     PB_FIELD 2 T_UENUM OPTIONAL STATIC FIRST gdt_cct_QosTierConfiguration ''qos_tier'' ''qos_tier'' Ptr_null,
     PB_FIELD 3 T_INT32 OPTIONAL STATIC OTHER gdt_cct_QosTierConfiguration ''log_source'' ''qos_tier'' (Ptr_default gdt_cct_QosTierConfiguration_log_source_default),
     PB_LAST_FIELD]"

definition gdt_cct_QosTiersOverride_fields :: "pb_field_t list" where
  "gdt_cct_QosTiersOverride_fields = [
     PB_FIELD 1 T_MESSAGE REPEATED POINTER FIRST gdt_cct_QosTiersOverride ''qos_tier_configuration'' ''qos_tier_configuration'' (Ptr_fields gdt_cct_QosTierConfiguration_fields),
     PB_FIELD 2 T_INT64 OPTIONAL STATIC OTHER gdt_cct_QosTiersOverride ''qos_tier_fingerprint'' ''qos_tier_configuration'' Ptr_null,
     PB_LAST_FIELD]"

definition gdt_cct_LogResponse_fields :: "pb_field_t list" where
  "gdt_cct_LogResponse_fields = [
     PB_FIELD 1 T_INT64 OPTIONAL STATIC FIRST gdt_cct_LogResponse ''next_request_wait_millis'' ''next_request_wait_millis'' Ptr_null,
     PB_FIELD 3 T_MESSAGE OPTIONAL STATIC OTHER gdt_cct_LogResponse ''qos_tier'' ''next_request_wait_millis'' (Ptr_fields gdt_cct_QosTiersOverride_fields),
     PB_LAST_FIELD]"

text \<open>The fields of each structure, with what the descriptors say of them.\<close>

definition gdt_cct_NetworkConnectionInfo_specs :: "field_spec list" where
  "gdt_cct_NetworkConnectionInfo_specs = [
     field_spec_of gdt_cct_NetworkConnectionInfo_network_type_tag T_ENUM OPTIONAL STATIC ''network_type'' (Ptr_default gdt_cct_NetworkConnectionInfo_network_type_default),
     field_spec_of gdt_cct_NetworkConnectionInfo_mobile_subtype_tag T_UENUM OPTIONAL STATIC ''mobile_subtype'' (Ptr_default gdt_cct_NetworkConnectionInfo_mobile_subtype_default)]"

definition gdt_cct_LogEvent_specs :: "field_spec list" where
  "gdt_cct_LogEvent_specs = [
     field_spec_of gdt_cct_LogEvent_event_time_ms_tag T_INT64 OPTIONAL STATIC ''event_time_ms'' Ptr_null,
     field_spec_of gdt_cct_LogEvent_source_extension_tag T_BYTES OPTIONAL POINTER ''source_extension'' Ptr_null,
     field_spec_of gdt_cct_LogEvent_event_code_tag T_INT32 OPTIONAL STATIC ''event_code'' Ptr_null,
     field_spec_of gdt_cct_LogEvent_timezone_offset_seconds_tag T_SINT64 OPTIONAL STATIC ''timezone_offset_seconds'' Ptr_null,
     field_spec_of gdt_cct_LogEvent_event_uptime_ms_tag T_INT64 OPTIONAL STATIC ''event_uptime_ms'' Ptr_null,
     field_spec_of gdt_cct_LogEvent_network_connection_info_tag T_MESSAGE OPTIONAL STATIC ''network_connection_info'' (Ptr_fields gdt_cct_NetworkConnectionInfo_fields)]"

definition gdt_cct_IosClientInfo_specs :: "field_spec list" where
  "gdt_cct_IosClientInfo_specs = [
     field_spec_of gdt_cct_IosClientInfo_os_major_version_tag T_BYTES OPTIONAL POINTER ''os_major_version'' Ptr_null,
     field_spec_of gdt_cct_IosClientInfo_os_full_version_tag T_BYTES OPTIONAL POINTER ''os_full_version'' Ptr_null,
     field_spec_of gdt_cct_IosClientInfo_application_build_tag T_BYTES OPTIONAL POINTER ''application_build'' Ptr_null,
     field_spec_of gdt_cct_IosClientInfo_country_tag T_BYTES OPTIONAL POINTER ''country'' Ptr_null,
     field_spec_of gdt_cct_IosClientInfo_model_tag T_BYTES OPTIONAL POINTER ''model'' Ptr_null,
     field_spec_of gdt_cct_IosClientInfo_language_code_tag T_BYTES OPTIONAL POINTER ''language_code'' Ptr_null,
     field_spec_of gdt_cct_IosClientInfo_application_bundle_id_tag T_BYTES OPTIONAL POINTER ''application_bundle_id'' Ptr_null]"

definition gdt_cct_ClientInfo_specs :: "field_spec list" where
  "gdt_cct_ClientInfo_specs = [
     field_spec_of gdt_cct_ClientInfo_client_type_tag T_UENUM OPTIONAL STATIC ''client_type'' Ptr_null,
     field_spec_of gdt_cct_ClientInfo_ios_client_info_tag T_MESSAGE OPTIONAL STATIC ''ios_client_info'' (Ptr_fields gdt_cct_IosClientInfo_fields)]"

definition gdt_cct_LogRequest_specs :: "field_spec list" where
  "gdt_cct_LogRequest_specs = [
     field_spec_of gdt_cct_LogRequest_client_info_tag T_MESSAGE OPTIONAL STATIC ''client_info'' (Ptr_fields gdt_cct_ClientInfo_fields),
     field_spec_of gdt_cct_LogRequest_log_source_tag T_INT32 OPTIONAL STATIC ''log_source'' Ptr_null,
     field_spec_of gdt_cct_LogRequest_log_event_tag T_MESSAGE REPEATED POINTER ''log_event'' (Ptr_fields gdt_cct_LogEvent_fields),
     field_spec_of gdt_cct_LogRequest_request_time_ms_tag T_INT64 OPTIONAL STATIC ''request_time_ms'' Ptr_null,
     field_spec_of gdt_cct_LogRequest_request_uptime_ms_tag T_INT64 OPTIONAL STATIC ''request_uptime_ms'' Ptr_null,
     field_spec_of gdt_cct_LogRequest_qos_tier_tag T_UENUM OPTIONAL STATIC ''qos_tier'' (Ptr_default gdt_cct_LogRequest_qos_tier_default)]"

definition gdt_cct_BatchedLogRequest_specs :: "field_spec list" where
  "gdt_cct_BatchedLogRequest_specs = [
     field_spec_of gdt_cct_BatchedLogRequest_log_request_tag T_MESSAGE REPEATED POINTER ''log_request'' (Ptr_fields gdt_cct_LogRequest_fields)]"

definition gdt_cct_QosTierConfiguration_specs :: "field_spec list" where
  "gdt_cct_QosTierConfiguration_specs = [
     field_spec_of gdt_cct_QosTierConfiguration_qos_tier_tag T_UENUM OPTIONAL STATIC ''qos_tier'' Ptr_null,
     field_spec_of gdt_cct_QosTierConfiguration_log_source_tag T_INT32 OPTIONAL STATIC ''log_source'' (Ptr_default gdt_cct_QosTierConfiguration_log_source_default)]"

definition gdt_cct_QosTiersOverride_specs :: "field_spec list" where
  "gdt_cct_QosTiersOverride_specs = [
     field_spec_of gdt_cct_QosTiersOverride_qos_tier_configuration_tag T_MESSAGE REPEATED POINTER ''qos_tier_configuration'' (Ptr_fields gdt_cct_QosTierConfiguration_fields),
     field_spec_of gdt_cct_QosTiersOverride_qos_tier_fingerprint_tag T_INT64 OPTIONAL STATIC ''qos_tier_fingerprint'' Ptr_null]"

definition gdt_cct_LogResponse_specs :: "field_spec list" where
  "gdt_cct_LogResponse_specs = [
     field_spec_of gdt_cct_LogResponse_next_request_wait_millis_tag T_INT64 OPTIONAL STATIC ''next_request_wait_millis'' Ptr_null,
     field_spec_of gdt_cct_LogResponse_qos_tier_tag T_MESSAGE OPTIONAL STATIC ''qos_tier'' (Ptr_fields gdt_cct_QosTiersOverride_fields)]"

subsection \<open>Initializers\<close>

definition gdt_cct_IosClientInfo_init_default :: "init list" where
  "gdt_cct_IosClientInfo_init_default = [I_NULL, I_NULL, I_NULL, I_NULL, I_NULL, I_NULL, I_NULL]"

definition gdt_cct_ClientInfo_init_default :: "init list" where
  "gdt_cct_ClientInfo_init_default = [I_int 0, I_int (gdt_cct_ClientInfo_ClientType_value gdt_cct_ClientInfo_ClientType_MIN), I_int 0, I_struct gdt_cct_IosClientInfo_init_default]"

definition gdt_cct_NetworkConnectionInfo_init_default :: "init list" where
  "gdt_cct_NetworkConnectionInfo_init_default = [I_int 0, I_int (gdt_cct_NetworkConnectionInfo_NetworkType_value gdt_cct_NetworkConnectionInfo_NetworkType_NONE), I_int 0, I_int (gdt_cct_NetworkConnectionInfo_MobileSubtype_value gdt_cct_NetworkConnectionInfo_MobileSubtype_UNKNOWN_MOBILE_SUBTYPE)]"

definition gdt_cct_LogEvent_init_default :: "init list" where
  "gdt_cct_LogEvent_init_default = [I_int 0, I_int 0, I_NULL, I_int 0, I_int 0, I_int 0, I_int 0, I_int 0, I_int 0, I_int 0, I_struct gdt_cct_NetworkConnectionInfo_init_default]"

definition gdt_cct_LogRequest_init_default :: "init list" where
  "gdt_cct_LogRequest_init_default = [I_int 0, I_struct gdt_cct_ClientInfo_init_default, I_int 0, I_int 0, I_int 0, I_NULL, I_int 0, I_int 0, I_int 0, I_int 0, I_int 0, I_int (gdt_cct_QosTierConfiguration_QosTier_value gdt_cct_QosTierConfiguration_QosTier_DEFAULT)]"

definition gdt_cct_BatchedLogRequest_init_default :: "init list" where
  "gdt_cct_BatchedLogRequest_init_default = [I_int 0, I_NULL]"

definition gdt_cct_QosTierConfiguration_init_default :: "init list" where
  "gdt_cct_QosTierConfiguration_init_default = [I_int 0, I_int (gdt_cct_QosTierConfiguration_QosTier_value gdt_cct_QosTierConfiguration_QosTier_MIN), I_int 0, I_int 0]"

definition gdt_cct_QosTiersOverride_init_default :: "init list" where
  "gdt_cct_QosTiersOverride_init_default = [I_int 0, I_NULL, I_int 0, I_int 0]"

definition gdt_cct_LogResponse_init_default :: "init list" where
  "gdt_cct_LogResponse_init_default = [I_int 0, I_int 0, I_int 0, I_struct gdt_cct_QosTiersOverride_init_default]"

definition gdt_cct_IosClientInfo_init_zero :: "init list" where
  "gdt_cct_IosClientInfo_init_zero = [I_NULL, I_NULL, I_NULL, I_NULL, I_NULL, I_NULL, I_NULL]"

definition gdt_cct_ClientInfo_init_zero :: "init list" where
  "gdt_cct_ClientInfo_init_zero = [I_int 0, I_int (gdt_cct_ClientInfo_ClientType_value gdt_cct_ClientInfo_ClientType_MIN), I_int 0, I_struct gdt_cct_IosClientInfo_init_zero]"

definition gdt_cct_NetworkConnectionInfo_init_zero :: "init list" where
  "gdt_cct_NetworkConnectionInfo_init_zero = [I_int 0, I_int (gdt_cct_NetworkConnectionInfo_NetworkType_value gdt_cct_NetworkConnectionInfo_NetworkType_MIN), I_int 0, I_int (gdt_cct_NetworkConnectionInfo_MobileSubtype_value gdt_cct_NetworkConnectionInfo_MobileSubtype_MIN)]"

definition gdt_cct_LogEvent_init_zero :: "init list" where
  "gdt_cct_LogEvent_init_zero = [I_int 0, I_int 0, I_NULL, I_int 0, I_int 0, I_int 0, I_int 0, I_int 0, I_int 0, I_int 0, I_struct gdt_cct_NetworkConnectionInfo_init_zero]"

definition gdt_cct_LogRequest_init_zero :: "init list" where
  "gdt_cct_LogRequest_init_zero = [I_int 0, I_struct gdt_cct_ClientInfo_init_zero, I_int 0, I_int 0, I_int 0, I_NULL, I_int 0, I_int 0, I_int 0, I_int 0, I_int 0, I_int (gdt_cct_QosTierConfiguration_QosTier_value gdt_cct_QosTierConfiguration_QosTier_MIN)]"

definition gdt_cct_BatchedLogRequest_init_zero :: "init list" where
  "gdt_cct_BatchedLogRequest_init_zero = [I_int 0, I_NULL]"

definition gdt_cct_QosTierConfiguration_init_zero :: "init list" where
  "gdt_cct_QosTierConfiguration_init_zero = [I_int 0, I_int (gdt_cct_QosTierConfiguration_QosTier_value gdt_cct_QosTierConfiguration_QosTier_MIN), I_int 0, I_int 0]"

definition gdt_cct_QosTiersOverride_init_zero :: "init list" where
  "gdt_cct_QosTiersOverride_init_zero = [I_int 0, I_NULL, I_int 0, I_int 0]"

definition gdt_cct_LogResponse_init_zero :: "init list" where
  "gdt_cct_LogResponse_init_zero = [I_int 0, I_int 0, I_int 0, I_struct gdt_cct_QosTiersOverride_init_zero]"

definition gdt_cct_NetworkConnectionInfo_size :: nat where "gdt_cct_NetworkConnectionInfo_size = 13"

definition gdt_cct_QosTierConfiguration_size :: nat where "gdt_cct_QosTierConfiguration_size = 13"

subsection \<open>Layout\<close>

lemma gdt_cct_IosClientInfo_layout [simp]:
  "members_align gdt_cct_IosClientInfo = 8" "members_end gdt_cct_IosClientInfo 0 = 56"
  by (simp_all add: gdt_cct_IosClientInfo_def align_up_def)

lemma gdt_cct_IosClientInfo_offsets [simp]:
  "offsetof gdt_cct_IosClientInfo ''os_major_version'' = 0"
  "offsetof gdt_cct_IosClientInfo ''os_full_version'' = 8"
  "offsetof gdt_cct_IosClientInfo ''application_build'' = 16"
  "offsetof gdt_cct_IosClientInfo ''country'' = 24"
  "offsetof gdt_cct_IosClientInfo ''model'' = 32"
  "offsetof gdt_cct_IosClientInfo ''language_code'' = 40"
  "offsetof gdt_cct_IosClientInfo ''application_bundle_id'' = 48"
  by (simp_all add: gdt_cct_IosClientInfo_def offsetof_def align_up_def)

lemma gdt_cct_IosClientInfo_types [simp]:
  "member_type gdt_cct_IosClientInfo ''os_major_version'' = Some (C_ptr (C_struct pb_bytes_array_t))"
  "member_type gdt_cct_IosClientInfo ''os_full_version'' = Some (C_ptr (C_struct pb_bytes_array_t))"
  "member_type gdt_cct_IosClientInfo ''application_build'' = Some (C_ptr (C_struct pb_bytes_array_t))"
  "member_type gdt_cct_IosClientInfo ''country'' = Some (C_ptr (C_struct pb_bytes_array_t))"
  "member_type gdt_cct_IosClientInfo ''model'' = Some (C_ptr (C_struct pb_bytes_array_t))"
  "member_type gdt_cct_IosClientInfo ''language_code'' = Some (C_ptr (C_struct pb_bytes_array_t))"
  "member_type gdt_cct_IosClientInfo ''application_bundle_id'' = Some (C_ptr (C_struct pb_bytes_array_t))"
  by (simp_all add: gdt_cct_IosClientInfo_def)

lemma gdt_cct_ClientInfo_layout [simp]:
  "members_align gdt_cct_ClientInfo = 8" "members_end gdt_cct_ClientInfo 0 = 72"
  by (simp_all add: gdt_cct_ClientInfo_def align_up_def)

lemma gdt_cct_ClientInfo_offsets [simp]:
  "offsetof gdt_cct_ClientInfo ''has_client_type'' = 0"
  "offsetof gdt_cct_ClientInfo ''client_type'' = 4"
  "offsetof gdt_cct_ClientInfo ''has_ios_client_info'' = 8"
  "offsetof gdt_cct_ClientInfo ''ios_client_info'' = 16"
  by (simp_all add: gdt_cct_ClientInfo_def offsetof_def align_up_def)

lemma gdt_cct_ClientInfo_types [simp]:
  "member_type gdt_cct_ClientInfo ''has_client_type'' = Some C_bool"
  "member_type gdt_cct_ClientInfo ''client_type'' = Some C_enum"
  "member_type gdt_cct_ClientInfo ''has_ios_client_info'' = Some C_bool"
  "member_type gdt_cct_ClientInfo ''ios_client_info'' = Some (C_struct gdt_cct_IosClientInfo)"
  by (simp_all add: gdt_cct_ClientInfo_def)

lemma gdt_cct_NetworkConnectionInfo_layout [simp]:
  "members_align gdt_cct_NetworkConnectionInfo = 4" "members_end gdt_cct_NetworkConnectionInfo 0 = 16"
  by (simp_all add: gdt_cct_NetworkConnectionInfo_def align_up_def)

lemma gdt_cct_NetworkConnectionInfo_offsets [simp]:
  "offsetof gdt_cct_NetworkConnectionInfo ''has_network_type'' = 0"
  "offsetof gdt_cct_NetworkConnectionInfo ''network_type'' = 4"
  "offsetof gdt_cct_NetworkConnectionInfo ''has_mobile_subtype'' = 8"
  "offsetof gdt_cct_NetworkConnectionInfo ''mobile_subtype'' = 12"
  by (simp_all add: gdt_cct_NetworkConnectionInfo_def offsetof_def align_up_def)

lemma gdt_cct_NetworkConnectionInfo_types [simp]:
  "member_type gdt_cct_NetworkConnectionInfo ''has_network_type'' = Some C_bool"
  "member_type gdt_cct_NetworkConnectionInfo ''network_type'' = Some C_enum"
  "member_type gdt_cct_NetworkConnectionInfo ''has_mobile_subtype'' = Some C_bool"
  "member_type gdt_cct_NetworkConnectionInfo ''mobile_subtype'' = Some C_enum"
  by (simp_all add: gdt_cct_NetworkConnectionInfo_def)

lemma gdt_cct_LogEvent_layout [simp]:
  "members_align gdt_cct_LogEvent = 8" "members_end gdt_cct_LogEvent 0 = 84"
  by (simp_all add: gdt_cct_LogEvent_def align_up_def)

lemma gdt_cct_LogEvent_offsets [simp]:
  "offsetof gdt_cct_LogEvent ''has_event_time_ms'' = 0"
  "offsetof gdt_cct_LogEvent ''event_time_ms'' = 8"
  "offsetof gdt_cct_LogEvent ''source_extension'' = 16"
  "offsetof gdt_cct_LogEvent ''has_event_code'' = 24"
  "offsetof gdt_cct_LogEvent ''event_code'' = 28"
  "offsetof gdt_cct_LogEvent ''has_timezone_offset_seconds'' = 32"
  "offsetof gdt_cct_LogEvent ''timezone_offset_seconds'' = 40"
  "offsetof gdt_cct_LogEvent ''has_event_uptime_ms'' = 48"
  "offsetof gdt_cct_LogEvent ''event_uptime_ms'' = 56"
  "offsetof gdt_cct_LogEvent ''has_network_connection_info'' = 64"
  "offsetof gdt_cct_LogEvent ''network_connection_info'' = 68"
  by (simp_all add: gdt_cct_LogEvent_def offsetof_def align_up_def)

lemma gdt_cct_LogEvent_types [simp]:
  "member_type gdt_cct_LogEvent ''has_event_time_ms'' = Some C_bool"
  "member_type gdt_cct_LogEvent ''event_time_ms'' = Some C_int64"
  "member_type gdt_cct_LogEvent ''source_extension'' = Some (C_ptr (C_struct pb_bytes_array_t))"
  "member_type gdt_cct_LogEvent ''has_event_code'' = Some C_bool"
  "member_type gdt_cct_LogEvent ''event_code'' = Some C_int32"
  "member_type gdt_cct_LogEvent ''has_timezone_offset_seconds'' = Some C_bool"
  "member_type gdt_cct_LogEvent ''timezone_offset_seconds'' = Some C_int64"
  "member_type gdt_cct_LogEvent ''has_event_uptime_ms'' = Some C_bool"
  "member_type gdt_cct_LogEvent ''event_uptime_ms'' = Some C_int64"
  "member_type gdt_cct_LogEvent ''has_network_connection_info'' = Some C_bool"
  "member_type gdt_cct_LogEvent ''network_connection_info'' = Some (C_struct gdt_cct_NetworkConnectionInfo)"
  by (simp_all add: gdt_cct_LogEvent_def)

lemma gdt_cct_LogRequest_layout [simp]:
  "members_align gdt_cct_LogRequest = 8" "members_end gdt_cct_LogRequest 0 = 144"
  by (simp_all add: gdt_cct_LogRequest_def align_up_def)

lemma gdt_cct_LogRequest_offsets [simp]:
  "offsetof gdt_cct_LogRequest ''has_client_info'' = 0"
  "offsetof gdt_cct_LogRequest ''client_info'' = 8"
  "offsetof gdt_cct_LogRequest ''has_log_source'' = 80"
  "offsetof gdt_cct_LogRequest ''log_source'' = 84"
  "offsetof gdt_cct_LogRequest ''log_event_count'' = 88"
  "offsetof gdt_cct_LogRequest ''log_event'' = 96"
  "offsetof gdt_cct_LogRequest ''has_request_time_ms'' = 104"
  "offsetof gdt_cct_LogRequest ''request_time_ms'' = 112"
  "offsetof gdt_cct_LogRequest ''has_request_uptime_ms'' = 120"
  "offsetof gdt_cct_LogRequest ''request_uptime_ms'' = 128"
  "offsetof gdt_cct_LogRequest ''has_qos_tier'' = 136"
  "offsetof gdt_cct_LogRequest ''qos_tier'' = 140"
  by (simp_all add: gdt_cct_LogRequest_def offsetof_def align_up_def)

lemma gdt_cct_LogRequest_types [simp]:
  "member_type gdt_cct_LogRequest ''has_client_info'' = Some C_bool"
  "member_type gdt_cct_LogRequest ''client_info'' = Some (C_struct gdt_cct_ClientInfo)"
  "member_type gdt_cct_LogRequest ''has_log_source'' = Some C_bool"
  "member_type gdt_cct_LogRequest ''log_source'' = Some C_int32"
  "member_type gdt_cct_LogRequest ''log_event_count'' = Some C_uint32"
  "member_type gdt_cct_LogRequest ''log_event'' = Some (C_ptr (C_struct gdt_cct_LogEvent))"
  "member_type gdt_cct_LogRequest ''has_request_time_ms'' = Some C_bool"
  "member_type gdt_cct_LogRequest ''request_time_ms'' = Some C_int64"
  "member_type gdt_cct_LogRequest ''has_request_uptime_ms'' = Some C_bool"
  "member_type gdt_cct_LogRequest ''request_uptime_ms'' = Some C_int64"
  "member_type gdt_cct_LogRequest ''has_qos_tier'' = Some C_bool"
  "member_type gdt_cct_LogRequest ''qos_tier'' = Some C_enum"
  by (simp_all add: gdt_cct_LogRequest_def)

lemma gdt_cct_BatchedLogRequest_layout [simp]:
  "members_align gdt_cct_BatchedLogRequest = 8" "members_end gdt_cct_BatchedLogRequest 0 = 16"
  by (simp_all add: gdt_cct_BatchedLogRequest_def align_up_def)

lemma gdt_cct_BatchedLogRequest_offsets [simp]:
  "offsetof gdt_cct_BatchedLogRequest ''log_request_count'' = 0"
  "offsetof gdt_cct_BatchedLogRequest ''log_request'' = 8"
  by (simp_all add: gdt_cct_BatchedLogRequest_def offsetof_def align_up_def)

lemma gdt_cct_BatchedLogRequest_types [simp]:
  "member_type gdt_cct_BatchedLogRequest ''log_request_count'' = Some C_uint32"
  "member_type gdt_cct_BatchedLogRequest ''log_request'' = Some (C_ptr (C_struct gdt_cct_LogRequest))"
  by (simp_all add: gdt_cct_BatchedLogRequest_def)

lemma gdt_cct_QosTierConfiguration_layout [simp]:
  "members_align gdt_cct_QosTierConfiguration = 4" "members_end gdt_cct_QosTierConfiguration 0 = 16"
  by (simp_all add: gdt_cct_QosTierConfiguration_def align_up_def)

lemma gdt_cct_QosTierConfiguration_offsets [simp]:
  "offsetof gdt_cct_QosTierConfiguration ''has_qos_tier'' = 0"
  "offsetof gdt_cct_QosTierConfiguration ''qos_tier'' = 4"
  "offsetof gdt_cct_QosTierConfiguration ''has_log_source'' = 8"
  "offsetof gdt_cct_QosTierConfiguration ''log_source'' = 12"
  by (simp_all add: gdt_cct_QosTierConfiguration_def offsetof_def align_up_def)

lemma gdt_cct_QosTierConfiguration_types [simp]:
  "member_type gdt_cct_QosTierConfiguration ''has_qos_tier'' = Some C_bool"
  "member_type gdt_cct_QosTierConfiguration ''qos_tier'' = Some C_enum"
  "member_type gdt_cct_QosTierConfiguration ''has_log_source'' = Some C_bool"
  "member_type gdt_cct_QosTierConfiguration ''log_source'' = Some C_int32"
  by (simp_all add: gdt_cct_QosTierConfiguration_def)

lemma gdt_cct_QosTiersOverride_layout [simp]:
  "members_align gdt_cct_QosTiersOverride = 8" "members_end gdt_cct_QosTiersOverride 0 = 32"
  by (simp_all add: gdt_cct_QosTiersOverride_def align_up_def)

lemma gdt_cct_QosTiersOverride_offsets [simp]:
  "offsetof gdt_cct_QosTiersOverride ''qos_tier_configuration_count'' = 0"
  "offsetof gdt_cct_QosTiersOverride ''qos_tier_configuration'' = 8"
  "offsetof gdt_cct_QosTiersOverride ''has_qos_tier_fingerprint'' = 16"
  "offsetof gdt_cct_QosTiersOverride ''qos_tier_fingerprint'' = 24"
  by (simp_all add: gdt_cct_QosTiersOverride_def offsetof_def align_up_def)

lemma gdt_cct_QosTiersOverride_types [simp]:
  "member_type gdt_cct_QosTiersOverride ''qos_tier_configuration_count'' = Some C_uint32"
  "member_type gdt_cct_QosTiersOverride ''qos_tier_configuration'' = Some (C_ptr (C_struct gdt_cct_QosTierConfiguration))"
  "member_type gdt_cct_QosTiersOverride ''has_qos_tier_fingerprint'' = Some C_bool"
  "member_type gdt_cct_QosTiersOverride ''qos_tier_fingerprint'' = Some C_int64"
  by (simp_all add: gdt_cct_QosTiersOverride_def)

lemma gdt_cct_LogResponse_layout [simp]:
  "members_align gdt_cct_LogResponse = 8" "members_end gdt_cct_LogResponse 0 = 56"
  by (simp_all add: gdt_cct_LogResponse_def align_up_def)

lemma gdt_cct_LogResponse_offsets [simp]:
  "offsetof gdt_cct_LogResponse ''has_next_request_wait_millis'' = 0"
  "offsetof gdt_cct_LogResponse ''next_request_wait_millis'' = 8"
  "offsetof gdt_cct_LogResponse ''has_qos_tier'' = 16"
  "offsetof gdt_cct_LogResponse ''qos_tier'' = 24"
  by (simp_all add: gdt_cct_LogResponse_def offsetof_def align_up_def)

lemma gdt_cct_LogResponse_types [simp]:
  "member_type gdt_cct_LogResponse ''has_next_request_wait_millis'' = Some C_bool"
  "member_type gdt_cct_LogResponse ''next_request_wait_millis'' = Some C_int64"
  "member_type gdt_cct_LogResponse ''has_qos_tier'' = Some C_bool"
  "member_type gdt_cct_LogResponse ''qos_tier'' = Some (C_struct gdt_cct_QosTiersOverride)"
  by (simp_all add: gdt_cct_LogResponse_def)

lemmas cct_tags =
  gdt_cct_BatchedLogRequest_log_request_tag_def
  gdt_cct_IosClientInfo_os_major_version_tag_def
  gdt_cct_IosClientInfo_os_full_version_tag_def
  gdt_cct_IosClientInfo_application_build_tag_def
  gdt_cct_IosClientInfo_country_tag_def
  gdt_cct_IosClientInfo_model_tag_def
  gdt_cct_IosClientInfo_language_code_tag_def
  gdt_cct_IosClientInfo_application_bundle_id_tag_def
  gdt_cct_ClientInfo_client_type_tag_def
  gdt_cct_ClientInfo_ios_client_info_tag_def
  gdt_cct_NetworkConnectionInfo_network_type_tag_def
  gdt_cct_NetworkConnectionInfo_mobile_subtype_tag_def
  gdt_cct_QosTierConfiguration_qos_tier_tag_def
  gdt_cct_QosTierConfiguration_log_source_tag_def
  gdt_cct_QosTiersOverride_qos_tier_configuration_tag_def
  gdt_cct_QosTiersOverride_qos_tier_fingerprint_tag_def
  gdt_cct_LogEvent_event_time_ms_tag_def
  gdt_cct_LogEvent_event_code_tag_def
  gdt_cct_LogEvent_event_uptime_ms_tag_def
  gdt_cct_LogEvent_source_extension_tag_def
  gdt_cct_LogEvent_timezone_offset_seconds_tag_def
  gdt_cct_LogEvent_network_connection_info_tag_def
  gdt_cct_LogRequest_request_time_ms_tag_def
  gdt_cct_LogRequest_request_uptime_ms_tag_def
  gdt_cct_LogRequest_client_info_tag_def
  gdt_cct_LogRequest_log_source_tag_def
  gdt_cct_LogRequest_log_event_tag_def
  gdt_cct_LogRequest_qos_tier_tag_def
  gdt_cct_LogResponse_next_request_wait_millis_tag_def
  gdt_cct_LogResponse_qos_tier_tag_def

lemma gdt_cct_NetworkConnectionInfo_describes: "describes gdt_cct_NetworkConnectionInfo gdt_cct_NetworkConnectionInfo_specs gdt_cct_NetworkConnectionInfo_fields"
  unfolding describes_def
  by (intro conjI; simp add: gdt_cct_NetworkConnectionInfo_fields_def gdt_cct_NetworkConnectionInfo_specs_def cct_tags placed_simps)

lemma gdt_cct_LogEvent_describes: "describes gdt_cct_LogEvent gdt_cct_LogEvent_specs gdt_cct_LogEvent_fields"
  unfolding describes_def
  by (intro conjI; simp add: gdt_cct_LogEvent_fields_def gdt_cct_LogEvent_specs_def cct_tags placed_simps)

lemma gdt_cct_IosClientInfo_describes: "describes gdt_cct_IosClientInfo gdt_cct_IosClientInfo_specs gdt_cct_IosClientInfo_fields"
  unfolding describes_def
  by (intro conjI; simp add: gdt_cct_IosClientInfo_fields_def gdt_cct_IosClientInfo_specs_def cct_tags placed_simps)

lemma gdt_cct_ClientInfo_describes: "describes gdt_cct_ClientInfo gdt_cct_ClientInfo_specs gdt_cct_ClientInfo_fields"
  unfolding describes_def
  by (intro conjI; simp add: gdt_cct_ClientInfo_fields_def gdt_cct_ClientInfo_specs_def cct_tags placed_simps)

lemma gdt_cct_LogRequest_describes: "describes gdt_cct_LogRequest gdt_cct_LogRequest_specs gdt_cct_LogRequest_fields"
  unfolding describes_def
  by (intro conjI; simp add: gdt_cct_LogRequest_fields_def gdt_cct_LogRequest_specs_def cct_tags placed_simps)

lemma gdt_cct_BatchedLogRequest_describes: "describes gdt_cct_BatchedLogRequest gdt_cct_BatchedLogRequest_specs gdt_cct_BatchedLogRequest_fields"
  unfolding describes_def
  by (intro conjI; simp add: gdt_cct_BatchedLogRequest_fields_def gdt_cct_BatchedLogRequest_specs_def cct_tags placed_simps)

lemma gdt_cct_QosTierConfiguration_describes: "describes gdt_cct_QosTierConfiguration gdt_cct_QosTierConfiguration_specs gdt_cct_QosTierConfiguration_fields"
  unfolding describes_def
  by (intro conjI; simp add: gdt_cct_QosTierConfiguration_fields_def gdt_cct_QosTierConfiguration_specs_def cct_tags placed_simps)

lemma gdt_cct_QosTiersOverride_describes: "describes gdt_cct_QosTiersOverride gdt_cct_QosTiersOverride_specs gdt_cct_QosTiersOverride_fields"
  unfolding describes_def
  by (intro conjI; simp add: gdt_cct_QosTiersOverride_fields_def gdt_cct_QosTiersOverride_specs_def cct_tags placed_simps)

lemma gdt_cct_LogResponse_describes: "describes gdt_cct_LogResponse gdt_cct_LogResponse_specs gdt_cct_LogResponse_fields"
  unfolding describes_def
  by (intro conjI; simp add: gdt_cct_LogResponse_fields_def gdt_cct_LogResponse_specs_def cct_tags placed_simps)

subsection \<open>Descriptor values\<close>

lemma gdt_cct_NetworkConnectionInfo_values:
  "gdt_cct_NetworkConnectionInfo_fields = [
    Pb_field 1 0x11 4 (- 4) 4 0 (Ptr_default gdt_cct_NetworkConnectionInfo_network_type_default),
    Pb_field 2 0x12 4 (- 4) 4 0 (Ptr_default gdt_cct_NetworkConnectionInfo_mobile_subtype_default),
    PB_LAST_FIELD]"
  by (simp add: gdt_cct_NetworkConnectionInfo_fields_def PB_FIELD_simps)

lemma gdt_cct_LogEvent_values:
  "gdt_cct_LogEvent_fields = [
    Pb_field 1 0x11 8 (- 8) 8 0 Ptr_null,
    Pb_field 6 0x96 0 0 8 0 Ptr_null,
    Pb_field 11 0x11 4 (- 4) 4 0 Ptr_null,
    Pb_field 15 0x13 8 (- 8) 8 0 Ptr_null,
    Pb_field 17 0x11 8 (- 8) 8 0 Ptr_null,
    Pb_field 23 0x18 4 (- 4) 16 0 (Ptr_fields gdt_cct_NetworkConnectionInfo_fields),
    PB_LAST_FIELD]"
  by (simp add: gdt_cct_LogEvent_fields_def PB_FIELD_simps)

lemma gdt_cct_IosClientInfo_values:
  "gdt_cct_IosClientInfo_fields = [
    Pb_field 3 0x96 0 0 8 0 Ptr_null,
    Pb_field 4 0x96 0 0 8 0 Ptr_null,
    Pb_field 5 0x96 0 0 8 0 Ptr_null,
    Pb_field 6 0x96 0 0 8 0 Ptr_null,
    Pb_field 7 0x96 0 0 8 0 Ptr_null,
    Pb_field 8 0x96 0 0 8 0 Ptr_null,
    Pb_field 11 0x96 0 0 8 0 Ptr_null,
    PB_LAST_FIELD]"
  by (simp add: gdt_cct_IosClientInfo_fields_def PB_FIELD_simps)

lemma gdt_cct_ClientInfo_values:
  "gdt_cct_ClientInfo_fields = [
    Pb_field 1 0x12 4 (- 4) 4 0 Ptr_null,
    Pb_field 4 0x18 8 (- 8) 56 0 (Ptr_fields gdt_cct_IosClientInfo_fields),
    PB_LAST_FIELD]"
  by (simp add: gdt_cct_ClientInfo_fields_def PB_FIELD_simps)

lemma gdt_cct_LogRequest_values:
  "gdt_cct_LogRequest_fields = [
    Pb_field 1 0x18 8 (- 8) 72 0 (Ptr_fields gdt_cct_ClientInfo_fields),
    Pb_field 2 0x11 4 (- 4) 4 0 Ptr_null,
    Pb_field 3 0xa8 8 (- 8) 88 0 (Ptr_fields gdt_cct_LogEvent_fields),
    Pb_field 4 0x11 8 (- 8) 8 0 Ptr_null,
    Pb_field 8 0x11 8 (- 8) 8 0 Ptr_null,
    Pb_field 9 0x12 4 (- 4) 4 0 (Ptr_default gdt_cct_LogRequest_qos_tier_default),
    PB_LAST_FIELD]"
  by (simp add: gdt_cct_LogRequest_fields_def PB_FIELD_simps)

lemma gdt_cct_BatchedLogRequest_values:
  "gdt_cct_BatchedLogRequest_fields = [
    Pb_field 1 0xa8 8 (- 8) 144 0 (Ptr_fields gdt_cct_LogRequest_fields),
    PB_LAST_FIELD]"
  by (simp add: gdt_cct_BatchedLogRequest_fields_def PB_FIELD_simps)

lemma gdt_cct_QosTierConfiguration_values:
  "gdt_cct_QosTierConfiguration_fields = [
    Pb_field 2 0x12 4 (- 4) 4 0 Ptr_null,
    Pb_field 3 0x11 4 (- 4) 4 0 (Ptr_default gdt_cct_QosTierConfiguration_log_source_default),
    PB_LAST_FIELD]"
  by (simp add: gdt_cct_QosTierConfiguration_fields_def PB_FIELD_simps)

lemma gdt_cct_QosTiersOverride_values:
  "gdt_cct_QosTiersOverride_fields = [
    Pb_field 1 0xa8 8 (- 8) 16 0 (Ptr_fields gdt_cct_QosTierConfiguration_fields),
    Pb_field 2 0x11 8 (- 8) 8 0 Ptr_null,
    PB_LAST_FIELD]"
  by (simp add: gdt_cct_QosTiersOverride_fields_def PB_FIELD_simps)

lemma gdt_cct_LogResponse_values:
  "gdt_cct_LogResponse_fields = [
    Pb_field 1 0x11 8 (- 8) 8 0 Ptr_null,
    Pb_field 3 0x18 8 (- 8) 32 0 (Ptr_fields gdt_cct_QosTiersOverride_fields),
    PB_LAST_FIELD]"
  by (simp add: gdt_cct_LogResponse_fields_def PB_FIELD_simps)

subsection \<open>Defaults\<close>

lemma gdt_cct_NetworkConnectionInfo_defaults:
  "map_option blocks (pb_message_set_to_defaults 3 e gdt_cct_NetworkConnectionInfo_fields (Ptr 0 0)
     (one_object ad fails calls (replicate 16 Undef))) =
   Some [\<lparr>on_heap = False, live = True, cells = init_cells (C_struct gdt_cct_NetworkConnectionInfo) (I_struct gdt_cct_NetworkConnectionInfo_init_default)\<rparr>]"
  unfolding gdt_cct_NetworkConnectionInfo_values by code_simp

lemma gdt_cct_LogEvent_defaults:
  "map_option blocks (pb_message_set_to_defaults 3 e gdt_cct_LogEvent_fields (Ptr 0 0)
     (one_object ad fails calls (replicate 88 Undef))) =
   Some [\<lparr>on_heap = False, live = True, cells = init_cells (C_struct gdt_cct_LogEvent) (I_struct gdt_cct_LogEvent_init_default)\<rparr>]"
  unfolding gdt_cct_LogEvent_values by code_simp

lemma gdt_cct_IosClientInfo_defaults:
  "map_option blocks (pb_message_set_to_defaults 3 e gdt_cct_IosClientInfo_fields (Ptr 0 0)
     (one_object ad fails calls (replicate 56 Undef))) =
   Some [\<lparr>on_heap = False, live = True, cells = init_cells (C_struct gdt_cct_IosClientInfo) (I_struct gdt_cct_IosClientInfo_init_default)\<rparr>]"
  unfolding gdt_cct_IosClientInfo_values by code_simp

lemma gdt_cct_ClientInfo_defaults:
  "map_option blocks (pb_message_set_to_defaults 3 e gdt_cct_ClientInfo_fields (Ptr 0 0)
     (one_object ad fails calls (replicate 72 Undef))) =
   Some [\<lparr>on_heap = False, live = True, cells = init_cells (C_struct gdt_cct_ClientInfo) (I_struct gdt_cct_ClientInfo_init_default)\<rparr>]"
  unfolding gdt_cct_ClientInfo_values by code_simp

lemma gdt_cct_LogRequest_defaults:
  "map_option blocks (pb_message_set_to_defaults 3 e gdt_cct_LogRequest_fields (Ptr 0 0)
     (one_object ad fails calls (replicate 144 Undef))) =
   Some [\<lparr>on_heap = False, live = True, cells = init_cells (C_struct gdt_cct_LogRequest) (I_struct gdt_cct_LogRequest_init_default)\<rparr>]"
  unfolding gdt_cct_LogRequest_values by code_simp

lemma gdt_cct_BatchedLogRequest_defaults:
  "map_option blocks (pb_message_set_to_defaults 3 e gdt_cct_BatchedLogRequest_fields (Ptr 0 0)
     (one_object ad fails calls (replicate 16 Undef))) =
   Some [\<lparr>on_heap = False, live = True, cells = init_cells (C_struct gdt_cct_BatchedLogRequest) (I_struct gdt_cct_BatchedLogRequest_init_default)\<rparr>]"
  unfolding gdt_cct_BatchedLogRequest_values by code_simp

lemma gdt_cct_QosTierConfiguration_defaults:
  "map_option blocks (pb_message_set_to_defaults 3 e gdt_cct_QosTierConfiguration_fields (Ptr 0 0)
     (one_object ad fails calls (replicate 16 Undef))) =
   Some [\<lparr>on_heap = False, live = True, cells = init_cells (C_struct gdt_cct_QosTierConfiguration) (I_struct gdt_cct_QosTierConfiguration_init_default)\<rparr>]"
  unfolding gdt_cct_QosTierConfiguration_values by code_simp

lemma gdt_cct_QosTiersOverride_defaults:
  "map_option blocks (pb_message_set_to_defaults 3 e gdt_cct_QosTiersOverride_fields (Ptr 0 0)
     (one_object ad fails calls (replicate 32 Undef))) =
   Some [\<lparr>on_heap = False, live = True, cells = init_cells (C_struct gdt_cct_QosTiersOverride) (I_struct gdt_cct_QosTiersOverride_init_default)\<rparr>]"
  unfolding gdt_cct_QosTiersOverride_values by code_simp

lemma gdt_cct_LogResponse_defaults:
  "map_option blocks (pb_message_set_to_defaults 3 e gdt_cct_LogResponse_fields (Ptr 0 0)
     (one_object ad fails calls (replicate 56 Undef))) =
   Some [\<lparr>on_heap = False, live = True, cells = init_cells (C_struct gdt_cct_LogResponse) (I_struct gdt_cct_LogResponse_init_default)\<rparr>]"
  unfolding gdt_cct_LogResponse_values by code_simp

end
