(* ===== verification/Firebasecore.thy ===== *)
theory Firebasecore
  imports Pb_Layout Pb_Decode
begin

text \<open>
  The message of the core diagnostics, generated from its protocol buffer file into
  \<^verbatim>\<open>firebasecore.nanopb.h\<close> and \<^verbatim>\<open>firebasecore.nanopb.c\<close>, with the same lemmas as for the log transport.
\<close>

subsection \<open>Enumerations\<close>

datatype logs_proto_mobilesdk_ios_ICoreConfiguration_ConfigurationType =
    logs_proto_mobilesdk_ios_ICoreConfiguration_ConfigurationType_UNKNOWN_CONFIGURATION_TYPE
  | logs_proto_mobilesdk_ios_ICoreConfiguration_ConfigurationType_CORE
  | logs_proto_mobilesdk_ios_ICoreConfiguration_ConfigurationType_SDK

primrec logs_proto_mobilesdk_ios_ICoreConfiguration_ConfigurationType_value :: "logs_proto_mobilesdk_ios_ICoreConfiguration_ConfigurationType \<Rightarrow> int" where
  "logs_proto_mobilesdk_ios_ICoreConfiguration_ConfigurationType_value logs_proto_mobilesdk_ios_ICoreConfiguration_ConfigurationType_UNKNOWN_CONFIGURATION_TYPE = 0"
| "logs_proto_mobilesdk_ios_ICoreConfiguration_ConfigurationType_value logs_proto_mobilesdk_ios_ICoreConfiguration_ConfigurationType_CORE = 1"
| "logs_proto_mobilesdk_ios_ICoreConfiguration_ConfigurationType_value logs_proto_mobilesdk_ios_ICoreConfiguration_ConfigurationType_SDK = 2"

definition logs_proto_mobilesdk_ios_ICoreConfiguration_ConfigurationType_MIN :: logs_proto_mobilesdk_ios_ICoreConfiguration_ConfigurationType where "logs_proto_mobilesdk_ios_ICoreConfiguration_ConfigurationType_MIN = logs_proto_mobilesdk_ios_ICoreConfiguration_ConfigurationType_UNKNOWN_CONFIGURATION_TYPE"

definition logs_proto_mobilesdk_ios_ICoreConfiguration_ConfigurationType_MAX :: logs_proto_mobilesdk_ios_ICoreConfiguration_ConfigurationType where "logs_proto_mobilesdk_ios_ICoreConfiguration_ConfigurationType_MAX = logs_proto_mobilesdk_ios_ICoreConfiguration_ConfigurationType_SDK"

definition logs_proto_mobilesdk_ios_ICoreConfiguration_ConfigurationType_ARRAYSIZE :: int where "logs_proto_mobilesdk_ios_ICoreConfiguration_ConfigurationType_ARRAYSIZE = logs_proto_mobilesdk_ios_ICoreConfiguration_ConfigurationType_value logs_proto_mobilesdk_ios_ICoreConfiguration_ConfigurationType_SDK + 1"

datatype logs_proto_mobilesdk_ios_ICoreConfiguration_BuildType =
    logs_proto_mobilesdk_ios_ICoreConfiguration_BuildType_UNKNOWN_BUILD_TYPE
  | logs_proto_mobilesdk_ios_ICoreConfiguration_BuildType_INTERNAL
  | logs_proto_mobilesdk_ios_ICoreConfiguration_BuildType_EAP
  | logs_proto_mobilesdk_ios_ICoreConfiguration_BuildType_PROD

primrec logs_proto_mobilesdk_ios_ICoreConfiguration_BuildType_value :: "logs_proto_mobilesdk_ios_ICoreConfiguration_BuildType \<Rightarrow> int" where
  "logs_proto_mobilesdk_ios_ICoreConfiguration_BuildType_value logs_proto_mobilesdk_ios_ICoreConfiguration_BuildType_UNKNOWN_BUILD_TYPE = 0"
| "logs_proto_mobilesdk_ios_ICoreConfiguration_BuildType_value logs_proto_mobilesdk_ios_ICoreConfiguration_BuildType_INTERNAL = 1"
| "logs_proto_mobilesdk_ios_ICoreConfiguration_BuildType_value logs_proto_mobilesdk_ios_ICoreConfiguration_BuildType_EAP = 2"
| "logs_proto_mobilesdk_ios_ICoreConfiguration_BuildType_value logs_proto_mobilesdk_ios_ICoreConfiguration_BuildType_PROD = 3"

definition logs_proto_mobilesdk_ios_ICoreConfiguration_BuildType_MIN :: logs_proto_mobilesdk_ios_ICoreConfiguration_BuildType where "logs_proto_mobilesdk_ios_ICoreConfiguration_BuildType_MIN = logs_proto_mobilesdk_ios_ICoreConfiguration_BuildType_UNKNOWN_BUILD_TYPE"

definition logs_proto_mobilesdk_ios_ICoreConfiguration_BuildType_MAX :: logs_proto_mobilesdk_ios_ICoreConfiguration_BuildType where "logs_proto_mobilesdk_ios_ICoreConfiguration_BuildType_MAX = logs_proto_mobilesdk_ios_ICoreConfiguration_BuildType_PROD"

definition logs_proto_mobilesdk_ios_ICoreConfiguration_BuildType_ARRAYSIZE :: int where "logs_proto_mobilesdk_ios_ICoreConfiguration_BuildType_ARRAYSIZE = logs_proto_mobilesdk_ios_ICoreConfiguration_BuildType_value logs_proto_mobilesdk_ios_ICoreConfiguration_BuildType_PROD + 1"

datatype logs_proto_mobilesdk_ios_ICoreConfiguration_ServiceType =
    logs_proto_mobilesdk_ios_ICoreConfiguration_ServiceType_UNKNOWN_SDK_SERVICE
  | logs_proto_mobilesdk_ios_ICoreConfiguration_ServiceType_ICORE
  | logs_proto_mobilesdk_ios_ICoreConfiguration_ServiceType_ADMOB
  | logs_proto_mobilesdk_ios_ICoreConfiguration_ServiceType_APP_INVITE
  | logs_proto_mobilesdk_ios_ICoreConfiguration_ServiceType_SIGN_IN
  | logs_proto_mobilesdk_ios_ICoreConfiguration_ServiceType_GCM
  | logs_proto_mobilesdk_ios_ICoreConfiguration_ServiceType_MAPS
  | logs_proto_mobilesdk_ios_ICoreConfiguration_ServiceType_SCION
  | logs_proto_mobilesdk_ios_ICoreConfiguration_ServiceType_ANALYTICS
  | logs_proto_mobilesdk_ios_ICoreConfiguration_ServiceType_APP_INDEXING
  | logs_proto_mobilesdk_ios_ICoreConfiguration_ServiceType_CONFIG
  | logs_proto_mobilesdk_ios_ICoreConfiguration_ServiceType_DURABLE_DEEP_LINKS
  | logs_proto_mobilesdk_ios_ICoreConfiguration_ServiceType_CRASH
  | logs_proto_mobilesdk_ios_ICoreConfiguration_ServiceType_AUTH
  | logs_proto_mobilesdk_ios_ICoreConfiguration_ServiceType_DATABASE
  | logs_proto_mobilesdk_ios_ICoreConfiguration_ServiceType_STORAGE
  | logs_proto_mobilesdk_ios_ICoreConfiguration_ServiceType_MESSAGING
  | logs_proto_mobilesdk_ios_ICoreConfiguration_ServiceType_MEASUREMENT
  | logs_proto_mobilesdk_ios_ICoreConfiguration_ServiceType_REMOTE_CONFIG
  | logs_proto_mobilesdk_ios_ICoreConfiguration_ServiceType_DYNAMIC_LINKS
  | logs_proto_mobilesdk_ios_ICoreConfiguration_ServiceType_INVITES
  | logs_proto_mobilesdk_ios_ICoreConfiguration_ServiceType_AUTH_UI
  | logs_proto_mobilesdk_ios_ICoreConfiguration_ServiceType_FIRESTORE
  | logs_proto_mobilesdk_ios_ICoreConfiguration_ServiceType_PERFORMANCE
  | logs_proto_mobilesdk_ios_ICoreConfiguration_ServiceType_ML_VISION_ON_DEVICE_FACE
  | logs_proto_mobilesdk_ios_ICoreConfiguration_ServiceType_ML_VISION_ON_DEVICE_BARCODE
  | logs_proto_mobilesdk_ios_ICoreConfiguration_ServiceType_ML_VISION_ON_DEVICE_TEXT
  | logs_proto_mobilesdk_ios_ICoreConfiguration_ServiceType_ML_VISION_ON_DEVICE_LABEL
  | logs_proto_mobilesdk_ios_ICoreConfiguration_ServiceType_ML_MODEL_INTERPRETER
  | logs_proto_mobilesdk_ios_ICoreConfiguration_ServiceType_IN_APP_MESSAGING
  | logs_proto_mobilesdk_ios_ICoreConfiguration_ServiceType_FUNCTIONS
  | logs_proto_mobilesdk_ios_ICoreConfiguration_ServiceType_ML_NATURAL_LANGUAGE
  | logs_proto_mobilesdk_ios_ICoreConfiguration_ServiceType_ML_VISION_ON_DEVICE_AUTOML
  | logs_proto_mobilesdk_ios_ICoreConfiguration_ServiceType_ML_VISION_ON_DEVICE_OBJECT_DETECTION

primrec logs_proto_mobilesdk_ios_ICoreConfiguration_ServiceType_value :: "logs_proto_mobilesdk_ios_ICoreConfiguration_ServiceType \<Rightarrow> int" where
  "logs_proto_mobilesdk_ios_ICoreConfiguration_ServiceType_value logs_proto_mobilesdk_ios_ICoreConfiguration_ServiceType_UNKNOWN_SDK_SERVICE = 0"
| "logs_proto_mobilesdk_ios_ICoreConfiguration_ServiceType_value logs_proto_mobilesdk_ios_ICoreConfiguration_ServiceType_ICORE = 1"
| "logs_proto_mobilesdk_ios_ICoreConfiguration_ServiceType_value logs_proto_mobilesdk_ios_ICoreConfiguration_ServiceType_ADMOB = 2"
| "logs_proto_mobilesdk_ios_ICoreConfiguration_ServiceType_value logs_proto_mobilesdk_ios_ICoreConfiguration_ServiceType_APP_INVITE = 3"
| "logs_proto_mobilesdk_ios_ICoreConfiguration_ServiceType_value logs_proto_mobilesdk_ios_ICoreConfiguration_ServiceType_SIGN_IN = 5"
| "logs_proto_mobilesdk_ios_ICoreConfiguration_ServiceType_value logs_proto_mobilesdk_ios_ICoreConfiguration_ServiceType_GCM = 6"
| "logs_proto_mobilesdk_ios_ICoreConfiguration_ServiceType_value logs_proto_mobilesdk_ios_ICoreConfiguration_ServiceType_MAPS = 7"
| "logs_proto_mobilesdk_ios_ICoreConfiguration_ServiceType_value logs_proto_mobilesdk_ios_ICoreConfiguration_ServiceType_SCION = 8"
| "logs_proto_mobilesdk_ios_ICoreConfiguration_ServiceType_value logs_proto_mobilesdk_ios_ICoreConfiguration_ServiceType_ANALYTICS = 9"
| "logs_proto_mobilesdk_ios_ICoreConfiguration_ServiceType_value logs_proto_mobilesdk_ios_ICoreConfiguration_ServiceType_APP_INDEXING = 10"
| "logs_proto_mobilesdk_ios_ICoreConfiguration_ServiceType_value logs_proto_mobilesdk_ios_ICoreConfiguration_ServiceType_CONFIG = 11"
| "logs_proto_mobilesdk_ios_ICoreConfiguration_ServiceType_value logs_proto_mobilesdk_ios_ICoreConfiguration_ServiceType_DURABLE_DEEP_LINKS = 12"
| "logs_proto_mobilesdk_ios_ICoreConfiguration_ServiceType_value logs_proto_mobilesdk_ios_ICoreConfiguration_ServiceType_CRASH = 13"
| "logs_proto_mobilesdk_ios_ICoreConfiguration_ServiceType_value logs_proto_mobilesdk_ios_ICoreConfiguration_ServiceType_AUTH = 14"
| "logs_proto_mobilesdk_ios_ICoreConfiguration_ServiceType_value logs_proto_mobilesdk_ios_ICoreConfiguration_ServiceType_DATABASE = 15"
| "logs_proto_mobilesdk_ios_ICoreConfiguration_ServiceType_value logs_proto_mobilesdk_ios_ICoreConfiguration_ServiceType_STORAGE = 16"
| "logs_proto_mobilesdk_ios_ICoreConfiguration_ServiceType_value logs_proto_mobilesdk_ios_ICoreConfiguration_ServiceType_MESSAGING = 17"
| "logs_proto_mobilesdk_ios_ICoreConfiguration_ServiceType_value logs_proto_mobilesdk_ios_ICoreConfiguration_ServiceType_MEASUREMENT = 18"
| "logs_proto_mobilesdk_ios_ICoreConfiguration_ServiceType_value logs_proto_mobilesdk_ios_ICoreConfiguration_ServiceType_REMOTE_CONFIG = 19"
| "logs_proto_mobilesdk_ios_ICoreConfiguration_ServiceType_value logs_proto_mobilesdk_ios_ICoreConfiguration_ServiceType_DYNAMIC_LINKS = 20"
| "logs_proto_mobilesdk_ios_ICoreConfiguration_ServiceType_value logs_proto_mobilesdk_ios_ICoreConfiguration_ServiceType_INVITES = 21"
| "logs_proto_mobilesdk_ios_ICoreConfiguration_ServiceType_value logs_proto_mobilesdk_ios_ICoreConfiguration_ServiceType_AUTH_UI = 22"
| "logs_proto_mobilesdk_ios_ICoreConfiguration_ServiceType_value logs_proto_mobilesdk_ios_ICoreConfiguration_ServiceType_FIRESTORE = 23"
| "logs_proto_mobilesdk_ios_ICoreConfiguration_ServiceType_value logs_proto_mobilesdk_ios_ICoreConfiguration_ServiceType_PERFORMANCE = 24"
| "logs_proto_mobilesdk_ios_ICoreConfiguration_ServiceType_value logs_proto_mobilesdk_ios_ICoreConfiguration_ServiceType_ML_VISION_ON_DEVICE_FACE = 26"
| "logs_proto_mobilesdk_ios_ICoreConfiguration_ServiceType_value logs_proto_mobilesdk_ios_ICoreConfiguration_ServiceType_ML_VISION_ON_DEVICE_BARCODE = 27"
| "logs_proto_mobilesdk_ios_ICoreConfiguration_ServiceType_value logs_proto_mobilesdk_ios_ICoreConfiguration_ServiceType_ML_VISION_ON_DEVICE_TEXT = 28"
| "logs_proto_mobilesdk_ios_ICoreConfiguration_ServiceType_value logs_proto_mobilesdk_ios_ICoreConfiguration_ServiceType_ML_VISION_ON_DEVICE_LABEL = 29"
| "logs_proto_mobilesdk_ios_ICoreConfiguration_ServiceType_value logs_proto_mobilesdk_ios_ICoreConfiguration_ServiceType_ML_MODEL_INTERPRETER = 30"
| "logs_proto_mobilesdk_ios_ICoreConfiguration_ServiceType_value logs_proto_mobilesdk_ios_ICoreConfiguration_ServiceType_IN_APP_MESSAGING = 31"
| "logs_proto_mobilesdk_ios_ICoreConfiguration_ServiceType_value logs_proto_mobilesdk_ios_ICoreConfiguration_ServiceType_FUNCTIONS = 32"
| "logs_proto_mobilesdk_ios_ICoreConfiguration_ServiceType_value logs_proto_mobilesdk_ios_ICoreConfiguration_ServiceType_ML_NATURAL_LANGUAGE = 33"
| "logs_proto_mobilesdk_ios_ICoreConfiguration_ServiceType_value logs_proto_mobilesdk_ios_ICoreConfiguration_ServiceType_ML_VISION_ON_DEVICE_AUTOML = 34"
| "logs_proto_mobilesdk_ios_ICoreConfiguration_ServiceType_value logs_proto_mobilesdk_ios_ICoreConfiguration_ServiceType_ML_VISION_ON_DEVICE_OBJECT_DETECTION = 35"

definition logs_proto_mobilesdk_ios_ICoreConfiguration_ServiceType_MIN :: logs_proto_mobilesdk_ios_ICoreConfiguration_ServiceType where "logs_proto_mobilesdk_ios_ICoreConfiguration_ServiceType_MIN = logs_proto_mobilesdk_ios_ICoreConfiguration_ServiceType_UNKNOWN_SDK_SERVICE"

definition logs_proto_mobilesdk_ios_ICoreConfiguration_ServiceType_MAX :: logs_proto_mobilesdk_ios_ICoreConfiguration_ServiceType where "logs_proto_mobilesdk_ios_ICoreConfiguration_ServiceType_MAX = logs_proto_mobilesdk_ios_ICoreConfiguration_ServiceType_ML_VISION_ON_DEVICE_OBJECT_DETECTION"

definition logs_proto_mobilesdk_ios_ICoreConfiguration_ServiceType_ARRAYSIZE :: int where "logs_proto_mobilesdk_ios_ICoreConfiguration_ServiceType_ARRAYSIZE = logs_proto_mobilesdk_ios_ICoreConfiguration_ServiceType_value logs_proto_mobilesdk_ios_ICoreConfiguration_ServiceType_ML_VISION_ON_DEVICE_OBJECT_DETECTION + 1"

datatype logs_proto_mobilesdk_ios_ICoreConfiguration_PodName =
    logs_proto_mobilesdk_ios_ICoreConfiguration_PodName_UNKNOWN_POD_NAME
  | logs_proto_mobilesdk_ios_ICoreConfiguration_PodName_GOOGLE
  | logs_proto_mobilesdk_ios_ICoreConfiguration_PodName_FIREBASE

primrec logs_proto_mobilesdk_ios_ICoreConfiguration_PodName_value :: "logs_proto_mobilesdk_ios_ICoreConfiguration_PodName \<Rightarrow> int" where
  "logs_proto_mobilesdk_ios_ICoreConfiguration_PodName_value logs_proto_mobilesdk_ios_ICoreConfiguration_PodName_UNKNOWN_POD_NAME = 0"
| "logs_proto_mobilesdk_ios_ICoreConfiguration_PodName_value logs_proto_mobilesdk_ios_ICoreConfiguration_PodName_GOOGLE = 1"
| "logs_proto_mobilesdk_ios_ICoreConfiguration_PodName_value logs_proto_mobilesdk_ios_ICoreConfiguration_PodName_FIREBASE = 2"

definition logs_proto_mobilesdk_ios_ICoreConfiguration_PodName_MIN :: logs_proto_mobilesdk_ios_ICoreConfiguration_PodName where "logs_proto_mobilesdk_ios_ICoreConfiguration_PodName_MIN = logs_proto_mobilesdk_ios_ICoreConfiguration_PodName_UNKNOWN_POD_NAME"

definition logs_proto_mobilesdk_ios_ICoreConfiguration_PodName_MAX :: logs_proto_mobilesdk_ios_ICoreConfiguration_PodName where "logs_proto_mobilesdk_ios_ICoreConfiguration_PodName_MAX = logs_proto_mobilesdk_ios_ICoreConfiguration_PodName_FIREBASE"

definition logs_proto_mobilesdk_ios_ICoreConfiguration_PodName_ARRAYSIZE :: int where "logs_proto_mobilesdk_ios_ICoreConfiguration_PodName_ARRAYSIZE = logs_proto_mobilesdk_ios_ICoreConfiguration_PodName_value logs_proto_mobilesdk_ios_ICoreConfiguration_PodName_FIREBASE + 1"

datatype logs_proto_mobilesdk_ios_ICoreConfiguration_DeploymentType =
    logs_proto_mobilesdk_ios_ICoreConfiguration_DeploymentType_UNKNOWN
  | logs_proto_mobilesdk_ios_ICoreConfiguration_DeploymentType_COCOAPODS
  | logs_proto_mobilesdk_ios_ICoreConfiguration_DeploymentType_ZIP_FILE
  | logs_proto_mobilesdk_ios_ICoreConfiguration_DeploymentType_CARTHAGE
  | logs_proto_mobilesdk_ios_ICoreConfiguration_DeploymentType_SPM

primrec logs_proto_mobilesdk_ios_ICoreConfiguration_DeploymentType_value :: "logs_proto_mobilesdk_ios_ICoreConfiguration_DeploymentType \<Rightarrow> int" where
  "logs_proto_mobilesdk_ios_ICoreConfiguration_DeploymentType_value logs_proto_mobilesdk_ios_ICoreConfiguration_DeploymentType_UNKNOWN = 0"
| "logs_proto_mobilesdk_ios_ICoreConfiguration_DeploymentType_value logs_proto_mobilesdk_ios_ICoreConfiguration_DeploymentType_COCOAPODS = 1"
| "logs_proto_mobilesdk_ios_ICoreConfiguration_DeploymentType_value logs_proto_mobilesdk_ios_ICoreConfiguration_DeploymentType_ZIP_FILE = 2"
| "logs_proto_mobilesdk_ios_ICoreConfiguration_DeploymentType_value logs_proto_mobilesdk_ios_ICoreConfiguration_DeploymentType_CARTHAGE = 3"
| "logs_proto_mobilesdk_ios_ICoreConfiguration_DeploymentType_value logs_proto_mobilesdk_ios_ICoreConfiguration_DeploymentType_SPM = 4"

definition logs_proto_mobilesdk_ios_ICoreConfiguration_DeploymentType_MIN :: logs_proto_mobilesdk_ios_ICoreConfiguration_DeploymentType where "logs_proto_mobilesdk_ios_ICoreConfiguration_DeploymentType_MIN = logs_proto_mobilesdk_ios_ICoreConfiguration_DeploymentType_UNKNOWN"

definition logs_proto_mobilesdk_ios_ICoreConfiguration_DeploymentType_MAX :: logs_proto_mobilesdk_ios_ICoreConfiguration_DeploymentType where "logs_proto_mobilesdk_ios_ICoreConfiguration_DeploymentType_MAX = logs_proto_mobilesdk_ios_ICoreConfiguration_DeploymentType_SPM"

definition logs_proto_mobilesdk_ios_ICoreConfiguration_DeploymentType_ARRAYSIZE :: int where "logs_proto_mobilesdk_ios_ICoreConfiguration_DeploymentType_ARRAYSIZE = logs_proto_mobilesdk_ios_ICoreConfiguration_DeploymentType_value logs_proto_mobilesdk_ios_ICoreConfiguration_DeploymentType_SPM + 1"

subsection \<open>Structures\<close>

definition logs_proto_mobilesdk_ios_ICoreConfiguration :: members where
  "logs_proto_mobilesdk_ios_ICoreConfiguration =
    (Member ''has_configuration_type'' C_bool
    (Member ''configuration_type'' C_enum
    (Member ''sdk_service_installed_count'' C_uint32
    (Member ''sdk_service_installed'' (C_ptr C_enum)
    (Member ''device_model'' (C_ptr (C_struct pb_bytes_array_t))
    (Member ''app_id'' (C_ptr (C_struct pb_bytes_array_t))
    (Member ''bundle_id'' (C_ptr (C_struct pb_bytes_array_t))
    (Member ''has_pod_name'' C_bool
    (Member ''pod_name'' C_enum
    (Member ''icore_version'' (C_ptr (C_struct pb_bytes_array_t))
    (Member ''sdk_version'' (C_ptr (C_struct pb_bytes_array_t))
    (Member ''has_sdk_name'' C_bool
    (Member ''sdk_name'' C_enum
    (Member ''has_app_count'' C_bool
    (Member ''app_count'' C_int32
    (Member ''os_version'' (C_ptr (C_struct pb_bytes_array_t))
    (Member ''min_supported_ios_version'' (C_ptr (C_struct pb_bytes_array_t))
    (Member ''has_use_default_app'' C_bool
    (Member ''use_default_app'' C_bool
    (Member ''has_deployed_in_app_store'' C_bool
    (Member ''deployed_in_app_store'' C_bool
    (Member ''has_dynamic_framework_count'' C_bool
    (Member ''dynamic_framework_count'' C_int32
    (Member ''apple_framework_version'' (C_ptr (C_struct pb_bytes_array_t))
    (Member ''has_using_zip_file'' C_bool
    (Member ''using_zip_file'' C_bool
    (Member ''has_deployment_type'' C_bool
    (Member ''deployment_type'' C_enum
    (Member ''platform_info'' (C_ptr (C_struct pb_bytes_array_t))
    (Member ''has_swizzling_enabled'' C_bool
    (Member ''swizzling_enabled'' C_bool
    (Member ''has_using_gdt'' C_bool
    (Member ''using_gdt'' C_bool No_members)))))))))))))))))))))))))))))))))"

subsection \<open>Default values\<close>

subsection \<open>Field tags\<close>

definition logs_proto_mobilesdk_ios_ICoreConfiguration_pod_name_tag :: pb_size_t where "logs_proto_mobilesdk_ios_ICoreConfiguration_pod_name_tag = 16"
definition logs_proto_mobilesdk_ios_ICoreConfiguration_configuration_type_tag :: pb_size_t where "logs_proto_mobilesdk_ios_ICoreConfiguration_configuration_type_tag = 1"
definition logs_proto_mobilesdk_ios_ICoreConfiguration_icore_version_tag :: pb_size_t where "logs_proto_mobilesdk_ios_ICoreConfiguration_icore_version_tag = 18"
definition logs_proto_mobilesdk_ios_ICoreConfiguration_sdk_version_tag :: pb_size_t where "logs_proto_mobilesdk_ios_ICoreConfiguration_sdk_version_tag = 19"
definition logs_proto_mobilesdk_ios_ICoreConfiguration_sdk_service_installed_tag :: pb_size_t where "logs_proto_mobilesdk_ios_ICoreConfiguration_sdk_service_installed_tag = 7"
definition logs_proto_mobilesdk_ios_ICoreConfiguration_sdk_name_tag :: pb_size_t where "logs_proto_mobilesdk_ios_ICoreConfiguration_sdk_name_tag = 20"
definition logs_proto_mobilesdk_ios_ICoreConfiguration_device_model_tag :: pb_size_t where "logs_proto_mobilesdk_ios_ICoreConfiguration_device_model_tag = 9"
definition logs_proto_mobilesdk_ios_ICoreConfiguration_os_version_tag :: pb_size_t where "logs_proto_mobilesdk_ios_ICoreConfiguration_os_version_tag = 22"
definition logs_proto_mobilesdk_ios_ICoreConfiguration_app_id_tag :: pb_size_t where "logs_proto_mobilesdk_ios_ICoreConfiguration_app_id_tag = 10"
definition logs_proto_mobilesdk_ios_ICoreConfiguration_bundle_id_tag :: pb_size_t where "logs_proto_mobilesdk_ios_ICoreConfiguration_bundle_id_tag = 12"
definition logs_proto_mobilesdk_ios_ICoreConfiguration_min_supported_ios_version_tag :: pb_size_t where "logs_proto_mobilesdk_ios_ICoreConfiguration_min_supported_ios_version_tag = 24"
definition logs_proto_mobilesdk_ios_ICoreConfiguration_use_default_app_tag :: pb_size_t where "logs_proto_mobilesdk_ios_ICoreConfiguration_use_default_app_tag = 25"
definition logs_proto_mobilesdk_ios_ICoreConfiguration_app_count_tag :: pb_size_t where "logs_proto_mobilesdk_ios_ICoreConfiguration_app_count_tag = 21"
definition logs_proto_mobilesdk_ios_ICoreConfiguration_deployed_in_app_store_tag :: pb_size_t where "logs_proto_mobilesdk_ios_ICoreConfiguration_deployed_in_app_store_tag = 26"
definition logs_proto_mobilesdk_ios_ICoreConfiguration_dynamic_framework_count_tag :: pb_size_t where "logs_proto_mobilesdk_ios_ICoreConfiguration_dynamic_framework_count_tag = 27"
definition logs_proto_mobilesdk_ios_ICoreConfiguration_apple_framework_version_tag :: pb_size_t where "logs_proto_mobilesdk_ios_ICoreConfiguration_apple_framework_version_tag = 28"
definition logs_proto_mobilesdk_ios_ICoreConfiguration_using_zip_file_tag :: pb_size_t where "logs_proto_mobilesdk_ios_ICoreConfiguration_using_zip_file_tag = 29"
definition logs_proto_mobilesdk_ios_ICoreConfiguration_deployment_type_tag :: pb_size_t where "logs_proto_mobilesdk_ios_ICoreConfiguration_deployment_type_tag = 30"
definition logs_proto_mobilesdk_ios_ICoreConfiguration_platform_info_tag :: pb_size_t where "logs_proto_mobilesdk_ios_ICoreConfiguration_platform_info_tag = 31"
definition logs_proto_mobilesdk_ios_ICoreConfiguration_swizzling_enabled_tag :: pb_size_t where "logs_proto_mobilesdk_ios_ICoreConfiguration_swizzling_enabled_tag = 33"
definition logs_proto_mobilesdk_ios_ICoreConfiguration_using_gdt_tag :: pb_size_t where "logs_proto_mobilesdk_ios_ICoreConfiguration_using_gdt_tag = 36"

subsection \<open>Descriptors\<close>

definition logs_proto_mobilesdk_ios_ICoreConfiguration_fields :: "pb_field_t list" where
  "logs_proto_mobilesdk_ios_ICoreConfiguration_fields = [
     PB_FIELD 1 T_UENUM OPTIONAL STATIC FIRST logs_proto_mobilesdk_ios_ICoreConfiguration ''configuration_type'' ''configuration_type'' Ptr_null,
     PB_FIELD 7 T_UENUM REPEATED POINTER OTHER logs_proto_mobilesdk_ios_ICoreConfiguration ''sdk_service_installed'' ''configuration_type'' Ptr_null,
     PB_FIELD 9 T_BYTES OPTIONAL POINTER OTHER logs_proto_mobilesdk_ios_ICoreConfiguration ''device_model'' ''sdk_service_installed'' Ptr_null,
     PB_FIELD 10 T_BYTES OPTIONAL POINTER OTHER logs_proto_mobilesdk_ios_ICoreConfiguration ''app_id'' ''device_model'' Ptr_null,
     PB_FIELD 12 T_BYTES OPTIONAL POINTER OTHER logs_proto_mobilesdk_ios_ICoreConfiguration ''bundle_id'' ''app_id'' Ptr_null,
     PB_FIELD 16 T_UENUM OPTIONAL STATIC OTHER logs_proto_mobilesdk_ios_ICoreConfiguration ''pod_name'' ''bundle_id'' Ptr_null,
     PB_FIELD 18 T_BYTES OPTIONAL POINTER OTHER logs_proto_mobilesdk_ios_ICoreConfiguration ''icore_version'' ''pod_name'' Ptr_null,
     PB_FIELD 19 T_BYTES OPTIONAL POINTER OTHER logs_proto_mobilesdk_ios_ICoreConfiguration ''sdk_version'' ''icore_version'' Ptr_null,
     PB_FIELD 20 T_UENUM OPTIONAL STATIC OTHER logs_proto_mobilesdk_ios_ICoreConfiguration ''sdk_name'' ''sdk_version'' Ptr_null,
     PB_FIELD 21 T_INT32 OPTIONAL STATIC OTHER logs_proto_mobilesdk_ios_ICoreConfiguration ''app_count'' ''sdk_name'' Ptr_null,
     PB_FIELD 22 T_BYTES OPTIONAL POINTER OTHER logs_proto_mobilesdk_ios_ICoreConfiguration ''os_version'' ''app_count'' Ptr_null,
     PB_FIELD 24 T_BYTES OPTIONAL POINTER OTHER logs_proto_mobilesdk_ios_ICoreConfiguration ''min_supported_ios_version'' ''os_version'' Ptr_null,
     PB_FIELD 25 T_BOOL OPTIONAL STATIC OTHER logs_proto_mobilesdk_ios_ICoreConfiguration ''use_default_app'' ''min_supported_ios_version'' Ptr_null,
     PB_FIELD 26 T_BOOL OPTIONAL STATIC OTHER logs_proto_mobilesdk_ios_ICoreConfiguration ''deployed_in_app_store'' ''use_default_app'' Ptr_null,
     PB_FIELD 27 T_INT32 OPTIONAL STATIC OTHER logs_proto_mobilesdk_ios_ICoreConfiguration ''dynamic_framework_count'' ''deployed_in_app_store'' Ptr_null,
     PB_FIELD 28 T_BYTES OPTIONAL POINTER OTHER logs_proto_mobilesdk_ios_ICoreConfiguration ''apple_framework_version'' ''dynamic_framework_count'' Ptr_null,
     PB_FIELD 29 T_BOOL OPTIONAL STATIC OTHER logs_proto_mobilesdk_ios_ICoreConfiguration ''using_zip_file'' ''apple_framework_version'' Ptr_null,
     PB_FIELD 30 T_UENUM OPTIONAL STATIC OTHER logs_proto_mobilesdk_ios_ICoreConfiguration ''deployment_type'' ''using_zip_file'' Ptr_null,
     PB_FIELD 31 T_BYTES OPTIONAL POINTER OTHER logs_proto_mobilesdk_ios_ICoreConfiguration ''platform_info'' ''deployment_type'' Ptr_null,
     PB_FIELD 33 T_BOOL OPTIONAL STATIC OTHER logs_proto_mobilesdk_ios_ICoreConfiguration ''swizzling_enabled'' ''platform_info'' Ptr_null,
     PB_FIELD 36 T_BOOL OPTIONAL STATIC OTHER logs_proto_mobilesdk_ios_ICoreConfiguration ''using_gdt'' ''swizzling_enabled'' Ptr_null,
     PB_LAST_FIELD]"

text \<open>The fields of each structure, with what the descriptors say of them.\<close>

definition logs_proto_mobilesdk_ios_ICoreConfiguration_specs :: "field_spec list" where
  "logs_proto_mobilesdk_ios_ICoreConfiguration_specs = [
     field_spec_of logs_proto_mobilesdk_ios_ICoreConfiguration_configuration_type_tag T_UENUM OPTIONAL STATIC ''configuration_type'' Ptr_null,
     field_spec_of logs_proto_mobilesdk_ios_ICoreConfiguration_sdk_service_installed_tag T_UENUM REPEATED POINTER ''sdk_service_installed'' Ptr_null,
     field_spec_of logs_proto_mobilesdk_ios_ICoreConfiguration_device_model_tag T_BYTES OPTIONAL POINTER ''device_model'' Ptr_null,
     field_spec_of logs_proto_mobilesdk_ios_ICoreConfiguration_app_id_tag T_BYTES OPTIONAL POINTER ''app_id'' Ptr_null,
     field_spec_of logs_proto_mobilesdk_ios_ICoreConfiguration_bundle_id_tag T_BYTES OPTIONAL POINTER ''bundle_id'' Ptr_null,
     field_spec_of logs_proto_mobilesdk_ios_ICoreConfiguration_pod_name_tag T_UENUM OPTIONAL STATIC ''pod_name'' Ptr_null,
     field_spec_of logs_proto_mobilesdk_ios_ICoreConfiguration_icore_version_tag T_BYTES OPTIONAL POINTER ''icore_version'' Ptr_null,
     field_spec_of logs_proto_mobilesdk_ios_ICoreConfiguration_sdk_version_tag T_BYTES OPTIONAL POINTER ''sdk_version'' Ptr_null,
     field_spec_of logs_proto_mobilesdk_ios_ICoreConfiguration_sdk_name_tag T_UENUM OPTIONAL STATIC ''sdk_name'' Ptr_null,
     field_spec_of logs_proto_mobilesdk_ios_ICoreConfiguration_app_count_tag T_INT32 OPTIONAL STATIC ''app_count'' Ptr_null,
     field_spec_of logs_proto_mobilesdk_ios_ICoreConfiguration_os_version_tag T_BYTES OPTIONAL POINTER ''os_version'' Ptr_null,
     field_spec_of logs_proto_mobilesdk_ios_ICoreConfiguration_min_supported_ios_version_tag T_BYTES OPTIONAL POINTER ''min_supported_ios_version'' Ptr_null,
     field_spec_of logs_proto_mobilesdk_ios_ICoreConfiguration_use_default_app_tag T_BOOL OPTIONAL STATIC ''use_default_app'' Ptr_null,
     field_spec_of logs_proto_mobilesdk_ios_ICoreConfiguration_deployed_in_app_store_tag T_BOOL OPTIONAL STATIC ''deployed_in_app_store'' Ptr_null,
     field_spec_of logs_proto_mobilesdk_ios_ICoreConfiguration_dynamic_framework_count_tag T_INT32 OPTIONAL STATIC ''dynamic_framework_count'' Ptr_null,
     field_spec_of logs_proto_mobilesdk_ios_ICoreConfiguration_apple_framework_version_tag T_BYTES OPTIONAL POINTER ''apple_framework_version'' Ptr_null,
     field_spec_of logs_proto_mobilesdk_ios_ICoreConfiguration_using_zip_file_tag T_BOOL OPTIONAL STATIC ''using_zip_file'' Ptr_null,
     field_spec_of logs_proto_mobilesdk_ios_ICoreConfiguration_deployment_type_tag T_UENUM OPTIONAL STATIC ''deployment_type'' Ptr_null,
     field_spec_of logs_proto_mobilesdk_ios_ICoreConfiguration_platform_info_tag T_BYTES OPTIONAL POINTER ''platform_info'' Ptr_null,
     field_spec_of logs_proto_mobilesdk_ios_ICoreConfiguration_swizzling_enabled_tag T_BOOL OPTIONAL STATIC ''swizzling_enabled'' Ptr_null,
     field_spec_of logs_proto_mobilesdk_ios_ICoreConfiguration_using_gdt_tag T_BOOL OPTIONAL STATIC ''using_gdt'' Ptr_null]"

subsection \<open>Initializers\<close>

definition logs_proto_mobilesdk_ios_ICoreConfiguration_init_default :: "init list" where
  "logs_proto_mobilesdk_ios_ICoreConfiguration_init_default = [I_int 0, I_int (logs_proto_mobilesdk_ios_ICoreConfiguration_ConfigurationType_value logs_proto_mobilesdk_ios_ICoreConfiguration_ConfigurationType_MIN), I_int 0, I_NULL, I_NULL, I_NULL, I_NULL, I_int 0, I_int (logs_proto_mobilesdk_ios_ICoreConfiguration_PodName_value logs_proto_mobilesdk_ios_ICoreConfiguration_PodName_MIN), I_NULL, I_NULL, I_int 0, I_int (logs_proto_mobilesdk_ios_ICoreConfiguration_ServiceType_value logs_proto_mobilesdk_ios_ICoreConfiguration_ServiceType_MIN), I_int 0, I_int 0, I_NULL, I_NULL, I_int 0, I_int 0, I_int 0, I_int 0, I_int 0, I_int 0, I_NULL, I_int 0, I_int 0, I_int 0, I_int (logs_proto_mobilesdk_ios_ICoreConfiguration_DeploymentType_value logs_proto_mobilesdk_ios_ICoreConfiguration_DeploymentType_MIN), I_NULL, I_int 0, I_int 0, I_int 0, I_int 0]"

definition logs_proto_mobilesdk_ios_ICoreConfiguration_init_zero :: "init list" where
  "logs_proto_mobilesdk_ios_ICoreConfiguration_init_zero = [I_int 0, I_int (logs_proto_mobilesdk_ios_ICoreConfiguration_ConfigurationType_value logs_proto_mobilesdk_ios_ICoreConfiguration_ConfigurationType_MIN), I_int 0, I_NULL, I_NULL, I_NULL, I_NULL, I_int 0, I_int (logs_proto_mobilesdk_ios_ICoreConfiguration_PodName_value logs_proto_mobilesdk_ios_ICoreConfiguration_PodName_MIN), I_NULL, I_NULL, I_int 0, I_int (logs_proto_mobilesdk_ios_ICoreConfiguration_ServiceType_value logs_proto_mobilesdk_ios_ICoreConfiguration_ServiceType_MIN), I_int 0, I_int 0, I_NULL, I_NULL, I_int 0, I_int 0, I_int 0, I_int 0, I_int 0, I_int 0, I_NULL, I_int 0, I_int 0, I_int 0, I_int (logs_proto_mobilesdk_ios_ICoreConfiguration_DeploymentType_value logs_proto_mobilesdk_ios_ICoreConfiguration_DeploymentType_MIN), I_NULL, I_int 0, I_int 0, I_int 0, I_int 0]"

subsection \<open>Layout\<close>

lemma logs_proto_mobilesdk_ios_ICoreConfiguration_layout [simp]:
  "members_align logs_proto_mobilesdk_ios_ICoreConfiguration = 8" "members_end logs_proto_mobilesdk_ios_ICoreConfiguration 0 = 148"
  by (simp_all add: logs_proto_mobilesdk_ios_ICoreConfiguration_def align_up_def)

lemma logs_proto_mobilesdk_ios_ICoreConfiguration_offsets [simp]:
  "offsetof logs_proto_mobilesdk_ios_ICoreConfiguration ''has_configuration_type'' = 0"
  "offsetof logs_proto_mobilesdk_ios_ICoreConfiguration ''configuration_type'' = 4"
  "offsetof logs_proto_mobilesdk_ios_ICoreConfiguration ''sdk_service_installed_count'' = 8"
  "offsetof logs_proto_mobilesdk_ios_ICoreConfiguration ''sdk_service_installed'' = 16"
  "offsetof logs_proto_mobilesdk_ios_ICoreConfiguration ''device_model'' = 24"
  "offsetof logs_proto_mobilesdk_ios_ICoreConfiguration ''app_id'' = 32"
  "offsetof logs_proto_mobilesdk_ios_ICoreConfiguration ''bundle_id'' = 40"
  "offsetof logs_proto_mobilesdk_ios_ICoreConfiguration ''has_pod_name'' = 48"
  "offsetof logs_proto_mobilesdk_ios_ICoreConfiguration ''pod_name'' = 52"
  "offsetof logs_proto_mobilesdk_ios_ICoreConfiguration ''icore_version'' = 56"
  "offsetof logs_proto_mobilesdk_ios_ICoreConfiguration ''sdk_version'' = 64"
  "offsetof logs_proto_mobilesdk_ios_ICoreConfiguration ''has_sdk_name'' = 72"
  "offsetof logs_proto_mobilesdk_ios_ICoreConfiguration ''sdk_name'' = 76"
  "offsetof logs_proto_mobilesdk_ios_ICoreConfiguration ''has_app_count'' = 80"
  "offsetof logs_proto_mobilesdk_ios_ICoreConfiguration ''app_count'' = 84"
  "offsetof logs_proto_mobilesdk_ios_ICoreConfiguration ''os_version'' = 88"
  "offsetof logs_proto_mobilesdk_ios_ICoreConfiguration ''min_supported_ios_version'' = 96"
  "offsetof logs_proto_mobilesdk_ios_ICoreConfiguration ''has_use_default_app'' = 104"
  "offsetof logs_proto_mobilesdk_ios_ICoreConfiguration ''use_default_app'' = 105"
  "offsetof logs_proto_mobilesdk_ios_ICoreConfiguration ''has_deployed_in_app_store'' = 106"
  "offsetof logs_proto_mobilesdk_ios_ICoreConfiguration ''deployed_in_app_store'' = 107"
  "offsetof logs_proto_mobilesdk_ios_ICoreConfiguration ''has_dynamic_framework_count'' = 108"
  "offsetof logs_proto_mobilesdk_ios_ICoreConfiguration ''dynamic_framework_count'' = 112"
  "offsetof logs_proto_mobilesdk_ios_ICoreConfiguration ''apple_framework_version'' = 120"
  "offsetof logs_proto_mobilesdk_ios_ICoreConfiguration ''has_using_zip_file'' = 128"
  "offsetof logs_proto_mobilesdk_ios_ICoreConfiguration ''using_zip_file'' = 129"
  "offsetof logs_proto_mobilesdk_ios_ICoreConfiguration ''has_deployment_type'' = 130"
  "offsetof logs_proto_mobilesdk_ios_ICoreConfiguration ''deployment_type'' = 132"
  "offsetof logs_proto_mobilesdk_ios_ICoreConfiguration ''platform_info'' = 136"
  "offsetof logs_proto_mobilesdk_ios_ICoreConfiguration ''has_swizzling_enabled'' = 144"
  "offsetof logs_proto_mobilesdk_ios_ICoreConfiguration ''swizzling_enabled'' = 145"
  "offsetof logs_proto_mobilesdk_ios_ICoreConfiguration ''has_using_gdt'' = 146"
  "offsetof logs_proto_mobilesdk_ios_ICoreConfiguration ''using_gdt'' = 147"
  by (simp_all add: logs_proto_mobilesdk_ios_ICoreConfiguration_def offsetof_def align_up_def)

lemma logs_proto_mobilesdk_ios_ICoreConfiguration_types [simp]:
  "member_type logs_proto_mobilesdk_ios_ICoreConfiguration ''has_configuration_type'' = Some C_bool"
  "member_type logs_proto_mobilesdk_ios_ICoreConfiguration ''configuration_type'' = Some C_enum"
  "member_type logs_proto_mobilesdk_ios_ICoreConfiguration ''sdk_service_installed_count'' = Some C_uint32"
  "member_type logs_proto_mobilesdk_ios_ICoreConfiguration ''sdk_service_installed'' = Some (C_ptr C_enum)"
  "member_type logs_proto_mobilesdk_ios_ICoreConfiguration ''device_model'' = Some (C_ptr (C_struct pb_bytes_array_t))"
  "member_type logs_proto_mobilesdk_ios_ICoreConfiguration ''app_id'' = Some (C_ptr (C_struct pb_bytes_array_t))"
  "member_type logs_proto_mobilesdk_ios_ICoreConfiguration ''bundle_id'' = Some (C_ptr (C_struct pb_bytes_array_t))"
  "member_type logs_proto_mobilesdk_ios_ICoreConfiguration ''has_pod_name'' = Some C_bool"
  "member_type logs_proto_mobilesdk_ios_ICoreConfiguration ''pod_name'' = Some C_enum"
  "member_type logs_proto_mobilesdk_ios_ICoreConfiguration ''icore_version'' = Some (C_ptr (C_struct pb_bytes_array_t))"
  "member_type logs_proto_mobilesdk_ios_ICoreConfiguration ''sdk_version'' = Some (C_ptr (C_struct pb_bytes_array_t))"
  "member_type logs_proto_mobilesdk_ios_ICoreConfiguration ''has_sdk_name'' = Some C_bool"
  "member_type logs_proto_mobilesdk_ios_ICoreConfiguration ''sdk_name'' = Some C_enum"
  "member_type logs_proto_mobilesdk_ios_ICoreConfiguration ''has_app_count'' = Some C_bool"
  "member_type logs_proto_mobilesdk_ios_ICoreConfiguration ''app_count'' = Some C_int32"
  "member_type logs_proto_mobilesdk_ios_ICoreConfiguration ''os_version'' = Some (C_ptr (C_struct pb_bytes_array_t))"
  "member_type logs_proto_mobilesdk_ios_ICoreConfiguration ''min_supported_ios_version'' = Some (C_ptr (C_struct pb_bytes_array_t))"
  "member_type logs_proto_mobilesdk_ios_ICoreConfiguration ''has_use_default_app'' = Some C_bool"
  "member_type logs_proto_mobilesdk_ios_ICoreConfiguration ''use_default_app'' = Some C_bool"
  "member_type logs_proto_mobilesdk_ios_ICoreConfiguration ''has_deployed_in_app_store'' = Some C_bool"
  "member_type logs_proto_mobilesdk_ios_ICoreConfiguration ''deployed_in_app_store'' = Some C_bool"
  "member_type logs_proto_mobilesdk_ios_ICoreConfiguration ''has_dynamic_framework_count'' = Some C_bool"
  "member_type logs_proto_mobilesdk_ios_ICoreConfiguration ''dynamic_framework_count'' = Some C_int32"
  "member_type logs_proto_mobilesdk_ios_ICoreConfiguration ''apple_framework_version'' = Some (C_ptr (C_struct pb_bytes_array_t))"
  "member_type logs_proto_mobilesdk_ios_ICoreConfiguration ''has_using_zip_file'' = Some C_bool"
  "member_type logs_proto_mobilesdk_ios_ICoreConfiguration ''using_zip_file'' = Some C_bool"
  "member_type logs_proto_mobilesdk_ios_ICoreConfiguration ''has_deployment_type'' = Some C_bool"
  "member_type logs_proto_mobilesdk_ios_ICoreConfiguration ''deployment_type'' = Some C_enum"
  "member_type logs_proto_mobilesdk_ios_ICoreConfiguration ''platform_info'' = Some (C_ptr (C_struct pb_bytes_array_t))"
  "member_type logs_proto_mobilesdk_ios_ICoreConfiguration ''has_swizzling_enabled'' = Some C_bool"
  "member_type logs_proto_mobilesdk_ios_ICoreConfiguration ''swizzling_enabled'' = Some C_bool"
  "member_type logs_proto_mobilesdk_ios_ICoreConfiguration ''has_using_gdt'' = Some C_bool"
  "member_type logs_proto_mobilesdk_ios_ICoreConfiguration ''using_gdt'' = Some C_bool"
  by (simp_all add: logs_proto_mobilesdk_ios_ICoreConfiguration_def)

lemmas firebasecore_tags =
  logs_proto_mobilesdk_ios_ICoreConfiguration_pod_name_tag_def
  logs_proto_mobilesdk_ios_ICoreConfiguration_configuration_type_tag_def
  logs_proto_mobilesdk_ios_ICoreConfiguration_icore_version_tag_def
  logs_proto_mobilesdk_ios_ICoreConfiguration_sdk_version_tag_def
  logs_proto_mobilesdk_ios_ICoreConfiguration_sdk_service_installed_tag_def
  logs_proto_mobilesdk_ios_ICoreConfiguration_sdk_name_tag_def
  logs_proto_mobilesdk_ios_ICoreConfiguration_device_model_tag_def
  logs_proto_mobilesdk_ios_ICoreConfiguration_os_version_tag_def
  logs_proto_mobilesdk_ios_ICoreConfiguration_app_id_tag_def
  logs_proto_mobilesdk_ios_ICoreConfiguration_bundle_id_tag_def
  logs_proto_mobilesdk_ios_ICoreConfiguration_min_supported_ios_version_tag_def
  logs_proto_mobilesdk_ios_ICoreConfiguration_use_default_app_tag_def
  logs_proto_mobilesdk_ios_ICoreConfiguration_app_count_tag_def
  logs_proto_mobilesdk_ios_ICoreConfiguration_deployed_in_app_store_tag_def
  logs_proto_mobilesdk_ios_ICoreConfiguration_dynamic_framework_count_tag_def
  logs_proto_mobilesdk_ios_ICoreConfiguration_apple_framework_version_tag_def
  logs_proto_mobilesdk_ios_ICoreConfiguration_using_zip_file_tag_def
  logs_proto_mobilesdk_ios_ICoreConfiguration_deployment_type_tag_def
  logs_proto_mobilesdk_ios_ICoreConfiguration_platform_info_tag_def
  logs_proto_mobilesdk_ios_ICoreConfiguration_swizzling_enabled_tag_def
  logs_proto_mobilesdk_ios_ICoreConfiguration_using_gdt_tag_def

lemma logs_proto_mobilesdk_ios_ICoreConfiguration_describes: "describes logs_proto_mobilesdk_ios_ICoreConfiguration logs_proto_mobilesdk_ios_ICoreConfiguration_specs logs_proto_mobilesdk_ios_ICoreConfiguration_fields"
  unfolding describes_def
  by (intro conjI; simp add: logs_proto_mobilesdk_ios_ICoreConfiguration_fields_def logs_proto_mobilesdk_ios_ICoreConfiguration_specs_def firebasecore_tags placed_simps)

subsection \<open>Descriptor values\<close>

lemma logs_proto_mobilesdk_ios_ICoreConfiguration_values:
  "logs_proto_mobilesdk_ios_ICoreConfiguration_fields = [
    Pb_field 1 0x12 4 (- 4) 4 0 Ptr_null,
    Pb_field 7 0xa2 8 (- 8) 4 0 Ptr_null,
    Pb_field 9 0x96 0 0 8 0 Ptr_null,
    Pb_field 10 0x96 0 0 8 0 Ptr_null,
    Pb_field 12 0x96 0 0 8 0 Ptr_null,
    Pb_field 16 0x12 4 (- 4) 4 0 Ptr_null,
    Pb_field 18 0x96 0 0 8 0 Ptr_null,
    Pb_field 19 0x96 0 0 8 0 Ptr_null,
    Pb_field 20 0x12 4 (- 4) 4 0 Ptr_null,
    Pb_field 21 0x11 4 (- 4) 4 0 Ptr_null,
    Pb_field 22 0x96 0 0 8 0 Ptr_null,
    Pb_field 24 0x96 0 0 8 0 Ptr_null,
    Pb_field 25 0x10 1 (- 1) 1 0 Ptr_null,
    Pb_field 26 0x10 1 (- 1) 1 0 Ptr_null,
    Pb_field 27 0x11 4 (- 4) 4 0 Ptr_null,
    Pb_field 28 0x96 4 0 8 0 Ptr_null,
    Pb_field 29 0x10 1 (- 1) 1 0 Ptr_null,
    Pb_field 30 0x12 2 (- 2) 4 0 Ptr_null,
    Pb_field 31 0x96 0 0 8 0 Ptr_null,
    Pb_field 33 0x10 1 (- 1) 1 0 Ptr_null,
    Pb_field 36 0x10 1 (- 1) 1 0 Ptr_null,
    PB_LAST_FIELD]"
  by (simp add: logs_proto_mobilesdk_ios_ICoreConfiguration_fields_def PB_FIELD_simps)

subsection \<open>Defaults\<close>

lemma logs_proto_mobilesdk_ios_ICoreConfiguration_defaults:
  "map_option blocks (pb_message_set_to_defaults 3 e logs_proto_mobilesdk_ios_ICoreConfiguration_fields (Ptr 0 0)
     (one_object ad fails calls (replicate 152 Undef))) =
   Some [\<lparr>on_heap = False, live = True, cells = init_cells (C_struct logs_proto_mobilesdk_ios_ICoreConfiguration) (I_struct logs_proto_mobilesdk_ios_ICoreConfiguration_init_default)\<rparr>]"
  unfolding logs_proto_mobilesdk_ios_ICoreConfiguration_values by code_simp

end
