(* ===== verification/Pb_Encode.thy ===== *)
theory Pb_Encode
  imports Pb_Callbacks
begin

text \<open>
  The message encoder of \<^verbatim>\<open>pb_encode.c\<close>: reading of fields from memory, arrays, optional and oneof
  fields, callbacks, extensions, submessages and the entry points.  The functions that call each
  other through \<^verbatim>\<open>pb_encode\<close> take it as their argument \<open>enc\<close>; \<open>pb_encode\<close> ties the knot with a fuel
  that bounds the nesting of messages and the length of extension lists.
\<close>

type_synonym message_encoder = "pb_ostream_t \<Rightarrow> pb_field_t list \<Rightarrow> ptr \<Rightarrow> enc_result"
type_synonym pb_encoder_t = "pb_ostream_t \<Rightarrow> pb_field_t \<Rightarrow> ptr \<Rightarrow> enc_result"

subsection \<open>Values in memory\<close>

definition safe_read_bool :: "mem \<Rightarrow> ptr \<Rightarrow> bool option" where
  "safe_read_bool m p = do { b \<leftarrow> load_u8 m p; Some (b \<noteq> 0) }"

text \<open>The integer of \<^verbatim>\<open>data_size\<close> bytes at \<open>src\<close>, extended to 64 bits; \<open>Some None\<close> for another size.\<close>

definition load_signed :: "mem \<Rightarrow> pb_size_t \<Rightarrow> ptr \<Rightarrow> uint64 option option" where
  "load_signed m sz src =
     (if sz = 1 then map_option (\<lambda>v. Some (scast v)) (load_u8 m src)
      else if sz = 2 then map_option (\<lambda>v. Some (scast v)) (load_u16 m src)
      else if sz = 4 then map_option (\<lambda>v. Some (scast v)) (load_u32 m src)
      else if sz = 8 then map_option Some (load_u64 m src)
      else Some None)"

definition load_unsigned :: "mem \<Rightarrow> pb_size_t \<Rightarrow> ptr \<Rightarrow> uint64 option option" where
  "load_unsigned m sz src =
     (if sz = 1 then map_option (\<lambda>v. Some (ucast v)) (load_u8 m src)
      else if sz = 2 then map_option (\<lambda>v. Some (ucast v)) (load_u16 m src)
      else if sz = 4 then map_option (\<lambda>v. Some (ucast v)) (load_u32 m src)
      else if sz = 8 then map_option Some (load_u64 m src)
      else Some None)"

text \<open>The length of the C string at \<open>p\<close>, counted on from \<open>n\<close> and cut off at \<open>mx\<close>.\<close>

function str_len :: "mem \<Rightarrow> ptr \<Rightarrow> size_t \<Rightarrow> size_t \<Rightarrow> size_t option" where
  "str_len m p n mx =
     (if n < mx
      then do { b \<leftarrow> load_u8 m (padd p (uint n)); if b \<noteq> 0 then str_len m p (n + 1) mx else Some n }
      else Some n)"
  by pat_completeness auto
termination
proof (relation "measure (\<lambda>(m, p, n, mx). unat mx - unat n)", goal_cases)
  case (2 m p n mx b)
  then have "unat n < unat mx" by (simp add: word_less_nat_alt)
  moreover have "unat (n + 1) = unat n + 1"
    using calculation unat_less_2p [of mx] by (subst unat_add_no_overflow) simp_all
  ultimately show ?case by simp
qed simp

declare str_len.simps [simp del]

subsection \<open>Submessages\<close>

definition pb_encode_submessage ::
  "message_encoder \<Rightarrow> pb_ostream_t \<Rightarrow> pb_field_t list \<Rightarrow> ptr \<Rightarrow> enc_result" where
  "pb_encode_submessage enc s flds src = do {
     (ok, sub) \<leftarrow> enc PB_OSTREAM_SIZING flds src;
     if \<not> ok then Some (False, s\<lparr>oerrmsg := oerrmsg sub\<rparr>)
     else do {
       let sz = bytes_written sub;
       (ok, s) \<leftarrow> pb_encode_varint s sz;
       if \<not> ok then Some (False, s)
       else if is_No_write (ocallback s) then pb_write s None sz
       else if bytes_written s + sz > max_size s then Some (False, oset_error s ''stream full'')
       else do {
         (status, sub) \<leftarrow> enc (s\<lparr>max_size := sz, bytes_written := 0, oerrmsg := None\<rparr>) flds src;
         let s = s\<lparr>owritten := owritten sub, oroom := oroom sub,
                   bytes_written := bytes_written s + bytes_written sub, oerrmsg := oerrmsg sub\<rparr>;
         if bytes_written sub \<noteq> sz then Some (False, oset_error s ''submsg size changed'')
         else Some (status, s)
       }
     }
   }"

subsection \<open>Field encoders\<close>

definition pb_enc_bool :: "mem \<Rightarrow> pb_encoder_t" where
  "pb_enc_bool m s f src = do { b \<leftarrow> safe_read_bool m src; pb_encode_varint s (if b then 1 else 0) }"

definition pb_enc_varint :: "mem \<Rightarrow> pb_encoder_t" where
  "pb_enc_varint m s f src = do {
     r \<leftarrow> load_signed m (data_size f) src;
     case r of None \<Rightarrow> Some (False, oset_error s ''invalid data_size'') | Some v \<Rightarrow> pb_encode_varint s v
   }"

definition pb_enc_uvarint :: "mem \<Rightarrow> pb_encoder_t" where
  "pb_enc_uvarint m s f src = do {
     r \<leftarrow> load_unsigned m (data_size f) src;
     case r of None \<Rightarrow> Some (False, oset_error s ''invalid data_size'') | Some v \<Rightarrow> pb_encode_varint s v
   }"

definition pb_enc_svarint :: "mem \<Rightarrow> pb_encoder_t" where
  "pb_enc_svarint m s f src = do {
     r \<leftarrow> load_signed m (data_size f) src;
     case r of None \<Rightarrow> Some (False, oset_error s ''invalid data_size'') | Some v \<Rightarrow> pb_encode_svarint s v
   }"

definition pb_enc_fixed64 :: "mem \<Rightarrow> pb_encoder_t" where
  "pb_enc_fixed64 m s f src = do { v \<leftarrow> load_u64 m src; pb_encode_fixed64 s v }"

definition pb_enc_fixed32 :: "mem \<Rightarrow> pb_encoder_t" where
  "pb_enc_fixed32 m s f src = do { v \<leftarrow> load_u32 m src; pb_encode_fixed32 s v }"

definition pb_enc_bytes :: "mem \<Rightarrow> pb_encoder_t" where
  "pb_enc_bytes m s f src =
     (if src = NULL then pb_encode_string s None 0
      else do {
        n \<leftarrow> load_u32 m (bytes_size_member src);
        if PB_ATYPE (ftype f) = PB_ATYPE_STATIC \<and> PB_BYTES_ARRAY_T_ALLOCSIZE (ucast n) > ucast (data_size f)
        then Some (False, oset_error s ''bytes size exceeded'')
        else pb_encode_string s (load_bytes m (bytes_bytes_member src) (unat n)) (ucast n)
      })"

definition pb_enc_string :: "mem \<Rightarrow> pb_encoder_t" where
  "pb_enc_string m s f src = do {
     let mx = (if PB_ATYPE (ftype f) = PB_ATYPE_POINTER then - 1 else ucast (data_size f));
     n \<leftarrow> (if src = NULL then Some 0 else str_len m src 0 mx);
     pb_encode_string s (load_bytes m src (unat n)) n
   }"

definition pb_enc_submessage :: "message_encoder \<Rightarrow> pb_encoder_t" where
  "pb_enc_submessage enc s f src =
     (case fptr f of
        Ptr_null \<Rightarrow> Some (False, oset_error s ''invalid field descriptor'')
      | Ptr_fields flds \<Rightarrow> pb_encode_submessage enc s flds src
      | Ptr_default bs \<Rightarrow> None)"

definition pb_enc_fixed_length_bytes :: "mem \<Rightarrow> pb_encoder_t" where
  "pb_enc_fixed_length_bytes m s f src =
     pb_encode_string s (load_bytes m src (unat (data_size f))) (ucast (data_size f))"

text \<open>
  The table of encoders has eleven entries, one of them null; an index behind it is undefined, and
  so is a call of the null entry.
\<close>

definition PB_ENCODERS :: "message_encoder \<Rightarrow> mem \<Rightarrow> pb_encoder_t option list" where
  "PB_ENCODERS enc m =
     [Some (pb_enc_bool m), Some (pb_enc_varint m), Some (pb_enc_uvarint m), Some (pb_enc_svarint m),
      Some (pb_enc_fixed32 m), Some (pb_enc_fixed64 m), Some (pb_enc_bytes m), Some (pb_enc_string m),
      Some (pb_enc_submessage enc), None, Some (pb_enc_fixed_length_bytes m)]"

definition call_encoder :: "pb_encoder_t option \<Rightarrow> pb_encoder_t" where
  "call_encoder func s f src = (case func of None \<Rightarrow> None | Some g \<Rightarrow> g s f src)"

subsection \<open>Arrays\<close>

primrec array_items :: "nat \<Rightarrow> pb_encoder_t \<Rightarrow> pb_ostream_t \<Rightarrow> pb_field_t \<Rightarrow> ptr \<Rightarrow> enc_result" where
  "array_items 0 item s f p = Some (True, s)"
| "array_items (Suc n) item s f p = do {
     (ok, s) \<leftarrow> item s f p;
     if \<not> ok then Some (False, s) else array_items n item s f (padd p (uint (data_size f)))
   }"

definition tagged_item :: "mem \<Rightarrow> pb_encoder_t option \<Rightarrow> pb_encoder_t" where
  "tagged_item m func s f p = do {
     (ok, s) \<leftarrow> pb_encode_tag_for_field s f;
     if \<not> ok then Some (False, s)
     else if PB_ATYPE (ftype f) = PB_ATYPE_POINTER \<and>
             (PB_LTYPE (ftype f) = PB_LTYPE_STRING \<or> PB_LTYPE (ftype f) = PB_LTYPE_BYTES)
     then do { q \<leftarrow> load_ptr m p; call_encoder func s f q }
     else call_encoder func s f p
   }"

text \<open>The size of a packed array is computed or counted before the array is written.\<close>

definition packed_size :: "pb_encoder_t option \<Rightarrow> pb_field_t \<Rightarrow> ptr \<Rightarrow> size_t \<Rightarrow> (bool \<times> size_t) option" where
  "packed_size func f pd count =
     (if PB_LTYPE (ftype f) = PB_LTYPE_FIXED32 then Some (True, 4 * count)
      else if PB_LTYPE (ftype f) = PB_LTYPE_FIXED64 then Some (True, 8 * count)
      else do {
        (ok, sub) \<leftarrow> array_items (unat count) (call_encoder func) PB_OSTREAM_SIZING f pd;
        Some (ok, bytes_written sub)
      })"

definition encode_array ::
  "mem \<Rightarrow> pb_ostream_t \<Rightarrow> pb_field_t \<Rightarrow> ptr \<Rightarrow> size_t \<Rightarrow> pb_encoder_t option \<Rightarrow> enc_result" where
  "encode_array m s f pd count func =
     (if count = 0 then Some (True, s)
      else if PB_ATYPE (ftype f) \<noteq> PB_ATYPE_POINTER \<and> count > ucast (array_size f)
      then Some (False, oset_error s ''array max size exceeded'')
      else if PB_LTYPE (ftype f) \<le> PB_LTYPE_LAST_PACKABLE
      then do {
        (ok, s) \<leftarrow> pb_encode_tag s PB_WT_STRING (tag f);
        if \<not> ok then Some (False, s)
        else do {
          (ok, sz) \<leftarrow> packed_size func f pd count;
          if \<not> ok then Some (False, s)
          else do {
            (ok, s) \<leftarrow> pb_encode_varint s sz;
            if \<not> ok then Some (False, s)
            else if is_No_write (ocallback s) then pb_write s None sz
            else array_items (unat count) (call_encoder func) s f pd
          }
        }
      }
      else array_items (unat count) (tagged_item m func) s f pd)"

subsection \<open>The proto3 default check\<close>

text \<open>
  The byte comparison stops at the first byte that is not zero.
\<close>

primrec zero_bytes :: "mem \<Rightarrow> nat \<Rightarrow> ptr \<Rightarrow> bool option" where
  "zero_bytes m 0 p = Some True"
| "zero_bytes m (Suc n) p = do { b \<leftarrow> load_u8 m p; if b \<noteq> 0 then Some False else zero_bytes m n (padd p 1) }"

primrec check_proto3 :: "nat \<Rightarrow> mem \<Rightarrow> pb_field_t \<Rightarrow> ptr \<Rightarrow> bool option" where
  "check_proto3 0 m f pd = None"
| "check_proto3 (Suc n) m f pd =
     (let ty = ftype f; ps = padd pd (sint (size_offset f));
          rest =
            (if PB_ATYPE ty = PB_ATYPE_STATIC \<and> PB_LTYPE ty = PB_LTYPE_BYTES
             then map_option (\<lambda>n. n = 0) (load_u32 m (bytes_size_member pd))
             else if PB_ATYPE ty = PB_ATYPE_STATIC \<and> PB_LTYPE ty = PB_LTYPE_STRING
             then map_option (\<lambda>b. b = 0) (load_u8 m pd)
             else if PB_ATYPE ty = PB_ATYPE_STATIC \<and> PB_LTYPE ty = PB_LTYPE_FIXED_LENGTH_BYTES
             then Some (data_size f = 0)
             else if PB_ATYPE ty = PB_ATYPE_STATIC \<and> PB_LTYPE ty = PB_LTYPE_SUBMESSAGE
             then do {
               flds \<leftarrow> sub_fields f;
               (dflt, _) \<leftarrow> for_fields flds pd
                 (\<lambda>it _. do { g \<leftarrow> field_at it; d \<leftarrow> check_proto3 n m g (pData it); Some (d, ()) }) ();
               Some dflt
             }
             else zero_bytes m (unat (data_size f)) pd)
      in if PB_HTYPE ty = PB_HTYPE_REQUIRED then Some False
         else if PB_HTYPE ty = PB_HTYPE_REPEATED
         then (if size_offset f \<noteq> 0 then map_option (\<lambda>n. n = 0) (load_u32 m ps)
               else if PB_ATYPE ty = PB_ATYPE_STATIC then Some False
               else rest)
         else if PB_HTYPE ty = PB_HTYPE_ONEOF then map_option (\<lambda>n. n = 0) (load_u32 m ps)
         else if PB_HTYPE ty = PB_HTYPE_OPTIONAL \<and> size_offset f \<noteq> 0
         then map_option Not (safe_read_bool m ps)
         else rest)"

text \<open>The recursion follows the descriptor tree, so its depth is enough fuel.\<close>

definition pb_check_proto3_default_value :: "mem \<Rightarrow> pb_field_t \<Rightarrow> ptr \<Rightarrow> bool option" where
  "pb_check_proto3_default_value m f pd = check_proto3 (Suc (field_depth f)) m f pd"

subsection \<open>Fields\<close>

definition encode_payload :: "pb_encoder_t option \<Rightarrow> pb_encoder_t" where
  "encode_payload func s f pd = do {
     (ok, s) \<leftarrow> pb_encode_tag_for_field s f;
     if \<not> ok then Some (False, s) else call_encoder func s f pd
   }"

text \<open>
  \<^verbatim>\<open>encode_basic_field\<close>.  With a zero \<^verbatim>\<open>size_offset\<close> the local variable \<^verbatim>\<open>implicit_has\<close> takes the place of
  the \<^verbatim>\<open>has\<close> field, and reading a count from it is undefined.
\<close>

definition encode_basic_field :: "message_encoder \<Rightarrow> mem \<Rightarrow> pb_encoder_t" where
  "encode_basic_field enc m s f pd0 = do {
     func \<leftarrow> nth_opt (PB_ENCODERS enc m) (unat (PB_LTYPE (ftype f)));
     let ps = padd pd0 (sint (size_offset f));
     has0 \<leftarrow>
       (if size_offset f \<noteq> 0 then Some True
        else if PB_HTYPE (ftype f) = PB_HTYPE_OPTIONAL
        then map_option Not (pb_check_proto3_default_value m f pd0)
        else Some True);
     pd \<leftarrow> (if PB_ATYPE (ftype f) = PB_ATYPE_POINTER then load_ptr m pd0 else Some pd0);
     let implicit_has = (if PB_ATYPE (ftype f) = PB_ATYPE_POINTER then pd \<noteq> NULL else has0);
     if PB_HTYPE (ftype f) = PB_HTYPE_REQUIRED
     then (if pd = NULL then Some (False, oset_error s ''missing required field'')
           else encode_payload func s f pd)
     else if PB_HTYPE (ftype f) = PB_HTYPE_OPTIONAL
     then do {
       has \<leftarrow> (if size_offset f \<noteq> 0 then safe_read_bool m ps else Some implicit_has);
       if has then encode_payload func s f pd else Some (True, s)
     }
     else if PB_HTYPE (ftype f) = PB_HTYPE_REPEATED
     then do {
       count \<leftarrow> (if size_offset f \<noteq> 0 then load_u32 m ps else Some (array_size f));
       encode_array m s f pd (ucast count) func
     }
     else do {
       which \<leftarrow> (if size_offset f \<noteq> 0 then load_u32 m ps else None);
       if which = tag f then encode_payload func s f pd else Some (True, s)
     }
   }"

definition encode_callback_field :: "env \<Rightarrow> mem \<Rightarrow> pb_encoder_t" where
  "encode_callback_field e m s f pd = do {
     q \<leftarrow> load_ptr m (callback_funcs pd);
     case q of
       NULL \<Rightarrow> Some (True, s)
     | Sym k \<Rightarrow> do {
         g \<leftarrow> encode_cb e k;
         (ok, s) \<leftarrow> g m s f (callback_arg pd);
         if \<not> ok then Some (False, oset_error s ''callback error'') else Some (True, s)
       }
     | _ \<Rightarrow> None
   }"

definition encode_field :: "env \<Rightarrow> message_encoder \<Rightarrow> mem \<Rightarrow> pb_encoder_t" where
  "encode_field e enc m s f pd =
     (if PB_ATYPE (ftype f) = PB_ATYPE_STATIC \<or> PB_ATYPE (ftype f) = PB_ATYPE_POINTER
      then encode_basic_field enc m s f pd
      else if PB_ATYPE (ftype f) = PB_ATYPE_CALLBACK then encode_callback_field e m s f pd
      else Some (False, oset_error s ''invalid field type''))"

subsection \<open>Extensions\<close>

definition default_extension_encoder ::
  "env \<Rightarrow> message_encoder \<Rightarrow> mem \<Rightarrow> pb_ostream_t \<Rightarrow> ptr \<Rightarrow> enc_result" where
  "default_extension_encoder e enc m s ext = do {
     ty \<leftarrow> load_ext_type e m ext;
     f \<leftarrow> ext_arg ty;
     if PB_ATYPE (ftype f) = PB_ATYPE_POINTER then encode_field e enc m s f (ext_dest_member ext)
     else do { d \<leftarrow> load_ptr m (ext_dest_member ext); encode_field e enc m s f d }
   }"

primrec extension_loop ::
  "nat \<Rightarrow> env \<Rightarrow> message_encoder \<Rightarrow> mem \<Rightarrow> pb_ostream_t \<Rightarrow> ptr \<Rightarrow> enc_result" where
  "extension_loop 0 e enc m s ext = None"
| "extension_loop (Suc n) e enc m s ext =
     (if ext = NULL then Some (True, s)
      else do {
        ty \<leftarrow> load_ext_type e m ext;
        (status, s) \<leftarrow>
          (case ext_encode ty of
             Some g \<Rightarrow> g m s ext
           | None \<Rightarrow> default_extension_encoder e enc m s ext);
        if \<not> status then Some (False, s)
        else do { nx \<leftarrow> load_ptr m (ext_next_member ext); extension_loop n e enc m s nx }
      })"

definition encode_extension_field :: "nat \<Rightarrow> env \<Rightarrow> message_encoder \<Rightarrow> mem \<Rightarrow> pb_encoder_t" where
  "encode_extension_field n e enc m s f pd = do {
     ext \<leftarrow> load_ptr m pd;
     extension_loop n e enc m s ext
   }"

subsection \<open>Messages\<close>

definition encode_member :: "nat \<Rightarrow> env \<Rightarrow> message_encoder \<Rightarrow> mem \<Rightarrow> pb_field_iter_t \<Rightarrow> pb_ostream_t \<Rightarrow> enc_result" where
  "encode_member n e enc m it s = do {
     f \<leftarrow> field_at it;
     if PB_LTYPE (ftype f) = PB_LTYPE_EXTENSION
     then encode_extension_field n e enc m s f (pData it)
     else encode_field e enc m s f (pData it)
   }"

primrec pb_encode :: "nat \<Rightarrow> env \<Rightarrow> mem \<Rightarrow> message_encoder" where
  "pb_encode 0 e m s flds src = None"
| "pb_encode (Suc n) e m s flds src =
     for_fields flds src (encode_member n e (pb_encode n e m) m) s"

definition pb_encode_delimited :: "nat \<Rightarrow> env \<Rightarrow> mem \<Rightarrow> message_encoder" where
  "pb_encode_delimited n e m s flds src = pb_encode_submessage (pb_encode n e m) s flds src"

definition pb_encode_nullterminated :: "nat \<Rightarrow> env \<Rightarrow> mem \<Rightarrow> message_encoder" where
  "pb_encode_nullterminated n e m s flds src = do {
     (ok, s) \<leftarrow> pb_encode n e m s flds src;
     if \<not> ok then Some (False, s) else pb_write s (Some [0]) 1
   }"

definition pb_get_encoded_size :: "nat \<Rightarrow> env \<Rightarrow> mem \<Rightarrow> pb_field_t list \<Rightarrow> ptr \<Rightarrow> size_t option option" where
  "pb_get_encoded_size n e m flds src = do {
     (ok, s) \<leftarrow> pb_encode n e m PB_OSTREAM_SIZING flds src;
     Some (if ok then Some (bytes_written s) else None)
   }"

end
