(* ===== verification/Pb_Wire.thy ===== *)
theory Pb_Wire
  imports Pb_Ostream Pb_Istream
begin

text \<open>
  The two halves of the wire format together: every scalar encoder of \<^verbatim>\<open>pb_encode.c\<close> is undone by
  the decoder of \<^verbatim>\<open>pb_decode.c\<close> for the same format.  The locale \<open>wire_codec\<close> states what a format
  promises; each format interprets it.
\<close>

subsection \<open>Varints\<close>

lemma varint_loop_bytes:
  assumes "holds s (varint_bytes n)" "unat bitpos + 7 * (length (varint_bytes n) - 1) < 64"
  shows "varint_loop s r bitpos =
    Some (Some (r OR push_bit (unat bitpos) (of_nat n)), adv s (length (varint_bytes n)))"
  using assms
proof (induction n arbitrary: s r bitpos rule: varint_bytes.induct)
  case (1 n)
  show ?case
  proof (cases "n < 128")
    case True
    with 1 have "pb_readbyte s = Some (Some (of_nat n), adv s 1)"
      by (simp add: varint_bytes_small pb_readbyte_holds)
    with 1 True show ?thesis
      by (simp add: varint_loop.simps [of s] varint_bytes_small digit_byte word_le_nat_alt)
  next
    case False
    let ?rest = "varint_bytes (n div 128)"
    have eq: "varint_bytes n = of_nat (128 + n mod 128) # ?rest"
      using False by (simp add: varint_bytes_big del: of_nat_add)
    have ne: "?rest \<noteq> []" by (subst varint_bytes.simps) simp
    then have len: "length ?rest = Suc (length ?rest - 1)" by simp
    have rd: "pb_readbyte s = Some (Some (of_nat (128 + n mod 128)), adv s 1)"
      and h: "holds (adv s 1) ?rest"
      using "1.prems" unfolding eq holds_Cons [of s _ ?rest] by (auto simp: pb_readbyte_holds)
    have p: "unat bitpos + 7 + 7 * (length ?rest - 1) < 64"
      using "1.prems"(2) len unfolding eq by simp
    then have p7: "unat (bitpos + 7) = unat bitpos + 7"
      by (subst unat_add_no_overflow) simp_all
    have "varint_loop (adv s 1) q (bitpos + 7) =
        Some (Some (q OR push_bit (unat bitpos + 7) (of_nat (n div 128))), adv s (Suc (length ?rest)))" for q
      using "1.IH" [OF False h, of "bitpos + 7" q] p p7 by simp
    moreover have "\<not> 64 \<le> bitpos" using p by (simp add: word_le_nat_alt)
    ultimately show ?thesis
      using rd unfolding eq
      by (simp add: varint_loop.simps [of s] cont_byte digit_byte push_digits [of "unat bitpos" n]
            or.assoc del: of_nat_add)
  qed
qed

lemma pb_decode_varint_bytes:
  assumes "holds s (varint_bytes (unat v))"
  shows "pb_decode_varint s = Some (Some v, adv s (length (varint_bytes (unat v))))"
  using varint_loop_bytes [OF assms, of 0 0] length_varint_bytes_u64 [of v]
  by (simp add: pb_decode_varint_def)

lemma byte_and_70: "n < 16 \<Longrightarrow> (of_nat n :: byte) AND 0x70 = 0"
proof -
  assume "n < 16"
  then have "(of_nat n :: byte) = take_bit 4 (of_nat n)"
    by (simp add: word_unat_eq_iff unsigned_take_bit_eq take_bit_nat_eq_self)
  then have "(of_nat n :: byte) AND 0x70 = (of_nat n AND mask 4) AND 0x70"
    by (simp add: take_bit_eq_mask)
  also have "\<dots> = 0" by (simp add: and.assoc mask_eq_exp_minus_1)
  finally show ?thesis .
qed

text \<open>
  The 32-bit loop at bit position \<open>p\<close> on the rest \<open>n\<close> of a value below \<open>2^32\<close>: it ends no later than
  at position 28, where only the four low bits of the last byte can be set.
\<close>

lemma varint32_loop_bytes:
  assumes "holds s (varint_bytes n)" "0 < n" "n * 2 ^ unat bitpos < 2 ^ 32" "7 dvd unat bitpos"
  shows "\<exists>bp lb. varint32_loop s r bitpos =
      Some (Some (r OR push_bit (unat bitpos) (of_nat n), bp, lb), adv s (length (varint_bytes n))) \<and>
      (bp = 35 \<longrightarrow> lb AND 0x70 = 0)"
  using assms
proof (induction n arbitrary: s r bitpos rule: varint_bytes.induct)
  case (1 n)
  have "1 * 2 ^ unat bitpos \<le> n * 2 ^ unat bitpos"
    using "1.prems"(2) by (intro mult_le_mono1) simp
  with "1.prems"(3) have "2 ^ unat bitpos < (2 :: nat) ^ 32"
    by linarith
  then have p32: "unat bitpos < 32" by (rule power_less_imp_less_exp [rotated]) simp
  then have b32: "\<not> 32 \<le> bitpos" by (simp add: word_le_nat_alt)
  show ?case
  proof (cases "n < 128")
    case True
    then have rd: "pb_readbyte s = Some (Some (of_nat n), adv s 1)"
      using "1.prems" by (simp add: varint_bytes_small pb_readbyte_holds)
    have "bitpos + 7 = 35 \<longrightarrow> of_nat n AND (0x70 :: byte) = 0"
    proof
      assume "bitpos + 7 = 35"
      then have "bitpos = 28" by (simp add: eq_diff_eq [symmetric])
      then have "n < 16" using "1.prems"(3) by simp
      then show "of_nat n AND (0x70 :: byte) = 0" by (rule byte_and_70)
    qed
    with rd True b32 show ?thesis
      by (simp add: varint32_loop.simps [of s] varint_bytes_small digit_byte)
  next
    case False
    let ?rest = "varint_bytes (n div 128)"
    have eq: "varint_bytes n = of_nat (128 + n mod 128) # ?rest"
      using False by (simp add: varint_bytes_big del: of_nat_add)
    have rd: "pb_readbyte s = Some (Some (of_nat (128 + n mod 128)), adv s 1)"
      and h: "holds (adv s 1) ?rest"
      using "1.prems" unfolding eq holds_Cons [of s _ ?rest] by (auto simp: pb_readbyte_holds)
    have p7: "unat (bitpos + 7) = unat bitpos + 7"
      using p32 by (subst unat_add_no_overflow) simp_all
    have "n div 128 * 128 * 2 ^ unat bitpos \<le> n * 2 ^ unat bitpos"
      by (intro mult_le_mono1) simp
    moreover have "n div 128 * 2 ^ unat (bitpos + 7) = n div 128 * 128 * 2 ^ unat bitpos"
      by (simp add: p7 power_add)
    ultimately have "n div 128 * 2 ^ unat (bitpos + 7) < 2 ^ 32"
      using "1.prems"(3) by linarith
    then have "\<exists>bp lb. varint32_loop (adv s 1) q (bitpos + 7) =
        Some (Some (q OR push_bit (unat bitpos + 7) (of_nat (n div 128)), bp, lb),
          adv s (Suc (length ?rest))) \<and> (bp = 35 \<longrightarrow> lb AND 0x70 = 0)" for q
      using "1.IH" [OF False h, of "bitpos + 7" q] "1.prems"(4) False p7
      by (simp add: div_greater_zero_iff)
    from this [of "r OR push_bit (unat bitpos) (of_nat (n mod 128))"] show ?thesis
      using rd b32 unfolding eq
      by (simp add: varint32_loop.simps [of s] cont_byte digit_byte push_digits [of "unat bitpos" n]
            or.assoc del: of_nat_add)
  qed
qed

lemma pb_decode_varint32_eof_bytes:
  assumes h: "holds s (varint_bytes (unat (v :: uint32)))"
  shows "pb_decode_varint32_eof s = Some (Some v, False, adv s (length (varint_bytes (unat v))))"
proof (cases "unat v < 128")
  case True
  define n where "n = unat v"
  have v: "v = of_nat n" by (simp add: n_def)
  have "pb_readbyte s = Some (Some (of_nat n), adv s 1)"
    using h True by (simp add: varint_bytes_small pb_readbyte_holds n_def del: of_nat_unat)
  moreover have "n < 128" using True by (simp add: n_def)
  ultimately have "pb_decode_varint32_eof s = Some (Some (of_nat n), False, adv s 1)"
    by (simp add: pb_decode_varint32_eof_def digit_byte)
  with True v show ?thesis by (simp add: varint_bytes_small)
next
  case False
  let ?n = "unat v" and ?rest = "varint_bytes (unat v div 128)"
  have eq: "varint_bytes ?n = of_nat (128 + ?n mod 128) # ?rest"
    using False by (simp add: varint_bytes_big del: of_nat_add)
  have rd: "pb_readbyte s = Some (Some (of_nat (128 + ?n mod 128)), adv s 1)"
    and h': "holds (adv s 1) ?rest"
    using h unfolding eq holds_Cons [of s _ ?rest] by (auto simp: pb_readbyte_holds)
  have "?n div 128 * 2 ^ unat (7 :: 8 word) < 2 ^ 32"
    using unat_less_2p [of v] by simp
  then obtain bp lb where "varint32_loop (adv s 1) (of_nat (?n mod 128)) 7 =
        Some (Some (of_nat (?n mod 128) OR push_bit 7 (of_nat (?n div 128)), bp, lb),
          adv s (Suc (length ?rest)))" "bp = 35 \<longrightarrow> lb AND 0x70 = 0"
    using varint32_loop_bytes [OF h', of 7 "of_nat (?n mod 128)"] False
    by (auto simp: div_greater_zero_iff)
  then show ?thesis
    using rd unfolding eq
    by (simp add: pb_decode_varint32_eof_def cont_byte digit_byte of_nat_digits [symmetric] del: of_nat_add)
qed

lemma pb_decode_varint32_bytes:
  "holds s (varint_bytes (unat (v :: uint32))) \<Longrightarrow>
   pb_decode_varint32 s = Some (Some v, adv s (length (varint_bytes (unat v))))"
  by (simp add: pb_decode_varint32_def pb_decode_varint32_eof_bytes)

subsection \<open>Zig-zag, fixed-width integers and tags\<close>

lemma zigzag_negative: "bit (v :: uint64) 63 \<Longrightarrow> NOT (drop_bit 1 (NOT (push_bit 1 v))) = v"
proof (rule bit_word_eqI)
  fix n assume "bit v 63" and "n < LENGTH(64)"
  then show "bit (NOT (drop_bit 1 (NOT (push_bit 1 v)))) n = bit v n"
    by (cases "n = 63") (auto simp: bit_simps simp del: push_bit_Suc)
qed

lemma zigzag_nonnegative: "\<not> bit (v :: uint64) 63 \<Longrightarrow> drop_bit 1 (push_bit 1 v) = v"
proof (rule bit_word_eqI)
  fix n assume "\<not> bit v 63" and "n < LENGTH(64)"
  then show "bit (drop_bit 1 (push_bit 1 v)) n = bit v n"
    by (cases "n = 63") (auto simp: bit_simps simp del: push_bit_Suc)
qed

lemma zigzag_decode:
  "(if zigzag v AND 1 \<noteq> 0 then NOT (drop_bit 1 (zigzag v)) else drop_bit 1 (zigzag v)) = v"
proof -
  have "zigzag v AND 1 \<noteq> 0 \<longleftrightarrow> bit v 63"
    by (simp add: zigzag_def sint_neg_iff and_one_eq mod_2_eq_odd even_not_iff)
  then show ?thesis
    using zigzag_negative [of v] zigzag_nonnegative [of v] by (simp add: zigzag_def sint_neg_iff)
qed

lemma and_FF_cast: "ucast (v AND 0xFF :: 'a::len word) = (ucast v :: byte)"
proof -
  have "v AND 0xFF = take_bit 8 v"
    by (simp add: take_bit_eq_mask mask_eq_exp_minus_1)
  then show ?thesis
    by (auto intro!: bit_word_eqI simp: bit_simps)
qed

lemma pb_encode_fixed32_emits: "emits (\<lambda>s. pb_encode_fixed32 s v) (bytes_of 4 v)"
  using pb_write_emits [of "bytes_of 4 v"]
  by (simp add: pb_encode_fixed32_def and_FF_cast bytes_of_4)

lemma pb_encode_fixed64_emits: "emits (\<lambda>s. pb_encode_fixed64 s v) (bytes_of 8 v)"
  using pb_write_emits [of "bytes_of 8 v"]
  by (simp add: pb_encode_fixed64_def and_FF_cast bytes_of_8)

lemma pb_decode_fixed32_bytes:
  assumes "holds s (bytes_of 4 v)"
  shows "pb_decode_fixed32 s = Some (Some v, adv s 4)"
proof -
  have "word_of (bytes_of 4 v) = v" by (simp add: word_of_bytes_of take_bit_word_eq_self)
  moreover have "pb_read_buf s 4 = Some (Some (bytes_of 4 v), adv s 4)"
    using pb_read_buf_holds [OF assms] by simp
  ultimately show ?thesis
    by (simp add: pb_decode_fixed32_def bytes_of_4 push_bit_or push_bit_push_bit or.assoc)
qed

lemma pb_decode_fixed64_bytes:
  assumes "holds s (bytes_of 8 v)"
  shows "pb_decode_fixed64 s = Some (Some v, adv s 8)"
proof -
  have "word_of (bytes_of 8 v) = v" by (simp add: word_of_bytes_of take_bit_word_eq_self)
  moreover have "pb_read_buf s 8 = Some (Some (bytes_of 8 v), adv s 8)"
    using pb_read_buf_holds [OF assms] by simp
  ultimately show ?thesis
    by (simp add: pb_decode_fixed64_def bytes_of_8 push_bit_or push_bit_push_bit or.assoc)
qed

lemma pb_decode_svarint_bytes:
  "holds s (varint_bytes (unat (zigzag v))) \<Longrightarrow>
   pb_decode_svarint s = Some (Some v, adv s (length (varint_bytes (unat (zigzag v)))))"
  by (simp add: pb_decode_svarint_def pb_decode_varint_bytes zigzag_decode if_distrib [symmetric])

text \<open>
  A tag is the varint of \<open>field number * 8 + wire type\<close>.  The decoder reads it with 32 bits, so field
  numbers below \<open>2^29\<close> survive (the format has no larger ones).
\<close>

lemma tag_value:
  assumes "unat t < 2 ^ 29" "w < 8"
  shows "unat (push_bit 3 (ucast t) OR ucast w :: uint64) = unat (push_bit 3 t OR w :: uint32)"
    "(push_bit 3 t OR w) AND 7 = w" "drop_bit 3 (push_bit 3 t OR w) = t"
proof -
  have t: "t = take_bit 29 t"
    using assms(1) by (simp add: word_unat_eq_iff unsigned_take_bit_eq take_bit_nat_eq_self)
  have "unat w < 8" using assms(2) by (simp add: word_less_nat_alt)
  then have w: "w = take_bit 3 w"
    by (simp add: word_unat_eq_iff unsigned_take_bit_eq take_bit_nat_eq_self)
  have "push_bit 3 (ucast t) OR ucast w = (ucast (push_bit 3 t OR w) :: uint64)"
    by (subst (1 2) t, subst (1 2) w) (auto intro!: bit_word_eqI simp: bit_simps)
  then show "unat (push_bit 3 (ucast t) OR ucast w :: uint64) = unat (push_bit 3 t OR w :: uint32)"
    by (simp only: unat_ucast_u32)
  have m: "(7 :: uint32) = mask 3" by (simp add: mask_eq_exp_minus_1)
  show "(push_bit 3 t OR w) AND 7 = w"
    unfolding m by (subst (1 2) w) (auto intro!: bit_word_eqI simp: bit_simps)
  show "drop_bit 3 (push_bit 3 t OR w) = t"
    by (subst (1 2) t, subst w) (auto intro!: bit_word_eqI simp: bit_simps)
qed

definition is_wire_type :: "pb_wire_type_t \<Rightarrow> bool" where
  "is_wire_type wt = (case wt of PB_WT_invalid w \<Rightarrow> False | _ \<Rightarrow> True)"

lemma wire_type_codeE:
  assumes "is_wire_type wt"
  obtains w :: uint32 where "w < 8" "wire_type_code wt = ucast w" "wire_type_of w = wt"
  using assms that [of 0] that [of 1] that [of 2] that [of 5]
  by (cases wt) (simp_all add: is_wire_type_def wire_type_of_def)

lemma pb_decode_tag_bytes:
  assumes h: "holds s (tag_bytes wt t)" and t: "0 < t" "unat t < 2 ^ 29" and wt: "is_wire_type wt"
  shows "pb_decode_tag s = Some (Some (wt, t), False, adv s (length (tag_bytes wt t)))"
proof -
  obtain w :: uint32 where w: "w < 8" "wire_type_code wt = ucast w" "wire_type_of w = wt"
    using wt by (rule wire_type_codeE)
  let ?v = "push_bit 3 t OR w :: uint32"
  have bytes: "tag_bytes wt t = varint_bytes (unat ?v)"
    using tag_value(1) [OF t(2) w(1)] by (simp add: tag_bytes_def w)
  have nz: "?v \<noteq> 0"
    using tag_value(3) [OF t(2) w(1)] t(1) by (metis drop_bit_of_0 less_irrefl)
  show ?thesis
    using h nz tag_value [OF t(2) w(1)] w
    by (simp add: pb_decode_tag_def pb_decode_varint32_eof_bytes bytes)
qed

subsection \<open>Codecs\<close>

text \<open>
  What a scalar format promises: the encoder emits the wire form of every valid value, and the
  decoder turns a stream that holds this wire form back into the value and moves behind it.
\<close>

locale wire_codec =
  fixes enc :: "pb_ostream_t \<Rightarrow> 'v \<Rightarrow> (bool \<times> pb_ostream_t) option"
    and dec :: "pb_istream_t \<Rightarrow> ('v option \<times> pb_istream_t) option"
    and wire :: "'v \<Rightarrow> byte list"
    and valid :: "'v \<Rightarrow> bool"
  assumes enc_emits: "valid v \<Longrightarrow> emits (\<lambda>s. enc s v) (wire v)"
    and dec_holds: "valid v \<Longrightarrow> holds s (wire v) \<Longrightarrow> dec s = Some (Some v, adv s (length (wire v)))"
begin

lemma enc_in_buffer:
  assumes "valid v" "length (wire v) \<le> length buf" "length buf < 2 ^ 64"
  shows "enc (pb_ostream_from_buffer buf (of_nat (length buf))) v =
    Some (True, put (pb_ostream_from_buffer buf (of_nat (length buf))) (wire v))"
proof (rule emits_buffer [OF enc_emits [OF assms(1)]])
  show "ostream_ok (pb_ostream_from_buffer buf (of_nat (length buf)))"
    using assms by (simp add: ostream_ok_from_buffer)
  show "fits (pb_ostream_from_buffer buf (of_nat (length buf))) (length (wire v))"
    using assms by (simp add: fits_def pb_ostream_from_buffer_def)
qed

lemma dec_after:
  assumes "valid v" "length (wire v) + length rest < 2 ^ 64"
  shows "dec (pb_istream_from_buffer (wire v @ rest) (of_nat (length (wire v) + length rest))) =
    Some (Some v, pb_istream_from_buffer rest (of_nat (length rest)))"
proof -
  have "adv (pb_istream_from_buffer (wire v @ rest) (of_nat (length (wire v) + length rest)))
      (length (wire v)) = pb_istream_from_buffer rest (of_nat (length rest))"
    by (simp add: pb_istream_from_buffer_def adv_def)
  with dec_holds [OF assms(1) holds_from_buffer [OF assms(2)]] show ?thesis by simp
qed

lemma roundtrip:
  assumes "valid v" "length (wire v) \<le> length buf" "length buf < 2 ^ 64"
  shows "\<exists>out. enc (pb_ostream_from_buffer buf (of_nat (length buf))) v = Some (True, out) \<and>
    dec (pb_istream_from_buffer (owritten out @ oroom out) (bytes_written out)) =
      Some (Some v, pb_istream_from_buffer (oroom out) 0)"
proof -
  let ?out = "put (pb_ostream_from_buffer buf (of_nat (length buf))) (wire v)"
  have "bytes_written ?out = of_nat (length (wire v))" "owritten ?out = wire v"
    by (simp_all add: pb_ostream_from_buffer_def)
  moreover have "holds (pb_istream_from_buffer (wire v @ oroom ?out) (of_nat (length (wire v)))) (wire v)"
    using assms by (simp add: holds_def istream_ok_def pb_istream_from_buffer_def)
  moreover have "adv (pb_istream_from_buffer (wire v @ oroom ?out) (of_nat (length (wire v)))) (length (wire v))
      = pb_istream_from_buffer (oroom ?out) 0"
    by (simp add: pb_istream_from_buffer_def adv_def)
  ultimately show ?thesis
    using enc_in_buffer [OF assms] dec_holds [OF assms(1)] by simp
qed

end

interpretation varint: wire_codec pb_encode_varint pb_decode_varint "\<lambda>v. varint_bytes (unat v)" "\<lambda>_. True"
  by unfold_locales (simp_all add: pb_encode_varint_emits pb_decode_varint_bytes)

interpretation svarint: wire_codec pb_encode_svarint pb_decode_svarint
    "\<lambda>v. varint_bytes (unat (zigzag v))" "\<lambda>_. True"
  by unfold_locales (simp_all add: pb_encode_svarint_emits pb_decode_svarint_bytes)

interpretation fixed32: wire_codec pb_encode_fixed32 pb_decode_fixed32 "bytes_of 4" "\<lambda>_. True"
  by unfold_locales (simp_all add: pb_encode_fixed32_emits pb_decode_fixed32_bytes)

interpretation fixed64: wire_codec pb_encode_fixed64 pb_decode_fixed64 "bytes_of 8" "\<lambda>_. True"
  by unfold_locales (simp_all add: pb_encode_fixed64_emits pb_decode_fixed64_bytes)

text \<open>Lengths and tags are written as 64-bit varints and read back as 32-bit ones.\<close>

interpretation varint32: wire_codec "\<lambda>s v. pb_encode_varint s (ucast v)" pb_decode_varint32
    "\<lambda>v. varint_bytes (unat v)" "\<lambda>_. True"
  by unfold_locales
     (use pb_encode_varint_emits in \<open>simp_all add: pb_decode_varint32_bytes flip: unat_ucast_u32\<close>)

interpretation tag: wire_codec "\<lambda>s (wt, t). pb_encode_tag s wt t"
    "\<lambda>s. map_option (\<lambda>(r, eof, s'). (r, s')) (pb_decode_tag s)" "\<lambda>(wt, t). tag_bytes wt t"
    "\<lambda>(wt, t). is_wire_type wt \<and> 0 < t \<and> unat t < 2 ^ 29"
  by unfold_locales (auto simp: pb_encode_tag_emits pb_decode_tag_bytes)

subsection \<open>Properties of the wire format\<close>

lemma length_varint_10: "10 \<le> n \<Longrightarrow> length (varint_bytes (unat (v :: uint64))) \<le> n"
  using length_varint_bytes_u64 [of v] by simp

text \<open>
  A 64-bit varint written into a buffer of at least ten bytes is read back by the decoder as the
  same value, and the decoder stops exactly where the encoder stopped.
\<close>

theorem varint_roundtrip:
  assumes "10 \<le> length buf" "length buf < 2 ^ 64"
  shows "\<exists>out. pb_encode_varint (pb_ostream_from_buffer buf (of_nat (length buf))) v = Some (True, out) \<and>
    pb_decode_varint (pb_istream_from_buffer (owritten out @ oroom out) (bytes_written out)) =
      Some (Some v, pb_istream_from_buffer (oroom out) 0)"
  using assms by (intro varint.roundtrip length_varint_10) simp_all

theorem varint_roundtrip_witness:
  "\<exists>out. pb_encode_varint (pb_ostream_from_buffer (replicate 10 0) (of_nat (length (replicate 10 (0 :: byte))))) 300 =
      Some (True, out) \<and>
    pb_decode_varint (pb_istream_from_buffer (owritten out @ oroom out) (bytes_written out)) =
      Some (Some 300, pb_istream_from_buffer (oroom out) 0)"
  by (rule varint_roundtrip) simp_all

text \<open>
  The same for the zig-zag encoding of signed 64-bit integers.
\<close>

theorem svarint_roundtrip:
  assumes "10 \<le> length buf" "length buf < 2 ^ 64"
  shows "\<exists>out. pb_encode_svarint (pb_ostream_from_buffer buf (of_nat (length buf))) v = Some (True, out) \<and>
    pb_decode_svarint (pb_istream_from_buffer (owritten out @ oroom out) (bytes_written out)) =
      Some (Some v, pb_istream_from_buffer (oroom out) 0)"
  using assms by (intro svarint.roundtrip length_varint_10) simp_all

theorem svarint_roundtrip_witness:
  "\<exists>out. pb_encode_svarint (pb_ostream_from_buffer (replicate 12 7) (of_nat (length (replicate 12 (7 :: byte))))) (- 3) =
      Some (True, out) \<and>
    pb_decode_svarint (pb_istream_from_buffer (owritten out @ oroom out) (bytes_written out)) =
      Some (Some (- 3), pb_istream_from_buffer (oroom out) 0)"
  by (rule svarint_roundtrip) simp_all

text \<open>
  The fixed-width formats: four respectively eight bytes of room are enough, and the value
  comes back.
\<close>

theorem fixed_roundtrip:
  assumes "8 \<le> length buf" "length buf < 2 ^ 64"
  shows "(\<exists>out. pb_encode_fixed32 (pb_ostream_from_buffer buf (of_nat (length buf))) w = Some (True, out) \<and>
      pb_decode_fixed32 (pb_istream_from_buffer (owritten out @ oroom out) (bytes_written out)) =
        Some (Some w, pb_istream_from_buffer (oroom out) 0)) \<and>
    (\<exists>out. pb_encode_fixed64 (pb_ostream_from_buffer buf (of_nat (length buf))) v = Some (True, out) \<and>
      pb_decode_fixed64 (pb_istream_from_buffer (owritten out @ oroom out) (bytes_written out)) =
        Some (Some v, pb_istream_from_buffer (oroom out) 0))"
  using assms by (intro conjI fixed32.roundtrip fixed64.roundtrip) simp_all

theorem fixed_roundtrip_witness:
  "(\<exists>out. pb_encode_fixed32 (pb_ostream_from_buffer (replicate 8 0) (of_nat (length (replicate 8 (0 :: byte))))) 0xDEADBEEF = Some (True, out) \<and>
      pb_decode_fixed32 (pb_istream_from_buffer (owritten out @ oroom out) (bytes_written out)) =
        Some (Some 0xDEADBEEF, pb_istream_from_buffer (oroom out) 0)) \<and>
    (\<exists>out. pb_encode_fixed64 (pb_ostream_from_buffer (replicate 8 0) (of_nat (length (replicate 8 (0 :: byte))))) 0x0123456789ABCDEF = Some (True, out) \<and>
      pb_decode_fixed64 (pb_istream_from_buffer (owritten out @ oroom out) (bytes_written out)) =
        Some (Some 0x0123456789ABCDEF, pb_istream_from_buffer (oroom out) 0))"
  by (rule fixed_roundtrip) simp_all

text \<open>
  A field tag with a non-zero field number below \<open>2^29\<close> is read back with its wire type and
  number and without the end-of-message flag, whatever follows it in the buffer.
\<close>

theorem tag_roundtrip:
  assumes "is_wire_type wt" "0 < t" "unat t < 2 ^ 29" "10 + length rest < 2 ^ 64"
  shows "\<exists>out. pb_encode_tag (pb_ostream_from_buffer (replicate 10 0) 10) wt t = Some (True, out) \<and>
    pb_decode_tag (pb_istream_from_buffer (owritten out @ rest) (bytes_written out + of_nat (length rest))) =
      Some (Some (wt, t), False, pb_istream_from_buffer rest (of_nat (length rest)))"
proof -
  let ?s = "pb_ostream_from_buffer (replicate 10 0) 10" and ?bs = "tag_bytes wt t"
  have len: "length ?bs \<le> 10" unfolding tag_bytes_def by (rule length_varint_10) simp
  have "pb_encode_tag ?s wt t = Some (True, put ?s ?bs)"
    using tag.enc_in_buffer [of "(wt, t)" "replicate 10 0"] assms len by simp
  moreover have "holds (pb_istream_from_buffer (?bs @ rest) (of_nat (length ?bs) + of_nat (length rest))) ?bs"
    using holds_from_buffer [of ?bs rest] len assms(4) by simp
  ultimately show ?thesis
    using assms by (simp add: pb_decode_tag_bytes) (simp add: pb_ostream_from_buffer_def pb_istream_from_buffer_def pb_decode_tag_bytes adv_def)
qed

theorem tag_roundtrip_witness:
  "\<exists>out. pb_encode_tag (pb_ostream_from_buffer (replicate 10 0) 10) PB_WT_STRING 1234 = Some (True, out) \<and>
    pb_decode_tag (pb_istream_from_buffer (owritten out @ [1, 2]) (bytes_written out + of_nat (length [1, 2 :: byte]))) =
      Some (Some (PB_WT_STRING, 1234), False, pb_istream_from_buffer [1, 2] (of_nat (length [1, 2 :: byte])))"
  by (rule tag_roundtrip) (simp_all add: is_wire_type_def)

subsection \<open>Skipping and substreams\<close>

text \<open>The payloads of the four wire types; a varint payload may have any length.\<close>

fun is_varint :: "byte list \<Rightarrow> bool" where
  "is_varint [] = False"
| "is_varint [b] \<longleftrightarrow> b AND 0x80 = 0"
| "is_varint (b # bs) \<longleftrightarrow> b AND 0x80 \<noteq> 0 \<and> is_varint bs"

definition is_payload :: "pb_wire_type_t \<Rightarrow> byte list \<Rightarrow> bool" where
  "is_payload wt bs =
     (case wt of
        PB_WT_VARINT \<Rightarrow> is_varint bs
      | PB_WT_64BIT \<Rightarrow> length bs = 8
      | PB_WT_STRING \<Rightarrow> (\<exists>n<2 ^ 32. \<exists>d. length d = n \<and> bs = varint_bytes n @ d)
      | PB_WT_32BIT \<Rightarrow> length bs = 4
      | PB_WT_invalid w \<Rightarrow> False)"

lemma pb_read_buf_1: "holds s [b] \<Longrightarrow> pb_read_buf s 1 = Some (Some [b], adv s 1)"
  using pb_read_buf_holds [of s "[b]"] by simp

lemma pb_skip_varint_holds:
  "is_varint bs \<Longrightarrow> holds s bs \<Longrightarrow> pb_skip_varint s = Some (True, adv s (length bs))"
proof (induction bs arbitrary: s rule: is_varint.induct)
  case (2 b)
  then show ?case by (simp add: pb_skip_varint.simps [of s] pb_read_buf_1)
next
  case (3 b c bs)
  then have "holds s [b]" "holds (adv s 1) (c # bs)" using holds_Cons [of s b "c # bs"] by simp_all
  with 3 show ?case by (simp add: pb_skip_varint.simps [of s] pb_read_buf_1)
qed simp

lemma pb_read_null_holds:
  assumes "holds s bs"
  shows "pb_read_null s (of_nat (length bs)) = Some (True, adv s (length bs))"
proof -
  have "length bs < 2 ^ 64" using assms unat_less_2p [of "bytes_left s"] by (simp add: holds_def)
  with assms show ?thesis
    by (simp add: pb_read_null_ok holds_def word_le_nat_alt)
qed

lemma length_as_u32:
  assumes "n < 2 ^ 32"
  shows "unat (of_nat n :: uint32) = n" "ucast (of_nat n :: uint32) = (of_nat n :: size_t)"
  using assms by (simp_all add: unsigned_of_nat take_bit_nat_eq_self)

lemma pb_decode_length:
  assumes "holds s (varint_bytes n @ d)" "n < 2 ^ 32"
  shows "pb_decode_varint32 s = Some (Some (of_nat n), adv s (length (varint_bytes n)))"
  using pb_decode_varint32_bytes [of s "of_nat n"] assms holds_append [of s "varint_bytes n" d]
  by (simp add: length_as_u32)

text \<open>
  \<^verbatim>\<open>pb_skip_field\<close> on a stream that holds a payload of the given wire type moves exactly behind this
  payload, so the next tag is read from the right place.
\<close>

theorem skip_field_exact:
  assumes "is_payload wt bs" "holds s bs"
  shows "pb_skip_field s wt = Some (True, adv s (length bs))"
proof (cases wt)
  case PB_WT_VARINT
  with assms show ?thesis by (simp add: is_payload_def pb_skip_field_def pb_skip_varint_holds)
next
  case PB_WT_64BIT
  with assms show ?thesis
    using pb_read_null_holds [of s bs] by (simp add: is_payload_def pb_skip_field_def)
next
  case PB_WT_32BIT
  with assms show ?thesis
    using pb_read_null_holds [of s bs] by (simp add: is_payload_def pb_skip_field_def)
next
  case PB_WT_STRING
  with assms(1) obtain d where d: "length d < 2 ^ 32" "bs = varint_bytes (length d) @ d"
    by (auto simp: is_payload_def)
  then have "holds (adv s (length (varint_bytes (length d)))) d" "holds s (varint_bytes (length d) @ d)"
    using assms(2) holds_append by auto
  then show ?thesis
    using PB_WT_STRING d pb_read_null_holds [of "adv s (length (varint_bytes (length d)))" d]
    by (simp add: pb_skip_field_def pb_skip_string_def pb_decode_length length_as_u32)
qed (use assms in \<open>simp add: is_payload_def\<close>)

theorem skip_field_exact_witness:
  "pb_skip_field (pb_istream_from_buffer ([0x96, 0x01] @ [0x08]) (of_nat (length [0x96, 0x01 :: byte] + length [0x08 :: byte]))) PB_WT_VARINT =
     Some (True, adv (pb_istream_from_buffer ([0x96, 0x01] @ [0x08]) (of_nat (length [0x96, 0x01 :: byte] + length [0x08 :: byte])))
        (length [0x96, 0x01 :: byte]))"
proof (rule skip_field_exact)
  show "is_payload PB_WT_VARINT [0x96, 0x01]" by (simp add: is_payload_def)
  show "holds (pb_istream_from_buffer ([0x96, 0x01] @ [0x08]) (of_nat (length [0x96, 0x01 :: byte] + length [0x08 :: byte]))) [0x96, 0x01]"
    by (rule holds_from_buffer) simp
qed

text \<open>
  A substream for a length-delimited field is limited to the content of the field.  When the
  reader of the substream has consumed any part of it, closing the substream leaves the parent
  exactly behind the field.
\<close>

theorem substream_exact:
  assumes "holds s (varint_bytes (length d) @ d)" "length d < 2 ^ 32" "k \<le> length d"
  shows "\<exists>sub rest. pb_make_string_substream s = Some (Some sub, rest) \<and>
    holds sub d \<and> unat (bytes_left sub) = length d \<and>
    pb_close_string_substream rest (adv sub k) = Some (True, adv s (length (varint_bytes (length d) @ d)))"
proof -
  let ?v = "varint_bytes (length d)" and ?t = "adv s (length (varint_bytes (length d)))"
  have hd: "holds ?t d" using assms(1) holds_append by auto
  have l64: "length d < 2 ^ 64" using assms(2) by simp
  have left: "length d \<le> unat (bytes_left ?t)" using hd by (simp add: holds_def)
  have "\<not> bytes_left ?t < of_nat (length d)"
    using left l64 by (simp add: word_less_nat_alt)
  then have mk: "pb_make_string_substream s = Some (Some (?t\<lparr>bytes_left := of_nat (length d)\<rparr>),
      ?t\<lparr>bytes_left := bytes_left ?t - of_nat (length d)\<rparr>)"
    using pb_decode_length [OF assms(1,2)] assms(2) by (simp add: pb_make_string_substream_def length_as_u32)
  let ?sub = "?t\<lparr>bytes_left := of_nat (length d)\<rparr>"
  have hsub: "holds ?sub d" using hd l64 by (simp add: holds_def istream_ok_def)
  have ok: "istream_ok (adv ?sub k)" using hsub assms(3) l64 by (intro istream_ok_adv) (simp_all add: holds_def)
  have bl: "unat (of_nat (length d) - of_nat k :: size_t) = length d - k"
    using assms(3) l64 by (subst unat_sub) (simp_all add: word_le_nat_alt)
  have "pb_close_string_substream (?t\<lparr>bytes_left := bytes_left ?t - of_nat (length d)\<rparr>) (adv ?sub k) =
      Some (True, adv s (length (?v @ d)))"
  proof (cases "k = length d")
    case True
    then show ?thesis by (simp add: pb_close_string_substream_def adv_def add.commute diff_diff_eq)
  next
    case False
    then have "(of_nat (length d) - of_nat k :: size_t) \<noteq> 0"
      using bl assms(3) by (metis diff_is_0_eq le_antisym unat_0)
    moreover have "pb_read_null (adv ?sub k) (bytes_left (adv ?sub k)) = Some (True, adv (adv ?sub k) (length d - k))"
      using pb_read_null_ok [OF ok order_refl] bl by simp
    ultimately show ?thesis
      using assms(3) by (simp add: pb_close_string_substream_def adv_def add.commute)
  qed
  with mk hsub l64 show ?thesis by auto
qed

theorem substream_exact_witness:
  "\<exists>sub rest. pb_make_string_substream
      (pb_istream_from_buffer (([2] @ [10, 11]) @ [9]) (of_nat (length ([2] @ [10, 11 :: byte]) + length [9 :: byte]))) = Some (Some sub, rest) \<and>
    holds sub [10, 11] \<and> unat (bytes_left sub) = length [10, 11 :: byte] \<and>
    pb_close_string_substream rest (adv sub 1) =
      Some (True, adv (pb_istream_from_buffer (([2] @ [10, 11]) @ [9]) (of_nat (length ([2] @ [10, 11 :: byte]) + length [9 :: byte])))
        (length (varint_bytes (length [10, 11 :: byte]) @ [10, 11])))"
proof (rule substream_exact)
  have "varint_bytes (length [10, 11 :: byte]) = [2]" by (simp add: varint_bytes_small)
  moreover have "holds (pb_istream_from_buffer (([2] @ [10, 11]) @ [9]) (of_nat (length ([2] @ [10, 11 :: byte]) + length [9 :: byte]))) ([2] @ [10, 11])"
    by (rule holds_from_buffer) simp
  ultimately show "holds (pb_istream_from_buffer (([2] @ [10, 11]) @ [9]) (of_nat (length ([2] @ [10, 11 :: byte]) + length [9 :: byte])))
      (varint_bytes (length [10, 11 :: byte]) @ [10, 11])" by simp
qed simp_all

text \<open>
  On a buffer stream every scalar decoder, the tag decoder and the skipper end and stay inside
  the buffer, for every input: they return, the stream stays sound, and it never promises more
  bytes than before.
\<close>

theorem decoders_stay_inside:
  assumes "istream_ok s"
  shows "(\<exists>r s'. pb_decode_varint s = Some (r, s') \<and> settled s s') \<and>
    (\<exists>r s'. pb_decode_varint32 s = Some (r, s') \<and> settled s s') \<and>
    (\<exists>r s'. pb_decode_svarint s = Some (r, s') \<and> settled s s') \<and>
    (\<exists>r s'. pb_decode_fixed32 s = Some (r, s') \<and> settled s s') \<and>
    (\<exists>r s'. pb_decode_fixed64 s = Some (r, s') \<and> settled s s') \<and>
    (\<exists>r eof s'. pb_decode_tag s = Some (r, eof, s') \<and> settled s s') \<and>
    (\<exists>ok s'. pb_skip_field s wt = Some (ok, s') \<and> settled s s')"
  using rd_varint.rd_total [OF assms] rd_varint32.rd_total [OF assms] rd_svarint.rd_total [OF assms]
    rd_fixed32.rd_total [OF assms] rd_fixed64.rd_total [OF assms] rd_skip.rd_total [OF assms, of wt]
    pb_decode_tag_reads [OF assms]
  by (auto simp: reads_def)

theorem decoders_stay_inside_witness:
  "(\<exists>r s'. pb_decode_varint (pb_istream_from_buffer [0x80] 1) = Some (r, s') \<and> settled (pb_istream_from_buffer [0x80] 1) s') \<and>
    (\<exists>ok s'. pb_skip_field (pb_istream_from_buffer [0x80] 1) PB_WT_STRING = Some (ok, s') \<and> settled (pb_istream_from_buffer [0x80] 1) s')"
  using decoders_stay_inside [of "pb_istream_from_buffer [0x80] 1" PB_WT_STRING]
  by (simp add: istream_ok_from_buffer)

text \<open>
  \<^verbatim>\<open>pb_decode_varint32\<close> counts bit positions in eight bits.  An overlong varint of 38 bytes wraps the
  counter, and the last byte is shifted into the result again: the 32-bit decoder accepts the
  input with the value 8, where the 64-bit decoder reports an overflow.
\<close>

theorem varint32_overlong_accepted:
  "map_option fst (pb_decode_varint32 (pb_istream_from_buffer (replicate 37 0x80 @ [0x01]) 38)) = Some (Some 8) \<and>
   map_option (\<lambda>(r, s). (r, ierrmsg s)) (pb_decode_varint (pb_istream_from_buffer (replicate 37 0x80 @ [0x01]) 38)) =
     Some (None, Some ''varint overflow'')"
  by code_simp

end
