(* ===== verification/Pb_Encode_Spec.thy ===== *)
theory Pb_Encode_Spec
  imports Pb_Encode Pb_Wire
begin

text \<open>
  The serialized form of a message, as a function from the message in memory to bytes, with no
  streams, size passes or limits: the reference the encoder of \<open>Pb_Encode\<close> is compared with.
  \<^const>\<open>None\<close> stands for a message the encoder rejects or cannot read.
\<close>

subsection \<open>The serialized form\<close>

definition delimited :: "byte list \<Rightarrow> byte list" where
  "delimited bs = varint_bytes (length bs) @ bs"

text \<open>What user callbacks and extension handlers contribute.\<close>

record contributions =
  cb_bytes :: "nat \<Rightarrow> mem \<Rightarrow> pb_field_t \<Rightarrow> ptr \<Rightarrow> byte list option"
  ext_bytes :: "mem \<Rightarrow> ptr \<Rightarrow> byte list option"

definition flat_option :: "'a option option \<Rightarrow> 'a option" where
  "flat_option x = (case x of Some y \<Rightarrow> y | None \<Rightarrow> None)"

definition value_bytes ::
  "(pb_field_t list \<Rightarrow> ptr \<Rightarrow> byte list option) \<Rightarrow> mem \<Rightarrow> pb_field_t \<Rightarrow> ptr \<Rightarrow> byte list option" where
  "value_bytes msg m f src =
     (let l = PB_LTYPE (ftype f) in
      if l = PB_LTYPE_BOOL then do { b \<leftarrow> load_u8 m src; Some (varint_bytes (if b \<noteq> 0 then 1 else 0)) }
      else if l = PB_LTYPE_VARINT
      then do { v \<leftarrow> flat_option (load_signed m (data_size f) src); Some (varint_bytes (unat v)) }
      else if l = PB_LTYPE_UVARINT
      then do { v \<leftarrow> flat_option (load_unsigned m (data_size f) src); Some (varint_bytes (unat v)) }
      else if l = PB_LTYPE_SVARINT
      then do { v \<leftarrow> flat_option (load_signed m (data_size f) src); Some (varint_bytes (unat (zigzag v))) }
      else if l = PB_LTYPE_FIXED32 then load_bytes m src 4
      else if l = PB_LTYPE_FIXED64 then load_bytes m src 8
      else if l = PB_LTYPE_BYTES
      then (if src = NULL then Some (delimited [])
            else do {
              n \<leftarrow> load_u32 m src;
              bs \<leftarrow> load_bytes m (padd src 4) (unat n);
              if PB_ATYPE (ftype f) = PB_ATYPE_STATIC \<and> unat n + 4 > unat (data_size f) then None
              else Some (delimited bs)
            })
      else if l = PB_LTYPE_STRING
      then (if src = NULL then Some (delimited [])
            else do {
              n \<leftarrow> str_len m src 0 (if PB_ATYPE (ftype f) = PB_ATYPE_POINTER then - 1 else ucast (data_size f));
              bs \<leftarrow> load_bytes m src (unat n);
              Some (delimited bs)
            })
      else if l = PB_LTYPE_SUBMESSAGE
      then do { flds \<leftarrow> sub_fields f; bs \<leftarrow> msg flds src; Some (delimited bs) }
      else if l = PB_LTYPE_FIXED_LENGTH_BYTES
      then do { bs \<leftarrow> load_bytes m src (unat (data_size f)); Some (delimited bs) }
      else None)"

text \<open>The wire type of a field that is not packed.\<close>

definition field_wire_type :: "pb_field_t \<Rightarrow> pb_wire_type_t option" where
  "field_wire_type f =
     (let l = PB_LTYPE (ftype f) in
      if l \<in> {PB_LTYPE_BOOL, PB_LTYPE_VARINT, PB_LTYPE_UVARINT, PB_LTYPE_SVARINT} then Some PB_WT_VARINT
      else if l = PB_LTYPE_FIXED32 then Some PB_WT_32BIT
      else if l = PB_LTYPE_FIXED64 then Some PB_WT_64BIT
      else if l \<in> {PB_LTYPE_BYTES, PB_LTYPE_STRING, PB_LTYPE_SUBMESSAGE, PB_LTYPE_FIXED_LENGTH_BYTES}
      then Some PB_WT_STRING
      else None)"

definition tagged_bytes ::
  "(pb_field_t list \<Rightarrow> ptr \<Rightarrow> byte list option) \<Rightarrow> mem \<Rightarrow> pb_field_t \<Rightarrow> ptr \<Rightarrow> byte list option" where
  "tagged_bytes msg m f src = do {
     wt \<leftarrow> field_wire_type f;
     bs \<leftarrow> value_bytes msg m f src;
     Some (tag_bytes wt (tag f) @ bs)
   }"

text \<open>The entries of an array; entries that are strings or byte arrays behind a pointer are pointers.\<close>

definition item_bytes ::
  "(pb_field_t list \<Rightarrow> ptr \<Rightarrow> byte list option) \<Rightarrow> mem \<Rightarrow> pb_field_t \<Rightarrow> ptr \<Rightarrow> byte list option" where
  "item_bytes msg m f p =
     (if PB_ATYPE (ftype f) = PB_ATYPE_POINTER \<and>
         (PB_LTYPE (ftype f) = PB_LTYPE_STRING \<or> PB_LTYPE (ftype f) = PB_LTYPE_BYTES)
      then do { q \<leftarrow> load_ptr m p; tagged_bytes msg m f q }
      else tagged_bytes msg m f p)"

primrec items_bytes :: "nat \<Rightarrow> (ptr \<Rightarrow> byte list option) \<Rightarrow> int \<Rightarrow> ptr \<Rightarrow> byte list option" where
  "items_bytes 0 item w p = Some []"
| "items_bytes (Suc n) item w p = do { a \<leftarrow> item p; bs \<leftarrow> items_bytes n item w (padd p w); Some (a @ bs) }"

definition array_bytes ::
  "(pb_field_t list \<Rightarrow> ptr \<Rightarrow> byte list option) \<Rightarrow> mem \<Rightarrow> pb_field_t \<Rightarrow> ptr \<Rightarrow> nat \<Rightarrow> byte list option" where
  "array_bytes msg m f pd count =
     (if count = 0 then Some []
      else if PB_ATYPE (ftype f) \<noteq> PB_ATYPE_POINTER \<and> count > unat (array_size f) then None
      else if PB_LTYPE (ftype f) \<le> PB_LTYPE_LAST_PACKABLE
      then do {
        bs \<leftarrow> items_bytes count (value_bytes msg m f) (uint (data_size f)) pd;
        Some (tag_bytes PB_WT_STRING (tag f) @ delimited bs)
      }
      else items_bytes count (item_bytes msg m f) (uint (data_size f)) pd)"

text \<open>Whether an optional field is present: by its \<^verbatim>\<open>has\<close> flag, its pointer or its value.\<close>

definition is_present :: "mem \<Rightarrow> pb_field_t \<Rightarrow> ptr \<Rightarrow> ptr \<Rightarrow> bool option" where
  "is_present m f pd0 pd =
     (if size_offset f \<noteq> 0 then safe_read_bool m (padd pd0 (sint (size_offset f)))
      else do {
        dflt \<leftarrow> pb_check_proto3_default_value m f pd0;
        Some (if PB_ATYPE (ftype f) = PB_ATYPE_POINTER then pd \<noteq> NULL else \<not> dflt)
      })"

definition basic_bytes ::
  "(pb_field_t list \<Rightarrow> ptr \<Rightarrow> byte list option) \<Rightarrow> mem \<Rightarrow> pb_field_t \<Rightarrow> ptr \<Rightarrow> byte list option" where
  "basic_bytes msg m f pd0 = do {
     pd \<leftarrow> (if PB_ATYPE (ftype f) = PB_ATYPE_POINTER then load_ptr m pd0 else Some pd0);
     if PB_HTYPE (ftype f) = PB_HTYPE_REQUIRED
     then (if pd = NULL then None else tagged_bytes msg m f pd)
     else if PB_HTYPE (ftype f) = PB_HTYPE_OPTIONAL
     then do { here \<leftarrow> is_present m f pd0 pd; if here then tagged_bytes msg m f pd else Some [] }
     else if PB_HTYPE (ftype f) = PB_HTYPE_REPEATED
     then do {
       count \<leftarrow> (if size_offset f \<noteq> 0 then load_u32 m (padd pd0 (sint (size_offset f))) else Some (array_size f));
       array_bytes msg m f pd (unat count)
     }
     else do {
       which \<leftarrow> (if size_offset f \<noteq> 0 then load_u32 m (padd pd0 (sint (size_offset f))) else None);
       if which = tag f then tagged_bytes msg m f pd else Some []
     }
   }"

definition callback_bytes :: "contributions \<Rightarrow> mem \<Rightarrow> pb_field_t \<Rightarrow> ptr \<Rightarrow> byte list option" where
  "callback_bytes c m f pd = do {
     q \<leftarrow> load_ptr m (callback_funcs pd);
     case q of NULL \<Rightarrow> Some [] | Sym k \<Rightarrow> cb_bytes c k m f (callback_arg pd) | _ \<Rightarrow> None
   }"

definition field_bytes ::
  "contributions \<Rightarrow> (pb_field_t list \<Rightarrow> ptr \<Rightarrow> byte list option) \<Rightarrow> mem \<Rightarrow> pb_field_t \<Rightarrow> ptr \<Rightarrow> byte list option" where
  "field_bytes c msg m f pd =
     (if PB_ATYPE (ftype f) = PB_ATYPE_STATIC \<or> PB_ATYPE (ftype f) = PB_ATYPE_POINTER
      then (if PB_LTYPE (ftype f) \<le> PB_LTYPE_FIXED_LENGTH_BYTES then basic_bytes msg m f pd else None)
      else if PB_ATYPE (ftype f) = PB_ATYPE_CALLBACK then callback_bytes c m f pd
      else None)"

text \<open>An extension list contributes the bytes of its entries in order.\<close>

primrec extensions_bytes ::
  "nat \<Rightarrow> env \<Rightarrow> contributions \<Rightarrow> (pb_field_t list \<Rightarrow> ptr \<Rightarrow> byte list option) \<Rightarrow> mem \<Rightarrow> ptr \<Rightarrow> byte list option" where
  "extensions_bytes 0 e c msg m ext = None"
| "extensions_bytes (Suc n) e c msg m ext =
     (if ext = NULL then Some []
      else do {
        ty \<leftarrow> load_ext_type e m ext;
        a \<leftarrow> (case ext_encode ty of
               Some g \<Rightarrow> ext_bytes c m ext
             | None \<Rightarrow> do {
                 f \<leftarrow> ext_arg ty;
                 d \<leftarrow> (if PB_ATYPE (ftype f) = PB_ATYPE_POINTER then Some (ext_dest_member ext)
                      else load_ptr m (ext_dest_member ext));
                 field_bytes c msg m f d
               });
        nx \<leftarrow> load_ptr m (ext_next_member ext);
        bs \<leftarrow> extensions_bytes n e c msg m nx;
        Some (a @ bs)
      })"

primrec concat_bytes :: "('a \<Rightarrow> byte list option) \<Rightarrow> 'a list \<Rightarrow> byte list option" where
  "concat_bytes g [] = Some []"
| "concat_bytes g (x # xs) = do { a \<leftarrow> g x; bs \<leftarrow> concat_bytes g xs; Some (a @ bs) }"

definition member_bytes ::
  "nat \<Rightarrow> env \<Rightarrow> contributions \<Rightarrow> (pb_field_t list \<Rightarrow> ptr \<Rightarrow> byte list option) \<Rightarrow> mem \<Rightarrow> pb_field_iter_t \<Rightarrow> byte list option" where
  "member_bytes n e c msg m it = do {
     f \<leftarrow> field_at it;
     if PB_LTYPE (ftype f) = PB_LTYPE_EXTENSION
     then do { ext \<leftarrow> load_ptr m (pData it); extensions_bytes n e c msg m ext }
     else field_bytes c msg m f (pData it)
   }"

primrec message_bytes ::
  "nat \<Rightarrow> env \<Rightarrow> contributions \<Rightarrow> mem \<Rightarrow> pb_field_t list \<Rightarrow> ptr \<Rightarrow> byte list option" where
  "message_bytes 0 e c m flds src = None"
| "message_bytes (Suc n) e c m flds src =
     (if terminated flds then concat_bytes (member_bytes n e c (message_bytes n e c m) m) (walk flds src) else None)"

subsection \<open>Building blocks\<close>

text \<open>Two passes of the encoder that only count what they would write.\<close>

lemma sized_emits:
  assumes "emits f bs"
  shows "emits (\<lambda>s. if is_No_write (ocallback s) then pb_write s None (of_nat (length bs)) else f s) bs"
  unfolding emits_def
proof (intro conjI allI impI)
  show "length bs < 2 ^ 64" using assms by (rule emits_length)
qed (use assms in \<open>auto simp: emits_def sizing_ok_def ostream_ok_def pb_write_def tally_def\<close>)

lemma pb_encode_size_emits: "length bs < 2 ^ 64 \<Longrightarrow> emits (\<lambda>s. pb_encode_varint s (of_nat (length bs))) (varint_bytes (length bs))"
  using pb_encode_varint_emits [of "of_nat (length bs)"] by simp

lemma pb_encode_string_emits:
  assumes "length (delimited bs) < 2 ^ 64"
  shows "emits (\<lambda>s. pb_encode_string s (Some bs) (of_nat (length bs))) (delimited bs)"
proof -
  have "(\<lambda>s. pb_encode_string s (Some bs) (of_nat (length bs))) =
      and_then (\<lambda>s. pb_encode_varint s (of_nat (length bs))) (\<lambda>s. pb_write s (Some bs) (of_nat (length bs)))"
    by (intro ext) (simp add: pb_encode_string_def and_then_def)
  then show ?thesis
    using assms unfolding delimited_def
    by (simp add: emits_and_then pb_encode_size_emits pb_write_emits)
qed

text \<open>The second pass over a submessage, on a substream limited to the size of the first pass.\<close>

definition submessage_body :: "message_encoder \<Rightarrow> size_t \<Rightarrow> pb_ostream_t \<Rightarrow> pb_field_t list \<Rightarrow> ptr \<Rightarrow> enc_result" where
  "submessage_body enc sz s flds src =
     (if is_No_write (ocallback s) then pb_write s None sz
      else if bytes_written s + sz > max_size s then Some (False, oset_error s ''stream full'')
      else do {
        (status, sub) \<leftarrow> enc (s\<lparr>max_size := sz, bytes_written := 0, oerrmsg := None\<rparr>) flds src;
        let s = s\<lparr>owritten := owritten sub, oroom := oroom sub,
                  bytes_written := bytes_written s + bytes_written sub, oerrmsg := oerrmsg sub\<rparr>;
        if bytes_written sub \<noteq> sz then Some (False, oset_error s ''submsg size changed'')
        else Some (status, s)
      })"

lemma submessage_body_emits:
  assumes e: "emits (\<lambda>s. enc s flds src) bs"
  shows "emits (\<lambda>s. submessage_body enc (of_nat (length bs)) s flds src) bs"
  unfolding emits_def
proof (intro conjI allI impI)
  show len: "length bs < 2 ^ 64" using e by (rule emits_length)
  fix s
  show "submessage_body enc (of_nat (length bs)) s flds src = Some (True, tally s (length bs))" if "sizing_ok s"
    using that by (simp add: submessage_body_def sizing_ok_def pb_write_def tally_def)
  show "submessage_body enc (of_nat (length bs)) s flds src = Some (True, put s bs)"
    if ok: "ostream_ok s" and fit: "fits s (length bs)"
  proof -
    let ?sub = "s\<lparr>max_size := of_nat (length bs), bytes_written := 0, oerrmsg := None\<rparr>"
    have "\<not> bytes_written s + of_nat (length bs) > max_size s"
      using fit by (simp add: word_less_nat_alt unat_bytes_written_put [OF fit]) (simp add: fits_def)
    moreover have "ostream_ok ?sub" "fits ?sub (length bs)"
      using ok len ostream_ok_room [OF ok fit] by (simp_all add: ostream_ok_def fits_def)
    then have "enc ?sub flds src = Some (True, put ?sub bs)"
      using emits_buffer [OF e] by simp
    ultimately show ?thesis
      using ok by (simp add: submessage_body_def ostream_ok_def put_def)
  qed
  show "\<exists>k e. k \<le> length bs \<and> fits s k \<and>
      submessage_body enc (of_nat (length bs)) s flds src = Some (False, (put s (take k bs))\<lparr>oerrmsg := Some e\<rparr>)"
    if ok: "ostream_ok s" and nf: "\<not> fits s (length bs)" and nw: "no_wrap s (length bs)"
  proof -
    have "unat (bytes_written s + of_nat (length bs)) = unat (bytes_written s) + length bs"
      using nw len by (subst unat_add_no_overflow) (simp_all add: no_wrap_def)
    then have "bytes_written s + of_nat (length bs) > max_size s"
      using nf by (simp add: word_less_nat_alt fits_def)
    moreover have "fits s 0" using ok by (simp add: ostream_ok_def fits_def)
    ultimately show ?thesis
      using ok by (intro exI [of _ 0] exI [of _ "''stream full''"])
        (simp add: submessage_body_def ostream_ok_def oset_error_def)
  qed
qed

lemma pb_encode_submessage_emits:
  assumes e: "emits (\<lambda>s. enc s flds src) bs" and len: "length (delimited bs) < 2 ^ 64"
  shows "emits (\<lambda>s. pb_encode_submessage enc s flds src) (delimited bs)"
proof -
  have "enc PB_OSTREAM_SIZING flds src = Some (True, tally PB_OSTREAM_SIZING (length bs))"
    using emits_sizing [OF e] by simp
  then have "(\<lambda>s. pb_encode_submessage enc s flds src) =
      and_then (\<lambda>s. pb_encode_varint s (of_nat (length bs))) (\<lambda>s. submessage_body enc (of_nat (length bs)) s flds src)"
    by (intro ext) (simp add: pb_encode_submessage_def submessage_body_def and_then_def PB_OSTREAM_SIZING_def, simp add: Let_def)
  then show ?thesis
    using len unfolding delimited_def
    by (simp add: emits_and_then pb_encode_size_emits submessage_body_emits [of enc flds src, OF e])
qed

subsection \<open>Values\<close>

text \<open>\<open>serializes enc msg\<close>: the message encoder \<open>enc\<close> emits the bytes that \<open>msg\<close> gives.\<close>

definition serializes :: "message_encoder \<Rightarrow> (pb_field_t list \<Rightarrow> ptr \<Rightarrow> byte list option) \<Rightarrow> bool" where
  "serializes enc msg \<longleftrightarrow>
     (\<forall>flds src bs. msg flds src = Some bs \<longrightarrow> length bs < 2 ^ 64 \<longrightarrow> emits (\<lambda>s. enc s flds src) bs)"

lemma serializesD:
  "serializes enc msg \<Longrightarrow> msg flds src = Some bs \<Longrightarrow> length bs < 2 ^ 64 \<Longrightarrow> emits (\<lambda>s. enc s flds src) bs"
  by (simp add: serializes_def)

lemma flat_option_Some [simp]: "flat_option x = Some y \<longleftrightarrow> x = Some (Some y)"
  by (cases x) (auto simp: flat_option_def)

lemma pb_enc_fixed32_emits:
  assumes "load_bytes m src 4 = Some bs"
  shows "emits (\<lambda>s. pb_enc_fixed32 m s f src) bs"
  using pb_encode_fixed32_emits [of "word_of bs"] bytes_of_word_of [of bs, where 'a = 32] length_load_bytes [OF assms] assms
  by (simp add: pb_enc_fixed32_def load_u32_def)

lemma pb_enc_fixed64_emits:
  assumes "load_bytes m src 8 = Some bs"
  shows "emits (\<lambda>s. pb_enc_fixed64 m s f src) bs"
  using pb_encode_fixed64_emits [of "word_of bs"] bytes_of_word_of [of bs, where 'a = 64] length_load_bytes [OF assms] assms
  by (simp add: pb_enc_fixed64_def load_u64_def)

lemma pb_encode_loaded_emits:
  assumes "load_bytes m src (unat n) = Some bs" "length (delimited bs) < 2 ^ 64"
  shows "emits (\<lambda>s. pb_encode_string s (load_bytes m src (unat n)) n) (delimited bs)"
  using pb_encode_string_emits [OF assms(2)] length_load_bytes [OF assms(1)] assms(1) by simp

lemma pb_encode_empty_emits: "emits (\<lambda>s. pb_encode_string s buf 0) (delimited [])"
proof -
  have "pb_write s buf 0 = pb_write s (Some []) 0" for s
    by (simp add: pb_write_def)
  then have "pb_encode_string s buf 0 = pb_encode_string s (Some []) 0" for s
    by (simp only: pb_encode_string_def)
  then show ?thesis
    using pb_encode_string_emits [of "[]"] by (simp add: delimited_def varint_bytes_small)
qed

lemma pb_enc_bytes_emits:
  assumes "src \<noteq> NULL" "load_u32 m src = Some n" "load_bytes m (padd src 4) (unat n) = Some bs"
    "\<not> (PB_ATYPE (ftype f) = PB_ATYPE_STATIC \<and> unat n + 4 > unat (data_size f))" "length (delimited bs) < 2 ^ 64"
  shows "emits (\<lambda>s. pb_enc_bytes m s f src) (delimited bs)"
proof -
  have "unat (ucast n + 4 :: size_t) = unat n + 4"
    using unat_less_2p [of n] by (subst unat_add_no_overflow) simp_all
  then have "PB_BYTES_ARRAY_T_ALLOCSIZE (ucast n) > ucast (data_size f) \<longleftrightarrow> unat n + 4 > unat (data_size f)"
    by (simp add: PB_BYTES_ARRAY_T_ALLOCSIZE_def word_less_nat_alt)
  moreover have "emits (\<lambda>s. pb_encode_string s (load_bytes m (padd src 4) (unat n)) (ucast n)) (delimited bs)"
    using pb_encode_loaded_emits [of m "padd src 4" "ucast n" bs] assms by simp
  ultimately show ?thesis
    using assms by (auto simp: pb_enc_bytes_def bytes_size_member_def bytes_bytes_member_def)
qed

lemma pb_enc_string_emits:
  assumes "value_bytes msg m f src = Some bs" "PB_LTYPE (ftype f) = PB_LTYPE_STRING" "length bs < 2 ^ 64"
  shows "emits (\<lambda>s. pb_enc_string m s f src) bs"
proof (cases "src = NULL")
  case True
  with assms show ?thesis
    using pb_encode_empty_emits by (simp add: pb_enc_string_def value_bytes_def pb_ltype_defs)
next
  case False
  let ?mx = "if PB_ATYPE (ftype f) = PB_ATYPE_POINTER then - 1 else ucast (data_size f) :: size_t"
  from False assms obtain n cs where n: "str_len m src 0 ?mx = Some n" "load_bytes m src (unat n) = Some cs" "bs = delimited cs"
    by (auto simp: value_bytes_def pb_ltype_defs)
  then have "(\<lambda>s. pb_enc_string m s f src) = (\<lambda>s. pb_encode_string s (load_bytes m src (unat n)) n)"
    using False by (intro ext) (simp add: pb_enc_string_def Let_def)
  moreover have "emits (\<lambda>s. pb_encode_string s (load_bytes m src (unat n)) n) (delimited cs)"
    using n assms(3) by (intro pb_encode_loaded_emits) simp_all
  ultimately show ?thesis using n(3) by simp
qed

lemma PB_ENCODERS_nth:
  "l = PB_LTYPE_BOOL \<Longrightarrow> nth_opt (PB_ENCODERS enc m) (unat l) = Some (Some (pb_enc_bool m))"
  "l = PB_LTYPE_VARINT \<Longrightarrow> nth_opt (PB_ENCODERS enc m) (unat l) = Some (Some (pb_enc_varint m))"
  "l = PB_LTYPE_UVARINT \<Longrightarrow> nth_opt (PB_ENCODERS enc m) (unat l) = Some (Some (pb_enc_uvarint m))"
  "l = PB_LTYPE_SVARINT \<Longrightarrow> nth_opt (PB_ENCODERS enc m) (unat l) = Some (Some (pb_enc_svarint m))"
  "l = PB_LTYPE_FIXED32 \<Longrightarrow> nth_opt (PB_ENCODERS enc m) (unat l) = Some (Some (pb_enc_fixed32 m))"
  "l = PB_LTYPE_FIXED64 \<Longrightarrow> nth_opt (PB_ENCODERS enc m) (unat l) = Some (Some (pb_enc_fixed64 m))"
  "l = PB_LTYPE_BYTES \<Longrightarrow> nth_opt (PB_ENCODERS enc m) (unat l) = Some (Some (pb_enc_bytes m))"
  "l = PB_LTYPE_STRING \<Longrightarrow> nth_opt (PB_ENCODERS enc m) (unat l) = Some (Some (pb_enc_string m))"
  "l = PB_LTYPE_SUBMESSAGE \<Longrightarrow> nth_opt (PB_ENCODERS enc m) (unat l) = Some (Some (pb_enc_submessage enc))"
  "l = PB_LTYPE_EXTENSION \<Longrightarrow> nth_opt (PB_ENCODERS enc m) (unat l) = Some None"
  "l = PB_LTYPE_FIXED_LENGTH_BYTES \<Longrightarrow> nth_opt (PB_ENCODERS enc m) (unat l) = Some (Some (pb_enc_fixed_length_bytes m))"
  by (simp_all add: nth_opt_def PB_ENCODERS_def pb_ltype_defs)

lemma value_emits:
  assumes enc: "serializes enc msg" and vb: "value_bytes msg m f src = Some bs" and len: "length bs < 2 ^ 64"
  shows "\<exists>func. nth_opt (PB_ENCODERS enc m) (unat (PB_LTYPE (ftype f))) = Some func \<and>
    emits (\<lambda>s. call_encoder func s f src) bs"
proof -
  let ?l = "PB_LTYPE (ftype f)"
  consider "?l = PB_LTYPE_BOOL" | "?l = PB_LTYPE_VARINT" | "?l = PB_LTYPE_UVARINT" | "?l = PB_LTYPE_SVARINT"
    | "?l = PB_LTYPE_FIXED32" | "?l = PB_LTYPE_FIXED64" | "?l = PB_LTYPE_BYTES" | "?l = PB_LTYPE_STRING"
    | "?l = PB_LTYPE_SUBMESSAGE" | "?l = PB_LTYPE_FIXED_LENGTH_BYTES"
    using vb unfolding value_bytes_def Let_def by (metis option.distinct(1))
  then show ?thesis
  proof cases
    case 1
    with vb obtain b where "load_u8 m src = Some b" "bs = varint_bytes (if b \<noteq> 0 then 1 else 0)"
      by (auto simp: value_bytes_def)
    with 1 show ?thesis
      using pb_encode_varint_emits [of "if b \<noteq> 0 then 1 else 0"]
      by (simp add: PB_ENCODERS_nth call_encoder_def pb_enc_bool_def safe_read_bool_def split: if_splits)
  next
    case 2
    with vb obtain v where "load_signed m (data_size f) src = Some (Some v)" "bs = varint_bytes (unat v)"
      by (auto simp: value_bytes_def pb_ltype_defs)
    with 2 show ?thesis
      using pb_encode_varint_emits [of v] by (simp add: PB_ENCODERS_nth call_encoder_def pb_enc_varint_def)
  next
    case 3
    with vb obtain v where "load_unsigned m (data_size f) src = Some (Some v)" "bs = varint_bytes (unat v)"
      by (auto simp: value_bytes_def pb_ltype_defs)
    with 3 show ?thesis
      using pb_encode_varint_emits [of v] by (simp add: PB_ENCODERS_nth call_encoder_def pb_enc_uvarint_def)
  next
    case 4
    with vb obtain v where "load_signed m (data_size f) src = Some (Some v)" "bs = varint_bytes (unat (zigzag v))"
      by (auto simp: value_bytes_def pb_ltype_defs)
    with 4 show ?thesis
      using pb_encode_svarint_emits [of v] by (simp add: PB_ENCODERS_nth call_encoder_def pb_enc_svarint_def)
  next
    case 5
    with vb have "load_bytes m src 4 = Some bs"
      by (simp add: value_bytes_def pb_ltype_defs)
    with 5 show ?thesis
      by (simp add: PB_ENCODERS_nth call_encoder_def pb_enc_fixed32_emits)
  next
    case 6
    with vb have "load_bytes m src 8 = Some bs"
      by (simp add: value_bytes_def pb_ltype_defs)
    with 6 show ?thesis
      by (simp add: PB_ENCODERS_nth call_encoder_def pb_enc_fixed64_emits)
  next
    case 7
    have "emits (\<lambda>s. pb_enc_bytes m s f src) bs"
    proof (cases "src = NULL")
      case True
      with 7 vb show ?thesis
        using pb_encode_empty_emits by (simp add: pb_enc_bytes_def value_bytes_def pb_ltype_defs)
    next
      case False
      with 7 vb len show ?thesis
        by (auto simp: value_bytes_def pb_ltype_defs simp del: not_less intro!: pb_enc_bytes_emits split: if_splits)
    qed
    with 7 show ?thesis by (simp add: PB_ENCODERS_nth call_encoder_def)
  next
    case 8
    with vb len show ?thesis
      using pb_enc_string_emits [OF vb 8 len] by (simp add: PB_ENCODERS_nth call_encoder_def)
  next
    case 9
    with vb obtain flds cs where cs: "fptr f = Ptr_fields flds" "msg flds src = Some cs" "bs = delimited cs"
      by (auto simp: value_bytes_def pb_ltype_defs sub_fields_def split: field_ptr.splits)
    then have "emits (\<lambda>s. pb_encode_submessage enc s flds src) bs"
      using len serializesD [OF enc cs(2)] pb_encode_submessage_emits [of enc flds src cs]
      by (simp add: delimited_def)
    with 9 cs show ?thesis by (simp add: PB_ENCODERS_nth call_encoder_def pb_enc_submessage_def)
  next
    case 10
    with vb obtain cs where cs: "load_bytes m src (unat (data_size f)) = Some cs" "bs = delimited cs"
      by (auto simp: value_bytes_def pb_ltype_defs)
    then have "emits (\<lambda>s. pb_encode_string s (load_bytes m src (unat (data_size f))) (ucast (data_size f))) bs"
      using pb_encode_loaded_emits [of m src "ucast (data_size f)" cs] len by simp
    with 10 show ?thesis by (simp add: PB_ENCODERS_nth call_encoder_def pb_enc_fixed_length_bytes_def)
  qed
qed

lemma value_emits_func:
  assumes "serializes enc msg" "nth_opt (PB_ENCODERS enc m) (unat (PB_LTYPE (ftype f))) = Some func"
    "value_bytes msg m f src = Some bs" "length bs < 2 ^ 64"
  shows "emits (\<lambda>s. call_encoder func s f src) bs"
  using value_emits [OF assms(1,3,4)] assms(2) by auto

subsection \<open>Tags and arrays\<close>

lemma pb_encode_tag_for_field_eq:
  "field_wire_type f = Some wt \<Longrightarrow> pb_encode_tag_for_field s f = pb_encode_tag s wt (tag f)"
  by (auto simp: field_wire_type_def pb_encode_tag_for_field_def Let_def split: if_splits)

lemma pb_encode_tag_for_field_emits:
  "field_wire_type f = Some wt \<Longrightarrow> emits (\<lambda>s. pb_encode_tag_for_field s f) (tag_bytes wt (tag f))"
  using pb_encode_tag_emits by (simp add: pb_encode_tag_for_field_eq)

lemma encode_payload_and_then:
  "(\<lambda>s. encode_payload func s f pd) =
   and_then (\<lambda>s. pb_encode_tag_for_field s f) (\<lambda>s. call_encoder func s f pd)"
  by (intro ext) (simp add: encode_payload_def and_then_def)

lemma tagged_emits:
  assumes enc: "serializes enc msg" and tb: "tagged_bytes msg m f src = Some bs" and len: "length bs < 2 ^ 64"
  shows "\<exists>func. nth_opt (PB_ENCODERS enc m) (unat (PB_LTYPE (ftype f))) = Some func \<and>
    emits (\<lambda>s. encode_payload func s f src) bs"
proof -
  obtain wt cs where wt: "field_wire_type f = Some wt" "value_bytes msg m f src = Some cs" "bs = tag_bytes wt (tag f) @ cs"
    using tb by (auto simp: tagged_bytes_def)
  then obtain func where func: "nth_opt (PB_ENCODERS enc m) (unat (PB_LTYPE (ftype f))) = Some func"
      "emits (\<lambda>s. call_encoder func s f src) cs"
    using value_emits [OF enc wt(2)] len by auto
  then have "emits (\<lambda>s. encode_payload func s f src) bs"
    using len unfolding encode_payload_and_then wt(3)
    by (intro emits_and_then pb_encode_tag_for_field_emits [OF wt(1)]) simp_all
  with func show ?thesis by blast
qed

lemma array_items_emits:
  assumes "\<And>p a. item_ref p = Some a \<Longrightarrow> length a < 2 ^ 64 \<Longrightarrow> emits (\<lambda>s. item s f p) a"
    and "items_bytes n item_ref (uint (data_size f)) p = Some bs" and "length bs < 2 ^ 64"
  shows "emits (\<lambda>s. array_items n item s f p) bs"
  using assms(2,3)
proof (induction n arbitrary: p bs)
  case 0
  then show ?case by (simp add: emits_Nil)
next
  case (Suc n)
  then obtain a cs where a: "item_ref p = Some a" "items_bytes n item_ref (uint (data_size f)) (padd p (uint (data_size f))) = Some cs"
      "bs = a @ cs" by auto
  have "(\<lambda>s. array_items (Suc n) item s f p) =
      and_then (\<lambda>s. item s f p) (\<lambda>s. array_items n item s f (padd p (uint (data_size f))))"
    by (intro ext) (simp add: and_then_def)
  then show ?case
    using Suc.prems(2) a assms(1) [OF a(1)] Suc.IH [OF a(2)]
    by (auto intro!: emits_and_then simp: a(3))
qed

lemma tagged_item_emits:
  assumes enc: "serializes enc msg" and fn: "nth_opt (PB_ENCODERS enc m) (unat (PB_LTYPE (ftype f))) = Some func"
    and ib: "item_bytes msg m f p = Some bs" and len: "length bs < 2 ^ 64"
  shows "emits (\<lambda>s. tagged_item m func s f p) bs"
proof -
  let ?ind = "PB_ATYPE (ftype f) = PB_ATYPE_POINTER \<and>
             (PB_LTYPE (ftype f) = PB_LTYPE_STRING \<or> PB_LTYPE (ftype f) = PB_LTYPE_BYTES)"
  obtain q where q: "(if ?ind then load_ptr m p else Some p) = Some q" "tagged_bytes msg m f q = Some bs"
    using ib by (auto simp: item_bytes_def split: if_splits)
  have "tagged_item m func s f p = encode_payload func s f q" for s
    using q(1) by (auto simp: tagged_item_def encode_payload_def split: if_splits intro!: bind_option_cong)
  then show ?thesis using tagged_emits [OF enc q(2) len] fn by auto
qed

lemma length_items_bytes:
  assumes "\<And>p a. item_ref p = Some a \<Longrightarrow> length a = k"
  shows "items_bytes n item_ref w p = Some bs \<Longrightarrow> length bs = k * n"
  by (induction n arbitrary: p bs) (auto dest: assms)

lemma packed_size_eq:
  assumes items: "items_bytes (unat count) (value_bytes msg m f) (uint (data_size f)) pd = Some bs"
    and em: "emits (\<lambda>s. array_items (unat count) (call_encoder func) s f pd) bs"
  shows "packed_size func f pd count = Some (True, of_nat (length bs))"
proof -
  consider (f32) "PB_LTYPE (ftype f) = PB_LTYPE_FIXED32" | (f64) "PB_LTYPE (ftype f) = PB_LTYPE_FIXED64"
    | (other) "PB_LTYPE (ftype f) \<noteq> PB_LTYPE_FIXED32" "PB_LTYPE (ftype f) \<noteq> PB_LTYPE_FIXED64" by blast
  then show ?thesis
  proof cases
    case f32
    then have "length bs = 4 * unat count"
      using items by (rule_tac length_items_bytes)
        (auto simp: value_bytes_def Let_def pb_ltype_defs dest: length_load_bytes)
    with f32 show ?thesis by (simp add: packed_size_def)
  next
    case f64
    then have "length bs = 8 * unat count"
      using items by (rule_tac length_items_bytes)
        (auto simp: value_bytes_def Let_def pb_ltype_defs dest: length_load_bytes)
    with f64 show ?thesis by (simp add: packed_size_def pb_ltype_defs)
  next
    case other
    then show ?thesis
      using emits_sizing [OF em sizing_ok_PB_OSTREAM_SIZING] by (simp add: packed_size_def PB_OSTREAM_SIZING_def)
  qed
qed

lemma encode_array_packed:
  assumes "count \<noteq> 0" "\<not> (PB_ATYPE (ftype f) \<noteq> PB_ATYPE_POINTER \<and> count > ucast (array_size f))"
    "PB_LTYPE (ftype f) \<le> PB_LTYPE_LAST_PACKABLE" "packed_size func f pd count = Some (True, sz)"
  shows "(\<lambda>s. encode_array m s f pd count func) =
    and_then (\<lambda>s. pb_encode_tag s PB_WT_STRING (tag f))
      (and_then (\<lambda>s. pb_encode_varint s sz)
        (\<lambda>s. if is_No_write (ocallback s) then pb_write s None sz
             else array_items (unat count) (call_encoder func) s f pd))"
  using assms
  by (intro ext) (simp add: encode_array_def and_then_def del: de_Morgan_conj cong: if_cong)

lemma encode_array_emits:
  assumes enc: "serializes enc msg" and fn: "nth_opt (PB_ENCODERS enc m) (unat (PB_LTYPE (ftype f))) = Some func"
    and ab: "array_bytes msg m f pd (unat count) = Some bs" and len: "length bs < 2 ^ 64"
  shows "emits (\<lambda>s. encode_array m s f pd count func) bs"
proof (cases "count = 0")
  case True
  with ab show ?thesis by (simp add: encode_array_def array_bytes_def emits_Nil)
next
  case False
  then have nz: "unat count \<noteq> 0" by (simp add: unat_eq_zero)
  have small: "\<not> (PB_ATYPE (ftype f) \<noteq> PB_ATYPE_POINTER \<and> unat count > unat (array_size f))"
    using ab nz by (auto simp: array_bytes_def split: if_splits)
  then have small': "\<not> (PB_ATYPE (ftype f) \<noteq> PB_ATYPE_POINTER \<and> count > ucast (array_size f))"
    by (simp add: word_less_nat_alt)
  show ?thesis
  proof (cases "PB_LTYPE (ftype f) \<le> PB_LTYPE_LAST_PACKABLE")
    case True
    with ab nz small obtain cs where cs: "items_bytes (unat count) (value_bytes msg m f) (uint (data_size f)) pd = Some cs"
        "bs = tag_bytes PB_WT_STRING (tag f) @ delimited cs"
      by (auto simp: array_bytes_def split: if_splits)
    have em: "emits (\<lambda>s. array_items (unat count) (call_encoder func) s f pd) cs"
      using value_emits_func [OF enc fn] cs(1)
    proof (rule array_items_emits)
      show "length cs < 2 ^ 64" using cs(2) len by (simp add: delimited_def)
    qed
    have l2: "length (delimited cs) < 2 ^ 64" using len cs(2) by simp
    have "emits (and_then (\<lambda>s. pb_encode_varint s (of_nat (length cs)))
        (\<lambda>s. if is_No_write (ocallback s) then pb_write s None (of_nat (length cs))
             else array_items (unat count) (call_encoder func) s f pd)) (delimited cs)"
      using l2 unfolding delimited_def
      by (intro emits_and_then sized_emits em pb_encode_size_emits) simp_all
    then show ?thesis
      using len unfolding encode_array_packed [OF False small' True packed_size_eq [OF cs(1) em]] cs(2)
      by (intro emits_and_then pb_encode_tag_emits) simp_all
  next
    case unpacked: False
    then have "items_bytes (unat count) (item_bytes msg m f) (uint (data_size f)) pd = Some bs"
      using ab nz small by (simp add: array_bytes_def split: if_splits)
    then have "emits (\<lambda>s. array_items (unat count) (tagged_item m func) s f pd) bs"
      using len tagged_item_emits [OF enc fn] by (rule_tac array_items_emits)
    then show ?thesis using False small' unpacked by (simp add: encode_array_def del: de_Morgan_conj)
  qed
qed

subsection \<open>Fields, extensions and messages\<close>

lemma tagged_emits_func:
  assumes "serializes enc msg" "nth_opt (PB_ENCODERS enc m) (unat (PB_LTYPE (ftype f))) = Some func"
    "tagged_bytes msg m f src = Some bs" "length bs < 2 ^ 64"
  shows "emits (\<lambda>s. encode_payload func s f src) bs"
  using tagged_emits [OF assms(1,3,4)] assms(2) by auto

lemma encode_basic_field_emits:
  assumes enc: "serializes enc msg" and l: "PB_LTYPE (ftype f) \<le> PB_LTYPE_FIXED_LENGTH_BYTES"
    and bb: "basic_bytes msg m f pd0 = Some bs" and len: "length bs < 2 ^ 64"
  shows "emits (\<lambda>s. encode_basic_field enc m s f pd0) bs"
proof -
  have "unat (PB_LTYPE (ftype f)) < length (PB_ENCODERS enc m)"
    using l by (simp add: word_le_nat_alt PB_LTYPE_FIXED_LENGTH_BYTES_def PB_ENCODERS_def)
  then obtain func where fn: "nth_opt (PB_ENCODERS enc m) (unat (PB_LTYPE (ftype f))) = Some func"
    by (simp add: nth_opt_def)
  note pay = tagged_emits_func [OF enc fn _ len] and arr = encode_array_emits [OF enc fn _ len]
  let ?h = "PB_HTYPE (ftype f)" and ?ps = "padd pd0 (sint (size_offset f))"
  obtain pd where pd: "(if PB_ATYPE (ftype f) = PB_ATYPE_POINTER then load_ptr m pd0 else Some pd0) = Some pd"
    using bb by (auto simp: basic_bytes_def)
  consider (req) "?h = PB_HTYPE_REQUIRED" | (opt) "?h = PB_HTYPE_OPTIONAL" | (rep) "?h = PB_HTYPE_REPEATED"
    | (one) "?h \<noteq> PB_HTYPE_REQUIRED" "?h \<noteq> PB_HTYPE_OPTIONAL" "?h \<noteq> PB_HTYPE_REPEATED" by blast
  then show ?thesis
  proof cases
    case req
    with bb pd have "pd \<noteq> NULL" "tagged_bytes msg m f pd = Some bs"
      by (auto simp: basic_bytes_def split: if_splits)
    with req pd show ?thesis
      using pay [of pd] by (simp add: encode_basic_field_def fn Let_def pb_htype_defs)
  next
    case opt
    with bb pd obtain here where h: "is_present m f pd0 pd = Some here"
        "(if here then tagged_bytes msg m f pd else Some []) = Some bs"
      by (auto simp: basic_bytes_def pb_htype_defs)
    have "encode_basic_field enc m s f pd0 = (if here then encode_payload func s f pd else Some (True, s))" for s
      using opt pd h(1)
      by (auto simp: encode_basic_field_def fn Let_def pb_htype_defs is_present_def split: if_splits)
    with h(2) show ?thesis using pay [of pd] emits_Nil by (cases here) simp_all
  next
    case rep
    with bb pd obtain count where c: "(if size_offset f \<noteq> 0 then load_u32 m ?ps else Some (array_size f)) = Some count"
        "array_bytes msg m f pd (unat count) = Some bs"
      by (auto simp: basic_bytes_def pb_htype_defs)
    then have "emits (\<lambda>s. encode_array m s f pd (ucast count) func) bs"
      by (intro arr) simp
    with rep pd c(1) show ?thesis
      by (simp add: encode_basic_field_def fn Let_def pb_htype_defs split: if_splits)
  next
    case one
    with bb pd obtain which where w: "size_offset f \<noteq> 0" "load_u32 m ?ps = Some which"
        "(if which = tag f then tagged_bytes msg m f pd else Some []) = Some bs"
      by (auto simp: basic_bytes_def split: if_splits)
    have "encode_basic_field enc m s f pd0 = (if which = tag f then encode_payload func s f pd else Some (True, s))" for s
      using one pd w(1,2) by (simp add: encode_basic_field_def fn Let_def)
    with w(3) show ?thesis using pay [of pd] emits_Nil by (cases "which = tag f") simp_all
  qed
qed

text \<open>The contract of the callbacks and extension handlers of an environment.\<close>

definition callbacks_emit :: "env \<Rightarrow> contributions \<Rightarrow> bool" where
  "callbacks_emit e c \<longleftrightarrow>
     (\<forall>k g m f p bs. encode_cb e k = Some g \<longrightarrow> cb_bytes c k m f p = Some bs \<longrightarrow> length bs < 2 ^ 64 \<longrightarrow>
        emits (\<lambda>s. g m s f p) bs) \<and>
     (\<forall>k. encode_cb e k = None \<longrightarrow> (\<forall>m f p. cb_bytes c k m f p = None)) \<and>
     (\<forall>m ext ty g bs. load_ext_type e m ext = Some ty \<longrightarrow> ext_encode ty = Some g \<longrightarrow> ext_bytes c m ext = Some bs \<longrightarrow>
        length bs < 2 ^ 64 \<longrightarrow> emits (\<lambda>s. g m s ext) bs)"

lemma emits_relabel:
  assumes "emits f bs"
  shows "emits (\<lambda>s. do { (ok, s) \<leftarrow> f s; if \<not> ok then Some (False, oset_error s msg) else Some (True, s) }) bs"
  unfolding emits_def
proof (intro conjI allI impI)
  show "length bs < 2 ^ 64" using assms by (rule emits_length)
  fix s
  assume "ostream_ok s" "\<not> fits s (length bs)" "no_wrap s (length bs)"
  then obtain k e where "k \<le> length bs" "fits s k" "f s = Some (False, (put s (take k bs))\<lparr>oerrmsg := Some e\<rparr>)"
    by (rule emits_full [OF assms])
  then show "\<exists>k e. k \<le> length bs \<and> fits s k \<and>
      (do { (ok, s) \<leftarrow> f s; if \<not> ok then Some (False, oset_error s msg) else Some (True, s) }) =
        Some (False, (put s (take k bs))\<lparr>oerrmsg := Some e\<rparr>)"
    by (intro exI [of _ k] exI [of _ e]) (simp add: oset_error_def)
qed (use assms in \<open>auto simp: emits_def\<close>)

lemma encode_field_emits:
  assumes enc: "serializes enc msg" and cb: "callbacks_emit e c"
    and fb: "field_bytes c msg m f pd = Some bs" and len: "length bs < 2 ^ 64"
  shows "emits (\<lambda>s. encode_field e enc m s f pd) bs"
proof (cases "PB_ATYPE (ftype f) = PB_ATYPE_STATIC \<or> PB_ATYPE (ftype f) = PB_ATYPE_POINTER")
  case True
  with fb show ?thesis
    using encode_basic_field_emits [OF enc _ _ len] by (simp add: encode_field_def field_bytes_def split: if_splits)
next
  case False
  with fb have cbf: "PB_ATYPE (ftype f) = PB_ATYPE_CALLBACK" "callback_bytes c m f pd = Some bs"
    by (simp_all add: field_bytes_def split: if_splits)
  then obtain q where q: "load_ptr m (callback_funcs pd) = Some q"
      "(case q of NULL \<Rightarrow> Some [] | Sym k \<Rightarrow> cb_bytes c k m f (callback_arg pd) | _ \<Rightarrow> None) = Some bs"
    by (auto simp: callback_bytes_def)
  have "emits (\<lambda>s. encode_callback_field e m s f pd) bs"
  proof (cases q)
    case NULL
    with q show ?thesis by (simp add: encode_callback_field_def emits_Nil)
  next
    case (Sym k)
    with q cb obtain g where g: "encode_cb e k = Some g"
      by (cases "encode_cb e k") (auto simp: callbacks_emit_def)
    with q Sym cb len have "emits (\<lambda>s. g m s f (callback_arg pd)) bs"
      by (auto simp: callbacks_emit_def)
    from emits_relabel [OF this, of "''callback error''"] show ?thesis
      using q(1) Sym g by (simp add: encode_callback_field_def)
  qed (use q in simp_all)
  with False cbf show ?thesis by (simp add: encode_field_def)
qed

lemma default_extension_encoder_eq:
  assumes "load_ext_type e m ext = Some ty" "ext_arg ty = Some f"
    "(if PB_ATYPE (ftype f) = PB_ATYPE_POINTER then Some (ext_dest_member ext)
      else load_ptr m (ext_dest_member ext)) = Some d"
  shows "default_extension_encoder e enc m s ext = encode_field e enc m s f d"
  using assms by (simp add: default_extension_encoder_def split: if_splits)

lemma extension_loop_emits:
  assumes enc: "serializes enc msg" and cb: "callbacks_emit e c"
  shows "extensions_bytes n e c msg m ext = Some bs \<Longrightarrow> length bs < 2 ^ 64 \<Longrightarrow>
    emits (\<lambda>s. extension_loop n e enc m s ext) bs"
proof (induction n arbitrary: ext bs)
  case (Suc n)
  show ?case
  proof (cases "ext = NULL")
    case True
    with Suc.prems show ?thesis by (simp add: emits_Nil)
  next
    case False
    let ?one = "\<lambda>ty s. case ext_encode ty of Some g \<Rightarrow> g m s ext | None \<Rightarrow> default_extension_encoder e enc m s ext"
    from False Suc.prems(1) obtain ty a nx cs where x: "load_ext_type e m ext = Some ty"
        "(case ext_encode ty of Some g \<Rightarrow> ext_bytes c m ext
          | None \<Rightarrow> do { f \<leftarrow> ext_arg ty;
               d \<leftarrow> (if PB_ATYPE (ftype f) = PB_ATYPE_POINTER then Some (ext_dest_member ext)
                    else load_ptr m (ext_dest_member ext));
               field_bytes c msg m f d }) = Some a"
        "load_ptr m (ext_next_member ext) = Some nx" "extensions_bytes n e c msg m nx = Some cs" "bs = a @ cs"
      by (auto simp del: not_None_eq)
    have la: "length a < 2 ^ 64" using x(5) Suc.prems(2) by simp
    have "emits (?one ty) a"
    proof (cases "ext_encode ty")
      case None
      with x(2) obtain f d where f: "ext_arg ty = Some f"
          "(if PB_ATYPE (ftype f) = PB_ATYPE_POINTER then Some (ext_dest_member ext)
            else load_ptr m (ext_dest_member ext)) = Some d" "field_bytes c msg m f d = Some a"
        by auto
      show ?thesis
        using None encode_field_emits [OF enc cb f(3) la] by (simp add: default_extension_encoder_eq [OF x(1) f(1,2)])
    next
      case (Some g)
      with x(1,2) cb la show ?thesis by (auto simp: callbacks_emit_def)
    qed
    moreover have "(\<lambda>s. extension_loop (Suc n) e enc m s ext) =
        and_then (?one ty) (\<lambda>s. extension_loop n e enc m s nx)"
      using False x(1,3) by (intro HOL.ext) (simp add: and_then_def cong: if_cong)
    ultimately show ?thesis
      using Suc.IH [OF x(4)] Suc.prems(2) x(5) by (simp add: emits_and_then)
  qed
qed simp

lemma encode_member_emits:
  assumes enc: "serializes enc msg" and cb: "callbacks_emit e c"
    and mb: "member_bytes n e c msg m it = Some bs" and len: "length bs < 2 ^ 64"
  shows "emits (encode_member n e enc m it) bs"
proof -
  obtain f where f: "field_at it = Some f" using mb by (auto simp: member_bytes_def)
  show ?thesis
  proof (cases "PB_LTYPE (ftype f) = PB_LTYPE_EXTENSION")
    case True
    with mb f obtain ext where x: "load_ptr m (pData it) = Some ext" "extensions_bytes n e c msg m ext = Some bs"
      by (auto simp: member_bytes_def)
    have "encode_member n e enc m it = (\<lambda>s. extension_loop n e enc m s ext)"
      using True f x(1) by (intro HOL.ext) (simp add: encode_member_def encode_extension_field_def)
    then show ?thesis using extension_loop_emits [OF enc cb x(2) len] by simp
  next
    case False
    with mb f have "field_bytes c msg m f (pData it) = Some bs" by (simp add: member_bytes_def)
    from encode_field_emits [OF enc cb this len] show ?thesis
      using False f by (simp add: encode_member_def [abs_def])
  qed
qed

lemma each_emits:
  assumes "\<And>x a. g x = Some a \<Longrightarrow> length a < 2 ^ 64 \<Longrightarrow> emits (body x) a"
  shows "concat_bytes g xs = Some bs \<Longrightarrow> length bs < 2 ^ 64 \<Longrightarrow> emits (each body xs) bs"
proof (induction xs arbitrary: bs)
  case Nil
  then show ?case by (simp add: emits_Nil)
next
  case (Cons x xs)
  then obtain a cs where a: "g x = Some a" "concat_bytes g xs = Some cs" "bs = a @ cs" by auto
  have "each body (x # xs) = and_then (body x) (each body xs)"
    by (intro HOL.ext) (simp add: and_then_def)
  with a Cons assms [OF a(1)] show ?case by (simp add: emits_and_then)
qed

lemma pb_encode_serializes:
  assumes "callbacks_emit e c"
  shows "serializes (pb_encode n e m) (message_bytes n e c m)"
proof (induction n)
  case 0
  then show ?case by (simp add: serializes_def)
next
  case (Suc n)
  show ?case
    unfolding serializes_def
  proof (intro allI impI)
    fix flds src bs
    assume mb: "message_bytes (Suc n) e c m flds src = Some bs" and len: "length bs < 2 ^ 64"
    then have t: "terminated flds"
      and cb: "concat_bytes (member_bytes n e c (message_bytes n e c m) m) (walk flds src) = Some bs"
      by (simp_all split: if_splits)
    have "emits (each (encode_member n e (pb_encode n e m) m) (walk flds src)) bs"
      using encode_member_emits [OF Suc.IH assms] cb len by (rule each_emits)
    then show "emits (\<lambda>s. pb_encode (Suc n) e m s flds src) bs"
      by (simp add: for_fields_walk [OF t])
  qed
qed

subsection \<open>Enough fuel\<close>

text \<open>
  A field uses the message encoder for the descriptor array of its submessage only, so the
  nesting depth of the descriptors is enough fuel as long as no extensions occur.
\<close>

primrec plain_field :: "pb_field_t \<Rightarrow> bool" and plain_ptr :: "field_ptr \<Rightarrow> bool" where
  "plain_field (Pb_field t ty d so ds a p) \<longleftrightarrow> PB_LTYPE ty \<noteq> PB_LTYPE_EXTENSION \<and> plain_ptr p"
| "plain_ptr Ptr_null \<longleftrightarrow> True"
| "plain_ptr (Ptr_fields fs) \<longleftrightarrow> list_all id (map plain_field fs)"
| "plain_ptr (Ptr_default bs) \<longleftrightarrow> True"

lemma plain_field_ltype: "plain_field f \<Longrightarrow> PB_LTYPE (ftype f) \<noteq> PB_LTYPE_EXTENSION"
  by (cases f) simp

lemma plain_sub_fields: "plain_field f \<Longrightarrow> sub_fields f = Some fs \<Longrightarrow> g \<in> set fs \<Longrightarrow> plain_field g"
  by (cases f) (auto simp: sub_fields_def list_all_iff split: field_ptr.splits)

lemma array_items_cong:
  "(\<And>s p. item s f p = item' s f p) \<Longrightarrow> array_items n item s f p = array_items n item' s f p"
  by (induction n arbitrary: s p) (auto intro!: bind_option_cong)

lemma encode_array_cong:
  assumes "\<And>s p. call_encoder func s f p = call_encoder func' s f p"
  shows "encode_array m s f pd count func = encode_array m s f pd count func'"
proof -
  have "array_items n (call_encoder func) s f p = array_items n (call_encoder func') s f p" for n s p
    by (rule array_items_cong) (rule assms)
  moreover have "array_items n (tagged_item m func) s f p = array_items n (tagged_item m func') s f p" for n s p
    by (rule array_items_cong) (simp add: tagged_item_def assms ext [of "call_encoder func _ f"] cong: if_cong)
  ultimately show ?thesis by (simp add: encode_array_def packed_size_def cong: if_cong)
qed

lemma encode_basic_field_cong:
  assumes sub: "\<And>fs s src. sub_fields f = Some fs \<Longrightarrow> enc s fs src = enc' s fs src"
  shows "encode_basic_field enc m s f pd = encode_basic_field enc' m s f pd"
proof -
  have subm: "pb_enc_submessage enc s f p = pb_enc_submessage enc' s f p" for s p
    using sub by (auto simp: pb_enc_submessage_def pb_encode_submessage_def sub_fields_def
        split: field_ptr.splits cong: if_cong)
  show ?thesis
  proof (cases "unat (PB_LTYPE (ftype f)) < 11")
    case True
    let ?func = "\<lambda>enc. PB_ENCODERS enc m ! unat (PB_LTYPE (ftype f))"
    have c: "call_encoder (?func enc) s f p = call_encoder (?func enc') s f p" for s p
      using True subm by (auto simp: call_encoder_def PB_ENCODERS_def less_Suc_eq nth_Cons' split: nat.split)
    have "nth_opt (PB_ENCODERS en m) (unat (PB_LTYPE (ftype f))) = Some (?func en)" for en
      using True by (simp add: nth_opt_def PB_ENCODERS_def)
    moreover have "encode_payload (?func enc) s f p = encode_payload (?func enc') s f p" for s p
      by (simp add: encode_payload_def c cong: if_cong)
    ultimately show ?thesis
      using encode_array_cong [OF c] by (simp add: encode_basic_field_def cong: if_cong)
  qed (simp add: encode_basic_field_def nth_opt_def PB_ENCODERS_def)
qed

lemma encode_member_cong:
  assumes "field_at it = Some f" "plain_field f" "\<And>fs s src. sub_fields f = Some fs \<Longrightarrow> enc s fs src = enc' s fs src"
  shows "encode_member n e enc m it s = encode_member n' e enc' m it s"
proof -
  have "encode_basic_field enc m s f p = encode_basic_field enc' m s f p" for p
    by (rule encode_basic_field_cong) (rule assms(3))
  then show ?thesis
    using assms(1,2) by (simp add: encode_member_def encode_field_def plain_field_ltype)
qed

lemma pb_encode_fuel:
  "\<forall>f \<in> set flds. plain_field f \<Longrightarrow> fields_depth flds < n \<Longrightarrow> fields_depth flds < n' \<Longrightarrow>
   pb_encode n e m s flds src = pb_encode n' e m s flds src"
proof (induction n arbitrary: n' flds s src)
  case (Suc n)
  then obtain k where k: "n' = Suc k" by (cases n') simp_all
  have "encode_member n e (pb_encode n e m) m it s = encode_member k e (pb_encode k e m) m it s"
    if "field_at it = Some f" "f \<in> set flds" for it f s
  proof (rule encode_member_cong [OF that(1)])
    show "plain_field f" using that Suc.prems(1) by blast
    fix fs s src assume sub: "sub_fields f = Some fs"
    have "fields_depth fs < fields_depth flds"
      using field_depth_le [OF that(2)] sub_fields_depth [OF sub] by simp
    with Suc.prems k show "pb_encode n e m s fs src = pb_encode k e m s fs src"
      using that(2) sub by (intro Suc.IH) (auto intro: plain_sub_fields)
  qed
  then show ?case
    unfolding k by (auto simp: encode_member_def intro!: for_fields_cong)
qed simp

subsection \<open>A sample message\<close>

text \<open>
  A structure with a required \<^verbatim>\<open>int32\<close> and a string behind a pointer, holding 150 and the text
  \<^verbatim>\<open>hi\<close>; no callbacks or extensions.
\<close>

definition no_contributions :: contributions where
  "no_contributions = \<lparr>cb_bytes = (\<lambda>_ _ _ _. None), ext_bytes = (\<lambda>_ _. None)\<rparr>"

definition sample_fields :: "pb_field_t list" where
  "sample_fields = [Pb_field 1 0x01 0 0 4 0 Ptr_null, Pb_field 2 0x97 4 0 1 0 Ptr_null, PB_LAST_FIELD]"

definition sample_mem :: mem where
  "sample_mem =
     \<lparr>blocks = [\<lparr>on_heap = False, live = True,
                 cells = map Byte (bytes_of 4 (150 :: uint32)) @ replicate 4 Undef @ ptr_cells (Ptr 1 0)\<rparr>,
                \<lparr>on_heap = True, live = True, cells = map Byte [104, 105, 0]\<rparr>],
      addr_of = (\<lambda>_. 4096), malloc_fails = (\<lambda>_. False), malloc_calls = 0\<rparr>"

definition sample_wire :: "byte list" where
  "sample_wire = [8, 150, 1, 18, 2, 104, 105]"

lemma callbacks_emit_no_env: "callbacks_emit no_env no_contributions"
  by (simp add: callbacks_emit_def no_env_def no_contributions_def)

lemma sample_message_bytes:
  "message_bytes 1 no_env no_contributions sample_mem sample_fields (Ptr 0 0) = Some sample_wire"
  by code_simp

lemma length_sample_wire: "length sample_wire = 7"
  by (simp add: sample_wire_def)

lemma pb_get_encoded_size_bytes:
  assumes "callbacks_emit e c" "message_bytes n e c m flds src = Some bs" "length bs < 2 ^ 64"
  shows "pb_get_encoded_size n e m flds src = Some (Some (of_nat (length bs)))"
  using emits_sizing [OF serializesD [OF pb_encode_serializes [OF assms(1)] assms(2,3)] sizing_ok_PB_OSTREAM_SIZING]
  by (simp add: pb_get_encoded_size_def PB_OSTREAM_SIZING_def)

subsection \<open>Properties of the encoder\<close>

text \<open>
  (C1) The encoder implements the serialized form: with room for it in the buffer, \<^verbatim>\<open>pb_encode\<close>
  succeeds, the buffer starts with exactly the serialized message, nothing behind it is touched and
  \<^verbatim>\<open>bytes_written\<close> is its length.
\<close>

theorem pb_encode_correct:
  assumes "callbacks_emit e c" "message_bytes n e c m flds src = Some bs"
    and "length bs \<le> length buf" "length buf < 2 ^ 64"
  shows "\<exists>out. pb_encode n e m (pb_ostream_from_buffer buf (of_nat (length buf))) flds src = Some (True, out) \<and>
    owritten out @ oroom out = bs @ drop (length bs) buf \<and> unat (bytes_written out) = length bs"
proof -
  let ?s = "pb_ostream_from_buffer buf (of_nat (length buf))"
  have "emits (\<lambda>s. pb_encode n e m s flds src) bs"
    using serializesD [OF pb_encode_serializes [OF assms(1)] assms(2)] assms(3,4) by simp
  moreover have "ostream_ok ?s" "fits ?s (length bs)"
    using assms(3,4) by (simp_all add: ostream_ok_def fits_def pb_ostream_from_buffer_def)
  ultimately have "pb_encode n e m ?s flds src = Some (True, put ?s bs)"
    by (rule emits_buffer)
  then show ?thesis
    using assms(3,4) by (simp add: pb_ostream_from_buffer_def)
qed

theorem pb_encode_correct_witness:
  "\<exists>out. pb_encode 1 no_env sample_mem (pb_ostream_from_buffer (replicate 9 0) (of_nat (length (replicate 9 (0 :: byte)))))
        sample_fields (Ptr 0 0) = Some (True, out) \<and>
    owritten out @ oroom out = sample_wire @ drop (length sample_wire) (replicate 9 0) \<and>
    unat (bytes_written out) = length sample_wire"
  by (rule pb_encode_correct [OF callbacks_emit_no_env sample_message_bytes]) (simp_all add: length_sample_wire)

text \<open>
  (C27) The two-pass scheme of the callers: the size that \<^verbatim>\<open>pb_get_encoded_size\<close> reports is the exact
  length of the serialized message, a buffer of that size is enough, and in any smaller buffer the
  encoder reports an error and leaves only a prefix of the message in it.
\<close>

theorem pb_get_encoded_size_exact:
  assumes "callbacks_emit e c" "message_bytes n e c m flds src = Some bs" "length bs < 2 ^ 64"
  shows "pb_get_encoded_size n e m flds src = Some (Some (of_nat (length bs))) \<and>
    (length buf = length bs \<longrightarrow>
      (\<exists>out. pb_encode n e m (pb_ostream_from_buffer buf (of_nat (length buf))) flds src = Some (True, out) \<and>
         owritten out = bs \<and> oroom out = [])) \<and>
    (length buf < length bs \<longrightarrow>
      (\<exists>out k. pb_encode n e m (pb_ostream_from_buffer buf (of_nat (length buf))) flds src = Some (False, out) \<and>
         oerrmsg out \<noteq> None \<and> k \<le> length buf \<and> owritten out = take k bs \<and> oroom out = drop k buf))"
proof -
  let ?s = "pb_ostream_from_buffer buf (of_nat (length buf))"
  have em: "emits (\<lambda>s. pb_encode n e m s flds src) bs"
    using serializesD [OF pb_encode_serializes [OF assms(1)] assms(2,3)] .
  have sz: "pb_get_encoded_size n e m flds src = Some (Some (of_nat (length bs)))"
    using assms by (rule pb_get_encoded_size_bytes)
  have fit: "\<exists>out. pb_encode n e m ?s flds src = Some (True, out) \<and> owritten out = bs \<and> oroom out = []"
    if "length buf = length bs"
    using emits_buffer [OF em, of ?s] that assms(3)
    by (simp add: ostream_ok_from_buffer fits_def) (simp add: pb_ostream_from_buffer_def)
  have small: "\<exists>out k. pb_encode n e m ?s flds src = Some (False, out) \<and>
      oerrmsg out \<noteq> None \<and> k \<le> length buf \<and> owritten out = take k bs \<and> oroom out = drop k buf"
    if lt: "length buf < length bs"
  proof -
    have "ostream_ok ?s" "\<not> fits ?s (length bs)" "no_wrap ?s (length bs)"
      using lt assms(3) by (simp_all add: ostream_ok_def fits_def no_wrap_def pb_ostream_from_buffer_def)
    then obtain k er where k: "k \<le> length bs" "fits ?s k"
        "pb_encode n e m ?s flds src = Some (False, (put ?s (take k bs))\<lparr>oerrmsg := Some er\<rparr>)"
      by (rule emits_full [OF em])
    moreover have "k \<le> length buf"
      using k(2) lt assms(3) by (simp add: fits_def pb_ostream_from_buffer_def)
    ultimately show ?thesis
      by (auto simp: min_absorb2 pb_ostream_from_buffer_def)
  qed
  from sz fit small show ?thesis by blast
qed

theorem pb_get_encoded_size_exact_witness:
  "pb_get_encoded_size 1 no_env sample_mem sample_fields (Ptr 0 0) = Some (Some (of_nat (length sample_wire))) \<and>
   (\<exists>out k. pb_encode 1 no_env sample_mem (pb_ostream_from_buffer [0, 0, 0] (of_nat (length [0, 0, 0 :: byte]))) sample_fields (Ptr 0 0) =
        Some (False, out) \<and>
      oerrmsg out \<noteq> None \<and> k \<le> length [0, 0, 0 :: byte] \<and> owritten out = take k sample_wire \<and> oroom out = drop k [0, 0, 0])"
  using pb_get_encoded_size_exact [OF callbacks_emit_no_env sample_message_bytes, of "[0, 0, 0]"]
  by (simp add: length_sample_wire)

text \<open>
  (C28) The framed forms: \<^verbatim>\<open>pb_encode_delimited\<close> writes the length of the message as a varint in front of
  it, so the second pass over a submessage never finds a changed size;
  \<^verbatim>\<open>pb_encode_nullterminated\<close> writes a zero byte behind it.
\<close>

theorem pb_encode_framed:
  assumes "callbacks_emit e c" "message_bytes n e c m flds src = Some bs"
    and "length (delimited bs) < length buf" "length buf < 2 ^ 64"
  shows "(\<exists>out. pb_encode_delimited n e m (pb_ostream_from_buffer buf (of_nat (length buf))) flds src = Some (True, out) \<and>
      owritten out = varint_bytes (length bs) @ bs) \<and>
    (\<exists>out. pb_encode_nullterminated n e m (pb_ostream_from_buffer buf (of_nat (length buf))) flds src = Some (True, out) \<and>
      owritten out = bs @ [0])"
proof
  let ?s = "pb_ostream_from_buffer buf (of_nat (length buf))"
  have len: "length bs < length (delimited bs)"
    by (subst delimited_def, subst varint_bytes.simps) simp
  have em: "emits (\<lambda>s. pb_encode n e m s flds src) bs"
    using serializesD [OF pb_encode_serializes [OF assms(1)] assms(2)] len assms(3,4) by simp
  have ok: "ostream_ok ?s" "owritten ?s = []" using assms(4) by (simp_all add: ostream_ok_from_buffer) (simp add: pb_ostream_from_buffer_def)
  have fit: "fits ?s k" if "k \<le> length buf" for k
    using that assms(4) by (simp add: fits_def pb_ostream_from_buffer_def)
  have "emits (\<lambda>s. pb_encode_delimited n e m s flds src) (delimited bs)"
    using pb_encode_submessage_emits [of "pb_encode n e m", OF em] assms(3,4) by (simp add: pb_encode_delimited_def)
  from emits_buffer [OF this ok(1) fit] show "\<exists>out. pb_encode_delimited n e m ?s flds src = Some (True, out) \<and>
      owritten out = varint_bytes (length bs) @ bs"
    using assms(3) ok(2) by (simp add: delimited_def)
  have "(\<lambda>s. pb_encode_nullterminated n e m s flds src) =
      and_then (\<lambda>s. pb_encode n e m s flds src) (\<lambda>s. pb_write s (Some [0]) 1)"
    by (intro HOL.ext) (simp add: pb_encode_nullterminated_def and_then_def)
  then have "emits (\<lambda>s. pb_encode_nullterminated n e m s flds src) (bs @ [0])"
    using emits_and_then [OF em, of "\<lambda>s. pb_write s (Some [0]) 1" "[0]"] pb_write_emits [of "[0]"] len assms(3,4)
    by simp
  from emits_buffer [OF this ok(1) fit] show "\<exists>out. pb_encode_nullterminated n e m ?s flds src = Some (True, out) \<and>
      owritten out = bs @ [0]"
    using len assms(3) ok(2) by simp
qed

theorem pb_encode_framed_witness:
  "(\<exists>out. pb_encode_delimited 1 no_env sample_mem (pb_ostream_from_buffer (replicate 20 0) (of_nat (length (replicate 20 (0 :: byte)))))
        sample_fields (Ptr 0 0) = Some (True, out) \<and> owritten out = varint_bytes (length sample_wire) @ sample_wire) \<and>
   (\<exists>out. pb_encode_nullterminated 1 no_env sample_mem (pb_ostream_from_buffer (replicate 20 0) (of_nat (length (replicate 20 (0 :: byte)))))
        sample_fields (Ptr 0 0) = Some (True, out) \<and> owritten out = sample_wire @ [0])"
  by (rule pb_encode_framed [OF callbacks_emit_no_env sample_message_bytes])
     (simp_all add: delimited_def length_sample_wire varint_bytes_small)

text \<open>
  For descriptors without extension fields the result does not depend on the fuel once it is above the nesting depth of the
  descriptors.
\<close>

lemma pb_encode_depth_suffices:
  assumes "\<forall>f \<in> set flds. plain_field f" "fields_depth flds < n"
  shows "pb_encode n e m s flds src = pb_encode (Suc (fields_depth flds)) e m s flds src"
  using assms by (intro pb_encode_fuel) simp_all

text \<open>
  Errors of a field are reported before anything is written: a required field behind a null
  pointer, and a repeated static field whose count is larger than its array.
\<close>

theorem encode_field_rejects:
  assumes "PB_LTYPE (ftype f) \<le> PB_LTYPE_FIXED_LENGTH_BYTES" "oerrmsg s = None"
  shows "(PB_ATYPE (ftype f) = PB_ATYPE_POINTER \<and> PB_HTYPE (ftype f) = PB_HTYPE_REQUIRED \<and> load_ptr m pd = Some NULL \<longrightarrow>
      encode_field e enc m s f pd = Some (False, s\<lparr>oerrmsg := Some ''missing required field''\<rparr>)) \<and>
    (PB_ATYPE (ftype f) = PB_ATYPE_STATIC \<and> PB_HTYPE (ftype f) = PB_HTYPE_REPEATED \<and> size_offset f \<noteq> 0 \<and>
       load_u32 m (padd pd (sint (size_offset f))) = Some count \<and> count > array_size f \<longrightarrow>
      encode_field e enc m s f pd = Some (False, s\<lparr>oerrmsg := Some ''array max size exceeded''\<rparr>))"
proof -
  have "unat (PB_LTYPE (ftype f)) < length (PB_ENCODERS enc m)"
    using assms(1) by (simp add: word_le_nat_alt PB_LTYPE_FIXED_LENGTH_BYTES_def PB_ENCODERS_def)
  then obtain func where fn: "nth_opt (PB_ENCODERS enc m) (unat (PB_LTYPE (ftype f))) = Some func"
    by (simp add: nth_opt_def)
  have "(ucast count :: size_t) > ucast (array_size f) \<longleftrightarrow> count > array_size f" "(ucast count :: size_t) = 0 \<longleftrightarrow> count = 0"
    by (simp_all add: word_less_nat_alt ucast_u32_eq_0)
  with fn assms(2) show ?thesis
    by (auto simp: encode_field_def encode_basic_field_def Let_def encode_array_def oset_error_def
        pb_htype_defs pb_atype_defs)
qed

theorem encode_field_rejects_witness:
  "encode_field no_env (pb_encode 1 no_env sample_mem) sample_mem PB_OSTREAM_SIZING (Pb_field 7 0x21 0 4 2 5 Ptr_null) (Ptr 0 (- 4)) =
     Some (False, PB_OSTREAM_SIZING\<lparr>oerrmsg := Some ''array max size exceeded''\<rparr>)"
proof -
  have "load_u32 sample_mem (Ptr 0 0) = Some 150" by code_simp
  then show ?thesis
    using encode_field_rejects [of "Pb_field 7 0x21 0 4 2 5 Ptr_null" PB_OSTREAM_SIZING sample_mem "Ptr 0 (- 4)" no_env
        "pb_encode 1 no_env sample_mem" 150]
    by (simp add: pb_type_defs PB_OSTREAM_SIZING_def)
qed

text \<open>
  (C37) The byte-wise zero test of \<^verbatim>\<open>pb_check_proto3_default_value\<close> compares \<^verbatim>\<open>data_size\<close> bytes, which is the
  size of the pointed-to object for a pointer field.  A proto3 string behind a pointer has
  \<^verbatim>\<open>data_size\<close> 1, so only the lowest byte of the pointer is tested: a present string whose
  address ends in a zero byte counts as absent.
\<close>

theorem proto3_pointer_low_byte:
  assumes "PB_ATYPE (ftype f) = PB_ATYPE_POINTER" "PB_HTYPE (ftype f) = PB_HTYPE_OPTIONAL"
    "size_offset f = 0" "data_size f = 1"
    "load_ptr m pd = Some q" "q \<noteq> NULL"
  shows "pb_check_proto3_default_value m f pd = Some (take_bit 8 (addr_of m q) = 0)"
proof -
  obtain cs where cs: "load_cells m pd 8 = Some cs" "cells_ptr cs = Some q"
    using assms(5) by (auto simp: load_ptr_def)
  then have c: "cs = map (Frag q) [0..<8]"
    using assms(6) by (auto simp: cells_ptr_def split: if_splits list.splits memval.splits)
  obtain b i where pd: "pd = Ptr b i" using cs(1) by (cases pd) (simp_all add: load_cells_def)
  have "load_cells m pd 1 = Some (take 1 cs)"
    using cs(1) by (auto simp: pd load_cells_def in_block_def split: if_splits)
  moreover have "take 1 cs = [Frag q 0]" using c by (simp add: upt_rec)
  ultimately have "load_u8 m pd = Some (ucast (addr_of m q))"
    by (simp add: load_u8_def load_bytes_def)
  moreover have "ucast (addr_of m q) = (0 :: byte) \<longleftrightarrow> take_bit 8 (addr_of m q) = 0"
    by (simp add: word_unat_eq_iff unsigned_ucast_eq unsigned_take_bit_eq)
  moreover have "PB_ATYPE_POINTER \<noteq> PB_ATYPE_STATIC" "PB_HTYPE_OPTIONAL \<noteq> PB_HTYPE_REQUIRED"
    "PB_HTYPE_OPTIONAL \<noteq> PB_HTYPE_REPEATED" "PB_HTYPE_OPTIONAL \<noteq> PB_HTYPE_ONEOF"
    by (simp_all add: pb_type_defs)
  ultimately show ?thesis
    using assms(1-4) by (simp add: pb_check_proto3_default_value_def Let_def)
qed

theorem proto3_pointer_low_byte_witness:
  "pb_check_proto3_default_value sample_mem (Pb_field 2 0x97 4 0 1 0 Ptr_null) (Ptr 0 8) =
     Some (take_bit 8 (addr_of sample_mem (Ptr 1 0)) = 0) \<and> take_bit 8 (addr_of sample_mem (Ptr 1 0)) = 0"
proof -
  have "load_ptr sample_mem (Ptr 0 8) = Some (Ptr 1 0)" by code_simp
  then have "pb_check_proto3_default_value sample_mem (Pb_field 2 0x97 4 0 1 0 Ptr_null) (Ptr 0 8) =
     Some (take_bit 8 (addr_of sample_mem (Ptr 1 0)) = 0)"
    by (intro proto3_pointer_low_byte) (simp_all add: pb_type_defs)
  then show ?thesis by (simp add: sample_mem_def)
qed

end
