(* ===== verification/Messages.thy ===== *)
theory Messages
  imports Cct Firebasecore Pb_Encode_Spec
begin

text \<open>
  What the generated message descriptions have to provide for the encoder and the decoder: the
  iterator reaches every member where the compiler puts it, the defaults agree with the
  initializers, and the published maximum sizes hold.
\<close>

subsection \<open>The messages\<close>

definition message_table :: "(members \<times> field_spec list \<times> pb_field_t list \<times> init list) list" where
  "message_table = [
     (gdt_cct_LogEvent, gdt_cct_LogEvent_specs, gdt_cct_LogEvent_fields, gdt_cct_LogEvent_init_default),
     (gdt_cct_NetworkConnectionInfo, gdt_cct_NetworkConnectionInfo_specs, gdt_cct_NetworkConnectionInfo_fields,
      gdt_cct_NetworkConnectionInfo_init_default),
     (gdt_cct_IosClientInfo, gdt_cct_IosClientInfo_specs, gdt_cct_IosClientInfo_fields, gdt_cct_IosClientInfo_init_default),
     (gdt_cct_ClientInfo, gdt_cct_ClientInfo_specs, gdt_cct_ClientInfo_fields, gdt_cct_ClientInfo_init_default),
     (gdt_cct_BatchedLogRequest, gdt_cct_BatchedLogRequest_specs, gdt_cct_BatchedLogRequest_fields,
      gdt_cct_BatchedLogRequest_init_default),
     (gdt_cct_LogRequest, gdt_cct_LogRequest_specs, gdt_cct_LogRequest_fields, gdt_cct_LogRequest_init_default),
     (gdt_cct_QosTierConfiguration, gdt_cct_QosTierConfiguration_specs, gdt_cct_QosTierConfiguration_fields,
      gdt_cct_QosTierConfiguration_init_default),
     (gdt_cct_QosTiersOverride, gdt_cct_QosTiersOverride_specs, gdt_cct_QosTiersOverride_fields,
      gdt_cct_QosTiersOverride_init_default),
     (gdt_cct_LogResponse, gdt_cct_LogResponse_specs, gdt_cct_LogResponse_fields, gdt_cct_LogResponse_init_default),
     (logs_proto_mobilesdk_ios_ICoreConfiguration, logs_proto_mobilesdk_ios_ICoreConfiguration_specs,
      logs_proto_mobilesdk_ios_ICoreConfiguration_fields, logs_proto_mobilesdk_ios_ICoreConfiguration_init_default)]"

lemmas describes_all =
  gdt_cct_LogEvent_describes gdt_cct_NetworkConnectionInfo_describes gdt_cct_IosClientInfo_describes
  gdt_cct_ClientInfo_describes gdt_cct_BatchedLogRequest_describes gdt_cct_LogRequest_describes
  gdt_cct_QosTierConfiguration_describes gdt_cct_QosTiersOverride_describes gdt_cct_LogResponse_describes
  logs_proto_mobilesdk_ios_ICoreConfiguration_describes

lemmas defaults_all =
  gdt_cct_LogEvent_defaults gdt_cct_NetworkConnectionInfo_defaults gdt_cct_IosClientInfo_defaults
  gdt_cct_ClientInfo_defaults gdt_cct_BatchedLogRequest_defaults gdt_cct_LogRequest_defaults
  gdt_cct_QosTierConfiguration_defaults gdt_cct_QosTiersOverride_defaults gdt_cct_LogResponse_defaults
  logs_proto_mobilesdk_ios_ICoreConfiguration_defaults

lemmas specs_all =
  gdt_cct_LogEvent_specs_def gdt_cct_NetworkConnectionInfo_specs_def gdt_cct_IosClientInfo_specs_def
  gdt_cct_ClientInfo_specs_def gdt_cct_BatchedLogRequest_specs_def gdt_cct_LogRequest_specs_def
  gdt_cct_QosTierConfiguration_specs_def gdt_cct_QosTiersOverride_specs_def gdt_cct_LogResponse_specs_def
  logs_proto_mobilesdk_ios_ICoreConfiguration_specs_def

text \<open>
  (C31) The generated descriptors follow the compiler's layout: for all ten message types the array has one
  descriptor per field, with the published tag and in ascending tag order, the fields lie in the structure without
  overlapping, and the field iterator, which adds up the offsets and sizes of the descriptors, stands
  at \<^verbatim>\<open>offsetof\<close> of each field and of its presence flag or count.
\<close>

theorem descriptors_follow_layout:
  "list_all (\<lambda>(st, ss, flds, ini). describes st ss flds \<and> sorted_wrt (<) (map sp_tag ss) \<and>
     list_all2 (stands st b i) ss (walk flds (Ptr b i))) message_table"
proof -
  have "list_all (\<lambda>(st, ss, flds, ini). describes st ss flds) message_table"
    by (simp add: message_table_def describes_all)
  moreover have "list_all (\<lambda>(st, ss, flds, ini). sorted_wrt (<) (map sp_tag ss)) message_table"
    by (simp add: message_table_def specs_all field_spec_of_def cct_tags firebasecore_tags)
  ultimately show ?thesis
    by (auto simp: list_all_iff dest: describes_walk [where b = b and i = i])
qed

text \<open>
  Setting a message to its defaults is the same as initializing it with its \<^verbatim>\<open>_init_default\<close> macro: from
  an indeterminate object, every member, presence flag, count and pointer gets the value of the
  initializer and the padding stays untouched, for all ten message types and their submessages.
\<close>

theorem defaults_are_initializers:
  "list_all (\<lambda>(st, ss, flds, ini).
     map_option blocks (pb_message_set_to_defaults 3 e flds (Ptr 0 0)
       (one_object ad fails calls (replicate (sizeof (C_struct st)) Undef))) =
     Some [\<lparr>on_heap = False, live = True, cells = init_cells (C_struct st) (I_struct ini)\<rparr>]) message_table"
  by (simp add: message_table_def defaults_all align_up_def del: init_cells.simps map_option_eq_Some)

subsection \<open>Maximum sizes\<close>

lemma pair_walk:
  assumes "t1 \<noteq> 0" "t2 \<noteq> 0" "ty1 = 0x11 \<or> ty1 = 0x12" "ty2 = 0x11 \<or> ty2 = 0x12"
  shows "\<exists>it it'. walk [Pb_field t1 ty1 4 (- 4) 4 0 p1, Pb_field t2 ty2 4 (- 4) 4 0 p2, PB_LAST_FIELD] (Ptr b i) = [it, it'] \<and>
     field_at it = Some (Pb_field t1 ty1 4 (- 4) 4 0 p1) \<and> pData it = Ptr b (i + 4) \<and>
     field_at it' = Some (Pb_field t2 ty2 4 (- 4) 4 0 p2) \<and> pData it' = Ptr b (i + 8 + 4)"
  using assms
  by (auto simp: walk_def pb_field_iter_begin_def nth_opt_def live_fields_def PB_LAST_FIELD_def step_iter_def
      in_union_def prev_size_def field_at_def pb_type_defs Let_def)

lemma varint_parts:
  "PB_ATYPE 0x11 = PB_ATYPE_STATIC" "PB_HTYPE 0x11 = PB_HTYPE_OPTIONAL" "PB_LTYPE 0x11 = PB_LTYPE_VARINT"
  "PB_ATYPE 0x12 = PB_ATYPE_STATIC" "PB_HTYPE 0x12 = PB_HTYPE_OPTIONAL" "PB_LTYPE 0x12 = PB_LTYPE_UVARINT"
  "PB_HTYPE_OPTIONAL \<noteq> PB_HTYPE_REQUIRED" "PB_ATYPE_STATIC \<noteq> PB_ATYPE_POINTER"
  "PB_LTYPE_VARINT \<noteq> PB_LTYPE_BOOL" "PB_LTYPE_UVARINT \<noteq> PB_LTYPE_BOOL" "PB_LTYPE_UVARINT \<noteq> PB_LTYPE_VARINT"
  "PB_LTYPE_VARINT \<le> PB_LTYPE_FIXED_LENGTH_BYTES" "PB_LTYPE_UVARINT \<le> PB_LTYPE_FIXED_LENGTH_BYTES"
  "PB_LTYPE_VARINT \<noteq> PB_LTYPE_EXTENSION" "PB_LTYPE_UVARINT \<noteq> PB_LTYPE_EXTENSION"
  "sint (- 4 :: 32 word) = - 4"
  by (simp_all add: pb_type_defs)

lemmas optional_bytes_defs =
  safe_read_bool_def tagged_bytes_def field_wire_type_def value_bytes_def load_signed_def load_unsigned_def flat_option_def

text \<open>An optional 32-bit field, four bytes behind its presence flag.\<close>

lemma optional_varint_bytes:
  assumes "load_u8 m (Ptr b i) = Some h" "load_u32 m (Ptr b (i + 4)) = Some v"
  shows "field_bytes c msg m (Pb_field t 0x11 4 (- 4) 4 0 p) (Ptr b (i + 4)) =
    Some (if h = 0 then [] else tag_bytes PB_WT_VARINT t @ varint_bytes (unat (scast v :: uint64)))"
  using assms unfolding field_bytes_def basic_bytes_def is_present_def
  by (simp add: varint_parts optional_bytes_defs)

lemma optional_uvarint_bytes:
  assumes "load_u8 m (Ptr b i) = Some h" "load_u32 m (Ptr b (i + 4)) = Some v"
  shows "field_bytes c msg m (Pb_field t 0x12 4 (- 4) 4 0 p) (Ptr b (i + 4)) =
    Some (if h = 0 then [] else tag_bytes PB_WT_VARINT t @ varint_bytes (unat (ucast v :: uint64)))"
  using assms unfolding field_bytes_def basic_bytes_def is_present_def
  by (simp add: varint_parts optional_bytes_defs)

lemma pair_message_bytes:
  assumes "t1 \<noteq> 0" "t2 \<noteq> 0" "ty1 = 0x11 \<or> ty1 = 0x12" "ty2 = 0x11 \<or> ty2 = 0x12"
    and "field_bytes c (message_bytes 0 e c m) m (Pb_field t1 ty1 4 (- 4) 4 0 p1) (Ptr b (i + 4)) = Some x"
    and "field_bytes c (message_bytes 0 e c m) m (Pb_field t2 ty2 4 (- 4) 4 0 p2) (Ptr b (i + 8 + 4)) = Some y"
  shows "message_bytes 1 e c m
    [Pb_field t1 ty1 4 (- 4) 4 0 p1, Pb_field t2 ty2 4 (- 4) 4 0 p2, PB_LAST_FIELD] (Ptr b i) = Some (x @ y)"
proof -
  have t: "terminated [Pb_field t1 ty1 4 (- 4) 4 0 p1, Pb_field t2 ty2 4 (- 4) 4 0 p2, PB_LAST_FIELD]"
    by (simp add: terminated_def PB_LAST_FIELD_def)
  have "PB_LTYPE ty1 \<noteq> PB_LTYPE_EXTENSION" "PB_LTYPE ty2 \<noteq> PB_LTYPE_EXTENSION"
    using assms(3,4) by (auto simp: varint_parts)
  then show ?thesis
    using pair_walk [OF assms(1-4), of p1 p2 b i] assms(5,6) t unfolding One_nat_def message_bytes.simps(2)
    by (auto simp: member_bytes_def simp del: message_bytes.simps)
qed

lemma tag_bytes_small: "unat t < 16 \<Longrightarrow> length (tag_bytes PB_WT_VARINT t) = 1"
proof -
  assume "unat t < 16"
  then have "unat (push_bit 3 (ucast t :: uint64)) < 128"
    by (simp add: push_bit_eq_mult unat_word_ariths unsigned_ucast_eq take_bit_nat_eq_self)
  then show ?thesis by (simp add: tag_bytes_def varint_bytes_small)
qed


lemma length_optional_le:
  "length (if h = 0 then [] else tag_bytes PB_WT_VARINT t @ varint_bytes (unat (v :: uint64))) \<le> 11"
  "unat v < 128 \<Longrightarrow> length (if h = 0 then [] else tag_bytes PB_WT_VARINT t @ varint_bytes (unat (v :: uint64))) \<le> 2"
  if "unat t < 16"
  using that length_varint_bytes_u64 [of v] by (simp_all add: tag_bytes_small varint_bytes_small)

lemma MobileSubtype_small: "unat (ucast (word_of_int (gdt_cct_NetworkConnectionInfo_MobileSubtype_value y) :: uint32) :: uint64) < 128"
  by (cases y) simp_all

lemma QosTier_small: "unat (ucast (word_of_int (gdt_cct_QosTierConfiguration_QosTier_value y) :: uint32) :: uint64) < 128"
  by (cases y) simp_all

lemma size_le:
  assumes "callbacks_emit e c" "message_bytes n e c m flds src = Some (x @ y)" "length x + length y \<le> 13"
  shows "\<exists>k. pb_get_encoded_size n e m flds src = Some (Some k) \<and> unat k \<le> 13"
proof -
  have "unat (of_nat (length (x @ y)) :: 64 word) = length (x @ y)"
    using assms(3) by (intro unat_of_nat_small) simp
  then show ?thesis using pb_get_encoded_size_bytes [OF assms(1,2)] assms(3)
    by (intro exI [of _ "of_nat (length (x @ y))"]) (simp del: of_nat_add)
qed

text \<open>
  The published maximum sizes hold: a \<^verbatim>\<open>gdt_cct_NetworkConnectionInfo\<close> with any network type and an
  enumerator as its mobile subtype, and a \<^verbatim>\<open>gdt_cct_QosTierConfiguration\<close> with an enumerator as its
  tier and any log source, never need more than 13 bytes.
\<close>

theorem published_sizes_hold:
  assumes "callbacks_emit e c"
    and "load_u8 m (Ptr b i) = Some has1" "load_u32 m (Ptr b (i + 4)) = Some v1"
    and "load_u8 m (Ptr b (i + 8)) = Some has2" "load_u32 m (Ptr b (i + 12)) = Some v2"
  shows "(v2 = word_of_int (gdt_cct_NetworkConnectionInfo_MobileSubtype_value st) \<longrightarrow>
      (\<exists>n. pb_get_encoded_size 1 e m gdt_cct_NetworkConnectionInfo_fields (Ptr b i) = Some (Some n) \<and>
        unat n \<le> gdt_cct_NetworkConnectionInfo_size)) \<and>
    (v1 = word_of_int (gdt_cct_QosTierConfiguration_QosTier_value q) \<longrightarrow>
      (\<exists>n. pb_get_encoded_size 1 e m gdt_cct_QosTierConfiguration_fields (Ptr b i) = Some (Some n) \<and>
        unat n \<le> gdt_cct_QosTierConfiguration_size))"
proof -
  have l2: "load_u32 m (Ptr b (i + 8 + 4)) = Some v2" using assms(5) by (simp add: add.assoc)
  note S = optional_varint_bytes [OF assms(2,3)] optional_varint_bytes [OF assms(4) l2]
  note U = optional_uvarint_bytes [OF assms(2,3)] optional_uvarint_bytes [OF assms(4) l2]
  note E = S U
  have net: "\<exists>n. pb_get_encoded_size 1 e m gdt_cct_NetworkConnectionInfo_fields (Ptr b i) = Some (Some n) \<and>
      unat n \<le> gdt_cct_NetworkConnectionInfo_size"
    if "v2 = word_of_int (gdt_cct_NetworkConnectionInfo_MobileSubtype_value st)"
    unfolding gdt_cct_NetworkConnectionInfo_values gdt_cct_NetworkConnectionInfo_size_def
    using length_optional_le(1) [of 1 has1 "scast v1"] length_optional_le(2) [of 2 "ucast v2" has2] MobileSubtype_small [of st] that
    by (intro size_le [OF assms(1) pair_message_bytes [OF _ _ _ _ S(1) U(2)]]) auto
  have qos: "\<exists>n. pb_get_encoded_size 1 e m gdt_cct_QosTierConfiguration_fields (Ptr b i) = Some (Some n) \<and>
      unat n \<le> gdt_cct_QosTierConfiguration_size"
    if "v1 = word_of_int (gdt_cct_QosTierConfiguration_QosTier_value q)"
    unfolding gdt_cct_QosTierConfiguration_values gdt_cct_QosTierConfiguration_size_def
    using length_optional_le(2) [of 2 "ucast v1" has1] length_optional_le(1) [of 3 has2 "scast v2"] QosTier_small [of q] that
    by (intro size_le [OF assms(1) pair_message_bytes [OF _ _ _ _ U(1) S(2)]]) auto
  from net qos show ?thesis by blast
qed

theorem published_sizes_hold_witness:
  "\<exists>n. pb_get_encoded_size 1 no_env (one_object (\<lambda>_. 0) (\<lambda>_. False) 0 (init_cells (C_struct gdt_cct_NetworkConnectionInfo)
      (I_struct [I_int 1, I_int (gdt_cct_NetworkConnectionInfo_NetworkType_value gdt_cct_NetworkConnectionInfo_NetworkType_NONE),
        I_int 1, I_int (gdt_cct_NetworkConnectionInfo_MobileSubtype_value gdt_cct_NetworkConnectionInfo_MobileSubtype_COMBINED)])))
      gdt_cct_NetworkConnectionInfo_fields (Ptr 0 0) = Some (Some n) \<and> unat n \<le> gdt_cct_NetworkConnectionInfo_size"
proof -
  let ?m = "one_object (\<lambda>_. 0) (\<lambda>_. False) 0 (init_cells (C_struct gdt_cct_NetworkConnectionInfo)
      (I_struct [I_int 1, I_int (gdt_cct_NetworkConnectionInfo_NetworkType_value gdt_cct_NetworkConnectionInfo_NetworkType_NONE),
        I_int 1, I_int (gdt_cct_NetworkConnectionInfo_MobileSubtype_value gdt_cct_NetworkConnectionInfo_MobileSubtype_COMBINED)]))"
  have "load_u8 ?m (Ptr 0 0) = Some 1" "load_u32 ?m (Ptr 0 (0 + 4)) = Some (- 1)" "load_u8 ?m (Ptr 0 (0 + 8)) = Some 1"
    "load_u32 ?m (Ptr 0 (0 + 12)) = Some 100"
    by code_simp+
  from published_sizes_hold [OF callbacks_emit_no_env this, of gdt_cct_NetworkConnectionInfo_MobileSubtype_COMBINED]
  show ?thesis by simp
qed

end
