(* ===== verification/Pb_Decode_Stream.thy ===== *)
theory Pb_Decode_Stream
  imports Pb_Decode Pb_Wire
begin

text \<open>
  The message decoder and its input stream: whatever the input bytes, the descriptors and the
  message in memory are, a run that ends leaves the stream sound.  The stream never promises more
  bytes than before and never consumes input without accounting for it.
\<close>

subsection \<open>Readers\<close>

lemma pb_read_null_settled:
  assumes "istream_ok s" "pb_read_null s n = Some (ok, s')"
  shows "settled s s'"
proof (cases "n = 0")
  case True
  with assms show ?thesis by (simp add: pb_read_null_def)
next
  case False
  from pb_read_null_reads [OF assms(1) False] assms(2) show ?thesis by (auto simp: reads_def)
qed

lemma pb_read_buf_settled:
  assumes "istream_ok s" "pb_read_buf s n = Some (r, s')"
  shows "settled s s'"
proof (cases "n = 0")
  case True
  with assms show ?thesis by (simp add: pb_read_buf_def)
next
  case False
  from pb_read_buf_reads [OF assms(1) False] assms(2) show ?thesis by (auto simp: reads_def)
qed

lemma pb_read_settled: "istream_ok s \<Longrightarrow> pb_read s m p n = Some (ok, s', m') \<Longrightarrow> settled s s'"
  by (auto simp: pb_read_def split: if_splits option.splits
      dest: pb_read_null_settled pb_read_buf_settled)

lemma raw_varint_settled: "istream_ok s \<Longrightarrow> raw_varint n s buf = Some (r, s') \<Longrightarrow> settled s s'"
proof (induction n arbitrary: s buf)
  case (Suc n)
  from Suc.prems(2) obtain q t where q: "pb_read_buf s 1 = Some (q, t)"
      "(case q of None \<Rightarrow> Some (None, t)
        | Some bs \<Rightarrow> if hd bs AND 0x80 \<noteq> 0 then raw_varint n t (buf @ bs) else Some (Some (buf @ bs), t)) = Some (r, s')"
    by auto
  have st: "settled s t" using Suc.prems(1) q(1) by (rule pb_read_buf_settled)
  then have "istream_ok t" by (rule settled_istream_ok)
  with q(2) Suc.IH [of t] st show ?case
    by (auto split: option.splits if_splits intro: settled_trans)
qed simp

lemma read_raw_value_settled:
  "istream_ok s \<Longrightarrow> read_raw_value s wt n = Some (r, s') \<Longrightarrow> settled s s'"
  by (cases wt) (auto simp: read_raw_value_def intro: raw_varint_settled pb_read_buf_settled)

lemma pb_skip_field_settled: "istream_ok s \<Longrightarrow> pb_skip_field s wt = Some (ok, s') \<Longrightarrow> settled s s'"
  by (rule rd_skip.rd_settled)

lemma pb_decode_tag_settled:
  "istream_ok s \<Longrightarrow> pb_decode_tag s = Some (r, eof, s') \<Longrightarrow> settled s s'"
  using pb_decode_tag_reads [of s] by (auto simp: reads_def)

subsection \<open>Substreams\<close>

text \<open>\<open>opened s0 s sub\<close>: the stream \<open>s0\<close> was split into its rest \<open>s\<close> and a substream \<open>sub\<close> in front of it.\<close>

definition opened :: "pb_istream_t \<Rightarrow> pb_istream_t \<Rightarrow> pb_istream_t \<Rightarrow> bool" where
  "opened s0 s sub \<longleftrightarrow> settled s0 s \<and> istream_ok sub \<and>
     unat (bytes_left s) + unat (bytes_left sub) \<le> unat (bytes_left s0) \<and>
     unat (bytes_left s) + unat (bytes_left sub) \<le> length (istate sub) \<and>
     length (istate s0) + unat (bytes_left s) + unat (bytes_left sub) \<le> length (istate sub) + unat (bytes_left s0)"

lemma make_substream_opened:
  assumes ok: "istream_ok s0" and mk: "pb_make_string_substream s0 = Some (r, s)"
  shows "settled s0 s" "r = Some sub \<Longrightarrow> opened s0 s sub"
proof -
  obtain q t where q: "pb_decode_varint32 s0 = Some (q, t)"
      "(case q of None \<Rightarrow> Some (None, t)
        | Some sz \<Rightarrow> if bytes_left t < ucast sz then Some (None, iset_error t ''parent stream too short'')
            else Some (Some (t\<lparr>bytes_left := ucast sz\<rparr>), t\<lparr>bytes_left := bytes_left t - ucast sz\<rparr>)) = Some (r, s)"
    using mk by (auto simp: pb_make_string_substream_def)
  have st: "settled s0 t" using ok q(1) by (rule rd_varint32.rd_settled)
  have sub: "opened s0 (t\<lparr>bytes_left := bytes_left t - ucast sz\<rparr>) (t\<lparr>bytes_left := ucast sz\<rparr>)"
    if "\<not> bytes_left t < ucast sz" for sz :: uint32
  proof -
    have le: "ucast sz \<le> bytes_left t" using that by simp
    then have "unat (bytes_left t - ucast sz) = unat (bytes_left t) - unat sz" "unat sz \<le> unat (bytes_left t)"
      by (simp_all add: unat_sub_le word_le_nat_alt)
    with st show ?thesis by (auto simp: opened_def settled_def istream_ok_def)
  qed
  show "settled s0 s" using q(2) st sub by (auto simp: opened_def split: option.splits if_splits)
  show "r = Some sub \<Longrightarrow> opened s0 s sub" using q(2) sub by (auto split: option.splits if_splits)
qed

lemma close_substream_settled:
  assumes op: "opened s0 s sub" and st: "settled sub sub'"
    and cl: "pb_close_string_substream s sub' = Some (ok, s')"
  shows "settled s0 s'"
proof -
  have io: "istream_ok sub'" using st by (rule settled_istream_ok)
  have cb: "icallback s = Buf_read" using op by (auto simp: opened_def settled_def istream_ok_def)
  show ?thesis
  proof (cases "bytes_left sub' = 0")
    case True
    with cl have "s' = s\<lparr>istate := istate sub', ierrmsg := ierrmsg sub'\<rparr>"
      by (auto simp: pb_close_string_substream_def)
    with True op st cb show ?thesis by (auto simp: opened_def settled_def istream_ok_def)
  next
    case False
    have "pb_read_null sub' (bytes_left sub') = Some (True, adv sub' (unat (bytes_left sub')))"
      using io by (rule pb_read_null_ok) simp
    with cl False have "s' = s\<lparr>istate := drop (unat (bytes_left sub')) (istate sub'), ierrmsg := ierrmsg sub'\<rparr>"
      by (auto simp: pb_close_string_substream_def)
    with op st cb io show ?thesis by (auto simp: opened_def settled_def istream_ok_def)
  qed
qed

subsection \<open>Runs that keep the stream sound\<close>

text \<open>
  \<open>keeps s x\<close>: if the run \<open>x\<close> of a decoder ends, its stream is settled with respect to \<open>s\<close>;
  \<open>keepr\<close> is the same for the results of readers.  The rules of \<open>keeps_intros\<close> follow the structure of
  a decoder.
\<close>

definition keeps :: "pb_istream_t \<Rightarrow> dec_result \<Rightarrow> bool" where
  "keeps s x \<longleftrightarrow> (\<forall>ok t m. x = Some (ok, t, m) \<longrightarrow> settled s t)"

definition keepr :: "pb_istream_t \<Rightarrow> ('r \<times> pb_istream_t) option \<Rightarrow> bool" where
  "keepr s x \<longleftrightarrow> (\<forall>r t. x = Some (r, t) \<longrightarrow> settled s t)"

lemma keeps_Some: "settled s t \<Longrightarrow> keeps s (Some (ok, t, m))"
  by (simp add: keeps_def)

lemma keeps_None: "keeps s None"
  by (simp add: keeps_def)

lemma keeps_fail: "settled s t \<Longrightarrow> keeps s (fail_with t m msg)"
  by (simp add: keeps_def fail_with_def)

lemma keeps_if: "(c \<Longrightarrow> keeps s x) \<Longrightarrow> (\<not> c \<Longrightarrow> keeps s y) \<Longrightarrow> keeps s (if c then x else y)"
  by simp

lemma keeps_option:
  "(r = None \<Longrightarrow> keeps s x) \<Longrightarrow> (\<And>v. r = Some v \<Longrightarrow> keeps s (g v)) \<Longrightarrow>
   keeps s (case r of None \<Rightarrow> x | Some v \<Rightarrow> g v)"
  by (cases r) simp_all

lemma keeps_bind:
  "keeps s x \<Longrightarrow> (\<And>ok t m. settled s t \<Longrightarrow> keeps s (g ok t m)) \<Longrightarrow> keeps s (x \<bind> (\<lambda>(ok, t, m). g ok t m))"
  by (fastforce simp: keeps_def)

lemma keeps_bind_reader:
  "keepr s x \<Longrightarrow> (\<And>r t. settled s t \<Longrightarrow> keeps s (g r t)) \<Longrightarrow> keeps s (x \<bind> (\<lambda>(r, t). g r t))"
  by (fastforce simp: keepr_def keeps_def)

lemma keeps_bind_other: "(\<And>y. x = Some y \<Longrightarrow> keeps s (g y)) \<Longrightarrow> keeps s (x \<bind> g)"
  by (auto simp: keeps_def)

lemma keeps_prod: "(\<And>a b. p = (a, b) \<Longrightarrow> keeps s (g a b)) \<Longrightarrow> keeps s (case p of (a, b) \<Rightarrow> g a b)"
  by (cases p) simp

lemma keeps_Let: "keeps s (g x) \<Longrightarrow> keeps s (let y = x in g y)"
  by simp

lemma keepsD: "keeps s x \<Longrightarrow> x = Some (ok, t, m) \<Longrightarrow> settled s t"
  by (simp add: keeps_def)

lemma settled_error: "settled s t \<Longrightarrow> settled s (iset_error t msg)"
  by simp

lemma reader_keepr:
  assumes "settled s t" "\<And>r u. rd t = Some (r, u) \<Longrightarrow> istream_ok t \<Longrightarrow> settled t u"
  shows "keepr s (rd t)"
  using assms settled_istream_ok settled_trans unfolding keepr_def by blast

lemma keepr_scalar:
  assumes "settled s t"
  shows "keepr s (pb_decode_varint t)" "keepr s (pb_decode_varint32 t)" "keepr s (pb_decode_svarint t)"
    "keepr s (pb_decode_fixed32 t)" "keepr s (pb_decode_fixed64 t)"
  by (rule reader_keepr [OF assms], erule rd_varint.rd_settled [rotated] rd_varint32.rd_settled [rotated]
      rd_svarint.rd_settled [rotated] rd_fixed32.rd_settled [rotated] rd_fixed64.rd_settled [rotated], assumption)+

lemma keepr_skip:
  assumes "settled s t"
  shows "keepr s (pb_skip_field t wt)" "keepr s (pb_read_buf t k)" "keepr s (pb_read_null t k)"
    "keepr s (read_raw_value t wt l)"
  by (rule reader_keepr [OF assms], erule pb_skip_field_settled [rotated] pb_read_buf_settled [rotated]
      pb_read_null_settled [rotated] read_raw_value_settled [rotated], assumption)+

lemmas keepr_intros = keepr_scalar keepr_skip

text \<open>Work inside a substream, followed by closing it.\<close>

lemma opened_trans: "settled s0 s \<Longrightarrow> opened s t sub \<Longrightarrow> opened s0 t sub"
  by (auto simp: opened_def settled_def)

lemma keeps_substream:
  assumes "settled s t"
    and "\<And>u. settled s u \<Longrightarrow> keeps s (g None u)"
    and "\<And>u sub. opened s u sub \<Longrightarrow> settled s u \<Longrightarrow> istream_ok sub \<Longrightarrow> keeps s (g (Some sub) u)"
  shows "keeps s (pb_make_string_substream t \<bind> (\<lambda>(r, u). g r u))"
  unfolding keeps_def
proof (intro allI impI)
  fix ok v m'
  assume "pb_make_string_substream t \<bind> (\<lambda>(r, u). g r u) = Some (ok, v, m')"
  then obtain r u where mk: "pb_make_string_substream t = Some (r, u)" and g: "g r u = Some (ok, v, m')" by auto
  have io: "istream_ok t" using assms(1) by (rule settled_istream_ok)
  have su: "settled s u" using settled_trans [OF assms(1) make_substream_opened(1) [OF io mk]] .
  have "keeps s (g r u)"
  proof (cases r)
    case None
    with assms(2) [OF su] show ?thesis by simp
  next
    case (Some sub)
    then have "opened s u sub" using opened_trans [OF assms(1) make_substream_opened(2) [OF io mk]] by simp
    with assms(3) [of u sub] su Some show ?thesis by (auto simp: opened_def)
  qed
  with g show "settled s v" by (auto dest: keepsD)
qed

lemma keeps_inside:
  "keeps sub x \<Longrightarrow> (\<And>ok t m. settled sub t \<Longrightarrow> keeps s (g ok t m)) \<Longrightarrow> keeps s (x \<bind> (\<lambda>(ok, t, m). g ok t m))"
  by (fastforce simp: keeps_def)

lemma keepr_close: "opened s t sub \<Longrightarrow> settled sub u \<Longrightarrow> keepr s (pb_close_string_substream t u)"
  unfolding keepr_def using close_substream_settled by blast

lemmas keeps_struct = keeps_if keeps_option keeps_Let keeps_fail keeps_Some keeps_None keeps_bind_reader keepr_intros

subsection \<open>Field decoders\<close>

lemma pb_read_keeps: "settled s t \<Longrightarrow> keeps s (pb_read t m p n)"
  unfolding pb_read_def by (intro keeps_struct keeps_bind_other) assumption+

lemma allocate_field_keeps: "settled s t \<Longrightarrow> keeps s (allocate_field t m pd ds as)"
  unfolding allocate_field_def
  by (intro keeps_bind_other keeps_if keeps_fail keeps_prod keeps_Some) assumption+

lemma check_clamped_keeps: "settled s t \<Longrightarrow> keeps s (check_clamped t m v st)"
  unfolding check_clamped_def
  by (intro keeps_bind_other keeps_option keeps_fail keeps_prod keeps_if keeps_Some) assumption+

lemma pb_dec_bool_keeps: "settled s t \<Longrightarrow> keeps s (pb_dec_bool t m f dest)"
  unfolding pb_dec_bool_def by (intro keeps_struct keeps_bind_other) assumption+

lemma pb_dec_varint_keeps: "settled s t \<Longrightarrow> keeps s (pb_dec_varint t m f dest)"
  unfolding pb_dec_varint_def by (intro keeps_struct check_clamped_keeps) assumption+

lemma pb_dec_uvarint_keeps: "settled s t \<Longrightarrow> keeps s (pb_dec_uvarint t m f dest)"
  unfolding pb_dec_uvarint_def by (intro keeps_struct check_clamped_keeps) assumption+

lemma pb_dec_svarint_keeps: "settled s t \<Longrightarrow> keeps s (pb_dec_svarint t m f dest)"
  unfolding pb_dec_svarint_def by (intro keeps_struct check_clamped_keeps) assumption+

lemma pb_dec_fixed32_keeps: "settled s t \<Longrightarrow> keeps s (pb_dec_fixed32 t m f dest)"
  unfolding pb_dec_fixed32_def by (intro keeps_struct keeps_bind_other) assumption+

lemma pb_dec_fixed64_keeps: "settled s t \<Longrightarrow> keeps s (pb_dec_fixed64 t m f dest)"
  unfolding pb_dec_fixed64_def by (intro keeps_struct keeps_bind_other) assumption+

lemma pb_dec_bytes_keeps: "settled s t \<Longrightarrow> keeps s (pb_dec_bytes t m f dest)"
  unfolding pb_dec_bytes_def
  by (intro keeps_struct keeps_bind allocate_field_keeps pb_read_keeps keeps_bind_other) assumption+

lemma pb_dec_string_keeps: "settled s t \<Longrightarrow> keeps s (pb_dec_string t m f dest)"
  unfolding pb_dec_string_def
  by (intro keeps_struct keeps_bind allocate_field_keeps pb_read_keeps keeps_bind_other) assumption+

lemma pb_dec_fixed_length_bytes_keeps: "settled s t \<Longrightarrow> keeps s (pb_dec_fixed_length_bytes t m f dest)"
  unfolding pb_dec_fixed_length_bytes_def
  by (intro keeps_struct pb_read_keeps keeps_bind_other) assumption+

text \<open>\<open>sound dec\<close>: a message decoder keeps every sound stream sound.\<close>

definition sound :: "message_decoder \<Rightarrow> bool" where
  "sound dec \<longleftrightarrow> (\<forall>s m flds dest. istream_ok s \<longrightarrow> keeps s (dec s m flds dest))"

lemma soundD: "sound dec \<Longrightarrow> settled s t \<Longrightarrow> keeps s (dec t m flds dest)"
  unfolding sound_def keeps_def using settled_istream_ok settled_trans by blast

lemma decode_with_keeps:
  "sound dec \<Longrightarrow> settled s t \<Longrightarrow> keeps s (decode_with n e dec t m flds dest)"
  unfolding decode_with_def
  by (intro keeps_bind soundD keeps_if keeps_Some keeps_bind_other) assumption+

lemma settled_self: "istream_ok s \<Longrightarrow> settled s s"
  by simp

lemma pb_dec_submessage_keeps:
  assumes "sound dec" "settled s t"
  shows "keeps s (pb_dec_submessage n e dec t m f dest)"
  unfolding pb_dec_submessage_def
proof (rule keeps_substream [OF assms(2)], goal_cases)
  case (1 u)
  then show ?case by (simp add: keeps_Some)
next
  case (2 u sub)
  have fin: "keeps s (do { (ok, s) \<leftarrow> pb_close_string_substream u v; if \<not> ok then Some (False, s, m') else Some (status, s, m') })"
    if "settled sub v" for v m' status
    using keepr_close [OF 2(1) that] by (intro keeps_bind_reader keeps_if keeps_Some) assumption+
  have inner: "keeps sub (if c then decode_with n e dec sub m flds dest else dec sub m flds dest)" for c flds
    using decode_with_keeps [OF assms(1) settled_self [OF 2(3)]] soundD [OF assms(1) settled_self [OF 2(3)]]
    by (intro keeps_if) blast+
  show ?case
    using keeps_inside [OF inner fin] 2(2) by (auto simp: keeps_fail keeps_None split: field_ptr.split)
qed

lemma call_decoder_keeps:
  assumes "sound dec" "nth_opt (PB_DECODERS n e dec) i = Some func" "settled s t"
  shows "keeps s (call_decoder func t m f dest)"
proof -
  have "func \<in> set (PB_DECODERS n e dec)" using assms(2) by (auto simp: nth_opt_Some_iff)
  then consider "func = None" | g where "func = Some g" "\<And>m f dest. keeps s (g t m f dest)"
    using assms(3) pb_dec_submessage_keeps [OF assms(1,3)]
    unfolding PB_DECODERS_def
    by (auto simp: pb_dec_bool_keeps pb_dec_varint_keeps pb_dec_uvarint_keeps pb_dec_svarint_keeps pb_dec_fixed32_keeps
        pb_dec_fixed64_keeps pb_dec_bytes_keeps pb_dec_string_keeps pb_dec_fixed_length_bytes_keeps)
  then show ?thesis by cases (simp_all add: call_decoder_def keeps_None)
qed

subsection \<open>Static, pointer and callback fields\<close>

lemma packed_static_keeps:
  assumes "sound dec" "nth_opt (PB_DECODERS k e dec) i = Some func"
  shows "settled s t \<Longrightarrow> keeps s (packed_static n func t m f pd ps)"
proof (induction n arbitrary: t m)
  case (Suc n)
  show ?case
    unfolding packed_static.simps
    using Suc.prems
    by (intro keeps_if keeps_Some keeps_bind [OF call_decoder_keeps [OF assms]] keeps_bind_other Suc.IH) assumption+
qed (simp add: keeps_None)

lemma keeps_closing:
  assumes "opened s u sub" "settled sub v"
  shows "keeps s (do { (ok, s) \<leftarrow> pb_close_string_substream u v; if \<not> ok then Some (False, s, m) else Some (status, s, m) })"
  using keepr_close [OF assms] by (intro keeps_bind_reader keeps_if keeps_Some) assumption+

lemma decode_static_field_keeps:
  assumes "sound dec" "settled s t"
  shows "keeps s (decode_static_field n e dec t m wt it)"
proof -
  have packed: "keeps s (do { (r, u) \<leftarrow> pb_make_string_substream t;
      case r of None \<Rightarrow> Some (False, u, m)
      | Some sub \<Rightarrow> do {
          (status, sub, m) \<leftarrow> packed_static n func sub m f pd ps;
          if bytes_left sub \<noteq> 0 then fail_with u m ''array overflow''
          else do { (ok, s) \<leftarrow> pb_close_string_substream u sub; if \<not> ok then Some (False, s, m) else Some (status, s, m) } } })"
    if func: "nth_opt (PB_DECODERS n e dec) i = Some func" for i func f pd ps
  proof (rule keeps_substream [OF assms(2)], goal_cases)
    case (1 u)
    then show ?case by (simp add: keeps_Some)
  next
    case (2 u sub)
    have "keeps sub (packed_static n func sub m f pd ps)"
      using assms(1) func settled_self [OF 2(3)] by (rule packed_static_keeps)
    then show ?case
      unfolding option.case by (rule keeps_inside) (intro keeps_if keeps_fail 2 keeps_closing [OF 2(1)])
  qed
  show ?thesis
    unfolding decode_static_field_def
    by (rule keeps_bind_other, rule keeps_Let, rule keeps_bind_other)
       (intro keeps_if packed keeps_fail keeps_bind_other call_decoder_keeps [OF assms(1)] assms(2), assumption+)
qed

text \<open>The loop over a packed array behind a pointer: the parent stream changes its message only.\<close>

definition keepp :: "pb_istream_t \<Rightarrow> pb_istream_t \<Rightarrow> (bool \<times> pb_istream_t \<times> pb_istream_t \<times> mem) option \<Rightarrow> bool" where
  "keepp s0 s x \<longleftrightarrow> (\<forall>ok sub t m. x = Some (ok, sub, t, m) \<longrightarrow> settled s0 sub \<and> (\<exists>er. t = s\<lparr>ierrmsg := er\<rparr>))"

lemma keepp_if: "(c \<Longrightarrow> keepp s0 s x) \<Longrightarrow> (\<not> c \<Longrightarrow> keepp s0 s y) \<Longrightarrow> keepp s0 s (if c then x else y)"
  by simp

lemma keepp_Some: "settled s0 sub \<Longrightarrow> keepp s0 s (Some (ok, sub, s, m))"
  by (auto simp: keepp_def intro: exI [of _ "ierrmsg s"])

lemma keepp_Some_err: "settled s0 sub \<Longrightarrow> keepp s0 s (Some (ok, sub, s\<lparr>ierrmsg := er\<rparr>, m))"
  by (auto simp: keepp_def)

lemma keepp_bind_other: "(\<And>y. x = Some y \<Longrightarrow> keepp s0 s (g y)) \<Longrightarrow> keepp s0 s (x \<bind> g)"
  by (auto simp: keepp_def)

lemma keepp_bind:
  "keeps s0 x \<Longrightarrow> (\<And>ok t m. settled s0 t \<Longrightarrow> keepp s0 s (g ok t m)) \<Longrightarrow> keepp s0 s (x \<bind> (\<lambda>(ok, t, m). g ok t m))"
  by (fastforce simp: keeps_def keepp_def)

lemma keepp_bind_more:
  assumes "\<And>ok t m a. x = Some (ok, t, m, a) \<Longrightarrow> settled s0 t"
    and "\<And>ok t m a. settled s0 t \<Longrightarrow> keepp s0 s (g ok t m a)"
  shows "keepp s0 s (x \<bind> (\<lambda>(ok, t, m, a). g ok t m a))"
  using assms by (fastforce simp: keepp_def)

lemma keepp_Let: "keepp s0 s (g x) \<Longrightarrow> keepp s0 s (let y = x in g y)"
  by simp

lemma packed_pointer_keeps:
  assumes "sound dec" "nth_opt (PB_DECODERS k e dec) i = Some func"
  shows "settled s0 sub \<Longrightarrow> keepp s0 s (packed_pointer n k e func s sub m f pd ps al)"
proof (induction n arbitrary: sub m al)
  case (Suc n)
  have grow: "settled s0 t"
    if x: "(if c then (if data_size f = 0 then None
                   else do {
                     let remain = (bytes_left sub - 1) div ucast (data_size f) + 1;
                     let al = (if remain < ucast PB_SIZE_MAX - al then al + remain else al + 1);
                     (ok, sub, m) \<leftarrow> allocate_field sub m pd (ucast (data_size f)) al;
                     Some (ok, sub, m, al)
                   })
             else Some (True, sub, m, al)) = Some (ok, t, m', a)" for c ok t m' a
    using x Suc.prems
    by (auto simp: Let_def split: if_splits dest: keepsD [OF allocate_field_keeps [OF Suc.prems]])
  show ?case
    unfolding packed_pointer.simps
    using Suc.prems
    by (intro keepp_if keepp_Some keepp_Some_err keepp_bind_more [OF grow] keepp_Let
        keepp_bind [OF call_decoder_keeps [OF assms]] Suc.IH keepp_bind_other) assumption+
qed (simp add: keepp_def)

lemma opened_err: "opened s (u\<lparr>ierrmsg := er\<rparr>) sub \<longleftrightarrow> opened s u sub"
  by (simp add: opened_def settled_def)

lemma decode_pointer_field_keeps:
  assumes "sound dec" "settled s t"
  shows "keeps s (decode_pointer_field n e dec t m wt it)"
proof -
  have packed: "keeps s (do { (r, u) \<leftarrow> pb_make_string_substream t;
      case r of None \<Rightarrow> Some (False, u, m)
      | Some sub \<Rightarrow> do {
          (status, sub, u, m) \<leftarrow> packed_pointer n n e func u sub m f pd ps al;
          (ok, s) \<leftarrow> pb_close_string_substream u sub;
          if \<not> ok then Some (False, s, m) else Some (status, s, m) } })"
    if func: "nth_opt (PB_DECODERS n e dec) i = Some func" for i func f pd ps al
  proof (rule keeps_substream [OF assms(2)], goal_cases)
    case (1 u)
    then show ?case by (simp add: keeps_Some)
  next
    case (2 u sub)
    have kp: "keepp sub u (packed_pointer n n e func u sub m f pd ps al)"
      using assms(1) func settled_self [OF 2(3)] by (rule packed_pointer_keeps)
    show ?case
      unfolding option.case
    proof (rule keeps_bind_other, goal_cases)
      case (1 y)
      obtain status v u' m' where y: "y = (status, v, u', m')" by (cases y)
      with kp 1 obtain er where "settled sub v" "u' = u\<lparr>ierrmsg := er\<rparr>" by (auto simp: keepp_def)
      then show ?case
        unfolding y prod.case using keeps_closing [of s u' sub v] 2(1) by (simp add: opened_err)
    qed
  qed
  show ?thesis
    unfolding decode_pointer_field_def
    by (rule keeps_bind_other, rule keeps_Let, rule keeps_bind_other)
       (intro keeps_if packed keeps_fail keeps_Some keeps_Let keeps_bind [OF allocate_field_keeps] keeps_bind_other
          call_decoder_keeps [OF assms(1)] assms(2), assumption+)
qed

text \<open>The contract of decoding callbacks and extension handlers.\<close>

definition callbacks_settle :: "env \<Rightarrow> bool" where
  "callbacks_settle e \<longleftrightarrow>
     (\<forall>k g m s f p. decode_cb e k = Some g \<longrightarrow> istream_ok s \<longrightarrow> keeps s (g m s f p)) \<and>
     (\<forall>k ty g m s x t wt. ext_type e k = Some ty \<longrightarrow> ext_decode ty = Some g \<longrightarrow> istream_ok s \<longrightarrow> keeps s (g m s x t wt))"

lemma keeps_trans: "settled s t \<Longrightarrow> keeps t x \<Longrightarrow> keeps s x"
  unfolding keeps_def using settled_trans by blast

lemma callback_loop_keeps:
  assumes "\<And>m s f p. istream_ok s \<Longrightarrow> keeps s (g m s f p)"
  shows "settled s t \<Longrightarrow> keeps s (callback_loop n g t m f arg)"
proof (induction n arbitrary: t m)
  case (Suc n)
  have "keeps s (g m t f arg)"
    using Suc.prems keeps_trans assms settled_istream_ok by blast
  then show ?case
    unfolding callback_loop.simps by (intro keeps_bind keeps_if keeps_Some Suc.IH) assumption+
qed (simp add: keeps_None)

lemma decode_callback_field_keeps:
  assumes cb: "callbacks_settle e" and st: "settled s t"
  shows "keeps s (decode_callback_field n e t m wt it)"
proof -
  have str: "keeps s (do { (r, u) \<leftarrow> pb_make_string_substream t;
      case r of None \<Rightarrow> Some (False, u, m)
      | Some sub \<Rightarrow> do {
          (ok, sub, m) \<leftarrow> callback_loop n g sub m f arg;
          if \<not> ok then fail_with u m ''callback failed''
          else do { (ok, s) \<leftarrow> pb_close_string_substream u sub; Some (ok, s, m) } } })"
    if g: "\<And>m s f p. istream_ok s \<Longrightarrow> keeps s (g m s f p)" for g f arg
  proof (rule keeps_substream [OF st], goal_cases)
    case (1 u)
    then show ?case by (simp add: keeps_Some)
  next
    case (2 u sub)
    have "keeps sub (callback_loop n g sub m f arg)"
      using callback_loop_keeps [OF g settled_self [OF 2(3)]] by simp
    then show ?case
      unfolding option.case
      by (rule keeps_inside) (intro keeps_if keeps_fail 2 keeps_bind_reader [OF keepr_close [OF 2(1)]] keeps_Some)
  qed
  have raw: "keeps s (do { (r, u) \<leftarrow> read_raw_value t wt 10;
      case r of None \<Rightarrow> Some (False, u, m)
      | Some buf \<Rightarrow> do { (ok, sub, m) \<leftarrow> h buf; Some (ok, u, m) } })" for h :: "byte list \<Rightarrow> dec_result"
    using st by (intro keeps_bind_reader keepr_intros keeps_option keeps_Some)
      (auto simp: keeps_def)
  have skip: "keeps s (do { (ok, s) \<leftarrow> pb_skip_field t wt; Some (ok, s, m) })"
    using st by (intro keeps_bind_reader keepr_intros keeps_Some)
  show ?thesis
    unfolding decode_callback_field_def
  proof (rule keeps_bind_other, rule keeps_bind_other, goal_cases)
    case (1 f q)
    show ?case
    proof (cases q)
      case (Sym k)
      have g: "decode_cb e k = Some g \<Longrightarrow> istream_ok s \<Longrightarrow> keeps s (g m s f p)" for g m s f p
        using cb by (auto simp: callbacks_settle_def)
      show ?thesis
        unfolding Sym ptr.case by (rule keeps_bind_other) (intro keeps_Let keeps_if str raw g, assumption+)
    qed (simp_all add: skip keeps_None)
  qed
qed

subsection \<open>Fields and extensions\<close>

text \<open>The same for results with further components; \<open>p\<close> picks the stream.\<close>

definition keepg :: "('r \<Rightarrow> pb_istream_t) \<Rightarrow> pb_istream_t \<Rightarrow> 'r option \<Rightarrow> bool" where
  "keepg p s x \<longleftrightarrow> (\<forall>r. x = Some r \<longrightarrow> settled s (p r))"

abbreviation str3 :: "bool \<times> pb_istream_t \<times> mem \<Rightarrow> pb_istream_t" where
  "str3 r \<equiv> fst (snd r)"

abbreviation str4 :: "bool \<times> pb_istream_t \<times> mem \<times> pb_field_iter_t \<Rightarrow> pb_istream_t" where
  "str4 r \<equiv> fst (snd r)"

lemma keeps_keepg: "keeps s x \<longleftrightarrow> keepg str3 s x"
  by (auto simp: keeps_def keepg_def)

lemma keepr_keepg: "keepr s x \<longleftrightarrow> keepg snd s x"
  by (auto simp: keepr_def keepg_def)

lemma keepg_if: "(c \<Longrightarrow> keepg p s x) \<Longrightarrow> (\<not> c \<Longrightarrow> keepg p s y) \<Longrightarrow> keepg p s (if c then x else y)"
  by simp

lemma keepg_Some: "settled s (p r) \<Longrightarrow> keepg p s (Some r)"
  by (simp add: keepg_def)

lemma keepg_None: "keepg p s None"
  by (simp add: keepg_def)

lemma keepg_Let: "keepg p s (g x) \<Longrightarrow> keepg p s (let y = x in g y)"
  by simp

lemma keepg_prod: "(\<And>a b. q = (a, b) \<Longrightarrow> keepg p s (g a b)) \<Longrightarrow> keepg p s (case q of (a, b) \<Rightarrow> g a b)"
  by (cases q) simp

lemma keepg_option:
  "(r = None \<Longrightarrow> keepg p s x) \<Longrightarrow> (\<And>v. r = Some v \<Longrightarrow> keepg p s (g v)) \<Longrightarrow>
   keepg p s (case r of None \<Rightarrow> x | Some v \<Rightarrow> g v)"
  by (cases r) simp_all

lemma keepg_bind: "keepg q s x \<Longrightarrow> (\<And>y. settled s (q y) \<Longrightarrow> keepg p s (g y)) \<Longrightarrow> keepg p s (x \<bind> g)"
  by (auto simp: keepg_def)

lemma keepg_bind_other: "(\<And>y. x = Some y \<Longrightarrow> keepg p s (g y)) \<Longrightarrow> keepg p s (x \<bind> g)"
  by (auto simp: keepg_def)

lemma keepgD: "keepg p s x \<Longrightarrow> x = Some r \<Longrightarrow> settled s (p r)"
  by (simp add: keepg_def)

lemma pb_release_union_field_keeps:
  "settled s t \<Longrightarrow> keepg str4 s (pb_release_union_field n e t m it)"
  unfolding pb_release_union_field_def
  by (intro keepg_bind_other keepg_Let keepg_if keepg_prod keepg_Some) simp_all

lemma decode_any_keeps:
  assumes "sound dec" "callbacks_settle e" "settled s t"
  shows "keeps s (if a then decode_static_field n e dec t m wt it
      else if b then decode_pointer_field n e dec t m wt it
      else if c then decode_callback_field n e t m wt it else fail_with t m msg)"
  using assms(3) by (intro keeps_if decode_static_field_keeps decode_pointer_field_keeps decode_callback_field_keeps
        keeps_fail assms(1,2))

lemma decode_field_keeps:
  assumes "sound dec" "callbacks_settle e" "settled s t"
  shows "keepg str4 s (decode_field n e dec t m wt it)"
proof -
  have tail: "keepg str4 s (do { f \<leftarrow> field_at it;
      (ok, s, m) \<leftarrow> (if PB_ATYPE (ftype f) = PB_ATYPE_STATIC then decode_static_field n e dec t m wt it
        else if PB_ATYPE (ftype f) = PB_ATYPE_POINTER then decode_pointer_field n e dec t m wt it
        else if PB_ATYPE (ftype f) = PB_ATYPE_CALLBACK then decode_callback_field n e t m wt it
        else fail_with t m ''invalid field type'');
      Some (ok, s, m, it) })" if "settled s t" for t m it
    by (rule keepg_bind_other, rule keepg_bind [OF decode_any_keeps [OF assms(1,2) that, unfolded keeps_keepg]])
       (auto intro!: keepg_prod keepg_Some)
  have ent: "keepg str4 s (if c then pb_release_union_field n e t m it else Some (True, t, m, it))" for c
    using assms(3) by (intro keepg_if pb_release_union_field_keeps keepg_Some) simp_all
  show ?thesis
    unfolding decode_field_def
  proof (rule keepg_bind_other, rule keepg_bind [OF ent], goal_cases)
    case (1 f y)
    then show ?case by (cases y) (simp add: tail keepg_Some)
  qed
qed

lemma default_extension_decoder_keeps:
  assumes "sound dec" "callbacks_settle e" "settled s t"
  shows "keeps s (default_extension_decoder n e dec t m ext tg wt)"
  unfolding default_extension_decoder_def keeps_keepg
proof (intro keepg_bind_other keepg_if keepg_Some, goal_cases)
  case 1
  then show ?case using assms(3) by simp
next
  case (2 ty f it m' y)
  then show ?case
    using keepgD [OF decode_field_keeps [OF assms] 2(6)] by (cases y) (simp add: keepg_Some)
qed

lemma load_ext_type_Some: "load_ext_type e m ext = Some ty \<Longrightarrow> \<exists>k. ext_type e k = Some ty"
  unfolding load_ext_type_def
  by (cases "load_ptr m (ext_type_member ext)") (auto split: ptr.splits simp del: bind_Some_iff)

lemma decode_extension_loop_keeps:
  assumes "sound dec" "callbacks_settle e"
  shows "settled s t \<Longrightarrow> keeps s (decode_extension_loop n k e dec p t m ext tg wt)"
proof (induction n arbitrary: t m ext)
  case (Suc n)
  have handler: "keeps s (case ext_decode ty of Some g \<Rightarrow> g m t ext tg wt
      | None \<Rightarrow> default_extension_decoder k e dec t m ext tg wt)" if "load_ext_type e m ext = Some ty" for ty
  proof (cases "ext_decode ty")
    case None
    then show ?thesis using default_extension_decoder_keeps [OF assms Suc.prems] by simp
  next
    case (Some g)
    from load_ext_type_Some [OF that] obtain j where "ext_type e j = Some ty" ..
    with Some assms(2) show ?thesis
      using keeps_trans [OF Suc.prems] settled_istream_ok [OF Suc.prems] by (auto simp: callbacks_settle_def)
  qed
  show ?case
    unfolding decode_extension_loop.simps
  proof (rule keeps_if, goal_cases)
    case 1
    show ?case using Suc.prems by (rule keeps_Some)
  next
    case 2
    show ?case
      by (rule keeps_bind_other, rule keeps_bind, erule handler)
         (intro keeps_if keeps_Some keeps_bind_other Suc.IH, assumption+)
  qed
qed (simp add: keeps_None)

subsection \<open>The main loop\<close>

abbreviation str_st :: "'a \<times> decode_state \<Rightarrow> pb_istream_t" where
  "str_st r \<equiv> stream (snd r)"

lemma skip_keeps:
  assumes "settled s t" "\<And>u. stream (h u) = u"
  shows "keepg str_st s (do { (ok, u) \<leftarrow> pb_skip_field t wt; Some (fl ok, h u) })"
  by (rule keepg_bind [OF keepr_skip(1) [OF assms(1), unfolded keepr_keepg]])
     (auto simp: assms(2) intro!: keepg_prod keepg_Some)

lemma decode_extension_keeps:
  assumes "sound dec" "callbacks_settle e" "settled s t"
  shows "keepg str3 s (decode_extension n e dec t m tg wt it)"
  unfolding decode_extension_def
  by (rule keepg_bind_other) (rule decode_extension_loop_keeps [OF assms, unfolded keeps_keepg])

lemma decode_unknown_keeps:
  assumes dec: "sound dec" "callbacks_settle e" and st: "settled s (stream st)"
  shows "keepg str_st s (decode_unknown n e dec st t wt)"
  unfolding decode_unknown_def
proof (rule keepg_Let, rule keepg_if, rule keepg_bind_other, goal_cases)
  case (1 y)
  obtain found it where y: "y = (found, it)" by (cases y)
  show ?case
    unfolding y prod.case
  proof (rule keepg_bind_other, intro keepg_Let keepg_if, goal_cases)
    case (1 f)
    have "settled s (stream (st\<lparr>iter := it, extension_range_start := if found then tag f else - 1\<rparr>))"
      using st by simp
    from decode_extension_keeps [OF dec this] show ?case
    proof (rule keepg_bind, goal_cases)
      case (1 z)
      then show ?case
        by (cases z) (auto simp: with_sm_def Let_def intro!: keepg_Some skip_keeps)
    qed
  next
    case (2 f)
    show ?case using st by (intro skip_keeps) simp_all
  qed
next
  case 2
  show ?case using st by (intro skip_keeps) simp_all
qed

lemma enter_fixed_count_keeps:
  "settled s (stream st) \<Longrightarrow> keepg str_st s (enter_fixed_count st fcs f)"
  unfolding enter_fixed_count_def
proof (intro keepg_if keepg_Some, goal_cases)
  case 1
  have "keepg str_st s (if c then do { complete \<leftarrow> fixed_count_complete st fcs;
             if \<not> complete then Some (False, st\<lparr>stream := iset_error (stream st) msg\<rparr>)
             else do { m \<leftarrow> store_u32 (memory st) fcs 0;
               Some (True, st\<lparr>memory := m, fixed_count_field := Some (pos (iter st))\<rparr>) } }
           else Some (True, st))" for c msg
    using 1 by (intro keepg_if keepg_bind_other keepg_Some) simp_all
  then show ?case
    by (rule keepg_bind) (auto intro!: keepg_prod keepg_Some)
qed simp

lemma decode_one_keeps:
  assumes dec: "sound dec" "callbacks_settle e" and st: "settled s (stream st)"
  shows "keepg str_st s (decode_one n e dec fcs st)"
  unfolding decode_one_def
proof (rule keepg_bind_other, goal_cases)
  case (1 y)
  obtain r eof u where y: "y = (r, eof, u)" by (cases y)
  have su: "settled s u"
    using settled_trans [OF st pb_decode_tag_settled [OF settled_istream_ok [OF st] 1 [unfolded y]]] .
  have mark: "stream (mark_seen st1 f) = stream st1" for st1 f
    by (simp add: mark_seen_def Let_def)
  show ?case
    unfolding y prod.case
  proof (rule keepg_Let, rule keepg_option, goal_cases)
    case 1
    show ?case using su by (simp add: keepg_Some)
  next
    case (2 v)
    obtain wt t where v: "v = (wt, t)" by (cases v)
    show ?case
      unfolding v prod.case
    proof (rule keepg_bind_other, goal_cases)
      case (1 z)
      obtain found it where z: "z = (found, it)" by (cases z)
      show ?case
        unfolding z prod.case
      proof (rule keepg_Let, rule keepg_if, goal_cases)
        case 1
        show ?case using su by (intro decode_unknown_keeps [OF dec]) simp
      next
        case 2
        have su': "settled s (stream (st\<lparr>stream := u, iter := it\<rparr>))" using su by simp
        show ?case
        proof (rule keepg_bind_other, rule keepg_bind [OF enter_fixed_count_keeps [OF su']], goal_cases)
          case (1 f w)
          obtain ok st2 where w: "w = (ok, st2)" by (cases w)
          with 1 have "settled s (stream (mark_seen st2 f))" by (simp add: mark)
          from decode_field_keeps [OF dec this] 1 w show ?case
            by (auto simp: Let_def with_sm_def intro!: keepg_Some keepg_bind [where q = str4] split: prod.splits)
        qed
      qed
    qed
  qed
qed

lemma decode_loop_keeps:
  assumes "sound dec" "callbacks_settle e"
  shows "settled s (stream st) \<Longrightarrow> keepg str_st s (decode_loop n k e dec fcs st)"
proof (induction n arbitrary: st)
  case (Suc n)
  show ?case
    unfolding decode_loop.simps
  proof (rule keepg_if)
    show "keepg str_st s (Some (True, st))" using Suc.prems by (simp add: keepg_Some)
    show "keepg str_st s (do { (fl, st) \<leftarrow> decode_one k e dec fcs st;
        case fl of Next \<Rightarrow> decode_loop n k e dec fcs st | Break \<Rightarrow> Some (True, st) | Return_false \<Rightarrow> Some (False, st) })"
      by (rule keepg_bind [OF decode_one_keeps [OF assms Suc.prems]])
         (auto intro!: keepg_Some Suc.IH split: flow.split prod.splits)
  qed
qed (simp add: keepg_None)

lemma decode_checks_keeps: "settled s (stream st) \<Longrightarrow> keepg str_st s (decode_checks st fcs)"
  unfolding decode_checks_def by (intro keepg_bind_other keepg_if keepg_Some) simp_all

lemma noinit_body_sound:
  assumes "sound dec" "callbacks_settle e"
  shows "sound (noinit_body n e dec)"
  unfolding sound_def
proof (intro allI impI)
  fix s m flds dest
  assume ok: "istream_ok s"
  show "keeps s (noinit_body n e dec s m flds dest)"
    unfolding noinit_body_def keeps_keepg new_block_def Let_def prod.case
  proof (rule keepg_bind_other, rule keepg_bind_other, goal_cases)
    case (1 m1 y)
    obtain ne it where y: "y = (ne, it)" by (cases y)
    show ?case
      unfolding y prod.case
    proof (rule keepg_bind [OF decode_loop_keeps [OF assms]], goal_cases)
      case 1
      show ?case using ok by simp
    next
      case (2 z)
      then show ?case
        by (cases z) (auto intro!: keepg_bind [OF decode_checks_keeps] keepg_prod keepg_Some)
    qed
  qed
qed

lemma pb_decode_noinit_sound: "callbacks_settle e \<Longrightarrow> sound (pb_decode_noinit n e)"
proof (induction n)
  case 0
  then show ?case by (simp add: sound_def keeps_None)
next
  case (Suc n)
  then have "sound (noinit_body n e (pb_decode_noinit n e))" by (intro noinit_body_sound) simp_all
  then show ?case by (simp add: sound_def)
qed

lemma pb_decode_keeps: "callbacks_settle e \<Longrightarrow> settled s t \<Longrightarrow> keeps s (pb_decode n e t m flds dest)"
  unfolding pb_decode_def using pb_decode_noinit_sound by (intro decode_with_keeps)

lemma callbacks_settle_no_env: "callbacks_settle no_env"
  by (simp add: callbacks_settle_def no_env_def)

end
