(* ===== verification/Pb_Decode_Static.thy ===== *)
theory Pb_Decode_Static
  imports Pb_Decode_Stream Cct
begin

text \<open>
  The message decoder returns: for messages whose fields are stored in the structure itself, required or optional, nested to any depth,
  every input is decoded, or rejected, within a fuel that depends on the length of the input and on the nesting alone, and without an
  access outside of the structure.
\<close>

subsection \<open>Room in memory\<close>

definition room :: "mem \<Rightarrow> ptr \<Rightarrow> nat \<Rightarrow> bool" where
  "room m p n \<longleftrightarrow> load_cells m p n \<noteq> None"

definition grows :: "mem \<Rightarrow> mem \<Rightarrow> bool" where
  "grows m m' \<longleftrightarrow> (\<forall>p n. room m p n \<longrightarrow> room m' p n)"

lemma grows_refl [simp]: "grows m m"
  by (simp add: grows_def)

lemma grows_trans: "grows a b \<Longrightarrow> grows b c \<Longrightarrow> grows a c"
  by (simp add: grows_def)

lemma growsD: "grows m m' \<Longrightarrow> room m p n \<Longrightarrow> room m' p n"
  by (simp add: grows_def)

lemma room_Ptr: "room m (Ptr b i) n \<longleftrightarrow> (\<exists>k. live_block m b = Some k \<and> in_block i n (length (cells k)))"
  by (auto simp: room_def load_cells_def bind_None_iff split: option.splits)

lemma room_is_Ptr: "room m p n \<Longrightarrow> \<exists>b i. p = Ptr b i"
  by (cases p) (simp_all add: room_def load_cells_def)

lemma room_part: "room m p n \<Longrightarrow> 0 \<le> j \<Longrightarrow> nat j + k \<le> n \<Longrightarrow> room m (padd p j) k"
  using room_is_Ptr [of m p n] by (auto simp: room_Ptr in_block_def nat_add_distrib)

lemma room_less: "room m p n \<Longrightarrow> k \<le> n \<Longrightarrow> room m p k"
  using room_part [of m p n 0 k] by simp

lemma store_bytes_room: "room m p (length bs) \<Longrightarrow> \<exists>m'. store_bytes m p bs = Some m' \<and> grows m m'"
  unfolding store_bytes_def room_def grows_def
  using store_total [of m p "length bs" _ "map Byte bs"] store_keeps_extent [of m p "map Byte bs"] by (metis length_map not_Some_eq)

lemma store_word_room:
  "room m p 1 \<Longrightarrow> \<exists>m'. store_u8 m p b = Some m' \<and> grows m m'"
  "room m p 2 \<Longrightarrow> \<exists>m'. store_u16 m p h = Some m' \<and> grows m m'"
  "room m p 4 \<Longrightarrow> \<exists>m'. store_u32 m p w = Some m' \<and> grows m m'"
  "room m p 8 \<Longrightarrow> \<exists>m'. store_u64 m p d = Some m' \<and> grows m m'"
  using store_bytes_room [of m p "bytes_of 1 b"] store_bytes_room [of m p "bytes_of 2 h"]
    store_bytes_room [of m p "bytes_of 4 w"] store_bytes_room [of m p "bytes_of 8 d"]
  by (simp_all add: store_u8_def store_u16_def store_u32_def store_u64_def)

subsection \<open>Runs that end\<close>

text \<open>\<open>runs m x\<close>: the run \<open>x\<close> of a decoder returns, and every place that could be accessed in \<open>m\<close> still can.\<close>

definition runs :: "mem \<Rightarrow> dec_result \<Rightarrow> bool" where
  "runs m x \<longleftrightarrow> (\<exists>ok s m'. x = Some (ok, s, m') \<and> grows m m')"

lemma runs_Some: "grows m m' \<Longrightarrow> runs m (Some (ok, s, m'))"
  by (simp add: runs_def)

lemma runs_fail: "grows m m' \<Longrightarrow> runs m (fail_with s m' msg)"
  by (auto simp: runs_def fail_with_def)

lemma runs_store:
  "\<exists>m'. st = Some m' \<and> grows m m' \<Longrightarrow> (\<And>m'. grows m m' \<Longrightarrow> runs m (g m')) \<Longrightarrow> runs m (st \<bind> g)"
  by auto

lemma runs_trans: "grows m m' \<Longrightarrow> runs m' x \<Longrightarrow> runs m x"
  by (auto simp: runs_def intro: grows_trans)

lemma runs_reader:
  assumes "\<exists>r t. rd = Some (r, t) \<and> settled s t" "\<And>r t. settled s t \<Longrightarrow> rd = Some (r, t) \<Longrightarrow> runs m (g r t)"
  shows "runs m (rd \<bind> (\<lambda>(r, t). g r t))"
  using assms by auto

lemma runs_option:
  "(r = None \<Longrightarrow> runs m x) \<Longrightarrow> (\<And>v. r = Some v \<Longrightarrow> runs m (g v)) \<Longrightarrow> runs m (case r of None \<Rightarrow> x | Some v \<Rightarrow> g v)"
  by (cases r) simp_all

lemma pb_read_runs:
  assumes "istream_ok s" "room m p (unat n)"
  shows "runs m (pb_read s m p n)"
proof (cases "n = 0")
  case True
  then show ?thesis by (simp add: pb_read_def runs_Some)
next
  case False
  have p: "p \<noteq> NULL" using room_is_Ptr [OF assms(2)] by auto
  have "reads is_ok (pb_read_buf s n) s" using assms(1) False by (rule pb_read_buf_reads)
  then obtain r t where rt: "pb_read_buf s n = Some (r, t)" by (auto simp: reads_def)
  have len: "length bs = unat n" if "r = Some bs" for bs
    using rt assms(1) that pb_read_buf_ok [of s n] pb_read_buf_short [of s n]
    by (cases "n \<le> bytes_left s") (auto simp: istream_ok_def word_le_nat_alt not_le)
  show ?thesis
  proof (cases r)
    case None
    then show ?thesis using False p rt by (simp add: pb_read_def runs_Some)
  next
    case (Some bs)
    then obtain m' where "store_bytes m p bs = Some m'" "grows m m'" using store_bytes_room [of m p bs] len assms(2) by auto
    then show ?thesis using Some False p rt by (simp add: pb_read_def runs_Some)
  qed
qed

subsection \<open>Field decoders\<close>

text \<open>A scalar that the decoder of its type stores inside of its \<^verbatim>\<open>data_size\<close> bytes, and a default value that is large enough.\<close>

definition scalar_type :: "pb_field_t \<Rightarrow> bool" where
  "scalar_type f \<longleftrightarrow>
     (let t = PB_LTYPE (ftype f) in
      t = PB_LTYPE_BOOL \<and> 1 \<le> data_size f \<or> t = PB_LTYPE_VARINT \<or> t = PB_LTYPE_UVARINT \<or> t = PB_LTYPE_SVARINT \<or>
      t = PB_LTYPE_FIXED32 \<and> 4 \<le> data_size f \<or> t = PB_LTYPE_FIXED64 \<and> 8 \<le> data_size f \<or>
      t = PB_LTYPE_BYTES \<or> t = PB_LTYPE_STRING \<or> t = PB_LTYPE_FIXED_LENGTH_BYTES)"

lemma check_clamped_runs:
  assumes "\<exists>r. st = Some r \<and> (\<forall>v m'. r = Some (v, m') \<longrightarrow> grows m m')"
  shows "runs m (check_clamped s m v st)"
  using assms by (auto simp: check_clamped_def intro!: runs_Some runs_fail split: option.splits)

lemma store_clamped_room:
  assumes "room m p (unat sz)"
  shows "\<exists>r. store_signed m sz p v = Some r \<and> (\<forall>v m'. r = Some (v, m') \<longrightarrow> grows m m')"
    "\<exists>r. store_unsigned m sz p v = Some r \<and> (\<forall>v m'. r = Some (v, m') \<longrightarrow> grows m m')"
  using assms store_word_room(1) [of m p "ucast v"] store_word_room(2) [of m p "ucast v"]
    store_word_room(3) [of m p "ucast v"] store_word_room(4) [of m p v]
  unfolding store_signed_def store_unsigned_def
  by (cases "sz = 8"; cases "sz = 4"; cases "sz = 2"; cases "sz = 1"; force)+

lemma pb_dec_varints_runs:
  assumes "istream_ok s" "room m p (unat (data_size f))"
  shows "runs m (pb_dec_varint s m f p)" "runs m (pb_dec_uvarint s m f p)" "runs m (pb_dec_svarint s m f p)"
  unfolding pb_dec_varint_def pb_dec_uvarint_def pb_dec_svarint_def Let_def
  by (intro runs_reader [OF rd_varint.rd_total [OF assms(1)]]
      runs_reader [OF rd_svarint.rd_total [OF assms(1)]]
      runs_option runs_Some check_clamped_runs store_clamped_room assms grows_refl)+

lemma pb_dec_words_runs:
  assumes "istream_ok s"
  shows "room m p 1 \<Longrightarrow> runs m (pb_dec_bool s m f p)" "room m p 4 \<Longrightarrow> runs m (pb_dec_fixed32 s m f p)"
    "room m p 8 \<Longrightarrow> runs m (pb_dec_fixed64 s m f p)"
  unfolding pb_dec_bool_def pb_dec_fixed32_def pb_dec_fixed64_def
  by (intro runs_reader [OF rd_varint32.rd_total [OF assms]]
      runs_reader [OF rd_fixed32.rd_total [OF assms]]
      runs_reader [OF rd_fixed64.rd_total [OF assms]]
      runs_option runs_Some runs_store store_word_room grows_refl | assumption)+

lemma pb_dec_fixed_length_bytes_runs:
  assumes "istream_ok s" "room m p (unat (data_size f))"
  shows "runs m (pb_dec_fixed_length_bytes s m f p)"
  unfolding pb_dec_fixed_length_bytes_def
proof (intro runs_reader [OF rd_varint32.rd_total [OF assms(1)]] runs_option, goal_cases)
  case (2 r t sz)
  have "istream_ok t" using 2(1) by (rule settled_istream_ok)
  moreover have "\<exists>m'. memset_0 m p (unat (data_size f)) = Some m' \<and> grows m m'"
    using store_bytes_room [of m p "replicate (unat (data_size f)) 0"] assms(2) by (simp add: memset_0_def)
  ultimately show ?case using assms(2) by (auto intro!: runs_fail runs_store runs_Some pb_read_runs)
qed (simp add: runs_Some)

lemma pb_dec_string_runs:
  assumes "istream_ok s" "PB_ATYPE (ftype f) = PB_ATYPE_STATIC" "room m p (unat (data_size f))"
  shows "runs m (pb_dec_string s m f p)"
  unfolding pb_dec_string_def
proof (intro runs_reader [OF rd_varint32.rd_total [OF assms(1)]] runs_option, goal_cases)
  case (2 r t sz)
  have t: "istream_ok t" using 2(1) by (rule settled_istream_ok)
  have a: "PB_ATYPE (ftype f) \<noteq> PB_ATYPE_POINTER" using assms(2) by (simp add: pb_atype_defs)
  show ?case
  proof (cases "(ucast (sz + 1) :: size_t) < ucast sz \<or> ucast (sz + 1) > (ucast (data_size f) :: size_t)")
    case True
    then show ?thesis using a by (auto simp: Let_def fail_with_def runs_Some)
  next
    case False
    then have "\<not> unat (sz + 1) < unat sz" "unat (sz + 1) \<le> unat (data_size f)"
      by (simp_all add: word_less_nat_alt not_less)
    then have le: "unat sz + 1 \<le> unat (data_size f)"
      using unat_less_2p [of sz] by (cases "unat sz = 4294967295") (simp_all add: unat_word_ariths)
    then have "runs m (pb_read t m p (ucast sz))" using t assms(3) by (intro pb_read_runs) (auto intro: room_less)
    then obtain ok u m' where r: "pb_read t m p (ucast sz) = Some (ok, u, m')" "grows m m'" by (auto simp: runs_def)
    have "room m' (padd p (uint sz)) 1" using growsD [OF r(2) room_part [OF assms(3)]] le by simp
    from store_word_room(1) [OF this] r a False show ?thesis by (auto simp: Let_def runs_def intro: grows_trans)
  qed
qed (simp add: runs_Some)

lemma pb_dec_bytes_runs:
  assumes "istream_ok s" "PB_ATYPE (ftype f) = PB_ATYPE_STATIC" "room m p (unat (data_size f))"
  shows "runs m (pb_dec_bytes s m f p)"
  unfolding pb_dec_bytes_def
proof (intro runs_reader [OF rd_varint32.rd_total [OF assms(1)]] runs_option, goal_cases)
  case (2 r t sz)
  have t: "istream_ok t" using 2(1) by (rule settled_istream_ok)
  have a: "PB_ATYPE (ftype f) \<noteq> PB_ATYPE_POINTER" using assms(2) by (simp add: pb_atype_defs)
  let ?n = "PB_BYTES_ARRAY_T_ALLOCSIZE (ucast sz)"
  have n: "unat ?n = unat sz + 4"
    using unat_less_2p [of sz] by (simp add: PB_BYTES_ARRAY_T_ALLOCSIZE_def unat_word_ariths)
  show ?case
  proof (cases "sz > PB_SIZE_MAX \<or> ucast sz > ?n \<or> ?n > ucast (data_size f)")
    case True
    then show ?thesis using a by (auto simp: Let_def fail_with_def runs_Some)
  next
    case False
    then have le: "unat sz + 4 \<le> unat (data_size f)" using n by (simp add: word_less_nat_alt not_less)
    have "room m (bytes_size_member p) 4" using assms(3) le by (auto simp: bytes_size_member_def intro: room_less)
    then obtain m' where m': "store_u32 m (bytes_size_member p) sz = Some m'" "grows m m'" using store_word_room(3) by blast
    have "room m' (bytes_bytes_member p) (unat (ucast sz :: size_t))"
      using growsD [OF m'(2) room_part [OF assms(3)]] le by (simp add: bytes_bytes_member_def)
    from runs_trans [OF m'(2) pb_read_runs [OF t this]] show ?thesis using False a m'(1) by (simp add: Let_def)
  qed
qed (simp add: runs_Some)

lemma scalar_runs:
  assumes "istream_ok s" "PB_ATYPE (ftype f) = PB_ATYPE_STATIC" "scalar_type f" "room m p (unat (data_size f))"
  shows "\<exists>func. nth_opt (PB_DECODERS n e dec) (unat (PB_LTYPE (ftype f))) = Some func \<and> runs m (call_decoder func s m f p)"
proof -
  have le: "unat k \<le> unat (data_size f)" if "k \<le> data_size f" for k using that by (simp add: word_le_nat_alt)
  have "room m p 1" if "1 \<le> data_size f" using room_less [OF assms(4)] le [OF that] by simp
  moreover have "room m p 4" if "4 \<le> data_size f" using room_less [OF assms(4)] le [OF that] by simp
  moreover have "room m p 8" if "8 \<le> data_size f" using room_less [OF assms(4)] le [OF that] by simp
  ultimately show ?thesis
    using assms(3) pb_dec_words_runs [OF assms(1), of m p f] pb_dec_varints_runs [OF assms(1,4)]
      pb_dec_string_runs [OF assms(1,2,4)] pb_dec_bytes_runs [OF assms(1,2,4)] pb_dec_fixed_length_bytes_runs [OF assms(1,4)]
    unfolding scalar_type_def Let_def
    by (elim disjE conjE) (simp_all add: pb_ltype_defs PB_DECODERS_def nth_opt_def call_decoder_def)
qed

subsection \<open>Static messages\<close>

text \<open>
  \<open>static_message d m flds p\<close>: the fields of the message at \<open>p\<close> are static and required or optional, have room in \<open>m\<close>, and nest to a
  depth of less than \<open>d\<close>.
\<close>

definition static_field :: "(pb_field_t list \<Rightarrow> ptr \<Rightarrow> bool) \<Rightarrow> mem \<Rightarrow> pb_field_iter_t \<Rightarrow> bool" where
  "static_field sub m it \<longleftrightarrow>
     (case field_at it of
        None \<Rightarrow> False
      | Some f \<Rightarrow>
          PB_ATYPE (ftype f) = PB_ATYPE_STATIC \<and>
          (PB_HTYPE (ftype f) = PB_HTYPE_REQUIRED \<or>
           PB_HTYPE (ftype f) = PB_HTYPE_OPTIONAL \<and> (pSize it \<noteq> pData it \<longrightarrow> room m (pSize it) 1)) \<and>
          (if PB_LTYPE (ftype f) = PB_LTYPE_SUBMESSAGE
           then (case fptr f of Ptr_fields fs \<Rightarrow> sub fs (pData it) | _ \<Rightarrow> False)
           else scalar_type f \<and> room m (pData it) (unat (data_size f)) \<and>
             (case fptr f of Ptr_null \<Rightarrow> True | Ptr_default bs \<Rightarrow> unat (data_size f) \<le> length bs | Ptr_fields fs \<Rightarrow> False)))"

primrec static_message :: "nat \<Rightarrow> mem \<Rightarrow> pb_field_t list \<Rightarrow> ptr \<Rightarrow> bool" where
  "static_message 0 m flds p = False"
| "static_message (Suc d) m flds p \<longleftrightarrow>
     terminated flds \<and> live_fields flds \<noteq> [] \<and> list_all (static_field (static_message d m) m) (walk flds p)"

lemma static_field_grows:
  "(\<And>fs q. sub fs q \<Longrightarrow> sub' fs q) \<Longrightarrow> grows m m' \<Longrightarrow> static_field sub m it \<Longrightarrow> static_field sub' m' it"
  by (auto simp: static_field_def grows_def split: option.splits field_ptr.splits if_splits)

lemma static_message_grows: "grows m m' \<Longrightarrow> static_message d m flds p \<Longrightarrow> static_message d m' flds p"
proof (induction d arbitrary: flds p)
  case (Suc d)
  then show ?case using static_field_grows [of "static_message d m" "static_message d m'" m m']
    by (auto simp: list_all_iff)
qed simp

text \<open>What a static field is, for the proofs.\<close>

lemma static_fieldE:
  assumes "static_field sub m it"
  obtains f where "field_at it = Some f" "PB_ATYPE (ftype f) = PB_ATYPE_STATIC" "PB_LTYPE (ftype f) \<noteq> PB_LTYPE_EXTENSION"
    "PB_HTYPE (ftype f) = PB_HTYPE_REQUIRED \<or>
      PB_HTYPE (ftype f) = PB_HTYPE_OPTIONAL \<and> (pSize it \<noteq> pData it \<longrightarrow> room m (pSize it) 1)"
    "(\<exists>fs. PB_LTYPE (ftype f) = PB_LTYPE_SUBMESSAGE \<and> fptr f = Ptr_fields fs \<and> sub fs (pData it)) \<or>
     PB_LTYPE (ftype f) \<noteq> PB_LTYPE_SUBMESSAGE \<and> scalar_type f \<and> room m (pData it) (unat (data_size f)) \<and>
       (fptr f = Ptr_null \<or> (\<exists>bs. fptr f = Ptr_default bs \<and> unat (data_size f) \<le> length bs))"
proof -
  obtain f where f: "field_at it = Some f" using assms by (auto simp: static_field_def split: option.splits)
  have "PB_LTYPE (ftype f) \<noteq> PB_LTYPE_EXTENSION"
    using assms f by (auto simp: static_field_def scalar_type_def Let_def pb_ltype_defs split: if_splits)
  then show ?thesis
    using assms f by (intro that) (auto simp: static_field_def split: if_splits field_ptr.splits)
qed

subsection \<open>Loops over the fields\<close>

lemma each_grows:
  assumes "\<And>it m'. it \<in> set xs \<Longrightarrow> grows m m' \<Longrightarrow> \<exists>m''. body it m' = Some m'' \<and> grows m' m''"
  shows "\<exists>m'. each (\<lambda>it m. map_option (Pair True) (body it m)) xs m = Some (True, m') \<and> grows m m'"
  using assms
proof (induction xs arbitrary: m)
  case (Cons x xs)
  obtain m1 where m1: "body x m = Some m1" "grows m m1" using Cons.prems [of x m] by auto
  obtain m2 where "each (\<lambda>it m. map_option (Pair True) (body it m)) xs m1 = Some (True, m2)" "grows m1 m2"
    using Cons.IH [of m1] Cons.prems grows_trans [OF m1(2)] by (metis list.set_intros(2))
  then show ?case using m1 by (auto intro: grows_trans)
qed simp

lemma mem_fields_grows:
  assumes "terminated flds"
    and "\<And>it m'. it \<in> set (walk flds p) \<Longrightarrow> grows m m' \<Longrightarrow> \<exists>m''. body it m' = Some m'' \<and> grows m' m''"
  shows "\<exists>m'. mem_fields flds p body m = Some m' \<and> grows m m'"
  using each_grows [of "walk flds p" m body] assms by (auto simp: mem_fields_def for_fields_walk)

lemma defaults_grow:
  "static_message d m flds p \<Longrightarrow> d \<le> n \<Longrightarrow> \<exists>m'. mem_fields flds p (pb_field_set_to_default n e) m = Some m' \<and> grows m m'"
proof (induction d arbitrary: n m flds p)
  case (Suc d)
  obtain n' where n': "n = Suc n'" "d \<le> n'" using Suc.prems(2) by (cases n) simp_all
  show ?case
  proof (rule mem_fields_grows)
    fix it m' assume it: "it \<in> set (walk flds p)" "grows m m'"
    then have "static_field (static_message d m') m' it"
      using static_message_grows [OF it(2) Suc.prems(1)] by (simp add: list_all_iff)
    then obtain f where f: "field_at it = Some f" "PB_ATYPE (ftype f) = PB_ATYPE_STATIC" "PB_LTYPE (ftype f) \<noteq> PB_LTYPE_EXTENSION"
      "PB_HTYPE (ftype f) = PB_HTYPE_REQUIRED \<or> PB_HTYPE (ftype f) = PB_HTYPE_OPTIONAL \<and> (pSize it \<noteq> pData it \<longrightarrow> room m' (pSize it) 1)"
      "(\<exists>fs. PB_LTYPE (ftype f) = PB_LTYPE_SUBMESSAGE \<and> fptr f = Ptr_fields fs \<and> static_message d m' fs (pData it)) \<or>
       PB_LTYPE (ftype f) \<noteq> PB_LTYPE_SUBMESSAGE \<and> scalar_type f \<and> room m' (pData it) (unat (data_size f)) \<and>
       (fptr f = Ptr_null \<or> (\<exists>bs. fptr f = Ptr_default bs \<and> unat (data_size f) \<le> length bs))"
      by (rule static_fieldE)
    have dd: "\<exists>m2. default_data (pb_field_set_to_default n' e) f (pData it) m1 = Some m2 \<and> grows m1 m2" if "grows m' m1" for m1
      using f(5)
    proof (elim disjE exE conjE)
      fix fs assume "PB_LTYPE (ftype f) = PB_LTYPE_SUBMESSAGE" "fptr f = Ptr_fields fs" "static_message d m' fs (pData it)"
      then show ?thesis using Suc.IH [OF static_message_grows [OF that] n'(2)] by (simp add: default_data_def sub_fields_def)
    next
      assume "PB_LTYPE (ftype f) \<noteq> PB_LTYPE_SUBMESSAGE" "room m' (pData it) (unat (data_size f))" "fptr f = Ptr_null"
      then show ?thesis using store_bytes_room [of m1 "pData it" "replicate (unat (data_size f)) 0"] growsD [OF that]
        by (simp add: default_data_def memset_0_def)
    next
      fix bs assume "PB_LTYPE (ftype f) \<noteq> PB_LTYPE_SUBMESSAGE" "room m' (pData it) (unat (data_size f))" "fptr f = Ptr_default bs"
        "unat (data_size f) \<le> length bs"
      then show ?thesis using store_bytes_room [of m1 "pData it" "take (unat (data_size f)) bs"] growsD [OF that]
        by (simp add: default_data_def memcpy_def)
    qed
    from f(4) show "\<exists>m''. pb_field_set_to_default n e it m' = Some m'' \<and> grows m' m''"
    proof
      assume "PB_HTYPE (ftype f) = PB_HTYPE_REQUIRED"
      then show ?thesis using f(1-3) dd [OF grows_refl] by (simp add: n'(1) pb_htype_defs)
    next
      assume o: "PB_HTYPE (ftype f) = PB_HTYPE_OPTIONAL \<and> (pSize it \<noteq> pData it \<longrightarrow> room m' (pSize it) 1)"
      show ?thesis
      proof (cases "pSize it = pData it")
        case True
        then show ?thesis using o f(1-3) dd [OF grows_refl] by (simp add: n'(1) pb_htype_defs)
      next
        case False
        then obtain m1 where m1: "store_u8 m' (pSize it) 0 = Some m1" "grows m' m1" using store_word_room(1) o by blast
        obtain m2 where "default_data (pb_field_set_to_default n' e) f (pData it) m1 = Some m2" "grows m1 m2" using dd [OF m1(2)] by blast
        then show ?thesis using m1 o f(1-3) False grows_trans [OF m1(2)] by (simp add: n'(1) pb_htype_defs)
      qed
    qed
  qed (use Suc.prems in simp)
qed simp

lemma release_grow:
  "static_message d m flds p \<Longrightarrow> d \<le> n \<Longrightarrow> \<exists>m'. mem_fields flds p (pb_release_single_field n e) m = Some m' \<and> grows m m'"
proof (induction d arbitrary: n m flds p)
  case (Suc d)
  obtain n' where n': "n = Suc n'" "d \<le> n'" using Suc.prems(2) by (cases n) simp_all
  show ?case
  proof (rule mem_fields_grows)
    fix it m' assume it: "it \<in> set (walk flds p)" "grows m m'"
    then have "static_field (static_message d m') m' it"
      using static_message_grows [OF it(2) Suc.prems(1)] by (simp add: list_all_iff)
    then obtain f where f: "field_at it = Some f" "PB_ATYPE (ftype f) = PB_ATYPE_STATIC" "PB_LTYPE (ftype f) \<noteq> PB_LTYPE_EXTENSION"
      "PB_HTYPE (ftype f) = PB_HTYPE_REQUIRED \<or> PB_HTYPE (ftype f) = PB_HTYPE_OPTIONAL \<and> (pSize it \<noteq> pData it \<longrightarrow> room m' (pSize it) 1)"
      "(\<exists>fs. PB_LTYPE (ftype f) = PB_LTYPE_SUBMESSAGE \<and> fptr f = Ptr_fields fs \<and> static_message d m' fs (pData it)) \<or>
       PB_LTYPE (ftype f) \<noteq> PB_LTYPE_SUBMESSAGE \<and> scalar_type f \<and> room m' (pData it) (unat (data_size f)) \<and>
       (fptr f = Ptr_null \<or> (\<exists>bs. fptr f = Ptr_default bs \<and> unat (data_size f) \<le> length bs))"
      by (rule static_fieldE)
    have h: "PB_HTYPE (ftype f) \<noteq> PB_HTYPE_ONEOF" "PB_HTYPE (ftype f) \<noteq> PB_HTYPE_REPEATED" "PB_ATYPE_STATIC \<noteq> PB_ATYPE_POINTER"
      "PB_ATYPE_STATIC \<noteq> PB_ATYPE_CALLBACK"
      using f(4) by (auto simp: pb_htype_defs pb_atype_defs)
    from f(5) show "\<exists>m''. pb_release_single_field n e it m' = Some m'' \<and> grows m' m''"
    proof (elim disjE exE conjE)
      fix fs assume s: "PB_LTYPE (ftype f) = PB_LTYPE_SUBMESSAGE" "fptr f = Ptr_fields fs" "static_message d m' fs (pData it)"
      obtain m'' where "mem_fields fs (pData it) (pb_release_single_field n' e) m' = Some m''" "grows m' m''"
        using Suc.IH [OF s(3) n'(2)] by blast
      then show ?thesis
        using f(1-3) h s(1,2)
        by (simp add: n'(1) release_count_def release_message_def sub_fields_def release_pointer_def Let_def)
    qed (use f(1-3) h in \<open>simp_all add: n'(1) release_pointer_def Let_def\<close>)
  qed (use Suc.prems in simp)
qed simp

subsection \<open>Submessages\<close>

lemma make_substream_total: "istream_ok s \<Longrightarrow> \<exists>r t. pb_make_string_substream s = Some (r, t)"
proof -
  assume "istream_ok s"
  then obtain r t where "pb_decode_varint32 s = Some (r, t)" using rd_varint32.rd_total by blast
  then show ?thesis by (cases r) (simp_all add: pb_make_string_substream_def)
qed

lemma close_substream_total: "istream_ok sub \<Longrightarrow> \<exists>ok t. pb_close_string_substream s sub = Some (ok, t)"
  using pb_read_null_ok [of sub "bytes_left sub"] by (auto simp: pb_close_string_substream_def)

text \<open>\<open>decodes N dec\<close>: \<open>dec\<close> ends on static messages, whenever fewer than \<open>N\<close> bytes are left.\<close>

definition decodes :: "nat \<Rightarrow> message_decoder \<Rightarrow> bool" where
  "decodes N dec \<longleftrightarrow> (\<forall>d s m flds p. istream_ok s \<longrightarrow> unat (bytes_left s) < N \<longrightarrow> static_message d m flds p \<longrightarrow> runs m (dec s m flds p))"

lemma pb_dec_submessage_runs:
  assumes dec: "sound dec" "decodes N dec" and s: "istream_ok s" "unat (bytes_left s) < N"
    and f: "PB_HTYPE (ftype f) \<noteq> PB_HTYPE_REPEATED" "fptr f = Ptr_fields fs" "static_message d m fs p"
  shows "runs m (pb_dec_submessage n e dec s m f p)"
proof -
  obtain r t where mk: "pb_make_string_substream s = Some (r, t)" using make_substream_total [OF s(1)] by blast
  show ?thesis
  proof (cases r)
    case None
    then show ?thesis using mk by (simp add: pb_dec_submessage_def runs_Some)
  next
    case (Some sub)
    have op: "opened s t sub" using make_substream_opened(2) [OF s(1) mk Some] .
    then have sub: "istream_ok sub" "unat (bytes_left sub) < N" using s(2) by (auto simp: opened_def)
    then obtain ok u m' where d: "dec sub m fs p = Some (ok, u, m')" "grows m m'"
      using dec(2) f(3) unfolding decodes_def runs_def by blast
    have "istream_ok u" using keepsD [OF soundD [OF dec(1) settled_self [OF sub(1)]] d(1)] by (rule settled_istream_ok)
    then obtain ok' v where "pb_close_string_substream t u = Some (ok', v)" using close_substream_total by blast
    then show ?thesis using mk Some d f(1,2) by (simp add: pb_dec_submessage_def runs_Some)
  qed
qed

lemma decode_static_field_runs:
  assumes dec: "sound dec" "decodes N dec" and s: "istream_ok s" "unat (bytes_left s) < N"
    and it: "static_field (static_message d m) m it"
  shows "runs m (decode_static_field n e dec s m wt it)"
proof -
  obtain f where f: "field_at it = Some f" "PB_ATYPE (ftype f) = PB_ATYPE_STATIC" "PB_LTYPE (ftype f) \<noteq> PB_LTYPE_EXTENSION"
    "PB_HTYPE (ftype f) = PB_HTYPE_REQUIRED \<or> PB_HTYPE (ftype f) = PB_HTYPE_OPTIONAL \<and> (pSize it \<noteq> pData it \<longrightarrow> room m (pSize it) 1)"
    "(\<exists>fs. PB_LTYPE (ftype f) = PB_LTYPE_SUBMESSAGE \<and> fptr f = Ptr_fields fs \<and> static_message d m fs (pData it)) \<or>
     PB_LTYPE (ftype f) \<noteq> PB_LTYPE_SUBMESSAGE \<and> scalar_type f \<and> room m (pData it) (unat (data_size f)) \<and>
     (fptr f = Ptr_null \<or> (\<exists>bs. fptr f = Ptr_default bs \<and> unat (data_size f) \<le> length bs))"
    using it by (rule static_fieldE)
  have h: "PB_HTYPE (ftype f) \<noteq> PB_HTYPE_REPEATED" using f(4) by (auto simp: pb_htype_defs)
  have call: "\<exists>func. nth_opt (PB_DECODERS n e dec) (unat (PB_LTYPE (ftype f))) = Some func \<and>
      (\<forall>m'. grows m m' \<longrightarrow> runs m (call_decoder func s m' f (pData it)))"
    using f(5)
  proof (elim disjE exE conjE)
    fix fs assume l: "PB_LTYPE (ftype f) = PB_LTYPE_SUBMESSAGE" "fptr f = Ptr_fields fs" "static_message d m fs (pData it)"
    have "runs m (pb_dec_submessage n e dec s m' f (pData it))" if "grows m m'" for m'
      using runs_trans [OF that pb_dec_submessage_runs [OF dec s h l(2) static_message_grows [OF that l(3)]]] .
    then show ?thesis by (simp add: l(1) pb_ltype_defs PB_DECODERS_def nth_opt_def call_decoder_def)
  next
    assume l: "scalar_type f" "room m (pData it) (unat (data_size f))"
    have "\<exists>func. nth_opt (PB_DECODERS n e dec) (unat (PB_LTYPE (ftype f))) = Some func \<and> runs m (call_decoder func s m' f (pData it))"
      if "grows m m'" for m'
      using scalar_runs [OF s(1) f(2) l(1) growsD [OF that l(2)], of n e dec] runs_trans [OF that] by blast
    then show ?thesis using grows_refl [of m] by (metis option.inject)
  next
    fix bs assume l: "scalar_type f" "room m (pData it) (unat (data_size f))"
    have "\<exists>func. nth_opt (PB_DECODERS n e dec) (unat (PB_LTYPE (ftype f))) = Some func \<and> runs m (call_decoder func s m' f (pData it))"
      if "grows m m'" for m'
      using scalar_runs [OF s(1) f(2) l(1) growsD [OF that l(2)], of n e dec] runs_trans [OF that] by blast
    then show ?thesis using grows_refl [of m] by (metis option.inject)
  qed
  then obtain func where func: "nth_opt (PB_DECODERS n e dec) (unat (PB_LTYPE (ftype f))) = Some func"
    "\<And>m'. grows m m' \<Longrightarrow> runs m (call_decoder func s m' f (pData it))" by blast
  have "\<exists>m'. (if pSize it \<noteq> pData it then store_u8 m (pSize it) 1 else Some m) = Some m' \<and> grows m m'"
    if "PB_HTYPE (ftype f) \<noteq> PB_HTYPE_REQUIRED"
    using store_word_room(1) [of m "pSize it" 1] f(4) that by auto
  then show ?thesis
    using f(1,4) func by (cases "PB_HTYPE (ftype f) = PB_HTYPE_REQUIRED") (auto simp: decode_static_field_def Let_def)
qed

subsection \<open>The main loop\<close>

lemma find_extension_walk:
  assumes t: "terminated flds" and ne: "\<forall>f\<in>set (live_fields flds). PB_LTYPE (ftype f) \<noteq> PB_LTYPE_EXTENSION"
    and "i < length (live_fields flds)" "(i + d) mod length (live_fields flds) = st" "0 < d" "d \<le> length (live_fields flds)" "d \<le> k"
  shows "find_extension_loop k st (walk flds base ! i) = Some (False, walk flds base ! st)"
  using assms(3-)
proof (induction d arbitrary: i k)
  case (Suc d)
  let ?n = "length (live_fields flds)" and ?w = "walk flds base"
  obtain k' where k': "k = Suc k'" "d \<le> k'" using Suc.prems(5) by (cases k) simp_all
  define i' where "i' = Suc i mod ?n"
  have i': "i' < ?n" using Suc.prems(1) by (auto simp: i'_def intro: mod_less_divisor)
  have "\<exists>more. pb_field_iter_next (?w ! i) = Some (more, ?w ! i')"
    using iter_next_walk [OF t Suc.prems(1), of base] mod_Suc_wrap [OF Suc.prems(1)] by (auto simp: i'_def)
  then obtain more where nx: "pb_field_iter_next (?w ! i) = Some (more, ?w ! i')" ..
  have pi': "pos (?w ! i') = i'" using walk_sel(2) [OF t i'] .
  have "PB_LTYPE (ftype (live_fields flds ! i)) \<noteq> PB_LTYPE_EXTENSION" using ne Suc.prems(1) by simp
  then have step: "find_extension_loop k st (?w ! i) = (if i' \<noteq> st then find_extension_loop k' st (?w ! i') else Some (False, ?w ! i'))"
    using nx pi' Suc.prems(1) by (simp add: k' field_at_walk [OF t])
  have sh: "(i' + d) mod ?n = st" using Suc.prems(2) by (simp add: i'_def mod_simps)
  show ?case
  proof (cases "i' = st")
    case False
    then have "0 < d" using sh i' by (cases d) auto
    then show ?thesis using step Suc.IH [OF i' sh _ _ k'(2)] Suc.prems(4) False by simp
  qed (use step in simp)
qed simp

lemma find_extension_field_none:
  assumes "terminated flds" "\<forall>f\<in>set (live_fields flds). PB_LTYPE (ftype f) \<noteq> PB_LTYPE_EXTENSION" "i < length (live_fields flds)"
  shows "find_extension_field (walk flds base ! i) = Some (False, walk flds base ! i)"
proof -
  have n: "(i + length (live_fields flds)) mod length (live_fields flds) = i" "0 < length (live_fields flds)" using assms(3) by auto
  show ?thesis
    unfolding find_extension_field_def walk_sel [OF assms(1,3)]
    by (rule find_extension_walk [OF assms n order_refl length_live_fields])
qed

lemma seek_end_walk:
  assumes "terminated flds" "i < length (live_fields flds)" "length (live_fields flds) - i \<le> k"
  shows "\<exists>r ty. seek_end k (walk flds base ! i) = Some (r, ty, walk flds base ! 0)"
  using assms(2,3)
proof (induction k arbitrary: i)
  case (Suc k)
  then show ?case using Suc.IH [of "Suc i"]
    by (auto simp: field_at_walk [OF assms(1)] iter_next_walk [OF assms(1)])
qed simp

lemma required_count_walk:
  assumes "terminated flds" "i < length (live_fields flds)"
  shows "\<exists>r. required_count (walk flds base ! i) = Some r"
proof -
  obtain r ty where "seek_end (length flds) (walk flds base ! i) = Some (r, ty, walk flds base ! 0)"
    using seek_end_walk [OF assms, of "length flds" base] length_live_fields [of flds] diff_le_self le_trans by metis
  moreover have "field_at (walk flds base ! 0) = Some (live_fields flds ! 0)"
    using assms(2) by (intro field_at_walk [OF assms(1)]) (rule le_less_trans [OF le0])
  ultimately show ?thesis by (simp add: required_count_def walk_sel [OF assms] Let_def)
qed

text \<open>The state of the loop for the message of depth \<open>d\<close> with the fields \<open>flds\<close> at \<open>p\<close>.\<close>

definition loop_inv :: "nat \<Rightarrow> pb_field_t list \<Rightarrow> ptr \<Rightarrow> mem \<Rightarrow> decode_state \<Rightarrow> bool" where
  "loop_inv d flds p m st \<longleftrightarrow>
     istream_ok (stream st) \<and> (\<exists>i<length (live_fields flds). iter st = walk flds p ! i) \<and>
     static_message d (memory st) flds p \<and> fixed_count_field st = None \<and> grows m (memory st)"

lemma tag_small: "pb_decode_tag s = Some (Some (wt, t), eof, s') \<Longrightarrow> t < - 1"
proof -
  assume "pb_decode_tag s = Some (Some (wt, t), eof, s')"
  then obtain w :: uint32 where "t = drop_bit 3 w" by (auto simp: pb_decode_tag_def split: option.splits if_splits)
  then have "unat t = drop_bit 3 (unat w)" by (simp only: unat_drop_bit_eq)
  then have "unat t = unat w div 8" by (simp add: drop_bit_eq_div)
  then have "unat t < 2 ^ 29" using unat_less_2p [of w] by simp
  then show ?thesis by (simp add: word_less_nat_alt unsigned_minus_1_eq_mask mask_eq_exp_minus_1)
qed

lemma static_messageD:
  assumes "static_message d m flds p"
  shows "terminated flds" "live_fields flds \<noteq> []"
    "i < length (live_fields flds) \<Longrightarrow> static_field (static_message (d - 1) m) m (walk flds p ! i)"
    "\<forall>f\<in>set (live_fields flds). PB_LTYPE (ftype f) \<noteq> PB_LTYPE_EXTENSION"
proof -
  obtain d' where d': "d = Suc d'" using assms by (cases d) simp_all
  show t: "terminated flds" and "live_fields flds \<noteq> []" using assms by (simp_all add: d')
  show s: "static_field (static_message (d - 1) m) m (walk flds p ! i)" if "i < length (live_fields flds)" for i
    using assms that t by (simp add: d' list_all_length)
  show "\<forall>f\<in>set (live_fields flds). PB_LTYPE (ftype f) \<noteq> PB_LTYPE_EXTENSION"
  proof
    fix f assume "f \<in> set (live_fields flds)"
    then obtain i where i: "i < length (live_fields flds)" "f = live_fields flds ! i" by (auto simp: in_set_conv_nth)
    from s [OF i(1)] show "PB_LTYPE (ftype f) \<noteq> PB_LTYPE_EXTENSION"
      by (rule static_fieldE) (use field_at_walk [OF t i(1), of p] i(2) in simp)
  qed
qed

lemma decode_unknown_runs:
  assumes "loop_inv d flds p m st" "t < - 1"
  shows "\<exists>fl st'. decode_unknown n e dec st t wt = Some (fl, st') \<and> loop_inv d flds p m st' \<and> settled (stream st) (stream st')"
proof -
  obtain i where i: "i < length (live_fields flds)" "iter st = walk flds p ! i" using assms(1) by (auto simp: loop_inv_def)
  have sm: "static_message d (memory st) flds p" and ok: "istream_ok (stream st)" using assms(1) by (simp_all add: loop_inv_def)
  obtain b s' where sk: "pb_skip_field (stream st) wt = Some (b, s')" "settled (stream st) s'"
    using rd_skip.rd_total [OF ok] by blast
  have inv: "loop_inv d flds p m (st\<lparr>iter := walk flds p ! i, extension_range_start := x, stream := s'\<rparr>)"
    "loop_inv d flds p m (st\<lparr>stream := s'\<rparr>)" for x
    using assms(1) i settled_istream_ok [OF sk(2)] by (auto simp: loop_inv_def)
  have f: "field_at (walk flds p ! i) = Some (live_fields flds ! i)" using field_at_walk [OF static_messageD(1) [OF sm] i(1)] .
  have fe: "find_extension_field (iter st) = Some (False, walk flds p ! i)"
    unfolding i(2) using find_extension_field_none [OF static_messageD(1,4) [OF sm] i(1)] .
  have "\<not> - 1 \<le> t" using assms(2) by simp
  then show ?thesis
    unfolding decode_unknown_def using sk inv f fe by (auto simp: Let_def)
qed

lemma decode_field_runs:
  assumes dec: "sound dec" "decodes N dec" and s: "istream_ok s" "unat (bytes_left s) < N"
    and it: "static_field (static_message d m) m it"
  shows "\<exists>ok s' m'. decode_field n e dec s m wt it = Some (ok, s', m', it) \<and> grows m m'"
proof -
  obtain f where f: "field_at it = Some f" "PB_ATYPE (ftype f) = PB_ATYPE_STATIC"
    "PB_HTYPE (ftype f) = PB_HTYPE_REQUIRED \<or> PB_HTYPE (ftype f) = PB_HTYPE_OPTIONAL \<and> (pSize it \<noteq> pData it \<longrightarrow> room m (pSize it) 1)"
    using it by (rule static_fieldE)
  have "PB_HTYPE (ftype f) \<noteq> PB_HTYPE_ONEOF" using f(3) by (auto simp: pb_htype_defs)
  then show ?thesis
    using f(1,2) decode_static_field_runs [OF assms, of n e wt] by (auto simp: decode_field_def runs_def)
qed

lemma decode_one_runs:
  assumes dec: "sound dec" "callbacks_settle e" "decodes N dec"
    and inv: "loop_inv d flds p m st" and left: "unat (bytes_left (stream st)) \<le> N" "bytes_left (stream st) \<noteq> 0"
  shows "\<exists>fl st'. decode_one n e dec fcs st = Some (fl, st') \<and> loop_inv d flds p m st' \<and>
    (fl = Next \<longrightarrow> unat (bytes_left (stream st')) < unat (bytes_left (stream st)))"
proof -
  have ok: "istream_ok (stream st)" using inv by (simp add: loop_inv_def)
  obtain r eof u where tg: "pb_decode_tag (stream st) = Some (r, eof, u)" "settled (stream st) u"
    and lt: "is_ok r \<Longrightarrow> unat (bytes_left u) < unat (bytes_left (stream st))"
    using pb_decode_tag_reads [OF ok] by (fastforce simp: reads_def unat_bytes_left_adv)
  have iu: "istream_ok u" using tg(2) by (rule settled_istream_ok)
  show ?thesis
  proof (cases r)
    case None
    then show ?thesis using tg inv iu by (auto simp: decode_one_def loop_inv_def)
  next
    case (Some v)
    obtain wt t where v: "v = (wt, t)" by (cases v)
    have u: "unat (bytes_left u) < unat (bytes_left (stream st))" using lt Some by simp
    obtain i where i: "i < length (live_fields flds)" "iter st = walk flds p ! i" using inv by (auto simp: loop_inv_def)
    have sm: "static_message d (memory st) flds p" using inv by (simp add: loop_inv_def)
    obtain j found where j: "j < length (live_fields flds)" "pb_field_iter_find (walk flds p ! i) t = Some (found, walk flds p ! j)"
      using pb_field_iter_find_walk [OF static_messageD(1) [OF sm] i(1), of p t] i(1) by (auto split: if_splits)
    let ?st = "st\<lparr>stream := u, iter := walk flds p ! j\<rparr>"
    have inv': "loop_inv d flds p m ?st" using inv iu j(1) by (auto simp: loop_inv_def)
    show ?thesis
    proof (cases found)
      case False
      obtain fl st' where k: "decode_unknown n e dec ?st t wt = Some (fl, st')" "loop_inv d flds p m st'" "settled u (stream st')"
        using decode_unknown_runs [OF inv' tag_small [OF tg(1) [unfolded Some v]], of n e dec wt] by auto
      then have "unat (bytes_left (stream st')) \<le> unat (bytes_left u)" by (simp add: settled_def)
      then show ?thesis using k u tg(1) Some v i j False by (simp add: decode_one_def Let_def)
    next
      case True
      have sf: "static_field (static_message (d - 1) (memory st)) (memory st) (walk flds p ! j)" using static_messageD(3) [OF sm j(1)] .
      then obtain f where f: "field_at (walk flds p ! j) = Some f"
        "PB_HTYPE (ftype f) = PB_HTYPE_REQUIRED \<or> PB_HTYPE (ftype f) = PB_HTYPE_OPTIONAL \<and>
          (pSize (walk flds p ! j) \<noteq> pData (walk flds p ! j) \<longrightarrow> room (memory st) (pSize (walk flds p ! j)) 1)"
        by (rule static_fieldE)
      have "PB_HTYPE (ftype f) \<noteq> PB_HTYPE_REPEATED" using f(2) by (auto simp: pb_htype_defs)
      then have ef: "enter_fixed_count ?st fcs f = Some (True, ?st)" by (simp add: enter_fixed_count_def)
      have mk: "stream (mark_seen ?st f) = u" "memory (mark_seen ?st f) = memory st" "iter (mark_seen ?st f) = walk flds p ! j"
        "fixed_count_field (mark_seen ?st f) = fixed_count_field st"
        by (simp_all add: mark_seen_def Let_def)
      obtain b s' m' where df: "decode_field n e dec u (memory st) wt (walk flds p ! j) = Some (b, s', m', walk flds p ! j)" "grows (memory st) m'"
        using decode_field_runs [OF dec(1,3) iu _ sf] u left(1) by (meson less_le_trans)
      have "settled u s'" using keepgD [OF decode_field_keeps [OF dec(1,2)] df(1)] iu by simp
      then have "istream_ok s'" "unat (bytes_left s') \<le> unat (bytes_left u)" by (auto simp: settled_def)
      then have "loop_inv d flds p m ((with_sm (mark_seen ?st f) s' m')\<lparr>iter := walk flds p ! j\<rparr>)"
        "unat (bytes_left s') < unat (bytes_left (stream st))"
        using inv j(1) df(2) mk(4) static_message_grows [OF df(2) sm] u by (auto simp: loop_inv_def with_sm_def intro: grows_trans)
      then show ?thesis using tg(1) Some v i(2) j(2) True f(1) ef df(1) mk by (simp add: decode_one_def Let_def with_sm_def)
    qed
  qed
qed

lemma decode_loop_runs:
  assumes dec: "sound dec" "callbacks_settle e" "decodes N dec"
  shows "loop_inv d flds p m st \<Longrightarrow> unat (bytes_left (stream st)) \<le> N \<Longrightarrow> unat (bytes_left (stream st)) < n \<Longrightarrow>
    \<exists>ok st'. decode_loop n k e dec fcs st = Some (ok, st') \<and> loop_inv d flds p m st'"
proof (induction n arbitrary: st)
  case (Suc n)
  show ?case
  proof (cases "bytes_left (stream st) = 0")
    case False
    obtain fl st' where o: "decode_one k e dec fcs st = Some (fl, st')" "loop_inv d flds p m st'"
      "fl = Next \<longrightarrow> unat (bytes_left (stream st')) < unat (bytes_left (stream st))"
      using decode_one_runs [OF dec Suc.prems(1,2) False] by blast
    show ?thesis
    proof (cases fl)
      case Next
      then have "unat (bytes_left (stream st')) \<le> N" "unat (bytes_left (stream st')) < n" using o(3) Suc.prems(2,3) by simp_all
      from Suc.IH [OF o(2) this] show ?thesis using o(1) Next False by simp
    qed (use o False in auto)
  qed (use Suc.prems(1) in auto)
qed simp

subsection \<open>Messages\<close>

lemma decode_checks_runs:
  assumes "loop_inv d flds p m st"
  shows "\<exists>ok st'. decode_checks st fcs = Some (ok, st') \<and> memory st' = memory st"
proof -
  obtain i where i: "i < length (live_fields flds)" "iter st = walk flds p ! i" using assms by (auto simp: loop_inv_def)
  have "static_message d (memory st) flds p" "fixed_count_field st = None" using assms by (simp_all add: loop_inv_def)
  then obtain r where "required_count (iter st) = Some r" "fixed_count_complete st fcs = Some True"
    using required_count_walk [OF static_messageD(1) i(1), of d "memory st" p p] i(2) by (auto simp: fixed_count_complete_def)
  then show ?thesis by (auto simp: decode_checks_def)
qed

lemma grows_kill:
  assumes "grows m m'"
  shows "grows m (kill_block m' (length (blocks m)))"
  unfolding grows_def
proof (intro allI impI)
  fix q n assume q: "room m q n"
  then obtain b i where p: "q = Ptr b i" using room_is_Ptr by blast
  then have "b < length (blocks m)" using q by (auto simp: room_Ptr live_block_def nth_opt_Some_iff)
  then have "live_block (kill_block m' (length (blocks m))) b = live_block m' b"
    by (auto simp: kill_block_def live_block_def nth_opt_def split: option.splits)
  then show "room (kill_block m' (length (blocks m))) q n" using growsD [OF assms q] by (simp add: p room_Ptr)
qed

lemma grows_new: "grows m (snd (new_block m h n))"
  unfolding grows_def
proof (intro allI impI)
  fix q k assume q: "room m q k"
  then obtain b i where p: "q = Ptr b i" using room_is_Ptr by blast
  then have "b < length (blocks m)" using q by (auto simp: room_Ptr live_block_def nth_opt_Some_iff)
  then have "live_block (snd (new_block m h n)) b = live_block m b" by (simp add: new_block_def live_block_def nth_opt_def nth_append)
  then show "room (snd (new_block m h n)) q k" using q by (simp add: p room_Ptr)
qed

lemma room_new: "room (snd (new_block m h n)) (fst (new_block m h n)) n"
  by (simp add: new_block_def room_Ptr live_block_def nth_opt_def in_block_def)

lemma noinit_body_decodes:
  assumes "sound dec" "callbacks_settle e" "decodes N dec" "N < n"
  shows "decodes (Suc N) (noinit_body n e dec)"
  unfolding decodes_def
proof (intro allI impI)
  fix d s m flds p
  assume s: "istream_ok s" "unat (bytes_left s) < Suc N" and sm: "static_message d m flds p"
  obtain fcs m1 where nb: "new_block m False 4 = (fcs, m1)" by (cases "new_block m False 4")
  have g1: "grows m m1" "room m1 fcs 4" using grows_new [of m False 4] room_new [of m False 4] by (simp_all add: nb)
  then obtain m2 where m2: "store_u32 m1 fcs 0 = Some m2" "grows m1 m2" using store_word_room(3) by blast
  have ne: "live_fields flds \<noteq> []" "terminated flds" using static_messageD(1,2) [OF sm] by simp_all
  obtain it where it: "pb_field_iter_begin flds p = Some (True, it)" using begin_terminated [OF ne(2), of p] ne(1) by auto
  then have w: "it = walk flds p ! 0" using ne by (simp add: walk_def)
  let ?st = "\<lparr>stream = s, memory = m2, iter = it, fields_seen = [0, 0], extension_range_start = 0, fixed_count_field = None\<rparr>"
  have "loop_inv d flds p m ?st"
    using s(1) w ne(1) static_message_grows [OF grows_trans [OF g1(1) m2(2)] sm] grows_trans [OF g1(1) m2(2)]
    by (auto simp: loop_inv_def)
  from decode_loop_runs [OF assms(1-3) this, of n n fcs] s(2) assms(4) obtain ok st'
    where l: "decode_loop n n e dec fcs ?st = Some (ok, st')" "loop_inv d flds p m st'" by auto
  obtain ok' st2 where c: "(if ok then decode_checks st' fcs else Some (False, st')) = Some (ok', st2)" "memory st2 = memory st'"
    using decode_checks_runs [OF l(2), of fcs] by (cases ok) auto
  have "grows m (memory st2)" using l(2) c(2) by (simp add: loop_inv_def)
  from grows_kill [OF this] show "runs m (noinit_body n e dec s m flds p)"
    using nb m2(1) it l(1) c(1) by (simp add: noinit_body_def runs_Some)
qed

lemma pb_decode_noinit_decodes: "callbacks_settle e \<Longrightarrow> decodes n (pb_decode_noinit (Suc n) e)"
proof (induction n)
  case (Suc n)
  have "decodes (Suc n) (noinit_body (Suc n) e (pb_decode_noinit (Suc n) e))"
    by (intro noinit_body_decodes pb_decode_noinit_sound Suc lessI)
  then show ?case by (simp add: decodes_def)
qed (simp add: decodes_def)

text \<open>
  (C26) Decoding untrusted input: when the fields of a message are stored in the structure, required or optional, nested to a depth of less
  than \<open>d\<close> and inside of live memory, then \<^verbatim>\<open>pb_decode\<close> returns on every input, with success or with an error, within a fuel above the
  length of the input and the depth; so there is no access outside of memory and no endless loop.  The input stream stays sound: it still
  lies inside of the input buffer, it promises no more bytes than before, and the state pointer has not run ahead of the count.
\<close>

theorem pb_decode_returns:
  assumes "callbacks_settle e" "istream_ok s" "static_message d m flds dest" "unat (bytes_left s) + 2 \<le> n" "d \<le> n"
  shows "\<exists>ok s' m'. pb_decode n e s m flds dest = Some (ok, s', m') \<and> istream_ok s' \<and> unat (bytes_left s') \<le> unat (bytes_left s) \<and>
    length (istate s) - length (istate s') \<le> unat (bytes_left s) - unat (bytes_left s')"
proof -
  obtain n' where n': "n = Suc n'" "unat (bytes_left s) < n'" using assms(4) by (cases n) simp_all
  obtain m1 where m1: "pb_message_set_to_defaults n e flds dest m = Some m1" "grows m m1"
    using defaults_grow [OF assms(3,5)] by (auto simp: pb_message_set_to_defaults_def)
  have "runs m1 (pb_decode_noinit n e s m1 flds dest)"
    using pb_decode_noinit_decodes [OF assms(1), of n'] assms(2) n' static_message_grows [OF m1(2) assms(3)]
    unfolding decodes_def by blast
  then obtain ok s' m2 where d: "pb_decode_noinit n e s m1 flds dest = Some (ok, s', m2)" "grows m1 m2" by (auto simp: runs_def)
  obtain m3 where "pb_release n e flds dest m2 = Some m3"
    using release_grow [OF static_message_grows [OF grows_trans [OF m1(2) d(2)] assms(3)] assms(5), of e]
    by (cases "dest = NULL") (auto simp: pb_release_def release_message_def)
  then obtain ok m' where r: "pb_decode n e s m flds dest = Some (ok, s', m')"
    using m1(1) d(1) by (cases ok) (simp_all add: pb_decode_def decode_with_def)
  from keepsD [OF pb_decode_keeps [OF assms(1) settled_self [OF assms(2)]] this] r show ?thesis by (auto simp: settled_def)
qed

theorem pb_decode_returns_witness:
  "let m = \<lparr>blocks = [\<lparr>on_heap = False, live = True, cells = replicate (sizeof (C_struct gdt_cct_QosTierConfiguration)) Undef\<rparr>],
        addr_of = (\<lambda>_. 0), malloc_fails = (\<lambda>_. False), malloc_calls = 0\<rparr>;
      s = pb_istream_from_buffer [0x08, 0x05, 0x10] 3
   in static_message 1 m gdt_cct_QosTierConfiguration_fields (Ptr 0 0) \<and>
      (\<exists>ok s' m'. pb_decode 5 no_env s m gdt_cct_QosTierConfiguration_fields (Ptr 0 0) = Some (ok, s', m') \<and> istream_ok s')"
proof -
  define m where "m = \<lparr>blocks = [\<lparr>on_heap = False, live = True, cells = replicate (sizeof (C_struct gdt_cct_QosTierConfiguration)) Undef\<rparr>],
        addr_of = (\<lambda>_. 0), malloc_fails = (\<lambda>_. False), malloc_calls = 0\<rparr>"
  let ?s = "pb_istream_from_buffer [0x08, 0x05, 0x10] 3"
  have st: "static_message 1 m gdt_cct_QosTierConfiguration_fields (Ptr 0 0)" unfolding m_def by code_simp
  have io: "istream_ok ?s" by (simp add: istream_ok_from_buffer)
  have left: "unat (bytes_left ?s) + 2 \<le> 5" by (simp add: pb_istream_from_buffer_def)
  have "\<exists>ok s' m'. pb_decode 5 no_env ?s m gdt_cct_QosTierConfiguration_fields (Ptr 0 0) = Some (ok, s', m') \<and> istream_ok s'"
    using pb_decode_returns [OF callbacks_settle_no_env io st left] by auto
  then show ?thesis using st unfolding Let_def m_def by blast
qed

end
