(* ===== verification/Pb_Decode_Fields.thy ===== *)
theory Pb_Decode_Fields
  imports Pb_Decode Pb_Encode_Spec
begin

text \<open>
  What the decoder does to memory, field by field: allocation sizes, values that come back as they
  were encoded, range checks, the release of pointer fields and the bookkeeping of required fields.
\<close>

subsection \<open>Allocation\<close>

lemma unat_minus_one_word64: "unat (- 1 :: uint64) = 2 ^ 64 - 1"
  by (simp add: unsigned_minus_1_eq_mask mask_eq_exp_minus_1)

lemma size_product:
  fixes ds as :: size_t
  assumes "as \<noteq> 0" "\<not> ((ds \<ge> 2 ^ 32 \<or> as \<ge> 2 ^ 32) \<and> (- 1) div as < ds)"
  shows "unat (as * ds) = unat as * unat ds"
proof -
  have "unat as * unat ds < 2 ^ 64"
  proof (cases "ds \<ge> 2 ^ 32 \<or> as \<ge> 2 ^ 32")
    case True
    with assms(2) have "\<not> (- 1) div as < ds" by blast
    then have "ds \<le> (- 1) div as" by (simp only: not_less)
    then have "unat ds \<le> (2 ^ 64 - 1) div unat as"
      by (simp add: word_le_nat_alt unat_div unat_minus_one_word64)
    then have "unat ds * unat as \<le> (2 ^ 64 - 1) div unat as * unat as"
      by (rule mult_le_mono1)
    also have "\<dots> \<le> 2 ^ 64 - 1" by simp
    finally show ?thesis by (simp add: mult.commute)
  next
    case False
    then have "unat ds < 2 ^ 32" "unat as < 2 ^ 32"
      by (simp_all add: word_le_nat_alt not_le)
    then have "unat as * unat ds < 2 ^ 32 * 2 ^ 32"
      by (intro mult_strict_mono) simp_all
    then show ?thesis by simp
  qed
  then show ?thesis by (simp add: unat_word_ariths)
qed

lemma load_ptr_block: "load_ptr m pd = Some q \<Longrightarrow> \<exists>c i. pd = Ptr c i \<and> c < length (blocks m)"
  by (cases pd) (auto simp: load_ptr_def load_cells_def live_block_def nth_opt_def split: if_splits)

lemma pb_realloc_Some:
  assumes "pb_realloc m p n = Some (q, m')" "q \<noteq> NULL"
  obtains k where "q = Ptr (length (blocks m)) 0" "live_block m' (length (blocks m)) = Some k" "on_heap k" "length (cells k) = n"
proof -
  have len: "length (blocks (kill_block m b)) = length (blocks m)" for m b
    by (simp add: kill_block_def nth_opt_def)
  show ?thesis
  proof (cases "malloc_fails m (malloc_calls m)")
    case True
    with assms show ?thesis by (auto simp: pb_realloc_def Let_def split: if_splits)
  next
    case ok: False
    show ?thesis
    proof (cases "p = NULL")
      case True
      with ok assms that show ?thesis
        by (auto simp: pb_realloc_def Let_def new_block_def live_block_def nth_opt_def)
    next
      case False
      with ok assms(1) obtain b k where bk: "heap_base m p = Some b" "live_block m b = Some k"
        "q = Ptr (length (blocks m)) 0"
        "m' = (kill_block (m\<lparr>malloc_calls := Suc (malloc_calls m)\<rparr>) b)\<lparr>blocks :=
            blocks (kill_block (m\<lparr>malloc_calls := Suc (malloc_calls m)\<rparr>) b) @
              [\<lparr>on_heap = True, live = True, cells = take n (cells k) @ replicate (n - length (cells k)) Undef\<rparr>]\<rparr>"
        by (auto simp: pb_realloc_def Let_def)
      define k' where "k' = \<lparr>on_heap = True, live = True, cells = take n (cells k) @ replicate (n - length (cells k)) Undef\<rparr>"
      have "live_block m' (length (blocks m)) = Some k'" "on_heap k'" "length (cells k') = n"
        unfolding bk(4) by (simp_all add: live_block_def nth_opt_def len k'_def nth_append)
      with bk(3) show ?thesis by (intro that)
    qed
  qed
qed

text \<open>
  (C32) The size computation of \<^verbatim>\<open>allocate_field\<close> cannot overflow: when it succeeds, the field points to a
  fresh heap block of exactly \<^verbatim>\<open>array_size * data_size\<close> bytes, the product taken over the natural
  numbers; when it fails, no block of memory has changed, so the old allocation is still there for
  \<^verbatim>\<open>pb_release\<close>.
\<close>

definition empty_slot :: mem where
  "empty_slot = \<lparr>blocks = [\<lparr>on_heap = False, live = True, cells = replicate 8 (Byte 0)\<rparr>],
     addr_of = (\<lambda>_. 0), malloc_fails = (\<lambda>_. False), malloc_calls = 0\<rparr>"

theorem allocate_field_exact:
  assumes "allocate_field s m pd ds as = Some (ok, s', m')"
  shows "(ok \<longrightarrow> (\<exists>k. load_ptr m' pd = Some (Ptr (length (blocks m)) 0) \<and>
      live_block m' (length (blocks m)) = Some k \<and> on_heap k \<and> length (cells k) = unat as * unat ds)) \<and>
    (\<not> ok \<longrightarrow> blocks m' = blocks m)"
proof -
  obtain p where p: "load_ptr m pd = Some p" using assms by (auto simp: allocate_field_def)
  then obtain c i where pd: "pd = Ptr c i" "c < length (blocks m)" using load_ptr_block by blast
  have fresh: "blocks m2 = blocks m" if "pb_realloc m p n = Some (NULL, m2)" for n m2
    using that by (auto simp: pb_realloc_def Let_def new_block_def split: if_splits)
  have grow: "\<exists>k. load_ptr m3 pd = Some (Ptr (length (blocks m)) 0) \<and>
      live_block m3 (length (blocks m)) = Some k \<and> on_heap k \<and> length (cells k) = n"
    if re: "pb_realloc m p n = Some (q, m2)" "q \<noteq> NULL" and st: "store_ptr m2 pd q = Some m3" for n q m2 m3
  proof -
    obtain k where k: "q = Ptr (length (blocks m)) 0" "live_block m2 (length (blocks m)) = Some k" "on_heap k" "length (cells k) = n"
      using re by (rule pb_realloc_Some)
    then show ?thesis
      using pointer.ld_st [OF st] live_block_store [OF st [unfolded store_ptr_def pd(1)], of "length (blocks m)"] pd(2)
      by simp
  qed
  show ?thesis
  proof (cases "ds = 0 \<or> as = 0 \<or> (ds \<ge> 2 ^ 32 \<or> as \<ge> 2 ^ 32) \<and> (- 1) div as < ds")
    case True
    with assms p show ?thesis by (auto simp: allocate_field_def fail_with_def split: if_splits)
  next
    case False
    then have sz: "unat (as * ds) = unat as * unat ds" by (intro size_product) auto
    have "allocate_field s m pd ds as = do { (q, m) \<leftarrow> pb_realloc m p (unat (as * ds));
        if q = NULL then fail_with s m ''realloc failed'' else do { m \<leftarrow> store_ptr m pd q; Some (True, s, m) } }"
      using False p by (simp add: allocate_field_def del: de_Morgan_conj)
    with assms show ?thesis
      unfolding sz [symmetric] using fresh grow by (auto simp: fail_with_def split: if_splits)
  qed
qed

theorem allocate_field_exact_witness:
  "\<exists>s' m' k. allocate_field (pb_istream_from_buffer [] 0) empty_slot (Ptr 0 0) 3 5 = Some (True, s', m') \<and>
    load_ptr m' (Ptr 0 0) = Some (Ptr 1 0) \<and> live_block m' 1 = Some k \<and> length (cells k) = 15"
proof -
  have "case allocate_field (pb_istream_from_buffer [] 0) empty_slot (Ptr 0 0) 3 5 of
      Some (ok, s', m') \<Rightarrow> ok | None \<Rightarrow> False"
    by code_simp
  then obtain s' m' where r: "allocate_field (pb_istream_from_buffer [] 0) empty_slot (Ptr 0 0) 3 5 = Some (True, s', m')"
    by (auto split: option.splits)
  moreover have "length (blocks empty_slot) = 1" by (simp add: empty_slot_def)
  ultimately show ?thesis
    using allocate_field_exact [OF r] by auto
qed

end
