(* ===== verification/B64.thy ===== *)
theory B64
  imports Pb_Prelude
begin

text \<open>
  The base64 routines \<^verbatim>\<open>f_b64_ntop\<close> and \<^verbatim>\<open>f_b64_pton\<close> of SocketRocket's \<^verbatim>\<open>fbase64.c\<close>.  Characters are
  bytes; a character array is the list of its bytes, and \<open>*src++\<close> takes the head of what is left.
  The result is the returned \<^verbatim>\<open>int\<close> with the target array; reading or writing outside an array is
  \<^const>\<open>None\<close>.
\<close>

subsection \<open>Tables\<close>

definition Base64 :: "byte list" where
  "Base64 = map of_char ''ABCDEFGHIJKLMNOPQRSTUVWXYZabcdefghijklmnopqrstuvwxyz0123456789+/''"

definition Pad64 :: byte where
  "Pad64 = 0x3D"

text \<open>
  \<^verbatim>\<open>isspace\<close> in the C locale.  Bytes from 0x80 reach it as negative numbers; the Apple C library
  answers 0 for them.
\<close>

definition isspace :: "byte \<Rightarrow> bool" where
  "isspace c \<longleftrightarrow> c = 32 \<or> 9 \<le> c \<and> c \<le> 13"

text \<open>\<open>strchr(Base64, ch) - Base64\<close> for a character that is not the terminator.\<close>

primrec index_of :: "byte \<Rightarrow> byte list \<Rightarrow> nat option" where
  "index_of c [] = None"
| "index_of c (x # xs) = (if c = x then Some 0 else map_option Suc (index_of c xs))"

definition strchr_Base64 :: "byte \<Rightarrow> byte option" where
  "strchr_Base64 c = map_option of_nat (index_of c Base64)"

definition poke :: "byte list \<Rightarrow> nat \<Rightarrow> byte \<Rightarrow> byte list option" where
  "poke t i c = (if i < length t then Some (t[i := c]) else None)"

subsection \<open>Encoding\<close>

definition output0 :: "byte \<Rightarrow> byte" where
  "output0 a = drop_bit 2 a"
definition output1 :: "byte \<Rightarrow> byte \<Rightarrow> byte" where
  "output1 a b = push_bit 4 (a AND 0x03) + drop_bit 4 b"
definition output2 :: "byte \<Rightarrow> byte \<Rightarrow> byte" where
  "output2 b c = push_bit 2 (b AND 0x0f) + drop_bit 6 c"
definition output3 :: "byte \<Rightarrow> byte" where
  "output3 c = c AND 0x3f"

definition put4 :: "byte list \<Rightarrow> size_t \<Rightarrow> byte \<Rightarrow> byte \<Rightarrow> byte \<Rightarrow> byte \<Rightarrow> byte list option" where
  "put4 t n a b c d = do {
     t \<leftarrow> poke t (unat n) a;
     t \<leftarrow> poke t (unat (n + 1)) b;
     t \<leftarrow> poke t (unat (n + 2)) c;
     poke t (unat (n + 3)) d
   }"

definition b64_char :: "byte \<Rightarrow> byte option" where
  "b64_char i = nth_opt Base64 (unat i)"

text \<open>The loop over full groups: a returned code, or what is left to pad.\<close>

fun ntop_loop ::
  "byte list \<Rightarrow> size_t \<Rightarrow> byte list \<Rightarrow> size_t \<Rightarrow> size_t \<Rightarrow>
   (byte list + byte list \<times> size_t \<times> byte list \<times> size_t) option" where
  "ntop_loop src srclength target datalength targsize =
     (if 2 < srclength
      then case src of
          a # b # c # src' \<Rightarrow>
            (if datalength + 4 > targsize then Some (Inl target)
             else do {
               w \<leftarrow> b64_char (output0 a);
               x \<leftarrow> b64_char (output1 a b);
               y \<leftarrow> b64_char (output2 b c);
               z \<leftarrow> b64_char (output3 c);
               target \<leftarrow> put4 target datalength w x y z;
               ntop_loop src' (srclength - 3) target (datalength + 4) targsize
             })
        | _ \<Rightarrow> None
      else Some (Inr (src, srclength, target, datalength)))"

definition ntop_pad ::
  "byte list \<Rightarrow> size_t \<Rightarrow> byte list \<Rightarrow> size_t \<Rightarrow> size_t \<Rightarrow> (byte list + byte list \<times> size_t) option" where
  "ntop_pad src srclength target datalength targsize =
     (if srclength = 0 then Some (Inr (target, datalength))
      else do {
        a \<leftarrow> nth_opt src 0;
        b \<leftarrow> (if srclength = 1 then Some 0 else nth_opt src 1);
        if datalength + 4 > targsize then Some (Inl target)
        else do {
          w \<leftarrow> b64_char (output0 a);
          x \<leftarrow> b64_char (output1 a b);
          y \<leftarrow> (if srclength = 1 then Some Pad64 else b64_char (output2 b 0));
          target \<leftarrow> put4 target datalength w x y Pad64;
          Some (Inr (target, datalength + 4))
        }
      })"

definition f_b64_ntop :: "byte list \<Rightarrow> size_t \<Rightarrow> byte list \<Rightarrow> size_t \<Rightarrow> (int \<times> byte list) option" where
  "f_b64_ntop src srclength target targsize = do {
     r \<leftarrow> ntop_loop src srclength target 0 targsize;
     case r of
       Inl target \<Rightarrow> Some (- 1, target)
     | Inr (src, srclength, target, datalength) \<Rightarrow> do {
         r \<leftarrow> ntop_pad src srclength target datalength targsize;
         case r of
           Inl target \<Rightarrow> Some (- 1, target)
         | Inr (target, datalength) \<Rightarrow>
             (if datalength \<ge> targsize then Some (- 1, target)
              else do {
                target \<leftarrow> poke target (unat datalength) 0;
                Some (sint (ucast datalength :: uint32), target)
              })
       }
   }"

subsection \<open>Decoding\<close>

text \<open>
  One character of the alphabet.  \<open>target\<close> is \<^const>\<open>None\<close> for the null pointer; the inner
  \<^const>\<open>None\<close> of the result is \<open>return (-1)\<close>.
\<close>

definition pton_store ::
  "byte list option \<Rightarrow> size_t \<Rightarrow> uint32 \<Rightarrow> nat \<Rightarrow> byte \<Rightarrow> byte list option option option" where
  "pton_store target targsize tarindex state pos =
     (case target of
        None \<Rightarrow> Some (Some None)
      | Some t \<Rightarrow>
          (let i = unat tarindex; j = unat (tarindex + 1) in
           if state = 0
           then (if ucast tarindex \<ge> targsize then Some None
                 else map_option (\<lambda>t. Some (Some t)) (poke t i (push_bit 2 pos)))
           else if state = 1
           then (if ucast (tarindex + 1) \<ge> targsize then Some None
                 else do {
                   old \<leftarrow> nth_opt t i;
                   t \<leftarrow> poke t i (old OR drop_bit 4 pos);
                   map_option (\<lambda>t. Some (Some t)) (poke t j (push_bit 4 (pos AND 0x0f)))
                 })
           else if state = 2
           then (if ucast (tarindex + 1) \<ge> targsize then Some None
                 else do {
                   old \<leftarrow> nth_opt t i;
                   t \<leftarrow> poke t i (old OR drop_bit 2 pos);
                   map_option (\<lambda>t. Some (Some t)) (poke t j (push_bit 6 (pos AND 0x03)))
                 })
           else (if ucast tarindex \<ge> targsize then Some None
                 else do {
                   old \<leftarrow> nth_opt t i;
                   map_option (\<lambda>t. Some (Some t)) (poke t i (old OR pos))
                 })))"

text \<open>The result of the loop: \<open>return (-1)\<close>, or the last character read and the rest.\<close>

record pton_state =
  psrc :: "byte list"
  pch :: byte
  ptarget :: "byte list option"
  ptarindex :: uint32
  pstate :: nat

fun pton_loop ::
  "byte list \<Rightarrow> byte list option \<Rightarrow> size_t \<Rightarrow> uint32 \<Rightarrow> nat \<Rightarrow> (byte list option + pton_state) option" where
  "pton_loop [] target targsize tarindex state = None"
| "pton_loop (ch # src) target targsize tarindex state =
     (if ch = 0 \<or> \<not> isspace ch \<and> ch = Pad64
      then Some (Inr \<lparr>psrc = src, pch = ch, ptarget = target, ptarindex = tarindex, pstate = state\<rparr>)
      else if isspace ch then pton_loop src target targsize tarindex state
      else case strchr_Base64 ch of
          None \<Rightarrow> Some (Inl target)
        | Some pos \<Rightarrow> do {
            r \<leftarrow> pton_store target targsize tarindex state pos;
            case r of
              None \<Rightarrow> Some (Inl target)
            | Some target \<Rightarrow>
                pton_loop src target targsize (if state = 0 then tarindex else tarindex + 1)
                  ((state + 1) mod 4)
          })"

text \<open>\<open>for (; ch != 0; ch = *src++) if (!isspace(ch)) break;\<close>\<close>

fun skip_spaces :: "byte \<Rightarrow> byte list \<Rightarrow> (byte \<times> byte list) option" where
  "skip_spaces ch src =
     (if ch = 0 \<or> \<not> isspace ch then Some (ch, src)
      else case src of [] \<Rightarrow> None | c # src' \<Rightarrow> skip_spaces c src')"

definition next_char :: "byte list \<Rightarrow> (byte \<times> byte list) option" where
  "next_char src = (case src of [] \<Rightarrow> None | c # src' \<Rightarrow> Some (c, src'))"

definition pton_finish :: "pton_state \<Rightarrow> (int \<times> byte list option) option" where
  "pton_finish st =
     (let done = Some (sint (ptarindex st), ptarget st); bad = Some (- 1, ptarget st) in
      if pch st = Pad64
      then do {
        (ch, src) \<leftarrow> next_char (psrc st);
        if pstate st = 0 \<or> pstate st = 1 then bad
        else do {
          r \<leftarrow> (if pstate st = 2
               then do {
                 (ch, src) \<leftarrow> skip_spaces ch src;
                 if ch \<noteq> Pad64 then Some None else map_option Some (next_char src)
               }
               else Some (Some (ch, src)));
          case r of
            None \<Rightarrow> bad
          | Some (ch, src) \<Rightarrow> do {
              (ch, src) \<leftarrow> skip_spaces ch src;
              if ch \<noteq> 0 then bad
              else case ptarget st of
                  None \<Rightarrow> done
                | Some t \<Rightarrow> do {
                    last \<leftarrow> nth_opt t (unat (ptarindex st));
                    if last \<noteq> 0 then bad else done
                  }
            }
        }
      }
      else if pstate st \<noteq> 0 then bad else done)"

definition f_b64_pton :: "byte list \<Rightarrow> byte list option \<Rightarrow> size_t \<Rightarrow> (int \<times> byte list option) option" where
  "f_b64_pton src target targsize = do {
     r \<leftarrow> pton_loop src target targsize 0 0;
     case r of Inl target \<Rightarrow> Some (- 1, target) | Inr st \<Rightarrow> pton_finish st
   }"

end
