(* ===== verification/B64_Spec.thy ===== *)
theory B64_Spec
  imports B64
begin

text \<open>
  Correctness of \<^verbatim>\<open>f_b64_ntop\<close> and \<^verbatim>\<open>f_b64_pton\<close> against the base64 text of a byte string, which is
  defined by the 24-bit groups of RFC 1521.
\<close>

subsection \<open>Sextets\<close>

lemma mask_bits: "(w :: byte) AND 0x03 = take_bit 2 w" "w AND 0x0f = take_bit 4 w" "w AND 0x3f = take_bit 6 w"
  by (simp_all add: take_bit_eq_mask mask_eq_exp_minus_1)

lemma byte_eq_iff_bits:
  "(a :: byte) = b \<longleftrightarrow> (bit a 0 = bit b 0 \<and> bit a 1 = bit b 1 \<and> bit a 2 = bit b 2 \<and> bit a 3 = bit b 3 \<and>
     bit a 4 = bit b 4 \<and> bit a 5 = bit b 5 \<and> bit a 6 = bit b 6 \<and> bit a 7 = bit b 7)"
proof
  assume r: "bit a 0 = bit b 0 \<and> bit a 1 = bit b 1 \<and> bit a 2 = bit b 2 \<and> bit a 3 = bit b 3 \<and>
     bit a 4 = bit b 4 \<and> bit a 5 = bit b 5 \<and> bit a 6 = bit b 6 \<and> bit a 7 = bit b 7"
  show "a = b"
  proof (rule bit_word_eqI)
    fix n assume "n < LENGTH(8)"
    then have "n \<in> {0, 1, 2, 3, 4, 5, 6, 7}" by auto
    with r show "bit a n = bit b n" by blast
  qed
qed simp

lemma sextet_bits: "(x :: byte) < 64 \<longleftrightarrow> \<not> bit x 6 \<and> \<not> bit x 7"
proof -
  have "x < 64 \<longleftrightarrow> unat x < 2 ^ 6" by (simp add: word_less_nat_alt)
  also have "\<dots> \<longleftrightarrow> take_bit 6 x = x"
    by (simp add: word_unat_eq_iff unsigned_take_bit_eq take_bit_nat_eq_self_iff)
  also have "\<dots> \<longleftrightarrow> \<not> bit x 6 \<and> \<not> bit x 7"
    by (simp add: byte_eq_iff_bits bit_take_bit_iff)
  finally show ?thesis .
qed

lemma output1_or: "output1 a b = push_bit 4 (take_bit 2 a) OR drop_bit 4 b"
  unfolding output1_def mask_bits
  by (rule disjunctive_add_eq_or) (simp add: byte_eq_iff_bits bit_simps)

lemma output2_or: "output2 b c = push_bit 2 (take_bit 4 b) OR drop_bit 6 c"
  unfolding output2_def mask_bits
  by (rule disjunctive_add_eq_or) (simp add: byte_eq_iff_bits bit_simps)

lemmas output_bits = output0_def output1_or output2_or output3_def mask_bits byte_eq_iff_bits

lemma outputs_join:
  "push_bit 2 (output0 a) OR drop_bit 4 (output1 a b) = a"
  "push_bit 4 (output1 a b AND 0x0f) OR drop_bit 2 (output2 b c) = b"
  "push_bit 6 (output2 b c AND 0x03) OR output3 c = c"
  unfolding output_bits by (simp_all add: bit_simps)

lemma outputs_split:
  assumes "w < 64" "x < 64" "y < 64" "z < 64"
  shows "output0 (push_bit 2 w OR drop_bit 4 x) = w"
  "output1 (push_bit 2 w OR drop_bit 4 x) (push_bit 4 (x AND 0x0f) OR drop_bit 2 y) = x"
  "output2 (push_bit 4 (x AND 0x0f) OR drop_bit 2 y) (push_bit 6 (y AND 0x03) OR z) = y"
  "output3 (push_bit 6 (y AND 0x03) OR z) = z"
  using assms unfolding sextet_bits output_bits by (simp_all add: bit_simps)

lemma outputs_sextets: "output0 a < 64" "output1 a b < 64" "output2 b c < 64" "output3 c < 64"
  unfolding sextet_bits output_bits by (simp_all add: bit_simps)

lemma unat_outputs:
  "unat (output0 a) = unat a div 4" "unat (output1 a b) = unat a mod 4 * 16 + unat b div 16"
  "unat (output2 b c) = unat b mod 16 * 4 + unat c div 64" "unat (output3 c) = unat c mod 64"
proof -
  have d: "unat (drop_bit k x) = unat x div 2 ^ k" for x :: byte and k
    unfolding unsigned_drop_bit_eq using unat_less_2p [of x] by (simp add: drop_bit_eq_div take_bit_nat_eq_self)
  have p: "unat (push_bit 4 (take_bit 2 x)) = unat x mod 4 * 16" "unat (push_bit 2 (take_bit 4 x)) = unat x mod 16 * 4" for x :: byte
    unfolding unsigned_push_bit_eq unsigned_take_bit_eq by (simp_all add: push_bit_eq_mult take_bit_eq_mod)
  have lt: "unat x div 16 < 16" "unat x div 64 < 4" "unat x mod 4 < 4" "unat x mod 16 < 16" for x :: byte
    using unat_less_2p [of x] by (simp_all add: div_less_iff_less_mult)
  show "unat (output0 a) = unat a div 4" by (simp add: output0_def d)
  show "unat (output1 a b) = unat a mod 4 * 16 + unat b div 16"
    unfolding output1_def mask_bits using lt(1) [of b] lt(3) [of a]
    by (subst unat_add_no_overflow) (simp_all only: p d, simp_all)
  show "unat (output2 b c) = unat b mod 16 * 4 + unat c div 64"
    unfolding output2_def mask_bits using lt(2) [of c] lt(4) [of b]
    by (subst unat_add_no_overflow) (simp_all only: p d, simp_all)
  show "unat (output3 c) = unat c mod 64"
    unfolding output3_def mask_bits unsigned_take_bit_eq by (simp add: take_bit_eq_mod)
qed

lemma Base64_code:
  "Base64 = [65, 66, 67, 68, 69, 70, 71, 72, 73, 74, 75, 76, 77, 78, 79, 80, 81, 82, 83, 84, 85, 86, 87, 88, 89, 90,
     97, 98, 99, 100, 101, 102, 103, 104, 105, 106, 107, 108, 109, 110, 111, 112, 113, 114, 115, 116, 117, 118, 119,
     120, 121, 122, 48, 49, 50, 51, 52, 53, 54, 55, 56, 57, 43, 47]"
  by code_simp

lemma length_Base64: "length Base64 = 64"
  by (simp add: Base64_code)

lemma distinct_Base64: "distinct Base64"
  unfolding Base64_code by simp

lemma Base64_plain: "c \<in> set Base64 \<Longrightarrow> c \<noteq> 0 \<and> c \<noteq> Pad64 \<and> \<not> isspace c"
  unfolding Base64_code by (auto simp: Pad64_def isspace_def)

lemma index_of_nth: "distinct xs \<Longrightarrow> i < length xs \<Longrightarrow> index_of (xs ! i) xs = Some i"
  by (induction xs arbitrary: i) (auto simp: nth_Cons split: nat.splits)

definition alpha :: "byte \<Rightarrow> byte" where "alpha d = Base64 ! unat d"

lemma alpha:
  assumes "d < 64"
  shows "b64_char d = Some (alpha d)" "strchr_Base64 (alpha d) = Some d" "alpha d \<noteq> 0" "alpha d \<noteq> Pad64" "\<not> isspace (alpha d)"
proof -
  have d: "unat d < 64" using assms by (simp add: word_less_nat_alt)
  then have i: "unat d < length Base64" by (simp add: length_Base64)
  show "b64_char d = Some (alpha d)" using d by (simp add: b64_char_def alpha_def nth_opt_def length_Base64)
  show "strchr_Base64 (alpha d) = Some d" "alpha d \<noteq> 0" "alpha d \<noteq> Pad64" "\<not> isspace (alpha d)"
    using index_of_nth [OF distinct_Base64 i] Base64_plain [OF nth_mem [OF i]] by (simp_all add: strchr_Base64_def alpha_def)
qed

lemma index_of_Some: "index_of c xs = Some i \<Longrightarrow> i < length xs \<and> xs ! i = c"
  by (induction xs arbitrary: i) (auto split: if_splits)

lemma strchr_alpha:
  assumes "strchr_Base64 c = Some d"
  shows "d < 64" "c = alpha d"
proof -
  obtain i where i: "index_of c Base64 = Some i" "d = of_nat i"
    using assms by (auto simp: strchr_Base64_def)
  then have "i < 64" "Base64 ! i = c" using index_of_Some [OF i(1)] by (simp_all add: length_Base64)
  then show "d < 64" "c = alpha d" using i(2) by (simp_all add: alpha_def word_less_nat_alt)
qed

subsection \<open>The text of a byte string\<close>

definition sextet :: "nat \<Rightarrow> byte \<Rightarrow> byte \<Rightarrow> byte \<Rightarrow> byte" where
  "sextet k a b c = Base64 ! ((unat a * 65536 + unat b * 256 + unat c) div 64 ^ k mod 64)"

fun base64_text :: "byte list \<Rightarrow> byte list" where
  "base64_text [] = []"
| "base64_text [a] = [sextet 3 a 0 0, sextet 2 a 0 0, Pad64, Pad64]"
| "base64_text [a, b] = [sextet 3 a b 0, sextet 2 a b 0, sextet 1 a b 0, Pad64]"
| "base64_text (a # b # c # bs) =
     sextet 3 a b c # sextet 2 a b c # sextet 1 a b c # sextet 0 a b c # base64_text bs"

lemma div_drop_low: "r < k \<Longrightarrow> (k * q + r) div (k * j) = q div (j :: nat)"
  by (simp add: div_mult2_eq)

lemma sextet_split:
  fixes a b c :: nat
  assumes "a < 256" "b < 256" "c < 256"
  shows "(a * 65536 + b * 256 + c) div 64 ^ 3 mod 64 = a div 4"
    "(a * 65536 + b * 256 + c) div 64 ^ 2 mod 64 = a mod 4 * 16 + b div 16"
    "(a * 65536 + b * 256 + c) div 64 ^ 1 mod 64 = b mod 16 * 4 + c div 64"
    "(a * 65536 + b * 256 + c) div 64 ^ 0 mod 64 = c mod 64"
proof -
  let ?n = "a * 65536 + b * 256 + c"
  have n1: "?n div 64 = a * 1024 + b * 4 + c div 64" by presburger
  have n2: "(a * 1024 + b * 4 + c div 64) div 64 = a * 16 + b div 16"
    using div_drop_low [of "c div 64" 4 "a * 256 + b" 16] assms(3)
    by (simp add: div_less_iff_less_mult algebra_simps)
  have n3: "(a * 16 + b div 16) div 64 = a div 4"
    using div_drop_low [of "b div 16" 16 a 4] assms(2) by (simp add: div_less_iff_less_mult algebra_simps)
  have d: "?n div 64 ^ 2 = ?n div 64 div 64" "?n div 64 ^ 3 = ?n div 64 div 64 div 64"
    by (simp_all add: power_eq_if div_mult2_eq)
  show "?n div 64 ^ 3 mod 64 = a div 4" unfolding d n1 n2 n3 using assms(1) by simp
  show "?n div 64 ^ 2 mod 64 = a mod 4 * 16 + b div 16"
  proof -
    have "a * 16 + b div 16 = (a mod 4 * 16 + b div 16) + 64 * (a div 4)" by presburger
    moreover have "a mod 4 * 16 + b div 16 < 64"
      using mod_less_divisor [of 4 a] less_mult_imp_div_less [of b 16 16] assms(2) by linarith
    ultimately show ?thesis unfolding d n1 n2 by (simp only: mod_mult_self2 mod_less)
  qed
  show "?n div 64 ^ 1 mod 64 = b mod 16 * 4 + c div 64"
  proof -
    have "a * 1024 + b * 4 + c div 64 = (b mod 16 * 4 + c div 64) + 64 * (a * 16 + b div 16)" by presburger
    moreover have "b mod 16 * 4 + c div 64 < 64"
      using mod_less_divisor [of 16 b] less_mult_imp_div_less [of c 4 64] assms(3) by linarith
    ultimately show ?thesis unfolding power_one_right n1 by (simp only: mod_mult_self2 mod_less)
  qed
  have "?n = c + 64 * (a * 1024 + b * 4)" by simp
  then show "?n div 64 ^ 0 mod 64 = c mod 64" by (simp only: power_0 div_by_1 mod_mult_self2)
qed

lemma len8: "2 ^ LENGTH(8) = (256 :: nat)"
  by simp

lemma sextet_outputs:
  "sextet 3 a b c = alpha (output0 a)" "sextet 2 a b c = alpha (output1 a b)"
  "sextet 1 a b c = alpha (output2 b c)" "sextet 0 a b c = alpha (output3 c)"
  "sextet (Suc 0) a b c = alpha (output2 b c)"
  using sextet_split [of "unat a" "unat b" "unat c"] unat_less_2p [of a] unat_less_2p [of b] unat_less_2p [of c]
  unfolding sextet_def alpha_def unat_outputs by (simp_all only: len8 One_nat_def)


text \<open>The sextets of a byte string, without padding.\<close>

fun digits :: "byte list \<Rightarrow> byte list" where
  "digits [] = []"
| "digits [a] = [output0 a, output1 a 0]"
| "digits [a, b] = [output0 a, output1 a b, output2 b 0]"
| "digits (a # b # c # bs) = output0 a # output1 a b # output2 b c # output3 c # digits bs"

lemma replicate_two: "replicate 2 x = [x, x]"
  by (simp add: numeral_2_eq_2)

lemma base64_text_digits:
  "base64_text bs = map alpha (digits bs) @ replicate ((3 - length bs mod 3) mod 3) Pad64"
  by (induction bs rule: digits.induct) (simp_all add: sextet_outputs replicate_two)

lemma digits_sextets: "d \<in> set (digits bs) \<Longrightarrow> d < 64"
  by (induction bs rule: digits.induct) (auto simp: outputs_sextets)

lemma length_base64_text: "length (base64_text bs) = 4 * ((length bs + 2) div 3)"
proof (induction bs rule: digits.induct)
  case (4 a b c bs)
  have "length bs + 5 = 3 + (length bs + 2)" by simp
  then have "(length (a # b # c # bs) + 2) div 3 = Suc ((length bs + 2) div 3)" by (simp add: div_add_self1)
  with 4 show ?case by simp
qed simp_all

subsection \<open>The encoder writes the text\<close>

lemma poke_append: "i = length pre \<Longrightarrow> poke (pre @ x # xs) i c = Some (pre @ c # xs)"
  by (simp add: poke_def)

lemma put4_append:
  assumes "4 \<le> length room" "length pre + 4 < 2 ^ 64"
  shows "put4 (pre @ room) (of_nat (length pre)) w x y z = Some (pre @ w # x # y # z # drop 4 room)"
proof -
  obtain a b c d r where room: "room = a # b # c # d # r"
    using assms(1) by (auto simp: numeral_eq_Suc Suc_le_length_iff)
  have n: "unat (of_nat (length pre) + k :: size_t) = length pre + unat k" if "unat k \<le> 4" for k
    using that assms(2) by (subst unat_add_no_overflow) auto
  have "poke (pre @ w # x # y # d # r) (length pre + 3) z = Some (pre @ w # x # y # z # r)"
    "poke (pre @ w # x # c # d # r) (length pre + 2) y = Some (pre @ w # x # y # d # r)"
    "poke (pre @ w # b # c # d # r) (length pre + 1) x = Some (pre @ w # x # c # d # r)"
    using poke_append [of "length pre + 3" "pre @ [w, x, y]" d r z]
      poke_append [of "length pre + 2" "pre @ [w, x]" c "d # r" y]
      poke_append [of "length pre + 1" "pre @ [w]" b "c # d # r" x]
    by simp_all
  then show ?thesis
    using n [of 0] n [of 1] n [of 2] n [of 3] by (simp add: put4_def room poke_append)
qed

lemmas output_chars = outputs_sextets [THEN alpha(1)]

declare ntop_loop.simps [simp del]

lemma ntop_loop_short: "\<not> 2 < n \<Longrightarrow> ntop_loop src n t d ts = Some (Inr (src, n, t, d))"
  by (simp add: ntop_loop.simps)

lemma ntop_loop_group:
  "2 < n \<Longrightarrow> ntop_loop (a # b # c # src) n t d ts =
     (if d + 4 > ts then Some (Inl t)
      else do {
        t \<leftarrow> put4 t d (sextet 3 a b c) (sextet 2 a b c) (sextet 1 a b c) (sextet 0 a b c);
        ntop_loop src (n - 3) t (d + 4) ts
      })"
  by (simp add: ntop_loop.simps [of "a # b # c # src"] output_chars sextet_outputs)

lemma drop_four: "drop (Suc (Suc (Suc (Suc n)))) xs = drop (n + 4) xs"
  by (simp add: numeral_eq_Suc)

definition ntop_from ::
  "byte list \<Rightarrow> size_t \<Rightarrow> byte list \<Rightarrow> size_t \<Rightarrow> size_t \<Rightarrow> (byte list + byte list \<times> size_t) option" where
  "ntop_from src n t d ts = do {
     r \<leftarrow> ntop_loop src n t d ts;
     case r of Inl t \<Rightarrow> Some (Inl t) | Inr (src, n, t, d) \<Rightarrow> ntop_pad src n t d ts
   }"

lemma ntop_from_correct:
  assumes "length bs < 2 ^ 64" "length pre \<le> unat ts" "unat ts \<le> length pre + length room" "length pre + length room < 2 ^ 63"
  shows "\<exists>t'. length t' = length pre + length room \<and>
    ntop_from (bs @ extra) (of_nat (length bs)) (pre @ room) (of_nat (length pre)) ts =
      (if length pre + length (base64_text bs) \<le> unat ts
       then Some (Inr (pre @ base64_text bs @ drop (length (base64_text bs)) room, of_nat (length pre + length (base64_text bs))))
       else Some (Inl t'))"
  using assms
proof (induction bs arbitrary: pre room rule: digits.induct)
  case 1
  then show ?case
    by (intro exI [of _ "pre @ room"]) (simp add: ntop_from_def ntop_pad_def ntop_loop_short)
next
  case (2 a)
  have u: "unat (of_nat (length pre) + 4 :: size_t) = length pre + 4"
    using 2 by (subst unat_add_no_overflow) auto
  show ?case
    using 2 by (intro exI [of _ "pre @ room"])
      (simp add: ntop_from_def ntop_pad_def ntop_loop_short nth_opt_def word_less_nat_alt u not_less put4_append output_chars sextet_outputs drop_four)
next
  case (3 a b)
  have u: "unat (of_nat (length pre) + 4 :: size_t) = length pre + 4"
    using 3 by (subst unat_add_no_overflow) auto
  show ?case
    using 3 by (intro exI [of _ "pre @ room"])
      (simp add: ntop_from_def ntop_pad_def ntop_loop_short nth_opt_def word_less_nat_alt u not_less put4_append output_chars sextet_outputs drop_four)
next
  case (4 a b c bs)
  have u: "unat (of_nat (length pre) + 4 :: size_t) = length pre + 4"
    using 4 by (subst unat_add_no_overflow) auto
  have "unat (3 + of_nat (length bs) :: size_t) = 3 + length bs"
    using 4(2) by (subst unat_add_no_overflow) auto
  then have n: "2 < (3 + of_nat (length bs) :: size_t)" by (simp add: word_less_nat_alt)
  show ?case
  proof (cases "length pre + 4 \<le> unat ts")
    case False
    then show ?thesis
      by (intro exI [of _ "pre @ room"]) (simp add: ntop_from_def ntop_loop_group [OF n] word_less_nat_alt u)
  next
    case True
    let ?pre = "pre @ [sextet 3 a b c, sextet 2 a b c, sextet 1 a b c, sextet 0 a b c]"
    have "ntop_from ((a # b # c # bs) @ extra) (of_nat (length (a # b # c # bs))) (pre @ room) (of_nat (length pre)) ts =
        ntop_from (bs @ extra) (of_nat (length bs)) (?pre @ drop 4 room) (of_nat (length ?pre)) ts"
      using True 4(3-5) by (simp add: ntop_from_def ntop_loop_group [OF n] word_less_nat_alt u not_less put4_append add.commute [of 4])
    moreover have prems: "length bs < 2 ^ 64" "length ?pre \<le> unat ts" "unat ts \<le> length ?pre + length (drop 4 room)"
      "length ?pre + length (drop 4 room) < 2 ^ 63"
      using 4(2-5) True by simp_all
    obtain t' where "length t' = length ?pre + length (drop 4 room)"
      "ntop_from (bs @ extra) (of_nat (length bs)) (?pre @ drop 4 room) (of_nat (length ?pre)) ts =
      (if length ?pre + length (base64_text bs) \<le> unat ts
       then Some (Inr (?pre @ base64_text bs @ drop (length (base64_text bs)) (drop 4 room), of_nat (length ?pre + length (base64_text bs))))
       else Some (Inl t'))"
      using 4(1) [OF prems] by blast
    moreover have "Suc (Suc (Suc (Suc (length pre + length room - 4)))) = length pre + length room"
      using True 4(3-5) by arith
    ultimately show ?thesis
      using True 4(3-5) by (intro exI [of _ t']) (simp add: drop_four)
  qed
qed


subsection \<open>The decoder\<close>

text \<open>
  The bytes that a list of sextets makes up; an incomplete group leaves the byte it has begun at the
  end.
\<close>

fun joined :: "byte list \<Rightarrow> byte list" where
  "joined [] = []"
| "joined [w] = [push_bit 2 w]"
| "joined [w, x] = [push_bit 2 w OR drop_bit 4 x, push_bit 4 (x AND 0x0f)]"
| "joined [w, x, y] =
     [push_bit 2 w OR drop_bit 4 x, push_bit 4 (x AND 0x0f) OR drop_bit 2 y, push_bit 6 (y AND 0x03)]"
| "joined (w # x # y # z # ds) =
     (push_bit 2 w OR drop_bit 4 x) # (push_bit 4 (x AND 0x0f) OR drop_bit 2 y) #
     (push_bit 6 (y AND 0x03) OR z) # joined ds"

lemma length_joined: "length (joined ds) = 3 * (length ds div 4) + length ds mod 4"
  by (induction ds rule: joined.induct) (simp_all add: div_add_self1)

lemma joined_mono: "length es \<le> length ds \<Longrightarrow> length (joined es) \<le> length (joined ds)"
proof -
  assume "length es \<le> length ds"
  then obtain j where j: "length ds = length es + j" using le_Suc_ex by blast
  have "(k + j) div 4 \<le> k div 4 + j" for k :: nat by presburger
  then have "length es - length es div 4 \<le> length ds - length ds div 4" unfolding j by (simp add: le_diff_conv2)
  moreover have "length (joined xs) = length xs - length xs div 4" for xs
    unfolding length_joined using mult_div_mod_eq [of 4 "length xs"] by linarith
  ultimately show ?thesis by simp
qed

lemma joined_append4: "length ds mod 4 = 0 \<Longrightarrow> joined (ds @ es) = joined ds @ joined es"
  by (induction ds rule: joined.induct) simp_all

lemma digits_append3: "length as mod 3 = 0 \<Longrightarrow> digits (as @ bs) = digits as @ digits bs"
  by (induction as rule: digits.induct) simp_all

text \<open>Every list of sextets is full groups and a tail of at most three.\<close>

lemma groupsE:
  obtains gs es where "ds = gs @ es" "length gs mod 4 = 0" "length es = length ds mod 4" "length ds div 4 = length gs div 4"
proof
  show "ds = take (4 * (length ds div 4)) ds @ drop (4 * (length ds div 4)) ds" by simp
  show "length (take (4 * (length ds div 4)) ds) mod 4 = 0" by simp
  show "length (drop (4 * (length ds div 4)) ds) = length ds mod 4" by (simp add: minus_mult_div_eq_mod)
  show "length ds div 4 = length (take (4 * (length ds div 4)) ds) div 4" by simp
qed

lemma tail_cases:
  assumes "length (es :: byte list) < 4"
  obtains "es = []" | w where "es = [w]" | w x where "es = [w, x]" | w x y where "es = [w, x, y]"
  using assms by (cases es rule: joined.cases) auto

text \<open>Where the loop stands after \<open>ds\<close>.\<close>

definition tarpos :: "byte list \<Rightarrow> nat" where
  "tarpos ds = 3 * (length ds div 4) + (length ds mod 4 - 1)"

lemma nth_opt_append: "i = length pre \<Longrightarrow> nth_opt (pre @ x # xs) i = Some x"
  by (simp add: nth_opt_def)

lemma pton_store_at:
  assumes "n + 1 < 2 ^ 32"
  shows "pton_store (Some t) ts (of_nat n) state pos =
    (if state = 0 then (if unat ts \<le> n then Some None else map_option (\<lambda>t. Some (Some t)) (poke t n (push_bit 2 pos)))
     else if state = 1
     then (if unat ts \<le> n + 1 then Some None
           else do {
             old \<leftarrow> nth_opt t n; t \<leftarrow> poke t n (old OR drop_bit 4 pos);
             map_option (\<lambda>t. Some (Some t)) (poke t (n + 1) (push_bit 4 (pos AND 0x0f)))
           })
     else if state = 2
     then (if unat ts \<le> n + 1 then Some None
           else do {
             old \<leftarrow> nth_opt t n; t \<leftarrow> poke t n (old OR drop_bit 2 pos);
             map_option (\<lambda>t. Some (Some t)) (poke t (n + 1) (push_bit 6 (pos AND 0x03)))
           })
     else (if unat ts \<le> n then Some None
           else do { old \<leftarrow> nth_opt t n; map_option (\<lambda>t. Some (Some t)) (poke t n (old OR pos)) }))"
proof -
  have u: "unat (of_nat n :: uint32) = n" using assms by (intro unat_of_nat_small) simp
  have u1: "unat (of_nat n + 1 :: uint32) = n + 1"
    using assms u by (subst unat_add_no_overflow) simp_all
  have c: "ucast (of_nat n :: uint32) \<ge> ts \<longleftrightarrow> unat ts \<le> n" "ucast (of_nat n + 1 :: uint32) \<ge> ts \<longleftrightarrow> unat ts \<le> n + 1"
    by (simp_all only: word_le_nat_alt unat_ucast_u32 u u1)
  show ?thesis by (simp only: pton_store_def Let_def option.case u u1 c)
qed

lemma pton_store_step:
  assumes "unat ts \<le> length (joined ds @ rest)" "length ds < 2 ^ 31"
  shows "pton_store (Some (joined ds @ rest)) ts (of_nat (tarpos ds)) (length ds mod 4) x =
    (if length (joined (ds @ [x])) \<le> unat ts
     then Some (Some (Some (joined (ds @ [x]) @ drop (length (joined (ds @ [x])) - length (joined ds)) rest)))
     else Some None)"
proof -
  obtain gs es where g: "ds = gs @ es" "length gs mod 4 = 0" "length es = length ds mod 4" "length ds div 4 = length gs div 4"
    by (rule groupsE)
  let ?n = "length (joined gs)"
  have n: "?n = 3 * (length gs div 4)" using g(2) by (simp add: length_joined)
  have j: "joined ds = joined gs @ joined es" "joined (ds @ [x]) = joined gs @ joined (es @ [x])"
    using joined_append4 [OF g(2)] g(1) by simp_all
  have p: "tarpos ds = ?n + (length es - 1)" using g(3,4) n by (simp add: tarpos_def)
  have "3 * (length ds div 4) \<le> length ds" "length ds mod 4 < 4" by auto
  then have lt: "tarpos ds + 1 < 2 ^ 32" using assms(2) unfolding tarpos_def by simp
  have i: "poke (joined gs @ a # as) ?n b = Some (joined gs @ b # as)" "nth_opt (joined gs @ a # as) ?n = Some a"
    "poke (joined gs @ a # a' # as) (Suc ?n) b = Some (joined gs @ a # b # as)"
    "nth_opt (joined gs @ a # a' # as) (Suc ?n) = Some a'"
    "poke (joined gs @ a # a' # a'' # as) (Suc (Suc ?n)) b = Some (joined gs @ a # a' # b # as)"
    "nth_opt (joined gs @ a # a' # a'' # as) (Suc (Suc ?n)) = Some a''" for a a' a'' b as
    using poke_append [of _ "joined gs" a as b] poke_append [of _ "joined gs @ [a]" a' as b]
      poke_append [of _ "joined gs @ [a, a']" a'' as b] nth_opt_append [of _ "joined gs" a as]
      nth_opt_append [of _ "joined gs @ [a]" a' as] nth_opt_append [of _ "joined gs @ [a, a']" a'' as] by simp_all
  have "length es < 4" using g(3) by simp
  then show ?thesis
    unfolding pton_store_at [OF lt] g(3) [symmetric] unfolding p j using assms(1) [unfolded j]
    by (cases rule: tail_cases; cases rest) (auto simp: i not_le Suc_le_eq)
qed


text \<open>What a text says: its characters up to the terminator, without white space.\<close>

definition squeeze :: "byte list \<Rightarrow> byte list" where
  "squeeze src = filter (\<lambda>c. \<not> isspace c) (takeWhile (\<lambda>c. c \<noteq> 0) src)"

lemma squeeze_simps [simp]:
  "squeeze (0 # src) = []"
  "c \<noteq> 0 \<Longrightarrow> isspace c \<Longrightarrow> squeeze (c # src) = squeeze src"
  "c \<noteq> 0 \<Longrightarrow> \<not> isspace c \<Longrightarrow> squeeze (c # src) = c # squeeze src"
  by (simp_all add: squeeze_def)

lemma tarpos_snoc: "tarpos (ds @ [x]) = tarpos ds + (if length ds mod 4 = 0 then 0 else 1)"
proof -
  have "length ds mod 4 = 3 \<Longrightarrow> Suc (length ds) div 4 = Suc (length ds div 4)" by (simp add: div_Suc mod_Suc)
  moreover have "length ds mod 4 < 4" by simp
  ultimately show ?thesis
    by (auto simp: tarpos_def mod_Suc div_Suc)
qed

text \<open>The two ways the loop ends on the text \<open>src\<close> after the sextets \<open>ds\<close>.\<close>

definition pton_failed :: "size_t \<Rightarrow> byte list \<Rightarrow> byte list \<Rightarrow> bool" where
  "pton_failed ts ds src \<longleftrightarrow>
     (\<exists>c \<in> set (squeeze src). strchr_Base64 c = None \<and> c \<noteq> Pad64) \<or>
     (\<exists>es u. (\<forall>d \<in> set es. d < 64) \<and> squeeze src = map alpha es @ u \<and> unat ts < length (joined (ds @ es)))"

definition pton_stopped :: "size_t \<Rightarrow> byte list \<Rightarrow> byte list \<Rightarrow> nat \<Rightarrow> pton_state \<Rightarrow> bool" where
  "pton_stopped ts ds src len st \<longleftrightarrow>
     (\<exists>es r. (\<forall>d \<in> set es. d < 64) \<and> ptarget st = Some (joined (ds @ es) @ r) \<and> length (joined (ds @ es) @ r) = len \<and>
        length (joined (ds @ es)) \<le> unat ts \<and> length (ds @ es) < 2 ^ 31 \<and>
        ptarindex st = of_nat (tarpos (ds @ es)) \<and> pstate st = length (ds @ es) mod 4 \<and>
        (pch st = 0 \<and> squeeze src = map alpha es \<or>
         pch st = Pad64 \<and> squeeze src = map alpha es @ Pad64 # squeeze (psrc st) \<and> 0 \<in> set (psrc st)))"

lemma pton_failed_more:
  assumes "pton_failed ts (ds @ [x]) src" "x < 64"
  shows "pton_failed ts ds (alpha x # src)"
proof -
  have [simp]: "squeeze (alpha x # src) = alpha x # squeeze src" using alpha [OF assms(2)] by simp
  from assms(1) consider c where "c \<in> set (squeeze src)" "strchr_Base64 c = None" "c \<noteq> Pad64"
    | es u where "\<forall>d \<in> set es. d < 64" "squeeze src = map alpha es @ u" "unat ts < length (joined ((ds @ [x]) @ es))"
    unfolding pton_failed_def by blast
  then show ?thesis
  proof cases
    case 2
    then show ?thesis
      using assms(2) unfolding pton_failed_def by (intro disjI2 exI [of _ "x # es"] exI [of _ u]) simp
  qed (auto simp: pton_failed_def)
qed

lemma pton_stopped_more:
  assumes "pton_stopped ts (ds @ [x]) src len st" "x < 64"
  shows "pton_stopped ts ds (alpha x # src) len st"
proof -
  have [simp]: "squeeze (alpha x # src) = alpha x # squeeze src" using alpha [OF assms(2)] by simp
  from assms(1) obtain es r where "\<forall>d \<in> set es. d < 64" "ptarget st = Some (joined ((ds @ [x]) @ es) @ r)"
    "length (joined ((ds @ [x]) @ es) @ r) = len"
    "length (joined ((ds @ [x]) @ es)) \<le> unat ts" "length ((ds @ [x]) @ es) < 2 ^ 31"
    "ptarindex st = of_nat (tarpos ((ds @ [x]) @ es))" "pstate st = length ((ds @ [x]) @ es) mod 4"
    "pch st = 0 \<and> squeeze src = map alpha es \<or>
       pch st = Pad64 \<and> squeeze src = map alpha es @ Pad64 # squeeze (psrc st) \<and> 0 \<in> set (psrc st)"
    unfolding pton_stopped_def by blast
  then show ?thesis
    using assms(2) unfolding pton_stopped_def by (intro exI [of _ "x # es"] exI [of _ r]) simp
qed

lemma pton_loop_spec:
  assumes "0 \<in> set src" "unat ts \<le> length (joined ds @ rest)" "length (joined ds) \<le> unat ts" "length ds + length src < 2 ^ 31"
  shows "(\<exists>t'. length t' = length (joined ds @ rest) \<and> pton_failed ts ds src \<and>
      pton_loop src (Some (joined ds @ rest)) ts (of_nat (tarpos ds)) (length ds mod 4) = Some (Inl (Some t'))) \<or>
    (\<exists>st. pton_stopped ts ds src (length (joined ds @ rest)) st \<and>
      pton_loop src (Some (joined ds @ rest)) ts (of_nat (tarpos ds)) (length ds mod 4) = Some (Inr st))"
  using assms
proof (induction src arbitrary: ds rest)
  case (Cons c src)
  consider (stop) "c = 0 \<or> c = Pad64" | (space) "c \<noteq> 0" "c \<noteq> Pad64" "isspace c"
    | (bad) "c \<noteq> 0" "c \<noteq> Pad64" "\<not> isspace c" "strchr_Base64 c = None"
    | (char) x where "c \<noteq> 0" "c \<noteq> Pad64" "\<not> isspace c" "strchr_Base64 c = Some x"
    by (cases "strchr_Base64 c") auto
  then show ?case
  proof cases
    case stop
    have [simp]: "\<not> isspace Pad64" "Pad64 \<noteq> 0" by (simp_all add: isspace_def Pad64_def)
    let ?st = "\<lparr>psrc = src, pch = c, ptarget = Some (joined ds @ rest), ptarindex = of_nat (tarpos ds), pstate = length ds mod 4\<rparr>"
    have "pton_stopped ts ds (c # src) (length (joined ds @ rest)) ?st"
      unfolding pton_stopped_def using stop Cons.prems by (intro exI [of _ "[]"] exI [of _ rest]) auto
    moreover have "pton_loop (c # src) (Some (joined ds @ rest)) ts (of_nat (tarpos ds)) (length ds mod 4) = Some (Inr ?st)"
      using stop by auto
    ultimately show ?thesis by blast
  next
    case space
    then show ?thesis using Cons by (simp add: pton_failed_def pton_stopped_def)
  next
    case bad
    then show ?thesis by (intro disjI1 exI [of _ "joined ds @ rest"]) (simp add: pton_failed_def)
  next
    case char
    have x: "x < 64" "c = alpha x" using strchr_alpha [OF char(4)] by simp_all
    let ?r = "drop (length (joined (ds @ [x])) - length (joined ds)) rest"
    have step: "pton_store (Some (joined ds @ rest)) ts (of_nat (tarpos ds)) (length ds mod 4) x =
        (if length (joined (ds @ [x])) \<le> unat ts then Some (Some (Some (joined (ds @ [x]) @ ?r))) else Some None)"
      using Cons.prems by (intro pton_store_step) simp_all
    show ?thesis
    proof (cases "length (joined (ds @ [x])) \<le> unat ts")
      case False
      have "pton_failed ts ds (c # src)"
        unfolding pton_failed_def using x False char(1,3)
        by (intro disjI2 exI [of _ "[x]"] exI [of _ "squeeze src"]) simp
      with False char step show ?thesis
        by (intro disjI1 exI [of _ "joined ds @ rest"]) simp
    next
      case True
      have mono: "length (joined ds) \<le> length (joined (ds @ [x]))"
        by (auto simp: length_joined div_Suc mod_Suc)
      have len: "length (joined (ds @ [x]) @ ?r) = length (joined ds @ rest)"
        using True Cons.prems(2,3) mono by simp
      have nxt: "pton_loop (c # src) (Some (joined ds @ rest)) ts (of_nat (tarpos ds)) (length ds mod 4) =
          pton_loop src (Some (joined (ds @ [x]) @ ?r)) ts (of_nat (tarpos (ds @ [x]))) (length (ds @ [x]) mod 4)"
        using True char step by (simp add: tarpos_snoc mod_Suc_eq add.commute)
      have ih: "(\<exists>t'. length t' = length (joined ds @ rest) \<and> pton_failed ts (ds @ [x]) src \<and>
          pton_loop (c # src) (Some (joined ds @ rest)) ts (of_nat (tarpos ds)) (length ds mod 4) = Some (Inl (Some t'))) \<or>
        (\<exists>st. pton_stopped ts (ds @ [x]) src (length (joined ds @ rest)) st \<and>
          pton_loop (c # src) (Some (joined ds @ rest)) ts (of_nat (tarpos ds)) (length ds mod 4) = Some (Inr st))"
        unfolding nxt len [symmetric]
        by (rule Cons.IH) (use Cons.prems char(1) True in \<open>simp_all only: len, simp_all\<close>)
      then show ?thesis
        using pton_failed_more [OF _ x(1), of ts ds src] pton_stopped_more [OF _ x(1), of ts ds src] x(2) by blast
    qed
  qed
qed simp


lemma skip_spaces_spec:
  assumes "0 \<in> set (c # src)"
  shows "\<exists>d src'. skip_spaces c src = Some (d, src') \<and>
    (d = 0 \<and> squeeze (c # src) = [] \<or> d \<noteq> 0 \<and> squeeze (c # src) = d # squeeze src' \<and> 0 \<in> set src')"
  using assms
proof (induction src arbitrary: c)
  case Nil
  then show ?case by (simp add: skip_spaces.simps)
next
  case (Cons d src)
  show ?case
  proof (cases "c = 0 \<or> \<not> isspace c")
    case True
    then show ?thesis using Cons.prems by (cases "c = 0") (auto simp: skip_spaces.simps)
  next
    case False
    then show ?thesis using Cons by (simp add: skip_spaces.simps [of c "d # src"])
  qed
qed

declare skip_spaces.simps [simp del]

text \<open>When the text ends with the padding the sextets call for and no bit is left over.\<close>

definition complete :: "byte list \<Rightarrow> byte list \<Rightarrow> bool" where
  "complete ds pads \<longleftrightarrow>
     length ds mod 4 \<noteq> 1 \<and> pads = replicate ((4 - length ds mod 4) mod 4) Pad64 \<and>
     (length ds mod 4 \<noteq> 0 \<longrightarrow> last (joined ds) = 0)"

lemma tarpos_small: "length ds < 2 ^ 31 \<Longrightarrow> tarpos ds < 2 ^ 31"
proof -
  have "tarpos ds \<le> 4 * (length ds div 4) + length ds mod 4" unfolding tarpos_def by linarith
  then have "tarpos ds \<le> length ds" by (simp only: mult_div_mod_eq)
  then show "length ds < 2 ^ 31 \<Longrightarrow> tarpos ds < 2 ^ 31" by simp
qed

lemma ucast_of_nat_32: "ucast (of_nat n :: uint64) = (of_nat n :: uint32)"
  by (rule bit_word_eqI) (auto simp: bit_simps)

lemma sint_of_nat_small: "n < 2 ^ 31 \<Longrightarrow> sint (of_nat n :: uint32) = int n"
  by (simp add: signed_of_nat signed_take_bit_int_eq_self)

lemma nth_tarpos: "length ds mod 4 \<noteq> 0 \<Longrightarrow> nth_opt (joined ds @ r) (tarpos ds) = Some (last (joined ds))"
proof -
  assume "length ds mod 4 \<noteq> 0"
  then have "tarpos ds = length (joined ds) - 1" "joined ds \<noteq> []"
    by (auto simp: tarpos_def length_joined simp flip: length_0_conv)
  moreover from this have lt: "tarpos ds < length (joined ds)" by (cases "joined ds") auto
  then have "nth_opt (joined ds @ r) (tarpos ds) = Some (joined ds ! tarpos ds)"
    by (simp add: nth_opt_def nth_append)
  ultimately show ?thesis by (simp add: last_conv_nth)
qed

lemma pton_finish_pad:
  assumes st: "pch st = Pad64" "ptarget st = Some (joined ds @ r)" "ptarindex st = of_nat (tarpos ds)" "pstate st = length ds mod 4"
    and "0 \<in> set (psrc st)" "length ds < 2 ^ 31"
  shows "pton_finish st = Some (if complete ds (Pad64 # squeeze (psrc st)) then int (tarpos ds) else - 1, Some (joined ds @ r))"
proof -
  have pos: "unat (of_nat (tarpos ds) :: uint32) = tarpos ds" "sint (of_nat (tarpos ds) :: uint32) = int (tarpos ds)"
    using tarpos_small [OF assms(6)] by (simp_all add: sint_of_nat_small)
  obtain c src where src: "psrc st = c # src" using assms(5) by (cases "psrc st") auto
  obtain d src' where d: "skip_spaces c src = Some (d, src')"
    "d = 0 \<and> squeeze (c # src) = [] \<or> d \<noteq> 0 \<and> squeeze (c # src) = d # squeeze src' \<and> 0 \<in> set src'"
    using skip_spaces_spec [of c src] assms(5) src by auto
  have last: "nth_opt (joined ds @ r) (tarpos ds) = Some (last (joined ds))" if "length ds mod 4 \<noteq> 0"
    using that by (rule nth_tarpos)
  have "length ds mod 4 \<in> {0, 1, 2, 3}" by auto
  then consider (bad) "length ds mod 4 \<in> {0, 1}" | (one) "length ds mod 4 = 3" | (two) "length ds mod 4 = 2" by auto
  then show ?thesis
  proof cases
    case bad
    then show ?thesis by (auto simp: pton_finish_def st src next_char_def complete_def)
  next
    case one
    then show ?thesis
      using last d by (auto simp: pton_finish_def st src next_char_def complete_def pos)
  next
    case two
    show ?thesis
    proof (cases "d = Pad64")
      case False
      with two d show ?thesis by (auto simp: pton_finish_def st src next_char_def complete_def replicate_two)
    next
      case True
      then have sq: "squeeze (c # src) = Pad64 # squeeze src'" "0 \<in> set src'" using d(2) by (auto simp: Pad64_def)
      then obtain c' src'' where src': "src' = c' # src''" by (cases src') auto
      obtain d' src3 where d': "skip_spaces c' src'' = Some (d', src3)"
        "d' = 0 \<and> squeeze (c' # src'') = [] \<or> d' \<noteq> 0 \<and> squeeze (c' # src'') = d' # squeeze src3"
        using skip_spaces_spec [of c' src''] sq(2) src' by auto
      show ?thesis
        using two last d(1) True d' sq(1)
        by (auto simp: pton_finish_def st src src' next_char_def complete_def replicate_two pos)
    qed
  qed
qed

lemma pton_finish_end:
  assumes st: "pch st = 0" "ptarget st = Some t" "ptarindex st = of_nat (tarpos ds)" "pstate st = length ds mod 4"
    and "length ds < 2 ^ 31"
  shows "pton_finish st = Some (if complete ds [] then int (tarpos ds) else - 1, Some t)"
proof -
  have "(4 - length ds mod 4) mod 4 = 0 \<longleftrightarrow> length ds mod 4 = 0" 
    by (cases "length ds mod 4 = 0") (auto simp: mod_less)
  then show ?thesis
    using tarpos_small [OF assms(5)]
    by (auto simp: pton_finish_def st complete_def sint_of_nat_small Pad64_def)
qed


subsection \<open>Texts and sextets\<close>

lemma joined_digits: "joined (digits bs) = bs @ (if length bs mod 3 = 0 then [] else [0])"
proof (induction bs rule: digits.induct)
  case (2 a)
  have "push_bit 4 (output1 a 0 AND 0x0f) = 0" unfolding output_bits by (simp add: bit_simps)
  then show ?case using outputs_join(1) [of a 0] by simp
next
  case (3 a b)
  have "push_bit 6 (output2 b 0 AND 0x03) = 0" unfolding output_bits by (simp add: bit_simps)
  then show ?case using outputs_join(1) [of a b] outputs_join(2) [of a b 0] by simp
next
  case (4 a b c bs)
  then show ?case using outputs_join(1) [of a b] outputs_join(2) [of a b c] outputs_join(3) [of b c] by simp
qed simp

lemma length_digits:
  "length (digits bs) mod 4 = (if length bs mod 3 = 0 then 0 else length bs mod 3 + 1)"
  by (induction bs rule: digits.induct) simp_all

lemma digits_of_joined:
  assumes "\<forall>d \<in> set ds. d < 64" "complete ds pads"
  shows "\<exists>bs. digits bs = ds \<and> length bs = tarpos ds \<and> pads = replicate ((3 - length bs mod 3) mod 3) Pad64 \<and>
    joined ds = bs @ (if length ds mod 4 = 0 then [] else [0])"
  using assms
proof (induction ds rule: joined.induct)
  case 1
  then show ?case by (intro exI [of _ "[]"]) (simp add: complete_def tarpos_def)
next
  case (2 w)
  then show ?case by (simp add: complete_def)
next
  case (3 w x)
  have z: "push_bit 4 (x AND 0x0f) = 0" using 3 by (simp add: complete_def)
  have "output1 (push_bit 2 w OR drop_bit 4 x) 0 = x"
    using outputs_split(2) [of w x 0 0] 3 z by simp
  with 3 z show ?case
    by (intro exI [of _ "[push_bit 2 w OR drop_bit 4 x]"])
       (simp add: outputs_split(1) [of w x 0 0] complete_def tarpos_def)
next
  case (4 w x y)
  have z: "push_bit 6 (y AND 0x03) = 0" using 4 by (simp add: complete_def)
  have "output2 (push_bit 4 (x AND 0x0f) OR drop_bit 2 y) 0 = y"
    using outputs_split(3) [of w x y 0] 4 z by simp
  with 4 z show ?case
    using outputs_split(1,2) [of w x y 0]
    by (intro exI [of _ "[push_bit 2 w OR drop_bit 4 x, push_bit 4 (x AND 0x0f) OR drop_bit 2 y]"])
       (simp add: complete_def tarpos_def)
next
  case (5 w x y z ds)
  have m: "length (w # x # y # z # ds) mod 4 = length ds mod 4" by simp
  have "joined ds \<noteq> []" if "length ds mod 4 \<noteq> 0" using that by (auto simp: length_joined simp flip: length_0_conv)
  then have "complete ds pads" using 5(3) unfolding complete_def m by auto
  then obtain bs where bs: "digits bs = ds" "length bs = tarpos ds" "pads = replicate ((3 - length bs mod 3) mod 3) Pad64"
      "joined ds = bs @ (if length ds mod 4 = 0 then [] else [0])"
    using 5(1,2) by auto
  let ?b = "[push_bit 2 w OR drop_bit 4 x, push_bit 4 (x AND 0x0f) OR drop_bit 2 y, push_bit 6 (y AND 0x03) OR z]"
  have "tarpos (w # x # y # z # ds) = 3 + tarpos ds" by (simp add: tarpos_def div_add_self1)
  with bs 5(2) show ?case
    using outputs_split [of w x y z] by (intro exI [of _ "?b @ bs"]) simp
qed

lemma complete_digits: "complete (digits bs) (replicate ((3 - length bs mod 3) mod 3) Pad64)"
proof -
  have "length bs mod 3 \<in> {0, 1, 2}" by auto
  then have "(3 - length bs mod 3) mod 3 = (4 - length (digits bs) mod 4) mod 4" "length (digits bs) mod 4 \<noteq> 1"
    by (auto simp: length_digits)
  then show ?thesis by (simp add: complete_def joined_digits length_digits)
qed

lemma text_split:
  assumes "\<forall>d \<in> set ds. d < 64" "pads = [] \<or> hd pads = Pad64"
    and "map alpha ds @ pads = map alpha (digits bs) @ replicate l Pad64"
  shows "ds = digits bs" "pads = replicate l Pad64"
proof -
  have t: "takeWhile (\<lambda>c. c \<noteq> Pad64) (map alpha es @ ps) = map alpha es"
    if "\<forall>d \<in> set es. d < 64" "ps = [] \<or> hd ps = Pad64" for es ps
    using that alpha(4) by (subst takeWhile_append2) (cases ps; auto)+
  have d: "\<forall>d \<in> set (digits bs). d < 64" using digits_sextets by blast
  have eq: "map alpha ds = map alpha (digits bs)"
    using t [OF assms(1,2)] t [OF d, of "replicate l Pad64"] assms(3) by (cases l) auto
  have "map strchr_Base64 (map alpha ds) = map strchr_Base64 (map alpha (digits bs))"
    by (simp only: eq)
  moreover have "map strchr_Base64 (map alpha es) = map Some es" if "\<forall>d \<in> set es. d < 64" for es
    using that by (simp add: alpha(2))
  ultimately have "map Some ds = map Some (digits bs)" using assms(1) d by metis
  then show "ds = digits bs" by (rule map_injective) simp
  show "pads = replicate l Pad64" using assms(3) eq by simp
qed

subsection \<open>Properties\<close>

definition room_for :: "byte list \<Rightarrow> nat" where
  "room_for bs = (if length bs mod 3 = 0 then length bs else length bs + 1)"

lemma failed_no_text:
  assumes "pton_failed ts [] src" "squeeze src = base64_text bs"
  shows "unat ts < room_for bs"
proof -
  have d: "\<forall>d \<in> set (digits bs). d < 64" using digits_sextets by blast
  from assms(1) consider c where "c \<in> set (squeeze src)" "strchr_Base64 c = None" "c \<noteq> Pad64"
    | es u where "\<forall>d \<in> set es. d < 64" "squeeze src = map alpha es @ u" "unat ts < length (joined es)"
    unfolding pton_failed_def by auto
  then show ?thesis
  proof cases
    case 1
    then show ?thesis using assms(2) d alpha(2) by (auto simp: base64_text_digits)
  next
    case 2
    have "length es \<le> length (digits bs)"
    proof (rule ccontr)
      let ?k = "length (digits bs)"
      assume "\<not> length es \<le> ?k"
      then have k: "?k < length es" "es ! ?k \<in> set es" by simp_all
      have "base64_text bs ! ?k = alpha (es ! ?k)" "?k < length (base64_text bs)"
        using 2(2) assms(2) k(1) by (auto simp: nth_append)
      moreover have "alpha (es ! ?k) \<noteq> Pad64" using alpha(4) 2(1) k(2) by blast
      ultimately show False by (auto simp: base64_text_digits nth_append)
    qed
    then have "length (joined es) \<le> length (joined (digits bs))" by (rule joined_mono)
    then show ?thesis using 2(3) by (simp add: joined_digits room_for_def split: if_splits)
  qed
qed


lemma f_b64_pton_spec:
  assumes "0 \<in> set src" "unat ts \<le> length t" "length src < 2 ^ 31"
  shows "\<exists>r t'. f_b64_pton src (Some t) ts = Some (r, Some t') \<and> length t' = length t \<and>
    (r = - 1 \<and> (\<forall>bs. squeeze src = base64_text bs \<longrightarrow> unat ts < room_for bs) \<or>
     (\<exists>bs. squeeze src = base64_text bs \<and> room_for bs \<le> unat ts \<and> r = int (length bs) \<and> take (length bs) t' = bs))"
proof -
  from pton_loop_spec [of src ts "[]" t] assms
  consider (failed) t' where "length t' = length t" "pton_failed ts [] src" "pton_loop src (Some t) ts 0 0 = Some (Inl (Some t'))"
    | (stopped) st where "pton_stopped ts [] src (length t) st" "pton_loop src (Some t) ts 0 0 = Some (Inr st)"
    by (auto simp: tarpos_def)
  then show ?thesis
  proof cases
    case failed
    then show ?thesis using failed_no_text by (auto simp: f_b64_pton_def)
  next
    case stopped
    then obtain es r where es: "\<forall>d \<in> set es. d < 64" "ptarget st = Some (joined es @ r)" "length (joined es @ r) = length t"
      "length (joined es) \<le> unat ts" "length es < 2 ^ 31" "ptarindex st = of_nat (tarpos es)" "pstate st = length es mod 4"
      and ends: "pch st = 0 \<and> squeeze src = map alpha es \<or>
        pch st = Pad64 \<and> squeeze src = map alpha es @ Pad64 # squeeze (psrc st) \<and> 0 \<in> set (psrc st)"
      unfolding pton_stopped_def by auto
    obtain pads where pads: "squeeze src = map alpha es @ pads" "pads = [] \<or> hd pads = Pad64"
      "pton_finish st = Some (if complete es pads then int (tarpos es) else - 1, Some (joined es @ r))"
      using ends pton_finish_end [of st "joined es @ r" es] pton_finish_pad [of st es r] es by auto
    have run: "f_b64_pton src (Some t) ts = Some (if complete es pads then int (tarpos es) else - 1, Some (joined es @ r))"
      using stopped(2) pads(3) by (simp add: f_b64_pton_def)
    show ?thesis
    proof (cases "complete es pads")
      case True
      then obtain bs where bs: "digits bs = es" "length bs = tarpos es" "pads = replicate ((3 - length bs mod 3) mod 3) Pad64"
        "joined es = bs @ (if length es mod 4 = 0 then [] else [0])"
        using digits_of_joined [OF es(1)] by blast
      have "squeeze src = base64_text bs" using bs pads(1) by (simp add: base64_text_digits)
      moreover have "room_for bs \<le> unat ts" using es(4) bs(1) joined_digits [of bs] by (auto simp: room_for_def split: if_splits)
      moreover have "take (length bs) (joined es @ r) = bs" using bs(4) by simp
      ultimately show ?thesis
        using run True es(3) bs(2) by (intro exI [of _ "int (length bs)"] exI [of _ "joined es @ r"] conjI disjI2 exI [of _ bs]) simp_all
    next
      case False
      have "squeeze src \<noteq> base64_text bs" for bs
      proof
        assume "squeeze src = base64_text bs"
        then have "map alpha es @ pads = map alpha (digits bs) @ replicate ((3 - length bs mod 3) mod 3) Pad64"
          using pads(1) by (simp add: base64_text_digits)
        from text_split [OF es(1) pads(2) this] False show False using complete_digits by simp
      qed
      then show ?thesis using run False es(3) by auto
    qed
  qed
qed


lemma f_b64_ntop_spec:
  assumes "length bs < 2 ^ 64" "unat ts \<le> length target" "length target < 2 ^ 63"
  shows "\<exists>t'. length t' = length target \<and>
    f_b64_ntop (bs @ extra) (of_nat (length bs)) target ts =
      (if length (base64_text bs) < unat ts
       then Some (sint (of_nat (length (base64_text bs)) :: uint32),
                  base64_text bs @ 0 # drop (length (base64_text bs) + 1) target)
       else Some (- 1, t'))"
proof -
  let ?text = "base64_text bs"
  obtain t' where t': "length t' = length target"
    "ntop_from (bs @ extra) (of_nat (length bs)) target 0 ts =
      (if length ?text \<le> unat ts then Some (Inr (?text @ drop (length ?text) target, of_nat (length ?text))) else Some (Inl t'))"
    using ntop_from_correct [of bs "[]" ts target extra] assms by auto
  have eq: "f_b64_ntop (bs @ extra) (of_nat (length bs)) target ts = do {
      r \<leftarrow> ntop_from (bs @ extra) (of_nat (length bs)) target 0 ts;
      case r of Inl t \<Rightarrow> Some (- 1, t)
      | Inr (t, d) \<Rightarrow> (if d \<ge> ts then Some (- 1, t) else do { t \<leftarrow> poke t (unat d) 0; Some (sint (ucast d :: uint32), t) })
    }"
    by (auto simp: f_b64_ntop_def ntop_from_def bind_assoc intro!: Option.bind_cong split: sum.splits)
  show ?thesis
  proof (cases "length ?text \<le> unat ts")
    case False
    with t' eq show ?thesis by auto
  next
    case True
    have u: "unat (of_nat (length ?text) :: size_t) = length ?text"
      using True assms by (intro unat_of_nat_small) simp
    show ?thesis
    proof (cases "length ?text < unat ts")
      case False
      with True t'(2) eq u show ?thesis
        by (intro exI [of _ "?text @ drop (length ?text) target"]) (use assms in \<open>simp add: word_le_nat_alt\<close>)
    next
      case fits: True
      then obtain x xs where "drop (length ?text) target = x # xs"
        using assms(2) by (cases "drop (length ?text) target") auto
      moreover from this have "xs = drop (length ?text + 1) target"
        by (metis drop_Suc tl_drop list.sel(3) Suc_eq_plus1)
      ultimately show ?thesis
        using fits t'(2) eq u t'(1) by (intro exI [of _ t']) (simp add: word_le_nat_alt not_le poke_append ucast_of_nat_32)
    qed
  qed
qed


text \<open>
  \<^verbatim>\<open>f_b64_ntop\<close> writes the base64 text of the source with its terminator and returns the length of the
  text, when the target has room for both; otherwise it returns -1.  It never writes outside the
  target.
\<close>

theorem f_b64_ntop_correct:
  assumes "length bs < 2 ^ 64" "unat ts \<le> length target" "length target < 2 ^ 63"
  shows "\<exists>t'. length t' = length target \<and>
    f_b64_ntop (bs @ extra) (of_nat (length bs)) target ts =
      (if length (base64_text bs) < unat ts
       then Some (sint (of_nat (length (base64_text bs)) :: uint32),
                  base64_text bs @ 0 # drop (length (base64_text bs) + 1) target)
       else Some (- 1, t'))"
  using assms by (rule f_b64_ntop_spec)

theorem f_b64_ntop_correct_witness:
  "\<exists>t'. length t' = length (replicate 9 (7 :: byte)) \<and>
    f_b64_ntop ([77, 97, 110, 33] @ [1]) (of_nat (length [77, 97, 110, 33 :: byte])) (replicate 9 7) 9 =
      (if length (base64_text [77, 97, 110, 33]) < unat (9 :: size_t)
       then Some (sint (of_nat (length (base64_text [77, 97, 110, 33])) :: uint32),
                  base64_text [77, 97, 110, 33] @ 0 # drop (length (base64_text [77, 97, 110, 33]) + 1) (replicate 9 7))
       else Some (- 1, t'))"
  by (rule f_b64_ntop_correct) simp_all

text \<open>
  (C30) \<^verbatim>\<open>f_b64_pton\<close> accepts exactly the base64 texts, with white space anywhere: it returns the number of
  bytes and leaves them at the start of the target when the terminated source spells the text of
  some byte string and the target has room for it, and returns -1 for every other source.  In
  particular the left-over bits of the last character must be zero, so a byte string has one text
  only.  A padded text needs one byte more in the target than it has data.  The target is never
  left, whatever the source holds.
\<close>

theorem f_b64_pton_exact:
  assumes "0 \<in> set src" "unat ts \<le> length t" "length src < 2 ^ 31"
  shows "\<exists>r t'. f_b64_pton src (Some t) ts = Some (r, Some t') \<and> length t' = length t \<and>
    (r = - 1 \<and> (\<forall>bs. squeeze src = base64_text bs \<longrightarrow> unat ts < room_for bs) \<or>
     (\<exists>bs. squeeze src = base64_text bs \<and> room_for bs \<le> unat ts \<and> r = int (length bs) \<and> take (length bs) t' = bs))"
  using assms by (rule f_b64_pton_spec)

theorem f_b64_pton_exact_witness:
  "\<exists>r t'. f_b64_pton [84, 81, 32, 61, 10, 61, 0] (Some [1, 2]) 2 = Some (r, Some t') \<and> length t' = length [1, 2 :: byte] \<and>
    (r = - 1 \<and> (\<forall>bs. squeeze [84, 81, 32, 61, 10, 61, 0] = base64_text bs \<longrightarrow> unat (2 :: size_t) < room_for bs) \<or>
     (\<exists>bs. squeeze [84, 81, 32, 61, 10, 61, 0] = base64_text bs \<and> room_for bs \<le> unat (2 :: size_t) \<and>
        r = int (length bs) \<and> take (length bs) t' = bs))"
  by (rule f_b64_pton_exact) simp_all

lemma base64_text_inj: "base64_text as = base64_text bs \<Longrightarrow> as = bs"
proof -
  assume eq: "base64_text as = base64_text bs"
  let ?p = "\<lambda>bs :: byte list. replicate ((3 - length bs mod 3) mod 3) Pad64"
  have "?p as = [] \<or> hd (?p as) = Pad64" by (cases "(3 - length as mod 3) mod 3") simp_all
  moreover have "map alpha (digits as) @ ?p as = map alpha (digits bs) @ ?p bs" using eq by (simp only: base64_text_digits)
  moreover have "\<forall>d \<in> set (digits as). d < 64" using digits_sextets by blast
  ultimately have d: "digits as = digits bs" using text_split(1) by blast
  have "(if length as mod 3 = 0 then 0 else length as mod 3 + 1) = (if length bs mod 3 = 0 then 0 else length bs mod 3 + 1)"
    using length_digits [of as] length_digits [of bs] d by metis
  then have "length as mod 3 = 0 \<longleftrightarrow> length bs mod 3 = 0" by (simp split: if_splits)
  moreover have "as @ (if length as mod 3 = 0 then [] else [0]) = bs @ (if length bs mod 3 = 0 then [] else [0])"
    using joined_digits [of as] joined_digits [of bs] d by metis
  ultimately show "as = bs" by (simp split: if_splits)
qed

lemma squeeze_base64_text: "squeeze (base64_text bs @ 0 # rest) = base64_text bs"
proof -
  have "c \<noteq> 0 \<and> \<not> isspace c" if "c \<in> set (base64_text bs)" for c
    using that alpha digits_sextets by (auto simp: base64_text_digits Pad64_def isspace_def)
  then show ?thesis unfolding squeeze_def by (subst takeWhile_append2) auto
qed


text \<open>
  (C29) Round trip: what \<^verbatim>\<open>f_b64_ntop\<close> writes, \<^verbatim>\<open>f_b64_pton\<close> turns back into the same bytes.
\<close>

theorem base64_roundtrip:
  assumes "length (base64_text bs) < unat ts" "unat ts \<le> length t" "length t < 2 ^ 31"
    and "room_for bs \<le> unat us" "unat us \<le> length u"
  shows "\<exists>text u'. f_b64_ntop bs (of_nat (length bs)) t ts = Some (int (length (base64_text bs)), text) \<and>
    f_b64_pton text (Some u) us = Some (int (length bs), Some u') \<and> take (length bs) u' = bs"
proof -
  let ?text = "base64_text bs @ 0 # drop (length (base64_text bs) + 1) t"
  have len: "length (base64_text bs) < 2 ^ 31" using assms by simp
  have "length bs \<le> length (base64_text bs)" using length_base64_text [of bs] by simp
  then have enc: "f_b64_ntop bs (of_nat (length bs)) t ts = Some (int (length (base64_text bs)), ?text)"
    using f_b64_ntop_spec [of bs ts t "[]"] assms len by (auto simp: sint_of_nat_small)
  have lt: "length ?text < 2 ^ 31" using assms by simp
  have "\<exists>r u'. f_b64_pton ?text (Some u) us = Some (r, Some u') \<and> length u' = length u \<and>
    (r = - 1 \<and> (\<forall>cs. squeeze ?text = base64_text cs \<longrightarrow> unat us < room_for cs) \<or>
     (\<exists>cs. squeeze ?text = base64_text cs \<and> room_for cs \<le> unat us \<and> r = int (length cs) \<and> take (length cs) u' = cs))"
    by (rule f_b64_pton_spec) (use assms(5) lt in simp_all)
  then obtain r u' where dec: "f_b64_pton ?text (Some u) us = Some (r, Some u')"
    "r = int (length bs)" "take (length bs) u' = bs"
    unfolding squeeze_base64_text using assms(4) base64_text_inj by (metis not_less)
  with enc show ?thesis by blast
qed

theorem base64_roundtrip_witness:
  "\<exists>text u'. f_b64_ntop [0, 255] (of_nat (length [0, 255 :: byte])) [0, 0, 0, 0, 0] 5 = Some (int (length (base64_text [0, 255])), text) \<and>
    f_b64_pton text (Some [9, 9, 9]) 3 = Some (int (length [0, 255 :: byte]), Some u') \<and> take (length [0, 255 :: byte]) u' = [0, 255]"
  by (rule base64_roundtrip) (simp_all add: room_for_def)

end
