(* ===== verification/Spec2Isabelle.thy ===== *)
theory Spec2Isabelle
  imports Ldb_Store Ldb_Block_Spec Ldb_Filter_Block Ldb_Db_Iterator Ldb_Table_Get Ldb_Manifest Messages Pb_Encode_Spec Pb_Decode_Static Pb_Decode_Fields B64_Spec
begin

text \<open>
  CardPang is an iOS application (Swift views on top of CocoaPods).  The code of the repository that has logic of its
  own in C and C++ is in its pods, and this development verifies the parts that carry the application's data:

  \<^item> \<^emph>\<open>nanopb\<close> (\<^verbatim>\<open>Pods/nanopb\<close>), the protocol-buffer encoder and decoder, with the generated messages of the log
    transport (\<^verbatim>\<open>cct.nanopb.[ch]\<close>) and of the core diagnostics (\<^verbatim>\<open>firebasecore.nanopb.[ch]\<close>);
  \<^item> the \<^emph>\<open>base64\<close> routines of the web socket that the Firebase database uses (\<^verbatim>\<open>fbase64.c\<close>);
  \<^item> \<^emph>\<open>LevelDB\<close> (\<^verbatim>\<open>Pods/leveldb-library\<close>), the store behind the Firebase database: coding, checksum, write-ahead log, keys and
    comparators, skip list, write batches, memtable, the write path of the database with its recovery, the table files, the
    versions that say which tables hold which keys, and the iterators over blocks, over several sources and over the database.

  \<^bold>\<open>How the parts interact.\<close>  A message is encoded field by field through an output stream; the field iterator walks over
  a descriptor array and gives the address of every field of a structure in memory.  The decoder reads tags from an
  input stream, finds the field with the iterator, and stores into memory, allocating it for pointer fields.  In
  LevelDB, a write is put into a batch, the batch is appended to the log as one record, and then applied to the memtable; after
  a crash the records of the log are applied again.  A full memtable is written to a table file: blocks of sorted entries, a filter block,
  an index block and a footer.  A version lists the files of every level; the changes between versions are edits in the manifest,
  from which the current version is built again when the database is opened, and a lookup that the memtables do not answer goes through
  the files of the version.  A scan merges the iterators of several sources into one over internal keys, and the iterator of the database shows from it the newest values
  of a snapshot.

  \<^bold>\<open>Theories.\<close>
  \<^item> \<^verbatim>\<open>Pb_Prelude\<close>: lists, options, words and bytes that all components share; \<^verbatim>\<open>Varint\<close>: base-128 numbers as a format, shared by
    nanopb and LevelDB.
  \<^item> \<^verbatim>\<open>Pb_Types\<close> (\<^verbatim>\<open>pb.h\<close>), \<^verbatim>\<open>Pb_Memory\<close> (blocks of memory with addresses), \<^verbatim>\<open>Pb_Common\<close> (\<^verbatim>\<open>pb_common.c\<close>, the iterator),
    \<^verbatim>\<open>Pb_Callbacks\<close> (callbacks and extensions), \<^verbatim>\<open>Pb_Layout\<close> (structure layout and the descriptor macros of \<^verbatim>\<open>pb.h\<close>).
  \<^item> \<^verbatim>\<open>Pb_Ostream\<close>, \<^verbatim>\<open>Pb_Encode\<close> (\<^verbatim>\<open>pb_encode.c\<close>), \<^verbatim>\<open>Pb_Encode_Spec\<close>: the serialized form of a message as a function of memory, and that
    \<^verbatim>\<open>pb_encode\<close> writes it.
  \<^item> \<^verbatim>\<open>Pb_Istream\<close>, \<^verbatim>\<open>Pb_Wire\<close>, \<^verbatim>\<open>Pb_Decode\<close> (\<^verbatim>\<open>pb_decode.c\<close>), \<^verbatim>\<open>Pb_Decode_Stream\<close>, \<^verbatim>\<open>Pb_Decode_Static\<close> and
    \<^verbatim>\<open>Pb_Decode_Fields\<close>: the decoder, that it stays inside its input, that it returns on every input for messages stored in the structure,
    and its allocations.
  \<^item> \<^verbatim>\<open>Cct\<close>, \<^verbatim>\<open>Firebasecore\<close>, \<^verbatim>\<open>Messages\<close>: the generated structures, descriptors, initializers and sizes, and that they agree.
  \<^item> \<^verbatim>\<open>B64\<close>, \<^verbatim>\<open>B64_Spec\<close>: \<^verbatim>\<open>fbase64.c\<close> and base64 as a format.
  \<^item> \<^verbatim>\<open>Ldb_Coding\<close> (\<^verbatim>\<open>util/coding.*\<close>), \<^verbatim>\<open>Ldb_Crc32c\<close> (\<^verbatim>\<open>util/crc32c.*\<close>), \<^verbatim>\<open>Ldb_Env\<close> (status codes and files), \<^verbatim>\<open>Ldb_Log\<close> and
    \<^verbatim>\<open>Ldb_Log_Spec\<close> (\<^verbatim>\<open>db/log_*\<close>), \<^verbatim>\<open>Ldb_Format\<close> (\<^verbatim>\<open>util/comparator.cc\<close>, \<^verbatim>\<open>db/dbformat.*\<close>), \<^verbatim>\<open>Ldb_Skiplist\<close> and \<^verbatim>\<open>Ldb_Skiplist_Spec\<close>
    (\<^verbatim>\<open>db/skiplist.h\<close>, \<^verbatim>\<open>util/random.h\<close>), \<^verbatim>\<open>Ldb_Batch\<close> (\<^verbatim>\<open>db/write_batch.cc\<close>), \<^verbatim>\<open>Ldb_Memtable\<close> (\<^verbatim>\<open>db/memtable.*\<close>),
    \<^verbatim>\<open>Ldb_Db\<close> (group commit, lookup and recovery of \<^verbatim>\<open>db/db_impl.cc\<close>), \<^verbatim>\<open>Ldb_Room\<close> (its background calls, \<^verbatim>\<open>MakeRoomForWrite\<close> and \<^verbatim>\<open>Write\<close>, and the steps of the
    threads), \<^verbatim>\<open>Ldb_Store\<close> (the database as a map), \<^verbatim>\<open>Ldb_Block\<close> and \<^verbatim>\<open>Ldb_Block_Spec\<close> (\<^verbatim>\<open>table/block_builder.cc\<close>,
    \<^verbatim>\<open>table/block.cc\<close>), \<^verbatim>\<open>Ldb_Bloom\<close> (\<^verbatim>\<open>util/hash.cc\<close>, \<^verbatim>\<open>util/bloom.cc\<close>), \<^verbatim>\<open>Ldb_Filter_Block\<close> (\<^verbatim>\<open>table/filter_block.cc\<close>),
    \<^verbatim>\<open>Ldb_Version_Edit\<close> (\<^verbatim>\<open>db/version_edit.cc\<close>).
  \<^item> \<^verbatim>\<open>Ldb_Version\<close> (overlap, level of a memtable's table, compaction inputs), \<^verbatim>\<open>Ldb_Version_Get\<close> (\<^verbatim>\<open>Version::Get\<close>), \<^verbatim>\<open>Ldb_Version_Set\<close> (the builder of
    versions, recovery of the state), \<^verbatim>\<open>Ldb_Manifest\<close> (edits, log and builder together): \<^verbatim>\<open>db/version_set.cc\<close>.
  \<^item> \<^verbatim>\<open>Ldb_Table_Format\<close> (\<^verbatim>\<open>table/format.*\<close>), \<^verbatim>\<open>Ldb_Table_Builder\<close> (\<^verbatim>\<open>table/table_builder.cc\<close>), \<^verbatim>\<open>Ldb_Table_Layout\<close> (the file as a function of
    the entries), \<^verbatim>\<open>Ldb_Table\<close> (\<^verbatim>\<open>table/table.cc\<close>), \<^verbatim>\<open>Ldb_Table_Spec\<close> (what opening and lookup give), \<^verbatim>\<open>Ldb_Cache\<close>, \<^verbatim>\<open>Ldb_Cache_Spec\<close>
    and \<^verbatim>\<open>Ldb_Cache_Client\<close> (\<^verbatim>\<open>util/cache.cc\<close>: the model, the invariant, sequences of calls), \<^verbatim>\<open>Ldb_Block_Cache\<close> (that cache as the block cache), \<^verbatim>\<open>Ldb_Table_Get\<close> (tables under internal
    keys, and the reads of a version from them).
  \<^item> \<^verbatim>\<open>Ldb_Iterator\<close> (\<^verbatim>\<open>include/leveldb/iterator.h\<close>: the interface, and sequences of moves), \<^verbatim>\<open>Ldb_Merger\<close> and \<^verbatim>\<open>Ldb_Merger_Spec\<close> (\<^verbatim>\<open>table/merger.cc\<close>,
    \<^verbatim>\<open>table/iterator_wrapper.h\<close>), \<^verbatim>\<open>Ldb_Block_Iter\<close> (block iterators as an implementation), \<^verbatim>\<open>Ldb_Db_Iter\<close> (\<^verbatim>\<open>db/db_iter.cc\<close>), \<^verbatim>\<open>Ldb_Db_Iter_Spec\<close> (its
    sampling and its loops), \<^verbatim>\<open>Ldb_Db_Iterator\<close> (its operations, and all iterators together).

  \<^bold>\<open>State and operations.\<close>  A C structure is a record, an enumeration a datatype or its constants, an integer a word of its width;
  memory that pointers reach is an explicit store of blocks in nanopb, an index into the arena in the skip list, and a
  byte list where the code only reads through a pointer with a length.  A function that changes its argument returns the
  changed value.  The result type \<^typ>\<open>'a option\<close> marks undefined behaviour (an access outside an object, a
  variable that was never set), so that a theorem which states a result also states that there is none; errors the code
  reports are values inside it.  Every definition keeps the name of what it models, suffixed where HOL has the name.

  \<^bold>\<open>What is shown.\<close>  For nanopb: the encoder writes exactly the serialized form, its size pass is exact, and its
  recursion ends; the decoder never leaves its input and its allocations do not overflow; scalars, tags and
  substreams round-trip; descriptors lead to the fields of the structures.  For base64: a round trip, and exactly which
  texts are accepted.  For LevelDB: every format reads back what was written; the fast checksum is CRC-32C; the log returns
  what was appended, also after a crash at any byte; skip list and memtable implement a sorted list and a
  history of writes; recovery gives back all committed groups and nothing
  else; a waiting writer always has a scheduled background call, and gets on; and the write path as a whole refines a map; a table block
  reads back in both directions, and a seek in it finds the first entry that is not before the target; filters hide no key; the
  records of the manifest read back, and recovery from them builds the version that the edits describe; a table file gives back the entries it was built from,
  through its index, filter and block cache; the LRU cache is memory safe under any sequence of calls and implements a map that may lose entries; a lookup in a version gives the newest entry of its files that the snapshot sees;
  any sequence of moves of the merging iterator shows the sorted merge of its children, and of the iterator of the database the values that lookups at its snapshot find.  The theorems on errors record where the code departs from what it means to do.

  \<^bold>\<open>Interfaces.\<close>  Locales state what one component relies on: \<open>codec\<close> (a value format that reads back), \<open>comparator\<close> and
  \<open>user_comparator\<close> (the order of keys, as documented in \<^verbatim>\<open>comparator.h\<close>), \<open>key_table\<close> (an ordered table), \<open>filter_policy\<close> (a filter without
  false negatives), \<open>block_cache\<close> (what a table relies on of the cache for its blocks,
  interpreted by the LRU cache), \<open>iterator_over\<close> (an iterator over ascending entries: block iterators, merges and the iterator of the database implement it) and \<open>db_iterator\<close>
  (the iterator of the database over any iterator of internal keys).  They are interpreted by the codecs, the Bloom filter, the bytewise comparator, the comparators of internal keys and of memtable entries, and the skip list.

  \<^bold>\<open>Recursion.\<close>  Loops over bytes are structural or have a measure.  The recursion of the encoder and of the
  decoder over submessages takes fuel; that the depth of nesting of the descriptors is enough for the encoder is proved.  The
  searches of the skip list, the eviction loop of the cache, and the loops of the iterator of the database with its read sampling are partial functions, and that they return is part of what is proved.

  \<^bold>\<open>Assumptions.\<close>  The configuration is that of the build (no \<^verbatim>\<open>PB_\<close> options, \<^verbatim>\<open>HAVE_CRC32C\<close> off, little-endian 64-bit target, assertions off).
  Callbacks are parameters; those of the encoder do not change memory.  \<^verbatim>\<open>realloc\<close> always moves.  Alignment is not
  checked.  White space is that of the C locale.  Files are given by the outcome of every call.

  \<^bold>\<open>Not modelled.\<close>  The Swift and Objective-C code (views, network sessions, system services); in LevelDB, the two-level
  iterator over the blocks of a table and the compaction of tables, the choice of a compaction (its scores are floating-point), the table
  cache, repair and dump tools and the C interface; the posix environment, threads and the memory order of atomic accesses; the arena's accounting of memory.
\<close>

end
